(* ===== verification/Prelude.thy ===== *)
theory Prelude
  imports Main "HOL-Library.Word" "HOL-Library.Monad_Syntax"
begin

text \<open>
  Shared vocabulary of the development: the fixed-width integer types of the kernel,
  the error value and error codes, the arithmetic macros of
  \<^verbatim>\<open>include/sys/math.h\<close> and \<^verbatim>\<open>next_pow2\<close>, and the generic lemmas on words, lists and
  loops over indices that the component theories rest on.

  Conventions. A \<^verbatim>\<open>uint64_t\<close> is a \<^typ>\<open>64 word\<close>, so every sum, difference
  and product wraps as it does in C. Arrays are lists, indexed by \<^const>\<open>unat\<close> of the
  C index. A \<^verbatim>\<open>for\<close> loop that only counts up to a bound is a fold or a search over
  the interval of its counter values.
\<close>

unbundle bit_operations_syntax

section \<open>Machine integers and error codes\<close>

type_synonym u8 = "8 word"
type_synonym u16 = "16 word"
type_synonym u32 = "32 word"
type_synonym u64 = "64 word"

definition ERR :: u64 where
  "ERR = - 1"

datatype errno =
    ENOENT | EAGAIN | ENOMEM | EACCES | EBUSY | EEXIST | EINVAL | EMFILE | EBADF
  | ENOSPC | ENAMETOOLONG | ELOOP | ENONET | EINTR | ETIMEDOUT

type_synonym 'a result = "errno + 'a"

section \<open>The macros of sys/math.h\<close>

definition MAX_u64 :: "u64 \<Rightarrow> u64 \<Rightarrow> u64" where
  "MAX_u64 x y = (if x > y then x else y)"

definition MIN_u64 :: "u64 \<Rightarrow> u64 \<Rightarrow> u64" where
  "MIN_u64 x y = (if x < y then x else y)"

definition ROUND_UP :: "u64 \<Rightarrow> u64 \<Rightarrow> u64" where
  "ROUND_UP number multiple = ((number + multiple - 1) div multiple) * multiple"

definition ROUND_DOWN :: "u64 \<Rightarrow> u64 \<Rightarrow> u64" where
  "ROUND_DOWN number multiple = (number div multiple) * multiple"

definition IS_POW2 :: "u64 \<Rightarrow> bool" where
  "IS_POW2 x \<longleftrightarrow> x AND (x - 1) = 0"

definition next_pow2 :: "u64 \<Rightarrow> u64" where
  "next_pow2 n =
     (if n \<le> 1 then 2
      else if n > 0 \<and> n AND (n - 1) = 0 then n
      else
        (let n = n - 1;
             n = n OR drop_bit 1 n;
             n = n OR drop_bit 2 n;
             n = n OR drop_bit 4 n;
             n = n OR drop_bit 8 n;
             n = n OR drop_bit 16 n;
             n = n OR drop_bit 32 n;
             n = n + 1
         in if n = 0 then drop_bit 1 (- 1) + 1 else n))"

text \<open>\<^verbatim>\<open>__builtin_ctzll\<close>: the number of trailing zero bits, undefined at 0 in C.\<close>

definition ctz64 :: "u64 \<Rightarrow> nat" where
  "ctz64 x = length (takeWhile (\<lambda>i. \<not> bit x i) [0..<64])"

section \<open>Words read as natural numbers\<close>

named_theorems u64_nat \<open>comparisons and arithmetic of words, moved to natural numbers\<close>

declare word_less_nat_alt [u64_nat] word_le_nat_alt [u64_nat]

lemma unat_u64_less [simp]: "unat (x :: u64) < 18446744073709551616"
  using unsigned_less [of x, where ?'a = nat] by simp

lemma unat_u64_le [simp]: "unat (x :: u64) \<le> 18446744073709551615"
  using unat_u64_less [of x] by linarith

lemma unat_add_u64:
  fixes a b :: u64
  assumes "unat a + unat b < 2 ^ 64"
  shows "unat (a + b) = unat a + unat b"
  using assms by (simp add: unat_word_ariths)

lemma unat_add_bounded_u64:
  fixes a b c :: u64
  assumes "unat a + unat b \<le> unat c"
  shows "unat (a + b) = unat a + unat b"
  by (intro unat_add_u64 le_less_trans [OF assms]) simp

lemma unat_sub_u64:
  fixes a b :: u64
  assumes "unat b \<le> unat a"
  shows "unat (a - b) = unat a - unat b"
  using assms by (simp add: unat_sub word_le_nat_alt)

lemma unat_Suc_u64:
  fixes a :: u64
  assumes "unat a < 2 ^ 64 - 1"
  shows "unat (a + 1) = Suc (unat a)"
  using assms unat_add_u64 [of a 1] by simp

lemma unat_MAX_u64 [simp]: "unat (MAX_u64 x y) = max (unat x) (unat y)"
  by (simp add: MAX_u64_def u64_nat)

lemma unat_MIN [simp]: "unat (MIN_u64 x y) = min (unat x) (unat y)"
  by (simp add: MIN_u64_def u64_nat)

lemma MIN_u64_le: "x \<le> z \<or> y \<le> z \<Longrightarrow> MIN_u64 x y \<le> z"
  by (auto simp: MIN_u64_def)

section \<open>Rounding\<close>

lemma round_up_nat_least:
  fixes n m :: nat
  assumes "0 < m"
  shows "n \<le> ((n + m - 1) div m) * m" and "((n + m - 1) div m) * m < n + m"
    and "m dvd k \<Longrightarrow> n \<le> k \<Longrightarrow> ((n + m - 1) div m) * m \<le> k"
proof -
  have eq: "(n + m - 1) div m * m = n + m - 1 - (n + m - 1) mod m"
    by (simp add: minus_mod_eq_div_mult [symmetric])
  have lt: "(n + m - 1) mod m < m" using assms by simp
  show "n \<le> ((n + m - 1) div m) * m" using eq lt assms by linarith
  show upper: "((n + m - 1) div m) * m < n + m" using eq lt assms by linarith
  assume k: "m dvd k" "n \<le> k"
  then obtain q where q: "k = q * m" by (metis dvdE mult.commute)
  show "((n + m - 1) div m) * m \<le> k"
  proof (rule ccontr)
    assume "\<not> ?thesis"
    then have "q * m < (n + m - 1) div m * m" using q by simp
    then have "q < (n + m - 1) div m" using assms by simp
    then have "(q + 1) * m \<le> (n + m - 1) div m * m" by (intro mult_right_mono) auto
    then have "k + m < n + m" using upper q by (simp add: algebra_simps)
    then show False using k by simp
  qed
qed

lemma unat_ROUND_UP:
  assumes "0 < unat m" and "unat n + unat m \<le> 2 ^ 64"
  shows "unat (ROUND_UP n m) = ((unat n + unat m - 1) div unat m) * unat m"
proof -
  have s: "unat (n + m - 1) = unat n + unat m - 1"
  proof -
    have "n + m - 1 = n + (m - 1)" by (rule add_diff_eq [symmetric])
    moreover have m1: "unat (m - 1) = unat m - 1"
      using assms(1) by (simp add: unat_sub_u64)
    moreover have "unat (n + (m - 1)) = unat n + unat (m - 1)"
      using assms m1 by (intro unat_add_u64) linarith
    ultimately show ?thesis using assms(1) by (simp only:)
  qed
  let ?q = "(unat n + unat m - 1) div unat m"
  have "?q * unat m \<le> unat n + unat m - 1" by simp
  then have b: "?q * unat m < 2 ^ 64" using assms by linarith
  show ?thesis
    using b by (simp add: ROUND_UP_def unat_word_ariths(2) unat_div s)
qed

section \<open>Computations that may fail\<close>

text \<open>A result in \<open>option\<close> is \<^const>\<open>None\<close> where the code panics (a failed
  \<^verbatim>\<open>assert\<close>), faults (a null pointer or an index outside an array) or never returns.
  \<open>assert_that\<close> is the \<^verbatim>\<open>assert\<close> macro of a debug build, \<open>for_each\<close> a loop over
  the given counter values whose body may fail.\<close>

definition assert_that :: "bool \<Rightarrow> unit option" where
  "assert_that b = (if b then Some () else None)"

primrec for_each :: "('i \<Rightarrow> 's \<Rightarrow> 's option) \<Rightarrow> 'i list \<Rightarrow> 's \<Rightarrow> 's option" where
  "for_each f [] s = Some s"
| "for_each f (i # is) s = f i s \<bind> for_each f is"

lemma assert_that_simps [simp]:
  "assert_that True = Some ()" "assert_that False = None"
  "assert_that b = Some u \<longleftrightarrow> b" "assert_that b = None \<longleftrightarrow> \<not> b"
  by (auto simp: assert_that_def)

lemma for_each_append:
  "for_each f (xs @ ys) s = for_each f xs s \<bind> for_each f ys"
  by (induction xs arbitrary: s) (simp_all split: bind_split)

text \<open>A loop whose body keeps an invariant indexed by the number of finished rounds runs to
  the end.\<close>

lemma for_each_invariant:
  assumes "P 0 s"
    and "\<And>n s. n < length is \<Longrightarrow> P n s \<Longrightarrow> \<exists>s'. f (is ! n) s = Some s' \<and> P (Suc n) s'"
  shows "\<exists>s'. for_each f is s = Some s' \<and> P (length is) s'"
  using assms
proof (induction "is" arbitrary: P s)
  case Nil
  then show ?case by simp
next
  case (Cons i "is")
  from Cons.prems(2) [of 0] Cons.prems(1) obtain s1 where s1: "f i s = Some s1" "P 1 s1"
    by auto
  have "\<exists>s'. for_each f is s1 = Some s' \<and> P (Suc (length is)) s'"
    by (rule Cons.IH [where P = "\<lambda>n. P (Suc n)"]) (use s1 Cons.prems(2) in force)+
  with s1 show ?case by simp
qed

section \<open>Lists updated along an interval of indices\<close>

lemma nth_update_in_range:
  assumes "j < length xs"
  shows "xs[i := x] ! j = (if i = j then x else xs ! j)"
  using assms by (cases "i = j") auto

lemma length_foldl_update [simp]:
  "length (foldl (\<lambda>b i. b[i := f i]) xs is) = length xs"
  by (induction "is" arbitrary: xs) auto

lemma nth_foldl_update:
  assumes "k < length xs"
  shows "foldl (\<lambda>b i. b[i := f i]) xs is ! k = (if k \<in> set is then f k else xs ! k)"
  using assms by (induction "is" arbitrary: xs) (auto simp: nth_list_update)

section \<open>Searches over an interval of indices\<close>

lemma find_upt_Some:
  "List.find P [a..<b] = Some i \<longleftrightarrow> a \<le> i \<and> i < b \<and> P i \<and> (\<forall>j. a \<le> j \<and> j < i \<longrightarrow> \<not> P j)"
proof -
  have "List.find P [a..<b] = Some i \<longleftrightarrow>
          (\<exists>n < b - a. P (a + n) \<and> i = a + n \<and> (\<forall>j < n. \<not> P (a + j)))"
    by (auto simp: find_Some_iff)
  also have "\<dots> \<longleftrightarrow> a \<le> i \<and> i < b \<and> P i \<and> (\<forall>j. a \<le> j \<and> j < i \<longrightarrow> \<not> P j)"
    by (auto simp: le_iff_add nat_add_left_cancel_less less_diff_conv2)
  finally show ?thesis .
qed

lemma find_upt_None: "List.find P [a..<b] = None \<longleftrightarrow> (\<forall>j. a \<le> j \<and> j < b \<longrightarrow> \<not> P j)"
  by (auto simp: find_None_iff)

section \<open>Bits of words\<close>

lemma ctz64_bit:
  assumes "x \<noteq> 0"
  shows "bit x (ctz64 x)" and "i < ctz64 x \<Longrightarrow> \<not> bit x i" and "ctz64 x < 64"
proof -
  let ?P = "\<lambda>i. \<not> bit x i" and ?xs = "[0..<64::nat]"
  from assms obtain n where n: "bit x n" by (auto simp: bit_eq_iff)
  then have "n < 64" using bit_imp_le_length by fastforce
  with n have ne: "takeWhile ?P ?xs \<noteq> ?xs"
    by (metis atLeastLessThan_iff atLeastLessThan_upt le0 set_takeWhileD)
  then have len: "length (takeWhile ?P ?xs) < length ?xs"
    by (metis length_takeWhile_le nat_less_le takeWhile_eq_take take_all_iff linorder_not_le)
  then show "ctz64 x < 64" by (simp add: ctz64_def)
  from nth_length_takeWhile [OF len] len show "bit x (ctz64 x)" by (simp add: ctz64_def)
  show "i < ctz64 x \<Longrightarrow> \<not> bit x i"
  proof -
    assume i: "i < ctz64 x"
    then have "takeWhile ?P ?xs ! i = i"
      using len by (simp add: ctz64_def takeWhile_nth)
    moreover have "?P (takeWhile ?P ?xs ! i)"
      using i by (metis ctz64_def nth_mem set_takeWhileD)
    ultimately show ?thesis by simp
  qed
qed

lemma bit_minus_one_u64 [simp]: "bit (- 1 :: u64) i \<longleftrightarrow> i < 64"
  by simp

end
