(* ===== verification/Bitmap.thy ===== *)
theory Bitmap
  imports Prelude
begin

text \<open>
  The bitmap of \<^verbatim>\<open>include/sys/bitmap.h\<close>: a bit array kept in 64-bit words with a
  lower bound on the first clear bit. Every operation of the header is a definition here.
  \<open>bitmap_wf\<close> is the invariant (the buffer covers the length, and every bit below
  \<open>firstZeroIdx\<close> is set), \<open>bit_at\<close> the abstract view as a function from indices
  to booleans. The lemmas show what each operation does to that view, that the two searches
  find the first clear and the first set bit, and that the region allocator returns an
  aligned clear region exactly when there is one.
\<close>

unbundle bit_operations_syntax

section \<open>State and operations\<close>

record bitmap =
  firstZeroIdx :: u64
  bm_length :: u64
  bm_buffer :: "u64 list"

definition BITMAP_BITS_TO_QWORDS :: "u64 \<Rightarrow> u64" where
  "BITMAP_BITS_TO_QWORDS bits = (bits + 63) div 64"

definition bitmap_init :: "u64 list \<Rightarrow> u64 \<Rightarrow> bitmap" where
  "bitmap_init buffer len =
     \<lparr>firstZeroIdx = 0, bm_length = len, bm_buffer = buffer\<rparr>"

text \<open>\<^verbatim>\<open>BITMAP_DEFINE_INIT\<close> also clears the buffer, \<^verbatim>\<open>BITMAP_CREATE_ONE\<close> is a
  C initialiser \<^verbatim>\<open>{-1ULL}\<close>: it names the first word only, the others are zero.\<close>

definition BITMAP_DEFINE_INIT :: "u64 \<Rightarrow> bitmap" where
  "BITMAP_DEFINE_INIT bits = bitmap_init (replicate (unat (BITMAP_BITS_TO_QWORDS bits)) 0) bits"

definition BITMAP_CREATE_ONE :: "u64 \<Rightarrow> bitmap" where
  "BITMAP_CREATE_ONE bits =
     \<lparr>firstZeroIdx = 0, bm_length = bits,
      bm_buffer = (replicate (unat (BITMAP_BITS_TO_QWORDS bits)) 0)[0 := - 1]\<rparr>"

definition bitmap_is_empty :: "bitmap \<Rightarrow> bool" where
  "bitmap_is_empty bm =
     (let fullQwords = bm_length bm div 64 in
      if \<exists>i \<in> set [0..<unat fullQwords]. bm_buffer bm ! i \<noteq> 0 then False
      else
        (let remainingBits = bm_length bm mod 64 in
         if remainingBits \<noteq> 0 \<and>
            bm_buffer bm ! unat fullQwords AND (push_bit (unat remainingBits) 1 - 1) \<noteq> 0
         then False else True))"

definition bitmap_is_set :: "bitmap \<Rightarrow> u64 \<Rightarrow> bool" where
  "bitmap_is_set bm idx =
     (if idx \<ge> bm_length bm then False
      else
        (let qwordIdx = idx div 64; bitInQword = idx mod 64
         in bm_buffer bm ! unat qwordIdx AND push_bit (unat bitInQword) 1 \<noteq> 0))"

definition bitmap_set :: "bitmap \<Rightarrow> u64 \<Rightarrow> bitmap" where
  "bitmap_set bm index =
     (if index \<ge> bm_length bm then bm
      else
        (let qwordIdx = unat (index div 64); bitInQword = unat (index mod 64)
         in bm\<lparr>bm_buffer := (bm_buffer bm)
                  [qwordIdx := bm_buffer bm ! qwordIdx OR push_bit bitInQword 1]\<rparr>))"

definition bitmap_set_range :: "bitmap \<Rightarrow> u64 \<Rightarrow> u64 \<Rightarrow> bitmap" where
  "bitmap_set_range bm low high =
     (if low \<ge> high \<or> high > bm_length bm then bm
      else
        (let firstQwordIdx = unat (low div 64);
             firstBitInQword = unat (low mod 64);
             lastQwordIdx = unat ((high - 1) div 64);
             lastBitInQword = unat ((high - 1) mod 64)
         in if firstQwordIdx = lastQwordIdx
            then
              (let mask = push_bit firstBitInQword (- 1) AND drop_bit (63 - lastBitInQword) (- 1)
               in bm\<lparr>bm_buffer := (bm_buffer bm)
                        [firstQwordIdx := bm_buffer bm ! firstQwordIdx OR mask]\<rparr>)
            else
              (let b = (bm_buffer bm)
                     [firstQwordIdx := bm_buffer bm ! firstQwordIdx OR push_bit firstBitInQword (- 1)];
                   b = foldl (\<lambda>b i. b[i := - 1]) b [firstQwordIdx + 1..<lastQwordIdx];
                   b = b[lastQwordIdx := b ! lastQwordIdx OR drop_bit (63 - lastBitInQword) (- 1)]
               in bm\<lparr>bm_buffer := b\<rparr>)))"

definition bitmap_clear :: "bitmap \<Rightarrow> u64 \<Rightarrow> bitmap" where
  "bitmap_clear bm index =
     (if index \<ge> bm_length bm then bm
      else
        (let qwordIdx = unat (index div 64); bitInQword = unat (index mod 64)
         in bm\<lparr>bm_buffer := (bm_buffer bm)
                  [qwordIdx := bm_buffer bm ! qwordIdx AND NOT (push_bit bitInQword 1)],
                firstZeroIdx := MIN_u64 (firstZeroIdx bm) index\<rparr>))"

definition bitmap_clear_range :: "bitmap \<Rightarrow> u64 \<Rightarrow> u64 \<Rightarrow> bitmap" where
  "bitmap_clear_range bm low high =
     (if low \<ge> high \<or> high > bm_length bm then bm
      else
        (let bm = (if low < firstZeroIdx bm then bm\<lparr>firstZeroIdx := low\<rparr> else bm);
             firstQwordIdx = unat (low div 64);
             firstBitInQword = unat (low mod 64);
             lastQwordIdx = unat ((high - 1) div 64);
             lastBitInQword = unat ((high - 1) mod 64)
         in if firstQwordIdx = lastQwordIdx
            then
              (let mask = push_bit firstBitInQword (- 1) AND drop_bit (63 - lastBitInQword) (- 1)
               in bm\<lparr>bm_buffer := (bm_buffer bm)
                        [firstQwordIdx := bm_buffer bm ! firstQwordIdx AND NOT mask]\<rparr>)
            else
              (let b = (bm_buffer bm)
                     [firstQwordIdx :=
                        bm_buffer bm ! firstQwordIdx AND NOT (push_bit firstBitInQword (- 1))];
                   b = foldl (\<lambda>b i. b[i := 0]) b [firstQwordIdx + 1..<lastQwordIdx];
                   b = b[lastQwordIdx :=
                          b ! lastQwordIdx AND NOT (drop_bit (63 - lastBitInQword) (- 1))]
               in bm\<lparr>bm_buffer := b\<rparr>)))"

text \<open>The word loops of the two searches return at the first word that is not full
  (respectively not empty after masking): a \<^const>\<open>List.find\<close> over the word indices.\<close>

definition bitmap_find_first_clear :: "bitmap \<Rightarrow> u64 \<Rightarrow> u64 \<Rightarrow> u64" where
  "bitmap_find_first_clear bm startIdx endIdx =
     (if firstZeroIdx bm \<ge> bm_length bm then bm_length bm
      else
        (let startIdx = MAX_u64 startIdx (firstZeroIdx bm);
             qwordIdx = startIdx div 64;
             bitIdx = startIdx mod 64;
             endQwordIdx = BITMAP_BITS_TO_QWORDS (MIN_u64 endIdx (bm_length bm));
             maskedQword = bm_buffer bm ! unat qwordIdx OR (push_bit (unat bitIdx) 1 - 1)
         in if bitIdx \<noteq> 0 \<and> maskedQword \<noteq> - 1
            then
              (let res = qwordIdx * 64 + of_nat (ctz64 (NOT maskedQword))
               in if res < endIdx then res else bm_length bm)
            else
              (let qwordIdx = (if bitIdx \<noteq> 0 then qwordIdx + 1 else qwordIdx) in
               case List.find (\<lambda>i. bm_buffer bm ! i \<noteq> - 1) [unat qwordIdx..<unat endQwordIdx] of
                 Some i \<Rightarrow>
                   (let res = of_nat i * 64 + of_nat (ctz64 (NOT (bm_buffer bm ! i)))
                    in if res < endIdx then res else bm_length bm)
               | None \<Rightarrow> bm_length bm)))"

definition first_set_qword :: "bitmap \<Rightarrow> u64 \<Rightarrow> nat \<Rightarrow> u64" where
  "first_set_qword bm startIdx i =
     (if i = unat (startIdx div 64) \<and> startIdx mod 64 \<noteq> 0
      then bm_buffer bm ! i AND NOT (push_bit (unat (startIdx mod 64)) 1 - 1)
      else bm_buffer bm ! i)"

definition bitmap_find_first_set :: "bitmap \<Rightarrow> u64 \<Rightarrow> u64 \<Rightarrow> u64" where
  "bitmap_find_first_set bm startIdx endIdx =
     (if startIdx \<ge> bm_length bm then bm_length bm
      else
        (let startQwordIdx = startIdx div 64;
             endQwordIdx = BITMAP_BITS_TO_QWORDS (MIN_u64 endIdx (bm_length bm))
         in case List.find (\<lambda>i. first_set_qword bm startIdx i \<noteq> 0)
                   [unat startQwordIdx..<unat endQwordIdx] of
              Some i \<Rightarrow>
                (let res = of_nat i * 64 + of_nat (ctz64 (first_set_qword bm startIdx i))
                 in if res < endIdx then res else bm_length bm)
            | None \<Rightarrow> bm_length bm))"

text \<open>The search loop of \<^verbatim>\<open>bitmap_find_clear_region_and_set\<close>. Its bound
  \<^verbatim>\<open>maxIdx - length\<close> wraps when the region is longer than \<^verbatim>\<open>maxIdx\<close>, and the loop
  may then run forever: \<^const>\<open>None\<close> is a call that does not return.\<close>

partial_function (option) region_loop ::
  "bitmap \<Rightarrow> u64 \<Rightarrow> u64 \<Rightarrow> u64 \<Rightarrow> u64 \<Rightarrow> (u64 \<times> bitmap) option" where
  "region_loop bm maxIdx len alignment idx =
     (if idx \<le> maxIdx - len
      then
        (let firstSet = bitmap_find_first_set bm idx (idx + len) in
         if firstSet \<ge> idx + len
         then Some (idx, bitmap_set_range bm idx (idx + len))
         else region_loop bm maxIdx len alignment (ROUND_UP (firstSet + 1) alignment))
      else Some (bm_length bm, bm))"

definition bitmap_find_clear_region_and_set ::
  "bitmap \<Rightarrow> u64 \<Rightarrow> u64 \<Rightarrow> u64 \<Rightarrow> u64 \<Rightarrow> (u64 \<times> bitmap) option" where
  "bitmap_find_clear_region_and_set bm minIdx maxIdx len alignment =
     (if len = 0 \<or> minIdx \<ge> maxIdx \<or> maxIdx > bm_length bm then Some (bm_length bm, bm)
      else
        (let alignment = (if alignment = 0 then 1 else alignment);
             idx = MAX_u64 minIdx (firstZeroIdx bm);
             idx = ROUND_UP idx alignment
         in region_loop bm maxIdx len alignment idx))"


section \<open>The abstract view and the invariant\<close>

definition bit_at :: "bitmap \<Rightarrow> nat \<Rightarrow> bool" where
  "bit_at bm i \<longleftrightarrow> bit (bm_buffer bm ! (i div 64)) (i mod 64)"

definition bitmap_wf :: "bitmap \<Rightarrow> bool" where
  "bitmap_wf bm \<longleftrightarrow>
     unat (bm_length bm) \<le> 64 * length (bm_buffer bm) \<and>
     unat (bm_length bm) < 2 ^ 64 - 64 \<and>
     firstZeroIdx bm \<le> bm_length bm \<and>
     (\<forall>i < min (unat (firstZeroIdx bm)) (unat (bm_length bm)). bit_at bm i)"

abbreviation bm_size :: "bitmap \<Rightarrow> nat" where
  "bm_size bm \<equiv> unat (bm_length bm)"

named_theorems bitmap_view \<open>how the operations change the abstract view\<close>

lemma and_exp_neq_0: "x AND 2 ^ n \<noteq> 0 \<longleftrightarrow> bit (x :: u64) n"
  using bit_iff_and_push_bit_not_eq_0 [of x n] by simp

lemma unat_div_64: "unat ((x :: u64) div 64) = unat x div 64"
  by (simp add: unat_div)

lemma unat_mod_64: "unat ((x :: u64) mod 64) = unat x mod 64"
  by (simp add: unat_mod)

lemma mod_64_eq_0: "(x :: u64) mod 64 = 0 \<longleftrightarrow> unat x mod 64 = 0"
  by (metis unat_mod_64 unat_eq_zero)

lemmas qword_index = unat_div_64 unat_mod_64 mod_64_eq_0

lemma bitmap_is_set_iff:
  "bitmap_is_set bm idx \<longleftrightarrow> unat idx < bm_size bm \<and> bit_at bm (unat idx)"
  by (simp add: bitmap_is_set_def bit_at_def and_exp_neq_0 qword_index u64_nat not_le)

lemma bitmap_set_fields [simp]:
  "firstZeroIdx (bitmap_set bm i) = firstZeroIdx bm"
  "bm_length (bitmap_set bm i) = bm_length bm"
  "length (bm_buffer (bitmap_set bm i)) = length (bm_buffer bm)"
  by (simp_all add: bitmap_set_def Let_def)

lemma bitmap_clear_fields [simp]:
  "bm_length (bitmap_clear bm i) = bm_length bm"
  "length (bm_buffer (bitmap_clear bm i)) = length (bm_buffer bm)"
  by (simp_all add: bitmap_clear_def Let_def)

lemma bitmap_set_range_fields [simp]:
  "firstZeroIdx (bitmap_set_range bm l h) = firstZeroIdx bm"
  "bm_length (bitmap_set_range bm l h) = bm_length bm"
  "length (bm_buffer (bitmap_set_range bm l h)) = length (bm_buffer bm)"
  by (simp_all add: bitmap_set_range_def Let_def)

lemma bitmap_clear_range_fields [simp]:
  "bm_length (bitmap_clear_range bm l h) = bm_length bm"
  "length (bm_buffer (bitmap_clear_range bm l h)) = length (bm_buffer bm)"
  by (simp_all add: bitmap_clear_range_def Let_def)

lemma bit_at_bitmap_set [bitmap_view]:
  assumes "bitmap_wf bm" and "i < bm_size bm"
  shows "bit_at (bitmap_set bm idx) i \<longleftrightarrow> i = unat idx \<or> bit_at bm i"
proof -
  have b: "i div 64 < length (bm_buffer bm)"
    using assms by (simp add: bitmap_wf_def less_mult_imp_div_less mult.commute)
  have "i = unat idx \<longleftrightarrow> i div 64 = unat idx div 64 \<and> i mod 64 = unat idx mod 64"
    by (metis div_mult_mod_eq)
  with b assms(2) show ?thesis
    by (auto simp: bit_at_def bitmap_set_def Let_def nth_update_in_range bit_simps qword_index u64_nat)
qed

lemma bit_at_bitmap_clear [bitmap_view]:
  assumes "bitmap_wf bm" and "i < bm_size bm"
  shows "bit_at (bitmap_clear bm idx) i \<longleftrightarrow> i \<noteq> unat idx \<and> bit_at bm i"
proof -
  have b: "i div 64 < length (bm_buffer bm)"
    using assms by (simp add: bitmap_wf_def less_mult_imp_div_less mult.commute)
  have "i = unat idx \<longleftrightarrow> i div 64 = unat idx div 64 \<and> i mod 64 = unat idx mod 64"
    by (metis div_mult_mod_eq)
  with b assms(2) show ?thesis
    by (auto simp: bit_at_def bitmap_clear_def Let_def nth_update_in_range bit_simps qword_index u64_nat)
qed


lemma le_qword_lex:
  "(a :: nat) \<le> b \<longleftrightarrow> a div 64 < b div 64 \<or> a div 64 = b div 64 \<and> a mod 64 \<le> b mod 64"
proof -
  have "a = 64 * (a div 64) + a mod 64" "b = 64 * (b div 64) + b mod 64" by simp_all
  moreover have "a mod 64 < 64" "b mod 64 < 64" by simp_all
  ultimately show ?thesis by linarith
qed

lemma bit_high_mask: "j < 64 \<Longrightarrow> bit (push_bit f (- 1) :: u64) j \<longleftrightarrow> f \<le> j"
  by (auto simp: bit_simps)

lemma bit_low_mask: "j < 64 \<Longrightarrow> l < 64 \<Longrightarrow> bit (drop_bit (63 - l) (- 1) :: u64) j \<longleftrightarrow> j \<le> l"
  by (auto simp: bit_simps)

lemma unat_minus_1_of_less: "low < high \<Longrightarrow> unat ((high :: u64) - 1) = unat high - 1"
  by (rule unat_minus_one) auto

text \<open>Both range operations combine every word with the mask of the range's bits in it.\<close>

definition range_mask :: "nat \<Rightarrow> nat \<Rightarrow> nat \<Rightarrow> nat \<Rightarrow> nat \<Rightarrow> u64" where
  "range_mask a b c d k =
     (if k < a \<or> c < k then 0
      else if a = c then push_bit b (- 1) AND drop_bit (63 - d) (- 1)
      else if k = a then push_bit b (- 1)
      else if k = c then drop_bit (63 - d) (- 1) else - 1)"

lemma bit_range_mask:
  assumes "j < 64" and "b < 64" and "d < 64" and "a \<le> c"
  shows "bit (range_mask a b c d k) j \<longleftrightarrow>
           (a < k \<or> a = k \<and> b \<le> j) \<and> (k < c \<or> k = c \<and> j \<le> d)"
proof -
  consider "k < a" | "c < k" | "a = c" "k = a" | "a < c" "k = a" | "a < c" "k = c"
    | "a < k" "k < c"
    using assms(4) by linarith
  then show ?thesis
    using assms(1-3)
    by cases (auto simp: range_mask_def bit_simps)
qed

lemma bit_range_mask_index:
  assumes "low < high"
  shows "bit (range_mask (unat low div 64) (unat low mod 64)
                ((unat high - 1) div 64) ((unat high - 1) mod 64) (i div 64)) (i mod 64) \<longleftrightarrow>
         unat low \<le> i \<and> i < unat (high :: u64)"
proof -
  have last: "i < unat high \<longleftrightarrow> i \<le> unat high - 1" using assms by (auto simp: u64_nat)
  have le: "unat low div 64 \<le> (unat high - 1) div 64"
    using assms by (intro div_le_mono) (auto simp: u64_nat)
  show ?thesis
    unfolding last le_qword_lex [of "unat low" i] le_qword_lex [of i "unat high - 1"]
    by (subst bit_range_mask) (use le in auto)
qed

lemma nth_bitmap_set_range:
  assumes "low < high" and "high \<le> bm_length bm" and "k < length (bm_buffer bm)"
  shows "bm_buffer (bitmap_set_range bm low high) ! k =
           bm_buffer bm ! k OR range_mask (unat low div 64) (unat low mod 64)
                ((unat high - 1) div 64) ((unat high - 1) mod 64) k"
proof -
  let ?a = "unat low div 64" and ?c = "(unat high - 1) div 64"
  have le: "?a \<le> ?c"
    using assms(1) by (intro div_le_mono) (auto simp: u64_nat)
  have g: "\<not> (low \<ge> high \<or> high > bm_length bm)" using assms by auto
  consider "k < ?a" "k \<noteq> ?c" | "?c < k" "k \<noteq> ?a" | "?a = ?c" "k = ?a" | "?a < ?c" "k = ?a" | "?a < ?c" "k = ?c"
    | "?a < k" "k < ?c"
    using le by linarith
  then show ?thesis
    using assms(3)
    by cases (simp_all add: bitmap_set_range_def Let_def g qword_index
        unat_minus_1_of_less [OF assms(1)] range_mask_def nth_update_in_range nth_foldl_update)
qed

lemma nth_bitmap_clear_range:
  assumes "low < high" and "high \<le> bm_length bm" and "k < length (bm_buffer bm)"
  shows "bm_buffer (bitmap_clear_range bm low high) ! k =
           bm_buffer bm ! k AND NOT (range_mask (unat low div 64) (unat low mod 64)
                ((unat high - 1) div 64) ((unat high - 1) mod 64) k)"
proof -
  let ?a = "unat low div 64" and ?c = "(unat high - 1) div 64"
  have le: "?a \<le> ?c"
    using assms(1) by (intro div_le_mono) (auto simp: u64_nat)
  have g: "\<not> (low \<ge> high \<or> high > bm_length bm)" using assms by auto
  consider "k < ?a" "k \<noteq> ?c" | "?c < k" "k \<noteq> ?a" | "?a = ?c" "k = ?a" | "?a < ?c" "k = ?a" | "?a < ?c" "k = ?c"
    | "?a < k" "k < ?c"
    using le by linarith
  then show ?thesis
    using assms(3)
    by cases (simp_all add: bitmap_clear_range_def Let_def g qword_index
        unat_minus_1_of_less [OF assms(1)] range_mask_def nth_update_in_range nth_foldl_update)
qed

lemma qword_in_buffer:
  "bitmap_wf bm \<Longrightarrow> i < bm_size bm \<Longrightarrow> i div 64 < length (bm_buffer bm)"
  by (simp add: bitmap_wf_def less_mult_imp_div_less mult.commute)

lemma bit_at_bitmap_set_range [bitmap_view]:
  assumes "bitmap_wf bm" and "i < bm_size bm" and r: "low < high" "high \<le> bm_length bm"
  shows "bit_at (bitmap_set_range bm low high) i \<longleftrightarrow>
           (unat low \<le> i \<and> i < unat high) \<or> bit_at bm i"
  using qword_in_buffer [OF assms(1,2)] bit_range_mask_index [OF r(1), of i]
  by (auto simp: bit_at_def nth_bitmap_set_range [OF r] bit_or_iff)

lemma bit_at_bitmap_clear_range [bitmap_view]:
  assumes "bitmap_wf bm" and "i < bm_size bm" and r: "low < high" "high \<le> bm_length bm"
  shows "bit_at (bitmap_clear_range bm low high) i \<longleftrightarrow>
           \<not> (unat low \<le> i \<and> i < unat high) \<and> bit_at bm i"
  using qword_in_buffer [OF assms(1,2)] bit_range_mask_index [OF r(1), of i]
  by (auto simp: bit_at_def nth_bitmap_clear_range [OF r] bit_and_iff bit_not_iff)


section \<open>Preservation of the invariant\<close>

lemma bitmap_wf_set [intro]: "bitmap_wf bm \<Longrightarrow> bitmap_wf (bitmap_set bm i)"
  by (simp add: bitmap_wf_def [of "bitmap_set bm i"] bit_at_bitmap_set) (simp add: bitmap_wf_def)

lemma bitmap_wf_set_range [intro]:
  assumes "bitmap_wf bm"
  shows "bitmap_wf (bitmap_set_range bm l h)"
proof (cases "l < h \<and> h \<le> bm_length bm")
  case True
  with assms show ?thesis
    by (simp add: bitmap_wf_def [of "bitmap_set_range bm l h"] bit_at_bitmap_set_range)
      (simp add: bitmap_wf_def)
next
  case False
  with assms show ?thesis by (auto simp: bitmap_set_range_def not_le not_less)
qed

lemma firstZeroIdx_clear:
  "firstZeroIdx (bitmap_clear bm i) =
     (if i < bm_length bm then MIN_u64 (firstZeroIdx bm) i else firstZeroIdx bm)"
  by (auto simp: bitmap_clear_def Let_def)

lemma firstZeroIdx_clear_range:
  "firstZeroIdx (bitmap_clear_range bm l h) =
     (if l < h \<and> h \<le> bm_length bm then MIN_u64 (firstZeroIdx bm) l else firstZeroIdx bm)"
  by (auto simp: bitmap_clear_range_def Let_def MIN_u64_def)

lemma bitmap_wf_clear [intro]:
  assumes "bitmap_wf bm"
  shows "bitmap_wf (bitmap_clear bm i)"
proof (cases "i < bm_length bm")
  case True
  with assms show ?thesis
    by (simp add: bitmap_wf_def [of "bitmap_clear bm i"] bit_at_bitmap_clear firstZeroIdx_clear)
      (simp add: bitmap_wf_def MIN_u64_le)
next
  case False
  with assms show ?thesis by (simp add: bitmap_clear_def not_less)
qed

lemma bitmap_wf_clear_range [intro]:
  assumes "bitmap_wf bm"
  shows "bitmap_wf (bitmap_clear_range bm l h)"
proof (cases "l < h \<and> h \<le> bm_length bm")
  case True
  with assms show ?thesis
    by (simp add: bitmap_wf_def [of "bitmap_clear_range bm l h"] bit_at_bitmap_clear_range
        firstZeroIdx_clear_range) (auto simp: bitmap_wf_def MIN_u64_le)
next
  case False
  with assms show ?thesis by (auto simp: bitmap_clear_range_def not_le not_less)
qed

section \<open>Emptiness\<close>

lemma bit_push_minus_1: "bit (push_bit n 1 - 1 :: u64) j \<longleftrightarrow> j < n \<and> j < 64"
  by (auto simp: bit_mask_iff [unfolded mask_eq_exp_minus_1])

lemma qword_zero_iff: "(w :: u64) = 0 \<longleftrightarrow> (\<forall>j < 64. \<not> bit w j)"
  by (auto simp: bit_eq_iff)

lemma all_bits_by_qword:
  "(\<forall>j < n. \<not> bit_at bm j) \<longleftrightarrow>
     (\<forall>i < n div 64. bm_buffer bm ! i = 0) \<and>
     (\<forall>j < n mod 64. \<not> bit (bm_buffer bm ! (n div 64)) j)"
proof (intro iffI conjI allI impI)
  assume all: "\<forall>j < n. \<not> bit_at bm j"
  show "bm_buffer bm ! i = 0" if "i < n div 64" for i
  proof -
    have "\<not> bit (bm_buffer bm ! i) j" if "j < 64" for j
    proof -
      have "64 * i + j < n" using \<open>i < n div 64\<close> that by linarith
      with all have "\<not> bit_at bm (64 * i + j)" by blast
      then show ?thesis using that by (simp add: bit_at_def)
    qed
    then show ?thesis by (simp add: qword_zero_iff)
  qed
  show "\<not> bit (bm_buffer bm ! (n div 64)) j" if "j < n mod 64" for j
  proof -
    have "64 * (n div 64) + j < n" using that mult_div_mod_eq [of 64 n] by linarith
    with all have "\<not> bit_at bm (64 * (n div 64) + j)" by blast
    moreover have "j < 64" using that by (meson less_trans mod_less_divisor zero_less_numeral)
    ultimately show ?thesis by (simp add: bit_at_def)
  qed
next
  fix j
  assume "(\<forall>i < n div 64. bm_buffer bm ! i = 0) \<and>
     (\<forall>j < n mod 64. \<not> bit (bm_buffer bm ! (n div 64)) j)" "j < n"
  moreover have "j div 64 < n div 64 \<or> j div 64 = n div 64 \<and> j mod 64 < n mod 64"
    using \<open>j < n\<close> le_qword_lex [of n j] by linarith
  ultimately show "\<not> bit_at bm j" by (auto simp: bit_at_def)
qed

lemma bitmap_is_empty_iff: "bitmap_is_empty bm \<longleftrightarrow> (\<forall>j < bm_size bm. \<not> bit_at bm j)"
proof -
  have "w AND (push_bit n 1 - 1) = 0 \<longleftrightarrow> (\<forall>j < n. \<not> bit w j)" if "n < 64" for w :: u64 and n
    using that
    by (simp add: qword_zero_iff bit_and_iff bit_push_minus_1 del: push_bit_of_1)
      (meson less_trans)
  from this [of "bm_size bm mod 64"] show ?thesis
    by (auto simp: bitmap_is_empty_def Let_def all_bits_by_qword qword_index
        simp del: push_bit_of_1)
qed

section \<open>The searches\<close>

lemma bit_first_set_qword:
  assumes "unat start div 64 \<le> i" and "j < 64"
  shows "bit (first_set_qword bm start i) j \<longleftrightarrow> unat start \<le> 64 * i + j \<and> bit_at bm (64 * i + j)"
proof -
  have "unat start \<le> 64 * i + j \<longleftrightarrow>
          unat start div 64 < i \<or> unat start div 64 = i \<and> unat start mod 64 \<le> j"
    using le_qword_lex [of "unat start" "64 * i + j"] assms(2) by simp
  with assms show ?thesis
    by (auto simp: first_set_qword_def bit_at_def bit_and_iff bit_not_iff bit_push_minus_1
        qword_index simp del: push_bit_of_1)
qed


lemma unat_BITS_TO_QWORDS:
  assumes "unat x < 2 ^ 64 - 64"
  shows "unat (BITMAP_BITS_TO_QWORDS x) = (unat x + 63) div 64"
proof -
  have "unat (x + 63) = unat x + 63"
    using assms unat_add_u64 [of x 63] by simp
  then show ?thesis by (simp add: BITMAP_BITS_TO_QWORDS_def qword_index)
qed

lemma qword_before_end: "i < (e + 63) div 64 \<Longrightarrow> 64 * i < (e :: nat)"
  by linarith

lemma index_in_qwords: "t < (e :: nat) \<Longrightarrow> t div 64 < (e + 63) div 64"
  by linarith

lemma unat_of_bit_index:
  assumes "64 * i + c < 2 ^ 64"
  shows "unat (of_nat i * 64 + of_nat c :: u64) = 64 * i + c"
proof -
  have "(of_nat i * 64 + of_nat c :: u64) = of_nat (64 * i + c)" by simp
  then show ?thesis using assms by (simp only: unat_of_nat) simp
qed

lemma ctz64_first:
  assumes "w \<noteq> 0" and "\<And>j. j < 64 \<Longrightarrow> bit w j \<longleftrightarrow> P (64 * i + j)"
  shows "P (64 * i + ctz64 w)" and "ctz64 w < 64"
    and "\<And>t. t div 64 = i \<Longrightarrow> t < 64 * i + ctz64 w \<Longrightarrow> \<not> P t"
proof -
  show c: "ctz64 w < 64" using ctz64_bit [OF assms(1)] by simp
  then show "P (64 * i + ctz64 w)" using ctz64_bit [OF assms(1)] assms(2) by blast
  fix t assume t: "t div 64 = i" "t < 64 * i + ctz64 w"
  have "t = 64 * i + t mod 64" using t(1) by (metis mult_div_mod_eq)
  moreover have "t mod 64 < ctz64 w" using t by presburger
  ultimately show "\<not> P t"
    using ctz64_bit(2) [OF assms(1)] assms(2) [of "t mod 64"]
    by (metis mod_less_divisor zero_less_numeral)
qed

text \<open>The common core of the two searches: the first index of \<open>[s, e)\<close> with property
  \<open>P\<close>, found word by word, where word \<open>i\<close> holds the bits \<open>P (64 * i + j)\<close>.\<close>

lemma qword_search:
  assumes "\<And>i j. s div 64 \<le> i \<Longrightarrow> i < (e + 63) div 64 \<Longrightarrow> j < 64 \<Longrightarrow>
             bit (w i :: u64) j \<longleftrightarrow> s \<le> 64 * i + j \<and> P (64 * i + j)"
    and "e < 2 ^ 64 - 64"
    and "r = (case List.find (\<lambda>i. w i \<noteq> 0) [s div 64..<(e + 63) div 64] of
                Some i \<Rightarrow> (let res = of_nat i * 64 + of_nat (ctz64 (w i))
                           in if unat (res :: u64) < e then Some (unat res) else None)
              | None \<Rightarrow> None)"
  shows "case r of Some t \<Rightarrow> s \<le> t \<and> t < e \<and> P t \<and> (\<forall>u. s \<le> u \<and> u < t \<longrightarrow> \<not> P u)
         | None \<Rightarrow> \<forall>u. s \<le> u \<and> u < e \<longrightarrow> \<not> P u"
proof -
  let ?Q = "\<lambda>t. s \<le> t \<and> P t"
  have zero: "\<not> P u" if "w (u div 64) = 0" "s \<le> u" "u < e" for u
  proof -
    have "s div 64 \<le> u div 64" "u div 64 < (e + 63) div 64"
      using that index_in_qwords by (auto intro: div_le_mono)
    from assms(1) [OF this, of "u mod 64"] that show ?thesis by simp
  qed
  show ?thesis
  proof (cases "List.find (\<lambda>i. w i \<noteq> 0) [s div 64..<(e + 63) div 64]")
    case None
    then have "w i = 0" if "s div 64 \<le> i" "i < (e + 63) div 64" for i
      using that unfolding find_upt_None by blast
    then have "\<not> P u" if "s \<le> u" "u < e" for u
      using that index_in_qwords div_le_mono zero by simp
    with None assms(3) show ?thesis by simp
  next
    case (Some i)
    then have i: "s div 64 \<le> i" "i < (e + 63) div 64" "w i \<noteq> 0"
      and before: "\<And>k. s div 64 \<le> k \<Longrightarrow> k < i \<Longrightarrow> w k = 0"
      by (auto simp: find_upt_Some)
    note first = ctz64_first [OF i(3), of ?Q, OF assms(1) [OF i(1,2)]]
    let ?t = "64 * i + ctz64 (w i)"
    have "?t < 2 ^ 64" using first(2) qword_before_end [OF i(2)] assms(2) by simp
    then have res: "unat (of_nat i * 64 + of_nat (ctz64 (w i)) :: u64) = ?t"
      by (rule unat_of_bit_index)
    have none: "\<not> P u" if u: "s \<le> u" "u < ?t" "u < e" for u
    proof (cases "u div 64 = i")
      case True
      then show ?thesis using first(3) u by blast
    next
      case False
      then have "u div 64 < i" using u first(2) by linarith
      then show ?thesis using before [of "u div 64"] zero u by (simp add: div_le_mono)
    qed
    show ?thesis
      using first(1) none by (auto simp: assms(3) Some res)
  qed
qed


lemma find_first_set_spec:
  assumes wf: "bitmap_wf bm" and e: "endIdx \<le> bm_length bm"
  obtains (found) t where "unat (bitmap_find_first_set bm startIdx endIdx) = t"
      "unat startIdx \<le> t" "t < unat endIdx" "bit_at bm t"
      "\<And>u. unat startIdx \<le> u \<Longrightarrow> u < t \<Longrightarrow> \<not> bit_at bm u"
  | (none) "bitmap_find_first_set bm startIdx endIdx = bm_length bm"
      "\<And>u. unat startIdx \<le> u \<Longrightarrow> u < unat endIdx \<Longrightarrow> \<not> bit_at bm u"
proof (cases "startIdx \<ge> bm_length bm")
  case True
  with e show ?thesis by (intro none) (auto simp: bitmap_find_first_set_def u64_nat)
next
  case False
  have end64: "unat endIdx < 2 ^ 64 - 64" using wf e by (auto simp: bitmap_wf_def u64_nat)
  have "MIN_u64 endIdx (bm_length bm) = endIdx" using e by (auto simp: MIN_u64_def)
  then have eq: "bitmap_find_first_set bm startIdx endIdx =
      (case List.find (\<lambda>i. first_set_qword bm startIdx i \<noteq> 0)
              [unat startIdx div 64..<(unat endIdx + 63) div 64] of
         Some i \<Rightarrow> (let res = of_nat i * 64 + of_nat (ctz64 (first_set_qword bm startIdx i))
                    in if res < endIdx then res else bm_length bm)
       | None \<Rightarrow> bm_length bm)"
    using False end64
    by (simp add: bitmap_find_first_set_def unat_BITS_TO_QWORDS qword_index)
  note search = qword_search [OF bit_first_set_qword [of startIdx _ _ bm] end64 refl, simplified]
  show ?thesis
  proof (cases "List.find (\<lambda>i. first_set_qword bm startIdx i \<noteq> 0)
              [unat startIdx div 64..<(unat endIdx + 63) div 64]")
    case None
    with eq search show ?thesis by (intro none) auto
  next
    case (Some i)
    with eq search show ?thesis
      by (cases "of_nat i * 64 + of_nat (ctz64 (first_set_qword bm startIdx i)) < endIdx")
        (auto intro: found none simp: Let_def word_less_nat_alt)
  qed
qed


text \<open>The clear search looks for the first set bit of the complemented words, the bits
  below the start index masked out of the first of them.\<close>

definition first_clear_qword :: "bitmap \<Rightarrow> u64 \<Rightarrow> nat \<Rightarrow> u64" where
  "first_clear_qword bm start i =
     (if i = unat (start div 64) \<and> start mod 64 \<noteq> 0
      then NOT (bm_buffer bm ! i OR (push_bit (unat (start mod 64)) 1 - 1))
      else NOT (bm_buffer bm ! i))"

lemma bit_first_clear_qword:
  assumes "unat start div 64 \<le> i" and "j < 64"
  shows "bit (first_clear_qword bm start i) j \<longleftrightarrow>
           unat start \<le> 64 * i + j \<and> \<not> bit_at bm (64 * i + j)"
proof -
  have "unat start \<le> 64 * i + j \<longleftrightarrow>
          unat start div 64 < i \<or> unat start div 64 = i \<and> unat start mod 64 \<le> j"
    using le_qword_lex [of "unat start" "64 * i + j"] assms(2) by simp
  with assms show ?thesis
    by (auto simp: first_clear_qword_def bit_at_def bit_or_iff bit_and_iff bit_not_iff
        bit_push_minus_1 qword_index simp del: push_bit_of_1)
qed

lemma not_eq_0_iff: "NOT w = 0 \<longleftrightarrow> w = (- 1 :: u64)"
  by (metis bit.compl_zero bit.double_compl)

lemma find_first_clear_search:
  assumes wf: "bitmap_wf bm" and e: "endIdx \<le> bm_length bm"
    and z: "firstZeroIdx bm < bm_length bm"
    and st: "st = MAX_u64 startIdx (firstZeroIdx bm)"
  shows "bitmap_find_first_clear bm startIdx endIdx =
      (case List.find (\<lambda>i. first_clear_qword bm st i \<noteq> 0)
              [unat st div 64..<(unat endIdx + 63) div 64] of
         Some i \<Rightarrow> (let res = of_nat i * 64 + of_nat (ctz64 (first_clear_qword bm st i))
                    in if res < endIdx then res else bm_length bm)
       | None \<Rightarrow> bm_length bm)"
proof -
  have end64: "unat endIdx < 2 ^ 64 - 64" using wf e by (auto simp: bitmap_wf_def u64_nat)
  have min: "MIN_u64 endIdx (bm_length bm) = endIdx" using e by (auto simp: MIN_u64_def)
  have z': "\<not> bm_length bm \<le> firstZeroIdx bm" using z by simp
  let ?q = "unat st div 64" and ?e = "(unat endIdx + 63) div 64"
  have rest: "List.find (\<lambda>i. bm_buffer bm ! i \<noteq> - 1) [a..<?e] =
                List.find (\<lambda>i. first_clear_qword bm st i \<noteq> 0) [a..<?e]"
    if "?q < a \<or> st mod 64 = 0" for a
    using that
    by (intro find_cong) (auto simp: first_clear_qword_def qword_index not_eq_0_iff)
  show ?thesis
  proof (cases "st mod 64 = 0")
    case True
    have "first_clear_qword bm st i = NOT (bm_buffer bm ! i)" for i
      using True by (simp add: first_clear_qword_def)
    then show ?thesis
      using True z end64 rest [of ?q]
      by (simp add: bitmap_find_first_clear_def st [symmetric] Let_def min unat_BITS_TO_QWORDS
          qword_index z' split: option.split)
  next
    case False
    define m where "m = bm_buffer bm ! ?q OR (push_bit (unat st mod 64) 1 - 1)"
    have fq: "first_clear_qword bm st ?q = NOT m"
      using False by (simp add: first_clear_qword_def qword_index m_def)
    have other: "first_clear_qword bm st i = NOT (bm_buffer bm ! i)" if "?q < i" for i
      using that by (simp add: first_clear_qword_def qword_index)
    have "?q < 18446744073709551615" using unat_u64_less [of st] by linarith
    then have q1: "unat (st div 64 + 1) = Suc ?q"
      using unat_Suc_u64 [of "st div 64"] by (simp add: qword_index)
    have sq: "of_nat ?q = st div 64" by (simp add: unat_div_64 [symmetric])
    have code: "bitmap_find_first_clear bm startIdx endIdx =
      (if m \<noteq> - 1
       then (let res = of_nat ?q * 64 + of_nat (ctz64 (NOT m))
             in if res < endIdx then res else bm_length bm)
       else case List.find (\<lambda>i. bm_buffer bm ! i \<noteq> - 1) [Suc ?q..<?e] of
              Some i \<Rightarrow> (let res = of_nat i * 64 + of_nat (ctz64 (NOT (bm_buffer bm ! i)))
                         in if res < endIdx then res else bm_length bm)
            | None \<Rightarrow> bm_length bm)"
      using False z end64 q1
      by (simp add: bitmap_find_first_clear_def st [symmetric] Let_def min unat_BITS_TO_QWORDS
          qword_index sq z' m_def del: push_bit_of_1)
    show ?thesis
    proof (cases "?q < ?e")
      case True
      then have cons: "[?q..<?e] = ?q # [Suc ?q..<?e]" by (rule upt_conv_Cons)
      show ?thesis
      proof (cases "m = - 1")
        case False
        with cons fq show ?thesis by (simp add: code not_eq_0_iff)
      next
        case True
        then have skip: "List.find (\<lambda>i. first_clear_qword bm st i \<noteq> 0) [?q..<?e] =
            List.find (\<lambda>i. first_clear_qword bm st i \<noteq> 0) [Suc ?q..<?e]"
          using cons fq by simp
        show ?thesis
        proof (cases "List.find (\<lambda>i. first_clear_qword bm st i \<noteq> 0) [Suc ?q..<?e]")
          case None
          with True skip rest [of "Suc ?q"] show ?thesis by (simp add: code)
        next
          case (Some i)
          then have "?q < i" by (simp add: find_upt_Some)
          with True skip rest [of "Suc ?q"] Some show ?thesis by (simp add: code other)
        qed
      qed
    next
      case False
      let ?res = "of_nat ?q * 64 + of_nat (ctz64 (NOT m)) :: u64"
      have "\<not> ?res < endIdx" if "m \<noteq> - 1"
      proof -
        have "ctz64 (NOT m) < 64" using that ctz64_bit(3) not_eq_0_iff by blast
        moreover have "?q < 288230376151711744"
          using unat_u64_less [of st] by (intro less_mult_imp_div_less) simp
        ultimately have "unat ?res = 64 * ?q + ctz64 (NOT m)" by (intro unat_of_bit_index) simp
        with False show ?thesis by (simp add: u64_nat)
      qed
      with False show ?thesis by (simp add: code Let_def del: push_bit_of_1)
    qed
  qed
qed


lemma find_first_clear_spec:
  assumes wf: "bitmap_wf bm" and e: "endIdx \<le> bm_length bm"
  obtains (found) t where "unat (bitmap_find_first_clear bm startIdx endIdx) = t"
      "unat startIdx \<le> t" "t < unat endIdx" "\<not> bit_at bm t"
      "\<And>u. unat startIdx \<le> u \<Longrightarrow> u < t \<Longrightarrow> bit_at bm u"
  | (none) "bitmap_find_first_clear bm startIdx endIdx = bm_length bm"
      "\<And>u. unat startIdx \<le> u \<Longrightarrow> u < unat endIdx \<Longrightarrow> bit_at bm u"
proof (cases "firstZeroIdx bm < bm_length bm")
  case False
  have "bit_at bm u" if "u < unat endIdx" for u
    using wf e False that by (auto simp: bitmap_wf_def u64_nat)
  with False show ?thesis by (intro none) (auto simp: bitmap_find_first_clear_def)
next
  case True
  define st where "st = MAX_u64 startIdx (firstZeroIdx bm)"
  have below: "bit_at bm u" if "u < unat (firstZeroIdx bm)" for u
    using wf True that by (auto simp: bitmap_wf_def u64_nat)
  have end64: "unat endIdx < 2 ^ 64 - 64" using wf e by (auto simp: bitmap_wf_def u64_nat)
  note eq = find_first_clear_search [OF wf e True st_def]
  note search = qword_search [OF bit_first_clear_qword [of st _ _ bm] end64 refl, simplified]
  have start: "unat st = max (unat startIdx) (unat (firstZeroIdx bm))" by (simp add: st_def)
  have none_st: thesis
    if "bitmap_find_first_clear bm startIdx endIdx = bm_length bm"
      and "\<And>u. unat st \<le> u \<Longrightarrow> u < unat endIdx \<Longrightarrow> bit_at bm u"
  proof (rule none [OF that(1)])
    fix u assume "unat startIdx \<le> u" "u < unat endIdx"
    then show "bit_at bm u" using below that(2) start by (cases "u < unat (firstZeroIdx bm)") auto
  qed
  have found_st: thesis
    if "unat (bitmap_find_first_clear bm startIdx endIdx) = t" "unat st \<le> t" "t < unat endIdx"
      "\<not> bit_at bm t" "\<And>u. unat st \<le> u \<Longrightarrow> u < t \<Longrightarrow> bit_at bm u" for t
  proof (rule found [OF that(1) _ that(3,4)])
    show "unat startIdx \<le> t" using that(2) start by simp
    fix u assume "unat startIdx \<le> u" "u < t"
    then show "bit_at bm u" using below that(5) start by (cases "u < unat (firstZeroIdx bm)") auto
  qed
  show ?thesis
  proof (cases "List.find (\<lambda>i. first_clear_qword bm st i \<noteq> 0)
              [unat st div 64..<(unat endIdx + 63) div 64]")
    case None
    with eq search show ?thesis by (intro none_st) auto
  next
    case (Some i)
    with eq search show ?thesis
      by (cases "of_nat i * 64 + of_nat (ctz64 (first_clear_qword bm st i)) < endIdx")
        (auto intro: found_st none_st simp: Let_def word_less_nat_alt)
  qed
qed


section \<open>The region allocator\<close>

definition clear_region :: "bitmap \<Rightarrow> nat \<Rightarrow> nat \<Rightarrow> bool" where
  "clear_region bm idx n \<longleftrightarrow> (\<forall>u. idx \<le> u \<and> u < idx + n \<longrightarrow> \<not> bit_at bm u)"

text \<open>\<open>free_slot bm n a hi s\<close>: an \<open>a\<close>-aligned clear region of \<open>n\<close> bits starts at
  \<open>s\<close> and ends at or before \<open>hi\<close>.\<close>

definition free_slot :: "bitmap \<Rightarrow> nat \<Rightarrow> nat \<Rightarrow> nat \<Rightarrow> nat \<Rightarrow> bool" where
  "free_slot bm n a hi s \<longleftrightarrow> a dvd s \<and> s + n \<le> hi \<and> clear_region bm s n"

definition first_fit ::
  "bitmap \<Rightarrow> nat \<Rightarrow> u64 \<Rightarrow> u64 \<Rightarrow> u64 \<Rightarrow> (u64 \<times> bitmap) \<Rightarrow> bool" where
  "first_fit bm lo maxIdx len alignment res \<longleftrightarrow>
     (case res of (r, bm') \<Rightarrow>
        (let slot = free_slot bm (unat len) (unat alignment) (unat maxIdx) in
         (lo \<le> unat r \<and> slot (unat r) \<and> bm' = bitmap_set_range bm r (r + len) \<and>
           (\<forall>s. lo \<le> s \<and> s < unat r \<longrightarrow> \<not> slot s))
       \<or> (r = bm_length bm \<and> bm' = bm \<and> (\<forall>s \<ge> lo. \<not> slot s))))"

lemma first_fit_mono:
  assumes "first_fit bm lo' maxIdx len a res" and "lo \<le> lo'"
    and "\<And>s. lo \<le> s \<Longrightarrow> s < lo' \<Longrightarrow> \<not> free_slot bm (unat len) (unat a) (unat maxIdx) s"
  shows "first_fit bm lo maxIdx len a res"
  using assms by (auto simp: first_fit_def Let_def) (metis linorder_not_le)+

lemma region_loop_first_fit:
  assumes "bitmap_wf bm" and "0 < len" and "len \<le> maxIdx" and "maxIdx \<le> bm_length bm"
    and "0 < a" and "bm_size bm + unat a < 2 ^ 64" and "unat a dvd unat idx"
  shows "\<exists>res. region_loop bm maxIdx len a idx = Some res \<and> first_fit bm (unat idx) maxIdx len a res"
  using assms(7)
proof (induction "2 ^ 64 - unat idx" arbitrary: idx rule: less_induct)
  case less
  note ml = unat_sub_u64 [of len maxIdx] and nat = assms(2-5) [unfolded u64_nat]
  show ?case
  proof (cases "idx \<le> maxIdx - len")
    case False
    then have "unat maxIdx < unat idx + unat len" using ml nat by (simp add: u64_nat)
    then have "\<not> free_slot bm (unat len) (unat a) (unat maxIdx) s" if "unat idx \<le> s" for s
      using that by (simp add: free_slot_def)
    then have "first_fit bm (unat idx) maxIdx len a (bm_length bm, bm)"
      by (simp add: first_fit_def)
    with False show ?thesis by (simp add: region_loop.simps)
  next
    case True
    then have fits: "unat idx + unat len \<le> unat maxIdx" using ml nat by (simp add: u64_nat)
    then have sum: "unat (idx + len) = unat idx + unat len"
      by (rule unat_add_bounded_u64)
    then have end_le: "idx + len \<le> bm_length bm" using fits nat by (simp add: u64_nat)
    from assms(1) end_le show ?thesis
    proof (cases rule: find_first_set_spec [where startIdx = idx])
      case none
      then have "clear_region bm (unat idx) (unat len)" by (simp add: clear_region_def sum)
      then have "first_fit bm (unat idx) maxIdx len a (idx, bitmap_set_range bm idx (idx + len))"
        using less.prems fits by (auto simp: first_fit_def free_slot_def)
      with none True end_le show ?thesis by (simp add: region_loop.simps)
    next
      case (found t)
      let ?f = "bitmap_find_first_set bm idx (idx + len)" and ?i = "ROUND_UP (bitmap_find_first_set bm idx (idx + len) + 1) a"
      have t: "t < bm_size bm" using found(3) end_le by (simp add: u64_nat)
      then have f1: "unat (?f + 1) = Suc t"
        using found(1) assms(6) unat_Suc_u64 [of ?f] by simp
      have i: "unat ?i = ((Suc t + unat a - 1) div unat a) * unat a"
        using unat_ROUND_UP [of a "?f + 1"] f1 t assms(6) nat by simp
      note least = round_up_nat_least [where m = "unat a" and n = "Suc t", folded i]
      have gt: "unat idx < unat ?i" using least(1) found(2) nat by simp
      have "2 ^ 64 - unat ?i < 2 ^ 64 - unat idx" by (rule diff_less_mono2 [OF gt]) simp
      moreover have "unat a dvd unat ?i" by (simp add: i)
      ultimately obtain res where
        res: "region_loop bm maxIdx len a ?i = Some res" "first_fit bm (unat ?i) maxIdx len a res"
        using less.hyps [of ?i] by auto
      have skip: "\<not> free_slot bm (unat len) (unat a) (unat maxIdx) s"
        if "unat idx \<le> s" "s < unat ?i" for s
      proof
        assume s: "free_slot bm (unat len) (unat a) (unat maxIdx) s"
        then have "s \<le> t" using least(3) [of s] that nat by (force simp: free_slot_def not_le)
        then show False using s that(1) found(3,4) sum by (auto simp: free_slot_def clear_region_def)
      qed
      have "first_fit bm (unat idx) maxIdx len a res"
        using first_fit_mono [OF res(2), of "unat idx"] gt skip by simp
      moreover have "\<not> idx + len \<le> ?f" using found(1,3) sum by (simp add: u64_nat)
      ultimately show ?thesis using res(1) True by (subst region_loop.simps) simp
    qed
  qed
qed


lemma find_clear_region_first_fit:
  assumes wf: "bitmap_wf bm" and len: "0 < len" "len \<le> maxIdx"
    and b: "minIdx < maxIdx" "maxIdx \<le> bm_length bm"
    and a: "0 < a" "bm_size bm + unat a < 2 ^ 64"
  shows "\<exists>res. bitmap_find_clear_region_and_set bm minIdx maxIdx len a = Some res \<and>
               first_fit bm (unat minIdx) maxIdx len a res"
proof -
  let ?m = "MAX_u64 minIdx (firstZeroIdx bm)" and ?i = "ROUND_UP (MAX_u64 minIdx (firstZeroIdx bm)) a"
  have m: "unat ?m \<le> bm_size bm" using wf b by (simp add: bitmap_wf_def u64_nat)
  have i: "unat ?i = ((unat ?m + unat a - 1) div unat a) * unat a"
    using m a by (intro unat_ROUND_UP) (auto simp: u64_nat)
  have a0: "0 < unat a" using a(1) by (simp add: u64_nat)
  note least = round_up_nat_least [OF a0, where n = "unat ?m", folded i]
  obtain res where res: "region_loop bm maxIdx len a ?i = Some res"
      "first_fit bm (unat ?i) maxIdx len a res"
    using region_loop_first_fit [OF wf len b(2) a, of ?i] i by auto
  have skip: "\<not> free_slot bm (unat len) (unat a) (unat maxIdx) s"
    if "unat minIdx \<le> s" "s < unat ?i" for s
  proof
    assume s: "free_slot bm (unat len) (unat a) (unat maxIdx) s"
    then have "\<not> unat ?m \<le> s" using least(3) [of s] that by (auto simp: free_slot_def)
    then have "s < unat (firstZeroIdx bm)" using that by simp
    moreover have "s < bm_size bm" using s b(2) len(1) by (auto simp: free_slot_def u64_nat)
    ultimately have "bit_at bm s" using wf by (simp add: bitmap_wf_def)
    then show False using s len(1) by (auto simp: free_slot_def clear_region_def u64_nat)
  qed
  have "first_fit bm (unat minIdx) maxIdx len a res"
    using first_fit_mono [OF res(2), of "unat minIdx"] least(1) skip by simp
  moreover have "bitmap_find_clear_region_and_set bm minIdx maxIdx len a = Some res"
    using res(1) len b a by (auto simp: bitmap_find_clear_region_and_set_def)
  ultimately show ?thesis by blast
qed

text \<open>The loop when the region is longer than \<^verbatim>\<open>maxIdx\<close>: the wrapped bound is never exceeded. While the region
  fits into the bitmap the search goes on as if \<^verbatim>\<open>maxIdx\<close> were its length; behind that no search succeeds.\<close>

lemma find_first_set_beyond:
  fixes startIdx :: u64
  assumes "bitmap_wf bm" and "bm_length bm < endIdx"
  defines "r \<equiv> bitmap_find_first_set bm startIdx endIdx"
  shows "r < endIdx" and "unat r < bm_size bm + 64" and "min (unat startIdx) (bm_size bm) \<le> unat r"
proof -
  have min: "MIN_u64 endIdx (bm_length bm) = bm_length bm" using assms(2) by (auto simp: MIN_u64_def)
  have q: "unat (BITMAP_BITS_TO_QWORDS (bm_length bm)) = (bm_size bm + 63) div 64"
    using assms(1) by (intro unat_BITS_TO_QWORDS) (simp add: bitmap_wf_def)
  have "r = bm_length bm \<or> r < endIdx \<and> unat r < bm_size bm + 64 \<and> unat startIdx \<le> unat r"
  proof (cases "List.find (\<lambda>i. first_set_qword bm startIdx i \<noteq> 0)
                  [unat (startIdx div 64)..<(bm_size bm + 63) div 64]")
    case None
    then show ?thesis by (simp add: r_def bitmap_find_first_set_def min q)
  next
    case (Some i)
    let ?c = "ctz64 (first_set_qword bm startIdx i)"
    from Some have i: "unat (startIdx div 64) \<le> i" "i < (bm_size bm + 63) div 64" "first_set_qword bm startIdx i \<noteq> 0"
      by (auto simp: find_upt_Some)
    have c: "64 * i + ?c < bm_size bm + 64"
      using qword_before_end [OF i(2)] ctz64_bit(3) [OF i(3)] by simp
    moreover have "unat (of_nat i * 64 + of_nat ?c :: u64) = 64 * i + ?c"
      using c assms(1) by (intro unat_of_bit_index) (simp add: bitmap_wf_def)
    moreover have "unat startIdx \<le> 64 * i + ?c"
      using bit_first_set_qword [of startIdx i ?c bm] ctz64_bit [OF i(3)] i(1) by (simp add: unat_div)
    ultimately show ?thesis using Some by (simp add: r_def bitmap_find_first_set_def min q Let_def)
  qed
  then show "r < endIdx" "unat r < bm_size bm + 64" "min (unat startIdx) (bm_size bm) \<le> unat r" using assms(2) by (auto simp: u64_nat)
qed

definition overlong :: "bitmap \<Rightarrow> u64 \<Rightarrow> u64 \<Rightarrow> u64 \<Rightarrow> bool" where
  "overlong bm maxIdx len a \<longleftrightarrow>
     bitmap_wf bm \<and> 0 < maxIdx \<and> maxIdx < len \<and> maxIdx \<le> bm_length bm \<and> 0 < a \<and> bm_size bm + 64 + unat a + unat len < 2 ^ 64"

lemma overlong_bound:
  assumes "overlong bm maxIdx len a" "unat idx \<le> bm_size bm + 64 + unat a"
  shows "idx \<le> maxIdx - len" "unat (idx + len) = unat idx + unat len"
proof -
  have "unat (maxIdx - len) = 2 ^ 64 + unat maxIdx - unat len"
    using assms(1) by (subst unat_sub_if_size) (simp add: overlong_def u64_nat word_size)
  moreover have "unat idx + unat len \<le> 2 ^ 64" "unat maxIdx < unat len" using assms by (auto simp: overlong_def u64_nat)
  ultimately show "idx \<le> maxIdx - len" by (simp add: u64_nat)
  show "unat (idx + len) = unat idx + unat len" using assms by (intro unat_add_u64) (simp add: overlong_def)
qed

lemma overlong_next:
  assumes "overlong bm maxIdx len a" "unat f < bm_size bm + 64"
  defines "i \<equiv> ROUND_UP (f + 1) a"
  shows "unat i \<le> bm_size bm + 64 + unat a" "unat f < unat i" "unat a dvd unat i" "\<And>s. unat a dvd s \<Longrightarrow> unat f < s \<Longrightarrow> unat i \<le> s"
proof -
  have a: "0 < unat a" "bm_size bm + 64 + unat a < 2 ^ 64" using assms(1) by (simp_all add: overlong_def u64_nat)
  have f1: "unat (f + 1) = Suc (unat f)" using unat_Suc_u64 [of f] assms(2) a by simp
  have i: "unat i = ((Suc (unat f) + unat a - 1) div unat a) * unat a"
    using unat_ROUND_UP [of a "f + 1"] f1 assms(2) a by (simp add: i_def)
  note least = round_up_nat_least [OF a(1), where n = "Suc (unat f)", folded i]
  show "unat f < unat i" using least(1) by simp
  show "unat i \<le> s" if "unat a dvd s" "unat f < s" for s using least(3) [of s] that by simp
  show "unat a dvd unat i" by (simp add: i)
  have "unat i \<le> Suc (unat f) + unat a - 1" unfolding i by (rule div_times_less_eq_dividend)
  then show "unat i \<le> bm_size bm + 64 + unat a" using assms(2) by simp
qed

lemma region_loop_diverges:
  assumes over: "overlong bm maxIdx len a"
    and idx: "unat idx \<le> bm_size bm + 64 + unat a" "bm_size bm < unat idx + unat len"
  shows "region_loop bm maxIdx len a idx = None"
proof (rule ccontr)
  assume "region_loop bm maxIdx len a idx \<noteq> None"
  then obtain res where some: "region_loop bm maxIdx len a idx = Some res" by blast
  let ?P = "\<lambda>b m l a' i (res :: u64 \<times> bitmap). \<not> (b = bm \<and> m = maxIdx \<and> l = len \<and> a' = a \<and>
              unat i \<le> bm_size bm + 64 + unat a \<and> bm_size bm < unat i + unat len)"
  have "?P bm maxIdx len a idx res"
  proof (rule region_loop.raw_induct [where P = ?P, OF _ some])
    fix f b m l a' i r
    assume IH: "\<And>b m l a i r. f b m l a i = Some r \<Longrightarrow> ?P b m l a i r"
      and eq: "(if i \<le> m - l
          then let firstSet = bitmap_find_first_set b i (i + l) in
               if firstSet \<ge> i + l then Some (i, bitmap_set_range b i (i + l))
               else f b m l a' (ROUND_UP (firstSet + 1) a')
          else Some (bm_length b, b)) = Some r"
    show "?P b m l a' i r"
    proof (rule notI, elim conjE)
      assume h: "b = bm" "m = maxIdx" "l = len" "a' = a" "unat i \<le> bm_size bm + 64 + unat a" "bm_size bm < unat i + unat len"
      note bound = overlong_bound [OF over h(5)]
      have wf: "bitmap_wf bm" and len: "unat maxIdx < unat len" using over by (simp_all add: overlong_def u64_nat)
      have below: "bm_length bm < i + len" using h(6) bound(2) by (simp add: u64_nat)
      note f = find_first_set_beyond [OF wf below, of i]
      note nxt = overlong_next [OF over f(2)]
      from eq h f(1) bound(1) have "f bm maxIdx len a (ROUND_UP (bitmap_find_first_set bm i (i + len) + 1) a) = Some r"
        by (simp add: Let_def not_le split: if_splits)
      moreover have "bm_size bm < unat (ROUND_UP (bitmap_find_first_set bm i (i + len) + 1) a) + unat len"
        using nxt(2) f(3) h(6) len by simp
      ultimately show False using IH nxt(1) by blast
    qed
  qed
  with idx show False by simp
qed

lemma lowest_from:
  fixes f :: "'a \<Rightarrow> nat"
  assumes "j \<le> i" and skip: "\<And>s. j \<le> s \<Longrightarrow> s < i \<Longrightarrow> \<not> P s"
    and found: "(\<exists>r. Q r \<and> i \<le> f r \<and> P (f r) \<and> (\<forall>s. i \<le> s \<and> s < f r \<longrightarrow> \<not> P s)) \<or> (N \<and> (\<forall>s \<ge> i. \<not> P s))"
  shows "(\<exists>r. Q r \<and> j \<le> f r \<and> P (f r) \<and> (\<forall>s. j \<le> s \<and> s < f r \<longrightarrow> \<not> P s)) \<or> (N \<and> (\<forall>s \<ge> j. \<not> P s))"
proof -
  have "\<not> P s" if "j \<le> s" "i \<le> s \<Longrightarrow> \<not> P s" for s using that skip [of s] by (cases "s < i") auto
  then show ?thesis using found assms(1) by (blast intro: order.trans)
qed

lemma region_loop_overlong:
  assumes over: "overlong bm maxIdx len a" and idx: "unat a dvd unat idx" "unat idx \<le> bm_size bm + 64 + unat a"
  defines "slot \<equiv> free_slot bm (unat len) (unat a) (bm_size bm)"
  shows "(\<exists>r. region_loop bm maxIdx len a idx = Some (r, bitmap_set_range bm r (r + len)) \<and> unat idx \<le> unat r \<and> slot (unat r) \<and>
            (\<forall>s. unat idx \<le> s \<and> s < unat r \<longrightarrow> \<not> slot s)) \<or>
         (region_loop bm maxIdx len a idx = None \<and> (\<forall>s \<ge> unat idx. \<not> slot s))"
  using idx
proof (induction "2 ^ 64 - unat idx" arbitrary: idx rule: less_induct)
  case less
  have wf: "bitmap_wf bm" using over by (simp add: overlong_def)
  note bound = overlong_bound [OF over less.prems(2)]
  show ?case
  proof (cases "unat idx + unat len \<le> bm_size bm")
    case False
    then have "\<not> slot s" if "unat idx \<le> s" for s using that by (simp add: slot_def free_slot_def)
    then show ?thesis using region_loop_diverges [OF over less.prems(2)] False by simp
  next
    case True
    have end_le: "idx + len \<le> bm_length bm" using True bound(2) by (simp add: u64_nat)
    from wf end_le show ?thesis
    proof (cases rule: find_first_set_spec [where startIdx = idx])
      case none
      have "slot (unat idx)" using less.prems(1) True none bound(2) by (simp add: slot_def free_slot_def clear_region_def)
      then show ?thesis using none bound(1) end_le by (intro disjI1 exI [of _ idx]) (auto simp: region_loop.simps)
    next
      case (found t)
      let ?f = "bitmap_find_first_set bm idx (idx + len)"
      let ?i = "ROUND_UP (?f + 1) a"
      have t: "unat ?f < bm_size bm + 64" using found(1,3) end_le by (simp add: u64_nat)
      note nxt = overlong_next [OF over t]
      have gt: "unat idx < unat ?i" using nxt(2) found(1,2) by simp
      have smaller: "2 ^ 64 - unat ?i < 2 ^ 64 - unat idx" by (rule diff_less_mono2 [OF gt]) simp
      have "\<not> idx + len \<le> ?f" using found(1,3) bound(2) by (simp add: u64_nat)
      then have step: "region_loop bm maxIdx len a idx = region_loop bm maxIdx len a ?i"
        using bound(1) by (subst region_loop.simps) simp
      have skip: "\<not> slot s" if "unat idx \<le> s" "s < unat ?i" for s
      proof
        assume s: "slot s"
        then have "s \<le> t" using nxt(4) [of s] that found(1) by (force simp: slot_def free_slot_def not_le)
        then show False using s that(1) found(3,4) bound(2) by (auto simp: slot_def free_slot_def clear_region_def)
      qed
      show ?thesis unfolding step
        by (rule lowest_from [where f = unat and P = slot, OF less_imp_le_nat [OF gt] skip less.hyps [OF smaller nxt(3,1)]])
    qed
  qed
qed

lemma find_clear_region_overlong:
  assumes over: "overlong bm maxIdx len a" and min: "minIdx < maxIdx"
  defines "slot \<equiv> free_slot bm (unat len) (unat a) (bm_size bm)"
  shows "(\<exists>r. bitmap_find_clear_region_and_set bm minIdx maxIdx len a = Some (r, bitmap_set_range bm r (r + len)) \<and>
            unat minIdx \<le> unat r \<and> slot (unat r) \<and> (\<forall>s. unat minIdx \<le> s \<and> s < unat r \<longrightarrow> \<not> slot s)) \<or>
         (bitmap_find_clear_region_and_set bm minIdx maxIdx len a = None \<and> (\<forall>s \<ge> unat minIdx. \<not> slot s))"
proof -
  let ?m = "MAX_u64 minIdx (firstZeroIdx bm)" and ?i = "ROUND_UP (MAX_u64 minIdx (firstZeroIdx bm)) a"
  have wf: "bitmap_wf bm" and o: "unat maxIdx \<le> bm_size bm" "0 < unat a" "bm_size bm + 64 + unat a + unat len < 2 ^ 64" "0 < unat len"
    using over by (auto simp: overlong_def u64_nat)
  have m: "unat ?m \<le> bm_size bm" using wf min o(1) by (simp add: bitmap_wf_def u64_nat)
  have i: "unat ?i = ((unat ?m + unat a - 1) div unat a) * unat a" using m o by (intro unat_ROUND_UP) auto
  note least = round_up_nat_least [OF o(2), where n = "unat ?m", folded i]
  have "unat ?i \<le> unat ?m + unat a - 1" unfolding i by (rule div_times_less_eq_dividend)
  then have le: "unat ?i \<le> bm_size bm + 64 + unat a" using m by linarith
  have dv: "unat a dvd unat ?i" by (simp add: i)
  have skip: "\<not> slot s" if "unat minIdx \<le> s" "s < unat ?i" for s
  proof
    assume s: "slot s"
    then have "s < unat (firstZeroIdx bm)" using least(3) [of s] that by (fastforce simp: slot_def free_slot_def not_le)
    moreover have "s < bm_size bm" using s o(4) by (auto simp: slot_def free_slot_def)
    ultimately have "bit_at bm s" using wf by (simp add: bitmap_wf_def)
    then show False using s o(4) by (auto simp: slot_def free_slot_def clear_region_def)
  qed
  have call: "bitmap_find_clear_region_and_set bm minIdx maxIdx len a = region_loop bm maxIdx len a ?i"
    using min over by (auto simp: bitmap_find_clear_region_and_set_def overlong_def u64_nat)
  have ge: "unat minIdx \<le> unat ?i" using least(1) by simp
  show ?thesis unfolding call
    by (rule lowest_from [where f = unat and P = slot, OF ge skip region_loop_overlong [OF over dv le, folded slot_def]])
qed


section \<open>Properties\<close>

text \<open>C6. Region allocation is first fit and total: when the region is not longer than
  \<^verbatim>\<open>maxIdx\<close>, \<^verbatim>\<open>bitmap_find_clear_region_and_set\<close> returns, and it returns either the lowest
  aligned index at which a clear region of the requested length starts inside
  \<open>[minIdx, maxIdx)\<close>, with exactly that region set afterwards, or the bitmap's length
  with the bitmap unchanged, and then no such region exists.\<close>

theorem bitmap_region_first_fit:
  assumes "bitmap_wf bm" and "0 < len" and "len \<le> maxIdx" and "minIdx < maxIdx"
    and "maxIdx \<le> bm_length bm" and "0 < a" and "bm_size bm + unat a < 2 ^ 64"
  obtains (allocated) r bm' where
      "bitmap_find_clear_region_and_set bm minIdx maxIdx len a = Some (r, bm')"
      "unat minIdx \<le> unat r" "unat a dvd unat r" "unat r + unat len \<le> unat maxIdx"
      "\<forall>i < bm_size bm. bit_at bm' i = (bit_at bm i \<or> unat r \<le> i \<and> i < unat r + unat len)"
      "\<forall>i. unat r \<le> i \<and> i < unat r + unat len \<longrightarrow> \<not> bit_at bm i"
      "\<forall>s. unat minIdx \<le> s \<and> s < unat r \<longrightarrow> \<not> free_slot bm (unat len) (unat a) (unat maxIdx) s"
      "bitmap_wf bm'"
  | (full) "bitmap_find_clear_region_and_set bm minIdx maxIdx len a = Some (bm_length bm, bm)"
      "\<forall>s \<ge> unat minIdx. \<not> free_slot bm (unat len) (unat a) (unat maxIdx) s"
proof -
  from find_clear_region_first_fit [OF assms(1-7)] obtain r bm' where
    res: "bitmap_find_clear_region_and_set bm minIdx maxIdx len a = Some (r, bm')"
    and fit: "first_fit bm (unat minIdx) maxIdx len a (r, bm')" by auto
  from fit consider
      (1) "unat minIdx \<le> unat r" "free_slot bm (unat len) (unat a) (unat maxIdx) (unat r)"
        "bm' = bitmap_set_range bm r (r + len)"
        "\<forall>s. unat minIdx \<le> s \<and> s < unat r \<longrightarrow> \<not> free_slot bm (unat len) (unat a) (unat maxIdx) s"
    | (2) "r = bm_length bm" "bm' = bm"
        "\<forall>s \<ge> unat minIdx. \<not> free_slot bm (unat len) (unat a) (unat maxIdx) s"
    unfolding first_fit_def Let_def prod.case by blast
  then show thesis
  proof cases
    case 1
    then have slot: "unat a dvd unat r" "unat r + unat len \<le> unat maxIdx"
      "clear_region bm (unat r) (unat len)" by (simp_all add: free_slot_def)
    note sum = unat_add_bounded_u64 [OF slot(2)]
    have rng: "r < r + len" "r + len \<le> bm_length bm"
      using sum slot(2) assms(2,5) by (simp_all add: u64_nat)
    show ?thesis
      using slot(3) 1 assms(1) bit_at_bitmap_set_range [OF assms(1) _ rng]
      by (intro allocated [OF res 1(1) slot(1,2)]) (auto simp: clear_region_def sum)
  next
    case 2
    then show ?thesis using res full by simp
  qed
qed

theorem bitmap_region_first_fit_witness:
  "\<exists>r bm'. bitmap_find_clear_region_and_set
      \<lparr>firstZeroIdx = 0, bm_length = 64, bm_buffer = [0x13]\<rparr> 0 64 3 2 = Some (r, bm')"
  by (rule bitmap_region_first_fit
      [of "\<lparr>firstZeroIdx = 0, bm_length = 64, bm_buffer = [0x13]\<rparr>" 3 64 0 2])
    (auto simp: bitmap_wf_def)

text \<open>The searches are exact: \<^verbatim>\<open>bitmap_find_first_clear\<close> returns the least clear index
  of \<open>[startIdx, endIdx)\<close>, or the bitmap's length when every bit of the range is set,
  and \<^verbatim>\<open>bitmap_find_first_set\<close> does the same for set bits.\<close>

theorem bitmap_searches_exact:
  assumes "bitmap_wf bm" and "endIdx \<le> bm_length bm"
  shows "(let c = bitmap_find_first_clear bm startIdx endIdx in
            if \<exists>u. unat startIdx \<le> u \<and> u < unat endIdx \<and> \<not> bit_at bm u
            then unat c = (LEAST u. unat startIdx \<le> u \<and> u < unat endIdx \<and> \<not> bit_at bm u)
            else c = bm_length bm) \<and>
         (let c = bitmap_find_first_set bm startIdx endIdx in
            if \<exists>u. unat startIdx \<le> u \<and> u < unat endIdx \<and> bit_at bm u
            then unat c = (LEAST u. unat startIdx \<le> u \<and> u < unat endIdx \<and> bit_at bm u)
            else c = bm_length bm)"
proof (rule conjI)
  show "let c = bitmap_find_first_clear bm startIdx endIdx in
           if \<exists>u. unat startIdx \<le> u \<and> u < unat endIdx \<and> \<not> bit_at bm u
           then unat c = (LEAST u. unat startIdx \<le> u \<and> u < unat endIdx \<and> \<not> bit_at bm u)
           else c = bm_length bm"
    by (rule find_first_clear_spec [OF assms, of startIdx])
      (auto simp: Let_def intro!: Least_equality [symmetric] leI)
  show "let c = bitmap_find_first_set bm startIdx endIdx in
           if \<exists>u. unat startIdx \<le> u \<and> u < unat endIdx \<and> bit_at bm u
           then unat c = (LEAST u. unat startIdx \<le> u \<and> u < unat endIdx \<and> bit_at bm u)
           else c = bm_length bm"
    by (rule find_first_set_spec [OF assms, of startIdx])
      (auto simp: Let_def intro!: Least_equality [symmetric] leI)
qed

text \<open>Every operation of the bitmap keeps its invariant (the buffer covers the length and
  no clear bit lies below \<^verbatim>\<open>firstZeroIdx\<close>) and changes exactly the bits it names; range
  operations with an empty or out-of-bounds range change nothing.\<close>

theorem bitmap_operations_correct:
  assumes "bitmap_wf bm"
  shows "bitmap_wf (bitmap_set bm i) \<and> bitmap_wf (bitmap_clear bm i) \<and>
         bitmap_wf (bitmap_set_range bm l h) \<and> bitmap_wf (bitmap_clear_range bm l h) \<and>
         bitmap_is_empty bm = (\<forall>j < bm_size bm. \<not> bit_at bm j) \<and>
         bitmap_is_set bm i = (unat i < bm_size bm \<and> bit_at bm (unat i)) \<and>
         (\<forall>j < bm_size bm.
            bit_at (bitmap_set bm i) j = (j = unat i \<or> bit_at bm j) \<and>
            bit_at (bitmap_clear bm i) j = (j \<noteq> unat i \<and> bit_at bm j) \<and>
            (if l < h \<and> h \<le> bm_length bm
             then bit_at (bitmap_set_range bm l h) j = (unat l \<le> j \<and> j < unat h \<or> bit_at bm j) \<and>
                  bit_at (bitmap_clear_range bm l h) j =
                    (\<not> (unat l \<le> j \<and> j < unat h) \<and> bit_at bm j)
             else bitmap_set_range bm l h = bm \<and> bitmap_clear_range bm l h = bm))"
proof -
  have "bitmap_set_range bm l h = bm \<and> bitmap_clear_range bm l h = bm"
    if "\<not> (l < h \<and> h \<le> bm_length bm)"
    using that by (auto simp: bitmap_set_range_def bitmap_clear_range_def not_less not_le)
  then show ?thesis
    using assms bitmap_is_empty_iff [of bm] bitmap_is_set_iff [of bm i]
    by (simp add: bitmap_view bitmap_wf_set bitmap_wf_clear bitmap_wf_set_range
        bitmap_wf_clear_range)
qed

text \<open>A request longer than \<^verbatim>\<open>maxIdx\<close> is not refused: the loop bound \<^verbatim>\<open>maxIdx - length\<close> wraps around. For a valid
  range and an alignment and a length that do not overflow together with the size of the bitmap, the search then ignores
  \<^verbatim>\<open>maxIdx\<close> and takes the lowest aligned clear region of the whole bitmap from \<^verbatim>\<open>minIdx\<close> on, which ends behind
  \<^verbatim>\<open>maxIdx\<close>; when there is none, as for every request longer than the bitmap, it never returns.\<close>

theorem bitmap_region_overlong:
  assumes "bitmap_wf bm" and "minIdx < maxIdx" and "maxIdx < len" and "maxIdx \<le> bm_length bm"
    and "0 < a" and "bm_size bm + 64 + unat a + unat len < 2 ^ 64"
  shows "(case bitmap_find_clear_region_and_set bm minIdx maxIdx len a of
      Some (r, bm') \<Rightarrow> unat maxIdx < unat r + unat len \<and> unat minIdx \<le> unat r \<and> bm' = bitmap_set_range bm r (r + len) \<and>
        free_slot bm (unat len) (unat a) (bm_size bm) (unat r) \<and>
        (\<forall>s. unat minIdx \<le> s \<and> s < unat r \<longrightarrow> \<not> free_slot bm (unat len) (unat a) (bm_size bm) s)
    | None \<Rightarrow> \<forall>s \<ge> unat minIdx. \<not> free_slot bm (unat len) (unat a) (bm_size bm) s) \<and>
    (bm_length bm < len \<longrightarrow> bitmap_find_clear_region_and_set bm minIdx maxIdx len a = None)"
proof -
  have over: "overlong bm maxIdx len a" using assms by (auto simp: overlong_def u64_nat)
  have long: "unat maxIdx < s + unat len" for s using assms(3) by (simp add: u64_nat)
  have "\<not> free_slot bm (unat len) (unat a) (bm_size bm) s" if "bm_length bm < len" for s using that by (simp add: free_slot_def u64_nat)
  then show ?thesis using find_clear_region_overlong [OF over assms(2)] long by auto
qed

end
