(* ===== verification/Pmm.thy ===== *)
theory Pmm
  imports Bitmap
begin

text \<open>
  The physical memory manager, \<^verbatim>\<open>src/kernel/mem/pmm.c\<close>. Pages above the bitmap's
  range are kept on a stack of free pages that is stored in the free pages themselves;
  pages below it are kept in the bitmap; every page has a 16-bit reference count.
  The file's static variables are the fields of \<open>pmm\<close>. The content of a physical page,
  read as a \<^verbatim>\<open>page_stack_t\<close>, is found at its page frame number in \<open>pmm_mem\<close>, so
  \<^verbatim>\<open>PFN_TO_VIRT\<close> and \<^verbatim>\<open>VIRT_TO_PFN\<close> are the identity. Every public function takes the
  one lock of the file for its whole body, so calls are atomic and the lock is not modelled.
  Logging is left out. Results are in \<open>option\<close>: \<^const>\<open>None\<close> is a panic of a debug
  build or a call that does not return.
\<close>

unbundle bit_operations_syntax

section \<open>State\<close>

definition PAGE_SIZE :: u64 where
  "PAGE_SIZE = 0x1000"

definition FREE_PAGE_MAX :: nat where
  "FREE_PAGE_MAX = 511"

text \<open>\<^verbatim>\<open>CONFIG_PMM_BITMAP_MAX_ADDR / PAGE_SIZE\<close>.\<close>

definition PMM_BITMAP_MAX_PFN :: u64 where
  "PMM_BITMAP_MAX_PFN = 0x4000000 div PAGE_SIZE"

record page_stack =
  ps_next :: "u64 option"
  ps_pages :: "u64 list"

record pmm =
  pmm_pages :: "u16 list"
  pmm_mem :: "u64 \<Rightarrow> page_stack"
  pmm_stack :: "u64 option"
  pmm_location :: nat
  pmm_bitmap :: bitmap
  pmm_highest :: u64
  pmm_total :: u64
  pmm_avail :: u64

section \<open>The free page stack\<close>

definition pmm_stack_push :: "u64 \<Rightarrow> pmm \<Rightarrow> pmm" where
  "pmm_stack_push pfn s =
     (case pmm_stack s of
        Some page \<Rightarrow>
          if pmm_location s \<noteq> 0
          then s\<lparr>pmm_location := pmm_location s - 1,
                 pmm_mem := (pmm_mem s)(page := (pmm_mem s page)
                   \<lparr>ps_pages := (ps_pages (pmm_mem s page))[pmm_location s - 1 := pfn]\<rparr>)\<rparr>
          else s\<lparr>pmm_mem := (pmm_mem s)(pfn := (pmm_mem s pfn)\<lparr>ps_next := Some page\<rparr>),
                 pmm_stack := Some pfn, pmm_location := FREE_PAGE_MAX\<rparr>
      | None \<Rightarrow>
          s\<lparr>pmm_mem := (pmm_mem s)(pfn := (pmm_mem s pfn)\<lparr>ps_next := None\<rparr>),
            pmm_stack := Some pfn, pmm_location := FREE_PAGE_MAX\<rparr>)"

definition pmm_stack_pop :: "pmm \<Rightarrow> (u64 \<times> pmm) option" where
  "pmm_stack_pop s =
     (if pmm_location s = FREE_PAGE_MAX
      then
        (case pmm_stack s of
           None \<Rightarrow> Some (ERR, s)
         | Some page \<Rightarrow>
             (let st = ps_next (pmm_mem s page)
              in Some (page, s\<lparr>pmm_stack := st,
                               pmm_location := (if st = None then FREE_PAGE_MAX else 0)\<rparr>)))
      else
        (case pmm_stack s of
           None \<Rightarrow> None
         | Some page \<Rightarrow>
             Some (ps_pages (pmm_mem s page) ! pmm_location s,
                   s\<lparr>pmm_location := pmm_location s + 1\<rparr>)))"

section \<open>The bitmap\<close>

definition pmm_bitmap_set :: "u64 \<Rightarrow> u64 \<Rightarrow> u64 \<Rightarrow> pmm \<Rightarrow> (u64 \<times> pmm) option" where
  "pmm_bitmap_set count maxPfn alignPfn s =
     (let alignPfn = MAX_u64 alignPfn 1;
          maxPfn = MIN_u64 maxPfn PMM_BITMAP_MAX_PFN
      in do {
        (index, bm) \<leftarrow> bitmap_find_clear_region_and_set (pmm_bitmap s) 0 maxPfn count alignPfn;
        let s = s\<lparr>pmm_bitmap := bm\<rparr>;
        Some (if index = bm_length (pmm_bitmap s) then (ERR, s) else (index, s))
      })"

definition pmm_bitmap_clear :: "u64 \<Rightarrow> u64 \<Rightarrow> pmm \<Rightarrow> pmm" where
  "pmm_bitmap_clear pfn pageAmount s =
     s\<lparr>pmm_bitmap := bitmap_clear_range (pmm_bitmap s) pfn (pfn + pageAmount)\<rparr>"

section \<open>Reference counts\<close>

text \<open>\<^verbatim>\<open>pages[pfn].ref\<close>, read and written inside the array only.\<close>

definition page_ref :: "pmm \<Rightarrow> u64 \<Rightarrow> u16 option" where
  "page_ref s pfn =
     (if unat pfn < length (pmm_pages s) then Some (pmm_pages s ! unat pfn) else None)"

definition set_page_ref :: "u64 \<Rightarrow> u16 \<Rightarrow> pmm \<Rightarrow> pmm" where
  "set_page_ref pfn r s = s\<lparr>pmm_pages := (pmm_pages s)[unat pfn := r]\<rparr>"

definition write_ref :: "u16 \<Rightarrow> u64 \<Rightarrow> pmm \<Rightarrow> pmm option" where
  "write_ref v pfn s = do { _ \<leftarrow> page_ref s pfn; Some (set_page_ref pfn v s) }"

text \<open>A page that was free is given its first reference:
  \<^verbatim>\<open>assert(page->ref == 0); page->ref = 1\<close>.\<close>

definition claim_ref :: "u64 \<Rightarrow> pmm \<Rightarrow> pmm option" where
  "claim_ref pfn s = do {
     r \<leftarrow> page_ref s pfn;
     assert_that (r = 0);
     Some (set_page_ref pfn 1 s)
   }"

text \<open>A page is given back to the stack or to the bitmap, by its number.\<close>

definition pmm_release :: "u64 \<Rightarrow> pmm \<Rightarrow> pmm" where
  "pmm_release pfn s =
     (if pfn \<ge> PMM_BITMAP_MAX_PFN then pmm_stack_push pfn s else pmm_bitmap_clear pfn 1 s)"

definition pmm_free_unlocked :: "u64 \<Rightarrow> pmm \<Rightarrow> pmm option" where
  "pmm_free_unlocked pfn s = do {
     r \<leftarrow> page_ref s pfn;
     assert_that (r > 0);
     let s = set_page_ref pfn (r - 1) s;
     Some (if r - 1 > 0 then s
           else (let s = pmm_release pfn s in s\<lparr>pmm_avail := pmm_avail s + 1\<rparr>))
   }"

definition pmm_free_region_unlocked :: "u64 \<Rightarrow> u64 \<Rightarrow> pmm \<Rightarrow> pmm option" where
  "pmm_free_region_unlocked pfn count =
     for_each (\<lambda>i. pmm_free_unlocked (pfn + of_nat i)) [0..<unat count]"

section \<open>Initialisation\<close>

datatype EFI_MEMORY_TYPE =
    EfiReservedMemoryType | EfiLoaderCode | EfiLoaderData | EfiBootServicesCode
  | EfiBootServicesData | EfiRuntimeServicesCode | EfiRuntimeServicesData
  | EfiConventionalMemory | EfiUnusableMemory | EfiACPIReclaimMemory | EfiACPIMemoryNVS
  | EfiMemoryMappedIO | EfiMemoryMappedIOPortSpace | EfiPalCode | EfiPersistentMemory

text \<open>A descriptor of the boot memory map, its \<^verbatim>\<open>VirtualStart\<close> given as a page number.\<close>

record memory_descriptor =
  md_Type :: EFI_MEMORY_TYPE
  md_VirtualStart :: u64
  md_NumberOfPages :: u64

definition boot_is_mem_ram :: "EFI_MEMORY_TYPE \<Rightarrow> bool" where
  "boot_is_mem_ram type \<longleftrightarrow>
     type \<in> {EfiConventionalMemory, EfiLoaderCode, EfiLoaderData, EfiBootServicesCode,
              EfiBootServicesData, EfiRuntimeServicesCode, EfiRuntimeServicesData,
              EfiACPIReclaimMemory, EfiACPIMemoryNVS}"

definition pmm_is_mem_avail :: "EFI_MEMORY_TYPE \<Rightarrow> bool" where
  "pmm_is_mem_avail type =
     (if \<not> boot_is_mem_ram type then False
      else type \<in> {EfiConventionalMemory, EfiLoaderCode, EfiBootServicesCode, EfiBootServicesData})"

text \<open>The static initialisers of the file. The content of memory and of the array of
  reference counts at boot are arguments.\<close>

definition pmm_static :: "(u64 \<Rightarrow> page_stack) \<Rightarrow> pmm" where
  "pmm_static mem =
     \<lparr>pmm_pages = [], pmm_mem = mem, pmm_stack = None, pmm_location = FREE_PAGE_MAX,
      pmm_bitmap = BITMAP_CREATE_ONE PMM_BITMAP_MAX_PFN,
      pmm_highest = 0, pmm_total = 0, pmm_avail = 0\<rparr>"

definition pmm_detect_memory :: "memory_descriptor list \<Rightarrow> pmm \<Rightarrow> pmm" where
  "pmm_detect_memory mm s =
     foldl (\<lambda>s desc.
       (let s = (if boot_is_mem_ram (md_Type desc)
                 then s\<lparr>pmm_total := pmm_total s + md_NumberOfPages desc\<rparr> else s);
            endPfn = md_VirtualStart desc + md_NumberOfPages desc
        in s\<lparr>pmm_highest := MAX_u64 (pmm_highest s) endPfn\<rparr>)) s mm"

definition BYTES_TO_PAGES :: "u64 \<Rightarrow> u64" where
  "BYTES_TO_PAGES amount = (amount + PAGE_SIZE - 1) div PAGE_SIZE"

definition sizeof_page_t :: u64 where
  "sizeof_page_t = 2"

text \<open>The array of reference counts is placed in the first conventional descriptor that is
  large enough; the result is its page number.\<close>

definition pmm_init_refs :: "memory_descriptor list \<Rightarrow> pmm \<Rightarrow> u64 option" where
  "pmm_init_refs mm s =
     (let size = pmm_highest s * sizeof_page_t
      in map_option md_VirtualStart
           (List.find (\<lambda>desc. md_Type desc = EfiConventionalMemory \<and>
                              md_NumberOfPages desc \<ge> BYTES_TO_PAGES size) mm))"

definition poison_page :: page_stack where
  "poison_page = \<lparr>ps_next = Some 0xCCCCCCCCCCCCCCCC,
                   ps_pages = replicate FREE_PAGE_MAX 0xCCCCCCCCCCCCCCCC\<rparr>"

definition pmm_load_descriptor :: "u64 \<Rightarrow> memory_descriptor \<Rightarrow> pmm \<Rightarrow> pmm option" where
  "pmm_load_descriptor pagesPfn desc s =
     (let pfn = md_VirtualStart desc;
          amount = md_NumberOfPages desc;
          toSkip = BYTES_TO_PAGES (pmm_highest s * sizeof_page_t);
          (pfn, amount) = (if pfn = pagesPfn then (pfn + toSkip, amount - toSkip) else (pfn, amount))
      in if pmm_is_mem_avail (md_Type desc)
         then
           (let s = s\<lparr>pmm_mem := (\<lambda>p. if unat pfn \<le> unat p \<and> unat p < unat pfn + unat amount
                                       then poison_page else pmm_mem s p)\<rparr>
            in do {
              s \<leftarrow> for_each (\<lambda>j. write_ref 1 (pfn + of_nat j)) [0..<unat amount] s;
              pmm_free_region_unlocked pfn amount s
            })
         else
           for_each (\<lambda>j. write_ref 0xFFFF (pfn + of_nat j)) [0..<unat amount] s)"

definition pmm_load_memory :: "u64 \<Rightarrow> memory_descriptor list \<Rightarrow> pmm \<Rightarrow> pmm option" where
  "pmm_load_memory pagesPfn mm = for_each (pmm_load_descriptor pagesPfn) mm"

text \<open>\<open>refs\<close> is what the memory chosen for the array of reference counts holds at boot.\<close>

definition pmm_init :: "memory_descriptor list \<Rightarrow> (nat \<Rightarrow> u16) \<Rightarrow> pmm \<Rightarrow> pmm option" where
  "pmm_init mm refs s =
     (let s = pmm_detect_memory mm s
      in do {
        pagesPfn \<leftarrow> pmm_init_refs mm s;
        pmm_load_memory pagesPfn mm (s\<lparr>pmm_pages := List.map refs [0..<unat (pmm_highest s)]\<rparr>)
      })"

section \<open>Allocation and release\<close>

text \<open>The common head of the two page allocators: the stack first, then the bitmap.\<close>

definition pmm_take :: "pmm \<Rightarrow> (u64 \<times> pmm) option" where
  "pmm_take s = do {
     (pfn, s) \<leftarrow> pmm_stack_pop s;
     if pfn = ERR then pmm_bitmap_set 1 PMM_BITMAP_MAX_PFN 1 s else Some (pfn, s)
   }"

definition pmm_alloc :: "pmm \<Rightarrow> (u64 \<times> pmm) option" where
  "pmm_alloc s = do {
     (pfn, s) \<leftarrow> pmm_take s;
     if pfn \<noteq> ERR
     then do {
       s \<leftarrow> claim_ref pfn s;
       Some (pfn, s\<lparr>pmm_avail := pmm_avail s - 1\<rparr>)
     }
     else Some (ERR, s)
   }"

text \<open>The first loop of \<^verbatim>\<open>pmm_alloc_pages\<close>: \<open>pfns\<close> holds the pages taken so far; a
  failure gives them back in order and ends the call.\<close>

fun pmm_take_pages :: "nat \<Rightarrow> u64 list \<Rightarrow> pmm \<Rightarrow> (u64 list option \<times> pmm) option" where
  "pmm_take_pages 0 pfns s = Some (Some pfns, s)"
| "pmm_take_pages (Suc n) pfns s = do {
     (pfn, s) \<leftarrow> pmm_take s;
     if pfn = ERR then Some (None, foldl (\<lambda>s p. pmm_release p s) s pfns)
     else pmm_take_pages n (pfns @ [pfn]) s
   }"

definition pmm_alloc_pages :: "u64 \<Rightarrow> pmm \<Rightarrow> (u64 list option \<times> pmm) option" where
  "pmm_alloc_pages count s = do {
     (res, s) \<leftarrow> pmm_take_pages (unat count) [] s;
     case res of
       None \<Rightarrow> Some (None, s)
     | Some pfns \<Rightarrow> do {
         s \<leftarrow> for_each claim_ref pfns s;
         Some (Some pfns, s\<lparr>pmm_avail := pmm_avail s - count\<rparr>)
       }
   }"

definition pmm_alloc_bitmap :: "u64 \<Rightarrow> u64 \<Rightarrow> u64 \<Rightarrow> pmm \<Rightarrow> (u64 \<times> pmm) option" where
  "pmm_alloc_bitmap count maxPfn alignPfn s = do {
     (pfn, s) \<leftarrow> pmm_bitmap_set count maxPfn alignPfn s;
     if pfn \<noteq> ERR
     then do {
       s \<leftarrow> for_each (\<lambda>i. claim_ref (pfn + of_nat i)) [0..<unat count] s;
       Some (pfn, s\<lparr>pmm_avail := pmm_avail s - count\<rparr>)
     }
     else Some (ERR, s)
   }"

definition pmm_free :: "u64 \<Rightarrow> pmm \<Rightarrow> pmm option" where
  "pmm_free pfn s = pmm_free_unlocked pfn s"

definition pmm_free_pages :: "u64 list \<Rightarrow> pmm \<Rightarrow> pmm option" where
  "pmm_free_pages pfns = for_each pmm_free_unlocked pfns"

definition pmm_free_region :: "u64 \<Rightarrow> u64 \<Rightarrow> pmm \<Rightarrow> pmm option" where
  "pmm_free_region pfn count = pmm_free_region_unlocked pfn count"

text \<open>The loop of \<^verbatim>\<open>pmm_ref_inc\<close> over the remaining pages; \<open>i\<close> pages are already
  incremented and are decremented again on failure.\<close>

fun pmm_ref_inc_loop :: "u64 \<Rightarrow> nat \<Rightarrow> nat \<Rightarrow> pmm \<Rightarrow> (bool \<times> pmm) option" where
  "pmm_ref_inc_loop pfn i 0 s = Some (True, s)"
| "pmm_ref_inc_loop pfn i (Suc n) s = do {
     r \<leftarrow> page_ref s (pfn + of_nat i);
     if r = 0 \<or> r = 0xFFFF
     then do {
       s \<leftarrow> for_each (\<lambda>j s. do {
              q \<leftarrow> page_ref s (pfn + of_nat j);
              Some (set_page_ref (pfn + of_nat j) (q - 1) s) }) [0..<i] s;
       Some (False, s)
     }
     else pmm_ref_inc_loop pfn (Suc i) n (set_page_ref (pfn + of_nat i) (r + 1) s)
   }"

definition pmm_ref_inc :: "u64 \<Rightarrow> u64 \<Rightarrow> pmm \<Rightarrow> (u64 \<times> pmm) option" where
  "pmm_ref_inc pfn count s = do {
     (ok, s) \<leftarrow> pmm_ref_inc_loop pfn 0 (unat count) s;
     if ok then do { r \<leftarrow> page_ref s pfn; Some (ucast r, s) } else Some (ERR, s)
   }"

definition pmm_ref_dec :: "u64 \<Rightarrow> u64 \<Rightarrow> pmm \<Rightarrow> pmm option" where
  "pmm_ref_dec pfn count = pmm_free_region pfn count"

definition pmm_total_pages :: "pmm \<Rightarrow> u64" where
  "pmm_total_pages s = pmm_total s"

definition pmm_avail_pages :: "pmm \<Rightarrow> u64" where
  "pmm_avail_pages s = pmm_avail s"

definition pmm_used_pages :: "pmm \<Rightarrow> u64" where
  "pmm_used_pages s = pmm_total s - pmm_avail s"


section \<open>The stack as a list of page numbers\<close>

primrec chain :: "(u64 \<Rightarrow> page_stack) \<Rightarrow> u64 option \<Rightarrow> u64 list \<Rightarrow> bool" where
  "chain m p [] \<longleftrightarrow> p = None"
| "chain m p (q # qs) \<longleftrightarrow> p = Some q \<and> chain m (ps_next (m q)) qs"

primrec stack_pfns :: "(u64 \<Rightarrow> page_stack) \<Rightarrow> nat \<Rightarrow> u64 list \<Rightarrow> u64 list" where
  "stack_pfns m loc [] = []"
| "stack_pfns m loc (p # ps) = p # drop loc (ps_pages (m p)) @ stack_pfns m 0 ps"

definition stack_inv :: "pmm \<Rightarrow> u64 list \<Rightarrow> bool" where
  "stack_inv s pgs \<longleftrightarrow>
     chain (pmm_mem s) (pmm_stack s) pgs \<and>
     (\<forall>p. length (ps_pages (pmm_mem s p)) = FREE_PAGE_MAX) \<and>
     pmm_location s \<le> FREE_PAGE_MAX \<and>
     (pgs = [] \<longrightarrow> pmm_location s = FREE_PAGE_MAX) \<and>
     distinct (stack_pfns (pmm_mem s) (pmm_location s) pgs)"

abbreviation stack_set :: "pmm \<Rightarrow> u64 list \<Rightarrow> u64 set" where
  "stack_set s pgs \<equiv> set (stack_pfns (pmm_mem s) (pmm_location s) pgs)"

lemma FREE_PAGE_MAX_pos: "0 < FREE_PAGE_MAX"
  by (simp add: FREE_PAGE_MAX_def)

lemma chain_frame:
  "(\<And>x. x \<in> set qs \<Longrightarrow> ps_next (m' x) = ps_next (m x)) \<Longrightarrow> chain m' p qs = chain m p qs"
  by (induction qs arbitrary: p) auto

lemma stack_pfns_frame:
  "(\<And>x. x \<in> set qs \<Longrightarrow> ps_pages (m' x) = ps_pages (m x)) \<Longrightarrow>
     stack_pfns m' loc qs = stack_pfns m loc qs"
  by (induction qs arbitrary: loc) auto

lemma set_pages_in_stack_pfns: "set qs \<subseteq> set (stack_pfns m loc qs)"
  by (induction qs arbitrary: loc) auto

lemma drop_update_Cons:
  "0 < n \<Longrightarrow> n \<le> length xs \<Longrightarrow> drop (n - 1) (xs[n - 1 := v]) = v # drop n xs"
  by (metis Cons_nth_drop_Suc Suc_pred' drop_update_cancel diff_less length_list_update less_le_trans
      nth_list_update_eq lessI less_one)

lemma pmm_stack_push_correct:
  assumes inv: "stack_inv s pgs" and new: "pfn \<notin> stack_set s pgs"
  shows "\<exists>pgs'. stack_inv (pmm_stack_push pfn s) pgs' \<and>
                stack_set (pmm_stack_push pfn s) pgs' = insert pfn (stack_set s pgs)"
proof (cases "pgs \<noteq> [] \<and> pmm_location s \<noteq> 0")
  case True
  then obtain p ps where pgs: "pgs = p # ps" by (cases pgs) auto
  let ?m = "pmm_mem s" and ?l = "pmm_location s"
  let ?m' = "?m(p := (?m p)\<lparr>ps_pages := (ps_pages (?m p))[?l - 1 := pfn]\<rparr>)"
  have st: "pmm_stack s = Some p" and ch: "chain ?m (ps_next (?m p)) ps"
    using inv by (simp_all add: stack_inv_def pgs)
  have "p \<notin> set ps"
    using inv set_pages_in_stack_pfns [of ps ?m 0] by (auto simp: stack_inv_def pgs)
  then have tail: "stack_pfns ?m' 0 ps = stack_pfns ?m 0 ps" by (intro stack_pfns_frame) auto
  have "drop (?l - 1) ((ps_pages (?m p))[?l - 1 := pfn]) = pfn # drop ?l (ps_pages (?m p))"
    using inv True by (intro drop_update_Cons) (auto simp: stack_inv_def)
  then have pf: "stack_pfns ?m' (?l - 1) pgs = p # pfn # tl (stack_pfns ?m ?l pgs)"
    using tail by (simp add: pgs)
  have eq: "pmm_stack_push pfn s = s\<lparr>pmm_location := ?l - 1, pmm_mem := ?m'\<rparr>"
    using True st by (simp add: pmm_stack_push_def)
  have "chain ?m' (Some p) pgs"
    using ch chain_frame [of pgs ?m' ?m "Some p"] by (auto simp: pgs)
  then have "stack_inv (pmm_stack_push pfn s) pgs"
    using inv pf new st by (auto simp: stack_inv_def eq pgs)
  moreover have "stack_set (pmm_stack_push pfn s) pgs = insert pfn (stack_set s pgs)"
    using pf by (auto simp: eq pgs)
  ultimately show ?thesis by blast
next
  case False
  let ?m = "pmm_mem s"
  let ?m' = "?m(pfn := (?m pfn)\<lparr>ps_next := pmm_stack s\<rparr>)"
  have loc: "stack_pfns ?m (pmm_location s) pgs = stack_pfns ?m 0 pgs"
    using False by (cases pgs) auto
  have "pmm_stack s = None \<longleftrightarrow> pgs = []" using inv by (cases pgs) (auto simp: stack_inv_def)
  then have eq: "pmm_stack_push pfn s =
      s\<lparr>pmm_mem := ?m', pmm_stack := Some pfn, pmm_location := FREE_PAGE_MAX\<rparr>"
    using False by (auto simp: pmm_stack_push_def split: option.splits)
  have "pfn \<notin> set pgs" using new set_pages_in_stack_pfns by blast
  then have "chain ?m' (pmm_stack s) pgs"
    using inv by (subst chain_frame [of _ _ ?m]) (auto simp: stack_inv_def)
  moreover have "stack_pfns ?m' 0 pgs = stack_pfns ?m 0 pgs" by (intro stack_pfns_frame) auto
  ultimately have "stack_inv (pmm_stack_push pfn s) (pfn # pgs)"
      and "stack_set (pmm_stack_push pfn s) (pfn # pgs) = insert pfn (stack_set s pgs)"
    using inv new loc by (auto simp: stack_inv_def eq)
  then show ?thesis by blast
qed

lemma pmm_stack_pop_empty:
  "stack_inv s [] \<Longrightarrow> pmm_stack_pop s = Some (ERR, s)"
  by (simp add: stack_inv_def pmm_stack_pop_def)

lemma pmm_stack_pop_correct:
  assumes inv: "stack_inv s pgs" and ne: "pgs \<noteq> []"
  shows "\<exists>pfn s' pgs'. pmm_stack_pop s = Some (pfn, s') \<and> stack_inv s' pgs' \<and>
           pfn \<in> stack_set s pgs \<and> stack_set s' pgs' = stack_set s pgs - {pfn} \<and>
           s' = s\<lparr>pmm_stack := pmm_stack s', pmm_location := pmm_location s'\<rparr>"
proof -
  from ne obtain p ps where pgs: "pgs = p # ps" by (cases pgs) auto
  let ?m = "pmm_mem s" and ?l = "pmm_location s"
  have st: "pmm_stack s = Some p" and ch: "chain ?m (ps_next (?m p)) ps"
    and len: "length (ps_pages (?m p)) = FREE_PAGE_MAX"
    using inv by (simp_all add: stack_inv_def pgs)
  show ?thesis
  proof (cases "?l = FREE_PAGE_MAX")
    case True
    let ?s = "s\<lparr>pmm_stack := ps_next (?m p),
      pmm_location := (if ps_next (?m p) = None then FREE_PAGE_MAX else 0)\<rparr>"
    have loc: "stack_pfns ?m (pmm_location ?s) ps = stack_pfns ?m 0 ps"
      using ch by (cases ps) auto
    have all: "stack_pfns ?m ?l pgs = p # stack_pfns ?m 0 ps" using True len by (simp add: pgs)
    have "stack_inv ?s ps" "stack_set ?s ps = stack_set s pgs - {p}"
      using inv ch all loc by (cases ps; force simp: stack_inv_def)+
    moreover have "pmm_stack_pop s = Some (p, ?s)"
      using True st by (simp add: pmm_stack_pop_def Let_def)
    ultimately show ?thesis using all by (intro exI [of _ p] exI [of _ ?s] exI [of _ ps]) simp
  next
    case False
    let ?x = "ps_pages (?m p) ! ?l" and ?s = "s\<lparr>pmm_location := Suc ?l\<rparr>"
    have lt: "?l < FREE_PAGE_MAX" using False inv by (simp add: stack_inv_def)
    then have all: "stack_pfns ?m ?l pgs = p # ?x # drop (Suc ?l) (ps_pages (?m p)) @ stack_pfns ?m 0 ps"
      using len by (simp add: pgs Cons_nth_drop_Suc)
    have "stack_inv ?s pgs" "stack_set ?s pgs = stack_set s pgs - {?x}"
      using inv all lt by (auto simp: stack_inv_def pgs)
    moreover have "pmm_stack_pop s = Some (?x, ?s)"
      using False st by (simp add: pmm_stack_pop_def)
    ultimately show ?thesis using all by (intro exI [of _ ?x] exI [of _ ?s] exI [of _ pgs]) simp
  qed
qed

end
