(* ===== verification/Pmm_Spec.thy ===== *)
theory Pmm_Spec
  imports Pmm
begin

text \<open>
  The page allocator of \<^verbatim>\<open>src/kernel/mem/pmm.c\<close> against its contract: the set of free
  pages held by the stack and the bitmap, the invariant that ties that set to the reference
  counts and to the counter of available pages, and what each operation does to it.
\<close>

section \<open>The set of free pages\<close>

definition bitmap_free :: "bitmap \<Rightarrow> u64 set" where
  "bitmap_free bm = {p. unat p < bm_size bm \<and> \<not> bit_at bm (unat p)}"

text \<open>\<open>pmm_free_set s F\<close>: the stack and the bitmap together hold exactly the pages of
  \<open>F\<close>, each in the half of memory its number says.\<close>

definition pmm_free_set :: "pmm \<Rightarrow> u64 set \<Rightarrow> bool" where
  "pmm_free_set s F \<longleftrightarrow>
     bitmap_wf (pmm_bitmap s) \<and> bm_length (pmm_bitmap s) = PMM_BITMAP_MAX_PFN \<and>
     (\<exists>pgs. stack_inv s pgs \<and> (\<forall>p \<in> stack_set s pgs. PMM_BITMAP_MAX_PFN \<le> p) \<and>
            F = stack_set s pgs \<union> bitmap_free (pmm_bitmap s))"

text \<open>\<open>pmm_tracks s F G\<close>: the pages of \<open>F\<close> are free, have a count of 0 and are counted
  as available; the bitmap also offers the pages of \<open>G\<close>, of which nothing else is known.
  While the allocator runs there are none: that is \<open>pmm_inv\<close>.\<close>

definition pmm_tracks :: "pmm \<Rightarrow> u64 set \<Rightarrow> u64 set \<Rightarrow> bool" where
  "pmm_tracks s F G \<longleftrightarrow>
     pmm_free_set s (F \<union> G) \<and> (\<forall>p \<in> G. p < PMM_BITMAP_MAX_PFN) \<and>
     length (pmm_pages s) < 2 ^ 64 \<and> (\<forall>p \<in> F. page_ref s p = Some 0) \<and>
     unat (pmm_avail s) = card F"

definition pmm_inv :: "pmm \<Rightarrow> u64 set \<Rightarrow> bool" where
  "pmm_inv s F \<longleftrightarrow>
     pmm_free_set s F \<and> length (pmm_pages s) < 2 ^ 64 \<and>
     (\<forall>p \<in> F. page_ref s p = Some 0) \<and>
     unat (pmm_avail s) = card F"

lemma pmm_tracks_inv: "G \<subseteq> F \<Longrightarrow> pmm_tracks s F G \<Longrightarrow> pmm_inv s F"
  by (simp add: pmm_tracks_def pmm_inv_def Un_absorb2)

lemma pmm_inv_tracks: "pmm_inv s F = pmm_tracks s F {}"
  by (simp add: pmm_tracks_def pmm_inv_def)

definition same_refs :: "pmm \<Rightarrow> pmm \<Rightarrow> bool" where
  "same_refs s s' \<longleftrightarrow>
     pmm_pages s' = pmm_pages s \<and> pmm_avail s' = pmm_avail s \<and>
     pmm_highest s' = pmm_highest s \<and> pmm_total s' = pmm_total s"

lemma same_refs_refl [simp]: "same_refs s s"
  by (simp add: same_refs_def)

lemma same_refs_trans: "same_refs s s' \<Longrightarrow> same_refs s' s'' \<Longrightarrow> same_refs s s''"
  by (simp add: same_refs_def)

lemma PMM_BITMAP_MAX_PFN_val: "PMM_BITMAP_MAX_PFN = 16384"
  by (simp add: PMM_BITMAP_MAX_PFN_def PAGE_SIZE_def)

lemma unat_BITMAP_MAX [simp]: "unat PMM_BITMAP_MAX_PFN = 16384"
  by (simp add: PMM_BITMAP_MAX_PFN_val)

lemma bitmap_free_low: "bm_length bm = PMM_BITMAP_MAX_PFN \<Longrightarrow> p \<in> bitmap_free bm \<Longrightarrow> p < PMM_BITMAP_MAX_PFN"
  by (simp add: bitmap_free_def u64_nat)

lemma u64_singleton: "unat r \<le> unat p \<and> unat p < Suc (unat r) \<longleftrightarrow> p = (r :: u64)"
  by (metis le_less_Suc_eq lessI order_refl word_unat_eq_iff)

lemma bitmap_free_set_one:
  assumes "bitmap_wf bm" and "r \<in> bitmap_free bm"
  shows "bitmap_free (bitmap_set_range bm r (r + 1)) = bitmap_free bm - {r}"
proof -
  have r: "unat r < bm_size bm" using assms(2) by (simp add: bitmap_free_def)
  then have s: "unat (r + 1) = Suc (unat r)"
    using assms(1) by (intro unat_Suc_u64) (simp add: bitmap_wf_def)
  have rng: "r < r + 1" "r + 1 \<le> bm_length bm" using r s by (simp_all add: u64_nat)
  show ?thesis
    using bit_at_bitmap_set_range [OF assms(1) _ rng] s
    by (auto simp: bitmap_free_def u64_singleton)
qed

lemma bitmap_free_clear_one:
  assumes "bitmap_wf bm" and "unat r < bm_size bm"
  shows "bitmap_free (bitmap_clear_range bm r (r + 1)) = insert r (bitmap_free bm)"
proof -
  have s: "unat (r + 1) = Suc (unat r)"
    using assms by (intro unat_Suc_u64) (simp add: bitmap_wf_def)
  have rng: "r < r + 1" "r + 1 \<le> bm_length bm" using assms(2) s by (simp_all add: u64_nat)
  show ?thesis
    using bit_at_bitmap_clear_range [OF assms(1) _ rng] s assms(2)
    by (auto simp: bitmap_free_def u64_singleton)
qed

lemma pmm_bitmap_fields [simp]:
  "stack_inv (s\<lparr>pmm_bitmap := bm\<rparr>) pgs = stack_inv s pgs"
  "stack_inv (s\<lparr>pmm_pages := r\<rparr>) pgs = stack_inv s pgs"
  "stack_inv (s\<lparr>pmm_avail := a\<rparr>) pgs = stack_inv s pgs"
  by (simp_all add: stack_inv_def)

lemma pmm_free_set_refs [simp]:
  "pmm_free_set (set_page_ref p r s) F = pmm_free_set s F"
  "pmm_free_set (s\<lparr>pmm_avail := a\<rparr>) F = pmm_free_set s F"
  by (simp_all add: pmm_free_set_def set_page_ref_def)

lemma pmm_stack_push_fields [simp]:
  "pmm_bitmap (pmm_stack_push p s) = pmm_bitmap s" "same_refs s (pmm_stack_push p s)"
  by (simp_all add: pmm_stack_push_def same_refs_def split: option.split)

lemma pmm_release_correct:
  assumes inv: "pmm_free_set s F" and p: "p \<notin> F \<or> p < PMM_BITMAP_MAX_PFN"
  shows "pmm_free_set (pmm_release p s) (insert p F)" and "same_refs s (pmm_release p s)"
proof -
  from inv obtain pgs where wf: "bitmap_wf (pmm_bitmap s)" "bm_length (pmm_bitmap s) = PMM_BITMAP_MAX_PFN"
    and st: "stack_inv s pgs" "\<forall>p \<in> stack_set s pgs. PMM_BITMAP_MAX_PFN \<le> p"
    and F: "F = stack_set s pgs \<union> bitmap_free (pmm_bitmap s)"
    unfolding pmm_free_set_def by blast
  show "same_refs s (pmm_release p s)"
    by (simp add: pmm_release_def pmm_bitmap_clear_def) (simp add: same_refs_def)
  show "pmm_free_set (pmm_release p s) (insert p F)"
  proof (cases "p \<ge> PMM_BITMAP_MAX_PFN")
    case True
    then have "p \<notin> stack_set s pgs" using p F by auto
    from pmm_stack_push_correct [OF st(1) this]
    obtain pgs' where pgs': "stack_inv (pmm_stack_push p s) pgs'"
        "stack_set (pmm_stack_push p s) pgs' = insert p (stack_set s pgs)" by blast
    have "\<forall>q \<in> insert p (stack_set s pgs). PMM_BITMAP_MAX_PFN \<le> q" using True st(2) by blast
    moreover have "insert p F = insert p (stack_set s pgs) \<union> bitmap_free (pmm_bitmap s)"
      using F by blast
    ultimately show ?thesis
      using True wf pgs' unfolding pmm_free_set_def pmm_release_def
      by (intro conjI exI [of _ pgs']) simp_all
  next
    case False
    let ?bm = "bitmap_clear_range (pmm_bitmap s) p (p + 1)"
    have "unat p < bm_size (pmm_bitmap s)" using False wf(2) by (simp add: u64_nat)
    then have "bitmap_free ?bm = insert p (bitmap_free (pmm_bitmap s))"
      by (rule bitmap_free_clear_one [OF wf(1)])
    with False wf st F show ?thesis
      by (auto simp: pmm_free_set_def pmm_release_def pmm_bitmap_clear_def intro!: exI [of _ pgs])
  qed
qed

lemma pmm_bitmap_set_one:
  assumes "bitmap_wf (pmm_bitmap s)" and "bm_length (pmm_bitmap s) = PMM_BITMAP_MAX_PFN"
  shows "(bitmap_free (pmm_bitmap s) = {} \<and> pmm_bitmap_set 1 PMM_BITMAP_MAX_PFN 1 s = Some (ERR, s)) \<or>
         (\<exists>r \<in> bitmap_free (pmm_bitmap s). pmm_bitmap_set 1 PMM_BITMAP_MAX_PFN 1 s =
            Some (r, s\<lparr>pmm_bitmap := bitmap_set_range (pmm_bitmap s) r (r + 1)\<rparr>))"
proof -
  let ?bm = "pmm_bitmap s" and ?max = PMM_BITMAP_MAX_PFN
  have one: "MAX_u64 1 1 = 1" "MIN_u64 ?max ?max = ?max" by (simp_all add: MAX_u64_def MIN_u64_def)
  have slot: "free_slot ?bm (Suc 0) (Suc 0) 16384 u \<longleftrightarrow> u < 16384 \<and> \<not> bit_at ?bm u" for u
    by (auto simp: free_slot_def clear_region_def le_less_Suc_eq)
  obtain r bm' where
    res: "bitmap_find_clear_region_and_set ?bm 0 ?max 1 1 = Some (r, bm')"
    and fit: "first_fit ?bm 0 ?max 1 1 (r, bm')"
    using find_clear_region_first_fit [OF assms(1), of 1 ?max 0 1] assms(2)
    by (auto simp: u64_nat)
  from fit consider
      (1) "free_slot ?bm (Suc 0) (Suc 0) 16384 (unat r)" "bm' = bitmap_set_range ?bm r (r + 1)"
    | (2) "r = ?max" "bm' = ?bm" "\<forall>u. \<not> free_slot ?bm (Suc 0) (Suc 0) 16384 u"
    using assms(2) by (auto simp: first_fit_def Let_def)
  then show ?thesis
  proof cases
    case 1
    then have "r \<in> bitmap_free ?bm" using assms(2) by (simp add: slot bitmap_free_def)
    moreover have "r \<noteq> ?max" using 1(1) by (auto simp: slot)
    ultimately show ?thesis using res 1(2) assms(2) by (auto simp: pmm_bitmap_set_def one)
  next
    case 2
    then have "bitmap_free ?bm = {}" using assms(2) by (auto simp: slot bitmap_free_def)
    then show ?thesis using res 2 assms(2) by (simp add: pmm_bitmap_set_def one)
  qed
qed

lemma pmm_take_correct:
  assumes inv: "pmm_free_set s F" and err: "ERR \<notin> F"
  shows "(F = {} \<and> pmm_take s = Some (ERR, s)) \<or>
         (\<exists>p s'. p \<in> F \<and> pmm_take s = Some (p, s') \<and> pmm_free_set s' (F - {p}) \<and> same_refs s s')"
proof -
  from inv obtain pgs where wf: "bitmap_wf (pmm_bitmap s)" "bm_length (pmm_bitmap s) = PMM_BITMAP_MAX_PFN"
    and st: "stack_inv s pgs" "\<forall>p \<in> stack_set s pgs. PMM_BITMAP_MAX_PFN \<le> p"
    and F: "F = stack_set s pgs \<union> bitmap_free (pmm_bitmap s)"
    unfolding pmm_free_set_def by blast
  have disj: "stack_set s pgs \<inter> bitmap_free (pmm_bitmap s) = {}"
    using st(2) bitmap_free_low [OF wf(2)] by force
  show ?thesis
  proof (cases "pgs = []")
    case True
    then have pop: "pmm_stack_pop s = Some (ERR, s)" using st(1) pmm_stack_pop_empty by simp
    from pmm_bitmap_set_one [OF wf] show ?thesis
    proof (elim disjE conjE bexE)
      assume "bitmap_free (pmm_bitmap s) = {}" "pmm_bitmap_set 1 PMM_BITMAP_MAX_PFN 1 s = Some (ERR, s)"
      with pop F True show ?thesis by (simp add: pmm_take_def)
    next
      fix r
      let ?s = "s\<lparr>pmm_bitmap := bitmap_set_range (pmm_bitmap s) r (r + 1)\<rparr>"
      assume r: "r \<in> bitmap_free (pmm_bitmap s)" "pmm_bitmap_set 1 PMM_BITMAP_MAX_PFN 1 s = Some (r, ?s)"
      have "pmm_free_set ?s (F - {r})"
        unfolding pmm_free_set_def
      proof (intro conjI exI [of _ "[]"])
        show "F - {r} = stack_set ?s [] \<union> bitmap_free (pmm_bitmap ?s)"
          using F True bitmap_free_set_one [OF wf(1) r(1)] by simp
      qed (use wf st(1) True in \<open>auto simp del: One_nat_def\<close>)
      moreover have "pmm_take s = Some (r, ?s)" using pop r(2) by (simp add: pmm_take_def)
      moreover have "same_refs s ?s" by (simp add: same_refs_def)
      ultimately show ?thesis using r(1) F by blast
    qed
  next
    case False
    from pmm_stack_pop_correct [OF st(1) False] obtain p s' pgs' where
      pop: "pmm_stack_pop s = Some (p, s')" and st': "stack_inv s' pgs'" and p: "p \<in> stack_set s pgs"
      and set': "stack_set s' pgs' = stack_set s pgs - {p}"
      and s': "s' = s\<lparr>pmm_stack := pmm_stack s', pmm_location := pmm_location s'\<rparr>" by blast
    have bm: "pmm_bitmap s' = pmm_bitmap s" and refs: "same_refs s s'"
      by (subst s', simp add: same_refs_def)+
    have "pmm_free_set s' (F - {p})"
      unfolding pmm_free_set_def bm
    proof (intro conjI exI [of _ pgs'])
      show "\<forall>q \<in> stack_set s' pgs'. PMM_BITMAP_MAX_PFN \<le> q" using st(2) set' by blast
      show "F - {p} = stack_set s' pgs' \<union> bitmap_free (pmm_bitmap s)"
        using F set' p disj by blast
    qed (use wf st' in simp_all)
    moreover have "p \<noteq> ERR" using p F err by auto
    ultimately show ?thesis using pop p F refs by (auto simp: pmm_take_def)
  qed
qed

section \<open>What the operations do to the set of free pages\<close>

lemma page_ref_set_page_ref [simp]:
  "page_ref (set_page_ref p r s) q =
     (if p = q \<and> page_ref s q \<noteq> None then Some r else page_ref s q)"
  by (auto simp: page_ref_def set_page_ref_def nth_list_update word_unat_eq_iff)

lemma page_ref_avail [simp]: "page_ref (s\<lparr>pmm_avail := a\<rparr>) p = page_ref s p"
  by (simp add: page_ref_def)

lemma page_ref_same_refs: "same_refs s s' \<Longrightarrow> page_ref s' p = page_ref s p"
  by (simp add: page_ref_def same_refs_def)

lemma length_set_page_ref [simp]: "length (pmm_pages (set_page_ref p r s)) = length (pmm_pages s)"
  by (simp add: set_page_ref_def)

lemma pmm_avail_set_page_ref [simp]: "pmm_avail (set_page_ref p r s) = pmm_avail s"
  by (simp add: set_page_ref_def)

lemma same_refs_pages: "same_refs s s' \<Longrightarrow> length (pmm_pages s') = length (pmm_pages s)"
  by (simp add: same_refs_def)

lemma same_refs_avail: "same_refs s s' \<Longrightarrow> pmm_avail s' = pmm_avail s"
  by (simp add: same_refs_def)

lemmas same_refs_simps = page_ref_same_refs same_refs_pages same_refs_avail

lemma page_ref_ERR: "length (pmm_pages s) < 2 ^ 64 \<Longrightarrow> page_ref s ERR = None"
  by (simp add: page_ref_def ERR_def unsigned_minus_1_eq_mask mask_eq_exp_minus_1 linorder_not_less)

lemma pmm_inv_ERR: "pmm_inv s F \<Longrightarrow> ERR \<notin> F"
  by (auto simp: pmm_inv_def page_ref_ERR)

lemma finite_pages [simp]: "finite (F :: u64 set)"
  by (rule finite)

lemma pmm_alloc_cases:
  assumes inv: "pmm_inv s F"
  shows "(F = {} \<and> pmm_alloc s = Some (ERR, s)) \<or>
         (\<exists>p s'. p \<in> F \<and> pmm_alloc s = Some (p, s') \<and> pmm_inv s' (F - {p}) \<and>
                 (\<forall>q. page_ref s' q = (if q = p then Some 1 else page_ref s q)))"
proof -
  note take = pmm_take_correct [of s F, OF _ pmm_inv_ERR [OF inv]]
  show ?thesis
  proof (cases "F = {}")
    case True
    with take inv show ?thesis by (auto simp: pmm_alloc_def pmm_inv_def)
  next
    case False
    with take inv obtain p s1 where p: "p \<in> F" and t: "pmm_take s = Some (p, s1)"
      and fs: "pmm_free_set s1 (F - {p})" and same: "same_refs s s1"
      by (auto simp: pmm_inv_def)
    let ?s = "(set_page_ref p 1 s1)\<lparr>pmm_avail := pmm_avail s1 - 1\<rparr>"
    have ref: "page_ref s1 p = Some 0" using p inv same by (simp add: pmm_inv_def same_refs_simps)
    have "card F > 0" using p by (auto simp: card_gt_0_iff)
    then have "unat (pmm_avail s - 1) = card (F - {p})"
      using inv p by (subst unat_sub_u64) (auto simp: pmm_inv_def)
    then have "pmm_inv ?s (F - {p})"
      using inv fs same by (auto simp add: pmm_inv_def same_refs_simps)
    moreover have "pmm_alloc s = Some (p, ?s)"
      using t ref p pmm_inv_ERR [OF inv] by (auto simp: pmm_alloc_def claim_ref_def)
    moreover have "\<forall>q. page_ref ?s q = (if q = p then Some 1 else page_ref s q)"
      using ref same by (auto simp: same_refs_simps)
    ultimately show ?thesis using p by blast
  qed
qed

lemma pmm_free_tracks:
  assumes inv: "pmm_tracks s F G" and ref: "page_ref s p = Some 1"
  shows "\<exists>s'. pmm_free_unlocked p s = Some s' \<and> pmm_tracks s' (insert p F) G \<and>
              (\<forall>q. page_ref s' q = (if q = p then Some 0 else page_ref s q)) \<and>
              pmm_highest s' = pmm_highest s \<and> length (pmm_pages s') = length (pmm_pages s)"
proof -
  let ?s = "set_page_ref p 0 s"
  let ?r = "pmm_release p ?s"
  have p: "p \<notin> F" "p \<notin> F \<union> G \<or> p < PMM_BITMAP_MAX_PFN" using inv ref by (auto simp: pmm_tracks_def)
  have fs: "pmm_free_set ?s (F \<union> G)" using inv by (simp add: pmm_tracks_def)
  note rel = pmm_release_correct [OF fs p(2)]
  have "insert p F \<subseteq> {q. unat q < length (pmm_pages s)}"
    using inv ref by (auto simp: pmm_tracks_def page_ref_def split: if_splits)
  then have "card (insert p F) \<le> card {q :: u64. unat q < length (pmm_pages s)}"
    by (rule card_mono [rotated]) simp
  also have "\<dots> \<le> card {..<length (pmm_pages s)}"
    by (rule card_inj_on_le [of unat]) (auto simp: inj_on_def word_unat_eq_iff)
  finally have "Suc (card F) < 2 ^ 64" using inv p by (simp add: pmm_tracks_def)
  then have "unat (pmm_avail s + 1) = card (insert p F)"
    using inv p by (simp add: pmm_tracks_def unat_Suc_u64)
  then have "pmm_tracks (?r\<lparr>pmm_avail := pmm_avail ?r + 1\<rparr>) (insert p F) G"
    using inv ref rel by (auto simp: pmm_tracks_def same_refs_simps)
  moreover have "pmm_free_unlocked p s = Some (?r\<lparr>pmm_avail := pmm_avail ?r + 1\<rparr>)"
    using ref by (simp add: pmm_free_unlocked_def Let_def)
  moreover have "\<forall>q. page_ref (?r\<lparr>pmm_avail := pmm_avail ?r + 1\<rparr>) q =
      (if q = p then Some 0 else page_ref s q)"
    using ref rel(2) by (simp add: same_refs_simps)
  moreover have "pmm_highest ?r = pmm_highest s" "length (pmm_pages ?r) = length (pmm_pages s)"
    using rel(2) by (simp_all add: same_refs_def set_page_ref_def)
  ultimately show ?thesis by (intro exI [of _ "?r\<lparr>pmm_avail := pmm_avail ?r + 1\<rparr>"]) simp
qed

lemma pmm_free_last:
  assumes "pmm_inv s F" and "page_ref s p = Some 1"
  shows "\<exists>s'. pmm_free_unlocked p s = Some s' \<and> pmm_inv s' (insert p F) \<and>
              (\<forall>q. page_ref s' q = (if q = p then Some 0 else page_ref s q))"
  using pmm_free_tracks [of s F "{}" p] assms by (auto simp: pmm_inv_tracks)

lemma pmm_free_shared:
  assumes inv: "pmm_inv s F" and ref: "page_ref s p = Some r" "1 < r"
  shows "pmm_free_unlocked p s = Some (set_page_ref p (r - 1) s)"
    and "pmm_inv (set_page_ref p (r - 1) s) F"
proof -
  have "r \<noteq> 0" "r - 1 \<noteq> 0" using ref(2) by auto
  then have "0 < r" "0 < r - 1" by (simp_all add: word_gt_0)
  then show "pmm_free_unlocked p s = Some (set_page_ref p (r - 1) s)"
    using ref by (simp add: pmm_free_unlocked_def Let_def)
  show "pmm_inv (set_page_ref p (r - 1) s) F"
    using inv ref by (auto simp: pmm_inv_def)
qed

lemma pmm_free_panics:
  "pmm_inv s F \<Longrightarrow> p \<in> F \<or> page_ref s p = None \<Longrightarrow> pmm_free_unlocked p s = None"
  by (auto simp: pmm_free_unlocked_def pmm_inv_def)

end
