(* ===== verification/Pmm_Ops.thy ===== *)
theory Pmm_Ops
  imports Pmm_Spec
begin

text \<open>
  The operations of \<^verbatim>\<open>src/kernel/mem/pmm.c\<close> on many pages at once, the loading of the boot
  memory map, and the properties of the page allocator.
\<close>

section \<open>Regions of pages\<close>

definition page_region :: "u64 \<Rightarrow> nat \<Rightarrow> u64 list" where
  "page_region pfn n = List.map (\<lambda>i. pfn + of_nat i) [0..<n]"

lemma for_each_map: "for_each f (List.map g xs) s = for_each (\<lambda>i. f (g i)) xs s"
  by (induction xs arbitrary: s) (simp_all split: bind_split)

lemma for_each_region:
  "for_each (\<lambda>i. f (pfn + of_nat i)) [0..<n] = for_each f (page_region pfn n)"
  by (rule ext) (simp add: page_region_def for_each_map)

lemma unat_region_nth:
  "unat pfn + n < 2 ^ 64 \<Longrightarrow> i \<le> n \<Longrightarrow> unat (pfn + of_nat i :: u64) = unat pfn + i"
  by (subst unat_add_u64) (simp_all add: unat_of_nat take_bit_nat_eq_self)

lemma in_page_region:
  assumes "unat pfn + n < 2 ^ 64"
  shows "p \<in> set (page_region pfn n) \<longleftrightarrow> unat pfn \<le> unat p \<and> unat p < unat pfn + n"
proof
  assume "p \<in> set (page_region pfn n)"
  then show "unat pfn \<le> unat p \<and> unat p < unat pfn + n"
    using unat_region_nth [OF assms] by (auto simp: page_region_def)
next
  assume p: "unat pfn \<le> unat p \<and> unat p < unat pfn + n"
  let ?i = "unat p - unat pfn"
  have "unat (pfn + of_nat ?i) = unat p" using p unat_region_nth [OF assms, of ?i] by simp
  then have "p = pfn + of_nat ?i" by (simp add: word_unat_eq_iff)
  moreover have "?i < n" using p by linarith
  ultimately show "p \<in> set (page_region pfn n)" unfolding page_region_def by auto
qed

lemma distinct_page_region: "unat pfn + n < 2 ^ 64 \<Longrightarrow> distinct (page_region pfn n)"
  using unat_region_nth [of pfn n]
  by (auto simp: page_region_def distinct_map inj_on_def word_unat_eq_iff)

lemma length_page_region [simp]: "length (page_region pfn n) = n"
  by (simp add: page_region_def)

section \<open>Taking many pages\<close>

lemma pmm_releases_correct:
  assumes "pmm_free_set s F" and "distinct ps" and "set ps \<inter> F = {}"
  shows "pmm_free_set (foldl (\<lambda>s p. pmm_release p s) s ps) (F \<union> set ps) \<and>
         same_refs s (foldl (\<lambda>s p. pmm_release p s) s ps)"
  using assms
proof (induction ps arbitrary: s F)
  case (Cons p ps)
  have "p \<notin> F \<or> p < PMM_BITMAP_MAX_PFN" using Cons.prems by auto
  note rel = pmm_release_correct [OF Cons.prems(1) this]
  have "pmm_free_set (foldl (\<lambda>s p. pmm_release p s) (pmm_release p s) ps) (insert p F \<union> set ps) \<and>
        same_refs (pmm_release p s) (foldl (\<lambda>s p. pmm_release p s) (pmm_release p s) ps)"
    using Cons.prems rel by (intro Cons.IH) auto
  then show ?case using same_refs_trans [OF rel(2)] by simp
qed simp

lemma pmm_take_pages_correct:
  assumes "pmm_free_set s F" and "ERR \<notin> F" and "distinct pfns" and "set pfns \<inter> F = {}"
  shows "if n \<le> card F
         then \<exists>ps s'. pmm_take_pages n pfns s = Some (Some (pfns @ ps), s') \<and> length ps = n \<and>
                distinct ps \<and> set ps \<subseteq> F \<and> pmm_free_set s' (F - set ps) \<and> same_refs s s'
         else \<exists>s'. pmm_take_pages n pfns s = Some (None, s') \<and>
                pmm_free_set s' (F \<union> set pfns) \<and> same_refs s s'"
  using assms
proof (induction n arbitrary: pfns s F)
  case 0
  then show ?case by simp
next
  case (Suc n)
  show ?case
  proof (cases "F = {}")
    case True
    then have "pmm_take s = Some (ERR, s)" using pmm_take_correct Suc.prems by blast
    then show ?thesis using True pmm_releases_correct [OF Suc.prems(1,3,4)] by auto
  next
    case False
    then obtain p s1 where p: "p \<in> F" and t: "pmm_take s = Some (p, s1)"
      and fs: "pmm_free_set s1 (F - {p})" and same: "same_refs s s1"
      using pmm_take_correct [OF Suc.prems(1,2)] by blast
    have eq: "pmm_take_pages (Suc n) pfns s = pmm_take_pages n (pfns @ [p]) s1"
      using t p Suc.prems(2) by auto
    have c: "Suc n \<le> card F \<longleftrightarrow> n \<le> card (F - {p})" "F \<union> set pfns = F - {p} \<union> set (pfns @ [p])"
      using p card_gt_0_iff [of F] by auto
    have pre: "ERR \<notin> F - {p}" "distinct (pfns @ [p])" "set (pfns @ [p]) \<inter> (F - {p}) = {}"
      using Suc.prems p by auto
    note IH = Suc.IH [OF fs pre]
    show ?thesis
    proof (cases "n \<le> card (F - {p})")
      case True
      with IH obtain ps s' where "pmm_take_pages n (pfns @ [p]) s1 = Some (Some ((pfns @ [p]) @ ps), s')"
        "length ps = n" "distinct ps" "set ps \<subseteq> F - {p}" "pmm_free_set s' (F - {p} - set ps)"
        "same_refs s1 s'" by (simp only: if_True) blast
      moreover from this have "distinct (p # ps)" "set (p # ps) \<subseteq> F" "F - set (p # ps) = F - {p} - set ps"
        using p by auto
      ultimately show ?thesis
        using same_refs_trans [OF same]
        by (simp only: c eq True if_True) (intro exI [of _ "p # ps"] exI [of _ s'], simp)
    next
      case False
      then show ?thesis
        using IH same same_refs_trans by (simp only: c eq if_False) blast
    qed
  qed
qed

section \<open>Claiming reference counts\<close>

lemma claim_refs:
  assumes "distinct ps" and "\<forall>p \<in> set ps. page_ref s p = Some 0"
  shows "\<exists>s'. for_each claim_ref ps s = Some s' \<and>
              (\<forall>q. page_ref s' q = (if q \<in> set ps then Some 1 else page_ref s q)) \<and>
              length (pmm_pages s') = length (pmm_pages s) \<and> pmm_avail s' = pmm_avail s \<and>
              (\<forall>F. pmm_free_set s' F = pmm_free_set s F)"
  using assms
proof (induction ps arbitrary: s)
  case (Cons p ps)
  let ?s = "set_page_ref p 1 s"
  have "\<forall>q \<in> set ps. page_ref ?s q = Some 0" using Cons.prems by auto
  with Cons.IH [of ?s] Cons.prems(1) obtain s' where
    s': "for_each claim_ref ps ?s = Some s'"
      "\<forall>q. page_ref s' q = (if q \<in> set ps then Some 1 else page_ref ?s q)"
      "length (pmm_pages s') = length (pmm_pages ?s)" "pmm_avail s' = pmm_avail ?s"
      "\<forall>F. pmm_free_set s' F = pmm_free_set ?s F" by auto
  have "claim_ref p s = Some ?s" using Cons.prems(2) by (simp add: claim_ref_def)
  with s' Cons.prems(2) show ?case by (intro exI [of _ s']) auto
qed simp

text \<open>Claiming \<open>ps\<close> after they left the free set keeps the invariant.\<close>

lemma claim_pages:
  assumes inv: "pmm_inv s F" and s1: "pmm_free_set s1 (F - set ps)" "same_refs s s1"
    and ps: "distinct ps" "set ps \<subseteq> F" and n: "length ps = unat count"
  shows "\<exists>s'. for_each claim_ref ps s1 = Some s' \<and>
              pmm_inv (s'\<lparr>pmm_avail := pmm_avail s' - count\<rparr>) (F - set ps) \<and>
              (\<forall>q. page_ref s' q = (if q \<in> set ps then Some 1 else page_ref s q))"
proof -
  have "\<forall>p \<in> set ps. page_ref s1 p = Some 0"
    using inv ps(2) s1(2) by (auto simp: pmm_inv_def same_refs_simps)
  from claim_refs [OF ps(1) this] obtain s' where
    s': "for_each claim_ref ps s1 = Some s'"
      "\<forall>q. page_ref s' q = (if q \<in> set ps then Some 1 else page_ref s1 q)"
      "length (pmm_pages s') = length (pmm_pages s1)" "pmm_avail s' = pmm_avail s1"
      "\<forall>F. pmm_free_set s' F = pmm_free_set s1 F" by blast
  have "card (set ps) \<le> card F" using ps(2) by (intro card_mono) simp_all
  then have "unat (pmm_avail s - count) = card (F - set ps)"
    using inv ps n by (subst unat_sub_u64)
      (auto simp: pmm_inv_def card_Diff_subset distinct_card u64_nat)
  then have "pmm_inv (s'\<lparr>pmm_avail := pmm_avail s' - count\<rparr>) (F - set ps)"
    using inv s1 s' by (auto simp: pmm_inv_def same_refs_simps)
  with s' s1(2) show ?thesis by (auto simp: same_refs_simps)
qed

section \<open>The bulk operations\<close>

lemma pmm_alloc_pages_cases:
  assumes inv: "pmm_inv s F"
  shows "if unat count \<le> card F
         then \<exists>ps s'. pmm_alloc_pages count s = Some (Some ps, s') \<and> length ps = unat count \<and>
                distinct ps \<and> set ps \<subseteq> F \<and> pmm_inv s' (F - set ps) \<and>
                (\<forall>q. page_ref s' q = (if q \<in> set ps then Some 1 else page_ref s q))
         else \<exists>s'. pmm_alloc_pages count s = Some (None, s') \<and> pmm_inv s' F \<and>
                (\<forall>q. page_ref s' q = page_ref s q)"
proof -
  have fs: "pmm_free_set s F" using inv by (simp add: pmm_inv_def)
  note take = pmm_take_pages_correct [OF fs pmm_inv_ERR [OF inv], of "[]" "unat count"]
  show ?thesis
  proof (cases "unat count \<le> card F")
    case True
    with take obtain ps s1 where t: "pmm_take_pages (unat count) [] s = Some (Some ps, s1)"
      "length ps = unat count" "distinct ps" "set ps \<subseteq> F" "pmm_free_set s1 (F - set ps)"
      "same_refs s s1" by auto
    from claim_pages [OF inv t(5,6,3,4,2)] obtain s' where
      s': "for_each claim_ref ps s1 = Some s'"
      "pmm_inv (s'\<lparr>pmm_avail := pmm_avail s' - count\<rparr>) (F - set ps)"
      "\<forall>q. page_ref s' q = (if q \<in> set ps then Some 1 else page_ref s q)" by blast
    then have "pmm_alloc_pages count s = Some (Some ps, s'\<lparr>pmm_avail := pmm_avail s' - count\<rparr>)"
      by (simp add: pmm_alloc_pages_def t(1))
    with True s' t show ?thesis by auto
  next
    case False
    with take obtain s' where "pmm_take_pages (unat count) [] s = Some (None, s')"
      "pmm_free_set s' F" "same_refs s s'" by auto
    with False inv show ?thesis by (auto simp: pmm_alloc_pages_def pmm_inv_def same_refs_simps)
  qed
qed

lemma pmm_free_set_low:
  "pmm_free_set s F \<Longrightarrow> unat p < 16384 \<Longrightarrow> p \<in> F \<longleftrightarrow> \<not> bit_at (pmm_bitmap s) (unat p)"
  by (force simp: pmm_free_set_def bitmap_free_def u64_nat)

lemma bitmap_set_region_free:
  assumes fs: "pmm_free_set s F" and b: "0 < count" "unat r + unat count \<le> 16384"
    and clear: "clear_region (pmm_bitmap s) (unat r) (unat count)"
  shows "pmm_free_set (s\<lparr>pmm_bitmap := bitmap_set_range (pmm_bitmap s) r (r + count)\<rparr>)
           (F - set (page_region r (unat count)))"
    and "set (page_region r (unat count)) \<subseteq> F"
proof -
  from fs obtain pgs where wf: "bitmap_wf (pmm_bitmap s)" "bm_length (pmm_bitmap s) = PMM_BITMAP_MAX_PFN"
    and st: "stack_inv s pgs" "\<forall>p \<in> stack_set s pgs. PMM_BITMAP_MAX_PFN \<le> p"
    and F: "F = stack_set s pgs \<union> bitmap_free (pmm_bitmap s)"
    unfolding pmm_free_set_def by blast
  let ?R = "set (page_region r (unat count))" and ?bm = "bitmap_set_range (pmm_bitmap s) r (r + count)"
  have R: "p \<in> ?R \<longleftrightarrow> unat r \<le> unat p \<and> unat p < unat r + unat count" for p
    using b(2) by (intro in_page_region) simp
  have sum: "unat (r + count) = unat r + unat count" using b(2) by (intro unat_add_u64) simp
  have rng: "r < r + count" "r + count \<le> bm_length (pmm_bitmap s)"
    using sum b wf(2) by (simp_all add: u64_nat)
  show sub: "?R \<subseteq> F"
  proof
    fix p assume "p \<in> ?R"
    then show "p \<in> F"
      using R b(2) clear pmm_free_set_low [OF fs, of p] by (auto simp: clear_region_def)
  qed
  have "bitmap_free ?bm = bitmap_free (pmm_bitmap s) - ?R"
    using bit_at_bitmap_set_range [OF wf(1) _ rng] by (auto simp: bitmap_free_def R sum)
  moreover have "stack_set s pgs \<inter> ?R = {}" using st(2) R b(2) by (force simp: u64_nat)
  ultimately have "F - ?R = stack_set s pgs \<union> bitmap_free ?bm" using F by blast
  moreover have "bitmap_wf ?bm" using wf(1) by (rule bitmap_wf_set_range)
  ultimately show "pmm_free_set (s\<lparr>pmm_bitmap := ?bm\<rparr>) (F - ?R)"
    using wf st unfolding pmm_free_set_def by (intro conjI exI [of _ pgs]) simp_all
qed

text \<open>\<open>dma_slot F n a hi b\<close>: an aligned run of \<open>n\<close> free pages starts at \<open>b\<close> and ends
  at or before \<open>hi\<close>.\<close>

definition dma_slot :: "u64 set \<Rightarrow> nat \<Rightarrow> nat \<Rightarrow> nat \<Rightarrow> u64 \<Rightarrow> bool" where
  "dma_slot F n a hi b \<longleftrightarrow> a dvd unat b \<and> unat b + n \<le> hi \<and> set (page_region b n) \<subseteq> F"

lemma free_slot_iff_dma_slot:
  assumes "pmm_free_set s F" and "hi \<le> 16384"
  shows "free_slot (pmm_bitmap s) n a hi (unat b) \<longleftrightarrow> dma_slot F n a hi b"
proof (cases "unat b + n \<le> hi")
  case True
  have R: "p \<in> set (page_region b n) \<longleftrightarrow> unat b \<le> unat p \<and> unat p < unat b + n" for p
    using True assms(2) by (intro in_page_region) simp
  have "clear_region (pmm_bitmap s) (unat b) n \<longleftrightarrow> set (page_region b n) \<subseteq> F"
  proof
    assume "clear_region (pmm_bitmap s) (unat b) n"
    then show "set (page_region b n) \<subseteq> F"
      using R True assms pmm_free_set_low [OF assms(1)] by (auto simp: clear_region_def)
  next
    assume sub: "set (page_region b n) \<subseteq> F"
    show "clear_region (pmm_bitmap s) (unat b) n"
      unfolding clear_region_def
    proof (intro allI impI)
      fix u assume u: "unat b \<le> u \<and> u < unat b + n"
      then have "unat (of_nat u :: u64) = u"
        using True assms(2) by (simp add: unat_of_nat take_bit_nat_eq_self)
      with u sub R [of "of_nat u"] True assms pmm_free_set_low [OF assms(1), of "of_nat u"]
      show "\<not> bit_at (pmm_bitmap s) u" by auto
    qed
  qed
  then show ?thesis by (simp add: free_slot_def dma_slot_def)
qed (simp add: free_slot_def dma_slot_def)

text \<open>What the caller gets once the search of the bitmap has found a run.\<close>

lemma pmm_alloc_bitmap_found:
  assumes inv: "pmm_inv s F" and hi: "hi \<le> 16384" and count: "0 < count"
    and res: "bitmap_find_clear_region_and_set (pmm_bitmap s) 0 (MIN_u64 maxPfn PMM_BITMAP_MAX_PFN) count (MAX_u64 alignPfn 1) =
      Some (r, bitmap_set_range (pmm_bitmap s) r (r + count))"
    and slot: "free_slot (pmm_bitmap s) (unat count) al hi (unat r)"
  shows "\<exists>s'. pmm_alloc_bitmap count maxPfn alignPfn s = Some (r, s') \<and> r \<noteq> ERR \<and> dma_slot F (unat count) al hi r \<and>
    pmm_inv s' (F - set (page_region r (unat count))) \<and>
    (\<forall>q. page_ref s' q = (if q \<in> set (page_region r (unat count)) then Some 1 else page_ref s q))"
proof -
  let ?bm = "bitmap_set_range (pmm_bitmap s) r (r + count)" and ?R = "page_region r (unat count)"
  have fs: "pmm_free_set s F" using inv by (simp add: pmm_inv_def)
  have wf: "bm_length (pmm_bitmap s) = PMM_BITMAP_MAX_PFN" using fs by (simp add: pmm_free_set_def)
  have b: "unat r + unat count \<le> 16384" "clear_region (pmm_bitmap s) (unat r) (unat count)"
    using slot hi by (auto simp: free_slot_def)
  note reg = bitmap_set_region_free [OF fs count b]
  have "distinct ?R" using b(1) by (intro distinct_page_region) simp
  then obtain s' where s': "for_each claim_ref ?R (s\<lparr>pmm_bitmap := ?bm\<rparr>) = Some s'"
    "pmm_inv (s'\<lparr>pmm_avail := pmm_avail s' - count\<rparr>) (F - set ?R)"
    "\<forall>q. page_ref s' q = (if q \<in> set ?R then Some 1 else page_ref s q)"
    using claim_pages [OF inv reg(1) _ _ reg(2), of count] by (auto simp: same_refs_def)
  have r: "r \<noteq> PMM_BITMAP_MAX_PFN" "r \<noteq> ERR"
    using b(1) count by (auto simp: u64_nat ERR_def unsigned_minus_1_eq_mask mask_eq_exp_minus_1)
  have "pmm_alloc_bitmap count maxPfn alignPfn s = Some (r, s'\<lparr>pmm_avail := pmm_avail s' - count\<rparr>)"
    using res r s'(1) wf by (simp add: pmm_alloc_bitmap_def pmm_bitmap_set_def for_each_region [where f = claim_ref])
  then show ?thesis using s'(2,3) r slot free_slot_iff_dma_slot [OF fs hi] by auto
qed

definition bitmap_outcome :: "u64 \<Rightarrow> nat \<Rightarrow> nat \<Rightarrow> u64 set \<Rightarrow> pmm \<Rightarrow> (u64 \<times> pmm) option \<Rightarrow> bool" where
  "bitmap_outcome count al lim F s res \<longleftrightarrow>
     (let n = unat count; hi = (if n \<le> lim then lim else 16384)
      in case res of
           None \<Rightarrow> lim < n \<and> (\<forall>b. \<not> dma_slot F n al hi b)
         | Some (p, s') \<Rightarrow>
             if p = ERR then s' = s \<and> n \<le> lim \<and> (\<forall>b. \<not> dma_slot F n al hi b)
             else dma_slot F n al hi p \<and> (\<forall>b < p. \<not> dma_slot F n al hi b) \<and> pmm_inv s' (F - set (page_region p n)) \<and>
               (\<forall>q. page_ref s' q = (if q \<in> set (page_region p n) then Some 1 else page_ref s q)))"

lemma pmm_alloc_bitmap_cases:
  assumes inv: "pmm_inv s F"
    and lim: "lim = min (unat maxPfn) 16384" and al: "al = max (unat alignPfn) 1"
    and pos: "0 < count" "0 < maxPfn" and small: "unat count < 2 ^ 63" "al < 2 ^ 62"
  shows "bitmap_outcome count al lim F s (pmm_alloc_bitmap count maxPfn alignPfn s)"
proof -
  let ?bm = "pmm_bitmap s" and ?a = "MAX_u64 alignPfn 1" and ?m = "MIN_u64 maxPfn PMM_BITMAP_MAX_PFN"
  let ?call = "bitmap_find_clear_region_and_set ?bm 0 ?m count ?a"
  have fs: "pmm_free_set s F" using inv by (simp add: pmm_inv_def)
  then have wf: "bitmap_wf ?bm" "bm_length ?bm = PMM_BITMAP_MAX_PFN" by (simp_all add: pmm_free_set_def)
  have a: "unat ?a = al" and m: "unat ?m = lim" by (auto simp: al lim MAX_u64_def MIN_u64_def u64_nat)
  have lim': "0 < lim" "lim \<le> 16384" using pos(2) by (auto simp: lim u64_nat)
  have sizes: "0 < ?m" "?m \<le> bm_length ?bm" "0 < ?a" "bm_size ?bm + 64 + unat ?a + unat count < 2 ^ 64"
    using lim' wf(2) small by (auto simp only: word_less_nat_alt word_le_nat_alt a m) (auto simp: al)
  note slot = free_slot_iff_dma_slot [OF fs, where a = al and n = "unat count"]
  show ?thesis
  proof (cases "unat count \<le> lim")
    case True
    have le: "count \<le> ?m" using True m by (simp add: u64_nat)
    have "bm_size ?bm + unat ?a < 2 ^ 64" using sizes(4) by simp
    from find_clear_region_first_fit [OF wf(1) pos(1) le sizes(1,2,3) this] obtain r bm' where
      res: "?call = Some (r, bm')" and fit: "first_fit ?bm 0 ?m count ?a (r, bm')" by auto
    from fit consider
        (1) "free_slot ?bm (unat count) al lim (unat r)" "bm' = bitmap_set_range ?bm r (r + count)"
          "\<forall>b < unat r. \<not> free_slot ?bm (unat count) al lim b"
      | (2) "r = bm_length ?bm" "bm' = ?bm" "\<forall>b. \<not> free_slot ?bm (unat count) al lim b"
      unfolding first_fit_def Let_def prod.case a m by auto
    then show ?thesis
    proof cases
      case 1
      have "\<forall>b < r. \<not> dma_slot F (unat count) al lim b" using 1(3) slot [OF lim'(2)] by (auto simp: u64_nat)
      then show ?thesis
        using pmm_alloc_bitmap_found [OF inv lim'(2) pos(1) res [unfolded 1(2)] 1(1)] True
        by (auto simp: bitmap_outcome_def Let_def)
    next
      case 2
      then have "pmm_alloc_bitmap count maxPfn alignPfn s = Some (ERR, s)"
        using res wf(2) by (simp add: pmm_alloc_bitmap_def pmm_bitmap_set_def)
      moreover have "\<not> dma_slot F (unat count) al lim b" for b using 2(3) slot [OF lim'(2), of b] by simp
      ultimately show ?thesis using True by (simp add: bitmap_outcome_def)
    qed
  next
    case False
    have over: "overlong ?bm ?m count ?a" using wf(1) sizes False m by (simp add: overlong_def u64_nat)
    have size: "bm_size ?bm = 16384" using wf(2) by simp
    from find_clear_region_overlong [OF over sizes(1)] consider
        (1) r where "?call = Some (r, bitmap_set_range ?bm r (r + count))" "free_slot ?bm (unat count) al 16384 (unat r)"
          "\<forall>b < unat r. \<not> free_slot ?bm (unat count) al 16384 b"
      | (2) "?call = None" "\<forall>b. \<not> free_slot ?bm (unat count) al 16384 b"
      unfolding a size by auto
    then show ?thesis
    proof cases
      case 1
      have "\<forall>b < r. \<not> dma_slot F (unat count) al 16384 b" using 1(3) slot by (auto simp: u64_nat)
      then show ?thesis
        using pmm_alloc_bitmap_found [OF inv _ pos(1) 1(1,2)] False by (auto simp: bitmap_outcome_def Let_def)
    next
      case 2
      then have "pmm_alloc_bitmap count maxPfn alignPfn s = None"
        by (simp add: pmm_alloc_bitmap_def pmm_bitmap_set_def)
      moreover have "\<not> dma_slot F (unat count) al 16384 b" for b using 2(2) slot [of 16384 b] by simp
      ultimately show ?thesis using False by (simp add: bitmap_outcome_def)
    qed
  qed
qed

section \<open>Sharing pages\<close>

text \<open>\<open>bumped lo hi s0 s\<close>: \<open>s\<close> is \<open>s0\<close> with the counts of the pages \<open>lo .. hi - 1\<close>
  raised by one.\<close>

definition bumped :: "nat \<Rightarrow> nat \<Rightarrow> pmm \<Rightarrow> pmm \<Rightarrow> bool" where
  "bumped lo hi s0 s \<longleftrightarrow>
     (\<exists>rs. s = s0\<lparr>pmm_pages := rs\<rparr> \<and> length rs = length (pmm_pages s0) \<and>
           (\<forall>k < length rs. rs ! k = pmm_pages s0 ! k + (if lo \<le> k \<and> k < hi then 1 else 0)))"

lemma bumped_refl: "bumped lo lo s s"
  by (auto simp: bumped_def intro: exI [of _ "pmm_pages s"])

lemma bumped_empty:
  assumes "bumped lo lo s0 s"
  shows "s = s0"
proof -
  from assms obtain rs where rs: "s = s0\<lparr>pmm_pages := rs\<rparr>" "length rs = length (pmm_pages s0)"
    "\<forall>k < length rs. rs ! k = pmm_pages s0 ! k + (if lo \<le> k \<and> k < lo then 1 else 0)"
    unfolding bumped_def by blast
  then have "rs = pmm_pages s0" by (intro nth_equalityI) auto
  with rs(1) show ?thesis by simp
qed

lemma page_ref_bumped:
  "bumped lo hi s0 s \<Longrightarrow> page_ref s p =
     map_option (\<lambda>r. r + (if lo \<le> unat p \<and> unat p < hi then 1 else 0)) (page_ref s0 p)"
  by (auto simp: bumped_def page_ref_def)

lemma bumped_set:
  assumes "bumped lo hi s0 s" and "page_ref s p = Some r"
    and "\<And>k. k \<noteq> unat p \<Longrightarrow> lo' \<le> k \<and> k < hi' \<longleftrightarrow> lo \<le> k \<and> k < hi"
    and "q = pmm_pages s0 ! unat p + (if lo' \<le> unat p \<and> unat p < hi' then 1 else 0)"
  shows "bumped lo' hi' s0 (set_page_ref p q s)"
proof -
  from assms(1) obtain rs where rs: "s = s0\<lparr>pmm_pages := rs\<rparr>" "length rs = length (pmm_pages s0)"
    "\<forall>k < length rs. rs ! k = pmm_pages s0 ! k + (if lo \<le> k \<and> k < hi then 1 else 0)"
    unfolding bumped_def by blast
  let ?rs = "rs[unat p := q]"
  have "?rs ! k = pmm_pages s0 ! k + (if lo' \<le> k \<and> k < hi' then 1 else 0)" if "k < length ?rs" for k
    using that rs(3) assms(3) [of k] assms(4) by (cases "k = unat p") simp_all
  then show ?thesis unfolding bumped_def
    using rs(1,2) by (intro exI [of _ ?rs]) (simp add: set_page_ref_def)
qed

lemma page_ref_bumped_nth:
  "bumped lo hi s0 s \<Longrightarrow> page_ref s p = Some r \<Longrightarrow>
     r = pmm_pages s0 ! unat p + (if lo \<le> unat p \<and> unat p < hi then 1 else 0)"
  by (auto simp: bumped_def page_ref_def split: if_splits)

lemma bumped_more:
  assumes "bumped lo (unat p) s0 s" and "page_ref s p = Some r" and "lo \<le> unat p"
  shows "bumped lo (Suc (unat p)) s0 (set_page_ref p (r + 1) s)"
  by (rule bumped_set [OF assms(1,2)]) (use page_ref_bumped_nth [OF assms(1,2)] assms(3) in auto)

lemma bumped_less:
  assumes "bumped (unat p) hi s0 s" and "page_ref s p = Some r" and "unat p < hi"
  shows "bumped (Suc (unat p)) hi s0 (set_page_ref p (r - 1) s)"
  by (rule bumped_set [OF assms(1,2)]) (use page_ref_bumped_nth [OF assms(1,2)] assms(3) in auto)

lemma ref_inc_undo:
  assumes "bumped (unat pfn) (unat pfn + i) s0 s" and "unat pfn + i < 2 ^ 64"
    and "unat pfn + i \<le> length (pmm_pages s0)"
  shows "for_each (\<lambda>j s. do {
           q \<leftarrow> page_ref s (pfn + of_nat j);
           Some (set_page_ref (pfn + of_nat j) (q - 1) s) }) [0..<i] s = Some s0"
proof -
  let ?f = "\<lambda>j s. do {
           q \<leftarrow> page_ref s (pfn + of_nat j);
           Some (set_page_ref (pfn + of_nat j) (q - 1) s) }"
  have "\<exists>s'. for_each ?f [0..<i] s = Some s' \<and> bumped (unat pfn + length [0..<i]) (unat pfn + i) s0 s'"
  proof (rule for_each_invariant [where P = "\<lambda>j. bumped (unat pfn + j) (unat pfn + i) s0"])
    fix j s assume j: "j < length [0..<i]" and b: "bumped (unat pfn + j) (unat pfn + i) s0 s"
    let ?p = "pfn + of_nat j"
    have p: "unat ?p = unat pfn + j" using unat_region_nth [OF assms(2), of j] j by simp
    then have "page_ref s0 ?p \<noteq> None" using j assms(3) by (simp add: page_ref_def)
    then obtain r where r: "page_ref s ?p = Some r" using page_ref_bumped [OF b, of ?p] by auto
    then have "bumped (Suc (unat ?p)) (unat pfn + i) s0 (set_page_ref ?p (r - 1) s)"
      using b j by (intro bumped_less) (simp_all add: p)
    then show "\<exists>s'. ?f ([0..<i] ! j) s = Some s' \<and> bumped (unat pfn + Suc j) (unat pfn + i) s0 s'"
      using j r by (simp add: p)
  qed (use assms(1) in simp)
  then show ?thesis using bumped_empty by auto
qed

lemma ref_inc_loop_cases:
  assumes "bumped (unat pfn) (unat pfn + i) s0 s" and "unat pfn + (i + n) < 2 ^ 64"
    and "unat pfn + (i + n) \<le> length (pmm_pages s0)"
  defines "bad \<equiv> \<lambda>k. pmm_pages s0 ! (unat pfn + k) \<in> {0, 0xFFFF}"
  shows "if \<exists>k. i \<le> k \<and> k < i + n \<and> bad k
         then pmm_ref_inc_loop pfn i n s = Some (False, s0)
         else \<exists>s'. pmm_ref_inc_loop pfn i n s = Some (True, s') \<and>
                bumped (unat pfn) (unat pfn + (i + n)) s0 s'"
  using assms(1-3)
proof (induction n arbitrary: i s)
  case 0
  then show ?case by auto
next
  case (Suc n)
  let ?p = "pfn + of_nat i"
  have p: "unat ?p = unat pfn + i" using Suc.prems(2) by (intro unat_region_nth) auto
  have ref: "page_ref s ?p = Some (pmm_pages s0 ! (unat pfn + i))"
    using page_ref_bumped [OF Suc.prems(1), of ?p] Suc.prems(3) by (simp add: page_ref_def p)
  show ?case
  proof (cases "bad i")
    case True
    then have "pmm_ref_inc_loop pfn i (Suc n) s = Some (False, s0)"
      using ref ref_inc_undo [OF Suc.prems(1)] Suc.prems(2,3) by (auto simp: bad_def)
    moreover have "\<exists>k. i \<le> k \<and> k < i + Suc n \<and> bad k" using True by (intro exI [of _ i]) simp
    ultimately show ?thesis by (simp only: if_True)
  next
    case False
    let ?s = "set_page_ref ?p (pmm_pages s0 ! (unat pfn + i) + 1) s"
    have eq: "pmm_ref_inc_loop pfn i (Suc n) s = pmm_ref_inc_loop pfn (Suc i) n ?s"
      using False ref by (simp add: bad_def)
    have b: "bumped (unat pfn) (unat pfn + Suc i) s0 ?s"
      using bumped_more [of "unat pfn" ?p s0 s] Suc.prems(1) ref by (simp add: p)
    have ex: "(\<exists>k. i \<le> k \<and> k < i + Suc n \<and> bad k) \<longleftrightarrow> (\<exists>k. Suc i \<le> k \<and> k < Suc i + n \<and> bad k)"
      using False by (metis Suc_le_eq add_Suc_right add_Suc le_neq_implies_less less_imp_le_nat)
    have "if \<exists>k. Suc i \<le> k \<and> k < Suc i + n \<and> bad k
      then pmm_ref_inc_loop pfn (Suc i) n ?s = Some (False, s0)
      else \<exists>s'. pmm_ref_inc_loop pfn (Suc i) n ?s = Some (True, s') \<and>
                bumped (unat pfn) (unat pfn + (Suc i + n)) s0 s'"
      using Suc.prems(2,3) b by (intro Suc.IH) simp_all
    then show ?thesis unfolding ex eq by (simp only: add_Suc_shift)
  qed
qed

lemma pmm_inv_bumped:
  assumes inv: "pmm_inv s F" and b: "bumped lo hi s s'"
    and used: "\<forall>k. lo \<le> k \<and> k < hi \<longrightarrow> pmm_pages s ! k \<noteq> 0"
  shows "pmm_inv s' F"
proof -
  from b have len: "length (pmm_pages s') = length (pmm_pages s)"
    and fs: "pmm_free_set s' F = pmm_free_set s F" and av: "pmm_avail s' = pmm_avail s"
    by (auto simp: bumped_def pmm_free_set_def)
  have "page_ref s' p = Some 0" if p: "p \<in> F" for p
  proof -
    have "page_ref s p = Some 0" using inv p by (simp add: pmm_inv_def)
    moreover from this have "\<not> (lo \<le> unat p \<and> unat p < hi)"
      using used by (auto simp: page_ref_def split: if_splits)
    ultimately show ?thesis using page_ref_bumped [OF b, of p] by auto
  qed
  then show ?thesis using inv len fs av by (simp add: pmm_inv_def)
qed

end
