(* ===== verification/Pmm_Init.thy ===== *)
theory Pmm_Init
  imports Pmm_Ops
begin

text \<open>
  The initialisation of \<^verbatim>\<open>src/kernel/mem/pmm.c\<close>: what loading a boot memory map does to the
  set of free pages, and the pages the statically initialised bitmap offers although no
  descriptor made them available.
\<close>

section \<open>Loading a descriptor\<close>

text \<open>The range a descriptor contributes, behind the array of reference counts if that was
  placed at its start.\<close>

definition loaded_range :: "u64 \<Rightarrow> u64 \<Rightarrow> memory_descriptor \<Rightarrow> u64 \<times> u64" where
  "loaded_range highest pagesPfn desc =
     (let toSkip = BYTES_TO_PAGES (highest * sizeof_page_t)
      in if md_VirtualStart desc = pagesPfn
         then (md_VirtualStart desc + toSkip, md_NumberOfPages desc - toSkip)
         else (md_VirtualStart desc, md_NumberOfPages desc))"

definition loaded_pages :: "u64 \<Rightarrow> u64 \<Rightarrow> memory_descriptor \<Rightarrow> u64 list" where
  "loaded_pages highest pagesPfn desc =
     (case loaded_range highest pagesPfn desc of (pfn, n) \<Rightarrow> page_region pfn (unat n))"

definition in_refs :: "pmm \<Rightarrow> u64 \<times> u64 \<Rightarrow> bool" where
  "in_refs s = (\<lambda>(pfn, n). unat pfn + unat n < 2 ^ 64 \<and> unat pfn + unat n \<le> length (pmm_pages s))"

definition poison_pages :: "u64 \<Rightarrow> u64 \<Rightarrow> pmm \<Rightarrow> pmm" where
  "poison_pages pfn n s =
     s\<lparr>pmm_mem := (\<lambda>p. if unat pfn \<le> unat p \<and> unat p < unat pfn + unat n
                       then poison_page else pmm_mem s p)\<rparr>"

lemma pmm_load_descriptor_eq:
  "pmm_load_descriptor pagesPfn desc s =
     (case loaded_range (pmm_highest s) pagesPfn desc of (pfn, n) \<Rightarrow>
        if pmm_is_mem_avail (md_Type desc)
        then for_each (write_ref 1) (page_region pfn (unat n)) (poison_pages pfn n s) \<bind>
             for_each pmm_free_unlocked (page_region pfn (unat n))
        else for_each (write_ref 0xFFFF) (page_region pfn (unat n)) s)"
  by (simp add: pmm_load_descriptor_def loaded_range_def Let_def poison_pages_def
      pmm_free_region_unlocked_def for_each_region [of pmm_free_unlocked]
      for_each_region [of "write_ref _"])

lemma write_refs:
  assumes "\<forall>p \<in> set ps. page_ref s p \<noteq> None"
  shows "\<exists>s'. for_each (write_ref v) ps s = Some s' \<and>
              (\<forall>q. page_ref s' q = (if q \<in> set ps then Some v else page_ref s q)) \<and>
              length (pmm_pages s') = length (pmm_pages s) \<and> pmm_avail s' = pmm_avail s \<and>
              pmm_highest s' = pmm_highest s \<and> (\<forall>F. pmm_free_set s' F = pmm_free_set s F)"
  using assms
proof (induction ps arbitrary: s)
  case (Cons p ps)
  let ?s = "set_page_ref p v s"
  have "\<forall>q \<in> set ps. page_ref ?s q \<noteq> None" using Cons.prems by auto
  from Cons.IH [OF this] obtain s' where
    s': "for_each (write_ref v) ps ?s = Some s'"
      "\<forall>q. page_ref s' q = (if q \<in> set ps then Some v else page_ref ?s q)"
      "length (pmm_pages s') = length (pmm_pages ?s)" "pmm_avail s' = pmm_avail ?s"
      "pmm_highest s' = pmm_highest ?s" "\<forall>F. pmm_free_set s' F = pmm_free_set ?s F" by blast
  have "write_ref v p s = Some ?s" using Cons.prems by (auto simp: write_ref_def)
  moreover have "pmm_highest ?s = pmm_highest s" by (simp add: set_page_ref_def)
  ultimately show ?case using s' Cons.prems by (intro exI [of _ s']) auto
qed simp

lemma frees_tracks:
  assumes "pmm_tracks s F G" and "distinct ps" and "\<forall>p \<in> set ps. page_ref s p = Some 1"
  shows "\<exists>s'. for_each pmm_free_unlocked ps s = Some s' \<and> pmm_tracks s' (F \<union> set ps) G \<and>
              (\<forall>q. page_ref s' q = (if q \<in> set ps then Some 0 else page_ref s q)) \<and>
              pmm_highest s' = pmm_highest s \<and> length (pmm_pages s') = length (pmm_pages s)"
  using assms
proof (induction ps arbitrary: s F)
  case (Cons p ps)
  obtain s1 where s1: "pmm_free_unlocked p s = Some s1" "pmm_tracks s1 (insert p F) G"
      "\<forall>q. page_ref s1 q = (if q = p then Some 0 else page_ref s q)"
      "pmm_highest s1 = pmm_highest s" "length (pmm_pages s1) = length (pmm_pages s)"
    using pmm_free_tracks [OF Cons.prems(1), of p] Cons.prems(3) by auto
  have "\<forall>q \<in> set ps. page_ref s1 q = Some 1" using s1(3) Cons.prems by auto
  from Cons.IH [OF s1(2) _ this] Cons.prems(2) obtain s' where
    s': "for_each pmm_free_unlocked ps s1 = Some s'" "pmm_tracks s' (insert p F \<union> set ps) G"
      "\<forall>q. page_ref s' q = (if q \<in> set ps then Some 0 else page_ref s1 q)"
      "pmm_highest s' = pmm_highest s1" "length (pmm_pages s') = length (pmm_pages s1)" by auto
  then show ?case using s1 by (intro exI [of _ s']) auto
qed simp

lemma pmm_tracks_poison:
  assumes inv: "pmm_tracks s F G" and b: "unat pfn + unat n < 2 ^ 64"
    and new: "set (page_region pfn (unat n)) \<inter> F = {}"
  shows "pmm_tracks (poison_pages pfn n s) F G"
proof -
  let ?m = "pmm_mem (poison_pages pfn n s)" and ?s = "poison_pages pfn n s"
  from inv obtain pgs where wf: "bitmap_wf (pmm_bitmap s)" "bm_length (pmm_bitmap s) = PMM_BITMAP_MAX_PFN"
    and st: "stack_inv s pgs" "\<forall>p \<in> stack_set s pgs. PMM_BITMAP_MAX_PFN \<le> p"
    and FG: "F \<union> G = stack_set s pgs \<union> bitmap_free (pmm_bitmap s)"
    unfolding pmm_tracks_def pmm_free_set_def by blast
  have sub: "stack_set s pgs \<subseteq> F"
    using FG st(2) inv by (force simp: pmm_tracks_def)
  have same: "?m x = pmm_mem s x" if "x \<in> set pgs" for x
  proof -
    have "x \<in> F" using that sub set_pages_in_stack_pfns by blast
    then have "x \<notin> set (page_region pfn (unat n))" using new by blast
    then show ?thesis using in_page_region [OF b] by (auto simp: poison_pages_def)
  qed
  have pf: "stack_pfns ?m l pgs = stack_pfns (pmm_mem s) l pgs" for l
    by (intro stack_pfns_frame) (simp add: same)
  have "chain ?m p pgs = chain (pmm_mem s) p pgs" for p by (intro chain_frame) (simp add: same)
  then have "stack_inv ?s pgs"
    using st(1) pf by (simp add: stack_inv_def) (simp add: poison_pages_def poison_page_def)
  then have "pmm_free_set ?s (F \<union> G)"
    unfolding pmm_free_set_def using wf st(2) FG pf
    by (intro conjI exI [of _ pgs]) (simp_all add: poison_pages_def)
  moreover have "page_ref ?s q = page_ref s q" "pmm_avail ?s = pmm_avail s"
      "length (pmm_pages ?s) = length (pmm_pages s)" for q
    by (simp_all add: poison_pages_def page_ref_def)
  ultimately show ?thesis using inv by (simp add: pmm_tracks_def)
qed

text \<open>One descriptor adds its pages to the free set, or marks them used.\<close>

lemma pmm_load_descriptor_correct:
  assumes inv: "pmm_tracks s F G" and rng: "in_refs s (loaded_range (pmm_highest s) pagesPfn desc)"
    and new: "set (loaded_pages (pmm_highest s) pagesPfn desc) \<inter> F = {}"
  defines "R \<equiv> set (loaded_pages (pmm_highest s) pagesPfn desc)"
  shows "\<exists>s'. pmm_load_descriptor pagesPfn desc s = Some s' \<and>
           pmm_tracks s' (if pmm_is_mem_avail (md_Type desc) then F \<union> R else F) G \<and>
           (\<forall>q. page_ref s' q = (if q \<in> R
                then Some (if pmm_is_mem_avail (md_Type desc) then 0 else 0xFFFF) else page_ref s q)) \<and>
           pmm_highest s' = pmm_highest s \<and> length (pmm_pages s') = length (pmm_pages s)"
proof -
  obtain pfn n where pn: "loaded_range (pmm_highest s) pagesPfn desc = (pfn, n)" by fastforce
  let ?ps = "page_region pfn (unat n)"
  have R: "R = set ?ps" by (simp add: R_def loaded_pages_def pn)
  have b: "unat pfn + unat n < 2 ^ 64" "unat pfn + unat n \<le> length (pmm_pages s)"
    using rng by (simp_all add: in_refs_def pn)
  have new': "set ?ps \<inter> F = {}" using new by (simp add: loaded_pages_def pn)
  have refs: "\<forall>p \<in> set ?ps. page_ref s p \<noteq> None"
    using in_page_region [OF b(1)] b(2) by (auto simp: page_ref_def)
  show ?thesis
  proof (cases "pmm_is_mem_avail (md_Type desc)")
    case True
    let ?s = "poison_pages pfn n s"
    have eq: "page_ref ?s q = page_ref s q" "pmm_highest ?s = pmm_highest s"
        "length (pmm_pages ?s) = length (pmm_pages s)" for q
      by (simp_all add: poison_pages_def page_ref_def)
    note tr = pmm_tracks_poison [OF inv b(1) new']
    obtain s1 where s1: "for_each (write_ref 1) ?ps ?s = Some s1"
        "\<forall>q. page_ref s1 q = (if q \<in> set ?ps then Some 1 else page_ref ?s q)"
        "length (pmm_pages s1) = length (pmm_pages ?s)" "pmm_avail s1 = pmm_avail ?s"
        "pmm_highest s1 = pmm_highest ?s" "\<forall>F. pmm_free_set s1 F = pmm_free_set ?s F"
      using write_refs [of ?ps ?s 1] refs eq by auto
    have "pmm_tracks s1 F G" using tr s1 new' by (auto simp: pmm_tracks_def)
    from frees_tracks [OF this distinct_page_region [OF b(1)]] s1(2) obtain s' where
      "for_each pmm_free_unlocked ?ps s1 = Some s'" "pmm_tracks s' (F \<union> set ?ps) G"
      "\<forall>q. page_ref s' q = (if q \<in> set ?ps then Some 0 else page_ref s1 q)"
      "pmm_highest s' = pmm_highest s1" "length (pmm_pages s') = length (pmm_pages s1)" by auto
    with True s1 eq show ?thesis
      by (intro exI [of _ s']) (auto simp: pmm_load_descriptor_eq pn R)
  next
    case False
    obtain s' where s': "for_each (write_ref 0xFFFF) ?ps s = Some s'"
        "\<forall>q. page_ref s' q = (if q \<in> set ?ps then Some 0xFFFF else page_ref s q)"
        "length (pmm_pages s') = length (pmm_pages s)" "pmm_avail s' = pmm_avail s"
        "pmm_highest s' = pmm_highest s" "\<forall>F. pmm_free_set s' F = pmm_free_set s F"
      using write_refs [OF refs, of "0xFFFF"] by blast
    then have "pmm_tracks s' F G" using inv new' by (auto simp: pmm_tracks_def)
    with False s' show ?thesis
      by (intro exI [of _ s']) (auto simp: pmm_load_descriptor_eq pn R)
  qed
qed

text \<open>The pages a memory map makes available.\<close>

definition map_pages :: "u64 \<Rightarrow> u64 \<Rightarrow> (memory_descriptor \<Rightarrow> bool) \<Rightarrow> memory_descriptor list \<Rightarrow> u64 set" where
  "map_pages highest pagesPfn P mm =
     (\<Union>d \<in> set (List.filter P mm). set (loaded_pages highest pagesPfn d))"

definition map_ok :: "pmm \<Rightarrow> u64 \<Rightarrow> memory_descriptor list \<Rightarrow> bool" where
  "map_ok s pagesPfn mm \<longleftrightarrow>
     (\<forall>d \<in> set mm. in_refs s (loaded_range (pmm_highest s) pagesPfn d)) \<and>
     distinct (concat (List.map (loaded_pages (pmm_highest s) pagesPfn) mm))"

lemma pmm_load_memory_correct:
  assumes "pmm_tracks s F G" and "map_ok s pagesPfn mm"
    and "set (concat (List.map (loaded_pages (pmm_highest s) pagesPfn) mm)) \<inter> F = {}"
  defines "A \<equiv> map_pages (pmm_highest s) pagesPfn (\<lambda>d. pmm_is_mem_avail (md_Type d)) mm"
    and "N \<equiv> map_pages (pmm_highest s) pagesPfn (\<lambda>d. \<not> pmm_is_mem_avail (md_Type d)) mm"
  shows "\<exists>s'. pmm_load_memory pagesPfn mm s = Some s' \<and> pmm_tracks s' (F \<union> A) G \<and>
              (\<forall>q. page_ref s' q = (if q \<in> A then Some 0 else if q \<in> N then Some 0xFFFF
                                      else page_ref s q)) \<and>
              length (pmm_pages s') = length (pmm_pages s)"
  using assms(1-3) unfolding A_def N_def
proof (induction mm arbitrary: s F)
  case Nil
  then show ?case by (auto simp: pmm_load_memory_def map_pages_def)
next
  case (Cons d mm)
  let ?h = "pmm_highest s" and ?av = "\<lambda>d. pmm_is_mem_avail (md_Type d)"
  let ?R = "set (loaded_pages ?h pagesPfn d)"
  let ?F = "if ?av d then F \<union> ?R else F"
  obtain s1 where s1: "pmm_load_descriptor pagesPfn d s = Some s1" "pmm_tracks s1 ?F G"
      "\<forall>q. page_ref s1 q = (if q \<in> ?R then Some (if ?av d then 0 else 0xFFFF) else page_ref s q)"
      "pmm_highest s1 = ?h" "length (pmm_pages s1) = length (pmm_pages s)"
    using pmm_load_descriptor_correct [OF Cons.prems(1), of pagesPfn d] Cons.prems(2,3)
    by (auto simp: map_ok_def Int_Un_distrib2)
  have dis: "?R \<inter> set (concat (List.map (loaded_pages ?h pagesPfn) mm)) = {}"
    using Cons.prems(2) by (auto simp: map_ok_def)
  have "map_ok s1 pagesPfn mm" using Cons.prems(2) s1(4,5) by (simp add: map_ok_def in_refs_def)
  moreover have "set (concat (List.map (loaded_pages (pmm_highest s1) pagesPfn) mm)) \<inter> ?F = {}"
    using dis Cons.prems(3) s1(4) by auto
  ultimately obtain s' where s': "pmm_load_memory pagesPfn mm s1 = Some s'"
      "pmm_tracks s' (?F \<union> map_pages ?h pagesPfn ?av mm) G"
      "\<forall>q. page_ref s' q = (if q \<in> map_pages ?h pagesPfn ?av mm then Some 0
           else if q \<in> map_pages ?h pagesPfn (\<lambda>d. \<not> ?av d) mm then Some 0xFFFF else page_ref s1 q)"
      "length (pmm_pages s') = length (pmm_pages s1)"
    using Cons.IH [OF s1(2)] s1(4) by auto
  have sub: "map_pages ?h pagesPfn P mm \<subseteq> set (concat (List.map (loaded_pages ?h pagesPfn) mm))" for P
    by (auto simp: map_pages_def)
  have "?F \<union> map_pages ?h pagesPfn ?av mm = F \<union> map_pages ?h pagesPfn ?av (d # mm)"
    by (auto simp: map_pages_def)
  moreover have "\<forall>q. page_ref s' q = (if q \<in> map_pages ?h pagesPfn ?av (d # mm) then Some 0
      else if q \<in> map_pages ?h pagesPfn (\<lambda>d. \<not> ?av d) (d # mm) then Some 0xFFFF else page_ref s q)"
    using s'(3) s1(3) dis sub by (auto simp: map_pages_def split: if_splits)
  ultimately show ?case
    using s' s1 by (intro exI [of _ s']) (simp add: pmm_load_memory_def)
qed

section \<open>Initialisation from a boot memory map\<close>

text \<open>What the boot loader promises: no descriptor is empty or wraps around the address
  space, and no page is described twice.\<close>

definition desc_pages :: "memory_descriptor \<Rightarrow> u64 list" where
  "desc_pages d = page_region (md_VirtualStart d) (unat (md_NumberOfPages d))"

definition boot_map_ok :: "memory_descriptor list \<Rightarrow> bool" where
  "boot_map_ok mm \<longleftrightarrow>
     (\<forall>d \<in> set mm. 0 < md_NumberOfPages d \<and>
                  unat (md_VirtualStart d) + unat (md_NumberOfPages d) < 2 ^ 64) \<and>
     distinct (concat (List.map desc_pages mm))"

lemma page_region_drop:
  assumes "unat k \<le> unat n"
  shows "page_region (pfn + k) (unat (n - k)) = drop (unat k) (page_region pfn (unat n))"
proof (rule nth_equalityI)
  have "unat (n - k) = unat n - unat k" using assms by (intro unat_sub_u64) simp
  then show "length (page_region (pfn + k) (unat (n - k))) = length (drop (unat k) (page_region pfn (unat n)))"
    by simp
  fix i assume "i < length (page_region (pfn + k) (unat (n - k)))"
  then have "unat k + i < unat n" "i < unat (n - k)"
    using \<open>unat (n - k) = unat n - unat k\<close> by simp_all
  then show "page_region (pfn + k) (unat (n - k)) ! i = drop (unat k) (page_region pfn (unat n)) ! i"
    by (simp add: page_region_def add.assoc)
qed

lemma distinct_concat_drop:
  assumes "distinct (concat (List.map f xs))" and "\<forall>x \<in> set xs. \<exists>k. g x = drop k (f x)"
  shows "distinct (concat (List.map g xs))"
  using assms
proof (induction xs)
  case (Cons x xs)
  have sub: "set (g y) \<subseteq> set (f y)" if "y \<in> set (x # xs)" for y
    using that Cons.prems(2) by (metis set_drop_subset)
  have "distinct (g x)" using Cons.prems by (auto intro: distinct_drop)
  moreover have "set (g x) \<inter> set (concat (List.map g xs)) = {}"
    using Cons.prems(1) sub by (simp add: disjoint_iff) blast
  ultimately show ?case using Cons by simp
qed simp

lemma boot_map_same_start:
  assumes "boot_map_ok mm" and "d \<in> set mm" and "e \<in> set mm"
    and "md_VirtualStart d = md_VirtualStart e"
  shows "d = e"
proof (rule ccontr)
  assume ne: "d \<noteq> e"
  have start: "md_VirtualStart x \<in> set (desc_pages x)" if "x \<in> set mm" for x
    using that assms(1) in_page_region [of "md_VirtualStart x" "unat (md_NumberOfPages x)"]
    by (auto simp: boot_map_ok_def desc_pages_def u64_nat)
  then have "desc_pages d \<noteq> []" "set (desc_pages d) \<inter> set (desc_pages e) \<noteq> {}"
    using assms(2-4) by force+
  moreover have "distinct (concat (List.map desc_pages mm))" using assms(1) by (simp add: boot_map_ok_def)
  ultimately show False
    using assms(2,3) ne
  proof (induction mm)
    case (Cons x mm)
    then show ?case by (auto simp: disjoint_iff)
  qed simp
qed

lemma pmm_detect_fields:
  "pmm_mem (pmm_detect_memory mm s) = pmm_mem s"
  "pmm_stack (pmm_detect_memory mm s) = pmm_stack s"
  "pmm_location (pmm_detect_memory mm s) = pmm_location s"
  "pmm_bitmap (pmm_detect_memory mm s) = pmm_bitmap s"
  "pmm_avail (pmm_detect_memory mm s) = pmm_avail s"
  unfolding pmm_detect_memory_def by (induction mm arbitrary: s) (simp_all add: Let_def)

lemma pmm_detect_highest:
  "pmm_highest s \<le> pmm_highest (pmm_detect_memory mm s) \<and>
   (\<forall>d \<in> set mm. md_VirtualStart d + md_NumberOfPages d \<le> pmm_highest (pmm_detect_memory mm s))"
proof (induction mm arbitrary: s)
  case Nil
  then show ?case by (simp add: pmm_detect_memory_def)
next
  case (Cons d mm)
  obtain s1 where s1: "pmm_detect_memory (d # mm) s = pmm_detect_memory mm s1"
      "pmm_highest s1 = MAX_u64 (pmm_highest s) (md_VirtualStart d + md_NumberOfPages d)"
    by (simp add: pmm_detect_memory_def Let_def)
  then have "pmm_highest s \<le> pmm_highest s1" "md_VirtualStart d + md_NumberOfPages d \<le> pmm_highest s1"
    by (auto simp: MAX_u64_def)
  with Cons.IH [of s1] s1(1) show ?case by auto
qed

lemma pmm_static_tracks:
  assumes "\<forall>p. length (ps_pages (mem p)) = FREE_PAGE_MAX" and "length pages < 2 ^ 64"
  shows "pmm_tracks ((pmm_detect_memory mm (pmm_static mem))\<lparr>pmm_pages := pages\<rparr>) {}
           {p. 64 \<le> unat p \<and> unat p < 16384}"
    (is "pmm_tracks ?s {} ?G")
proof -
  let ?bm = "BITMAP_CREATE_ONE PMM_BITMAP_MAX_PFN"
  have bm: "?bm = \<lparr>firstZeroIdx = 0, bm_length = 16384, bm_buffer = (- 1) # replicate 255 0\<rparr>"
    using replicate_Suc [of 255 "0 :: u64"]
    by (simp add: BITMAP_CREATE_ONE_def PMM_BITMAP_MAX_PFN_val BITMAP_BITS_TO_QWORDS_def)
  have bit: "bit_at ?bm i \<longleftrightarrow> i < 64" if "i < 16384" for i
    using that unfolding bm by (cases "i < 64") (auto simp: bit_at_def nth_Cons' div_less_iff_less_mult)
  have "bitmap_wf ?bm" unfolding bm by (simp add: bitmap_wf_def)
  moreover have "bitmap_free ?bm = ?G"
    using bit by (auto simp: bitmap_free_def) (auto simp: bm)
  moreover have "bm_length ?bm = PMM_BITMAP_MAX_PFN" by (simp add: bm) (simp add: PMM_BITMAP_MAX_PFN_val)
  ultimately have "pmm_free_set ?s ?G"
    using assms(1) unfolding pmm_free_set_def
    by (intro conjI exI [of _ "[]"])
      (simp_all add: pmm_detect_fields pmm_static_def stack_inv_def)
  then show ?thesis
    using assms(2) by (auto simp: pmm_tracks_def pmm_detect_fields pmm_static_def u64_nat)
qed

lemma boot_map_loads:
  assumes ok: "boot_map_ok mm" and refs: "pmm_init_refs mm s = Some pagesPfn"
    and high: "\<forall>d \<in> set mm. md_VirtualStart d + md_NumberOfPages d \<le> pmm_highest s"
    and len: "length (pmm_pages s) = unat (pmm_highest s)"
  shows "map_ok s pagesPfn mm"
proof -
  let ?skip = "BYTES_TO_PAGES (pmm_highest s * sizeof_page_t)"
  from refs obtain e where e: "e \<in> set mm" "md_VirtualStart e = pagesPfn" "?skip \<le> md_NumberOfPages e"
    by (auto simp: pmm_init_refs_def Let_def find_Some_iff dest: nth_mem)
  have skip: "unat ?skip \<le> unat (md_NumberOfPages d)" if "d \<in> set mm" "md_VirtualStart d = pagesPfn" for d
    using boot_map_same_start [OF ok that(1) e(1)] that(2) e by (simp add: u64_nat)
  have drop: "\<exists>k. loaded_pages (pmm_highest s) pagesPfn d = drop k (desc_pages d)" if "d \<in> set mm" for d
    using page_region_drop [OF skip [OF that]]
    by (cases "md_VirtualStart d = pagesPfn")
      (auto simp: loaded_pages_def loaded_range_def desc_pages_def Let_def intro: exI [of _ 0])
  have "in_refs s (loaded_range (pmm_highest s) pagesPfn d)" if d: "d \<in> set mm" for d
  proof -
    have end_bound: "unat (md_VirtualStart d) + unat (md_NumberOfPages d) < 2 ^ 64"
      using ok d by (simp add: boot_map_ok_def)
    then have "unat (md_VirtualStart d + md_NumberOfPages d) =
        unat (md_VirtualStart d) + unat (md_NumberOfPages d)" by (rule unat_add_u64)
    then have b: "unat (md_VirtualStart d) + unat (md_NumberOfPages d) \<le> length (pmm_pages s)"
      using bspec [OF high d] len by (simp add: u64_nat)
    show ?thesis
    proof (cases "md_VirtualStart d = pagesPfn")
      case True
      note k = skip [OF d True]
      have "unat (md_VirtualStart d + ?skip) = unat (md_VirtualStart d) + unat ?skip"
        using end_bound k by (intro unat_add_u64) linarith
      moreover have "unat (md_NumberOfPages d - ?skip) = unat (md_NumberOfPages d) - unat ?skip"
        using k by (intro unat_sub_u64) simp
      ultimately show ?thesis using True k b end_bound by (simp add: in_refs_def loaded_range_def Let_def)
    next
      case False
      then show ?thesis using b end_bound by (simp add: in_refs_def loaded_range_def)
    qed
  qed
  moreover have "distinct (concat (List.map (loaded_pages (pmm_highest s) pagesPfn) mm))"
    by (rule distinct_concat_drop [where f = desc_pages]) (use ok drop in \<open>simp_all add: boot_map_ok_def\<close>)
  ultimately show ?thesis by (simp add: map_ok_def)
qed

lemma pmm_init_correct:
  fixes mm mem refs
  defines "s0 \<equiv> pmm_detect_memory mm (pmm_static mem)"
  assumes "\<forall>p. length (ps_pages (mem p)) = FREE_PAGE_MAX" and "boot_map_ok mm"
    and "pmm_init_refs mm s0 = Some pagesPfn"
  defines "A \<equiv> map_pages (pmm_highest s0) pagesPfn (\<lambda>d. pmm_is_mem_avail (md_Type d)) mm"
    and "N \<equiv> map_pages (pmm_highest s0) pagesPfn (\<lambda>d. \<not> pmm_is_mem_avail (md_Type d)) mm"
  shows "\<exists>s. pmm_init mm refs (pmm_static mem) = Some s \<and>
             pmm_tracks s A {p. 64 \<le> unat p \<and> unat p < 16384} \<and>
             (\<forall>p \<in> N - A. page_ref s p = Some 0xFFFF)"
proof -
  let ?s = "s0\<lparr>pmm_pages := List.map refs [0..<unat (pmm_highest s0)]\<rparr>"
  have "unat (pmm_highest s0) < 2 ^ 64" using unsigned_less [of "pmm_highest s0"] by simp
  then have tr: "pmm_tracks ?s {} {p. 64 \<le> unat p \<and> unat p < 16384}"
    unfolding s0_def using assms(2) by (intro pmm_static_tracks) simp_all
  have "pmm_init_refs mm ?s = Some pagesPfn" using assms(4) by (simp add: pmm_init_refs_def)
  moreover have "\<forall>d \<in> set mm. md_VirtualStart d + md_NumberOfPages d \<le> pmm_highest ?s"
    using pmm_detect_highest [where mm = mm] by (simp add: s0_def)
  ultimately have "map_ok ?s pagesPfn mm" using boot_map_loads [OF assms(3)] by simp
  from pmm_load_memory_correct [OF tr this] show ?thesis
    using assms(4) by (auto simp: pmm_init_def A_def N_def Let_def simp flip: s0_def)
qed

section \<open>The contract of the allocator\<close>

text \<open>What the kernel relies on when it takes and returns single pages: \<open>inv s F\<close> holds of a
  state whose free pages are \<open>F\<close>, \<open>owned s p\<close> of a page with exactly one owner.\<close>

locale page_allocator =
  fixes alloc :: "'s \<Rightarrow> ('p \<times> 's) option" and free :: "'p \<Rightarrow> 's \<Rightarrow> 's option"
    and inv :: "'s \<Rightarrow> 'p set \<Rightarrow> bool" and owned :: "'s \<Rightarrow> 'p \<Rightarrow> bool"
  assumes finite_free: "inv s F \<Longrightarrow> finite F"
    and alloc_law: "inv s F \<Longrightarrow> F \<noteq> {} \<Longrightarrow> \<exists>p s'. alloc s = Some (p, s') \<and> p \<in> F \<and>
      inv s' (F - {p}) \<and> owned s' p \<and> (\<forall>q. owned s q \<longrightarrow> owned s' q)"
    and free_law: "inv s F \<Longrightarrow> owned s p \<Longrightarrow> \<exists>s'. free p s = Some s' \<and>
      inv s' (insert p F) \<and> (\<forall>q. q \<noteq> p \<longrightarrow> owned s q \<longrightarrow> owned s' q)"
    and owned_not_free: "inv s F \<Longrightarrow> owned s p \<Longrightarrow> p \<notin> F"
    and double_free: "inv s F \<Longrightarrow> p \<in> F \<Longrightarrow> free p s = None"
begin

primrec allocs :: "nat \<Rightarrow> 's \<Rightarrow> ('p list \<times> 's) option" where
  "allocs 0 s = Some ([], s)"
| "allocs (Suc n) s = do {
     (p, s) \<leftarrow> alloc s;
     (ps, s) \<leftarrow> allocs n s;
     Some (p # ps, s)
   }"

lemma allocs_distinct:
  assumes "inv s F" and "n \<le> card F"
  shows "\<exists>ps s'. allocs n s = Some (ps, s') \<and> length ps = n \<and> distinct ps \<and> set ps \<subseteq> F \<and>
           inv s' (F - set ps) \<and> (\<forall>p \<in> set ps. owned s' p) \<and> (\<forall>q. owned s q \<longrightarrow> owned s' q)"
  using assms
proof (induction n arbitrary: s F)
  case (Suc n)
  then have "F \<noteq> {}" by auto
  from alloc_law [OF Suc.prems(1) this] obtain p s1 where p: "alloc s = Some (p, s1)" "p \<in> F"
    "inv s1 (F - {p})" "owned s1 p" "\<forall>q. owned s q \<longrightarrow> owned s1 q" by blast
  have "n \<le> card (F - {p})" using Suc.prems p(2) finite_free by fastforce
  from Suc.IH [OF p(3) this] obtain ps s' where ps: "allocs n s1 = Some (ps, s')" "length ps = n"
    "distinct ps" "set ps \<subseteq> F - {p}" "inv s' (F - {p} - set ps)" "\<forall>p \<in> set ps. owned s' p"
    "\<forall>q. owned s1 q \<longrightarrow> owned s' q" by blast
  have "F - set (p # ps) = F - {p} - set ps" by auto
  with p ps show ?case by (intro exI [of _ "p # ps"] exI [of _ s']) auto
qed simp

lemma frees_restore:
  assumes "inv s F" and "distinct ps" and "\<forall>p \<in> set ps. owned s p"
  shows "\<exists>s'. for_each free ps s = Some s' \<and> inv s' (F \<union> set ps)"
  using assms
proof (induction ps arbitrary: s F)
  case (Cons p ps)
  then obtain s1 where s1: "free p s = Some s1" "inv s1 (insert p F)"
    "\<forall>q. q \<noteq> p \<longrightarrow> owned s q \<longrightarrow> owned s1 q" using free_law by (metis list.set_intros(1))
  then have "\<forall>q \<in> set ps. owned s1 q" using Cons.prems by auto
  from Cons.IH [OF s1(2) _ this] Cons.prems(2) s1(1) show ?case by auto
qed simp

text \<open>Pages taken one by one are distinct, and returning them restores the free set.\<close>

lemma alloc_free_balance:
  assumes "inv s F" and "n \<le> card F"
  shows "\<exists>ps s1 s2. allocs n s = Some (ps, s1) \<and> distinct ps \<and> length ps = n \<and> set ps \<subseteq> F \<and>
           for_each free ps s1 = Some s2 \<and> inv s2 F"
proof -
  from allocs_distinct [OF assms] obtain ps s1 where ps: "allocs n s = Some (ps, s1)" "length ps = n"
    "distinct ps" "set ps \<subseteq> F" "inv s1 (F - set ps)" "\<forall>p \<in> set ps. owned s1 p" by blast
  moreover have "F - set ps \<union> set ps = F" using ps(4) by blast
  ultimately show ?thesis using frees_restore [OF ps(5,3,6)] by auto
qed

end

interpretation pmm_pages: page_allocator pmm_alloc pmm_free pmm_inv "\<lambda>s p. page_ref s p = Some 1"
proof
  fix s F p
  assume inv: "pmm_inv s F"
  show "finite F" by simp
  show "\<exists>p s'. pmm_alloc s = Some (p, s') \<and> p \<in> F \<and> pmm_inv s' (F - {p}) \<and>
      page_ref s' p = Some 1 \<and> (\<forall>q. page_ref s q = Some 1 \<longrightarrow> page_ref s' q = Some 1)" if "F \<noteq> {}"
    using pmm_alloc_cases [OF inv] that by fastforce
  show "\<exists>s'. pmm_free p s = Some s' \<and> pmm_inv s' (insert p F) \<and>
      (\<forall>q. q \<noteq> p \<longrightarrow> page_ref s q = Some 1 \<longrightarrow> page_ref s' q = Some 1)" if "page_ref s p = Some 1"
    using pmm_free_last [OF inv that] by (auto simp: pmm_free_def)
  show "p \<notin> F" if "page_ref s p = Some 1" using inv that by (auto simp: pmm_inv_def)
  show "pmm_free p s = None" if "p \<in> F"
    using pmm_free_panics [OF inv] that by (simp add: pmm_free_def)
qed

end
