(* ===== verification/Pmm_Properties.thy ===== *)
theory Pmm_Properties
  imports Pmm_Init
begin

text \<open>
  The properties of the page allocator of \<^verbatim>\<open>src/kernel/mem/pmm.c\<close>, each for every state that
  satisfies the invariant, with a small concrete state at which they apply.
\<close>

section \<open>A concrete state\<close>

text \<open>Five pages, of which 1 and 2 are free and page 3 is shared.\<close>

definition sample_pmm :: pmm where
  "sample_pmm =
     \<lparr>pmm_pages = [1, 0, 0, 7, 0xFFFF],
      pmm_mem = (\<lambda>_. \<lparr>ps_next = None, ps_pages = replicate FREE_PAGE_MAX 0\<rparr>),
      pmm_stack = None, pmm_location = FREE_PAGE_MAX,
      pmm_bitmap = \<lparr>firstZeroIdx = 0, bm_length = PMM_BITMAP_MAX_PFN,
                    bm_buffer = NOT 6 # replicate 255 (- 1)\<rparr>,
      pmm_highest = 5, pmm_total = 5, pmm_avail = 2\<rparr>"

lemma sample_bits:
  assumes "i < 16384"
  shows "bit_at (pmm_bitmap sample_pmm) i \<longleftrightarrow> i \<noteq> 1 \<and> i \<noteq> 2"
proof (cases "i < 64")
  case True
  have "bit (6 :: u64) i \<longleftrightarrow> i = 1 \<or> i = 2"
  proof -
    have "(6 :: u64) = push_bit 1 1 OR push_bit 2 1" by simp
    then show ?thesis by (simp only: bit_or_iff bit_push_bit_iff) (auto simp: bit_1_iff)
  qed
  moreover have "bit (- 7 :: u64) i \<longleftrightarrow> \<not> bit (6 :: u64) i"
    using bit_not_iff [of "6 :: u64" i] True by simp
  ultimately show ?thesis using True by (auto simp: sample_pmm_def bit_at_def)
next
  case False
  with assms show ?thesis
    by (simp add: sample_pmm_def bit_at_def nth_Cons' less_mult_imp_div_less div_eq_0_iff)
qed

lemma sample_inv: "pmm_inv sample_pmm {1, 2}"
proof -
  have free: "bitmap_free (pmm_bitmap sample_pmm) = {1, 2}"
    using sample_bits by (auto simp: bitmap_free_def word_unat_eq_iff) (auto simp: sample_pmm_def)
  have "bitmap_wf (pmm_bitmap sample_pmm)" by (simp add: sample_pmm_def bitmap_wf_def)
  moreover have "stack_inv sample_pmm []" by (simp add: sample_pmm_def stack_inv_def)
  ultimately have "pmm_free_set sample_pmm {1, 2}"
    unfolding pmm_free_set_def using free
    by (intro conjI exI [of _ "[]"]) (simp_all, simp add: sample_pmm_def)
  then show ?thesis by (auto simp: pmm_inv_def sample_pmm_def page_ref_def)
qed

section \<open>Properties\<close>

text \<open>C1. \<^verbatim>\<open>pmm_alloc\<close> never panics. If a page is free it returns one: the page leaves the
  free set, its reference count becomes 1, no other count changes and the invariant is kept.
  If none is free it returns \<^verbatim>\<open>ERR\<close> and changes nothing.\<close>

theorem pmm_alloc_correct:
  assumes "pmm_inv s F"
  shows "if F = {} then pmm_alloc s = Some (ERR, s)
         else \<exists>p s'. pmm_alloc s = Some (p, s') \<and> p \<in> F \<and> pmm_inv s' (F - {p}) \<and>
                (\<forall>q. page_ref s' q = (if q = p then Some 1 else page_ref s q))"
  using pmm_alloc_cases [OF assms] by auto

theorem pmm_alloc_correct_witness:
  "\<exists>p s'. pmm_alloc sample_pmm = Some (p, s') \<and> p \<in> {1, 2} \<and> pmm_inv s' ({1, 2} - {p})"
  using pmm_alloc_correct [OF sample_inv] by auto

text \<open>C2. \<^verbatim>\<open>pmm_free\<close> drops one reference. Freeing a free page or a page outside the array of
  counts panics; dropping the last reference returns the page to the free set and keeps the
  invariant; dropping another one only lowers the count.\<close>

theorem pmm_free_correct:
  assumes "pmm_inv s F"
  shows "case page_ref s p of
           None \<Rightarrow> pmm_free p s = None
         | Some r \<Rightarrow>
             (if r = 0 then pmm_free p s = None
              else if r = 1 then \<exists>s'. pmm_free p s = Some s' \<and> p \<notin> F \<and> pmm_inv s' (insert p F) \<and>
                (\<forall>q. page_ref s' q = (if q = p then Some 0 else page_ref s q))
              else pmm_free p s = Some (set_page_ref p (r - 1) s) \<and> p \<notin> F \<and>
                   pmm_inv (set_page_ref p (r - 1) s) F)"
proof (cases "page_ref s p")
  case None
  then show ?thesis by (simp add: pmm_free_def pmm_free_unlocked_def)
next
  case (Some r)
  have "p \<notin> F" if "r \<noteq> 0" using Some that assms by (auto simp: pmm_inv_def)
  moreover have "1 < r" if "r \<noteq> 0" "r \<noteq> 1"
  proof -
    have "unat r \<noteq> 0" "unat r \<noteq> 1" using that by (auto simp: word_unat_eq_iff)
    then show ?thesis by (simp add: word_less_nat_alt)
  qed
  ultimately show ?thesis
    using Some pmm_free_last [OF assms] pmm_free_shared [OF assms Some]
    by (auto simp: pmm_free_def pmm_free_unlocked_def)
qed

theorem pmm_free_correct_witness:
  "pmm_free 1 sample_pmm = None \<and>
   (\<exists>s'. pmm_free 0 sample_pmm = Some s' \<and> pmm_inv s' {0, 1, 2}) \<and>
   pmm_free 3 sample_pmm = Some (set_page_ref 3 6 sample_pmm)"
  using pmm_free_correct [OF sample_inv, of 1] pmm_free_correct [OF sample_inv, of 0]
    pmm_free_correct [OF sample_inv, of 3]
  by (auto simp: page_ref_def sample_pmm_def)

text \<open>C3. \<^verbatim>\<open>pmm_alloc_pages\<close> is all or nothing: it succeeds exactly when enough pages are
  free, then with that many distinct pages; otherwise every page it had taken is given back,
  so that the free set and all counts are as before.\<close>

theorem pmm_alloc_pages_atomic:
  assumes "pmm_inv s F"
  shows "if unat count \<le> card F
         then \<exists>ps s'. pmm_alloc_pages count s = Some (Some ps, s') \<and> length ps = unat count \<and>
                distinct ps \<and> set ps \<subseteq> F \<and> pmm_inv s' (F - set ps) \<and>
                (\<forall>q. page_ref s' q = (if q \<in> set ps then Some 1 else page_ref s q))
         else \<exists>s'. pmm_alloc_pages count s = Some (None, s') \<and> pmm_inv s' F \<and>
                (\<forall>q. page_ref s' q = page_ref s q)"
  by (rule pmm_alloc_pages_cases [OF assms])

theorem pmm_alloc_pages_atomic_witness:
  "(\<exists>ps s'. pmm_alloc_pages 2 sample_pmm = Some (Some ps, s') \<and> set ps = {1, 2}) \<and>
   (\<exists>s'. pmm_alloc_pages 3 sample_pmm = Some (None, s') \<and> pmm_inv s' {1, 2})"
proof -
  have "set ps = {1, 2}" if "set ps \<subseteq> {1, 2 :: u64}" "distinct ps" "length ps = 2" for ps
    using that by (intro card_subset_eq) (simp_all add: distinct_card)
  then show ?thesis
    using pmm_alloc_pages_atomic [OF sample_inv, of 2] pmm_alloc_pages_atomic [OF sample_inv, of 3]
    by auto
qed

text \<open>C4. \<^verbatim>\<open>pmm_alloc_bitmap\<close>, for counts below $2^{63}$ and alignments below $2^{62}$. With \<open>lim\<close> the smaller of
  \<open>maxPfn\<close> and 64 MiB: a request for at most \<open>lim\<close> pages returns the lowest aligned run of free pages below \<open>lim\<close>, each
  with reference count 1 afterwards, or \<^verbatim>\<open>ERR\<close> with nothing changed when there is none. A request for more pages than
  \<open>lim\<close> does not respect the limit: it gets the lowest run below 64 MiB, and when there is none the call never returns.
  For no pages, or a limit of zero, the result is \<^verbatim>\<open>ERR\<close>.\<close>

theorem pmm_alloc_bitmap_first_fit:
  assumes "pmm_inv s F" and "lim = min (unat maxPfn) 16384" and "al = max (unat alignPfn) 1"
    and "unat count < 2 ^ 63" and "al < 2 ^ 62"
  shows "if count = 0 \<or> maxPfn = 0 then pmm_alloc_bitmap count maxPfn alignPfn s = Some (ERR, s)
    else let n = unat count; hi = (if n \<le> lim then lim else 16384) in
      case pmm_alloc_bitmap count maxPfn alignPfn s of
        None \<Rightarrow> lim < n \<and> (\<forall>b. \<not> dma_slot F n al hi b)
      | Some (p, s') \<Rightarrow>
          if p = ERR then s' = s \<and> n \<le> lim \<and> (\<forall>b. \<not> dma_slot F n al hi b)
          else dma_slot F n al hi p \<and> (\<forall>b < p. \<not> dma_slot F n al hi b) \<and> pmm_inv s' (F - set (page_region p n)) \<and>
            (\<forall>q. page_ref s' q = (if q \<in> set (page_region p n) then Some 1 else page_ref s q))"
proof (cases "count = 0 \<or> maxPfn = 0")
  case True
  have "bm_length (pmm_bitmap s) = PMM_BITMAP_MAX_PFN" using assms(1) by (simp add: pmm_inv_def pmm_free_set_def)
  moreover have "MIN_u64 maxPfn PMM_BITMAP_MAX_PFN = 0" if "maxPfn = 0" using that by (simp add: MIN_u64_def u64_nat)
  ultimately show ?thesis
    using True by (auto simp: pmm_alloc_bitmap_def pmm_bitmap_set_def bitmap_find_clear_region_and_set_def)
next
  case False
  then have "0 < count" "0 < maxPfn" by (simp_all add: word_gt_0)
  from pmm_alloc_bitmap_cases [OF assms(1-3) this assms(4,5)] show ?thesis
    unfolding bitmap_outcome_def using False by simp
qed

theorem pmm_alloc_bitmap_first_fit_witness:
  "(\<exists>s'. pmm_alloc_bitmap 2 16 1 sample_pmm = Some (1, s') \<and> pmm_inv s' {}) \<and> pmm_alloc_bitmap 4 3 1 sample_pmm = None"
proof -
  have slot: "dma_slot {1, 2} 2 1 16 b \<longleftrightarrow> b = 1" for b :: u64
  proof
    assume "dma_slot {1, 2} 2 1 16 b"
    then have "b \<in> {1, 2}" "b + 1 \<in> {1, 2}" by (auto simp: dma_slot_def page_region_def upt_rec)
    then show "b = 1" by auto
  qed (auto simp: dma_slot_def page_region_def upt_rec)
  have none: "\<not> dma_slot {1, 2} 4 1 16384 b" for b :: u64
  proof
    assume "dma_slot {1, 2} 4 1 16384 b"
    then have "b \<in> {1, 2}" "b + 1 \<in> {1, 2}" "b + 2 \<in> {1, 2}" by (auto simp: dma_slot_def page_region_def upt_rec)
    then show False by auto
  qed
  have R: "set (page_region 1 2) = {1, 2 :: u64}" by (auto simp: page_region_def upt_rec)
  show ?thesis
    using pmm_alloc_bitmap_first_fit [OF sample_inv, of 16 16 1 1 2] pmm_alloc_bitmap_first_fit [OF sample_inv, of 3 3 1 1 4] slot none R
    by (auto simp: Let_def split: option.splits if_splits)
qed

text \<open>\<^verbatim>\<open>pmm_ref_inc\<close> is all or nothing: if every page of the range is in use and below
  the largest count, each count is raised by one and the new count of the first page is
  returned; otherwise the counts it had already raised are lowered again and the state is
  exactly what it was.\<close>

theorem pmm_ref_inc_atomic:
  assumes "pmm_inv s F" and "0 < count" and "unat pfn + unat count < 2 ^ 64"
    and "unat pfn + unat count \<le> length (pmm_pages s)"
  shows "if \<exists>k < unat count. pmm_pages s ! (unat pfn + k) \<in> {0, 0xFFFF}
         then pmm_ref_inc pfn count s = Some (ERR, s)
         else \<exists>s'. pmm_ref_inc pfn count s = Some (ucast (pmm_pages s ! unat pfn + 1), s') \<and>
                pmm_inv s' F \<and> bumped (unat pfn) (unat pfn + unat count) s s'"
proof -
  have loop: "if \<exists>k < unat count. pmm_pages s ! (unat pfn + k) \<in> {0, 0xFFFF}
         then pmm_ref_inc_loop pfn 0 (unat count) s = Some (False, s)
         else \<exists>s'. pmm_ref_inc_loop pfn 0 (unat count) s = Some (True, s') \<and>
                bumped (unat pfn) (unat pfn + unat count) s s'"
    using ref_inc_loop_cases [of pfn 0 s s "unat count"] assms(3,4) bumped_refl [of "unat pfn" s]
    by (simp cong: if_cong)
  show ?thesis
  proof (cases "\<exists>k < unat count. pmm_pages s ! (unat pfn + k) \<in> {0, 0xFFFF}")
    case True
    then show ?thesis using loop by (auto simp: pmm_ref_inc_def)
  next
    case False
    with loop obtain s' where s': "pmm_ref_inc_loop pfn 0 (unat count) s = Some (True, s')"
      "bumped (unat pfn) (unat pfn + unat count) s s'" by (simp only: if_False) blast
    have "pmm_pages s ! k \<noteq> 0" if "unat pfn \<le> k" "k < unat pfn + unat count" for k
    proof -
      have "k - unat pfn < unat count" "k = unat pfn + (k - unat pfn)" using that by simp_all
      then show ?thesis using False by (metis insertI1)
    qed
    then have "pmm_inv s' F" using pmm_inv_bumped [OF assms(1) s'(2)] by simp
    moreover have "page_ref s' pfn = Some (pmm_pages s ! unat pfn + 1)"
      using page_ref_bumped [OF s'(2), of pfn] assms(2,4) by (auto simp: page_ref_def u64_nat)
    ultimately show ?thesis
      using s' by (simp only: False if_False) (auto simp: pmm_ref_inc_def)
  qed
qed

text \<open>Pages taken one at a time with \<^verbatim>\<open>pmm_alloc\<close> are distinct, and giving each of them
  back with \<^verbatim>\<open>pmm_free\<close> restores exactly the free set there was before.\<close>

theorem pmm_alloc_free_balance:
  assumes "pmm_inv s F" and "n \<le> card F"
  shows "\<exists>ps s1 s2. pmm_pages.allocs n s = Some (ps, s1) \<and> distinct ps \<and> length ps = n \<and>
           set ps \<subseteq> F \<and> for_each pmm_free ps s1 = Some s2 \<and> pmm_inv s2 F"
  by (rule pmm_pages.alloc_free_balance [OF assms])

text \<open>C5. For every boot memory map without empty, wrapping or overlapping descriptors \<^verbatim>\<open>pmm_init\<close> succeeds if
  the array of reference counts finds a place in it, and panics otherwise. Afterwards the number of available pages is the
  number of pages of the available descriptors without the array of counts, those pages have no references, and the pages
  the allocator can hand out are these together with all pages from 64 up to 64 MiB. So if the map makes every page from 64 up
  to 64 MiB available, the invariant holds for exactly the available pages.\<close>

theorem pmm_init_establishes:
  fixes mm mem refs
  defines "s0 \<equiv> pmm_detect_memory mm (pmm_static mem)"
  assumes "\<forall>p. length (ps_pages (mem p)) = FREE_PAGE_MAX" and "boot_map_ok mm"
  shows "case pmm_init_refs mm s0 of
      None \<Rightarrow> pmm_init mm refs (pmm_static mem) = None
    | Some pagesPfn \<Rightarrow>
        let A = map_pages (pmm_highest s0) pagesPfn (\<lambda>d. pmm_is_mem_avail (md_Type d)) mm;
            low = {p. 64 \<le> unat p \<and> unat p < 16384} in
        \<exists>s. pmm_init mm refs (pmm_static mem) = Some s \<and> unat (pmm_avail s) = card A \<and> (\<forall>p \<in> A. page_ref s p = Some 0) \<and>
          pmm_free_set s (A \<union> low) \<and> (low \<subseteq> A \<longrightarrow> pmm_inv s A)"
proof (cases "pmm_init_refs mm s0")
  case None
  then show ?thesis by (simp add: pmm_init_def s0_def)
next
  case (Some pagesPfn)
  let ?A = "map_pages (pmm_highest s0) pagesPfn (\<lambda>d. pmm_is_mem_avail (md_Type d)) mm"
  obtain s where s: "pmm_init mm refs (pmm_static mem) = Some s" "pmm_tracks s ?A {p. 64 \<le> unat p \<and> unat p < 16384}"
    using pmm_init_correct [OF assms(2,3) Some [unfolded s0_def], of refs, folded s0_def] by blast
  then show ?thesis
    unfolding Some option.case Let_def
    by (intro exI [of _ s] conjI impI) (auto simp: pmm_tracks_def dest: pmm_tracks_inv)
qed

theorem pmm_init_establishes_witness:
  "\<exists>s. pmm_init
         [\<lparr>md_Type = EfiConventionalMemory, md_VirtualStart = 0, md_NumberOfPages = 20000\<rparr>]
         (\<lambda>_. 0) (pmm_static (\<lambda>_. poison_page)) = Some s \<and>
       (\<exists>A. pmm_inv s A \<and> 64 \<in> A)"
proof -
  let ?mm = "[\<lparr>md_Type = EfiConventionalMemory, md_VirtualStart = 0, md_NumberOfPages = 20000\<rparr>]"
  let ?s0 = "pmm_detect_memory ?mm (pmm_static (\<lambda>_. poison_page))"
  let ?A = "map_pages (pmm_highest ?s0) 0 (\<lambda>d. pmm_is_mem_avail (md_Type d)) ?mm"
  have h: "pmm_highest ?s0 = 20000"
    by (simp add: pmm_detect_memory_def pmm_static_def MAX_u64_def Let_def)
  then have refs: "pmm_init_refs ?mm ?s0 = Some 0"
    by (simp add: pmm_init_refs_def Let_def BYTES_TO_PAGES_def sizeof_page_t_def PAGE_SIZE_def)
  have A: "?A = set (page_region 10 19990)"
    using h by (simp add: map_pages_def loaded_pages_def loaded_range_def pmm_is_mem_avail_def
        boot_is_mem_ram_def BYTES_TO_PAGES_def sizeof_page_t_def PAGE_SIZE_def)
  have sub: "{p. 64 \<le> unat p \<and> unat p < 16384} \<subseteq> ?A"
    unfolding A by (rule subsetI, subst in_page_region) simp_all
  have ok: "boot_map_ok ?mm"
    using distinct_page_region [of 0 20000] by (simp add: boot_map_ok_def desc_pages_def)
  have "\<forall>p :: u64. length (ps_pages ((\<lambda>_. poison_page) p)) = FREE_PAGE_MAX"
    by (simp add: poison_page_def)
  note init = pmm_init_establishes [OF this ok, of "\<lambda>_. 0", unfolded refs option.case Let_def]
  then obtain s where
    s: "pmm_init ?mm (\<lambda>_. 0) (pmm_static (\<lambda>_. poison_page)) = Some s" "pmm_inv s ?A" using sub by blast
  moreover have "64 \<in> ?A" by (rule subsetD [OF sub]) simp
  ultimately show ?thesis by blast
qed

definition reserved_map :: "memory_descriptor list" where
  "reserved_map =
     [\<lparr>md_Type = EfiReservedMemoryType, md_VirtualStart = 0, md_NumberOfPages = 16384\<rparr>,
      \<lparr>md_Type = EfiConventionalMemory, md_VirtualStart = 16384, md_NumberOfPages = 9\<rparr>]"

lemma reserved_map_loaded:
  fixes mem
  defines "s0 \<equiv> pmm_detect_memory reserved_map (pmm_static mem)"
  shows "pmm_init_refs reserved_map s0 = Some 16384"
    and "map_pages (pmm_highest s0) 16384 (\<lambda>d. pmm_is_mem_avail (md_Type d)) reserved_map = {}"
    and "map_pages (pmm_highest s0) 16384 (\<lambda>d. \<not> pmm_is_mem_avail (md_Type d)) reserved_map =
           {p. unat p < 16384}"
proof -
  have h: "pmm_highest s0 = 16393"
    by (simp add: s0_def reserved_map_def pmm_detect_memory_def pmm_static_def MAX_u64_def Let_def)
  note unfold = reserved_map_def map_pages_def loaded_pages_def loaded_range_def
    pmm_is_mem_avail_def boot_is_mem_ram_def BYTES_TO_PAGES_def sizeof_page_t_def PAGE_SIZE_def
  show "pmm_init_refs reserved_map s0 = Some 16384"
    using h by (simp add: pmm_init_refs_def Let_def unfold)
  show "map_pages (pmm_highest s0) 16384 (\<lambda>d. pmm_is_mem_avail (md_Type d)) reserved_map = {}"
    using h by (simp add: unfold page_region_def)
  have "map_pages (pmm_highest s0) 16384 (\<lambda>d. \<not> pmm_is_mem_avail (md_Type d)) reserved_map =
      set (page_region 0 16384)"
    using h by (simp add: unfold)
  also have "\<dots> = {p. unat p < 16384}" using in_page_region [of 0 16384] by (intro set_eqI) simp
  finally show "map_pages (pmm_highest s0) 16384 (\<lambda>d. \<not> pmm_is_mem_avail (md_Type d)) reserved_map =
           {p. unat p < 16384}" .
qed

lemma reserved_map_ok: "boot_map_ok reserved_map"
proof -
  have "distinct (page_region 0 16384 @ page_region 16384 9)"
    using distinct_page_region [of 0 16384] distinct_page_region [of 16384 9]
      in_page_region [of 0 16384] in_page_region [of 16384 9] by auto
  then show ?thesis by (simp add: boot_map_ok_def reserved_map_def desc_pages_def)
qed

text \<open>C36. The statically initialised bitmap offers pages that no descriptor made available:
  \<^verbatim>\<open>BITMAP_CREATE_ONE\<close> sets only the first 64 bits. With the first 64 MiB reserved and the rest
  of memory holding just the array of reference counts, initialisation succeeds with no free
  page, and the next \<^verbatim>\<open>pmm_alloc\<close> panics instead of returning \<^verbatim>\<open>ERR\<close>.\<close>

theorem pmm_init_stale_bits:
  assumes "\<forall>p. length (ps_pages (mem p)) = FREE_PAGE_MAX"
  shows "\<exists>s. pmm_init reserved_map refs (pmm_static mem) = Some s \<and>
             pmm_avail s = 0 \<and> pmm_alloc s = None"
proof -
  let ?G = "{p :: u64. 64 \<le> unat p \<and> unat p < 16384}"
  note load = reserved_map_loaded [of mem]
  from pmm_init_correct [OF assms reserved_map_ok load(1), of refs, unfolded load(2,3)]
  obtain s where s: "pmm_init reserved_map refs (pmm_static mem) = Some s"
    "pmm_tracks s {} ?G" "\<forall>p. unat p < 16384 \<longrightarrow> page_ref s p = Some 0xFFFF" by auto
  have fs: "pmm_free_set s ?G" and av: "pmm_avail s = 0" using s(2) by (simp_all add: pmm_tracks_def unat_eq_0)
  have "ERR \<notin> ?G" by (simp add: ERR_def unsigned_minus_1_eq_mask mask_eq_exp_minus_1)
  moreover have "64 \<in> ?G" by simp
  ultimately obtain p s' where p: "p \<in> ?G" "pmm_take s = Some (p, s')" "same_refs s s'" "p \<noteq> ERR"
    using pmm_take_correct [OF fs] by blast
  then have "page_ref s' p = Some 0xFFFF" using s(3) by (simp add: page_ref_same_refs)
  then have "pmm_alloc s = None" using p by (simp add: pmm_alloc_def claim_ref_def)
  with s(1) av show ?thesis by blast
qed

theorem pmm_init_stale_bits_witness:
  "\<exists>s. pmm_init reserved_map (\<lambda>_. 0) (pmm_static (\<lambda>_. poison_page)) = Some s \<and> pmm_alloc s = None"
proof -
  have "\<forall>p :: u64. length (ps_pages ((\<lambda>_. poison_page) p)) = FREE_PAGE_MAX"
    by (simp add: poison_page_def)
  from pmm_init_stale_bits [OF this, of "\<lambda>_. 0"] show ?thesis by blast
qed

end
