(* ===== verification/Refs.thy ===== *)
theory Refs
  imports Prelude
begin

text \<open>
  Reference counted objects and weak pointers, \<^verbatim>\<open>include/kernel/utils/ref.h\<close>. Objects and weak
  pointers are named by numbers; a heap gives the fields of each. The counter is 32 bits wide
  and wraps. Callbacks are code of the object's owner: the model records which were called, in
  order. Each function is one atomic step: the spin lock of an object is free when it is taken.
\<close>

type_synonym obj = nat
type_synonym weak = nat

definition REF_MAGIC :: u32 where
  "REF_MAGIC = 0x26CB6E4C"

record ref_t =
  rf_magic :: u32
  rf_count :: u32
  rf_callback :: bool
  rf_weakRefs :: "weak list"

record weak_ptr =
  wp_ref :: "obj option"
  wp_callback :: bool

datatype callback = Cleanup obj | WeakCallback weak

record refs =
  rf_heap :: "obj \<Rightarrow> ref_t"
  wp_heap :: "weak \<Rightarrow> weak_ptr"
  rf_calls :: "callback list"

definition upd_ref :: "obj \<Rightarrow> (ref_t \<Rightarrow> ref_t) \<Rightarrow> refs \<Rightarrow> refs" where
  "upd_ref r f s = s\<lparr>rf_heap := (rf_heap s)(r := f (rf_heap s r))\<rparr>"

definition upd_weak :: "weak \<Rightarrow> (weak_ptr \<Rightarrow> weak_ptr) \<Rightarrow> refs \<Rightarrow> refs" where
  "upd_weak w f s = s\<lparr>wp_heap := (wp_heap s)(w := f (wp_heap s w))\<rparr>"

definition log_call :: "callback \<Rightarrow> refs \<Rightarrow> refs" where
  "log_call c s = s\<lparr>rf_calls := rf_calls s @ [c]\<rparr>"

definition REF_COUNT :: "obj option \<Rightarrow> refs \<Rightarrow> u32" where
  "REF_COUNT ptr s = (case ptr of None \<Rightarrow> 0 | Some r \<Rightarrow> rf_count (rf_heap s r))"

definition ref_init :: "obj \<Rightarrow> bool \<Rightarrow> refs \<Rightarrow> refs" where
  "ref_init r callback =
     upd_ref r (\<lambda>_. \<lparr>rf_magic = REF_MAGIC, rf_count = 1, rf_callback = callback, rf_weakRefs = []\<rparr>)"

definition ref_inc :: "obj option \<Rightarrow> refs \<Rightarrow> (obj option \<times> refs) option" where
  "ref_inc ptr s =
     (case ptr of
        None \<Rightarrow> Some (None, s)
      | Some r \<Rightarrow> do {
          assert_that (rf_magic (rf_heap s r) = REF_MAGIC);
          Some (Some r, upd_ref r (\<lambda>x. x\<lparr>rf_count := rf_count x + 1\<rparr>) s)
        })"

definition ref_inc_try :: "obj option \<Rightarrow> refs \<Rightarrow> (obj option \<times> refs) option" where
  "ref_inc_try ptr s =
     (case ptr of
        None \<Rightarrow> Some (None, s)
      | Some r \<Rightarrow> do {
          assert_that (rf_magic (rf_heap s r) = REF_MAGIC);
          let count = rf_count (rf_heap s r);
          if count = 0 then Some (None, s)
          else Some (Some r, upd_ref r (\<lambda>x. x\<lparr>rf_count := count + 1\<rparr>) s)
        })"

definition ref_clear_weak :: "weak \<Rightarrow> refs \<Rightarrow> refs" where
  "ref_clear_weak w s =
     (let s = (if wp_callback (wp_heap s w) then log_call (WeakCallback w) s else s)
      in upd_weak w (\<lambda>p. p\<lparr>wp_ref := None\<rparr>) s)"

definition ref_dec :: "obj option \<Rightarrow> refs \<Rightarrow> refs option" where
  "ref_dec ptr s =
     (case ptr of
        None \<Rightarrow> Some s
      | Some r \<Rightarrow> do {
          assert_that (rf_magic (rf_heap s r) = REF_MAGIC);
          let count = rf_count (rf_heap s r);
          let s = upd_ref r (\<lambda>x. x\<lparr>rf_count := count - 1\<rparr>) s;
          if count > 1 then Some s
          else do {
            assert_that (count = 1);
            let s = foldl (\<lambda>s w. ref_clear_weak w s) s (rf_weakRefs (rf_heap s r));
            if \<not> rf_callback (rf_heap s r) then Some s
            else Some (log_call (Cleanup r) s)
          }
        })"

definition weak_ptr_set :: "weak \<Rightarrow> obj option \<Rightarrow> bool \<Rightarrow> refs \<Rightarrow> refs option" where
  "weak_ptr_set w ref callback s =
     (case ref of
        None \<Rightarrow> Some (upd_weak w (\<lambda>_. \<lparr>wp_ref = None, wp_callback = False\<rparr>) s)
      | Some r \<Rightarrow> do {
          let s = upd_weak w (\<lambda>p. p\<lparr>wp_ref := Some r\<rparr>) s;
          assert_that (rf_magic (rf_heap s r) = REF_MAGIC);
          let s = upd_weak w (\<lambda>p. p\<lparr>wp_callback := callback\<rparr>) s;
          Some (upd_ref r (\<lambda>x. x\<lparr>rf_weakRefs := rf_weakRefs x @ [w]\<rparr>) s)
        })"

definition weak_ptr_clear :: "weak \<Rightarrow> refs \<Rightarrow> refs" where
  "weak_ptr_clear w s =
     (case wp_ref (wp_heap s w) of
        None \<Rightarrow> s
      | Some r \<Rightarrow>
          (let s = upd_ref r (\<lambda>x. x\<lparr>rf_weakRefs := remove1 w (rf_weakRefs x)\<rparr>) s
           in upd_weak w (\<lambda>_. \<lparr>wp_ref = None, wp_callback = False\<rparr>) s))"

definition weak_ptr_get :: "weak \<Rightarrow> refs \<Rightarrow> (obj option \<times> refs) option" where
  "weak_ptr_get w s =
     (case wp_ref (wp_heap s w) of
        None \<Rightarrow> Some (None, s)
      | Some r \<Rightarrow> do {
          (p, s) \<leftarrow> ref_inc_try (Some r) s;
          if p = None then Some (None, s) else Some (Some r, s)
        })"

section \<open>The invariant\<close>

text \<open>An object is live while its count is positive. Weak pointers name live objects only, and
  an object lists exactly the weak pointers to it.\<close>

abbreviation ref_cnt :: "refs \<Rightarrow> obj \<Rightarrow> nat" where
  "ref_cnt s r \<equiv> unat (rf_count (rf_heap s r))"

abbreviation is_ref :: "refs \<Rightarrow> obj \<Rightarrow> bool" where
  "is_ref s r \<equiv> rf_magic (rf_heap s r) = REF_MAGIC"

definition refs_inv :: "refs \<Rightarrow> bool" where
  "refs_inv s \<longleftrightarrow>
     (\<forall>w r. wp_ref (wp_heap s w) = Some r \<longleftrightarrow>
        0 < ref_cnt s r \<and> w \<in> set (rf_weakRefs (rf_heap s r))) \<and>
     (\<forall>r. 0 < ref_cnt s r \<longrightarrow> is_ref s r \<and> distinct (rf_weakRefs (rf_heap s r)))"

lemma refs_invI:
  assumes "\<And>w r. wp_ref (wp_heap s w) = Some r \<longleftrightarrow>
        0 < ref_cnt s r \<and> w \<in> set (rf_weakRefs (rf_heap s r))"
    and "\<And>r. 0 < ref_cnt s r \<Longrightarrow> is_ref s r \<and> distinct (rf_weakRefs (rf_heap s r))"
  shows "refs_inv s"
  unfolding refs_inv_def using assms by blast

lemma refs_invD:
  assumes "refs_inv s"
  shows "wp_ref (wp_heap s w) = Some r \<longleftrightarrow> 0 < ref_cnt s r \<and> w \<in> set (rf_weakRefs (rf_heap s r))"
    and "0 < ref_cnt s r \<Longrightarrow> is_ref s r" and "0 < ref_cnt s r \<Longrightarrow> distinct (rf_weakRefs (rf_heap s r))"
  using assms by (simp_all add: refs_inv_def)

lemma upd_ref_simps [simp]:
  "rf_heap (upd_ref r f s) = (rf_heap s)(r := f (rf_heap s r))"
  "wp_heap (upd_ref r f s) = wp_heap s" "rf_calls (upd_ref r f s) = rf_calls s"
  by (simp_all add: upd_ref_def)

lemma upd_weak_simps [simp]:
  "rf_heap (upd_weak w f s) = rf_heap s"
  "wp_heap (upd_weak w f s) = (wp_heap s)(w := f (wp_heap s w))"
  "rf_calls (upd_weak w f s) = rf_calls s"
  by (simp_all add: upd_weak_def)

lemma log_call_simps [simp]:
  "rf_heap (log_call c s) = rf_heap s" "wp_heap (log_call c s) = wp_heap s"
  "rf_calls (log_call c s) = rf_calls s @ [c]"
  by (simp_all add: log_call_def)

lemma unat_u32_Suc: "unat x < 2 ^ 32 - 1 \<Longrightarrow> unat (x + 1 :: u32) = Suc (unat x)"
  by (simp add: unat_word_ariths)

lemma unat_u32_pred: "x \<noteq> 0 \<Longrightarrow> unat (x - 1 :: u32) = unat x - 1"
  by (simp add: unat_minus_one)

lemma ref_clear_weaks:
  defines "clear \<equiv> foldl (\<lambda>s w. ref_clear_weak w s)"
  shows "rf_heap (clear s ws) = rf_heap s"
    and "wp_heap (clear s ws) =
           (\<lambda>w. if w \<in> set ws then (wp_heap s w)\<lparr>wp_ref := None\<rparr> else wp_heap s w)"
    and "rf_calls (clear s ws) =
           rf_calls s @ List.map WeakCallback (List.filter (\<lambda>w. wp_callback (wp_heap s w)) ws)"
  unfolding clear_def
proof (induction ws arbitrary: s)
  case (Cons w ws)
  { case 1 then show ?case using Cons(1) by (simp add: ref_clear_weak_def Let_def) }
  { case 2 then show ?case using Cons(2) by (auto simp: ref_clear_weak_def Let_def) }
  { case 3
    have "wp_callback (wp_heap (ref_clear_weak w s) v) = wp_callback (wp_heap s v)" for v
      by (simp add: ref_clear_weak_def Let_def)
    then show ?case using Cons(3) by (simp add: ref_clear_weak_def Let_def) }
qed simp_all

lemma ref_inc_refs_inv:
  assumes inv: "refs_inv s" and c: "ref_cnt s r < 2 ^ 32 - 1" "0 < ref_cnt s r"
  shows "\<exists>s'. ref_inc (Some r) s = Some (Some r, s') \<and> refs_inv s' \<and>
              (\<forall>q. ref_cnt s' q = (if q = r then Suc (ref_cnt s r) else ref_cnt s q)) \<and>
              (\<forall>q. is_ref s' q = is_ref s q)"
proof -
  let ?s = "upd_ref r (\<lambda>x. x\<lparr>rf_count := rf_count x + 1\<rparr>) s"
  have cnt: "ref_cnt ?s q = (if q = r then Suc (ref_cnt s r) else ref_cnt s q)" for q
    using c by (simp add: unat_u32_Suc)
  have fr: "wp_heap ?s = wp_heap s" "rf_weakRefs (rf_heap ?s q) = rf_weakRefs (rf_heap s q)"
      "is_ref ?s q = is_ref s q" for q by simp_all
  have "refs_inv ?s"
    by (rule refs_invI; unfold cnt fr) (use refs_invD [OF inv] c in \<open>auto split: if_splits\<close>)
  moreover have "ref_inc (Some r) s = Some (Some r, ?s)"
    using refs_invD(2) [OF inv c(2)] by (simp add: ref_inc_def)
  ultimately show ?thesis using cnt fr by blast
qed

lemma ref_dec_refs_inv:
  assumes inv: "refs_inv s" and pos: "0 < ref_cnt s r"
  shows "\<exists>s'. ref_dec (Some r) s = Some s' \<and> refs_inv s' \<and>
              (\<forall>q. ref_cnt s' q = (if q = r then ref_cnt s r - 1 else ref_cnt s q)) \<and>
              (\<forall>q. is_ref s' q = is_ref s q)"
proof (cases "ref_cnt s r = 1")
  case True
  let ?s1 = "upd_ref r (\<lambda>x. x\<lparr>rf_count := 0\<rparr>) s" and ?ws = "rf_weakRefs (rf_heap s r)"
  let ?s2 = "foldl (\<lambda>s w. ref_clear_weak w s) ?s1 ?ws"
  let ?s3 = "if rf_callback (rf_heap s r) then log_call (Cleanup r) ?s2 else ?s2"
  have one: "rf_count (rf_heap s r) = 1" using True by (simp add: word_unat_eq_iff)
  have dec: "ref_dec (Some r) s = Some ?s3"
    using refs_invD(2) [OF inv pos] one by (simp add: ref_dec_def Let_def ref_clear_weaks)
  have h: "rf_heap ?s3 = (rf_heap s)(r := (rf_heap s r)\<lparr>rf_count := 0\<rparr>)"
      "wp_heap ?s3 = (\<lambda>w. if w \<in> set ?ws then (wp_heap s w)\<lparr>wp_ref := None\<rparr> else wp_heap s w)"
    unfolding if_distrib [of rf_heap] if_distrib [of wp_heap] log_call_simps ref_clear_weaks
      upd_ref_simps by simp_all
  have cnt: "ref_cnt ?s3 q = (if q = r then 0 else ref_cnt s q)" for q by (simp add: h)
  have fr: "rf_weakRefs (rf_heap ?s3 q) = rf_weakRefs (rf_heap s q)" "is_ref ?s3 q = is_ref s q" for q
    by (simp_all add: h)
  have wp: "wp_ref (wp_heap ?s3 w) = (if w \<in> set ?ws then None else wp_ref (wp_heap s w))" for w
    by (simp add: h)
  have only: "wp_ref (wp_heap s w) = Some r" if "w \<in> set ?ws" for w
    using refs_invD(1) [OF inv] pos that by simp
  have "refs_inv ?s3"
  proof (rule refs_invI)
    fix w q
    show "wp_ref (wp_heap ?s3 w) = Some q \<longleftrightarrow>
        0 < ref_cnt ?s3 q \<and> w \<in> set (rf_weakRefs (rf_heap ?s3 q))"
      unfolding wp cnt fr using only [of w] refs_invD(1) [OF inv, of w q] by auto
  next
    fix q
    assume "0 < ref_cnt ?s3 q"
    then have "0 < ref_cnt s q" unfolding cnt by (simp split: if_splits)
    then show "is_ref ?s3 q \<and> distinct (rf_weakRefs (rf_heap ?s3 q))"
      unfolding fr using refs_invD(2,3) [OF inv] by blast
  qed
  with dec cnt fr True show ?thesis by auto
next
  case False
  let ?c = "rf_count (rf_heap s r)"
  let ?s = "upd_ref r (\<lambda>x. x\<lparr>rf_count := ?c - 1\<rparr>) s"
  have c: "?c \<noteq> 0" "1 < ?c" using False pos by (auto simp: word_less_nat_alt)
  have dec: "ref_dec (Some r) s = Some ?s"
    using c refs_invD(2) [OF inv pos] by (simp add: ref_dec_def)
  have cnt: "ref_cnt ?s q = (if q = r then ref_cnt s r - 1 else ref_cnt s q)" for q
    using unat_u32_pred [OF c(1)] by simp
  have fr: "wp_heap ?s = wp_heap s" "rf_weakRefs (rf_heap ?s q) = rf_weakRefs (rf_heap s q)"
      "is_ref ?s q = is_ref s q" for q by simp_all
  have "0 < ref_cnt s r - 1" using False pos by simp
  then have "refs_inv ?s"
    by (intro refs_invI; unfold cnt fr) (use refs_invD [OF inv] pos in \<open>auto split: if_splits\<close>)
  with dec cnt fr show ?thesis by blast
qed

lemma ref_dec_double_free:
  "is_ref s r \<Longrightarrow> ref_cnt s r = 0 \<Longrightarrow> ref_dec (Some r) s = None"
  by (simp add: ref_dec_def unat_eq_0)

text \<open>A weak pointer yields a live object, with one more reference, or nothing.\<close>

lemma weak_ptr_get_cases:
  assumes inv: "refs_inv s"
  shows "weak_ptr_get w s =
           (case wp_ref (wp_heap s w) of
              None \<Rightarrow> Some (None, s)
            | Some r \<Rightarrow> ref_inc (Some r) s)"
    and "wp_ref (wp_heap s w) = Some r \<Longrightarrow> 0 < ref_cnt s r"
proof -
  show live: "wp_ref (wp_heap s w) = Some r \<Longrightarrow> 0 < ref_cnt s r" for r
    using refs_invD(1) [OF inv] by blast
  show "weak_ptr_get w s =
           (case wp_ref (wp_heap s w) of
              None \<Rightarrow> Some (None, s)
            | Some r \<Rightarrow> ref_inc (Some r) s)"
    using live refs_invD(2) [OF inv]
    by (auto simp: weak_ptr_get_def ref_inc_try_def ref_inc_def upd_ref_def Let_def split: option.split)
qed

lemma weak_ptr_set_inv:
  assumes inv: "refs_inv s" and w: "wp_ref (wp_heap s w) = None" and pos: "0 < ref_cnt s r"
  shows "\<exists>s'. weak_ptr_set w (Some r) cb s = Some s' \<and> refs_inv s' \<and>
              wp_ref (wp_heap s' w) = Some r \<and> (\<forall>q. ref_cnt s' q = ref_cnt s q)"
proof -
  let ?s = "upd_ref r (\<lambda>x. x\<lparr>rf_weakRefs := rf_weakRefs x @ [w]\<rparr>)
    (upd_weak w (\<lambda>p. p\<lparr>wp_callback := cb\<rparr>) (upd_weak w (\<lambda>p. p\<lparr>wp_ref := Some r\<rparr>) s))"
  have set_: "weak_ptr_set w (Some r) cb s = Some ?s"
    using refs_invD(2) [OF inv pos] by (simp add: weak_ptr_set_def)
  have fr: "ref_cnt ?s q = ref_cnt s q" "is_ref ?s q = is_ref s q"
      "rf_weakRefs (rf_heap ?s q) = rf_weakRefs (rf_heap s q) @ (if q = r then [w] else [])"
      "wp_ref (wp_heap ?s v) = (if v = w then Some r else wp_ref (wp_heap s v))" for q v by simp_all
  have new: "w \<notin> set (rf_weakRefs (rf_heap s q))" if "0 < ref_cnt s q" for q
    using refs_invD(1) [OF inv, of w q] w that by simp
  have "refs_inv ?s"
  proof (rule refs_invI)
    fix v q
    show "wp_ref (wp_heap ?s v) = Some q \<longleftrightarrow> 0 < ref_cnt ?s q \<and> v \<in> set (rf_weakRefs (rf_heap ?s q))"
      unfolding fr using refs_invD(1) [OF inv, of v q] new [of q] pos by (cases "v = w") auto
  next
    fix q
    assume "0 < ref_cnt ?s q"
    then show "is_ref ?s q \<and> distinct (rf_weakRefs (rf_heap ?s q))"
      unfolding fr using refs_invD(2,3) [OF inv, of q] new [of q] by (cases "q = r") simp_all
  qed
  with set_ fr show ?thesis by auto
qed

lemma weak_ptr_clear_inv:
  assumes inv: "refs_inv s"
  shows "refs_inv (weak_ptr_clear w s) \<and> wp_ref (wp_heap (weak_ptr_clear w s) w) = None \<and>
         (\<forall>q. ref_cnt (weak_ptr_clear w s) q = ref_cnt s q)"
proof (cases "wp_ref (wp_heap s w)")
  case (Some r)
  let ?s = "weak_ptr_clear w s"
  have fr: "ref_cnt ?s q = ref_cnt s q" "is_ref ?s q = is_ref s q"
      "rf_weakRefs (rf_heap ?s q) =
         (if q = r then remove1 w (rf_weakRefs (rf_heap s r)) else rf_weakRefs (rf_heap s q))"
      "wp_ref (wp_heap ?s v) = (if v = w then None else wp_ref (wp_heap s v))" for q v
    using Some by (simp_all add: weak_ptr_clear_def Let_def)
  have pos: "0 < ref_cnt s r" using refs_invD(1) [OF inv] Some by blast
  have other: "w \<notin> set (rf_weakRefs (rf_heap s q))" if "0 < ref_cnt s q" "q \<noteq> r" for q
    using refs_invD(1) [OF inv, of w q] Some that by simp
  have "refs_inv ?s"
  proof (rule refs_invI)
    fix v q
    show "wp_ref (wp_heap ?s v) = Some q \<longleftrightarrow> 0 < ref_cnt ?s q \<and> v \<in> set (rf_weakRefs (rf_heap ?s q))"
      unfolding fr using refs_invD(1) [OF inv, of v q] refs_invD(3) [OF inv pos] other [of q]
      by (cases "v = w"; cases "q = r") auto
  next
    fix q
    assume "0 < ref_cnt ?s q"
    then show "is_ref ?s q \<and> distinct (rf_weakRefs (rf_heap ?s q))"
      unfolding fr using refs_invD(2,3) [OF inv, of q] by (auto intro: distinct_remove1)
  qed
  with fr show ?thesis by simp
qed (simp add: weak_ptr_clear_def inv)

section \<open>Properties\<close>

text \<open>C7. Dropping a reference. Without one the call panics. An earlier reference only lowers the count of the object: nothing
  else changes and no callback runs. Dropping the last one calls the callbacks of its weak pointers and then its own cleanup,
  exactly once; afterwards no weak pointer yields the object any more, dropping it again panics, and no other count has
  changed.\<close>

theorem ref_dec_last_reference:
  assumes "refs_inv s"
  shows "if ref_cnt s r = 0 then ref_dec (Some r) s = None
         else if ref_cnt s r > 1 then
           ref_dec (Some r) s = Some (upd_ref r (\<lambda>x. x\<lparr>rf_count := rf_count x - 1\<rparr>) s) \<and>
           refs_inv (upd_ref r (\<lambda>x. x\<lparr>rf_count := rf_count x - 1\<rparr>) s)
         else \<exists>s'. ref_dec (Some r) s = Some s' \<and> refs_inv s' \<and>
           rf_calls s' = rf_calls s @
             List.map WeakCallback (List.filter (\<lambda>w. wp_callback (wp_heap s w)) (rf_weakRefs (rf_heap s r))) @
             (if rf_callback (rf_heap s r) then [Cleanup r] else []) \<and>
           (\<forall>w. wp_ref (wp_heap s' w) \<noteq> Some r) \<and>
           (\<forall>w s''. weak_ptr_get w s' \<noteq> Some (Some r, s'')) \<and>
           ref_dec (Some r) s' = None \<and> (\<forall>q. q \<noteq> r \<longrightarrow> ref_cnt s' q = ref_cnt s q)"
proof -
  consider (none) "ref_cnt s r = 0" | (more) "ref_cnt s r > 1" | (one) "ref_cnt s r = 1" by linarith
  then show ?thesis
  proof cases
    case none
    have "rf_count (rf_heap s r) = 0" using none by (simp add: unat_eq_0)
    then show ?thesis using none by (simp add: ref_dec_def assert_that_def Let_def)
  next
    case more
    have magic: "is_ref s r" using refs_invD(2) [OF assms, of r] more by simp
    have gt: "rf_count (rf_heap s r) > 1" using more by (simp add: word_less_nat_alt)
    have call: "ref_dec (Some r) s = Some (upd_ref r (\<lambda>x. x\<lparr>rf_count := rf_count x - 1\<rparr>) s)"
      using magic gt by (simp add: ref_dec_def upd_ref_def)
    moreover have "refs_inv (upd_ref r (\<lambda>x. x\<lparr>rf_count := rf_count x - 1\<rparr>) s)"
      using ref_dec_refs_inv [OF assms, of r] more call by auto
    ultimately show ?thesis using more by simp
  next
    case last: one
    from ref_dec_refs_inv [OF assms, of r] last obtain s' where
      s': "ref_dec (Some r) s = Some s'" "refs_inv s'"
        "\<forall>q. ref_cnt s' q = (if q = r then ref_cnt s r - 1 else ref_cnt s q)"
        "\<forall>q. is_ref s' q = is_ref s q" by auto
    have one: "rf_count (rf_heap s r) = 1" using last by (simp add: word_unat_eq_iff)
    have magic: "is_ref s r" using refs_invD(2) [OF assms, of r] last by simp
    have zero: "ref_cnt s' r = 0" using s'(3) last by simp
    then have gone: "\<forall>w. wp_ref (wp_heap s' w) \<noteq> Some r" using refs_invD(1) [OF s'(2)] by auto
    have "weak_ptr_get w s' \<noteq> Some (Some r, s'')" for w s''
      using gone weak_ptr_get_cases(1) [OF s'(2), of w]
      by (auto simp: ref_inc_def bind_eq_Some_conv split: option.split)
    moreover have "rf_calls s' = rf_calls s @
               List.map WeakCallback (List.filter (\<lambda>w. wp_callback (wp_heap s w)) (rf_weakRefs (rf_heap s r))) @
               (if rf_callback (rf_heap s r) then [Cleanup r] else [])"
      using s'(1) magic one by (auto simp: ref_dec_def Let_def ref_clear_weaks split: if_splits)
    moreover have "ref_dec (Some r) s' = None" using ref_dec_double_free zero s'(4) magic by blast
    ultimately show ?thesis using s' gone last by auto
  qed
qed

definition sample_refs :: refs where
  "sample_refs =
     \<lparr>rf_heap = (\<lambda>r. if r = 0
        then \<lparr>rf_magic = REF_MAGIC, rf_count = 1, rf_callback = True, rf_weakRefs = [7, 8]\<rparr>
        else \<lparr>rf_magic = REF_MAGIC, rf_count = 0, rf_callback = True, rf_weakRefs = []\<rparr>),
      wp_heap = (\<lambda>w. \<lparr>wp_ref = (if w = 7 \<or> w = 8 then Some 0 else None), wp_callback = (w = 8)\<rparr>),
      rf_calls = []\<rparr>"

theorem ref_dec_last_reference_witness:
  "ref_dec (Some 1) sample_refs = None \<and> (\<exists>s'. ref_dec (Some 0) sample_refs = Some s' \<and> rf_calls s' = [WeakCallback 8, Cleanup 0] \<and>
        ref_dec (Some 0) s' = None)"
proof -
  have inv: "refs_inv sample_refs" by (rule refs_invI) (auto simp: sample_refs_def split: if_splits)
  have cnt: "ref_cnt sample_refs 0 = 1" "ref_cnt sample_refs 1 = 0" by (simp_all add: sample_refs_def)
  have "\<exists>s'. ref_dec (Some 0) sample_refs = Some s' \<and>
      rf_calls s' = rf_calls sample_refs @
        List.map WeakCallback (List.filter (\<lambda>w. wp_callback (wp_heap sample_refs w))
          (rf_weakRefs (rf_heap sample_refs 0))) @
        (if rf_callback (rf_heap sample_refs 0) then [Cleanup 0] else []) \<and>
      ref_dec (Some 0) s' = None"
    using ref_dec_last_reference [OF inv, of 0] cnt(1) by auto
  moreover have "ref_dec (Some 1) sample_refs = None" using ref_dec_last_reference [OF inv, of 1] cnt(2) by simp
  ultimately show ?thesis by (simp add: sample_refs_def)
qed

end
