(* ===== verification/File_Table.thy ===== *)
theory File_Table
  imports Bitmap Refs
begin

text \<open>
  The file descriptor table of a process, \<^verbatim>\<open>src/kernel/fs/file_table.c\<close>: an array of
  references to open files and a bitmap of the used descriptors. A table pointer is an option,
  \<^const>\<open>None\<close> for \<^verbatim>\<open>NULL\<close>; an open file is a reference counted object. Every
  function holds the table's lock for its whole body, so calls are atomic.
\<close>

section \<open>Slots and their index\<close>

text \<open>What the table needs from the bitmap: a search for the lowest unused slot, and a mark per
  slot.\<close>

locale slot_index =
  fixes wf :: "'b \<Rightarrow> bool" and used :: "'b \<Rightarrow> nat \<Rightarrow> bool" and find_unused :: "'b \<Rightarrow> u64"
    and mark :: "'b \<Rightarrow> u64 \<Rightarrow> 'b" and unmark :: "'b \<Rightarrow> u64 \<Rightarrow> 'b" and n :: nat
  assumes find_law: "wf b \<Longrightarrow> unat (find_unused b) \<le> n \<and> (\<forall>j < unat (find_unused b). used b j) \<and>
      (unat (find_unused b) < n \<longrightarrow> \<not> used b (unat (find_unused b)))"
    and mark_law: "wf b \<Longrightarrow> unat i < n \<Longrightarrow>
      wf (mark b i) \<and> (\<forall>j < n. used (mark b i) j \<longleftrightarrow> j = unat i \<or> used b j)"
    and unmark_law: "wf b \<Longrightarrow> unat i < n \<Longrightarrow>
      wf (unmark b i) \<and> (\<forall>j < n. used (unmark b i) j \<longleftrightarrow> j \<noteq> unat i \<and> used b j)"
begin

definition coherent :: "'b \<Rightarrow> 'a option list \<Rightarrow> bool" where
  "coherent b xs \<longleftrightarrow> wf b \<and> length xs = n \<and> (\<forall>i < n. used b i \<longleftrightarrow> xs ! i \<noteq> None)"

lemma coherent_put:
  "coherent b xs \<Longrightarrow> unat i < n \<Longrightarrow> coherent (mark b i) (xs[unat i := Some x])"
  using mark_law [of b i] by (auto simp: coherent_def nth_list_update)

lemma coherent_remove:
  "coherent b xs \<Longrightarrow> unat i < n \<Longrightarrow> coherent (unmark b i) (xs[unat i := None])"
  using unmark_law [of b i] by (auto simp: coherent_def nth_list_update)

lemma lowest_free:
  assumes "coherent b xs"
  shows "(\<exists>i < n. xs ! i = None) \<longleftrightarrow> unat (find_unused b) < n"
    and "unat (find_unused b) < n \<Longrightarrow> xs ! unat (find_unused b) = None"
    and "j < unat (find_unused b) \<Longrightarrow> xs ! j \<noteq> None"
proof -
  have law: "unat (find_unused b) \<le> n" "\<forall>j < unat (find_unused b). used b j"
      "unat (find_unused b) < n \<Longrightarrow> \<not> used b (unat (find_unused b))"
    using assms find_law [of b] by (auto simp: coherent_def)
  have used: "used b i \<longleftrightarrow> xs ! i \<noteq> None" if "i < n" for i using assms that by (simp add: coherent_def)
  show low: "j < unat (find_unused b) \<Longrightarrow> xs ! j \<noteq> None" for j using law used [of j] by simp
  show free: "unat (find_unused b) < n \<Longrightarrow> xs ! unat (find_unused b) = None"
    using law(3) used by blast
  show "(\<exists>i < n. xs ! i = None) \<longleftrightarrow> unat (find_unused b) < n"
    using low free law(1) by (meson le_less_trans linorder_not_le)
qed

end

section \<open>The table\<close>

definition CONFIG_MAX_FD :: u64 where
  "CONFIG_MAX_FD = 64"

record file_table =
  ft_files :: "obj option list"
  ft_bitmap :: bitmap

abbreviation max_fd :: nat where
  "max_fd \<equiv> unat CONFIG_MAX_FD"

definition file_table_init :: "file_table \<Rightarrow> file_table" where
  "file_table_init table =
     table\<lparr>ft_files := foldl (\<lambda>fs i. fs[i := None]) (ft_files table) [0..<max_fd],
           ft_bitmap := BITMAP_DEFINE_INIT CONFIG_MAX_FD\<rparr>"

text \<open>\<^verbatim>\<open>UNREF(table->files[i]); table->files[i] = NULL\<close> where the slot is used, and
  \<^verbatim>\<open>table->files[i] = REF(file); bitmap_set(&table->bitmap, i)\<close>.\<close>

definition drop_file :: "nat \<Rightarrow> file_table \<times> refs \<Rightarrow> (file_table \<times> refs) option" where
  "drop_file i = (\<lambda>(t, s).
     if ft_files t ! i \<noteq> None
     then do { s \<leftarrow> ref_dec (ft_files t ! i) s; Some (t\<lparr>ft_files := (ft_files t)[i := None]\<rparr>, s) }
     else Some (t, s))"

definition put_file :: "u64 \<Rightarrow> obj \<Rightarrow> file_table \<times> refs \<Rightarrow> (file_table \<times> refs) option" where
  "put_file i file = (\<lambda>(t, s). do {
     (_, s) \<leftarrow> ref_inc (Some file) s;
     Some (t\<lparr>ft_files := (ft_files t)[unat i := Some file], ft_bitmap := bitmap_set (ft_bitmap t) i\<rparr>, s)
   })"

text \<open>The body of the closing loops: a used slot is emptied and its bit cleared.\<close>

definition close_slot :: "nat \<Rightarrow> file_table \<times> refs \<Rightarrow> (file_table \<times> refs) option" where
  "close_slot i = (\<lambda>(t, s).
     if ft_files t ! i \<noteq> None
     then do {
       s \<leftarrow> ref_dec (ft_files t ! i) s;
       Some (t\<lparr>ft_files := (ft_files t)[i := None],
              ft_bitmap := bitmap_clear (ft_bitmap t) (of_nat i)\<rparr>, s)
     }
     else Some (t, s))"

definition file_table_deinit :: "file_table \<Rightarrow> refs \<Rightarrow> (file_table \<times> refs) option" where
  "file_table_deinit table s = for_each drop_file [0..<max_fd] (table, s)"

definition file_table_get :: "file_table option \<Rightarrow> u64 \<Rightarrow> refs \<Rightarrow> (obj result \<times> refs) option" where
  "file_table_get table fd s =
     (case table of
        None \<Rightarrow> Some (Inl EINVAL, s)
      | Some t \<Rightarrow>
          if fd \<ge> CONFIG_MAX_FD then Some (Inl EBADF, s)
          else (case ft_files t ! unat fd of
                  None \<Rightarrow> Some (Inl EBADF, s)
                | Some file \<Rightarrow> do { (_, s) \<leftarrow> ref_inc (Some file) s; Some (Inr file, s) }))"

type_synonym 'a table_op = "refs \<Rightarrow> ('a result \<times> file_table option \<times> refs) option"

text \<open>The common end of \<^verbatim>\<open>file_table_open\<close> and \<^verbatim>\<open>file_table_dup\<close>: the lowest free
  descriptor takes the file.\<close>

definition take_lowest :: "file_table \<Rightarrow> obj \<Rightarrow> u64 table_op" where
  "take_lowest t file s =
     (let index = bitmap_find_first_clear (ft_bitmap t) 0 CONFIG_MAX_FD
      in if index \<ge> CONFIG_MAX_FD then Some (Inl EMFILE, Some t, s)
         else do { (t, s) \<leftarrow> put_file index file (t, s); Some (Inr index, Some t, s) })"

definition file_table_open :: "file_table option \<Rightarrow> obj option \<Rightarrow> u64 table_op" where
  "file_table_open table file s =
     (case (table, file) of
        (Some t, Some f) \<Rightarrow> take_lowest t f s
      | _ \<Rightarrow> Some (Inl EINVAL, table, s))"

definition file_table_close :: "file_table option \<Rightarrow> u64 \<Rightarrow> unit table_op" where
  "file_table_close table fd s =
     (case table of
        None \<Rightarrow> Some (Inl EINVAL, None, s)
      | Some t \<Rightarrow>
          if fd \<ge> CONFIG_MAX_FD \<or> ft_files t ! unat fd = None then Some (Inl EBADF, Some t, s)
          else do {
            s \<leftarrow> ref_dec (ft_files t ! unat fd) s;
            Some (Inr (), Some (t\<lparr>ft_files := (ft_files t)[unat fd := None],
                                  ft_bitmap := bitmap_clear (ft_bitmap t) fd\<rparr>), s)
          })"

definition file_table_close_all :: "file_table option \<Rightarrow> refs \<Rightarrow> (file_table option \<times> refs) option" where
  "file_table_close_all table s =
     (case table of
        None \<Rightarrow> Some (None, s)
      | Some t \<Rightarrow> do { (t, s) \<leftarrow> for_each close_slot [0..<max_fd] (t, s); Some (Some t, s) })"

text \<open>\<open>mode_of\<close> gives the mode field of an open file.\<close>

definition file_table_close_mode ::
  "(obj \<Rightarrow> u32) \<Rightarrow> file_table option \<Rightarrow> u32 \<Rightarrow> refs \<Rightarrow> (file_table option \<times> refs) option" where
  "file_table_close_mode mode_of table mode s =
     (case table of
        None \<Rightarrow> Some (None, s)
      | Some t \<Rightarrow> do {
          (t, s) \<leftarrow> for_each (\<lambda>i (t, s).
                     (case ft_files t ! i of
                        Some f \<Rightarrow> if mode_of f AND mode \<noteq> 0 then close_slot i (t, s) else Some (t, s)
                      | None \<Rightarrow> Some (t, s))) [0..<max_fd] (t, s);
          Some (Some t, s)
        })"

definition file_table_close_range :: "file_table option \<Rightarrow> u64 \<Rightarrow> u64 \<Rightarrow> unit table_op" where
  "file_table_close_range table mn mx s =
     (case table of
        None \<Rightarrow> Some (Inl EINVAL, None, s)
      | Some t \<Rightarrow> do {
          (t, s) \<leftarrow> for_each close_slot [unat mn..<min (unat mx) max_fd] (t, s);
          Some (Inr (), Some t, s)
        })"

definition file_table_set :: "file_table option \<Rightarrow> u64 \<Rightarrow> obj option \<Rightarrow> u64 table_op" where
  "file_table_set table fd file s =
     (case (table, file) of
        (Some t, Some f) \<Rightarrow>
          if fd \<ge> CONFIG_MAX_FD then Some (Inl EBADF, table, s)
          else do {
            (t, s) \<leftarrow> drop_file (unat fd) (t, s);
            (t, s) \<leftarrow> put_file fd f (t, s);
            Some (Inr fd, Some t, s)
          }
      | _ \<Rightarrow> Some (Inl EINVAL, table, s))"

definition file_table_dup :: "file_table option \<Rightarrow> u64 \<Rightarrow> u64 table_op" where
  "file_table_dup table oldFd s =
     (case table of
        None \<Rightarrow> Some (Inl EINVAL, None, s)
      | Some t \<Rightarrow>
          if oldFd \<ge> CONFIG_MAX_FD then Some (Inl EBADF, Some t, s)
          else (case ft_files t ! unat oldFd of
                  None \<Rightarrow> Some (Inl EBADF, Some t, s)
                | Some f \<Rightarrow> take_lowest t f s))"

definition file_table_dup2 :: "file_table option \<Rightarrow> u64 \<Rightarrow> u64 \<Rightarrow> u64 table_op" where
  "file_table_dup2 table oldFd newFd s =
     (case table of
        None \<Rightarrow> Some (Inl EINVAL, None, s)
      | Some t \<Rightarrow>
          if oldFd \<ge> CONFIG_MAX_FD \<or> newFd \<ge> CONFIG_MAX_FD then Some (Inl EBADF, Some t, s)
          else (case ft_files t ! unat oldFd of
                  None \<Rightarrow> Some (Inl EBADF, Some t, s)
                | Some f \<Rightarrow>
                    if oldFd = newFd then Some (Inr newFd, Some t, s)
                    else do {
                      (t, s) \<leftarrow> drop_file (unat newFd) (t, s);
                      (t, s) \<leftarrow> put_file newFd f (t, s);
                      Some (Inr newFd, Some t, s)
                    }))"

definition file_table_copy :: "file_table option \<Rightarrow> file_table option \<Rightarrow> u64 \<Rightarrow> u64 \<Rightarrow> u64 table_op" where
  "file_table_copy dest src mn mx s =
     (case (dest, src) of
        (Some d, Some t) \<Rightarrow> do {
          (d, s) \<leftarrow> for_each (\<lambda>i ds.
                     (case ft_files t ! i of
                        None \<Rightarrow> Some ds
                      | Some f \<Rightarrow> drop_file i ds \<bind> put_file (of_nat i) f))
                   [unat mn..<min (unat mx) max_fd] (d, s);
          Some (Inr 0, Some d, s)
        }
      | _ \<Rightarrow> Some (Inl EINVAL, dest, s))"

section \<open>The bitmap as index of the table\<close>

definition fd_wf :: "bitmap \<Rightarrow> bool" where
  "fd_wf bm \<longleftrightarrow> bitmap_wf bm \<and> bm_length bm = CONFIG_MAX_FD"

lemma max_fd_val [simp]: "max_fd = 64"
  by (simp add: CONFIG_MAX_FD_def)

interpretation fd_index: slot_index fd_wf bit_at
  "\<lambda>bm. bitmap_find_first_clear bm 0 CONFIG_MAX_FD" bitmap_set bitmap_clear max_fd
proof
  fix b :: bitmap and i :: u64
  assume wf: "fd_wf b"
  then have w: "bitmap_wf b" "bm_length b = CONFIG_MAX_FD" by (simp_all add: fd_wf_def)
  let ?i = "bitmap_find_first_clear b 0 CONFIG_MAX_FD"
  show "unat ?i \<le> max_fd \<and> (\<forall>j < unat ?i. bit_at b j) \<and> (unat ?i < max_fd \<longrightarrow> \<not> bit_at b (unat ?i))"
    using find_first_clear_spec [OF w(1), of CONFIG_MAX_FD 0] w(2) by fastforce
  assume i: "unat i < max_fd"
  show "fd_wf (bitmap_set b i) \<and> (\<forall>j < max_fd. bit_at (bitmap_set b i) j \<longleftrightarrow> j = unat i \<or> bit_at b j)"
    using w i by (auto simp: fd_wf_def bit_at_bitmap_set)
  show "fd_wf (bitmap_clear b i) \<and> (\<forall>j < max_fd. bit_at (bitmap_clear b i) j \<longleftrightarrow> j \<noteq> unat i \<and> bit_at b j)"
    using w i by (auto simp: fd_wf_def bit_at_bitmap_clear)
qed

definition ft_ok :: "file_table \<Rightarrow> bool" where
  "ft_ok t \<longleftrightarrow> fd_index.coherent (ft_bitmap t) (ft_files t)"

lemma ft_ok_length: "ft_ok t \<Longrightarrow> length (ft_files t) = 64"
  unfolding ft_ok_def fd_index.coherent_def by simp

lemma ft_ok_put:
  "ft_ok t \<Longrightarrow> unat i < 64 \<Longrightarrow>
     ft_ok (t\<lparr>ft_files := (ft_files t)[unat i := Some f], ft_bitmap := bitmap_set (ft_bitmap t) i\<rparr>)"
  unfolding ft_ok_def using fd_index.coherent_put [of "ft_bitmap t" "ft_files t" i f] by simp

lemma ft_ok_remove:
  "ft_ok t \<Longrightarrow> unat i < 64 \<Longrightarrow>
     ft_ok (t\<lparr>ft_files := (ft_files t)[unat i := None], ft_bitmap := bitmap_clear (ft_bitmap t) i\<rparr>)"
  unfolding ft_ok_def using fd_index.coherent_remove [of "ft_bitmap t" "ft_files t" i] by simp

section \<open>References held by a table\<close>

definition held :: "file_table \<Rightarrow> obj \<Rightarrow> nat" where
  "held t r = count_list (ft_files t) (Some r)"

text \<open>Every change of a slot is matched by a change of the count of the file.\<close>

definition balanced :: "file_table \<Rightarrow> refs \<Rightarrow> file_table \<Rightarrow> refs \<Rightarrow> bool" where
  "balanced t s t' s' \<longleftrightarrow> (\<forall>r. ref_cnt s' r + held t r = ref_cnt s r + held t' r)"

text \<open>\<open>ft_inv t s\<close>: bitmap and slots agree, and the table's references are counted.\<close>

definition ft_inv :: "file_table \<Rightarrow> refs \<Rightarrow> bool" where
  "ft_inv t s \<longleftrightarrow> ft_ok t \<and> refs_inv s \<and> (\<forall>r. held t r \<le> ref_cnt s r)"

lemma balanced_refl [simp]: "balanced t s t s"
  by (simp add: balanced_def)

lemma balanced_trans:
  assumes "balanced t s t' s'" and "balanced t' s' t'' s''"
  shows "balanced t s t'' s''"
  unfolding balanced_def
proof
  fix r
  have "ref_cnt s' r + held t r = ref_cnt s r + held t' r"
    "ref_cnt s'' r + held t' r = ref_cnt s' r + held t'' r"
    using assms by (simp_all add: balanced_def)
  then show "ref_cnt s'' r + held t r = ref_cnt s r + held t'' r" by linarith
qed

lemma balanced_covers:
  assumes "balanced t s t' s'" and "held t r + k \<le> ref_cnt s r"
  shows "held t' r + k \<le> ref_cnt s' r"
proof -
  have "ref_cnt s' r + held t r = ref_cnt s r + held t' r" using assms(1) by (simp add: balanced_def)
  with assms(2) show ?thesis by linarith
qed

lemma count_list_update:
  assumes "i < length xs"
  shows "count_list (xs[i := y]) x + (if xs ! i = x then 1 else 0) =
         count_list xs x + (if y = x then 1 else 0)"
  using assms
proof (induction xs arbitrary: i)
  case (Cons z zs)
  then show ?case by (cases i) fastforce+
qed simp

lemma held_pos: "i < length (ft_files t) \<Longrightarrow> ft_files t ! i = Some r \<Longrightarrow> 0 < held t r"
  by (metis held_def count_list_0_iff gr0I nth_mem)

lemma held_files: "held (t\<lparr>ft_bitmap := b\<rparr>) r = held t r"
  by (simp add: held_def)

lemma drop_file_correct:
  assumes len: "length (ft_files t) = 64" and i: "i < 64"
    and inv: "refs_inv s" "\<forall>r. held t r \<le> ref_cnt s r"
  shows "\<exists>s'. drop_file i (t, s) = Some (t\<lparr>ft_files := (ft_files t)[i := None]\<rparr>, s') \<and> refs_inv s' \<and>
              balanced t s (t\<lparr>ft_files := (ft_files t)[i := None]\<rparr>) s' \<and>
              (\<forall>r. ref_cnt s' r \<le> ref_cnt s r)"
proof (cases "ft_files t ! i")
  case None
  then have "(ft_files t)[i := None] = ft_files t" by (metis list_update_id)
  then show ?thesis using None inv(1) by (simp add: drop_file_def)
next
  case (Some f)
  then have "0 < held t f" using held_pos len i by simp
  then have pos: "0 < ref_cnt s f" using inv(2) by (metis less_le_trans)
  from ref_dec_refs_inv [OF inv(1) this] obtain s' where
    s': "ref_dec (Some f) s = Some s'" "refs_inv s'"
      "\<forall>q. ref_cnt s' q = (if q = f then ref_cnt s f - 1 else ref_cnt s q)" by blast
  let ?t = "t\<lparr>ft_files := (ft_files t)[i := None]\<rparr>"
  have "held t r = held ?t r + (if r = f then 1 else 0)" for r
    using count_list_update [of i "ft_files t" None "Some r"] Some i len by (auto simp: held_def)
  then have "balanced t s ?t s'" using s'(3) pos by (auto simp: balanced_def)
  moreover have "drop_file i (t, s) = Some (?t, s')" using Some s'(1) by (simp add: drop_file_def)
  ultimately show ?thesis using s' by auto
qed

lemma put_file_correct:
  assumes len: "length (ft_files t) = 64" and i: "unat i < 64" "ft_files t ! unat i = None"
    and inv: "refs_inv s" and f: "0 < ref_cnt s f" "ref_cnt s f < 2 ^ 32 - 1"
  defines "t' \<equiv> t\<lparr>ft_files := (ft_files t)[unat i := Some f], ft_bitmap := bitmap_set (ft_bitmap t) i\<rparr>"
  shows "\<exists>s'. put_file i f (t, s) = Some (t', s') \<and> refs_inv s' \<and> balanced t s t' s' \<and>
              (\<forall>r. ref_cnt s' r \<le> Suc (ref_cnt s r))"
proof -
  from ref_inc_refs_inv [OF inv f(2,1)] obtain s' where
    s': "ref_inc (Some f) s = Some (Some f, s')" "refs_inv s'"
      "\<forall>q. ref_cnt s' q = (if q = f then Suc (ref_cnt s f) else ref_cnt s q)" by blast
  have "held t' r = held t r + (if r = f then 1 else 0)" for r
    using count_list_update [of "unat i" "ft_files t" "Some f" "Some r"] i len
    by (auto simp: held_def t'_def)
  then have "balanced t s t' s'" using s'(3) by (auto simp: balanced_def)
  moreover have "put_file i f (t, s) = Some (t', s')" using s'(1) by (simp add: put_file_def t'_def)
  ultimately show ?thesis using s' by auto
qed

text \<open>Emptying a slot and clearing its bit keeps the invariant.\<close>

lemma ft_inv_covers: "ft_inv t s \<Longrightarrow> balanced t s t' s' \<Longrightarrow> held t' r \<le> ref_cnt s' r"
  using balanced_covers [of t s t' s' r 0] by (simp add: ft_inv_def)

lemma close_slot_correct:
  assumes inv: "ft_inv t s" and i: "i < 64"
  shows "\<exists>t' s'. close_slot i (t, s) = Some (t', s') \<and> ft_files t' = (ft_files t)[i := None] \<and>
                 ft_inv t' s' \<and> balanced t s t' s'"
proof (cases "ft_files t ! i")
  case None
  then have "(ft_files t)[i := None] = ft_files t" by (metis list_update_id)
  then show ?thesis using None inv by (simp add: close_slot_def)
next
  case (Some f)
  have ok: "ft_ok t" "refs_inv s" "\<forall>r. held t r \<le> ref_cnt s r" using inv by (simp_all add: ft_inv_def)
  let ?t = "t\<lparr>ft_files := (ft_files t)[i := None]\<rparr>"
  let ?t' = "?t\<lparr>ft_bitmap := bitmap_clear (ft_bitmap t) (of_nat i)\<rparr>"
  from drop_file_correct [OF ft_ok_length [OF ok(1)] i ok(2,3)] obtain s' where
    s': "drop_file i (t, s) = Some (?t, s')" "refs_inv s'" "balanced t s ?t s'" by blast
  have bal: "balanced t s ?t' s'" using s'(3) by (simp add: balanced_def held_def)
  have "unat (of_nat i :: u64) = i" using i by (simp add: unat_of_nat take_bit_nat_eq_self)
  then have "ft_ok ?t'" using ft_ok_remove [OF ok(1), of "of_nat i"] i by simp
  then have "ft_inv ?t' s'" using s'(2) ft_inv_covers [OF inv bal] by (simp add: ft_inv_def)
  moreover have "close_slot i (t, s) = Some (?t', s')"
    using Some s'(1) by (auto simp: close_slot_def drop_file_def bind_eq_Some_conv)
  ultimately show ?thesis using bal by (intro exI [of _ ?t'] exI [of _ s']) simp
qed

text \<open>Replacing the file in a slot: the old reference is dropped before the new one is taken.\<close>

lemma replace_file_correct:
  assumes inv: "ft_inv t s" and i: "unat i < 64" and c: "ref_cnt s f < 2 ^ 32 - 1"
    and live: "held t f < ref_cnt s f \<or> (\<exists>j < 64. j \<noteq> unat i \<and> ft_files t ! j = Some f)"
  shows "\<exists>t' s'. drop_file (unat i) (t, s) \<bind> put_file i f = Some (t', s') \<and>
                 ft_files t' = (ft_files t)[unat i := Some f] \<and> ft_inv t' s' \<and> balanced t s t' s' \<and>
                 (\<forall>r. ref_cnt s' r \<le> Suc (ref_cnt s r))"
proof -
  have ok: "ft_ok t" "refs_inv s" "\<forall>r. held t r \<le> ref_cnt s r" using inv by (simp_all add: ft_inv_def)
  note len = ft_ok_length [OF ok(1)]
  let ?t1 = "t\<lparr>ft_files := (ft_files t)[unat i := None]\<rparr>"
  let ?t' = "t\<lparr>ft_files := (ft_files t)[unat i := Some f], ft_bitmap := bitmap_set (ft_bitmap t) i\<rparr>"
  from drop_file_correct [OF len i ok(2,3)] obtain s1 where
    s1: "drop_file (unat i) (t, s) = Some (?t1, s1)" "refs_inv s1" "balanced t s ?t1 s1"
      "\<forall>r. ref_cnt s1 r \<le> ref_cnt s r" by blast
  have pos: "0 < ref_cnt s1 f"
    using live
  proof
    assume "held t f < ref_cnt s f"
    then have "held ?t1 f + 1 \<le> ref_cnt s1 f" by (intro balanced_covers [OF s1(3)]) simp
    then show ?thesis by simp
  next
    assume "\<exists>j < 64. j \<noteq> unat i \<and> ft_files t ! j = Some f"
    then have "0 < held ?t1 f" using held_pos [of _ ?t1] len by auto
    then show ?thesis using ft_inv_covers [OF inv s1(3), of f] by simp
  qed
  have "ref_cnt s1 f < 2 ^ 32 - 1" using c s1(4) by (metis le_less_trans)
  from put_file_correct [OF _ i _ s1(2) pos this, of ?t1] len i obtain s' where
    s': "put_file i f (?t1, s1) = Some (?t', s')" "refs_inv s'" "balanced ?t1 s1 ?t' s'"
      "\<forall>r. ref_cnt s' r \<le> Suc (ref_cnt s1 r)" by auto
  note bal = balanced_trans [OF s1(3) s'(3)]
  have "ft_inv ?t' s'"
    using s'(2) ft_inv_covers [OF inv bal] ft_ok_put [OF ok(1) i] by (simp add: ft_inv_def)
  moreover have "\<forall>r. ref_cnt s' r \<le> Suc (ref_cnt s r)" using s1(4) s'(4) by (meson Suc_le_mono order_trans)
  ultimately show ?thesis using s1(1) s'(1) bal by (intro exI [of _ ?t'] exI [of _ s']) simp
qed

lemma take_lowest_correct:
  assumes inv: "ft_inv t s" and f: "0 < ref_cnt s f" "ref_cnt s f < 2 ^ 32 - 1"
  shows "if \<exists>i < 64. ft_files t ! i = None
         then \<exists>i t' s'. take_lowest t f s = Some (Inr i, Some t', s') \<and> unat i < 64 \<and>
                ft_files t ! unat i = None \<and> (\<forall>j < unat i. ft_files t ! j \<noteq> None) \<and>
                ft_files t' = (ft_files t)[unat i := Some f] \<and> ft_inv t' s' \<and> balanced t s t' s'
         else take_lowest t f s = Some (Inl EMFILE, Some t, s)"
proof -
  have ok: "ft_ok t" "refs_inv s" using inv by (simp_all add: ft_inv_def)
  let ?i = "bitmap_find_first_clear (ft_bitmap t) 0 CONFIG_MAX_FD"
  note low = fd_index.lowest_free [OF ok(1) [unfolded ft_ok_def]]
  have lt: "?i < CONFIG_MAX_FD \<longleftrightarrow> unat ?i < 64" by (simp add: u64_nat)
  show ?thesis
  proof (cases "unat ?i < 64")
    case True
    let ?t' = "t\<lparr>ft_files := (ft_files t)[unat ?i := Some f], ft_bitmap := bitmap_set (ft_bitmap t) ?i\<rparr>"
    have free: "ft_files t ! unat ?i = None" using low(2) True by simp
    from put_file_correct [OF ft_ok_length [OF ok(1)] True free ok(2) f] obtain s' where
      s': "put_file ?i f (t, s) = Some (?t', s')" "refs_inv s'" "balanced t s ?t' s'" by blast
    have "ft_inv ?t' s'"
      using s'(2) ft_inv_covers [OF inv s'(3)] ft_ok_put [OF ok(1) True] by (simp add: ft_inv_def)
    moreover have "take_lowest t f s = Some (Inr ?i, Some ?t', s')"
      using lt True s'(1) by (simp add: take_lowest_def Let_def linorder_not_le)
    ultimately show ?thesis using low True free s'(3) by auto
  next
    case False
    then show ?thesis using low(1) lt by (auto simp: take_lowest_def Let_def linorder_not_less)
  qed
qed

section \<open>Ranges and copies\<close>

lemma close_range_correct:
  assumes inv: "ft_inv t s" and hi: "hi \<le> 64"
  shows "\<exists>t' s'. for_each close_slot [lo..<hi] (t, s) = Some (t', s') \<and> ft_inv t' s' \<and> balanced t s t' s' \<and>
           (\<forall>i < 64. ft_files t' ! i = (if lo \<le> i \<and> i < hi then None else ft_files t ! i))"
proof -
  let ?P = "\<lambda>n (t', s'). ft_inv t' s' \<and> balanced t s t' s' \<and>
    (\<forall>i < 64. ft_files t' ! i = (if lo \<le> i \<and> i < lo + n then None else ft_files t ! i))"
  have "\<exists>ts'. for_each close_slot [lo..<hi] (t, s) = Some ts' \<and> ?P (length [lo..<hi]) ts'"
  proof (rule for_each_invariant)
    show "?P 0 (t, s)" using inv by auto
    fix n ts
    assume n: "n < length [lo..<hi]" and P: "?P n ts"
    obtain t1 s1 where ts: "ts = (t1, s1)" by fastforce
    have i: "lo + n < 64" using n hi by simp
    from close_slot_correct [of t1 s1, OF _ i] P obtain t2 s2 where
      c: "close_slot (lo + n) (t1, s1) = Some (t2, s2)" "ft_files t2 = (ft_files t1)[lo + n := None]"
        "ft_inv t2 s2" "balanced t1 s1 t2 s2" by (auto simp: ts)
    have "length (ft_files t1) = 64" using P ft_ok_length by (auto simp: ts ft_inv_def)
    then have "?P (Suc n) (t2, s2)"
      using P c balanced_trans [OF _ c(4)] i by (auto simp: ts nth_list_update)
    then show "\<exists>ts'. close_slot ([lo..<hi] ! n) ts = Some ts' \<and> ?P (Suc n) ts'"
      using n c(1) by (simp add: ts)
  qed
  moreover have "(lo \<le> i \<and> i < lo + length [lo..<hi]) \<longleftrightarrow> lo \<le> i \<and> i < hi" for i by auto
  ultimately show ?thesis by (auto simp del: length_upt)
qed

abbreviation copy_slot :: "file_table \<Rightarrow> nat \<Rightarrow> file_table \<times> refs \<Rightarrow> (file_table \<times> refs) option" where
  "copy_slot src i ds \<equiv>
     (case ft_files src ! i of
        None \<Rightarrow> Some ds
      | Some f \<Rightarrow> Option.bind (drop_file i ds) (put_file (of_nat i) f))"

lemma copy_slot_correct:
  assumes inv: "ft_inv d s" and i: "i < 64" and src: "length (ft_files src) = 64"
    and both: "\<forall>r. held d r + held src r \<le> ref_cnt s r" and c: "\<forall>r. ref_cnt s r < 2 ^ 32 - 1"
  shows "\<exists>d' s'. copy_slot src i (d, s) = Some (d', s') \<and> ft_inv d' s' \<and> balanced d s d' s' \<and>
           ft_files d' = (if ft_files src ! i = None then ft_files d else (ft_files d)[i := ft_files src ! i]) \<and>
           (\<forall>r. ref_cnt s' r \<le> Suc (ref_cnt s r))"
proof (cases "ft_files src ! i")
  case None
  then show ?thesis using inv by (simp add: le_SucI)
next
  case (Some f)
  have "0 < held src f" using held_pos src i Some by simp
  then have "held d f < ref_cnt s f" using both by (metis add_lessD1 add_less_cancel_left less_add_same_cancel1 less_le_trans)
  moreover have u: "unat (of_nat i :: u64) = i" using i by (simp add: unat_of_nat take_bit_nat_eq_self)
  ultimately show ?thesis
    using replace_file_correct [OF inv, of "of_nat i" f] i c Some by auto
qed

lemma copy_range_correct:
  assumes inv: "ft_inv d s" and hi: "hi \<le> 64" and src: "length (ft_files src) = 64"
    and both: "\<forall>r. held d r + held src r \<le> ref_cnt s r" and c: "\<forall>r. ref_cnt s r < 2 ^ 31"
  shows "\<exists>d' s'. for_each (copy_slot src) [lo..<hi] (d, s) = Some (d', s') \<and> ft_inv d' s' \<and>
           balanced d s d' s' \<and>
           (\<forall>i < 64. ft_files d' ! i =
              (if lo \<le> i \<and> i < hi \<and> ft_files src ! i \<noteq> None then ft_files src ! i else ft_files d ! i))"
proof -
  let ?P = "\<lambda>n (d', s'). ft_inv d' s' \<and> balanced d s d' s' \<and> (\<forall>r. ref_cnt s' r \<le> ref_cnt s r + n) \<and>
    (\<forall>i < 64. ft_files d' ! i =
       (if lo \<le> i \<and> i < lo + n \<and> ft_files src ! i \<noteq> None then ft_files src ! i else ft_files d ! i))"
  have "\<exists>ds'. for_each (copy_slot src) [lo..<hi] (d, s) = Some ds' \<and> ?P (length [lo..<hi]) ds'"
  proof (rule for_each_invariant)
    show "?P 0 (d, s)" using inv by auto
    fix n ds
    assume n: "n < length [lo..<hi]" and P: "?P n ds"
    obtain d1 s1 where ds: "ds = (d1, s1)" by fastforce
    have i: "lo + n < 64" using n hi by simp
    have cover: "\<forall>r. held d1 r + held src r \<le> ref_cnt s1 r"
      using P both balanced_covers [of d s d1 s1] by (simp add: ds)
    have bound: "\<forall>r. ref_cnt s1 r < 2 ^ 32 - 1"
    proof
      fix r
      have "ref_cnt s1 r \<le> ref_cnt s r + n" "ref_cnt s r < 2 ^ 31" using P c by (simp_all add: ds)
      then show "ref_cnt s1 r < 2 ^ 32 - 1" using i by simp
    qed
    from copy_slot_correct [OF _ i src cover bound] P obtain d2 s2 where
      c2: "copy_slot src (lo + n) (d1, s1) = Some (d2, s2)" "ft_inv d2 s2" "balanced d1 s1 d2 s2"
        "ft_files d2 = (if ft_files src ! (lo + n) = None then ft_files d1
                        else (ft_files d1)[lo + n := ft_files src ! (lo + n)])"
        "\<forall>r. ref_cnt s2 r \<le> Suc (ref_cnt s1 r)" by (auto simp: ds)
    have len: "length (ft_files d1) = 64" using P ft_ok_length by (auto simp: ds ft_inv_def)
    have "\<forall>r. ref_cnt s2 r \<le> ref_cnt s r + Suc n"
      using c2(5) P by (simp add: ds) (meson Suc_le_mono order_trans)
    moreover have "\<forall>i < 64. ft_files d2 ! i =
       (if lo \<le> i \<and> i < lo + Suc n \<and> ft_files src ! i \<noteq> None then ft_files src ! i else ft_files d ! i)"
    proof (intro allI impI)
      fix j
      assume "j < (64 :: nat)"
      then show "ft_files d2 ! j = (if lo \<le> j \<and> j < lo + Suc n \<and> ft_files src ! j \<noteq> None
          then ft_files src ! j else ft_files d ! j)"
        using P c2(4) len by (cases "j = lo + n") (auto simp: ds)
    qed
    ultimately have "?P (Suc n) (d2, s2)" using P c2(2) balanced_trans [OF _ c2(3)] by (simp add: ds)
    moreover have "[lo..<hi] ! n = lo + n" using n by simp
    ultimately show "\<exists>ds'. copy_slot src ([lo..<hi] ! n) ds = Some ds' \<and> ?P (Suc n) ds'"
      using c2(1) unfolding ds by (simp only:) blast
  qed
  then obtain ds' where ds': "for_each (copy_slot src) [lo..<hi] (d, s) = Some ds'" "?P (length [lo..<hi]) ds'"
    by (elim exE conjE)
  obtain d' s' where "ds' = (d', s')" by fastforce
  with ds' have r: "for_each (copy_slot src) [lo..<hi] (d, s) = Some (d', s')"
      and P: "?P (length [lo..<hi]) (d', s')" by (simp_all only:)
  have "(lo \<le> i \<and> i < lo + length [lo..<hi] \<and> Q) \<longleftrightarrow> lo \<le> i \<and> i < hi \<and> Q" for i Q by auto
  with r P show ?thesis unfolding prod.case by (intro exI [of _ d'] exI [of _ s']) (simp only: simp_thms, blast)
qed

section \<open>Properties\<close>

text \<open>C8. \<^verbatim>\<open>file_table_open\<close> returns the lowest free descriptor, which then holds the file with
  one more reference, and reports \<^verbatim>\<open>EMFILE\<close> without any change exactly when all 64 are used. The
  invariant is kept and the counts move with the slots.\<close>

theorem file_table_open_lowest:
  assumes "ft_inv t s" and "0 < ref_cnt s f" and "ref_cnt s f < 2 ^ 32 - 1"
  shows "if \<exists>i < 64. ft_files t ! i = None
         then \<exists>i t' s'. file_table_open (Some t) (Some f) s = Some (Inr i, Some t', s') \<and> unat i < 64 \<and>
                ft_files t ! unat i = None \<and> (\<forall>j < unat i. ft_files t ! j \<noteq> None) \<and>
                ft_files t' = (ft_files t)[unat i := Some f] \<and> ft_inv t' s' \<and> balanced t s t' s'
         else file_table_open (Some t) (Some f) s = Some (Inl EMFILE, Some t, s)"
proof -
  have "file_table_open (Some t) (Some f) s = take_lowest t f s" by (simp add: file_table_open_def)
  with take_lowest_correct [OF assms] show ?thesis by (simp only:)
qed

definition sample_table :: file_table where
  "sample_table = \<lparr>ft_files = Some 0 # replicate 63 None,
                   ft_bitmap = bitmap_set (BITMAP_DEFINE_INIT CONFIG_MAX_FD) 0\<rparr>"

definition sample_files :: refs where
  "sample_files =
     \<lparr>rf_heap = (\<lambda>r. \<lparr>rf_magic = REF_MAGIC, rf_count = 2, rf_callback = True, rf_weakRefs = []\<rparr>),
      wp_heap = (\<lambda>w. \<lparr>wp_ref = None, wp_callback = False\<rparr>), rf_calls = []\<rparr>"

lemma sample_table_files:
  "ft_files sample_table ! i = (if i = 0 then Some 0 else None)" if "i < 64"
  using that by (simp add: sample_table_def nth_Cons')

lemma sample_table_inv: "ft_inv sample_table sample_files"
proof -
  let ?bm = "BITMAP_DEFINE_INIT CONFIG_MAX_FD"
  have bm: "bitmap_wf ?bm" "bm_length ?bm = CONFIG_MAX_FD" "\<not> bit_at ?bm i" if "i < 64" for i
    using that by (simp_all add: bitmap_wf_def BITMAP_DEFINE_INIT_def bitmap_init_def
        BITMAP_BITS_TO_QWORDS_def CONFIG_MAX_FD_def bit_at_def)
  have "fd_wf (ft_bitmap sample_table)"
    using bm(1,2) [of 0] by (auto simp: fd_wf_def sample_table_def)
  moreover have "bit_at (ft_bitmap sample_table) i \<longleftrightarrow> ft_files sample_table ! i \<noteq> None" if "i < 64" for i
    using that bm sample_table_files [OF that] bit_at_bitmap_set [OF bm(1), of 0 i]
    by (auto simp: sample_table_def)
  ultimately have "ft_ok sample_table"
    unfolding ft_ok_def fd_index.coherent_def by (simp add: sample_table_def)
  moreover have "refs_inv sample_files" by (rule refs_invI) (simp_all add: sample_files_def)
  moreover have "held sample_table r \<le> ref_cnt sample_files r" for r
    by (simp add: held_def sample_table_def sample_files_def)
  ultimately show ?thesis by (simp add: ft_inv_def)
qed

theorem file_table_open_lowest_witness:
  "\<exists>t' s'. file_table_open (Some sample_table) (Some 5) sample_files = Some (Inr 1, Some t', s') \<and>
          ft_inv t' s'"
proof -
  have "0 < ref_cnt sample_files 5" "ref_cnt sample_files 5 < 2 ^ 32 - 1" by (simp_all add: sample_files_def)
  moreover have "\<exists>i < 64. ft_files sample_table ! i = None"
    using sample_table_files [of 1] by (intro exI [of _ 1]) simp
  ultimately obtain i t' s' where
    i: "file_table_open (Some sample_table) (Some 5) sample_files = Some (Inr i, Some t', s')"
      "unat i < 64" "ft_files sample_table ! unat i = None" "\<forall>j < unat i. ft_files sample_table ! j \<noteq> None"
      "ft_inv t' s'"
    using file_table_open_lowest [OF sample_table_inv, of 5] by auto
  have "unat i \<noteq> 0" using i(2,3) sample_table_files [of 0] by (metis option.distinct(1) zero_less_numeral)
  moreover have "\<not> 1 < unat i" using i(4) sample_table_files [of 1] by auto
  ultimately have "i = 1" by (simp add: word_unat_eq_iff)
  with i show ?thesis by blast
qed

text \<open>Opening a file and closing the returned descriptor restores the slots and every
  reference count; in between \<^verbatim>\<open>file_table_get\<close> on the descriptor yields the file.\<close>

theorem file_table_open_close_roundtrip:
  assumes "ft_inv t s" and "0 < ref_cnt s f" and "ref_cnt s f < 2 ^ 32 - 2"
    and "\<exists>i < 64. ft_files t ! i = None"
  shows "\<exists>fd t1 s1 t2 s2. file_table_open (Some t) (Some f) s = Some (Inr fd, Some t1, s1) \<and>
           (\<exists>s'. file_table_get (Some t1) fd s1 = Some (Inr f, s')) \<and>
           file_table_close (Some t1) fd s1 = Some (Inr (), Some t2, s2) \<and>
           ft_files t2 = ft_files t \<and> ft_inv t2 s2 \<and> (\<forall>r. ref_cnt s2 r = ref_cnt s r)"
proof -
  obtain fd t1 s1 where o: "file_table_open (Some t) (Some f) s = Some (Inr fd, Some t1, s1)"
    "unat fd < 64" "ft_files t ! unat fd = None" "ft_files t1 = (ft_files t)[unat fd := Some f]"
    "ft_inv t1 s1" "balanced t s t1 s1"
    using take_lowest_correct [OF assms(1,2)] assms(3,4) by (auto simp: file_table_open_def)
  have len: "length (ft_files t) = 64" using assms(1) ft_ok_length by (simp add: ft_inv_def)
  have slot: "ft_files t1 ! unat fd = Some f" using o(2,4) len by simp
  obtain t2 s2 where c: "close_slot (unat fd) (t1, s1) = Some (t2, s2)"
    "ft_files t2 = (ft_files t1)[unat fd := None]" "ft_inv t2 s2" "balanced t1 s1 t2 s2"
    using close_slot_correct [OF o(5,2)] by blast
  have fs: "ft_files t2 = ft_files t" using c(2) o(3,4) by (simp add: list_update_same_conv len o(2))
  then have cnt: "\<forall>r. ref_cnt s2 r = ref_cnt s r"
    using balanced_trans [OF o(6) c(4)] by (simp add: balanced_def held_def)
  have lt: "\<not> CONFIG_MAX_FD \<le> fd" using o(2) by (simp add: u64_nat)
  have close: "file_table_close (Some t1) fd s1 = Some (Inr (), Some t2, s2)"
    using c(1) slot lt by (auto simp: file_table_close_def close_slot_def bind_eq_Some_conv)
  have "0 < held t1 f" using held_pos [of "unat fd" t1 f] slot o(2,4) len by simp
  then have "0 < ref_cnt s1 f" using o(5) by (metis ft_inv_def less_le_trans)
  then have "is_ref s1 f" using o(5) refs_invD(2) by (auto simp: ft_inv_def)
  then have get: "\<exists>s'. file_table_get (Some t1) fd s1 = Some (Inr f, s')"
    using slot lt by (simp add: file_table_get_def ref_inc_def)
  from o(1) get close fs c(3) cnt show ?thesis by blast
qed

text \<open>C9. \<^verbatim>\<open>file_table_dup2\<close> on a used descriptor makes the new descriptor refer to the same file and
  changes no other slot; the file it replaces loses one reference, so that even duplicating over
  another descriptor of the same file never drops it. A descriptor outside the table or an unused
  source is \<^verbatim>\<open>EBADF\<close> with nothing changed.\<close>

theorem file_table_dup2_correct:
  assumes "ft_inv t s" and "\<forall>r. ref_cnt s r < 2 ^ 32 - 1"
  shows "if old < 64 \<and> new < 64 \<and> ft_files t ! unat old \<noteq> None
         then \<exists>t' s'. file_table_dup2 (Some t) old new s = Some (Inr new, Some t', s') \<and>
                ft_files t' = (ft_files t)[unat new := ft_files t ! unat old] \<and>
                ft_inv t' s' \<and> balanced t s t' s'
         else file_table_dup2 (Some t) old new s = Some (Inl EBADF, Some t, s)"
proof (cases "old < 64 \<and> new < 64 \<and> ft_files t ! unat old \<noteq> None")
  case True
  then obtain f where f: "ft_files t ! unat old = Some f" by auto
  have lt: "\<not> CONFIG_MAX_FD \<le> old" "\<not> CONFIG_MAX_FD \<le> new" "unat old < 64" "unat new < 64"
    using True by (simp_all add: u64_nat CONFIG_MAX_FD_def)
  show ?thesis
  proof (cases "old = new")
    case same: True
    have "(ft_files t)[unat new := Some f] = ft_files t" using f same by (metis list_update_id)
    then show ?thesis using True f lt same assms(1) by (simp add: file_table_dup2_def)
  next
    case False
    then have "\<exists>j < 64. j \<noteq> unat new \<and> ft_files t ! j = Some f"
      using f lt by (intro exI [of _ "unat old"]) (simp add: word_unat_eq_iff)
    then obtain t' s' where
      r: "drop_file (unat new) (t, s) \<bind> put_file new f = Some (t', s')"
        "ft_files t' = (ft_files t)[unat new := Some f]" "ft_inv t' s'" "balanced t s t' s'"
      using replace_file_correct [OF assms(1) lt(4), of f] assms(2) by blast
    then have "file_table_dup2 (Some t) old new s = Some (Inr new, Some t', s')"
      using f lt False by (auto simp: file_table_dup2_def bind_eq_Some_conv)
    with True f r show ?thesis by auto
  qed
next
  case False
  then have "CONFIG_MAX_FD \<le> old \<or> CONFIG_MAX_FD \<le> new \<or> ft_files t ! unat old = None"
    by (auto simp: CONFIG_MAX_FD_def not_less)
  then have "file_table_dup2 (Some t) old new s = Some (Inl EBADF, Some t, s)"
    by (auto simp: file_table_dup2_def)
  then show ?thesis by (simp only: False if_False)
qed

theorem file_table_dup2_correct_witness:
  "\<exists>t' s'. file_table_dup2 (Some sample_table) 0 3 sample_files = Some (Inr 3, Some t', s') \<and>
          ft_files t' ! 3 = Some 0 \<and> ref_cnt s' 0 = 3"
proof -
  have "\<forall>r. ref_cnt sample_files r < 2 ^ 32 - 1" by (simp add: sample_files_def)
  then obtain t' s' where d: "file_table_dup2 (Some sample_table) 0 3 sample_files = Some (Inr 3, Some t', s')"
    "ft_files t' = (ft_files sample_table)[3 := Some 0]" "balanced sample_table sample_files t' s'"
    using file_table_dup2_correct [OF sample_table_inv, of 0 3] sample_table_files [of 0] by auto
  have "held sample_table 0 = 1" "held t' 0 = 2"
    using d(2) count_list_update [of 3 "ft_files sample_table" "Some 0" "Some 0"] sample_table_files [of 3]
    by (simp_all add: held_def sample_table_def)
  then have "ref_cnt s' 0 = 3" using d(3) by (auto simp: balanced_def sample_files_def dest: spec [of _ 0])
  with d show ?thesis by (auto simp: sample_table_def)
qed

text \<open>\<^verbatim>\<open>file_table_close_range\<close> empties exactly the slots of the range and releases their
  references.\<close>

theorem file_table_close_range_correct:
  assumes "ft_inv t s"
  shows "\<exists>t' s'. file_table_close_range (Some t) mn mx s = Some (Inr (), Some t', s') \<and>
           ft_inv t' s' \<and> balanced t s t' s' \<and>
           (\<forall>i < 64. ft_files t' ! i = (if unat mn \<le> i \<and> i < unat mx then None else ft_files t ! i))"
proof -
  obtain t' s' where "for_each close_slot [unat mn..<min (unat mx) max_fd] (t, s) = Some (t', s')"
    "ft_inv t' s'" "balanced t s t' s'"
    "\<forall>i < 64. ft_files t' ! i =
       (if unat mn \<le> i \<and> i < min (unat mx) max_fd then None else ft_files t ! i)"
    using close_range_correct [OF assms, of "min (unat mx) max_fd" "unat mn"] by auto
  then show ?thesis by (intro exI [of _ t'] exI [of _ s']) (simp add: file_table_close_range_def)
qed

text \<open>\<^verbatim>\<open>file_table_copy\<close> gives the destination the source's files of the range, keeps its own
  files where the source has none, and takes a reference for each file copied. It returns 0 whatever
  their number.\<close>

theorem file_table_copy_correct:
  assumes "ft_inv dest s" and "length (ft_files src) = 64"
    and "\<forall>r. held dest r + held src r \<le> ref_cnt s r" and "\<forall>r. ref_cnt s r < 2 ^ 31"
  shows "\<exists>d' s'. file_table_copy (Some dest) (Some src) mn mx s = Some (Inr 0, Some d', s') \<and>
           ft_inv d' s' \<and> balanced dest s d' s' \<and>
           (\<forall>i < 64. ft_files d' ! i =
              (if unat mn \<le> i \<and> i < unat mx \<and> ft_files src ! i \<noteq> None
               then ft_files src ! i else ft_files dest ! i))"
proof -
  obtain d' s' where "for_each (copy_slot src) [unat mn..<min (unat mx) max_fd] (dest, s) = Some (d', s')"
    "ft_inv d' s'" "balanced dest s d' s'"
    "\<forall>i < 64. ft_files d' ! i =
       (if unat mn \<le> i \<and> i < min (unat mx) max_fd \<and> ft_files src ! i \<noteq> None
        then ft_files src ! i else ft_files dest ! i)"
    using copy_range_correct [OF assms(1) _ assms(2-4), of "min (unat mx) max_fd" "unat mn"] by auto
  then show ?thesis by (intro exI [of _ d'] exI [of _ s']) (simp add: file_table_copy_def)
qed

end
