(* ===== verification/Fifo.thy ===== *)
theory Fifo
  imports Prelude
begin

text \<open>
  The byte ring buffer of \<^verbatim>\<open>include/kernel/utils/fifo.h\<close>. One byte of the buffer stays unused
  so that a full buffer differs from an empty one. The model keeps the C fields; the lemmas
  relate them to the list of bytes that are waiting to be read.
\<close>

record fifo =
  fifo_buffer :: "u8 list"
  fifo_size :: u64
  fifo_head :: u64
  fifo_tail :: u64

definition FIFO_CREATE :: "u8 list \<Rightarrow> u64 \<Rightarrow> fifo" where
  "FIFO_CREATE buf sz = \<lparr>fifo_buffer = buf, fifo_size = sz, fifo_head = 0, fifo_tail = 0\<rparr>"

definition fifo_init :: "fifo \<Rightarrow> u8 list \<Rightarrow> u64 \<Rightarrow> fifo" where
  "fifo_init fifo buffer sz =
     fifo\<lparr>fifo_buffer := buffer, fifo_size := sz, fifo_head := 0, fifo_tail := 0\<rparr>"

definition fifo_reset :: "fifo \<Rightarrow> fifo" where
  "fifo_reset fifo = fifo\<lparr>fifo_head := 0, fifo_tail := 0\<rparr>"

definition fifo_bytes_readable :: "fifo \<Rightarrow> u64" where
  "fifo_bytes_readable fifo =
     (if fifo_head fifo \<ge> fifo_tail fifo then fifo_head fifo - fifo_tail fifo
      else fifo_size fifo - (fifo_tail fifo - fifo_head fifo))"

definition fifo_bytes_writeable :: "fifo \<Rightarrow> u64" where
  "fifo_bytes_writeable fifo =
     (if fifo_tail fifo > fifo_head fifo then fifo_tail fifo - fifo_head fifo - 1
      else fifo_size fifo - (fifo_head fifo - fifo_tail fifo) - 1)"

text \<open>\<^verbatim>\<open>memcpy\<close> out of and into the buffer.\<close>

definition copy_out :: "u8 list \<Rightarrow> u64 \<Rightarrow> u64 \<Rightarrow> u8 list" where
  "copy_out buf pos n = take (unat n) (drop (unat pos) buf)"

definition copy_in :: "u8 list \<Rightarrow> u64 \<Rightarrow> u8 list \<Rightarrow> u8 list" where
  "copy_in buf pos data = take (unat pos) buf @ data @ drop (unat pos + length data) buf"

text \<open>The bytes read are returned in place of being stored at a pointer.\<close>

definition fifo_read :: "fifo \<Rightarrow> u64 \<Rightarrow> u64 \<times> u8 list \<times> fifo" where
  "fifo_read fifo count =
     (let readable = fifo_bytes_readable fifo
      in if readable = 0 then (0, [], fifo)
         else
           (let count = (if count > readable then readable else count);
                firstSize = fifo_size fifo - fifo_tail fifo;
                firstSize = (if firstSize > count then count else firstSize);
                out = copy_out (fifo_buffer fifo) (fifo_tail fifo) firstSize;
                fifo = fifo\<lparr>fifo_tail := (fifo_tail fifo + firstSize) mod fifo_size fifo\<rparr>;
                remaining = count - firstSize
            in if remaining > 0
               then (count, out @ copy_out (fifo_buffer fifo) (fifo_tail fifo) remaining,
                     fifo\<lparr>fifo_tail := (fifo_tail fifo + remaining) mod fifo_size fifo\<rparr>)
               else (count, out, fifo)))"

text \<open>\<open>data\<close> holds the \<open>count\<close> bytes of the source.\<close>

definition fifo_write :: "fifo \<Rightarrow> u8 list \<Rightarrow> u64 \<Rightarrow> u64 \<times> fifo" where
  "fifo_write fifo data count =
     (let writeable = fifo_bytes_writeable fifo;
          count = (if count > writeable then writeable else count);
          firstSize = fifo_size fifo - fifo_head fifo;
          firstSize = (if firstSize > count then count else firstSize);
          fifo = fifo\<lparr>fifo_buffer := copy_in (fifo_buffer fifo) (fifo_head fifo) (take (unat firstSize) data)\<rparr>;
          fifo = fifo\<lparr>fifo_head := (fifo_head fifo + firstSize) mod fifo_size fifo\<rparr>;
          remaining = count - firstSize
      in if remaining > 0
         then (let fifo = fifo\<lparr>fifo_buffer :=
                     copy_in (fifo_buffer fifo) (fifo_head fifo)
                       (take (unat remaining) (drop (unat firstSize) data))\<rparr>
               in (count, fifo\<lparr>fifo_head := (fifo_head fifo + remaining) mod fifo_size fifo\<rparr>))
         else (count, fifo))"

definition fifo_advance_head :: "fifo \<Rightarrow> u64 \<Rightarrow> fifo" where
  "fifo_advance_head fifo count =
     fifo\<lparr>fifo_head := (fifo_head fifo + count) mod fifo_size fifo\<rparr>"

definition fifo_advance_tail :: "fifo \<Rightarrow> u64 \<Rightarrow> fifo" where
  "fifo_advance_tail fifo count =
     fifo\<lparr>fifo_tail := (fifo_tail fifo + count) mod fifo_size fifo\<rparr>"

section \<open>Abstraction to a list of bytes\<close>

definition fifo_inv :: "fifo \<Rightarrow> bool" where
  "fifo_inv f \<longleftrightarrow> length (fifo_buffer f) = unat (fifo_size f) \<and>
     fifo_head f < fifo_size f \<and> fifo_tail f < fifo_size f"

abbreviation fifo_len :: "fifo \<Rightarrow> nat" where
  "fifo_len f \<equiv> unat (fifo_bytes_readable f)"

definition fifo_content :: "fifo \<Rightarrow> u8 list" where
  "fifo_content f = take (fifo_len f) (rotate (unat (fifo_tail f)) (fifo_buffer f))"

definition fifo_capacity :: "fifo \<Rightarrow> nat" where
  "fifo_capacity f = unat (fifo_size f) - 1"

lemma fifo_len_eq:
  assumes "fifo_inv f"
  shows "fifo_len f = (if fifo_head f \<ge> fifo_tail f then unat (fifo_head f) - unat (fifo_tail f)
           else unat (fifo_size f) - unat (fifo_tail f) + unat (fifo_head f))"
proof (cases "fifo_head f \<ge> fifo_tail f")
  case True
  then show ?thesis by (simp add: fifo_bytes_readable_def unat_sub_u64 u64_nat)
next
  case False
  then have "unat (fifo_tail f - fifo_head f) = unat (fifo_tail f) - unat (fifo_head f)"
    by (intro unat_sub_u64) (simp add: u64_nat)
  moreover have "unat (fifo_tail f) < unat (fifo_size f)" "unat (fifo_head f) < unat (fifo_tail f)"
    using assms False by (simp_all add: fifo_inv_def u64_nat)
  ultimately show ?thesis
    using False by (simp add: fifo_bytes_readable_def unat_sub_u64 u64_nat)
qed

lemma fifo_len_bound: "fifo_inv f \<Longrightarrow> fifo_len f < unat (fifo_size f)"
  using fifo_len_eq [of f] by (auto simp: fifo_inv_def u64_nat)

lemma fifo_head_eq:
  assumes "fifo_inv f"
  shows "unat (fifo_head f) = (unat (fifo_tail f) + fifo_len f) mod unat (fifo_size f)"
  using fifo_len_eq [OF assms] assms by (auto simp: fifo_inv_def u64_nat)

lemma length_fifo_content [simp]: "fifo_inv f \<Longrightarrow> length (fifo_content f) = fifo_len f"
  using fifo_len_bound [of f] by (simp add: fifo_content_def fifo_inv_def)

lemma fifo_writeable_eq:
  assumes "fifo_inv f"
  shows "unat (fifo_bytes_writeable f) = fifo_capacity f - fifo_len f"
proof (cases "fifo_tail f > fifo_head f")
  case True
  then have "unat (fifo_tail f - fifo_head f) = unat (fifo_tail f) - unat (fifo_head f)"
    by (intro unat_sub_u64) (simp add: u64_nat)
  then have "unat (fifo_tail f - fifo_head f - 1) = unat (fifo_tail f) - unat (fifo_head f) - 1"
    using True by (subst unat_sub_u64) (auto simp: u64_nat)
  then show ?thesis
    using True fifo_len_eq [OF assms] assms
    by (simp add: fifo_bytes_writeable_def fifo_capacity_def fifo_inv_def u64_nat)
next
  case False
  then have a: "unat (fifo_head f - fifo_tail f) = unat (fifo_head f) - unat (fifo_tail f)"
    by (intro unat_sub_u64) (simp add: u64_nat)
  moreover have lt: "unat (fifo_head f) < unat (fifo_size f)" using assms by (simp add: fifo_inv_def u64_nat)
  ultimately have b: "unat (fifo_size f - (fifo_head f - fifo_tail f)) =
      unat (fifo_size f) - (unat (fifo_head f) - unat (fifo_tail f))"
    by (subst unat_sub_u64) auto
  then have "unat (fifo_size f - (fifo_head f - fifo_tail f) - 1) =
      unat (fifo_size f) - (unat (fifo_head f) - unat (fifo_tail f)) - 1"
    using lt by (subst unat_sub_u64) auto
  then show ?thesis
    using False fifo_len_eq [OF assms] assms
    by (simp add: fifo_bytes_writeable_def fifo_capacity_def fifo_inv_def u64_nat)
qed

lemma mod_small_sum: "a < n \<Longrightarrow> b \<le> n \<Longrightarrow> (a + b) mod n = (if a + b < n then a + b else a + b - (n :: nat))"
  by (simp add: mod_if)

lemma fifo_len_unique:
  assumes "fifo_inv f" and "k < unat (fifo_size f)"
    and "unat (fifo_head f) = (unat (fifo_tail f) + k) mod unat (fifo_size f)"
  shows "fifo_len f = k"
proof -
  have "unat (fifo_tail f) < unat (fifo_size f)" using assms(1) by (simp add: fifo_inv_def u64_nat)
  then show ?thesis
    using fifo_len_eq [OF assms(1)] assms(2,3)
      mod_small_sum [of "unat (fifo_tail f)" "unat (fifo_size f)" k]
    by (auto simp: u64_nat split: if_splits)
qed

lemma unat_mod_u64: "unat (a mod b :: u64) = unat a mod unat b"
  by (simp add: unat_mod_distrib)

text \<open>Where an advanced index ends up, without overflow.\<close>

lemma advance_index:
  assumes "i < sz" and "unat i + unat k \<le> unat sz"
  shows "unat ((i + k) mod sz :: u64) = (unat i + unat k) mod unat sz"
  using unat_add_bounded_u64 [OF assms(2)] by (simp add: unat_mod_u64)

section \<open>Reading\<close>

lemma fifo_read_eq:
  fixes count :: u64
  assumes inv: "fifo_inv f"
  defines "c \<equiv> if count > fifo_bytes_readable f then fifo_bytes_readable f else count"
  shows "\<exists>T. fifo_read f count = (c, take (unat c) (fifo_content f), f\<lparr>fifo_tail := T\<rparr>) \<and>
             unat T = (unat (fifo_tail f) + unat c) mod unat (fifo_size f)"
proof -
  let ?N = "unat (fifo_size f)" and ?t = "unat (fifo_tail f)" and ?b = "fifo_buffer f"
  let ?d = "fifo_size f - fifo_tail f"
  have len: "length ?b = ?N" and t: "?t < ?N" "fifo_tail f < fifo_size f"
    using inv by (simp_all add: fifo_inv_def u64_nat)
  have c: "unat c \<le> fifo_len f" by (auto simp: c_def u64_nat)
  have d: "unat ?d = ?N - ?t" using t by (intro unat_sub_u64) simp
  have rot: "rotate ?t ?b = drop ?t ?b @ take ?t ?b" using t len by (simp add: rotate_drop_take)
  have out: "take (unat c) (fifo_content f) = take (unat c) (drop ?t ?b @ take ?t ?b)"
    unfolding fifo_content_def rot take_take using c by (simp only: min_absorb1)
  consider (empty) "fifo_bytes_readable f = 0" | (one) "fifo_bytes_readable f \<noteq> 0" "unat c \<le> ?N - ?t"
    | (two) "fifo_bytes_readable f \<noteq> 0" "?N - ?t < unat c" by linarith
  then show ?thesis
  proof cases
    case empty
    then have "c = 0" by (auto simp: c_def word_gt_0)
    then show ?thesis using empty t by (intro exI [of _ "fifo_tail f"]) (simp add: fifo_read_def)
  next
    case one
    let ?T = "(fifo_tail f + c) mod fifo_size f"
    have "(if ?d > c then c else ?d) = c"
      using one(2) d by (auto simp: u64_nat word_unat_eq_iff)
    then have "fifo_read f count = (c, take (unat c) (drop ?t ?b), f\<lparr>fifo_tail := ?T\<rparr>)"
      using one(1) by (simp add: fifo_read_def Let_def copy_out_def flip: c_def)
    moreover have "unat ?T = (?t + unat c) mod ?N" using t one(2) by (intro advance_index) simp_all
    ultimately show ?thesis using out one(2) len by (intro exI [of _ ?T]) simp
  next
    case two
    have f: "(if ?d > c then c else ?d) = ?d" using two(2) d by (auto simp: u64_nat)
    have "unat ((fifo_tail f + ?d) mod fifo_size f) = (?t + unat ?d) mod ?N"
      using t d by (intro advance_index) simp_all
    then have T1: "(fifo_tail f + ?d) mod fifo_size f = 0" using t d by (simp add: unat_eq_0)
    have r: "unat (c - ?d) = unat c - (?N - ?t)" using two(2) d by (subst unat_sub_u64) simp_all
    then have pos: "c - ?d > 0" using two(2) by (simp add: u64_nat)
    have "fifo_read f count = (c, take (?N - ?t) (drop ?t ?b) @ take (unat c - (?N - ?t)) ?b,
        f\<lparr>fifo_tail := (c - ?d) mod fifo_size f\<rparr>)"
      using two(1) f T1 pos r d by (simp add: fifo_read_def Let_def copy_out_def flip: c_def)
    moreover have "unat ((c - ?d) mod fifo_size f) = (?t + unat c) mod ?N"
      using r two(2) t mod_add_self2 [of "unat c - (?N - ?t)" ?N]
      by (simp add: unat_mod_u64 add.commute)
    moreover have "take (unat c) (drop ?t ?b @ take ?t ?b) =
        take (?N - ?t) (drop ?t ?b) @ take (unat c - (?N - ?t)) ?b"
    proof -
      have "unat c - (?N - ?t) \<le> ?t" using c fifo_len_bound [OF inv] t by linarith
      then show ?thesis using two(2) len t by (simp add: min_absorb1)
    qed
    ultimately show ?thesis using out by (intro exI [of _ "(c - ?d) mod fifo_size f"]) simp
  qed
qed

lemma fifo_read_correct:
  fixes count :: u64
  assumes inv: "fifo_inv f"
  defines "n \<equiv> min (unat count) (length (fifo_content f))"
  shows "\<exists>c f'. fifo_read f count = (c, take n (fifo_content f), f') \<and> unat c = n \<and> fifo_inv f' \<and>
                fifo_content f' = drop n (fifo_content f) \<and> fifo_size f' = fifo_size f"
proof -
  let ?c = "if count > fifo_bytes_readable f then fifo_bytes_readable f else count"
  let ?N = "unat (fifo_size f)" and ?t = "unat (fifo_tail f)" and ?b = "fifo_buffer f"
  obtain T where T: "fifo_read f count = (?c, take (unat ?c) (fifo_content f), f\<lparr>fifo_tail := T\<rparr>)"
    "unat T = (?t + unat ?c) mod ?N" using fifo_read_eq [OF inv] by blast
  let ?f = "f\<lparr>fifo_tail := T\<rparr>"
  have n: "unat ?c = n" using inv by (auto simp: n_def u64_nat)
  have n_le: "n \<le> fifo_len f" using inv by (simp add: n_def)
  note bound = fifo_len_bound [OF inv]
  have inv': "fifo_inv ?f" using inv T(2) bound by (auto simp: fifo_inv_def u64_nat)
  have "unat (fifo_head ?f) = (unat (fifo_tail ?f) + (fifo_len f - n)) mod ?N"
  proof -
    have "((?t + n) mod ?N + (fifo_len f - n)) mod ?N = (?t + n + (fifo_len f - n)) mod ?N"
      by (rule mod_add_left_eq)
    also have "?t + n + (fifo_len f - n) = ?t + fifo_len f" using n_le by simp
    finally show ?thesis using fifo_head_eq [OF inv] T(2) n by simp
  qed
  then have len': "fifo_len ?f = fifo_len f - n"
    using fifo_len_unique [OF inv', of "fifo_len f - n"] bound by simp
  have lb: "length ?b = ?N" using inv by (simp add: fifo_inv_def)
  have "rotate (unat T) ?b = rotate n (rotate ?t ?b)"
    using T(2) n lb by (metis add.commute rotate_conv_mod rotate_rotate)
  then have "fifo_content ?f = take (fifo_len f - n) (rotate n (rotate ?t ?b))"
    by (simp add: fifo_content_def len')
  also have "rotate n (rotate ?t ?b) = drop n (rotate ?t ?b) @ take n (rotate ?t ?b)"
    using n_le bound lb by (simp only: rotate_drop_take length_rotate) simp
  also have "take (fifo_len f - n) (drop n (rotate ?t ?b) @ take n (rotate ?t ?b)) = drop n (fifo_content f)"
    using n_le bound lb by (simp add: fifo_content_def drop_take)
  finally show ?thesis using T(1) n inv' by auto
qed

section \<open>Writing\<close>

lemma nth_copy_in:
  assumes "unat pos + length data \<le> length buf" and "i < length buf"
  shows "copy_in buf pos data ! i =
           (if unat pos \<le> i \<and> i < unat pos + length data then data ! (i - unat pos) else buf ! i)"
  using assms by (auto simp: copy_in_def nth_append)

lemma length_copy_in [simp]:
  "unat pos + length data \<le> length buf \<Longrightarrow> length (copy_in buf pos data) = length buf"
  by (simp add: copy_in_def)

lemma fifo_write_eq:
  fixes count :: u64
  assumes inv: "fifo_inv f" and data: "length data = unat count"
  defines "c \<equiv> if count > fifo_bytes_writeable f then fifo_bytes_writeable f else count"
  shows "\<exists>b H. fifo_write f data count = (c, f\<lparr>fifo_buffer := b, fifo_head := H\<rparr>) \<and>
           unat H = (unat (fifo_head f) + unat c) mod unat (fifo_size f) \<and>
           length b = length (fifo_buffer f) \<and>
           (\<forall>i < length b. b ! i =
              (let j = (if unat (fifo_head f) \<le> i then i - unat (fifo_head f)
                        else i + unat (fifo_size f) - unat (fifo_head f))
               in if j < unat c then data ! j else fifo_buffer f ! i))"
proof -
  let ?N = "unat (fifo_size f)" and ?h = "unat (fifo_head f)" and ?b = "fifo_buffer f"
  let ?d = "fifo_size f - fifo_head f"
  have len: "length ?b = ?N" and h: "?h < ?N" "fifo_head f < fifo_size f"
    using inv by (simp_all add: fifo_inv_def u64_nat)
  have c: "unat c \<le> unat count" "unat c < ?N"
    using fifo_writeable_eq [OF inv] h by (auto simp: c_def u64_nat fifo_capacity_def)
  have d: "unat ?d = ?N - ?h" using h by (intro unat_sub_u64) simp
  show ?thesis
  proof (cases "unat c \<le> ?N - ?h")
    case True
    let ?H = "(fifo_head f + c) mod fifo_size f" and ?b' = "copy_in ?b (fifo_head f) (take (unat c) data)"
    have f: "(if ?d > c then c else ?d) = c" using True d by (auto simp: u64_nat word_unat_eq_iff)
    have "fifo_write f data count = (c, f\<lparr>fifo_buffer := ?b', fifo_head := ?H\<rparr>)"
      unfolding fifo_write_def Let_def c_def [symmetric] f by simp
    moreover have "unat ?H = (?h + unat c) mod ?N" using h True by (intro advance_index) simp_all
    moreover have fits: "?h + length (take (unat c) data) \<le> length ?b" using True h c data len by simp
    moreover have "\<forall>i < length ?b'. ?b' ! i =
        (let j = (if ?h \<le> i then i - ?h else i + ?N - ?h) in if j < unat c then data ! j else ?b ! i)"
      using nth_copy_in [OF fits] fits c data True len h by (auto simp: Let_def)
    ultimately show ?thesis by (intro exI [of _ ?b'] exI [of _ ?H]) simp
  next
    case False
    let ?b1 = "copy_in ?b (fifo_head f) (take (?N - ?h) data)"
    let ?r = "unat c - (?N - ?h)"
    let ?b' = "copy_in ?b1 0 (take ?r (drop (?N - ?h) data))"
    have f: "(if ?d > c then c else ?d) = ?d" using False d by (auto simp: u64_nat)
    have "unat ((fifo_head f + ?d) mod fifo_size f) = (?h + unat ?d) mod ?N"
      using h d by (intro advance_index) simp_all
    then have H1: "(fifo_head f + ?d) mod fifo_size f = 0" using h d by (simp add: unat_eq_0)
    have r: "unat (c - ?d) = ?r" using False d by (subst unat_sub_u64) simp_all
    then have pos: "c - ?d > 0" using False by (simp add: u64_nat)
    have "fifo_write f data count =
        (c, f\<lparr>fifo_buffer := ?b', fifo_head := (c - ?d) mod fifo_size f\<rparr>)"
      unfolding fifo_write_def Let_def c_def [symmetric] f using H1 pos r d by simp
    moreover have "unat ((c - ?d) mod fifo_size f) = (?h + unat c) mod ?N"
      using r False h mod_add_self2 [of ?r ?N] by (simp add: unat_mod_u64 add.commute)
    moreover have fits: "?h + length (take (?N - ?h) data) \<le> length ?b" using False h c data len by simp
    moreover have fits': "unat (0 :: u64) + length (take ?r (drop (?N - ?h) data)) \<le> length ?b1"
      using fits c by (simp add: len)
    moreover have "\<forall>i < length ?b'. ?b' ! i =
        (let j = (if ?h \<le> i then i - ?h else i + ?N - ?h) in if j < unat c then data ! j else ?b ! i)"
      using nth_copy_in [OF fits'] nth_copy_in [OF fits] fits fits' c data False len h
      by (auto simp: Let_def add.commute)
    ultimately show ?thesis
      by (intro exI [of _ ?b'] exI [of _ "(c - ?d) mod fifo_size f"]) simp
  qed
qed

lemma fifo_write_correct:
  fixes count :: u64
  assumes inv: "fifo_inv f" and data: "length data = unat count"
  defines "n \<equiv> min (unat count) (fifo_capacity f - length (fifo_content f))"
  shows "\<exists>c f'. fifo_write f data count = (c, f') \<and> unat c = n \<and> fifo_inv f' \<and>
                fifo_content f' = fifo_content f @ take n data \<and> fifo_size f' = fifo_size f"
proof -
  let ?c = "if count > fifo_bytes_writeable f then fifo_bytes_writeable f else count"
  let ?N = "unat (fifo_size f)" and ?t = "unat (fifo_tail f)" and ?h = "unat (fifo_head f)"
  let ?l = "fifo_len f"
  obtain b H where w: "fifo_write f data count = (?c, f\<lparr>fifo_buffer := b, fifo_head := H\<rparr>)"
      "unat H = (?h + unat ?c) mod ?N" "length b = length (fifo_buffer f)"
      and b: "\<forall>i < length b. b ! i =
              (let j = (if ?h \<le> i then i - ?h else i + ?N - ?h)
               in if j < unat ?c then data ! j else fifo_buffer f ! i)"
    using fifo_write_eq [OF inv data] by blast
  let ?f = "f\<lparr>fifo_buffer := b, fifo_head := H\<rparr>"
  have n: "unat ?c = n" using fifo_writeable_eq [OF inv] inv by (auto simp: n_def u64_nat)
  have lb: "length (fifo_buffer f) = ?N" and t: "?t < ?N" using inv by (simp_all add: fifo_inv_def u64_nat)
  have room: "?l + n < ?N" using fifo_len_bound [OF inv] inv t by (simp add: n_def fifo_capacity_def)
  have inv': "fifo_inv ?f" using inv w(2,3) t by (auto simp: fifo_inv_def u64_nat)
  have "unat (fifo_head ?f) = (?t + (?l + n)) mod ?N"
    using w(2) n fifo_head_eq [OF inv] by (simp add: mod_add_left_eq add.assoc)
  then have len': "fifo_len ?f = ?l + n" using fifo_len_unique [OF inv', of "?l + n"] room by simp
  have "fifo_content ?f = fifo_content f @ take n data"
  proof (rule nth_equalityI)
    show l: "length (fifo_content ?f) = length (fifo_content f @ take n data)"
      using inv inv' len' data by (simp add: n_def)
    fix i
    assume "i < length (fifo_content ?f)"
    then have i: "i < ?l + n" using inv' len' by simp
    let ?p = "(?t + i) mod ?N"
    have p: "?p < length b" using w(3) lb t by simp
    have p_eq: "?p = (if ?t + i < ?N then ?t + i else ?t + i - ?N)" using t i room by (simp add: mod_small_sum)
    have h_eq: "?h = (if ?t + ?l < ?N then ?t + ?l else ?t + ?l - ?N)"
      using fifo_head_eq [OF inv] t room by (simp add: mod_small_sum)
    have "fifo_content ?f ! i = b ! ?p"
      using i len' room lb w(3) by (simp add: fifo_content_def nth_rotate)
    also have "\<dots> = (fifo_content f @ take n data) ! i"
    proof (cases "i < ?l")
      case True
      have "\<not> (if ?h \<le> ?p then ?p - ?h else ?p + ?N - ?h) < n"
        using True room t unfolding p_eq h_eq by (auto split: if_splits)
      then have "b ! ?p = fifo_buffer f ! ?p" using b p n by (simp add: Let_def)
      then show ?thesis
        using True inv room lb by (simp add: nth_append) (simp add: fifo_content_def nth_rotate)
    next
      case False
      have "(if ?h \<le> ?p then ?p - ?h else ?p + ?N - ?h) = i - ?l"
        using False i room t unfolding p_eq h_eq by (auto split: if_splits)
      moreover have "i - ?l < n" using False i by linarith
      ultimately have "b ! ?p = data ! (i - ?l)" using b p n by (simp add: Let_def)
      then show ?thesis using False i inv by (simp add: nth_append)
    qed
    finally show "fifo_content ?f ! i = (fifo_content f @ take n data) ! i" .
  qed
  with w(1) n inv' show ?thesis by auto
qed

section \<open>The contract of a byte queue\<close>

text \<open>What the users of the ring buffer (the pipe, the keyboard and the terminal) rely on.\<close>

locale byte_queue =
  fixes inv :: "'q \<Rightarrow> bool" and content :: "'q \<Rightarrow> 'b list" and cap :: "'q \<Rightarrow> nat"
    and put :: "'q \<Rightarrow> 'b list \<Rightarrow> u64 \<Rightarrow> u64 \<times> 'q" and get :: "'q \<Rightarrow> u64 \<Rightarrow> u64 \<times> 'b list \<times> 'q"
  assumes put_law: "inv q \<Longrightarrow> length xs = unat n \<Longrightarrow> put q xs n = (k, q') \<Longrightarrow> inv q' \<and> cap q' = cap q \<and>
      unat k = min (length xs) (cap q - length (content q)) \<and> content q' = content q @ take (unat k) xs"
    and get_law: "inv q \<Longrightarrow> get q n = (k, ys, q') \<Longrightarrow> inv q' \<and> cap q' = cap q \<and> unat k = length ys \<and>
      ys = take (unat n) (content q) \<and> content q' = drop (unat n) (content q)"
    and bounded: "inv q \<Longrightarrow> length (content q) \<le> cap q"
begin

text \<open>A sequence of writes and reads; \<open>run\<close> returns all bytes accepted and all bytes read.\<close>

primrec run :: "'q \<Rightarrow> ('b list + u64) list \<Rightarrow> 'b list \<times> 'b list \<times> 'q" where
  "run q [] = ([], [], q)"
| "run q (x # xs) =
     (case x of
        Inl w \<Rightarrow> (case put q w (of_nat (length w)) of (k, q1) \<Rightarrow>
                   (case run q1 xs of (ins, outs, q2) \<Rightarrow> (take (unat k) w @ ins, outs, q2)))
      | Inr n \<Rightarrow> (case get q n of (k, ys, q1) \<Rightarrow>
                   (case run q1 xs of (ins, outs, q2) \<Rightarrow> (ins, ys @ outs, q2))))"

text \<open>First in, first out: the bytes read, followed by those still waiting, are the bytes that
  were waiting at the start, followed by those accepted.\<close>

lemma run_in_order:
  assumes "inv q" and "run q xs = (ins, outs, q')" and "\<forall>w. Inl w \<in> set xs \<longrightarrow> length w < 2 ^ 64"
  shows "inv q' \<and> outs @ content q' = content q @ ins"
  using assms
proof (induction xs arbitrary: q ins outs)
  case (Cons x xs)
  show ?case
  proof (cases x)
    case (Inl w)
    obtain k q1 ins1 where a: "put q w (of_nat (length w)) = (k, q1)" "run q1 xs = (ins1, outs, q')"
      "ins = take (unat k) w @ ins1"
      using Cons.prems(2) by (auto simp: Inl split: prod.splits)
    have "length w = unat (of_nat (length w) :: u64)"
      using Cons.prems(3) Inl by (simp add: unat_of_nat take_bit_nat_eq_self)
    note p = put_law [OF Cons.prems(1) this a(1)]
    show ?thesis using Cons.IH [OF _ a(2)] p a(3) Cons.prems(3) by simp
  next
    case (Inr n)
    obtain k ys q1 outs1 where a: "get q n = (k, ys, q1)" "run q1 xs = (ins, outs1, q')" "outs = ys @ outs1"
      using Cons.prems(2) by (auto simp: Inr split: prod.splits)
    note g = get_law [OF Cons.prems(1) a(1)]
    have "inv q' \<and> outs1 @ content q' = content q1 @ ins"
      using Cons.IH [OF _ a(2)] g Cons.prems(3) by simp
    then show ?thesis using g a(3) by (metis append.assoc append_take_drop_id)
  qed
qed simp

lemma put_get:
  assumes "inv q" and "content q = []" and "length xs = unat n" and "length xs \<le> cap q"
    and "put q xs n = (k, q1)" and "get q1 n = (k', ys, q2)"
  shows "ys = xs \<and> k = n \<and> content q2 = []"
  using put_law [OF assms(1,3,5)] get_law [OF _ assms(6)] assms(2-4)
  by (auto simp: word_unat_eq_iff)

end

interpretation fifo_queue: byte_queue fifo_inv fifo_content fifo_capacity fifo_write fifo_read
proof
  fix q q' :: fifo and n k :: u64 and xs ys :: "u8 list"
  assume inv: "fifo_inv q"
  show "fifo_inv q' \<and> fifo_capacity q' = fifo_capacity q \<and>
      unat k = min (length xs) (fifo_capacity q - length (fifo_content q)) \<and>
      fifo_content q' = fifo_content q @ take (unat k) xs"
    if "length xs = unat n" "fifo_write q xs n = (k, q')"
    using fifo_write_correct [OF inv that(1)] that by (auto simp: fifo_capacity_def)
  show "fifo_inv q' \<and> fifo_capacity q' = fifo_capacity q \<and> unat k = length ys \<and>
      ys = take (unat n) (fifo_content q) \<and> fifo_content q' = drop (unat n) (fifo_content q)"
    if "fifo_read q n = (k, ys, q')"
    using fifo_read_correct [OF inv, of n] that by (auto simp: fifo_capacity_def min_def)
  show "length (fifo_content q) \<le> fifo_capacity q"
    using fifo_len_bound [OF inv] inv by (simp add: fifo_capacity_def)
qed

section \<open>Properties\<close>

text \<open>C10. Through any sequence of reads and writes the ring buffer behaves as a queue: the bytes
  read, followed by the bytes still in the buffer, are the bytes that were in it at the start,
  followed by all bytes its writes accepted, in order, and the indices stay in range.\<close>

theorem fifo_in_order:
  assumes "fifo_inv f" and "fifo_queue.run f ops = (ins, outs, f')"
    and "\<forall>w. Inl w \<in> set ops \<longrightarrow> length w < 2 ^ 64"
  shows "fifo_inv f' \<and> outs @ fifo_content f' = fifo_content f @ ins"
  by (rule fifo_queue.run_in_order [OF assms])

theorem fifo_in_order_witness:
  "\<exists>ins outs f'. fifo_queue.run (FIFO_CREATE [0, 0, 0] 3) [Inl [7, 8, 9], Inr 1, Inl [5], Inr 2] =
     (ins, outs, f') \<and> fifo_inv f' \<and> outs @ fifo_content f' = ins"
proof -
  let ?f = "FIFO_CREATE [0, 0, 0] 3" and ?ops = "[Inl [7, 8, 9], Inr 1, Inl [5], Inr 2]"
  obtain ins outs f' where r: "fifo_queue.run ?f ?ops = (ins, outs, f')" using prod_cases3 by blast
  have "fifo_inv ?f" "fifo_content ?f = []"
    by (simp_all add: fifo_inv_def FIFO_CREATE_def fifo_content_def fifo_bytes_readable_def)
  then show ?thesis using fifo_in_order [OF _ r] r by auto
qed

text \<open>A write accepts as many bytes as fit behind the unused one and appends exactly those; a
  read returns and removes as many as are there, at most what was asked for.\<close>

theorem fifo_write_read_exact:
  assumes "fifo_inv f" and "length data = unat count"
  shows "(\<exists>c f'. fifo_write f data count = (c, f') \<and> fifo_inv f' \<and>
            unat c = min (unat count) (fifo_capacity f - length (fifo_content f)) \<and>
            fifo_content f' = fifo_content f @ take (unat c) data) \<and>
         (\<exists>c out f'. fifo_read f count = (c, out, f') \<and> fifo_inv f' \<and>
            unat c = min (unat count) (length (fifo_content f)) \<and>
            out = take (unat c) (fifo_content f) \<and> fifo_content f' = drop (unat c) (fifo_content f))"
  using fifo_write_correct [OF assms] fifo_read_correct [OF assms(1), of count] by force

end
