(* ===== verification/Hash_Map.thy ===== *)
theory Hash_Map
  imports Prelude
begin

text \<open>
  The intrusive hash map of \<^verbatim>\<open>src/kernel/utils/map.c\<close>: open addressing with linear probing,
  tombstones for removed entries and a capacity that doubles. An entry is an object of the
  caller, named by a number; \<open>hm_heap\<close> gives its fields, \<open>hm_entries\<close> is the array of
  slots and \<open>hm_self\<close> the address of the map, which entries point back to. Whether
  \<^verbatim>\<open>calloc\<close> finds memory is an argument of the operations that allocate.
\<close>

section \<open>Data\<close>

definition MAP_MIN_CAPACITY :: u64 where "MAP_MIN_CAPACITY = 16"
definition MAP_MAX_LOAD_PERCENTAGE :: u64 where "MAP_MAX_LOAD_PERCENTAGE = 75"
definition MAP_MIN_LOAD_PERCENTAGE :: u64 where "MAP_MIN_LOAD_PERCENTAGE = 25"
definition MAP_KEY_MAX_LENGTH :: u64 where "MAP_KEY_MAX_LENGTH = 118"

record map_key =
  mk_key :: "u8 list"
  mk_len :: u8
  mk_hash :: u64

type_synonym entry = nat

record map_entry =
  me_key :: map_key
  me_index :: u64
  me_map :: "nat option"

datatype slot = SNull | STombstone | SEntry entry

record hmap =
  hm_entries :: "slot list"
  hm_capacity :: u64
  hm_length :: u64
  hm_tombstones :: u64
  hm_self :: nat
  hm_heap :: "entry \<Rightarrow> map_entry"

section \<open>Keys\<close>

definition hash_object :: "u8 list \<Rightarrow> u64" where
  "hash_object object =
     foldl (\<lambda>hash b. (hash XOR ucast b) * 0x100000001b3) 0xcbf29ce484222325 object"

definition map_key_buffer :: "u8 list \<Rightarrow> map_key option" where
  "map_key_buffer buffer = do {
     assert_that (length buffer \<le> unat MAP_KEY_MAX_LENGTH);
     Some \<lparr>mk_key = buffer, mk_len = of_nat (length buffer), mk_hash = hash_object buffer\<rparr>
   }"

text \<open>The eight bytes of a number, lowest first.\<close>

definition bytes_of_u64 :: "u64 \<Rightarrow> u8 list" where
  "bytes_of_u64 x = List.map (\<lambda>i. ucast (drop_bit (8 * i) x)) [0..<8]"

definition map_key_uint64 :: "u64 \<Rightarrow> map_key" where
  "map_key_uint64 x =
     \<lparr>mk_key = bytes_of_u64 x, mk_len = 8, mk_hash = hash_object (bytes_of_u64 x)\<rparr>"

text \<open>\<open>str\<close> holds the bytes before the terminating zero; \<^verbatim>\<open>strnlen_s\<close> cuts it off at
  the longest key.\<close>

definition map_key_string :: "u8 list \<Rightarrow> map_key option" where
  "map_key_string str = map_key_buffer (take (unat MAP_KEY_MAX_LENGTH) str)"

definition map_key_is_equal :: "map_key \<Rightarrow> map_key \<Rightarrow> bool" where
  "map_key_is_equal a b =
     (if mk_hash a \<noteq> mk_hash b then False
      else if mk_len a \<noteq> mk_len b then False
      else take (unat (mk_len a)) (mk_key a) = take (unat (mk_len a)) (mk_key b))"

definition map_entry_init :: "entry \<Rightarrow> (entry \<Rightarrow> map_entry) \<Rightarrow> entry \<Rightarrow> map_entry" where
  "map_entry_init e h =
     h(e := (h e)\<lparr>me_key := \<lparr>mk_key = replicate (unat MAP_KEY_MAX_LENGTH) 0, mk_len = 0, mk_hash = 0\<rparr>,
                  me_index := ERR\<rparr>)"

section \<open>Slots\<close>

text \<open>The probing loop over the remaining steps, with the first tombstone seen so far.\<close>

fun find_slot_loop :: "hmap \<Rightarrow> map_key \<Rightarrow> bool \<Rightarrow> u64 \<Rightarrow> nat list \<Rightarrow> u64 \<Rightarrow> u64" where
  "find_slot_loop m key forInsertion index [] firstTombstone =
     (if forInsertion \<and> firstTombstone \<noteq> ERR then firstTombstone else ERR)"
| "find_slot_loop m key forInsertion index (i # is) firstTombstone =
     (let currentIndex = (index + of_nat i) AND (hm_capacity m - 1)
      in case hm_entries m ! unat currentIndex of
           SNull \<Rightarrow>
             if forInsertion \<and> firstTombstone \<noteq> ERR then firstTombstone else currentIndex
         | STombstone \<Rightarrow>
             find_slot_loop m key forInsertion index is
               (if forInsertion \<and> firstTombstone = ERR then currentIndex else firstTombstone)
         | SEntry e \<Rightarrow>
             if map_key_is_equal (me_key (hm_heap m e)) key then currentIndex
             else find_slot_loop m key forInsertion index is firstTombstone)"

definition map_find_slot :: "hmap \<Rightarrow> map_key \<Rightarrow> bool \<Rightarrow> u64" where
  "map_find_slot m key forInsertion =
     find_slot_loop m key forInsertion (mk_hash key AND (hm_capacity m - 1))
       [0..<unat (hm_capacity m)] ERR"

text \<open>\<^verbatim>\<open>entry->index = index; entry->map = map; map->entries[index] = entry\<close>.\<close>

definition place_entry :: "u64 \<Rightarrow> entry \<Rightarrow> hmap \<Rightarrow> hmap" where
  "place_entry index e m =
     m\<lparr>hm_heap := (hm_heap m)(e := (hm_heap m e)\<lparr>me_index := index, me_map := Some (hm_self m)\<rparr>),
       hm_entries := (hm_entries m)[unat index := SEntry e]\<rparr>"

text \<open>The loop of \<^verbatim>\<open>map_resize\<close> over the old slots; the flag is false when no slot was
  found.\<close>

fun rehash :: "slot list \<Rightarrow> hmap \<Rightarrow> bool \<times> hmap" where
  "rehash [] m = (True, m)"
| "rehash (s # ss) m =
     (case s of
        SEntry e \<Rightarrow>
          (let newIndex = map_find_slot m (me_key (hm_heap m e)) True
           in if newIndex = ERR then (False, m)
              else (let m = place_entry newIndex e m
                    in rehash ss (m\<lparr>hm_length := hm_length m + 1\<rparr>)))
      | _ \<Rightarrow> rehash ss m)"

text \<open>On failure the old array and counters come back; what the loop stored in the entries it
  had moved stays.\<close>

definition map_resize :: "bool \<Rightarrow> u64 \<Rightarrow> hmap \<Rightarrow> bool \<times> hmap" where
  "map_resize calloc_ok newCapacity m =
     (let newCapacity = (if \<not> IS_POW2 newCapacity then next_pow2 newCapacity else newCapacity)
      in if newCapacity \<le> hm_capacity m then (True, m)
         else if \<not> calloc_ok then (False, m)
         else
           (case rehash (hm_entries m)
                   (m\<lparr>hm_entries := replicate (unat newCapacity) SNull, hm_capacity := newCapacity,
                      hm_length := 0, hm_tombstones := 0\<rparr>) of
              (False, m') \<Rightarrow> (False, m\<lparr>hm_heap := hm_heap m'\<rparr>)
            | (True, m') \<Rightarrow> (True, m')))"

section \<open>Operations\<close>

definition map_init :: "hmap \<Rightarrow> hmap" where
  "map_init m = m\<lparr>hm_length := 0, hm_capacity := 0, hm_tombstones := 0, hm_entries := []\<rparr>"

definition map_deinit :: "hmap \<Rightarrow> hmap" where
  "map_deinit m = m\<lparr>hm_entries := [], hm_length := 0, hm_capacity := 0, hm_tombstones := 0\<rparr>"

definition map_resize_check :: "bool \<Rightarrow> hmap \<Rightarrow> bool \<times> hmap" where
  "map_resize_check calloc_ok m =
     (let currentEntries = hm_length m + hm_tombstones m
      in if currentEntries * 100 \<ge> MAP_MAX_LOAD_PERCENTAGE * hm_capacity m
         then map_resize calloc_ok (if hm_capacity m = 0 then MAP_MIN_CAPACITY else hm_capacity m * 2) m
         else (True, m))"

definition map_insert :: "bool \<Rightarrow> hmap \<Rightarrow> map_key \<Rightarrow> entry option \<Rightarrow> unit result \<times> hmap" where
  "map_insert calloc_ok m key entry =
     (case entry of
        None \<Rightarrow> (Inl EINVAL, m)
      | Some e \<Rightarrow>
          (case map_resize_check calloc_ok m of (ok, m) \<Rightarrow>
             if \<not> ok then (Inl ENOMEM, m)
             else
               (let index = map_find_slot m key True
                in if index = ERR then (Inl ENOMEM, m)
                   else if (case hm_entries m ! unat index of
                              SEntry e' \<Rightarrow> map_key_is_equal (me_key (hm_heap m e')) key
                            | _ \<Rightarrow> False)
                   then (Inl EEXIST, m)
                   else
                     (let m = (if hm_entries m ! unat index = STombstone
                               then m\<lparr>hm_tombstones := hm_tombstones m - 1\<rparr> else m);
                          m = m\<lparr>hm_heap := (hm_heap m)(e := (hm_heap m e)\<lparr>me_key := key\<rparr>)\<rparr>;
                          m = place_entry index e m
                      in (Inr (), m\<lparr>hm_length := hm_length m + 1\<rparr>)))))"

definition map_replace :: "bool \<Rightarrow> hmap \<Rightarrow> map_key \<Rightarrow> entry option \<Rightarrow> unit result \<times> hmap" where
  "map_replace calloc_ok m key entry =
     (case entry of
        None \<Rightarrow> (Inl EINVAL, m)
      | Some e \<Rightarrow>
          (case map_resize_check calloc_ok m of (ok, m) \<Rightarrow>
             if \<not> ok then (Inl ENOMEM, m)
             else
               (let index = map_find_slot m key True
                in if index = ERR then (Inl ENOMEM, m)
                   else
                     (let m = (case hm_entries m ! unat index of
                                 STombstone \<Rightarrow> m\<lparr>hm_tombstones := hm_tombstones m - 1,
                                                   hm_length := hm_length m + 1\<rparr>
                               | SNull \<Rightarrow> m\<lparr>hm_length := hm_length m + 1\<rparr>
                               | SEntry _ \<Rightarrow> m);
                          m = m\<lparr>hm_heap := (hm_heap m)(e := (hm_heap m e)\<lparr>me_key := key\<rparr>)\<rparr>
                      in (Inr (), place_entry index e m)))))"

definition map_get :: "hmap \<Rightarrow> map_key \<Rightarrow> entry option" where
  "map_get m key =
     (let index = map_find_slot m key False
      in if index = ERR then None
         else (case hm_entries m ! unat index of
                 SEntry e \<Rightarrow> if map_key_is_equal (me_key (hm_heap m e)) key then Some e else None
               | _ \<Rightarrow> None))"

definition map_remove_index :: "bool \<Rightarrow> hmap \<Rightarrow> u64 \<Rightarrow> hmap" where
  "map_remove_index calloc_ok m index =
     (case hm_entries m ! unat index of
        SEntry e \<Rightarrow>
          (let m = m\<lparr>hm_entries := (hm_entries m)[unat index := STombstone],
                     hm_length := hm_length m - 1, hm_tombstones := hm_tombstones m + 1\<rparr>;
               m = (if hm_capacity m > MAP_MIN_CAPACITY \<and>
                       hm_length m * 100 < MAP_MIN_LOAD_PERCENTAGE * hm_capacity m
                    then
                      (let newCapacity = hm_capacity m div 2;
                           newCapacity = (if newCapacity < MAP_MIN_CAPACITY then MAP_MIN_CAPACITY
                                          else newCapacity)
                       in snd (map_resize calloc_ok newCapacity m))
                    else m)
           in m\<lparr>hm_heap := (hm_heap m)(e := (hm_heap m e)\<lparr>me_index := ERR, me_map := None\<rparr>)\<rparr>)
      | _ \<Rightarrow> m)"

definition map_get_and_remove :: "bool \<Rightarrow> hmap \<Rightarrow> map_key \<Rightarrow> entry option \<times> hmap" where
  "map_get_and_remove calloc_ok m key =
     (let index = map_find_slot m key False
      in if index = ERR then (None, m)
         else (case hm_entries m ! unat index of
                 SEntry e \<Rightarrow>
                   if \<not> map_key_is_equal (me_key (hm_heap m e)) key then (None, m)
                   else (Some e, map_remove_index calloc_ok m index)
               | _ \<Rightarrow> (None, m)))"

definition map_remove :: "bool \<Rightarrow> hmap \<Rightarrow> entry option \<Rightarrow> hmap option" where
  "map_remove calloc_ok m entry =
     (case entry of
        None \<Rightarrow> Some m
      | Some e \<Rightarrow>
          if me_index (hm_heap m e) = ERR then Some m
          else do {
            assert_that (me_map (hm_heap m e) = Some (hm_self m));
            Some (map_remove_index calloc_ok m (me_index (hm_heap m e)))
          })"

definition map_remove_key :: "bool \<Rightarrow> hmap \<Rightarrow> map_key \<Rightarrow> hmap" where
  "map_remove_key calloc_ok m key =
     (let index = map_find_slot m key False
      in if index = ERR then m
         else (case hm_entries m ! unat index of
                 SEntry e \<Rightarrow>
                   if \<not> map_key_is_equal (me_key (hm_heap m e)) key then m
                   else map_remove_index calloc_ok m index
               | _ \<Rightarrow> m))"

definition map_size :: "hmap \<Rightarrow> u64" where "map_size m = hm_length m"
definition map_capacity :: "hmap \<Rightarrow> u64" where "map_capacity m = hm_capacity m"
definition map_is_empty :: "hmap \<Rightarrow> bool" where "map_is_empty m \<longleftrightarrow> hm_length m = 0"
definition map_contains :: "hmap \<Rightarrow> map_key \<Rightarrow> bool" where "map_contains m key \<longleftrightarrow> map_get m key \<noteq> None"

definition map_clear :: "hmap \<Rightarrow> hmap" where
  "map_clear m =
     (let m = foldl (\<lambda>m i.
                let m = (case hm_entries m ! i of
                           SEntry e \<Rightarrow> m\<lparr>hm_heap := (hm_heap m)
                             (e := (hm_heap m e)\<lparr>me_index := ERR, me_map := None\<rparr>)\<rparr>
                         | _ \<Rightarrow> m)
                in m\<lparr>hm_entries := (hm_entries m)[i := SNull]\<rparr>) m [0..<unat (hm_capacity m)]
      in m\<lparr>hm_length := 0, hm_tombstones := 0\<rparr>)"

definition map_reserve :: "bool \<Rightarrow> hmap \<Rightarrow> u64 \<Rightarrow> unit result \<times> hmap" where
  "map_reserve calloc_ok m minCapacity =
     (if minCapacity < hm_length m then (Inr (), m)
      else (case map_resize calloc_ok (next_pow2 minCapacity) m of (ok, m) \<Rightarrow>
              if \<not> ok then (Inl ENOMEM, m) else (Inr (), m)))"

end
