(* ===== verification/Hash_Map_Spec.thy ===== *)
theory Hash_Map_Spec
  imports Hash_Map
begin

text \<open>
  The hash map of \<^verbatim>\<open>src/kernel/utils/map.c\<close> as a finite map from keys to entries: the invariant
  of the slot array, what the probing loop finds, and the refinement of the operations.
\<close>

section \<open>Keys and slots\<close>

type_synonym key_id = "u64 \<times> u8 \<times> u8 list"

definition kid :: "map_key \<Rightarrow> key_id" where
  "kid k = (mk_hash k, mk_len k, take (unat (mk_len k)) (mk_key k))"

lemma map_key_is_equal_iff: "map_key_is_equal a b \<longleftrightarrow> kid a = kid b"
  by (auto simp: map_key_is_equal_def kid_def)

abbreviation cap :: "hmap \<Rightarrow> nat" where
  "cap m \<equiv> unat (hm_capacity m)"

definition ekey :: "hmap \<Rightarrow> entry \<Rightarrow> key_id" where
  "ekey m e = kid (me_key (hm_heap m e))"

definition ehash :: "hmap \<Rightarrow> entry \<Rightarrow> nat" where
  "ehash m e = unat (mk_hash (me_key (hm_heap m e)))"

definition matches :: "hmap \<Rightarrow> key_id \<Rightarrow> slot \<Rightarrow> bool" where
  "matches m k s = (case s of SEntry e \<Rightarrow> ekey m e = k | _ \<Rightarrow> False)"

lemma matches_simps [simp]:
  "\<not> matches m k SNull" "\<not> matches m k STombstone" "matches m k (SEntry e) \<longleftrightarrow> ekey m e = k"
  by (simp_all add: matches_def)

definition is_entry :: "slot \<Rightarrow> bool" where
  "is_entry s = (case s of SEntry _ \<Rightarrow> True | _ \<Rightarrow> False)"

lemma is_entry_simps [simp]: "\<not> is_entry SNull" "\<not> is_entry STombstone" "is_entry (SEntry e)"
  by (simp_all add: is_entry_def)

text \<open>The slot reached from hash value \<open>h\<close> after \<open>j\<close> steps.\<close>

abbreviation probe :: "hmap \<Rightarrow> nat \<Rightarrow> nat \<Rightarrow> nat" where
  "probe m h j \<equiv> (h + j) mod cap m"

abbreviation probed :: "hmap \<Rightarrow> nat \<Rightarrow> nat \<Rightarrow> slot" where
  "probed m h j \<equiv> hm_entries m ! probe m h j"

definition hm_shape :: "hmap \<Rightarrow> bool" where
  "hm_shape m \<longleftrightarrow> length (hm_entries m) = cap m \<and> (cap m = 0 \<or> (\<exists>k \<le> 56. cap m = 2 ^ k))"

text \<open>The invariant: counters, back pointers, no empty slot on the way from an entry's hash to
  its slot, and no key twice.\<close>

definition hm_inv :: "hmap \<Rightarrow> bool" where
  "hm_inv m \<longleftrightarrow>
     hm_shape m \<and>
     unat (hm_length m) = length (List.filter is_entry (hm_entries m)) \<and>
     unat (hm_tombstones m) = count_list (hm_entries m) STombstone \<and>
     (\<forall>i e. i < cap m \<and> hm_entries m ! i = SEntry e \<longrightarrow>
        me_index (hm_heap m e) = of_nat i \<and> me_map (hm_heap m e) = Some (hm_self m) \<and>
        (\<exists>d < cap m. probe m (ehash m e) d = i \<and> (\<forall>j < d. probed m (ehash m e) j \<noteq> SNull))) \<and>
     (\<forall>i j e f. i < cap m \<and> j < cap m \<and> hm_entries m ! i = SEntry e \<and> hm_entries m ! j = SEntry f \<and>
        ekey m e = ekey m f \<longrightarrow> i = j)"

text \<open>The finite map a slot array stands for.\<close>

definition slot_pairs :: "(entry \<Rightarrow> key_id) \<Rightarrow> slot list \<Rightarrow> (key_id \<times> entry) list" where
  "slot_pairs key ss = List.map_filter (\<lambda>s. case s of SEntry e \<Rightarrow> Some (key e, e) | _ \<Rightarrow> None) ss"

definition hm_abs :: "hmap \<Rightarrow> key_id \<Rightarrow> entry option" where
  "hm_abs m = map_of (slot_pairs (ekey m) (hm_entries m))"

section \<open>Index arithmetic\<close>

lemma and_pow2_minus_1:
  assumes "unat (c :: u64) = 2 ^ k" and "k < 64"
  shows "unat (x AND (c - 1)) = unat x mod 2 ^ k"
proof -
  have "c = of_nat (unat c)" by simp
  then have "c = 2 ^ k" by (simp only: assms(1) of_nat_power of_nat_numeral)
  then have "x AND (c - 1) = take_bit k x" by (simp add: take_bit_eq_mask mask_eq_exp_minus_1)
  then have "unat (x AND (c - 1)) = take_bit k (unat x)" by (simp only: unsigned_take_bit_eq)
  then show ?thesis by (simp only: take_bit_eq_mod)
qed

lemma unat_add_mod_pow2:
  assumes "k \<le> 64"
  shows "unat (x + y :: u64) mod 2 ^ k = (unat x + unat y) mod 2 ^ k"
proof -
  have "(2 :: nat) ^ k dvd 2 ^ 64" using assms by (intro le_imp_power_dvd)
  then show ?thesis by (simp add: unat_word_ariths(1) mod_mod_cancel)
qed

lemma hm_shape_pow2:
  assumes "hm_shape m" and "cap m \<noteq> 0"
  obtains k where "k \<le> 56" "cap m = 2 ^ k"
  using assms by (auto simp: hm_shape_def)

lemma unat_of_nat_u64: "i < 2 ^ 64 \<Longrightarrow> unat (of_nat i :: u64) = i"
  by (simp add: unat_of_nat take_bit_nat_eq_self)

lemma cap_less: "i < cap m \<Longrightarrow> i < 2 ^ 64"
  by (rule less_trans [of i "cap m"]) simp_all

lemma unat_index: "i < cap m \<Longrightarrow> unat (of_nat i :: u64) = i"
  by (rule unat_of_nat_u64 [OF cap_less])

lemma probe_index:
  assumes "hm_shape m" and "i < cap m"
  shows "unat (((h AND (hm_capacity m - 1)) + of_nat i) AND (hm_capacity m - 1)) = probe m (unat h) i"
proof -
  have "cap m \<noteq> 0" using assms(2) by simp
  then obtain k where k: "k \<le> 56" "cap m = 2 ^ k" using hm_shape_pow2 [OF assms(1)] by blast
  have and_: "unat (x AND (hm_capacity m - 1)) = unat x mod 2 ^ k" for x
    using k by (intro and_pow2_minus_1) auto
  have "unat (((h AND (hm_capacity m - 1)) + of_nat i) AND (hm_capacity m - 1)) =
      (unat (h AND (hm_capacity m - 1)) + unat (of_nat i :: u64)) mod 2 ^ k"
    using k(1) and_ [of "(h AND (hm_capacity m - 1)) + of_nat i"] by (simp only: unat_add_mod_pow2)
  also have "\<dots> = (unat h mod 2 ^ k + i) mod 2 ^ k" by (simp only: and_ unat_index [OF assms(2)])
  also have "\<dots> = probe m (unat h) i" by (simp only: k(2) mod_add_left_eq)
  finally show ?thesis .
qed

lemma probe_inj:
  assumes "probe m h i = probe m h j" and "i < cap m" and "j < cap m"
  shows "i = j"
proof -
  have "cap m dvd (h + max i j) - (h + min i j)"
    using assms(1) mod_eq_dvd_iff_nat [of "h + min i j" "h + max i j" "cap m"]
    by (cases "i \<le> j") (simp_all add: max_def min_def)
  then have "cap m dvd max i j - min i j" by simp
  moreover have "max i j - min i j < cap m" using assms(2,3) by auto
  ultimately have "max i j - min i j = 0" using dvd_imp_le by fastforce
  then show ?thesis by (simp add: max_def min_def split: if_splits)
qed

lemma probe_onto:
  assumes "i < cap m"
  obtains d where "d < cap m" "probe m h d = i"
proof
  let ?d = "(i + (cap m - h mod cap m)) mod cap m"
  show "?d < cap m" using assms by simp
  have "(h + ?d) mod cap m = (h mod cap m + (i + (cap m - h mod cap m))) mod cap m"
    by (simp only: mod_add_left_eq mod_add_right_eq)
  also have "h mod cap m + (i + (cap m - h mod cap m)) = i + cap m"
    using mod_less_divisor [of "cap m" h] assms by linarith
  finally show "probe m h ?d = i" using assms by simp
qed

section \<open>The probing loop\<close>

text \<open>What the loop returns: after \<open>n\<close> steps past slots that are neither empty nor hold the
  key it finds the key, or it finds an empty slot or runs out, and for an insertion then prefers
  a tombstone it has passed.\<close>

definition found :: "hmap \<Rightarrow> map_key \<Rightarrow> bool \<Rightarrow> u64 \<Rightarrow> nat \<Rightarrow> bool" where
  "found m key ins r n \<longleftrightarrow>
     (let at = probed m (unat (mk_hash key)); pos = probe m (unat (mk_hash key)) in
      n \<le> cap m \<and> (\<forall>j < n. at j \<noteq> SNull \<and> \<not> matches m (kid key) (at j)) \<and>
      (n < cap m \<and> matches m (kid key) (at n) \<and> unat r = pos n \<or>
       n < cap m \<and> at n = SNull \<and> unat r = pos n \<or>
       (n < cap m \<longrightarrow> at n = SNull) \<and> ins \<and> (\<exists>j < n. at j = STombstone \<and> unat r = pos j) \<or>
       n = cap m \<and> r = ERR \<and> (ins \<longrightarrow> (\<forall>j < n. at j \<noteq> STombstone))))"

lemma find_slot_loop_found:
  assumes shape: "hm_shape m"
    and before: "\<forall>j < i. probed m (unat (mk_hash key)) j \<noteq> SNull \<and>
                   \<not> matches m (kid key) (probed m (unat (mk_hash key)) j)"
    and tomb: "tomb = ERR \<and> (ins \<longrightarrow> (\<forall>j < i. probed m (unat (mk_hash key)) j \<noteq> STombstone)) \<or>
       ins \<and> (\<exists>j < i. probed m (unat (mk_hash key)) j = STombstone \<and>
                      unat tomb = probe m (unat (mk_hash key)) j \<and> tomb \<noteq> ERR)"
    and i: "i \<le> cap m"
  shows "\<exists>n. found m key ins
     (find_slot_loop m key ins (mk_hash key AND (hm_capacity m - 1)) [i..<cap m] tomb) n"
  using before tomb i
proof (induction "cap m - i" arbitrary: i tomb)
  case 0
  then have "i = cap m" by simp
  then show ?case using 0(2,3) by (intro exI [of _ "cap m"]) (auto simp: found_def Let_def)
next
  case (Suc d)
  let ?at = "probed m (unat (mk_hash key))" and ?pos = "probe m (unat (mk_hash key))"
  let ?cur = "((mk_hash key AND (hm_capacity m - 1)) + of_nat i) AND (hm_capacity m - 1)"
  have i: "i < cap m" using Suc.hyps(2) by simp
  have cur: "unat ?cur = ?pos i" using probe_index [OF shape i] .
  have upt: "[i..<cap m] = i # [Suc i..<cap m]" using i by (simp add: upt_conv_Cons)
  have d: "d = cap m - Suc i" using Suc.hyps(2) by simp
  have ne: "?cur \<noteq> ERR"
  proof
    assume "?cur = ERR"
    then have "?pos i = unat ERR" using cur by simp
    moreover have "?pos i < cap m" using i by simp
    moreover have "cap m \<le> unat ERR"
      by (simp add: ERR_def unsigned_minus_1_eq_mask mask_eq_exp_minus_1)
    ultimately show False by simp
  qed
  show ?case
  proof (cases "?at i")
    case SNull
    then have "find_slot_loop m key ins (mk_hash key AND (hm_capacity m - 1)) [i..<cap m] tomb =
        (if ins \<and> tomb \<noteq> ERR then tomb else ?cur)"
      by (simp add: upt cur Let_def)
    then show ?thesis using SNull Suc.prems(1,2) i cur
      by (intro exI [of _ i]) (auto simp: found_def Let_def)
  next
    case STombstone
    let ?t = "if ins \<and> tomb = ERR then ?cur else tomb"
    have step: "find_slot_loop m key ins (mk_hash key AND (hm_capacity m - 1)) [i..<cap m] tomb =
        find_slot_loop m key ins (mk_hash key AND (hm_capacity m - 1)) [Suc i..<cap m] ?t"
      using STombstone by (simp add: upt cur Let_def)
    show ?thesis
      unfolding step
    proof (rule Suc.hyps(1) [OF d])
      show "\<forall>j < Suc i. ?at j \<noteq> SNull \<and> \<not> matches m (kid key) (?at j)"
        using Suc.prems(1) STombstone by (auto simp: less_Suc_eq)
      show "?t = ERR \<and> (ins \<longrightarrow> (\<forall>j < Suc i. ?at j \<noteq> STombstone)) \<or>
          ins \<and> (\<exists>j < Suc i. ?at j = STombstone \<and> unat ?t = ?pos j \<and> ?t \<noteq> ERR)"
        using Suc.prems(2) STombstone cur ne by (auto simp: less_Suc_eq)
    qed (use i in simp)
  next
    case (SEntry e)
    show ?thesis
    proof (cases "ekey m e = kid key")
      case True
      then have "find_slot_loop m key ins (mk_hash key AND (hm_capacity m - 1)) [i..<cap m] tomb = ?cur"
        using SEntry by (simp add: upt cur Let_def map_key_is_equal_iff ekey_def)
      then show ?thesis using SEntry True Suc.prems(1) i cur
        by (intro exI [of _ i]) (auto simp: found_def Let_def)
    next
      case False
      have step: "find_slot_loop m key ins (mk_hash key AND (hm_capacity m - 1)) [i..<cap m] tomb =
          find_slot_loop m key ins (mk_hash key AND (hm_capacity m - 1)) [Suc i..<cap m] tomb"
        using SEntry False by (simp add: upt cur Let_def map_key_is_equal_iff ekey_def)
      show ?thesis
        unfolding step
      proof (rule Suc.hyps(1) [OF d])
        show "\<forall>j < Suc i. ?at j \<noteq> SNull \<and> \<not> matches m (kid key) (?at j)"
          using Suc.prems(1) SEntry False by (auto simp: less_Suc_eq)
        show "tomb = ERR \<and> (ins \<longrightarrow> (\<forall>j < Suc i. ?at j \<noteq> STombstone)) \<or>
            ins \<and> (\<exists>j < Suc i. ?at j = STombstone \<and> unat tomb = ?pos j \<and> tomb \<noteq> ERR)"
          using Suc.prems(2) SEntry by (auto simp: less_Suc_eq)
      qed (use i in simp)
    qed
  qed
qed

lemma map_find_slot_found:
  assumes "hm_shape m"
  shows "\<exists>n. found m key ins (map_find_slot m key ins) n"
  unfolding map_find_slot_def by (rule find_slot_loop_found [OF assms]) auto

section \<open>Consequences of the invariant\<close>

lemma hm_invD:
  assumes "hm_inv m"
  shows "hm_shape m"
    and "unat (hm_length m) = length (List.filter is_entry (hm_entries m))"
    and "unat (hm_tombstones m) = count_list (hm_entries m) STombstone"
    and "i < cap m \<Longrightarrow> hm_entries m ! i = SEntry e \<Longrightarrow>
           me_index (hm_heap m e) = of_nat i \<and> me_map (hm_heap m e) = Some (hm_self m)"
    and "i < cap m \<Longrightarrow> hm_entries m ! i = SEntry e \<Longrightarrow>
           \<exists>d < cap m. probe m (ehash m e) d = i \<and> (\<forall>j < d. probed m (ehash m e) j \<noteq> SNull)"
    and "i < cap m \<Longrightarrow> j < cap m \<Longrightarrow> hm_entries m ! i = SEntry e \<Longrightarrow> hm_entries m ! j = SEntry f \<Longrightarrow>
           ekey m e = ekey m f \<Longrightarrow> i = j"
  using assms unfolding hm_inv_def by blast+

lemma ehash_kid: "ekey m e = kid key \<Longrightarrow> ehash m e = unat (mk_hash key)"
  by (simp add: ekey_def ehash_def kid_def)

text \<open>A key that is present is found where it is.\<close>

lemma find_present:
  assumes inv: "hm_inv m" and i: "i < cap m" "hm_entries m ! i = SEntry e" and key: "ekey m e = kid key"
  shows "unat (map_find_slot m key ins) = i" and "map_find_slot m key ins \<noteq> ERR"
proof -
  let ?at = "probed m (unat (mk_hash key))" and ?pos = "probe m (unat (mk_hash key))"
  obtain d where d: "d < cap m" "?pos d = i" "\<forall>j < d. ?at j \<noteq> SNull"
    using hm_invD(5) [OF inv i] ehash_kid [OF key] by auto
  have at_d: "?at d = SEntry e" using d(2) i(2) by simp
  obtain n where n: "found m key ins (map_find_slot m key ins) n"
    using map_find_slot_found [OF hm_invD(1) [OF inv]] by blast
  have n_le: "n \<le> cap m" "\<forall>j < n. ?at j \<noteq> SNull \<and> \<not> matches m (kid key) (?at j)"
    using n by (simp_all add: found_def Let_def)
  have "\<not> d < n" using n_le(2) at_d key by auto
  moreover have "n = d" if nd: "n < d" and mat: "matches m (kid key) (?at n)"
  proof -
    obtain f where f: "?at n = SEntry f" "ekey m f = kid key"
      using mat by (auto simp: matches_def split: slot.splits)
    have "?pos n = i" using hm_invD(6) [OF inv _ i(1) f(1) i(2)] f(2) key i(1) by simp
    then show ?thesis using probe_inj [where m = m and h = "unat (mk_hash key)" and i = n and j = d] d nd n_le(1) by simp
  qed
  moreover have "matches m (kid key) (?at n)" if "n < d"
    using n d(1,3) that unfolding found_def Let_def by (metis less_trans nat_less_le)
  ultimately have "n = d" by (metis linorder_neqE_nat)
  then show r: "unat (map_find_slot m key ins) = i" using n at_d d(1,2) key by (auto simp: found_def Let_def)
  show "map_find_slot m key ins \<noteq> ERR"
  proof
    assume "map_find_slot m key ins = ERR"
    then have "i = unat ERR" using r by simp
    moreover have "cap m \<le> unat ERR"
      by (simp add: ERR_def unsigned_minus_1_eq_mask mask_eq_exp_minus_1)
    ultimately show False using i(1) by simp
  qed
qed

text \<open>For an absent key the loop finds an empty slot, or for an insertion a tombstone, to which a
  path without empty slots leads, or it reports that there is none.\<close>

lemma find_absent:
  assumes inv: "hm_inv m" and key: "\<forall>i e. i < cap m \<and> hm_entries m ! i = SEntry e \<longrightarrow> ekey m e \<noteq> kid key"
  obtains (slot) d where "d < cap m" "unat (map_find_slot m key ins) = probe m (unat (mk_hash key)) d"
      "\<forall>j < d. probed m (unat (mk_hash key)) j \<noteq> SNull"
      "probed m (unat (mk_hash key)) d = SNull \<or> ins \<and> probed m (unat (mk_hash key)) d = STombstone"
      "map_find_slot m key ins \<noteq> ERR"
  | (full) "map_find_slot m key ins = ERR" "\<forall>i < cap m. hm_entries m ! i \<noteq> SNull"
      "ins \<Longrightarrow> \<forall>i < cap m. hm_entries m ! i \<noteq> STombstone"
proof -
  let ?at = "probed m (unat (mk_hash key))" and ?pos = "probe m (unat (mk_hash key))"
  let ?r = "map_find_slot m key ins"
  obtain n where n: "found m key ins ?r n" using map_find_slot_found [OF hm_invD(1) [OF inv]] by blast
  have nomatch: "\<not> matches m (kid key) (?at j)" if "j < cap m" for j
  proof -
    have "?pos j < cap m" using that by (intro mod_less_divisor) linarith
    then show ?thesis using key by (auto simp: matches_def split: slot.splits)
  qed
  have small: "?r \<noteq> ERR" if "unat ?r = ?pos j" "j < cap m" for j
  proof
    assume "?r = ERR"
    then have "?pos j = unat ERR" using that(1) by simp
    moreover have "?pos j < cap m" using that(2) by (intro mod_less_divisor) linarith
    moreover have "cap m \<le> unat ERR"
      by (simp add: ERR_def unsigned_minus_1_eq_mask mask_eq_exp_minus_1)
    ultimately show False by simp
  qed
  have all: "P (hm_entries m ! i)" if "\<forall>j < cap m. P (?at j)" "i < cap m" for P i
    using probe_onto [OF that(2), of "unat (mk_hash key)"] that(1) by metis
  from n consider
      (empty) "n < cap m" "?at n = SNull" "unat ?r = ?pos n" "\<forall>j < n. ?at j \<noteq> SNull"
    | (tomb) j where "ins" "j < n" "n \<le> cap m" "?at j = STombstone" "unat ?r = ?pos j" "\<forall>j < n. ?at j \<noteq> SNull"
    | (none) "?r = ERR" "\<forall>j < cap m. ?at j \<noteq> SNull" "ins \<longrightarrow> (\<forall>j < cap m. ?at j \<noteq> STombstone)"
    using nomatch unfolding found_def Let_def by blast
  then show thesis
  proof cases
    case empty
    then show thesis using small by (intro slot [of n]) simp_all
  next
    case tomb
    then show thesis using small [of j] by (intro slot [of j]) simp_all
  next
    case none
    then show thesis using all [of "\<lambda>s. s \<noteq> SNull"] all [of "\<lambda>s. s \<noteq> STombstone"] by (intro full) blast+
  qed
qed

section \<open>The abstraction\<close>

lemma slot_pairs_simps [simp]:
  "slot_pairs key [] = []"
  "slot_pairs key (SEntry e # ss) = (key e, e) # slot_pairs key ss"
  "slot_pairs key (SNull # ss) = slot_pairs key ss"
  "slot_pairs key (STombstone # ss) = slot_pairs key ss"
  by (simp_all add: slot_pairs_def List.map_filter_simps)

lemma set_slot_pairs: "set (slot_pairs key ss) = {(key e, e) |e. SEntry e \<in> set ss}"
proof (induction ss)
  case (Cons s ss)
  then show ?case by (cases s) auto
qed simp

lemma distinct_slot_pairs:
  assumes "\<And>i j e f. i < length ss \<Longrightarrow> j < length ss \<Longrightarrow> ss ! i = SEntry e \<Longrightarrow> ss ! j = SEntry f \<Longrightarrow>
             key e = key f \<Longrightarrow> i = j"
  shows "distinct (List.map fst (slot_pairs key ss))"
  using assms
proof (induction ss)
  case (Cons s ss)
  have IH: "distinct (List.map fst (slot_pairs key ss))"
    using Cons.IH Cons.prems [of "Suc _" "Suc _"] by simp
  show ?case
  proof (cases s)
    case (SEntry e)
    have "key f \<noteq> key e" if "SEntry f \<in> set ss" for f
    proof
      assume eq: "key f = key e"
      obtain j where "j < length ss" "ss ! j = SEntry f" using \<open>SEntry f \<in> set ss\<close> by (auto simp: in_set_conv_nth)
      then have "0 = Suc j" using Cons.prems [of 0 "Suc j" e f] SEntry eq by simp
      then show False by simp
    qed
    then have "key e \<notin> fst ` set (slot_pairs key ss)" unfolding set_slot_pairs by force
    then show ?thesis using IH SEntry by simp
  qed (use IH in simp_all)
qed simp

lemma hm_abs_Some:
  assumes "hm_inv m"
  shows "hm_abs m k = Some e \<longleftrightarrow> (\<exists>i < cap m. hm_entries m ! i = SEntry e \<and> ekey m e = k)"
proof -
  have len: "length (hm_entries m) = cap m" using hm_invD(1) [OF assms] by (simp add: hm_shape_def)
  have "distinct (List.map fst (slot_pairs (ekey m) (hm_entries m)))"
    by (rule distinct_slot_pairs) (use hm_invD(6) [OF assms] len in simp)
  then have "hm_abs m k = Some e \<longleftrightarrow> (k, e) \<in> set (slot_pairs (ekey m) (hm_entries m))"
    by (simp add: hm_abs_def map_of_eq_Some_iff)
  then show ?thesis using len by (auto simp: set_slot_pairs in_set_conv_nth)
qed

lemma hm_abs_None:
  assumes "hm_inv m"
  shows "hm_abs m k = None \<longleftrightarrow> (\<forall>i e. i < cap m \<and> hm_entries m ! i = SEntry e \<longrightarrow> ekey m e \<noteq> k)"
  unfolding not_Some_eq [symmetric] hm_abs_Some [OF assms] by blast

lemma hm_abs_eqI:
  assumes "hm_inv m" and "\<And>k e. (\<exists>i < cap m. hm_entries m ! i = SEntry e \<and> ekey m e = k) \<longleftrightarrow> g k = Some e"
  shows "hm_abs m = g"
proof
  fix k
  have eq: "hm_abs m k = Some e \<longleftrightarrow> g k = Some e" for e
    by (rule trans [OF hm_abs_Some [OF assms(1)] assms(2)])
  show "hm_abs m k = g k"
  proof (cases "g k")
    case None
    then show ?thesis using eq by (metis not_Some_eq)
  qed (simp add: eq)
qed

lemma length_filter_update:
  assumes "i < length xs"
  shows "length (List.filter P (xs[i := y])) + (if P (xs ! i) then 1 else 0) =
         length (List.filter P xs) + (if P y then 1 else 0)"
  using assms
proof (induction xs arbitrary: i)
  case (Cons x xs)
  then show ?case by (cases i) fastforce+
qed simp

lemma count_slot_update:
  assumes "i < length xs"
  shows "count_list (xs[i := y]) x + (if xs ! i = x then 1 else 0) =
         count_list xs x + (if y = x then 1 else (0 :: nat))"
  using length_filter_update [OF assms, of "(=) x" y]
  by (simp add: count_list_eq_length_filter eq_commute [of x])

section \<open>Lookup\<close>

lemma map_get_abs:
  assumes "hm_inv m"
  shows "map_get m key = hm_abs m (kid key)"
proof (cases "hm_abs m (kid key)")
  case (Some e)
  then obtain i where i: "i < cap m" "hm_entries m ! i = SEntry e" "ekey m e = kid key"
    using hm_abs_Some [OF assms] by blast
  then show ?thesis
    using find_present [OF assms i(1,2) i(3), of False] Some
    by (simp add: map_get_def Let_def map_key_is_equal_iff ekey_def)
next
  case None
  then have absent: "\<forall>i e. i < cap m \<and> hm_entries m ! i = SEntry e \<longrightarrow> ekey m e \<noteq> kid key"
    using hm_abs_None [OF assms] by blast
  show ?thesis
    by (rule find_absent [OF assms absent, of False]) (use None in \<open>simp_all add: map_get_def\<close>)
qed

section \<open>Storing an entry\<close>

text \<open>The end of \<^verbatim>\<open>map_insert\<close>: a free slot takes the entry under the key.\<close>

definition insert_at :: "u64 \<Rightarrow> map_key \<Rightarrow> entry \<Rightarrow> hmap \<Rightarrow> hmap" where
  "insert_at index key e m =
     (let m = (if hm_entries m ! unat index = STombstone
               then m\<lparr>hm_tombstones := hm_tombstones m - 1\<rparr> else m);
          m = m\<lparr>hm_heap := (hm_heap m)(e := (hm_heap m e)\<lparr>me_key := key\<rparr>)\<rparr>;
          m = place_entry index e m
      in m\<lparr>hm_length := hm_length m + 1\<rparr>)"

lemma insert_at_fields:
  "hm_entries (insert_at r key e m) = (hm_entries m)[unat r := SEntry e]"
  "hm_capacity (insert_at r key e m) = hm_capacity m"
  "hm_length (insert_at r key e m) = hm_length m + 1"
  "hm_tombstones (insert_at r key e m) =
     (if hm_entries m ! unat r = STombstone then hm_tombstones m - 1 else hm_tombstones m)"
  "hm_self (insert_at r key e m) = hm_self m"
  "hm_heap (insert_at r key e m) =
     (hm_heap m)(e := \<lparr>me_key = key, me_index = r, me_map = Some (hm_self m)\<rparr>)"
  by (cases "hm_heap m e"; simp add: insert_at_def place_entry_def Let_def)+

lemma insert_at_keys:
  "ekey (insert_at r key e m) f = (if f = e then kid key else ekey m f)"
  "ehash (insert_at r key e m) f = (if f = e then unat (mk_hash key) else ehash m f)"
  by (simp_all add: ekey_def ehash_def insert_at_fields)

lemma insert_at_counts:
  fixes key e
  assumes inv: "hm_inv m" and r: "unat r < cap m" "\<not> is_entry (hm_entries m ! unat r)"
  defines "m' \<equiv> insert_at r key e m"
  shows "unat (hm_length m') = length (List.filter is_entry (hm_entries m'))"
    and "unat (hm_tombstones m') = count_list (hm_entries m') STombstone"
proof -
  have len: "length (hm_entries m) = cap m" using hm_invD(1) [OF inv] by (simp add: hm_shape_def)
  let ?xs = "hm_entries m" and ?ys = "(hm_entries m)[unat r := SEntry e]"
  have f: "length (List.filter is_entry ?ys) = Suc (length (List.filter is_entry ?xs))"
    using length_filter_update [of "unat r" ?xs is_entry "SEntry e"] r len by simp
  have "length (List.filter is_entry ?ys) \<le> length ?ys" by (rule length_filter_le)
  then have room: "Suc (unat (hm_length m)) \<le> cap m" using f len hm_invD(2) [OF inv] by simp
  have "unat (hm_length m + 1) = Suc (unat (hm_length m))"
  proof (rule unat_Suc_u64)
    have "unat (hm_length m) < 18446744073709551615"
      using room unat_u64_less [of "hm_capacity m"] by linarith
    then show "unat (hm_length m) < 2 ^ 64 - 1" by simp
  qed
  then show "unat (hm_length m') = length (List.filter is_entry (hm_entries m'))"
    using f hm_invD(2) [OF inv] by (simp add: m'_def insert_at_fields)
  have t: "count_list ?ys STombstone + (if ?xs ! unat r = STombstone then 1 else 0) = count_list ?xs STombstone"
    using count_slot_update [of "unat r" ?xs "SEntry e" STombstone] r len by simp
  show "unat (hm_tombstones m') = count_list (hm_entries m') STombstone"
  proof (cases "?xs ! unat r = STombstone")
    case True
    then have "unat (hm_tombstones m - 1) = unat (hm_tombstones m) - 1"
      using t hm_invD(3) [OF inv] by (simp add: unat_sub_u64)
    then show ?thesis using True t hm_invD(3) [OF inv] by (simp add: m'_def insert_at_fields)
  next
    case False
    then show ?thesis using t hm_invD(3) [OF inv] by (simp add: m'_def insert_at_fields)
  qed
qed

lemma insert_at_correct:
  assumes inv: "hm_inv m" and absent: "hm_abs m (kid key) = None"
    and d: "d < cap m" "unat r = probe m (unat (mk_hash key)) d"
      "\<forall>j < d. probed m (unat (mk_hash key)) j \<noteq> SNull"
      "\<not> is_entry (hm_entries m ! unat r)"
    and fresh: "\<forall>i < cap m. hm_entries m ! i \<noteq> SEntry e"
  defines "m' \<equiv> insert_at r key e m"
  shows "hm_inv m'" and "hm_abs m' = (hm_abs m)(kid key \<mapsto> e)"
proof -
  note F = insert_at_fields [of r key e m, folded m'_def]
  note K = insert_at_keys [of r key e m, folded m'_def]
  have len: "length (hm_entries m) = cap m" using hm_invD(1) [OF inv] by (simp add: hm_shape_def)
  have r: "unat r < cap m" unfolding d(2) using d(1) by (intro mod_less_divisor) linarith
  have ent: "hm_entries m' ! i = (if i = unat r then SEntry e else hm_entries m ! i)" if "i < cap m" for i
    using that len by (auto simp: F nth_list_update)
  have cp: "cap m' = cap m" by (simp add: F)
  have old: "hm_entries m ! i = SEntry f" "i \<noteq> unat r" "f \<noteq> e"
    if "i < cap m" "hm_entries m' ! i = SEntry f" "f \<noteq> e \<or> i \<noteq> unat r" for i f
    using that ent fresh by (auto split: if_splits)
  have nonnull: "hm_entries m' ! i \<noteq> SNull" if "i < cap m" "hm_entries m ! i \<noteq> SNull" for i
    using that ent by simp
  have pr: "probe m h j < cap m" for h j using d(1) by (intro mod_less_divisor) linarith
  have key_new: "ekey m f \<noteq> kid key" if "i < cap m" "hm_entries m ! i = SEntry f" for i f
    using hm_abs_None [OF inv] absent that by blast
  show inv': "hm_inv m'"
    unfolding hm_inv_def
  proof (intro conjI allI impI)
    show "hm_shape m'" using hm_invD(1) [OF inv] by (simp add: hm_shape_def F)
    show "unat (hm_length m') = length (List.filter is_entry (hm_entries m'))"
      "unat (hm_tombstones m') = count_list (hm_entries m') STombstone"
      unfolding m'_def using insert_at_counts [OF inv r d(4)] by blast+
  next
    fix i f
    assume a: "i < cap m' \<and> hm_entries m' ! i = SEntry f"
    then have i: "i < cap m" by (simp add: cp)
    have "me_index (hm_heap m' f) = of_nat i \<and> me_map (hm_heap m' f) = Some (hm_self m') \<and>
        (\<exists>d < cap m. probe m (ehash m' f) d = i \<and> (\<forall>j < d. probed m (ehash m' f) j \<noteq> SNull))"
    proof (cases "i = unat r")
      case True
      then have "f = e" using a ent i by simp
      then show ?thesis using True d(1,3) d(2) [symmetric] K by (auto simp: F)
    next
      case False
      then have o: "hm_entries m ! i = SEntry f" "f \<noteq> e" using old a i by blast+
      then show ?thesis using hm_invD(4,5) [OF inv i o(1)] K by (simp add: F)
    qed
    then show "me_index (hm_heap m' f) = of_nat i" "me_map (hm_heap m' f) = Some (hm_self m')"
      "\<exists>d < cap m'. probe m' (ehash m' f) d = i \<and> (\<forall>j < d. probed m' (ehash m' f) j \<noteq> SNull)"
      using nonnull pr unfolding cp by blast+
  next
    fix i j f g
    assume a: "i < cap m' \<and> j < cap m' \<and> hm_entries m' ! i = SEntry f \<and> hm_entries m' ! j = SEntry g \<and>
      ekey m' f = ekey m' g"
    then have ij: "i < cap m" "j < cap m" by (simp_all add: cp)
    show "i = j"
    proof (cases "i = unat r \<or> j = unat r")
      case True
      then show ?thesis
        using a ij ent [OF ij(1)] ent [OF ij(2)] old(1) [of _ f] old(1) [of _ g] key_new K fresh
        by (smt (verit, best) slot.inject)
    next
      case False
      then have "hm_entries m ! i = SEntry f" "hm_entries m ! j = SEntry g" "f \<noteq> e" "g \<noteq> e"
        using a ij old by blast+
      then show ?thesis using hm_invD(6) [OF inv ij] a K by simp
    qed
  qed
  show "hm_abs m' = (hm_abs m)(kid key \<mapsto> e)"
  proof (rule hm_abs_eqI [OF inv'])
    fix k f
    show "(\<exists>i < cap m'. hm_entries m' ! i = SEntry f \<and> ekey m' f = k) \<longleftrightarrow>
        ((hm_abs m)(kid key \<mapsto> e)) k = Some f"
    proof (cases "f = e")
      case True
      then show ?thesis using r ent [OF r] fresh K hm_abs_Some [OF inv, of k e] by (auto simp: cp)
    next
      case False
      then have "(\<exists>i < cap m. hm_entries m' ! i = SEntry f \<and> ekey m' f = k) \<longleftrightarrow> hm_abs m k = Some f"
        using hm_abs_Some [OF inv, of k f] K ent old(1) d(4) by (metis is_entry_simps(3))
      then show ?thesis using False absent by (auto simp: cp)
    qed
  qed
qed

section \<open>Growing the table\<close>

abbreviation n_entries :: "hmap \<Rightarrow> nat" where
  "n_entries m \<equiv> length (List.filter is_entry (hm_entries m))"

definition holds :: "hmap \<Rightarrow> entry set" where
  "holds m = {e. SEntry e \<in> set (hm_entries m)}"

lemma hm_inv_length: "hm_inv m \<Longrightarrow> length (hm_entries m) = cap m"
  using hm_invD(1) by (simp add: hm_shape_def)

lemma holds_iff: "hm_inv m \<Longrightarrow> e \<in> holds m \<longleftrightarrow> (\<exists>i < cap m. hm_entries m ! i = SEntry e)"
  by (auto simp: holds_def in_set_conv_nth hm_inv_length)

lemma holds_update:
  assumes "i < length xs" and "\<not> is_entry (xs ! i)"
  shows "SEntry f \<in> set (xs[i := SEntry e]) \<longleftrightarrow> f = e \<or> SEntry f \<in> set xs"
  using assms by (auto simp: in_set_conv_nth nth_list_update) (metis is_entry_simps(3))+

text \<open>An insertion into a table with a free slot succeeds and finds the place.\<close>

lemma free_slot_found:
  assumes inv: "hm_inv m" and absent: "hm_abs m (kid key) = None"
    and room: "n_entries m < cap m"
  defines "r \<equiv> map_find_slot m key True"
  shows "r \<noteq> ERR" and "unat r < cap m" and "\<not> is_entry (hm_entries m ! unat r)"
    and "\<exists>d < cap m. unat r = probe m (unat (mk_hash key)) d \<and>
           (\<forall>j < d. probed m (unat (mk_hash key)) j \<noteq> SNull)"
proof -
  have key: "\<forall>i e. i < cap m \<and> hm_entries m ! i = SEntry e \<longrightarrow> ekey m e \<noteq> kid key"
    using hm_abs_None [OF inv] absent by blast
  have "\<exists>d < cap m. unat r = probe m (unat (mk_hash key)) d \<and>
          (\<forall>j < d. probed m (unat (mk_hash key)) j \<noteq> SNull) \<and> r \<noteq> ERR \<and>
          \<not> is_entry (probed m (unat (mk_hash key)) d)"
  proof (rule find_absent [OF inv key, of True, folded r_def])
    fix d
    assume "d < cap m" "unat r = probe m (unat (mk_hash key)) d"
      "\<forall>j < d. probed m (unat (mk_hash key)) j \<noteq> SNull" "r \<noteq> ERR"
      "probed m (unat (mk_hash key)) d = SNull \<or> True \<and> probed m (unat (mk_hash key)) d = STombstone"
    then show ?thesis by (intro exI [of _ d]) auto
  next
    assume "\<forall>i < cap m. hm_entries m ! i \<noteq> SNull"
      "True \<Longrightarrow> \<forall>i < cap m. hm_entries m ! i \<noteq> STombstone"
    then have "is_entry (hm_entries m ! i)" if "i < cap m" for i
      using that by (cases "hm_entries m ! i") auto
    then have "List.filter is_entry (hm_entries m) = hm_entries m"
      using hm_inv_length [OF inv] by (auto simp: filter_id_conv in_set_conv_nth)
    then show ?thesis using room hm_inv_length [OF inv] by simp
  qed
  then show "r \<noteq> ERR" "unat r < cap m" "\<not> is_entry (hm_entries m ! unat r)"
    "\<exists>d < cap m. unat r = probe m (unat (mk_hash key)) d \<and>
           (\<forall>j < d. probed m (unat (mk_hash key)) j \<noteq> SNull)"
    by (auto intro: mod_less_divisor)
qed

lemma place_is_insert:
  assumes "hm_entries m ! unat r \<noteq> STombstone"
  shows "(place_entry r e m)\<lparr>hm_length := hm_length (place_entry r e m) + 1\<rparr> =
         insert_at r (me_key (hm_heap m e)) e m"
  using assms by (cases "hm_heap m e") (simp add: insert_at_def place_entry_def)

lemma rehash_correct:
  assumes "hm_inv m" and "STombstone \<notin> set (hm_entries m)"
    and "distinct (List.map fst (slot_pairs (ekey m) ss))"
    and "\<forall>e. SEntry e \<in> set ss \<longrightarrow> e \<notin> holds m \<and> hm_abs m (ekey m e) = None"
    and "length (List.filter is_entry ss) + n_entries m < cap m"
  shows "\<exists>m'. rehash ss m = (True, m') \<and> hm_inv m' \<and> STombstone \<notin> set (hm_entries m') \<and>
           hm_capacity m' = hm_capacity m \<and> hm_self m' = hm_self m \<and>
           hm_abs m' = hm_abs m ++ map_of (slot_pairs (ekey m) ss) \<and>
           n_entries m' = length (List.filter is_entry ss) + n_entries m \<and>
           holds m' = holds m \<union> {e. SEntry e \<in> set ss} \<and>
           (\<forall>f. me_key (hm_heap m' f) = me_key (hm_heap m f)) \<and>
           (\<forall>f. SEntry f \<notin> set ss \<longrightarrow> hm_heap m' f = hm_heap m f)"
  using assms
proof (induction ss arbitrary: m)
  case Nil
  then show ?case by simp
next
  case (Cons s ss)
  show ?case
  proof (cases s)
    case (SEntry e)
    let ?key = "me_key (hm_heap m e)"
    let ?r = "map_find_slot m ?key True"
    let ?m = "insert_at ?r ?key e m"
    have k: "kid ?key = ekey m e" by (simp add: ekey_def)
    have absent: "hm_abs m (kid ?key) = None" and fresh: "e \<notin> holds m"
      using Cons.prems(4) SEntry by (auto simp: k)
    have room: "n_entries m < cap m" using Cons.prems(5) by simp
    note free = free_slot_found [OF Cons.prems(1) absent room]
    obtain d where d: "d < cap m" "unat ?r = probe m (unat (mk_hash ?key)) d"
      "\<forall>j < d. probed m (unat (mk_hash ?key)) j \<noteq> SNull" using free(4) by blast
    have fresh': "\<forall>i < cap m. hm_entries m ! i \<noteq> SEntry e" using fresh holds_iff [OF Cons.prems(1)] by blast
    note ins = insert_at_correct [OF Cons.prems(1) absent d free(3) fresh']
    have nt: "hm_entries m ! unat ?r \<noteq> STombstone"
      using Cons.prems(2) free(2) hm_inv_length [OF Cons.prems(1)] nth_mem by metis
    have keys: "ekey ?m = ekey m" by (rule ext) (simp add: insert_at_keys k)
    have mk: "me_key (hm_heap ?m f) = me_key (hm_heap m f)" for f by (simp add: insert_at_fields)
    have len: "unat ?r < length (hm_entries m)" using free(2) hm_inv_length [OF Cons.prems(1)] by simp
    have tomb: "STombstone \<notin> set (hm_entries ?m)"
      using Cons.prems(2) set_update_subset_insert [of "hm_entries m" "unat ?r" "SEntry e"]
      by (auto simp: insert_at_fields)
    have hold: "holds ?m = insert e (holds m)"
      using holds_update [OF len free(3)] by (auto simp: holds_def insert_at_fields)
    have cnt: "n_entries ?m = Suc (n_entries m)"
      using length_filter_update [OF len, of is_entry "SEntry e"] free(3) by (simp add: insert_at_fields)
    have new: "ekey m e \<notin> fst ` set (slot_pairs (ekey m) ss)" using Cons.prems(3) SEntry by simp
    have notin2: "\<forall>f. SEntry f \<in> set ss \<longrightarrow> ekey m f \<noteq> ekey m e"
    proof (intro allI impI notI)
      fix f
      assume f: "SEntry f \<in> set ss" "ekey m f = ekey m e"
      then have "(ekey m e, f) \<in> set (slot_pairs (ekey m) ss)" unfolding set_slot_pairs by auto
      then have "fst (ekey m e, f) \<in> fst ` set (slot_pairs (ekey m) ss)" by (rule imageI)
      then show False using new by simp
    qed
    then have notin: "SEntry e \<notin> set ss" "\<forall>f. SEntry f \<in> set ss \<longrightarrow> ekey m f \<noteq> ekey m e" by blast+
    have "\<exists>m'. rehash ss ?m = (True, m') \<and> hm_inv m' \<and> STombstone \<notin> set (hm_entries m') \<and>
           hm_capacity m' = hm_capacity ?m \<and> hm_self m' = hm_self ?m \<and>
           hm_abs m' = hm_abs ?m ++ map_of (slot_pairs (ekey ?m) ss) \<and>
           n_entries m' = length (List.filter is_entry ss) + n_entries ?m \<and>
           holds m' = holds ?m \<union> {e. SEntry e \<in> set ss} \<and>
           (\<forall>f. me_key (hm_heap m' f) = me_key (hm_heap ?m f)) \<and>
           (\<forall>f. SEntry f \<notin> set ss \<longrightarrow> hm_heap m' f = hm_heap ?m f)"
    proof (rule Cons.IH [OF ins(1) tomb])
      show "distinct (List.map fst (slot_pairs (ekey ?m) ss))"
        using Cons.prems(3) SEntry by (simp add: keys)
      show "\<forall>f. SEntry f \<in> set ss \<longrightarrow> f \<notin> holds ?m \<and> hm_abs ?m (ekey ?m f) = None"
        using Cons.prems(4) notin hold ins(2) keys k by auto
      show "length (List.filter is_entry ss) + n_entries ?m < cap ?m"
        using Cons.prems(5) SEntry cnt by (simp add: insert_at_fields)
    qed
    then obtain m' where m': "rehash ss ?m = (True, m')" "hm_inv m'" "STombstone \<notin> set (hm_entries m')"
        "hm_capacity m' = hm_capacity m" "hm_self m' = hm_self m"
        "hm_abs m' = hm_abs ?m ++ map_of (slot_pairs (ekey m) ss)"
        "n_entries m' = length (List.filter is_entry ss) + n_entries ?m"
        "holds m' = holds ?m \<union> {e. SEntry e \<in> set ss}"
        "\<forall>f. me_key (hm_heap m' f) = me_key (hm_heap m f)"
        "\<forall>f. SEntry f \<notin> set ss \<longrightarrow> hm_heap m' f = hm_heap ?m f"
      unfolding keys mk insert_at_fields(2,5) by blast
    show ?thesis
    proof (intro exI [of _ m'] conjI)
      show "rehash (s # ss) m = (True, m')"
        using SEntry free(1) m'(1) place_is_insert [OF nt, of e] by (simp add: Let_def)
      have none: "map_of (slot_pairs (ekey m) ss) (ekey m e) = None"
        using new by (simp add: map_of_eq_None_iff)
      show "hm_abs m' = hm_abs m ++ map_of (slot_pairs (ekey m) (s # ss))"
        unfolding m'(6) ins(2) k using SEntry none
        by (auto simp: map_add_def fun_eq_iff split: option.split)
      show "\<forall>f. SEntry f \<notin> set (s # ss) \<longrightarrow> hm_heap m' f = hm_heap m f"
        using m'(10) SEntry by (auto simp: insert_at_fields)
      show "holds m' = holds m \<union> {e. SEntry e \<in> set (s # ss)}"
        unfolding m'(8) hold using SEntry by auto
    qed (use m' cnt SEntry in simp_all)
  qed (use Cons in auto)
qed

end
