(* ===== verification/Hash_Map_Ops.thy ===== *)
theory Hash_Map_Ops
  imports Hash_Map_Spec
begin

text \<open>
  Refinement of the operations of \<^verbatim>\<open>src/kernel/utils/map.c\<close> to operations on finite maps, and
  the contract of a key table, which the hash map satisfies.
\<close>

section \<open>Resizing\<close>

lemma pow2_word: "unat (c :: u64) = 2 ^ k \<Longrightarrow> c = 2 ^ k"
proof -
  assume a: "unat c = 2 ^ k"
  have "c = of_nat (unat c)" by simp
  then show "c = 2 ^ k" by (simp only: a of_nat_power of_nat_numeral)
qed

lemma IS_POW2_pow2:
  assumes "unat c = 2 ^ k" and "k < 64"
  shows "IS_POW2 c"
proof -
  have "c AND (c - 1) = 0" using and_pow2_minus_1 [OF assms, of c] assms(1) by (simp add: unat_eq_0)
  then show ?thesis by (simp add: IS_POW2_def)
qed

lemma map_resize_noop:
  "IS_POW2 n \<Longrightarrow> n \<le> hm_capacity m \<Longrightarrow> map_resize ok n m = (True, m)"
  by (simp add: map_resize_def)

text \<open>\<open>same_map m m'\<close>: the same keys, entries and values, in possibly different slots.\<close>

definition same_map :: "hmap \<Rightarrow> hmap \<Rightarrow> bool" where
  "same_map m m' \<longleftrightarrow> hm_abs m' = hm_abs m \<and> holds m' = holds m \<and> hm_self m' = hm_self m \<and>
     (\<forall>f. me_key (hm_heap m' f) = me_key (hm_heap m f)) \<and>
     (\<forall>f. f \<notin> holds m \<longrightarrow> hm_heap m' f = hm_heap m f)"

lemma same_map_refl [simp]: "same_map m m"
  by (simp add: same_map_def)

lemma same_map_ekey: "same_map m m' \<Longrightarrow> ekey m' e = ekey m e"
  by (simp add: same_map_def ekey_def)

lemma empty_table_inv:
  fixes m :: hmap
  assumes "unat n = 2 ^ k" and "k \<le> 56"
  defines "m0 \<equiv> m\<lparr>hm_entries := replicate (unat n) SNull, hm_capacity := n,
                   hm_length := 0, hm_tombstones := 0\<rparr>"
  shows "hm_inv m0" and "hm_abs m0 = Map.empty" and "holds m0 = {}"
proof -
  show inv: "hm_inv m0" using assms(1,2) by (auto simp: m0_def hm_inv_def hm_shape_def count_list_eq_length_filter)
  show "hm_abs m0 = Map.empty" by (rule hm_abs_eqI [OF inv]) (auto simp: m0_def)
  show "holds m0 = {}" by (auto simp: m0_def holds_def)
qed

lemma map_resize_correct:
  assumes inv: "hm_inv m" and n: "unat n = 2 ^ k" "k \<le> 56" "cap m < unat n"
  shows "\<exists>m'. map_resize ok n m = (ok, m') \<and> hm_inv m' \<and> same_map m m' \<and>
           (if ok then hm_capacity m' = n \<and> n_entries m' = n_entries m \<and> hm_tombstones m' = 0 else m' = m)"
proof (cases ok)
  case True
  let ?m0 = "m\<lparr>hm_entries := replicate (unat n) SNull, hm_capacity := n, hm_length := 0, hm_tombstones := 0\<rparr>"
  note e0 = empty_table_inv [OF n(1,2), of m]
  have key0: "ekey ?m0 = ekey m" by (rule ext) (simp add: ekey_def)
  have "STombstone \<notin> set (hm_entries ?m0)" by simp
  moreover have "distinct (List.map fst (slot_pairs (ekey ?m0) (hm_entries m)))"
    unfolding key0 by (rule distinct_slot_pairs) (use hm_invD(6) [OF inv] hm_inv_length [OF inv] in simp)
  moreover have "n_entries m \<le> cap m" using hm_inv_length [OF inv] length_filter_le by metis
  then have "n_entries m + n_entries ?m0 < cap ?m0" using n(3) by simp
  ultimately obtain m' where
    m': "rehash (hm_entries m) ?m0 = (True, m')" "hm_inv m'" "STombstone \<notin> set (hm_entries m')"
      "hm_capacity m' = n" "hm_self m' = hm_self m"
      "hm_abs m' = hm_abs ?m0 ++ map_of (slot_pairs (ekey ?m0) (hm_entries m))"
      "n_entries m' = n_entries m + n_entries ?m0" "holds m' = holds ?m0 \<union> {e. SEntry e \<in> set (hm_entries m)}"
      "\<forall>f. me_key (hm_heap m' f) = me_key (hm_heap ?m0 f)"
      "\<forall>f. SEntry f \<notin> set (hm_entries m) \<longrightarrow> hm_heap m' f = hm_heap ?m0 f"
    using rehash_correct [OF e0(1), of "hm_entries m"] e0(2,3) by auto
  have "hm_tombstones m' = 0"
    using hm_invD(3) [OF m'(2)] m'(3) by (simp add: count_list_0_iff unat_eq_0)
  moreover have "\<not> n \<le> hm_capacity m" using n(3) by (simp add: u64_nat)
  then have "map_resize ok n m = (True, m')"
    using True m'(1) IS_POW2_pow2 [OF n(1)] n(2) by (simp add: map_resize_def)
  moreover have "same_map m m'"
    using m'(5,6,8,9,10) e0(2,3) key0 by (simp add: same_map_def hm_abs_def holds_def)
  ultimately show ?thesis using True m' by (intro exI [of _ m']) simp
next
  case False
  moreover have "\<not> n \<le> hm_capacity m" using n(3) by (simp add: u64_nat)
  ultimately show ?thesis
    using inv IS_POW2_pow2 [OF n(1)] n(2) by (simp add: map_resize_def)
qed

lemma used_slots:
  assumes "hm_inv m"
  shows "n_entries m + unat (hm_tombstones m) \<le> cap m"
proof -
  have "length (List.filter is_entry xs) + count_list xs STombstone \<le> length xs" for xs
  proof (induction xs)
    case (Cons x xs)
    then show ?case by (cases x) auto
  qed simp
  from this [of "hm_entries m"] show ?thesis using hm_invD(3) [OF assms] hm_inv_length [OF assms] by simp
qed

lemma load_check:
  assumes inv: "hm_inv m"
  shows "(hm_length m + hm_tombstones m) * 100 \<ge> MAP_MAX_LOAD_PERCENTAGE * hm_capacity m \<longleftrightarrow>
         (n_entries m + unat (hm_tombstones m)) * 100 \<ge> 75 * cap m"
proof -
  have cap: "cap m \<le> 2 ^ 56"
    using hm_invD(1) [OF inv] power_increasing [of _ 56 "2 :: nat"] by (auto simp: hm_shape_def)
  have used: "unat (hm_length m) + unat (hm_tombstones m) \<le> cap m"
    using used_slots [OF inv] hm_invD(2) [OF inv] by simp
  have a: "unat (hm_length m + hm_tombstones m) = unat (hm_length m) + unat (hm_tombstones m)"
    using used by (rule unat_add_bounded_u64)
  have b: "unat ((hm_length m + hm_tombstones m) * 100) =
      (unat (hm_length m) + unat (hm_tombstones m)) * 100"
    using a used cap by (simp only: unat_word_ariths(2)) simp
  have c: "unat (MAP_MAX_LOAD_PERCENTAGE * hm_capacity m) = 75 * cap m"
    using cap by (simp add: MAP_MAX_LOAD_PERCENTAGE_def unat_word_ariths(2))
  show ?thesis unfolding word_le_nat_alt b c using hm_invD(2) [OF inv] by simp
qed

text \<open>After the load check succeeded there is a free slot.\<close>

lemma map_resize_check_correct:
  assumes inv: "hm_inv m" and cap: "cap m < 2 ^ 56"
  shows "\<exists>b m'. map_resize_check ok m = (b, m') \<and> hm_inv m' \<and> same_map m m' \<and> (ok \<longrightarrow> b) \<and>
           (b \<longrightarrow> n_entries m' < cap m') \<and> (\<not> b \<longrightarrow> m' = m) \<and> cap m \<le> cap m'"
proof (cases "75 * cap m \<le> (n_entries m + unat (hm_tombstones m)) * 100")
  case False
  then have "map_resize_check ok m = (True, m)"
    using load_check [OF inv] by (simp add: map_resize_check_def Let_def)
  moreover have "n_entries m * 100 < 75 * cap m" using False by (simp add: algebra_simps)
  then have "n_entries m < cap m" by linarith
  ultimately show ?thesis using inv by auto
next
  case True
  let ?n = "if hm_capacity m = 0 then MAP_MIN_CAPACITY else hm_capacity m * 2"
  have "\<exists>k \<le> 56. unat ?n = 2 ^ k \<and> cap m < unat ?n"
  proof (cases "hm_capacity m = 0")
    case True
    have "unat MAP_MIN_CAPACITY = 2 ^ 4" by (simp add: MAP_MIN_CAPACITY_def)
    then show ?thesis using True by (intro exI [of _ 4]) simp
  next
    case False
    then have "cap m \<noteq> 0" by (simp add: unat_eq_0)
    then obtain k where k: "k \<le> 56" "cap m = 2 ^ k" using hm_shape_pow2 [OF hm_invD(1) [OF inv]] by blast
    have "k < 56" using cap k by (cases "k = 56") auto
    moreover have "unat (hm_capacity m * 2) = 2 * cap m" using cap by (simp add: unat_word_ariths(2))
    ultimately show ?thesis using k False by (intro exI [of _ "Suc k"]) simp
  qed
  then obtain k where k: "k \<le> 56" "unat ?n = 2 ^ k" "cap m < unat ?n" by blast
  have eq: "map_resize_check ok m = map_resize ok ?n m"
    using True load_check [OF inv] by (simp add: map_resize_check_def Let_def)
  from map_resize_correct [OF inv k(2,1,3), of ok] obtain m' where
    m': "map_resize ok ?n m = (ok, m')" "hm_inv m'" "same_map m m'"
      "if ok then hm_capacity m' = ?n \<and> n_entries m' = n_entries m \<and> hm_tombstones m' = 0 else m' = m"
    by blast
  have "n_entries m \<le> cap m" using used_slots [OF inv] by simp
  then have "ok \<longrightarrow> n_entries m' < cap m'" "cap m \<le> cap m'" using m'(4) k(3) by (auto split: if_splits)
  then show ?thesis using eq m' by (intro exI [of _ ok] exI [of _ m']) auto
qed

section \<open>Insertion\<close>

lemma insert_at_same_map:
  "same_map m m' \<Longrightarrow> hm_abs m' = hm_abs m" "same_map m m' \<Longrightarrow> holds m' = holds m"
  by (simp_all add: same_map_def)

text \<open>After the load check, an absent key goes into a free slot; the slot of a present key is found.\<close>

lemma insert_slot_absent:
  assumes inv: "hm_inv m" and absent: "hm_abs m (kid key) = None" and room: "n_entries m < cap m"
    and fresh: "e \<notin> holds m"
  defines "r \<equiv> map_find_slot m key True"
  shows "r \<noteq> ERR" and "\<not> is_entry (hm_entries m ! unat r)" and "unat r < cap m"
    and "hm_inv (insert_at r key e m)" and "hm_abs (insert_at r key e m) = (hm_abs m)(kid key \<mapsto> e)"
    and "holds (insert_at r key e m) = insert e (holds m)"
proof -
  note free = free_slot_found [OF inv absent room, folded r_def]
  obtain d where d: "d < cap m" "unat r = probe m (unat (mk_hash key)) d"
    "\<forall>j < d. probed m (unat (mk_hash key)) j \<noteq> SNull" using free(4) by blast
  have fresh': "\<forall>i < cap m. hm_entries m ! i \<noteq> SEntry e" using fresh holds_iff [OF inv] by blast
  note ins = insert_at_correct [OF inv absent d free(3) fresh']
  show "r \<noteq> ERR" "\<not> is_entry (hm_entries m ! unat r)" "unat r < cap m"
    "hm_inv (insert_at r key e m)" "hm_abs (insert_at r key e m) = (hm_abs m)(kid key \<mapsto> e)"
    using free ins by blast+
  have "unat r < length (hm_entries m)" using free(2) hm_inv_length [OF inv] by simp
  then show "holds (insert_at r key e m) = insert e (holds m)"
    using holds_update [OF _ free(3)] by (auto simp: holds_def insert_at_fields)
qed

lemma insert_slot_present:
  assumes inv: "hm_inv m" and there: "hm_abs m (kid key) = Some f"
  defines "r \<equiv> map_find_slot m key True"
  shows "r \<noteq> ERR" and "unat r < cap m" and "hm_entries m ! unat r = SEntry f"
    and "map_key_is_equal (me_key (hm_heap m f)) key"
proof -
  obtain i where i: "i < cap m" "hm_entries m ! i = SEntry f" "ekey m f = kid key"
    using there hm_abs_Some [OF inv] by blast
  note find_present [OF inv i, of True, folded r_def]
  then show "r \<noteq> ERR" "unat r < cap m" "hm_entries m ! unat r = SEntry f"
    "map_key_is_equal (me_key (hm_heap m f)) key"
    using i by (simp_all add: map_key_is_equal_iff ekey_def)
qed

lemma map_insert_cases:
  assumes inv: "hm_inv m" and cap: "cap m < 2 ^ 56" and fresh: "e \<notin> holds m"
  obtains (nomem) "map_insert ok m key (Some e) = (Inl ENOMEM, m)" "\<not> ok"
  | (exists) m' f where "map_insert ok m key (Some e) = (Inl EEXIST, m')" "hm_inv m'" "same_map m m'"
      "hm_abs m (kid key) = Some f"
  | (inserted) m' where "map_insert ok m key (Some e) = (Inr (), m')" "hm_inv m'"
      "hm_abs m (kid key) = None" "hm_abs m' = (hm_abs m)(kid key \<mapsto> e)" "holds m' = insert e (holds m)"
proof -
  obtain b m1 where m1: "map_resize_check ok m = (b, m1)" "hm_inv m1" "same_map m m1" "ok \<longrightarrow> b"
    "b \<longrightarrow> n_entries m1 < cap m1" "\<not> b \<longrightarrow> m1 = m"
    using map_resize_check_correct [OF inv cap, of ok] by blast
  show thesis
  proof (cases b)
    case False
    then show thesis using m1 by (intro nomem) (auto simp: map_insert_def)
  next
    case True
    show thesis
    proof (cases "hm_abs m (kid key)")
      case None
      then have abs1: "hm_abs m1 (kid key) = None" using m1(3) insert_at_same_map by simp
      have "e \<notin> holds m1" using fresh m1(3) insert_at_same_map by simp
      note slot = insert_slot_absent [OF m1(2) abs1 _ this] 
      have room: "n_entries m1 < cap m1" using True m1(5) by blast
      let ?r = "map_find_slot m1 key True"
      have eq: "map_insert ok m key (Some e) = (Inr (), insert_at ?r key e m1)"
        using m1(1) True slot(1,2) [OF room]
        by (cases "hm_entries m1 ! unat ?r") (simp_all add: map_insert_def insert_at_def Let_def)
      show thesis
        by (rule inserted [OF eq]) (use slot(4-6) [OF room] None m1(3) insert_at_same_map in simp_all)
    next
      case (Some f)
      then have "hm_abs m1 (kid key) = Some f" using m1(3) insert_at_same_map by simp
      note slot = insert_slot_present [OF m1(2) this]
      have "map_insert ok m key (Some e) = (Inl EEXIST, m1)"
        using m1(1) True slot by (simp add: map_insert_def Let_def)
      then show thesis using exists m1(2,3) Some by blast
    qed
  qed
qed

section \<open>Removal\<close>

text \<open>\<^verbatim>\<open>map_remove_index\<close> asks for a smaller array, and \<^verbatim>\<open>map_resize\<close> ignores such a request.\<close>

definition remove_at :: "u64 \<Rightarrow> entry \<Rightarrow> hmap \<Rightarrow> hmap" where
  "remove_at index e m =
     m\<lparr>hm_entries := (hm_entries m)[unat index := STombstone], hm_length := hm_length m - 1,
       hm_tombstones := hm_tombstones m + 1,
       hm_heap := (hm_heap m)(e := (hm_heap m e)\<lparr>me_index := ERR, me_map := None\<rparr>)\<rparr>"

lemma half_capacity:
  assumes shape: "hm_shape m" and big: "hm_capacity m > MAP_MIN_CAPACITY"
  defines "n \<equiv> (if hm_capacity m div 2 < MAP_MIN_CAPACITY then MAP_MIN_CAPACITY else hm_capacity m div 2)"
  shows "IS_POW2 n" and "n \<le> hm_capacity m"
proof -
  have min: "unat MAP_MIN_CAPACITY = 2 ^ 4" by (simp add: MAP_MIN_CAPACITY_def)
  have "cap m \<noteq> 0" using big min by (simp add: word_less_nat_alt)
  then obtain k where k: "k \<le> 56" "cap m = 2 ^ k" using hm_shape_pow2 [OF shape] by blast
  have "4 < k" using big min k(2) by (simp add: word_less_nat_alt) (metis min power_less_imp_less_exp one_less_numeral_iff semiring_norm(76))
  then obtain j where j: "k = Suc j" "4 \<le> j" by (cases k) auto
  have "unat (hm_capacity m div 2) = 2 ^ j" using k j by (simp add: unat_div)
  then show "IS_POW2 n" unfolding n_def
    using IS_POW2_pow2 [of "hm_capacity m div 2" j] IS_POW2_pow2 [OF min] k j by simp
  show "n \<le> hm_capacity m" using big unfolding n_def word_le_nat_alt word_less_nat_alt by (simp add: unat_div)
qed

lemma map_remove_index_entry:
  assumes "hm_inv m" and "hm_entries m ! unat r = SEntry e"
  shows "map_remove_index ok m r = remove_at r e m"
proof -
  let ?m = "m\<lparr>hm_entries := (hm_entries m)[unat r := STombstone], hm_length := hm_length m - 1,
              hm_tombstones := hm_tombstones m + 1\<rparr>"
  let ?n = "if hm_capacity m div 2 < MAP_MIN_CAPACITY then MAP_MIN_CAPACITY else hm_capacity m div 2"
  note half = half_capacity [OF hm_invD(1) [OF assms(1)]]
  have "snd (map_resize ok ?n ?m) = ?m" if big: "hm_capacity m > MAP_MIN_CAPACITY"
  proof -
    have "?n \<le> hm_capacity ?m" using half(2) [OF big] by simp
    then have "map_resize ok ?n ?m = (True, ?m)" by (rule map_resize_noop [OF half(1) [OF big]])
    then show ?thesis by (simp only: snd_conv)
  qed
  then show ?thesis
    using assms(2) by (auto simp: map_remove_index_def remove_at_def Let_def)
qed

lemma remove_at_keys:
  "ekey (remove_at r e m) f = ekey m f" "ehash (remove_at r e m) f = ehash m f"
  by (simp_all add: ekey_def ehash_def remove_at_def)

lemma remove_at_counts:
  fixes e
  assumes inv: "hm_inv m" and r: "unat r < cap m" "is_entry (hm_entries m ! unat r)"
  defines "m' \<equiv> remove_at r e m"
  shows "unat (hm_length m') = n_entries m'"
    and "unat (hm_tombstones m') = count_list (hm_entries m') STombstone"
proof -
  have i: "unat r < length (hm_entries m)" using r hm_inv_length [OF inv] by simp
  have n: "n_entries m' + 1 = n_entries m"
    using length_filter_update [OF i, of is_entry STombstone] r(2) by (simp add: m'_def remove_at_def)
  have "unat (hm_length m - 1) = unat (hm_length m) - 1"
    using n hm_invD(2) [OF inv] by (simp add: unat_sub_u64)
  then show "unat (hm_length m') = n_entries m'"
    using n hm_invD(2) [OF inv] by (simp add: m'_def remove_at_def)
  have "hm_entries m ! unat r \<noteq> STombstone" using r(2) by auto
  then have t: "count_list (hm_entries m') STombstone = Suc (count_list (hm_entries m) STombstone)"
    using count_slot_update [OF i, of STombstone STombstone] by (simp add: m'_def remove_at_def)
  have "Suc (unat (hm_tombstones m)) \<le> cap m" using n used_slots [OF inv] by linarith
  then have "unat (hm_tombstones m + 1) = Suc (unat (hm_tombstones m))"
    using unat_add_bounded_u64 [of "hm_tombstones m" 1 "hm_capacity m"] by simp
  then show "unat (hm_tombstones m') = count_list (hm_entries m') STombstone"
    using t hm_invD(3) [OF inv] by (simp add: m'_def remove_at_def)
qed

lemma remove_at_correct:
  assumes inv: "hm_inv m" and r: "unat r < cap m" "hm_entries m ! unat r = SEntry e"
  defines "m' \<equiv> remove_at r e m"
  shows "hm_inv m'" and "hm_abs m' = (hm_abs m)(ekey m e := None)" and "holds m' = holds m - {e}"
proof -
  have len: "length (hm_entries m) = cap m" by (rule hm_inv_length [OF inv])
  note K = remove_at_keys [of r e m, folded m'_def]
  have cp: "cap m' = cap m" by (simp add: m'_def remove_at_def)
  have ent: "hm_entries m' ! i = (if i = unat r then STombstone else hm_entries m ! i)" if "i < cap m" for i
    using that len by (auto simp: m'_def remove_at_def nth_list_update)
  have old: "hm_entries m ! i = SEntry f \<and> f \<noteq> e" if "i < cap m" "hm_entries m' ! i = SEntry f" for i f
    using that ent [of i] r hm_invD(6) [OF inv, of i "unat r" f e] by (auto split: if_splits)
  have hp: "hm_heap m' f = hm_heap m f" if "f \<noteq> e" for f using that by (simp add: m'_def remove_at_def)
  have pr: "probe m h j < cap m" for h j using r(1) by (intro mod_less_divisor) linarith
  show inv': "hm_inv m'"
    unfolding hm_inv_def
  proof (intro conjI allI impI)
    show "hm_shape m'" using hm_invD(1) [OF inv] by (simp add: hm_shape_def m'_def remove_at_def)
    have "is_entry (hm_entries m ! unat r)" using r(2) by simp
    then show "unat (hm_length m') = n_entries m'"
      "unat (hm_tombstones m') = count_list (hm_entries m') STombstone"
      unfolding m'_def using remove_at_counts [OF inv r(1)] by blast+
  next
    fix i f
    assume a: "i < cap m' \<and> hm_entries m' ! i = SEntry f"
    then have o: "i < cap m" "hm_entries m ! i = SEntry f" "f \<noteq> e" using old cp by auto
    have "hm_self m' = hm_self m" by (simp add: m'_def remove_at_def)
    then show "me_index (hm_heap m' f) = of_nat i" "me_map (hm_heap m' f) = Some (hm_self m')"
      using hm_invD(4) [OF inv o(1,2)] hp [OF o(3)] by simp_all
    show "\<exists>d < cap m'. probe m' (ehash m' f) d = i \<and> (\<forall>j < d. probed m' (ehash m' f) j \<noteq> SNull)"
      unfolding cp K using hm_invD(5) [OF inv o(1,2)] ent pr by (metis slot.distinct(1))
  next
    fix i j f g
    assume a: "i < cap m' \<and> j < cap m' \<and> hm_entries m' ! i = SEntry f \<and> hm_entries m' ! j = SEntry g \<and>
      ekey m' f = ekey m' g"
    then show "i = j" using old [of i f] old [of j g] hm_invD(6) [OF inv, of i j f g] K cp by simp
  qed
  show "hm_abs m' = (hm_abs m)(ekey m e := None)"
  proof (rule hm_abs_eqI [OF inv'])
    fix k f
    have "(\<exists>i < cap m. hm_entries m' ! i = SEntry f \<and> ekey m f = k) \<longleftrightarrow>
        k \<noteq> ekey m e \<and> (\<exists>i < cap m. hm_entries m ! i = SEntry f \<and> ekey m f = k)"
    proof (intro iffI conjI)
      assume "\<exists>i < cap m. hm_entries m' ! i = SEntry f \<and> ekey m f = k"
      then obtain i where i: "i < cap m" "hm_entries m' ! i = SEntry f" "ekey m f = k" by blast
      then show "\<exists>i < cap m. hm_entries m ! i = SEntry f \<and> ekey m f = k" using old by blast
      have "i \<noteq> unat r" using i(2) ent [OF i(1)] by auto
      then show "k \<noteq> ekey m e" using old [OF i(1,2)] i hm_invD(6) [OF inv i(1) r(1) _ r(2)] by blast
    next
      assume a: "k \<noteq> ekey m e \<and> (\<exists>i < cap m. hm_entries m ! i = SEntry f \<and> ekey m f = k)"
      then obtain i where i: "i < cap m" "hm_entries m ! i = SEntry f" "ekey m f = k" by blast
      then have "i \<noteq> unat r" using a r(2) by auto
      then show "\<exists>i < cap m. hm_entries m' ! i = SEntry f \<and> ekey m f = k" using i ent [OF i(1)] by auto
    qed
    then show "(\<exists>i < cap m'. hm_entries m' ! i = SEntry f \<and> ekey m' f = k) \<longleftrightarrow>
        ((hm_abs m)(ekey m e := None)) k = Some f"
      using hm_abs_Some [OF inv, of k f] K cp by simp
  qed
  have "f \<in> holds m' \<longleftrightarrow> f \<in> holds m - {e}" for f
  proof
    assume "f \<in> holds m'"
    then show "f \<in> holds m - {e}" using old holds_iff [OF inv'] holds_iff [OF inv] cp by fastforce
  next
    assume a: "f \<in> holds m - {e}"
    then obtain i where i: "i < cap m" "hm_entries m ! i = SEntry f" using holds_iff [OF inv] by blast
    then have "i \<noteq> unat r" using a r(2) by auto
    then show "f \<in> holds m'" using i ent [OF i(1)] holds_iff [OF inv'] cp by auto
  qed
  then show "holds m' = holds m - {e}" by blast
qed

lemma find_slot_False:
  assumes inv: "hm_inv m" and "hm_abs m (kid key) = None"
  shows "map_find_slot m key False = ERR \<or> \<not> is_entry (hm_entries m ! unat (map_find_slot m key False))"
proof -
  have "\<forall>i e. i < cap m \<and> hm_entries m ! i = SEntry e \<longrightarrow> ekey m e \<noteq> kid key"
    using assms hm_abs_None [OF inv] by blast
  then show ?thesis by (rule find_absent [OF inv, of key False]) auto
qed

lemma map_remove_key_cases:
  assumes inv: "hm_inv m"
  obtains (absent) "hm_abs m (kid key) = None" "map_remove_key ok m key = m"
      "map_get_and_remove ok m key = (None, m)"
  | (removed) m' e where "hm_abs m (kid key) = Some e" "map_remove_key ok m key = m'"
      "map_get_and_remove ok m key = (Some e, m')" "hm_inv m'" "hm_abs m' = (hm_abs m)(kid key := None)"
      "holds m' = holds m - {e}" "hm_capacity m' = hm_capacity m" "me_index (hm_heap m' e) = ERR"
proof (cases "hm_abs m (kid key)")
  case None
  then show thesis
    using find_slot_False [OF inv None]
    by (intro absent)
       (auto simp: map_remove_key_def map_get_and_remove_def Let_def split: slot.splits)
next
  case (Some e)
  then obtain i where i: "i < cap m" "hm_entries m ! i = SEntry e" "ekey m e = kid key"
    using hm_abs_Some [OF inv] by blast
  let ?r = "map_find_slot m key False"
  note r = find_present [OF inv i, of False]
  have at: "unat ?r < cap m" "hm_entries m ! unat ?r = SEntry e" using r i by simp_all
  note rem = remove_at_correct [OF inv at]
  have "map_key_is_equal (me_key (hm_heap m e)) key" using i(3) by (simp add: map_key_is_equal_iff ekey_def)
  then have "map_remove_key ok m key = remove_at ?r e m"
    "map_get_and_remove ok m key = (Some e, remove_at ?r e m)"
    using r at map_remove_index_entry [OF inv at(2)]
    by (simp_all add: map_remove_key_def map_get_and_remove_def Let_def)
  then show thesis
    using removed [OF Some] rem i(3) by (simp add: remove_at_def)
qed

lemma ERR_max: "unat (c :: u64) \<le> unat ERR"
  by (simp add: ERR_def unsigned_minus_1_eq_mask mask_eq_exp_minus_1)

lemma map_remove_held:
  assumes inv: "hm_inv m" and e: "e \<in> holds m"
  shows "\<exists>m'. map_remove ok m (Some e) = Some m' \<and> hm_inv m' \<and> hm_abs m' = (hm_abs m)(ekey m e := None) \<and>
           holds m' = holds m - {e} \<and> me_index (hm_heap m' e) = ERR"
proof -
  obtain i where i: "i < cap m" "hm_entries m ! i = SEntry e" using e holds_iff [OF inv] by blast
  let ?r = "of_nat i :: u64"
  have r: "unat ?r = i" by (rule unat_index [OF i(1)])
  have "me_index (hm_heap m e) = ?r" "me_map (hm_heap m e) = Some (hm_self m)"
    using hm_invD(4) [OF inv i] by blast+
  moreover have "?r \<noteq> ERR" using r i(1) ERR_max [of "hm_capacity m"] by auto
  ultimately have "map_remove ok m (Some e) = Some (remove_at ?r e m)"
    using map_remove_index_entry [OF inv] i r by (simp add: map_remove_def assert_that_def)
  moreover have "me_index (hm_heap (remove_at ?r e m) e) = ERR" by (simp add: remove_at_def)
  ultimately show ?thesis using remove_at_correct [OF inv, of ?r e] i r by simp
qed

section \<open>Replacement\<close>

definition replace_at :: "u64 \<Rightarrow> map_key \<Rightarrow> entry \<Rightarrow> hmap \<Rightarrow> hmap" where
  "replace_at r key e m =
     place_entry r e (m\<lparr>hm_heap := (hm_heap m)(e := (hm_heap m e)\<lparr>me_key := key\<rparr>)\<rparr>)"

lemma replace_at_fields:
  "hm_entries (replace_at r key e m) = (hm_entries m)[unat r := SEntry e]"
  "hm_capacity (replace_at r key e m) = hm_capacity m"
  "hm_length (replace_at r key e m) = hm_length m"
  "hm_tombstones (replace_at r key e m) = hm_tombstones m"
  "hm_self (replace_at r key e m) = hm_self m"
  "hm_heap (replace_at r key e m) =
     (hm_heap m)(e := \<lparr>me_key = key, me_index = r, me_map = Some (hm_self m)\<rparr>)"
  by (cases "hm_heap m e"; simp add: replace_at_def place_entry_def)+

lemma replace_at_correct:
  assumes inv: "hm_inv m" and r: "unat r < cap m" "hm_entries m ! unat r = SEntry f" "ekey m f = kid key"
    and fresh: "e \<notin> holds m"
  defines "m' \<equiv> replace_at r key e m"
  shows "hm_inv m'" and "hm_abs m' = (hm_abs m)(kid key \<mapsto> e)"
proof -
  note F = replace_at_fields [of r key e m, folded m'_def]
  have len: "length (hm_entries m) = cap m" by (rule hm_inv_length [OF inv])
  have cp: "cap m' = cap m" by (simp add: F)
  have ent: "hm_entries m' ! i = (if i = unat r then SEntry e else hm_entries m ! i)" if "i < cap m" for i
    using that len by (auto simp: F nth_list_update)
  have kf: "ekey m' g = (if g = e then ekey m f else ekey m g)"
    "ehash m' g = (if g = e then ehash m f else ehash m g)" for g
    using r(3) ehash_kid [OF r(3)] by (simp_all add: ekey_def ehash_def F)
  have new: "hm_entries m ! i \<noteq> SEntry e" if "i < cap m" for i
    using fresh that holds_iff [OF inv] by blast
  have old: "\<exists>g'. hm_entries m ! i = SEntry g' \<and> ekey m g' = ekey m' g \<and> ehash m g' = ehash m' g \<and>
      (if i = unat r then g = e \<and> g' = f else g' = g \<and> g \<noteq> e)"
    if "i < cap m" "hm_entries m' ! i = SEntry g" for i g
    using that r(2) ent [OF that(1)] new [OF that(1)] kf by (cases "i = unat r") auto
  have null: "hm_entries m' ! i = SNull \<longleftrightarrow> hm_entries m ! i = SNull" if "i < cap m" for i
    using that ent r(2) by simp
  have pr: "probe m h j < cap m" for h j using r(1) by (intro mod_less_divisor) linarith
  have i: "unat r < length (hm_entries m)" using r(1) len by simp
  show inv': "hm_inv m'"
    unfolding hm_inv_def
  proof (intro conjI allI impI)
    show "hm_shape m'" using hm_invD(1) [OF inv] by (simp add: hm_shape_def F)
    show "unat (hm_length m') = n_entries m'"
      using hm_invD(2) [OF inv] length_filter_update [OF i, of is_entry "SEntry e"] r(2) by (simp add: F)
    show "unat (hm_tombstones m') = count_list (hm_entries m') STombstone"
      using hm_invD(3) [OF inv] count_slot_update [OF i, of "SEntry e" STombstone] r(2) by (simp add: F)
  next
    fix i g
    assume "i < cap m' \<and> hm_entries m' ! i = SEntry g"
    then have a: "i < cap m" "hm_entries m' ! i = SEntry g" by (simp_all add: cp)
    from old [OF a] obtain g' where g': "hm_entries m ! i = SEntry g'" "ehash m g' = ehash m' g"
      "if i = unat r then g = e \<and> g' = f else g' = g \<and> g \<noteq> e" by blast
    show "me_index (hm_heap m' g) = of_nat i" "me_map (hm_heap m' g) = Some (hm_self m')"
      using hm_invD(4) [OF inv a(1) g'(1)] g'(3) by (auto simp: F split: if_splits)
    show "\<exists>d < cap m'. probe m' (ehash m' g) d = i \<and> (\<forall>j < d. probed m' (ehash m' g) j \<noteq> SNull)"
      using hm_invD(5) [OF inv a(1) g'(1)] null pr unfolding cp g'(2) by simp
  next
    fix i j g h
    assume a: "i < cap m' \<and> j < cap m' \<and> hm_entries m' ! i = SEntry g \<and> hm_entries m' ! j = SEntry h \<and>
      ekey m' g = ekey m' h"
    then have ij: "i < cap m" "j < cap m" by (simp_all add: cp)
    obtain g' h' where "hm_entries m ! i = SEntry g'" "hm_entries m ! j = SEntry h'"
      "ekey m g' = ekey m' g" "ekey m h' = ekey m' h" using old a ij by blast
    then show "i = j" using hm_invD(6) [OF inv ij] a by simp
  qed
  show "hm_abs m' = (hm_abs m)(kid key \<mapsto> e)"
  proof (rule hm_abs_eqI [OF inv'])
    fix k g
    show "(\<exists>i < cap m'. hm_entries m' ! i = SEntry g \<and> ekey m' g = k) \<longleftrightarrow>
        ((hm_abs m)(kid key \<mapsto> e)) k = Some g"
    proof (cases "g = e")
      case True
      have "hm_abs m k \<noteq> Some e" using new hm_abs_Some [OF inv] by blast
      then show ?thesis using True r ent new kf cp by (auto split: if_splits)
    next
      case False
      have "(\<exists>i < cap m. hm_entries m' ! i = SEntry g \<and> ekey m g = k) \<longleftrightarrow>
          k \<noteq> kid key \<and> (\<exists>i < cap m. hm_entries m ! i = SEntry g \<and> ekey m g = k)"
      proof (intro iffI conjI)
        assume "\<exists>i < cap m. hm_entries m' ! i = SEntry g \<and> ekey m g = k"
        then obtain i where i: "i < cap m" "hm_entries m' ! i = SEntry g" "ekey m g = k" by blast
        have o: "hm_entries m ! i = SEntry g" "i \<noteq> unat r" using i(2) ent [OF i(1)] False by (auto split: if_splits)
        then show "\<exists>i < cap m. hm_entries m ! i = SEntry g \<and> ekey m g = k" using i by blast
        show "k \<noteq> kid key" using o hm_invD(6) [OF inv i(1) r(1) o(1) r(2)] r(3) i(3) by auto
      next
        assume a: "k \<noteq> kid key \<and> (\<exists>i < cap m. hm_entries m ! i = SEntry g \<and> ekey m g = k)"
        then obtain i where i: "i < cap m" "hm_entries m ! i = SEntry g" "ekey m g = k" by blast
        then have "i \<noteq> unat r" using a r by auto
        then show "\<exists>i < cap m. hm_entries m' ! i = SEntry g \<and> ekey m g = k" using i ent [OF i(1)] by auto
      qed
      then show ?thesis using False hm_abs_Some [OF inv, of k g] kf cp by simp
    qed
  qed
qed

lemma map_replace_cases:
  assumes inv: "hm_inv m" and cap: "cap m < 2 ^ 56" and fresh: "e \<notin> holds m"
  obtains (nomem) "map_replace ok m key (Some e) = (Inl ENOMEM, m)" "\<not> ok"
  | (inserted) m' where "map_replace ok m key (Some e) = (Inr (), m')" "hm_inv m'"
      "hm_abs m (kid key) = None" "hm_abs m' = (hm_abs m)(kid key \<mapsto> e)"
  | (replaced) m' f where "map_replace ok m key (Some e) = (Inr (), m')" "hm_inv m'"
      "hm_abs m (kid key) = Some f" "hm_abs m' = (hm_abs m)(kid key \<mapsto> e)"
      "f \<noteq> e" "me_index (hm_heap m' f) = me_index (hm_heap m' e)" "me_map (hm_heap m' f) = Some (hm_self m')"
      "me_index (hm_heap m' f) \<noteq> ERR"
proof -
  obtain b m1 where m1: "map_resize_check ok m = (b, m1)" "hm_inv m1" "same_map m m1" "ok \<longrightarrow> b"
    "b \<longrightarrow> n_entries m1 < cap m1" "\<not> b \<longrightarrow> m1 = m"
    using map_resize_check_correct [OF inv cap, of ok] by blast
  have fresh1: "e \<notin> holds m1" using fresh m1(3) insert_at_same_map by simp
  let ?r = "map_find_slot m1 key True"
  show thesis
  proof (cases b)
    case False
    then show thesis using m1 by (intro nomem) (auto simp: map_replace_def)
  next
    case True
    show thesis
    proof (cases "hm_abs m (kid key)")
      case None
      then have abs1: "hm_abs m1 (kid key) = None" using m1(3) insert_at_same_map by simp
      have room: "n_entries m1 < cap m1" using True m1(5) by blast
      note slot = insert_slot_absent [OF m1(2) abs1 room fresh1]
      have "map_replace ok m key (Some e) = (Inr (), insert_at ?r key e m1)"
        using m1(1) True slot(1,2)
        by (cases "hm_entries m1 ! unat ?r")
           (simp_all add: map_replace_def insert_at_def place_entry_def Let_def)
      then show thesis
        by (rule inserted) (use slot(4,5) None m1(3) insert_at_same_map in simp_all)
    next
      case (Some f)
      then have abs1: "hm_abs m1 (kid key) = Some f" using m1(3) insert_at_same_map by simp
      note slot = insert_slot_present [OF m1(2) this]
      have key: "ekey m1 f = kid key" using slot(4) by (simp add: map_key_is_equal_iff ekey_def)
      have ne: "f \<noteq> e" using fresh1 slot(2,3) holds_iff [OF m1(2)] by blast
      have "map_replace ok m key (Some e) = (Inr (), replace_at ?r key e m1)"
        using m1(1) True slot by (simp add: map_replace_def replace_at_def Let_def)
      moreover have "me_index (hm_heap m1 f) = ?r" "me_map (hm_heap m1 f) = Some (hm_self m1)"
        using hm_invD(4) [OF m1(2) slot(2,3)] by simp_all
      ultimately show thesis
        using replaced [OF _ _ Some _ ne] replace_at_correct [OF m1(2) slot(2,3) key fresh1]
          insert_at_same_map(1) [OF m1(3)] ne slot(1) by (simp add: replace_at_fields)
    qed
  qed
qed

section \<open>Clearing\<close>

definition clear_slot :: "hmap \<Rightarrow> nat \<Rightarrow> hmap" where
  "clear_slot m i =
     (let m = (case hm_entries m ! i of
                 SEntry e \<Rightarrow> m\<lparr>hm_heap := (hm_heap m)(e := (hm_heap m e)\<lparr>me_index := ERR, me_map := None\<rparr>)\<rparr>
               | _ \<Rightarrow> m)
      in m\<lparr>hm_entries := (hm_entries m)[i := SNull]\<rparr>)"

lemma clear_slot_fields:
  "hm_entries (clear_slot m i) = (hm_entries m)[i := SNull]"
  "hm_capacity (clear_slot m i) = hm_capacity m" "hm_self (clear_slot m i) = hm_self m"
  "hm_heap (clear_slot m i) f =
     (if hm_entries m ! i = SEntry f then (hm_heap m f)\<lparr>me_index := ERR, me_map := None\<rparr> else hm_heap m f)"
  by (auto simp: clear_slot_def Let_def split: slot.splits)

lemma map_clear_alt:
  "map_clear m =
     (foldl clear_slot m [0..<unat (hm_capacity m)])\<lparr>hm_length := 0, hm_tombstones := 0\<rparr>"
  by (simp add: map_clear_def clear_slot_def [abs_def] Let_def)

lemma clear_slots:
  assumes "n \<le> length (hm_entries m)"
  shows "hm_entries (foldl clear_slot m [0..<n]) = replicate n SNull @ drop n (hm_entries m)"
    and "hm_capacity (foldl clear_slot m [0..<n]) = hm_capacity m"
    and "hm_heap (foldl clear_slot m [0..<n]) f =
           (if \<exists>i < n. hm_entries m ! i = SEntry f then (hm_heap m f)\<lparr>me_index := ERR, me_map := None\<rparr>
            else hm_heap m f)"
  using assms
proof (induction n)
  case 0
  { case 1 then show ?case by simp }
  { case 2 then show ?case by simp }
  { case 3 then show ?case by simp }
next
  case (Suc n)
  let ?m = "foldl clear_slot m [0..<n]"
  { case 1
    have "drop n (hm_entries m) = hm_entries m ! n # drop (Suc n) (hm_entries m)"
      using 1 by (intro Cons_nth_drop_Suc [symmetric]) simp
    then show ?case using 1 Suc(1) by (simp add: clear_slot_fields list_update_append replicate_append_same)
  }
  { case 2 then show ?case using Suc(2) by (simp add: clear_slot_fields) }
  { case 3
    then have "hm_entries ?m ! n = hm_entries m ! n" using Suc(1) by (simp add: nth_append)
    then show ?case using 3 Suc(3) by (auto simp: clear_slot_fields less_Suc_eq)
  }
qed

lemma map_clear_correct:
  assumes inv: "hm_inv m"
  shows "hm_inv (map_clear m)" and "hm_abs (map_clear m) = Map.empty"
    and "e \<in> holds m \<Longrightarrow> me_index (hm_heap (map_clear m) e) = ERR \<and> me_map (hm_heap (map_clear m) e) = None"
    and "hm_capacity (map_clear m) = hm_capacity m"
proof -
  have len: "length (hm_entries m) = cap m" by (rule hm_inv_length [OF inv])
  note c = clear_slots [of "cap m" m, unfolded len, OF order_refl]
  have ent: "hm_entries (map_clear m) = replicate (cap m) SNull"
    using c(1) len by (simp add: map_clear_alt)
  show cp: "hm_capacity (map_clear m) = hm_capacity m" using c(2) by (simp add: map_clear_alt)
  have z: "hm_length (map_clear m) = 0" "hm_tombstones (map_clear m) = 0" by (simp_all add: map_clear_alt)
  have "hm_shape (map_clear m)" using hm_invD(1) [OF inv] len by (simp add: hm_shape_def ent cp)
  then show inv': "hm_inv (map_clear m)"
    by (auto simp: hm_inv_def ent cp z count_list_eq_length_filter)
  show "hm_abs (map_clear m) = Map.empty" by (rule hm_abs_eqI [OF inv']) (auto simp: ent cp)
  assume "e \<in> holds m"
  then have "\<exists>i < cap m. hm_entries m ! i = SEntry e" using holds_iff [OF inv] by blast
  then show "me_index (hm_heap (map_clear m) e) = ERR \<and> me_map (hm_heap (map_clear m) e) = None"
    using c(3) [of e] by (simp add: map_clear_alt)
qed

end
