(* ===== verification/Hash_Map_Properties.thy ===== *)
theory Hash_Map_Properties
  imports Hash_Map_Ops
begin

text \<open>
  The contract of a table of entries under keys, its consequences for a client, and the properties
  of the hash map of \<^verbatim>\<open>src/kernel/utils/map.c\<close>.
\<close>

section \<open>The contract of a key table\<close>

text \<open>\<open>ident\<close> tells which keys are the same, \<open>room\<close> bounds the size, \<open>del\<close> removes a key and
  \<open>drop_entry\<close> an entry.\<close>

locale key_table =
  fixes inv :: "'s \<Rightarrow> bool"
    and room :: "'s \<Rightarrow> bool"
    and contents :: "'s \<Rightarrow> 'i \<Rightarrow> 'v option"
    and ident :: "'k \<Rightarrow> 'i"
    and lookup :: "'s \<Rightarrow> 'k \<Rightarrow> 'v option"
    and ins :: "'s \<Rightarrow> 'k \<Rightarrow> 'v \<Rightarrow> unit result \<times> 's"
    and del :: "'s \<Rightarrow> 'k \<Rightarrow> 's"
    and drop_entry :: "'s \<Rightarrow> 'v \<Rightarrow> 's option"
  assumes lookup_law: "inv s \<Longrightarrow> lookup s k = contents s (ident k)"
    and ins_law: "inv s \<Longrightarrow> room s \<Longrightarrow> v \<notin> ran (contents s) \<Longrightarrow> ins s k v = (Inr (), s') \<Longrightarrow>
      inv s' \<and> contents s (ident k) = None \<and> contents s' = (contents s)(ident k \<mapsto> v)"
    and ins_error: "inv s \<Longrightarrow> room s \<Longrightarrow> v \<notin> ran (contents s) \<Longrightarrow> ins s k v = (Inl err, s') \<Longrightarrow>
      inv s' \<and> contents s' = contents s"
    and del_law: "inv s \<Longrightarrow> inv (del s k) \<and> contents (del s k) = (contents s)(ident k := None)"
    and drop_law: "inv s \<Longrightarrow> contents s i = Some v \<Longrightarrow>
      \<exists>s'. drop_entry s v = Some s' \<and> inv s' \<and> contents s' = (contents s)(i := None)"
begin

lemma lookup_inserted:
  assumes "inv s" "room s" "v \<notin> ran (contents s)" "ins s k v = (Inr (), s')"
  shows "lookup s' k' = (if ident k' = ident k then Some v else lookup s k')"
  using ins_law [OF assms] lookup_law assms(1) by simp

lemma lookup_deleted: "inv s \<Longrightarrow> lookup (del s k) k' = (if ident k' = ident k then None else lookup s k')"
  using del_law lookup_law by simp

lemma insert_drop:
  assumes "inv s" "room s" "v \<notin> ran (contents s)" "ins s k v = (Inr (), s')"
  shows "\<exists>s''. drop_entry s' v = Some s'' \<and> inv s'' \<and> (\<forall>k'. lookup s'' k' = lookup s k')"
proof -
  note i = ins_law [OF assms]
  then obtain s'' where "drop_entry s' v = Some s''" "inv s''" "contents s'' = (contents s')(ident k := None)"
    using drop_law [of s' "ident k" v] by auto
  moreover have "(contents s')(ident k := None) = contents s" using i by (simp add: fun_upd_idem)
  ultimately show ?thesis using lookup_law assms(1) by auto
qed

end

lemma holds_ran:
  assumes "hm_inv m"
  shows "holds m = ran (hm_abs m)"
  unfolding ran_def hm_abs_Some [OF assms] using holds_iff [OF assms] by blast

interpretation kernel_map: key_table hm_inv "\<lambda>m. cap m < 2 ^ 56" hm_abs kid map_get
  "\<lambda>m key e. map_insert ok m key (Some e)" "map_remove_key ok" "\<lambda>m e. map_remove ok m (Some e)"
  for ok
proof unfold_locales
  fix s :: hmap and k :: map_key
  assume "hm_inv s"
  then show "map_get s k = hm_abs s (kid k)" by (rule map_get_abs)
next
  fix s s' :: hmap and k :: map_key and v :: entry
  assume a: "hm_inv s" "cap s < 2 ^ 56" "v \<notin> ran (hm_abs s)" "map_insert ok s k (Some v) = (Inr (), s')"
  then have "v \<notin> holds s" by (simp add: holds_ran)
  from map_insert_cases [OF a(1,2) this, of ok k]
  show "hm_inv s' \<and> hm_abs s (kid k) = None \<and> hm_abs s' = (hm_abs s)(kid k \<mapsto> v)"
    by cases (use a(4) in simp_all)
next
  fix s s' :: hmap and k :: map_key and v :: entry and err
  assume a: "hm_inv s" "cap s < 2 ^ 56" "v \<notin> ran (hm_abs s)" "map_insert ok s k (Some v) = (Inl err, s')"
  then have "v \<notin> holds s" by (simp add: holds_ran)
  from map_insert_cases [OF a(1,2) this, of ok k] show "hm_inv s' \<and> hm_abs s' = hm_abs s"
    by cases (use a(1,4) in \<open>auto simp: same_map_def\<close>)
next
  fix s :: hmap and k :: map_key
  assume "hm_inv s"
  then show "hm_inv (map_remove_key ok s k) \<and> hm_abs (map_remove_key ok s k) = (hm_abs s)(kid k := None)"
    by (rule map_remove_key_cases [of s k ok]) (use \<open>hm_inv s\<close> in \<open>simp_all add: fun_upd_idem\<close>)
next
  fix s :: hmap and i and v :: entry
  assume a: "hm_inv s" "hm_abs s i = Some v"
  then have "v \<in> holds s" "ekey s v = i" using hm_abs_Some [OF a(1)] holds_iff [OF a(1)] by auto
  then show "\<exists>s'. map_remove ok s (Some v) = Some s' \<and> hm_inv s' \<and> hm_abs s' = (hm_abs s)(i := None)"
    using map_remove_held [OF a(1), of v ok] by auto
qed

section \<open>A table with one entry\<close>

definition example_key :: map_key where
  "example_key = \<lparr>mk_key = [97], mk_len = 1, mk_hash = 19\<rparr>"

definition example_map :: hmap where
  "example_map =
     \<lparr>hm_entries = (replicate 16 SNull)[3 := SEntry 7], hm_capacity = 16, hm_length = 1, hm_tombstones = 0,
      hm_self = 0, hm_heap = (\<lambda>_. \<lparr>me_key = example_key, me_index = 3, me_map = Some 0\<rparr>)\<rparr>"

lemma example_map_entry:
  "i < 16 \<Longrightarrow> (replicate 16 SNull)[3 := SEntry 7] ! i = SEntry e \<longleftrightarrow> i = 3 \<and> e = (7 :: entry)"
  by (auto simp: nth_list_update)

lemma example_map_inv: "hm_inv example_map" "cap example_map < 2 ^ 56" "holds example_map = {7}"
  "hm_abs example_map (kid example_key) = Some 7"
proof -
  have shape: "hm_shape example_map"
    unfolding hm_shape_def by (intro conjI disjI2 exI [of _ 4]) (simp_all add: example_map_def)
  have path: "\<exists>d < 16. (19 + d) mod 16 = (3 :: nat) \<and> (\<forall>j < d. P j)" if "\<And>j. j < (0 :: nat) \<Longrightarrow> P j" for P
    by (intro exI [of _ 0]) simp
  show inv: "hm_inv example_map"
    unfolding hm_inv_def
  proof (intro conjI allI impI)
    show "hm_shape example_map" by (rule shape)
    show "unat (hm_length example_map) = n_entries example_map"
      "unat (hm_tombstones example_map) = count_list (hm_entries example_map) STombstone"
      by (simp_all add: example_map_def numeral_eq_Suc)
  qed (auto simp: example_map_def example_map_entry ehash_def example_key_def intro!: exI [of _ 0])
  show "cap example_map < 2 ^ 56" by (simp add: example_map_def)
  show "holds example_map = {7}"
    by (auto simp: holds_def example_map_def in_set_conv_nth example_map_entry intro!: exI [of _ 3])
  show "hm_abs example_map (kid example_key) = Some 7"
    unfolding hm_abs_Some [OF inv]
    by (intro exI [of _ 3]) (simp add: example_map_def ekey_def)
qed

section \<open>Properties\<close>

text \<open>C11. \<^verbatim>\<open>map_insert\<close> refines the update of a finite map. It succeeds on an absent key with
  exactly that binding added, reports EEXIST on a present key and leaves the contents alone, and
  reports ENOMEM only when the allocation of a larger array fails, with nothing changed; the
  invariant of the table is kept on every path.\<close>

theorem map_insert_refines:
  assumes "hm_inv m" and "cap m < 2 ^ 56" and "e \<notin> holds m"
  shows "case map_insert ok m key (Some e) of (r, m') \<Rightarrow>
           hm_inv m' \<and>
           (r = Inr () \<and> hm_abs m (kid key) = None \<and> hm_abs m' = (hm_abs m)(kid key \<mapsto> e) \<or>
            r = Inl EEXIST \<and> hm_abs m (kid key) \<noteq> None \<and> hm_abs m' = hm_abs m \<or>
            r = Inl ENOMEM \<and> \<not> ok \<and> m' = m)"
  using map_insert_cases [OF assms, of ok key]
  by cases (use assms(1) in \<open>simp_all add: same_map_def\<close>)

theorem map_insert_refines_witness:
  "\<exists>r m'. map_insert True example_map example_key (Some 8) = (r, m') \<and> r = Inl EEXIST \<and>
     hm_abs m' = hm_abs example_map"
proof -
  obtain r m' where rm: "map_insert True example_map example_key (Some 8) = (r, m')" by fastforce
  then show ?thesis
    using map_insert_refines [of example_map 8 example_key True] example_map_inv by auto
qed

text \<open>C12. Removing a key refines the removal from a finite map: exactly the binding of that key goes,
  the removed entry forgets its slot and is what \<^verbatim>\<open>map_get_and_remove\<close> returns. The capacity stays
  what it was: the request for a smaller array is ignored by \<^verbatim>\<open>map_resize\<close>.\<close>

theorem map_remove_key_refines:
  assumes "hm_inv m"
  shows "case map_get_and_remove ok m key of (r, m') \<Rightarrow>
           map_remove_key ok m key = m' \<and> hm_inv m' \<and> r = hm_abs m (kid key) \<and>
           hm_abs m' = (hm_abs m)(kid key := None) \<and> hm_capacity m' = hm_capacity m \<and>
           (\<forall>e. r = Some e \<longrightarrow> me_index (hm_heap m' e) = ERR)"
  by (rule map_remove_key_cases [OF assms, of key ok]) (use assms in \<open>simp_all add: fun_upd_idem\<close>)

theorem map_remove_key_refines_witness:
  "\<exists>m'. map_get_and_remove True example_map example_key = (Some 7, m') \<and>
     hm_abs m' (kid example_key) = None \<and> hm_capacity m' = 16"
proof -
  obtain r m' where rm: "map_get_and_remove True example_map example_key = (r, m')" by fastforce
  have "hm_capacity example_map = 16" by (simp add: example_map_def)
  then show ?thesis
    using map_remove_key_refines [of example_map True example_key] example_map_inv rm by simp
qed

text \<open>After a successful insertion the key is found with the inserted entry and every other key as
  before; removing the entry again gives back every lookup.\<close>

theorem map_insert_remove_roundtrip:
  assumes "hm_inv m" and "cap m < 2 ^ 56" and "e \<notin> holds m"
    and "map_insert ok m key (Some e) = (Inr (), m')"
  shows "(\<forall>key'. map_get m' key' = (if kid key' = kid key then Some e else map_get m key')) \<and>
         (\<exists>m''. map_remove ok m' (Some e) = Some m'' \<and> hm_inv m'' \<and> (\<forall>key'. map_get m'' key' = map_get m key'))"
proof -
  have e: "e \<notin> ran (hm_abs m)" using assms(1,3) holds_ran by simp
  show ?thesis
    using kernel_map.lookup_inserted [OF assms(1,2) e assms(4)] kernel_map.insert_drop [OF assms(1,2) e assms(4)]
    by blast
qed

text \<open>\<^verbatim>\<open>map_replace\<close> on a present key stores the new entry but leaves the replaced entry with its
  index and its pointer to the map. Removing that replaced entry later removes the new one.\<close>

theorem map_replace_leaves_stale_entry:
  assumes "hm_inv m" and "cap m < 2 ^ 56" and "e \<notin> holds m" and "hm_abs m (kid key) = Some old"
    and "map_replace ok m key (Some e) = (Inr (), m')"
  shows "hm_inv m' \<and> hm_abs m' = (hm_abs m)(kid key \<mapsto> e) \<and> old \<noteq> e \<and>
         (\<exists>m''. map_remove ok m' (Some old) = Some m'' \<and> map_get m'' key = None)"
proof (rule map_replace_cases [OF assms(1-3), of ok key])
  fix m1 f
  assume replaced: "map_replace ok m key (Some e) = (Inr (), m1)" "hm_inv m1"
    "hm_abs m (kid key) = Some f" "hm_abs m1 = (hm_abs m)(kid key \<mapsto> e)"
    "f \<noteq> e" "me_index (hm_heap m1 f) = me_index (hm_heap m1 e)" "me_map (hm_heap m1 f) = Some (hm_self m1)"
    "me_index (hm_heap m1 f) \<noteq> ERR"
  then have f: "f = old" and m1: "m1 = m'" using assms(4,5) by auto
  note r = replaced [unfolded f m1]
  obtain i where i: "i < cap m'" "hm_entries m' ! i = SEntry e" "ekey m' e = kid key"
    using hm_abs_Some [OF r(2), of "kid key" e] r(4) by auto
  have idx: "me_index (hm_heap m' old) = of_nat i" using hm_invD(4) [OF r(2) i(1,2)] r(6) by simp
  have at: "unat (of_nat i :: u64) = i" by (rule unat_index [OF i(1)])
  have "map_remove ok m' (Some old) = Some (remove_at (of_nat i) e m')"
    using map_remove_index_entry [OF r(2), of "of_nat i" e ok] at i r(7,8) idx
    by (simp add: map_remove_def assert_that_def)
  moreover have "map_get (remove_at (of_nat i) e m') key = None"
    using remove_at_correct [OF r(2), of "of_nat i" e] at i map_get_abs by simp
  ultimately show ?thesis using r by blast
qed (use assms(4,5) in simp_all)

end
