(* ===== verification/Elf.thy ===== *)
theory Elf
  imports Prelude
begin

text \<open>
  The ELF routines of \<^verbatim>\<open>src/libstd/functions/elf/\<close>. The file is the list of its bytes; a
  pointer into it is the offset from its start, in 64 bits, as the C code computes it. Reading a
  structure or a byte that does not lie inside the file is \<^const>\<open>None\<close>. A structure is
  decoded as a whole when it is first read.
\<close>

section \<open>Reading the file\<close>

primrec le_nat :: "u8 list \<Rightarrow> nat" where
  "le_nat [] = 0"
| "le_nat (b # bs) = unat b + 256 * le_nat bs"

definition load :: "u8 list \<Rightarrow> u64 \<Rightarrow> nat \<Rightarrow> u8 list option" where
  "load d a n = (if unat a + n \<le> length d then Some (take n (drop (unat a) d)) else None)"

definition load_byte :: "u8 list \<Rightarrow> u64 \<Rightarrow> u8 option" where
  "load_byte d a = (if unat a < length d then Some (d ! unat a) else None)"

definition field :: "u8 list \<Rightarrow> nat \<Rightarrow> nat \<Rightarrow> 'w::len word" where
  "field bs i n = of_nat (le_nat (take n (drop i bs)))"

section \<open>Structures\<close>

record Elf64_Ehdr =
  e_ident :: "u8 list"
  e_type :: u16
  e_machine :: u16
  e_version :: u32
  e_entry :: u64
  e_phoff :: u64
  e_shoff :: u64
  e_flags :: u32
  e_ehsize :: u16
  e_phentsize :: u16
  e_phnum :: u16
  e_shentsize :: u16
  e_shnum :: u16
  e_shstrndx :: u16

definition sizeof_Ehdr :: nat where "sizeof_Ehdr = 64"

definition load_ehdr :: "u8 list \<Rightarrow> Elf64_Ehdr option" where
  "load_ehdr d = do {
     bs \<leftarrow> load d 0 sizeof_Ehdr;
     Some \<lparr>e_ident = take 16 bs, e_type = field bs 16 2, e_machine = field bs 18 2, e_version = field bs 20 4,
           e_entry = field bs 24 8, e_phoff = field bs 32 8, e_shoff = field bs 40 8, e_flags = field bs 48 4,
           e_ehsize = field bs 52 2, e_phentsize = field bs 54 2, e_phnum = field bs 56 2,
           e_shentsize = field bs 58 2, e_shnum = field bs 60 2, e_shstrndx = field bs 62 2\<rparr>
   }"

record Elf64_Shdr =
  sh_name :: u32
  sh_type :: u32
  sh_flags :: u64
  sh_addr :: u64
  sh_offset :: u64
  sh_size :: u64
  sh_link :: u32
  sh_info :: u32
  sh_addralign :: u64
  sh_entsize :: u64

definition sizeof_Shdr :: nat where "sizeof_Shdr = 64"

definition load_shdr :: "u8 list \<Rightarrow> u64 \<Rightarrow> Elf64_Shdr option" where
  "load_shdr d a = do {
     bs \<leftarrow> load d a sizeof_Shdr;
     Some \<lparr>sh_name = field bs 0 4, sh_type = field bs 4 4, sh_flags = field bs 8 8, sh_addr = field bs 16 8,
           sh_offset = field bs 24 8, sh_size = field bs 32 8, sh_link = field bs 40 4, sh_info = field bs 44 4,
           sh_addralign = field bs 48 8, sh_entsize = field bs 56 8\<rparr>
   }"

record Elf64_Sym =
  st_name :: u32
  st_info :: u8
  st_other :: u8
  st_shndx :: u16
  st_value :: u64
  st_size :: u64

definition sizeof_Sym :: nat where "sizeof_Sym = 24"

definition load_sym :: "u8 list \<Rightarrow> u64 \<Rightarrow> Elf64_Sym option" where
  "load_sym d a = do {
     bs \<leftarrow> load d a sizeof_Sym;
     Some \<lparr>st_name = field bs 0 4, st_info = field bs 4 1, st_other = field bs 5 1, st_shndx = field bs 6 2,
           st_value = field bs 8 8, st_size = field bs 16 8\<rparr>
   }"

record Elf64_Rela =
  r_offset :: u64
  r_info :: u64
  r_addend :: u64

definition sizeof_Rel :: nat where "sizeof_Rel = 16"

definition sizeof_Rela :: nat where "sizeof_Rela = 24"

definition load_rela :: "u8 list \<Rightarrow> u64 \<Rightarrow> Elf64_Rela option" where
  "load_rela d a = do {
     bs \<leftarrow> load d a sizeof_Rela;
     Some \<lparr>r_offset = field bs 0 8, r_info = field bs 8 8, r_addend = field bs 16 8\<rparr>
   }"

record Elf64_Phdr =
  p_type :: u32
  p_flags :: u32
  p_offset :: u64
  p_vaddr :: u64
  p_paddr :: u64
  p_filesz :: u64
  p_memsz :: u64
  p_align :: u64

definition sizeof_Phdr :: nat where "sizeof_Phdr = 56"

definition load_phdr :: "u8 list \<Rightarrow> u64 \<Rightarrow> Elf64_Phdr option" where
  "load_phdr d a = do {
     bs \<leftarrow> load d a sizeof_Phdr;
     Some \<lparr>p_type = field bs 0 4, p_flags = field bs 4 4, p_offset = field bs 8 8, p_vaddr = field bs 16 8,
           p_paddr = field bs 24 8, p_filesz = field bs 32 8, p_memsz = field bs 40 8, p_align = field bs 48 8\<rparr>
   }"

text \<open>\<open>ef_header\<close> is the file itself, the section pointers are offsets into it.\<close>

record Elf64_File =
  ef_header :: "u8 list"
  ef_size :: u64
  ef_symtab :: "u64 option"
  ef_dynsym :: "u64 option"

abbreviation (input) "ELFMAG \<equiv> [0x7f, 0x45, 0x4c, 0x46 :: u8]"

definition EV_CURRENT :: nat where "EV_CURRENT = 1"

definition SHN_UNDEF :: u16 where "SHN_UNDEF = 0"
definition SHN_XINDEX :: u16 where "SHN_XINDEX = 0xffff"

definition SHT_SYMTAB :: u32 where "SHT_SYMTAB = 2"
definition SHT_STRTAB :: u32 where "SHT_STRTAB = 3"
definition SHT_RELA :: u32 where "SHT_RELA = 4"
definition SHT_NOBITS :: u32 where "SHT_NOBITS = 8"
definition SHT_REL :: u32 where "SHT_REL = 9"
definition SHT_DYNSYM :: u32 where "SHT_DYNSYM = 11"

lemmas SHT_defs = SHT_SYMTAB_def SHT_STRTAB_def SHT_RELA_def SHT_NOBITS_def SHT_REL_def SHT_DYNSYM_def

definition PT_LOAD :: u32 where "PT_LOAD = 1"
definition PT_INTERP :: u32 where "PT_INTERP = 3"
definition PT_PHDR :: u32 where "PT_PHDR = 6"

section \<open>Table entries\<close>

text \<open>The product of an index with an entry size is taken in the width of the index.\<close>

definition shdr_at :: "Elf64_Ehdr \<Rightarrow> u64 \<Rightarrow> u64" where
  "shdr_at header i = e_shoff header + i * ucast (e_shentsize header)"

definition shdr_at32 :: "Elf64_Ehdr \<Rightarrow> u32 \<Rightarrow> u64" where
  "shdr_at32 header i = e_shoff header + ucast (i * ucast (e_shentsize header))"

definition phdr_at :: "Elf64_Ehdr \<Rightarrow> u64 \<Rightarrow> u64" where
  "phdr_at header i = e_phoff header + i * ucast (e_phentsize header)"

definition phdr_at32 :: "Elf64_Ehdr \<Rightarrow> u32 \<Rightarrow> u64" where
  "phdr_at32 header i = e_phoff header + ucast (i * ucast (e_phentsize header))"

text \<open>The product of two 16-bit numbers is an \<^verbatim>\<open>int\<close>; compared with a 64-bit number it is sign
  extended.\<close>

definition table_size :: "u16 \<Rightarrow> u16 \<Rightarrow> u64" where
  "table_size entsize num = scast (ucast entsize * ucast num :: u32)"

section \<open>Validation\<close>

text \<open>Each part returns the code of the failed check or what it computed.\<close>

definition check_ident :: "Elf64_Ehdr \<Rightarrow> u64 + unit" where
  "check_ident header =
     (if take 4 (e_ident header) \<noteq> ELFMAG then Inl 1
      else if e_ident header ! 4 \<noteq> 2 then Inl 2
      else if e_ident header ! 5 \<noteq> 1 then Inl 3
      else if e_ident header ! 6 \<noteq> of_nat EV_CURRENT \<or> e_version header \<noteq> of_nat EV_CURRENT then Inl 4
      else if e_ident header ! 7 \<noteq> 0 \<and> e_ident header ! 7 \<noteq> 3 then Inl 5
      else Inr ())"

definition check_tables :: "Elf64_Ehdr \<Rightarrow> u64 \<Rightarrow> u64 + unit" where
  "check_tables header fsize =
     (if e_shnum header > 0 \<and> ucast (e_shentsize header) > (- 1 :: u64) div ucast (e_shnum header) then Inl 6
      else if e_shoff header > fsize \<or>
              table_size (e_shentsize header) (e_shnum header) > fsize - e_shoff header then Inl 7
      else if e_shnum header > 0 \<and> unat (e_shentsize header) < sizeof_Shdr then Inl 8
      else if e_phnum header > 0 \<and> ucast (e_phentsize header) > (- 1 :: u64) div ucast (e_phnum header) then Inl 9
      else if e_phoff header > fsize \<or>
              table_size (e_phentsize header) (e_phnum header) > fsize - e_phoff header then Inl 10
      else if e_phnum header > 0 \<and> unat (e_phentsize header) < sizeof_Phdr then Inl 11
      else Inr ())"

definition check_strtab :: "u8 list \<Rightarrow> Elf64_Shdr \<Rightarrow> u64 \<Rightarrow> u64 \<Rightarrow> (u64 + unit) option" where
  "check_strtab d shdr empty_code unterminated_code =
     (if sh_size shdr = 0 then Some (Inl empty_code)
      else do {
        c \<leftarrow> load_byte d (sh_offset shdr + (sh_size shdr - 1));
        if c \<noteq> 0 then Some (Inl unterminated_code) else Some (Inr ())
      })"

definition find_shstrtab :: "u8 list \<Rightarrow> u64 \<Rightarrow> Elf64_Ehdr \<Rightarrow> (u64 + Elf64_Shdr option) option" where
  "find_shstrtab d fsize header =
     (if e_shstrndx header = SHN_XINDEX \<and> e_shnum header = 0 then Some (Inl 12)
      else do {
        shstrndx \<leftarrow> (if e_shstrndx header = SHN_XINDEX
                     then load_shdr d (e_shoff header) \<bind> (\<lambda>firstShdr. Some (ucast (sh_link firstShdr)))
                     else Some (ucast (e_shstrndx header) :: u64));
        if shstrndx = ucast SHN_UNDEF then Some (Inr None)
        else if shstrndx \<ge> ucast (e_shnum header) then Some (Inl 13)
        else do {
          shstrHdr \<leftarrow> load_shdr d (shdr_at header shstrndx);
          if sh_type shstrHdr \<noteq> SHT_STRTAB then Some (Inl 14)
          else if sh_offset shstrHdr > fsize \<or> sh_size shstrHdr > fsize - sh_offset shstrHdr then Some (Inl 15)
          else do {
            r \<leftarrow> check_strtab d shstrHdr 16 17;
            case r of Inl code \<Rightarrow> Some (Inl code) | Inr _ \<Rightarrow> Some (Inr (Some shstrHdr))
          }
        }
      })"

text \<open>The loop over the symbols of a table.\<close>

primrec check_symbols :: "u8 list \<Rightarrow> Elf64_Shdr \<Rightarrow> Elf64_Shdr \<Rightarrow> nat list \<Rightarrow> (u64 + unit) option" where
  "check_symbols d shdr strtabHdr [] = Some (Inr ())"
| "check_symbols d shdr strtabHdr (j # js) = do {
     currentSym \<leftarrow> load_sym d (sh_offset shdr + of_nat j * sh_entsize shdr);
     if ucast (st_name currentSym) \<ge> sh_size strtabHdr then Some (Inl 29)
     else check_symbols d shdr strtabHdr js
   }"

record vstate =
  symtabCount :: u64
  dynsymCount :: u64
  vs_symtab :: "u64 option"
  vs_dynsym :: "u64 option"

definition check_symtab :: "u8 list \<Rightarrow> Elf64_Ehdr \<Rightarrow> u64 \<Rightarrow> Elf64_Shdr \<Rightarrow> vstate \<Rightarrow> ((u64 + unit) \<times> vstate) option" where
  "check_symtab d header at shdr st =
     (let st = (if sh_type shdr = SHT_SYMTAB
                then st\<lparr>symtabCount := symtabCount st + 1, vs_symtab := Some at\<rparr>
                else st\<lparr>dynsymCount := dynsymCount st + 1, vs_dynsym := Some at\<rparr>)
      in if dynsymCount st > 1 then Some (Inl 23, st)
         else if symtabCount st > 1 then Some (Inl 24, st)
         else if unat (sh_entsize shdr) < sizeof_Sym then Some (Inl 25, st)
         else if sh_size shdr mod sh_entsize shdr \<noteq> 0 then Some (Inl 26, st)
         else if sh_link shdr \<ge> ucast (e_shnum header) then Some (Inl 27, st)
         else do {
           strtabHdr \<leftarrow> load_shdr d (shdr_at32 header (sh_link shdr));
           if sh_type strtabHdr \<noteq> SHT_STRTAB then Some (Inl 28, st)
           else do {
             r \<leftarrow> check_symbols d shdr strtabHdr [0..<unat (sh_size shdr div sh_entsize shdr)];
             Some (r, st)
           }
         })"

text \<open>\<^verbatim>\<open>SHT_RELA\<close> and \<^verbatim>\<open>SHT_REL\<close> differ in the entry size and in their codes.\<close>

definition check_relocs :: "u8 list \<Rightarrow> Elf64_Ehdr \<Rightarrow> Elf64_Shdr \<Rightarrow> nat \<Rightarrow> u64 \<Rightarrow> (u64 + unit) option" where
  "check_relocs d header shdr entry_size code =
     (if unat (sh_entsize shdr) < entry_size then Some (Inl code)
      else if sh_size shdr mod sh_entsize shdr \<noteq> 0 then Some (Inl (code + 1))
      else if sh_link shdr \<ge> ucast (e_shnum header) then Some (Inl (code + 2))
      else do {
        symtabHdr \<leftarrow> load_shdr d (shdr_at32 header (sh_link shdr));
        if sh_type symtabHdr \<noteq> SHT_SYMTAB \<and> sh_type symtabHdr \<noteq> SHT_DYNSYM then Some (Inl (code + 3))
        else if sh_info shdr \<ge> ucast (e_shnum header) then Some (Inl (code + 4))
        else Some (Inr ())
      })"

definition check_section ::
  "u8 list \<Rightarrow> u64 \<Rightarrow> Elf64_Ehdr \<Rightarrow> Elf64_Shdr option \<Rightarrow> nat \<Rightarrow> vstate \<Rightarrow> ((u64 + unit) \<times> vstate) option" where
  "check_section d fsize header shstrHdr i st = do {
     let at = shdr_at header (of_nat i);
     shdr \<leftarrow> load_shdr d at;
     if sh_type shdr \<noteq> SHT_NOBITS \<and> (sh_offset shdr > fsize \<or> sh_size shdr > fsize - sh_offset shdr)
     then Some (Inl 18, st)
     else if shstrHdr = None \<and> sh_name shdr \<noteq> 0 then Some (Inl 19, st)
     else if (case shstrHdr of None \<Rightarrow> False | Some s \<Rightarrow> ucast (sh_name shdr) \<ge> sh_size s) then Some (Inl 20, st)
     else if sh_type shdr = SHT_STRTAB then do { r \<leftarrow> check_strtab d shdr 21 22; Some (r, st) }
     else if sh_type shdr = SHT_SYMTAB \<or> sh_type shdr = SHT_DYNSYM then check_symtab d header at shdr st
     else if sh_type shdr = SHT_RELA then do { r \<leftarrow> check_relocs d header shdr sizeof_Rela 30; Some (r, st) }
     else if sh_type shdr = SHT_REL then do { r \<leftarrow> check_relocs d header shdr sizeof_Rel 35; Some (r, st) }
     else Some (Inr (), st)
   }"

primrec check_sections ::
  "u8 list \<Rightarrow> u64 \<Rightarrow> Elf64_Ehdr \<Rightarrow> Elf64_Shdr option \<Rightarrow> nat list \<Rightarrow> vstate \<Rightarrow> ((u64 + unit) \<times> vstate) option" where
  "check_sections d fsize header shstrHdr [] st = Some (Inr (), st)"
| "check_sections d fsize header shstrHdr (i # is) st = do {
     (r, st) \<leftarrow> check_section d fsize header shstrHdr i st;
     case r of Inl code \<Rightarrow> Some (Inl code, st) | Inr _ \<Rightarrow> check_sections d fsize header shstrHdr is st
   }"

text \<open>The loop over the bytes of the interpreter path.\<close>

primrec check_interp :: "u8 list \<Rightarrow> u64 \<Rightarrow> nat list \<Rightarrow> (u64 + unit) option" where
  "check_interp d base [] = Some (Inr ())"
| "check_interp d base (j # js) = do {
     c \<leftarrow> load_byte d (base + of_nat j);
     if c = 0 then Some (Inl 43) else check_interp d base js
   }"

definition check_segment :: "u8 list \<Rightarrow> u64 \<Rightarrow> Elf64_Ehdr \<Rightarrow> nat \<Rightarrow> (u64 + unit) option" where
  "check_segment d fsize header i = do {
     phdr \<leftarrow> load_phdr d (phdr_at header (of_nat i));
     if p_offset phdr > fsize \<or> p_filesz phdr > fsize - p_offset phdr then Some (Inl 40)
     else if p_type phdr = PT_LOAD then
       (if p_memsz phdr < p_filesz phdr then Some (Inl 41) else Some (Inr ()))
     else if p_type phdr = PT_INTERP then
       (if p_filesz phdr = 0 then Some (Inl 42)
        else check_interp d (p_offset phdr) [0..<unat (p_filesz phdr)])
     else if p_type phdr = PT_PHDR then
       (if p_offset phdr \<noteq> e_phoff header \<or>
           p_filesz phdr \<noteq> ucast (e_phnum header) * ucast (e_phentsize header)
        then Some (Inl 44) else Some (Inr ()))
     else Some (Inr ())
   }"

primrec check_segments :: "u8 list \<Rightarrow> u64 \<Rightarrow> Elf64_Ehdr \<Rightarrow> nat list \<Rightarrow> (u64 + unit) option" where
  "check_segments d fsize header [] = Some (Inr ())"
| "check_segments d fsize header (i # is) = do {
     r \<leftarrow> check_segment d fsize header i;
     case r of Inl code \<Rightarrow> Some (Inl code) | Inr _ \<Rightarrow> check_segments d fsize header is
   }"

definition elf64_validate :: "Elf64_File option \<Rightarrow> u8 list option \<Rightarrow> u64 \<Rightarrow> (u64 \<times> Elf64_File option) option" where
  "elf64_validate elf data fsize =
     (case (elf, data) of
        (Some elf, Some d) \<Rightarrow>
          if unat fsize < sizeof_Ehdr then Some (200, Some elf)
          else do {
            let elf = elf\<lparr>ef_symtab := None, ef_dynsym := None\<rparr>;
            header \<leftarrow> load_ehdr d;
            case check_ident header of Inl code \<Rightarrow> Some (code, Some elf) | Inr _ \<Rightarrow>
            case check_tables header fsize of Inl code \<Rightarrow> Some (code, Some elf) | Inr _ \<Rightarrow> do {
              s \<leftarrow> find_shstrtab d fsize header;
              case s of Inl code \<Rightarrow> Some (code, Some elf) | Inr shstrHdr \<Rightarrow> do {
                (r, st) \<leftarrow> check_sections d fsize header shstrHdr [0..<unat (e_shnum header)]
                  \<lparr>symtabCount = 0, dynsymCount = 0, vs_symtab = None, vs_dynsym = None\<rparr>;
                let elf = elf\<lparr>ef_symtab := vs_symtab st, ef_dynsym := vs_dynsym st\<rparr>;
                case r of Inl code \<Rightarrow> Some (code, Some elf) | Inr _ \<Rightarrow> do {
                  t \<leftarrow> check_segments d fsize header [0..<unat (e_phnum header)];
                  case t of Inl code \<Rightarrow> Some (code, Some elf)
                  | Inr _ \<Rightarrow> Some (0, Some (elf\<lparr>ef_header := d, ef_size := fsize\<rparr>))
                }
              }
            }
          }
      | _ \<Rightarrow> Some (200, elf))"

section \<open>Lookups\<close>

text \<open>A returned pointer is an offset into the file; \<open>Some None\<close> is the null pointer. A name
  argument is the list of its bytes before the terminating zero.\<close>

definition elf64_get_string :: "Elf64_File option \<Rightarrow> u64 \<Rightarrow> u64 \<Rightarrow> u64 option option" where
  "elf64_get_string elf strTabIndex offset =
     (case elf of None \<Rightarrow> Some None
      | Some elf \<Rightarrow> do {
          header \<leftarrow> load_ehdr (ef_header elf);
          if strTabIndex \<ge> ucast (e_shnum header) then Some None
          else do {
            strtabHdr \<leftarrow> load_shdr (ef_header elf) (shdr_at header strTabIndex);
            if sh_type strtabHdr \<noteq> SHT_STRTAB then Some None
            else if offset \<ge> sh_size strtabHdr then Some None
            else Some (Some (sh_offset strtabHdr + offset))
          }
        })"

text \<open>\<^verbatim>\<open>strcmp(s1, s2) == 0\<close> for \<open>s1\<close> in the file.\<close>

primrec strcmp_eq :: "u8 list \<Rightarrow> u64 \<Rightarrow> u8 list \<Rightarrow> bool option" where
  "strcmp_eq d s1 [] = do { c \<leftarrow> load_byte d s1; Some (c = 0) }"
| "strcmp_eq d s1 (x # s2) = do {
     c \<leftarrow> load_byte d s1;
     if c \<noteq> 0 \<and> c = x then strcmp_eq d (s1 + 1) s2 else Some (c = x)
   }"

definition section_names :: "Elf64_File \<Rightarrow> Elf64_Ehdr \<Rightarrow> u64 option" where
  "section_names elf header =
     (if e_shstrndx header = SHN_XINDEX
      then do { firstShdr \<leftarrow> load_shdr (ef_header elf) (shdr_at header 0); Some (ucast (sh_link firstShdr)) }
      else Some (ucast (e_shstrndx header)))"

primrec find_section :: "Elf64_File \<Rightarrow> Elf64_Ehdr \<Rightarrow> u64 \<Rightarrow> u8 list \<Rightarrow> nat list \<Rightarrow> u64 option option" where
  "find_section elf header shstrndx name [] = Some None"
| "find_section elf header shstrndx name (i # is) = do {
     shdr \<leftarrow> load_shdr (ef_header elf) (shdr_at header (of_nat i));
     sectionName \<leftarrow> elf64_get_string (Some elf) shstrndx (ucast (sh_name shdr));
     eq \<leftarrow> (case sectionName of None \<Rightarrow> Some False | Some s \<Rightarrow> strcmp_eq (ef_header elf) s name);
     if eq then Some (Some (shdr_at header (of_nat i))) else find_section elf header shstrndx name is
   }"

definition elf64_get_section_by_name :: "Elf64_File option \<Rightarrow> u8 list option \<Rightarrow> u64 option option" where
  "elf64_get_section_by_name elf name =
     (case (elf, name) of
        (Some elf, Some name) \<Rightarrow> do {
          header \<leftarrow> load_ehdr (ef_header elf);
          shstrndx \<leftarrow> section_names elf header;
          if shstrndx = ucast SHN_UNDEF then Some None
          else find_section elf header shstrndx name [0..<unat (e_shnum header)]
        }
      | _ \<Rightarrow> Some None)"

definition elf64_get_section_name :: "Elf64_File option \<Rightarrow> Elf64_Shdr option \<Rightarrow> u64 option option" where
  "elf64_get_section_name elf section =
     (case (elf, section) of
        (Some elf, Some section) \<Rightarrow> do {
          header \<leftarrow> load_ehdr (ef_header elf);
          shstrndx \<leftarrow> section_names elf header;
          elf64_get_string (Some elf) shstrndx (ucast (sh_name section))
        }
      | _ \<Rightarrow> Some None)"

text \<open>The symbol lookups of both tables; \<open>table\<close> is the field of the file the function reads.\<close>

definition symbol_by_index :: "(Elf64_File \<Rightarrow> u64 option) \<Rightarrow> Elf64_File option \<Rightarrow> u64 \<Rightarrow> u64 option option" where
  "symbol_by_index table elf symbolIndex =
     (case elf of None \<Rightarrow> Some None
      | Some elf \<Rightarrow>
        (case table elf of None \<Rightarrow> Some None
         | Some at \<Rightarrow> do {
             symtab \<leftarrow> load_shdr (ef_header elf) at;
             assert_that (sh_entsize symtab \<noteq> 0);
             if symbolIndex \<ge> sh_size symtab div sh_entsize symtab then Some None
             else Some (Some (sh_offset symtab + symbolIndex * sh_entsize symtab))
           }))"

definition elf64_get_symbol_by_index :: "Elf64_File option \<Rightarrow> u64 \<Rightarrow> u64 option option" where
  "elf64_get_symbol_by_index = symbol_by_index ef_symtab"

definition elf64_get_dynamic_symbol_by_index :: "Elf64_File option \<Rightarrow> u64 \<Rightarrow> u64 option option" where
  "elf64_get_dynamic_symbol_by_index = symbol_by_index ef_dynsym"

definition symbol_name :: "(Elf64_File \<Rightarrow> u64 option) \<Rightarrow> Elf64_File option \<Rightarrow> Elf64_Sym option \<Rightarrow> u64 option option" where
  "symbol_name table elf symbol =
     (case (elf, symbol) of
        (Some elf, Some symbol) \<Rightarrow>
        (case table elf of None \<Rightarrow> Some None
         | Some at \<Rightarrow> do {
             header \<leftarrow> load_ehdr (ef_header elf);
             symtab \<leftarrow> load_shdr (ef_header elf) at;
             strtabHdr \<leftarrow> load_shdr (ef_header elf) (shdr_at32 header (sh_link symtab));
             Some (Some (sh_offset strtabHdr + ucast (st_name symbol)))
           })
      | _ \<Rightarrow> Some None)"

definition elf64_get_symbol_name :: "Elf64_File option \<Rightarrow> Elf64_Sym option \<Rightarrow> u64 option option" where
  "elf64_get_symbol_name = symbol_name ef_symtab"

definition elf64_get_dynamic_symbol_name :: "Elf64_File option \<Rightarrow> Elf64_Sym option \<Rightarrow> u64 option option" where
  "elf64_get_dynamic_symbol_name = symbol_name ef_dynsym"

primrec find_symbol ::
  "u8 list \<Rightarrow> Elf64_Shdr \<Rightarrow> u64 \<Rightarrow> u8 list \<Rightarrow> nat list \<Rightarrow> u64 option option" where
  "find_symbol d symtab strTable name [] = Some None"
| "find_symbol d symtab strTable name (i # is) = do {
     let at = sh_offset symtab + of_nat i * sh_entsize symtab;
     symbol \<leftarrow> load_sym d at;
     eq \<leftarrow> strcmp_eq d (strTable + ucast (st_name symbol)) name;
     if eq then Some (Some at) else find_symbol d symtab strTable name is
   }"

definition elf64_get_symbol_by_name :: "Elf64_File option \<Rightarrow> u8 list option \<Rightarrow> u64 option option" where
  "elf64_get_symbol_by_name elf name =
     (case (elf, name) of
        (Some elf, Some name) \<Rightarrow>
        (case ef_symtab elf of None \<Rightarrow> Some None
         | Some at \<Rightarrow> do {
             header \<leftarrow> load_ehdr (ef_header elf);
             symtab \<leftarrow> load_shdr (ef_header elf) at;
             assert_that (sh_entsize symtab \<noteq> 0);
             strtabHdr \<leftarrow> load_shdr (ef_header elf) (shdr_at32 header (sh_link symtab));
             find_symbol (ef_header elf) symtab (sh_offset strtabHdr) name
               [0..<unat (sh_size symtab div sh_entsize symtab)]
           })
      | _ \<Rightarrow> Some None)"

section \<open>Loading\<close>

definition elf64_get_loadable_bounds :: "Elf64_File option \<Rightarrow> (u64 \<times> u64) option option" where
  "elf64_get_loadable_bounds elf =
     (case elf of None \<Rightarrow> Some None
      | Some elf \<Rightarrow> do {
          header \<leftarrow> load_ehdr (ef_header elf);
          r \<leftarrow> for_each (\<lambda>i (minVaddr, maxVaddr). do {
              phdr \<leftarrow> load_phdr (ef_header elf) (phdr_at32 header (of_nat i));
              if p_type phdr = PT_LOAD
              then Some (if p_vaddr phdr < minVaddr then p_vaddr phdr else minVaddr,
                         if p_vaddr phdr + p_memsz phdr > maxVaddr then p_vaddr phdr + p_memsz phdr else maxVaddr)
              else Some (minVaddr, maxVaddr)
            }) [0..<unat (e_phnum header)] (- 1, 0);
          Some (Some r)
        })"

text \<open>The memory the segments are copied to.\<close>

type_synonym memory = "u64 \<Rightarrow> u8"

definition store :: "memory \<Rightarrow> u64 \<Rightarrow> u8 list \<Rightarrow> memory" where
  "store m a bs = (\<lambda>x. if unat (x - a) < length bs then bs ! unat (x - a) else m x)"

definition load_segment :: "Elf64_File \<Rightarrow> Elf64_Ehdr \<Rightarrow> u64 \<Rightarrow> u64 \<Rightarrow> nat \<Rightarrow> memory \<Rightarrow> memory option" where
  "load_segment elf header base offset i m = do {
     phdr \<leftarrow> load_phdr (ef_header elf) (phdr_at32 header (of_nat i));
     if p_type phdr \<noteq> PT_LOAD then Some m
     else do {
       let dest = base + (p_vaddr phdr - offset);
       bs \<leftarrow> load (ef_header elf) (p_offset phdr) (unat (p_filesz phdr));
       let m = store m dest bs;
       Some (if p_memsz phdr > p_filesz phdr
             then store m (dest + p_filesz phdr) (replicate (unat (p_memsz phdr - p_filesz phdr)) 0)
             else m)
     }
   }"

definition elf64_load_segments :: "Elf64_File option \<Rightarrow> u64 \<Rightarrow> u64 \<Rightarrow> memory \<Rightarrow> memory option" where
  "elf64_load_segments elf base offset m =
     (case elf of None \<Rightarrow> Some m
      | Some elf \<Rightarrow> do {
          header \<leftarrow> load_ehdr (ef_header elf);
          for_each (load_segment elf header base offset) [0..<unat (e_phnum header)] m
        })"

definition bytes_u64 :: "u64 \<Rightarrow> u8 list" where
  "bytes_u64 x = List.map (\<lambda>i. ucast (drop_bit (8 * i) x)) [0..<8]"

text \<open>One relocation. \<open>resolve_symbol\<close> is the callback of the caller, given the offset of the
  name (or the null pointer). \<open>Inl\<close> is the error return, with the memory it leaves behind.\<close>

definition relocate_one ::
  "Elf64_File \<Rightarrow> u64 \<Rightarrow> u64 \<Rightarrow> (u64 option \<Rightarrow> u64) \<Rightarrow> Elf64_Shdr \<Rightarrow> Elf64_Rela \<Rightarrow> memory \<Rightarrow> (memory + memory) option" where
  "relocate_one elf base offset resolve_symbol symtabShdr rela m =
     (let patchAddr = base + (r_offset rela - offset);
          type = r_info rela AND 0xffffffff;
          symIndex = drop_bit 32 (r_info rela);
          put = \<lambda>v. store m patchAddr (bytes_u64 v)
      in if symIndex \<ge> sh_size symtabShdr div sh_entsize symtabShdr then Some (Inl m)
         else do {
           sym \<leftarrow> load_sym (ef_header elf) (sh_offset symtabShdr + symIndex * sh_entsize symtabShdr);
           symName \<leftarrow> elf64_get_string (Some elf) (ucast (sh_link symtabShdr)) (ucast (st_name sym));
           let value = (if st_shndx sym \<noteq> SHN_UNDEF then st_value sym else 0);
           if type = 1 then Some (Inr (put (base + value + r_addend rela)))
           else if type = 2 then Some (Inr (put (base + value + r_addend rela - patchAddr)))
           else if type = 6 \<or> type = 7 then
             (if st_shndx sym \<noteq> SHN_UNDEF then Some (Inr (put (base + value + r_addend rela)))
              else if resolve_symbol symName = 0 then Some (Inl (put 0))
              else Some (Inr (put (resolve_symbol symName))))
           else if type = 8 then Some (Inr (put (base + r_addend rela)))
           else Some (Inl m)
         })"

primrec relocate_entries ::
  "Elf64_File \<Rightarrow> u64 \<Rightarrow> u64 \<Rightarrow> (u64 option \<Rightarrow> u64) \<Rightarrow> Elf64_Shdr \<Rightarrow> Elf64_Shdr \<Rightarrow> nat list \<Rightarrow> memory \<Rightarrow>
     (memory + memory) option" where
  "relocate_entries elf base offset resolve_symbol symtabShdr shdr [] m = Some (Inr m)"
| "relocate_entries elf base offset resolve_symbol symtabShdr shdr (j # js) m = do {
     rela \<leftarrow> load_rela (ef_header elf) (sh_offset shdr + of_nat (j * sizeof_Rela));
     r \<leftarrow> relocate_one elf base offset resolve_symbol symtabShdr rela m;
     case r of Inl m \<Rightarrow> Some (Inl m)
     | Inr m \<Rightarrow> relocate_entries elf base offset resolve_symbol symtabShdr shdr js m
   }"

primrec relocate_sections ::
  "Elf64_File \<Rightarrow> Elf64_Ehdr \<Rightarrow> u64 \<Rightarrow> u64 \<Rightarrow> (u64 option \<Rightarrow> u64) \<Rightarrow> nat list \<Rightarrow> memory \<Rightarrow> (memory + memory) option" where
  "relocate_sections elf header base offset resolve_symbol [] m = Some (Inr m)"
| "relocate_sections elf header base offset resolve_symbol (i # is) m = do {
     shdr \<leftarrow> load_shdr (ef_header elf) (shdr_at header (of_nat i));
     if sh_type shdr \<noteq> SHT_RELA then relocate_sections elf header base offset resolve_symbol is m
     else do {
       symtabShdr \<leftarrow> load_shdr (ef_header elf) (shdr_at32 header (sh_link shdr));
       assert_that (sh_entsize symtabShdr \<noteq> 0);
       r \<leftarrow> relocate_entries elf base offset resolve_symbol symtabShdr shdr
             [0..<unat (sh_size shdr div of_nat sizeof_Rela)] m;
       case r of Inl m \<Rightarrow> Some (Inl m)
       | Inr m \<Rightarrow> relocate_sections elf header base offset resolve_symbol is m
     }
   }"

definition elf64_relocate ::
  "Elf64_File \<Rightarrow> u64 \<Rightarrow> u64 \<Rightarrow> (u64 option \<Rightarrow> u64) \<Rightarrow> memory \<Rightarrow> (u64 \<times> memory) option" where
  "elf64_relocate elf base offset resolve_symbol m = do {
     header \<leftarrow> load_ehdr (ef_header elf);
     r \<leftarrow> relocate_sections elf header base offset resolve_symbol [0..<unat (e_shnum header)] m;
     case r of Inl m \<Rightarrow> Some (ERR, m) | Inr m \<Rightarrow> Some (0, m)
   }"

end
