(* ===== verification/Elf_Valid.thy ===== *)
theory Elf_Valid
  imports Elf
begin

text \<open>
  What \<^verbatim>\<open>elf64_validate\<close> establishes: it never reads outside the file, and a file it accepts has
  tables, strings and symbols that lie inside it.
\<close>

section \<open>Loads\<close>

lemma load_Some [simp]: "load d a n = Some bs \<longleftrightarrow> unat a + n \<le> length d \<and> bs = take n (drop (unat a) d)"
  by (auto simp: load_def)

lemma load_None [simp]: "load d a n = None \<longleftrightarrow> \<not> unat a + n \<le> length d"
  by (auto simp: load_def)

lemma load_structs_Some:
  "(\<exists>x. load_ehdr d = Some x) \<longleftrightarrow> sizeof_Ehdr \<le> length d"
  "(\<exists>s. load_shdr d a = Some s) \<longleftrightarrow> unat a + sizeof_Shdr \<le> length d"
  "(\<exists>y. load_sym d a = Some y) \<longleftrightarrow> unat a + sizeof_Sym \<le> length d"
  "(\<exists>p. load_phdr d a = Some p) \<longleftrightarrow> unat a + sizeof_Phdr \<le> length d"
  "(\<exists>p. load_rela d a = Some p) \<longleftrightarrow> unat a + sizeof_Rela \<le> length d"
  by (auto simp: load_ehdr_def load_shdr_def load_sym_def load_phdr_def load_rela_def load_def)

lemma load_byte_Some [simp]: "load_byte d a = Some c \<longleftrightarrow> unat a < length d \<and> c = d ! unat a"
  by (auto simp: load_byte_def)

section \<open>Tables\<close>

lemma unat_ucast_up:
  "unat (ucast (x :: u16) :: u32) = unat x" "unat (ucast (x :: u16) :: u64) = unat x"
  "unat (ucast (y :: u32) :: u64) = unat y"
  by (simp_all add: unsigned_ucast_eq take_bit_nat_eq_self_iff less_trans [OF unsigned_less])

lemma scast_ge_ucast: "unat (x :: u32) \<le> unat (scast x :: u64)"
proof -
  have "(ucast x :: u64) AND scast x = ucast x"
  proof (rule bit_word_eqI)
    fix n
    show "bit ((ucast x :: u64) AND scast x) n = bit (ucast x :: u64) n"
      using bit_imp_le_length [of x n] by (cases "n = 31") (auto simp: bit_simps min_def)
  qed
  then have "(ucast x :: u64) \<le> scast x" by (metis word_and_le1)
  then have "unat (ucast x :: u64) \<le> unat (scast x :: u64)" by (simp only: word_le_nat_alt)
  then show ?thesis by (simp only: unat_ucast_up)
qed

lemma unat_u16_less: "unat (x :: u16) < 65536"
  using unsigned_less [of x, where ?'a = nat] by simp

lemma table_size_ge: "unat es * unat n \<le> unat (table_size es n)"
proof -
  have "unat es * unat n \<le> 65535 * 65535"
    using unat_u16_less [of es] unat_u16_less [of n] by (intro mult_le_mono) linarith+
  then have "unat (ucast es * ucast n :: u32) = unat es * unat n"
    by (simp add: unat_word_ariths(2) unat_ucast_up)
  then show ?thesis using scast_ge_ucast [of "ucast es * ucast n"] by (simp add: table_size_def)
qed

text \<open>An entry of a table that fits lies in the file, whatever the width its offset is computed in.\<close>

lemma entry_offset:
  assumes fit: "off \<le> fsize" "table_size es n \<le> fsize - off" and i: "i < unat n"
  shows "unat (off + of_nat i * ucast es) = unat off + i * unat es"
    and "unat (off + ucast (of_nat i * ucast es :: u32)) = unat off + i * unat es"
    and "unat off + i * unat es + unat es \<le> unat fsize"
proof -
  have "unat es * unat n \<le> unat fsize - unat off"
    using fit table_size_ge [of es n] by (simp add: word_le_nat_alt unat_sub_u64)
  moreover have "i * unat es + unat es \<le> unat es * unat n"
    using mult_le_mono2 [of "Suc i" "unat n" "unat es"] i by (simp add: algebra_simps)
  ultimately show fits: "unat off + i * unat es + unat es \<le> unat fsize"
    using fit(1) by (simp add: word_le_nat_alt)
  have less: "i * unat es \<le> 65535 * 65535"
    using unat_u16_less [of es] unat_u16_less [of n] i by (intro mult_le_mono) linarith+
  have i16: "i < 65536" using i unat_u16_less [of n] by linarith
  have "unat (of_nat i * ucast es :: u64) = i * unat es"
    using less i16 by (simp add: unat_word_ariths(2) unat_ucast_up unsigned_of_nat take_bit_nat_eq_self)
  then show "unat (off + of_nat i * ucast es) = unat off + i * unat es"
    using fits unat_add_bounded_u64 [of off "of_nat i * ucast es" fsize] by simp
  have "unat (of_nat i * ucast es :: u32) = i * unat es"
    using less i16 by (simp add: unat_word_ariths(2) unat_ucast_up unsigned_of_nat take_bit_nat_eq_self)
  then have "unat (ucast (of_nat i * ucast es :: u32) :: u64) = i * unat es"
    by (simp only: unat_ucast_up)
  then show "unat (off + ucast (of_nat i * ucast es :: u32)) = unat off + i * unat es"
    using fits unat_add_bounded_u64 [of off "ucast (of_nat i * ucast es :: u32)" fsize] by simp
qed

definition tables_ok :: "u8 list \<Rightarrow> Elf64_Ehdr \<Rightarrow> bool" where
  "tables_ok d header \<longleftrightarrow>
     (\<forall>i < unat (e_shnum header).
        shdr_at header (of_nat i) = shdr_at32 header (of_nat i) \<and>
        unat (shdr_at header (of_nat i)) + sizeof_Shdr \<le> length d) \<and>
     (\<forall>i < unat (e_phnum header).
        phdr_at header (of_nat i) = phdr_at32 header (of_nat i) \<and>
        unat (phdr_at header (of_nat i)) + sizeof_Phdr \<le> length d)"

lemma check_tables_ok:
  assumes "check_tables header fsize = Inr ()" and len: "length d = unat fsize"
  shows "tables_ok d header"
proof -
  have c: "e_shoff header \<le> fsize" "table_size (e_shentsize header) (e_shnum header) \<le> fsize - e_shoff header"
    "e_shnum header > 0 \<longrightarrow> sizeof_Shdr \<le> unat (e_shentsize header)"
    "e_phoff header \<le> fsize" "table_size (e_phentsize header) (e_phnum header) \<le> fsize - e_phoff header"
    "e_phnum header > 0 \<longrightarrow> sizeof_Phdr \<le> unat (e_phentsize header)"
    using assms(1) by (auto simp: check_tables_def not_less split: if_splits)
  have pos: "n > 0" if "i < unat n" for i and n :: u16 using that by (simp add: word_less_nat_alt)
  show ?thesis
    unfolding tables_ok_def shdr_at_def shdr_at32_def phdr_at_def phdr_at32_def word_unat_eq_iff len
    using entry_offset [OF c(1,2)] entry_offset [OF c(4,5)] c(3,6) pos by fastforce
qed

lemma tables_okD:
  assumes "tables_ok d header"
  shows "unat i < unat (e_shnum header) \<Longrightarrow> \<exists>s. load_shdr d (shdr_at header i) = Some s"
    and "unat l < unat (e_shnum header) \<Longrightarrow> shdr_at32 header l = shdr_at header (ucast l)"
    and "j < unat (e_phnum header) \<Longrightarrow> \<exists>p. load_phdr d (phdr_at header (of_nat j)) = Some p"
    and "j < unat (e_phnum header) \<Longrightarrow> phdr_at32 header (of_nat j) = phdr_at header (of_nat j)"
proof -
  have "of_nat (unat i) = i" by simp
  then show "unat i < unat (e_shnum header) \<Longrightarrow> \<exists>s. load_shdr d (shdr_at header i) = Some s"
    using assms unfolding tables_ok_def load_structs_Some by metis
  have "of_nat (unat l) = (ucast l :: u64)" "of_nat (unat l) = l" by simp_all
  then show "unat l < unat (e_shnum header) \<Longrightarrow> shdr_at32 header l = shdr_at header (ucast l)"
    using assms unfolding tables_ok_def by metis
qed (use assms in \<open>auto simp: tables_ok_def load_structs_Some\<close>)

section \<open>Sections\<close>

definition in_file :: "u8 list \<Rightarrow> Elf64_Shdr \<Rightarrow> bool" where
  "in_file d s \<longleftrightarrow> unat (sh_offset s) + unat (sh_size s) \<le> length d"

definition terminated :: "u8 list \<Rightarrow> Elf64_Shdr \<Rightarrow> bool" where
  "terminated d s \<longleftrightarrow> in_file d s \<and> sh_size s \<noteq> 0 \<and> d ! (unat (sh_offset s) + unat (sh_size s) - 1) = 0"

abbreviation sym_at :: "Elf64_Shdr \<Rightarrow> nat \<Rightarrow> u64" where
  "sym_at s j \<equiv> sh_offset s + of_nat j * sh_entsize s"

abbreviation sym_count :: "Elf64_Shdr \<Rightarrow> nat" where
  "sym_count s \<equiv> unat (sh_size s div sh_entsize s)"

definition symbols_ok :: "u8 list \<Rightarrow> Elf64_Ehdr \<Rightarrow> Elf64_Shdr \<Rightarrow> bool" where
  "symbols_ok d header s \<longleftrightarrow>
     sizeof_Sym \<le> unat (sh_entsize s) \<and> unat (sh_link s) < unat (e_shnum header) \<and>
     (\<exists>t. load_shdr d (shdr_at header (ucast (sh_link s))) = Some t \<and> sh_type t = SHT_STRTAB \<and>
        (\<forall>j < sym_count s. \<exists>y. load_sym d (sym_at s j) = Some y \<and> unat (st_name y) < unat (sh_size t)))"

definition relocs_ok :: "u8 list \<Rightarrow> Elf64_Ehdr \<Rightarrow> Elf64_Shdr \<Rightarrow> bool" where
  "relocs_ok d header s \<longleftrightarrow>
     unat (sh_link s) < unat (e_shnum header) \<and>
     (\<exists>t. load_shdr d (shdr_at header (ucast (sh_link s))) = Some t \<and> sh_type t \<in> {SHT_SYMTAB, SHT_DYNSYM})"

definition section_ok :: "u8 list \<Rightarrow> Elf64_Ehdr \<Rightarrow> Elf64_Shdr \<Rightarrow> bool" where
  "section_ok d header s \<longleftrightarrow>
     (sh_type s \<noteq> SHT_NOBITS \<longrightarrow> in_file d s) \<and>
     (sh_type s = SHT_STRTAB \<longrightarrow> terminated d s) \<and>
     (sh_type s \<in> {SHT_SYMTAB, SHT_DYNSYM} \<longrightarrow> symbols_ok d header s) \<and>
     (sh_type s = SHT_RELA \<longrightarrow> relocs_ok d header s)"

lemma in_file_check:
  fixes fsize :: u64
  assumes "\<not> (sh_offset s > fsize \<or> sh_size s > fsize - sh_offset s)" and "length d = unat fsize"
  shows "in_file d s"
  using assms by (auto simp: in_file_def not_less word_le_nat_alt unat_sub_u64)

lemma in_file_offset:
  fixes fsize :: u64
  assumes "in_file d s" and "n \<le> unat (sh_size s)" and "length d = unat fsize"
  shows "unat (sh_offset s + of_nat n) = unat (sh_offset s) + n"
proof -
  have "n < 18446744073709551616" using assms(2) unat_u64_less [of "sh_size s"] by linarith
  then have "unat (of_nat n :: u64) = n" by (simp add: unsigned_of_nat take_bit_nat_eq_self)
  then show ?thesis
    using assms unat_add_bounded_u64 [of "sh_offset s" "of_nat n" fsize] by (simp add: in_file_def)
qed

lemma last_byte_offset:
  fixes fsize :: u64
  assumes "in_file d s" and "sh_size s \<noteq> 0" and "length d = unat fsize"
  shows "unat (sh_offset s + (sh_size s - 1)) = unat (sh_offset s) + unat (sh_size s) - 1"
proof -
  have "0 < unat (sh_size s)" using assms(2) by (simp add: unat_gt_0)
  moreover from this have "unat (sh_size s - 1) = unat (sh_size s) - 1" by (simp add: unat_sub_u64)
  ultimately show ?thesis
    using assms unat_add_bounded_u64 [of "sh_offset s" "sh_size s - 1" fsize] by (simp add: in_file_def)
qed

lemma check_strtab_total:
  fixes fsize :: u64
  assumes "in_file d s" and "length d = unat fsize"
  shows "\<exists>r. check_strtab d s a b = Some r \<and> (r = Inr () \<longrightarrow> terminated d s)"
proof (cases "sh_size s = 0")
  case True
  then show ?thesis by (simp add: check_strtab_def)
next
  case False
  have at: "unat (sh_offset s + (sh_size s - 1)) = unat (sh_offset s) + unat (sh_size s) - 1"
    by (rule last_byte_offset [OF assms(1) False assms(2)])
  have "0 < unat (sh_size s)" using False by (simp add: unat_gt_0)
  then have "unat (sh_offset s) + unat (sh_size s) - 1 < length d"
    using assms(1) unfolding in_file_def by linarith
  then have b: "load_byte d (sh_offset s + (sh_size s - 1)) = Some (d ! (unat (sh_offset s) + unat (sh_size s) - 1))"
    by (simp add: at)
  show ?thesis using False assms(1) unfolding check_strtab_def terminated_def b by simp
qed

lemma sym_in_file:
  fixes fsize :: u64
  assumes "in_file d s" and "length d = unat fsize" and "n \<le> unat (sh_entsize s)" and "j < sym_count s"
  shows "unat (sym_at s j) + n \<le> length d"
proof -
  have j: "j < unat (sh_size s) div unat (sh_entsize s)" using assms(4) by (simp add: unat_div)
  then have "Suc j * unat (sh_entsize s) \<le> unat (sh_size s)"
    using div_times_less_eq_dividend [of "unat (sh_size s)" "unat (sh_entsize s)"]
      mult_le_mono1 [of "Suc j" "unat (sh_size s) div unat (sh_entsize s)" "unat (sh_entsize s)"] by linarith
  then have le: "j * unat (sh_entsize s) + unat (sh_entsize s) \<le> unat (sh_size s)" by simp
  have jw: "of_nat j * sh_entsize s = of_nat (j * unat (sh_entsize s))" by simp
  have "unat (sym_at s j) = unat (sh_offset s) + j * unat (sh_entsize s)"
    unfolding jw using le by (intro in_file_offset [OF assms(1) _ assms(2)]) linarith
  then show ?thesis using le assms(1,3) unfolding in_file_def by linarith
qed

lemma check_symbols_total:
  fixes fsize :: u64
  assumes "in_file d s" and "length d = unat fsize" and "sizeof_Sym \<le> unat (sh_entsize s)"
    and "\<forall>j \<in> set js. j < sym_count s"
  shows "\<exists>r. check_symbols d s t js = Some r \<and>
           (r = Inr () \<longrightarrow> (\<forall>j \<in> set js. \<exists>y. load_sym d (sym_at s j) = Some y \<and> unat (st_name y) < unat (sh_size t)))"
  using assms(4)
proof (induction js)
  case (Cons j js)
  then have "unat (sym_at s j) + sizeof_Sym \<le> length d" using sym_in_file [OF assms(1-3)] by simp
  then obtain y where "load_sym d (sym_at s j) = Some y" using load_structs_Some(3) by blast
  then show ?case using Cons by (auto simp: not_le word_less_nat_alt unat_ucast_up)
qed simp

lemma check_symtab_total:
  fixes fsize :: u64
  assumes tab: "tables_ok d header" and len: "length d = unat fsize" and f: "in_file d s"
  shows "\<exists>r st'. check_symtab d header at s st = Some (r, st') \<and> (r = Inr () \<longrightarrow> symbols_ok d header s) \<and>
           vs_symtab st' = (if sh_type s = SHT_SYMTAB then Some at else vs_symtab st) \<and>
           vs_dynsym st' = (if sh_type s = SHT_SYMTAB then vs_dynsym st else Some at)"
proof (cases "unat (sh_entsize s) < sizeof_Sym \<or> sh_link s \<ge> ucast (e_shnum header)")
  case True
  then show ?thesis by (auto simp: check_symtab_def Let_def)
next
  case False
  then have e: "sizeof_Sym \<le> unat (sh_entsize s)" and l: "unat (sh_link s) < unat (e_shnum header)"
    by (auto simp: not_le word_less_nat_alt unat_ucast_up)
  then have "unat (ucast (sh_link s) :: u64) < unat (e_shnum header)" by (simp add: unat_ucast_up)
  then obtain t where t: "load_shdr d (shdr_at header (ucast (sh_link s))) = Some t"
    using tables_okD(1) [OF tab] by blast
  obtain r where r: "check_symbols d s t [0..<sym_count s] = Some r"
    "r = Inr () \<longrightarrow> (\<forall>j < sym_count s. \<exists>y. load_sym d (sym_at s j) = Some y \<and> unat (st_name y) < unat (sh_size t))"
    using check_symbols_total [OF f len e, of "[0..<sym_count s]" t] by auto
  show ?thesis
    using t r e l tables_okD(2) [OF tab l] False
    by (auto simp: check_symtab_def Let_def symbols_ok_def)
qed

lemma check_relocs_total:
  assumes tab: "tables_ok d header"
  shows "\<exists>r. check_relocs d header s n code = Some r \<and> (r = Inr () \<longrightarrow> relocs_ok d header s)"
proof (cases "sh_link s \<ge> ucast (e_shnum header)")
  case True
  then show ?thesis by (auto simp: check_relocs_def)
next
  case False
  then have l: "unat (sh_link s) < unat (e_shnum header)" by (auto simp: not_le word_less_nat_alt unat_ucast_up)
  then have "unat (ucast (sh_link s) :: u64) < unat (e_shnum header)" by (simp add: unat_ucast_up)
  then obtain t where "load_shdr d (shdr_at header (ucast (sh_link s))) = Some t"
    using tables_okD(1) [OF tab] by blast
  then show ?thesis using l tables_okD(2) [OF tab l] False by (auto simp: check_relocs_def relocs_ok_def)
qed

text \<open>The section pointers kept in the file structure point at symbol tables of the section table.\<close>

definition symtab_ptr :: "u8 list \<Rightarrow> Elf64_Ehdr \<Rightarrow> u64 option \<Rightarrow> bool" where
  "symtab_ptr d header p \<longleftrightarrow>
     (\<forall>a. p = Some a \<longrightarrow> (\<exists>i s. i < unat (e_shnum header) \<and> a = shdr_at header (of_nat i) \<and>
        load_shdr d a = Some s \<and> sh_type s \<in> {SHT_SYMTAB, SHT_DYNSYM}))"

lemma check_section_total:
  assumes tab: "tables_ok d header" and len: "length d = unat fsize" and i: "i < unat (e_shnum header)"
    and st: "symtab_ptr d header (vs_symtab st)" "symtab_ptr d header (vs_dynsym st)"
  shows "\<exists>r st' s. check_section d fsize header sh i st = Some (r, st') \<and>
           symtab_ptr d header (vs_symtab st') \<and> symtab_ptr d header (vs_dynsym st') \<and>
           load_shdr d (shdr_at header (of_nat i)) = Some s \<and> (r = Inr () \<longrightarrow> section_ok d header s)"
proof -
  let ?at = "shdr_at header (of_nat i)"
  have "i < 2 ^ 64" using i unat_u16_less [of "e_shnum header"] by simp
  then have "unat (of_nat i :: u64) = i" by (simp add: unsigned_of_nat take_bit_nat_eq_self)
  then obtain s where s: "load_shdr d ?at = Some s" using tables_okD(1) [OF tab, of "of_nat i"] i by auto
  have inf: "in_file d s" if "\<not> (sh_type s \<noteq> SHT_NOBITS \<and> (sh_offset s > fsize \<or> sh_size s > fsize - sh_offset s))"
    "sh_type s \<noteq> SHT_NOBITS"
    using that in_file_check [OF _ len] by blast
  have ptr: "symtab_ptr d header (Some ?at)" if "sh_type s = SHT_SYMTAB \<or> sh_type s = SHT_DYNSYM"
    using that i s by (auto simp: symtab_ptr_def)
  let ?early = "sh_type s \<noteq> SHT_NOBITS \<and> (sh_offset s > fsize \<or> sh_size s > fsize - sh_offset s) \<or>
    sh = None \<and> sh_name s \<noteq> 0 \<or> (case sh of None \<Rightarrow> False | Some x \<Rightarrow> ucast (sh_name s) \<ge> sh_size x)"
  consider "?early" | "\<not> ?early" "sh_type s = SHT_STRTAB" | "\<not> ?early" "sh_type s = SHT_SYMTAB \<or> sh_type s = SHT_DYNSYM"
    | "\<not> ?early" "sh_type s = SHT_RELA" | "\<not> ?early" "sh_type s = SHT_REL"
    | "\<not> ?early" "sh_type s \<notin> {SHT_STRTAB, SHT_SYMTAB, SHT_DYNSYM, SHT_RELA, SHT_REL}" by blast
  then show ?thesis
  proof cases
    case 1
    then have "\<exists>c. check_section d fsize header sh i st = Some (Inl c, st)"
      unfolding check_section_def Let_def s
      by (cases "sh_type s \<noteq> SHT_NOBITS \<and> (sh_offset s > fsize \<or> sh_size s > fsize - sh_offset s)";
          cases "sh = None \<and> sh_name s \<noteq> 0") (simp_all only: if_True if_False bind.bind_lunit Pair_inject
            option.inject sum.inject simp_thms not_False_eq_True, auto)
    then show ?thesis using s st by auto
  next
    case 2
    then have "in_file d s" using inf by (auto simp: SHT_defs)
    then obtain r where "check_strtab d s 21 22 = Some r" "r = Inr () \<longrightarrow> terminated d s"
      using check_strtab_total [OF _ len] by blast
    then show ?thesis using 2 s st \<open>in_file d s\<close> by (auto simp: check_section_def section_ok_def SHT_defs)
  next
    case 3
    then have "in_file d s" using inf by (auto simp: SHT_defs)
    then obtain r st' where "check_symtab d header ?at s st = Some (r, st')" "r = Inr () \<longrightarrow> symbols_ok d header s"
      "vs_symtab st' = (if sh_type s = SHT_SYMTAB then Some ?at else vs_symtab st)"
      "vs_dynsym st' = (if sh_type s = SHT_SYMTAB then vs_dynsym st else Some ?at)"
      using check_symtab_total [OF tab len] by blast
    then show ?thesis
      using 3 s st ptr \<open>in_file d s\<close> by (auto simp: check_section_def section_ok_def SHT_defs)
  next
    case 4
    then have "in_file d s" using inf by (auto simp: SHT_defs)
    obtain r where "check_relocs d header s sizeof_Rela 30 = Some r" "r = Inr () \<longrightarrow> relocs_ok d header s"
      using check_relocs_total [OF tab] by blast
    then show ?thesis using 4 s st \<open>in_file d s\<close> by (auto simp: check_section_def section_ok_def SHT_defs)
  next
    case 5
    then have "in_file d s" using inf by (auto simp: SHT_defs)
    obtain r where "check_relocs d header s sizeof_Rel 35 = Some r"
      using check_relocs_total [OF tab] by blast
    then show ?thesis using 5 s st \<open>in_file d s\<close> by (auto simp: check_section_def section_ok_def SHT_defs)
  next
    case 6
    then have "sh_type s \<noteq> SHT_NOBITS \<longrightarrow> in_file d s" using inf by blast
    then show ?thesis using 6 s st by (auto simp: check_section_def section_ok_def)
  qed
qed

definition sections_ok :: "u8 list \<Rightarrow> Elf64_Ehdr \<Rightarrow> nat set \<Rightarrow> bool" where
  "sections_ok d header I \<longleftrightarrow>
     (\<forall>i \<in> I. \<exists>s. load_shdr d (shdr_at header (of_nat i)) = Some s \<and> section_ok d header s)"

lemma check_sections_total:
  assumes tab: "tables_ok d header" and len: "length d = unat fsize"
    and "\<forall>i \<in> set is. i < unat (e_shnum header)"
    and "symtab_ptr d header (vs_symtab st)" "symtab_ptr d header (vs_dynsym st)"
  shows "\<exists>r st'. check_sections d fsize header sh is st = Some (r, st') \<and>
           symtab_ptr d header (vs_symtab st') \<and> symtab_ptr d header (vs_dynsym st') \<and>
           (r = Inr () \<longrightarrow> sections_ok d header (set is))"
  using assms(3-5)
proof (induction "is" arbitrary: st)
  case Nil
  then show ?case by (simp add: sections_ok_def)
next
  case (Cons i "is")
  have i: "i < unat (e_shnum header)" using Cons.prems(1) by simp
  obtain r st' s where r: "check_section d fsize header sh i st = Some (r, st')"
    "symtab_ptr d header (vs_symtab st')" "symtab_ptr d header (vs_dynsym st')"
    "load_shdr d (shdr_at header (of_nat i)) = Some s" "r = Inr () \<longrightarrow> section_ok d header s"
    using check_section_total [OF tab len i Cons.prems(2,3), of sh] by blast
  show ?case
  proof (cases r)
    case (Inl code)
    then show ?thesis using r by simp
  next
    case (Inr u)
    have rest: "\<forall>i \<in> set is. i < unat (e_shnum header)" using Cons.prems(1) by simp
    obtain r2 st2 where "check_sections d fsize header sh is st' = Some (r2, st2)"
      "symtab_ptr d header (vs_symtab st2)" "symtab_ptr d header (vs_dynsym st2)"
      "r2 = Inr () \<longrightarrow> sections_ok d header (set is)"
      using Cons.IH [OF rest r(2,3)] by blast
    then show ?thesis using r Inr by (simp add: sections_ok_def)
  qed
qed

lemma find_shstrtab_total:
  assumes tab: "tables_ok d header" and len: "length d = unat fsize"
  shows "\<exists>r. find_shstrtab d fsize header = Some r"
proof (cases "e_shstrndx header = SHN_XINDEX \<and> e_shnum header = 0")
  case True
  then show ?thesis by (simp add: find_shstrtab_def)
next
  case False
  have "\<exists>x :: u64. (if e_shstrndx header = SHN_XINDEX
      then load_shdr d (e_shoff header) \<bind> (\<lambda>s. Some (ucast (sh_link s))) else Some (ucast (e_shstrndx header))) = Some x"
  proof (cases "e_shstrndx header = SHN_XINDEX")
    case True
    then have "unat (0 :: u64) < unat (e_shnum header)" using False by (simp add: unat_gt_0)
    then obtain s where "load_shdr d (shdr_at header 0) = Some s" using tables_okD(1) [OF tab] by blast
    then show ?thesis using True by (simp add: shdr_at_def)
  qed simp
  then obtain x :: u64 where x: "(if e_shstrndx header = SHN_XINDEX
      then load_shdr d (e_shoff header) \<bind> (\<lambda>s. Some (ucast (sh_link s))) else Some (ucast (e_shstrndx header))) = Some x"
    by blast
  show ?thesis
  proof (cases "x = ucast SHN_UNDEF \<or> x \<ge> ucast (e_shnum header)")
    case True
    then show ?thesis unfolding find_shstrtab_def x using False by auto
  next
    case in_range: False
    then have "unat x < unat (e_shnum header)" by (simp add: not_le word_less_nat_alt unat_ucast_up)
    then obtain s where s: "load_shdr d (shdr_at header x) = Some s" using tables_okD(1) [OF tab] by blast
    show ?thesis
    proof (cases "sh_offset s > fsize \<or> sh_size s > fsize - sh_offset s")
      case True
      then show ?thesis unfolding find_shstrtab_def x using False in_range s by auto
    next
      case ok: False
      obtain r where "check_strtab d s 16 17 = Some r" using check_strtab_total [OF in_file_check [OF ok len] len] by blast
      then show ?thesis unfolding find_shstrtab_def x using False in_range s ok by (cases r) auto
    qed
  qed
qed

section \<open>Segments\<close>

definition segment_ok :: "u8 list \<Rightarrow> Elf64_Phdr \<Rightarrow> bool" where
  "segment_ok d p \<longleftrightarrow>
     unat (p_offset p) + unat (p_filesz p) \<le> length d \<and> (p_type p = PT_LOAD \<longrightarrow> p_filesz p \<le> p_memsz p)"

definition segments_ok :: "u8 list \<Rightarrow> Elf64_Ehdr \<Rightarrow> nat set \<Rightarrow> bool" where
  "segments_ok d header I \<longleftrightarrow>
     (\<forall>i \<in> I. \<exists>p. load_phdr d (phdr_at header (of_nat i)) = Some p \<and> segment_ok d p)"

lemma check_interp_total:
  fixes base fsize :: u64
  assumes "unat base + n \<le> length d" and "length d = unat fsize" and "\<forall>j \<in> set js. j < n"
  shows "\<exists>r. check_interp d base js = Some r"
  using assms(3)
proof (induction js)
  case (Cons j js)
  then have j: "j < n" by simp
  have "n \<le> unat fsize" using assms(1,2) by linarith
  then have "j < 18446744073709551616" using j unat_u64_less [of fsize] by linarith
  then have "unat (of_nat j :: u64) = j" by (simp add: unsigned_of_nat take_bit_nat_eq_self)
  moreover from this have "unat (base + of_nat j) = unat base + unat (of_nat j :: u64)"
    using assms j by (intro unat_add_bounded_u64 [of base "of_nat j" fsize]) linarith
  ultimately have b: "load_byte d (base + of_nat j) = Some (d ! (unat base + j))" using assms(1) j by simp
  show ?case using Cons unfolding check_interp.simps b by simp
qed simp

lemma check_segment_total:
  assumes tab: "tables_ok d header" and len: "length d = unat fsize" and i: "i < unat (e_phnum header)"
  shows "\<exists>r p. check_segment d fsize header i = Some r \<and>
           load_phdr d (phdr_at header (of_nat i)) = Some p \<and> (r = Inr () \<longrightarrow> segment_ok d p)"
proof -
  obtain p where p: "load_phdr d (phdr_at header (of_nat i)) = Some p" using tables_okD(3) [OF tab i] by blast
  show ?thesis
  proof (cases "p_offset p > fsize \<or> p_filesz p > fsize - p_offset p")
    case True
    then show ?thesis using p by (auto simp: check_segment_def)
  next
    case False
    then have f: "unat (p_offset p) + unat (p_filesz p) \<le> length d"
      using len by (auto simp: not_less word_le_nat_alt unat_sub_u64)
    obtain r where r: "check_interp d (p_offset p) [0..<unat (p_filesz p)] = Some r"
      using check_interp_total [OF f len, of "[0..<unat (p_filesz p)]"] by auto
    consider "p_type p = PT_LOAD" | "p_type p = PT_INTERP" | "p_type p \<noteq> PT_LOAD" "p_type p \<noteq> PT_INTERP" by blast
    then show ?thesis
      by cases (use p f r False in \<open>auto simp: check_segment_def segment_ok_def PT_LOAD_def PT_INTERP_def not_less\<close>)
  qed
qed

lemma check_segments_total:
  assumes tab: "tables_ok d header" and len: "length d = unat fsize"
    and "\<forall>i \<in> set is. i < unat (e_phnum header)"
  shows "\<exists>r. check_segments d fsize header is = Some r \<and> (r = Inr () \<longrightarrow> segments_ok d header (set is))"
  using assms(3)
proof (induction "is")
  case Nil
  then show ?case by (simp add: segments_ok_def)
next
  case (Cons i "is")
  have i: "i < unat (e_phnum header)" and rest: "\<forall>i \<in> set is. i < unat (e_phnum header)" using Cons.prems by simp_all
  obtain r p where r: "check_segment d fsize header i = Some r"
    "load_phdr d (phdr_at header (of_nat i)) = Some p" "r = Inr () \<longrightarrow> segment_ok d p"
    using check_segment_total [OF tab len i] by blast
  obtain r2 where "check_segments d fsize header is = Some r2" "r2 = Inr () \<longrightarrow> segments_ok d header (set is)"
    using Cons.IH [OF rest] by blast
  then show ?case using r by (cases r) (simp_all add: segments_ok_def)
qed

section \<open>The whole validation\<close>

definition elf_ok :: "Elf64_File \<Rightarrow> Elf64_Ehdr \<Rightarrow> bool" where
  "elf_ok elf header \<longleftrightarrow>
     length (ef_header elf) = unat (ef_size elf) \<and> load_ehdr (ef_header elf) = Some header \<and>
     tables_ok (ef_header elf) header \<and>
     sections_ok (ef_header elf) header {0..<unat (e_shnum header)} \<and>
     segments_ok (ef_header elf) header {0..<unat (e_phnum header)} \<and>
     (e_shstrndx header = SHN_XINDEX \<longrightarrow> 0 < unat (e_shnum header)) \<and>
     symtab_ptr (ef_header elf) header (ef_symtab elf) \<and> symtab_ptr (ef_header elf) header (ef_dynsym elf)"

lemma check_codes_nonzero:
  "check_ident header = Inl c \<Longrightarrow> c \<noteq> 0" "check_tables header fsize = Inl c \<Longrightarrow> c \<noteq> 0"
  by (auto simp: check_ident_def check_tables_def split: if_splits)

lemma case_code:
  "(case r of Inl code \<Rightarrow> Some (Inl code) | Inr u \<Rightarrow> k u) = Some (Inl c) \<longleftrightarrow>
     r = Inl c \<or> (\<exists>u. r = Inr u \<and> k u = Some (Inl c))"
  "(case r of Inl code \<Rightarrow> Some (Inl code, st) | Inr u \<Rightarrow> k' u) = Some (Inl c, st') \<longleftrightarrow>
     r = Inl c \<and> st = st' \<or> (\<exists>u. r = Inr u \<and> k' u = Some (Inl c, st'))"
  by (cases r; simp)+

lemma check_strtab_code: "check_strtab d s a b = Some (Inl c) \<Longrightarrow> c = a \<or> c = b"
  by (auto simp: check_strtab_def Option.bind_eq_Some_conv split: if_splits)

lemma find_shstrtab_code: "find_shstrtab d fsize header = Some (Inl c) \<Longrightarrow> c \<noteq> 0"
  by (auto simp: find_shstrtab_def Option.bind_eq_Some_conv case_code split: if_splits dest: check_strtab_code)

lemma check_symbols_code: "check_symbols d s t js = Some (Inl c) \<Longrightarrow> c = 29"
  by (induction js) (auto simp: Option.bind_eq_Some_conv split: if_splits)

lemma check_symtab_code: "check_symtab d header at s st = Some (Inl c, st') \<Longrightarrow> c \<noteq> 0"
  unfolding check_symtab_def Let_def
  by (auto simp: Option.bind_eq_Some_conv split: if_splits dest: check_symbols_code)

lemma check_relocs_code:
  "check_relocs d header s n code = Some (Inl c) \<Longrightarrow> c \<in> {code, code + 1, code + 2, code + 3, code + 4}"
  by (auto simp: check_relocs_def Option.bind_eq_Some_conv split: if_splits)

lemma check_section_code:
  assumes "check_section d fsize header sh i st = Some (Inl c, st')"
  shows "c \<noteq> 0"
proof -
  obtain s where s: "load_shdr d (shdr_at header (of_nat i)) = Some s"
    using assms unfolding check_section_def Let_def Option.bind_eq_Some_conv by blast
  have rel: "c \<noteq> 0" if "check_relocs d header s sizeof_Rela 30 = Some (Inl c) \<or> check_relocs d header s sizeof_Rel 35 = Some (Inl c)"
    using that check_relocs_code [of d header s _ _ c] by fastforce
  have "c \<in> {18, 19, 20} \<or> check_strtab d s 21 22 = Some (Inl c) \<or>
      check_symtab d header (shdr_at header (of_nat i)) s st = Some (Inl c, st') \<or>
      check_relocs d header s sizeof_Rela 30 = Some (Inl c) \<or> check_relocs d header s sizeof_Rel 35 = Some (Inl c)"
    using assms unfolding check_section_def Let_def s
    by (simp add: Option.bind_eq_Some_conv split: if_split_asm)
  then show ?thesis using check_strtab_code check_symtab_code rel by fastforce
qed

lemma check_sections_code: "check_sections d fsize header sh is st = Some (Inl c, st') \<Longrightarrow> c \<noteq> 0"
  by (induction "is" arbitrary: st)
     (auto simp: Option.bind_eq_Some_conv case_code dest: check_section_code)

lemma check_interp_code: "check_interp d base js = Some (Inl c) \<Longrightarrow> c = 43"
  by (induction js) (auto simp: Option.bind_eq_Some_conv split: if_splits)

lemma check_segments_code: "check_segments d fsize header is = Some (Inl c) \<Longrightarrow> c \<noteq> 0"
  by (induction "is")
     (auto simp: check_segment_def Option.bind_eq_Some_conv case_code split: if_splits dest: check_interp_code)

lemma elf64_validate_total:
  assumes len: "length d = unat fsize"
  shows "\<exists>c elf. elf64_validate (Some e) (Some d) fsize = Some (c, Some elf) \<and>
           (c = 0 \<longrightarrow> ef_header elf = d \<and> ef_size elf = fsize \<and> (\<exists>header. elf_ok elf header))"
proof (cases "unat fsize < sizeof_Ehdr")
  case True
  then show ?thesis by (simp add: elf64_validate_def)
next
  case False
  then obtain header where h: "load_ehdr d = Some header" using load_structs_Some(1) [of d] len by auto
  show ?thesis
  proof (cases "check_ident header")
    case (Inl c)
    then show ?thesis using False h check_codes_nonzero(1) by (simp add: elf64_validate_def)
  next
    case ident: (Inr u)
    show ?thesis
    proof (cases "check_tables header fsize")
      case (Inl c)
      then show ?thesis using False h ident check_codes_nonzero(2) by (simp add: elf64_validate_def)
    next
      case tables: (Inr v)
      have tab: "tables_ok d header" using check_tables_ok [OF _ len] tables by simp
      obtain s where s: "find_shstrtab d fsize header = Some s" using find_shstrtab_total [OF tab len] by blast
      show ?thesis
      proof (cases s)
        case (Inl c)
        then show ?thesis using False h ident tables s find_shstrtab_code by (simp add: elf64_validate_def)
      next
        case shstr: (Inr sh)
        let ?st = "\<lparr>symtabCount = 0, dynsymCount = 0, vs_symtab = None, vs_dynsym = None\<rparr>"
        obtain r st where r: "check_sections d fsize header sh [0..<unat (e_shnum header)] ?st = Some (r, st)"
          "symtab_ptr d header (vs_symtab st)" "symtab_ptr d header (vs_dynsym st)"
          "r = Inr () \<longrightarrow> sections_ok d header {0..<unat (e_shnum header)}"
          using check_sections_total [OF tab len, of "[0..<unat (e_shnum header)]" ?st sh]
          by (auto simp: symtab_ptr_def)
        obtain t where t: "check_segments d fsize header [0..<unat (e_phnum header)] = Some t"
          "t = Inr () \<longrightarrow> segments_ok d header {0..<unat (e_phnum header)}"
          using check_segments_total [OF tab len, of "[0..<unat (e_phnum header)]"] by auto
        have x: "e_shstrndx header = SHN_XINDEX \<longrightarrow> 0 < unat (e_shnum header)"
          using s shstr by (auto simp: find_shstrtab_def unat_gt_0 split: if_splits)
        show ?thesis
          using False h ident tables s shstr r t x tab len check_sections_code check_segments_code
          by (cases r; cases t) (auto simp: elf64_validate_def elf_ok_def)
      qed
    qed
  qed
qed

end
