(* ===== verification/Elf_Properties.thy ===== *)
theory Elf_Properties
  imports Elf_Valid
begin

text \<open>
  The routines that work on a validated file, and the properties of the ELF loader.
\<close>

section \<open>Accessors of a validated file\<close>

definition cstring :: "u8 list \<Rightarrow> u64 \<Rightarrow> bool" where
  "cstring d a \<longleftrightarrow> (\<exists>k. unat a + k < length d \<and> d ! (unat a + k) = 0)"

lemma elf_okD:
  assumes "elf_ok elf header"
  shows "length (ef_header elf) = unat (ef_size elf)" and "load_ehdr (ef_header elf) = Some header"
    and "tables_ok (ef_header elf) header"
    and "i < unat (e_shnum header) \<Longrightarrow>
           \<exists>s. load_shdr (ef_header elf) (shdr_at header (of_nat i)) = Some s \<and> section_ok (ef_header elf) header s"
    and "i < unat (e_phnum header) \<Longrightarrow>
           \<exists>p. load_phdr (ef_header elf) (phdr_at header (of_nat i)) = Some p \<and> segment_ok (ef_header elf) p"
    and "e_shstrndx header = SHN_XINDEX \<Longrightarrow> 0 < unat (e_shnum header)"
  using assms by (auto simp: elf_ok_def sections_ok_def segments_ok_def)

lemma elf_section:
  assumes "elf_ok elf header" and "unat i < unat (e_shnum header)"
  obtains s where "load_shdr (ef_header elf) (shdr_at header i) = Some s" "section_ok (ef_header elf) header s"
  using elf_okD(4) [OF assms] that by auto

lemma terminated_cstring:
  fixes fsize :: u64
  assumes "terminated d s" and "length d = unat fsize" and "n < unat (sh_size s)"
  shows "cstring d (sh_offset s + of_nat n)"
proof -
  have f: "in_file d s" and z: "d ! (unat (sh_offset s) + unat (sh_size s) - 1) = 0"
    using assms(1) by (auto simp: terminated_def)
  have "unat (sh_offset s + of_nat n) = unat (sh_offset s) + n"
    using assms(3) by (intro in_file_offset [OF f _ assms(2)]) simp
  then show ?thesis
    using f z assms(3) unfolding cstring_def in_file_def
    by (intro exI [of _ "unat (sh_size s) - 1 - n"]) simp
qed

lemma strcmp_eq_total:
  fixes fsize :: u64
  assumes "cstring d a" and "length d = unat fsize"
  shows "\<exists>b. strcmp_eq d a name = Some b"
  using assms(1)
proof (induction name arbitrary: a)
  case Nil
  then have "unat a < length d" by (auto simp: cstring_def)
  then show ?case by (simp add: load_byte_def)
next
  case (Cons x name)
  then obtain k where k: "unat a + k < length d" "d ! (unat a + k) = 0" by (auto simp: cstring_def)
  show ?case
  proof (cases "d ! unat a = 0 \<or> d ! unat a \<noteq> x")
    case True
    then show ?thesis using k by (auto simp: load_byte_def)
  next
    case False
    then have "0 < k" using k by (cases k) auto
    then have "unat (a + 1) = unat a + 1"
      using k assms(2) unat_add_bounded_u64 [of a 1 fsize] by simp
    then have "cstring d (a + 1)"
      using k \<open>0 < k\<close> unfolding cstring_def by (intro exI [of _ "k - 1"]) simp
    then show ?thesis using Cons.IH k by (simp add: load_byte_def)
  qed
qed

lemma elf64_get_string_total:
  assumes ok: "elf_ok elf header"
  shows "\<exists>r. elf64_get_string (Some elf) i off = Some r \<and> (\<forall>p. r = Some p \<longrightarrow> cstring (ef_header elf) p)"
proof (cases "i \<ge> ucast (e_shnum header)")
  case True
  then show ?thesis using elf_okD(2) [OF ok] by (simp add: elf64_get_string_def)
next
  case False
  then have i: "unat i < unat (e_shnum header)" by (simp add: not_le word_less_nat_alt unat_ucast_up)
  obtain s where s: "load_shdr (ef_header elf) (shdr_at header i) = Some s" "section_ok (ef_header elf) header s"
    by (rule elf_section [OF ok i])
  have "cstring (ef_header elf) (sh_offset s + off)" if "sh_type s = SHT_STRTAB" "\<not> off \<ge> sh_size s"
  proof -
    have "terminated (ef_header elf) s" "unat off < unat (sh_size s)"
      using that s(2) by (auto simp: section_ok_def not_le word_less_nat_alt)
    then show ?thesis using terminated_cstring [OF _ elf_okD(1) [OF ok]] by fastforce
  qed
  then show ?thesis using False s(1) elf_okD(2) [OF ok] by (simp add: elf64_get_string_def)
qed

lemma section_names_total:
  assumes ok: "elf_ok elf header"
  shows "\<exists>i. section_names elf header = Some i"
proof (cases "e_shstrndx header = SHN_XINDEX")
  case True
  then have "unat (0 :: u64) < unat (e_shnum header)" using elf_okD(6) [OF ok] by simp
  then obtain s where "load_shdr (ef_header elf) (shdr_at header 0) = Some s" by (rule elf_section [OF ok])
  then show ?thesis using True by (simp add: section_names_def)
qed (simp add: section_names_def)

lemma find_section_total:
  assumes ok: "elf_ok elf header" and "\<forall>i \<in> set is. i < unat (e_shnum header)"
  shows "\<exists>r. find_section elf header x name is = Some r"
  using assms(2)
proof (induction "is")
  case (Cons i "is")
  then have "i < unat (e_shnum header)" by simp
  then obtain s where s: "load_shdr (ef_header elf) (shdr_at header (of_nat i)) = Some s"
    using elf_okD(4) [OF ok] by blast
  obtain r where r: "elf64_get_string (Some elf) x (ucast (sh_name s)) = Some r"
    "\<forall>p. r = Some p \<longrightarrow> cstring (ef_header elf) p" using elf64_get_string_total [OF ok] by blast
  have "\<exists>b. (case r of None \<Rightarrow> Some False | Some p \<Rightarrow> strcmp_eq (ef_header elf) p name) = Some b"
    using r(2) strcmp_eq_total [OF _ elf_okD(1) [OF ok]] by (cases r) auto
  then show ?case using Cons s r(1) by auto
qed simp

lemma section_lookups_total:
  assumes ok: "elf_ok elf header"
  shows "\<exists>r. elf64_get_section_by_name (Some elf) (Some name) = Some r"
    and "\<exists>r. elf64_get_section_name (Some elf) (Some s) = Some r \<and> (\<forall>p. r = Some p \<longrightarrow> cstring (ef_header elf) p)"
proof -
  obtain x where x: "section_names elf header = Some x" using section_names_total [OF ok] by blast
  have "\<exists>r. find_section elf header x name [0..<unat (e_shnum header)] = Some r"
    by (rule find_section_total [OF ok]) simp
  then show "\<exists>r. elf64_get_section_by_name (Some elf) (Some name) = Some r"
    using x elf_okD(2) [OF ok] by (auto simp: elf64_get_section_by_name_def)
  show "\<exists>r. elf64_get_section_name (Some elf) (Some s) = Some r \<and> (\<forall>p. r = Some p \<longrightarrow> cstring (ef_header elf) p)"
    using x elf_okD(2) [OF ok] elf64_get_string_total [OF ok, of x "ucast (sh_name s)"]
    by (simp add: elf64_get_section_name_def)
qed

text \<open>A symbol table section of the file, with the string table it names.\<close>

lemma elf_symtab:
  assumes ok: "elf_ok elf header" and i: "unat i < unat (e_shnum header)"
    and s: "load_shdr (ef_header elf) (shdr_at header i) = Some s" "sh_type s \<in> {SHT_SYMTAB, SHT_DYNSYM}"
  shows "sh_entsize s \<noteq> 0"
    and "j < sym_count s \<Longrightarrow> \<exists>y. load_sym (ef_header elf) (sym_at s j) = Some y"
    and "\<exists>t. load_shdr (ef_header elf) (shdr_at32 header (sh_link s)) = Some t \<and>
           (\<forall>j y. j < sym_count s \<and> load_sym (ef_header elf) (sym_at s j) = Some y \<longrightarrow>
              cstring (ef_header elf) (sh_offset t + ucast (st_name y)))"
proof -
  have sok: "section_ok (ef_header elf) header s" using elf_section [OF ok i] s(1) by fastforce
  then have sy: "symbols_ok (ef_header elf) header s" using s(2) by (auto simp: section_ok_def)
  then show "sh_entsize s \<noteq> 0" by (auto simp: symbols_ok_def sizeof_Sym_def)
  obtain t where t: "unat (sh_link s) < unat (e_shnum header)"
    "load_shdr (ef_header elf) (shdr_at header (ucast (sh_link s))) = Some t" "sh_type t = SHT_STRTAB"
    "\<forall>j < sym_count s. \<exists>y. load_sym (ef_header elf) (sym_at s j) = Some y \<and> unat (st_name y) < unat (sh_size t)"
    using sy unfolding symbols_ok_def by blast
  show "j < sym_count s \<Longrightarrow> \<exists>y. load_sym (ef_header elf) (sym_at s j) = Some y" using t(4) by blast
  have "unat (ucast (sh_link s) :: u64) < unat (e_shnum header)" using t(1) by (simp add: unat_ucast_up)
  then have "section_ok (ef_header elf) header t" using elf_section [OF ok] t(2) by fastforce
  then have tm: "terminated (ef_header elf) t" using t(3) by (simp add: section_ok_def)
  have "cstring (ef_header elf) (sh_offset t + ucast (st_name y))"
    if "j < sym_count s" "load_sym (ef_header elf) (sym_at s j) = Some y" for j y
  proof -
    have "unat (st_name y) < unat (sh_size t)" using t(4) that by fastforce
    then show ?thesis using terminated_cstring [OF tm elf_okD(1) [OF ok]] by fastforce
  qed
  then show "\<exists>t. load_shdr (ef_header elf) (shdr_at32 header (sh_link s)) = Some t \<and>
      (\<forall>j y. j < sym_count s \<and> load_sym (ef_header elf) (sym_at s j) = Some y \<longrightarrow>
         cstring (ef_header elf) (sh_offset t + ucast (st_name y)))"
    using t(2) tables_okD(2) [OF elf_okD(3) [OF ok] t(1)] by auto
qed

lemma symtab_ptrD:
  assumes ok: "elf_ok elf header" and "symtab_ptr (ef_header elf) header (Some a)"
  obtains i s where "unat i < unat (e_shnum header)" "a = shdr_at header i"
    "load_shdr (ef_header elf) (shdr_at header i) = Some s" "sh_type s \<in> {SHT_SYMTAB, SHT_DYNSYM}"
proof -
  obtain i s where i: "i < unat (e_shnum header)" "a = shdr_at header (of_nat i)"
    "load_shdr (ef_header elf) a = Some s" "sh_type s \<in> {SHT_SYMTAB, SHT_DYNSYM}"
    using assms(2) unfolding symtab_ptr_def by blast
  have "i < 2 ^ 64" using i(1) unat_u16_less [of "e_shnum header"] by simp
  then have "unat (of_nat i :: u64) = i" by (simp add: unsigned_of_nat take_bit_nat_eq_self)
  then show thesis using that [of "of_nat i" s] i by simp
qed

lemma symbol_by_index_total:
  assumes ok: "elf_ok elf header" and ptr: "symtab_ptr (ef_header elf) header (table elf)"
  shows "\<exists>r. symbol_by_index table (Some elf) n = Some r \<and>
           (\<forall>p. r = Some p \<longrightarrow> (\<exists>y. load_sym (ef_header elf) p = Some y))"
proof (cases "table elf")
  case None
  then show ?thesis by (simp add: symbol_by_index_def)
next
  case (Some a)
  then obtain i s where i: "unat i < unat (e_shnum header)" "a = shdr_at header i"
    "load_shdr (ef_header elf) (shdr_at header i) = Some s" "sh_type s \<in> {SHT_SYMTAB, SHT_DYNSYM}"
    using symtab_ptrD [OF ok] ptr by metis
  note st = elf_symtab [OF ok i(1,3,4)]
  have "\<exists>y. load_sym (ef_header elf) (sh_offset s + n * sh_entsize s) = Some y" if "n < sh_size s div sh_entsize s"
    using st(2) [of "unat n"] that by (simp add: word_less_nat_alt)
  then show ?thesis using Some i st(1) by (simp add: symbol_by_index_def not_le)
qed

lemma find_symbol_total:
  fixes fsize :: u64
  assumes "\<forall>j \<in> set js. \<exists>y. load_sym d (sym_at s j) = Some y \<and> cstring d (a + ucast (st_name y))"
    and "length d = unat fsize"
  shows "\<exists>r. find_symbol d s a name js = Some r"
  using assms(1)
proof (induction js)
  case (Cons j js)
  then obtain y where y: "load_sym d (sym_at s j) = Some y" "cstring d (a + ucast (st_name y))" by auto
  obtain b where "strcmp_eq d (a + ucast (st_name y)) name = Some b"
    using strcmp_eq_total [OF y(2) assms(2)] by blast
  then show ?case using Cons y(1) by (auto simp: Let_def)
qed simp

lemma elf64_get_symbol_by_name_total:
  assumes ok: "elf_ok elf header"
  shows "\<exists>r. elf64_get_symbol_by_name (Some elf) (Some name) = Some r"
proof (cases "ef_symtab elf")
  case None
  then show ?thesis by (simp add: elf64_get_symbol_by_name_def)
next
  case (Some a)
  moreover have "symtab_ptr (ef_header elf) header (ef_symtab elf)" using ok by (simp add: elf_ok_def)
  ultimately obtain i s where i: "unat i < unat (e_shnum header)" "a = shdr_at header i"
    "load_shdr (ef_header elf) (shdr_at header i) = Some s" "sh_type s \<in> {SHT_SYMTAB, SHT_DYNSYM}"
    using symtab_ptrD [OF ok] by metis
  note st = elf_symtab [OF ok i(1,3,4)]
  obtain t where t: "load_shdr (ef_header elf) (shdr_at32 header (sh_link s)) = Some t"
    "\<forall>j y. j < sym_count s \<and> load_sym (ef_header elf) (sym_at s j) = Some y \<longrightarrow>
       cstring (ef_header elf) (sh_offset t + ucast (st_name y))" using st(3) by blast
  have "\<forall>j \<in> set [0..<sym_count s]. \<exists>y. load_sym (ef_header elf) (sym_at s j) = Some y \<and>
      cstring (ef_header elf) (sh_offset t + ucast (st_name y))"
    using st(2) t(2) by fastforce
  then obtain r where "find_symbol (ef_header elf) s (sh_offset t) name [0..<sym_count s] = Some r"
    using find_symbol_total [OF _ elf_okD(1) [OF ok]] by blast
  then show ?thesis
    using Some i st(1) t(1) elf_okD(2) [OF ok] by (simp add: elf64_get_symbol_by_name_def)
qed

section \<open>Relocation\<close>

lemma relocate_one_total:
  assumes ok: "elf_ok elf header" and i: "unat i < unat (e_shnum header)"
    and s: "load_shdr (ef_header elf) (shdr_at header i) = Some s" "sh_type s \<in> {SHT_SYMTAB, SHT_DYNSYM}"
  shows "\<exists>r. relocate_one elf base off res s rela m = Some r"
proof -
  note st = elf_symtab [OF ok i s]
  let ?n = "drop_bit 32 (r_info rela)"
  show ?thesis
  proof (cases "?n \<ge> sh_size s div sh_entsize s")
    case True
    then show ?thesis by (simp add: relocate_one_def Let_def)
  next
    case False
    then obtain y where y: "load_sym (ef_header elf) (sh_offset s + ?n * sh_entsize s) = Some y"
      using st(2) [of "unat ?n"] by (auto simp: not_le word_less_nat_alt)
    obtain nm where nm: "elf64_get_string (Some elf) (ucast (sh_link s)) (ucast (st_name y)) = Some nm"
      using elf64_get_string_total [OF ok] by blast
    show ?thesis unfolding relocate_one_def Let_def using False y nm by simp
  qed
qed

lemma relocate_entries_total:
  assumes ok: "elf_ok elf header" and i: "unat i < unat (e_shnum header)"
    and s: "load_shdr (ef_header elf) (shdr_at header i) = Some s" "sh_type s \<in> {SHT_SYMTAB, SHT_DYNSYM}"
    and r: "in_file (ef_header elf) r" and "\<forall>j \<in> set js. Suc j * sizeof_Rela \<le> unat (sh_size r)"
  shows "\<exists>x. relocate_entries elf base off res s r js m = Some x"
  using assms(6)
proof (induction js arbitrary: m)
  case (Cons j js)
  then have le: "j * sizeof_Rela + sizeof_Rela \<le> unat (sh_size r)" by simp
  have "unat (sh_offset r + of_nat (j * sizeof_Rela)) = unat (sh_offset r) + j * sizeof_Rela"
    using le by (intro in_file_offset [OF r _ elf_okD(1) [OF ok]]) simp
  then have "unat (sh_offset r + of_nat (j * sizeof_Rela)) + sizeof_Rela \<le> length (ef_header elf)"
    using le r unfolding in_file_def by linarith
  then obtain rela where rela: "load_rela (ef_header elf) (sh_offset r + of_nat (j * sizeof_Rela)) = Some rela"
    using load_structs_Some(5) by blast
  obtain x where x: "relocate_one elf base off res s rela m = Some x"
    using relocate_one_total [OF ok i s] by blast
  show ?case
  proof (cases x)
    case (Inl m')
    then show ?thesis unfolding relocate_entries.simps rela using x by simp
  next
    case (Inr m')
    have "\<forall>j \<in> set js. Suc j * sizeof_Rela \<le> unat (sh_size r)" using Cons.prems by simp
    then have "\<exists>x. relocate_entries elf base off res s r js m' = Some x" by (rule Cons.IH)
    then show ?thesis unfolding relocate_entries.simps rela using x Inr by simp
  qed
qed simp

lemma relocate_sections_total:
  assumes ok: "elf_ok elf header" and "\<forall>i \<in> set is. i < unat (e_shnum header)"
  shows "\<exists>x. relocate_sections elf header base off res is m = Some x"
  using assms(2)
proof (induction "is" arbitrary: m)
  case (Cons i "is")
  then have i: "i < unat (e_shnum header)" and rest: "\<forall>i \<in> set is. i < unat (e_shnum header)" by simp_all
  obtain r where r: "load_shdr (ef_header elf) (shdr_at header (of_nat i)) = Some r"
    "section_ok (ef_header elf) header r" using elf_okD(4) [OF ok i] by blast
  show ?case
  proof (cases "sh_type r = SHT_RELA")
    case False
    then show ?thesis using r(1) Cons.IH [OF rest] by simp
  next
    case True
    then have f: "in_file (ef_header elf) r" and rel: "relocs_ok (ef_header elf) header r"
      using r(2) by (auto simp: section_ok_def SHT_defs)
    then obtain s where l: "unat (sh_link r) < unat (e_shnum header)"
      and s: "load_shdr (ef_header elf) (shdr_at header (ucast (sh_link r))) = Some s" "sh_type s \<in> {SHT_SYMTAB, SHT_DYNSYM}"
      unfolding relocs_ok_def by blast
    have l': "unat (ucast (sh_link r) :: u64) < unat (e_shnum header)" using l by (simp add: unat_ucast_up)
    have "\<forall>j \<in> set [0..<unat (sh_size r div of_nat sizeof_Rela)]. Suc j * sizeof_Rela \<le> unat (sh_size r)"
    proof
      fix j
      assume "j \<in> set [0..<unat (sh_size r div of_nat sizeof_Rela)]"
      then have "j < unat (sh_size r) div sizeof_Rela" by (simp add: unat_div sizeof_Rela_def)
      then have "Suc j * sizeof_Rela \<le> unat (sh_size r) div sizeof_Rela * sizeof_Rela" by (intro mult_le_mono1) simp
      then show "Suc j * sizeof_Rela \<le> unat (sh_size r)"
        using div_times_less_eq_dividend [of "unat (sh_size r)" sizeof_Rela] by linarith
    qed
    then obtain x where x: "relocate_entries elf base off res s r [0..<unat (sh_size r div of_nat sizeof_Rela)] m = Some x"
      using relocate_entries_total [OF ok l' s f] by blast
    have "load_shdr (ef_header elf) (shdr_at32 header (sh_link r)) = Some s"
      using s(1) tables_okD(2) [OF elf_okD(3) [OF ok] l] by simp
    then show ?thesis
      using True r(1) x elf_symtab(1) [OF ok l' s] Cons.IH [OF rest] by (cases x) simp_all
  qed
qed simp

lemma elf64_relocate_total:
  assumes ok: "elf_ok elf header"
  shows "\<exists>r. elf64_relocate elf base off res m = Some r"
proof -
  have "\<exists>x. relocate_sections elf header base off res [0..<unat (e_shnum header)] m = Some x"
    by (rule relocate_sections_total [OF ok]) simp
  then obtain x where "relocate_sections elf header base off res [0..<unat (e_shnum header)] m = Some x" by blast
  then show ?thesis using elf_okD(2) [OF ok] by (cases x) (simp_all add: elf64_relocate_def)
qed

section \<open>Loading segments\<close>

text \<open>The program header \<open>i\<close>, the place of a byte in a segment, and the byte it gets.\<close>

definition segment :: "Elf64_File \<Rightarrow> Elf64_Ehdr \<Rightarrow> nat \<Rightarrow> Elf64_Phdr" where
  "segment elf header i = the (load_phdr (ef_header elf) (phdr_at header (of_nat i)))"

definition place_in :: "u64 \<Rightarrow> u64 \<Rightarrow> Elf64_Phdr \<Rightarrow> u64 \<Rightarrow> nat" where
  "place_in base offset p x = unat (x - (base + (p_vaddr p - offset)))"

definition covers :: "u64 \<Rightarrow> u64 \<Rightarrow> Elf64_Phdr \<Rightarrow> u64 \<Rightarrow> bool" where
  "covers base offset p x \<longleftrightarrow> p_type p = PT_LOAD \<and> place_in base offset p x < unat (p_memsz p)"

definition segment_byte :: "u8 list \<Rightarrow> u64 \<Rightarrow> u64 \<Rightarrow> Elf64_Phdr \<Rightarrow> u64 \<Rightarrow> u8" where
  "segment_byte d base offset p x =
     (let k = place_in base offset p x in if k < unat (p_filesz p) then d ! (unat (p_offset p) + k) else 0)"

lemma elf_segment:
  assumes ok: "elf_ok elf header" and i: "i < unat (e_phnum header)"
  shows "load_phdr (ef_header elf) (phdr_at32 header (of_nat i)) = Some (segment elf header i)"
    and "segment_ok (ef_header elf) (segment elf header i)"
  using elf_okD(5) [OF ok i] tables_okD(4) [OF elf_okD(3) [OF ok] i] by (auto simp: segment_def)

lemma store_two:
  fixes f z :: u64
  assumes "unat f + unat z < 2 ^ 64" and "length bs = unat f"
  shows "store (store m a bs) (a + f) (replicate (unat z) 0) x =
           (if unat (x - a) < unat f then bs ! unat (x - a)
            else if unat (x - a) < unat f + unat z then 0 else m x)"
proof (cases "unat (x - a) < unat f")
  case True
  have "unat (x - (a + f)) = unat (x - a) + (2 ^ 64 - unat f)"
  proof -
    have eq: "x - (a + f) = (x - a) - f" by simp
    have "unat (w - f) = unat w + (2 ^ 64 - unat f)" if "unat w < unat f" for w :: u64
      using that by (simp add: unat_sub_if_size word_size Nat.add_diff_assoc less_imp_le)
    from this [OF True] have "unat ((x - a) - f) = unat (x - a) + (2 ^ 64 - unat f)" .
    then show ?thesis unfolding eq .
  qed
  then have "\<not> unat (x - (a + f)) < unat z" using assms(1) by linarith
  then show ?thesis using True assms(2) by (simp add: store_def)
next
  case False
  have eq: "x - (a + f) = (x - a) - f" by simp
  have "unat (x - (a + f)) = unat (x - a) - unat f" unfolding eq using False by (intro unat_sub_u64) simp
  then show ?thesis using False assms(2) by (auto simp: store_def)
qed

lemma load_segment_effect:
  assumes ok: "elf_ok elf header" and i: "i < unat (e_phnum header)"
  defines "p \<equiv> segment elf header i"
  shows "\<exists>m'. load_segment elf header base offset i m = Some m' \<and>
           (\<forall>x. m' x = (if covers base offset p x then segment_byte (ef_header elf) base offset p x else m x))"
proof -
  note seg = elf_segment [OF ok i, folded p_def]
  let ?d = "ef_header elf"
  show ?thesis
  proof (cases "p_type p = PT_LOAD")
    case False
    then show ?thesis using seg(1) by (simp add: load_segment_def covers_def)
  next
    case True
    then have le: "unat (p_filesz p) \<le> unat (p_memsz p)" and f: "unat (p_offset p) + unat (p_filesz p) \<le> length ?d"
      using seg(2) by (simp_all add: segment_ok_def word_le_nat_alt)
    let ?bs = "take (unat (p_filesz p)) (drop (unat (p_offset p)) ?d)"
    let ?a = "base + (p_vaddr p - offset)"
    have len: "length ?bs = unat (p_filesz p)" using f by simp
    have bs: "?bs ! k = ?d ! (unat (p_offset p) + k)" if "k < unat (p_filesz p)" for k using that f by simp
    have z: "unat (p_memsz p - p_filesz p) = unat (p_memsz p) - unat (p_filesz p)" using le by (rule unat_sub_u64)
    have sum: "unat (p_filesz p) + unat (p_memsz p - p_filesz p) < 2 ^ 64" using z le by simp
    have l: "load ?d (p_offset p) (unat (p_filesz p)) = Some ?bs" using f by simp
    let ?m1 = "store m ?a ?bs"
    let ?m2 = "store ?m1 (?a + p_filesz p) (replicate (unat (p_memsz p - p_filesz p)) 0)"
    have same: "?m1 = ?m2" if "\<not> p_memsz p > p_filesz p"
    proof -
      have "p_memsz p = p_filesz p" using that le by (simp add: word_less_nat_alt word_unat_eq_iff)
      then show ?thesis by (simp add: store_def)
    qed
    have "load_segment elf header base offset i m = Some ?m2"
      unfolding load_segment_def using seg(1) True same by (simp add: l load_def f Let_def)
    moreover have "?m2 x = (if covers base offset p x then segment_byte ?d base offset p x else m x)" for x
      unfolding store_two [OF sum len]
      using True bs le z by (auto simp: covers_def segment_byte_def place_in_def Let_def)
    ultimately show ?thesis by blast
  qed
qed

lemma load_segments_image:
  assumes ok: "elf_ok elf header"
    and disj: "\<And>i j x. i < unat (e_phnum header) \<Longrightarrow> j < unat (e_phnum header) \<Longrightarrow>
      covers base offset (segment elf header i) x \<Longrightarrow> covers base offset (segment elf header j) x \<Longrightarrow> i = j"
  shows "\<exists>m'. elf64_load_segments (Some elf) base offset m = Some m' \<and>
           (\<forall>i x. i < unat (e_phnum header) \<and> covers base offset (segment elf header i) x \<longrightarrow>
              m' x = segment_byte (ef_header elf) base offset (segment elf header i) x) \<and>
           (\<forall>x. (\<forall>i < unat (e_phnum header). \<not> covers base offset (segment elf header i) x) \<longrightarrow> m' x = m x)"
proof -
  let ?c = "\<lambda>i. covers base offset (segment elf header i)" and ?N = "unat (e_phnum header)"
  let ?b = "\<lambda>i. segment_byte (ef_header elf) base offset (segment elf header i)"
  define P where "P = (\<lambda>n m'. (\<forall>i x. i < n \<and> ?c i x \<longrightarrow> m' x = ?b i x) \<and> (\<forall>x. (\<forall>i < n. \<not> ?c i x) \<longrightarrow> m' x = m x))"
  have "\<exists>m'. for_each (load_segment elf header base offset) [0..<?N] m = Some m' \<and> P (length [0..<?N]) m'"
  proof (rule for_each_invariant)
    show "P 0 m" by (simp add: P_def)
  next
    fix n s
    assume n: "n < length [0..<?N]" and s: "P n s"
    then have n': "n < ?N" by simp
    obtain m' where m': "load_segment elf header base offset n s = Some m'"
      "\<forall>x. m' x = (if ?c n x then ?b n x else s x)" using load_segment_effect [OF ok n'] by blast
    have "P (Suc n) m'"
      unfolding P_def
    proof (intro conjI allI impI)
      fix i x
      assume a: "i < Suc n \<and> ?c i x"
      show "m' x = ?b i x"
      proof (cases "i = n")
        case False
        then have "i < n" using a by simp
        moreover have "\<not> ?c n x" using disj [of i n x] a False n' by fastforce
        ultimately show ?thesis using m'(2) s a by (simp add: P_def)
      qed (use a m'(2) in simp)
    next
      fix x
      assume "\<forall>i < Suc n. \<not> ?c i x"
      then show "m' x = m x" using m'(2) s by (simp add: P_def)
    qed
    then show "\<exists>s'. load_segment elf header base offset ([0..<?N] ! n) s = Some s' \<and> P (Suc n) s'"
      using m'(1) n' by auto
  qed
  then show ?thesis using elf_okD(2) [OF ok] by (simp add: elf64_load_segments_def P_def)
qed

lemma load_segments_total:
  assumes ok: "elf_ok elf header"
  shows "\<exists>m'. elf64_load_segments (Some elf) base offset m = Some m'"
proof -
  have "\<exists>m'. for_each (load_segment elf header base offset) [0..<unat (e_phnum header)] m = Some m' \<and> True"
    by (rule for_each_invariant) (use load_segment_effect [OF ok] in fastforce)+
  then show ?thesis using elf_okD(2) [OF ok] by (simp add: elf64_load_segments_def)
qed

lemma loadable_bounds_correct:
  assumes ok: "elf_ok elf header"
  defines "L \<equiv> {segment elf header i |i. i < unat (e_phnum header) \<and> p_type (segment elf header i) = PT_LOAD}"
  shows "\<exists>lo hi. elf64_get_loadable_bounds (Some elf) = Some (Some (lo, hi)) \<and>
           (\<forall>p \<in> L. lo \<le> p_vaddr p \<and> p_vaddr p + p_memsz p \<le> hi) \<and>
           (L \<noteq> {} \<longrightarrow> (\<exists>p \<in> L. lo = p_vaddr p) \<and> hi \<in> insert 0 ((\<lambda>p. p_vaddr p + p_memsz p) ` L)) \<and>
           (L = {} \<longrightarrow> lo = - 1 \<and> hi = 0)"
proof -
  let ?N = "unat (e_phnum header)"
  let ?f = "\<lambda>i (lo, hi). load_phdr (ef_header elf) (phdr_at32 header (of_nat i)) \<bind> (\<lambda>phdr.
      if p_type phdr = PT_LOAD
      then Some (if p_vaddr phdr < lo then p_vaddr phdr else lo,
                 if p_vaddr phdr + p_memsz phdr > hi then p_vaddr phdr + p_memsz phdr else hi)
      else Some (lo, hi))"
  define S where "S = (\<lambda>n. {segment elf header i |i. i < n \<and> p_type (segment elf header i) = PT_LOAD})"
  define P where "P = (\<lambda>n (lo, hi). (\<forall>p \<in> S n. lo \<le> p_vaddr p \<and> p_vaddr p + p_memsz p \<le> hi) \<and>
      (S n = {} \<longrightarrow> lo = - 1 \<and> hi = 0) \<and>
      (lo = - 1 \<or> (\<exists>p \<in> S n. lo = p_vaddr p)) \<and> hi \<in> insert 0 ((\<lambda>p. p_vaddr p + p_memsz p) ` S n))"
  have S_Suc: "S (Suc n) = (if p_type (segment elf header n) = PT_LOAD then insert (segment elf header n) (S n) else S n)" for n
    by (auto simp: S_def less_Suc_eq)
  have "\<exists>r. for_each ?f [0..<?N] (- 1, 0) = Some r \<and> P (length [0..<?N]) r"
  proof (rule for_each_invariant)
    show "P 0 (- 1, 0)" by (simp add: P_def S_def)
  next
    fix n s
    assume n: "n < length [0..<?N]" and s: "P n s"
    obtain lo hi where lh: "s = (lo, hi)" by (cases s)
    have "load_phdr (ef_header elf) (phdr_at32 header (of_nat n)) = Some (segment elf header n)"
      using elf_segment(1) [OF ok, of n] n by simp
    then show "\<exists>s'. ?f ([0..<?N] ! n) s = Some s' \<and> P (Suc n) s'"
      using n s unfolding lh by (auto simp: P_def S_Suc not_less intro: less_imp_le order_trans)
  qed
  then obtain lo hi where r: "for_each ?f [0..<?N] (- 1, 0) = Some (lo, hi)" "P ?N (lo, hi)" by auto
  have L: "L = S ?N" by (simp add: L_def S_def)
  have "elf64_get_loadable_bounds (Some elf) = Some (Some (lo, hi))"
    using r(1) elf_okD(2) [OF ok] by (simp add: elf64_get_loadable_bounds_def)
  moreover have "\<exists>p \<in> L. lo = p_vaddr p" if ne: "L \<noteq> {}"
  proof (cases "lo = - 1")
    case True
    obtain p where "p \<in> L" using ne by blast
    then have "lo \<le> p_vaddr p" using r(2) by (simp add: P_def L)
    then show ?thesis using True \<open>p \<in> L\<close> by (intro bexI [of _ p]) (simp_all add: word_order.extremum_unique)
  qed (use r(2) in \<open>auto simp: P_def L\<close>)
  ultimately show ?thesis using r(2) by (auto simp: P_def L)
qed

section \<open>A small file\<close>

text \<open>One loadable segment of four bytes, eight in memory, at address 0x1000.\<close>

definition sample_elf :: "u8 list" where
  "sample_elf =
     [0x7f, 0x45, 0x4c, 0x46, 2, 1, 1, 0, 0, 0, 0, 0, 0, 0, 0, 0] @
     [2, 0, 62, 0, 1, 0, 0, 0] @ [0, 0x10, 0, 0, 0, 0, 0, 0] @ [64, 0, 0, 0, 0, 0, 0, 0] @ replicate 8 0 @
     [0, 0, 0, 0, 64, 0, 56, 0, 1, 0, 0, 0, 0, 0, 0, 0] @
     [1, 0, 0, 0, 5, 0, 0, 0] @ [120, 0, 0, 0, 0, 0, 0, 0] @ [0, 0x10, 0, 0, 0, 0, 0, 0] @ replicate 8 0 @
     [4, 0, 0, 0, 0, 0, 0, 0] @ [8, 0, 0, 0, 0, 0, 0, 0] @ replicate 8 0 @ [0xde, 0xad, 0xbe, 0xef]"

definition empty_elf :: Elf64_File where
  "empty_elf = \<lparr>ef_header = [], ef_size = 0, ef_symtab = None, ef_dynsym = None\<rparr>"

lemma sample_elf_valid:
  "elf64_validate (Some empty_elf) (Some sample_elf) 124 =
     Some (0, Some \<lparr>ef_header = sample_elf, ef_size = 124, ef_symtab = None, ef_dynsym = None\<rparr>)"
  by code_simp

abbreviation sample_file :: Elf64_File where
  "sample_file \<equiv> \<lparr>ef_header = sample_elf, ef_size = 124, ef_symtab = None, ef_dynsym = None\<rparr>"

lemma sample_elf_length: "length sample_elf = unat (124 :: u64)"
  by (simp add: sample_elf_def)

lemma sample_elf_headers:
  "map_option e_phnum (load_ehdr sample_elf) = Some 1"
  "map_option (\<lambda>p. (p_type p, p_vaddr p, p_offset p, p_filesz p, p_memsz p)) (load_phdr sample_elf 64) =
     Some (PT_LOAD, 0x1000, 120, 4, 8)"
  "map_option (\<lambda>h. phdr_at h 0) (load_ehdr sample_elf) = Some 64"
  by code_simp+

section \<open>Properties\<close>

text \<open>C13. Validation of an ELF file never reads outside the file, whatever the bytes of the file are:
  every header, section, symbol, string and segment it looks at has been checked to lie inside.\<close>

theorem elf64_validate_safe:
  assumes "length d = unat fsize"
  shows "\<exists>code elf'. elf64_validate (Some elf) (Some d) fsize = Some (code, Some elf')"
  using elf64_validate_total [OF assms] by blast

theorem elf64_validate_safe_witness:
  "\<exists>code elf'. elf64_validate (Some empty_elf) (Some sample_elf) 124 = Some (code, Some elf')"
  using elf64_validate_safe [OF sample_elf_length] .

text \<open>C14. On a file that validation accepted, the accessors, the relocation and the loader never read
  outside the file. Strings they return end inside the file and symbols they return lie in it.\<close>

theorem elf64_accessors_safe:
  assumes "length d = unat fsize" and "elf64_validate (Some e) (Some d) fsize = Some (0, Some elf)"
  shows "(\<forall>i off. \<exists>r. elf64_get_string (Some elf) i off = Some r \<and> (\<forall>p. r = Some p \<longrightarrow> cstring d p)) \<and>
         (\<forall>s. \<exists>r. elf64_get_section_name (Some elf) (Some s) = Some r \<and> (\<forall>p. r = Some p \<longrightarrow> cstring d p)) \<and>
         (\<forall>name. elf64_get_section_by_name (Some elf) (Some name) \<noteq> None) \<and>
         (\<forall>i. \<exists>r. elf64_get_symbol_by_index (Some elf) i = Some r \<and>
            (\<forall>p. r = Some p \<longrightarrow> (\<exists>y. load_sym d p = Some y))) \<and>
         (\<forall>i. \<exists>r. elf64_get_dynamic_symbol_by_index (Some elf) i = Some r \<and>
            (\<forall>p. r = Some p \<longrightarrow> (\<exists>y. load_sym d p = Some y))) \<and>
         (\<forall>name. elf64_get_symbol_by_name (Some elf) (Some name) \<noteq> None) \<and>
         (\<forall>base off res m. elf64_relocate elf base off res m \<noteq> None) \<and>
         (\<forall>base off m. elf64_load_segments (Some elf) base off m \<noteq> None)"
proof -
  obtain header where ok: "elf_ok elf header" and d: "ef_header elf = d"
    using elf64_validate_total [OF assms(1), of e] assms(2) by auto
  have "symtab_ptr (ef_header elf) header (ef_symtab elf)" "symtab_ptr (ef_header elf) header (ef_dynsym elf)"
    using ok by (simp_all add: elf_ok_def)
  note ptrs = symbol_by_index_total [OF ok, of ef_symtab, OF this(1)]
    symbol_by_index_total [OF ok, of ef_dynsym, OF this(2)]
  show ?thesis
    unfolding elf64_get_symbol_by_index_def elf64_get_dynamic_symbol_by_index_def not_None_eq
    using elf64_get_string_total [OF ok] section_lookups_total [OF ok] ptrs elf64_get_symbol_by_name_total [OF ok]
      elf64_relocate_total [OF ok] load_segments_total [OF ok]
    unfolding d by blast
qed

theorem elf64_accessors_safe_witness:
  "elf64_get_section_by_name (Some sample_file) (Some [46]) \<noteq> None \<and>
   elf64_relocate sample_file 0 0 (\<lambda>_. 0) (\<lambda>_. 0) \<noteq> None"
  using elf64_accessors_safe [OF sample_elf_length sample_elf_valid] by blast

text \<open>C15. Loading an accepted file whose loadable segments do not overlap gives every byte of a segment
  its byte of the file, zero after the part that is in the file, and leaves the rest of memory alone.\<close>

theorem elf64_load_segments_image:
  assumes "length d = unat fsize" and "elf64_validate (Some e) (Some d) fsize = Some (0, Some elf)"
    and "load_ehdr d = Some header"
    and "\<And>i j x. i < unat (e_phnum header) \<Longrightarrow> j < unat (e_phnum header) \<Longrightarrow>
      covers base offset (segment elf header i) x \<Longrightarrow> covers base offset (segment elf header j) x \<Longrightarrow> i = j"
  shows "\<exists>m'. elf64_load_segments (Some elf) base offset m = Some m' \<and>
           (\<forall>i x. i < unat (e_phnum header) \<and> covers base offset (segment elf header i) x \<longrightarrow>
              m' x = segment_byte d base offset (segment elf header i) x) \<and>
           (\<forall>x. (\<forall>i < unat (e_phnum header). \<not> covers base offset (segment elf header i) x) \<longrightarrow> m' x = m x)"
proof -
  obtain h where ok: "elf_ok elf h" and d: "ef_header elf = d"
    using elf64_validate_total [OF assms(1), of e] assms(2) by auto
  then have "h = header" using elf_okD(2) [OF ok] assms(3) by simp
  then show ?thesis using load_segments_image [OF ok] assms(4) d by blast
qed

text \<open>The loadable bounds enclose every loadable segment; the lower one is the address of a segment,
  the upper one the end of a segment (or 0).\<close>

theorem elf64_loadable_bounds_enclose:
  assumes "length d = unat fsize" and "elf64_validate (Some e) (Some d) fsize = Some (0, Some elf)"
    and "load_ehdr d = Some header"
  defines "L \<equiv> {segment elf header i |i. i < unat (e_phnum header) \<and> p_type (segment elf header i) = PT_LOAD}"
  shows "\<exists>lo hi. elf64_get_loadable_bounds (Some elf) = Some (Some (lo, hi)) \<and>
           (\<forall>p \<in> L. lo \<le> p_vaddr p \<and> p_vaddr p + p_memsz p \<le> hi) \<and>
           (L \<noteq> {} \<longrightarrow> (\<exists>p \<in> L. lo = p_vaddr p) \<and> hi \<in> insert 0 ((\<lambda>p. p_vaddr p + p_memsz p) ` L)) \<and>
           (L = {} \<longrightarrow> lo = - 1 \<and> hi = 0)"
proof -
  obtain h where ok: "elf_ok elf h" and d: "ef_header elf = d"
    using elf64_validate_total [OF assms(1), of e] assms(2) by auto
  then have "h = header" using elf_okD(2) [OF ok] assms(3) by simp
  then show ?thesis using loadable_bounds_correct [OF ok] unfolding L_def by blast
qed

lemma sample_segment:
  assumes "load_ehdr sample_elf = Some header"
  shows "unat (e_phnum header) = 1" and "segment sample_file header 0 = the (load_phdr sample_elf 64)"
    and "p_type (segment sample_file header 0) = PT_LOAD" and "p_vaddr (segment sample_file header 0) = 0x1000"
    and "p_memsz (segment sample_file header 0) = 8" and "p_filesz (segment sample_file header 0) = 4"
    and "p_offset (segment sample_file header 0) = 120"
  using assms sample_elf_headers by (auto simp: segment_def)

theorem elf64_load_segments_image_witness:
  "\<exists>m'. elf64_load_segments (Some sample_file) 0x5000 0x1000 (\<lambda>_. 7) = Some m' \<and>
     m' 0x5001 = 0xad \<and> m' 0x5004 = 0 \<and> m' 0x5008 = 7"
proof -
  obtain header where h: "load_ehdr sample_elf = Some header" using sample_elf_headers(1) by auto
  note s = sample_segment [OF h]
  have c: "covers 0x5000 0x1000 (segment sample_file header 0) x \<longleftrightarrow> unat (x - 0x5000) < 8" for x
    using s(3-5) by (simp add: covers_def place_in_def)
  have b: "sample_elf ! 121 = 0xad" by code_simp
  obtain m' where m': "elf64_load_segments (Some sample_file) 0x5000 0x1000 (\<lambda>_. 7) = Some m'"
    "\<forall>i x. i < unat (e_phnum header) \<and> covers 0x5000 0x1000 (segment sample_file header i) x \<longrightarrow>
       m' x = segment_byte sample_elf 0x5000 0x1000 (segment sample_file header i) x"
    "\<forall>x. (\<forall>i < unat (e_phnum header). \<not> covers 0x5000 0x1000 (segment sample_file header i) x) \<longrightarrow> m' x = 7"
    using elf64_load_segments_image [OF sample_elf_length sample_elf_valid h, of "0x5000" "0x1000" "\<lambda>_. 7"] s(1) by auto
  have at: "covers 0x5000 0x1000 (segment sample_file header 0) x \<Longrightarrow>
      m' x = segment_byte sample_elf 0x5000 0x1000 (segment sample_file header 0) x" for x
    using m'(2) s(1) by simp
  have "m' 0x5001 = 0xad" "m' 0x5004 = 0"
    using at [of "0x5001"] at [of "0x5004"] s b unfolding c
    by (simp_all add: segment_byte_def place_in_def)
  moreover have "m' 0x5008 = 7" using m'(3) s(1) unfolding less_one c by (auto simp: c)
  ultimately show ?thesis using m'(1) by blast
qed

end
