(* ===== verification/Paging.thy ===== *)
theory Paging
  imports Pmm
begin

text \<open>
  The page tables of \<^verbatim>\<open>include/kernel/mem/paging.h\<close> and \<^verbatim>\<open>paging_types.h\<close>. The content of
  a page of physical memory, read as a \<^verbatim>\<open>pml_t\<close>, is the list of its 512 entries and is found at
  its page frame number in \<open>pt_mem\<close>; a \<^verbatim>\<open>pml_t*\<close> is that number, so \<^verbatim>\<open>PFN_TO_VIRT\<close> and
  \<^verbatim>\<open>VIRT_TO_PFN\<close> are the identity. The callbacks for pages work on a memory manager state
  \<open>pt_mm\<close> of any type. Invalidations of the TLB are logged in \<open>pt_tlb\<close>, latest first.
\<close>

unbundle bit_operations_syntax

section \<open>Entries and addresses\<close>

definition PML_INDEX_AMOUNT :: nat where "PML_INDEX_AMOUNT = 512"

definition PML_PRESENT :: u64 where "PML_PRESENT = push_bit 0 1"
definition PML_WRITE :: u64 where "PML_WRITE = push_bit 1 1"
definition PML_USER :: u64 where "PML_USER = push_bit 2 1"
definition PML_GLOBAL :: u64 where "PML_GLOBAL = push_bit 8 1"
definition PML_OWNED :: u64 where "PML_OWNED = push_bit 9 1"
definition PML_NONE :: u64 where "PML_NONE = 0"

text \<open>Bits 0 to 9 and 63.\<close>

definition PML_FLAGS_MASK :: u64 where
  "PML_FLAGS_MASK = mask 10 OR push_bit 63 1"

definition present :: "u64 \<Rightarrow> bool" where "present raw = bit raw 0"
definition owned :: "u64 \<Rightarrow> bool" where "owned raw = bit raw 9"
definition pinned :: "u64 \<Rightarrow> bool" where "pinned raw = bit raw 10"

definition get_field :: "nat \<Rightarrow> nat \<Rightarrow> u64 \<Rightarrow> u64" where
  "get_field pos len raw = take_bit len (drop_bit pos raw)"

definition set_field :: "nat \<Rightarrow> nat \<Rightarrow> u64 \<Rightarrow> u64 \<Rightarrow> u64" where
  "set_field pos len v raw = (raw AND NOT (push_bit pos (mask len))) OR push_bit pos (take_bit len v)"

definition entry_pfn :: "u64 \<Rightarrow> u64" where "entry_pfn raw = get_field 12 40 raw"
definition set_pfn :: "u64 \<Rightarrow> u64 \<Rightarrow> u64" where "set_pfn = set_field 12 40"

definition entry_callback :: "u64 \<Rightarrow> u64" where
  "entry_callback raw = get_field 11 1 raw OR push_bit 1 (get_field 52 7 raw)"

definition set_callback :: "u64 \<Rightarrow> u64 \<Rightarrow> u64" where
  "set_callback callbackId raw = set_field 52 7 (drop_bit 1 callbackId) (set_field 11 1 (callbackId AND 1) raw)"

definition PML_CALLBACK_NONE :: u64 where "PML_CALLBACK_NONE = push_bit 8 1 - 1"

definition PML_ADDR_TO_INDEX :: "u64 \<Rightarrow> nat \<Rightarrow> u64" where
  "PML_ADDR_TO_INDEX addr level = drop_bit ((level - 1) * 9 + 12) addr AND 511"

definition PML_INDEX_TO_ADDR_NO_WRAP :: "u64 \<Rightarrow> nat \<Rightarrow> u64" where
  "PML_INDEX_TO_ADDR_NO_WRAP index level = push_bit ((level - 1) * 9 + 12) index"

definition PML_HIGHER_HALF_START :: u64 where
  "PML_HIGHER_HALF_START = NOT (push_bit 47 1 - 1)"

definition PML_INDEX_TO_ADDR :: "u64 \<Rightarrow> nat \<Rightarrow> u64" where
  "PML_INDEX_TO_ADDR index level =
     (if index < 256 then PML_INDEX_TO_ADDR_NO_WRAP index level
      else PML_INDEX_TO_ADDR_NO_WRAP index level OR PML_HIGHER_HALF_START)"

definition PML2_SIZE :: u64 where "PML2_SIZE = push_bit 21 1"
definition PML3_SIZE :: u64 where "PML3_SIZE = push_bit 30 1"
definition PML4_SIZE :: u64 where "PML4_SIZE = push_bit 39 1"

definition PHYS_TO_PFN :: "u64 \<Rightarrow> u64" where "PHYS_TO_PFN addr = addr div PAGE_SIZE"
definition PFN_TO_PHYS :: "u64 \<Rightarrow> u64" where "PFN_TO_PHYS pfn = pfn * PAGE_SIZE"

section \<open>Page tables\<close>

datatype tlb_op = Flush | Invlpg u64

record 'm page_table =
  pt_allocPage :: "'m \<Rightarrow> (u64 \<times> 'm) option"
  pt_freePages :: "u64 list \<Rightarrow> 'm \<Rightarrow> 'm"
  pt_pml4 :: u64
  pt_mem :: "u64 \<Rightarrow> u64 list"
  pt_mm :: 'm
  pt_tlb :: "tlb_op list"

definition get_entry :: "'m page_table \<Rightarrow> u64 \<Rightarrow> u64 \<Rightarrow> u64" where
  "get_entry t pml index = pt_mem t pml ! unat index"

definition set_entry :: "u64 \<Rightarrow> u64 \<Rightarrow> u64 \<Rightarrow> 'm page_table \<Rightarrow> 'm page_table" where
  "set_entry pml index raw t = t\<lparr>pt_mem := (pt_mem t)(pml := (pt_mem t pml)[unat index := raw])\<rparr>"

definition tlb_invalidate :: "u64 \<Rightarrow> u64 \<Rightarrow> 'm page_table \<Rightarrow> 'm page_table" where
  "tlb_invalidate addr amount t =
     (if amount = 0 then t
      else if amount > 16 then t\<lparr>pt_tlb := Flush # pt_tlb t\<rparr>
      else t\<lparr>pt_tlb := rev (List.map (\<lambda>i. Invlpg (addr + of_nat i * PAGE_SIZE)) [0..<unat amount]) @ pt_tlb t\<rparr>)"

definition pml_is_empty :: "u64 \<Rightarrow> 'm page_table \<Rightarrow> bool" where
  "pml_is_empty pml t = list_all (\<lambda>i. pt_mem t pml ! i = 0) [0..<PML_INDEX_AMOUNT]"

definition pml_new :: "'m page_table \<Rightarrow> (u64 \<times> 'm page_table) option" where
  "pml_new t =
     (case pt_allocPage t (pt_mm t) of
        None \<Rightarrow> None
      | Some (pfn, mm) \<Rightarrow>
          Some (pfn, t\<lparr>pt_mm := mm, pt_mem := (pt_mem t)(pfn := replicate PML_INDEX_AMOUNT 0)\<rparr>))"

definition free_pages :: "u64 list \<Rightarrow> 'm page_table \<Rightarrow> 'm page_table" where
  "free_pages pfns t = t\<lparr>pt_mm := pt_freePages t pfns (pt_mm t)\<rparr>"

text \<open>\<open>pml_free n\<close> is \<^verbatim>\<open>pml_free\<close> at level \<open>n + 1\<close>.\<close>

primrec pml_free :: "nat \<Rightarrow> u64 \<Rightarrow> 'm page_table \<Rightarrow> 'm page_table" where
  "pml_free 0 pml t =
     free_pages [pml]
       (foldl (\<lambda>t i.
          let entry = pt_mem t pml ! i
          in if \<not> present entry then t
             else if owned entry then free_pages [entry_pfn entry] t
             else t) t [0..<PML_INDEX_AMOUNT])"
| "pml_free (Suc n) pml t =
     free_pages [pml]
       (foldl (\<lambda>t i.
          let entry = pt_mem t pml ! i
          in if \<not> present entry then t
             else pml_free n (entry_pfn entry) t) t [0..<PML_INDEX_AMOUNT])"

definition page_table_init ::
  "('m \<Rightarrow> (u64 \<times> 'm) option) \<Rightarrow> (u64 list \<Rightarrow> 'm \<Rightarrow> 'm) \<Rightarrow> 'm page_table \<Rightarrow> bool \<times> 'm page_table" where
  "page_table_init allocPage freePages t =
     (let t = t\<lparr>pt_allocPage := allocPage, pt_freePages := freePages\<rparr>
      in case pml_new t of None \<Rightarrow> (False, t) | Some (pml, t) \<Rightarrow> (True, t\<lparr>pt_pml4 := pml\<rparr>))"

definition page_table_deinit :: "'m page_table \<Rightarrow> 'm page_table" where
  "page_table_deinit t = pml_free 3 (pt_pml4 t) t"

section \<open>Traversal\<close>

definition page_table_get_pml :: "u64 \<Rightarrow> u64 \<Rightarrow> u64 \<Rightarrow> 'm page_table \<Rightarrow> u64 option \<times> 'm page_table" where
  "page_table_get_pml current index flags t =
     (let entry = get_entry t current index
      in if present entry then (Some (entry_pfn entry), t)
         else if flags AND PML_PRESENT \<noteq> 0 then
           (case pml_new t of
              None \<Rightarrow> (None, t)
            | Some (next, t) \<Rightarrow> (Some next, set_entry current index (set_pfn next (flags AND PML_FLAGS_MASK)) t))
         else (None, t))"

record traverse =
  t_pml3 :: u64
  t_pml2 :: u64
  t_pml1 :: u64
  pml3Valid :: bool
  pml2Valid :: bool
  pml1Valid :: bool
  oldIdx3 :: u64
  oldIdx2 :: u64
  oldIdx1 :: u64
  t_entry :: "u64 \<times> u64"

definition PAGE_TABLE_TRAVERSE_CREATE :: traverse where
  "PAGE_TABLE_TRAVERSE_CREATE =
     \<lparr>t_pml3 = 0, t_pml2 = 0, t_pml1 = 0, pml3Valid = False, pml2Valid = False, pml1Valid = False,
      oldIdx3 = 0, oldIdx2 = 0, oldIdx1 = 0, t_entry = (0, 0)\<rparr>"

text \<open>The three steps of \<^verbatim>\<open>page_table_traverse\<close>; the flag is false for the error return. The
  functions the C code calls with a pointer to the table change it even when they fail.\<close>

definition traverse_pml3 :: "u64 \<Rightarrow> u64 \<Rightarrow> traverse \<times> 'm page_table \<Rightarrow> bool \<times> traverse \<times> 'm page_table" where
  "traverse_pml3 addr flags = (\<lambda>(tr, t).
     let newIdx3 = PML_ADDR_TO_INDEX addr 4
     in if \<not> pml3Valid tr \<or> oldIdx3 tr \<noteq> newIdx3 then
          (case page_table_get_pml (pt_pml4 t) newIdx3 ((flags OR PML_WRITE OR PML_USER) AND NOT PML_GLOBAL) t of
             (None, t) \<Rightarrow> (False, tr, t)
           | (Some pml, t) \<Rightarrow> (True, tr\<lparr>t_pml3 := pml, oldIdx3 := newIdx3, pml2Valid := False\<rparr>, t))
        else (True, tr, t))"

definition traverse_pml2 :: "u64 \<Rightarrow> u64 \<Rightarrow> traverse \<times> 'm page_table \<Rightarrow> bool \<times> traverse \<times> 'm page_table" where
  "traverse_pml2 addr flags = (\<lambda>(tr, t).
     let newIdx2 = PML_ADDR_TO_INDEX addr 3
     in if \<not> pml2Valid tr \<or> oldIdx2 tr \<noteq> newIdx2 then
          (case page_table_get_pml (t_pml3 tr) newIdx2 (flags OR PML_WRITE OR PML_USER) t of
             (None, t) \<Rightarrow> (False, tr, t)
           | (Some pml, t) \<Rightarrow> (True, tr\<lparr>t_pml2 := pml, oldIdx2 := newIdx2, pml1Valid := False\<rparr>, t))
        else (True, tr, t))"

definition traverse_pml1 :: "u64 \<Rightarrow> u64 \<Rightarrow> traverse \<times> 'm page_table \<Rightarrow> bool \<times> traverse \<times> 'm page_table" where
  "traverse_pml1 addr flags = (\<lambda>(tr, t).
     let newIdx1 = PML_ADDR_TO_INDEX addr 2
     in if \<not> pml1Valid tr \<or> oldIdx1 tr \<noteq> newIdx1 then
          (case page_table_get_pml (t_pml2 tr) newIdx1 (flags OR PML_WRITE OR PML_USER) t of
             (None, t) \<Rightarrow> (False, tr, t)
           | (Some pml, t) \<Rightarrow> (True, tr\<lparr>t_pml1 := pml, oldIdx1 := newIdx1\<rparr>, t))
        else (True, tr, t))"

definition page_table_traverse :: "u64 \<Rightarrow> u64 \<Rightarrow> traverse \<times> 'm page_table \<Rightarrow> bool \<times> traverse \<times> 'm page_table" where
  "page_table_traverse addr flags s =
     (case traverse_pml3 addr flags s of (ok, s) \<Rightarrow>
      if \<not> ok then (False, s) else
      (case traverse_pml2 addr flags s of (ok, s) \<Rightarrow>
       if \<not> ok then (False, s) else
       (case traverse_pml1 addr flags s of (ok, tr, t) \<Rightarrow>
        if \<not> ok then (False, tr, t)
        else (True, tr\<lparr>t_entry := (t_pml1 tr, PML_ADDR_TO_INDEX addr 1)\<rparr>, t))))"

text \<open>Reading and writing \<^verbatim>\<open>*traverse.entry\<close>.\<close>

definition cur_entry :: "traverse \<Rightarrow> 'm page_table \<Rightarrow> u64" where
  "cur_entry tr t = get_entry t (fst (t_entry tr)) (snd (t_entry tr))"

definition put_entry :: "traverse \<Rightarrow> u64 \<Rightarrow> 'm page_table \<Rightarrow> 'm page_table" where
  "put_entry tr raw t = set_entry (fst (t_entry tr)) (snd (t_entry tr)) raw t"

section \<open>Operations on ranges\<close>

definition page_table_get_phys_addr :: "u64 \<Rightarrow> 'm page_table \<Rightarrow> u64 option \<times> 'm page_table" where
  "page_table_get_phys_addr addr t =
     (case page_table_traverse (ROUND_DOWN addr PAGE_SIZE) PML_NONE (PAGE_TABLE_TRAVERSE_CREATE, t) of
        (ok, tr, t) \<Rightarrow>
          if \<not> ok then (None, t)
          else if \<not> present (cur_entry tr t) then (None, t)
          else (Some (PFN_TO_PHYS (entry_pfn (cur_entry tr t)) + addr mod PAGE_SIZE), t))"

text \<open>The loops run over the page numbers of the range.\<close>

primrec is_mapped_loop :: "u64 \<Rightarrow> nat list \<Rightarrow> traverse \<times> 'm page_table \<Rightarrow> bool \<times> 'm page_table" where
  "is_mapped_loop addr [] s = (True, snd s)"
| "is_mapped_loop addr (i # is) s =
     (case page_table_traverse (addr + of_nat i * PAGE_SIZE) PML_NONE s of (ok, tr, t) \<Rightarrow>
        if \<not> ok then (False, t)
        else if \<not> present (cur_entry tr t) then (False, t)
        else is_mapped_loop addr is (tr, t))"

definition page_table_is_mapped :: "u64 \<Rightarrow> u64 \<Rightarrow> 'm page_table \<Rightarrow> bool \<times> 'm page_table" where
  "page_table_is_mapped addr amount t =
     is_mapped_loop addr [0..<unat amount] (PAGE_TABLE_TRAVERSE_CREATE, t)"

primrec is_unmapped_loop :: "u64 \<Rightarrow> nat list \<Rightarrow> traverse \<times> 'm page_table \<Rightarrow> bool \<times> 'm page_table" where
  "is_unmapped_loop addr [] s = (True, snd s)"
| "is_unmapped_loop addr (i # is) s =
     (case page_table_traverse (addr + of_nat i * PAGE_SIZE) PML_NONE s of (ok, tr, t) \<Rightarrow>
        if \<not> ok then is_unmapped_loop addr is (tr, t)
        else if present (cur_entry tr t) then (False, t)
        else is_unmapped_loop addr is (tr, t))"

definition page_table_is_unmapped :: "u64 \<Rightarrow> u64 \<Rightarrow> 'm page_table \<Rightarrow> bool \<times> 'm page_table" where
  "page_table_is_unmapped addr amount t =
     is_unmapped_loop addr [0..<unat amount] (PAGE_TABLE_TRAVERSE_CREATE, t)"

text \<open>The loop of both mapping functions, over the frames to map; the address moves up one page
  per round.\<close>

primrec map_loop ::
  "u64 \<Rightarrow> u64 \<Rightarrow> u64 \<Rightarrow> u64 list \<Rightarrow> traverse \<times> 'm page_table \<Rightarrow> bool \<times> 'm page_table" where
  "map_loop flags callbackId addr [] s = (True, snd s)"
| "map_loop flags callbackId addr (pfn # pfns) s =
     (case page_table_traverse addr flags s of (ok, tr, t) \<Rightarrow>
        if \<not> ok then (False, t)
        else if present (cur_entry tr t) then (False, t)
        else map_loop flags callbackId (addr + PAGE_SIZE) pfns
               (tr, put_entry tr (set_callback callbackId (set_pfn pfn flags)) t))"

definition page_table_map :: "u64 \<Rightarrow> u64 \<Rightarrow> u64 \<Rightarrow> u64 \<Rightarrow> u64 \<Rightarrow> 'm page_table \<Rightarrow> bool \<times> 'm page_table" where
  "page_table_map addr phys amount flags callbackId t =
     (if flags AND PML_PRESENT = 0 then (False, t)
      else map_loop flags callbackId addr
             (List.map (\<lambda>i. PHYS_TO_PFN (phys + of_nat i * PAGE_SIZE)) [0..<unat amount])
             (PAGE_TABLE_TRAVERSE_CREATE, t))"

definition page_table_map_pages :: "u64 \<Rightarrow> u64 list \<Rightarrow> u64 \<Rightarrow> u64 \<Rightarrow> 'm page_table \<Rightarrow> bool \<times> 'm page_table" where
  "page_table_map_pages addr pfns flags callbackId t =
     (if flags AND PML_PRESENT = 0 then (False, t)
      else map_loop flags callbackId addr pfns (PAGE_TABLE_TRAVERSE_CREATE, t))"

primrec unmap_loop :: "u64 \<Rightarrow> nat list \<Rightarrow> traverse \<times> 'm page_table \<Rightarrow> 'm page_table" where
  "unmap_loop addr [] s = snd s"
| "unmap_loop addr (i # is) s =
     (case page_table_traverse (addr + of_nat i * PAGE_SIZE) PML_NONE s of (ok, tr, t) \<Rightarrow>
        if \<not> ok then unmap_loop addr is (tr, t)
        else if \<not> present (cur_entry tr t) then unmap_loop addr is (tr, t)
        else unmap_loop addr is (tr, put_entry tr (unset_bit 0 (cur_entry tr t)) t))"

definition page_table_unmap :: "u64 \<Rightarrow> u64 \<Rightarrow> 'm page_table \<Rightarrow> 'm page_table" where
  "page_table_unmap addr amount t =
     tlb_invalidate addr amount (unmap_loop addr [0..<unat amount] (PAGE_TABLE_TRAVERSE_CREATE, t))"

text \<open>The buffer of pages to free; its amount is the length of the list.\<close>

definition PML_PAGE_BUFFER_SIZE :: nat where "PML_PAGE_BUFFER_SIZE = 64"

definition page_buffer_push :: "u64 \<Rightarrow> u64 list \<times> 'm page_table \<Rightarrow> u64 list \<times> 'm page_table" where
  "page_buffer_push pfn = (\<lambda>(buffer, t).
     let buffer = buffer @ [pfn]
     in if length buffer \<ge> PML_PAGE_BUFFER_SIZE then ([], free_pages buffer t) else (buffer, t))"

definition page_buffer_flush :: "u64 list \<times> 'm page_table \<Rightarrow> u64 list \<times> 'm page_table" where
  "page_buffer_flush = (\<lambda>(buffer, t).
     if length buffer > 0 then ([], free_pages buffer t) else (buffer, t))"

definition page_table_clear_pml1_pml2_pml3 ::
  "traverse \<Rightarrow> traverse \<Rightarrow> u64 list \<times> 'm page_table \<Rightarrow> u64 list \<times> 'm page_table" where
  "page_table_clear_pml1_pml2_pml3 prev tr s =
     (if pml1Valid prev \<and> t_pml1 prev \<noteq> t_pml1 tr \<and> pml_is_empty (t_pml1 prev) (snd s) then
        (case page_buffer_push (t_pml1 prev) s of (buffer, t) \<Rightarrow>
         let t = set_entry (t_pml2 prev) (oldIdx1 prev) 0 t
         in if pml2Valid prev \<and> t_pml2 prev \<noteq> t_pml2 tr \<and> pml_is_empty (t_pml2 prev) t then
              (case page_buffer_push (t_pml2 prev) (buffer, t) of (buffer, t) \<Rightarrow>
               let t = set_entry (t_pml3 prev) (oldIdx2 prev) 0 t
               in if pml3Valid prev \<and> t_pml3 prev \<noteq> t_pml3 tr \<and> pml_is_empty (t_pml3 prev) t then
                    (case page_buffer_push (t_pml3 prev) (buffer, t) of (buffer, t) \<Rightarrow>
                     (buffer, set_entry (pt_pml4 t) (oldIdx3 prev) 0 t))
                  else (buffer, t))
            else (buffer, t))
      else s)"

primrec clear_loop ::
  "u64 \<Rightarrow> nat list \<Rightarrow> traverse \<Rightarrow> traverse \<Rightarrow> u64 list \<times> 'm page_table \<Rightarrow>
     traverse \<times> traverse \<times> u64 list \<times> 'm page_table" where
  "clear_loop addr [] prev tr s = (prev, tr, s)"
| "clear_loop addr (i # is) prev tr s =
     (case page_table_clear_pml1_pml2_pml3 prev tr s of (buffer, t) \<Rightarrow>
      case page_table_traverse (addr + of_nat i * PAGE_SIZE) PML_NONE (tr, t) of (ok, tr, t) \<Rightarrow>
        if \<not> ok then
          clear_loop addr is (prev\<lparr>pml1Valid := False, pml2Valid := False, pml3Valid := False\<rparr>) tr (buffer, t)
        else if present (cur_entry tr t) then clear_loop addr is tr tr (buffer, t)
        else
          (case (if owned (cur_entry tr t) then page_buffer_push (entry_pfn (cur_entry tr t)) (buffer, t)
                 else (buffer, t)) of (buffer, t) \<Rightarrow>
             clear_loop addr is tr tr (buffer, put_entry tr 0 t)))"

definition page_table_clear :: "u64 \<Rightarrow> u64 \<Rightarrow> 'm page_table \<Rightarrow> 'm page_table" where
  "page_table_clear addr amount t =
     (case clear_loop addr [0..<unat amount] PAGE_TABLE_TRAVERSE_CREATE PAGE_TABLE_TRAVERSE_CREATE ([], t) of
        (prev, tr, s) \<Rightarrow> snd (page_buffer_flush (page_table_clear_pml1_pml2_pml3 prev tr s)))"

text \<open>\<open>callbacks\<close> is the array of counters of the caller.\<close>

primrec collect_callbacks_loop ::
  "u64 \<Rightarrow> nat list \<Rightarrow> u64 list \<Rightarrow> traverse \<times> 'm page_table \<Rightarrow> u64 list \<times> 'm page_table" where
  "collect_callbacks_loop addr [] callbacks s = (callbacks, snd s)"
| "collect_callbacks_loop addr (i # is) callbacks s =
     (case page_table_traverse (addr + of_nat i * PAGE_SIZE) PML_NONE s of (ok, tr, t) \<Rightarrow>
        if \<not> ok then collect_callbacks_loop addr is callbacks (tr, t)
        else if \<not> present (cur_entry tr t) then collect_callbacks_loop addr is callbacks (tr, t)
        else
          (let callbackId = entry_callback (cur_entry tr t);
               callbacks = (if callbackId \<noteq> PML_CALLBACK_NONE
                            then callbacks[unat callbackId := callbacks ! unat callbackId + 1]
                            else callbacks)
           in collect_callbacks_loop addr is callbacks (tr, t)))"

definition page_table_collect_callbacks ::
  "u64 \<Rightarrow> u64 \<Rightarrow> u64 list \<Rightarrow> 'm page_table \<Rightarrow> u64 list \<times> 'm page_table" where
  "page_table_collect_callbacks addr amount callbacks t =
     collect_callbacks_loop addr [0..<unat amount] callbacks (PAGE_TABLE_TRAVERSE_CREATE, t)"

primrec set_flags_loop ::
  "u64 \<Rightarrow> nat list \<Rightarrow> u64 \<Rightarrow> traverse \<times> 'm page_table \<Rightarrow> bool \<times> 'm page_table" where
  "set_flags_loop addr [] flags s = (True, snd s)"
| "set_flags_loop addr (i # is) flags s =
     (case page_table_traverse (addr + of_nat i * PAGE_SIZE) PML_NONE s of (ok, tr, t) \<Rightarrow>
        if \<not> ok then set_flags_loop addr is flags (tr, t)
        else if \<not> present (cur_entry tr t) then (False, t)
        else
          (let entry = cur_entry tr t;
               flags = (if owned entry then flags OR PML_OWNED else flags)
           in set_flags_loop addr is flags
                (tr, put_entry tr ((entry AND NOT PML_FLAGS_MASK) OR (flags AND PML_FLAGS_MASK)) t)))"

definition page_table_set_flags :: "u64 \<Rightarrow> u64 \<Rightarrow> u64 \<Rightarrow> 'm page_table \<Rightarrow> bool \<times> 'm page_table" where
  "page_table_set_flags addr amount flags t =
     (case set_flags_loop addr [0..<unat amount] flags (PAGE_TABLE_TRAVERSE_CREATE, t) of (ok, t) \<Rightarrow>
        if \<not> ok then (False, t) else (True, tlb_invalidate addr amount t))"

primrec is_pinned_loop :: "u64 \<Rightarrow> nat list \<Rightarrow> traverse \<times> 'm page_table \<Rightarrow> bool \<times> 'm page_table" where
  "is_pinned_loop addr [] s = (False, snd s)"
| "is_pinned_loop addr (i # is) s =
     (case page_table_traverse (addr + of_nat i * PAGE_SIZE) PML_NONE s of (ok, tr, t) \<Rightarrow>
        if \<not> ok then is_pinned_loop addr is (tr, t)
        else if \<not> present (cur_entry tr t) then is_pinned_loop addr is (tr, t)
        else if pinned (cur_entry tr t) then (True, t)
        else is_pinned_loop addr is (tr, t))"

definition page_table_is_pinned :: "u64 \<Rightarrow> u64 \<Rightarrow> 'm page_table \<Rightarrow> bool \<times> 'm page_table" where
  "page_table_is_pinned addr amount t =
     is_pinned_loop addr [0..<unat amount] (PAGE_TABLE_TRAVERSE_CREATE, t)"

section \<open>Searching and counting\<close>

text \<open>The loops over addresses return \<open>Some None\<close> for the error return. They end only if the
  address reaches its bound.\<close>

partial_function (option) find_pml3_loop :: "'m page_table \<Rightarrow> u64 \<Rightarrow> u64 \<Rightarrow> u64 \<Rightarrow> u64 option option" where
  "find_pml3_loop t limit alignment currentAddr =
     (if \<not> currentAddr < limit then Some None
      else
        (let entry4 = get_entry t (pt_pml4 t) (PML_ADDR_TO_INDEX currentAddr 4);
             alignedAddr = ROUND_UP currentAddr alignment;
             nextPml4 = ROUND_UP (currentAddr + 1) PML4_SIZE;
             nextPml3 = ROUND_UP (currentAddr + 1) PML3_SIZE
         in if \<not> present entry4 then
              (if alignedAddr < nextPml4 \<and> alignedAddr < limit then Some (Some alignedAddr)
               else find_pml3_loop t limit alignment nextPml4)
            else
              (let entry3 = get_entry t (entry_pfn entry4) (PML_ADDR_TO_INDEX currentAddr 3)
               in if \<not> present entry3 \<and> alignedAddr < nextPml3 \<and> alignedAddr < limit then Some (Some alignedAddr)
                  else find_pml3_loop t limit alignment nextPml3)))"

partial_function (option) find_pml2_loop :: "'m page_table \<Rightarrow> u64 \<Rightarrow> u64 \<Rightarrow> u64 \<Rightarrow> u64 option option" where
  "find_pml2_loop t limit alignment currentAddr =
     (if \<not> currentAddr < limit then Some None
      else
        (let entry4 = get_entry t (pt_pml4 t) (PML_ADDR_TO_INDEX currentAddr 4);
             alignedAddr = ROUND_UP currentAddr alignment;
             nextPml4 = ROUND_UP (currentAddr + 1) PML4_SIZE;
             nextPml3 = ROUND_UP (currentAddr + 1) PML3_SIZE;
             nextPml2 = ROUND_UP (currentAddr + 1) PML2_SIZE
         in if \<not> present entry4 then
              (if alignedAddr < nextPml4 \<and> alignedAddr < limit then Some (Some alignedAddr)
               else find_pml2_loop t limit alignment nextPml4)
            else
              (let entry3 = get_entry t (entry_pfn entry4) (PML_ADDR_TO_INDEX currentAddr 3)
               in if \<not> present entry3 then
                    (if alignedAddr < nextPml3 \<and> alignedAddr < limit then Some (Some alignedAddr)
                     else find_pml2_loop t limit alignment nextPml3)
                  else
                    (let entry2 = get_entry t (entry_pfn entry3) (PML_ADDR_TO_INDEX currentAddr 2)
                     in if \<not> present entry2 \<and> alignedAddr < nextPml2 \<and> alignedAddr < limit
                        then Some (Some alignedAddr)
                        else find_pml2_loop t limit alignment nextPml2))))"

text \<open>The loop over the entries of one PML1: the region found, or the address, the region start and
  the count it stops with.\<close>

primrec scan_pml1 ::
  "'m page_table \<Rightarrow> u64 \<Rightarrow> u64 \<Rightarrow> u64 \<Rightarrow> u64 \<Rightarrow> nat list \<Rightarrow> u64 \<times> u64 \<times> u64 \<Rightarrow> u64 + u64 \<times> u64 \<times> u64" where
  "scan_pml1 t pml1 limit amount alignment [] s = Inr s"
| "scan_pml1 t pml1 limit amount alignment (idx1 # is) s =
     (case s of (currentAddr, regionStart, consecutiveUnmapped) \<Rightarrow>
      if \<not> currentAddr < limit then Inr s
      else if \<not> present (pt_mem t pml1 ! idx1) then
        (case (if consecutiveUnmapped = 0
               then (if ROUND_UP currentAddr alignment = currentAddr
                     then (currentAddr, consecutiveUnmapped + 1) else (regionStart, consecutiveUnmapped))
               else (regionStart, consecutiveUnmapped + 1)) of (regionStart, consecutiveUnmapped) \<Rightarrow>
           if consecutiveUnmapped \<ge> amount then Inl regionStart
           else scan_pml1 t pml1 limit amount alignment is
                  (currentAddr + PAGE_SIZE, regionStart, consecutiveUnmapped))
      else scan_pml1 t pml1 limit amount alignment is (currentAddr + PAGE_SIZE, regionStart, 0))"

text \<open>A whole PML3 or PML2 entry that is not present extends the region, or starts it at the next
  aligned address.\<close>

definition skip_unmapped :: "u64 \<Rightarrow> u64 \<Rightarrow> u64 \<Rightarrow> u64 \<Rightarrow> u64 \<Rightarrow> u64 \<Rightarrow> u64 \<times> u64" where
  "skip_unmapped limit alignment skipTo currentAddr regionStart consecutiveUnmapped =
     (if consecutiveUnmapped = 0 then
        (let alignedAddr = ROUND_UP currentAddr alignment
         in if alignedAddr < skipTo \<and> alignedAddr < limit
            then (alignedAddr, (MIN_u64 skipTo limit - alignedAddr) div PAGE_SIZE)
            else (regionStart, consecutiveUnmapped))
      else (regionStart, consecutiveUnmapped + (MIN_u64 skipTo limit - currentAddr) div PAGE_SIZE))"

partial_function (option) find_pages_loop ::
  "'m page_table \<Rightarrow> u64 \<Rightarrow> u64 \<Rightarrow> u64 \<Rightarrow> u64 \<Rightarrow> u64 \<Rightarrow> u64 \<Rightarrow> u64 option option" where
  "find_pages_loop t limit amount alignment currentAddr regionStart consecutiveUnmapped =
     (if \<not> currentAddr < limit then Some None
      else
        (let idx4 = PML_ADDR_TO_INDEX currentAddr 4;
             entry4 = get_entry t (pt_pml4 t) idx4
         in if \<not> present entry4 then
              (let regionStart = (if consecutiveUnmapped = 0 then currentAddr else regionStart);
                   skipTo = PML_INDEX_TO_ADDR (idx4 + 1) 4;
                   consecutiveUnmapped = consecutiveUnmapped + (MIN_u64 skipTo limit - currentAddr) div PAGE_SIZE
               in if consecutiveUnmapped \<ge> amount then Some (Some regionStart)
                  else find_pages_loop t limit amount alignment skipTo regionStart consecutiveUnmapped)
            else
              (let entry3 = get_entry t (entry_pfn entry4) (PML_ADDR_TO_INDEX currentAddr 3)
               in if \<not> present entry3 then
                    (let skipTo = ROUND_UP (currentAddr + 1) PML3_SIZE;
                         s = skip_unmapped limit alignment skipTo currentAddr regionStart consecutiveUnmapped
                     in if snd s \<ge> amount then Some (Some (fst s))
                        else find_pages_loop t limit amount alignment skipTo (fst s) (snd s))
                  else
                    (let entry2 = get_entry t (entry_pfn entry3) (PML_ADDR_TO_INDEX currentAddr 2)
                     in if \<not> present entry2 then
                          (let skipTo = ROUND_UP (currentAddr + 1) PML2_SIZE;
                               s = skip_unmapped limit alignment skipTo currentAddr regionStart consecutiveUnmapped
                           in if snd s \<ge> amount then Some (Some (fst s))
                              else find_pages_loop t limit amount alignment skipTo (fst s) (snd s))
                        else
                          (case scan_pml1 t (entry_pfn entry2) limit amount alignment
                                  [unat (PML_ADDR_TO_INDEX currentAddr 1)..<PML_INDEX_AMOUNT]
                                  (currentAddr, regionStart, consecutiveUnmapped) of
                             Inl a \<Rightarrow> Some (Some a)
                           | Inr (currentAddr, regionStart, consecutiveUnmapped) \<Rightarrow>
                               find_pages_loop t limit amount alignment currentAddr regionStart
                                 consecutiveUnmapped)))))"

definition page_table_find_unmapped_region ::
  "u64 \<Rightarrow> u64 \<Rightarrow> u64 \<Rightarrow> u64 \<Rightarrow> 'm page_table \<Rightarrow> u64 option option" where
  "page_table_find_unmapped_region startAddr endAddr amount alignment t =
     (let currentAddr = ROUND_DOWN startAddr PAGE_SIZE;
          alignment = (if alignment < PAGE_SIZE then PAGE_SIZE else alignment)
      in if amount \<ge> PML3_SIZE div PAGE_SIZE then find_pml3_loop t endAddr alignment currentAddr
         else if amount \<ge> PML2_SIZE div PAGE_SIZE then find_pml2_loop t endAddr alignment currentAddr
         else find_pages_loop t endAddr amount alignment currentAddr 0 0)"

primrec count_pml1 ::
  "'m page_table \<Rightarrow> u64 \<Rightarrow> u64 \<Rightarrow> nat list \<Rightarrow> u64 \<times> u64 \<times> u64 \<Rightarrow> u64 \<times> u64 \<times> u64" where
  "count_pml1 t pml1 flags [] s = s"
| "count_pml1 t pml1 flags (idx1 # is) s =
     (case s of (addr, amount, count) \<Rightarrow>
      if amount = 0 then s
      else
        (let entry1 = pt_mem t pml1 ! idx1
         in count_pml1 t pml1 flags is
              (addr + PAGE_SIZE, amount - 1,
               if present entry1 \<and> entry1 AND flags = flags then count + 1 else count)))"

partial_function (option) count_pages_loop ::
  "'m page_table \<Rightarrow> u64 \<Rightarrow> u64 \<times> u64 \<times> u64 \<Rightarrow> u64 option" where
  "count_pages_loop t flags s =
     (case s of (addr, amount, count) \<Rightarrow>
      if amount = 0 then Some count
      else
        (let idx4 = PML_ADDR_TO_INDEX addr 4;
             idx3 = PML_ADDR_TO_INDEX addr 3;
             idx2 = PML_ADDR_TO_INDEX addr 2;
             entry4 = get_entry t (pt_pml4 t) idx4;
             skip = (\<lambda>next. MIN_u64 amount ((next - addr) div PAGE_SIZE))
         in if \<not> present entry4 then
              (let n = skip (PML_INDEX_TO_ADDR (idx4 + 1) 4)
               in count_pages_loop t flags (addr + n * PAGE_SIZE, amount - n, count))
            else
              (let entry3 = get_entry t (entry_pfn entry4) idx3
               in if \<not> present entry3 then
                    (let n = skip (PML_INDEX_TO_ADDR (idx3 + 1) 3)
                     in count_pages_loop t flags (addr + n * PAGE_SIZE, amount - n, count))
                  else
                    (let entry2 = get_entry t (entry_pfn entry3) idx2
                     in if \<not> present entry2 then
                          (let n = skip (PML_INDEX_TO_ADDR (idx2 + 1) 2)
                           in count_pages_loop t flags (addr + n * PAGE_SIZE, amount - n, count))
                        else
                          count_pages_loop t flags
                            (count_pml1 t (entry_pfn entry2) flags
                               [unat (PML_ADDR_TO_INDEX addr 1)..<PML_INDEX_AMOUNT] s)))))"

definition page_table_count_pages_with_flags :: "u64 \<Rightarrow> u64 \<Rightarrow> u64 \<Rightarrow> 'm page_table \<Rightarrow> u64 option" where
  "page_table_count_pages_with_flags addr amount flags t = count_pages_loop t flags (addr, amount, 0)"

end
