(* ===== verification/Paging_Spec.thy ===== *)
theory Paging_Spec
  imports Paging
begin

text \<open>
  The page tables of \<^verbatim>\<open>include/kernel/mem/paging.h\<close> as a map from page numbers to entries: the
  frames a walk visits, the invariant that no frame is reached in two ways, and what writing an
  entry and adding a table do to the translation.
\<close>

unbundle bit_operations_syntax

section \<open>Bits of entries\<close>

lemma bit_set_field:
  "bit (set_field pos len v raw) n \<longleftrightarrow>
     n < 64 \<and> (if pos \<le> n \<and> n < pos + len then bit v (n - pos) else bit raw n)"
  by (auto simp: set_field_def bit_simps dest: bit_imp_le_length)

lemma bit_get_field: "bit (get_field pos len raw) n \<longleftrightarrow> n < len \<and> bit raw (pos + n)"
  by (auto simp: get_field_def bit_simps)

lemma get_set_field: "pos + len \<le> 64 \<Longrightarrow> get_field pos len (set_field pos len v raw) = take_bit len v"
  by (rule bit_word_eqI) (auto simp: bit_get_field bit_set_field bit_simps)

lemma get_set_field_other:
  assumes "pos + len \<le> 64" and "pos + len \<le> pos' \<or> pos' + len' \<le> pos"
  shows "get_field pos len (set_field pos' len' v raw) = get_field pos len raw"
proof (rule bit_word_eqI)
  fix n :: nat
  assume "n < LENGTH(64)"
  show "bit (get_field pos len (set_field pos' len' v raw)) n = bit (get_field pos len raw) n"
    using assms by (auto simp: bit_get_field bit_set_field)
qed

lemma present_set_pfn [simp]: "present (set_pfn pfn raw) = present raw"
  by (simp add: present_def set_pfn_def bit_set_field)

lemma present_set_callback [simp]: "present (set_callback c raw) = present raw"
  by (simp add: present_def set_callback_def bit_set_field)

lemma present_0 [simp]: "\<not> present 0"
  by (simp add: present_def)

lemma entry_pfn_set_pfn: "unat pfn < 2 ^ 40 \<Longrightarrow> entry_pfn (set_pfn pfn raw) = pfn"
proof -
  assume "unat pfn < 2 ^ 40"
  then have "take_bit 40 pfn = pfn" by (simp add: word_unat_eq_iff unsigned_take_bit_eq take_bit_nat_eq_self)
  then show ?thesis by (simp add: entry_pfn_def set_pfn_def get_set_field)
qed

lemma entry_pfn_set_callback [simp]: "entry_pfn (set_callback c raw) = entry_pfn raw"
  by (simp add: entry_pfn_def set_callback_def get_set_field_other)

lemma bit_entry_callback: "bit (entry_callback raw) n \<longleftrightarrow> n < 8 \<and> (if n = 0 then bit raw 11 else bit raw (51 + n))"
  unfolding entry_callback_def bit_or_iff bit_push_bit_iff bit_get_field by (cases n) auto

lemma entry_callback_set_callback: "unat c < 256 \<Longrightarrow> entry_callback (set_callback c raw) = c"
proof -
  assume "unat c < 256"
  then have "take_bit 8 c = c" by (simp add: word_unat_eq_iff unsigned_take_bit_eq take_bit_nat_eq_self)
  then have high: "bit c n \<Longrightarrow> n < 8" for n by (metis bit_take_bit_iff)
  show ?thesis
  proof (rule bit_word_eqI)
    fix n :: nat
    show "bit (entry_callback (set_callback c raw)) n = bit c n"
      using high [of n]
      by (cases n) (auto simp: bit_entry_callback set_callback_def bit_set_field bit_simps)
  qed
qed

lemma PML_PRESENT_bit: "flags AND PML_PRESENT \<noteq> 0 \<longleftrightarrow> present flags"
proof -
  have "flags AND PML_PRESENT = (if bit flags 0 then 1 else 0)"
    by (rule bit_word_eqI) (auto simp: PML_PRESENT_def bit_simps intro: gr0I)
  then show ?thesis by (simp add: present_def)
qed

lemma present_flags [simp]:
  "present (flags AND PML_FLAGS_MASK) = present flags"
  "present ((flags OR PML_WRITE OR PML_USER) AND NOT PML_GLOBAL) = present flags"
  "present (flags OR PML_WRITE OR PML_USER) = present flags"
  by (simp_all add: present_def PML_FLAGS_MASK_def PML_WRITE_def PML_USER_def PML_GLOBAL_def bit_simps)

section \<open>Page numbers\<close>

definition pageno :: "u64 \<Rightarrow> nat" where
  "pageno a = (unat a div 4096) mod 2 ^ 36"

abbreviation idx :: "u64 \<Rightarrow> nat \<Rightarrow> u64" where
  "idx a l \<equiv> PML_ADDR_TO_INDEX a l"

lemma unat_idx: "unat (idx a l) = unat a div 2 ^ ((l - 1) * 9 + 12) mod 512"
proof -
  have "(511 :: u64) = mask 9" by (simp add: mask_eq_exp_minus_1)
  then have "idx a l = take_bit 9 (drop_bit ((l - 1) * 9 + 12) a)"
    unfolding PML_ADDR_TO_INDEX_def by (simp only: take_bit_eq_mask [symmetric])
  moreover have "unat (take_bit 9 (drop_bit k a)) = take_bit 9 (drop_bit k (unat a))" for k
    by (simp add: unsigned_take_bit_eq unsigned_drop_bit_eq take_bit_nat_eq_self)
  ultimately show ?thesis by (simp only: drop_bit_eq_div take_bit_eq_mod) simp
qed

lemma idx_less [simp]: "unat (idx a l) < 512"
  by (simp add: unat_idx)

lemma idx_pageno:
  "unat (idx a 1) = pageno a mod 512" "unat (idx a 2) = pageno a div 512 mod 512"
  "unat (idx a 3) = pageno a div 2 ^ 18 mod 512" "unat (idx a 4) = pageno a div 2 ^ 27 mod 512"
proof -
  let ?n = "unat a div 4096"
  have d: "unat a div 2 ^ (k + 12) = ?n div 2 ^ k" for k
  proof -
    have "2 ^ (k + 12) = 4096 * (2 ^ k :: nat)" by (simp add: power_add)
    then show ?thesis by (simp only: div_mult2_eq)
  qed
  have m: "?n mod 2 ^ 36 div 2 ^ k mod 512 = ?n div 2 ^ k mod 512" if "k \<le> 27" for k
  proof -
    have "take_bit 9 (drop_bit k (take_bit 36 ?n)) = take_bit 9 (drop_bit k ?n)"
      by (rule bit_eqI) (use that in \<open>auto simp: bit_simps\<close>)
    then show ?thesis by (simp add: take_bit_eq_mod drop_bit_eq_div)
  qed
  show "unat (idx a 1) = pageno a mod 512" using m [of 0] d [of 0] by (simp add: unat_idx pageno_def)
  show "unat (idx a 2) = pageno a div 512 mod 512" using m [of 9] d [of 9] by (simp add: unat_idx pageno_def)
  show "unat (idx a 3) = pageno a div 2 ^ 18 mod 512" using m [of 18] d [of 18] by (simp add: unat_idx pageno_def)
  show "unat (idx a 4) = pageno a div 2 ^ 27 mod 512" using m [of 27] d [of 27] by (simp add: unat_idx pageno_def)
qed

lemma digits:
  fixes n :: nat
  assumes "a' = a" and "b = a * 512 + b'" and "c = b * 512 + c'" and "n = c * 512 + d"
  shows "n = ((a' * 512 + b') * 512 + c') * 512 + d"
  using assms by simp

lemma pageno_idx:
  "pageno a = ((unat (idx a 4) * 512 + unat (idx a 3)) * 512 + unat (idx a 2)) * 512 + unat (idx a 1)"
proof -
  have "n = ((n div 2 ^ 27 mod 512 * 512 + n div 2 ^ 18 mod 512) * 512 + n div 512 mod 512) * 512 + n mod 512"
    if "n < 2 ^ 36" for n :: nat
  proof -
    have "n div 2 ^ 27 mod 512 = n div 2 ^ 27" using that by (intro mod_less) (simp add: div_less_iff_less_mult)
    moreover have "n div 2 ^ 18 = n div 2 ^ 27 * 512 + n div 2 ^ 18 mod 512"
      using div_mult_mod_eq [of "n div 2 ^ 18" 512] by (simp add: div_mult2_eq [symmetric])
    moreover have "n div 512 = n div 2 ^ 18 * 512 + n div 512 mod 512"
      using div_mult_mod_eq [of "n div 512" 512] by (simp add: div_mult2_eq [symmetric])
    moreover have "n = n div 512 * 512 + n mod 512" by simp
    ultimately show ?thesis by (rule digits)
  qed
  from this [of "pageno a"] show ?thesis unfolding idx_pageno by (simp only: pageno_def mod_less_divisor zero_less_power zero_less_numeral)
qed

lemma pageno_eq_iff:
  "pageno a = pageno b \<longleftrightarrow> idx a 4 = idx b 4 \<and> idx a 3 = idx b 3 \<and> idx a 2 = idx b 2 \<and> idx a 1 = idx b 1"
  unfolding word_unat_eq_iff using idx_pageno pageno_idx by metis

lemma pageno_add: "pageno (a + of_nat i * PAGE_SIZE) = (pageno a + i) mod 2 ^ 36"
proof -
  have "unat (a + of_nat i * PAGE_SIZE) = (unat a + i * 4096) mod 2 ^ 64"
    by (simp add: PAGE_SIZE_def unat_word_ariths unsigned_of_nat take_bit_eq_mod mod_simps)
  moreover have "(n mod 2 ^ 64) div 4096 mod 2 ^ 36 = n div 4096 mod 2 ^ 36" for n :: nat
  proof -
    have "take_bit 36 (drop_bit 12 (take_bit 64 n)) = take_bit 36 (drop_bit 12 n)"
      by (rule bit_eqI) (auto simp: bit_simps)
    then show ?thesis by (simp add: take_bit_eq_mod drop_bit_eq_div)
  qed
  moreover have "(unat a + i * 4096) div 4096 = unat a div 4096 + i" by simp
  ultimately show ?thesis by (simp only: pageno_def mod_add_left_eq)
qed

lemma pageno_less: "pageno a < 2 ^ 36"
  by (simp add: pageno_def)

lemma pageno_add_inj:
  assumes "pageno (a + of_nat i * PAGE_SIZE) = pageno (a + of_nat j * PAGE_SIZE)" and "i < 2 ^ 36" and "j < 2 ^ 36"
  shows "i = j"
proof -
  have "(pageno a + i) mod 2 ^ 36 = (pageno a + j) mod 2 ^ 36" using assms(1) by (simp only: pageno_add)
  then have "i mod 2 ^ 36 = j mod 2 ^ 36" by (simp add: nat_mod_eq_iff)
  then show ?thesis using assms(2,3) by simp
qed

section \<open>Frames\<close>

definition next_frame :: "'m page_table \<Rightarrow> u64 \<Rightarrow> u64 \<Rightarrow> u64 option" where
  "next_frame t f i = (let e = get_entry t f i in if present e then Some (entry_pfn e) else None)"

text \<open>The frame reached from the root along a path of indices.\<close>

definition frame :: "'m page_table \<Rightarrow> u64 list \<Rightarrow> u64 option" where
  "frame t p = foldl (\<lambda>f i. Option.bind f (\<lambda>f. next_frame t f i)) (Some (pt_pml4 t)) p"

lemma frame_simps [simp]:
  "frame t [] = Some (pt_pml4 t)"
  "frame t (p @ [i]) = Option.bind (frame t p) (\<lambda>f. next_frame t f i)"
  by (simp_all add: frame_def)

definition path :: "u64 \<Rightarrow> u64 list" where
  "path a = [idx a 4, idx a 3, idx a 2]"

definition paths :: "u64 list set" where
  "paths = {p. length p \<le> 3 \<and> (\<forall>i \<in> set p. unat i < 512)}"

lemma path_paths [simp]: "path a \<in> paths"
  by (simp add: path_def paths_def)

lemma paths_snoc: "p @ [i] \<in> paths \<longleftrightarrow> p \<in> paths \<and> length p < 3 \<and> unat i < 512"
  by (auto simp: paths_def)

lemma paths_Nil [simp]: "[] \<in> paths"
  by (simp add: paths_def)

definition leaf :: "'m page_table \<Rightarrow> u64 \<Rightarrow> u64 option" where
  "leaf t a = map_option (\<lambda>f. get_entry t f (idx a 1)) (frame t (path a))"

text \<open>What the processor finds for an address: the entry, if it is present.\<close>

definition translate :: "'m page_table \<Rightarrow> u64 \<Rightarrow> u64 option" where
  "translate t a = (case leaf t a of None \<Rightarrow> None | Some e \<Rightarrow> if present e then Some e else None)"

definition frames_inv :: "'m page_table \<Rightarrow> u64 set \<Rightarrow> bool" where
  "frames_inv t F \<longleftrightarrow>
     (\<forall>f \<in> F. unat f < 2 ^ 40) \<and>
     (\<forall>p f. p \<in> paths \<and> frame t p = Some f \<longrightarrow> f \<notin> F \<and> length (pt_mem t f) = 512) \<and>
     (\<forall>p q f. p \<in> paths \<and> q \<in> paths \<and> frame t p = Some f \<and> frame t q = Some f \<longrightarrow> p = q)"

lemma frames_invD:
  assumes "frames_inv t F"
  shows "f \<in> F \<Longrightarrow> unat f < 2 ^ 40"
    and "p \<in> paths \<Longrightarrow> frame t p = Some f \<Longrightarrow> f \<notin> F"
    and "p \<in> paths \<Longrightarrow> frame t p = Some f \<Longrightarrow> length (pt_mem t f) = 512"
    and "p \<in> paths \<Longrightarrow> q \<in> paths \<Longrightarrow> frame t p = Some f \<Longrightarrow> frame t q = Some f \<Longrightarrow> p = q"
  using assms unfolding frames_inv_def by blast+

lemma get_set_entry:
  assumes "length (pt_mem t f) = 512" and "unat i < 512" and "unat j < 512"
  shows "get_entry (set_entry f i raw t) g j = (if g = f \<and> j = i then raw else get_entry t g j)"
  using assms word_unat_eq_iff [of j i] by (auto simp: get_entry_def set_entry_def nth_list_update)

lemma set_entry_fields [simp]:
  "pt_pml4 (set_entry f i raw t) = pt_pml4 t" "pt_mm (set_entry f i raw t) = pt_mm t"
  "pt_allocPage (set_entry f i raw t) = pt_allocPage t" "pt_freePages (set_entry f i raw t) = pt_freePages t"
  "pt_tlb (set_entry f i raw t) = pt_tlb t" "length (pt_mem (set_entry f i raw t) g) = length (pt_mem t g)"
  by (simp_all add: set_entry_def)

section \<open>Writing an entry of a PML1\<close>

lemma frame_set_leaf:
  assumes inv: "frames_inv t F" and f: "frame t (path a) = Some f" and p: "p \<in> paths"
  shows "frame (set_entry f (idx a 1) raw t) p = frame t p"
  using p
proof (induction p rule: rev_induct)
  case (snoc i p)
  then have p: "p \<in> paths" "length p < 3" "unat i < 512" by (simp_all add: paths_snoc)
  have "next_frame (set_entry f (idx a 1) raw t) g i = next_frame t g i" if "frame t p = Some g" for g
  proof -
    have "g \<noteq> f"
    proof
      assume "g = f"
      then have "p = path a" using frames_invD(4) [OF inv p(1) path_paths] that f by blast
      then show False using p(2) by (simp add: path_def)
    qed
    then show ?thesis by (simp add: next_frame_def get_entry_def set_entry_def)
  qed
  then show ?case using snoc p(1) by (cases "frame t p") simp_all
qed simp

lemma set_leaf:
  fixes raw :: u64
  assumes inv: "frames_inv t F" and f: "frame t (path a) = Some f"
  defines "t' \<equiv> set_entry f (idx a 1) raw t"
  shows "frames_inv t' F" and "leaf t' b = (if pageno b = pageno a then Some raw else leaf t b)"
proof -
  note fr = frame_set_leaf [OF inv f, of _ raw, folded t'_def]
  show "frames_inv t' F"
    using inv fr unfolding frames_inv_def by (metis set_entry_fields(6) t'_def)
  have len: "length (pt_mem t f) = 512" by (rule frames_invD(3) [OF inv path_paths f])
  have ge: "get_entry t' g (idx b 1) = (if g = f \<and> idx b 1 = idx a 1 then raw else get_entry t g (idx b 1))" for g
    unfolding t'_def by (rule get_set_entry [OF len]) simp_all
  show "leaf t' b = (if pageno b = pageno a then Some raw else leaf t b)"
  proof (cases "path b = path a")
    case True
    then have "pageno b = pageno a \<longleftrightarrow> idx b 1 = idx a 1" by (simp add: pageno_eq_iff path_def)
    then show ?thesis using True f fr [OF path_paths, of a] ge [of f] by (simp add: leaf_def del: One_nat_def)
  next
    case False
    then have "pageno b \<noteq> pageno a" by (auto simp: pageno_eq_iff path_def)
    moreover have "get_entry t' g (idx b 1) = get_entry t g (idx b 1)" if "frame t (path b) = Some g" for g
      using ge [of g] that f False frames_invD(4) [OF inv path_paths path_paths, of b g a] by auto
    ultimately show ?thesis using fr [OF path_paths, of b] by (cases "frame t (path b)") (simp_all add: leaf_def)
  qed
qed

section \<open>Adding a table\<close>

lemma add_table:
  fixes t :: "'m page_table" and mm :: 'm
  assumes inv: "frames_inv t F" and p: "p @ [i] \<in> paths" "frame t p = Some f" "\<not> present (get_entry t f i)"
    and g: "g \<in> F" and e: "present e" "entry_pfn e = g"
  defines "t' \<equiv> set_entry f i e (t\<lparr>pt_mm := mm, pt_mem := (pt_mem t)(g := replicate PML_INDEX_AMOUNT 0)\<rparr>)"
  shows "q \<in> paths \<Longrightarrow> frame t' q = (if q = p @ [i] then Some g else frame t q)"
    and "frames_inv t' (F - {g})" and "translate t' b = translate t b"
proof -
  let ?t = "t\<lparr>pt_mm := mm, pt_mem := (pt_mem t)(g := replicate PML_INDEX_AMOUNT 0)\<rparr>"
  have pp: "p \<in> paths" "length p < 3" "unat i < 512" using p(1) by (simp_all add: paths_snoc)
  have none: "frame t (p @ [i]) = None" using p(2,3) by (simp add: next_frame_def)
  have fg: "f \<noteq> g" using frames_invD(2) [OF inv pp(1) p(2)] g by blast
  have len: "length (pt_mem ?t f) = 512" using frames_invD(3) [OF inv pp(1) p(2)] fg by simp
  have ge: "get_entry t' h j = (if h = f \<and> j = i then e else if h = g then 0 else get_entry t h j)" if "unat j < 512" for h j
    unfolding t'_def get_set_entry [OF len pp(3) that]
    using that fg by (auto simp: get_entry_def PML_INDEX_AMOUNT_def)
  show fr: "frame t' q = (if q = p @ [i] then Some g else frame t q)" if "q \<in> paths" for q
    using that
  proof (induction q rule: rev_induct)
    case Nil
    then show ?case by (simp add: t'_def)
  next
    case (snoc j r)
    then have r: "r \<in> paths" "length r < 3" "unat j < 512" by (simp_all add: paths_snoc)
    note IH = snoc.IH [OF r(1)]
    show ?case
    proof (cases "r = p @ [i]")
      case True
      then have "next_frame t' g j = None" using ge [OF r(3), of g] fg by (simp add: next_frame_def)
      then show ?thesis using IH True none unfolding frame_simps(2) [of _ r] by simp
    next
      case False
      show ?thesis
      proof (cases "frame t r")
        case None
        then show ?thesis using IH False p(2) by auto
      next
        case (Some h)
        have "h \<noteq> g" using frames_invD(2) [OF inv r(1) Some] g by blast
        moreover have "r = p" if "h = f" using frames_invD(4) [OF inv r(1) pp(1) Some] p(2) that by blast
        ultimately show ?thesis
          using IH False Some ge [OF r(3), of h] e p(2) by (auto simp: next_frame_def Let_def)
      qed
    qed
  qed
  have new: "h \<noteq> g" if "q \<in> paths" "frame t q = Some h" for q h
    using frames_invD(2) [OF inv that] g by blast
  show "frames_inv t' (F - {g})"
    unfolding frames_inv_def
  proof (intro conjI allI impI ballI)
    fix x
    assume "x \<in> F - {g}"
    then show "unat x < 2 ^ 40" using frames_invD(1) [OF inv] by simp
  next
    fix q h
    assume "q \<in> paths \<and> frame t' q = Some h"
    then have q: "q \<in> paths" "(if q = p @ [i] then Some g else frame t q) = Some h" using fr [of q] by (simp_all only:)
    then show "h \<notin> F - {g}" using frames_invD(2) [OF inv] by (auto split: if_splits)
    have "length (pt_mem ?t h) = 512"
      using q frames_invD(3) [OF inv] by (auto simp: PML_INDEX_AMOUNT_def split: if_splits)
    then show "length (pt_mem t' h) = 512" by (simp add: t'_def)
  next
    fix q r h
    assume a: "q \<in> paths \<and> r \<in> paths \<and> frame t' q = Some h \<and> frame t' r = Some h"
    then have "(if q = p @ [i] then Some g else frame t q) = Some h" "(if r = p @ [i] then Some g else frame t r) = Some h"
      using fr [of q] fr [of r] by (simp_all only:)
    then show "q = r" using a new frames_invD(4) [OF inv, of q r h] by (auto split: if_splits)
  qed
  show "translate t' b = translate t b"
  proof (cases "path b = p @ [i]")
    case True
    then have "leaf t' b = Some 0"
      using fr [OF path_paths, of b] ge [of "idx b 1" g] fg by (simp add: leaf_def)
    moreover have "leaf t b = None" using True none by (simp add: leaf_def)
    ultimately show ?thesis by (simp add: translate_def)
  next
    case False
    have "get_entry t' h (idx b 1) = get_entry t h (idx b 1)" if h: "frame t (path b) = Some h" for h
    proof -
      have "h \<noteq> f"
      proof
        assume "h = f"
        then have "path b = p" using frames_invD(4) [OF inv path_paths pp(1) h] p(2) by blast
        then show False using pp(2) by (auto simp: path_def)
      qed
      then show ?thesis using ge [of "idx b 1" h] new [OF path_paths h] by simp
    qed
    then show ?thesis
      using fr [OF path_paths, of b] False by (cases "frame t (path b)") (simp_all add: translate_def leaf_def)
  qed
qed

end
