(* ===== verification/Paging_Ops.thy ===== *)
theory Paging_Ops
  imports Paging_Spec
begin

text \<open>
  Traversal of the page tables and the operations on ranges of pages: mapping, unmapping, clearing
  and the queries, for any source of frames that hands out only free ones.
\<close>

unbundle bit_operations_syntax

section \<open>Traversal without allocation\<close>

text \<open>No operation ever sets the validity flags of the cache.\<close>

definition no_cache :: "traverse \<Rightarrow> bool" where
  "no_cache tr \<longleftrightarrow> \<not> pml3Valid tr \<and> \<not> pml2Valid tr \<and> \<not> pml1Valid tr"

lemma no_cache_create [simp]: "no_cache PAGE_TABLE_TRAVERSE_CREATE"
  by (simp add: no_cache_def PAGE_TABLE_TRAVERSE_CREATE_def)

lemma get_pml_none [simp]:
  "\<not> present flags \<Longrightarrow> page_table_get_pml f i flags t = (next_frame t f i, t)"
  using PML_PRESENT_bit [of flags] by (simp add: page_table_get_pml_def next_frame_def Let_def)

lemma not_present_none [simp]: "\<not> present PML_NONE"
  by (simp add: PML_NONE_def)

lemma frame_path:
  "frame t (path a) = Option.bind (next_frame t (pt_pml4 t) (idx a 4)) (\<lambda>f3.
     Option.bind (next_frame t f3 (idx a 3)) (\<lambda>f2. next_frame t f2 (idx a 2)))"
  by (cases "next_frame t (pt_pml4 t) (idx a 4)") (simp_all add: frame_def path_def)

lemma traverse_none:
  assumes nc: "no_cache tr" and np: "\<not> present flags"
  shows "\<exists>tr'. page_table_traverse a flags (tr, t) = (frame t (path a) \<noteq> None, tr', t) \<and> no_cache tr' \<and>
           (\<forall>f. frame t (path a) = Some f \<longrightarrow> t_entry tr' = (f, idx a 1))"
proof -
  let ?f3 = "next_frame t (pt_pml4 t) (idx a 4)"
  show ?thesis
  proof (cases ?f3)
    case None
    then show ?thesis
      using nc np by (simp add: page_table_traverse_def traverse_pml3_def no_cache_def frame_path)
  next
    case f3: (Some f3)
    show ?thesis
    proof (cases "next_frame t f3 (idx a 3)")
      case None
      then show ?thesis
        using nc np f3
        by (simp add: page_table_traverse_def traverse_pml3_def traverse_pml2_def no_cache_def frame_path)
    next
      case f2: (Some f2)
      then show ?thesis
        using nc np f3
        by (cases "next_frame t f2 (idx a 2)")
           (simp_all add: page_table_traverse_def traverse_pml3_def traverse_pml2_def traverse_pml1_def
             no_cache_def frame_path)
    qed
  qed
qed

text \<open>The step every operation without allocation begins with: the entry of the address, if its PML1
  exists.\<close>

lemma traverse_leaf:
  assumes "no_cache tr"
  obtains (none) tr' where "page_table_traverse a PML_NONE (tr, t) = (False, tr', t)" "no_cache tr'" "leaf t a = None"
  | (entry) tr' f where "page_table_traverse a PML_NONE (tr, t) = (True, tr', t)" "no_cache tr'"
      "frame t (path a) = Some f" "leaf t a = Some (cur_entry tr' t)" "\<And>raw. put_entry tr' raw t = set_entry f (idx a 1) raw t"
proof -
  obtain tr' where tr': "page_table_traverse a PML_NONE (tr, t) = (frame t (path a) \<noteq> None, tr', t)" "no_cache tr'"
    "\<forall>f. frame t (path a) = Some f \<longrightarrow> t_entry tr' = (f, idx a 1)"
    using traverse_none [OF assms, of PML_NONE a t] by auto
  show thesis
  proof (cases "frame t (path a)")
    case None
    then show thesis using none tr' by (simp add: leaf_def)
  next
    case (Some f)
    then have e: "t_entry tr' = (f, idx a 1)" using tr'(3) by blast
    show thesis
      by (rule entry [of tr' f]) (use tr' Some e in \<open>simp_all add: leaf_def cur_entry_def put_entry_def\<close>)
  qed
qed

lemma leaf_pageno: "pageno a = pageno b \<Longrightarrow> leaf t a = leaf t b"
  by (simp add: leaf_def path_def pageno_eq_iff)

lemma translate_pageno: "pageno a = pageno b \<Longrightarrow> translate t a = translate t b"
  by (simp add: translate_def leaf_pageno [of a b])

abbreviation page_at :: "u64 \<Rightarrow> nat \<Rightarrow> u64" where
  "page_at a i \<equiv> a + of_nat i * PAGE_SIZE"

definition in_range :: "u64 \<Rightarrow> nat set \<Rightarrow> u64 \<Rightarrow> bool" where
  "in_range a I b \<longleftrightarrow> (\<exists>i \<in> I. pageno b = pageno (page_at a i))"

lemma in_range_simps [simp]:
  "\<not> in_range a {} b" "in_range a (insert i I) b \<longleftrightarrow> pageno b = pageno (page_at a i) \<or> in_range a I b"
  by (auto simp: in_range_def)

section \<open>Queries\<close>

lemma translate_leaf: "leaf t a = Some e \<Longrightarrow> translate t a = (if present e then Some e else None)"
  "leaf t a = None \<Longrightarrow> translate t a = None"
  by (simp_all add: translate_def)

lemma is_mapped_loop_iff:
  "no_cache tr \<Longrightarrow> is_mapped_loop a is (tr, t) = ((\<forall>i \<in> set is. translate t (page_at a i) \<noteq> None), t)"
proof (induction "is" arbitrary: tr)
  case (Cons i "is")
  show ?case
    by (rule traverse_leaf [OF Cons.prems, of "page_at a i" t])
       (use Cons.IH in \<open>simp_all add: translate_leaf\<close>)
qed simp

lemma is_unmapped_loop_iff:
  "no_cache tr \<Longrightarrow> is_unmapped_loop a is (tr, t) = ((\<forall>i \<in> set is. translate t (page_at a i) = None), t)"
proof (induction "is" arbitrary: tr)
  case (Cons i "is")
  show ?case
    by (rule traverse_leaf [OF Cons.prems, of "page_at a i" t])
       (use Cons.IH in \<open>simp_all add: translate_leaf\<close>)
qed simp

lemma is_pinned_loop_iff:
  "no_cache tr \<Longrightarrow> is_pinned_loop a is (tr, t) =
     ((\<exists>i \<in> set is. \<exists>e. translate t (page_at a i) = Some e \<and> pinned e), t)"
proof (induction "is" arbitrary: tr)
  case (Cons i "is")
  show ?case
    by (rule traverse_leaf [OF Cons.prems, of "page_at a i" t])
       (use Cons.IH in \<open>simp_all add: translate_leaf\<close>)
qed simp

lemma page_table_queries:
  "page_table_is_mapped a n t = ((\<forall>i < unat n. translate t (page_at a i) \<noteq> None), t)"
  "page_table_is_unmapped a n t = ((\<forall>i < unat n. translate t (page_at a i) = None), t)"
  "page_table_is_pinned a n t = ((\<exists>i < unat n. \<exists>e. translate t (page_at a i) = Some e \<and> pinned e), t)"
  by (auto simp: page_table_is_mapped_def page_table_is_unmapped_def page_table_is_pinned_def
      is_mapped_loop_iff is_unmapped_loop_iff is_pinned_loop_iff)

lemma pageno_ROUND_DOWN: "pageno (ROUND_DOWN a PAGE_SIZE) = pageno a"
proof -
  have "unat (ROUND_DOWN a PAGE_SIZE) = unat a div 4096 * 4096"
  proof -
    have "unat a div 4096 * 4096 \<le> unat a" by simp
    then have "unat a div 4096 * 4096 < 18446744073709551616" using unat_u64_less [of a] by linarith
    then show ?thesis by (simp add: ROUND_DOWN_def PAGE_SIZE_def unat_word_ariths(2) unat_div)
  qed
  then show ?thesis by (simp add: pageno_def)
qed

lemma get_phys_addr:
  "page_table_get_phys_addr a t =
     (map_option (\<lambda>e. PFN_TO_PHYS (entry_pfn e) + a mod PAGE_SIZE) (translate t a), t)"
proof -
  have eq: "translate t (ROUND_DOWN a PAGE_SIZE) = translate t a" by (rule translate_pageno [OF pageno_ROUND_DOWN])
  show ?thesis
    unfolding eq [symmetric]
    by (rule traverse_leaf [OF no_cache_create, of "ROUND_DOWN a PAGE_SIZE" t])
       (simp_all add: page_table_get_phys_addr_def translate_leaf)
qed

section \<open>Unmapping and clearing\<close>

text \<open>The same frames and the same callbacks.\<close>

definition same_frames :: "'m page_table \<Rightarrow> 'm page_table \<Rightarrow> bool" where
  "same_frames t t' \<longleftrightarrow> (\<forall>p \<in> paths. frame t' p = frame t p) \<and> pt_allocPage t' = pt_allocPage t \<and>
     pt_freePages t' = pt_freePages t"

lemma same_frames_refl [simp]: "same_frames t t"
  by (simp add: same_frames_def)

lemma same_frames_trans: "same_frames t t' \<Longrightarrow> same_frames t' t'' \<Longrightarrow> same_frames t t''"
  by (simp add: same_frames_def)

lemma same_frames_set_leaf:
  "frames_inv t F \<Longrightarrow> frame t (path a) = Some f \<Longrightarrow> same_frames t (set_entry f (idx a 1) raw t)"
  using frame_set_leaf by (auto simp: same_frames_def)

definition clear_present :: "u64 \<Rightarrow> u64" where
  "clear_present e = (if present e then unset_bit 0 e else e)"

lemma clear_present_idem [simp]: "clear_present (clear_present e) = clear_present e" "\<not> present (clear_present e)"
  by (auto simp: clear_present_def present_def bit_simps)

lemma unmap_loop_correct:
  assumes "no_cache tr" and "frames_inv t F"
  shows "\<exists>t'. unmap_loop a is (tr, t) = t' \<and> frames_inv t' F \<and> same_frames t t' \<and> pt_mm t' = pt_mm t \<and> pt_tlb t' = pt_tlb t \<and>
           (\<forall>b. leaf t' b = (if in_range a (set is) b then map_option clear_present (leaf t b) else leaf t b))"
  using assms
proof (induction "is" arbitrary: tr t)
  case Nil
  then show ?case by simp
next
  case (Cons i "is")
  let ?a = "page_at a i"
  show ?case
  proof (rule traverse_leaf [OF Cons.prems(1), of ?a t])
    fix tr'
    assume a: "page_table_traverse ?a PML_NONE (tr, t) = (False, tr', t)" "no_cache tr'" "leaf t ?a = None"
    have "leaf t b = None" if "pageno b = pageno ?a" for b using leaf_pageno [OF that, of t] a(3) by simp
    then show ?thesis using Cons.IH [OF a(2) Cons.prems(2)] a(1) by auto
  next
    fix tr' f
    assume a: "page_table_traverse ?a PML_NONE (tr, t) = (True, tr', t)" "no_cache tr'" "frame t (path ?a) = Some f"
      "leaf t ?a = Some (cur_entry tr' t)" "\<And>raw. put_entry tr' raw t = set_entry f (idx ?a 1) raw t"
    let ?e = "cur_entry tr' t"
    let ?t = "if present ?e then set_entry f (idx ?a 1) (unset_bit 0 ?e) t else t"
    have eq: "unmap_loop a (i # is) (tr, t) = unmap_loop a is (tr', ?t)" using a(1,5) by simp
    have inv: "frames_inv ?t F" using set_leaf(1) [OF Cons.prems(2) a(3)] Cons.prems(2) by simp
    have same: "same_frames t ?t" using same_frames_set_leaf [OF Cons.prems(2) a(3)] by simp
    have le: "leaf ?t b = (if pageno b = pageno ?a then map_option clear_present (leaf t b) else leaf t b)" for b
      using set_leaf(2) [OF Cons.prems(2) a(3), of "unset_bit 0 ?e" b] a(4) leaf_pageno [of b ?a t]
      by (auto simp: clear_present_def)
    have mm: "pt_mm ?t = pt_mm t" "pt_tlb ?t = pt_tlb t" by simp_all
    obtain t' where t': "unmap_loop a is (tr', ?t) = t'" "frames_inv t' F" "same_frames ?t t'" "pt_mm t' = pt_mm ?t"
      "pt_tlb t' = pt_tlb ?t"
      "\<forall>b. leaf t' b = (if in_range a (set is) b then map_option clear_present (leaf ?t b) else leaf ?t b)"
      using Cons.IH [OF a(2) inv] by blast
    have "leaf t' b = (if in_range a (set (i # is)) b then map_option clear_present (leaf t b) else leaf t b)" for b
      using t'(6) le [of b] by (cases "leaf t b") auto
    then show ?thesis
      unfolding eq using t'(1,2) same_frames_trans [OF same t'(3)] t'(4,5) mm by auto
  qed
qed

text \<open>\<open>freed t chunks t'\<close>: the memory manager was given the chunks back, one after the other.\<close>

definition freed :: "'m page_table \<Rightarrow> u64 list list \<Rightarrow> 'm \<Rightarrow> bool" where
  "freed t chunks mm \<longleftrightarrow> mm = foldl (\<lambda>mm c. pt_freePages t c mm) (pt_mm t) chunks"

lemma page_buffer_push_correct:
  "\<exists>buffer' chunks mm. page_buffer_push pfn (buffer, t) = (buffer', t\<lparr>pt_mm := mm\<rparr>) \<and> freed t chunks mm \<and>
     concat chunks @ buffer' = buffer @ [pfn]"
proof (cases "length (buffer @ [pfn]) \<ge> PML_PAGE_BUFFER_SIZE")
  case True
  then show ?thesis
    by (intro exI [of _ "[]"] exI [of _ "[buffer @ [pfn]]"]) (simp add: page_buffer_push_def free_pages_def freed_def)
next
  case False
  then show ?thesis
    by (intro exI [of _ "buffer @ [pfn]"] exI [of _ "[]"] exI [of _ "pt_mm t"]) (simp add: page_buffer_push_def freed_def)
qed

text \<open>The cache of the previous traversal is never valid, so no table is ever given back.\<close>

lemma clear_tables_none: "no_cache prev \<Longrightarrow> page_table_clear_pml1_pml2_pml3 prev tr s = s"
  by (simp add: page_table_clear_pml1_pml2_pml3_def no_cache_def)

definition clear_entry :: "u64 \<Rightarrow> u64" where
  "clear_entry e = (if present e then e else 0)"

definition owned_frames :: "'m page_table \<Rightarrow> u64 \<Rightarrow> nat list \<Rightarrow> u64 list" where
  "owned_frames t a is = concat (List.map (\<lambda>i. case leaf t (page_at a i) of
     None \<Rightarrow> [] | Some e \<Rightarrow> if \<not> present e \<and> owned e then [entry_pfn e] else []) is)"

lemma frames_inv_mm [simp]:
  "frame (t\<lparr>pt_mm := mm\<rparr>) p = frame t p" "frames_inv (t\<lparr>pt_mm := mm\<rparr>) F = frames_inv t F"
  "leaf (t\<lparr>pt_mm := mm\<rparr>) b = leaf t b" "set_entry f i raw (t\<lparr>pt_mm := mm\<rparr>) = (set_entry f i raw t)\<lparr>pt_mm := mm\<rparr>"
  "same_frames t' (t\<lparr>pt_mm := mm\<rparr>) = same_frames t' t" "same_frames (t\<lparr>pt_mm := mm\<rparr>) t' = same_frames t t'"
proof -
  have n: "next_frame (t\<lparr>pt_mm := mm\<rparr>) = next_frame t" by (intro ext) (simp add: next_frame_def get_entry_def)
  then show f: "frame (t\<lparr>pt_mm := mm\<rparr>) p = frame t p" for p by (simp add: frame_def)
  then show "frames_inv (t\<lparr>pt_mm := mm\<rparr>) F = frames_inv t F" by (simp add: frames_inv_def)
  show "leaf (t\<lparr>pt_mm := mm\<rparr>) b = leaf t b" by (simp add: leaf_def f get_entry_def)
  show "same_frames t' (t\<lparr>pt_mm := mm\<rparr>) = same_frames t' t" "same_frames (t\<lparr>pt_mm := mm\<rparr>) t' = same_frames t t'"
    by (simp_all add: same_frames_def f)
qed (simp add: set_entry_def)

lemma owned_frames_cong:
  "(\<And>i. i \<in> set is \<Longrightarrow> leaf t' (page_at a i) = leaf t (page_at a i)) \<Longrightarrow> owned_frames t' a is = owned_frames t a is"
  unfolding owned_frames_def by (intro arg_cong [of _ _ concat] map_cong) auto

lemma clear_loop_correct:
  assumes "no_cache prev" and "no_cache tr" and "frames_inv t F" and "distinct is" and "\<forall>i \<in> set is. i < 2 ^ 36"
  shows "\<exists>prev' tr' buffer' t' chunks. clear_loop a is prev tr (buffer, t) = (prev', tr', buffer', t') \<and>
           no_cache prev' \<and> frames_inv t' F \<and> same_frames t t' \<and> freed t chunks (pt_mm t') \<and>
           concat chunks @ buffer' = buffer @ owned_frames t a is \<and>
           (\<forall>b. leaf t' b = (if in_range a (set is) b then map_option clear_entry (leaf t b) else leaf t b))"
  using assms
proof (induction "is" arbitrary: prev tr t buffer)
  case Nil
  then show ?case by (auto simp: owned_frames_def freed_def intro: exI [of _ "[]"])
next
  case (Cons i "is")
  let ?a = "page_at a i"
  have dis: "distinct is" "\<forall>i \<in> set is. i < 2 ^ 36" using Cons.prems(4,5) by simp_all
  have other: "pageno (page_at a j) \<noteq> pageno ?a" if "j \<in> set is" for j
    using pageno_add_inj [of a j i] that Cons.prems(4,5) by auto
  have skip: "page_table_clear_pml1_pml2_pml3 prev tr (buffer, t) = (buffer, t)"
    by (rule clear_tables_none [OF Cons.prems(1)])
  show ?case
  proof (rule traverse_leaf [OF Cons.prems(2), of ?a t])
    fix tr'
    assume a: "page_table_traverse ?a PML_NONE (tr, t) = (False, tr', t)" "no_cache tr'" "leaf t ?a = None"
    have nc: "no_cache (prev\<lparr>pml1Valid := False, pml2Valid := False, pml3Valid := False\<rparr>)" by (simp add: no_cache_def)
    have "leaf t b = None" if "pageno b = pageno ?a" for b using leaf_pageno [OF that, of t] a(3) by simp
    moreover have "owned_frames t a (i # is) = owned_frames t a is" using a(3) by (simp add: owned_frames_def)
    ultimately show ?thesis using Cons.IH [OF nc a(2) Cons.prems(3) dis, of buffer] a(1) skip by auto
  next
    fix tr' f
    assume a: "page_table_traverse ?a PML_NONE (tr, t) = (True, tr', t)" "no_cache tr'" "frame t (path ?a) = Some f"
      "leaf t ?a = Some (cur_entry tr' t)" "\<And>raw. put_entry tr' raw t = set_entry f (idx ?a 1) raw t"
    let ?e = "cur_entry tr' t"
    show ?thesis
    proof (cases "present ?e")
      case True
      have "clear_entry (the (leaf t b)) = the (leaf t b)" if "pageno b = pageno ?a" for b
        using leaf_pageno [OF that, of t] a(4) True by (simp add: clear_entry_def)
      then have keep: "map_option clear_entry (leaf t b) = leaf t b" if "pageno b = pageno ?a" for b
        using that by (cases "leaf t b") fastforce+
      have "owned_frames t a (i # is) = owned_frames t a is" using a(4) True by (simp add: owned_frames_def)
      then show ?thesis
        using Cons.IH [OF a(2) a(2) Cons.prems(3) dis, of buffer] a(1) skip True keep by auto
    next
      case False
      obtain buffer1 chunks1 mm where b1: "(if owned ?e then page_buffer_push (entry_pfn ?e) (buffer, t) else (buffer, t)) =
          (buffer1, t\<lparr>pt_mm := mm\<rparr>)" "freed t chunks1 mm"
        "concat chunks1 @ buffer1 = buffer @ (if owned ?e then [entry_pfn ?e] else [])"
      proof (cases "owned ?e")
        case True
        then show ?thesis using page_buffer_push_correct [of "entry_pfn ?e" buffer t] that by auto
      next
        case False
        then show ?thesis using that [of buffer "pt_mm t" "[]"] by (simp add: freed_def)
      qed
      let ?t = "(set_entry f (idx ?a 1) 0 t)\<lparr>pt_mm := mm\<rparr>"
      have put: "put_entry tr' 0 (t\<lparr>pt_mm := mm\<rparr>) = ?t"
        using a(5) [of 0] by (simp add: put_entry_def)
      have eq: "clear_loop a (i # is) prev tr (buffer, t) = clear_loop a is tr' tr' (buffer1, ?t)"
        using a(1) skip False b1(1) put by simp
      have inv: "frames_inv ?t F" using set_leaf(1) [OF Cons.prems(3) a(3)] by simp
      have same: "same_frames t ?t" using same_frames_set_leaf [OF Cons.prems(3) a(3)] by simp
      have le: "leaf ?t b = (if pageno b = pageno ?a then map_option clear_entry (leaf t b) else leaf t b)" for b
        using set_leaf(2) [OF Cons.prems(3) a(3), of 0 b] a(4) leaf_pageno [of b ?a t] False
        by (auto simp: clear_entry_def)
      obtain prev' tr'' buffer' t' chunks where r: "clear_loop a is tr' tr' (buffer1, ?t) = (prev', tr'', buffer', t')"
        "no_cache prev'" "frames_inv t' F" "same_frames ?t t'" "freed ?t chunks (pt_mm t')"
        "concat chunks @ buffer' = buffer1 @ owned_frames ?t a is"
        "\<forall>b. leaf t' b = (if in_range a (set is) b then map_option clear_entry (leaf ?t b) else leaf ?t b)"
        using Cons.IH [OF a(2) a(2) inv dis, of buffer1] by blast
      have fr: "freed t (chunks1 @ chunks) (pt_mm t')" using b1(2) r(5) by (simp add: freed_def)
      have "owned_frames ?t a is = owned_frames t a is"
        by (rule owned_frames_cong) (use le other in simp)
      then have pend: "concat (chunks1 @ chunks) @ buffer' = buffer @ owned_frames t a (i # is)"
        using r(6) b1(3) a(4) False by (auto simp: owned_frames_def)
      have "clear_entry (clear_entry e) = clear_entry e" for e by (simp add: clear_entry_def)
      then have lf: "leaf t' b = (if in_range a (set (i # is)) b then map_option clear_entry (leaf t b) else leaf t b)" for b
        using r(7) le [of b] by (cases "leaf t b") auto
      show ?thesis
        unfolding eq using r(1-3) same_frames_trans [OF same r(4)] fr pend lf by blast
    qed
  qed
qed

text \<open>Clearing empties the entries that are not present and frees the owned frames among them; all
  tables stay.\<close>

lemma page_table_clear_correct:
  fixes a :: u64
  assumes inv: "frames_inv t F" and n: "unat n \<le> 2 ^ 36"
  defines "t' \<equiv> page_table_clear a n t"
  shows "frames_inv t' F" and "same_frames t t'"
    and "leaf t' b = (if in_range a {0..<unat n} b then map_option clear_entry (leaf t b) else leaf t b)"
    and "\<exists>chunks. freed t chunks (pt_mm t') \<and> concat chunks = owned_frames t a [0..<unat n]"
proof -
  have bound: "\<forall>i \<in> set [0..<unat n]. i < 2 ^ 36" using n by auto
  obtain prev' tr' buffer' t1 chunks where r:
    "clear_loop a [0..<unat n] PAGE_TABLE_TRAVERSE_CREATE PAGE_TABLE_TRAVERSE_CREATE ([], t) = (prev', tr', buffer', t1)"
    "no_cache prev'" "frames_inv t1 F" "same_frames t t1" "freed t chunks (pt_mm t1)"
    "concat chunks @ buffer' = owned_frames t a [0..<unat n]"
    "\<forall>b. leaf t1 b = (if in_range a (set [0..<unat n]) b then map_option clear_entry (leaf t b) else leaf t b)"
    using clear_loop_correct [OF no_cache_create no_cache_create inv distinct_upt bound, of a "[]"] by auto
  have same: "pt_freePages t1 = pt_freePages t" using r(4) by (simp add: same_frames_def)
  have t': "t' = (if buffer' = [] then t1 else t1\<lparr>pt_mm := pt_freePages t buffer' (pt_mm t1)\<rparr>)"
    unfolding t'_def page_table_clear_def r(1)
    by (simp add: clear_tables_none [OF r(2)] page_buffer_flush_def free_pages_def same)
  show "frames_inv t' F" "same_frames t t'" using r(3,4) t' by simp_all
  show "leaf t' b = (if in_range a {0..<unat n} b then map_option clear_entry (leaf t b) else leaf t b)"
    using r(7) t' by simp
  show "\<exists>chunks. freed t chunks (pt_mm t') \<and> concat chunks = owned_frames t a [0..<unat n]"
  proof (cases "buffer' = []")
    case True
    then show ?thesis using r(5,6) t' by auto
  next
    case False
    then show ?thesis using r(5,6) t' by (intro exI [of _ "chunks @ [buffer']"]) (simp add: freed_def)
  qed
qed

section \<open>Changing flags\<close>

abbreviation with_flags :: "u64 \<Rightarrow> u64 \<Rightarrow> u64" where
  "with_flags flags e \<equiv> (e AND NOT PML_FLAGS_MASK) OR (flags AND PML_FLAGS_MASK)"

lemma bit_FLAGS_MASK: "bit PML_FLAGS_MASK n \<longleftrightarrow> n < 10 \<or> n = 63"
  unfolding PML_FLAGS_MASK_def bit_or_iff bit_push_bit_iff bit_mask_iff by auto

lemma with_flags_bits:
  "owned (with_flags flags e) = owned flags" "owned (flags OR PML_OWNED)" "entry_pfn (with_flags flags e) = entry_pfn e"
proof -
  show "owned (with_flags flags e) = owned flags" "owned (flags OR PML_OWNED)"
    by (simp_all add: owned_def bit_FLAGS_MASK PML_OWNED_def bit_simps)
  show "entry_pfn (with_flags flags e) = entry_pfn e"
    unfolding entry_pfn_def
    by (rule bit_word_eqI) (auto simp: bit_get_field bit_FLAGS_MASK bit_simps)
qed

text \<open>The flags given to a page: once a page of the range is owned, all later ones get the flag.\<close>

definition flags_after :: "'m page_table \<Rightarrow> u64 \<Rightarrow> u64 \<Rightarrow> nat set \<Rightarrow> u64" where
  "flags_after t a flags I =
     (if \<exists>j \<in> I. \<exists>e. leaf t (page_at a j) = Some e \<and> owned e then flags OR PML_OWNED else flags)"

lemma flags_after_step:
  assumes "\<And>j. j \<in> I \<Longrightarrow> leaf t1 (page_at a j) = leaf t (page_at a j)"
  shows "flags_after t1 a (flags_after t a flags {i}) I = flags_after t a flags (insert i I)"
  using assms by (auto simp: flags_after_def or.assoc)

lemma set_flags_loop_correct:
  assumes "no_cache tr" and "frames_inv t F" and "distinct is" and "\<forall>i \<in> set is. i < 2 ^ 36"
  shows "\<exists>ok t'. set_flags_loop a is flags (tr, t) = (ok, t') \<and> frames_inv t' F \<and>
           (\<forall>b. \<not> in_range a (set is) b \<longrightarrow> leaf t' b = leaf t b) \<and>
           (ok \<longleftrightarrow> (\<forall>i \<in> set is. \<forall>e. leaf t (page_at a i) = Some e \<longrightarrow> present e)) \<and>
           (ok \<longrightarrow> (\<forall>k < length is. leaf t' (page_at a (is ! k)) =
              map_option (with_flags (flags_after t a flags (set (take (Suc k) is)))) (leaf t (page_at a (is ! k)))))"
  using assms
proof (induction "is" arbitrary: tr t flags)
  case Nil
  then show ?case by auto
next
  case (Cons i "is")
  let ?a = "page_at a i" and ?flags = "flags_after t a flags {i}"
  have dis: "distinct is" "\<forall>i \<in> set is. i < 2 ^ 36" using Cons.prems(3,4) by simp_all
  have other: "pageno (page_at a j) \<noteq> pageno ?a" if "j \<in> set is" for j
    using pageno_add_inj [of a j i] that Cons.prems(3,4) by auto
  have step: ?case
    if t1: "\<And>b. leaf t1 b = (if pageno b = pageno ?a then map_option (with_flags ?flags) (leaf t b) else leaf t b)"
      "frames_inv t1 F" "no_cache tr'" "set_flags_loop a (i # is) flags (tr, t) = set_flags_loop a is ?flags (tr', t1)"
      "\<forall>e. leaf t ?a = Some e \<longrightarrow> present e" for t1 tr'
  proof -
    obtain ok t' where r: "set_flags_loop a is ?flags (tr', t1) = (ok, t')" "frames_inv t' F"
      "\<forall>b. \<not> in_range a (set is) b \<longrightarrow> leaf t' b = leaf t1 b"
      "ok \<longleftrightarrow> (\<forall>i \<in> set is. \<forall>e. leaf t1 (page_at a i) = Some e \<longrightarrow> present e)"
      "ok \<longrightarrow> (\<forall>k < length is. leaf t' (page_at a (is ! k)) =
         map_option (with_flags (flags_after t1 a ?flags (set (take (Suc k) is)))) (leaf t1 (page_at a (is ! k))))"
      using Cons.IH [OF t1(3,2) dis, of ?flags] by blast
    have same: "leaf t1 (page_at a j) = leaf t (page_at a j)" if "j \<in> set is" for j using t1(1) other [OF that] by simp
    have first: "leaf t' ?a = map_option (with_flags ?flags) (leaf t ?a)"
    proof -
      have "\<not> in_range a (set is) ?a" using other unfolding in_range_def by metis
      then show ?thesis using r(3) t1(1) by simp
    qed
    have rest: "leaf t' (page_at a (is ! k)) =
        map_option (with_flags (flags_after t a flags (insert i (set (take (Suc k) is))))) (leaf t (page_at a (is ! k)))"
      if "ok" "k < length is" for k
    proof -
      have "flags_after t1 a ?flags (set (take (Suc k) is)) = flags_after t a flags (insert i (set (take (Suc k) is)))"
        by (rule flags_after_step) (use same in_set_takeD in fast)
      then show ?thesis using r(5) that same by simp
    qed
    have "ok \<longrightarrow> (\<forall>k < length (i # is). leaf t' (page_at a ((i # is) ! k)) =
        map_option (with_flags (flags_after t a flags (set (take (Suc k) (i # is))))) (leaf t (page_at a ((i # is) ! k))))"
    proof (intro impI allI)
      fix k
      assume "ok" "k < length (i # is)"
      then show "leaf t' (page_at a ((i # is) ! k)) =
        map_option (with_flags (flags_after t a flags (set (take (Suc k) (i # is))))) (leaf t (page_at a ((i # is) ! k)))"
        using first rest by (cases k) simp_all
    qed
    then show ?thesis using r(1-4) t1 same by auto
  qed
  show ?case
  proof (rule traverse_leaf [OF Cons.prems(1), of ?a t])
    fix tr'
    assume tr': "page_table_traverse ?a PML_NONE (tr, t) = (False, tr', t)" "no_cache tr'" "leaf t ?a = None"
    have fl: "?flags = flags" using tr'(3) by (simp add: flags_after_def)
    have "leaf t b = None" if "pageno b = pageno ?a" for b using leaf_pageno [OF that, of t] tr'(3) by simp
    then show ?thesis by (intro step [of t tr']) (use tr' Cons.prems(2) fl in auto)
  next
    fix tr' f
    assume tr': "page_table_traverse ?a PML_NONE (tr, t) = (True, tr', t)" "no_cache tr'" "frame t (path ?a) = Some f"
      "leaf t ?a = Some (cur_entry tr' t)" "\<And>raw. put_entry tr' raw t = set_entry f (idx ?a 1) raw t"
    let ?e = "cur_entry tr' t"
    show ?thesis
    proof (cases "present ?e")
      case False
      then show ?thesis using tr'(1,4) Cons.prems(2) by auto
    next
      case True
      have fl: "?flags = (if owned ?e then flags OR PML_OWNED else flags)" using tr'(4) by (simp add: flags_after_def)
      let ?t = "set_entry f (idx ?a 1) (with_flags ?flags ?e) t"
      show ?thesis
      proof (rule step [of ?t tr'])
        fix b
        show "leaf ?t b = (if pageno b = pageno ?a then map_option (with_flags ?flags) (leaf t b) else leaf t b)"
          using set_leaf(2) [OF Cons.prems(2) tr'(3), of "with_flags ?flags ?e" b] tr'(4) leaf_pageno [of b ?a t] by auto
        show "frames_inv ?t F" by (rule set_leaf(1) [OF Cons.prems(2) tr'(3)])
        show "no_cache tr'" by (rule tr'(2))
        show "set_flags_loop a (i # is) flags (tr, t) = set_flags_loop a is ?flags (tr', ?t)"
          using tr'(1) True tr'(5) unfolding fl by (simp add: Let_def)
        show "\<forall>e. leaf t ?a = Some e \<longrightarrow> present e" using True tr'(4) by simp
      qed
    qed
  qed
qed

section \<open>Mapping\<close>

text \<open>The contract of the callback that provides frames for new tables: it hands out free frames and
  fails only when there are none.\<close>

locale frame_source =
  fixes alloc :: "'m \<Rightarrow> (u64 \<times> 'm) option" and minv :: "'m \<Rightarrow> u64 set \<Rightarrow> bool"
  assumes alloc_law: "minv mm F \<Longrightarrow> alloc mm = Some (f, mm') \<Longrightarrow> f \<in> F \<and> minv mm' (F - {f})"
    and alloc_none: "minv mm F \<Longrightarrow> alloc mm = None \<Longrightarrow> F = {}"

text \<open>A table with its memory manager: the free frames are none of the table's.\<close>

definition pt_ok :: "('m \<Rightarrow> (u64 \<times> 'm) option) \<Rightarrow> ('m \<Rightarrow> u64 set \<Rightarrow> bool) \<Rightarrow> 'm page_table \<Rightarrow> u64 set \<Rightarrow> bool" where
  "pt_ok alloc minv t F \<longleftrightarrow> pt_allocPage t = alloc \<and> minv (pt_mm t) F \<and> frames_inv t F"

text \<open>\<open>grown t t'\<close>: at most empty tables were added.\<close>

definition grown :: "'m page_table \<Rightarrow> 'm page_table \<Rightarrow> bool" where
  "grown t t' \<longleftrightarrow> (\<forall>p \<in> paths. \<forall>f. frame t p = Some f \<longrightarrow> frame t' p = Some f) \<and> (\<forall>b. translate t' b = translate t b) \<and>
     pt_tlb t' = pt_tlb t"

lemma grown_refl [simp]: "grown t t"
  by (simp add: grown_def)

lemma grown_trans: "grown t t' \<Longrightarrow> grown t' t'' \<Longrightarrow> grown t t''"
  by (simp add: grown_def)

context frame_source
begin

lemma get_pml:
  assumes ok: "pt_ok alloc minv t F" and p: "p @ [i] \<in> paths" "frame t p = Some f"
  shows "\<exists>r t' F'. page_table_get_pml f i flags t = (r, t') \<and> pt_ok alloc minv t' F' \<and> grown t t' \<and> F' \<subseteq> F \<and>
           frame t' (p @ [i]) = r \<and> (r = None \<and> present flags \<longrightarrow> F' = {})"
proof (cases "present (get_entry t f i)")
  case True
  then show ?thesis using ok p by (auto simp: page_table_get_pml_def next_frame_def)
next
  case np: False
  have o: "pt_allocPage t = alloc" "minv (pt_mm t) F" "frames_inv t F" using ok by (simp_all add: pt_ok_def)
  show ?thesis
  proof (cases "present flags")
    case False
    then show ?thesis using ok p np by (auto simp: next_frame_def)
  next
    case True
    show ?thesis
    proof (cases "alloc (pt_mm t)")
      case None
      then show ?thesis
        using ok p np True o alloc_none [OF o(2) None] PML_PRESENT_bit [of flags]
        by (auto simp: page_table_get_pml_def pml_new_def next_frame_def)
    next
      case (Some r)
      obtain g mm where r: "r = (g, mm)" by (cases r)
      then have g: "g \<in> F" "minv mm (F - {g})" using alloc_law [OF o(2)] Some by blast+
      let ?e = "set_pfn g (flags AND PML_FLAGS_MASK)"
      let ?t = "set_entry f i ?e (t\<lparr>pt_mm := mm, pt_mem := (pt_mem t)(g := replicate PML_INDEX_AMOUNT 0)\<rparr>)"
      have e: "present ?e" "entry_pfn ?e = g"
        using True entry_pfn_set_pfn [OF frames_invD(1) [OF o(3) g(1)]] by simp_all
      note add = add_table [OF o(3) p np g(1) e, where mm = mm]
      have "page_table_get_pml f i flags t = (Some g, ?t)"
        using np True Some r o(1) PML_PRESENT_bit [of flags] by (simp add: page_table_get_pml_def pml_new_def)
      moreover have "pt_ok alloc minv ?t (F - {g})" using o(1) g(2) add(2) by (simp add: pt_ok_def)
      moreover have "frame t (p @ [i]) = None" using p(2) np by (simp add: next_frame_def)
      then have "grown t ?t" using add(1,3) by (auto simp: grown_def)
      moreover have "frame ?t (p @ [i]) = Some g" using add(1) [OF p(1)] by (simp only: simp_thms if_True)
      ultimately show ?thesis by blast
    qed
  qed
qed

text \<open>Traversal with allocation: the table of the address exists afterwards, and nothing else changes.\<close>

lemma traverse_step:
  assumes ok: "pt_ok alloc minv t F" and p: "p @ [i] \<in> paths" "frame t p = Some f"
  obtains r t' F' where "page_table_get_pml f i flags t = (r, t')" "pt_ok alloc minv t' F'" "grown t t'" "F' \<subseteq> F"
    "frame t' (p @ [i]) = r" "r = None \<and> present flags \<longrightarrow> F' = {}"
  using get_pml [OF assms] by blast

lemma traverse_alloc:
  assumes ok: "pt_ok alloc minv t F" and nc: "no_cache tr"
  shows "\<exists>b tr' t' F'. page_table_traverse a flags (tr, t) = (b, tr', t') \<and> no_cache tr' \<and> pt_ok alloc minv t' F' \<and>
           grown t t' \<and> F' \<subseteq> F \<and> (b \<longrightarrow> frame t' (path a) = Some (fst (t_entry tr')) \<and> snd (t_entry tr') = idx a 1) \<and>
           (\<not> b \<and> present flags \<longrightarrow> F' = {})"
proof -
  let ?i = "idx a 4" and ?j = "idx a 3" and ?k = "idx a 2"
  have in_paths: "[] @ [?i] \<in> paths" "[?i] @ [?j] \<in> paths" "[?i, ?j] @ [?k] \<in> paths" by (simp_all add: paths_def)
  have root: "frame t [] = Some (pt_pml4 t)" by simp
  obtain r3 t3 F3 where s3: "page_table_get_pml (pt_pml4 t) ?i ((flags OR PML_WRITE OR PML_USER) AND NOT PML_GLOBAL) t = (r3, t3)"
    "pt_ok alloc minv t3 F3" "grown t t3" "F3 \<subseteq> F" "frame t3 ([] @ [?i]) = r3"
    "r3 = None \<and> present flags \<longrightarrow> F3 = {}"
    by (rule traverse_step [OF ok in_paths(1) root, of "(flags OR PML_WRITE OR PML_USER) AND NOT PML_GLOBAL"]) simp
  show ?thesis
  proof (cases r3)
    case None
    then show ?thesis
      using s3 nc by (auto simp: page_table_traverse_def traverse_pml3_def no_cache_def)
  next
    case r3: (Some f3)
    let ?tr3 = "tr\<lparr>t_pml3 := f3, oldIdx3 := ?i, pml2Valid := False\<rparr>"
    have c3: "traverse_pml3 a flags (tr, t) = (True, ?tr3, t3)"
      using s3(1) r3 nc by (simp add: traverse_pml3_def no_cache_def)
    have "frame t3 [?i] = Some f3" using s3(5) r3 by simp
    then obtain r2 t2 F2 where s2: "page_table_get_pml f3 ?j (flags OR PML_WRITE OR PML_USER) t3 = (r2, t2)"
      "pt_ok alloc minv t2 F2" "grown t3 t2" "F2 \<subseteq> F3" "frame t2 ([?i] @ [?j]) = r2"
      "r2 = None \<and> present flags \<longrightarrow> F2 = {}"
      by (rule traverse_step [OF s3(2) in_paths(2), of f3 "flags OR PML_WRITE OR PML_USER"]) simp
    note g2 = grown_trans [OF s3(3) s2(3)]
    show ?thesis
    proof (cases r2)
      case None
      then have "page_table_traverse a flags (tr, t) = (False, ?tr3, t2)"
        using c3 s2(1) nc by (simp add: page_table_traverse_def traverse_pml2_def no_cache_def)
      then show ?thesis using s2 s3(4) g2 nc None by (auto simp: no_cache_def)
    next
      case r2: (Some f2)
      let ?tr2 = "?tr3\<lparr>t_pml2 := f2, oldIdx2 := ?j, pml1Valid := False\<rparr>"
      have c2: "traverse_pml2 a flags (?tr3, t3) = (True, ?tr2, t2)"
        using s2(1) r2 nc by (simp add: traverse_pml2_def no_cache_def)
      have "frame t2 [?i, ?j] = Some f2" using s2(5) r2 by simp
      then obtain r1 t1 F1 where s1: "page_table_get_pml f2 ?k (flags OR PML_WRITE OR PML_USER) t2 = (r1, t1)"
        "pt_ok alloc minv t1 F1" "grown t2 t1" "F1 \<subseteq> F2" "frame t1 ([?i, ?j] @ [?k]) = r1"
        "r1 = None \<and> present flags \<longrightarrow> F1 = {}"
        by (rule traverse_step [OF s2(2) in_paths(3), of f2 "flags OR PML_WRITE OR PML_USER"]) simp
      note g1 = grown_trans [OF g2 s1(3)]
      show ?thesis
      proof (cases r1)
        case None
        then have "page_table_traverse a flags (tr, t) = (False, ?tr2, t1)"
          using c3 c2 s1(1) nc by (simp add: page_table_traverse_def traverse_pml1_def no_cache_def)
        moreover have "no_cache ?tr2" using nc by (simp add: no_cache_def)
        moreover have "F1 \<subseteq> F" using s1(4) s2(4) s3(4) by blast
        ultimately show ?thesis using s1(2,6) g1 None
          by (intro exI [of _ False] exI [of _ ?tr2] exI [of _ t1] exI [of _ F1]) simp
      next
        case (Some f1)
        let ?tr1 = "?tr2\<lparr>t_pml1 := f1, oldIdx1 := ?k, t_entry := (f1, idx a 1)\<rparr>"
        have "page_table_traverse a flags (tr, t) = (True, ?tr1, t1)"
          using c3 c2 s1(1) nc Some by (simp add: page_table_traverse_def traverse_pml1_def no_cache_def)
        moreover have "frame t1 (path a) = Some f1" using s1(5) Some by (simp add: path_def)
        moreover have "no_cache ?tr1" using nc by (simp add: no_cache_def)
        moreover have "F1 \<subseteq> F" using s1(4) s2(4) s3(4) by blast
        ultimately show ?thesis using s1(2) g1
          by (intro exI [of _ True] exI [of _ ?tr1] exI [of _ t1] exI [of _ F1]) simp
      qed
    qed
  qed
qed

lemma map_loop_correct:
  assumes "pt_ok alloc minv t F" and "no_cache tr" and "present flags" and "length pfns \<le> 2 ^ 36"
  shows "\<exists>b t' F'. map_loop flags c a pfns (tr, t) = (b, t') \<and> pt_ok alloc minv t' F' \<and> F' \<subseteq> F \<and>
           (\<forall>x. \<not> in_range a {0..<length pfns} x \<longrightarrow> translate t' x = translate t x) \<and>
           (b \<longrightarrow> (\<forall>i < length pfns. translate t (page_at a i) = None \<and>
              translate t' (page_at a i) = Some (set_callback c (set_pfn (pfns ! i) flags)))) \<and>
           (\<not> b \<longrightarrow> F' = {} \<or> (\<exists>i < length pfns. translate t (page_at a i) \<noteq> None))"
  using assms
proof (induction pfns arbitrary: a t F tr)
  case Nil
  then show ?case by auto
next
  case (Cons pfn pfns)
  let ?e = "set_callback c (set_pfn pfn flags)"
  obtain b tr' t1 F1 where tv: "page_table_traverse a flags (tr, t) = (b, tr', t1)" "no_cache tr'"
    "pt_ok alloc minv t1 F1" "grown t t1" "F1 \<subseteq> F"
    "b \<longrightarrow> frame t1 (path a) = Some (fst (t_entry tr')) \<and> snd (t_entry tr') = idx a 1"
    "\<not> b \<and> present flags \<longrightarrow> F1 = {}" using traverse_alloc [OF Cons.prems(1,2)] by blast
  have tr1: "translate t1 x = translate t x" for x using tv(4) by (simp add: grown_def)
  show ?case
  proof (cases b)
    case False
    then show ?thesis using tv Cons.prems(3) tr1 by auto
  next
    case True
    then have f: "frame t1 (path a) = Some (fst (t_entry tr'))" and i: "snd (t_entry tr') = idx a 1" using tv(6) by auto
    have cur: "leaf t1 a = Some (cur_entry tr' t1)" using f i by (simp add: leaf_def cur_entry_def)
    show ?thesis
    proof (cases "present (cur_entry tr' t1)")
      case p: True
      then have "translate t1 a = Some (cur_entry tr' t1)" using cur by (simp add: translate_leaf)
      then have "translate t (page_at a 0) \<noteq> None" using tr1 [of a] by simp
      then have "\<exists>i < length (pfn # pfns). translate t (page_at a i) \<noteq> None" by (intro exI [of _ 0]) simp
      moreover have "map_loop flags c a (pfn # pfns) (tr, t) = (False, t1)" using tv(1) p True by simp
      ultimately show ?thesis using tv(3,5) tr1
        by (intro exI [of _ False] exI [of _ t1] exI [of _ F1]) simp
    next
      case np: False
      let ?t = "put_entry tr' ?e t1"
      have put: "?t = set_entry (fst (t_entry tr')) (idx a 1) ?e t1" using i by (simp add: put_entry_def)
      have inv1: "frames_inv t1 F1" using tv(3) by (simp add: pt_ok_def)
      have ok2: "pt_ok alloc minv ?t F1" using tv(3) set_leaf(1) [OF inv1 f] by (simp add: pt_ok_def put)
      have pe: "present ?e" using Cons.prems(3) by simp
      have le: "translate ?t x = (if pageno x = pageno a then Some ?e else translate t x)" for x
        using set_leaf(2) [OF inv1 f, of ?e x] pe tr1 [of x] unfolding put by (auto simp: translate_def)
      have len: "length pfns \<le> 2 ^ 36" using Cons.prems(4) by simp
      obtain b2 t2 F2 where r: "map_loop flags c (a + PAGE_SIZE) pfns (tr', ?t) = (b2, t2)" "pt_ok alloc minv t2 F2" "F2 \<subseteq> F1"
        "\<forall>x. \<not> in_range (a + PAGE_SIZE) {0..<length pfns} x \<longrightarrow> translate t2 x = translate ?t x"
        "b2 \<longrightarrow> (\<forall>i < length pfns. translate ?t (page_at (a + PAGE_SIZE) i) = None \<and>
           translate t2 (page_at (a + PAGE_SIZE) i) = Some (set_callback c (set_pfn (pfns ! i) flags)))"
        "\<not> b2 \<longrightarrow> F2 = {} \<or> (\<exists>i < length pfns. translate ?t (page_at (a + PAGE_SIZE) i) \<noteq> None)"
        using Cons.IH [OF ok2 tv(2) Cons.prems(3) len, of "a + PAGE_SIZE"] by blast
      have shift: "page_at (a + PAGE_SIZE) i = page_at a (Suc i)" for i by (simp add: algebra_simps)
      have other: "pageno (page_at a (Suc i)) \<noteq> pageno a" if "i < length pfns" for i
        using pageno_add_inj [of a "Suc i" 0] that Cons.prems(4) by auto
      have range: "in_range a {0..<length (pfn # pfns)} x \<longleftrightarrow>
          pageno x = pageno a \<or> in_range (a + PAGE_SIZE) {0..<length pfns} x" for x
      proof -
        have eq: "{0..<length (pfn # pfns)} = insert 0 (Suc ` {0..<length pfns})" by (auto simp: image_iff less_Suc_eq_0_disj)
        show ?thesis unfolding in_range_def shift eq by (simp del: of_nat_Suc image_Suc_atLeastLessThan)
      qed
      have a_out: "\<not> in_range (a + PAGE_SIZE) {0..<length pfns} a"
        unfolding in_range_def shift using other by (metis atLeastLessThan_iff)
      have eq: "map_loop flags c a (pfn # pfns) (tr, t) = (b2, t2)" using tv(1) True np r(1) by simp
      have unused: "translate t a = None" using tr1 [of a] cur np by (simp add: translate_leaf)
      have "translate t (page_at a i) = None \<and>
          translate t2 (page_at a i) = Some (set_callback c (set_pfn ((pfn # pfns) ! i) flags))"
        if "b2" "i < length (pfn # pfns)" for i
      proof (cases i)
        case 0
        have "translate t2 a = Some ?e" using r(4) [rule_format, OF a_out] le [of a] by simp
        moreover have "page_at a i = a" using 0 by simp
        ultimately show ?thesis using 0 unused by simp
      next
        case (Suc n)
        then show ?thesis using r(5) that le other [of n] unfolding shift by auto
      qed
      moreover have "F2 = {} \<or> (\<exists>i < length (pfn # pfns). translate t (page_at a i) \<noteq> None)" if "\<not> b2"
      proof -
        have "F2 = {} \<or> (\<exists>i < length pfns. translate ?t (page_at a (Suc i)) \<noteq> None)" using r(6) that unfolding shift by blast
        then show ?thesis using le other by (metis Suc_mono length_Cons)
      qed
      moreover have "translate t2 x = translate t x" if "\<not> in_range a {0..<length (pfn # pfns)} x" for x
        using that r(4) le unfolding range by simp
      ultimately show ?thesis
        unfolding eq using r(2) subset_trans [OF r(3) tv(5)] by blast
    qed
  qed
qed

end

end
