(* ===== verification/Paging_Search.thy ===== *)
theory Paging_Search
  imports Paging_Ops
begin

text \<open>
  The search for unmapped regions of fewer than 512 pages in the lower half of the address space:
  \<^verbatim>\<open>page_table_find_unmapped_region\<close> returns the first one there is.
\<close>

unbundle bit_operations_syntax

section \<open>Addresses of page numbers\<close>

definition ad :: "nat \<Rightarrow> u64" where
  "ad p = of_nat p * PAGE_SIZE"

lemma unat_ad: "p < 2 ^ 52 \<Longrightarrow> unat (ad p) = p * 4096"
  by (simp add: ad_def unat_word_ariths PAGE_SIZE_def unat_of_nat)

lemma ad_less_iff: "p < 2 ^ 52 \<Longrightarrow> q < 2 ^ 52 \<Longrightarrow> ad p < ad q \<longleftrightarrow> p < q"
  by (simp add: word_less_nat_alt unat_ad)

lemma ad_Suc: "ad p + PAGE_SIZE = ad (Suc p)"
  by (simp add: ad_def algebra_simps)

lemma ad_eqI: "unat x = p * 4096 \<Longrightarrow> p < 2 ^ 52 \<Longrightarrow> x = ad p"
  by (simp add: word_unat_eq_iff unat_ad)

lemma ad_div: "p \<le> q \<Longrightarrow> q < 2 ^ 52 \<Longrightarrow> (ad q - ad p) div PAGE_SIZE = of_nat (q - p)"
proof -
  assume "p \<le> q" "q < 2 ^ 52"
  then have "unat (ad q - ad p) = (q - p) * 4096"
    by (subst unat_sub_u64) (simp_all add: word_le_nat_alt unat_ad diff_mult_distrib)
  then show ?thesis
    using \<open>q < 2 ^ 52\<close> by (simp add: word_unat_eq_iff unat_div PAGE_SIZE_def unat_of_nat)
qed

lemma ROUND_UP_page: "p < 2 ^ 51 \<Longrightarrow> ROUND_UP (ad p) PAGE_SIZE = ad p"
proof -
  assume p: "p < 2 ^ 51"
  have s: "unat PAGE_SIZE = 4096" by (simp add: PAGE_SIZE_def)
  have "unat (ROUND_UP (ad p) PAGE_SIZE) = p * 4096"
    using p by (subst unat_ROUND_UP) (simp_all add: s unat_ad)
  then show ?thesis using p by (intro ad_eqI) simp_all
qed

lemma pageno_ad: "p < 2 ^ 36 \<Longrightarrow> pageno (ad p) = p"
  by (simp add: pageno_def unat_ad)

lemma ROUND_UP_next:
  assumes "p < 2 ^ 36" and "unat m = 4096 * k" and "0 < k" and "k \<le> 2 ^ 27"
  shows "ROUND_UP (ad p + 1) m = ad ((p div k + 1) * k)"
proof -
  have b: "(p div k + 1) * k \<le> p + k" by (simp add: div_times_less_eq_dividend)
  have u: "unat (ad p + 1) = p * 4096 + 1"
    using assms(1) by (subst unat_add_u64) (simp_all add: unat_ad)
  have "unat (ROUND_UP (ad p + 1) m) = (p * 4096 + 4096 * k) div (4096 * k) * (4096 * k)"
    using assms u by (subst unat_ROUND_UP) simp_all
  moreover have "(p * 4096 + 4096 * k) div (4096 * k) = p div k + 1"
    using assms(3) by (simp add: div_mult2_eq div_add_self2)
  moreover have "(p div k + 1) * k < 2 ^ 52" using le_less_trans [OF b, of "2 ^ 52"] assms by simp
  ultimately show ?thesis by (intro ad_eqI) simp_all
qed

section \<open>Unmapped regions\<close>

definition page_free :: "'m page_table \<Rightarrow> nat \<Rightarrow> bool" where
  "page_free t p \<longleftrightarrow> translate t (ad p) = None"

definition region :: "'m page_table \<Rightarrow> nat \<Rightarrow> nat \<Rightarrow> nat \<Rightarrow> nat \<Rightarrow> bool" where
  "region t s l m r \<longleftrightarrow> s \<le> r \<and> r + m \<le> l \<and> (\<forall>j \<in> {r..<r + m}. page_free t j)"

definition first_region :: "'m page_table \<Rightarrow> nat \<Rightarrow> nat \<Rightarrow> nat \<Rightarrow> u64 option" where
  "first_region t s l m = (if \<exists>r. region t s l m r then Some (ad (LEAST r. region t s l m r)) else None)"

text \<open>The search stands at page \<open>p\<close>, with \<open>c\<close> unmapped pages just before it and no region that
  starts before those.\<close>

definition searched :: "'m page_table \<Rightarrow> nat \<Rightarrow> nat \<Rightarrow> nat \<Rightarrow> nat \<Rightarrow> nat \<Rightarrow> bool" where
  "searched t s l m p c \<longleftrightarrow> s + c \<le> p \<and> c < m \<and> (\<forall>j \<in> {p - c..<p}. page_free t j) \<and> (\<forall>r. region t s l m r \<longrightarrow> p - c \<le> r)"

lemma searched_end: "searched t s l m p c \<Longrightarrow> l \<le> p \<Longrightarrow> first_region t s l m = None"
proof -
  assume i: "searched t s l m p c" and l: "l \<le> p"
  have "\<not> region t s l m r" for r
  proof
    assume r: "region t s l m r"
    then have "p - c \<le> r" "c < m" using i by (simp_all add: searched_def)
    moreover have "r + m \<le> l" using r by (simp add: region_def)
    ultimately show False using l by linarith
  qed
  then show ?thesis by (simp add: first_region_def)
qed

lemma searched_skip:
  assumes i: "searched t s l m p c" and q: "p \<le> q" "q \<le> l" and f: "\<forall>j \<in> {p..<q}. page_free t j"
  shows "m \<le> c + (q - p) \<Longrightarrow> first_region t s l m = Some (ad (p - c))"
    and "c + (q - p) < m \<Longrightarrow> searched t s l m q (c + (q - p))"
proof -
  have free: "page_free t j" if "p - c \<le> j" "j < q" for j
    using that i f by (cases "j < p") (auto simp: searched_def)
  assume "m \<le> c + (q - p)"
  then have r: "region t s l m (p - c)"
    using i q free unfolding region_def searched_def by auto
  then have "(LEAST r. region t s l m r) = p - c"
    using i by (intro Least_equality) (auto simp: searched_def)
  then show "first_region t s l m = Some (ad (p - c))" using r by (auto simp: first_region_def)
next
  have free: "page_free t j" if "p - c \<le> j" "j < q" for j
    using that i f by (cases "j < p") (auto simp: searched_def)
  assume "c + (q - p) < m"
  moreover have "q - (c + (q - p)) = p - c" using q i by (simp add: searched_def)
  ultimately show "searched t s l m q (c + (q - p))"
    using i q free unfolding searched_def by auto
qed

lemma searched_mapped: "searched t s l m p c \<Longrightarrow> \<not> page_free t p \<Longrightarrow> searched t s l m (Suc p) 0"
proof -
  assume i: "searched t s l m p c" and n: "\<not> page_free t p"
  have "Suc p \<le> r" if r: "region t s l m r" for r
  proof (rule ccontr)
    assume "\<not> Suc p \<le> r"
    moreover have "p - c \<le> r" "c < m" "c \<le> p" using i r by (auto simp: searched_def)
    ultimately have "p \<in> {r..<r + m}" by auto
    then show False using r n by (auto simp: region_def)
  qed
  then show ?thesis using i by (auto simp: searched_def)
qed

section \<open>Absent tables\<close>

lemma idx_ad:
  assumes "p < 2 ^ 36"
  shows "unat (idx (ad p) 1) = p mod 512" "unat (idx (ad p) 2) = p div 512 mod 512"
    "unat (idx (ad p) 3) = p div 2 ^ 18 mod 512" "unat (idx (ad p) 4) = p div 2 ^ 27"
  using assms by (simp_all add: idx_pageno pageno_ad div_less_iff_less_mult del: One_nat_def)

lemma page_free_absent:
  assumes "j < 2 ^ 36" and "p < 2 ^ 36"
  shows "next_frame t (pt_pml4 t) (idx (ad p) 4) = None \<Longrightarrow> j div 2 ^ 27 = p div 2 ^ 27 \<Longrightarrow> page_free t j"
    and "next_frame t (pt_pml4 t) (idx (ad p) 4) = Some f3 \<Longrightarrow> next_frame t f3 (idx (ad p) 3) = None \<Longrightarrow>
         j div 2 ^ 18 = p div 2 ^ 18 \<Longrightarrow> page_free t j"
    and "next_frame t (pt_pml4 t) (idx (ad p) 4) = Some f3 \<Longrightarrow> next_frame t f3 (idx (ad p) 3) = Some f2 \<Longrightarrow>
         next_frame t f2 (idx (ad p) 2) = None \<Longrightarrow> j div 2 ^ 9 = p div 2 ^ 9 \<Longrightarrow> page_free t j"
proof -
  have up: "n div 2 ^ 27 = n div 2 ^ 9 div 2 ^ 18" "n div 2 ^ 27 = n div 2 ^ 18 div 2 ^ 9" "n div 2 ^ 18 = n div 2 ^ 9 div 2 ^ 9"
    for n :: nat by (simp_all add: div_mult2_eq [symmetric])
  have e4: "j div 2 ^ 27 = p div 2 ^ 27 \<Longrightarrow> idx (ad j) 4 = idx (ad p) 4"
    and e3: "j div 2 ^ 18 = p div 2 ^ 18 \<Longrightarrow> idx (ad j) 3 = idx (ad p) 3"
    and e2: "j div 2 ^ 9 = p div 2 ^ 9 \<Longrightarrow> idx (ad j) 2 = idx (ad p) 2"
    by (simp_all only: word_unat_eq_iff [of "idx (ad j) _"] idx_ad [OF assms(1)] idx_ad [OF assms(2)])
      (simp_all add: up(3))
  note d = page_free_def translate_def leaf_def frame_path
  show "next_frame t (pt_pml4 t) (idx (ad p) 4) = None \<Longrightarrow> j div 2 ^ 27 = p div 2 ^ 27 \<Longrightarrow> page_free t j"
    using e4 by (simp add: d)
  show "next_frame t (pt_pml4 t) (idx (ad p) 4) = Some f3 \<Longrightarrow> next_frame t f3 (idx (ad p) 3) = None \<Longrightarrow>
      j div 2 ^ 18 = p div 2 ^ 18 \<Longrightarrow> page_free t j"
    using e4 e3 up(2) [of j] up(2) [of p] by (simp add: d)
  show "next_frame t (pt_pml4 t) (idx (ad p) 4) = Some f3 \<Longrightarrow> next_frame t f3 (idx (ad p) 3) = Some f2 \<Longrightarrow>
      next_frame t f2 (idx (ad p) 2) = None \<Longrightarrow> j div 2 ^ 9 = p div 2 ^ 9 \<Longrightarrow> page_free t j"
    using e4 e3 e2 up(1,3) [of j] up(1,3) [of p] by (simp add: d)
qed

lemma page_free_leaf:
  assumes "B * 512 + i < 2 ^ 36" and "i < 512" and "frame t (path (ad p)) = Some f1" and "p div 512 = B" and "p < 2 ^ 36"
  shows "page_free t (B * 512 + i) \<longleftrightarrow> \<not> present (pt_mem t f1 ! i)"
proof -
  let ?j = "B * 512 + i"
  have up: "n div 2 ^ 27 = n div 512 div 2 ^ 18" "n div 2 ^ 18 = n div 512 div 2 ^ 9" for n :: nat
    by (simp_all add: div_mult2_eq [symmetric])
  have j: "?j div 512 = p div 512" using assms(2,4) by simp
  have "path (ad ?j) = path (ad p)"
    unfolding path_def word_unat_eq_iff [of "idx (ad ?j) _"] list.inject
    by (simp only: idx_ad [OF assms(1)] idx_ad [OF assms(5)] j up)
  moreover have "unat (idx (ad ?j) 1) = i" using idx_ad(1) [OF assms(1)] assms(2) by simp
  ultimately show ?thesis using assms(3) by (simp add: page_free_def translate_def leaf_def get_entry_def)
qed

section \<open>The loops\<close>

lemma of_nat_small: "c < 2 ^ 64 \<Longrightarrow> (of_nat c = (0 :: u64)) = (c = 0)" "unat (of_nat c :: u64) = c mod 2 ^ 64"
  by (auto simp: word_unat_eq_iff unat_of_nat)

definition scanned :: "'m page_table \<Rightarrow> nat \<Rightarrow> nat \<Rightarrow> nat \<Rightarrow> u64 \<times> u64 \<times> u64 \<Rightarrow> nat \<Rightarrow> bool" where
  "scanned t s l m = (\<lambda>(x, rs, k) p. x = ad p \<and> (\<exists>c. k = of_nat c \<and> searched t s l m p c \<and> (0 < c \<longrightarrow> rs = ad (p - c))))"

lemma scan_pml1_correct:
  assumes fr: "frame t (path (ad p0)) = Some f1" "p0 div 512 = B" "p0 < 2 ^ 36"
    and m: "unat m \<le> 512" and l: "l \<le> 2 ^ 35" and B: "B * 512 + 512 \<le> 2 ^ 36"
    and i: "i \<le> 512" and st: "scanned t s l (unat m) st (B * 512 + i)"
  shows "case scan_pml1 t f1 (ad l) m PAGE_SIZE [i..<512] st of
           Inl a \<Rightarrow> first_region t s l (unat m) = Some a
         | Inr st' \<Rightarrow> \<exists>p'. scanned t s l (unat m) st' p' \<and> p' \<le> B * 512 + 512 \<and> (l \<le> p' \<or> p' = B * 512 + 512)"
  using i st
proof (induction "512 - i" arbitrary: i st)
  case 0
  then show ?case by auto
next
  case (Suc n)
  then have i: "i < 512" "n = 512 - Suc i" by auto
  let ?p = "B * 512 + i"
  obtain rs c where st: "st = (ad ?p, rs, of_nat c)" "searched t s l (unat m) ?p c" "0 < c \<longrightarrow> rs = ad (?p - c)"
    using Suc.prems(2) by (cases st) (auto simp: scanned_def)
  have c: "c < unat m" using st(2) by (simp add: searched_def)
  have p: "?p < 2 ^ 36" using B i(1) by simp
  have lt: "ad ?p < ad l \<longleftrightarrow> ?p < l" using p l by (intro ad_less_iff) simp_all
  have upt: "[i..<512] = i # [Suc i..<512]" using i(1) by (rule upt_conv_Cons)
  have next_p: "ad ?p + PAGE_SIZE = ad (B * 512 + Suc i)" using ad_Suc [of ?p] by simp
  show ?case
  proof (cases "?p < l")
    case False
    then have "scan_pml1 t f1 (ad l) m PAGE_SIZE [i..<512] st = Inr st" using lt unfolding st(1) upt by simp
    then show ?thesis using Suc.prems(2) False B i(1) by auto
  next
    case l': True
    note free = page_free_leaf [OF p i(1) fr]
    show ?thesis
    proof (cases "page_free t ?p")
      case False
      have "scanned t s l (unat m) (ad (B * 512 + Suc i), rs, 0) (B * 512 + Suc i)"
        using searched_mapped [OF st(2) False] by (auto simp: scanned_def intro!: exI [of _ 0])
      from Suc.hyps(1) [OF i(2) _ this] show ?thesis
        using False free lt l' i(1) unfolding st(1) upt by (simp add: next_p)
    next
      case True
      have al: "ROUND_UP (ad ?p) PAGE_SIZE = ad ?p" using p by (intro ROUND_UP_page) simp
      have S: "of_nat (Suc c) = (of_nat c + 1 :: u64)" by simp
      have z: "(of_nat c = (0 :: u64)) = (c = 0)" using c m by (intro of_nat_small(1)) simp
      have step: "scan_pml1 t f1 (ad l) m PAGE_SIZE [i..<512] st =
          (if m \<le> of_nat (Suc c) then Inl (ad (?p - c))
           else scan_pml1 t f1 (ad l) m PAGE_SIZE [Suc i..<512] (ad (B * 512 + Suc i), ad (?p - c), of_nat (Suc c)))"
        using True free lt l' al st(3) unfolding st(1) upt S by (cases "c = 0") (simp_all add: next_p z)
      have le: "m \<le> of_nat (Suc c) \<longleftrightarrow> unat m \<le> Suc c" using c m by (simp add: word_le_nat_alt of_nat_small(2) del: of_nat_Suc)
      note skip = searched_skip [OF st(2), of "Suc ?p"]
      show ?thesis
      proof (cases "unat m \<le> Suc c")
        case True': True
        then have "first_region t s l (unat m) = Some (ad (?p - c))" using skip(1) True l' by simp
        then show ?thesis unfolding step using le True' by simp
      next
        case False
        then have "searched t s l (unat m) (Suc ?p) (Suc c)" using skip(2) True l' by simp
        then have "scanned t s l (unat m) (ad (B * 512 + Suc i), ad (?p - c), of_nat (Suc c)) (B * 512 + Suc i)"
          by (auto simp: scanned_def simp del: of_nat_Suc)
        from Suc.hyps(1) [OF i(2) _ this] show ?thesis unfolding step using le False i(1) by simp
      qed
    qed
  qed
qed

text \<open>Skipping an absent table up to page \<open>q\<close>.\<close>

lemma find_skip:
  assumes i: "searched t s l (unat m) p c" and p: "p < l" "p < q" and f: "\<forall>j \<in> {p..<min q l}. page_free t j"
    and l: "l \<le> 2 ^ 35" and m: "unat m \<le> 512"
    and k: "q < l \<Longrightarrow> k = ad q" "l \<le> q \<Longrightarrow> \<not> k < ad l"
    and IH: "\<And>rs c'. searched t s l (unat m) q c' \<Longrightarrow> (0 < c' \<longrightarrow> rs = ad (q - c')) \<Longrightarrow> q < l \<Longrightarrow>
               find_pages_loop t (ad l) m PAGE_SIZE (ad q) rs (of_nat c') = Some (first_region t s l (unat m))"
  shows "(if m \<le> of_nat (c + (min q l - p)) then Some (Some (ad (p - c)))
          else find_pages_loop t (ad l) m PAGE_SIZE k (ad (p - c)) (of_nat (c + (min q l - p)))) =
         Some (first_region t s l (unat m))"
proof -
  let ?c = "c + (min q l - p)"
  have c: "c < unat m" using i by (simp add: searched_def)
  have "?c < 2 ^ 64" using c m l by simp
  then have le: "m \<le> of_nat ?c \<longleftrightarrow> unat m \<le> ?c" by (simp add: word_le_nat_alt of_nat_small(2) del: of_nat_add)
  note skip = searched_skip [OF i _ _ f]
  show ?thesis
  proof (cases "unat m \<le> ?c")
    case True
    then show ?thesis using le skip(1) p by simp
  next
    case False
    then have s: "searched t s l (unat m) (min q l) ?c" using skip(2) p by simp
    show ?thesis
    proof (cases "q < l")
      case True
      then have q: "min q l = q" by simp
      have d: "q - (c + (q - p)) = p - c" using p i by (simp add: searched_def)
      show ?thesis using IH [of "c + (q - p)" "ad (p - c)"] s True False le k(1) unfolding q d by simp
    next
      case False': False
      then have "first_region t s l (unat m) = None" using searched_end [OF s] by simp
      then show ?thesis using False False' le k(2) by (subst find_pages_loop.simps) simp
    qed
  qed
qed

lemma skip_unmapped_correct:
  assumes i: "searched t s l m p c" and p: "p < l" "p < q" and l: "l \<le> 2 ^ 35" and q: "q \<le> 2 ^ 36"
    and rs: "0 < c \<longrightarrow> rs = ad (p - c)" and m: "m \<le> 512"
  shows "skip_unmapped (ad l) PAGE_SIZE (ad q) (ad p) rs (of_nat c) = (ad (p - c), of_nat (c + (min q l - p)))"
proof -
  have "unat (MIN_u64 (ad q) (ad l)) = min q l * 4096" using l q by (simp add: unat_ad min_def)
  then have mn: "MIN_u64 (ad q) (ad l) = ad (min q l)" using l by (intro ad_eqI) simp_all
  have d: "(ad (min q l) - ad p) div PAGE_SIZE = of_nat (min q l - p)" using p l by (intro ad_div) simp_all
  have al: "ROUND_UP (ad p) PAGE_SIZE = ad p" using p l by (intro ROUND_UP_page) simp
  have lt: "ad p < ad q" "ad p < ad l" using p l q by (simp_all add: ad_less_iff)
  have c: "(of_nat c = (0 :: u64)) = (c = 0)" using i m by (intro of_nat_small(1)) (simp add: searched_def)
  show ?thesis using rs unfolding skip_unmapped_def mn d al Let_def c by (cases "c = 0") (simp_all add: lt)
qed

lemma block: "0 < K \<Longrightarrow> p \<le> j \<Longrightarrow> j < (p div K + 1) * K \<Longrightarrow> j div K = (p :: nat) div K"
  by (metis Suc_eq_plus1 div_le_mono div_less_iff_less_mult le_antisym less_Suc_eq_le)

lemma block_next: "0 < K \<Longrightarrow> p < (p div K + 1) * (K :: nat)"
  by (metis Suc_eq_plus1 div_less_iff_less_mult lessI)

lemma next_pml4:
  assumes p: "p < l" and l: "l \<le> 2 ^ 35"
  defines "q \<equiv> (p div 2 ^ 27 + 1) * 2 ^ 27" and "k \<equiv> PML_INDEX_TO_ADDR (idx (ad p) 4 + 1) 4"
  shows "q < l \<Longrightarrow> k = ad q" and "l \<le> q \<Longrightarrow> \<not> k < ad l" and "MIN_u64 k (ad l) = ad (min q l)"
proof -
  let ?n = "p div 2 ^ 27 + 1"
  have n: "?n \<le> 256" using p l by (simp add: div_less_iff_less_mult Suc_le_eq)
  have "unat (idx (ad p) 4) = p div 2 ^ 27" using p l by (intro idx_ad(4)) simp
  then have ix: "idx (ad p) 4 + 1 = of_nat ?n" using n by (simp add: word_unat_eq_iff unat_word_ariths unat_of_nat)
  have low: "k = ad q" if "?n < 256"
  proof -
    have "(of_nat ?n :: u64) < 256" using that by (simp add: word_less_nat_alt unat_of_nat del: of_nat_add of_nat_Suc)
    then have "k = push_bit 39 (of_nat ?n)"
      unfolding k_def ix by (simp add: PML_INDEX_TO_ADDR_def PML_INDEX_TO_ADDR_NO_WRAP_def)
    then have "unat k = q * 4096" using that
      by (simp add: q_def push_bit_eq_mult unat_word_ariths unat_of_nat del: of_nat_add of_nat_Suc)
    then show ?thesis using that by (intro ad_eqI) (simp_all add: q_def)
  qed
  have high: "\<not> k < ad l" if "\<not> ?n < 256"
  proof -
    have "?n = 256" using that n by simp
    then have "idx (ad p) 4 + 1 = 256" using ix by simp
    then have "k = PML_INDEX_TO_ADDR 256 4" unfolding k_def by simp
    also have "\<dots> = 0xFFFF800000000000" by code_simp
    finally show ?thesis using l by (simp add: word_less_nat_alt unat_ad)
  qed
  show a: "q < l \<Longrightarrow> k = ad q" using low l by (simp add: q_def)
  show b: "l \<le> q \<Longrightarrow> \<not> k < ad l"
    by (cases "?n < 256") (use high low l in \<open>simp_all add: q_def ad_less_iff\<close>)
  show "MIN_u64 k (ad l) = ad (min q l)"
  proof (cases "q < l")
    case True
    then show ?thesis using a l by (simp add: MIN_u64_def ad_less_iff min_def)
  next
    case False
    then show ?thesis using b by (simp add: MIN_u64_def min_def)
  qed
qed

lemma next_frame_cases:
  "present (get_entry t f i) \<Longrightarrow> next_frame t f i = Some (entry_pfn (get_entry t f i))"
  "\<not> present (get_entry t f i) \<Longrightarrow> next_frame t f i = None"
  by (simp_all add: next_frame_def)

lemma find_pages_loop_correct:
  assumes "searched t s l (unat m) p c" and "0 < c \<longrightarrow> rs = ad (p - c)" and "p \<le> 2 ^ 36"
    and l: "l \<le> 2 ^ 35" and m: "unat m \<le> 512"
  shows "find_pages_loop t (ad l) m PAGE_SIZE (ad p) rs (of_nat c) = Some (first_region t s l (unat m))"
  using assms(1-3)
proof (induction "l - p" arbitrary: p rs c rule: less_induct)
  case less
  have lt: "ad p < ad l \<longleftrightarrow> p < l" using less.prems(3) l by (intro ad_less_iff) simp_all
  show ?case
  proof (cases "p < l")
    case False
    then show ?thesis using lt searched_end [OF less.prems(1)] by (subst find_pages_loop.simps) simp
  next
    case p: True
    let ?R = "Some (first_region t s l (unat m))"
    have p36: "p < 2 ^ 36" using p l by simp
    have IH: "find_pages_loop t (ad l) m PAGE_SIZE (ad q) rs' (of_nat c') = ?R"
      if "p < q" "q \<le> 2 ^ 36" "searched t s l (unat m) q c'" "0 < c' \<longrightarrow> rs' = ad (q - c')" for q rs' c'
      using less.hyps [of q c' rs'] that p by simp
    have c: "(of_nat c = (0 :: u64)) = (c = 0)" using less.prems(1) m by (intro of_nat_small(1)) (simp add: searched_def)
    have rs: "(if (of_nat c :: u64) = 0 then ad p else rs) = ad (p - c)" using less.prems(2) c by simp
    have go: "ad p < ad l" using lt p by simp
    let ?e4 = "get_entry t (pt_pml4 t) (idx (ad p) 4)"
    let ?e3 = "get_entry t (entry_pfn ?e4) (idx (ad p) 3)"
    let ?e2 = "get_entry t (entry_pfn ?e3) (idx (ad p) 2)"
    have skip: "(if m \<le> of_nat (c + (min q l - p)) then Some (Some (ad (p - c)))
        else find_pages_loop t (ad l) m PAGE_SIZE k (ad (p - c)) (of_nat (c + (min q l - p)))) = ?R"
      if "q = (p div K + 1) * K" "0 < K" "\<And>j. j < 2 ^ 36 \<Longrightarrow> j div K = p div K \<Longrightarrow> page_free t j"
        "q < l \<Longrightarrow> k = ad q" "l \<le> q \<Longrightarrow> \<not> k < ad l" for q k K
    proof (rule find_skip [OF less.prems(1) p _ _ l m])
      show q: "p < q" using that(1,2) block_next by simp
      show "\<forall>j \<in> {p..<min q l}. page_free t j"
      proof
        fix j
        assume "j \<in> {p..<min q l}"
        then have "p \<le> j" "j < (p div K + 1) * K" "j < 2 ^ 36" using that(1) l by simp_all
        then show "page_free t j" using that(3) block [OF that(2)] by simp
      qed
      show "find_pages_loop t (ad l) m PAGE_SIZE (ad q) rs' (of_nat c') = ?R"
        if "searched t s l (unat m) q c'" "0 < c' \<longrightarrow> rs' = ad (q - c')" "q < l" for rs' c'
        using IH [OF q _ that(1,2)] that(3) l by simp
    qed (fact that(4,5))+
    show ?thesis
    proof (cases "present ?e4")
      case e4: False
      let ?q = "(p div 2 ^ 27 + 1) * 2 ^ 27"
      have d: "of_nat c + (ad (min ?q l) - ad p) div PAGE_SIZE = (of_nat (c + (min ?q l - p)) :: u64)"
        using p l block_next [of "2 ^ 27" p] by (subst ad_div) simp_all
      show ?thesis
        by (subst find_pages_loop.simps)
          (simp only: go e4 rs Let_def next_pml4(3) [OF p l] d not_False_eq_True not_True_eq_False if_True if_False
            skip [OF refl _ page_free_absent(1) [OF _ p36 next_frame_cases(2) [OF e4]] next_pml4(1,2) [OF p l]]
            zero_less_power zero_less_numeral)
    next
      case e4: True
      have table: "(let skipTo = ROUND_UP (ad p + 1) size;
              s = skip_unmapped (ad l) PAGE_SIZE skipTo (ad p) rs (of_nat c)
          in if snd s \<ge> m then Some (Some (fst s))
             else find_pages_loop t (ad l) m PAGE_SIZE skipTo (fst s) (snd s)) = ?R"
        if "unat size = 4096 * K" "0 < K" "K \<le> 2 ^ 27" "\<And>j. j < 2 ^ 36 \<Longrightarrow> j div K = p div K \<Longrightarrow> page_free t j" for size K
      proof -
        let ?q = "(p div K + 1) * K"
        have q: "?q \<le> 2 ^ 36" using le_trans [of ?q "p + K" "2 ^ 36"] that(3) p l by simp
        have up: "ROUND_UP (ad p + 1) size = ad ?q" by (rule ROUND_UP_next [OF p36 that(1-3)])
        note sk = skip_unmapped_correct [OF less.prems(1) p block_next [OF that(2)] l q less.prems(2) m]
        have "l \<le> ?q \<Longrightarrow> \<not> ad ?q < ad l" using ad_less_iff [of ?q l] q l by simp
        from skip [OF refl that(2,4) refl this] show ?thesis unfolding up Let_def sk fst_conv snd_conv by blast
      qed
      show ?thesis
      proof (cases "present ?e3")
        case e3: False
        have "unat PML3_SIZE = 4096 * 2 ^ 18" by (simp add: PML3_SIZE_def)
        note t3 = table [OF this _ _ page_free_absent(2) [OF _ p36 next_frame_cases(1) [OF e4] next_frame_cases(2) [OF e3]]]
        show ?thesis
          by (subst find_pages_loop.simps) (use t3 go e4 e3 in \<open>simp add: Let_def\<close>)
      next
        case e3: True
        show ?thesis
        proof (cases "present ?e2")
          case e2: False
          have "unat PML2_SIZE = 4096 * 2 ^ 9" by (simp add: PML2_SIZE_def)
          note t2 = table [OF this _ _ page_free_absent(3) [OF _ p36 next_frame_cases(1) [OF e4]
              next_frame_cases(1) [OF e3] next_frame_cases(2) [OF e2]]]
          show ?thesis
            by (subst find_pages_loop.simps) (use t2 go e4 e3 e2 in \<open>simp add: Let_def\<close>)
        next
          case e2: True
          have fr: "frame t (path (ad p)) = Some (entry_pfn ?e2)"
            using e4 e3 e2 by (simp add: frame_path next_frame_cases(1))
          let ?B = "p div 512" and ?i = "p mod 512"
          have B: "?B * 512 + 512 \<le> 2 ^ 36" using p l div_times_less_eq_dividend [of p 512] by simp
          have st: "scanned t s l (unat m) (ad p, rs, of_nat c) (?B * 512 + ?i)"
            using less.prems(1,2) by (auto simp: scanned_def)
          have ix: "unat (idx (ad p) 1) = ?i" by (rule idx_ad(1) [OF p36])
          note scan = scan_pml1_correct [OF fr refl p36 m l B _ st]
          let ?scan = "scan_pml1 t (entry_pfn ?e2) (ad l) m PAGE_SIZE [?i..<512] (ad p, rs, of_nat c)"
          have eq: "find_pages_loop t (ad l) m PAGE_SIZE (ad p) rs (of_nat c) =
              (case ?scan of Inl a \<Rightarrow> Some (Some a) | Inr (x, rs', k) \<Rightarrow> find_pages_loop t (ad l) m PAGE_SIZE x rs' k)"
            by (subst find_pages_loop.simps) (use go e4 e3 e2 ix in \<open>simp add: Let_def PML_INDEX_AMOUNT_def del: One_nat_def\<close>)
          show ?thesis
          proof (cases ?scan)
            case (Inl a)
            then show ?thesis using scan unfolding eq by simp
          next
            case (Inr st')
            then obtain p' where p': "scanned t s l (unat m) st' p'" "p' \<le> ?B * 512 + 512" "l \<le> p' \<or> p' = ?B * 512 + 512"
              using scan by auto
            then obtain rs' c' where st': "st' = (ad p', rs', of_nat c')" "searched t s l (unat m) p' c'"
              "0 < c' \<longrightarrow> rs' = ad (p' - c')" by (cases st') (auto simp: scanned_def)
            have "p < ?B * 512 + 512" using block_next [of 512 p] by simp
            then have "p < p'" using p'(3) p by auto
            from IH [OF this _ st'(2,3)] show ?thesis unfolding eq Inr st'(1) using p'(2) B by simp
          qed
        qed
      qed
    qed
  qed
qed

lemma find_unmapped_small:
  assumes "unat amount < 512" and "unat startAddr < 2 ^ 47"
  shows "page_table_find_unmapped_region startAddr limit amount alignment t =
    find_pages_loop t limit amount (if alignment < PAGE_SIZE then PAGE_SIZE else alignment) (ad (unat startAddr div 4096)) 0 0"
proof -
  let ?s = "unat startAddr div 4096"
  have s: "?s < 2 ^ 35" using assms(2) by (simp add: div_less_iff_less_mult)
  have "unat (ROUND_DOWN startAddr PAGE_SIZE) = ?s * 4096"
    using s by (simp add: ROUND_DOWN_def PAGE_SIZE_def unat_word_ariths(2) unat_div)
  then have start: "ROUND_DOWN startAddr PAGE_SIZE = ad ?s" using s by (intro ad_eqI) simp_all
  have "unat (PML3_SIZE div PAGE_SIZE) = 262144" "unat (PML2_SIZE div PAGE_SIZE) = 512"
    by (simp_all add: PML3_SIZE_def PML2_SIZE_def PAGE_SIZE_def unat_div)
  then have small: "\<not> PML3_SIZE div PAGE_SIZE \<le> amount" "\<not> PML2_SIZE div PAGE_SIZE \<le> amount"
    using assms(1) by (simp_all add: word_le_nat_alt)
  then show ?thesis by (simp add: page_table_find_unmapped_region_def start)
qed

lemma page_table_find_unmapped_region_result:
  assumes "0 < unat amount" and "unat amount < 512" and "alignment \<le> PAGE_SIZE"
    and "e \<le> 2 ^ 35" and "unat startAddr < 2 ^ 47"
  shows "page_table_find_unmapped_region startAddr (ad e) amount alignment t =
           Some (first_region t (unat startAddr div 4096) e (unat amount))"
proof -
  let ?s = "unat startAddr div 4096"
  have s: "?s < 2 ^ 35" using assms(5) by (simp add: div_less_iff_less_mult)
  have al: "(if alignment < PAGE_SIZE then PAGE_SIZE else alignment) = PAGE_SIZE" using assms(3) by auto
  have "searched t ?s e (unat amount) ?s 0" using assms(1) by (auto simp: searched_def region_def)
  from find_pages_loop_correct [OF this _ _ assms(4), of 0] show ?thesis
    using s assms(2) unfolding find_unmapped_small [OF assms(2,5)] al by simp
qed

text \<open>Below an absent PML4 entry the alignment is not looked at.\<close>

lemma find_unmapped_absent_pml4:
  assumes "unat amount < 512" and "e \<le> 2 ^ 35" and "unat startAddr < 2 ^ 47"
  defines "p \<equiv> unat startAddr div 4096"
  assumes "\<not> present (get_entry t (pt_pml4 t) (idx (ad p) 4))" and "p < e" and "p + unat amount \<le> min ((p div 2 ^ 27 + 1) * 2 ^ 27) e"
  shows "page_table_find_unmapped_region startAddr (ad e) amount alignment t = Some (Some (ad p))"
proof -
  let ?q = "min ((p div 2 ^ 27 + 1) * 2 ^ 27) e"
  have lt: "ad p < ad e" using assms(2,6) by (simp add: ad_less_iff)
  have d: "(ad ?q - ad p) div PAGE_SIZE = of_nat (?q - p)"
    using assms(2,6) block_next [of "2 ^ 27" p] by (intro ad_div) simp_all
  have "?q - p < 2 ^ 64" using assms(2) by simp
  moreover have "unat amount \<le> ?q - p" using assms(7) by linarith
  ultimately have "amount \<le> of_nat (?q - p)" by (simp only: word_le_nat_alt of_nat_small(2) mod_less)
  then show ?thesis
    unfolding find_unmapped_small [OF assms(1,3), folded p_def]
    by (subst find_pages_loop.simps)
      (simp only: lt assms(5) Let_def next_pml4(3) [OF assms(6,2)] d not_False_eq_True not_True_eq_False if_True if_False add_0_left refl)
qed

end
