(* ===== verification/Paging_Properties.thy ===== *)
theory Paging_Properties
  imports Paging_Search Pmm_Properties
begin

text \<open>
  The properties of the page tables of \<^verbatim>\<open>include/kernel/mem/paging.h\<close>, with the page allocator of
  \<^verbatim>\<open>src/kernel/mem/pmm.c\<close> behind them as \<^verbatim>\<open>src/kernel/mem/space.c\<close> sets them up.
\<close>

unbundle bit_operations_syntax

section \<open>The page allocator as source of frames\<close>

text \<open>The callbacks of a table of the kernel; the state \<open>None\<close> is a kernel that panicked.\<close>

definition pmm_alloc_page :: "pmm option \<Rightarrow> (u64 \<times> pmm option) option" where
  "pmm_alloc_page m =
     (case m of
        None \<Rightarrow> None
      | Some s \<Rightarrow>
          (case pmm_alloc_pages 1 s of
             Some (Some (pfn # _), s') \<Rightarrow> Some (pfn, Some s')
           | _ \<Rightarrow> None))"

definition pmm_free_pages_cb :: "u64 list \<Rightarrow> pmm option \<Rightarrow> pmm option" where
  "pmm_free_pages_cb pfns m = m \<bind> pmm_free_pages pfns"

definition mm_inv :: "pmm option \<Rightarrow> u64 set \<Rightarrow> bool" where
  "mm_inv m F \<longleftrightarrow> (\<exists>s. m = Some s \<and> pmm_inv s F)"

interpretation kernel_frames: frame_source pmm_alloc_page mm_inv
proof
  fix m F f m'
  assume "mm_inv m F" and a: "pmm_alloc_page m = Some (f, m')"
  then obtain s where s: "m = Some s" "pmm_inv s F" by (auto simp: mm_inv_def)
  show "f \<in> F \<and> mm_inv m' (F - {f})"
    using pmm_alloc_pages_cases [OF s(2), of 1] a s(1)
    by (auto simp: pmm_alloc_page_def mm_inv_def length_Suc_conv split: if_splits)
next
  fix m F
  assume "mm_inv m F" and a: "pmm_alloc_page m = None"
  then obtain s where s: "m = Some s" "pmm_inv s F" by (auto simp: mm_inv_def)
  have "\<not> 1 \<le> card F"
    using pmm_alloc_pages_cases [OF s(2), of 1] a s(1)
    by (auto simp: pmm_alloc_page_def length_Suc_conv split: if_splits)
  then have "card F = 0" by linarith
  then show "F = {}" by simp
qed

abbreviation kernel_table :: "pmm option page_table \<Rightarrow> u64 set \<Rightarrow> bool" where
  "kernel_table \<equiv> pt_ok pmm_alloc_page mm_inv"

text \<open>Freeing pages in chunks is freeing them one after the other.\<close>

lemma freed_pmm:
  assumes "pt_freePages t = pmm_free_pages_cb" and "freed t chunks mm"
  shows "mm = pt_mm t \<bind> for_each pmm_free_unlocked (concat chunks)"
proof -
  have "foldl (\<lambda>mm c. pmm_free_pages_cb c mm) m chunks = m \<bind> for_each pmm_free_unlocked (concat chunks)" for m
    by (induction chunks arbitrary: m)
      (auto simp: pmm_free_pages_cb_def pmm_free_pages_def for_each_append split: bind_split)
  then show ?thesis using assms by (simp add: freed_def)
qed

section \<open>Mapping\<close>

lemma PHYS_TO_PFN_less: "unat (PHYS_TO_PFN a) < 2 ^ 52"
  using unat_u64_less [of a] by (simp add: PHYS_TO_PFN_def PAGE_SIZE_def unat_div div_less_iff_less_mult)

lemma bit_set_pfn_low: "n < 12 \<Longrightarrow> bit (set_pfn pfn raw) n = bit raw n"
  by (simp add: set_pfn_def bit_set_field)

lemma bit_set_callback_low: "n < 11 \<Longrightarrow> bit (set_callback c raw) n = bit raw n"
  by (simp add: set_callback_def bit_set_field)

lemma mapped_entry:
  assumes "unat c < 256" and "unat pfn < 2 ^ 40" and "e = set_callback c (set_pfn pfn flags)"
  shows "entry_pfn e = pfn" and "entry_callback e = c" and "k < 11 \<Longrightarrow> bit e k = bit flags k"
  using assms by (simp_all add: entry_pfn_set_pfn entry_callback_set_callback bit_set_pfn_low bit_set_callback_low)

lemma page_pfn:
  assumes "unat phys + unat n * 4096 \<le> 2 ^ 52" and "i < unat n"
  shows "unat (phys + of_nat i * PAGE_SIZE) = unat phys + i * 4096" and "unat (PHYS_TO_PFN (phys + of_nat i * PAGE_SIZE)) < 2 ^ 40"
proof -
  have "i * 4096 < unat n * 4096" using assms(2) by simp
  then have b: "unat phys + i * 4096 < 2 ^ 64" "unat phys + i * 4096 < 2 ^ 52" using assms(1) by simp_all
  then show e: "unat (phys + of_nat i * PAGE_SIZE) = unat phys + i * 4096"
    by (simp add: unat_word_ariths PAGE_SIZE_def unat_of_nat mod_add_right_eq mod_mult_left_eq)
  show "unat (PHYS_TO_PFN (phys + of_nat i * PAGE_SIZE)) < 2 ^ 40"
    using b(2) e by (simp add: PHYS_TO_PFN_def PAGE_SIZE_def unat_div div_less_iff_less_mult)
qed

lemma page_table_map_result:
  assumes "kernel_table t F" and "unat n \<le> 2 ^ 36" and "unat phys + unat n * 4096 \<le> 2 ^ 52" and "unat c < 256"
  shows "\<exists>b t' F'. page_table_map a phys n flags c t = (b, t') \<and> kernel_table t' F' \<and> F' \<subseteq> F \<and>
           (\<forall>x. \<not> in_range a {0..<unat n} x \<longrightarrow> translate t' x = translate t x) \<and>
           (b \<longrightarrow> (\<forall>i < unat n. translate t (page_at a i) = None \<and>
              (\<exists>e. translate t' (page_at a i) = Some e \<and> entry_pfn e = PHYS_TO_PFN (page_at phys i) \<and>
                   entry_callback e = c \<and> (\<forall>k < 11. bit e k = bit flags k)))) \<and>
           (\<not> b \<longrightarrow> \<not> present flags \<or> F' = {} \<or> (\<exists>i < unat n. translate t (page_at a i) \<noteq> None))"
proof (cases "present flags")
  case False
  then show ?thesis using assms(1) PML_PRESENT_bit [of flags] by (auto simp: page_table_map_def)
next
  case True
  let ?pfns = "List.map (\<lambda>i. PHYS_TO_PFN (page_at phys i)) [0..<unat n]"
  have len: "length ?pfns \<le> 2 ^ 36" using assms(2) by simp
  obtain b t' F' where r: "map_loop flags c a ?pfns (PAGE_TABLE_TRAVERSE_CREATE, t) = (b, t')"
    "kernel_table t' F'" "F' \<subseteq> F" "\<forall>x. \<not> in_range a {0..<length ?pfns} x \<longrightarrow> translate t' x = translate t x"
    "b \<longrightarrow> (\<forall>i < length ?pfns. translate t (page_at a i) = None \<and>
       translate t' (page_at a i) = Some (set_callback c (set_pfn (?pfns ! i) flags)))"
    "\<not> b \<longrightarrow> F' = {} \<or> (\<exists>i < length ?pfns. translate t (page_at a i) \<noteq> None)"
    using kernel_frames.map_loop_correct [OF assms(1) no_cache_create True len, of c a] by blast
  have l: "length ?pfns = unat n" and nth: "i < unat n \<Longrightarrow> ?pfns ! i = PHYS_TO_PFN (page_at phys i)" for i by simp_all
  have "page_table_map a phys n flags c t = (b, t')" using True r(1) PML_PRESENT_bit [of flags] by (simp add: page_table_map_def)
  moreover have "b \<longrightarrow> (\<forall>i < unat n. translate t (page_at a i) = None \<and>
     (\<exists>e. translate t' (page_at a i) = Some e \<and> entry_pfn e = PHYS_TO_PFN (page_at phys i) \<and>
          entry_callback e = c \<and> (\<forall>k < 11. bit e k = bit flags k)))"
  proof (intro impI allI)
    fix i
    assume b and i: "i < unat n"
    then have "translate t (page_at a i) = None"
      "translate t' (page_at a i) = Some (set_callback c (set_pfn (PHYS_TO_PFN (page_at phys i)) flags))"
      using r(5) nth unfolding l by simp_all
    then show "translate t (page_at a i) = None \<and>
        (\<exists>e. translate t' (page_at a i) = Some e \<and> entry_pfn e = PHYS_TO_PFN (page_at phys i) \<and>
          entry_callback e = c \<and> (\<forall>k < 11. bit e k = bit flags k))"
      using mapped_entry [OF assms(4) page_pfn(2) [OF assms(3) i] refl] by blast
  qed
  ultimately show ?thesis using r(2-4,6) unfolding l by blast
qed

lemma page_offset:
  assumes "x mod PAGE_SIZE = 0" and "r < 4096"
  shows "pageno (x + of_nat r) = pageno x" and "(x + of_nat r) mod PAGE_SIZE = of_nat r"
    and "PFN_TO_PHYS (PHYS_TO_PFN x) = x"
proof -
  have "unat (x mod PAGE_SIZE) = unat x mod 4096" by (simp add: unat_mod PAGE_SIZE_def)
  then have m: "unat x mod 4096 = 0" using assms(1) by simp
  then obtain k where k: "unat x = k * 4096" by (auto elim: dvdE simp: mod_eq_0_iff_dvd mult.commute)
  have "k * 4096 < 2 ^ 64" using unat_u64_less [of x] k by simp
  then have "k * 4096 + r < 2 ^ 64" using assms(2) by simp
  then have u: "unat (x + of_nat r) = k * 4096 + r"
    using k assms(2) by (simp add: unat_word_ariths unat_of_nat)
  show "pageno (x + of_nat r) = pageno x" using assms(2) by (simp add: pageno_def u k)
  show "(x + of_nat r) mod PAGE_SIZE = of_nat r"
    using assms(2) by (simp add: word_unat_eq_iff unat_mod PAGE_SIZE_def u unat_of_nat)
  show "PFN_TO_PHYS (PHYS_TO_PFN x) = x"
    by (simp add: word_unat_eq_iff PFN_TO_PHYS_def PHYS_TO_PFN_def PAGE_SIZE_def unat_word_ariths unat_div k)
      (use k unat_u64_less [of x] in simp)
qed

lemma aligned_page: "x mod PAGE_SIZE = 0 \<Longrightarrow> page_at x i mod PAGE_SIZE = 0"
proof -
  assume "x mod PAGE_SIZE = 0"
  moreover have "unat (x mod PAGE_SIZE) = unat x mod 4096" by (simp add: unat_mod PAGE_SIZE_def)
  ultimately have "unat x mod 4096 = 0" by simp
  then have "(unat x + k * 4096) mod 2 ^ 64 mod 4096 = 0" for k by (subst mod_mod_cancel) simp_all
  then show ?thesis
    by (simp add: word_unat_eq_iff unat_mod PAGE_SIZE_def unat_word_ariths mod_add_right_eq)
qed

text \<open>C16. \<^verbatim>\<open>page_table_map\<close> on a table of the kernel: the free frames and the tables stay
  separate, pages outside the range keep their translation, and if it returns 0 then every page of
  the range was unmapped and now translates to its frame, with the flags of the bits 0 to 10 and
  the callback given. It fails only for flags without \<^verbatim>\<open>PML_PRESENT\<close>, a page already mapped or no free frame left.\<close>

theorem page_table_map_correct:
  assumes "kernel_table t F" and "unat n \<le> 2 ^ 36" and "unat phys + unat n * 4096 \<le> 2 ^ 52" and "unat c < 256"
  shows "\<exists>b t' F'. page_table_map a phys n flags c t = (b, t') \<and> kernel_table t' F' \<and> F' \<subseteq> F \<and>
           (\<forall>x. \<not> in_range a {0..<unat n} x \<longrightarrow> translate t' x = translate t x) \<and>
           (b \<longrightarrow> (\<forall>i < unat n. translate t (page_at a i) = None \<and>
              (\<exists>e. translate t' (page_at a i) = Some e \<and> entry_pfn e = PHYS_TO_PFN (page_at phys i) \<and>
                   entry_callback e = c \<and> (\<forall>k < 11. bit e k = bit flags k)))) \<and>
           (\<not> b \<longrightarrow> \<not> present flags \<or> F' = {} \<or> (\<exists>i < unat n. translate t (page_at a i) \<noteq> None))"
  by (rule page_table_map_result [OF assms])

text \<open>Addresses in a range that was just mapped resolve to the physical memory they were mapped
  to, byte by byte.\<close>

theorem page_table_map_get_phys_addr:
  assumes "kernel_table t F" and "unat n \<le> 2 ^ 36" and "unat phys + unat n * 4096 \<le> 2 ^ 52" and "unat c < 256"
    and "a mod PAGE_SIZE = 0" and "phys mod PAGE_SIZE = 0"
    and "page_table_map a phys n flags c t = (True, t')" and "d < unat n * 4096"
  shows "page_table_get_phys_addr (a + of_nat d) t' = (Some (phys + of_nat d), t')"
proof -
  let ?i = "d div 4096" and ?r = "d mod 4096"
  have i: "?i < unat n" using assms(8) by (simp add: div_less_iff_less_mult)
  have r: "?r < 4096" by simp
  have split: "x + of_nat d = page_at x ?i + of_nat ?r" for x :: u64
  proof -
    have "d = ?i * 4096 + ?r" by simp
    then have "(of_nat d :: u64) = of_nat ?i * 4096 + of_nat ?r" by (metis of_nat_add of_nat_mult of_nat_numeral)
    then show ?thesis by (simp add: PAGE_SIZE_def)
  qed
  obtain e where e: "translate t' (page_at a ?i) = Some e" "entry_pfn e = PHYS_TO_PFN (page_at phys ?i)"
    using page_table_map_result [OF assms(1-4), of a flags] assms(7) i by auto
  note pa = page_offset [OF aligned_page [OF assms(5)] r] and pp = page_offset [OF aligned_page [OF assms(6)] r]
  have "translate t' (a + of_nat d) = Some e" 
    unfolding split translate_pageno [OF pa(1)] by (rule e(1))
  then show ?thesis using pp(3) pa(2) e(2) unfolding get_phys_addr split by simp
qed

section \<open>Unmapping and clearing\<close>

lemma tlb_ops:
  "\<exists>ops. tlb_invalidate a n t = t\<lparr>pt_tlb := ops @ pt_tlb t\<rparr> \<and>
     (\<forall>i < unat n. Flush \<in> set ops \<or> Invlpg (page_at a i) \<in> set ops)"
proof -
  let ?ops = "if n = 0 then [] else if n > 16 then [Flush] else rev (List.map (\<lambda>i. Invlpg (page_at a i)) [0..<unat n])"
  have "tlb_invalidate a n t = t\<lparr>pt_tlb := ?ops @ pt_tlb t\<rparr>" by (simp add: tlb_invalidate_def)
  moreover have "\<forall>i < unat n. Flush \<in> set ?ops \<or> Invlpg (page_at a i) \<in> set ?ops" by auto
  ultimately show ?thesis by blast
qed

lemma tlb_update [simp]:
  "frame (t\<lparr>pt_tlb := l\<rparr>) p = frame t p" "frames_inv (t\<lparr>pt_tlb := l\<rparr>) F = frames_inv t F"
  "leaf (t\<lparr>pt_tlb := l\<rparr>) b = leaf t b" "translate (t\<lparr>pt_tlb := l\<rparr>) b = translate t b"
  "same_frames t' (t\<lparr>pt_tlb := l\<rparr>) = same_frames t' t"
proof -
  have "next_frame (t\<lparr>pt_tlb := l\<rparr>) g i = next_frame t g i" for g i by (simp add: next_frame_def get_entry_def)
  then show f: "frame (t\<lparr>pt_tlb := l\<rparr>) p = frame t p" for p by (simp add: frame_def)
  then show "frames_inv (t\<lparr>pt_tlb := l\<rparr>) F = frames_inv t F" by (simp add: frames_inv_def)
  show l: "leaf (t\<lparr>pt_tlb := l\<rparr>) b = leaf t b" by (simp add: leaf_def f get_entry_def)
  show "translate (t\<lparr>pt_tlb := l\<rparr>) b = translate t b" by (simp add: translate_def l)
  show "same_frames t' (t\<lparr>pt_tlb := l\<rparr>) = same_frames t' t" by (simp add: same_frames_def f)
qed

lemma page_table_unmap_result:
  assumes "frames_inv t F"
  obtains ops where "frames_inv (page_table_unmap a n t) F" "same_frames t (page_table_unmap a n t)"
    "pt_mm (page_table_unmap a n t) = pt_mm t" "pt_tlb (page_table_unmap a n t) = ops @ pt_tlb t"
    "\<forall>i < unat n. Flush \<in> set ops \<or> Invlpg (page_at a i) \<in> set ops"
    "\<And>b. leaf (page_table_unmap a n t) b =
       (if in_range a {0..<unat n} b then map_option clear_present (leaf t b) else leaf t b)"
proof -
  obtain t1 where t1: "unmap_loop a [0..<unat n] (PAGE_TABLE_TRAVERSE_CREATE, t) = t1" "frames_inv t1 F"
    "same_frames t t1" "pt_mm t1 = pt_mm t" "pt_tlb t1 = pt_tlb t"
    "\<forall>b. leaf t1 b = (if in_range a {0..<unat n} b then map_option clear_present (leaf t b) else leaf t b)"
    using unmap_loop_correct [OF no_cache_create assms, of a "[0..<unat n]"] by auto
  obtain ops where o: "tlb_invalidate a n t1 = t1\<lparr>pt_tlb := ops @ pt_tlb t1\<rparr>"
    "\<forall>i < unat n. Flush \<in> set ops \<or> Invlpg (page_at a i) \<in> set ops" using tlb_ops by blast
  have eq: "page_table_unmap a n t = t1\<lparr>pt_tlb := ops @ pt_tlb t\<rparr>" using t1(1,5) o(1) by (simp add: page_table_unmap_def)
  show thesis by (rule that [of ops]) (use t1 o(2) in \<open>simp_all add: eq\<close>)
qed

text \<open>C17. \<^verbatim>\<open>page_table_unmap\<close> removes the translation of the pages of the range and of no other,
  leaves the tables and the free frames alone, and invalidates every page of the range in the TLB.\<close>

theorem page_table_unmap_correct:
  assumes "frames_inv t F"
  shows "frames_inv (page_table_unmap a n t) F \<and> pt_mm (page_table_unmap a n t) = pt_mm t \<and>
    (\<forall>x. translate (page_table_unmap a n t) x = (if in_range a {0..<unat n} x then None else translate t x)) \<and>
    (\<exists>ops. pt_tlb (page_table_unmap a n t) = ops @ pt_tlb t \<and>
       (\<forall>i < unat n. Flush \<in> set ops \<or> Invlpg (page_at a i) \<in> set ops))"
proof -
  obtain ops where r: "frames_inv (page_table_unmap a n t) F" "pt_mm (page_table_unmap a n t) = pt_mm t"
    "pt_tlb (page_table_unmap a n t) = ops @ pt_tlb t"
    "\<forall>i < unat n. Flush \<in> set ops \<or> Invlpg (page_at a i) \<in> set ops"
    "\<And>b. leaf (page_table_unmap a n t) b =
       (if in_range a {0..<unat n} b then map_option clear_present (leaf t b) else leaf t b)"
    using page_table_unmap_result [OF assms, of a n] by metis
  have "translate (page_table_unmap a n t) x = (if in_range a {0..<unat n} x then None else translate t x)" for x
    using r(5) [of x] by (cases "leaf t x") (auto simp: translate_def)
  then show ?thesis using r(1-4) by blast
qed

text \<open>The frames owned by the entries of a range.\<close>

definition owned_leaves :: "'m page_table \<Rightarrow> u64 \<Rightarrow> nat \<Rightarrow> u64 list" where
  "owned_leaves t a n = concat (List.map (\<lambda>i. case leaf t (page_at a i) of
     None \<Rightarrow> [] | Some e \<Rightarrow> if owned e then [entry_pfn e] else []) [0..<n])"

lemma clear_present_fields: "owned (clear_present e) = owned e" "entry_pfn (clear_present e) = entry_pfn e"
proof -
  show "owned (clear_present e) = owned e" by (simp add: clear_present_def owned_def bit_unset_bit_iff)
  show "entry_pfn (clear_present e) = entry_pfn e"
    by (rule bit_word_eqI) (simp add: clear_present_def entry_pfn_def bit_get_field bit_unset_bit_iff)
qed

lemma in_range_page: "i < n \<Longrightarrow> in_range a {0..<n} (page_at a i)"
  by (auto simp: in_range_def)

lemma owned_frames_unmapped:
  assumes "\<And>b. leaf t' b = (if in_range a {0..<n} b then map_option clear_present (leaf t b) else leaf t b)"
  shows "owned_frames t' a [0..<n] = owned_leaves t a n"
  unfolding owned_frames_def owned_leaves_def assms
  by (intro arg_cong [of _ _ concat] map_cong refl)
    (auto simp: in_range_page clear_present_fields split: option.split)

text \<open>C18. \<^verbatim>\<open>page_table_unmap\<close> followed by \<^verbatim>\<open>page_table_clear\<close>, when the frames owned in the range are
  distinct and each is held once: every entry of the range is zero, exactly those frames return to the allocator, without
  a panic, and everything outside the range is as before. Every frame of the table itself stays in
  the table, also one whose entries are now all zero.\<close>

theorem page_table_unmap_clear_frees_owned:
  assumes "frames_inv t F" and "pt_mm t = Some s" and "pmm_inv s F" and "pt_freePages t = pmm_free_pages_cb"
    and "distinct (owned_leaves t a (unat n))" and "\<forall>p \<in> set (owned_leaves t a (unat n)). page_ref s p = Some 1"
    and "unat n \<le> 2 ^ 36"
  shows "let t' = page_table_clear a n (page_table_unmap a n t)
    in (\<exists>s'. pt_mm t' = Some s' \<and> pmm_inv s' (F \<union> set (owned_leaves t a (unat n)))) \<and>
       (\<forall>x. leaf t' x = (if in_range a {0..<unat n} x then map_option (\<lambda>_. 0) (leaf t x) else leaf t x)) \<and>
       (\<forall>p \<in> paths. frame t' p = frame t p)"
proof -
  let ?u = "page_table_unmap a n t" and ?own = "owned_leaves t a (unat n)"
  let ?t = "page_table_clear a n ?u"
  obtain u: "frames_inv ?u F" "same_frames t ?u" "pt_mm ?u = pt_mm t"
    "\<And>b. leaf ?u b = (if in_range a {0..<unat n} b then map_option clear_present (leaf t b) else leaf t b)"
    using page_table_unmap_result [OF assms(1), of a n] by metis
  note c = page_table_clear_correct [OF u(1) assms(7), of a]
  have fr: "pt_freePages ?u = pmm_free_pages_cb" using u(2) assms(4) by (simp add: same_frames_def)
  obtain chunks where "freed ?u chunks (pt_mm ?t)" "concat chunks = ?own"
    using c(4) owned_frames_unmapped [OF u(4)] by auto
  from freed_pmm [OF fr this(1)] this(2) have mm: "pt_mm ?t = for_each pmm_free_unlocked ?own s" using u(3) assms(2) by simp
  have "pmm_tracks s F {}" using assms(3) by (simp add: pmm_inv_tracks)
  from frees_tracks [OF this assms(5,6)] obtain s' where
    "for_each pmm_free_unlocked ?own s = Some s'" "pmm_tracks s' (F \<union> set ?own) {}" by blast
  then have "\<exists>s'. pt_mm ?t = Some s' \<and> pmm_inv s' (F \<union> set ?own)" using mm by (simp add: pmm_inv_tracks)
  moreover have "leaf ?t x = (if in_range a {0..<unat n} x then map_option (\<lambda>_. 0) (leaf t x) else leaf t x)" for x
    using c(3) [of x] u(4) [of x] by (cases "leaf t x") (simp_all add: clear_entry_def)
  moreover have "same_frames t ?t" by (rule same_frames_trans [OF u(2) c(2)])
  ultimately show ?thesis by (simp add: same_frames_def)
qed

section \<open>Changing flags\<close>

text \<open>C37. \<^verbatim>\<open>page_table_set_flags\<close> returns 0 exactly if no entry of an existing table in the range is
  absent. Then every page of the range keeps its frame and gets the flags; it is marked owned if the
  flags say so or if it \<^emph>\<open>or any page before it in the range\<close> was owned. Other pages do not change.\<close>

theorem page_table_set_flags_spreads_owned:
  assumes "frames_inv t F" and "unat n \<le> 2 ^ 36"
  shows "\<exists>ok t'. page_table_set_flags a n flags t = (ok, t') \<and> frames_inv t' F \<and>
    (\<forall>x. \<not> in_range a {0..<unat n} x \<longrightarrow> leaf t' x = leaf t x) \<and>
    (ok \<longleftrightarrow> (\<forall>i < unat n. \<forall>e. leaf t (page_at a i) = Some e \<longrightarrow> present e)) \<and>
    (ok \<longrightarrow> (\<forall>i < unat n. \<forall>e. leaf t (page_at a i) = Some e \<longrightarrow>
       (\<exists>e'. leaf t' (page_at a i) = Some e' \<and> entry_pfn e' = entry_pfn e \<and> present e' = present flags \<and>
          (owned e' \<longleftrightarrow> owned flags \<or> (\<exists>j \<le> i. \<exists>d. leaf t (page_at a j) = Some d \<and> owned d)))))"
proof -
  have bound: "\<forall>i \<in> set [0..<unat n]. i < 2 ^ 36" using assms(2) by auto
  obtain ok t1 where r: "set_flags_loop a [0..<unat n] flags (PAGE_TABLE_TRAVERSE_CREATE, t) = (ok, t1)" "frames_inv t1 F"
    "\<forall>b. \<not> in_range a (set [0..<unat n]) b \<longrightarrow> leaf t1 b = leaf t b"
    "ok \<longleftrightarrow> (\<forall>i \<in> set [0..<unat n]. \<forall>e. leaf t (page_at a i) = Some e \<longrightarrow> present e)"
    "ok \<longrightarrow> (\<forall>k < length [0..<unat n]. leaf t1 (page_at a ([0..<unat n] ! k)) =
       map_option (with_flags (flags_after t a flags (set (take (Suc k) [0..<unat n])))) (leaf t (page_at a ([0..<unat n] ! k))))"
    using set_flags_loop_correct [OF no_cache_create assms(1) distinct_upt bound, of a flags] by blast
  let ?t = "if ok then tlb_invalidate a n t1 else t1"
  obtain ops where o: "tlb_invalidate a n t1 = t1\<lparr>pt_tlb := ops @ pt_tlb t1\<rparr>" using tlb_ops by blast
  have eq: "page_table_set_flags a n flags t = (ok, ?t)" using r(1) by (simp add: page_table_set_flags_def)
  have lf: "leaf ?t b = leaf t1 b" for b using o by simp
  have "\<exists>e'. leaf ?t (page_at a i) = Some e' \<and> entry_pfn e' = entry_pfn e \<and> present e' = present flags \<and>
      (owned e' \<longleftrightarrow> owned flags \<or> (\<exists>j \<le> i. \<exists>d. leaf t (page_at a j) = Some d \<and> owned d))"
    if ok "i < unat n" "leaf t (page_at a i) = Some e" for i e
  proof -
    have "set (take (Suc i) [0..<unat n]) = {..i}" using that(2) by (auto simp: take_upt)
    then have e': "leaf t1 (page_at a i) = Some (with_flags (flags_after t a flags {..i}) e)"
      using r(5) that by simp
    have "present (with_flags f e) = present f" for f
      by (simp add: present_def bit_or_iff bit_and_iff bit_not_iff bit_FLAGS_MASK)
    moreover have "present (flags_after t a flags {..i}) = present flags"
      by (simp add: flags_after_def present_def bit_or_iff PML_OWNED_def bit_push_bit_iff)
    moreover have "owned (flags_after t a flags {..i}) \<longleftrightarrow>
        owned flags \<or> (\<exists>j \<le> i. \<exists>d. leaf t (page_at a j) = Some d \<and> owned d)"
      by (auto simp: flags_after_def with_flags_bits)
    ultimately show ?thesis unfolding lf e' by (simp add: with_flags_bits)
  qed
  then show ?thesis unfolding eq using r(2-4) o lf by (intro exI [of _ ok] exI [of _ ?t]) auto
qed

section \<open>Finding unmapped regions\<close>

text \<open>C19. In the lower half, for fewer than 512 pages and an alignment of at most one page,
  \<^verbatim>\<open>page_table_find_unmapped_region\<close> terminates and returns the lowest region of that many unmapped pages between
  the page of the start address and the end address, or \<^verbatim>\<open>ERR\<close> if there is none. A larger alignment is not
  respected: below an absent PML4 entry the search returns the page of the start address, whatever the alignment is.\<close>

theorem page_table_find_unmapped_region_first:
  assumes "0 < unat amount" and "unat amount < 512" and "e \<le> 2 ^ 35" and "unat startAddr < 2 ^ 47"
  defines "p \<equiv> unat startAddr div 4096"
  shows "(alignment \<le> PAGE_SIZE \<longrightarrow>
      (\<exists>res. page_table_find_unmapped_region startAddr (ad e) amount alignment t = Some res \<and>
        (case res of
           None \<Rightarrow> \<forall>r. \<not> region t p e (unat amount) r
         | Some addr \<Rightarrow> \<exists>r. addr = ad r \<and> region t p e (unat amount) r \<and> (\<forall>r'. region t p e (unat amount) r' \<longrightarrow> r \<le> r')))) \<and>
    (\<not> present (get_entry t (pt_pml4 t) (PML_ADDR_TO_INDEX (ad p) 4)) \<and> p + unat amount \<le> min ((p div 2 ^ 27 + 1) * 2 ^ 27) e \<longrightarrow>
      page_table_find_unmapped_region startAddr (ad e) amount alignment t = Some (Some (ad p)))"
proof (intro conjI impI)
  assume "alignment \<le> PAGE_SIZE"
  from page_table_find_unmapped_region_result [where t = t, OF assms(1,2) this assms(3,4), folded p_def]
  show "\<exists>res. page_table_find_unmapped_region startAddr (ad e) amount alignment t = Some res \<and>
      (case res of
         None \<Rightarrow> \<forall>r. \<not> region t p e (unat amount) r
       | Some addr \<Rightarrow> \<exists>r. addr = ad r \<and> region t p e (unat amount) r \<and> (\<forall>r'. region t p e (unat amount) r' \<longrightarrow> r \<le> r'))"
    unfolding first_region_def by (auto intro!: exI [of _ "LEAST r. region t p e (unat amount) r"] intro: LeastI Least_le)
next
  assume "\<not> present (get_entry t (pt_pml4 t) (PML_ADDR_TO_INDEX (ad p) 4)) \<and> p + unat amount \<le> min ((p div 2 ^ 27 + 1) * 2 ^ 27) e"
  then show "page_table_find_unmapped_region startAddr (ad e) amount alignment t = Some (Some (ad p))"
    using find_unmapped_absent_pml4 [OF assms(2-4), folded p_def, of t alignment] assms(1) by simp
qed

section \<open>A concrete table\<close>

text \<open>Two pages are mapped: 0x40200000 to the frame 0, which it owns, and 0x40201000 to the frame 4.\<close>

definition empty_ptable :: "pmm option page_table" where
  "empty_ptable =
     \<lparr>pt_allocPage = pmm_alloc_page, pt_freePages = pmm_free_pages_cb, pt_pml4 = 16,
      pt_mem = (\<lambda>_. replicate PML_INDEX_AMOUNT 0), pt_mm = Some sample_pmm, pt_tlb = []\<rparr>"

definition sample_ptable :: "pmm option page_table" where
  "sample_ptable =
     set_entry 19 1 0x4001 (set_entry 19 0 0x201
       (set_entry 18 1 0x13007 (set_entry 17 1 0x12007 (set_entry 16 0 0x11007 empty_ptable))))"

lemma empty_ptable_inv: "frames_inv empty_ptable {1, 2, 17, 18, 19}"
proof -
  have only: "p = [] \<and> f = 16" if "p \<in> paths" "frame empty_ptable p = Some f" for p f
  proof (cases p rule: rev_cases)
    case Nil
    then show ?thesis using that by (simp add: empty_ptable_def)
  next
    case (snoc q i)
    then have "unat i < 512" using that(1) by (simp add: paths_snoc)
    then show ?thesis using that(2) snoc
      by (simp add: next_frame_def get_entry_def empty_ptable_def PML_INDEX_AMOUNT_def split: bind_splits)
  qed
  have len: "length (pt_mem empty_ptable f) = 512" for f by (simp add: empty_ptable_def PML_INDEX_AMOUNT_def)
  show ?thesis
    unfolding frames_inv_def
  proof (intro conjI allI impI)
    show "p = q" if "p \<in> paths \<and> q \<in> paths \<and> frame empty_ptable p = Some f \<and> frame empty_ptable q = Some f" for p q f
      using only that by blast
    show "f \<notin> {1, 2, 17, 18, 19}" if "p \<in> paths \<and> frame empty_ptable p = Some f" for p f
      using only [of p f] that by simp
  qed (simp_all add: len)
qed

lemma add_empty_ptable:
  assumes "frames_inv t F" and "p @ [i] \<in> paths" and "frame t p = Some f" and "\<not> present (get_entry t f i)"
    and "g \<in> F" and "present e" and "entry_pfn e = g" and "pt_mem t g = replicate PML_INDEX_AMOUNT 0"
  shows "frames_inv (set_entry f i e t) (F - {g})" and "frame (set_entry f i e t) (p @ [i]) = Some g"
proof -
  have "t\<lparr>pt_mm := pt_mm t, pt_mem := (pt_mem t)(g := replicate PML_INDEX_AMOUNT 0)\<rparr> = t"
    using assms(8) by (simp add: fun_upd_idem)
  with add_table(2) [OF assms(1-7), of "pt_mm t"] add_table(1) [OF assms(1-7) assms(2), of "pt_mm t"]
  show "frames_inv (set_entry f i e t) (F - {g})" "frame (set_entry f i e t) (p @ [i]) = Some g" by simp_all
qed

lemma sample_entries:
  "present 0x11007" "entry_pfn 0x11007 = 17" "present 0x12007" "entry_pfn 0x12007 = 18"
  "present 0x13007" "entry_pfn 0x13007 = 19"
  by code_simp+

lemma sample_ptable_inv: "frames_inv sample_ptable {1, 2}" "frame sample_ptable [0, 1, 1] = Some 19"
proof -
  let ?t1 = "set_entry 16 0 0x11007 empty_ptable" and ?z = "replicate PML_INDEX_AMOUNT (0 :: u64)"
  let ?t2 = "set_entry 17 1 0x12007 ?t1"
  let ?t3 = "set_entry 18 1 0x13007 ?t2"
  have z: "pt_mem empty_ptable f = ?z" "\<not> present (?z ! unat (0 :: u64))" "\<not> present (?z ! unat (1 :: u64))" for f
    by (simp_all add: empty_ptable_def PML_INDEX_AMOUNT_def)
  have p: "[] @ [0] \<in> paths" "[0] @ [1] \<in> paths" "[0, 1] @ [1] \<in> paths" by (simp_all add: paths_def)
  have "frame empty_ptable [] = Some 16" by (simp add: empty_ptable_def)
  note t1 = add_empty_ptable [OF empty_ptable_inv p(1) this _ _ sample_entries(1,2) z(1)]
  have t1: "frames_inv ?t1 {1, 2, 18, 19}" "frame ?t1 [0] = Some 17"
    using t1 z by (simp_all add: get_entry_def insert_Diff_if)
  note t2 = add_empty_ptable [OF t1(1) p(2) t1(2) _ _ sample_entries(3,4)]
  have t2: "frames_inv ?t2 {1, 2, 19}" "frame ?t2 [0, 1] = Some 18"
    using t2 z by (simp_all add: get_entry_def set_entry_def insert_Diff_if)
  note t3 = add_empty_ptable [OF t2(1) p(3) t2(2) _ _ sample_entries(5,6)]
  have t3: "frames_inv ?t3 {1, 2}" "frame ?t3 [0, 1, 1] = Some 19"
    using t3 z by (simp_all add: get_entry_def set_entry_def insert_Diff_if)
  have i: "path 0x40200000 = [0, 1, 1]" "idx 0x40200000 1 = 0" "path 0x40201000 = [0, 1, 1]" "idx 0x40201000 1 = 1"
    by code_simp+
  let ?t4 = "set_entry 19 (idx 0x40200000 1) 0x201 ?t3"
  have s: "sample_ptable = set_entry 19 (idx 0x40201000 1) 0x4001 ?t4" by (simp add: sample_ptable_def i del: One_nat_def)
  have f: "frame ?t3 (path 0x40200000) = Some 19" by (simp add: t3 i)
  have t4: "frames_inv ?t4 {1, 2}" by (rule set_leaf(1) [OF t3(1) f])
  have f4: "frame ?t4 [0, 1, 1] = Some 19"
    using frame_set_leaf [OF t3(1) f p(3), of "0x201"] t3(2) unfolding append.simps by (rule trans)
  then have f: "frame ?t4 (path 0x40201000) = Some 19" by (simp only: i)
  show "frames_inv sample_ptable {1, 2}" unfolding s by (rule set_leaf(1) [OF t4 f])
  show "frame sample_ptable [0, 1, 1] = Some 19"
    unfolding s using frame_set_leaf [OF t4 f p(3), of "0x4001"] f4 unfolding append.simps by (rule trans)
qed

lemma sample_kernel_table: "kernel_table sample_ptable {1, 2}"
  using sample_ptable_inv(1) sample_inv
  by (simp add: pt_ok_def mm_inv_def sample_ptable_def empty_ptable_def)

lemma sample_map: "fst (page_table_map 0x40202000 0x3000 1 PML_PRESENT 5 sample_ptable)"
  by code_simp

section \<open>Witnesses\<close>

theorem page_table_map_correct_witness:
  "\<exists>t'. page_table_map 0x40202000 0x3000 1 PML_PRESENT 5 sample_ptable = (True, t') \<and>
     (\<exists>e. translate t' 0x40202000 = Some e \<and> entry_pfn e = 3 \<and> entry_callback e = 5)"
proof -
  have p: "PHYS_TO_PFN 0x3000 = 3" by code_simp
  show ?thesis
    using page_table_map_correct [OF sample_kernel_table, of 1 "0x3000" 5 "0x40202000" PML_PRESENT] sample_map p by auto
qed

lemma sample_range: "in_range 0x40200000 {0..<1} 0x40200000" "\<not> in_range 0x40200000 {0..<1} 0x40201000"
proof -
  have "pageno 0x40200000 = 0x40200" "pageno 0x40201000 = 0x40201" by (simp_all add: pageno_def)
  then show "in_range 0x40200000 {0..<1} 0x40200000" "\<not> in_range 0x40200000 {0..<1} 0x40201000"
    by (auto simp: in_range_def)
qed

lemma sample_leaves: "leaf sample_ptable 0x40200000 = Some 0x201" "leaf sample_ptable 0x40201000 = Some 0x4001"
  by code_simp+

theorem page_table_unmap_correct_witness:
  "translate (page_table_unmap 0x40200000 1 sample_ptable) 0x40200000 = None \<and>
   translate (page_table_unmap 0x40200000 1 sample_ptable) 0x40201000 = Some 0x4001"
proof -
  have "translate sample_ptable 0x40201000 = Some 0x4001" by code_simp
  then show ?thesis
    using page_table_unmap_correct [OF sample_ptable_inv(1), of "0x40200000" 1] sample_range by simp
qed

lemma sample_owned: "owned_leaves sample_ptable 0x40200000 1 = [0]"
  by code_simp

theorem page_table_unmap_clear_frees_owned_witness:
  "\<exists>s'. pt_mm (page_table_clear 0x40200000 1 (page_table_unmap 0x40200000 1 sample_ptable)) = Some s' \<and>
     pmm_inv s' {0, 1, 2}"
proof -
  have mm: "pt_mm sample_ptable = Some sample_pmm" "pt_freePages sample_ptable = pmm_free_pages_cb"
    by (simp_all add: sample_ptable_def empty_ptable_def)
  have "page_ref sample_pmm 0 = Some 1" by (simp add: sample_pmm_def page_ref_def)
  then show ?thesis
    using page_table_unmap_clear_frees_owned [OF sample_ptable_inv(1) mm(1) sample_inv mm(2), of "0x40200000" 1] sample_owned
    by (simp add: Let_def insert_commute)
qed

theorem page_table_set_flags_spreads_owned_witness:
  "\<exists>t' e e'. page_table_set_flags 0x40200000 2 PML_PRESENT sample_ptable = (True, t') \<and>
     leaf sample_ptable 0x40201000 = Some e \<and> \<not> owned e \<and> leaf t' 0x40201000 = Some e' \<and> owned e'"
proof -
  have pages: "page_at 0x40200000 0 = 0x40200000" "page_at 0x40200000 1 = 0x40201000" by (simp_all add: PAGE_SIZE_def)
  have bits: "present 0x201" "present 0x4001" "owned 0x201" "\<not> owned 0x4001" by code_simp+
  have small: "unat (2 :: u64) \<le> 2 ^ 36" by simp
  have two: "i < unat (2 :: u64) \<longleftrightarrow> i = 0 \<or> i = 1" for i by auto
  obtain ok t' where r: "page_table_set_flags 0x40200000 2 PML_PRESENT sample_ptable = (ok, t')"
    "ok \<longleftrightarrow> (\<forall>i < unat (2 :: u64). \<forall>e. leaf sample_ptable (page_at 0x40200000 i) = Some e \<longrightarrow> present e)"
    "ok \<longrightarrow> (\<forall>i < unat (2 :: u64). \<forall>e. leaf sample_ptable (page_at 0x40200000 i) = Some e \<longrightarrow>
       (\<exists>e'. leaf t' (page_at 0x40200000 i) = Some e' \<and> entry_pfn e' = entry_pfn e \<and> present e' = present PML_PRESENT \<and>
          (owned e' \<longleftrightarrow> owned PML_PRESENT \<or>
             (\<exists>j \<le> i. \<exists>d. leaf sample_ptable (page_at 0x40200000 j) = Some d \<and> owned d))))"
    using page_table_set_flags_spreads_owned [OF sample_ptable_inv(1) small, of "0x40200000" PML_PRESENT] by blast
  have lv: "leaf sample_ptable (page_at 0x40200000 0) = Some 0x201" "leaf sample_ptable (page_at 0x40200000 1) = Some 0x4001"
    unfolding pages by (fact sample_leaves)+
  have ok: ok using r(2) lv bits two by (metis option.inject)
  then have "\<exists>e'. leaf t' (page_at 0x40200000 1) = Some e' \<and> (owned e' \<longleftrightarrow> owned PML_PRESENT \<or>
      (\<exists>j \<le> 1. \<exists>d. leaf sample_ptable (page_at 0x40200000 j) = Some d \<and> owned d))"
    using r(3) lv(2) two by blast
  moreover have "\<exists>j \<le> 1. \<exists>d. leaf sample_ptable (page_at 0x40200000 j) = Some d \<and> owned d"
    by (rule exI [of _ 0]) (use lv(1) bits(3) in simp)
  moreover have "page_table_set_flags 0x40200000 2 PML_PRESENT sample_ptable = (True, t')" using r(1) ok by simp
  ultimately show ?thesis using sample_leaves(2) bits(4) unfolding pages by blast
qed

lemma sample_free: "page_free sample_ptable 0x40202" "page_free sample_ptable 0x40203"
proof -
  have "translate sample_ptable 0x40202000 = None" "translate sample_ptable 0x40203000 = None" by code_simp+
  then show "page_free sample_ptable 0x40202" "page_free sample_ptable 0x40203"
    by (simp_all add: page_free_def ad_def PAGE_SIZE_def)
qed

theorem page_table_find_unmapped_region_first_witness:
  "(\<exists>r. page_table_find_unmapped_region 0x40200abc (ad 0x40210) 2 1 sample_ptable = Some (Some (ad r)) \<and>
      region sample_ptable 0x40200 0x40210 2 r) \<and>
   page_table_find_unmapped_region 0x8000001000 (ad 0x8001000) 2 0x200000 sample_ptable = Some (Some (ad 0x8000001))"
proof -
  have r: "region sample_ptable 0x40200 0x40210 2 0x40202"
  proof -
    have "{0x40202..<0x40202 + 2} = {0x40202, 0x40203 :: nat}" by auto
    then show ?thesis using sample_free by (simp add: region_def)
  qed
  have le: "1 \<le> PAGE_SIZE" by (simp add: PAGE_SIZE_def)
  have "\<not> present (get_entry sample_ptable (pt_pml4 sample_ptable) (PML_ADDR_TO_INDEX (ad 0x8000001) 4))"
  proof -
    have "ad 0x8000001 = 0x8000001000" by (simp add: ad_def PAGE_SIZE_def)
    moreover have "\<not> present (get_entry sample_ptable (pt_pml4 sample_ptable) (PML_ADDR_TO_INDEX 0x8000001000 4))" by code_simp
    ultimately show ?thesis by (simp only: not_False_eq_True)
  qed
  then have "page_table_find_unmapped_region 0x8000001000 (ad 0x8001000) 2 0x200000 sample_ptable = Some (Some (ad 0x8000001))"
    using page_table_find_unmapped_region_first [of 2 "0x8001000" "0x8000001000" "0x200000" sample_ptable] by simp
  moreover have "\<exists>r. page_table_find_unmapped_region 0x40200abc (ad 0x40210) 2 1 sample_ptable = Some (Some (ad r)) \<and>
      region sample_ptable 0x40200 0x40210 2 r"
    using page_table_find_unmapped_region_first [of 2 "0x40210" "0x40200abc" 1 sample_ptable] r le by (auto split: option.splits)
  ultimately show ?thesis by blast
qed

section \<open>Where the searches go wrong\<close>

lemma sample_walk:
  "present (get_entry sample_ptable (pt_pml4 sample_ptable) (idx 0x40000000 4))"
  "present (get_entry sample_ptable 17 (idx 0x40000000 3))" "\<not> present (get_entry sample_ptable 18 (idx 0x40000000 2))"
  "entry_pfn (get_entry sample_ptable (pt_pml4 sample_ptable) (idx 0x40000000 4)) = 17"
  "entry_pfn (get_entry sample_ptable 17 (idx 0x40000000 3)) = 18"
  "translate sample_ptable 0x40200000 = Some 0x201"
  by code_simp+

text \<open>For 512 pages or more the search looks at a single entry: asked for 1024 pages it returns a region
  whose second half contains the two mapped pages.\<close>

lemma find_large_region_mapped:
  "page_table_find_unmapped_region 0x40000000 0x50000000 1024 4096 sample_ptable = Some (Some 0x40000000)"
  "translate sample_ptable 0x40200000 = Some 0x201 \<and> (0x40000000 :: u64) \<le> 0x40200000 \<and> (0x40200000 :: u64) < 0x40000000 + 1024 * 4096"
proof -
  have n: "ROUND_DOWN 0x40000000 PAGE_SIZE = 0x40000000" "ROUND_UP 0x40000000 4096 = 0x40000000"
    "ROUND_UP (0x40000000 + 1) PML2_SIZE = 0x40200000" "\<not> PML3_SIZE div PAGE_SIZE \<le> 1024" "PML2_SIZE div PAGE_SIZE \<le> 1024"
    "\<not> 4096 < PAGE_SIZE"
    by code_simp+
  have "find_pml2_loop sample_ptable 0x50000000 4096 0x40000000 = Some (Some 0x40000000)"
    by (subst find_pml2_loop.simps) (use sample_walk n in \<open>simp add: Let_def del: One_nat_def\<close>)
  then show "page_table_find_unmapped_region 0x40000000 0x50000000 1024 4096 sample_ptable = Some (Some 0x40000000)"
    using n by (simp add: page_table_find_unmapped_region_def)
qed (simp add: sample_walk)

text \<open>\<^verbatim>\<open>page_table_count_pages_with_flags\<close> leaves out the upper indices of the address it skips to, so that
  the difference wraps around and the whole rest of the range is skipped.\<close>

lemma count_pages_skips_mapped:
  "page_table_count_pages_with_flags 0x40000000 1024 PML_PRESENT sample_ptable = Some 0"
  "translate sample_ptable 0x40200000 = Some 0x201"
proof -
  have n: "MIN_u64 1024 ((PML_INDEX_TO_ADDR (idx 0x40000000 2 + 1) 2 - 0x40000000) div PAGE_SIZE) = 1024" by code_simp
  have stop: "count_pages_loop sample_ptable PML_PRESENT (x, 0, c) = Some c" for x c by (subst count_pages_loop.simps) simp
  show "page_table_count_pages_with_flags 0x40000000 1024 PML_PRESENT sample_ptable = Some 0"
    unfolding page_table_count_pages_with_flags_def
    by (subst count_pages_loop.simps) (simp add: sample_walk n stop Let_def del: One_nat_def)
qed (rule sample_walk)

end
