(* ===== verification/Rbtree.thy ===== *)
theory Rbtree
  imports Prelude
begin

text \<open>
  The intrusive red-black tree of \<^verbatim>\<open>src/kernel/utils/rbtree.c\<close>. A node is a number, its link fields
  are found in \<open>rb_nodes\<close>; everything else the nodes are embedded in is \<open>rb_data\<close>, which the
  callbacks \<^verbatim>\<open>compare\<close> and \<^verbatim>\<open>update\<close> read and write. A failed assertion, a \<^verbatim>\<open>NULL\<close> dereference
  and a loop that does not end are \<open>None\<close>.
\<close>

section \<open>Nodes\<close>

datatype rbnode_color = RBNODE_RED | RBNODE_BLACK

datatype rbnode_direction = RBNODE_LEFT | RBNODE_RIGHT

type_synonym rbptr = nat

record rbnode =
  rb_parent :: "rbptr option"
  rb_children :: "rbnode_direction \<Rightarrow> rbptr option"
  rb_color :: rbnode_color

definition RBNODE_CREATE :: rbnode where
  "RBNODE_CREATE = \<lparr>rb_parent = None, rb_children = (\<lambda>_. None), rb_color = RBNODE_RED\<rparr>"

definition RBNODE_OPPOSITE :: "rbnode_direction \<Rightarrow> rbnode_direction" where
  "RBNODE_OPPOSITE direction = (case direction of RBNODE_LEFT \<Rightarrow> RBNODE_RIGHT | RBNODE_RIGHT \<Rightarrow> RBNODE_LEFT)"

record 'd rbtree =
  rb_root :: "rbptr option"
  rb_compare :: "'d \<Rightarrow> rbptr \<Rightarrow> rbptr \<Rightarrow> int"
  rb_update :: "((rbptr \<Rightarrow> rbnode) \<Rightarrow> rbptr \<Rightarrow> 'd \<Rightarrow> 'd) option"
  rb_nodes :: "rbptr \<Rightarrow> rbnode"
  rb_data :: 'd

text \<open>Access to the fields of a node.\<close>

abbreviation par :: "'d rbtree \<Rightarrow> rbptr \<Rightarrow> rbptr option" where
  "par tree x \<equiv> rb_parent (rb_nodes tree x)"

abbreviation chi :: "'d rbtree \<Rightarrow> rbptr \<Rightarrow> rbnode_direction \<Rightarrow> rbptr option" where
  "chi tree x d \<equiv> rb_children (rb_nodes tree x) d"

abbreviation col :: "'d rbtree \<Rightarrow> rbptr \<Rightarrow> rbnode_color" where
  "col tree x \<equiv> rb_color (rb_nodes tree x)"

definition set_par :: "rbptr \<Rightarrow> rbptr option \<Rightarrow> 'd rbtree \<Rightarrow> 'd rbtree" where
  "set_par x p tree = tree\<lparr>rb_nodes := (rb_nodes tree)(x := (rb_nodes tree x)\<lparr>rb_parent := p\<rparr>)\<rparr>"

definition set_chi :: "rbptr \<Rightarrow> rbnode_direction \<Rightarrow> rbptr option \<Rightarrow> 'd rbtree \<Rightarrow> 'd rbtree" where
  "set_chi x d c tree =
     tree\<lparr>rb_nodes := (rb_nodes tree)(x := (rb_nodes tree x)\<lparr>rb_children := (rb_children (rb_nodes tree x))(d := c)\<rparr>)\<rparr>"

definition set_col :: "rbptr \<Rightarrow> rbnode_color \<Rightarrow> 'd rbtree \<Rightarrow> 'd rbtree" where
  "set_col x c tree = tree\<lparr>rb_nodes := (rb_nodes tree)(x := (rb_nodes tree x)\<lparr>rb_color := c\<rparr>)\<rparr>"

text \<open>The parent of a node that may be \<^verbatim>\<open>NULL\<close>.\<close>

definition set_par_opt :: "rbptr option \<Rightarrow> rbptr option \<Rightarrow> 'd rbtree \<Rightarrow> 'd rbtree" where
  "set_par_opt x p tree = (case x of None \<Rightarrow> tree | Some x \<Rightarrow> set_par x p tree)"

definition RBNODE_FROM_PARENT :: "rbptr \<Rightarrow> 'd rbtree \<Rightarrow> rbnode_direction option" where
  "RBNODE_FROM_PARENT node tree =
     (case par tree node of
        None \<Rightarrow> None
      | Some p \<Rightarrow> Some (if chi tree p RBNODE_RIGHT = Some node then RBNODE_RIGHT else RBNODE_LEFT))"

text \<open>\<open>is_black\<close>: \<^verbatim>\<open>NULL\<close> or black.\<close>

definition is_black :: "rbptr option \<Rightarrow> 'd rbtree \<Rightarrow> bool" where
  "is_black x tree = (case x of None \<Rightarrow> True | Some x \<Rightarrow> col tree x = RBNODE_BLACK)"

section \<open>Callbacks\<close>

definition rbtree_update :: "rbptr option \<Rightarrow> 'd rbtree \<Rightarrow> 'd rbtree" where
  "rbtree_update node tree =
     (case node of
        None \<Rightarrow> tree
      | Some x \<Rightarrow>
          (case rb_update tree of
             None \<Rightarrow> tree
           | Some update \<Rightarrow> tree\<lparr>rb_data := update (rb_nodes tree) x (rb_data tree)\<rparr>))"

partial_function (option) update_loop :: "rbptr option \<Rightarrow> 'd rbtree \<Rightarrow> 'd rbtree option" where
  "update_loop node tree =
     (case node of
        None \<Rightarrow> Some tree
      | Some x \<Rightarrow> update_loop (par tree x) (rbtree_update (Some x) tree))"

definition rbtree_update_to_root :: "rbptr option \<Rightarrow> 'd rbtree \<Rightarrow> 'd rbtree option" where
  "rbtree_update_to_root node tree =
     (if node = None \<or> rb_update tree = None then Some tree else update_loop node tree)"

definition rbtree_init ::
  "('d \<Rightarrow> rbptr \<Rightarrow> rbptr \<Rightarrow> int) \<Rightarrow> ((rbptr \<Rightarrow> rbnode) \<Rightarrow> rbptr \<Rightarrow> 'd \<Rightarrow> 'd) option \<Rightarrow> 'd rbtree \<Rightarrow> 'd rbtree" where
  "rbtree_init compare update tree = tree\<lparr>rb_root := None, rb_compare := compare, rb_update := update\<rparr>"

section \<open>Rotation\<close>

definition rbtree_rotate :: "rbptr \<Rightarrow> rbnode_direction \<Rightarrow> 'd rbtree \<Rightarrow> (rbptr \<times> 'd rbtree) option" where
  "rbtree_rotate node direction tree = do {
     let opposite = RBNODE_OPPOSITE direction;
     let parent = par tree node;
     newRoot \<leftarrow> chi tree node opposite;
     let newChild = chi tree newRoot direction;
     let tree = set_chi node opposite newChild tree;
     let tree = set_par_opt newChild (Some node) tree;
     let tree = set_chi newRoot direction (Some node) tree;
     let tree = set_par newRoot parent tree;
     let tree = set_par node (Some newRoot) tree;
     let tree = (case parent of
        Some p \<Rightarrow>
          if chi tree p RBNODE_RIGHT = Some node then set_chi p RBNODE_RIGHT (Some newRoot) tree
          else set_chi p RBNODE_LEFT (Some newRoot) tree
      | None \<Rightarrow> tree\<lparr>rb_root := Some newRoot\<rparr>);
     tree \<leftarrow> rbtree_update_to_root (Some node) tree;
     tree \<leftarrow> rbtree_update_to_root (Some newRoot) tree;
     Some (newRoot, tree)
   }"

section \<open>Insertion\<close>

partial_function (option) insert_loop :: "rbptr \<Rightarrow> rbptr \<Rightarrow> 'd rbtree \<Rightarrow> 'd rbtree option" where
  "insert_loop node parent tree =
     (if col tree parent = RBNODE_BLACK then Some tree
      else
        (case par tree parent of
           None \<Rightarrow> Some (set_col parent RBNODE_BLACK tree)
         | Some grandparent \<Rightarrow> do {
             assert_that (chi tree grandparent RBNODE_LEFT = Some parent \<or> chi tree grandparent RBNODE_RIGHT = Some parent);
             fromParent \<leftarrow> RBNODE_FROM_PARENT parent tree;
             let uncle = chi tree grandparent (RBNODE_OPPOSITE fromParent);
             if is_black uncle tree then do {
               (parent, tree) \<leftarrow>
                 (if chi tree parent (RBNODE_OPPOSITE fromParent) = Some node then do {
                    (_, tree) \<leftarrow> rbtree_rotate parent fromParent tree;
                    parent \<leftarrow> chi tree grandparent fromParent;
                    Some (parent, tree)
                  }
                  else Some (parent, tree));
               (_, tree) \<leftarrow> rbtree_rotate grandparent (RBNODE_OPPOSITE fromParent) tree;
               Some (set_col grandparent RBNODE_RED (set_col parent RBNODE_BLACK tree))
             }
             else do {
               uncle \<leftarrow> uncle;
               let tree = set_col grandparent RBNODE_RED (set_col uncle RBNODE_BLACK (set_col parent RBNODE_BLACK tree));
               (case par tree grandparent of
                  None \<Rightarrow> Some tree
                | Some parent \<Rightarrow> do {
                    assert_that (chi tree parent RBNODE_LEFT = Some grandparent \<or> chi tree parent RBNODE_RIGHT = Some grandparent);
                    insert_loop grandparent parent tree
                  })
             }
           }))"

definition rbtree_insert_at ::
  "rbptr option \<Rightarrow> rbptr \<Rightarrow> rbnode_direction \<Rightarrow> 'd rbtree \<Rightarrow> 'd rbtree option" where
  "rbtree_insert_at parent node direction tree =
     (let tree = set_par node parent (set_col node RBNODE_RED tree)
      in case parent of
           None \<Rightarrow> Some (tree\<lparr>rb_root := Some node\<rparr>)
         | Some p \<Rightarrow> do {
             assert_that (chi tree p direction = None);
             let tree = set_chi p direction (Some node) tree;
             tree \<leftarrow> rbtree_update_to_root (Some node) tree;
             insert_loop node p tree
           })"

partial_function (option) descend_loop ::
  "rbptr \<Rightarrow> rbptr option \<Rightarrow> rbptr option \<Rightarrow> rbnode_direction \<Rightarrow> 'd rbtree \<Rightarrow> (rbptr option \<times> rbnode_direction) option" where
  "descend_loop node current parent direction tree =
     (case current of
        None \<Rightarrow> Some (parent, direction)
      | Some x \<Rightarrow>
          if rb_compare tree (rb_data tree) node x < 0
          then descend_loop node (chi tree x RBNODE_LEFT) (Some x) RBNODE_LEFT tree
          else descend_loop node (chi tree x RBNODE_RIGHT) (Some x) RBNODE_RIGHT tree)"

text \<open>The end of insertion and removal.\<close>

definition blacken_root :: "'d rbtree \<Rightarrow> 'd rbtree" where
  "blacken_root tree = (case rb_root tree of None \<Rightarrow> tree | Some r \<Rightarrow> set_col r RBNODE_BLACK tree)"

definition rbtree_insert :: "rbptr \<Rightarrow> 'd rbtree \<Rightarrow> 'd rbtree option" where
  "rbtree_insert node tree = do {
     assert_that (par tree node = None);
     assert_that (chi tree node RBNODE_LEFT = None);
     assert_that (chi tree node RBNODE_RIGHT = None);
     (parent, direction) \<leftarrow> descend_loop node (rb_root tree) None RBNODE_LEFT tree;
     tree \<leftarrow> rbtree_insert_at parent node direction tree;
     Some (blacken_root tree)
   }"

section \<open>Extremes and neighbours\<close>

partial_function (option) far_loop :: "rbnode_direction \<Rightarrow> rbptr \<Rightarrow> 'd rbtree \<Rightarrow> rbptr option" where
  "far_loop d current tree =
     (case chi tree current d of
        None \<Rightarrow> Some current
      | Some x \<Rightarrow> far_loop d x tree)"

text \<open>The functions that return a node or \<^verbatim>\<open>NULL\<close> have type \<open>rbptr option option\<close>: the outer
  \<open>None\<close> is failure.\<close>

definition rbtree_find_min :: "rbptr option \<Rightarrow> 'd rbtree \<Rightarrow> rbptr option option" where
  "rbtree_find_min node tree =
     (case node of None \<Rightarrow> Some None | Some x \<Rightarrow> map_option Some (far_loop RBNODE_LEFT x tree))"

definition rbtree_find_max :: "rbptr option \<Rightarrow> 'd rbtree \<Rightarrow> rbptr option option" where
  "rbtree_find_max node tree =
     (case node of None \<Rightarrow> Some None | Some x \<Rightarrow> map_option Some (far_loop RBNODE_RIGHT x tree))"

definition rbtree_is_empty :: "'d rbtree \<Rightarrow> bool" where
  "rbtree_is_empty tree = (rb_root tree = None)"

text \<open>The climb to the first ancestor that is not reached from direction \<open>d\<close>.\<close>

partial_function (option) climb_loop ::
  "rbnode_direction \<Rightarrow> rbptr \<Rightarrow> rbptr option \<Rightarrow> 'd rbtree \<Rightarrow> rbptr option option" where
  "climb_loop d node parent tree =
     (case parent of
        None \<Rightarrow> Some None
      | Some p \<Rightarrow>
          if chi tree p d = Some node then climb_loop d p (par tree p) tree
          else Some (Some p))"

definition rbtree_next :: "rbptr option \<Rightarrow> 'd rbtree \<Rightarrow> rbptr option option" where
  "rbtree_next node tree =
     (case node of
        None \<Rightarrow> Some None
      | Some x \<Rightarrow>
          if chi tree x RBNODE_RIGHT \<noteq> None then rbtree_find_min (chi tree x RBNODE_RIGHT) tree
          else climb_loop RBNODE_RIGHT x (par tree x) tree)"

definition rbtree_prev :: "rbptr option \<Rightarrow> 'd rbtree \<Rightarrow> rbptr option option" where
  "rbtree_prev node tree =
     (case node of
        None \<Rightarrow> Some None
      | Some x \<Rightarrow>
          if chi tree x RBNODE_LEFT \<noteq> None then rbtree_find_max (chi tree x RBNODE_LEFT) tree
          else climb_loop RBNODE_LEFT x (par tree x) tree)"

section \<open>Swapping\<close>

text \<open>The link from a parent, or from the root, to \<open>a\<close> is redirected to \<open>b\<close>.\<close>

definition relink :: "rbptr option \<Rightarrow> rbptr \<Rightarrow> rbptr \<Rightarrow> 'd rbtree \<Rightarrow> 'd rbtree" where
  "relink parent a b tree =
     (case parent of
        Some p \<Rightarrow>
          if chi tree p RBNODE_LEFT = Some a then set_chi p RBNODE_LEFT (Some b) tree
          else set_chi p RBNODE_RIGHT (Some b) tree
      | None \<Rightarrow> tree\<lparr>rb_root := Some b\<rparr>)"

definition adopt :: "rbptr \<Rightarrow> rbnode_direction \<Rightarrow> rbptr option \<Rightarrow> 'd rbtree \<Rightarrow> 'd rbtree" where
  "adopt x d c tree = set_par_opt c (Some x) (set_chi x d c tree)"

definition swap_adjacent :: "rbptr \<Rightarrow> rbptr \<Rightarrow> 'd rbtree \<Rightarrow> 'd rbtree" where
  "swap_adjacent a b tree =
     (let aParent = par tree a;
          sideB = (if chi tree a RBNODE_RIGHT = Some b then RBNODE_RIGHT else RBNODE_LEFT);
          otherChild = chi tree a (RBNODE_OPPOSITE sideB);
          bLeft = chi tree b RBNODE_LEFT;
          bRight = chi tree b RBNODE_RIGHT;
          tree = set_par b aParent tree;
          tree = relink aParent a b tree;
          tree = set_chi b sideB (Some a) tree;
          tree = set_par a (Some b) tree;
          tree = adopt b (RBNODE_OPPOSITE sideB) otherChild tree;
          tree = adopt a RBNODE_LEFT bLeft tree
      in adopt a RBNODE_RIGHT bRight tree)"

definition swap_apart :: "rbptr \<Rightarrow> rbptr \<Rightarrow> 'd rbtree \<Rightarrow> 'd rbtree" where
  "swap_apart a b tree =
     (let aParent = par tree a;
          bParent = par tree b;
          aLeft = chi tree a RBNODE_LEFT;
          aRight = chi tree a RBNODE_RIGHT;
          bLeft = chi tree b RBNODE_LEFT;
          bRight = chi tree b RBNODE_RIGHT;
          tree = set_par a bParent tree;
          tree = relink bParent b a tree;
          tree = adopt a RBNODE_LEFT bLeft tree;
          tree = adopt a RBNODE_RIGHT bRight tree;
          tree = set_par b aParent tree;
          tree = relink aParent a b tree;
          tree = adopt b RBNODE_LEFT aLeft tree
      in adopt b RBNODE_RIGHT aRight tree)"

text \<open>The node is a child of its parent, if it has one.\<close>

definition linked :: "rbptr \<Rightarrow> 'd rbtree \<Rightarrow> bool" where
  "linked x tree =
     (case par tree x of
        None \<Rightarrow> True
      | Some p \<Rightarrow> chi tree p RBNODE_LEFT = Some x \<or> chi tree p RBNODE_RIGHT = Some x)"

definition rbtree_swap :: "rbptr \<Rightarrow> rbptr \<Rightarrow> 'd rbtree \<Rightarrow> 'd rbtree option" where
  "rbtree_swap a b tree =
     (if a = b then Some tree
      else do {
        assert_that (linked a tree);
        assert_that (linked b tree);
        let tempColor = col tree a;
        let tree = set_col b tempColor (set_col a (col tree b) tree);
        let (a, b) = (if par tree a = Some b then (b, a) else (a, b));
        let tree = (if par tree b = Some a then swap_adjacent a b tree else swap_apart a b tree);
        tree \<leftarrow> rbtree_update_to_root (Some a) tree;
        rbtree_update_to_root (Some b) tree
      })"

section \<open>Removal\<close>

definition rbtree_remove_sanitize :: "rbptr \<Rightarrow> 'd rbtree \<Rightarrow> 'd rbtree option" where
  "rbtree_remove_sanitize node tree = do {
     assert_that (case par tree node of
        None \<Rightarrow> True
      | Some p \<Rightarrow> chi tree p RBNODE_LEFT \<noteq> Some node \<and> chi tree p RBNODE_RIGHT \<noteq> Some node);
     assert_that (case chi tree node RBNODE_LEFT of None \<Rightarrow> True | Some c \<Rightarrow> par tree c \<noteq> Some node);
     assert_that (case chi tree node RBNODE_RIGHT of None \<Rightarrow> True | Some c \<Rightarrow> par tree c \<noteq> Some node);
     tree \<leftarrow> rbtree_update_to_root (par tree node) tree;
     let tree = set_par node None tree;
     let tree = set_chi node RBNODE_LEFT None tree;
     let tree = set_chi node RBNODE_RIGHT None tree;
     Some (set_col node RBNODE_RED tree)
   }"

text \<open>The sibling, after the rotation that makes it black if it is red.\<close>

definition black_sibling ::
  "rbptr \<Rightarrow> rbnode_direction \<Rightarrow> 'd rbtree \<Rightarrow> (rbptr \<times> 'd rbtree) option" where
  "black_sibling parent fromParent tree = do {
     sibling \<leftarrow> chi tree parent (RBNODE_OPPOSITE fromParent);
     if col tree sibling = RBNODE_RED then do {
       assert_that (col tree parent = RBNODE_BLACK);
       (_, tree) \<leftarrow> rbtree_rotate parent fromParent tree;
       let tree = set_col sibling RBNODE_BLACK (set_col parent RBNODE_RED tree);
       sibling \<leftarrow> chi tree parent (RBNODE_OPPOSITE fromParent);
       assert_that (col tree sibling = RBNODE_BLACK);
       Some (sibling, tree)
     }
     else Some (sibling, tree)
   }"

text \<open>The end of the repair, when a child of the sibling is red.\<close>

definition repair_nephew ::
  "rbptr \<Rightarrow> rbnode_direction \<Rightarrow> rbptr \<Rightarrow> 'd rbtree \<Rightarrow> 'd rbtree option" where
  "repair_nephew parent fromParent sibling tree = do {
     let distantNephew = chi tree sibling (RBNODE_OPPOSITE fromParent);
     let closeNephew = chi tree sibling fromParent;
     (sibling, tree) \<leftarrow>
       (if is_black distantNephew tree then do {
          close \<leftarrow> closeNephew;
          assert_that (col tree close = RBNODE_RED);
          (_, tree) \<leftarrow> rbtree_rotate sibling (RBNODE_OPPOSITE fromParent) tree;
          Some (close, set_col close RBNODE_BLACK (set_col sibling RBNODE_RED tree))
        }
        else Some (sibling, tree));
     distant \<leftarrow> chi tree sibling (RBNODE_OPPOSITE fromParent);
     assert_that (col tree distant = RBNODE_RED);
     (_, tree) \<leftarrow> rbtree_rotate parent fromParent tree;
     let tree = set_col parent RBNODE_BLACK (set_col sibling (col tree parent) tree);
     Some (case chi tree sibling (RBNODE_OPPOSITE fromParent) of
             None \<Rightarrow> tree
           | Some distant \<Rightarrow> set_col distant RBNODE_BLACK tree)
   }"

partial_function (option) remove_loop :: "rbptr \<Rightarrow> rbnode_direction \<Rightarrow> 'd rbtree \<Rightarrow> 'd rbtree option" where
  "remove_loop parent fromParent tree = do {
     (sibling, tree) \<leftarrow> black_sibling parent fromParent tree;
     if is_black (chi tree sibling (RBNODE_OPPOSITE fromParent)) tree \<and> is_black (chi tree sibling fromParent) tree then do {
       let tree = set_col sibling RBNODE_RED tree;
       let curr = parent;
       (case par tree curr of
          None \<Rightarrow> Some tree
        | Some parent \<Rightarrow> do {
            assert_that (chi tree parent RBNODE_LEFT = Some curr \<or> chi tree parent RBNODE_RIGHT = Some curr);
            if col tree curr = RBNODE_RED then Some (set_col curr RBNODE_BLACK tree)
            else do {
              fromParent \<leftarrow> RBNODE_FROM_PARENT curr tree;
              remove_loop parent fromParent tree
            }
          })
     }
     else repair_nephew parent fromParent sibling tree
   }"

text \<open>The removal of a node with at most one child.\<close>

definition remove_one :: "rbptr \<Rightarrow> 'd rbtree \<Rightarrow> 'd rbtree option" where
  "remove_one node tree = do {
     let child = (if chi tree node RBNODE_LEFT \<noteq> None then chi tree node RBNODE_LEFT else chi tree node RBNODE_RIGHT);
     if col tree node = RBNODE_RED then do {
       assert_that (child = None);
       tree \<leftarrow> (case par tree node of
          None \<Rightarrow> Some (tree\<lparr>rb_root := None\<rparr>)
        | Some p \<Rightarrow> do {
            fromParent \<leftarrow> RBNODE_FROM_PARENT node tree;
            assert_that (chi tree p fromParent = Some node);
            Some (set_chi p fromParent None tree)
          });
       rbtree_remove_sanitize node tree
     }
     else (case child of
       Some child \<Rightarrow> do {
         assert_that (col tree child = RBNODE_RED);
         assert_that (par tree child = Some node);
         tree \<leftarrow> (case par tree node of
            None \<Rightarrow> Some (tree\<lparr>rb_root := Some child\<rparr>)
          | Some p \<Rightarrow> do {
              fromParent \<leftarrow> RBNODE_FROM_PARENT node tree;
              Some (set_chi p fromParent (Some child) tree)
            });
         let tree = set_par child (par tree node) tree;
         rbtree_remove_sanitize node (set_col child RBNODE_BLACK tree)
       }
     | None \<Rightarrow>
         (case par tree node of
            None \<Rightarrow> rbtree_remove_sanitize node (tree\<lparr>rb_root := None\<rparr>)
          | Some parent \<Rightarrow> do {
              fromParent \<leftarrow> RBNODE_FROM_PARENT node tree;
              assert_that (chi tree parent fromParent = Some node);
              let tree = set_chi parent fromParent None tree;
              tree \<leftarrow> rbtree_remove_sanitize node tree;
              tree \<leftarrow> remove_loop parent fromParent tree;
              Some (blacken_root tree)
            }))
   }"

partial_function (option) rbtree_remove :: "rbptr \<Rightarrow> 'd rbtree \<Rightarrow> 'd rbtree option" where
  "rbtree_remove node tree =
     (if rb_root tree \<noteq> Some node \<and> par tree node = None then Some tree
      else do {
        assert_that (rb_root tree = Some node \<or> linked node tree);
        if chi tree node RBNODE_LEFT \<noteq> None \<and> chi tree node RBNODE_RIGHT \<noteq> None then do {
          s \<leftarrow> rbtree_find_min (chi tree node RBNODE_RIGHT) tree;
          successor \<leftarrow> s;
          assert_that (chi tree successor RBNODE_LEFT = None);
          tree \<leftarrow> rbtree_swap node successor tree;
          rbtree_remove node tree
        }
        else remove_one node tree
      })"

section \<open>Repairing the order\<close>

text \<open>The neighbour the node is out of order with, if any; the next node is tried first.\<close>

definition misplaced :: "rbptr \<Rightarrow> 'd rbtree \<Rightarrow> rbptr option option" where
  "misplaced node tree = do {
     next \<leftarrow> rbtree_next (Some node) tree;
     if (case next of None \<Rightarrow> False | Some n \<Rightarrow> rb_compare tree (rb_data tree) node n > 0) then Some next
     else do {
       prev \<leftarrow> rbtree_prev (Some node) tree;
       if (case prev of None \<Rightarrow> False | Some p \<Rightarrow> rb_compare tree (rb_data tree) node p < 0) then Some prev
       else Some None
     }
   }"

partial_function (option) fix_loop :: "rbptr \<Rightarrow> 'd rbtree \<Rightarrow> 'd rbtree option" where
  "fix_loop node tree = do {
     other \<leftarrow> misplaced node tree;
     (case other of
        None \<Rightarrow> Some tree
      | Some x \<Rightarrow> do { tree \<leftarrow> rbtree_swap node x tree; fix_loop node tree })
   }"

definition rbtree_fix :: "rbptr \<Rightarrow> 'd rbtree \<Rightarrow> 'd rbtree option" where
  "rbtree_fix node tree = fix_loop node tree \<bind> rbtree_update_to_root (Some node)"

section \<open>The iteration macros\<close>

partial_function (option) for_each_from :: "rbptr option \<Rightarrow> (rbptr \<Rightarrow> 'd rbtree \<Rightarrow> 'a \<Rightarrow> 'a) \<Rightarrow> 'd rbtree \<Rightarrow> 'a \<Rightarrow> 'a option" where
  "for_each_from elem body tree acc =
     (case elem of
        None \<Rightarrow> Some acc
      | Some x \<Rightarrow> do {
          let acc = body x tree acc;
          elem \<leftarrow> rbtree_next (Some x) tree;
          for_each_from elem body tree acc
        })"

definition RBTREE_FOR_EACH :: "(rbptr \<Rightarrow> 'd rbtree \<Rightarrow> 'a \<Rightarrow> 'a) \<Rightarrow> 'd rbtree \<Rightarrow> 'a \<Rightarrow> 'a option" where
  "RBTREE_FOR_EACH body tree acc = do {
     elem \<leftarrow> rbtree_find_min (rb_root tree) tree;
     for_each_from elem body tree acc
   }"

partial_function (option) for_each_back :: "rbptr option \<Rightarrow> (rbptr \<Rightarrow> 'd rbtree \<Rightarrow> 'a \<Rightarrow> 'a) \<Rightarrow> 'd rbtree \<Rightarrow> 'a \<Rightarrow> 'a option" where
  "for_each_back elem body tree acc =
     (case elem of
        None \<Rightarrow> Some acc
      | Some x \<Rightarrow> do {
          let acc = body x tree acc;
          elem \<leftarrow> rbtree_prev (Some x) tree;
          for_each_back elem body tree acc
        })"

definition RBTREE_FOR_EACH_REVERSE :: "(rbptr \<Rightarrow> 'd rbtree \<Rightarrow> 'a \<Rightarrow> 'a) \<Rightarrow> 'd rbtree \<Rightarrow> 'a \<Rightarrow> 'a option" where
  "RBTREE_FOR_EACH_REVERSE body tree acc = do {
     elem \<leftarrow> rbtree_find_max (rb_root tree) tree;
     for_each_back elem body tree acc
   }"

end
