(* ===== verification/Rbtree_Spec.thy ===== *)
theory Rbtree_Spec
  imports Rbtree "HOL-Library.Multiset"
begin

text \<open>
  What the linked nodes of \<^verbatim>\<open>src/kernel/utils/rbtree.c\<close> represent: a binary tree of nodes with
  colours, and a tree with a hole for the place an operation works at.
\<close>

section \<open>Trees and contexts\<close>

datatype tr = Lf | Nd rbnode_color tr rbptr tr

primrec rt :: "tr \<Rightarrow> rbptr option" where
  "rt Lf = None"
| "rt (Nd c l x r) = Some x"

primrec ino :: "tr \<Rightarrow> rbptr list" where
  "ino Lf = []"
| "ino (Nd c l x r) = ino l @ x # ino r"

text \<open>\<open>mk d c a x b\<close> has \<open>a\<close> in direction \<open>d\<close> and \<open>b\<close> in the other.\<close>

definition mk :: "rbnode_direction \<Rightarrow> rbnode_color \<Rightarrow> tr \<Rightarrow> rbptr \<Rightarrow> tr \<Rightarrow> tr" where
  "mk d c a x b = (case d of RBNODE_LEFT \<Rightarrow> Nd c a x b | RBNODE_RIGHT \<Rightarrow> Nd c b x a)"

lemma opposite_simps [simp]:
  "RBNODE_OPPOSITE (RBNODE_OPPOSITE d) = d" "RBNODE_OPPOSITE d \<noteq> d" "d \<noteq> RBNODE_OPPOSITE d"
  "RBNODE_OPPOSITE d = RBNODE_OPPOSITE e \<longleftrightarrow> d = e"
  "RBNODE_OPPOSITE RBNODE_LEFT = RBNODE_RIGHT" "RBNODE_OPPOSITE RBNODE_RIGHT = RBNODE_LEFT"
  by (cases d; cases e; simp add: RBNODE_OPPOSITE_def)+

lemma direction_cases: "e = d \<or> e = RBNODE_OPPOSITE d"
  by (cases d; cases e) simp_all

lemma rt_mk [simp]: "rt (mk d c a x b) = Some x"
  by (cases d) (simp_all add: mk_def)

lemma set_mk [simp]: "set (ino (mk d c a x b)) = insert x (set (ino a) \<union> set (ino b))"
  by (cases d) (auto simp: mk_def)

lemma mk_opposite: "mk (RBNODE_OPPOSITE d) c a x b = mk d c b x a"
  by (cases d) (simp_all add: mk_def)

lemma tr_mk: "t = Lf \<or> (\<exists>c a x b. t = mk d c a x b)"
proof (cases t)
  case (Nd c l x r)
  then show ?thesis by (cases d) (auto simp: mk_def)
qed simp

type_synonym frm = "rbnode_direction \<times> rbnode_color \<times> rbptr \<times> tr"

fun plug :: "frm list \<Rightarrow> tr \<Rightarrow> tr" where
  "plug [] t = t"
| "plug ((d, c, x, s) # C) t = plug C (mk d c t x s)"

fun cpar :: "frm list \<Rightarrow> rbptr option" where
  "cpar [] = None"
| "cpar ((d, c, x, s) # C) = Some x"

fun cino :: "frm list \<Rightarrow> rbptr list" where
  "cino [] = []"
| "cino ((d, c, x, s) # C) = x # ino s @ cino C"

lemma mset_ino_mk: "mset (ino (mk d c a x b)) = add_mset x (mset (ino a) + mset (ino b))"
  by (cases d) (simp_all add: mk_def)

lemma mset_plug: "mset (ino (plug C t)) = mset (ino t) + mset (cino C)"
  by (induction C t rule: plug.induct) (simp_all add: mset_ino_mk)

lemma distinct_plug: "distinct (ino (plug C t)) \<longleftrightarrow> distinct (ino t @ cino C)"
  using mset_plug [of C t] by (metis mset_append mset_eq_imp_distinct_iff)

lemma set_plug: "set (ino (plug C t)) = set (ino t) \<union> set (cino C)"
  using mset_plug [of C t] by (metis set_mset_mset set_mset_union)

lemma distinct_mk [simp]:
  "distinct (ino (mk d c a x b)) \<longleftrightarrow>
     x \<notin> set (ino a) \<and> x \<notin> set (ino b) \<and> distinct (ino a) \<and> distinct (ino b) \<and> set (ino a) \<inter> set (ino b) = {}"
  by (cases d) (auto simp: mk_def)

lemma rt_plug: "rt (plug C t) = (if C = [] then rt t else Some (case last C of (d, c, x, s) \<Rightarrow> x))"
  by (induction C t rule: plug.induct) auto

lemma rt_plug_cong: "rt t = rt t' \<Longrightarrow> rt (plug C t) = rt (plug C t')"
  by (simp add: rt_plug)

lemma rt_in: "rt t = Some x \<Longrightarrow> x \<in> set (ino t)"
  by (cases t) auto

section \<open>Representation\<close>

fun repr :: "(rbptr \<Rightarrow> rbnode) \<Rightarrow> rbptr option \<Rightarrow> tr \<Rightarrow> bool" where
  "repr h p Lf \<longleftrightarrow> True"
| "repr h p (Nd c l x r) \<longleftrightarrow>
     rb_parent (h x) = p \<and> rb_children (h x) RBNODE_LEFT = rt l \<and> rb_children (h x) RBNODE_RIGHT = rt r \<and>
     rb_color (h x) = c \<and> repr h (Some x) l \<and> repr h (Some x) r"

fun repr_ctx :: "(rbptr \<Rightarrow> rbnode) \<Rightarrow> frm list \<Rightarrow> rbptr option \<Rightarrow> bool" where
  "repr_ctx h [] r \<longleftrightarrow> True"
| "repr_ctx h ((d, c, x, s) # C) r \<longleftrightarrow>
     rb_parent (h x) = cpar C \<and> rb_children (h x) d = r \<and> rb_children (h x) (RBNODE_OPPOSITE d) = rt s \<and>
     rb_color (h x) = c \<and> repr h (Some x) s \<and> repr_ctx h C (Some x)"

lemma repr_mk [simp]:
  "repr h p (mk d c a x b) \<longleftrightarrow>
     rb_parent (h x) = p \<and> rb_children (h x) d = rt a \<and> rb_children (h x) (RBNODE_OPPOSITE d) = rt b \<and>
     rb_color (h x) = c \<and> repr h (Some x) a \<and> repr h (Some x) b"
  by (cases d) (auto simp: mk_def)

lemma repr_plug: "repr h None (plug C t) \<longleftrightarrow> repr_ctx h C (rt t) \<and> repr h (cpar C) t"
  by (induction C t rule: plug.induct) auto

lemma repr_upd [simp]: "x \<notin> set (ino t) \<Longrightarrow> repr (h(x := n)) p t = repr h p t"
  by (induction t arbitrary: p) auto

lemma repr_ctx_upd [simp]: "x \<notin> set (cino C) \<Longrightarrow> repr_ctx (h(x := n)) C r = repr_ctx h C r"
  by (induction h C r rule: repr_ctx.induct) auto

lemma repr_reparent:
  "repr h p t \<Longrightarrow> rt t = Some x \<Longrightarrow> distinct (ino t) \<Longrightarrow> repr (h(x := (h x)\<lparr>rb_parent := q\<rparr>)) q t"
  by (cases t) auto

definition rb_rep :: "'d rbtree \<Rightarrow> tr \<Rightarrow> bool" where
  "rb_rep s T \<longleftrightarrow> rb_root s = rt T \<and> repr (rb_nodes s) None T \<and> distinct (ino T)"

lemma setters [simp]:
  "rb_nodes (set_par x p s) = (rb_nodes s)(x := (rb_nodes s x)\<lparr>rb_parent := p\<rparr>)"
  "rb_nodes (set_chi x d c s) = (rb_nodes s)(x := (rb_nodes s x)\<lparr>rb_children := (rb_children (rb_nodes s x))(d := c)\<rparr>)"
  "rb_nodes (set_col x k s) = (rb_nodes s)(x := (rb_nodes s x)\<lparr>rb_color := k\<rparr>)"
  "rb_root (set_par x p s) = rb_root s" "rb_root (set_chi x d c s) = rb_root s" "rb_root (set_col x k s) = rb_root s"
  "rb_data (set_par x p s) = rb_data s" "rb_data (set_chi x d c s) = rb_data s" "rb_data (set_col x k s) = rb_data s"
  "rb_update (set_par x p s) = rb_update s" "rb_update (set_chi x d c s) = rb_update s" "rb_update (set_col x k s) = rb_update s"
  "rb_compare (set_par x p s) = rb_compare s" "rb_compare (set_chi x d c s) = rb_compare s" "rb_compare (set_col x k s) = rb_compare s"
  by (simp_all add: set_par_def set_chi_def set_col_def)

section \<open>Callbacks\<close>

text \<open>The update callback does not change what is compared.\<close>

definition stable :: "'d rbtree \<Rightarrow> bool" where
  "stable s \<longleftrightarrow> (\<forall>u n x d. rb_update s = Some u \<longrightarrow> rb_compare s (u n x d) = rb_compare s d)"

text \<open>What is left of the data of the nodes after updates of nodes in \<open>A\<close>.\<close>

definition updated :: "rbptr set \<Rightarrow> 'd rbtree \<Rightarrow> 'd \<Rightarrow> 'd \<Rightarrow> bool" where
  "updated A s = rtranclp (\<lambda>d d'. \<exists>u n x. rb_update s = Some u \<and> x \<in> A \<and> d' = u n x d)"

lemma updated_keeps:
  assumes "updated A s d d'" and "\<And>u n x d. rb_update s = Some u \<Longrightarrow> x \<in> A \<Longrightarrow> f (u n x d) = f d"
  shows "f d' = f d"
  using assms(1) unfolding updated_def by (induction rule: rtranclp_induct) (auto simp: assms(2))

text \<open>What an operation keeps besides the links.\<close>

definition later :: "rbptr set \<Rightarrow> 'd rbtree \<Rightarrow> 'd rbtree \<Rightarrow> bool" where
  "later A s s' \<longleftrightarrow> rb_update s' = rb_update s \<and> rb_compare s' = rb_compare s \<and> updated A s (rb_data s) (rb_data s')"

lemma later_refl [simp]: "later A s s"
  by (simp add: later_def updated_def)

lemma later_trans [trans]: "later A s s' \<Longrightarrow> later A s' s'' \<Longrightarrow> later A s s''"
  by (auto simp: later_def updated_def)

lemma later_mono: "A \<subseteq> B \<Longrightarrow> later A s s' \<Longrightarrow> later B s s'"
proof -
  assume "A \<subseteq> B" "later A s s'"
  then have "updated A s (rb_data s) (rb_data s')" by (simp add: later_def)
  then have "updated B s (rb_data s) (rb_data s')"
    unfolding updated_def by (rule rtranclp_mono [THEN predicate2D, rotated]) (use \<open>A \<subseteq> B\<close> in blast)
  then show ?thesis using \<open>later A s s'\<close> by (simp add: later_def)
qed

lemma later_cmp:
  assumes "later A s s'" and "stable s"
  shows "rb_compare s' (rb_data s') = rb_compare s (rb_data s) \<and> stable s'"
  using assms updated_keeps [of A s "rb_data s" "rb_data s'" "rb_compare s"] by (auto simp: later_def stable_def)

lemma later_set [simp]:
  "later A s (set_par x p t) = later A s t" "later A s (set_chi x d q t) = later A s t" "later A s (set_col x k t) = later A s t"
  "later A s (t\<lparr>rb_root := r\<rparr>) = later A s t"
  by (simp_all add: later_def)

lemma rb_rep_data [simp]: "rb_rep (s\<lparr>rb_data := d\<rparr>) T = rb_rep s T"
  by (simp add: rb_rep_def)

lemma update_later: "x \<in> A \<Longrightarrow> later A s (rbtree_update (Some x) s)" "\<exists>d. rbtree_update x' s = s\<lparr>rb_data := d\<rparr>"
proof -
  show "x \<in> A \<Longrightarrow> later A s (rbtree_update (Some x) s)"
    by (auto simp: rbtree_update_def later_def updated_def intro!: r_into_rtranclp split: option.splits)
  let ?d = "case x' of None \<Rightarrow> rb_data s
    | Some y \<Rightarrow> (case rb_update s of None \<Rightarrow> rb_data s | Some u \<Rightarrow> u (rb_nodes s) y (rb_data s))"
  have "rbtree_update x' s = s\<lparr>rb_data := ?d\<rparr>" by (simp add: rbtree_update_def split: option.split)
  then show "\<exists>d. rbtree_update x' s = s\<lparr>rb_data := d\<rparr>" by (rule exI)
qed

lemma update_loop_ctx:
  "repr_ctx (rb_nodes s) C r \<Longrightarrow> set (cino C) \<subseteq> A \<Longrightarrow>
     \<exists>d. update_loop (cpar C) s = Some (s\<lparr>rb_data := d\<rparr>) \<and> later A s (s\<lparr>rb_data := d\<rparr>)"
proof (induction C arbitrary: s r)
  case Nil
  have "s\<lparr>rb_data := rb_data s\<rparr> = s" by simp
  then show ?case by (intro exI [of _ "rb_data s"]) (simp add: update_loop.simps)
next
  case (Cons f C)
  obtain d c x t where f: "f = (d, c, x, t)" by (cases f)
  have x: "x \<in> A" "set (cino C) \<subseteq> A" using Cons.prems(2) f by auto
  obtain d1 where d1: "rbtree_update (Some x) s = s\<lparr>rb_data := d1\<rparr>" using update_later(2) [of "Some x" s] by (rule exE)
  have "repr_ctx (rb_nodes (s\<lparr>rb_data := d1\<rparr>)) C (Some x)" "par s x = cpar C" using Cons.prems f by simp_all
  then obtain d2 where d2: "update_loop (cpar C) (s\<lparr>rb_data := d1\<rparr>) = Some (s\<lparr>rb_data := d2\<rparr>)"
    "later A (s\<lparr>rb_data := d1\<rparr>) (s\<lparr>rb_data := d2\<rparr>)" using Cons.IH [of "s\<lparr>rb_data := d1\<rparr>"] x by auto
  have "update_loop (cpar (f # C)) s = update_loop (cpar C) (s\<lparr>rb_data := d1\<rparr>)"
    using d1 \<open>par s x = cpar C\<close> f by (simp add: update_loop.simps [of "Some x"])
  moreover have "later A s (s\<lparr>rb_data := d2\<rparr>)"
    using later_trans [OF _ d2(2)] update_later(1) [OF x(1), of s] d1 by simp
  ultimately show ?case using d2(1) by auto
qed

lemma update_to_root_ctx:
  assumes "repr_ctx (rb_nodes s) C r" and "set (cino C) \<subseteq> A"
  obtains d where "rbtree_update_to_root (cpar C) s = Some (s\<lparr>rb_data := d\<rparr>)" "later A s (s\<lparr>rb_data := d\<rparr>)"
proof (cases "cpar C = None \<or> rb_update s = None")
  case True
  have "s\<lparr>rb_data := rb_data s\<rparr> = s" by simp
  with True that [of "rb_data s"] show thesis by (simp add: rbtree_update_to_root_def)
next
  case False
  with update_loop_ctx [OF assms] that show thesis by (auto simp: rbtree_update_to_root_def)
qed

section \<open>Relinking\<close>

fun link :: "frm list \<Rightarrow> rbptr option \<Rightarrow> (rbptr \<Rightarrow> rbnode) \<Rightarrow> rbptr \<Rightarrow> rbnode" where
  "link [] r h = h"
| "link ((d, c, g, s) # C) r h = h(g := (h g)\<lparr>rb_children := (rb_children (h g))(d := r)\<rparr>)"

lemma repr_ctx_link: "repr_ctx h C r \<Longrightarrow> distinct (cino C) \<Longrightarrow> repr_ctx (link C r' h) C r'"
  by (cases "(C, r', h)" rule: link.cases) auto

lemma repr_link: "set (ino t) \<inter> set (cino C) = {} \<Longrightarrow> repr (link C r h) p t = repr h p t"
  by (cases "(C, r, h)" rule: link.cases) auto

lemma relink_ctx:
  assumes "repr_ctx (rb_nodes s) C (Some x)" and "x \<notin> set (cino C)"
  shows "(case cpar C of
            Some p \<Rightarrow> if chi s p RBNODE_RIGHT = Some x then set_chi p RBNODE_RIGHT y s else set_chi p RBNODE_LEFT y s
          | None \<Rightarrow> s\<lparr>rb_root := y\<rparr>) =
         s\<lparr>rb_nodes := link C y (rb_nodes s), rb_root := if C = [] then y else rb_root s\<rparr>"
    and "C \<noteq> [] \<Longrightarrow> RBNODE_FROM_PARENT x s = (if par s x = cpar C then Some (fst (hd C)) else RBNODE_FROM_PARENT x s)"
proof -
  show "(case cpar C of
            Some p \<Rightarrow> if chi s p RBNODE_RIGHT = Some x then set_chi p RBNODE_RIGHT y s else set_chi p RBNODE_LEFT y s
          | None \<Rightarrow> s\<lparr>rb_root := y\<rparr>) =
         s\<lparr>rb_nodes := link C y (rb_nodes s), rb_root := if C = [] then y else rb_root s\<rparr>"
  proof (cases C)
    case (Cons f C')
    obtain d c g t where f: "f = (d, c, g, t)" by (cases f)
    have "rt t \<noteq> Some x" using assms(2) Cons f rt_in by fastforce
    then show ?thesis using assms(1) Cons f by (cases d) (auto simp: set_chi_def)
  qed simp
  assume "C \<noteq> []"
  then obtain d c g t C' where C: "C = (d, c, g, t) # C'" by (cases C) (auto simp: prod_cases4)
  have "rt t \<noteq> Some x" using assms(2) C rt_in by fastforce
  then show "RBNODE_FROM_PARENT x s = (if par s x = cpar C then Some (fst (hd C)) else RBNODE_FROM_PARENT x s)"
    using assms(1) C by (cases d) (auto simp: RBNODE_FROM_PARENT_def)
qed

section \<open>Colours\<close>

fun recolor :: "rbnode_color \<Rightarrow> tr \<Rightarrow> tr" where
  "recolor k Lf = Lf"
| "recolor k (Nd c l x r) = Nd k l x r"

fun black :: "tr \<Rightarrow> bool" where
  "black Lf = True"
| "black (Nd c l x r) = (c = RBNODE_BLACK)"

lemma recolor_mk [simp]: "recolor k (mk d c a x b) = mk d k a x b" "black (mk d c a x b) = (c = RBNODE_BLACK)"
  by (cases d; simp add: mk_def)+

lemma recolor_simps [simp]: "rt (recolor k t) = rt t" "ino (recolor k t) = ino t"
  by (cases t; simp)+

lemma set_col_rep:
  assumes "rb_rep s (plug C t)" and "rt t = Some x"
  shows "rb_rep (set_col x k s) (plug C (recolor k t))"
proof -
  have D: "distinct (ino t @ cino C)" and R: "repr_ctx (rb_nodes s) C (Some x)" "repr (rb_nodes s) (cpar C) t"
    using assms by (simp_all add: rb_rep_def distinct_plug repr_plug)
  have x: "x \<notin> set (cino C)" using D rt_in [OF assms(2)] by auto
  have "repr (rb_nodes (set_col x k s)) (cpar C) (recolor k t)"
    using R(2) D assms(2) by (cases t) auto
  then show ?thesis
    using assms R(1) D x by (simp add: rb_rep_def distinct_plug repr_plug rt_plug)
qed

lemma is_black_rep: "repr (rb_nodes s) p t \<Longrightarrow> is_black (rt t) s = black t"
  by (cases t) (auto simp: is_black_def)

lemma linked_rep:
  assumes "rb_rep s (plug ((d, c, p, u) # C) t)" and "rt t = Some x"
  shows "par s x = Some p" "chi s p RBNODE_LEFT = Some x \<or> chi s p RBNODE_RIGHT = Some x" "RBNODE_FROM_PARENT x s = Some d"
    "chi s p d = Some x" "chi s p (RBNODE_OPPOSITE d) = rt u" "chi s p e = Some x \<longleftrightarrow> e = d" "col s p = c" "par s p = cpar C"
proof -
  have R: "repr_ctx (rb_nodes s) ((d, c, p, u) # C) (Some x)" "repr (rb_nodes s) (Some p) t"
    and D: "distinct (ino t @ cino ((d, c, p, u) # C))"
    using assms unfolding rb_rep_def distinct_plug repr_plug by simp_all
  show par: "par s x = Some p" using R(2) assms(2) by (cases t) auto
  have u: "rt u \<noteq> Some x" using D rt_in [OF assms(2)] rt_in [of u x] by auto
  show chi: "chi s p d = Some x" "chi s p (RBNODE_OPPOSITE d) = rt u" "col s p = c" "par s p = cpar C" using R(1) by simp_all
  then show "chi s p RBNODE_LEFT = Some x \<or> chi s p RBNODE_RIGHT = Some x" by (cases d) auto
  show "chi s p e = Some x \<longleftrightarrow> e = d" using chi u direction_cases [of e d] by auto
  show "RBNODE_FROM_PARENT x s = Some d"
    using chi par u by (cases d) (auto simp: RBNODE_FROM_PARENT_def)
qed

section \<open>Balance\<close>

fun bal :: "nat \<Rightarrow> tr \<Rightarrow> bool" where
  "bal n Lf \<longleftrightarrow> n = 0"
| "bal n (Nd RBNODE_RED l x r) \<longleftrightarrow> bal n l \<and> bal n r"
| "bal n (Nd RBNODE_BLACK l x r) \<longleftrightarrow> 0 < n \<and> bal (n - 1) l \<and> bal (n - 1) r"

fun nrr :: "tr \<Rightarrow> bool" where
  "nrr Lf \<longleftrightarrow> True"
| "nrr (Nd c l x r) \<longleftrightarrow> nrr l \<and> nrr r \<and> (c = RBNODE_RED \<longrightarrow> black l \<and> black r)"

text \<open>The red-black property: a black root, no red child of a red node, and as many black nodes on every
  path.\<close>

definition rbt :: "tr \<Rightarrow> bool" where
  "rbt T \<longleftrightarrow> black T \<and> nrr T \<and> (\<exists>n. bal n T)"

lemma nrr_mk [simp]: "nrr (mk d c a x b) \<longleftrightarrow> nrr a \<and> nrr b \<and> (c = RBNODE_RED \<longrightarrow> black a \<and> black b)"
  by (cases d) (auto simp: mk_def)

lemma bal_mk [simp]:
  "bal n (mk d RBNODE_RED a x b) \<longleftrightarrow> bal n a \<and> bal n b"
  "bal n (mk d RBNODE_BLACK a x b) \<longleftrightarrow> 0 < n \<and> bal (n - 1) a \<and> bal (n - 1) b"
  by (cases d; auto simp: mk_def)+

fun cbal :: "nat \<Rightarrow> frm list \<Rightarrow> nat \<Rightarrow> bool" where
  "cbal n [] m \<longleftrightarrow> n = m"
| "cbal n ((d, c, x, s) # C) m \<longleftrightarrow> bal n s \<and> cbal (if c = RBNODE_BLACK then Suc n else n) C m"

fun cblack :: "frm list \<Rightarrow> bool" where
  "cblack [] \<longleftrightarrow> True"
| "cblack ((d, c, x, s) # C) \<longleftrightarrow> c = RBNODE_BLACK"

fun cnrr :: "frm list \<Rightarrow> bool" where
  "cnrr [] \<longleftrightarrow> True"
| "cnrr ((d, c, x, s) # C) \<longleftrightarrow> nrr s \<and> (c = RBNODE_RED \<longrightarrow> black s \<and> cblack C) \<and> cnrr C"

lemma nrr_plug: "nrr (plug C t) \<longleftrightarrow> cnrr C \<and> nrr t \<and> (black t \<or> cblack C)"
proof (induction C t rule: plug.induct)
  case (2 d c x s C t)
  then show ?case by (cases c) auto
qed simp

lemma bal_plug: "bal m (plug C t) \<longleftrightarrow> (\<exists>n. cbal n C m \<and> bal n t)"
proof (induction C t rule: plug.induct)
  case (2 d c x s C t)
  have "(\<exists>n. P n \<and> 0 < n \<and> Q (n - 1)) \<longleftrightarrow> (\<exists>n. P (Suc n) \<and> Q n)" for P Q :: "nat \<Rightarrow> bool"
  proof
    assume "\<exists>n. P n \<and> 0 < n \<and> Q (n - 1)"
    then obtain n where "P n" "0 < n" "Q (n - 1)" by blast
    then show "\<exists>n. P (Suc n) \<and> Q n" by (intro exI [of _ "n - 1"]) simp
  qed (auto intro: exI [of _ "Suc _"])
  with 2 show ?case by (cases c) (auto simp: conj_ac)
qed simp

lemma bal_plugI: "cbal n C m \<Longrightarrow> bal n t \<Longrightarrow> bal m (plug C t)"
  by (auto simp: bal_plug)

lemma recolor_black [simp]:
  "black (recolor RBNODE_BLACK t)" "nrr t \<Longrightarrow> nrr (recolor RBNODE_BLACK t)"
  "\<not> black t \<Longrightarrow> bal (Suc n) (recolor RBNODE_BLACK t) = bal n t" "black t \<Longrightarrow> recolor RBNODE_BLACK t = t"
  by (cases "(n, t)" rule: bal.cases; auto)+

lemma rbt_recolor: "nrr T \<Longrightarrow> bal n T \<Longrightarrow> rbt (recolor RBNODE_BLACK T)"
  by (cases "black T") (auto simp: rbt_def intro: exI [of _ "Suc n"])

section \<open>Order\<close>

lemma ino_mk: "ino (mk RBNODE_LEFT c a x b) = ino a @ x # ino b" "ino (mk RBNODE_RIGHT c a x b) = ino b @ x # ino a"
  by (simp_all add: mk_def)

lemma ino_mk_cong: "ino a = ino a' \<Longrightarrow> ino b = ino b' \<Longrightarrow> ino (mk d c a x b) = ino (mk d c' a' x b')"
  by (cases d) (simp_all add: ino_mk)

lemma ino_plug_cong: "ino t = ino t' \<Longrightarrow> ino (plug C t) = ino (plug C t')"
proof (induction C arbitrary: t t')
  case (Cons f C)
  obtain d c x s where f: "f = (d, c, x, s)" by (cases f)
  have "ino (mk d c t x s) = ino (mk d c t' x s)" using Cons.prems by (cases d) (simp_all add: ino_mk)
  then show ?case unfolding f plug.simps by (rule Cons.IH)
qed simp

lemma ino_rotate: "ino (mk d c (mk d c' a x b) y e) = ino (mk d k a x (mk d k' b y e))"
  by (cases d) (simp_all add: ino_mk)

section \<open>Links\<close>

lemma zip_at: "x \<in> set (ino T) \<Longrightarrow> \<exists>C' c l r. plug C T = plug C' (Nd c l x r)"
proof (induction T arbitrary: C)
  case (Nd c l y r)
  have "plug C (Nd c l y r) = plug ((RBNODE_LEFT, c, y, r) # C) l" "plug C (Nd c l y r) = plug ((RBNODE_RIGHT, c, y, l) # C) r"
    by (simp_all add: mk_def)
  with Nd show ?case by (metis Un_iff ino.simps(2) list.set_intros(1) set_ConsD set_append)
qed simp

lemma frame_in: "(d, c, q, u) \<in> set C \<Longrightarrow> q \<in> set (cino C)"
  by (induction C rule: cino.induct) auto

text \<open>What a node of the tree and its neighbours know of each other.\<close>

lemma links:
  assumes "rb_rep s T" and "x \<in> set (ino T)"
  shows "chi s x d = Some y \<Longrightarrow> y \<in> set (ino T) \<and> par s y = Some x \<and> y \<noteq> x \<and> par s x \<noteq> Some y"
    and "par s x = Some p \<Longrightarrow> p \<in> set (ino T) \<and> p \<noteq> x \<and> par s p \<noteq> Some x \<and> (\<exists>d. chi s p d = Some x)"
    and "chi s x d = Some y \<Longrightarrow> chi s x e = Some y \<Longrightarrow> d = e"
    and "par s x = None \<longleftrightarrow> rb_root s = Some x"
proof -
  obtain C c l r where T: "T = plug C (Nd c l x r)" using zip_at [OF assms(2), of "[]"] by auto
  have D: "distinct ((ino l @ x # ino r) @ cino C)" and R: "repr_ctx (rb_nodes s) C (Some x)"
    "repr (rb_nodes s) (cpar C) (Nd c l x r)" and root: "rb_root s = rt T"
    using assms(1) unfolding T rb_rep_def distinct_plug repr_plug by simp_all
  have ct: "chi s x d = Some y \<Longrightarrow> rt l = Some y \<or> rt r = Some y" for d y
    using R(2) by (cases d) auto
  show "chi s x d = Some y \<Longrightarrow> y \<in> set (ino T) \<and> par s y = Some x \<and> y \<noteq> x \<and> par s x \<noteq> Some y"
  proof -
    assume "chi s x d = Some y"
    with ct have y: "rt l = Some y \<or> rt r = Some y" by blast
    then have "y \<in> set (ino l) \<union> set (ino r)" using rt_in by blast
    moreover have "cpar C = Some y \<Longrightarrow> y \<in> set (cino C)" by (cases C rule: cpar.cases) auto
    moreover have "par s y = Some x" using y R(2) by (cases l; cases r) auto
    ultimately show ?thesis using D R(2) unfolding T set_plug by auto
  qed
  show "par s x = Some p \<Longrightarrow> p \<in> set (ino T) \<and> p \<noteq> x \<and> par s p \<noteq> Some x \<and> (\<exists>d. chi s p d = Some x)"
  proof -
    assume "par s x = Some p"
    then obtain d k u C' where C: "C = (d, k, p, u) # C'" using R(2) by (cases C rule: cpar.cases) auto
    have "cpar C' = Some x \<Longrightarrow> x \<in> set (cino C')" by (cases C' rule: cpar.cases) auto
    then show ?thesis using R(1) D unfolding C T set_plug by auto
  qed
  show "chi s x d = Some y \<Longrightarrow> chi s x e = Some y \<Longrightarrow> d = e"
  proof -
    have "\<not> (rt l = Some y \<and> rt r = Some y)" using D rt_in [of l y] rt_in [of r y] by auto
    moreover have "chi s x RBNODE_LEFT = rt l" "chi s x RBNODE_RIGHT = rt r" using R(2) by simp_all
    ultimately show "chi s x d = Some y \<Longrightarrow> chi s x e = Some y \<Longrightarrow> d = e" by (cases d; cases e) simp_all
  qed
  show "par s x = None \<longleftrightarrow> rb_root s = Some x"
  proof (cases C)
    case Nil
    then show ?thesis using R(2) root T by simp
  next
    case (Cons f C')
    then have "par s x \<noteq> None" using R(2) by (cases f) auto
    moreover obtain d2 c2 q u where q: "last C = (d2, c2, q, u)" "(d2, c2, q, u) \<in> set C"
      using Cons by (cases "last C") (metis last_in_set list.distinct(1))
    then have "q \<in> set (cino C)" using frame_in by blast
    then have "rt T \<noteq> Some x" using q Cons D unfolding T by (auto simp: rt_plug)
    ultimately show ?thesis using root by simp
  qed
qed

lemma child_iff:
  assumes "rb_rep s T" and "a \<in> set (ino T)" and "x \<in> set (ino T)"
  shows "chi s a RBNODE_RIGHT = Some x \<or> chi s a RBNODE_LEFT = Some x \<longleftrightarrow> par s x = Some a"
proof
  assume "par s x = Some a"
  then obtain d where "chi s a d = Some x" using links(2) [OF assms(1,3)] by blast
  then show "chi s a RBNODE_RIGHT = Some x \<or> chi s a RBNODE_LEFT = Some x" by (cases d) auto
qed (use links(1) [OF assms(1,2)] in blast)

lemma fields:
  "par (set_par x p s) y = (if y = x then p else par s y)" "chi (set_par x p s) y e = chi s y e" "col (set_par x p s) y = col s y"
  "par (set_chi x d q s) y = par s y" "chi (set_chi x d q s) y e = (if y = x \<and> e = d then q else chi s y e)" "col (set_chi x d q s) y = col s y"
  "par (set_col x k s) y = par s y" "chi (set_col x k s) y e = chi s y e" "col (set_col x k s) y = (if y = x then k else col s y)"
  "par (set_par_opt r p s) y = (if r = Some y then p else par s y)" "chi (set_par_opt r p s) y e = chi s y e" "col (set_par_opt r p s) y = col s y"
  "par (s\<lparr>rb_root := r\<rparr>) y = par s y" "chi (s\<lparr>rb_root := r\<rparr>) y e = chi s y e" "col (s\<lparr>rb_root := r\<rparr>) y = col s y"
  by (auto simp: set_par_opt_def split: option.split)

end
