(* ===== verification/Rbtree_Augment.thy ===== *)
theory Rbtree_Augment
  imports Rbtree_Spec
begin

text \<open>
  The update callback of the red-black tree: which data are up to date, what the walk to the root brings up to date,
  and the rotation of \<^verbatim>\<open>src/kernel/utils/rbtree.c\<close>, which keeps all data so.
\<close>

section \<open>Data that are up to date\<close>

text \<open>A callback computes the data of a node from its own and from that of its children.\<close>

definition augments :: "((rbptr \<Rightarrow> rbnode) \<Rightarrow> rbptr \<Rightarrow> 'd \<Rightarrow> 'd) \<Rightarrow> bool" where
  "augments u \<longleftrightarrow>
     (\<forall>h h' x. rb_children (h x) = rb_children (h' x) \<longrightarrow> u h x = u h' x) \<and>
     (\<forall>h x d. (\<forall>e. rb_children (h x) e \<noteq> Some x) \<longrightarrow> u h x (u h x d) = u h x d) \<and>
     (\<forall>h x y d. x \<noteq> y \<longrightarrow> (\<forall>e. rb_children (h y) e \<noteq> Some x) \<longrightarrow> u h y d = d \<longrightarrow> u h y (u h x d) = u h x d)"

lemma augmentsD:
  assumes "augments u"
  shows "rb_children (h x) = rb_children (h' x) \<Longrightarrow> u h x = u h' x"
    and "(\<And>e. rb_children (h x) e \<noteq> Some x) \<Longrightarrow> u h x (u h x d) = u h x d"
    and "x \<noteq> y \<Longrightarrow> (\<And>e. rb_children (h y) e \<noteq> Some x) \<Longrightarrow> u h y d = d \<Longrightarrow> u h y (u h x d) = u h x d"
proof -
  note u = assms [unfolded augments_def]
  show "rb_children (h x) = rb_children (h' x) \<Longrightarrow> u h x = u h' x" by (rule conjunct1 [OF u, rule_format])
  show "(\<And>e. rb_children (h x) e \<noteq> Some x) \<Longrightarrow> u h x (u h x d) = u h x d" by (rule conjunct1 [OF conjunct2 [OF u], rule_format])
  show "x \<noteq> y \<Longrightarrow> (\<And>e. rb_children (h y) e \<noteq> Some x) \<Longrightarrow> u h y d = d \<Longrightarrow> u h y (u h x d) = u h x d"
    by (rule conjunct2 [OF conjunct2 [OF u], rule_format])
qed

definition augmented :: "'d rbtree \<Rightarrow> bool" where
  "augmented s \<longleftrightarrow> (\<forall>u. rb_update s = Some u \<longrightarrow> augments u)"

definition fresh_at :: "'d rbtree \<Rightarrow> rbptr \<Rightarrow> bool" where
  "fresh_at s x \<longleftrightarrow> (\<forall>u. rb_update s = Some u \<longrightarrow> u (rb_nodes s) x (rb_data s) = rb_data s)"

lemma fresh_at_cong:
  assumes "augmented s" and "rb_update s' = rb_update s" and "rb_data s' = rb_data s"
    and "rb_children (rb_nodes s' x) = rb_children (rb_nodes s x)"
  shows "fresh_at s' x = fresh_at s x"
proof (cases "rb_update s")
  case (Some u)
  then have "u (rb_nodes s') x = u (rb_nodes s) x" using assms by (intro augmentsD(1)) (simp_all add: augmented_def)
  then show ?thesis using assms Some by (simp add: fresh_at_def)
qed (use assms in \<open>simp add: fresh_at_def\<close>)

text \<open>The nodes below the root, and the nodes above a node.\<close>

inductive_set reach :: "rbptr option \<Rightarrow> (rbptr \<Rightarrow> rbnode_direction \<Rightarrow> rbptr option) \<Rightarrow> rbptr set" for r f where
  root: "r = Some x \<Longrightarrow> x \<in> reach r f"
| child: "x \<in> reach r f \<Longrightarrow> f x d = Some y \<Longrightarrow> y \<in> reach r f"

abbreviation tnodes :: "'d rbtree \<Rightarrow> rbptr set" where
  "tnodes s \<equiv> reach (rb_root s) (\<lambda>x. rb_children (rb_nodes s x))"

lemma reach_below: "repr h p t \<Longrightarrow> (\<And>x. rt t = Some x \<Longrightarrow> x \<in> reach r (\<lambda>x. rb_children (h x))) \<Longrightarrow> set (ino t) \<subseteq> reach r (\<lambda>x. rb_children (h x))"
proof (induction t arbitrary: p)
  case (Nd c l x r')
  have x: "x \<in> reach r (\<lambda>x. rb_children (h x))" using Nd.prems(2) by simp
  have ch: "rb_children (h x) RBNODE_LEFT = rt l" "rb_children (h x) RBNODE_RIGHT = rt r'" "repr h (Some x) l" "repr h (Some x) r'"
    using Nd.prems(1) by simp_all
  have "set (ino l) \<subseteq> reach r (\<lambda>x. rb_children (h x))"
    by (rule Nd.IH(1) [OF ch(3)], rule reach.child [OF x, of RBNODE_LEFT]) (simp add: ch(1))
  moreover have "set (ino r') \<subseteq> reach r (\<lambda>x. rb_children (h x))"
    by (rule Nd.IH(2) [OF ch(4)], rule reach.child [OF x, of RBNODE_RIGHT]) (simp add: ch(2))
  ultimately show ?case using x by simp
qed simp

lemma tnodes_rep:
  assumes "rb_rep s T"
  shows "tnodes s = set (ino T)"
proof (intro equalityI subsetI)
  fix x
  assume "x \<in> tnodes s"
  then show "x \<in> set (ino T)"
  proof induction
    case (root x)
    then show ?case using assms rt_in [of T x] by (simp add: rb_rep_def)
  next
    case (child x d y)
    then show ?case using links(1) [OF assms] by blast
  qed
next
  have "set (ino T) \<subseteq> tnodes s" using assms by (intro reach_below) (auto simp: rb_rep_def intro: reach.root)
  then show "x \<in> set (ino T) \<Longrightarrow> x \<in> tnodes s" for x by blast
qed

inductive_set ups :: "'d rbtree \<Rightarrow> rbptr \<Rightarrow> rbptr set" for s x where
  self: "x \<in> ups s x"
| up: "y \<in> ups s x \<Longrightarrow> par s y = Some z \<Longrightarrow> z \<in> ups s x"

lemma ups_data [simp]: "ups (s\<lparr>rb_data := d\<rparr>) x = ups s x"
proof (intro equalityI subsetI)
  show "y \<in> ups s x" if "y \<in> ups (s\<lparr>rb_data := d\<rparr>) x" for y
    using that by induction (auto intro: ups.intros)
  show "y \<in> ups (s\<lparr>rb_data := d\<rparr>) x" if "y \<in> ups s x" for y
    using that by induction (auto intro: ups.intros)
qed

lemma ups_in: "rb_rep s T \<Longrightarrow> x \<in> set (ino T) \<Longrightarrow> y \<in> ups s x \<Longrightarrow> y \<in> set (ino T)"
proof -
  assume rep: "rb_rep s T" and x: "x \<in> set (ino T)" and y: "y \<in> ups s x"
  from y show "y \<in> set (ino T)"
  proof induction
    case (up y z)
    then show ?case using links(2) [OF rep up(3) up(2)] by blast
  qed (rule x)
qed

fun cpath :: "frm list \<Rightarrow> rbptr list" where
  "cpath [] = []"
| "cpath ((d, c, x, t) # C) = x # cpath C"

lemma cpar_path: "cpar C = Some p \<Longrightarrow> p \<in> set (cpath C)"
  by (cases C rule: cpar.cases) auto

lemma cpath_cino: "set (cpath C) \<subseteq> set (cino C)"
  by (induction C rule: cpath.induct) auto

lemma cpath_up: "repr_ctx h C r \<Longrightarrow> y \<in> set (cpath C) \<Longrightarrow> rb_parent (h y) = Some z \<Longrightarrow> z \<in> set (cpath C)"
proof (induction C arbitrary: r rule: cpath.induct)
  case (2 d c x t C)
  then show ?case using cpar_path [of C z] by auto
qed simp

lemma cpath_ups: "repr_ctx (rb_nodes s) C r \<Longrightarrow> (\<And>p. cpar C = Some p \<Longrightarrow> p \<in> ups s x) \<Longrightarrow> set (cpath C) \<subseteq> ups s x"
proof (induction C arbitrary: r rule: cpath.induct)
  case (2 d c y t C)
  have y: "y \<in> ups s x" using 2(3) by simp
  have "set (cpath C) \<subseteq> ups s x"
    by (rule 2(1) [of "Some y"]) (use 2(2) ups.up [OF y] in auto)
  then show ?case using y by simp
qed simp

lemma ups_rep:
  assumes "rb_rep s (plug C t)" and "rt t = Some x"
  shows "ups s x = insert x (set (cpath C))"
proof (intro equalityI subsetI)
  have R: "repr_ctx (rb_nodes s) C (Some x)" "par s x = cpar C"
    using assms unfolding rb_rep_def repr_plug by (cases t; simp)+
  fix y
  show "y \<in> ups s x \<Longrightarrow> y \<in> insert x (set (cpath C))"
  proof (induction rule: ups.induct)
    case (up y z)
    then show ?case using R cpar_path [of C z] cpath_up [OF R(1), of y z] by auto
  qed simp
  have "set (cpath C) \<subseteq> ups s x" by (rule cpath_ups [OF R(1)]) (use R(2) ups.up [OF ups.self] in auto)
  then show "y \<in> insert x (set (cpath C)) \<Longrightarrow> y \<in> ups s x" using ups.self by blast
qed

definition sfresh :: "'d rbtree \<Rightarrow> bool" where
  "sfresh s \<longleftrightarrow> (\<forall>x \<in> tnodes s. fresh_at s x)"

text \<open>All but a node and those above it.\<close>

definition nfresh :: "rbptr \<Rightarrow> 'd rbtree \<Rightarrow> bool" where
  "nfresh x s \<longleftrightarrow> (\<forall>y \<in> tnodes s - ups s x. fresh_at s y)"

section \<open>The walk to the root\<close>

lemma update_step:
  assumes rep: "rb_rep s T" and x: "x \<in> set (ino T)" and a: "augmented s" and y: "y \<in> set (ino T)"
    and old: "y \<noteq> x \<Longrightarrow> par s x \<noteq> Some y \<and> fresh_at s y"
  shows "fresh_at (rbtree_update (Some x) s) y"
proof (cases "rb_update s")
  case (Some u)
  have u: "augments u" using a Some by (simp add: augmented_def)
  have eq: "rbtree_update (Some x) s = s\<lparr>rb_data := u (rb_nodes s) x (rb_data s)\<rparr>" using Some by (simp add: rbtree_update_def)
  show ?thesis
  proof (cases "y = x")
    case True
    have "\<forall>e. chi s x e \<noteq> Some x" using links(1) [OF rep x] by blast
    then have "u (rb_nodes s) x (u (rb_nodes s) x (rb_data s)) = u (rb_nodes s) x (rb_data s)" by (intro augmentsD(2) [OF u]) simp
    then show ?thesis using Some unfolding eq True fresh_at_def by simp
  next
    case False
    then have "\<forall>e. chi s y e \<noteq> Some x" using links(1) [OF rep y] old by blast
    moreover have "u (rb_nodes s) y (rb_data s) = rb_data s" using old [OF False] Some by (simp add: fresh_at_def)
    ultimately have "u (rb_nodes s) y (u (rb_nodes s) x (rb_data s)) = u (rb_nodes s) x (rb_data s)"
      using False by (intro augmentsD(3) [OF u]) auto
    then show ?thesis using Some unfolding eq fresh_at_def by simp
  qed
qed (simp add: fresh_at_def rbtree_update_def)

lemma update_loop_fresh:
  "rb_rep s (plug C t) \<Longrightarrow> augmented s \<Longrightarrow> update_loop (cpar C) s = Some s' \<Longrightarrow>
     (\<And>y. y \<in> set (ino (plug C t)) \<Longrightarrow> y \<notin> Q \<Longrightarrow> y \<notin> set (cpath C) \<Longrightarrow> fresh_at s y) \<Longrightarrow>
     y \<in> set (ino (plug C t)) \<Longrightarrow> y \<notin> Q \<Longrightarrow> fresh_at s' y"
proof (induction C arbitrary: s t)
  case (Cons f C)
  obtain d c x u where f: "f = (d, c, x, u)" by (cases f)
  let ?t = "mk d c t x u" and ?s = "rbtree_update (Some x) s"
  obtain d1 where d1: "?s = s\<lparr>rb_data := d1\<rparr>" using update_later(2) [of "Some x" s] by (rule exE)
  have rep: "rb_rep s (plug C ?t)" using Cons.prems(1) f by simp
  have x: "x \<in> set (ino (plug C ?t))" "par s x = cpar C"
    using rep by (auto simp: set_plug rb_rep_def repr_plug)
  have "update_loop (cpar C) ?s = Some s'"
    using Cons.prems(3) f x(2) by (simp add: update_loop.simps [of "Some x"])
  moreover have "rb_rep ?s (plug C ?t)" "augmented ?s" using rep Cons.prems(2) d1 by (simp_all add: augmented_def)
  moreover have "fresh_at ?s z" if "z \<in> set (ino (plug C ?t))" "z \<notin> Q" "z \<notin> set (cpath C)" for z
  proof (rule update_step [OF rep x(1) Cons.prems(2) that(1)])
    assume "z \<noteq> x"
    then show "par s x \<noteq> Some z \<and> fresh_at s z" using that Cons.prems(4) [of z] f x(2) cpar_path [of C z] by auto
  qed
  ultimately show ?case using Cons.IH [of ?s ?t] Cons.prems(5,6) f by simp
qed (simp add: update_loop.simps)

lemma update_to_root_fresh:
  assumes "rb_rep s (plug C t)" "augmented s" "rbtree_update_to_root (cpar C) s = Some s'"
    and "\<And>y. y \<in> set (ino (plug C t)) \<Longrightarrow> y \<notin> Q \<Longrightarrow> y \<notin> set (cpath C) \<Longrightarrow> fresh_at s y"
    and "y \<in> set (ino (plug C t))" "y \<notin> Q"
  shows "fresh_at s' y"
proof (cases "cpar C = None \<or> rb_update s = None")
  case True
  then have "C = [] \<or> rb_update s = None" by (cases C rule: cpar.cases) auto
  then show ?thesis using True assms by (auto simp: rbtree_update_to_root_def fresh_at_def)
next
  case False
  then have "update_loop (cpar C) s = Some s'" using assms(3) unfolding rbtree_update_to_root_def by (simp only: if_False)
  then show ?thesis by (rule update_loop_fresh [OF assms(1,2) _ assms(4-6)])
qed

definition refreshes :: "rbptr \<Rightarrow> 'd rbtree \<Rightarrow> 'd rbtree \<Rightarrow> bool" where
  "refreshes x s s' \<longleftrightarrow> (\<forall>Q. augmented s \<longrightarrow> (\<forall>y \<in> tnodes s - Q - ups s x. fresh_at s y) \<longrightarrow> (\<forall>y \<in> tnodes s - Q. fresh_at s' y))"

lemma refreshes_all: "refreshes x s s' \<Longrightarrow> augmented s \<Longrightarrow> nfresh x s \<Longrightarrow> tnodes s' = tnodes s \<Longrightarrow> sfresh s'"
  unfolding refreshes_def nfresh_def sfresh_def by (metis Diff_empty)

lemma sfresh_nfresh: "sfresh s \<Longrightarrow> nfresh x s"
  by (simp add: sfresh_def nfresh_def)

lemma update_at:
  assumes rep: "rb_rep s T" and x: "x \<in> set (ino T)" and A: "set (ino T) \<subseteq> A"
  obtains d where "rbtree_update_to_root (Some x) s = Some (s\<lparr>rb_data := d\<rparr>)" "later A s (s\<lparr>rb_data := d\<rparr>)"
    "refreshes x s (s\<lparr>rb_data := d\<rparr>)"
proof -
  obtain C c l r where T: "T = plug C (Nd c l x r)" using zip_at [OF x, of "[]"] by auto
  let ?C = "(RBNODE_LEFT, c, x, r) # C"
  have T': "T = plug ?C l" using T by (simp add: mk_def)
  have R: "repr_ctx (rb_nodes s) ?C (rt l)" using rep unfolding T' rb_rep_def repr_plug by blast
  have C: "set (cino ?C) \<subseteq> A" using A unfolding T' set_plug by blast
  obtain d where d: "rbtree_update_to_root (cpar ?C) s = Some (s\<lparr>rb_data := d\<rparr>)" "later A s (s\<lparr>rb_data := d\<rparr>)"
    by (rule update_to_root_ctx [OF R C])
  have "ups s x = set (cpath ?C)" using ups_rep [of s C "Nd c l x r" x] rep T by simp
  then have "refreshes x s (s\<lparr>rb_data := d\<rparr>)"
    using update_to_root_fresh [OF rep [unfolded T'] _ d(1)] tnodes_rep [OF rep] unfolding refreshes_def T' by blast
  moreover have "rbtree_update_to_root (Some x) s = Some (s\<lparr>rb_data := d\<rparr>)" using d(1) by simp
  ultimately show thesis using that d(2) by blast
qed

section \<open>What an operation keeps\<close>

text \<open>The operation works on nodes of \<open>A\<close> only and leaves the data up to date.\<close>

definition keeps :: "rbptr set \<Rightarrow> 'd rbtree \<Rightarrow> 'd rbtree \<Rightarrow> bool" where
  "keeps A s s' \<longleftrightarrow> later A s s' \<and> (\<forall>v. v \<notin> A \<longrightarrow> rb_nodes s' v = rb_nodes s v) \<and> (augmented s \<longrightarrow> sfresh s \<longrightarrow> sfresh s')"

lemma later_augmented: "later A s s' \<Longrightarrow> augmented s' = augmented s"
  by (simp add: later_def augmented_def)

lemma sfresh_set_col [simp]: "augmented s \<Longrightarrow> sfresh (set_col x k s) = sfresh s"
proof -
  assume a: "augmented s"
  have ch: "rb_children (rb_nodes (set_col x k s) y) = rb_children (rb_nodes s y)" for y by (rule ext) (simp add: fields del: setters(1-3))
  have "fresh_at (set_col x k s) y = fresh_at s y" for y by (rule fresh_at_cong [OF a]) (simp_all add: ch del: setters(1-3))
  then show ?thesis by (simp add: sfresh_def ch del: setters(1-3))
qed

lemma keeps_refl [simp]: "keeps A s s"
  by (simp add: keeps_def)

lemma keeps_trans: "keeps A s s' \<Longrightarrow> keeps A s' s'' \<Longrightarrow> keeps A s s''"
  using later_trans [of A s s' s''] later_augmented [of A s s'] by (auto simp: keeps_def)

lemma keeps_set_col [simp]: "x \<in> A \<Longrightarrow> keeps A s t \<Longrightarrow> keeps A s (set_col x k t)"
  using later_augmented [of A s t] by (auto simp: keeps_def)

section \<open>Rotation\<close>

lemma set_par_opt_nodes:
  "rb_nodes (set_par_opt r p s) = (case r of None \<Rightarrow> rb_nodes s | Some x \<Rightarrow> (rb_nodes s)(x := (rb_nodes s x)\<lparr>rb_parent := p\<rparr>))"
  "rb_root (set_par_opt r p s) = rb_root s" "rb_update (set_par_opt r p s) = rb_update s"
  "rb_compare (set_par_opt r p s) = rb_compare s" "rb_data (set_par_opt r p s) = rb_data s"
  by (simp_all add: set_par_opt_def split: option.split)

lemma repr_reparent_opt:
  assumes "repr h p t" and "distinct (ino t)"
  shows "repr (case rt t of None \<Rightarrow> h | Some x \<Rightarrow> h(x := (h x)\<lparr>rb_parent := q\<rparr>)) q t"
  using assms by (cases t) auto

text \<open>The assignments of the rotation, before the callbacks.\<close>

definition rotate_links :: "rbptr \<Rightarrow> rbptr \<Rightarrow> rbnode_direction \<Rightarrow> 'd rbtree \<Rightarrow> 'd rbtree" where
  "rotate_links node newRoot direction tree =
     (let opposite = RBNODE_OPPOSITE direction; parent = par tree node;
          newChild = chi tree newRoot direction;
          tree = set_chi node opposite newChild tree;
          tree = set_par_opt newChild (Some node) tree;
          tree = set_chi newRoot direction (Some node) tree;
          tree = set_par newRoot parent tree;
          tree = set_par node (Some newRoot) tree
      in case parent of
           Some p \<Rightarrow>
             if chi tree p RBNODE_RIGHT = Some node then set_chi p RBNODE_RIGHT (Some newRoot) tree
             else set_chi p RBNODE_LEFT (Some newRoot) tree
         | None \<Rightarrow> tree\<lparr>rb_root := Some newRoot\<rparr>)"

lemma rotate_links_rep:
  assumes "rb_rep s (plug C (mk d c a x (mk d c' b y e)))"
  shows "rb_rep (rotate_links x y d s) (plug C (mk d c' (mk d c a x b) y e))" and "later A s (rotate_links x y d s)"
proof -
  let ?h = "rb_nodes s" and ?o = "RBNODE_OPPOSITE d"
  have D: "distinct (ino (mk d c a x (mk d c' b y e)) @ cino C)" and R: "repr_ctx ?h C (Some x)"
    "repr ?h (cpar C) (mk d c a x (mk d c' b y e))" "rb_root s = rt (plug C (mk d c a x (mk d c' b y e)))"
    using assms by (simp_all add: rb_rep_def distinct_plug repr_plug)
  have chi: "chi s y d = rt b" "par s x = cpar C" using R(2) by simp_all
  let ?s = "set_par x (Some y) (set_par y (cpar C) (set_chi y d (Some x)
              (set_par_opt (rt b) (Some x) (set_chi x ?o (rt b) s))))"
  have nb: "z \<noteq> x" "z \<noteq> y" "z \<notin> set (cino C)" "z \<notin> set (ino a)" "z \<notin> set (ino e)" if "rt b = Some z" for z
    using D rt_in [OF that] by auto
  have ctx: "repr_ctx (rb_nodes ?s) C (Some x)"
    using R(1) D nb by (cases "rt b") (simp_all add: set_par_opt_nodes)
  have "repr ?h (Some y) b" "distinct (ino b)" "x \<notin> set (ino b)" "y \<notin> set (ino b)" using R(2) D by auto
  from repr_reparent_opt [OF this(1,2), of "Some x"] this(3,4) have b: "repr (rb_nodes ?s) (Some x) b"
    by (cases b) (simp_all add: set_par_opt_nodes)
  have t: "repr (rb_nodes ?s) (cpar C) (mk d c' (mk d c a x b) y e)"
    using R(2) D nb b by (cases "rt b") (auto simp: set_par_opt_nodes)
  have xC: "x \<notin> set (cino C)" using D by auto
  have eq: "rotate_links x y d s = ?s\<lparr>rb_nodes := link C (Some y) (rb_nodes ?s), rb_root := if C = [] then Some y else rb_root ?s\<rparr>"
    using relink_ctx(1) [OF ctx xC, of "Some y"] unfolding rotate_links_def Let_def chi by simp
  have dc: "distinct (cino C)" "set (ino (mk d c' (mk d c a x b) y e)) \<inter> set (cino C) = {}" using D by auto
  have "rt (plug C (mk d c' (mk d c a x b) y e)) = (if C = [] then Some y else rb_root ?s)"
    using R(3) by (simp add: rt_plug set_par_opt_nodes)
  moreover have "distinct (ino (mk d c' (mk d c a x b) y e) @ cino C)" using D by auto
  ultimately show "rb_rep (rotate_links x y d s) (plug C (mk d c' (mk d c a x b) y e))"
    using repr_ctx_link [OF ctx dc(1)] t repr_link [OF dc(2)] unfolding eq
    by (simp add: rb_rep_def distinct_plug repr_plug)
  show "later A s (rotate_links x y d s)"
    unfolding eq by (simp add: later_def updated_def set_par_opt_nodes)
qed

lemma rotate_links_frame:
  assumes rep: "rb_rep s (plug C (mk d c a x (mk d c' b y e)))" and v: "v \<noteq> x" "v \<noteq> y" "cpar C \<noteq> Some v"
  shows "rb_children (rb_nodes (rotate_links x y d s) v) = rb_children (rb_nodes s v)"
    and "rt b \<noteq> Some v \<Longrightarrow> rb_nodes (rotate_links x y d s) v = rb_nodes s v"
proof -
  have ch: "chi s y d = rt b" "par s x = cpar C" using rep by (simp_all add: rb_rep_def repr_plug)
  show "rb_children (rb_nodes (rotate_links x y d s) v) = rb_children (rb_nodes s v)"
    using v unfolding rotate_links_def Let_def ch by (cases "rt b"; cases "cpar C") (simp_all add: set_par_opt_nodes)
  show "rt b \<noteq> Some v \<Longrightarrow> rb_nodes (rotate_links x y d s) v = rb_nodes s v"
    using v unfolding rotate_links_def Let_def ch by (cases "rt b"; cases "cpar C") (simp_all add: set_par_opt_nodes)
qed

lemma rotate_correct:
  assumes rep: "rb_rep s (plug C (mk d c a x (mk d c' b y e)))" and A: "set (ino (plug C (mk d c a x (mk d c' b y e)))) \<subseteq> A"
  obtains s' where "rbtree_rotate x d s = Some (y, s')" "rb_rep s' (plug C (mk d c' (mk d c a x b) y e))" "keeps A s s'"
proof -
  let ?s1 = "rotate_links x y d s" and ?T = "plug C (mk d c' (mk d c a x b) y e)"
  note r = rotate_links_rep [OF rep]
  have A': "set (ino ?T) \<subseteq> A" and eq: "set (ino ?T) = set (ino (plug C (mk d c a x (mk d c' b y e))))" and xy: "x \<in> set (ino ?T)" "y \<in> set (ino ?T)"
    using A by (auto simp: set_plug)
  have y: "chi s x (RBNODE_OPPOSITE d) = Some y" using rep by (simp add: rb_rep_def repr_plug)
  obtain d1 where d1: "rbtree_update_to_root (Some x) ?s1 = Some (?s1\<lparr>rb_data := d1\<rparr>)" "later A ?s1 (?s1\<lparr>rb_data := d1\<rparr>)"
    "refreshes x ?s1 (?s1\<lparr>rb_data := d1\<rparr>)"
    by (rule update_at [OF r(1) xy(1) A'])
  let ?s2 = "?s1\<lparr>rb_data := d1\<rparr>"
  have r2: "rb_rep ?s2 ?T" using r(1) by simp
  obtain d2 where d2: "rbtree_update_to_root (Some y) ?s2 = Some (?s2\<lparr>rb_data := d2\<rparr>)" "later A ?s2 (?s2\<lparr>rb_data := d2\<rparr>)"
    "refreshes y ?s2 (?s2\<lparr>rb_data := d2\<rparr>)"
    by (rule update_at [OF r2 xy(2) A'])
  let ?s3 = "?s2\<lparr>rb_data := d2\<rparr>"
  have "rbtree_rotate x d s = do {
      tree \<leftarrow> rbtree_update_to_root (Some x) ?s1;
      tree \<leftarrow> rbtree_update_to_root (Some y) tree;
      Some (y, tree) }"
    unfolding rbtree_rotate_def rotate_links_def Let_def y by simp
  then have rot: "rbtree_rotate x d s = Some (y, ?s3)" using d1(1) d2(1) by simp
  have rep3: "rb_rep ?s3 ?T" using r(1) by simp
  have later: "later A s ?s3" using later_trans [OF r(2) later_trans [OF d1(2) d2(2)]] .
  have frame: "rb_nodes ?s3 v = rb_nodes s v" if "v \<notin> A" for v
  proof -
    have "v \<noteq> x" "v \<noteq> y" "rt b \<noteq> Some v" "cpar C \<noteq> Some v"
      using that A rt_in [of b v] cpar_path [of C v] cpath_cino [of C] by (auto simp: set_plug)
    then show ?thesis using rotate_links_frame(2) [OF rep] by simp
  qed
  have "sfresh ?s3" if a: "augmented s" and f: "sfresh s"
  proof -
    have a1: "augmented ?s1" "augmented ?s2" using a later_augmented [OF r(2)] by (simp_all add: augmented_def)
    have "rb_rep ?s1 (plug ((d, c', y, e) # C) (mk d c a x b))" using r(1) by simp
    then have up: "ups ?s1 x = insert x (insert y (set (cpath C)))" using ups_rep [of ?s1 "(d, c', y, e) # C" _ x] by simp
    have "fresh_at ?s1 z" if z: "z \<in> set (ino ?T)" "z \<notin> ups ?s1 x" for z
    proof -
      have "fresh_at s z" using f z(1) tnodes_rep [OF rep] eq by (simp add: sfresh_def)
      moreover have "fresh_at ?s1 z = fresh_at s z"
      proof (rule fresh_at_cong [OF a])
        show "rb_children (rb_nodes ?s1 z) = rb_children (rb_nodes s z)"
          using rotate_links_frame(1) [OF rep] z(2) up cpar_path by auto
        show "rb_update ?s1 = rb_update s" using r(2) by (simp add: later_def)
        show "rb_data ?s1 = rb_data s" by (simp add: rotate_links_def Let_def set_par_opt_nodes split: option.split)
      qed
      ultimately show ?thesis by simp
    qed
    then have "nfresh x ?s1" using tnodes_rep [OF r(1)] by (simp add: nfresh_def)
    then have "sfresh ?s2" using refreshes_all [OF d1(3) a1(1)] by simp
    then show ?thesis using refreshes_all [OF d2(3) a1(2) sfresh_nfresh] by simp
  qed
  then have "keeps A s ?s3" using later frame unfolding keeps_def by blast
  then show thesis by (rule that [OF rot rep3])
qed

end
