(* ===== verification/Rbtree_Swap.thy ===== *)
theory Rbtree_Swap
  imports Rbtree_Augment
begin

text \<open>
  Exchanging two nodes of a tree of \<^verbatim>\<open>src/kernel/utils/rbtree.c\<close>: the shape and the colours of the
  tree stay and the two nodes trade places.
\<close>

section \<open>Renaming\<close>

definition sw :: "rbptr \<Rightarrow> rbptr \<Rightarrow> rbptr \<Rightarrow> rbptr" where
  "sw a b x = (if x = a then b else if x = b then a else x)"

lemma sw_simps [simp]: "sw a b a = b" "sw a b b = a" "sw a b (sw a b x) = x" "x \<noteq> a \<Longrightarrow> x \<noteq> b \<Longrightarrow> sw a b x = x"
  by (simp_all add: sw_def)

lemma inj_sw: "inj (sw a b)"
  by (rule injI) (metis sw_simps(3))

lemma sw_eq [simp]: "sw a b x = a \<longleftrightarrow> x = b" "sw a b x = b \<longleftrightarrow> x = a"
  by (auto simp: sw_def)

lemma sw_fix: "r \<noteq> Some a \<Longrightarrow> r \<noteq> Some b \<Longrightarrow> map_option (sw a b) r = r"
  by (cases r) (auto simp: sw_def)

primrec ren :: "(rbptr \<Rightarrow> rbptr) \<Rightarrow> tr \<Rightarrow> tr" where
  "ren f Lf = Lf"
| "ren f (Nd c l x r) = Nd c (ren f l) (f x) (ren f r)"

lemma ren_simps [simp]:
  "rt (ren f t) = map_option f (rt t)" "ino (ren f t) = map f (ino t)" "black (ren f t) = black t" "ren f (mk d c u x v) = mk d c (ren f u) (f x) (ren f v)"
  by (induction t) (cases d; simp add: mk_def)+

lemma ren_balance [simp]: "nrr (ren f t) = nrr t" "bal n (ren f t) = bal n t"
proof -
  show "nrr (ren f t) = nrr t" by (induction t) auto
  show "bal n (ren f t) = bal n t"
  proof (induction t arbitrary: n)
    case (Nd c l x r)
    then show ?case by (cases c) auto
  qed simp
qed

lemma rbt_ren [simp]: "rbt (ren f t) = rbt t"
  by (simp add: rbt_def)

definition ren_node :: "(rbptr \<Rightarrow> rbptr) \<Rightarrow> rbnode \<Rightarrow> rbnode" where
  "ren_node f n = \<lparr>rb_parent = map_option f (rb_parent n), rb_children = (\<lambda>d. map_option f (rb_children n d)), rb_color = rb_color n\<rparr>"

lemma repr_ren:
  "\<forall>x \<in> set (ino t). h' (f x) = ren_node f (h x) \<Longrightarrow> repr h p t \<Longrightarrow> repr h' (map_option f p) (ren f t)"
proof (induction t arbitrary: p)
  case (Nd c l x r)
  then have "repr h' (Some (f x)) (ren f l)" "repr h' (Some (f x)) (ren f r)"
    using Nd.IH [of "Some x"] by simp_all
  then show ?case using Nd.prems by (auto simp: ren_node_def)
qed simp

section \<open>Links\<close>

lemma relink_fields:
  "par (relink p a b s) y = par s y" "col (relink p a b s) y = col s y"
  "chi (relink p a b s) y e =
     (if p = Some y \<and> e = (if chi s y RBNODE_LEFT = Some a then RBNODE_LEFT else RBNODE_RIGHT) then Some b else chi s y e)"
  "rb_root (relink p a b s) = (if p = None then Some b else rb_root s)"
  by (auto simp: relink_def fields simp del: setters(1-3) split: option.split)

lemma adopt_fields:
  "par (adopt x d q s) y = (if q = Some y then Some x else par s y)" "col (adopt x d q s) y = col s y"
  "chi (adopt x d q s) y e = (if y = x \<and> e = d then q else chi s y e)" "rb_root (adopt x d q s) = rb_root s"
  by (simp_all add: adopt_def fields set_par_opt_nodes(2) del: setters(1-3))

lemma later_relink [simp]: "later A s (relink p a b t) = later A s t" "later A s (adopt x d q t) = later A s t"
  by (auto simp: later_def relink_def adopt_def set_par_opt_nodes split: option.split)

text \<open>Two nodes that are the children of one parent, the first on the right: the one case that goes
  wrong.\<close>

definition right_left_siblings :: "'d rbtree \<Rightarrow> rbptr \<Rightarrow> rbptr \<Rightarrow> bool" where
  "right_left_siblings s a b \<longleftrightarrow>
     (\<exists>p. par s a = Some p \<and> par s b = Some p \<and> chi s p RBNODE_RIGHT = Some a \<and> chi s p RBNODE_LEFT = Some b)"

definition swapped :: "rbptr \<Rightarrow> rbptr \<Rightarrow> 'd rbtree \<Rightarrow> 'd rbtree \<Rightarrow> tr \<Rightarrow> bool" where
  "swapped a b s s' T \<longleftrightarrow>
     (\<forall>x \<in> set (ino T). par s' x = map_option (sw a b) (par s (sw a b x)) \<and>
        (\<forall>d. chi s' x d = map_option (sw a b) (chi s (sw a b x) d)) \<and> col s' x = col s (sw a b x)) \<and>
     rb_root s' = map_option (sw a b) (rb_root s)"

lemma swapped_rep:
  assumes "rb_rep s T" and "a \<in> set (ino T)" and "b \<in> set (ino T)" and "swapped a b s s' T"
  shows "rb_rep s' (ren (sw a b) T)"
proof -
  have "rb_nodes s' (sw a b x) = ren_node (sw a b) (rb_nodes s x)" if "x \<in> set (ino T)" for x
  proof -
    have "sw a b x \<in> set (ino T)" using that assms(2,3) by (auto simp: sw_def)
    then have "par s' (sw a b x) = map_option (sw a b) (par s x)" "col s' (sw a b x) = col s x"
      "\<And>d. chi s' (sw a b x) d = map_option (sw a b) (chi s x d)" using assms(4) by (simp_all add: swapped_def)
    then show ?thesis by (intro rbnode.equality ext) (simp_all add: ren_node_def)
  qed
  then have "repr (rb_nodes s') None (ren (sw a b) T)"
    using repr_ren [of T "rb_nodes s'" "sw a b" "rb_nodes s" None] assms(1) by (simp add: rb_rep_def)
  moreover have "distinct (map (sw a b) (ino T))"
    using assms(1) inj_on_subset [OF inj_sw [of a b]] by (simp add: rb_rep_def distinct_map)
  ultimately show ?thesis using assms(1,4) by (simp add: rb_rep_def swapped_def)
qed

lemma swap_apart_swapped:
  assumes rep: "rb_rep s T" and a: "a \<in> set (ino T)" and b: "b \<in> set (ino T)" and ab: "a \<noteq> b"
    and apart: "par s a \<noteq> Some b" "par s b \<noteq> Some a" and sib: "\<not> right_left_siblings s a b"
  shows "swapped a b s (swap_apart a b (set_col b (col s a) (set_col a (col s b) s))) T" (is "swapped a b s ?s T")
  unfolding swapped_def
proof (intro conjI ballI allI)
  fix x d
  assume x: "x \<in> set (ino T)"
  note la = links [OF rep a] and lb = links [OF rep b] and lx = links [OF rep x]
  show "col ?s x = col s (sw a b x)" using ab by (auto simp: swap_apart_def Let_def fields relink_fields adopt_fields simp del: setters(1-3))
  have p: "par ?s x = (if chi s a RBNODE_RIGHT = Some x \<or> chi s a RBNODE_LEFT = Some x then Some b
      else if x = b then par s a
      else if chi s b RBNODE_RIGHT = Some x \<or> chi s b RBNODE_LEFT = Some x then Some a
      else if x = a then par s b else par s x)"
    by (simp add: swap_apart_def Let_def fields relink_fields adopt_fields del: setters(1-3))
  have ca: "chi s a RBNODE_RIGHT = Some x \<or> chi s a RBNODE_LEFT = Some x \<longleftrightarrow> par s x = Some a"
    and cb: "chi s b RBNODE_RIGHT = Some x \<or> chi s b RBNODE_LEFT = Some x \<longleftrightarrow> par s x = Some b"
    using child_iff [OF rep a x] child_iff [OF rep b x] by blast+
  show "par ?s x = map_option (sw a b) (par s (sw a b x))"
  proof -
    have "par s a \<noteq> Some a" "par s b \<noteq> Some b" using la(2) lb(2) by blast+
    then have "map_option (sw a b) (par s a) = par s a" "map_option (sw a b) (par s b) = par s b"
      using apart by (simp_all add: sw_fix)
    then show ?thesis unfolding p ca cb using apart ab \<open>par s a \<noteq> Some a\<close> \<open>par s b \<noteq> Some b\<close>
      by (cases "x = a"; cases "x = b"; cases "par s x") (auto simp: sw_def)
  qed
  show "chi ?s x d = map_option (sw a b) (chi s (sw a b x) d)"
  proof (cases "x = a \<or> x = b")
    case True
    have "chi s a d \<noteq> Some a" "chi s a d \<noteq> Some b" "chi s b d \<noteq> Some a" "chi s b d \<noteq> Some b"
      using la(1) lb(1) apart by blast+
    then have "map_option (sw a b) (chi s a d) = chi s a d" "map_option (sw a b) (chi s b d) = chi s b d"
      by (simp_all add: sw_fix)
    moreover have "par s a \<noteq> Some a" using la(2) by blast
    ultimately show ?thesis using True ab apart
      by (cases d) (auto simp: swap_apart_def Let_def fields relink_fields adopt_fields simp del: setters(1-3))
  next
    case False
    have eq: "chi ?s x d = (let f = (\<lambda>e. if par s b = Some x \<and> e = (if chi s x RBNODE_LEFT = Some b then RBNODE_LEFT else RBNODE_RIGHT)
          then Some a else chi s x e)
        in if par s a = Some x \<and> d = (if f RBNODE_LEFT = Some a then RBNODE_LEFT else RBNODE_RIGHT) then Some b else f d)"
      using False by (simp add: swap_apart_def Let_def fields relink_fields adopt_fields del: setters(1-3))
    have pa: "par s a = Some x \<longleftrightarrow> chi s x RBNODE_RIGHT = Some a \<or> chi s x RBNODE_LEFT = Some a"
      and pb: "par s b = Some x \<longleftrightarrow> chi s x RBNODE_RIGHT = Some b \<or> chi s x RBNODE_LEFT = Some b"
      using child_iff [OF rep x a] child_iff [OF rep x b] by blast+
    have "\<not> (chi s x RBNODE_LEFT = Some b \<and> chi s x RBNODE_RIGHT = Some a)"
      using sib lx(1) unfolding right_left_siblings_def by blast
    moreover have "\<not> (chi s x RBNODE_LEFT = Some y \<and> chi s x RBNODE_RIGHT = Some y)" for y using lx(3) by blast
    ultimately show ?thesis
      unfolding eq Let_def pa pb using False ab
      by (cases d; cases "chi s x RBNODE_LEFT"; cases "chi s x RBNODE_RIGHT") (auto simp: sw_def)
  qed
next
  have "rb_root ?s = (if par s a = None then Some b else if par s b = None then Some a else rb_root s)"
    by (simp add: swap_apart_def Let_def fields relink_fields adopt_fields del: setters(1-3))
  then show "rb_root ?s = map_option (sw a b) (rb_root s)"
    using links(4) [OF rep a] links(4) [OF rep b] ab by (cases "rb_root s") (auto simp: sw_def)
qed

lemma swap_adjacent_swapped:
  assumes rep: "rb_rep s T" and a: "a \<in> set (ino T)" and b: "b \<in> set (ino T)" and ba: "par s b = Some a"
  shows "swapped a b s (swap_adjacent a b (set_col b (col s a) (set_col a (col s b) s))) T" (is "swapped a b s ?s T")
  unfolding swapped_def
proof (intro conjI ballI allI)
  fix x d
  assume x: "x \<in> set (ino T)"
  note la = links [OF rep a] and lb = links [OF rep b] and lx = links [OF rep x]
  have ab: "a \<noteq> b" and pa: "par s a \<noteq> Some a" "par s a \<noteq> Some b" using lb(2) [OF ba] la(2) by blast+
  let ?side = "if chi s a RBNODE_RIGHT = Some b then RBNODE_RIGHT else RBNODE_LEFT"
  have side: "chi s a ?side = Some b" using child_iff [OF rep a b] ba by auto
  then have other: "chi s a (RBNODE_OPPOSITE ?side) \<noteq> Some b"
    using la(3) [of ?side b "RBNODE_OPPOSITE ?side"] opposite_simps(3) by metis
  have no: "chi s a d \<noteq> Some a" "chi s b d \<noteq> Some a" "chi s b d \<noteq> Some b" for d
    using la(1) [of d a] lb(1) [of d a] lb(1) [of d b] pa by auto
  show "col ?s x = col s (sw a b x)"
    using ab by (auto simp: swap_adjacent_def Let_def fields relink_fields adopt_fields simp del: setters(1-3))
  have p: "par ?s x = (if chi s b RBNODE_RIGHT = Some x \<or> chi s b RBNODE_LEFT = Some x then Some a
      else if chi s a (RBNODE_OPPOSITE ?side) = Some x then Some b
      else if x = a then Some b else if x = b then par s a else par s x)"
    by (simp add: swap_adjacent_def Let_def fields relink_fields adopt_fields del: setters(1-3))
  have cb: "chi s b RBNODE_RIGHT = Some x \<or> chi s b RBNODE_LEFT = Some x \<longleftrightarrow> par s x = Some b"
    using child_iff [OF rep b x] by blast
  have ca: "chi s a (RBNODE_OPPOSITE ?side) = Some x \<longleftrightarrow> par s x = Some a \<and> x \<noteq> b"
  proof
    assume "chi s a (RBNODE_OPPOSITE ?side) = Some x"
    then show "par s x = Some a \<and> x \<noteq> b" using la(1) other by blast
  next
    assume "par s x = Some a \<and> x \<noteq> b"
    then show "chi s a (RBNODE_OPPOSITE ?side) = Some x"
      using child_iff [OF rep a x] side by (cases "chi s a RBNODE_RIGHT = Some b") auto
  qed
  show "par ?s x = map_option (sw a b) (par s (sw a b x))"
    unfolding p ca cb using pa ab ba by (cases "x = a"; cases "x = b"; cases "par s x") (auto simp: sw_def sw_fix)
  have c: "chi ?s x d = (if x = a then chi s b d
      else if x = b then (if d = ?side then Some a else chi s a (RBNODE_OPPOSITE ?side))
      else if par s a = Some x \<and> d = (if chi s x RBNODE_LEFT = Some a then RBNODE_LEFT else RBNODE_RIGHT) then Some b
      else chi s x d)"
    using ab by (cases d) (auto simp: swap_adjacent_def Let_def fields relink_fields adopt_fields simp del: setters(1-3))
  show "chi ?s x d = map_option (sw a b) (chi s (sw a b x) d)"
  proof (cases "x = a \<or> x = b")
    case True
    have "d = ?side \<or> d = RBNODE_OPPOSITE ?side" by (rule direction_cases)
    then have "map_option (sw a b) (chi s a d) = (if d = ?side then Some a else chi s a (RBNODE_OPPOSITE ?side))"
      using side sw_fix [OF no(1) other] by auto
    moreover have "map_option (sw a b) (chi s b d) = chi s b d" using no by (intro sw_fix)
    ultimately show ?thesis unfolding c using True ab by auto
  next
    case False
    have "chi s x d \<noteq> Some b" using lx(1) [of d b] ba False by auto
    moreover have "par s a = Some x \<longleftrightarrow> chi s x RBNODE_RIGHT = Some a \<or> chi s x RBNODE_LEFT = Some a"
      using child_iff [OF rep x a] by blast
    moreover have "\<not> (chi s x RBNODE_LEFT = Some a \<and> chi s x RBNODE_RIGHT = Some a)" using lx(3) by blast
    ultimately show ?thesis
      unfolding c using False by (cases d; cases "chi s x d") (auto simp: sw_def)
  qed
next
  have "rb_root ?s = (if par s a = None then Some b else rb_root s)"
    by (simp add: swap_adjacent_def Let_def fields relink_fields adopt_fields del: setters(1-3))
  then show "rb_root ?s = map_option (sw a b) (rb_root s)"
    using links(4) [OF rep a] links(4) [OF rep b] ba by (cases "rb_root s") (auto simp: sw_def)
qed

lemma swapped_sym: "swapped a b s s' T = swapped b a s s' T"
proof -
  have "sw a b = sw b a" by (rule ext) (auto simp: sw_def)
  then show ?thesis by (simp add: swapped_def)
qed

lemma linked_in: "rb_rep s T \<Longrightarrow> x \<in> set (ino T) \<Longrightarrow> linked x s"
proof (cases "par s x")
  case (Some p)
  assume rep: "rb_rep s T" and x: "x \<in> set (ino T)"
  then have "p \<in> set (ino T)" using links(2) [OF rep x Some] by blast
  then show ?thesis using child_iff [OF rep _ x, of p] Some by (auto simp: linked_def)
qed (simp add: linked_def)

lemma update_two:
  assumes rep: "rb_rep s T" and uv: "u \<in> set (ino T)" "v \<in> set (ino T)" and A: "set (ino T) \<subseteq> A"
  obtains d where "rbtree_update_to_root (Some u) s \<bind> rbtree_update_to_root (Some v) = Some (s\<lparr>rb_data := d\<rparr>)" "later A s (s\<lparr>rb_data := d\<rparr>)"
    "augmented s \<longrightarrow> (\<forall>y \<in> tnodes s - ups s u - ups s v. fresh_at s y) \<longrightarrow> sfresh (s\<lparr>rb_data := d\<rparr>)"
proof -
  obtain d1 where d1: "rbtree_update_to_root (Some u) s = Some (s\<lparr>rb_data := d1\<rparr>)" "later A s (s\<lparr>rb_data := d1\<rparr>)"
    "refreshes u s (s\<lparr>rb_data := d1\<rparr>)" by (rule update_at [OF rep uv(1) A])
  have rep1: "rb_rep (s\<lparr>rb_data := d1\<rparr>) T" using rep by simp
  obtain d2 where d2: "rbtree_update_to_root (Some v) (s\<lparr>rb_data := d1\<rparr>) = Some (s\<lparr>rb_data := d1\<rparr>\<lparr>rb_data := d2\<rparr>)"
    "later A (s\<lparr>rb_data := d1\<rparr>) (s\<lparr>rb_data := d1\<rparr>\<lparr>rb_data := d2\<rparr>)" "refreshes v (s\<lparr>rb_data := d1\<rparr>) (s\<lparr>rb_data := d1\<rparr>\<lparr>rb_data := d2\<rparr>)"
    by (rule update_at [OF rep1 uv(2) A])
  have "sfresh (s\<lparr>rb_data := d2\<rparr>)" if a: "augmented s" and f: "\<forall>y \<in> tnodes s - ups s u - ups s v. fresh_at s y"
  proof -
    have "\<forall>y \<in> tnodes s - ups s v - ups s u. fresh_at s y" using f by blast
    then have "\<forall>y \<in> tnodes s - ups s v. fresh_at (s\<lparr>rb_data := d1\<rparr>) y" using d1(3) a unfolding refreshes_def by blast
    then have "nfresh v (s\<lparr>rb_data := d1\<rparr>)" by (simp add: nfresh_def)
    moreover have "augmented (s\<lparr>rb_data := d1\<rparr>)" using a by (simp add: augmented_def)
    ultimately show ?thesis using refreshes_all [OF d2(3)] by simp
  qed
  moreover have "later A s (s\<lparr>rb_data := d2\<rparr>)" using later_trans [OF d1(2) d2(2)] by simp
  ultimately show thesis using that [of d2] d1(1) d2(1) by simp
qed

section \<open>The data after an exchange\<close>

lemma ups_swapped:
  assumes rep: "rb_rep s T" and ab: "a \<in> set (ino T)" "b \<in> set (ino T)" and sw: "swapped a b s s' T" and x: "x \<in> set (ino T)"
  shows "y \<in> ups s x \<Longrightarrow> sw a b y \<in> ups s' (sw a b x)"
proof (induction rule: ups.induct)
  case (up y z)
  have "y \<in> set (ino T)" using ups_in [OF rep x up(1)] .
  then have "sw a b y \<in> set (ino T)" using ab by (auto simp: sw_def)
  then have "par s' (sw a b y) = Some (sw a b z)" using sw up(2) by (simp add: swapped_def)
  then show ?case by (rule ups.up [OF up(3)])
qed (rule ups.self)

lemma swapped_fresh:
  assumes rep: "rb_rep s T" and ab: "a \<in> set (ino T)" "b \<in> set (ino T)" and sw: "swapped a b s s' T"
    and same: "rb_update s' = rb_update s" "rb_data s' = rb_data s" and a: "augmented s" and f: "nfresh a s \<or> nfresh b s"
  shows "\<forall>y \<in> tnodes s' - ups s' a - ups s' b. fresh_at s' y"
proof (intro ballI)
  fix y
  assume y: "y \<in> tnodes s' - ups s' a - ups s' b"
  have "tnodes s' = sw a b ` set (ino T)" using tnodes_rep [OF swapped_rep [OF rep ab sw]] by simp
  then have yT: "y \<in> set (ino T)" using y ab by (auto simp: sw_def split: if_splits)
  have ne: "y \<noteq> a" "y \<noteq> b" using y ups.self by auto
  have up: "y \<notin> ups s a" "y \<notin> ups s b"
    using ups_swapped [OF rep ab sw ab(1), of y] ups_swapped [OF rep ab sw ab(2), of y] y ne by auto
  have "fresh_at s y" using f yT up tnodes_rep [OF rep] by (auto simp: nfresh_def)
  moreover have "fresh_at s' y = fresh_at s y"
  proof (rule fresh_at_cong [OF a same], rule ext)
    fix d
    have "chi s y d \<noteq> Some a" "chi s y d \<noteq> Some b" using links(1) [OF rep yT, of d] ups.up [OF ups.self] up by blast+
    then have "map_option (sw a b) (chi s y d) = chi s y d" by (rule sw_fix)
    then show "chi s' y d = chi s y d" using sw yT ne by (simp add: swapped_def)
  qed
  ultimately show "fresh_at s' y" by simp
qed

lemma swap_data: "rb_data (swap_adjacent a b s) = rb_data s" "rb_data (swap_apart a b s) = rb_data s"
proof -
  have "rb_data (relink p x y t) = rb_data t" "rb_data (adopt x e q t) = rb_data t" for p x y e q and t :: "'a rbtree"
    by (auto simp: relink_def adopt_def set_par_opt_nodes split: option.split)
  then show "rb_data (swap_adjacent a b s) = rb_data s" "rb_data (swap_apart a b s) = rb_data s"
    by (simp_all add: swap_adjacent_def swap_apart_def Let_def)
qed

lemma swap_frame:
  assumes rep: "rb_rep s T" and ab: "a \<in> set (ino T)" "b \<in> set (ino T)" and v: "v \<notin> set (ino T)"
  shows "rb_nodes (swap_apart a b (set_col b (col s a) (set_col a (col s b) s))) v = rb_nodes s v"
    and "rb_nodes (swap_adjacent a b (set_col b (col s a) (set_col a (col s b) s))) v = rb_nodes s v"
proof -
  have n: "v \<noteq> a" "v \<noteq> b" "par s a \<noteq> Some v" "par s b \<noteq> Some v" "\<And>d. chi s a d \<noteq> Some v" "\<And>d. chi s b d \<noteq> Some v"
    using links(1,2) [OF rep ab(1)] links(1,2) [OF rep ab(2)] ab v by blast+
  show "rb_nodes (swap_apart a b (set_col b (col s a) (set_col a (col s b) s))) v = rb_nodes s v"
    by (rule rbnode.equality) (use n in \<open>auto simp: swap_apart_def Let_def fields relink_fields adopt_fields simp del: setters(1-3)\<close>)
  show "rb_nodes (swap_adjacent a b (set_col b (col s a) (set_col a (col s b) s))) v = rb_nodes s v"
    by (rule rbnode.equality) (use n in \<open>auto simp: swap_adjacent_def Let_def fields relink_fields adopt_fields simp del: setters(1-3)\<close>)
qed

definition swap_keeps :: "rbptr set \<Rightarrow> rbptr \<Rightarrow> rbptr \<Rightarrow> 'd rbtree \<Rightarrow> 'd rbtree \<Rightarrow> bool" where
  "swap_keeps A a b s s' \<longleftrightarrow> later A s s' \<and> (\<forall>v. v \<notin> A \<longrightarrow> rb_nodes s' v = rb_nodes s v) \<and>
     (augmented s \<longrightarrow> a \<noteq> b \<longrightarrow> nfresh a s \<or> nfresh b s \<longrightarrow> sfresh s')"

lemma rbtree_swap_correct:
  assumes rep: "rb_rep s T" and a: "a \<in> set (ino T)" and b: "b \<in> set (ino T)" and sib: "\<not> right_left_siblings s a b"
    and A: "set (ino T) \<subseteq> A"
  obtains s' where "rbtree_swap a b s = Some s'" "rb_rep s' (ren (sw a b) T)" "swap_keeps A a b s s'"
proof (cases "a = b")
  case True
  have "ren (sw b b) t = t" for t by (induction t) (auto simp: sw_def)
  then show thesis using True that rep by (simp add: rbtree_swap_def swap_keeps_def)
next
  case ab: False
  let ?s1 = "set_col b (col s a) (set_col a (col s b) s)"
  have par1: "par ?s1 x = par s x" for x by (simp add: fields del: setters(1-3))
  define s2 where "s2 = (if par s a = Some b then swap_adjacent b a ?s1 else if par s b = Some a then swap_adjacent a b ?s1 else swap_apart a b ?s1)"
  have eq: "set_col a (col s b) (set_col b (col s a) s) = ?s1" using ab by (simp add: set_col_def fun_upd_twist)
  have sw: "swapped a b s s2 T"
    using swap_adjacent_swapped [OF rep b a] swap_adjacent_swapped [OF rep a b] swap_apart_swapped [OF rep a b ab _ _ sib] eq
    by (simp add: s2_def swapped_sym [of a b])
  have rep2: "rb_rep s2 (ren (sw a b) T)" by (rule swapped_rep [OF rep a b sw])
  have lt: "later A s s2" by (simp add: s2_def swap_adjacent_def swap_apart_def Let_def)
  have same: "rb_update s2 = rb_update s" "rb_data s2 = rb_data s" using lt by (simp_all add: s2_def later_def swap_data)
  have set2: "set (ino (ren (sw a b) T)) = set (ino T)" using a b by (auto simp: sw_def image_iff)
  let ?u = "if par s a = Some b then b else a" and ?v = "if par s a = Some b then a else b"
  have run: "rbtree_swap a b s = rbtree_update_to_root (Some ?u) s2 \<bind> rbtree_update_to_root (Some ?v)"
    using ab linked_in [OF rep a] linked_in [OF rep b]
    unfolding rbtree_swap_def Let_def s2_def by (simp add: par1 fields del: setters(1-3))
  have uv: "?u \<in> set (ino (ren (sw a b) T))" "?v \<in> set (ino (ren (sw a b) T))" "set (ino (ren (sw a b) T)) \<subseteq> A"
    unfolding set2 using a b A by simp_all
  obtain d where d: "rbtree_update_to_root (Some ?u) s2 \<bind> rbtree_update_to_root (Some ?v) = Some (s2\<lparr>rb_data := d\<rparr>)"
    "later A s2 (s2\<lparr>rb_data := d\<rparr>)"
    "augmented s2 \<longrightarrow> (\<forall>y \<in> tnodes s2 - ups s2 ?u - ups s2 ?v. fresh_at s2 y) \<longrightarrow> sfresh (s2\<lparr>rb_data := d\<rparr>)"
    by (rule update_two [OF rep2 uv])
  have "sfresh (s2\<lparr>rb_data := d\<rparr>)" if "augmented s" "nfresh a s \<or> nfresh b s"
  proof (rule d(3) [rule_format])
    show "augmented s2" using that(1) same(1) by (simp add: augmented_def)
    have "\<forall>y \<in> tnodes s2 - ups s2 a - ups s2 b. fresh_at s2 y" by (rule swapped_fresh [OF rep a b sw same that])
    then show "fresh_at s2 y" if "y \<in> tnodes s2 - ups s2 ?u - ups s2 ?v" for y using that by (cases "par s a = Some b") auto
  qed
  moreover have "rb_nodes s2 v = rb_nodes s v" if "v \<notin> A" for v
    using that A swap_frame [OF rep a b, of v] swap_frame(2) [OF rep b a, of v] eq unfolding s2_def by auto
  ultimately have "swap_keeps A a b s (s2\<lparr>rb_data := d\<rparr>)" using later_trans [OF lt d(2)] by (simp add: swap_keeps_def)
  moreover have "rb_rep (s2\<lparr>rb_data := d\<rparr>) (ren (sw a b) T)" using rep2 by simp
  moreover have "rbtree_swap a b s = Some (s2\<lparr>rb_data := d\<rparr>)" using run d(1) by (rule trans)
  ultimately show thesis using that by blast
qed

end
