(* ===== verification/Rbtree_Iter.thy ===== *)
theory Rbtree_Iter
  imports Rbtree_Swap
begin

text \<open>
  Extremes, neighbours and the repair of the order in the tree of \<^verbatim>\<open>src/kernel/utils/rbtree.c\<close>.
\<close>

section \<open>The nodes before and after the hole\<close>

fun cbefore :: "frm list \<Rightarrow> rbptr list" where
  "cbefore [] = []"
| "cbefore ((RBNODE_LEFT, c, x, s) # C) = cbefore C"
| "cbefore ((RBNODE_RIGHT, c, x, s) # C) = cbefore C @ ino s @ [x]"

fun cafter :: "frm list \<Rightarrow> rbptr list" where
  "cafter [] = []"
| "cafter ((RBNODE_LEFT, c, x, s) # C) = x # ino s @ cafter C"
| "cafter ((RBNODE_RIGHT, c, x, s) # C) = cafter C"

lemma ino_plug: "ino (plug C t) = cbefore C @ ino t @ cafter C"
proof (induction C arbitrary: t)
  case (Cons f C)
  obtain d c x s where "f = (d, c, x, s)" by (cases f)
  with Cons show ?case by (cases d) (simp_all add: ino_mk)
qed simp

definition hd_opt :: "rbptr list \<Rightarrow> rbptr option" where
  "hd_opt xs = (case xs of [] \<Rightarrow> None | x # _ \<Rightarrow> Some x)"

definition last_opt :: "rbptr list \<Rightarrow> rbptr option" where
  "last_opt xs = (if xs = [] then None else Some (last xs))"

lemma hd_opt_simps [simp]: "hd_opt [] = None" "hd_opt (x # xs) = Some x" "last_opt [] = None" "last_opt (xs @ [x]) = Some x"
  by (simp_all add: hd_opt_def last_opt_def)

lemma hd_opt_some: "xs \<noteq> [] \<Longrightarrow> hd_opt xs = Some (hd xs)"
  by (cases xs) simp_all

lemma hd_opt_append: "hd_opt (xs @ ys) = (if xs = [] then hd_opt ys else hd_opt xs)"
  by (cases xs) simp_all

lemma last_opt_append: "last_opt (xs @ ys) = (if ys = [] then last_opt xs else last_opt ys)"
  by (simp add: last_opt_def)

lemma ino_Nil [simp]: "ino t = [] \<longleftrightarrow> t = Lf"
  by (cases t) simp_all

section \<open>Extremes\<close>

lemma far_loop_correct:
  "repr (rb_nodes s) p t \<Longrightarrow> rt t = Some x \<Longrightarrow>
     far_loop RBNODE_LEFT x s = hd_opt (ino t) \<and> far_loop RBNODE_RIGHT x s = last_opt (ino t)"
proof (induction t arbitrary: p x)
  case (Nd c l y r)
  have "far_loop RBNODE_LEFT x s = hd_opt (ino (Nd c l y r))"
    using Nd.prems Nd.IH(1) [of "Some y"] by (cases l) (subst far_loop.simps, auto simp: hd_opt_append)+
  moreover have "far_loop RBNODE_RIGHT x s = last_opt (ino (Nd c l y r))"
    using Nd.prems Nd.IH(2) [of "Some y"] by (cases r) (subst far_loop.simps, auto simp: last_opt_append last_opt_def)+
  ultimately show ?case by simp
qed simp

lemma find_min_correct: "repr (rb_nodes s) p t \<Longrightarrow> rbtree_find_min (rt t) s = Some (hd_opt (ino t))"
  using far_loop_correct [of s p t] by (cases t) (auto simp: rbtree_find_min_def hd_opt_some)

lemma find_max_correct: "repr (rb_nodes s) p t \<Longrightarrow> rbtree_find_max (rt t) s = Some (last_opt (ino t))"
  using far_loop_correct [of s p t] by (cases t) (auto simp: rbtree_find_max_def last_opt_def)

section \<open>Neighbours\<close>

lemma climb_correct:
  assumes "repr_ctx (rb_nodes s) C (Some x)" and "x \<notin> set (cino C)" and "distinct (cino C)"
  shows "climb_loop RBNODE_RIGHT x (cpar C) s = Some (hd_opt (cafter C)) \<and>
         climb_loop RBNODE_LEFT x (cpar C) s = Some (last_opt (cbefore C))"
  using assms
proof (induction C arbitrary: x)
  case Nil
  then show ?case by (simp add: climb_loop.simps)
next
  case (Cons f C)
  obtain d c p u where f: "f = (d, c, p, u)" by (cases f)
  have u: "rt u \<noteq> Some x" using Cons.prems(2) rt_in [of u x] f by auto
  have IH: "climb_loop RBNODE_RIGHT p (cpar C) s = Some (hd_opt (cafter C))" "climb_loop RBNODE_LEFT p (cpar C) s = Some (last_opt (cbefore C))"
    using Cons.IH [of p] Cons.prems f by auto
  have R: "par s p = cpar C" "chi s p d = Some x" "chi s p (RBNODE_OPPOSITE d) = rt u" using Cons.prems(1) f by simp_all
  show ?case
  proof (cases d)
    case RBNODE_LEFT
    then show ?thesis
      using R u IH f by (simp add: climb_loop.simps [of _ x] last_opt_append)
  next
    case RBNODE_RIGHT
    then show ?thesis
      using R u IH f by (simp add: climb_loop.simps [of _ x] last_opt_append last_opt_def)
  qed
qed

lemma neighbours_correct:
  assumes "rb_rep s (plug C (Nd c l x r))"
  shows "rbtree_next (Some x) s = Some (hd_opt (ino r @ cafter C))" and "rbtree_prev (Some x) s = Some (last_opt (cbefore C @ ino l))"
proof -
  have D: "distinct ((ino l @ x # ino r) @ cino C)" and R: "repr_ctx (rb_nodes s) C (Some x)" "repr (rb_nodes s) (cpar C) (Nd c l x r)"
    using assms unfolding rb_rep_def distinct_plug repr_plug by simp_all
  have climb: "climb_loop RBNODE_RIGHT x (cpar C) s = Some (hd_opt (cafter C))" "climb_loop RBNODE_LEFT x (cpar C) s = Some (last_opt (cbefore C))"
    using climb_correct [OF R(1)] D by auto
  have "rbtree_find_min (rt r) s = Some (hd_opt (ino r))" "rbtree_find_max (rt l) s = Some (last_opt (ino l))"
    using R(2) find_min_correct find_max_correct by auto
  then show "rbtree_next (Some x) s = Some (hd_opt (ino r @ cafter C))" "rbtree_prev (Some x) s = Some (last_opt (cbefore C @ ino l))"
    using R(2) climb by (cases r; cases l; simp add: rbtree_next_def rbtree_prev_def hd_opt_append last_opt_append)+
qed

text \<open>In terms of the order of the nodes.\<close>

lemma neighbours_order:
  assumes "rb_rep s T" and "ino T = xs @ x # ys"
  shows "rbtree_next (Some x) s = Some (hd_opt ys)" and "rbtree_prev (Some x) s = Some (last_opt xs)"
proof -
  obtain C c l r where T: "T = plug C (Nd c l x r)" using zip_at [of x T "[]"] assms(2) by auto
  have eq: "xs @ x # ys = (cbefore C @ ino l) @ x # (ino r @ cafter C)" using assms(2) T by (simp add: ino_plug)
  have "distinct (xs @ x # ys)" using assms unfolding rb_rep_def by metis
  then have "x \<notin> set xs" "x \<notin> set ys" by simp_all
  from append_Cons_eq_iff [OF this] eq have "xs = cbefore C @ ino l" "ys = ino r @ cafter C" by blast+
  then show "rbtree_next (Some x) s = Some (hd_opt ys)" "rbtree_prev (Some x) s = Some (last_opt xs)"
    using neighbours_correct [of s C c l x r] assms(1) T by simp_all
qed

section \<open>Repairing the order\<close>

text \<open>A node between two others in the order: they cannot be neighbours.\<close>

lemma not_adjacent:
  assumes "distinct (us @ p # vs)" and "b \<in> set us" and "a \<in> set vs"
  shows "us @ p # vs \<noteq> xs @ a # b # ys" and "us @ p # vs \<noteq> xs @ b # a # ys"
proof -
  obtain u1 u2 where us: "us = u1 @ b # u2" using assms(2) by (meson split_list)
  obtain v1 v2 where vs: "vs = v1 @ a # v2" using assms(3) by (meson split_list)
  show "us @ p # vs \<noteq> xs @ a # b # ys"
  proof
    assume e: "us @ p # vs = xs @ a # b # ys"
    have "(us @ p # v1) @ a # v2 = xs @ a # b # ys" using e vs by simp
    moreover have "a \<notin> set (us @ p # v1)" "a \<notin> set v2" using assms(1) vs by auto
    ultimately have "v2 = b # ys" using append_Cons_eq_iff by metis
    then show False using assms(1,2) vs by auto
  qed
  show "us @ p # vs \<noteq> xs @ b # a # ys"
  proof
    assume e: "us @ p # vs = xs @ b # a # ys"
    have "u1 @ b # (u2 @ p # vs) = xs @ b # a # ys" using e us by simp
    moreover have "b \<notin> set u1" "b \<notin> set (u2 @ p # vs)" using assms(1) us by auto
    ultimately have "u2 @ p # vs = a # ys" using append_Cons_eq_iff by metis
    then show False using assms(1,3) us by (cases u2) auto
  qed
qed

lemma adjacent_not_siblings:
  assumes rep: "rb_rep s T" and "ino T = xs @ a # b # ys \<or> ino T = xs @ b # a # ys"
  shows "\<not> right_left_siblings s a b"
proof
  assume "right_left_siblings s a b"
  then obtain p where p: "par s a = Some p" "chi s p RBNODE_RIGHT = Some a" "chi s p RBNODE_LEFT = Some b"
    by (auto simp: right_left_siblings_def)
  have "a \<in> set (ino T)" using assms(2) by auto
  then have "p \<in> set (ino T)" using links(2) [OF rep _ p(1)] by blast
  then obtain C c l r where T: "T = plug C (Nd c l p r)" using zip_at [of p T "[]"] by auto
  have "rt l = Some b" "rt r = Some a" using rep p(2,3) unfolding T rb_rep_def repr_plug by simp_all
  then have "b \<in> set (cbefore C @ ino l)" "a \<in> set (ino r @ cafter C)" using rt_in by auto
  moreover have "ino T = (cbefore C @ ino l) @ p # (ino r @ cafter C)" using T by (simp add: ino_plug)
  moreover have "distinct (ino T)" using rep by (simp add: rb_rep_def)
  ultimately show False using not_adjacent assms(2) by metis
qed

lemma map_sw_adjacent:
  "distinct (xs @ a # b # ys) \<Longrightarrow> map (sw a b) (xs @ a # b # ys) = xs @ b # a # ys"
  "distinct (xs @ a # b # ys) \<Longrightarrow> map (sw b a) (xs @ a # b # ys) = xs @ b # a # ys"
  by (auto simp: sw_def intro!: map_idI)

lemma swap_neighbours:
  assumes rep: "rb_rep s T" and T: "ino T = xs @ a # b # ys" and uv: "u = a \<and> v = b \<or> u = b \<and> v = a"
    and A: "set (ino T) \<subseteq> A"
  obtains s' T' where "rbtree_swap u v s = Some s'" "rb_rep s' T'" "swap_keeps A u v s s'" "ino T' = xs @ b # a # ys" "rbt T' = rbt T"
proof -
  have "u \<in> set (ino T)" "v \<in> set (ino T)" using T uv by auto
  moreover have "\<not> right_left_siblings s u v" using adjacent_not_siblings [OF rep] T uv by blast
  ultimately obtain s' where "rbtree_swap u v s = Some s'" "rb_rep s' (ren (sw u v) T)" "swap_keeps A u v s s'"
    by (rule rbtree_swap_correct [OF rep _ _ _ A])
  moreover have "distinct (xs @ a # b # ys)" using rep T unfolding rb_rep_def by metis
  then have "ino (ren (sw u v) T) = xs @ b # a # ys" unfolding ren_simps T using map_sw_adjacent uv by metis
  ultimately show thesis using that rbt_ren by blast
qed

text \<open>The comparison is a total preorder.\<close>

definition total_cmp :: "(rbptr \<Rightarrow> rbptr \<Rightarrow> int) \<Rightarrow> bool" where
  "total_cmp f \<longleftrightarrow> (\<forall>x y. f x y < 0 \<longleftrightarrow> 0 < f y x) \<and> (\<forall>x y z. f x y \<le> 0 \<longrightarrow> f y z \<le> 0 \<longrightarrow> f x z \<le> 0)"

lemma total_trans: "total_cmp f \<Longrightarrow> f x y \<le> 0 \<Longrightarrow> f y z \<le> 0 \<Longrightarrow> f x z \<le> 0"
  unfolding total_cmp_def by blast

abbreviation le_by :: "(rbptr \<Rightarrow> rbptr \<Rightarrow> int) \<Rightarrow> rbptr \<Rightarrow> rbptr \<Rightarrow> bool" where
  "le_by f x y \<equiv> f x y \<le> 0"

text \<open>What the repair keeps: the data are up to date but for the node and those above it.\<close>

definition fix_keeps :: "rbptr set \<Rightarrow> rbptr \<Rightarrow> 'd rbtree \<Rightarrow> 'd rbtree \<Rightarrow> bool" where
  "fix_keeps A x s s' \<longleftrightarrow> later A s s' \<and> (\<forall>v. v \<notin> A \<longrightarrow> rb_nodes s' v = rb_nodes s v) \<and> (augmented s \<longrightarrow> nfresh x s \<longrightarrow> nfresh x s')"

lemma fix_keeps_refl [simp]: "fix_keeps A x s s"
  by (simp add: fix_keeps_def)

lemma fix_keeps_swap: "swap_keeps A x y s s' \<Longrightarrow> x \<noteq> y \<Longrightarrow> fix_keeps A x s s'"
  using sfresh_nfresh by (auto simp: fix_keeps_def swap_keeps_def)

lemma fix_keeps_trans: "fix_keeps A x s s' \<Longrightarrow> fix_keeps A x s' s'' \<Longrightarrow> fix_keeps A x s s''"
  using later_trans [of A s s' s''] later_augmented [of A s s'] by (auto simp: fix_keeps_def)

lemma fix_keeps_cmp: "fix_keeps A x s s' \<Longrightarrow> stable s \<Longrightarrow> rb_compare s' (rb_data s') = rb_compare s (rb_data s) \<and> stable s'"
  using later_cmp by (auto simp: fix_keeps_def)

lemma misplaced_order:
  assumes "rb_rep s T" and "ino T = xs @ x # ys"
  shows "misplaced x s =
    (if ys \<noteq> [] \<and> 0 < rb_compare s (rb_data s) x (hd ys) then Some (Some (hd ys))
     else if xs \<noteq> [] \<and> rb_compare s (rb_data s) x (last xs) < 0 then Some (Some (last xs)) else Some None)"
  using neighbours_order [OF assms] by (cases ys) (auto simp: misplaced_def last_opt_def)

lemma fix_loop_right:
  assumes "rb_rep s T" and "ino T = xs @ x # ys" and "total_cmp f" and "rb_compare s (rb_data s) = f" and "stable s" and "set (ino T) \<subseteq> A"
    and "sorted_wrt (le_by f) (xs @ ys)" and "\<forall>u \<in> set xs. f u x \<le> 0"
  shows "\<exists>s' T'. fix_loop x s = Some s' \<and> rb_rep s' T' \<and> fix_keeps A x s s' \<and> rbt T' = rbt T \<and>
           mset (ino T') = mset (ino T) \<and> sorted_wrt (le_by f) (ino T')"
  using assms
proof (induction ys arbitrary: s T xs)
  case Nil
  have "\<not> (xs \<noteq> [] \<and> f x (last xs) < 0)" using Nil.prems(3,8) unfolding total_cmp_def by (metis last_in_set not_le)
  then have "fix_loop x s = Some s" using misplaced_order [OF Nil.prems(1,2)] Nil.prems(4) by (subst fix_loop.simps) auto
  moreover have "sorted_wrt (le_by f) (ino T)" using Nil.prems(2,7,8) by (simp add: sorted_wrt_append)
  ultimately show ?case using Nil.prems(1) by auto
next
  case (Cons y ys)
  show ?case
  proof (cases "0 < f x y")
    case True
    obtain s1 T1 where s1: "rbtree_swap x y s = Some s1" "rb_rep s1 T1" "swap_keeps A x y s s1" "ino T1 = xs @ y # x # ys" "rbt T1 = rbt T"
      using swap_neighbours [OF Cons.prems(1,2) _ Cons.prems(6), of x y] by auto
    have "distinct (xs @ x # y # ys)" using Cons.prems(1,2) unfolding rb_rep_def by metis
    then have k: "fix_keeps A x s s1" by (intro fix_keeps_swap [OF s1(3)]) auto
    have step: "fix_loop x s = fix_loop x s1"
      using misplaced_order [OF Cons.prems(1,2)] Cons.prems(4) True s1(1) by (subst fix_loop.simps) simp
    have "f y x \<le> 0" using True Cons.prems(3) unfolding total_cmp_def by (metis less_imp_le)
    then have "\<exists>s' T'. fix_loop x s1 = Some s' \<and> rb_rep s' T' \<and> fix_keeps A x s1 s' \<and> rbt T' = rbt T1 \<and>
        mset (ino T') = mset (ino T1) \<and> sorted_wrt (le_by f) (ino T')"
      using fix_keeps_cmp [OF k Cons.prems(5)] Cons.prems s1(2,4) by (intro Cons.IH [of s1 T1 "xs @ [y]"]) auto
    moreover have "mset (ino T1) = mset (ino T)" unfolding s1(4) Cons.prems(2) by simp
    ultimately show ?thesis using step s1(5) fix_keeps_trans [OF k] by metis
  next
    case False
    have "\<not> (xs \<noteq> [] \<and> f x (last xs) < 0)" using Cons.prems(3,8) unfolding total_cmp_def by (metis last_in_set not_le)
    then have "fix_loop x s = Some s" using misplaced_order [OF Cons.prems(1,2)] Cons.prems(4) False by (subst fix_loop.simps) auto
    moreover have "f x v \<le> 0" if "v \<in> set (y # ys)" for v
      using that False Cons.prems(3,7) unfolding total_cmp_def by (auto simp: sorted_wrt_append) (meson linorder_not_less)
    then have "sorted_wrt (le_by f) (ino T)" using Cons.prems(2,7,8) by (auto simp: sorted_wrt_append)
    ultimately show ?thesis using Cons.prems(1) by auto
  qed
qed

lemma fix_loop_left:
  assumes "rb_rep s T" and "ino T = xs @ x # ys" and "total_cmp f" and "rb_compare s (rb_data s) = f" and "stable s" and "set (ino T) \<subseteq> A"
    and "sorted_wrt (le_by f) (xs @ ys)" and "\<forall>v \<in> set ys. f x v \<le> 0"
  shows "\<exists>s' T'. fix_loop x s = Some s' \<and> rb_rep s' T' \<and> fix_keeps A x s s' \<and> rbt T' = rbt T \<and>
           mset (ino T') = mset (ino T) \<and> sorted_wrt (le_by f) (ino T')"
  using assms
proof (induction xs arbitrary: s T ys rule: rev_induct)
  case Nil
  have no: "\<not> (ys \<noteq> [] \<and> 0 < f x (hd ys))" using Nil.prems(8) hd_in_set [of ys] by (metis linorder_not_less)
  then have "fix_loop x s = Some s" using misplaced_order [OF Nil.prems(1,2)] Nil.prems(4) by (subst fix_loop.simps) auto
  moreover have "sorted_wrt (le_by f) (ino T)" using Nil.prems(2,7,8) by simp
  ultimately show ?case using Nil.prems(1) by auto
next
  case (snoc u xs)
  have no: "\<not> (ys \<noteq> [] \<and> 0 < f x (hd ys))" using snoc.prems(8) hd_in_set [of ys] by (metis linorder_not_less)
  have T: "ino T = xs @ u # x # ys" using snoc.prems(2) by simp
  show ?case
  proof (cases "f x u < 0")
    case True
    obtain s1 T1 where s1: "rbtree_swap x u s = Some s1" "rb_rep s1 T1" "swap_keeps A x u s s1" "ino T1 = xs @ x # u # ys" "rbt T1 = rbt T"
      using swap_neighbours [OF snoc.prems(1) T _ snoc.prems(6), of x u] by auto
    have "distinct (xs @ u # x # ys)" using snoc.prems(1) T unfolding rb_rep_def by metis
    then have k: "fix_keeps A x s s1" by (intro fix_keeps_swap [OF s1(3)]) auto
    have step: "fix_loop x s = fix_loop x s1"
      using misplaced_order [OF snoc.prems(1,2)] snoc.prems(4) True no s1(1) by (subst fix_loop.simps) auto
    have "f x u \<le> 0" using True by simp
    then have "\<exists>s' T'. fix_loop x s1 = Some s' \<and> rb_rep s' T' \<and> fix_keeps A x s1 s' \<and> rbt T' = rbt T1 \<and>
        mset (ino T') = mset (ino T1) \<and> sorted_wrt (le_by f) (ino T')"
      using fix_keeps_cmp [OF k snoc.prems(5)] snoc.prems s1(2,4) by (intro snoc.IH [of s1 T1 "u # ys"]) auto
    moreover have "mset (ino T1) = mset (ino T)" unfolding s1(4) T by simp
    ultimately show ?thesis using step s1(5) fix_keeps_trans [OF k] by metis
  next
    case False
    then have stop: "fix_loop x s = Some s"
      using misplaced_order [OF snoc.prems(1,2)] snoc.prems(4) no by (subst fix_loop.simps) auto
    have "f u x \<le> 0" using False snoc.prems(3) unfolding total_cmp_def by (meson not_less)
    then have "f w x \<le> 0" if "w \<in> set (xs @ [u])" for w
    proof -
      have "w = u \<or> f w u \<le> 0" using that snoc.prems(7) by (auto simp: sorted_wrt_append)
      then show ?thesis using \<open>f u x \<le> 0\<close> total_trans [OF snoc.prems(3)] by blast
    qed
    then have "sorted_wrt (le_by f) (ino T)" using snoc.prems(2,7,8) by (auto simp: sorted_wrt_append)
    then show ?thesis using stop snoc.prems(1) by auto
  qed
qed

lemma fix_loop_correct:
  assumes rep: "rb_rep s T" and T: "ino T = xs @ x # ys" and f: "total_cmp f" "rb_compare s (rb_data s) = f" "stable s" "set (ino T) \<subseteq> A"
    and sorted: "sorted_wrt (le_by f) (xs @ ys)"
  shows "\<exists>s' T'. fix_loop x s = Some s' \<and> rb_rep s' T' \<and> fix_keeps A x s s' \<and> rbt T' = rbt T \<and>
           mset (ino T') = mset (ino T) \<and> sorted_wrt (le_by f) (ino T')"
proof (cases "ys \<noteq> [] \<and> 0 < f x (hd ys)")
  case True
  then obtain y ys' where ys: "ys = y # ys'" by (cases ys) auto
  then have "f y x \<le> 0" using True f(1) unfolding total_cmp_def by (metis less_imp_le list.sel(1))
  moreover have "f u y \<le> 0" if "u \<in> set xs" for u using that sorted ys by (auto simp: sorted_wrt_append)
  ultimately have "\<forall>u \<in> set xs. f u x \<le> 0" using f(1) unfolding total_cmp_def by blast
  then show ?thesis by (rule fix_loop_right [OF rep T f sorted])
next
  case False
  have "f x v \<le> 0" if "v \<in> set ys" for v
  proof (cases ys)
    case (Cons y ys')
    then have "f x y \<le> 0" "v = y \<or> f y v \<le> 0" using False that sorted by (auto simp: sorted_wrt_append)
    then show ?thesis using f(1) unfolding total_cmp_def by blast
  qed (use that in simp)
  then show ?thesis by (intro fix_loop_left [OF rep T f sorted]) blast
qed

lemma rbtree_fix_result:
  assumes rep: "rb_rep s T" and T: "ino T = xs @ x # ys" and f: "total_cmp (rb_compare s (rb_data s))" "stable s"
    and sorted: "sorted_wrt (le_by (rb_compare s (rb_data s))) (xs @ ys)" and A: "set (ino T) \<subseteq> A"
  shows "\<exists>s' T'. rbtree_fix x s = Some s' \<and> rb_rep s' T' \<and> later A s s' \<and> (\<forall>v. v \<notin> A \<longrightarrow> rb_nodes s' v = rb_nodes s v) \<and>
           (augmented s \<longrightarrow> nfresh x s \<longrightarrow> sfresh s') \<and> rbt T' = rbt T \<and>
           mset (ino T') = mset (ino T) \<and> sorted_wrt (le_by (rb_compare s (rb_data s))) (ino T')"
proof -
  obtain s1 T' where s1: "fix_loop x s = Some s1" "rb_rep s1 T'" "fix_keeps A x s s1" "rbt T' = rbt T" "mset (ino T') = mset (ino T)"
    "sorted_wrt (le_by (rb_compare s (rb_data s))) (ino T')"
    using fix_loop_correct [OF rep T f(1) refl f(2) A sorted] by blast
  have "set (ino T') = set (ino T)" using s1(5) by (metis set_mset_mset)
  then have x: "x \<in> set (ino T')" "set (ino T') \<subseteq> A" using T A by auto
  obtain d where d: "rbtree_update_to_root (Some x) s1 = Some (s1\<lparr>rb_data := d\<rparr>)" "later A s1 (s1\<lparr>rb_data := d\<rparr>)"
    "refreshes x s1 (s1\<lparr>rb_data := d\<rparr>)" by (rule update_at [OF s1(2) x])
  have "rbtree_fix x s = Some (s1\<lparr>rb_data := d\<rparr>)" using s1(1) d(1) by (simp add: rbtree_fix_def)
  moreover have "rb_rep (s1\<lparr>rb_data := d\<rparr>) T'" using s1(2) by simp
  moreover have "later A s (s1\<lparr>rb_data := d\<rparr>)" using s1(3) later_trans [OF _ d(2)] by (simp add: fix_keeps_def)
  moreover have "\<forall>v. v \<notin> A \<longrightarrow> rb_nodes (s1\<lparr>rb_data := d\<rparr>) v = rb_nodes s v" using s1(3) by (simp add: fix_keeps_def)
  moreover have "sfresh (s1\<lparr>rb_data := d\<rparr>)" if "augmented s" "nfresh x s"
    using refreshes_all [OF d(3)] s1(3) that later_augmented [of A s s1] by (simp add: fix_keeps_def)
  ultimately show ?thesis using s1(4-6) by blast
qed

end
