(* ===== verification/Rbtree_Insert.thy ===== *)
theory Rbtree_Insert
  imports Rbtree_Augment
begin

text \<open>
  Insertion into the red-black tree of \<^verbatim>\<open>src/kernel/utils/rbtree.c\<close>: the repair loop as a function
  on trees with a hole, the order of the nodes and the balance of the result.
\<close>

section \<open>The repair loop\<close>

fun chd :: "rbnode_direction \<Rightarrow> tr \<Rightarrow> tr" where
  "chd d Lf = Lf"
| "chd RBNODE_LEFT (Nd c l x r) = l"
| "chd RBNODE_RIGHT (Nd c l x r) = r"

fun top :: "tr \<Rightarrow> rbptr" where
  "top Lf = 0"
| "top (Nd c l x r) = x"

lemma chd_mk [simp]: "chd d (mk d c a x b) = a" "chd (RBNODE_OPPOSITE d) (mk d c a x b) = b" "top (mk d c a x b) = x"
  by (cases d; simp add: mk_def)+

fun ins_fix :: "frm list \<Rightarrow> tr \<Rightarrow> tr" where
  "ins_fix [] t = t"
| "ins_fix ((d, RBNODE_BLACK, p, s) # C) t = plug C (mk d RBNODE_BLACK t p s)"
| "ins_fix [(d, RBNODE_RED, p, s)] t = mk d RBNODE_BLACK t p s"
| "ins_fix ((d, RBNODE_RED, p, s) # (e, c, g, u) # C) t =
     (if black u then
        (if d = e then plug C (mk e RBNODE_BLACK t p (mk e RBNODE_RED s g u))
         else plug C (mk e RBNODE_BLACK (mk e RBNODE_RED s p (chd e t)) (top t)
                        (mk e RBNODE_RED (chd (RBNODE_OPPOSITE e) t) g u)))
      else ins_fix C (mk e RBNODE_RED (mk d RBNODE_BLACK t p s) g (recolor RBNODE_BLACK u)))"

lemma insert_rotate_one:
  assumes "rb_rep s (plug C (mk e c (mk e RBNODE_RED t p b) g u))" and A: "set (ino (plug C (mk e c (mk e RBNODE_RED t p b) g u))) \<subseteq> A"
  shows "\<exists>s' y. rbtree_rotate g (RBNODE_OPPOSITE e) s = Some (y, s') \<and> keeps A s (set_col g RBNODE_RED (set_col p RBNODE_BLACK s')) \<and>
    rb_rep (set_col g RBNODE_RED (set_col p RBNODE_BLACK s')) (plug C (mk e RBNODE_BLACK t p (mk e RBNODE_RED b g u)))"
proof -
  let ?D = "RBNODE_OPPOSITE e"
  have "rb_rep s (plug C (mk ?D c u g (mk ?D RBNODE_RED b p t)))" "set (ino (plug C (mk ?D c u g (mk ?D RBNODE_RED b p t)))) \<subseteq> A"
    using assms by (simp_all add: mk_opposite)
  then obtain s' where s': "rbtree_rotate g ?D s = Some (p, s')" "rb_rep s' (plug C (mk ?D RBNODE_RED (mk ?D c u g b) p t))" "keeps A s s'"
    by (rule rotate_correct)
  have "g \<in> A" "p \<in> A" using A by (auto simp: set_plug)
  then have k: "keeps A s (set_col g RBNODE_RED (set_col p RBNODE_BLACK s'))" using s'(3) by simp
  have "rb_rep (set_col p RBNODE_BLACK s') (plug ((?D, RBNODE_BLACK, p, t) # C) (mk ?D c u g b))"
    using set_col_rep [OF s'(2), of p RBNODE_BLACK] by simp
  from set_col_rep [OF this, of g RBNODE_RED] s'(1) k show ?thesis by (simp add: mk_opposite)
qed

lemma insert_rotate_two:
  assumes "rb_rep s (plug C (mk e c (mk e RBNODE_RED b p t) g u))" and t: "rt t = Some node"
    and A: "set (ino (plug C (mk e c (mk e RBNODE_RED b p t) g u))) \<subseteq> A"
  shows "\<exists>s1 y s2 z. rbtree_rotate p e s = Some (y, s1) \<and> chi s1 g e = Some node \<and>
    rbtree_rotate g (RBNODE_OPPOSITE e) s1 = Some (z, s2) \<and> keeps A s (set_col g RBNODE_RED (set_col node RBNODE_BLACK s2)) \<and>
    rb_rep (set_col g RBNODE_RED (set_col node RBNODE_BLACK s2))
      (plug C (mk e RBNODE_BLACK (mk e RBNODE_RED b p (chd e t)) (top t) (mk e RBNODE_RED (chd (RBNODE_OPPOSITE e) t) g u)))"
proof -
  let ?D = "RBNODE_OPPOSITE e"
  obtain ct a x f where tm: "t = mk e ct a x f" using tr_mk [of t e] t by auto
  then have x: "x = node" using t by simp
  have "rb_rep s (plug ((e, c, g, u) # C) (mk e RBNODE_RED b p (mk e ct a x f)))"
    "set (ino (plug ((e, c, g, u) # C) (mk e RBNODE_RED b p (mk e ct a x f)))) \<subseteq> A" using assms(1) A tm by simp_all
  then obtain s1 where s1: "rbtree_rotate p e s = Some (x, s1)"
    "rb_rep s1 (plug ((e, c, g, u) # C) (mk e ct (mk e RBNODE_RED b p a) x f))" "keeps A s s1" by (rule rotate_correct)
  have ch: "chi s1 g e = Some x" using linked_rep(4) [OF s1(2)] by simp
  have gx: "g \<in> A" "x \<in> A" using A tm by (auto simp: set_plug)
  have "rb_rep s1 (plug C (mk ?D c u g (mk ?D ct f x (mk e RBNODE_RED b p a))))" using s1(2) by (simp add: mk_opposite)
  moreover have "set (ino (plug C (mk ?D c u g (mk ?D ct f x (mk e RBNODE_RED b p a))))) \<subseteq> A" using A tm by (auto simp: set_plug)
  ultimately obtain s2 where s2: "rbtree_rotate g ?D s1 = Some (x, s2)"
    "rb_rep s2 (plug C (mk ?D ct (mk ?D c u g f) x (mk e RBNODE_RED b p a)))" "keeps A s1 s2" by (rule rotate_correct)
  have "rb_rep (set_col x RBNODE_BLACK s2) (plug ((?D, RBNODE_BLACK, x, mk e RBNODE_RED b p a) # C) (mk ?D c u g f))"
    using set_col_rep [OF s2(2), of x RBNODE_BLACK] by simp
  from set_col_rep [OF this, of g RBNODE_RED]
  have "rb_rep (set_col g RBNODE_RED (set_col x RBNODE_BLACK s2))
      (plug C (mk e RBNODE_BLACK (mk e RBNODE_RED b p a) x (mk e RBNODE_RED f g u)))" by (simp add: mk_opposite)
  moreover have "keeps A s (set_col g RBNODE_RED (set_col x RBNODE_BLACK s2))" using keeps_trans [OF s1(3) s2(3)] gx by simp
  ultimately show ?thesis using s1(1) s2(1) ch x by (simp add: tm)
qed

lemma insert_recolor:
  assumes "rb_rep s (plug C (mk e c (mk d cp t p b) g u))" and "rt u = Some v"
  shows "rb_rep (set_col g RBNODE_RED (set_col v RBNODE_BLACK (set_col p RBNODE_BLACK s)))
    (plug C (mk e RBNODE_RED (mk d RBNODE_BLACK t p b) g (recolor RBNODE_BLACK u)))"
proof -
  have "rb_rep s (plug ((e, c, g, u) # C) (mk d cp t p b))" using assms(1) by simp
  from set_col_rep [OF this, of p RBNODE_BLACK]
  have "rb_rep (set_col p RBNODE_BLACK s) (plug ((RBNODE_OPPOSITE e, c, g, mk d RBNODE_BLACK t p b) # C) u)"
    by (simp add: mk_opposite)
  from set_col_rep [OF this assms(2), of RBNODE_BLACK]
  have "rb_rep (set_col v RBNODE_BLACK (set_col p RBNODE_BLACK s))
      (plug C (mk e c (mk d RBNODE_BLACK t p b) g (recolor RBNODE_BLACK u)))" by (simp add: mk_opposite)
  from set_col_rep [OF this, of g RBNODE_RED] show ?thesis by simp
qed

lemma insert_loop_correct:
  assumes "rb_rep s (plug C t)" and "rt t = Some node" and "cpar C = Some p" and "set (ino (plug C t)) \<subseteq> A"
  shows "\<exists>s'. insert_loop node p s = Some s' \<and> rb_rep s' (ins_fix C t) \<and> keeps A s s'"
  using assms
proof (induction C t arbitrary: s node p rule: ins_fix.induct)
  case (2 d p' b C t)
  then have "col s p = RBNODE_BLACK" using linked_rep(7) [OF 2(1,2)] by simp
  then show ?case using 2 by (simp add: insert_loop.simps)
next
  case (3 d p' b t)
  note l = linked_rep [OF 3(1,2)]
  have "rb_rep (set_col p RBNODE_BLACK s) (mk d RBNODE_BLACK t p b)" using set_col_rep [of s "[]" "mk d RBNODE_RED t p b" p] 3 by simp
  moreover have "p \<in> A" using 3(3,4) by auto
  ultimately show ?case using l 3(3) by (simp add: insert_loop.simps)
next
  case (4 d p' b e c g u C t)
  then have p: "p' = p" by simp
  note l = linked_rep [OF 4(2,3), unfolded p]
  have rep: "rb_rep s (plug ((e, c, g, u) # C) (mk d RBNODE_RED t p b))" using 4(2) p by simp
  note lp = linked_rep [OF rep, of p, simplified]
  have bu: "is_black (rt u) s = black u"
    using rep unfolding rb_rep_def repr_plug by (intro is_black_rep) auto
  show ?case
  proof (cases "black u")
    case True
    show ?thesis
    proof (cases "d = e")
      case de: True
      have "chi s p (RBNODE_OPPOSITE e) \<noteq> Some node" using l(6) [of "RBNODE_OPPOSITE e"] de by simp
      then show ?thesis
        using insert_rotate_one [of s C e c t p b g u A] 4(2,5) p de True lp l(7) bu
        by (subst insert_loop.simps) (auto simp: Let_def)
    next
      case False
      then have d: "d = RBNODE_OPPOSITE e" using direction_cases [of d e] by auto
      have "chi s p (RBNODE_OPPOSITE e) = Some node" using l(6) d by simp
      moreover have "rb_rep s (plug C (mk e c (mk e RBNODE_RED b p t) g u))" "set (ino (plug C (mk e c (mk e RBNODE_RED b p t) g u))) \<subseteq> A"
        using 4(2,5) p d by (simp_all add: mk_opposite)
      ultimately show ?thesis
        using insert_rotate_two [of s C e c b p t g u node A] 4(3) p d True lp l(7) bu
        by (subst insert_loop.simps) (auto simp: Let_def)
    qed
  next
    case False
    then obtain v where v: "rt u = Some v" by (cases u) auto
    let ?s = "set_col g RBNODE_RED (set_col v RBNODE_BLACK (set_col p RBNODE_BLACK s))"
    let ?t = "mk e RBNODE_RED (mk d RBNODE_BLACK t p b) g (recolor RBNODE_BLACK u)"
    have r: "rb_rep ?s (plug C ?t)" using insert_recolor [OF _ v] rep by simp
    have par: "par ?s g = cpar C" using r by (simp add: rb_rep_def repr_plug)
    have step: "insert_loop node p s = (case cpar C of None \<Rightarrow> Some ?s | Some q \<Rightarrow> do {
        assert_that (chi ?s q RBNODE_LEFT = Some g \<or> chi ?s q RBNODE_RIGHT = Some g); insert_loop g q ?s })"
      using lp l(7) bu False v par by (subst insert_loop.simps) (simp add: Let_def)
    have "g \<in> A" "p \<in> A" "v \<in> A" using 4(5) p rt_in [OF v] by (auto simp: set_plug)
    then have lt: "keeps A s ?s" by simp
    have A: "set (ino (plug C ?t)) \<subseteq> A" using 4(5) p by (auto simp: set_plug)
    show ?thesis
    proof (cases C)
      case Nil
      then show ?thesis using step r False p lt by simp
    next
      case (Cons f C')
      obtain d2 c2 q u2 where f: "f = (d2, c2, q, u2)" by (cases f)
      have "chi ?s q RBNODE_LEFT = Some g \<or> chi ?s q RBNODE_RIGHT = Some g"
        using r linked_rep(2) [of ?s d2 c2 q u2 C' ?t g] unfolding Cons f by simp
      moreover obtain s' where "insert_loop g q ?s = Some s'" "rb_rep s' (ins_fix C ?t)" "keeps A ?s s'"
        using 4(1) [OF False r [folded p], of g q] A Cons f p by auto
      ultimately show ?thesis using step False Cons f p keeps_trans [OF lt] by auto
    qed
  qed
qed simp

lemma mk_not_Lf [simp]: "mk d c a x b \<noteq> Lf"
  by (cases d) (simp_all add: mk_def)

lemma ino_ins_fix: "t \<noteq> Lf \<Longrightarrow> ino (ins_fix C t) = ino (plug C t)"
proof (induction C t rule: ins_fix.induct)
  case (2 d p s C t)
  then show ?case by simp
next
  case (3 d p s t)
  then show ?case by (cases d) (simp_all add: ino_mk)
next
  case (4 d p s e c g u C t)
  show ?case
  proof (cases "black u")
    case True
    show ?thesis
    proof (cases "d = e")
      case de: True
      have "ino (mk e RBNODE_BLACK t p (mk e RBNODE_RED s g u)) = ino (mk e c (mk e RBNODE_RED t p s) g u)"
        by (rule ino_rotate [symmetric])
      from ino_plug_cong [OF this, of C] show ?thesis using True de by simp
    next
      case False
      then have d: "d = RBNODE_OPPOSITE e" using direction_cases [of d e] by auto
      obtain ct a x b where t: "t = mk e ct a x b" using tr_mk [of t e] 4(2) by auto
      have "ino (mk e RBNODE_BLACK (mk e RBNODE_RED s p a) x (mk e RBNODE_RED b g u)) = ino (mk e c (mk e RBNODE_RED s p (mk e ct a x b)) g u)"
        by (cases e) (simp_all add: ino_mk)
      from ino_plug_cong [OF this, of C] show ?thesis using True False d t by (simp add: mk_opposite)
    qed
  next
    case False
    have "ino (mk e RBNODE_RED (mk d RBNODE_BLACK t p s) g (recolor RBNODE_BLACK u)) = ino (mk e c (mk d RBNODE_RED t p s) g u)"
      by (intro ino_mk_cong) simp_all
    from ino_plug_cong [OF this, of C] show ?thesis using 4(1) False by simp
  qed
qed simp

fun put_at :: "(rbptr \<Rightarrow> bool) \<Rightarrow> tr \<Rightarrow> tr \<Rightarrow> tr" where
  "put_at lt t Lf = t"
| "put_at lt t (Nd c l x r) = (if lt x then Nd c (put_at lt t l) x r else Nd c l x (put_at lt t r))"

section \<open>Finding the place\<close>

fun down :: "(rbptr \<Rightarrow> bool) \<Rightarrow> frm list \<Rightarrow> tr \<Rightarrow> frm list" where
  "down lt C Lf = C"
| "down lt C (Nd c l x r) =
     (if lt x then down lt ((RBNODE_LEFT, c, x, r) # C) l else down lt ((RBNODE_RIGHT, c, x, l) # C) r)"

fun cdir :: "rbnode_direction \<Rightarrow> frm list \<Rightarrow> rbnode_direction" where
  "cdir d [] = d"
| "cdir d ((e, c, x, s) # C) = e"

lemma plug_down: "plug (down lt C t) Lf = plug C t"
  by (induction lt C t rule: down.induct) (simp_all add: mk_def)

lemma descend_loop_correct:
  assumes "repr (rb_nodes s) (cpar C) t"
  shows "descend_loop node (rt t) (cpar C) (cdir d C) s =
    Some (cpar (down (\<lambda>x. rb_compare s (rb_data s) node x < 0) C t), cdir d (down (\<lambda>x. rb_compare s (rb_data s) node x < 0) C t))"
  using assms
proof (induction "\<lambda>x. rb_compare s (rb_data s) node x < 0" C t rule: down.induct)
  case (1 C)
  then show ?case by (simp add: descend_loop.simps)
next
  case (2 C c l x r)
  then show ?case by (subst descend_loop.simps) simp
qed

lemma attach_leaf:
  assumes rep: "rb_rep s (plug ((d, c, p, u) # C) Lf)" and n: "n \<notin> set (ino (plug ((d, c, p, u) # C) Lf))"
    and free: "chi s n RBNODE_LEFT = None" "chi s n RBNODE_RIGHT = None"
  shows "rb_rep (set_chi p d (Some n) (set_par n (Some p) (set_col n RBNODE_RED s))) (plug ((d, c, p, u) # C) (Nd RBNODE_RED Lf n Lf))"
    (is "rb_rep ?s _")
proof -
  let ?C = "(d, c, p, u) # C"
  let ?s1 = "set_par n (Some p) (set_col n RBNODE_RED s)"
  have D: "distinct (cino ?C)" and R: "repr_ctx (rb_nodes s) ?C None" and root: "rb_root s = rt (plug ?C Lf)"
    using rep unfolding rb_rep_def distinct_plug repr_plug by simp_all
  have n': "n \<notin> set (cino ?C)" using n unfolding set_plug by simp
  have "repr_ctx (rb_nodes ?s1) ?C None" using R n' by (simp del: cino.simps repr_ctx.simps)
  from repr_ctx_link [OF this D, of "Some n"] have ctx: "repr_ctx (rb_nodes ?s) ?C (Some n)" by simp
  have "p \<noteq> n" using n' by auto
  then have "repr (rb_nodes ?s) (Some p) (Nd RBNODE_RED Lf n Lf)" using free by simp
  moreover have "distinct (ino (Nd RBNODE_RED Lf n Lf) @ cino ?C)" using D n' by simp
  ultimately show ?thesis
    using ctx root unfolding rb_rep_def distinct_plug repr_plug by (simp add: rt_plug)
qed

definition ins_tree :: "(rbptr \<Rightarrow> bool) \<Rightarrow> rbptr \<Rightarrow> tr \<Rightarrow> tr" where
  "ins_tree lt n T = recolor RBNODE_BLACK (ins_fix (down lt [] T) (Nd RBNODE_RED Lf n Lf))"

lemma blacken_root_rep: "rb_rep s T \<Longrightarrow> rb_rep (blacken_root s) (recolor RBNODE_BLACK T)"
proof (cases T)
  case (Nd c l x r)
  assume "rb_rep s T"
  then show ?thesis using set_col_rep [of s "[]" T x RBNODE_BLACK] Nd by (simp add: blacken_root_def rb_rep_def)
qed (simp add: blacken_root_def rb_rep_def)

lemma blacken_root_keeps [simp]:
  assumes "rb_rep t T" and "set (ino T) \<subseteq> A" and "keeps A s t"
  shows "keeps A s (blacken_root t)"
  using assms rt_in [of T] by (auto simp: blacken_root_def rb_rep_def split: option.split)

text \<open>The new node is outside the tree; its own data are up to date.\<close>

lemma attach_fresh:
  assumes rep: "rb_rep s (plug ((d, c, p, u) # C) Lf)" and n: "n \<notin> set (ino (plug ((d, c, p, u) # C) Lf))"
    and free: "chi s n RBNODE_LEFT = None" "chi s n RBNODE_RIGHT = None" and a: "augmented s" and f: "sfresh s"
  shows "nfresh n (set_chi p d (Some n) (set_par n (Some p) (set_col n RBNODE_RED s)))" (is "nfresh n ?s")
  unfolding nfresh_def
proof (intro ballI)
  let ?C = "(d, c, p, u) # C"
  have r: "rb_rep ?s (plug ?C (Nd RBNODE_RED Lf n Lf))" by (rule attach_leaf [OF rep n free])
  have up: "ups ?s n = insert n (set (cpath ?C))" using ups_rep [OF r] by simp
  fix y
  assume y: "y \<in> tnodes ?s - ups ?s n"
  then have "y \<noteq> n" "y \<noteq> p" "y \<in> set (ino (plug ?C Lf))" using up tnodes_rep [OF r] by (auto simp: set_plug)
  then have "fresh_at s y" using f tnodes_rep [OF rep] by (simp add: sfresh_def)
  moreover have "fresh_at ?s y = fresh_at s y"
    by (rule fresh_at_cong [OF a]) (use \<open>y \<noteq> n\<close> \<open>y \<noteq> p\<close> in simp_all)
  ultimately show "fresh_at ?s y" by simp
qed

lemma insert_below_correct:
  assumes rep: "rb_rep s (plug C Lf)" and n: "n \<notin> set (ino (plug C Lf))"
    and free: "chi s n RBNODE_LEFT = None" "chi s n RBNODE_RIGHT = None" and A: "insert n (set (ino (plug C Lf))) \<subseteq> A"
  shows "\<exists>s'. rbtree_insert_at (cpar C) n (cdir RBNODE_LEFT C) s = Some s' \<and> rb_rep s' (ins_fix C (Nd RBNODE_RED Lf n Lf)) \<and> later A s s' \<and>
    (\<forall>v. v \<notin> A \<longrightarrow> rb_nodes s' v = rb_nodes s v) \<and> (augmented s \<longrightarrow> sfresh s \<longrightarrow> fresh_at s n \<longrightarrow> sfresh s')"
proof (cases C)
  case Nil
  let ?s = "(set_par n None (set_col n RBNODE_RED s))\<lparr>rb_root := Some n\<rparr>"
  have r: "rb_rep ?s (Nd RBNODE_RED Lf n Lf)" using free by (simp add: rb_rep_def)
  have "sfresh ?s" if "augmented s" "fresh_at s n"
    using fresh_at_cong [of s ?s n] that tnodes_rep [OF r] by (simp add: sfresh_def)
  then show ?thesis using Nil free A r by (auto simp: rbtree_insert_at_def)
next
  case (Cons f C')
  obtain e c p u where f: "f = (e, c, p, u)" by (cases f)
  note C = Cons [unfolded f]
  let ?n = "Nd RBNODE_RED Lf n Lf" and ?s1 = "set_chi p e (Some n) (set_par n (Some p) (set_col n RBNODE_RED s))"
  have r1: "rb_rep ?s1 (plug C ?n)" unfolding C by (rule attach_leaf [OF rep [unfolded C] n [unfolded C] free])
  have pn: "p \<noteq> n" "p \<in> A" "n \<in> A" using n A unfolding C set_plug by auto
  have A1: "set (ino (plug C ?n)) \<subseteq> A" "n \<in> set (ino (plug C ?n))" using A by (auto simp: set_plug)
  have "chi s p e = None" using rep unfolding C rb_rep_def repr_plug by simp
  then have ch: "chi (set_par n (Some p) (set_col n RBNODE_RED s)) p e = None" using pn by simp
  obtain d2 where d2: "rbtree_update_to_root (Some n) ?s1 = Some (?s1\<lparr>rb_data := d2\<rparr>)" "later A ?s1 (?s1\<lparr>rb_data := d2\<rparr>)"
    "refreshes n ?s1 (?s1\<lparr>rb_data := d2\<rparr>)" by (rule update_at [OF r1 A1(2,1)])
  let ?s2 = "?s1\<lparr>rb_data := d2\<rparr>"
  have "rb_rep ?s2 (plug C ?n)" using r1 by simp
  from insert_loop_correct [OF this, of n p A] A1 obtain s' where s': "insert_loop n p ?s2 = Some s'"
    "rb_rep s' (ins_fix C ?n)" "keeps A ?s2 s'" using C by auto
  have "later A s ?s1" by simp
  moreover have "later A ?s2 s'" using s'(3) unfolding keeps_def by blast
  ultimately have later: "later A s s'" by (rule later_trans [OF _ later_trans [OF d2(2)]])
  have frame: "rb_nodes s' v = rb_nodes s v" if "v \<notin> A" for v
  proof -
    have "v \<noteq> p" "v \<noteq> n" using that pn by auto
    then show ?thesis using s'(3) that by (simp add: keeps_def)
  qed
  have "sfresh s'" if "augmented s" "sfresh s"
  proof -
    have "nfresh n ?s1" unfolding C by (rule attach_fresh [OF rep [unfolded C] n [unfolded C] free that])
    moreover have a1: "augmented ?s1" "augmented ?s2" using that(1) by (simp_all add: augmented_def)
    ultimately have "sfresh ?s2" using refreshes_all [OF d2(3)] by simp
    then show ?thesis using s'(3) a1 by (simp add: keeps_def)
  qed
  moreover have "rbtree_insert_at (cpar C) n (cdir RBNODE_LEFT C) s = Some s'"
    unfolding C rbtree_insert_at_def Let_def using ch d2(1) s'(1) by simp
  ultimately show ?thesis using later frame s'(2) by blast
qed

lemma rbtree_insert_result:
  assumes rep: "rb_rep s T" and n: "n \<notin> set (ino T)"
    and free: "par s n = None" "chi s n RBNODE_LEFT = None" "chi s n RBNODE_RIGHT = None" and A: "insert n (set (ino T)) \<subseteq> A"
  shows "\<exists>s'. rbtree_insert n s = Some s' \<and> rb_rep s' (ins_tree (\<lambda>x. rb_compare s (rb_data s) n x < 0) n T) \<and> later A s s' \<and>
    (\<forall>v. v \<notin> A \<longrightarrow> rb_nodes s' v = rb_nodes s v) \<and> (augmented s \<longrightarrow> sfresh s \<longrightarrow> fresh_at s n \<longrightarrow> sfresh s')"
proof -
  let ?C = "down (\<lambda>x. rb_compare s (rb_data s) n x < 0) [] T" and ?n = "Nd RBNODE_RED Lf n Lf"
  have T: "plug ?C Lf = T" by (simp add: plug_down)
  have d: "descend_loop n (rb_root s) None RBNODE_LEFT s = Some (cpar ?C, cdir RBNODE_LEFT ?C)"
    using descend_loop_correct [of s "[]" T n RBNODE_LEFT] rep by (simp add: rb_rep_def)
  obtain s' where s': "rbtree_insert_at (cpar ?C) n (cdir RBNODE_LEFT ?C) s = Some s'" "rb_rep s' (ins_fix ?C ?n)" "later A s s'"
    "\<forall>v. v \<notin> A \<longrightarrow> rb_nodes s' v = rb_nodes s v" "augmented s \<longrightarrow> sfresh s \<longrightarrow> fresh_at s n \<longrightarrow> sfresh s'"
    using insert_below_correct [of s ?C n A] rep n free A unfolding T by blast
  have "set (ino (ins_fix ?C ?n)) \<subseteq> A" using A T by (simp add: ino_ins_fix set_plug) (metis Un_iff set_plug subset_iff)
  then have k: "keeps A s' (blacken_root s')" using blacken_root_keeps [OF s'(2)] by simp
  have "rbtree_insert n s = Some (blacken_root s')" using free d s'(1) by (simp add: rbtree_insert_def)
  moreover have "rb_rep (blacken_root s') (ins_tree (\<lambda>x. rb_compare s (rb_data s) n x < 0) n T)"
    unfolding ins_tree_def by (rule blacken_root_rep [OF s'(2)])
  moreover have "later A s (blacken_root s')" using k later_trans [OF s'(3)] by (simp add: keeps_def)
  moreover have "\<forall>v. v \<notin> A \<longrightarrow> rb_nodes (blacken_root s') v = rb_nodes s v" using k s'(4) by (simp add: keeps_def)
  moreover have "augmented s \<longrightarrow> sfresh s \<longrightarrow> fresh_at s n \<longrightarrow> sfresh (blacken_root s')"
    using k s'(5) later_augmented [OF s'(3)] by (simp add: keeps_def)
  ultimately show ?thesis by blast
qed

section \<open>Order and balance\<close>

lemma plug_down_put: "plug (down lt C T) t = plug C (put_at lt t T)"
  by (induction lt C T rule: down.induct) (simp_all add: mk_def)

lemma ino_put_at:
  "sorted_wrt (\<lambda>x y. lt x \<longrightarrow> lt y) (ino T) \<Longrightarrow>
     ino (put_at lt t T) = filter (\<lambda>x. \<not> lt x) (ino T) @ ino t @ filter lt (ino T)"
proof (induction T)
  case (Nd c l x r)
  show ?case
  proof (cases "lt x")
    case True
    then have "filter lt (ino r) = ino r" "filter (\<lambda>x. \<not> lt x) (ino r) = []"
      using Nd.prems by (auto simp: sorted_wrt_append filter_id_conv filter_empty_conv)
    then show ?thesis using Nd True by (simp add: sorted_wrt_append)
  next
    case False
    then have "filter lt (ino l) = []" "filter (\<lambda>x. \<not> lt x) (ino l) = ino l"
      using Nd.prems by (auto simp: sorted_wrt_append filter_id_conv filter_empty_conv)
    then show ?thesis using Nd False by (simp add: sorted_wrt_append)
  qed
qed simp

lemma ino_ins_tree:
  "sorted_wrt (\<lambda>x y. lt x \<longrightarrow> lt y) (ino T) \<Longrightarrow>
     ino (ins_tree lt n T) = filter (\<lambda>x. \<not> lt x) (ino T) @ n # filter lt (ino T)"
  using ino_put_at [of lt T "Nd RBNODE_RED Lf n Lf"]
  by (simp add: ins_tree_def ino_ins_fix plug_down_put)

lemma ins_fix_balance:
  "nrr t \<Longrightarrow> \<not> black t \<Longrightarrow> bal n t \<Longrightarrow> cnrr C \<Longrightarrow> cbal n C m \<Longrightarrow> nrr (ins_fix C t) \<and> (\<exists>k. bal k (ins_fix C t))"
proof (induction C t arbitrary: n rule: ins_fix.induct)
  case (2 d p s C t)
  then show ?case by (auto simp: nrr_plug intro!: exI [of _ m] bal_plugI [of "Suc n"])
next
  case (3 d p s t)
  then show ?case by (auto intro!: exI [of _ "Suc n"])
next
  case (4 d p s e c g u C t)
  then have c: "c = RBNODE_BLACK" by simp
  show ?case
  proof (cases "black u")
    case True
    show ?thesis
    proof (cases "d = e")
      case de: True
      then show ?thesis using 4 c True by (auto simp: nrr_plug intro!: exI [of _ m] bal_plugI [of "Suc n"])
    next
      case False
      obtain ct a x b where t: "t = mk e ct a x b" using tr_mk [of t e] 4(3) by auto
      then have "ct = RBNODE_RED" using 4(3) by (cases ct) auto
      then show ?thesis using 4 c True False t by (auto simp: nrr_plug intro!: exI [of _ m] bal_plugI [of "Suc n"])
    qed
  next
    case False
    have "nrr (ins_fix C (mk e RBNODE_RED (mk d RBNODE_BLACK t p s) g (recolor RBNODE_BLACK u))) \<and>
        (\<exists>k. bal k (ins_fix C (mk e RBNODE_RED (mk d RBNODE_BLACK t p s) g (recolor RBNODE_BLACK u))))"
      by (rule 4(1) [of "Suc n"]) (use 4 c False in auto)
    then show ?thesis using False by simp
  qed
qed auto

lemma rbt_ins_tree: "rbt T \<Longrightarrow> rbt (ins_tree lt n T)"
proof -
  assume "rbt T"
  then obtain m where T: "nrr (plug (down lt [] T) Lf)" "bal m (plug (down lt [] T) Lf)" by (auto simp: rbt_def plug_down)
  then have "cnrr (down lt [] T)" "cbal 0 (down lt [] T) m" by (auto simp: nrr_plug bal_plug)
  then obtain k where "nrr (ins_fix (down lt [] T) (Nd RBNODE_RED Lf n Lf))" "bal k (ins_fix (down lt [] T) (Nd RBNODE_RED Lf n Lf))"
    using ins_fix_balance [of "Nd RBNODE_RED Lf n Lf" 0 "down lt [] T" m] by auto
  then show ?thesis unfolding ins_tree_def by (rule rbt_recolor)
qed

end
