(* ===== verification/Rbtree_Remove.thy ===== *)
theory Rbtree_Remove
  imports Rbtree_Iter Rbtree_Insert
begin

text \<open>
  Removal from the red-black tree of \<^verbatim>\<open>src/kernel/utils/rbtree.c\<close>: unlinking a node with at most
  one child, the repair loop, and the exchange with the successor for a node with two children.
\<close>

section \<open>Unlinking\<close>

lemma unlink_leaf:
  assumes "rb_rep s (plug ((d, c, p, u) # C) t)"
  shows "rb_rep (set_chi p d None s) (plug ((d, c, p, u) # C) Lf)"
proof -
  let ?C = "(d, c, p, u) # C"
  have D: "distinct (ino t @ cino ?C)" and R: "repr_ctx (rb_nodes s) ?C (rt t)" and root: "rb_root s = rt (plug ?C t)"
    using assms unfolding rb_rep_def distinct_plug repr_plug by simp_all
  have dc: "distinct (cino ?C)" using D by simp
  have "repr_ctx (rb_nodes (set_chi p d None s)) ?C None" using repr_ctx_link [OF R dc, of None] by simp
  then show ?thesis using D root unfolding rb_rep_def distinct_plug repr_plug by (simp add: rt_plug)
qed

lemma replace_by_child:
  assumes rep: "rb_rep s (plug C t)" and t: "rt t = Some x" and t': "rt t' = Some y" "set (ino t') \<subseteq> set (ino t)"
    "distinct (ino t')" "repr (rb_nodes s) (Some x) t'"
  shows "rb_rep (set_col y RBNODE_BLACK (set_par y (cpar C)
           (s\<lparr>rb_nodes := link C (Some y) (rb_nodes s), rb_root := if C = [] then Some y else rb_root s\<rparr>)))
         (plug C (recolor RBNODE_BLACK t'))" (is "rb_rep ?s _")
proof -
  have D: "distinct (ino t @ cino C)" and R: "repr_ctx (rb_nodes s) C (Some x)" and root: "rb_root s = rt (plug C t)"
    using rep t unfolding rb_rep_def distinct_plug repr_plug by simp_all
  have dc: "distinct (cino C)" "set (ino t') \<inter> set (cino C) = {}" using D t'(2) by auto
  have yC: "y \<notin> set (cino C)" using dc(2) rt_in [OF t'(1)] by blast
  have "repr_ctx (link C (Some y) (rb_nodes s)) C (Some y)" by (rule repr_ctx_link [OF R dc(1)])
  then have ctx: "repr_ctx (rb_nodes ?s) C (Some y)" using yC by simp
  have "repr (link C (Some y) (rb_nodes s)) (Some x) t'" using t'(4) repr_link [OF dc(2)] by simp
  then have "repr (rb_nodes ?s) (cpar C) (recolor RBNODE_BLACK t')"
    using t'(1,3) by (cases t') auto
  moreover have "distinct (ino t' @ cino C)" using dc t'(3) by simp
  moreover have "rb_root ?s = rt (plug C (recolor RBNODE_BLACK t'))" using root t'(1) by (simp add: rt_plug)
  ultimately show ?thesis using ctx t'(1) unfolding rb_rep_def distinct_plug repr_plug by simp
qed

text \<open>The node itself is taken out of use.\<close>

lemma sanitize_correct:
  assumes rep: "rb_rep s (plug C t)" and x: "x \<notin> set (ino (plug C t))" "par s x = cpar C"
    and ch: "chi s x RBNODE_LEFT = Some y \<Longrightarrow> par s y \<noteq> Some x" "chi s x RBNODE_RIGHT = Some z \<Longrightarrow> par s z \<noteq> Some x"
    and y: "chi s x RBNODE_LEFT \<in> {None, Some y}" "chi s x RBNODE_RIGHT \<in> {None, Some z}" and A: "insert x (set (ino (plug C t))) \<subseteq> A"
  obtains s' where "rbtree_remove_sanitize x s = Some s'" "rb_rep s' (plug C t)" "later A s s'" "rb_nodes s' x = RBNODE_CREATE"
    "\<forall>v. v \<noteq> x \<longrightarrow> rb_nodes s' v = rb_nodes s v"
    "augmented s \<longrightarrow> (\<forall>y \<in> set (ino (plug C t)) - set (cpath C). fresh_at s y) \<longrightarrow> sfresh s'"
proof -
  have R: "repr_ctx (rb_nodes s) C (rt t)" using rep unfolding rb_rep_def repr_plug by simp
  have out: "chi s p d \<noteq> Some x" if "cpar C = Some p" for p d
  proof -
    obtain e c u C' where C: "C = (e, c, p, u) # C'" using \<open>cpar C = Some p\<close> by (cases C rule: cpar.cases) auto
    have "rt t \<noteq> Some x" "rt u \<noteq> Some x" using x(1) rt_in [of t x] rt_in [of u x] unfolding C set_plug by auto
    then show ?thesis using R C direction_cases [of d e] by auto
  qed
  have "set (cino C) \<subseteq> A" using A by (simp add: set_plug)
  then obtain d where d: "rbtree_update_to_root (cpar C) s = Some (s\<lparr>rb_data := d\<rparr>)" "later A s (s\<lparr>rb_data := d\<rparr>)"
    by (rule update_to_root_ctx [OF R])
  let ?s1 = "s\<lparr>rb_data := d\<rparr>"
  let ?s = "set_col x RBNODE_RED (set_chi x RBNODE_RIGHT None (set_chi x RBNODE_LEFT None (set_par x None ?s1)))"
  have run: "rbtree_remove_sanitize x s = Some ?s"
    using out ch y d(1) x(2) unfolding rbtree_remove_sanitize_def by (auto split: option.split)
  have rep': "rb_rep ?s (plug C t)"
    using rep x(1) by (simp add: rb_rep_def)
  have later: "later A s ?s" using d(2) by simp
  have "(rb_children (rb_nodes s x))(RBNODE_LEFT := None, RBNODE_RIGHT := None) = (\<lambda>_. None)"
  proof
    fix e
    show "((rb_children (rb_nodes s x))(RBNODE_LEFT := None, RBNODE_RIGHT := None)) e = None" by (cases e) simp_all
  qed
  then have create: "rb_nodes ?s x = RBNODE_CREATE" by (intro rbnode.equality) (simp_all add: RBNODE_CREATE_def)
  have "sfresh ?s" if a: "augmented s" and f: "\<forall>y \<in> set (ino (plug C t)) - set (cpath C). fresh_at s y"
    unfolding sfresh_def
  proof (intro ballI)
    fix v
    assume "v \<in> tnodes ?s"
    then have v: "v \<in> set (ino (plug C t))" using tnodes_rep [OF rep'] by simp
    have "fresh_at ?s1 v" by (rule update_to_root_fresh [OF rep a d(1), of "{}"]) (use f v in auto)
    moreover have "fresh_at ?s v = fresh_at ?s1 v"
    proof (rule fresh_at_cong)
      have "v \<noteq> x" using v x(1) by auto
      then show "rb_children (rb_nodes ?s v) = rb_children (rb_nodes ?s1 v)" by simp
    qed (use a in \<open>simp_all add: augmented_def\<close>)
    ultimately show "fresh_at ?s v" by simp
  qed
  then show thesis using that [OF run rep' later create] by simp
qed

section \<open>The repair loop\<close>

text \<open>The subtree in the hole has one black node less on its paths than the context needs.\<close>

definition deficit :: "nat \<Rightarrow> nat \<Rightarrow> frm list \<Rightarrow> tr \<Rightarrow> bool" where
  "deficit n m C t \<longleftrightarrow> nrr t \<and> black t \<and> bal n t \<and> cnrr C \<and> cbal (Suc n) C m \<and> black (plug C t)"

lemma black_plug: "black (plug C t) = (if C = [] then black t else (case last C of (d, c, x, s) \<Rightarrow> c = RBNODE_BLACK))"
  by (induction C t rule: plug.induct) auto

lemma bal_Suc_black: "bal (Suc n) t \<Longrightarrow> black t \<Longrightarrow> \<exists>a x b. t = mk d RBNODE_BLACK a x b"
proof -
  assume "bal (Suc n) t" "black t"
  moreover then obtain c a x b where t: "t = mk d c a x b" using tr_mk [of t d] by auto
  ultimately have "c = RBNODE_BLACK" by simp
  then show ?thesis using t by blast
qed

lemma black_sibling_step:
  assumes rep: "rb_rep s (plug ((d, c, p, u) # C) t)" and def: "deficit n m ((d, c, p, u) # C) t"
    and A: "set (ino (plug ((d, c, p, u) # C) t)) \<subseteq> A"
  obtains q s1 c1 cl di C1 where "black_sibling p d s = Some (q, s1)" "keeps A s s1"
    "rb_rep s1 (plug ((d, c1, p, mk d RBNODE_BLACK cl q di) # C1) t)"
    "deficit n m ((d, c1, p, mk d RBNODE_BLACK cl q di) # C1) t"
    "ino (plug ((d, c1, p, mk d RBNODE_BLACK cl q di) # C1) t) = ino (plug ((d, c, p, u) # C) t)"
    "C1 = C \<and> c1 = c \<or> c1 = RBNODE_RED \<and> C1 \<noteq> []"
proof -
  have u: "bal (Suc n) u" "nrr u" "c = RBNODE_RED \<longrightarrow> black u" using def by (auto simp: deficit_def)
  have col: "chi s p (RBNODE_OPPOSITE d) = rt u" "col s p = c" "repr (rb_nodes s) (Some p) u"
    using rep unfolding rb_rep_def repr_plug by simp_all
  show thesis
  proof (cases "black u")
    case True
    then obtain cl q di where uq: "u = mk d RBNODE_BLACK cl q di" using bal_Suc_black [OF u(1)] by blast
    have "black_sibling p d s = Some (q, s)" using col uq by (simp add: black_sibling_def)
    then show thesis using that [of q s c cl di C] rep def uq by simp
  next
    case False
    then obtain a y b where uy: "u = mk d RBNODE_RED a y b" using tr_mk [of u d] by (metis (full_types) black.simps(1) rbnode_color.exhaust recolor_mk(2))
    then have c: "c = RBNODE_BLACK" and ab: "bal (Suc n) a" "bal (Suc n) b" "black a" "black b" "nrr a" "nrr b"
      using u False by (cases c; auto)+
    obtain cl q di where aq: "a = mk d RBNODE_BLACK cl q di" using bal_Suc_black [OF ab(1,3)] by blast
    have "rb_rep s (plug C (mk d c t p (mk d RBNODE_RED a y b)))" using rep uy by simp
    then obtain s1 where s1: "rbtree_rotate p d s = Some (y, s1)" "rb_rep s1 (plug C (mk d RBNODE_RED (mk d c t p a) y b))" "keeps A s s1"
      using A uy by (auto elim: rotate_correct)
    let ?s2 = "set_col y RBNODE_BLACK (set_col p RBNODE_RED s1)"
    have "rb_rep (set_col p RBNODE_RED s1) (plug ((d, RBNODE_RED, y, b) # C) (mk d RBNODE_RED t p a))"
      using set_col_rep [of s1 "(d, RBNODE_RED, y, b) # C" "mk d c t p a" p RBNODE_RED] s1(2) by simp
    then have r2: "rb_rep ?s2 (plug C (mk d RBNODE_BLACK (mk d RBNODE_RED t p a) y b))"
      using set_col_rep [of "set_col p RBNODE_RED s1" C "mk d RBNODE_RED (mk d RBNODE_RED t p a) y b" y RBNODE_BLACK] by simp
    have yp: "y \<in> A" "p \<in> A" using A uy by (auto simp: set_plug)
    let ?C = "(d, RBNODE_RED, p, a) # (d, RBNODE_BLACK, y, b) # C"
    have r3: "rb_rep ?s2 (plug ?C t)" using r2 by simp
    have q2: "chi ?s2 p (RBNODE_OPPOSITE d) = Some q" "col ?s2 q = RBNODE_BLACK"
      using r3 unfolding rb_rep_def repr_plug aq by simp_all
    have "black_sibling p d s = Some (q, ?s2)"
      using col uy c s1(1) q2 unfolding black_sibling_def by (simp del: setters(1-3))
    moreover have "deficit n m ?C t" using def ab c unfolding deficit_def by (simp add: black_plug)
    moreover have "ino (plug ?C t) = ino (plug ((d, c, p, u) # C) t)"
      unfolding uy plug.simps by (rule ino_plug_cong) (rule ino_rotate)
    ultimately show thesis using that [of q ?s2 RBNODE_RED cl di "(d, RBNODE_BLACK, y, b) # C"] r3 s1(3) aq yp by simp
  qed
qed

lemma repair_distant:
  assumes rep: "rb_rep s (plug C (mk d c t p (mk d k cl q di)))" and di: "\<not> black di"
    and A: "set (ino (plug C (mk d c t p (mk d k cl q di)))) \<subseteq> A"
  obtains w s1 y where "chi s q (RBNODE_OPPOSITE d) = Some w" "col s w = RBNODE_RED" "rbtree_rotate p d s = Some (y, s1)"
    "chi s1 q (RBNODE_OPPOSITE d) = Some w" "col s1 p = c" "keeps A s (set_col w RBNODE_BLACK (set_col p RBNODE_BLACK (set_col q c s1)))"
    "rb_rep (set_col w RBNODE_BLACK (set_col p RBNODE_BLACK (set_col q c s1)))
       (plug C (mk d c (mk d RBNODE_BLACK t p cl) q (recolor RBNODE_BLACK di)))"
proof -
  obtain d1 w d2 where dw: "di = mk d RBNODE_RED d1 w d2" using tr_mk [of di d] di
    by (metis (full_types) black.simps(1) rbnode_color.exhaust recolor_mk(2))
  have ch: "chi s q (RBNODE_OPPOSITE d) = Some w" "col s w = RBNODE_RED" using rep dw by (simp_all add: rb_rep_def repr_plug)
  obtain s1 where s1: "rbtree_rotate p d s = Some (q, s1)" "rb_rep s1 (plug C (mk d k (mk d c t p cl) q di))" "keeps A s s1"
    by (rule rotate_correct [OF rep A])
  have ch1: "chi s1 q (RBNODE_OPPOSITE d) = Some w" "col s1 p = c" using s1(2) dw by (simp_all add: rb_rep_def repr_plug)
  have "rb_rep (set_col q c s1) (plug ((d, c, q, di) # C) (mk d c t p cl))"
    using set_col_rep [OF s1(2), of q c] by simp
  from set_col_rep [OF this, of p RBNODE_BLACK]
  have "rb_rep (set_col p RBNODE_BLACK (set_col q c s1)) (plug ((RBNODE_OPPOSITE d, c, q, mk d RBNODE_BLACK t p cl) # C) di)"
    by (simp add: mk_opposite)
  from set_col_rep [OF this, of w RBNODE_BLACK]
  have "rb_rep (set_col w RBNODE_BLACK (set_col p RBNODE_BLACK (set_col q c s1)))
      (plug C (mk d c (mk d RBNODE_BLACK t p cl) q (recolor RBNODE_BLACK di)))" using dw by (simp add: mk_opposite)
  moreover have "keeps A s (set_col w RBNODE_BLACK (set_col p RBNODE_BLACK (set_col q c s1)))"
    using s1(3) A dw by (simp add: set_plug)
  ultimately show thesis by (rule that [OF ch s1(1) ch1, rotated])
qed

lemma repair_nephew_correct:
  assumes rep: "rb_rep s (plug ((d, c, p, mk d RBNODE_BLACK cl q di) # C) t)"
    and def: "deficit n m ((d, c, p, mk d RBNODE_BLACK cl q di) # C) t" and red: "\<not> (black di \<and> black cl)"
    and A: "set (ino (plug ((d, c, p, mk d RBNODE_BLACK cl q di) # C) t)) \<subseteq> A"
  shows "\<exists>s' T'. repair_nephew p d q s = Some s' \<and> rb_rep s' T' \<and> keeps A s s' \<and> nrr T' \<and> bal m T' \<and>
           ino T' = ino (plug ((d, c, p, mk d RBNODE_BLACK cl q di) # C) t)"
proof -
  let ?C = "(d, c, p, mk d RBNODE_BLACK cl q di) # C"
  have R: "repr (rb_nodes s) (Some p) (mk d RBNODE_BLACK cl q di)" using rep unfolding rb_rep_def repr_plug by simp
  have ch: "chi s q (RBNODE_OPPOSITE d) = rt di" "chi s q d = rt cl" "is_black (rt di) s = black di"
    using R is_black_rep [of s "Some q" di] by auto
  have b: "bal n t" "nrr t" "black t" "bal n cl" "bal n di" "nrr cl" "nrr di" "cnrr C" "cbal (if c = RBNODE_BLACK then Suc (Suc n) else Suc n) C m"
    "c = RBNODE_RED \<longrightarrow> cblack C" using def by (auto simp: deficit_def)
  show ?thesis
  proof (cases "black di")
    case False
    have "rb_rep s (plug C (mk d c t p (mk d RBNODE_BLACK cl q di)))" "set (ino (plug C (mk d c t p (mk d RBNODE_BLACK cl q di)))) \<subseteq> A"
      using rep A by simp_all
    then obtain w s1 y where w: "chi s q (RBNODE_OPPOSITE d) = Some w" "col s w = RBNODE_RED"
      "rbtree_rotate p d s = Some (y, s1)" "chi s1 q (RBNODE_OPPOSITE d) = Some w" "col s1 p = c" "keeps A s (set_col w RBNODE_BLACK (set_col p RBNODE_BLACK (set_col q c s1)))"
      "rb_rep (set_col w RBNODE_BLACK (set_col p RBNODE_BLACK (set_col q c s1)))
         (plug C (mk d c (mk d RBNODE_BLACK t p cl) q (recolor RBNODE_BLACK di)))" by (rule repair_distant [OF _ False])
    let ?T = "plug C (mk d c (mk d RBNODE_BLACK t p cl) q (recolor RBNODE_BLACK di))"
    have "repair_nephew p d q s = Some (set_col w RBNODE_BLACK (set_col p RBNODE_BLACK (set_col q c s1)))"
      using w(1-5) ch False unfolding repair_nephew_def by (simp add: fields del: setters(1-3))
    moreover have "nrr ?T" using b False by (cases c) (auto simp: nrr_plug)
    moreover have "bal m ?T"
    proof (rule bal_plugI [OF b(9)])
      show "bal (if c = RBNODE_BLACK then Suc (Suc n) else Suc n) (mk d c (mk d RBNODE_BLACK t p cl) q (recolor RBNODE_BLACK di))"
        using b False by (cases c) auto
    qed
    moreover have "ino ?T = ino (plug ?C t)"
      unfolding plug.simps by (rule ino_plug_cong) (cases d; simp add: ino_mk)
    ultimately show ?thesis using w(6,7) by auto
  next
    case True
    then have "\<not> black cl" using red by blast
    then obtain ca z cb where cz: "cl = mk d RBNODE_RED ca z cb" using tr_mk [of cl d]
      by (metis (full_types) black.simps(1) rbnode_color.exhaust recolor_mk(2))
    let ?D = "RBNODE_OPPOSITE d"
    have "rb_rep s (plug ((?D, c, p, t) # C) (mk ?D RBNODE_BLACK di q (mk ?D RBNODE_RED cb z ca)))"
      "set (ino (plug ((?D, c, p, t) # C) (mk ?D RBNODE_BLACK di q (mk ?D RBNODE_RED cb z ca)))) \<subseteq> A"
      using rep A cz by (simp_all add: mk_opposite)
    then obtain s1 where s1: "rbtree_rotate q ?D s = Some (z, s1)"
      "rb_rep s1 (plug ((?D, c, p, t) # C) (mk ?D RBNODE_RED (mk ?D RBNODE_BLACK di q cb) z ca))" "keeps A s s1" by (rule rotate_correct)
    let ?s2 = "set_col z RBNODE_BLACK (set_col q RBNODE_RED s1)"
    have "rb_rep (set_col q RBNODE_RED s1) (plug ((?D, c, p, t) # C) (mk ?D RBNODE_RED (mk ?D RBNODE_RED di q cb) z ca))"
      using set_col_rep [of s1 "(?D, RBNODE_RED, z, ca) # (?D, c, p, t) # C" "mk ?D RBNODE_BLACK di q cb" q RBNODE_RED] s1(2) by simp
    from set_col_rep [OF this, of z RBNODE_BLACK]
    have r2: "rb_rep ?s2 (plug C (mk d c t p (mk d RBNODE_BLACK ca z (mk d RBNODE_RED cb q di))))" by (simp add: mk_opposite)
    have "\<not> black (mk d RBNODE_RED cb q di)" by simp
    moreover have "set (ino (plug C (mk d c t p (mk d RBNODE_BLACK ca z (mk d RBNODE_RED cb q di))))) \<subseteq> A"
      using A cz by (auto simp: set_plug)
    ultimately obtain w s3 y where w: "chi ?s2 z ?D = Some w" "col ?s2 w = RBNODE_RED"
      "rbtree_rotate p d ?s2 = Some (y, s3)" "chi s3 z ?D = Some w" "col s3 p = c" "keeps A ?s2 (set_col w RBNODE_BLACK (set_col p RBNODE_BLACK (set_col z c s3)))"
      "rb_rep (set_col w RBNODE_BLACK (set_col p RBNODE_BLACK (set_col z c s3)))
         (plug C (mk d c (mk d RBNODE_BLACK t p ca) z (recolor RBNODE_BLACK (mk d RBNODE_RED cb q di))))" by (rule repair_distant [OF r2])
    let ?T = "plug C (mk d c (mk d RBNODE_BLACK t p ca) z (mk d RBNODE_BLACK cb q di))"
    have zred: "chi s q d = Some z" "col s z = RBNODE_RED" using R cz by simp_all
    have "repair_nephew p d q s = Some (set_col w RBNODE_BLACK (set_col p RBNODE_BLACK (set_col z c s3)))"
      using w(1-5) ch(1,3) True zred s1(1) unfolding repair_nephew_def by (simp add: fields del: setters(1-3))
    moreover have "nrr ?T" using b cz by (cases c) (auto simp: nrr_plug)
    moreover have "bal m ?T"
    proof (rule bal_plugI [OF b(9)])
      show "bal (if c = RBNODE_BLACK then Suc (Suc n) else Suc n) (mk d c (mk d RBNODE_BLACK t p ca) z (mk d RBNODE_BLACK cb q di))"
        using b cz by (cases c) auto
    qed
    moreover have "ino ?T = ino (plug ?C t)"
      unfolding plug.simps cz by (rule ino_plug_cong) (cases d; simp add: ino_mk)
    moreover have "keeps A s ?s2" using s1(3) A cz by (simp add: set_plug)
    then have "keeps A s (set_col w RBNODE_BLACK (set_col p RBNODE_BLACK (set_col z c s3)))" using keeps_trans w(6) by blast
    ultimately show ?thesis using w(7) by auto
  qed
qed

definition repairs :: "rbptr set \<Rightarrow> frm list \<Rightarrow> tr \<Rightarrow> 'd rbtree \<Rightarrow> 'd rbtree option \<Rightarrow> bool" where
  "repairs A C t s r \<longleftrightarrow>
     (\<exists>s' T' m'. r = Some s' \<and> rb_rep s' T' \<and> keeps A s s' \<and> nrr T' \<and> bal m' T' \<and> ino T' = ino (plug C t))"

lemma remove_loop_step:
  fixes s :: "'d rbtree"
  assumes IH: "\<And>e k r v C' (s :: 'd rbtree) t n. C = (e, k, r, v) # C' \<Longrightarrow> rb_rep s (plug C t) \<Longrightarrow> deficit n m C t \<Longrightarrow>
      set (ino (plug C t)) \<subseteq> A \<Longrightarrow> repairs A C t s (remove_loop r e s)"
    and rep: "rb_rep s (plug ((d, c, p, u) # C) t)" and def: "deficit n m ((d, c, p, u) # C) t"
    and A: "set (ino (plug ((d, c, p, u) # C) t)) \<subseteq> A"
  shows "repairs A ((d, c, p, u) # C) t s (remove_loop p d s)"
proof -
  obtain q s1 c1 cl di C1 where s1: "black_sibling p d s = Some (q, s1)" "keeps A s s1"
    "rb_rep s1 (plug ((d, c1, p, mk d RBNODE_BLACK cl q di) # C1) t)" "deficit n m ((d, c1, p, mk d RBNODE_BLACK cl q di) # C1) t"
    "ino (plug ((d, c1, p, mk d RBNODE_BLACK cl q di) # C1) t) = ino (plug ((d, c, p, u) # C) t)"
    "C1 = C \<and> c1 = c \<or> c1 = RBNODE_RED \<and> C1 \<noteq> []" by (rule black_sibling_step [OF rep def A])
  let ?C = "(d, c1, p, mk d RBNODE_BLACK cl q di) # C1"
  have A1: "set (ino (plug ?C t)) \<subseteq> A" using A s1(5) by simp
  have "repr (rb_nodes s1) (Some p) (mk d RBNODE_BLACK cl q di)" using s1(3) unfolding rb_rep_def repr_plug by simp
  then have ch: "is_black (chi s1 q (RBNODE_OPPOSITE d)) s1 = black di" "is_black (chi s1 q d) s1 = black cl"
    using is_black_rep [of s1 "Some q" di] is_black_rep [of s1 "Some q" cl] by auto
  have b: "bal n t" "nrr t" "black t" "bal n cl" "bal n di" "nrr cl" "nrr di" "cnrr C1" "cbal (if c1 = RBNODE_BLACK then Suc (Suc n) else Suc n) C1 m"
    "c1 = RBNODE_RED \<longrightarrow> cblack C1" "black (plug ?C t)" using s1(4) by (auto simp: deficit_def)
  show ?thesis
  proof (cases "black di \<and> black cl")
    case False
    then have "remove_loop p d s = repair_nephew p d q s1" using s1(1) ch by (auto simp: remove_loop.simps [of p] simp del: setters)
    with repair_nephew_correct [OF s1(3,4) False A1] s1(2,5) show ?thesis
      unfolding repairs_def using keeps_trans by metis
  next
    case True
    let ?t = "mk d c1 t p (mk d RBNODE_RED cl q di)" and ?s2 = "set_col q RBNODE_RED s1"
    have "rb_rep s1 (plug ((RBNODE_OPPOSITE d, c1, p, t) # C1) (mk d RBNODE_BLACK cl q di))" using s1(3) by (simp add: mk_opposite)
    from set_col_rep [OF this, of q RBNODE_RED] have r2: "rb_rep ?s2 (plug C1 ?t)" by (simp add: mk_opposite)
    have pc: "par ?s2 p = cpar C1" "col ?s2 p = c1" using r2 by (simp_all add: rb_rep_def repr_plug del: setters)
    have qp: "q \<in> A" "p \<in> A" using A1 by (auto simp: set_plug)
    have k2: "keeps A s ?s2" using s1(2) qp by simp
    have "ino (plug C1 ?t) = ino (plug ?C t)"
      unfolding plug.simps by (rule ino_plug_cong) (cases d; simp add: ino_mk)
    then have ino: "ino (plug C1 ?t) = ino (plug ((d, c, p, u) # C) t)" using s1(5) by simp
    show ?thesis
    proof (cases C1)
      case Nil
      then have c1: "c1 = RBNODE_BLACK" using b(11) by simp
      have "remove_loop p d s = Some ?s2" using s1(1) ch True pc Nil by (simp add: remove_loop.simps [of p] del: setters)
      moreover have "nrr ?t" "bal (Suc (Suc n)) ?t \<or> bal (Suc n) ?t" using b True c1 by auto
      ultimately show ?thesis using r2 k2 ino Nil unfolding repairs_def by auto
    next
      case (Cons f C2)
      obtain e k r v where f: "f = (e, k, r, v)" by (cases f)
      have r2': "rb_rep ?s2 (plug ((e, k, r, v) # C2) ?t)" using r2 Cons f by simp
      note L = linked_rep [OF r2', of p]
      have loop: "remove_loop p d s = (if c1 = RBNODE_RED then Some (set_col p RBNODE_BLACK ?s2) else remove_loop r e ?s2)"
        using s1(1) ch True pc(2) L(1-3) by (simp add: Let_def remove_loop.simps [of p] del: setters)
      show ?thesis
      proof (cases c1)
        case RBNODE_RED
        have "rb_rep (set_col p RBNODE_BLACK ?s2) (plug C1 (mk d RBNODE_BLACK t p (mk d RBNODE_RED cl q di)))"
          using set_col_rep [OF r2, of p RBNODE_BLACK] by simp
        moreover have "nrr (plug C1 (mk d RBNODE_BLACK t p (mk d RBNODE_RED cl q di)))" using b True by (simp add: nrr_plug)
        moreover have "bal m (plug C1 (mk d RBNODE_BLACK t p (mk d RBNODE_RED cl q di)))"
          by (rule bal_plugI [OF b(9)]) (use b RBNODE_RED in simp)
        moreover have "ino (plug C1 (mk d RBNODE_BLACK t p (mk d RBNODE_RED cl q di))) = ino (plug C1 ?t)"
          by (rule ino_plug_cong) (cases d; simp add: ino_mk)
        ultimately show ?thesis using loop RBNODE_RED k2 qp ino
          unfolding repairs_def by (metis keeps_set_col)
      next
        case RBNODE_BLACK
        then have C: "C = f # C2" "C1 = C" using s1(6) Cons by auto
        have "deficit (Suc n) m C ?t" using b True RBNODE_BLACK C Cons by (simp add: deficit_def black_plug)
        moreover have "set (ino (plug C ?t)) \<subseteq> A" using A ino C by simp
        ultimately have "repairs A C ?t ?s2 (remove_loop r e ?s2)"
          using IH [of e k r v C2 ?s2 ?t "Suc n"] r2 C f by simp
        then show ?thesis using loop RBNODE_BLACK ino C(2) keeps_trans [OF k2] unfolding repairs_def by auto
      qed
    qed
  qed
qed

lemma remove_loop_correct:
  "rb_rep s (plug ((d, c, p, u) # C) t) \<Longrightarrow> deficit n m ((d, c, p, u) # C) t \<Longrightarrow> set (ino (plug ((d, c, p, u) # C) t)) \<subseteq> A \<Longrightarrow>
     repairs A ((d, c, p, u) # C) t s (remove_loop p d s)"
proof (induction C arbitrary: s d c p u t n)
  case Nil
  show ?case by (rule remove_loop_step [OF _ Nil]) simp
next
  case (Cons f C)
  show ?case by (rule remove_loop_step [OF _ Cons.prems]) (use Cons.IH in auto)
qed

section \<open>Removing a node with at most one child\<close>

definition removes :: "rbptr set \<Rightarrow> rbptr \<Rightarrow> rbptr list \<Rightarrow> 'd rbtree \<Rightarrow> 'd rbtree option \<Rightarrow> bool" where
  "removes A x xs s r \<longleftrightarrow>
     (\<exists>s' T'. r = Some s' \<and> rb_rep s' T' \<and> keeps A s s' \<and> rbt T' \<and> ino T' = xs \<and> rb_nodes s' x = RBNODE_CREATE)"

lemma removesI:
  assumes rep: "rb_rep s (plug C t)" "x \<notin> set (ino (plug C t))" "par s x = cpar C"
    "chi s x RBNODE_LEFT \<in> {None, Some y}" "chi s x RBNODE_RIGHT \<in> {None, Some y}"
    "chi s x RBNODE_LEFT = Some y \<or> chi s x RBNODE_RIGHT = Some y \<longrightarrow> par s y \<noteq> Some x"
    and goal: "rbt (plug C t)" "ino (plug C t) = xs" and A: "insert x (set (ino (plug C t))) \<subseteq> A"
    and same: "rb_update s = rb_update s0" "rb_compare s = rb_compare s0" "rb_data s = rb_data s0"
    and frame: "\<And>v. v \<notin> A \<Longrightarrow> rb_nodes s v = rb_nodes s0 v"
    and nodes: "set (ino (plug C t)) \<subseteq> tnodes s0"
    and children: "\<And>v. v \<in> set (ino (plug C t)) \<Longrightarrow> v \<notin> set (cpath C) \<Longrightarrow> rb_children (rb_nodes s v) = rb_children (rb_nodes s0 v)"
  shows "removes A x xs s0 (rbtree_remove_sanitize x s)"
proof -
  obtain s' where s': "rbtree_remove_sanitize x s = Some s'" "rb_rep s' (plug C t)" "later A s s'" "rb_nodes s' x = RBNODE_CREATE"
    "\<forall>v. v \<noteq> x \<longrightarrow> rb_nodes s' v = rb_nodes s v"
    "augmented s \<longrightarrow> (\<forall>y \<in> set (ino (plug C t)) - set (cpath C). fresh_at s y) \<longrightarrow> sfresh s'"
    by (rule sanitize_correct [OF rep(1-3), of y y A]) (use rep A in auto)
  have "later A s0 s" using same by (simp add: later_def updated_def)
  then have "later A s0 s'" by (rule later_trans [OF _ s'(3)])
  moreover have "\<forall>v. v \<notin> A \<longrightarrow> rb_nodes s' v = rb_nodes s0 v" using s'(5) frame A by (metis insert_subset)
  moreover have "sfresh s'" if a: "augmented s0" and f: "sfresh s0"
  proof -
    have "fresh_at s v" if "v \<in> set (ino (plug C t)) - set (cpath C)" for v
      using fresh_at_cong [OF a same(1,3) children] f nodes that unfolding sfresh_def by blast
    moreover have "augmented s" using a same(1) by (simp add: augmented_def)
    ultimately show ?thesis using s'(6) by blast
  qed
  ultimately have "keeps A s0 s'" by (simp add: keeps_def)
  then show ?thesis using s' goal unfolding removes_def by blast
qed

lemma remove_red:
  assumes rep: "rb_rep s (plug C (Nd RBNODE_RED l x r))" and rbt: "rbt (plug C (Nd RBNODE_RED l x r))" and lr: "l = Lf \<or> r = Lf"
    and A: "set (ino (plug C (Nd RBNODE_RED l x r))) \<subseteq> A"
  shows "removes A x (cbefore C @ cafter C) s (remove_one x s) \<and> l = Lf \<and> r = Lf"
proof -
  obtain n m where b: "bal n l" "bal n r" "black l" "black r" "cnrr C" "cbal n C m" "cblack C" "black (plug C (Nd RBNODE_RED l x r))"
    using rbt by (auto simp: rbt_def nrr_plug bal_plug)
  have Lf: "l = Lf" "r = Lf" using b(1-4) lr by (cases l; cases r; auto)+
  obtain d c p u C' where C: "C = (d, c, p, u) # C'" using b(8) by (cases C) (auto simp: prod_cases4)
  have x: "par s x = Some p" "chi s x RBNODE_LEFT = None" "chi s x RBNODE_RIGHT = None" "col s x = RBNODE_RED"
    using rep C Lf unfolding rb_rep_def repr_plug by simp_all
  note L = linked_rep [OF rep [unfolded C], of x]
  have D: "x \<notin> set (cino C)" using rep unfolding rb_rep_def distinct_plug by simp
  have px: "p \<noteq> x" "p \<in> A" "x \<in> A" "set (cino C) \<subseteq> A" using D C A by (auto simp: set_plug)
  let ?s = "set_chi p d None s"
  have "remove_one x s = rbtree_remove_sanitize x ?s"
    using x L by (simp add: remove_one_def)
  moreover have "rb_rep ?s (plug C Lf)" using unlink_leaf rep C by simp
  then have "removes A x (cbefore C @ cafter C) s (rbtree_remove_sanitize x ?s)"
  proof (rule removesI)
    show "par ?s x = cpar C" "chi ?s x RBNODE_LEFT \<in> {None, Some x}" "chi ?s x RBNODE_RIGHT \<in> {None, Some x}"
      "chi ?s x RBNODE_LEFT = Some x \<or> chi ?s x RBNODE_RIGHT = Some x \<longrightarrow> par ?s x \<noteq> Some x"
      using x C px(1) by simp_all
    show "rbt (plug C Lf)" using b Lf C unfolding rbt_def nrr_plug bal_plug by (auto simp: black_plug)
    show "x \<notin> set (ino (plug C Lf))" "insert x (set (ino (plug C Lf))) \<subseteq> A" using D px by (simp_all add: set_plug)
    show "set (ino (plug C Lf)) \<subseteq> tnodes s" unfolding tnodes_rep [OF rep] set_plug by auto
    show "rb_nodes ?s v = rb_nodes s v" if "v \<notin> A" for v using that px(2) by auto
    show "rb_children (rb_nodes ?s v) = rb_children (rb_nodes s v)" if "v \<notin> set (cpath C)" for v using that C by simp
  qed (simp_all add: ino_plug)
  ultimately show ?thesis using Lf by simp
qed

lemma cpar_in: "cpar C = Some p \<Longrightarrow> p \<in> set (cino C)"
  by (cases C rule: cpar.cases) auto

lemma link_other: "cpar C \<noteq> Some v \<Longrightarrow> link C r h v = h v"
  by (cases "(C, r, h)" rule: link.cases) auto

lemma remove_black_child:
  assumes rep: "rb_rep s (plug C (mk d RBNODE_BLACK t x Lf))" and rbt: "rbt (plug C (mk d RBNODE_BLACK t x Lf))" and y: "rt t = Some y"
    and A: "set (ino (plug C (mk d RBNODE_BLACK t x Lf))) \<subseteq> A"
  shows "removes A x (cbefore C @ ino t @ cafter C) s (remove_one x s)"
proof -
  obtain k m where k: "bal k (mk d RBNODE_BLACK t x Lf)" "cbal k C m" "nrr t" "cnrr C" "black (plug C (mk d RBNODE_BLACK t x Lf))"
    using rbt by (auto simp: rbt_def nrr_plug bal_plug)
  then obtain n where b: "bal n t" "n = 0" "nrr t" "cnrr C" "cbal (Suc n) C m" "black (plug C (mk d RBNODE_BLACK t x Lf))"
    by (cases k) auto
  have red: "\<not> black t" using b(1,2) y by (cases t) auto
  have x: "par s x = cpar C" "chi s x d = Some y" "chi s x (RBNODE_OPPOSITE d) = None" "col s x = RBNODE_BLACK" "repr (rb_nodes s) (Some x) t"
    and R: "repr_ctx (rb_nodes s) C (Some x)"
    using rep y unfolding rb_rep_def repr_plug by simp_all
  have yy: "par s y = Some x" "col s y = RBNODE_RED" using x(5) y red by (cases t; cases "col s y"; auto)+
  have D: "distinct (ino t)" "x \<notin> set (ino t)" "x \<notin> set (cino C)" using rep unfolding rb_rep_def distinct_plug by auto
  let ?s = "set_col y RBNODE_BLACK (set_par y (cpar C)
           (s\<lparr>rb_nodes := link C (Some y) (rb_nodes s), rb_root := if C = [] then Some y else rb_root s\<rparr>))"
  have r: "rb_rep ?s (plug C (recolor RBNODE_BLACK t))"
    by (rule replace_by_child [OF rep _ y _ D(1) x(5)]) auto
  have yx: "y \<noteq> x" using D(2) rt_in [OF y] by auto
  have lx: "link C (Some y) (rb_nodes s) x = rb_nodes s x" using D(3) by (cases C rule: cpar.cases) auto
  have par': "cpar C \<noteq> Some x" using D(3) cpar_in by blast
  have "remove_one x s = rbtree_remove_sanitize x ?s"
  proof (cases C)
    case Nil
    then show ?thesis using x yy by (cases d) (simp_all add: remove_one_def set_par_def set_col_def)
  next
    case (Cons f C')
    obtain e k p v where f: "f = (e, k, p, v)" by (cases f)
    note L = linked_rep [OF rep [unfolded Cons f], of x]
    have "p \<noteq> x" using D Cons f by auto
    then show ?thesis using x yy L Cons f by (cases d) (simp_all add: remove_one_def set_par_def set_col_def set_chi_def)
  qed
  moreover from r have "removes A x (cbefore C @ ino t @ cafter C) s (rbtree_remove_sanitize x ?s)"
  proof (rule removesI)
    have ch: "chi ?s x e = chi s x e" "par ?s x = cpar C" for e using yx lx x(1) by simp_all
    then show "par ?s x = cpar C" by simp
    show "chi ?s x RBNODE_LEFT \<in> {None, Some y}" "chi ?s x RBNODE_RIGHT \<in> {None, Some y}"
      unfolding ch using x by (cases d; simp)+
    show "chi ?s x RBNODE_LEFT = Some y \<or> chi ?s x RBNODE_RIGHT = Some y \<longrightarrow> par ?s y \<noteq> Some x" using par' by simp
    have "black (plug C (recolor RBNODE_BLACK t))" using b(6) by (simp add: black_plug split: if_splits)
    moreover have "bal m (plug C (recolor RBNODE_BLACK t))" by (rule bal_plugI [OF b(5)]) (use b(1) red in simp)
    ultimately show "rbt (plug C (recolor RBNODE_BLACK t))" using b(3,4) unfolding rbt_def nrr_plug by auto
    show "x \<notin> set (ino (plug C (recolor RBNODE_BLACK t)))" "insert x (set (ino (plug C (recolor RBNODE_BLACK t)))) \<subseteq> A"
      using D A by (simp_all add: set_plug)
    show "set (ino (plug C (recolor RBNODE_BLACK t))) \<subseteq> tnodes s" unfolding tnodes_rep [OF rep] set_plug by auto
    show "rb_nodes ?s v = rb_nodes s v" if "v \<notin> A" for v
      using that A rt_in [OF y] link_other [of C v] cpar_in [of C v] by (auto simp: set_plug)
    show "rb_children (rb_nodes ?s v) = rb_children (rb_nodes s v)" if "v \<notin> set (cpath C)" for v
      using that cpar_path [of C v] by (cases "cpar C = Some v") (auto simp: link_other)
  qed (simp_all add: ino_plug)
  ultimately show ?thesis by simp
qed

lemma remove_black_leaf:
  assumes rep: "rb_rep s (plug C (Nd RBNODE_BLACK Lf x Lf))" and rbt: "rbt (plug C (Nd RBNODE_BLACK Lf x Lf))"
    and A: "set (ino (plug C (Nd RBNODE_BLACK Lf x Lf))) \<subseteq> A"
  shows "removes A x (cbefore C @ cafter C) s (remove_one x s)"
proof (cases C)
  case Nil
  have x: "par s x = None" "chi s x RBNODE_LEFT = None" "chi s x RBNODE_RIGHT = None" "col s x = RBNODE_BLACK"
    using rep Nil unfolding rb_rep_def by simp_all
  have "remove_one x s = rbtree_remove_sanitize x (s\<lparr>rb_root := None\<rparr>)" using x by (simp add: remove_one_def)
  moreover have "rb_rep (s\<lparr>rb_root := None\<rparr>) (plug [] Lf)" by (simp add: rb_rep_def)
  then have "removes A x [] s (rbtree_remove_sanitize x (s\<lparr>rb_root := None\<rparr>))"
    by (rule removesI) (use x A Nil in \<open>auto simp: rbt_def\<close>)
  ultimately show ?thesis using Nil by simp
next
  case (Cons f C')
  obtain d c p u where f: "f = (d, c, p, u)" by (cases f)
  note C = Cons [unfolded f] and L = linked_rep [OF rep [unfolded Cons f], of x]
  have x: "par s x = Some p" "chi s x RBNODE_LEFT = None" "chi s x RBNODE_RIGHT = None" "col s x = RBNODE_BLACK"
    using rep C unfolding rb_rep_def repr_plug by simp_all
  have D: "x \<notin> set (cino C)" using rep unfolding rb_rep_def distinct_plug by simp
  have px: "p \<noteq> x" "p \<in> A" "x \<in> A" "set (cino C) \<subseteq> A" using D C A by (auto simp: set_plug)
  have xT: "x \<notin> set (ino (plug C Lf))" using D by (simp add: set_plug)
  have AT: "set (ino (plug C Lf)) \<subseteq> A" using px(4) by (simp add: set_plug)
  let ?s1 = "set_chi p d None s" and ?A = "set (ino (plug C Lf))"
  have r1: "rb_rep ?s1 (plug C Lf)" using unlink_leaf rep C by simp
  obtain s2 where s2: "rbtree_remove_sanitize x ?s1 = Some s2" "rb_rep s2 (plug C Lf)" "later A ?s1 s2"
    "rb_nodes s2 x = RBNODE_CREATE" "\<forall>v. v \<noteq> x \<longrightarrow> rb_nodes s2 v = rb_nodes ?s1 v"
    "augmented ?s1 \<longrightarrow> (\<forall>y \<in> set (ino (plug C Lf)) - set (cpath C). fresh_at ?s1 y) \<longrightarrow> sfresh s2"
    by (rule sanitize_correct [OF r1, of x x x A]) (use D x px C in \<open>simp_all add: set_plug\<close>)
  obtain k m where "cnrr C" and k: "bal k (Nd RBNODE_BLACK Lf x Lf)" "cbal k C m" and "black (plug C (Nd RBNODE_BLACK Lf x Lf))"
    using rbt unfolding rbt_def nrr_plug bal_plug by blast
  moreover from k have "cbal (Suc 0) C m" by (cases k) auto
  ultimately have "deficit 0 m C Lf" using C by (auto simp: deficit_def black_plug split: if_splits)
  then have "repairs ?A C Lf s2 (remove_loop p d s2)"
    using remove_loop_correct [of s2 d c p u C' Lf 0 m ?A] s2(2) C by simp
  then obtain s3 T' m' where s3: "remove_loop p d s2 = Some s3" "rb_rep s3 T'" "keeps ?A s2 s3" "nrr T'" "bal m' T'"
    "ino T' = ino (plug C Lf)" unfolding repairs_def by (elim exE conjE) (rule that)
  have k3: "keeps ?A s2 (blacken_root s3)" by (rule blacken_root_keeps [OF s3(2) _ s3(3)]) (simp add: s3(6))
  then have "rb_nodes (blacken_root s3) x = RBNODE_CREATE" using s2(4) xT by (simp add: keeps_def)
  moreover have "rb_rep (blacken_root s3) (recolor RBNODE_BLACK T')" by (rule blacken_root_rep [OF s3(2)])
  moreover have "keeps A s (blacken_root s3)"
    unfolding keeps_def
  proof (intro conjI allI impI)
    have "later A s2 (blacken_root s3)" using k3 later_mono [OF AT, of s2] by (simp add: keeps_def)
    moreover have "later A s s2" using s2(3) later_trans [of A s ?s1 s2] by simp
    ultimately show "later A s (blacken_root s3)" by (rule later_trans [rotated])
    show "rb_nodes (blacken_root s3) v = rb_nodes s v" if "v \<notin> A" for v
    proof -
      have "v \<noteq> x" "v \<noteq> p" "v \<notin> ?A" using that px AT by auto
      then show ?thesis using k3 s2(5) by (simp add: keeps_def)
    qed
    assume a: "augmented s" and fr: "sfresh s"
    have a1: "augmented ?s1" "augmented s2" using a later_augmented [OF s2(3)] by (simp_all add: augmented_def)
    have "fresh_at ?s1 v" if "v \<in> ?A - set (cpath C)" for v
    proof -
      have "v \<noteq> p" using that C by auto
      then have "fresh_at ?s1 v = fresh_at s v" by (intro fresh_at_cong [OF a]) simp_all
      moreover have "v \<in> tnodes s" using that unfolding tnodes_rep [OF rep] set_plug by simp
      ultimately show ?thesis using fr by (simp add: sfresh_def)
    qed
    then have "sfresh s2" using s2(6) a1 by blast
    then show "sfresh (blacken_root s3)" using k3 a1 by (simp add: keeps_def)
  qed
  moreover have "remove_one x s = Some (blacken_root s3)" using x L s2(1) s3(1) by (simp add: remove_one_def)
  moreover have "ino (recolor RBNODE_BLACK T') = cbefore C @ cafter C" using s3(6) by (simp add: ino_plug)
  ultimately show ?thesis using rbt_recolor [OF s3(4,5)] unfolding removes_def by blast
qed

lemma remove_one_correct:
  assumes rep: "rb_rep s (plug C (Nd c l x r))" and rbt: "rbt (plug C (Nd c l x r))" and lr: "l = Lf \<or> r = Lf"
    and A: "set (ino (plug C (Nd c l x r))) \<subseteq> A"
  shows "removes A x (cbefore C @ ino l @ ino r @ cafter C) s (remove_one x s)"
proof (cases c)
  case RBNODE_RED
  then show ?thesis using remove_red [of s C l x r A] assms by auto
next
  case RBNODE_BLACK
  show ?thesis
  proof (cases "rt l")
    case None
    then have l: "l = Lf" by (cases l) simp_all
    show ?thesis
    proof (cases "rt r")
      case None
      then have "r = Lf" by (cases r) simp_all
      then show ?thesis using remove_black_leaf [of s C x A] assms RBNODE_BLACK l by simp
    next
      case (Some y)
      have "Nd c l x r = mk RBNODE_RIGHT RBNODE_BLACK r x Lf" using l RBNODE_BLACK by (simp add: mk_def)
      then show ?thesis using remove_black_child [OF _ _ Some, of s C RBNODE_RIGHT x A] assms l by simp
    qed
  next
    case (Some y)
    then have r: "r = Lf" using lr by auto
    have "Nd c l x r = mk RBNODE_LEFT RBNODE_BLACK l x Lf" using r RBNODE_BLACK by (simp add: mk_def)
    then show ?thesis using remove_black_child [OF _ _ Some, of s C RBNODE_LEFT x A] assms r by simp
  qed
qed

section \<open>Removing any node\<close>

lemma leftmost: "ino r = y # ys \<Longrightarrow> \<exists>C' k r'. plug C r = plug C' (Nd k Lf y r')"
proof (induction r arbitrary: C ys)
  case (Nd c l x r)
  show ?case
  proof (cases l)
    case Lf
    then show ?thesis using Nd.prems by auto
  next
    case (Nd c' l' x' r')
    then obtain a zs where l: "ino l = a # zs" by (cases "ino l") auto
    then have "ino l = y # zs" using Nd.prems by simp
    moreover have "plug C (Nd c l x r) = plug ((RBNODE_LEFT, c, x, r) # C) l" by (simp add: mk_def)
    ultimately show ?thesis using Nd.IH(1) by metis
  qed
qed simp

lemma ren_plug: "\<exists>C'. ren f (plug C t) = plug C' (ren f t)"
proof (induction C t rule: plug.induct)
  case (1 t)
  show ?case by (rule exI [of _ "[]"]) simp
next
  case (2 d c x u C t)
  then obtain C' where "ren f (plug C (mk d c t x u)) = plug C' (ren f (mk d c t x u))" by blast
  then have "ren f (plug ((d, c, x, u) # C) t) = plug ((d, c, f x, ren f u) # C') (ren f t)" by simp
  then show ?case by blast
qed

lemma remove_one_call:
  assumes "rb_rep s (plug C (Nd c l x r))" and "l = Lf \<or> r = Lf"
  shows "rbtree_remove x s = remove_one x s"
proof -
  have ch: "chi s x RBNODE_LEFT = rt l" "chi s x RBNODE_RIGHT = rt r" using assms(1) unfolding rb_rep_def repr_plug by simp_all
  have x: "x \<in> set (ino (plug C (Nd c l x r)))" by (simp add: set_plug)
  have "rb_root s = Some x \<or> par s x \<noteq> None" using links(4) [OF assms(1) x] by blast
  moreover have "rb_root s = Some x \<or> linked x s" using linked_in [OF assms(1) x] by (auto simp: linked_def)
  ultimately show ?thesis using assms(2) ch by (auto simp: rbtree_remove.simps [of x])
qed

lemma remove_inner:
  assumes rep: "rb_rep s (plug C (Nd c l x r))" and rbt: "rbt (plug C (Nd c l x r))" and lr: "l \<noteq> Lf" "r \<noteq> Lf"
    and A: "set (ino (plug C (Nd c l x r))) \<subseteq> A"
  shows "removes A x (cbefore C @ ino l @ ino r @ cafter C) s (rbtree_remove x s)"
proof -
  let ?T = "plug C (Nd c l x r)"
  have ch: "chi s x RBNODE_LEFT = rt l" "chi s x RBNODE_RIGHT = rt r" and r: "repr (rb_nodes s) (Some x) r"
    using rep unfolding rb_rep_def repr_plug by simp_all
  have root: "rt l \<noteq> None" "rt r \<noteq> None" using lr by (cases l; cases r; simp)+
  have x: "x \<in> set (ino ?T)" by (simp add: set_plug)
  have lnk: "rb_root s = Some x \<or> par s x \<noteq> None" "linked x s" using links(4) [OF rep x] linked_in [OF rep x] by blast+
  obtain y ys where y: "ino r = y # ys" using lr(2) by (cases "ino r"; cases r) auto
  have min: "rbtree_find_min (rt r) s = Some (Some y)" using find_min_correct [OF r] y by (simp add: hd_opt_def)
  obtain C1 k r1 where C1: "?T = plug C1 (Nd k Lf y r1)"
    using leftmost [OF y, of "(RBNODE_RIGHT, c, x, l) # C"] by (auto simp: mk_def)
  have yl: "chi s y RBNODE_LEFT = None" using rep unfolding C1 rb_rep_def repr_plug by simp
  have ino: "ino ?T = (cbefore C @ ino l) @ x # y # (ys @ cafter C)" using y by (simp add: ino_plug)
  have y_in: "y \<in> set (ino ?T)" using ino by simp
  obtain s1 where s1: "rbtree_swap x y s = Some s1" "rb_rep s1 (ren (sw x y) ?T)" "swap_keeps A x y s s1"
    by (rule rbtree_swap_correct [OF rep x y_in _ A]) (use adjacent_not_siblings [OF rep] ino in blast)
  have dist: "distinct ((cbefore C @ ino l) @ x # y # (ys @ cafter C))" using rep ino unfolding rb_rep_def by metis
  then have ino1: "ino (ren (sw x y) ?T) = (cbefore C @ ino l) @ y # x # (ys @ cafter C)"
    unfolding ren_simps ino using map_sw_adjacent by metis
  obtain C2 where C2: "ren (sw x y) ?T = plug C2 (Nd k Lf x (ren (sw x y) r1))"
    using ren_plug [of "sw x y" C1 "Nd k Lf y r1"] unfolding C1 by auto
  let ?r = "ren (sw x y) r1"
  have r2: "rb_rep s1 (plug C2 (Nd k Lf x ?r))" using s1(2) C2 by simp
  have "rbt (plug C2 (Nd k Lf x ?r))" using rbt C2 [symmetric] by simp
  moreover have "set (ino (plug C2 (Nd k Lf x ?r))) \<subseteq> A" using ino1 ino A unfolding C2 by auto
  ultimately have rem: "removes A x (cbefore C2 @ ino ?r @ cafter C2) s1 (rbtree_remove x s1)"
    using remove_one_correct [OF r2, of A] remove_one_call [OF r2] by simp
  have eq0: "(cbefore C @ ino l @ [y]) @ x # (ys @ cafter C) = cbefore C2 @ x # (ino ?r @ cafter C2)"
    using ino1 unfolding C2 by (simp add: ino_plug)
  have "x \<notin> set (cbefore C @ ino l @ [y])" "x \<notin> set (ys @ cafter C)" using dist by auto
  from iffD1 [OF append_Cons_eq_iff [OF this] eq0] have "cbefore C @ ino l @ [y] = cbefore C2" "ys @ cafter C = ino ?r @ cafter C2" by simp_all
  then have eq: "cbefore C2 @ ino ?r @ cafter C2 = cbefore C @ ino l @ ino r @ cafter C" unfolding y by (metis append.assoc append_Cons append_Nil)
  have "rbtree_remove x s = rbtree_remove x s1"
    using lnk root ch min yl s1(1) by (auto simp: rbtree_remove.simps [of x s])
  moreover have "x \<noteq> y" using dist by auto
  then have "keeps A s s1" using s1(3) sfresh_nfresh [of s x] by (simp add: swap_keeps_def keeps_def)
  ultimately show ?thesis using rem eq keeps_trans unfolding removes_def by metis
qed

lemma rbtree_remove_result:
  assumes rep: "rb_rep s T" and rbt: "rbt T" and x: "x \<in> set (ino T)" and A: "set (ino T) \<subseteq> A"
  shows "removes A x (remove1 x (ino T)) s (rbtree_remove x s)"
proof -
  obtain C c l r where T: "T = plug C (Nd c l x r)" using zip_at [OF x, of "[]"] by auto
  have "distinct (ino T)" using rep unfolding rb_rep_def by blast
  then have "remove1 x (ino T) = cbefore C @ ino l @ ino r @ cafter C"
    unfolding T by (auto simp: ino_plug remove1_append)
  moreover have "removes A x (cbefore C @ ino l @ ino r @ cafter C) s (rbtree_remove x s)"
    using rep rbt A unfolding T by (cases "l = Lf \<or> r = Lf") (auto simp: remove_one_call remove_one_correct remove_inner)
  ultimately show ?thesis by simp
qed

lemma rbtree_remove_absent: "rb_root s \<noteq> Some x \<Longrightarrow> par s x = None \<Longrightarrow> rbtree_remove x s = Some s"
  by (simp add: rbtree_remove.simps)

end
