(* ===== verification/Rbtree_Properties.thy ===== *)
theory Rbtree_Properties
  imports Rbtree_Remove
begin

text \<open>
  What the red-black tree of \<^verbatim>\<open>src/kernel/utils/rbtree.c\<close> promises its clients: a sorted list of nodes, held in
  a balanced tree. Insertion and removal change the list by one node, \<^verbatim>\<open>rbtree_fix\<close> moves one node to its place,
  and the iteration macros of \<^verbatim>\<open>rbtree.h\<close> visit the list from one end to the other.
\<close>

section \<open>The iteration macros\<close>

lemma for_each_from_correct:
  "rb_rep s T \<Longrightarrow> ino T = xs @ ys \<Longrightarrow> for_each_from (hd_opt ys) body s acc = Some (fold (\<lambda>x. body x s) ys acc)"
proof (induction ys arbitrary: xs acc)
  case (Cons y ys)
  have "rbtree_next (Some y) s = Some (hd_opt ys)" using neighbours_order(1) Cons.prems by blast
  then show ?case using Cons.IH [of "xs @ [y]"] Cons.prems by (simp add: for_each_from.simps [of "Some y"] hd_opt_def)
qed (simp add: for_each_from.simps hd_opt_def)

lemma for_each_back_correct:
  "rb_rep s T \<Longrightarrow> ino T = rev ys @ xs \<Longrightarrow> for_each_back (hd_opt ys) body s acc = Some (fold (\<lambda>x. body x s) ys acc)"
proof (induction ys arbitrary: xs acc)
  case (Cons y ys)
  have "rbtree_prev (Some y) s = Some (last_opt (rev ys))" using neighbours_order(2) [of s T "rev ys" y xs] Cons.prems by simp
  moreover have "last_opt (rev ys) = hd_opt ys" by (cases ys) (simp_all add: last_opt_def hd_opt_def)
  ultimately show ?case using Cons.IH [of "y # xs"] Cons.prems by (simp add: for_each_back.simps [of "Some y"] hd_opt_def)
qed (simp add: for_each_back.simps hd_opt_def)

lemma for_each_result:
  assumes "rb_rep s T"
  shows "RBTREE_FOR_EACH body s acc = Some (fold (\<lambda>x. body x s) (ino T) acc)"
    and "RBTREE_FOR_EACH_REVERSE body s acc = Some (fold (\<lambda>x. body x s) (rev (ino T)) acc)"
proof -
  have T: "rb_root s = rt T" "repr (rb_nodes s) None T" using assms by (simp_all add: rb_rep_def)
  show "RBTREE_FOR_EACH body s acc = Some (fold (\<lambda>x. body x s) (ino T) acc)"
    using for_each_from_correct [OF assms, of "[]" "ino T"] find_min_correct [OF T(2)] T(1) by (simp add: RBTREE_FOR_EACH_def)
  have "last_opt (ino T) = hd_opt (rev (ino T))" by (cases "ino T" rule: rev_cases) simp_all
  then show "RBTREE_FOR_EACH_REVERSE body s acc = Some (fold (\<lambda>x. body x s) (rev (ino T)) acc)"
    using for_each_back_correct [OF assms, of "rev (ino T)" "[]"] find_max_correct [OF T(2)] T(1) by (simp add: RBTREE_FOR_EACH_REVERSE_def)
qed

section \<open>Insertion, removal and repair\<close>

text \<open>The nodes in their order, before and after the new one.\<close>

definition before_new :: "(rbptr \<Rightarrow> rbptr \<Rightarrow> int) \<Rightarrow> rbptr \<Rightarrow> rbptr list \<Rightarrow> rbptr list" where
  "before_new f n xs = filter (\<lambda>x. f n x \<ge> 0) xs @ n # filter (\<lambda>x. f n x < 0) xs"

lemma total_flip: "total_cmp f \<Longrightarrow> f x y < 0 \<longleftrightarrow> 0 < f y x"
  unfolding total_cmp_def by blast

lemma total_le: "total_cmp f \<Longrightarrow> f x y \<le> 0 \<longleftrightarrow> 0 \<le> f y x"
  using total_flip [of f y x] by linarith

lemma sorted_before_new:
  assumes "total_cmp f" and "sorted_wrt (le_by f) xs"
  shows "sorted_wrt (le_by f) (before_new f n xs)"
proof -
  have "f x n \<le> 0" if "f n x \<ge> 0" for x using that total_le [OF assms(1)] by blast
  moreover have "f n x \<le> 0" if "f n x < 0" for x using that by linarith
  moreover have "f x y \<le> 0" if "f n x \<ge> 0" "f n y < 0" for x y
    using that total_le [OF assms(1), of x n] total_trans [OF assms(1), of x n y] by linarith
  ultimately show ?thesis using assms(2) by (auto simp: before_new_def sorted_wrt_append sorted_wrt_filter)
qed

lemma insert_order:
  assumes "total_cmp f" and "sorted_wrt (le_by f) (ino T)"
  shows "ino (ins_tree (\<lambda>x. f n x < 0) n T) = before_new f n (ino T)"
proof -
  have "f n y < 0" if "f x y \<le> 0" "f n x < 0" for x y
    using that total_trans [OF assms(1), of x y n] total_le [OF assms(1), of y n] total_le [OF assms(1), of x n] by linarith
  then have "sorted_wrt (\<lambda>x y. f n x < 0 \<longrightarrow> f n y < 0) (ino T)"
    using assms(2) by (auto elim: sorted_wrt_mono_rel [rotated])
  from ino_ins_tree [OF this] show ?thesis by (simp add: before_new_def linorder_not_less)
qed

section \<open>A small tree\<close>

definition small_nodes :: "rbptr \<Rightarrow> rbnode" where
  "small_nodes = (\<lambda>_. RBNODE_CREATE)
     (2 := \<lparr>rb_parent = None, rb_children = (\<lambda>d. case d of RBNODE_LEFT \<Rightarrow> Some 1 | RBNODE_RIGHT \<Rightarrow> Some 3), rb_color = RBNODE_BLACK\<rparr>,
      1 := \<lparr>rb_parent = Some 2, rb_children = (\<lambda>_. None), rb_color = RBNODE_RED\<rparr>,
      3 := \<lparr>rb_parent = Some 2, rb_children = (\<lambda>_. None), rb_color = RBNODE_RED\<rparr>)"

definition small_tree :: "(rbptr \<Rightarrow> int) \<Rightarrow> (rbptr \<Rightarrow> int) rbtree" where
  "small_tree key = \<lparr>rb_root = Some 2, rb_compare = (\<lambda>d a b. d a - d b), rb_update = None, rb_nodes = small_nodes, rb_data = key\<rparr>"

abbreviation small :: tr where
  "small \<equiv> Nd RBNODE_BLACK (Nd RBNODE_RED Lf 1 Lf) 2 (Nd RBNODE_RED Lf 3 Lf)"

lemma small_rep: "rb_rep (small_tree key) small" "rbt small"
  by (auto simp: rb_rep_def small_tree_def small_nodes_def rbt_def intro: exI [of _ 1])

lemma small_order: "stable (small_tree key)" "total_cmp (rb_compare (small_tree key) (rb_data (small_tree key)))"
  "rb_compare (small_tree key) (rb_data (small_tree key)) = (\<lambda>a b. key a - key b)"
  by (auto simp: small_tree_def stable_def total_cmp_def)

lemma small_fields:
  "par (small_tree key) 1 = Some 2" "par (small_tree key) 2 = None" "par (small_tree key) 3 = Some 2"
  "chi (small_tree key) 1 d = None" "chi (small_tree key) 3 d = None"
  "chi (small_tree key) 2 RBNODE_LEFT = Some 1" "chi (small_tree key) 2 RBNODE_RIGHT = Some 3"
  "col (small_tree key) 1 = RBNODE_RED" "col (small_tree key) 2 = RBNODE_BLACK" "col (small_tree key) 3 = RBNODE_RED"
  "rb_root (small_tree key) = Some 2" "rb_update (small_tree key) = None"
  by (simp_all add: small_tree_def small_nodes_def del: One_nat_def)

lemma swap_siblings_small: "\<exists>s'. rbtree_swap 3 1 (small_tree key) = Some s' \<and> rb_rep s' small"
proof -
  let ?s = "set_col 1 RBNODE_RED (set_col 3 RBNODE_RED (small_tree key))"
  have "later {} (small_tree key) (swap_apart 3 1 ?s)" by (simp add: swap_apart_def Let_def)
  then have "rb_update (swap_apart 3 1 ?s) = None" by (simp add: later_def small_fields)
  then have "rbtree_swap 3 1 (small_tree key) = Some (swap_apart 3 1 ?s)"
    by (simp add: rbtree_swap_def linked_def fields small_fields rbtree_update_to_root_def del: setters(1-3) One_nat_def)
  moreover have "rb_rep (swap_apart 3 1 ?s) small"
    by (simp add: rb_rep_def swap_apart_def Let_def fields relink_fields adopt_fields small_fields setters del: setters(1-3) One_nat_def)
  ultimately show ?thesis by blast
qed

section \<open>Properties\<close>

text \<open>C20. Inserting a node into a red-black tree never panics, puts the node behind all nodes it does not
  compare below, and gives a red-black tree again, in which the order is kept. Nodes of other trees are not touched, and
  the data the update callback computes for each node of the tree are up to date afterwards if they were before.\<close>

theorem rbtree_insert_correct:
  assumes "rb_rep s T" and "rbt T" and "total_cmp (rb_compare s (rb_data s))"
    and "sorted_wrt (le_by (rb_compare s (rb_data s))) (ino T)" and "n \<notin> set (ino T)" and "rb_nodes s n = RBNODE_CREATE"
  shows "\<exists>s' T'. rbtree_insert n s = Some s' \<and> rb_rep s' T' \<and> rbt T' \<and>
           ino T' = before_new (rb_compare s (rb_data s)) n (ino T) \<and>
           sorted_wrt (le_by (rb_compare s (rb_data s))) (ino T') \<and>
           (\<forall>v. v \<notin> set (ino T') \<longrightarrow> rb_nodes s' v = rb_nodes s v) \<and>
           (augmented s \<and> sfresh s \<and> fresh_at s n \<longrightarrow> sfresh s')"
proof -
  let ?f = "rb_compare s (rb_data s)" and ?T = "ins_tree (\<lambda>x. rb_compare s (rb_data s) n x < 0) n T"
  have ino: "ino ?T = before_new ?f n (ino T)" by (rule insert_order [OF assms(3,4)])
  then have "insert n (set (ino T)) = set (ino ?T)" by (auto simp: before_new_def)
  then obtain s' where "rbtree_insert n s = Some s'" "rb_rep s' ?T" "\<forall>v. v \<notin> set (ino ?T) \<longrightarrow> rb_nodes s' v = rb_nodes s v"
    "augmented s \<longrightarrow> sfresh s \<longrightarrow> fresh_at s n \<longrightarrow> sfresh s'"
    using rbtree_insert_result [OF assms(1,5), of "set (ino ?T)"] assms(6) by (auto simp: RBNODE_CREATE_def)
  moreover have "sorted_wrt (le_by ?f) (ino ?T)" unfolding ino by (rule sorted_before_new [OF assms(3,4)])
  ultimately show ?thesis using rbt_ins_tree [OF assms(2)] ino by (intro exI [of _ s'] exI [of _ ?T]) simp
qed

theorem rbtree_insert_correct_witness:
  "\<exists>s' T'. rbtree_insert 7 (small_tree (\<lambda>x. int x mod 5)) = Some s' \<and> rb_rep s' T' \<and> rbt T' \<and> ino T' = [1, 2, 7, 3]"
proof -
  have "before_new (\<lambda>a b. int a mod 5 - int b mod 5) 7 [1, 2, 3] = [1, 2, 7, 3]" by (simp add: before_new_def)
  then show ?thesis
    using rbtree_insert_correct [OF small_rep small_order(2), of "\<lambda>x. int x mod 5" 7] unfolding small_order(3)
    by (auto simp: small_tree_def small_nodes_def)
qed

text \<open>C21. Removing a node of a red-black tree never panics, takes exactly this node out of the order, gives a
  red-black tree again, and leaves the node as \<^verbatim>\<open>RBNODE_CREATE\<close> made it. Nodes of other trees are not touched, and the
  data the update callback computes stay up to date. A node that is in no tree is left alone.\<close>

theorem rbtree_remove_correct:
  assumes "rb_rep s T" and "rbt T"
  shows "(x \<in> set (ino T) \<longrightarrow> (\<exists>s' T'. rbtree_remove x s = Some s' \<and> rb_rep s' T' \<and> rbt T' \<and>
            ino T' = remove1 x (ino T) \<and> rb_nodes s' x = RBNODE_CREATE \<and>
            (\<forall>v. v \<notin> set (ino T) \<longrightarrow> rb_nodes s' v = rb_nodes s v) \<and> (augmented s \<and> sfresh s \<longrightarrow> sfresh s'))) \<and>
         (x \<notin> set (ino T) \<longrightarrow> rb_nodes s x = RBNODE_CREATE \<longrightarrow> rbtree_remove x s = Some s)"
proof (intro conjI impI)
  assume "x \<in> set (ino T)"
  from rbtree_remove_result [OF assms this order.refl]
  show "\<exists>s' T'. rbtree_remove x s = Some s' \<and> rb_rep s' T' \<and> rbt T' \<and> ino T' = remove1 x (ino T) \<and> rb_nodes s' x = RBNODE_CREATE \<and>
      (\<forall>v. v \<notin> set (ino T) \<longrightarrow> rb_nodes s' v = rb_nodes s v) \<and> (augmented s \<and> sfresh s \<longrightarrow> sfresh s')"
    unfolding removes_def keeps_def by blast
next
  assume "x \<notin> set (ino T)" "rb_nodes s x = RBNODE_CREATE"
  moreover from this have "rb_root s \<noteq> Some x" using assms(1) rt_in [of T x] by (auto simp: rb_rep_def)
  ultimately show "rbtree_remove x s = Some s" by (intro rbtree_remove_absent) (simp_all add: RBNODE_CREATE_def)
qed

theorem rbtree_remove_correct_witness:
  "\<exists>s' T'. rbtree_remove 2 (small_tree int) = Some s' \<and> rb_rep s' T' \<and> rbt T' \<and> ino T' = [1, 3] \<and> rb_nodes s' 2 = RBNODE_CREATE"
  using rbtree_remove_correct [OF small_rep, of 2 int] by auto

text \<open>C22. \<^verbatim>\<open>rbtree_fix\<close> ends and restores the order of a tree in which one node is out of place; the nodes, the balance
  and the colours stay. If the data of the node and of those above it are the only ones not up to date, all are afterwards.\<close>

theorem rbtree_fix_correct:
  assumes "rb_rep s T" and "ino T = xs @ x # ys" and "total_cmp (rb_compare s (rb_data s))" and "stable s"
    and "sorted_wrt (le_by (rb_compare s (rb_data s))) (xs @ ys)"
  shows "\<exists>s' T'. rbtree_fix x s = Some s' \<and> rb_rep s' T' \<and> (rbt T \<longrightarrow> rbt T') \<and> mset (ino T') = mset (ino T) \<and>
           sorted_wrt (le_by (rb_compare s' (rb_data s'))) (ino T') \<and>
           (\<forall>v. v \<notin> set (ino T) \<longrightarrow> rb_nodes s' v = rb_nodes s v) \<and> (augmented s \<and> nfresh x s \<longrightarrow> sfresh s')"
  using rbtree_fix_result [OF assms order.refl] later_cmp [OF _ assms(4)] by metis

theorem rbtree_fix_correct_witness:
  "\<exists>s' T'. rbtree_fix 1 (small_tree (int(1 := 5))) = Some s' \<and> rb_rep s' T' \<and> rbt T' \<and> mset (ino T') = {#1, 2, 3#} \<and>
     sorted_wrt (le_by (rb_compare s' (rb_data s'))) (ino T')"
  using rbtree_fix_correct [OF small_rep(1) _ small_order(2,1), of "[]" 1 "[2, 3]" "int(1 := 5)"] small_rep(2)
  by (auto simp: small_order simp del: One_nat_def)

text \<open>C23. The two iteration macros run their body once for each node, in ascending and in descending order: they are the
  folds over the sorted list the tree stands for.\<close>

theorem rbtree_for_each_folds:
  assumes "rb_rep s T"
  shows "RBTREE_FOR_EACH body s acc = Some (fold (\<lambda>x. body x s) (ino T) acc) \<and>
         RBTREE_FOR_EACH_REVERSE body s acc = Some (fold (\<lambda>x. body x s) (rev (ino T)) acc)"
  by (intro conjI for_each_result [OF assms])

theorem rbtree_for_each_folds_witness:
  "RBTREE_FOR_EACH (\<lambda>x _ xs. xs @ [x]) (small_tree int) [] = Some [1, 2, 3] \<and>
   RBTREE_FOR_EACH_REVERSE (\<lambda>x _ xs. xs @ [x]) (small_tree int) [] = Some [3, 2, 1]"
  using rbtree_for_each_folds [OF small_rep(1), of "\<lambda>x _ xs. xs @ [x]" int "[]"] by simp

text \<open>Exchanging two nodes of a tree exchanges exactly their places, except for a right child and its left
  sibling: \<^verbatim>\<open>rbtree_swap\<close> then leaves both where they are.\<close>

theorem rbtree_swap_exchanges:
  "(\<forall>s T. rb_rep s T \<longrightarrow> a \<in> set (ino T) \<longrightarrow> b \<in> set (ino T) \<longrightarrow> \<not> right_left_siblings s a b \<longrightarrow>
      (\<exists>s'. rbtree_swap a b s = Some s' \<and> rb_rep s' (ren (sw a b) T))) \<and>
   (\<exists>s'. rbtree_swap 3 1 (small_tree key) = Some s' \<and> rb_rep s' small)"
proof (intro conjI allI impI)
  fix s :: "'d rbtree" and T
  assume "rb_rep s T" "a \<in> set (ino T)" "b \<in> set (ino T)" "\<not> right_left_siblings s a b"
  then show "\<exists>s'. rbtree_swap a b s = Some s' \<and> rb_rep s' (ren (sw a b) T)" by (rule rbtree_swap_correct [OF _ _ _ _ order.refl]) blast
next
  show "\<exists>s'. rbtree_swap 3 1 (small_tree key) = Some s' \<and> rb_rep s' small" by (rule swap_siblings_small)
qed

end
