(* ===== verification/Linked_List.thy ===== *)
theory Linked_List
  imports Prelude
begin

text \<open>
  The intrusive doubly linked list of \<^verbatim>\<open>include/sys/list.h\<close>. The entries of all lists are in one heap and found by their
  address; a list is the address of its head, which is an entry of the ring as well. A failed assertion is \<open>None\<close>. \<open>ring\<close>
  says which entries a list has, in which order; the operations change that as the operations on lists do, and leave every
  list alone that shares no entry with what they touch.
\<close>

section \<open>Entries and operations\<close>

type_synonym lptr = nat

record list_heap =
  lprev :: "lptr \<Rightarrow> lptr"
  lnext :: "lptr \<Rightarrow> lptr"

definition set_next :: "lptr \<Rightarrow> lptr \<Rightarrow> list_heap \<Rightarrow> list_heap" where
  "set_next e x h = h\<lparr>lnext := (lnext h)(e := x)\<rparr>"

definition set_prev :: "lptr \<Rightarrow> lptr \<Rightarrow> list_heap \<Rightarrow> list_heap" where
  "set_prev e x h = h\<lparr>lprev := (lprev h)(e := x)\<rparr>"

definition list_entry_init :: "lptr \<Rightarrow> list_heap \<Rightarrow> list_heap" where
  "list_entry_init entry h = set_prev entry entry (set_next entry entry h)"

definition list_init :: "lptr \<Rightarrow> list_heap \<Rightarrow> list_heap" where
  "list_init list h = list_entry_init list h"

definition list_entry_in_list :: "lptr \<Rightarrow> list_heap \<Rightarrow> bool" where
  "list_entry_in_list entry h \<longleftrightarrow> lnext h entry \<noteq> entry \<and> lprev h entry \<noteq> entry"

definition list_is_empty :: "lptr \<Rightarrow> list_heap \<Rightarrow> bool" where
  "list_is_empty list h \<longleftrightarrow> lnext h list = list"

definition list_add :: "lptr \<Rightarrow> lptr \<Rightarrow> lptr \<Rightarrow> list_heap \<Rightarrow> list_heap option" where
  "list_add prev next entry h = do {
     assert_that (lnext h entry = entry \<and> lprev h entry = entry);
     assert_that (lnext h prev = next \<and> lprev h next = prev);
     let h = set_prev next entry h;
     let h = set_next entry next h;
     let h = set_prev entry prev h;
     Some (set_next prev entry h)
   }"

definition list_add_rcu :: "lptr \<Rightarrow> lptr \<Rightarrow> lptr \<Rightarrow> list_heap \<Rightarrow> list_heap" where
  "list_add_rcu prev next entry h =
     (let h = set_prev next entry h;
          h = set_next entry next h;
          h = set_prev entry prev h
      in set_next prev entry h)"

definition list_append :: "lptr \<Rightarrow> lptr \<Rightarrow> list_heap \<Rightarrow> list_heap option" where
  "list_append prev entry h = list_add prev (lnext h prev) entry h"

definition list_prepend :: "lptr \<Rightarrow> lptr \<Rightarrow> list_heap \<Rightarrow> list_heap option" where
  "list_prepend head entry h = list_add (lprev h head) head entry h"

definition list_remove :: "lptr \<Rightarrow> list_heap \<Rightarrow> list_heap" where
  "list_remove entry h =
     (let h = set_next (lprev h entry) (lnext h entry) h;
          h = set_prev (lnext h entry) (lprev h entry) h
      in list_entry_init entry h)"

definition list_remove_rcu :: "lptr \<Rightarrow> list_heap \<Rightarrow> list_heap" where
  "list_remove_rcu entry h =
     (let h = set_next (lprev h entry) (lnext h entry) h
      in set_prev (lnext h entry) (lprev h entry) h)"

definition list_push_back :: "lptr \<Rightarrow> lptr \<Rightarrow> list_heap \<Rightarrow> list_heap option" where
  "list_push_back list entry h = do {
     assert_that (lnext h entry = entry \<and> lprev h entry = entry);
     list_add (lprev h list) list entry h
   }"

definition list_push_back_rcu :: "lptr \<Rightarrow> lptr \<Rightarrow> list_heap \<Rightarrow> list_heap" where
  "list_push_back_rcu list entry h = list_add_rcu (lprev h list) list entry h"

definition list_push_front :: "lptr \<Rightarrow> lptr \<Rightarrow> list_heap \<Rightarrow> list_heap option" where
  "list_push_front list entry h = do {
     assert_that (lnext h entry = entry \<and> lprev h entry = entry);
     list_add list (lnext h list) entry h
   }"

definition list_pop_front :: "lptr \<Rightarrow> list_heap \<Rightarrow> lptr option \<times> list_heap" where
  "list_pop_front list h =
     (if list_is_empty list h then (None, h)
      else (let entry = lnext h list in (Some entry, list_remove entry h)))"

definition list_pop_back :: "lptr \<Rightarrow> list_heap \<Rightarrow> lptr option \<times> list_heap" where
  "list_pop_back list h =
     (if list_is_empty list h then (None, h)
      else (let entry = lprev h list in (Some entry, list_remove entry h)))"

definition list_first :: "lptr \<Rightarrow> list_heap \<Rightarrow> lptr option" where
  "list_first list h = (if list_is_empty list h then None else Some (lnext h list))"

definition list_last :: "lptr \<Rightarrow> list_heap \<Rightarrow> lptr option" where
  "list_last list h = (if list_is_empty list h then None else Some (lprev h list))"

definition list_next :: "lptr \<Rightarrow> lptr \<Rightarrow> list_heap \<Rightarrow> lptr option" where
  "list_next list entry h = (if lnext h entry = list then None else Some (lnext h entry))"

definition list_prev :: "lptr \<Rightarrow> lptr \<Rightarrow> list_heap \<Rightarrow> lptr option" where
  "list_prev list entry h = (if lprev h entry = list then None else Some (lprev h entry))"

partial_function (option) size_loop :: "lptr \<Rightarrow> list_heap \<Rightarrow> u64 \<Rightarrow> lptr \<Rightarrow> u64 option" where
  "size_loop list h n entry = (if entry = list then Some n else size_loop list h (n + 1) (lnext h entry))"

definition list_size :: "lptr \<Rightarrow> list_heap \<Rightarrow> u64 option" where
  "list_size list h = size_loop list h 0 (lnext h list)"

section \<open>Iteration\<close>

text \<open>The body of a loop may change the heap and its own state. \<open>LIST_FOR_EACH_SAFE\<close> reads the next entry before the body
  runs.\<close>

partial_function (option) for_each_next ::
  "(lptr \<Rightarrow> list_heap \<times> 'a \<Rightarrow> (list_heap \<times> 'a) option) \<Rightarrow> lptr \<Rightarrow> lptr option \<Rightarrow> lptr \<Rightarrow> list_heap \<times> 'a \<Rightarrow> (list_heap \<times> 'a) option" where
  "for_each_next body list end elem s =
     (if elem = list \<or> Some elem = end then Some s
      else do {
        s \<leftarrow> body elem s;
        for_each_next body list end (lnext (fst s) elem) s
      })"

partial_function (option) for_each_prev ::
  "(lptr \<Rightarrow> list_heap \<times> 'a \<Rightarrow> (list_heap \<times> 'a) option) \<Rightarrow> lptr \<Rightarrow> lptr option \<Rightarrow> lptr \<Rightarrow> list_heap \<times> 'a \<Rightarrow> (list_heap \<times> 'a) option" where
  "for_each_prev body list end elem s =
     (if elem = list \<or> Some elem = end then Some s
      else do {
        s \<leftarrow> body elem s;
        for_each_prev body list end (lprev (fst s) elem) s
      })"

partial_function (option) for_each_safe ::
  "(lptr \<Rightarrow> list_heap \<times> 'a \<Rightarrow> (list_heap \<times> 'a) option) \<Rightarrow> lptr \<Rightarrow> lptr \<Rightarrow> lptr \<Rightarrow> list_heap \<times> 'a \<Rightarrow> (list_heap \<times> 'a) option" where
  "for_each_safe body list elem temp s =
     (if elem = list then Some s
      else do {
        s \<leftarrow> body elem s;
        for_each_safe body list temp (lnext (fst s) temp) s
      })"

definition LIST_FOR_EACH where
  "LIST_FOR_EACH body list s = for_each_next body list None (lnext (fst s) list) s"

definition LIST_FOR_EACH_REVERSE where
  "LIST_FOR_EACH_REVERSE body list s = for_each_prev body list None (lprev (fst s) list) s"

definition LIST_FOR_EACH_FROM where
  "LIST_FOR_EACH_FROM body start list s = for_each_next body list None start s"

definition LIST_FOR_EACH_FROM_REVERSE where
  "LIST_FOR_EACH_FROM_REVERSE body start list s = for_each_prev body list None start s"

definition LIST_FOR_EACH_TO where
  "LIST_FOR_EACH_TO body end list s = for_each_next body list (Some end) (lnext (fst s) list) s"

definition LIST_FOR_EACH_TO_REVERSE where
  "LIST_FOR_EACH_TO_REVERSE body end list s = for_each_prev body list (Some end) (lprev (fst s) list) s"

definition LIST_FOR_EACH_SAFE where
  "LIST_FOR_EACH_SAFE body list s =
     for_each_safe body list (lnext (fst s) list) (lnext (fst s) (lnext (fst s) list)) s"

section \<open>Rings\<close>

primrec chain :: "(lptr \<Rightarrow> lptr) \<Rightarrow> lptr \<Rightarrow> lptr list \<Rightarrow> lptr \<Rightarrow> bool" where
  "chain f a [] b \<longleftrightarrow> f a = b"
| "chain f a (x # xs) b \<longleftrightarrow> f a = x \<and> chain f x xs b"

definition ring :: "list_heap \<Rightarrow> lptr \<Rightarrow> lptr list \<Rightarrow> bool" where
  "ring h list xs \<longleftrightarrow> distinct (list # xs) \<and> chain (lnext h) list xs list \<and> chain (lprev h) list (rev xs) list"

lemma chain_append: "chain f a (xs @ y # ys) b \<longleftrightarrow> chain f a xs y \<and> chain f y ys b"
  by (induction xs arbitrary: a) simp_all

lemma chain_cong: "(\<And>x. x \<in> set (a # xs) \<Longrightarrow> f x = g x) \<Longrightarrow> chain f a xs b = chain g a xs b"
  by (induction xs arbitrary: a) simp_all

lemma chain_upd: "distinct (a # xs) \<Longrightarrow> chain f a xs b \<Longrightarrow> chain (f(last (a # xs) := c)) a xs c"
proof (induction xs arbitrary: a)
  case (Cons x xs)
  have "chain (f(last (x # xs) := c)) x xs c" by (rule Cons.IH) (use Cons.prems in simp_all)
  moreover have "a \<noteq> last (x # xs)" using Cons.prems(1) last_in_set [of "x # xs"] by (auto simp del: last.simps)
  ultimately show ?case using Cons.prems by (simp add: last_ConsR fun_upd_def del: last.simps)
qed simp

lemma chain_last: "chain f a xs b \<Longrightarrow> f (last (a # xs)) = b"
  by (induction xs arbitrary: a) auto

lemma chain_hd: "chain f a xs b \<Longrightarrow> f a = hd (xs @ [b])"
  by (cases xs) simp_all

lemma ringD:
  assumes "ring h list xs"
  shows "lnext h list = hd (xs @ [list])" "lprev h list = last (list # xs)" "list_is_empty list h \<longleftrightarrow> xs = []"
proof -
  note r = assms [unfolded ring_def]
  show n: "lnext h list = hd (xs @ [list])" using r chain_hd by blast
  have "lprev h list = hd (rev xs @ [list])" using r chain_hd by blast
  then show "lprev h list = last (list # xs)" by (cases xs rule: rev_cases) simp_all
  show "list_is_empty list h \<longleftrightarrow> xs = []" using n r by (cases xs) (auto simp: list_is_empty_def)
qed

text \<open>The two halves of a ring, around a place.\<close>

lemma ring_split:
  "ring h list (xs @ ys) \<longleftrightarrow>
     distinct (list # xs @ ys) \<and> chain (lnext h) list xs (hd (ys @ [list])) \<and> chain (lnext h) (last (list # xs)) ys list \<and>
     chain (lprev h) list (rev ys) (last (list # xs)) \<and> chain (lprev h) (hd (ys @ [list])) (rev xs) list" (is "?l = ?r")
proof
  assume ?l
  then have r: "distinct (list # xs @ ys)" "chain (lnext h) list (xs @ ys) list" "chain (lprev h) list (rev (xs @ ys)) list"
    by (simp_all add: ring_def)
  have n: "chain (lnext h) list xs (hd (ys @ [list])) \<and> chain (lnext h) (last (list # xs)) ys list"
    using r(2)
  proof (cases ys)
    case (Cons y ys')
    have c: "chain (lnext h) list xs y" "chain (lnext h) y ys' list" using r(2) by (simp_all add: Cons chain_append)
    then show ?thesis using chain_last [OF c(1)] by (simp add: Cons)
  qed (auto dest: chain_last)
  have p: "chain (lprev h) list (rev ys) (last (list # xs)) \<and> chain (lprev h) (hd (ys @ [list])) (rev xs) list"
  proof (cases xs rule: rev_cases)
    case Nil
    then show ?thesis using r(3) chain_last [of "lprev h" list "rev ys" list] by (cases ys) simp_all
  next
    case (snoc xs' x)
    have c: "chain (lprev h) list (rev ys) x" "chain (lprev h) x (rev xs') list" using r(3) by (simp_all add: snoc chain_append)
    moreover have "last (list # rev ys) = hd (ys @ [list])" by (cases ys) simp_all
    ultimately show ?thesis using chain_last [OF c(1)] by (simp add: snoc)
  qed
  show ?r using r(1) n p by blast
next
  assume r: ?r
  have "chain (lnext h) list (xs @ ys) list" using r by (cases ys) (simp_all add: chain_append)
  moreover have "chain (lprev h) list (rev ys @ rev xs) list" using r by (cases xs rule: rev_cases) (simp_all add: chain_append)
  ultimately show ?l using r by (simp add: ring_def)
qed

lemma chain_insert:
  assumes "distinct (a # xs @ ys)" "e \<notin> set (a # xs @ ys)" "chain f a xs (hd (ys @ [a]))" "chain f (last (a # xs)) ys a"
    and "f' = f(e := hd (ys @ [a]), last (a # xs) := e)"
  shows "chain f' a (xs @ e # ys) a"
proof -
  have l: "last (a # xs) \<in> set (a # xs)" by (rule last_in_set) simp
  have "chain (f(last (a # xs) := e)) a xs e" by (rule chain_upd) (use assms in auto)
  moreover have "f' x = (f(last (a # xs) := e)) x" if "x \<in> set (a # xs)" for x using that assms(2,5) by auto
  ultimately have "chain f' a xs e" using chain_cong [of a xs f' "f(last (a # xs) := e)" e] by blast
  moreover have "chain f' e ys a"
  proof (cases ys)
    case Nil
    then show ?thesis using assms(2,5) l by auto
  next
    case (Cons y zs)
    have "f' x = f x" if "x \<in> set (y # zs)" for x using that assms(1,2,5) l Cons by (auto simp del: last.simps)
    then have "chain f' y zs a \<longleftrightarrow> chain f y zs a" by (rule chain_cong)
    then show ?thesis using assms(2,4,5) l Cons by (auto simp del: last.simps)
  qed
  ultimately show ?thesis by (simp add: chain_append)
qed

lemma add_rcu_ring:
  assumes r: "ring h list (xs @ ys)" and e: "e \<notin> set (list # xs @ ys)"
  shows "ring (list_add_rcu (last (list # xs)) (hd (ys @ [list])) e h) list (xs @ e # ys)" (is "ring ?h _ _")
proof -
  note s = r [unfolded ring_split]
  have ends: "last (list # rev ys) = hd (ys @ [list])" "hd (rev xs @ [list]) = last (list # xs)"
    by (cases ys; simp) (cases xs rule: rev_cases; simp)
  have n: "lnext ?h = (lnext h)(e := hd (ys @ [list]), last (list # xs) := e)" by (simp add: list_add_rcu_def set_next_def set_prev_def Let_def)
  have "hd (ys @ [list]) \<noteq> e" using e by (cases ys) auto
  then have p: "lprev ?h = (lprev h)(e := last (list # xs), hd (ys @ [list]) := e)"
    by (simp add: list_add_rcu_def set_next_def set_prev_def Let_def fun_upd_twist)
  have "chain (lnext ?h) list (xs @ e # ys) list" by (rule chain_insert [OF _ _ _ _ n]) (use s e in auto)
  moreover have "chain (lprev ?h) list (rev ys @ e # rev xs) list"
    by (rule chain_insert [of list "rev ys" "rev xs"]) (use s e p ends in auto)
  ultimately show ?thesis using s e by (auto simp: ring_def)
qed

text \<open>An entry that is linked to itself is in no ring with another entry.\<close>

lemma ring_links:
  assumes "ring h list (xs @ e # ys)"
  shows "lprev h e = last (list # xs)" "lnext h e = hd (ys @ [list])" "lnext h (last (list # xs)) = e" "lprev h (hd (ys @ [list])) = e"
proof -
  have "ring h list ((xs @ [e]) @ ys)" using assms by simp
  note a = assms [unfolded ring_split] and b = this [unfolded ring_split]
  show "lnext h e = hd (ys @ [list])" using b chain_last [of "lnext h" list "xs @ [e]"] by simp
  show "lnext h (last (list # xs)) = e" using a chain_last [of "lnext h" list xs] by simp
  show "lprev h e = last (list # xs)" using a chain_last [of "lprev h" list "rev (e # ys)"] by simp
  show "lprev h (hd (ys @ [list])) = e" using b chain_last [of "lprev h" list "rev ys"] by (cases ys) simp_all
qed

lemma self_linked_out:
  assumes "ring h list xs" "lnext h e = e" "e \<noteq> list"
  shows "e \<notin> set (list # xs)"
proof
  assume "e \<in> set (list # xs)"
  then obtain as bs where x: "xs = as @ e # bs" using assms(3) by (auto dest: split_list)
  then have "e = hd (bs @ [list])" "distinct (list # as @ e # bs)" using ring_links(2) [of h list as e bs] assms by (simp_all add: ring_def)
  then show False using assms(3) by (cases bs) auto
qed

lemma add_ring:
  assumes r: "ring h list (xs @ ys)" and e: "lnext h e = e" "lprev h e = e" "e \<noteq> list"
  shows "list_add (last (list # xs)) (hd (ys @ [list])) e h = Some (list_add_rcu (last (list # xs)) (hd (ys @ [list])) e h)"
    "ring (list_add_rcu (last (list # xs)) (hd (ys @ [list])) e h) list (xs @ e # ys)"
proof -
  note s = r [unfolded ring_split]
  have "lnext h (last (list # xs)) = hd (ys @ [list])" using s chain_last [of "lnext h" list xs] by blast
  moreover have "lprev h (hd (ys @ [list])) = last (list # xs)" using s chain_hd [of "lprev h" "hd (ys @ [list])" "rev xs" list]
    by (cases xs rule: rev_cases) simp_all
  ultimately show "list_add (last (list # xs)) (hd (ys @ [list])) e h = Some (list_add_rcu (last (list # xs)) (hd (ys @ [list])) e h)"
    using e by (simp add: list_add_def list_add_rcu_def)
  show "ring (list_add_rcu (last (list # xs)) (hd (ys @ [list])) e h) list (xs @ e # ys)"
    by (rule add_rcu_ring [OF r self_linked_out [OF r e(1,3)]])
qed

text \<open>Taking an entry out.\<close>

lemma remove_rcu_ring:
  assumes r: "ring h list (xs @ e # ys)"
  shows "ring (list_remove_rcu e h) list (xs @ ys)" (is "ring ?h _ _")
proof -
  have "ring h list ((xs @ [e]) @ ys)" using r by simp
  note a = r [unfolded ring_split] and b = this [unfolded ring_split] and l = ring_links [OF r]
  have ends: "last (list # rev ys) = hd (ys @ [list])" by (cases ys) simp_all
  have n: "lnext ?h = (lnext h)(last (list # xs) := hd (ys @ [list]))" and p: "lprev ?h = (lprev h)(hd (ys @ [list]) := last (list # xs))"
    by (simp_all add: list_remove_rcu_def set_next_def set_prev_def Let_def l)
      (use a in \<open>cases xs rule: rev_cases; cases ys; auto simp: fun_upd_def\<close>)+
  have l1: "last (list # xs) \<in> set (list # xs)" "hd (ys @ [list]) \<in> set (ys @ [list])" by (rule last_in_set; simp) (rule hd_in_set; simp)
  have "chain (lnext ?h) list xs (hd (ys @ [list]))" unfolding n by (rule chain_upd) (use a in auto)
  moreover have "chain (lnext ?h) (last (list # xs)) ys list"
  proof (cases ys)
    case (Cons y zs)
    have "lnext ?h x = lnext h x" if "x \<in> set (y # zs)" for x using that a l1 n Cons by (auto simp del: last.simps)
    then have "chain (lnext ?h) y zs list \<longleftrightarrow> chain (lnext h) y zs list" by (rule chain_cong)
    then show ?thesis using b n Cons by (auto simp del: last.simps)
  qed (simp add: n)
  moreover have "chain (lprev ?h) list (rev ys) (last (list # xs))"
    unfolding p ends [symmetric] by (rule chain_upd) (use a b in auto)
  moreover have "chain (lprev ?h) (hd (ys @ [list])) (rev xs) list"
  proof (cases xs rule: rev_cases)
    case (snoc zs z)
    have "lprev ?h x = lprev h x" if "x \<in> set (z # rev zs)" for x using that a l1 p snoc by (cases ys) auto
    then have "chain (lprev ?h) z (rev zs) list \<longleftrightarrow> chain (lprev h) z (rev zs) list" by (rule chain_cong)
    then show ?thesis using a p snoc by simp
  qed (simp add: p)
  ultimately show ?thesis using a unfolding ring_split by auto
qed

lemma ring_cong:
  assumes "\<And>x. x \<in> set (list # xs) \<Longrightarrow> lnext h' x = lnext h x \<and> lprev h' x = lprev h x"
  shows "ring h' list xs = ring h list xs"
  using chain_cong [of list xs "lnext h'" "lnext h" list] chain_cong [of list "rev xs" "lprev h'" "lprev h" list] assms by (simp add: ring_def)

text \<open>What an operation on a list may touch.\<close>

definition only_ring :: "lptr set \<Rightarrow> list_heap \<Rightarrow> list_heap \<Rightarrow> bool" where
  "only_ring A h h' \<longleftrightarrow> (\<forall>x. x \<notin> A \<longrightarrow> lnext h' x = lnext h x \<and> lprev h' x = lprev h x)"

lemma only_ring_other:
  assumes "only_ring A h h'" "ring h other ys" "A \<inter> set (other # ys) = {}"
  shows "ring h' other ys"
  using assms ring_cong [of other ys h' h] by (auto simp: only_ring_def)

lemma add_rcu_only: "only_ring {pv, nx, e} h (list_add_rcu pv nx e h)"
  by (simp add: only_ring_def list_add_rcu_def set_next_def set_prev_def Let_def)

lemma add_result:
  assumes r: "ring h list (xs @ ys)" and e: "lnext h e = e" "lprev h e = e" "e \<noteq> list" and at: "pv = last (list # xs)" "nx = hd (ys @ [list])"
  obtains h' where "list_add pv nx e h = Some h'" "ring h' list (xs @ e # ys)" "only_ring (set (list # e # xs @ ys)) h h'"
proof -
  have "pv \<in> set (list # xs)" "nx \<in> set (list # ys)" unfolding at by (rule last_in_set; simp) (cases ys; simp)
  then have "only_ring (set (list # e # xs @ ys)) h (list_add_rcu pv nx e h)" using add_rcu_only [of pv nx e h] by (auto simp: only_ring_def)
  then show thesis using that add_ring [OF r e] at by simp
qed

lemma remove_result:
  assumes r: "ring h list (xs @ e # ys)"
  shows "ring (list_remove e h) list (xs @ ys)" "lnext (list_remove e h) e = e" "lprev (list_remove e h) e = e"
    "only_ring (set (list # xs @ e # ys)) h (list_remove e h)"
proof -
  have eq: "list_remove e h = list_entry_init e (list_remove_rcu e h)" by (simp add: list_remove_def list_remove_rcu_def Let_def)
  have "e \<notin> set (list # xs @ ys)" using r by (auto simp: ring_def)
  then have "ring (list_remove e h) list (xs @ ys) = ring (list_remove_rcu e h) list (xs @ ys)"
    unfolding eq by (intro ring_cong) (auto simp: list_entry_init_def set_next_def set_prev_def)
  then show "ring (list_remove e h) list (xs @ ys)" using remove_rcu_ring [OF r] by simp
  show "lnext (list_remove e h) e = e" "lprev (list_remove e h) e = e" by (simp_all add: eq list_entry_init_def set_next_def set_prev_def)
  have "last (list # xs) \<in> set (list # xs)" "hd (ys @ [list]) \<in> set (list # ys)" by (rule last_in_set; simp) (cases ys; simp)
  moreover have "lnext (set_next pv nx h) e = (if e = pv then nx else lnext h e)" for pv nx by (simp add: set_next_def)
  ultimately show "only_ring (set (list # xs @ e # ys)) h (list_remove e h)"
    using ring_links [OF r] unfolding list_remove_def Let_def
    by (auto simp: only_ring_def list_entry_init_def set_next_def set_prev_def simp del: last.simps)
qed

lemma size_result:
  assumes "ring h list (ds @ xs)"
  shows "size_loop list h n (hd (xs @ [list])) = Some (n + of_nat (length xs))"
  using assms
proof (induction xs arbitrary: ds n)
  case Nil
  then show ?case by (simp add: size_loop.simps [of list h n list])
next
  case (Cons x xs)
  have "x \<noteq> list" using Cons.prems by (auto simp: ring_def)
  moreover have "lnext h x = hd (xs @ [list])" using ring_links(2) [OF Cons.prems] .
  moreover have "ring h list ((ds @ [x]) @ xs)" using Cons.prems by simp
  note Cons.IH [OF this, of "n + 1"]
  ultimately show ?case by (simp add: size_loop.simps [of list h n x] add.assoc)
qed

section \<open>Loops\<close>

text \<open>A body that may change the entries before the current one, and the current one if the loop is the safe one.\<close>

lemma for_each_safe_fold:
  assumes "ring h list (ds @ xs)"
    and body: "\<And>ds x ys h a. ring h list (ds @ x # ys) \<Longrightarrow> \<exists>h' ds'. body x (h, a) = Some (h', f x a) \<and> ring h' list (ds' @ ys)"
  shows "\<exists>h' ds'. for_each_safe body list (hd (xs @ [list])) (lnext h (hd (xs @ [list]))) (h, a) = Some (h', fold f xs a) \<and> ring h' list ds'"
  using assms(1)
proof (induction xs arbitrary: ds h a)
  case Nil
  then show ?case by (auto simp: for_each_safe.simps [of body list list "lnext h list" "(h, a)"])
next
  case (Cons x xs)
  have x: "x \<noteq> list" "lnext h x = hd (xs @ [list])" using Cons.prems ring_links(2) [OF Cons.prems] by (auto simp: ring_def)
  obtain h1 ds1 where h1: "body x (h, a) = Some (h1, f x a)" "ring h1 list (ds1 @ xs)" using body [OF Cons.prems] by blast
  from Cons.IH [OF h1(2)] show ?case using h1(1) x by (simp add: for_each_safe.simps [of body list x "hd (xs @ [list])" "(h, a)"])
qed

lemma for_each_next_fold:
  assumes "ring h list (ds @ xs @ es)" "end = (if es = [] then None else Some (hd es))"
    and body: "\<And>ds x ys h a. ring h list (ds @ x # ys) \<Longrightarrow> \<exists>h' ds'. body x (h, a) = Some (h', f x a) \<and> ring h' list (ds' @ x # ys)"
  shows "\<exists>h' ds'. for_each_next body list end (hd (xs @ es @ [list])) (h, a) = Some (h', fold f xs a) \<and> ring h' list (ds' @ es)"
  using assms(1)
proof (induction xs arbitrary: ds h a)
  case Nil
  have "for_each_next body list end (hd (es @ [list])) (h, a) = Some (h, a)"
    using assms(2) for_each_next.simps [of body list "end" "hd (es @ [list])" "(h, a)"] by (cases es) simp_all
  then show ?case using Nil by auto
next
  case (Cons x xs)
  have r: "ring h list (ds @ x # (xs @ es))" using Cons.prems by simp
  have x: "x \<noteq> list" "Some x \<noteq> end" using r assms(2) by (cases es; auto simp: ring_def)+
  obtain h1 ds1 where h1: "body x (h, a) = Some (h1, f x a)" "ring h1 list (ds1 @ x # xs @ es)" using body [OF r] by blast
  have n: "lnext h1 x = hd (xs @ es @ [list])" using ring_links(2) [OF h1(2)] by simp
  have "ring h1 list ((ds1 @ [x]) @ xs @ es)" using h1(2) by simp
  from Cons.IH [OF this] show ?case using h1(1) x n by (simp add: for_each_next.simps [of body list "end" x "(h, a)"])
qed

lemma for_each_prev_fold:
  assumes "ring h list (es @ xs @ ds)" "end = (if es = [] then None else Some (last es))"
    and body: "\<And>ds x ys h a. ring h list (ys @ x # ds) \<Longrightarrow> \<exists>h' ds'. body x (h, a) = Some (h', f x a) \<and> ring h' list (ys @ x # ds')"
  shows "\<exists>h' ds'. for_each_prev body list end (last (list # es @ xs)) (h, a) = Some (h', fold f (rev xs) a) \<and> ring h' list (es @ ds')"
  using assms(1)
proof (induction xs arbitrary: ds h a rule: rev_induct)
  case Nil
  have "for_each_prev body list end (last (list # es)) (h, a) = Some (h, a)"
    using assms(2) for_each_prev.simps [of body list "end" "last (list # es)" "(h, a)"] by (cases es rule: rev_cases) simp_all
  then show ?case using Nil by auto
next
  case (snoc x xs)
  have r: "ring h list ((es @ xs) @ x # ds)" using snoc.prems by simp
  have x: "x \<noteq> list" "Some x \<noteq> end" using r assms(2) by (cases es rule: rev_cases; auto simp: ring_def)+
  obtain h1 ds1 where h1: "body x (h, a) = Some (h1, f x a)" "ring h1 list ((es @ xs) @ x # ds1)" using body [OF r] by blast
  have n: "lprev h1 x = last (list # es @ xs)" using ring_links(1) [OF h1(2)] .
  have "ring h1 list (es @ xs @ (x # ds1))" using h1(2) by simp
  from snoc.IH [OF this] show ?case using h1(1) x n by (simp add: for_each_prev.simps [of body list "end" x "(h, a)"])
qed

section \<open>The interface of a queue of entries\<close>

text \<open>What the users of a list rely on: entries are appended and taken from the front; an entry is free as long as it is in no
  list, and free again when it was taken.\<close>

fun pops :: "('h \<Rightarrow> 'e option \<times> 'h) \<Rightarrow> nat \<Rightarrow> 'h \<Rightarrow> 'e option list \<times> 'h" where
  "pops pop 0 h = ([], h)"
| "pops pop (Suc n) h = (let (x, h) = pop h; (xs, h) = pops pop n h in (x # xs, h))"

locale entry_queue =
  fixes holds :: "'h \<Rightarrow> 'e list \<Rightarrow> bool"
    and is_free :: "'h \<Rightarrow> 'e \<Rightarrow> bool"
    and push :: "'e \<Rightarrow> 'h \<Rightarrow> 'h option"
    and pop :: "'h \<Rightarrow> 'e option \<times> 'h"
  assumes push_law: "holds h xs \<Longrightarrow> is_free h e \<Longrightarrow> \<exists>h'. push e h = Some h' \<and> holds h' (xs @ [e]) \<and> (\<forall>x. x \<noteq> e \<longrightarrow> is_free h x \<longrightarrow> is_free h' x)"
    and pop_law: "holds h (x # xs) \<Longrightarrow> \<exists>h'. pop h = (Some x, h') \<and> holds h' xs \<and> is_free h' x \<and> (\<forall>y. is_free h y \<longrightarrow> is_free h' y)"
    and pop_empty: "holds h [] \<Longrightarrow> pop h = (None, h)"
begin

lemma push_all:
  assumes "holds h xs" "distinct es" "\<forall>e \<in> set es. is_free h e"
  shows "\<exists>h'. for_each push es h = Some h' \<and> holds h' (xs @ es)"
  using assms
proof (induction es arbitrary: h xs)
  case (Cons e es)
  obtain h1 where h1: "push e h = Some h1" "holds h1 (xs @ [e])" "\<forall>x. x \<noteq> e \<longrightarrow> is_free h x \<longrightarrow> is_free h1 x"
    using push_law [OF Cons.prems(1), of e] Cons.prems(3) by auto
  have "\<exists>h'. for_each push es h1 = Some h' \<and> holds h' ((xs @ [e]) @ es)"
    by (rule Cons.IH [OF h1(2)]) (use Cons.prems(2,3) h1(3) in auto)
  then show ?case using h1(1) by simp
qed auto

lemma pop_all:
  assumes "holds h (xs @ ys)"
  shows "\<exists>h'. pops pop (length xs) h = (map Some xs, h') \<and> holds h' ys \<and> (\<forall>x. x \<in> set xs \<or> is_free h x \<longrightarrow> is_free h' x)"
  using assms
proof (induction xs arbitrary: h)
  case (Cons x xs)
  have "holds h (x # (xs @ ys))" using Cons.prems by simp
  from pop_law [OF this] obtain h1 where h1: "pop h = (Some x, h1)" "holds h1 (xs @ ys)" "is_free h1 x" "\<forall>y. is_free h y \<longrightarrow> is_free h1 y" by blast
  from Cons.IH [OF h1(2)] show ?case using h1 by auto
qed auto

lemma push_pop:
  assumes "holds h []" "distinct es" "\<forall>e \<in> set es. is_free h e"
  shows "\<exists>h1 h2. for_each push es h = Some h1 \<and> holds h1 es \<and> pops pop (length es) h1 = (map Some es, h2) \<and> holds h2 [] \<and>
    pop h2 = (None, h2) \<and> (\<forall>e \<in> set es. is_free h2 e)"
proof -
  obtain h1 where h1: "for_each push es h = Some h1" "holds h1 es" using push_all [OF assms] by auto
  have "holds h1 (es @ [])" using h1(2) by simp
  from pop_all [OF this] show ?thesis using h1 pop_empty by blast
qed

end

text \<open>The operations of the header, for the list at an address.\<close>

definition free_entry :: "lptr \<Rightarrow> list_heap \<Rightarrow> lptr \<Rightarrow> bool" where
  "free_entry list h e \<longleftrightarrow> lnext h e = e \<and> lprev h e = e \<and> e \<noteq> list"

lemma push_back_result:
  assumes r: "ring h list xs" and e: "free_entry list h e"
  obtains h' where "list_push_back list e h = Some h'" "ring h' list (xs @ [e])" "only_ring (set (list # e # xs)) h h'"
proof -
  have r': "ring h list (xs @ [])" using r by simp
  show thesis
    by (rule add_result [OF r', of e "lprev h list" list]) (use e that ringD(2) [OF r] in \<open>auto simp: free_entry_def list_push_back_def\<close>)
qed

lemma push_front_result:
  assumes r: "ring h list xs" and e: "free_entry list h e"
  obtains h' where "list_push_front list e h = Some h'" "ring h' list (e # xs)" "only_ring (set (list # e # xs)) h h'"
proof -
  have r': "ring h list ([] @ xs)" using r by simp
  show thesis
    by (rule add_result [OF r', of e list "lnext h list"]) (use e that ringD(1) [OF r] in \<open>auto simp: free_entry_def list_push_front_def\<close>)
qed

lemma free_keep:
  assumes "only_ring (set (list # xs)) h h'" "ring h list xs" "free_entry list h y"
  shows "free_entry list h' y"
  using assms self_linked_out [OF assms(2), of y] by (auto simp: free_entry_def only_ring_def)

lemma pop_front_result:
  assumes r: "ring h list (x # xs)"
  shows "list_pop_front list h = (Some x, list_remove x h)" "ring (list_remove x h) list xs" "free_entry list (list_remove x h) x"
    "free_entry list h y \<Longrightarrow> free_entry list (list_remove x h) y"
proof -
  have r': "ring h list ([] @ x # xs)" using r by simp
  note d = remove_result [OF r']
  show "list_pop_front list h = (Some x, list_remove x h)" using ringD(1,3) [OF r] by (simp add: list_pop_front_def Let_def)
  show "ring (list_remove x h) list xs" using d(1) by simp
  show "free_entry list (list_remove x h) x" using d(2,3) r by (auto simp: free_entry_def ring_def)
  show "free_entry list (list_remove x h) y" if "free_entry list h y" by (rule free_keep [OF _ r that]) (use d(4) in simp)
qed

interpretation entries: entry_queue "\<lambda>h xs. ring h list xs" "free_entry list" "list_push_back list" "list_pop_front list" for list
proof
  fix h xs e
  assume r: "ring h list xs" and e: "free_entry list h e"
  obtain h' where h': "list_push_back list e h = Some h'" "ring h' list (xs @ [e])" "only_ring (set (list # e # xs)) h h'"
    by (rule push_back_result [OF r e])
  have "free_entry list h' x" if "x \<noteq> e" "free_entry list h x" for x
    using h'(3) that self_linked_out [OF r, of x] by (auto simp: free_entry_def only_ring_def)
  then show "\<exists>h'. list_push_back list e h = Some h' \<and> ring h' list (xs @ [e]) \<and> (\<forall>x. x \<noteq> e \<longrightarrow> free_entry list h x \<longrightarrow> free_entry list h' x)"
    using h' by blast
next
  fix h x xs
  assume r: "ring h list (x # xs)"
  show "\<exists>h'. list_pop_front list h = (Some x, h') \<and> ring h' list xs \<and> free_entry list h' x \<and> (\<forall>y. free_entry list h y \<longrightarrow> free_entry list h' y)"
    using pop_front_result [OF r] by blast
next
  fix h
  assume "ring h list []"
  then show "list_pop_front list h = (None, h)" using ringD(3) by (simp add: list_pop_front_def)
qed

section \<open>Properties\<close>

definition opt_hd :: "'a list \<Rightarrow> 'a option" where
  "opt_hd xs = (if xs = [] then None else Some (hd xs))"

definition opt_last :: "'a list \<Rightarrow> 'a option" where
  "opt_last xs = (if xs = [] then None else Some (last xs))"

text \<open>C35. The linked list implements the operations on lists. For a list that holds \<open>xs\<close> and an entry in no list, pushing at
  either end and inserting before or after a member pass all assertions and insert at that place; taking a member out leaves the
  others in order and the entry in no list; the two ends and the neighbours are those of \<open>xs\<close>, and counting ends with its
  length. No list is changed that shares no entry with it.\<close>

theorem list_operations_refine:
  assumes "ring h list xs" "free_entry list h e"
  shows "(\<exists>h'. list_push_back list e h = Some h' \<and> ring h' list (xs @ [e]) \<and> only_ring (set (list # e # xs)) h h') \<and>
    (\<exists>h'. list_push_front list e h = Some h' \<and> ring h' list (e # xs) \<and> only_ring (set (list # e # xs)) h h') \<and>
    (\<forall>as x bs. xs = as @ x # bs \<longrightarrow>
      (\<exists>h'. list_append x e h = Some h' \<and> ring h' list (as @ x # e # bs) \<and> only_ring (set (list # e # xs)) h h') \<and>
      (\<exists>h'. list_prepend x e h = Some h' \<and> ring h' list (as @ e # x # bs) \<and> only_ring (set (list # e # xs)) h h') \<and>
      ring (list_remove x h) list (as @ bs) \<and> free_entry list (list_remove x h) x \<and> only_ring (set (list # xs)) h (list_remove x h) \<and>
      list_next list x h = opt_hd bs \<and> list_prev list x h = opt_last as) \<and>
    (\<forall>other ys h'. only_ring (set (list # e # xs)) h h' \<and> ring h other ys \<and> set (list # e # xs) \<inter> set (other # ys) = {} \<longrightarrow> ring h' other ys) \<and>
    list_is_empty list h = (xs = []) \<and> list_first list h = opt_hd xs \<and> list_last list h = opt_last xs \<and>
    list_size list h = Some (of_nat (length xs))"
proof (intro conjI allI impI)
  have e: "lnext h e = e" "lprev h e = e" "e \<noteq> list" using assms(2) by (simp_all add: free_entry_def)
  show "\<exists>h'. list_push_back list e h = Some h' \<and> ring h' list (xs @ [e]) \<and> only_ring (set (list # e # xs)) h h'"
    by (rule push_back_result [OF assms]) blast
  show "\<exists>h'. list_push_front list e h = Some h' \<and> ring h' list (e # xs) \<and> only_ring (set (list # e # xs)) h h'"
    by (rule push_front_result [OF assms]) blast
  show "list_is_empty list h = (xs = [])" "list_first list h = opt_hd xs" "list_last list h = opt_last xs"
    using ringD [OF assms(1)] by (simp_all add: list_first_def list_last_def opt_hd_def opt_last_def)
  have "ring h list ([] @ xs)" using assms(1) by simp
  from size_result [OF this] show "list_size list h = Some (of_nat (length xs))" using ringD(1) [OF assms(1)] by (simp add: list_size_def)
  show "ring h' other ys" if "only_ring (set (list # e # xs)) h h' \<and> ring h other ys \<and> set (list # e # xs) \<inter> set (other # ys) = {}" for other ys h'
    using only_ring_other that by blast
  fix as x bs
  assume x: "xs = as @ x # bs"
  have r: "ring h list (as @ x # bs)" "ring h list ((as @ [x]) @ bs)" using assms(1) x by simp_all
  have sub: "list_append x e h = list_add x (hd (bs @ [list])) e h" "list_prepend x e h = list_add (last (list # as)) x e h"
    using ring_links [OF r(1)] by (simp_all add: list_append_def list_prepend_def)
  show "\<exists>h'. list_append x e h = Some h' \<and> ring h' list (as @ x # e # bs) \<and> only_ring (set (list # e # xs)) h h'"
    unfolding sub by (rule add_result [OF r(2) e, of x "hd (bs @ [list])"]) (use x in auto)
  show "\<exists>h'. list_prepend x e h = Some h' \<and> ring h' list (as @ e # x # bs) \<and> only_ring (set (list # e # xs)) h h'"
    unfolding sub by (rule add_result [OF r(1) e, of "last (list # as)" x]) (use x in auto)
  show "ring (list_remove x h) list (as @ bs)" "only_ring (set (list # xs)) h (list_remove x h)"
    using remove_result [OF r(1)] x by simp_all
  show "free_entry list (list_remove x h) x" using remove_result(2,3) [OF r(1)] r(1) by (auto simp: free_entry_def ring_def)
  have "hd (bs @ [list]) = list \<longleftrightarrow> bs = []" "last (list # as) = list \<longleftrightarrow> as = []"
    using r(1) by (cases bs; auto simp: ring_def) (cases as rule: rev_cases; use r(1) in \<open>auto simp: ring_def\<close>)
  then show "list_next list x h = opt_hd bs" "list_prev list x h = opt_last as"
    using ring_links [OF r(1)] by (simp_all add: list_next_def list_prev_def opt_hd_def opt_last_def)
qed

definition two_entries :: list_heap where
  "two_entries = \<lparr>lprev = (\<lambda>x. x)(0 := 2, 1 := 0, 2 := 1), lnext = (\<lambda>x. x)(0 := 1, 1 := 2, 2 := 0)\<rparr>"

lemma two_entries_ring: "ring two_entries 0 [1, 2]" "free_entry 0 two_entries 3"
  by (simp_all add: ring_def two_entries_def free_entry_def)

theorem list_operations_refine_witness:
  "(\<exists>h'. list_prepend 2 3 two_entries = Some h' \<and> ring h' 0 [1, 3, 2]) \<and> list_size 0 two_entries = Some 2"
proof -
  have x: "[1, 2] = [1] @ 2 # []" by simp
  note p = list_operations_refine [OF two_entries_ring]
  from p have "\<exists>h'. list_prepend 2 3 two_entries = Some h' \<and> ring h' 0 ([1] @ 3 # 2 # [])" using x by blast
  moreover from p have "list_size 0 two_entries = Some (of_nat (length [1, 2 :: nat]))" by (elim conjE)
  ultimately show ?thesis by simp
qed

text \<open>First in, first out: entries pushed to an empty list are popped in the order they were pushed, and all of them are in no
  list then.\<close>

theorem list_push_pop_fifo:
  assumes "ring h list []" "distinct es" "\<forall>e \<in> set es. free_entry list h e"
  shows "\<exists>h1 h2. for_each (list_push_back list) es h = Some h1 \<and> ring h1 list es \<and>
    pops (list_pop_front list) (length es) h1 = (map Some es, h2) \<and> ring h2 list [] \<and> list_pop_front list h2 = (None, h2) \<and>
    (\<forall>e \<in> set es. free_entry list h2 e)"
  by (rule entries.push_pop [OF assms])

text \<open>Iterating with removal: the safe loop over a list runs its body once for every entry, in order, also if the body takes
  the entry out of the list it iterates over.\<close>

theorem list_for_each_safe_folds:
  assumes "ring h list xs"
    and "\<And>ds x ys h a. ring h list (ds @ x # ys) \<Longrightarrow> \<exists>h' ds'. body x (h, a) = Some (h', f x a) \<and> ring h' list (ds' @ ys)"
  shows "\<exists>h' ds'. LIST_FOR_EACH_SAFE body list (h, a) = Some (h', fold f xs a) \<and> ring h' list ds'"
proof -
  have "ring h list ([] @ xs)" using assms(1) by simp
  from for_each_safe_fold [of h list "[]" xs body f a, OF this assms(2)] show ?thesis
    using ringD(1) [OF assms(1)] by (simp add: LIST_FOR_EACH_SAFE_def)
qed

text \<open>Readers of a list under RCU: when an entry is taken out, the list loses it, but a reader that stands at it still
  finds exactly the entries behind it and then the end of the list, also after an entry was appended.\<close>

theorem list_rcu_readers:
  assumes "ring h list (xs @ e # ys)" "n \<notin> set (list # xs @ e # ys)"
  shows "ring (list_remove_rcu e h) list (xs @ ys) \<and> chain (lnext (list_remove_rcu e h)) e ys list \<and>
    ring (list_push_back_rcu list n (list_remove_rcu e h)) list (xs @ ys @ [n]) \<and>
    chain (lnext (list_push_back_rcu list n (list_remove_rcu e h))) e (if ys = [] then [] else ys @ [n]) list"
proof -
  let ?h = "list_remove_rcu e h" and ?g = "list_push_back_rcu list n (list_remove_rcu e h)"
  note links = ring_links [OF assms(1)] and d = assms(1) [unfolded ring_def]
  have r: "ring ?h list (xs @ ys)" by (rule remove_rcu_ring [OF assms(1)])
  have l: "last (list # xs) \<in> set (list # xs)" by (rule last_in_set) simp
  have n: "lnext ?h = (lnext h)(last (list # xs) := hd (ys @ [list]))"
    using links by (simp add: list_remove_rcu_def set_next_def set_prev_def Let_def)
  have "chain (lnext h) e ys list" using d by (simp add: chain_append)
  moreover have "lnext ?h x = lnext h x" if "x \<in> set (e # ys)" for x using n l d that by (auto simp del: last.simps)
  ultimately have c: "chain (lnext ?h) e ys list" using chain_cong [of e ys "lnext ?h" "lnext h"] by blast
  have r': "ring ?h list ((xs @ ys) @ [])" using r by simp
  have g: "?g = list_add_rcu (last (list # xs @ ys)) (hd ([] @ [list])) n ?h" using ringD(2) [OF r] by (simp add: list_push_back_rcu_def)
  have rg: "ring ?g list ((xs @ ys) @ n # [])" unfolding g by (rule add_rcu_ring [OF r']) (use assms(2) in auto)
  have gn: "lnext ?g = (lnext ?h)(n := list, last (list # xs @ ys) := n)" by (simp add: g list_add_rcu_def set_next_def set_prev_def Let_def)
  have "chain (lnext ?g) e (if ys = [] then [] else ys @ [n]) list"
  proof (cases ys rule: rev_cases)
    case Nil
    then show ?thesis using c gn l d assms(2) by (auto simp del: last.simps)
  next
    case (snoc zs z)
    have "chain (lnext ?h) e zs z" "chain (lnext ?g) z [n] list" using c gn assms(2) by (auto simp: snoc chain_append)
    moreover have "lnext ?g x = lnext ?h x" if "x \<in> set (e # zs)" for x using that gn d assms(2) by (auto simp: snoc)
    ultimately show ?thesis using chain_cong [of e zs "lnext ?g" "lnext ?h" z] by (simp add: snoc chain_append)
  qed
  then show ?thesis using r c rg by simp
qed

end
