(* ===== verification/Sched.thy ===== *)
theory Sched
  imports Rbtree "HOL-Library.Signed_Division"
begin

text \<open>
  The scheduler of \<^verbatim>\<open>src/kernel/sched/sched.c\<close>. A thread is the address of its \<^verbatim>\<open>sched_client_t\<close>, which is also
  the address of its run queue node: \<^verbatim>\<open>CONTAINER_OF\<close> changes the type of a pointer only. The nodes and the clients of
  all threads are in one heap, shared by the run queues of all CPUs. The time a call of \<^verbatim>\<open>clock_uptime\<close> returns is an
  argument; calls that leave the scheduler are written to a log. A panic, a failed assertion and a division by zero are
  \<open>None\<close>; a result shows that the assertions on its way hold, so it is the result of a build without them too.
\<close>

section \<open>Virtual time\<close>

text \<open>A value of type \<^verbatim>\<open>int128_t\<close> or \<^verbatim>\<open>int64_t\<close> is an integer; \<open>int128\<close> and \<open>int64\<close> reduce a result to the range of
  its type.\<close>

type_synonym vclock = int

definition int128 :: "int \<Rightarrow> int" where
  "int128 x = (x + 2 ^ 127) mod 2 ^ 128 - 2 ^ 127"

definition int64 :: "int \<Rightarrow> int" where
  "int64 x = (x + 2 ^ 63) mod 2 ^ 64 - 2 ^ 63"

definition SCHED_EPSILON :: int where
  "SCHED_EPSILON = 10"

definition SCHED_FIXED_ZERO :: vclock where
  "SCHED_FIXED_ZERO = 0"

definition SCHED_FIXED_TO :: "int \<Rightarrow> vclock" where
  "SCHED_FIXED_TO x = int128 (x * 2 ^ 63)"

definition SCHED_FIXED_FROM :: "vclock \<Rightarrow> int" where
  "SCHED_FIXED_FROM x = int64 (x div 2 ^ 63)"

definition SCHED_WEIGHT_BASE :: int where
  "SCHED_WEIGHT_BASE = 1"

definition CLOCKS_PER_MS :: u64 where
  "CLOCKS_PER_MS = 1000000"

definition CONFIG_TIME_SLICE :: u64 where
  "CONFIG_TIME_SLICE = CLOCKS_PER_MS * 10"

definition CONFIG_CACHE_HOT_THRESHOLD :: u64 where
  "CONFIG_CACHE_HOT_THRESHOLD = CLOCKS_PER_MS * 5"

definition sched_fixed_cmp :: "vclock \<Rightarrow> vclock \<Rightarrow> int" where
  "sched_fixed_cmp a b =
     (let diff = SCHED_FIXED_FROM (int128 (a - b))
      in if diff > SCHED_EPSILON then 1
         else if diff < - (SCHED_EPSILON + 1) then - 1
         else 0)"

text \<open>A signed division, which faults for the divisor 0.\<close>

definition div128 :: "int \<Rightarrow> int \<Rightarrow> int option" where
  "div128 a b = (if b = 0 then None else Some (int128 (a sdiv b)))"

section \<open>Clients, schedulers, the system\<close>

datatype thread_state = THREAD_PARKED | THREAD_ACTIVE | THREAD_PRE_BLOCK | THREAD_BLOCKED | THREAD_UNBLOCKING | THREAD_DYING

type_synonym thread = rbptr
type_synonym cpu = nat

record sched_client =
  weight :: int
  vdeadline :: vclock
  veligible :: vclock
  vminEligible :: vclock
  stop :: u64
  lastCpu :: "cpu option"

record sched =
  totalWeight :: int
  runqueue :: "rbptr option"
  vtime :: vclock
  lastUpdate :: u64
  preemptCount :: u64
  idleThread :: thread
  runThread :: thread

datatype event =
    Timer_set cpu u64 u64
  | Ipi_wake_up cpu
  | Ipi_invoke cpu
  | Thread_save thread
  | Thread_load thread
  | Thread_free thread
  | Rcu_report_quiescent cpu

record sys =
  sy_nodes :: "rbptr \<Rightarrow> rbnode"
  sy_clients :: "thread \<Rightarrow> sched_client"
  sy_state :: "thread \<Rightarrow> thread_state"
  sy_priority :: "thread \<Rightarrow> u8"
  sy_scheds :: "sched list"
  sy_log :: "event list"

abbreviation sched_of :: "cpu \<Rightarrow> 'z sys_scheme \<Rightarrow> sched" where
  "sched_of cpu s \<equiv> sy_scheds s ! cpu"

definition set_sched :: "cpu \<Rightarrow> (sched \<Rightarrow> sched) \<Rightarrow> 'z sys_scheme \<Rightarrow> 'z sys_scheme" where
  "set_sched cpu f s = s\<lparr>sy_scheds := (sy_scheds s)[cpu := f (sched_of cpu s)]\<rparr>"

definition set_client :: "thread \<Rightarrow> (sched_client \<Rightarrow> sched_client) \<Rightarrow> 'z sys_scheme \<Rightarrow> 'z sys_scheme" where
  "set_client t f s = s\<lparr>sy_clients := (sy_clients s)(t := f (sy_clients s t))\<rparr>"

definition set_state :: "thread \<Rightarrow> thread_state \<Rightarrow> 'z sys_scheme \<Rightarrow> 'z sys_scheme" where
  "set_state t k s = s\<lparr>sy_state := (sy_state s)(t := k)\<rparr>"

definition emit :: "event \<Rightarrow> 'z sys_scheme \<Rightarrow> 'z sys_scheme" where
  "emit e s = s\<lparr>sy_log := sy_log s @ [e]\<rparr>"

section \<open>The run queue\<close>

definition sched_node_compare :: "(thread \<Rightarrow> sched_client) \<Rightarrow> rbptr \<Rightarrow> rbptr \<Rightarrow> int" where
  "sched_node_compare clients a b =
     (if vdeadline (clients a) < vdeadline (clients b) then - 1
      else if vdeadline (clients a) > vdeadline (clients b) then 1
      else if a < b then - 1
      else if a > b then 1
      else 0)"

definition min_eligible :: "(rbptr \<Rightarrow> rbnode) \<Rightarrow> rbptr \<Rightarrow> (thread \<Rightarrow> sched_client) \<Rightarrow> rbnode_direction \<Rightarrow> vclock \<Rightarrow> vclock" where
  "min_eligible nodes node clients dir minEligible =
     (case rb_children (nodes node) dir of
        None \<Rightarrow> minEligible
      | Some child \<Rightarrow>
          if sched_fixed_cmp (vminEligible (clients child)) minEligible < 0 then vminEligible (clients child)
          else minEligible)"

definition sched_node_update :: "(rbptr \<Rightarrow> rbnode) \<Rightarrow> rbptr \<Rightarrow> (thread \<Rightarrow> sched_client) \<Rightarrow> thread \<Rightarrow> sched_client" where
  "sched_node_update nodes node clients =
     clients(node := (clients node)\<lparr>vminEligible :=
       fold (min_eligible nodes node clients) [RBNODE_LEFT, RBNODE_RIGHT] (veligible (clients node))\<rparr>)"

definition queue_of :: "cpu \<Rightarrow> 'z sys_scheme \<Rightarrow> (thread \<Rightarrow> sched_client) rbtree" where
  "queue_of cpu s =
     \<lparr>rb_root = runqueue (sched_of cpu s), rb_compare = sched_node_compare, rb_update = Some sched_node_update,
      rb_nodes = sy_nodes s, rb_data = sy_clients s\<rparr>"

definition put_queue :: "cpu \<Rightarrow> (thread \<Rightarrow> sched_client) rbtree \<Rightarrow> 'z sys_scheme \<Rightarrow> 'z sys_scheme" where
  "put_queue cpu q s =
     set_sched cpu (\<lambda>sched. sched\<lparr>runqueue := rb_root q\<rparr>) (s\<lparr>sy_nodes := rb_nodes q, sy_clients := rb_data q\<rparr>)"

definition on_queue ::
  "cpu \<Rightarrow> ((thread \<Rightarrow> sched_client) rbtree \<Rightarrow> (thread \<Rightarrow> sched_client) rbtree option) \<Rightarrow> 'z sys_scheme \<Rightarrow> 'z sys_scheme option" where
  "on_queue cpu f s = do {
     q \<leftarrow> f (queue_of cpu s);
     Some (put_queue cpu q s)
   }"

text \<open>The constructor of the per-CPU variable, after \<^verbatim>\<open>thread_new\<close> gave the idle thread.\<close>

definition sched_ctor :: "cpu \<Rightarrow> thread option \<Rightarrow> 'z sys_scheme \<Rightarrow> 'z sys_scheme option" where
  "sched_ctor cpu idle s = do {
     idle \<leftarrow> idle;
     Some (set_state idle THREAD_ACTIVE
       (set_sched cpu (\<lambda>_. \<lparr>totalWeight = 0, runqueue = None, vtime = SCHED_FIXED_ZERO, lastUpdate = 0, preemptCount = 0,
                            idleThread = idle, runThread = idle\<rparr>) s))
   }"

section \<open>Entering and leaving\<close>

definition sched_is_cache_hot :: "thread \<Rightarrow> u64 \<Rightarrow> 'z sys_scheme \<Rightarrow> bool" where
  "sched_is_cache_hot t uptime s \<longleftrightarrow> stop (sy_clients s t) + CONFIG_CACHE_HOT_THRESHOLD > uptime"

definition sched_client_init :: "thread \<Rightarrow> 'z sys_scheme \<Rightarrow> 'z sys_scheme" where
  "sched_client_init t s =
     (set_client t (\<lambda>_. \<lparr>weight = 2 ^ 32 - 1, vdeadline = SCHED_FIXED_ZERO, veligible = SCHED_FIXED_ZERO,
                         vminEligible = SCHED_FIXED_ZERO, stop = 0, lastCpu = None\<rparr>) s)
       \<lparr>sy_nodes := (sy_nodes s)(t := RBNODE_CREATE)\<rparr>"

definition sched_client_update_veligible :: "thread \<Rightarrow> vclock \<Rightarrow> 'z sys_scheme \<Rightarrow> 'z sys_scheme option" where
  "sched_client_update_veligible t newVeligible s = do {
     slice \<leftarrow> div128 (SCHED_FIXED_TO (uint CONFIG_TIME_SLICE)) (weight (sy_clients s t));
     Some (set_client t (\<lambda>client. client\<lparr>veligible := newVeligible, vminEligible := newVeligible,
                                        vdeadline := int128 (newVeligible + slice)\<rparr>) s)
   }"

definition sched_vtime_reset :: "cpu \<Rightarrow> u64 \<Rightarrow> 'z sys_scheme \<Rightarrow> 'z sys_scheme" where
  "sched_vtime_reset cpu uptime = set_sched cpu (\<lambda>sched. sched\<lparr>lastUpdate := uptime, vtime := SCHED_FIXED_ZERO\<rparr>)"

definition sched_vtime_update :: "cpu \<Rightarrow> u64 \<Rightarrow> 'z sys_scheme \<Rightarrow> 'z sys_scheme option" where
  "sched_vtime_update cpu uptime s = do {
     let delta = uint (uptime - lastUpdate (sched_of cpu s));
     let s = set_sched cpu (\<lambda>sched. sched\<lparr>lastUpdate := uptime\<rparr>) s;
     let sched = sched_of cpu s;
     if totalWeight sched = 0 \<or> runThread sched = idleThread sched then Some (sched_vtime_reset cpu uptime s)
     else do {
       dv \<leftarrow> div128 (SCHED_FIXED_TO delta) (totalWeight sched);
       let s = set_sched cpu (\<lambda>sched. sched\<lparr>vtime := int128 (vtime sched + dv)\<rparr>) s;
       let t = runThread sched;
       de \<leftarrow> div128 (SCHED_FIXED_TO delta) (weight (sy_clients s t));
       s \<leftarrow> sched_client_update_veligible t (int128 (veligible (sy_clients s t) + de)) s;
       on_queue cpu (rbtree_fix t) s
     }
   }"

definition sched_enter :: "cpu \<Rightarrow> thread \<Rightarrow> u64 \<Rightarrow> 'z sys_scheme \<Rightarrow> 'z sys_scheme option" where
  "sched_enter cpu t uptime s = do {
     assert_that (t \<noteq> idleThread (sched_of cpu s));
     s \<leftarrow> sched_vtime_update cpu uptime s;
     let w = uint (sy_priority s t) + SCHED_WEIGHT_BASE;
     let s = set_client t (\<lambda>client. client\<lparr>weight := w\<rparr>) s;
     let s = set_sched cpu (\<lambda>sched. sched\<lparr>totalWeight := int64 (totalWeight sched + w)\<rparr>) s;
     s \<leftarrow> sched_client_update_veligible t (vtime (sched_of cpu s)) s;
     s \<leftarrow> on_queue cpu (rbtree_insert t) s;
     Some (set_state t THREAD_ACTIVE s)
   }"

definition sched_leave :: "cpu \<Rightarrow> thread \<Rightarrow> u64 \<Rightarrow> 'z sys_scheme \<Rightarrow> 'z sys_scheme option" where
  "sched_leave cpu t uptime s = do {
     assert_that (t \<noteq> idleThread (sched_of cpu s));
     let w = weight (sy_clients s t);
     let lag = int128 (int128 (vtime (sched_of cpu s) - veligible (sy_clients s t)) * w);
     let total = int64 (totalWeight (sched_of cpu s) - w);
     let s = set_sched cpu (\<lambda>sched. sched\<lparr>totalWeight := total\<rparr>) s;
     s \<leftarrow> on_queue cpu (rbtree_remove t) s;
     if total = 0 then Some (sched_vtime_reset cpu uptime s)
     else do {
       dv \<leftarrow> div128 lag total;
       Some (set_sched cpu (\<lambda>sched. sched\<lparr>vtime := int128 (vtime sched + dv)\<rparr>) s)
     }
   }"

section \<open>Choosing a CPU and a thread\<close>

text \<open>Reading \<^verbatim>\<open>totalWeight\<close> into a \<^verbatim>\<open>uint64_t\<close>.\<close>

definition load_of :: "cpu \<Rightarrow> 'z sys_scheme \<Rightarrow> u64" where
  "load_of cpu s = word_of_int (totalWeight (sched_of cpu s))"

fun least_loaded_loop :: "'z sys_scheme \<Rightarrow> cpu list \<Rightarrow> cpu option \<times> u64 \<Rightarrow> cpu option \<times> u64" where
  "least_loaded_loop s [] (leastLoaded, leastLoad) = (leastLoaded, leastLoad)"
| "least_loaded_loop s (cpu # cpus) (leastLoaded, leastLoad) =
     (let load = load_of cpu s
      in least_loaded_loop s cpus (if load < leastLoad then (Some cpu, load) else (leastLoaded, leastLoad)))"

definition sched_get_least_loaded :: "'z sys_scheme \<Rightarrow> cpu option" where
  "sched_get_least_loaded s = fst (least_loaded_loop s [0..<length (sy_scheds s)] (None, - 1))"

fun most_loaded_loop :: "cpu \<Rightarrow> 'z sys_scheme \<Rightarrow> cpu list \<Rightarrow> cpu option \<times> u64 \<Rightarrow> cpu option \<times> u64" where
  "most_loaded_loop self s [] (mostLoaded, mostLoad) = (mostLoaded, mostLoad)"
| "most_loaded_loop self s (cpu # cpus) (mostLoaded, mostLoad) =
     (if cpu = self then most_loaded_loop self s cpus (mostLoaded, mostLoad)
      else
        (let load = load_of cpu s
         in most_loaded_loop self s cpus (if load > mostLoad then (Some cpu, load) else (mostLoaded, mostLoad))))"

partial_function (option) steal_loop :: "cpu \<Rightarrow> u64 \<Rightarrow> 'z sys_scheme \<Rightarrow> thread option \<Rightarrow> thread option option" where
  "steal_loop cpu uptime s elem =
     (case elem of
        None \<Rightarrow> Some None
      | Some t \<Rightarrow>
          if t = runThread (sched_of cpu s) \<or> sched_is_cache_hot t uptime s then do {
            elem \<leftarrow> rbtree_next (Some t) (queue_of cpu s);
            steal_loop cpu uptime s elem
          }
          else Some (Some t))"

definition sched_steal :: "cpu \<Rightarrow> u64 \<Rightarrow> 'z sys_scheme \<Rightarrow> (thread option \<times> 'z sys_scheme) option" where
  "sched_steal self uptime s =
     (case fst (most_loaded_loop self s [0..<length (sy_scheds s)] (None, 0)) of
        None \<Rightarrow> Some (None, s)
      | Some mostLoaded \<Rightarrow> do {
          elem \<leftarrow> rbtree_find_min (runqueue (sched_of mostLoaded s)) (queue_of mostLoaded s);
          t \<leftarrow> steal_loop mostLoaded uptime s elem;
          (case t of
             None \<Rightarrow> Some (None, s)
           | Some t \<Rightarrow> do {
               s \<leftarrow> sched_leave mostLoaded t uptime s;
               Some (Some t, s)
             })
        })"

partial_function (option) eligible_loop :: "vclock \<Rightarrow> (thread \<Rightarrow> sched_client) rbtree \<Rightarrow> rbptr option \<Rightarrow> thread option option" where
  "eligible_loop now q current =
     (case current of
        None \<Rightarrow> Some None
      | Some x \<Rightarrow>
          (case chi q x RBNODE_LEFT of
             Some left \<Rightarrow>
               if sched_fixed_cmp (vminEligible (rb_data q left)) now \<le> 0 then eligible_loop now q (Some left)
               else if sched_fixed_cmp (veligible (rb_data q x)) now \<le> 0 then Some (Some x)
               else eligible_loop now q (chi q x RBNODE_RIGHT)
           | None \<Rightarrow>
               if sched_fixed_cmp (veligible (rb_data q x)) now \<le> 0 then Some (Some x)
               else eligible_loop now q (chi q x RBNODE_RIGHT)))"

text \<open>\<open>ndebug\<close> says whether the build defines \<^verbatim>\<open>NDEBUG\<close>.\<close>

definition sched_first_eligible :: "bool \<Rightarrow> cpu \<Rightarrow> u64 \<Rightarrow> u64 \<Rightarrow> 'z sys_scheme \<Rightarrow> (thread \<times> 'z sys_scheme) option" where
  "sched_first_eligible ndebug cpu stealTime enterTime s = do {
     found \<leftarrow> eligible_loop (vtime (sched_of cpu s)) (queue_of cpu s) (runqueue (sched_of cpu s));
     (case found of
        Some t \<Rightarrow> Some (t, s)
      | None \<Rightarrow>
          if \<not> rbtree_is_empty (queue_of cpu s) then
            if \<not> ndebug then None
            else do {
              first \<leftarrow> rbtree_find_min (runqueue (sched_of cpu s)) (queue_of cpu s);
              t \<leftarrow> first;
              Some (t, s)
            }
          else do {
            (victim, s) \<leftarrow> sched_steal cpu stealTime s;
            (case victim of
               Some t \<Rightarrow> do {
                 s \<leftarrow> sched_enter cpu t enterTime s;
                 Some (t, s)
               }
             | None \<Rightarrow> Some (idleThread (sched_of cpu s), s))
          })
   }"

definition sched_start :: "cpu \<Rightarrow> thread \<Rightarrow> 'z sys_scheme \<Rightarrow> 'z sys_scheme option" where
  "sched_start self bootThread s = do {
     assert_that (runThread (sched_of self s) = idleThread (sched_of self s));
     assert_that (rbtree_is_empty (queue_of self s));
     assert_that (totalWeight (sched_of self s) = 0);
     let w = uint (sy_priority s bootThread) + SCHED_WEIGHT_BASE;
     let s = set_client bootThread (\<lambda>client. client\<lparr>weight := w\<rparr>) s;
     s \<leftarrow> sched_client_update_veligible bootThread (vtime (sched_of self s)) s;
     let s = set_state bootThread THREAD_ACTIVE s;
     let s = set_sched self (\<lambda>sched. sched\<lparr>totalWeight := int64 (totalWeight sched + w), runThread := bootThread\<rparr>) s;
     on_queue self (rbtree_insert bootThread) s
   }"

definition sched_submit :: "cpu \<Rightarrow> bool \<Rightarrow> thread \<Rightarrow> u64 \<Rightarrow> u64 \<Rightarrow> 'z sys_scheme \<Rightarrow> 'z sys_scheme option" where
  "sched_submit self inInterrupt t hotTime enterTime s = do {
     target \<leftarrow>
       (case lastCpu (sy_clients s t) of
          Some cpu \<Rightarrow>
            if sched_is_cache_hot t hotTime s then Some cpu
            else if totalWeight (sched_of self s) = 0 then Some self
            else sched_get_least_loaded s
        | None \<Rightarrow>
            if totalWeight (sched_of self s) = 0 then Some self
            else sched_get_least_loaded s);
     s \<leftarrow> sched_enter target t enterTime s;
     Some (if self \<noteq> target \<or> \<not> inInterrupt then emit (Ipi_wake_up target) s else s)
   }"

section \<open>The checks of a debug build\<close>

partial_function (option) sched_verify_min_eligible :: "(thread \<Rightarrow> sched_client) rbtree \<Rightarrow> rbptr \<Rightarrow> unit option" where
  "sched_verify_min_eligible q node = do {
     (case chi q node RBNODE_LEFT of
        None \<Rightarrow> Some ()
      | Some child \<Rightarrow> do {
          assert_that (\<not> sched_fixed_cmp (vminEligible (rb_data q node)) (vminEligible (rb_data q child)) > 0);
          sched_verify_min_eligible q child
        });
     (case chi q node RBNODE_RIGHT of
        None \<Rightarrow> Some ()
      | Some child \<Rightarrow> do {
          assert_that (\<not> sched_fixed_cmp (vminEligible (rb_data q node)) (vminEligible (rb_data q child)) > 0);
          sched_verify_min_eligible q child
        });
     assert_that (\<not> (chi q node RBNODE_LEFT = None \<and> chi q node RBNODE_RIGHT = None \<and>
       sched_fixed_cmp (vminEligible (rb_data q node)) (veligible (rb_data q node)) \<noteq> 0))
   }"

definition verify_thread :: "cpu \<Rightarrow> 'z sys_scheme \<Rightarrow> thread \<Rightarrow> int \<times> bool \<Rightarrow> (int \<times> bool) option" where
  "verify_thread cpu s t = (\<lambda>(total, runThreadFound). do {
     let total = int64 (total + weight (sy_clients s t));
     assert_that (weight (sy_clients s t) > 0);
     assert_that (t \<noteq> idleThread (sched_of cpu s));
     assert_that (\<not> (sy_state s t \<noteq> THREAD_ACTIVE \<and> t \<noteq> runThread (sched_of cpu s)));
     Some (total, runThreadFound \<or> t = runThread (sched_of cpu s))
   })"

definition lag_of :: "cpu \<Rightarrow> 'z sys_scheme \<Rightarrow> thread \<Rightarrow> int" where
  "lag_of cpu s t = int128 (int128 (vtime (sched_of cpu s) - veligible (sy_clients s t)) * weight (sy_clients s t))"

definition sched_verify :: "cpu \<Rightarrow> 'z sys_scheme \<Rightarrow> unit option" where
  "sched_verify cpu s = do {
     let q = queue_of cpu s;
     result \<leftarrow> RBTREE_FOR_EACH (\<lambda>t _ acc. acc \<bind> verify_thread cpu s t) q (Some (0, False));
     (total, runThreadFound) \<leftarrow> result;
     assert_that (runThread (sched_of cpu s) = idleThread (sched_of cpu s) \<or> runThreadFound);
     assert_that (total = totalWeight (sched_of cpu s));
     min \<leftarrow> rbtree_find_min (rb_root q) q;
     (case min of
        None \<Rightarrow> Some ()
      | Some first \<Rightarrow> do {
          result \<leftarrow> RBTREE_FOR_EACH (\<lambda>other _ acc. acc \<bind> (\<lambda>_. assert_that
             (\<not> sched_fixed_cmp (vdeadline (sy_clients s other)) (vdeadline (sy_clients s first)) < 0))) q (Some ());
          result
        });
     (case rb_root q of None \<Rightarrow> Some () | Some root \<Rightarrow> sched_verify_min_eligible q root);
     sumLag \<leftarrow> RBTREE_FOR_EACH (\<lambda>t _ sumLag. int128 (sumLag + lag_of cpu s t)) q SCHED_FIXED_ZERO;
     assert_that (sched_fixed_cmp sumLag SCHED_FIXED_ZERO = 0)
   }"

section \<open>Preemption and exit\<close>

definition sched_is_idle :: "cpu \<Rightarrow> 'z sys_scheme \<Rightarrow> bool" where
  "sched_is_idle cpu s \<longleftrightarrow> runThread (sched_of cpu s) = idleThread (sched_of cpu s)"

definition sched_disable :: "cpu \<Rightarrow> 'z sys_scheme \<Rightarrow> 'z sys_scheme" where
  "sched_disable self = set_sched self (\<lambda>sched. sched\<lparr>preemptCount := preemptCount sched + 1\<rparr>)"

definition sched_enable :: "cpu \<Rightarrow> 'z sys_scheme \<Rightarrow> 'z sys_scheme" where
  "sched_enable self = set_sched self (\<lambda>sched. sched\<lparr>preemptCount := preemptCount sched - 1\<rparr>)"

definition sched_thread_exit :: "cpu \<Rightarrow> 'z sys_scheme \<Rightarrow> 'z sys_scheme" where
  "sched_thread_exit self s = emit (Ipi_invoke self) (set_state (runThread (sched_of self s)) THREAD_DYING s)"

end
