(* ===== verification/Wait.thy ===== *)
theory Wait
  imports Sched
begin

text \<open>
  The wait queues of \<^verbatim>\<open>src/kernel/sched/wait.c\<close> and the interrupt handler \<^verbatim>\<open>sched_do\<close> of \<^verbatim>\<open>sched.c\<close>, which blocks
  threads on them. A list of \<^verbatim>\<open>sys/list.h\<close> is the list of the objects linked into it. An entry that was given back to
  its cache is \<open>None\<close>; using it is a fault. The values \<^verbatim>\<open>clock_uptime\<close> returns are a sequence of the state, of which
  each call takes the next.
\<close>

section \<open>State\<close>

record wait_entry =
  we_thread :: thread
  we_queue :: nat

record wait_client =
  wc_entries :: "nat list"
  wc_err :: "errno option"
  wc_deadline :: u64
  wc_owner :: "cpu option"

record kernel = sys +
  ke_wait :: "thread \<Rightarrow> wait_client"
  ke_entry :: "nat \<Rightarrow> wait_entry option"
  ke_queues :: "nat \<Rightarrow> nat list"
  ke_blocked :: "cpu \<Rightarrow> thread list"
  ke_notes :: "thread \<Rightarrow> bool"
  ke_times :: "nat \<Rightarrow> u64"
  ke_reads :: nat

definition clock_uptime :: "'z kernel_scheme \<Rightarrow> u64 \<times> 'z kernel_scheme" where
  "clock_uptime s = (ke_times s (ke_reads s), s\<lparr>ke_reads := ke_reads s + 1\<rparr>)"

definition CLOCKS_NEVER :: u64 where
  "CLOCKS_NEVER = - 1"

definition CLOCKS_REMAINING :: "u64 \<Rightarrow> u64 \<Rightarrow> u64" where
  "CLOCKS_REMAINING deadline uptime =
     (if deadline = CLOCKS_NEVER then CLOCKS_NEVER else if deadline > uptime then deadline - uptime else 0)"

definition CLOCKS_DEADLINE :: "u64 \<Rightarrow> u64 \<Rightarrow> u64" where
  "CLOCKS_DEADLINE timeout uptime =
     (if timeout = CLOCKS_NEVER then CLOCKS_NEVER
      else if timeout > CLOCKS_NEVER - uptime then CLOCKS_NEVER
      else uptime + timeout)"

definition set_wait :: "thread \<Rightarrow> (wait_client \<Rightarrow> wait_client) \<Rightarrow> 'z kernel_scheme \<Rightarrow> 'z kernel_scheme" where
  "set_wait t f s = s\<lparr>ke_wait := (ke_wait s)(t := f (ke_wait s t))\<rparr>"

definition queue_push :: "nat \<Rightarrow> nat \<Rightarrow> 'z kernel_scheme \<Rightarrow> 'z kernel_scheme" where
  "queue_push q e s = s\<lparr>ke_queues := (ke_queues s)(q := ke_queues s q @ [e])\<rparr>"

definition queue_remove :: "nat \<Rightarrow> nat \<Rightarrow> 'z kernel_scheme \<Rightarrow> 'z kernel_scheme" where
  "queue_remove q e s = s\<lparr>ke_queues := (ke_queues s)(q := remove1 e (ke_queues s q))\<rparr>"

definition blocked_remove :: "cpu \<Rightarrow> thread \<Rightarrow> 'z kernel_scheme \<Rightarrow> 'z kernel_scheme" where
  "blocked_remove cpu t s = s\<lparr>ke_blocked := (ke_blocked s)(cpu := remove1 t (ke_blocked s cpu))\<rparr>"

definition entry_free :: "nat \<Rightarrow> 'z kernel_scheme \<Rightarrow> 'z kernel_scheme" where
  "entry_free e s = s\<lparr>ke_entry := (ke_entry s)(e := None)\<rparr>"

section \<open>Wait entries\<close>

definition remove_wait_entry :: "thread \<Rightarrow> nat \<Rightarrow> 'z kernel_scheme \<Rightarrow> 'z kernel_scheme option" where
  "remove_wait_entry t e s = do {
     entry \<leftarrow> ke_entry s e;
     let s = queue_remove (we_queue entry) e s;
     let s = set_wait t (\<lambda>w. w\<lparr>wc_entries := remove1 e (wc_entries w)\<rparr>) s;
     Some (entry_free e s)
   }"

definition wait_remove_wait_entries :: "thread \<Rightarrow> errno option \<Rightarrow> 'z kernel_scheme \<Rightarrow> 'z kernel_scheme option" where
  "wait_remove_wait_entries t err s = do {
     assert_that (sy_state s t = THREAD_UNBLOCKING);
     let s = set_wait t (\<lambda>w. w\<lparr>wc_err := err\<rparr>) s;
     for_each (remove_wait_entry t) (wc_entries (ke_wait s t)) s
   }"

definition wait_queue_init :: "nat \<Rightarrow> 'z kernel_scheme \<Rightarrow> 'z kernel_scheme" where
  "wait_queue_init q s = s\<lparr>ke_queues := (ke_queues s)(q := [])\<rparr>"

definition wait_queue_deinit :: "nat \<Rightarrow> 'z kernel_scheme \<Rightarrow> unit option" where
  "wait_queue_deinit q s = assert_that (ke_queues s q = [])"

definition wait_client_init :: "thread \<Rightarrow> 'z kernel_scheme \<Rightarrow> 'z kernel_scheme" where
  "wait_client_init t = set_wait t (\<lambda>_. \<lparr>wc_entries = [], wc_err = None, wc_deadline = 0, wc_owner = None\<rparr>)"

section \<open>Blocking\<close>

text \<open>The entries that were allocated are freed again, one after the other from the front of the thread's list.\<close>

primrec free_entries :: "nat list \<Rightarrow> thread \<Rightarrow> 'z kernel_scheme \<Rightarrow> 'z kernel_scheme" where
  "free_entries [] t s = s"
| "free_entries (e # es) t s = free_entries es t (entry_free e (set_wait t (\<lambda>w. w\<lparr>wc_entries := tl (wc_entries w)\<rparr>) s))"

text \<open>\<open>allocs\<close> are the results of \<^verbatim>\<open>cache_alloc\<close>. The locks of all queues are taken before the first of them: a call with the
  same queue twice waits for itself and does not return.\<close>

fun prepare_loop :: "thread \<Rightarrow> (nat \<times> nat option) list \<Rightarrow> 'z kernel_scheme \<Rightarrow> bool \<times> 'z kernel_scheme" where
  "prepare_loop t [] s = (True, s)"
| "prepare_loop t ((q, None) # qs) s = (False, free_entries (wc_entries (ke_wait s t)) t s)"
| "prepare_loop t ((q, Some e) # qs) s =
     (let s = s\<lparr>ke_entry := (ke_entry s)(e \<mapsto> \<lparr>we_thread = t, we_queue = q\<rparr>)\<rparr>;
          s = set_wait t (\<lambda>w. w\<lparr>wc_entries := wc_entries w @ [e]\<rparr>) s
      in prepare_loop t qs (queue_push q e s))"

definition wait_block_prepare ::
  "thread \<Rightarrow> nat list option \<Rightarrow> nat option list \<Rightarrow> u64 \<Rightarrow> 'z kernel_scheme \<Rightarrow> (unit result \<times> 'z kernel_scheme) option" where
  "wait_block_prepare t waitQueues allocs timeout s =
     (case waitQueues of
        None \<Rightarrow> Some (Inl EINVAL, s)
      | Some queues \<Rightarrow>
          if queues = [] then Some (Inl EINVAL, s)
          else if \<not> distinct queues then None
          else
            (let (allocated, s) = prepare_loop t (zip queues allocs) s
             in if \<not> allocated then Some (Inl ENOMEM, s)
                else
                  (let (uptime, s) = clock_uptime s;
                       s = set_wait t (\<lambda>w. w\<lparr>wc_err := None, wc_deadline := CLOCKS_DEADLINE timeout uptime, wc_owner := None\<rparr>) s
                   in if sy_state s t = THREAD_ACTIVE then Some (Inr (), set_state t THREAD_PRE_BLOCK s)
                      else if sy_state s t = THREAD_UNBLOCKING then Some (Inr (), s)
                      else None)))"

definition wait_block_cancel :: "thread \<Rightarrow> 'z kernel_scheme \<Rightarrow> 'z kernel_scheme option" where
  "wait_block_cancel t s = do {
     assert_that (sy_state s t = THREAD_PRE_BLOCK \<or> sy_state s t = THREAD_UNBLOCKING);
     s \<leftarrow> wait_remove_wait_entries t None (set_state t THREAD_UNBLOCKING s);
     assert_that (sy_state s t = THREAD_UNBLOCKING);
     Some (set_state t THREAD_ACTIVE s)
   }"

text \<open>\<open>resume\<close> is what the system does from the interrupt \<^verbatim>\<open>ipi_invoke\<close> raises until the thread runs again.\<close>

definition wait_block_commit ::
  "('z kernel_scheme \<Rightarrow> 'z kernel_scheme option) \<Rightarrow> cpu \<Rightarrow> thread \<Rightarrow> 'z kernel_scheme \<Rightarrow> (unit result \<times> 'z kernel_scheme) option" where
  "wait_block_commit resume self t s = do {
     s \<leftarrow>
       (case sy_state s t of
          THREAD_UNBLOCKING \<Rightarrow> do {
            s \<leftarrow> wait_remove_wait_entries t None s;
            Some (set_state t THREAD_ACTIVE s)
          }
        | THREAD_PRE_BLOCK \<Rightarrow> resume (emit (Ipi_invoke self) s)
        | _ \<Rightarrow> None);
     Some (case wc_err (ke_wait s t) of Some err \<Rightarrow> (Inl err, s) | None \<Rightarrow> (Inr (), s))
   }"

text \<open>The place of a thread in the list of blocked threads, which is sorted by deadline.\<close>

fun insert_blocked :: "(thread \<Rightarrow> u64) \<Rightarrow> thread \<Rightarrow> thread list \<Rightarrow> thread list" where
  "insert_blocked deadline t [] = []"
| "insert_blocked deadline t (other # ts) =
     (if deadline other > deadline t then t # other # ts else other # insert_blocked deadline t ts)"

definition wait_block_finalize :: "cpu \<Rightarrow> thread \<Rightarrow> u64 \<Rightarrow> 'z kernel_scheme \<Rightarrow> (bool \<times> 'z kernel_scheme) option" where
  "wait_block_finalize self t uptime s = do {
     let s = set_wait t (\<lambda>w. w\<lparr>wc_owner := Some self\<rparr>) s;
     let deadline = (\<lambda>u. wc_deadline (ke_wait s u));
     let blocked = ke_blocked s self;
     let blocked = (if deadline t = CLOCKS_NEVER \<or> blocked = [] \<or> deadline (last blocked) \<le> deadline t then blocked @ [t]
                    else insert_blocked deadline t blocked);
     let s = s\<lparr>ke_blocked := (ke_blocked s)(self := blocked)\<rparr>;
     if sy_state s t \<noteq> THREAD_PRE_BLOCK then do {
       s \<leftarrow> wait_remove_wait_entries t None (blocked_remove self t s);
       Some (False, set_state t THREAD_ACTIVE s)
     }
     else do {
       let s = set_state t THREAD_BLOCKED s;
       if ke_notes s t then do {
         s \<leftarrow> wait_remove_wait_entries t (Some EINTR) (blocked_remove self t (set_state t THREAD_UNBLOCKING s));
         Some (False, set_state t THREAD_ACTIVE s)
       }
       else Some (True, emit (Timer_set self uptime (wc_deadline (ke_wait s t))) s)
     }
   }"

section \<open>The scheduler interrupt\<close>

text \<open>The part of \<^verbatim>\<open>sched_do\<close> that depends on the state of the running thread; the thread to free, if any, is the result.\<close>

definition sched_do_state :: "cpu \<Rightarrow> u64 \<Rightarrow> 'z kernel_scheme \<Rightarrow> (thread option \<times> 'z kernel_scheme) option" where
  "sched_do_state self uptime s = do {
     let run = runThread (sched_of self s);
     let idle = idleThread (sched_of self s);
     (case sy_state s run of
        THREAD_DYING \<Rightarrow> do {
          assert_that (run \<noteq> idle);
          s \<leftarrow> sched_leave self run uptime s;
          Some (Some run, s)
        }
      | THREAD_PRE_BLOCK \<Rightarrow> do {
          assert_that (run \<noteq> idle);
          (blocked, s) \<leftarrow> wait_block_finalize self run uptime s;
          if blocked then do {
            s \<leftarrow> sched_leave self run uptime s;
            Some (None, s)
          }
          else Some (None, set_state run THREAD_ACTIVE s)
        }
      | THREAD_UNBLOCKING \<Rightarrow> do {
          assert_that (run \<noteq> idle);
          (blocked, s) \<leftarrow> wait_block_finalize self run uptime s;
          if blocked then do {
            s \<leftarrow> sched_leave self run uptime s;
            Some (None, s)
          }
          else Some (None, set_state run THREAD_ACTIVE s)
        }
      | THREAD_ACTIVE \<Rightarrow> Some (None, s)
      | _ \<Rightarrow> None)
   }"

definition sched_switch :: "cpu \<Rightarrow> u64 \<Rightarrow> thread \<Rightarrow> 'z kernel_scheme \<Rightarrow> 'z kernel_scheme option" where
  "sched_switch self uptime next s = do {
     let run = runThread (sched_of self s);
     if next \<noteq> run then do {
       let s = set_client run (\<lambda>client. client\<lparr>lastCpu := Some self, stop := uptime\<rparr>) s;
       let s = emit (Thread_save run) s;
       assert_that (sy_state s next = THREAD_ACTIVE);
       let s = emit (Thread_load next) s;
       Some (set_sched self (\<lambda>sched. sched\<lparr>runThread := next\<rparr>) s)
     }
     else Some s
   }"

text \<open>The time of a steal and that of the entry which follows are the next two values of the clock, whether or not they are
  read.\<close>

definition sched_do :: "bool \<Rightarrow> cpu \<Rightarrow> 'z kernel_scheme \<Rightarrow> 'z kernel_scheme option" where
  "sched_do ndebug self s =
     (if preemptCount (sched_of self s) > 0 \<and> sy_state s (runThread (sched_of self s)) = THREAD_ACTIVE then Some s
      else if runThread (sched_of self s) = idleThread (sched_of self s) \<and> rbtree_is_empty (queue_of self s)
      then Some (emit (Rcu_report_quiescent self) s)
      else do {
        let (uptime, s) = clock_uptime s;
        s \<leftarrow> sched_vtime_update self uptime s;
        (if ndebug then Some () else sched_verify self s);
        (threadToFree, s) \<leftarrow> sched_do_state self uptime s;
        let (stealTime, s) = clock_uptime s;
        let (enterTime, s) = clock_uptime s;
        (next, s) \<leftarrow> sched_first_eligible ndebug self stealTime enterTime s;
        s \<leftarrow> sched_switch self uptime next s;
        let s = (if runThread (sched_of self s) \<noteq> idleThread (sched_of self s)
                 then emit (Timer_set self uptime (uptime + CONFIG_TIME_SLICE)) s else s);
        s \<leftarrow>
          (case threadToFree of
             None \<Rightarrow> Some s
           | Some t \<Rightarrow> do {
               assert_that (t \<noteq> runThread (sched_of self s));
               Some (emit (Thread_free t) s)
             });
        Some (emit (Rcu_report_quiescent self) s)
      })"

section \<open>CPUs\<close>

text \<open>The constructor of \<^verbatim>\<open>pcpu_wait\<close>. On a CPU that has not run them yet \<^verbatim>\<open>percpu_update\<close> runs the constructors of all per-CPU
  variables; those of the scheduler and of the wait queues are the ones that touch this state. \<open>idle\<close> is what
  \<^verbatim>\<open>thread_new\<close> returns.\<close>

definition wait_ctor :: "cpu \<Rightarrow> 'z kernel_scheme \<Rightarrow> 'z kernel_scheme" where
  "wait_ctor cpu s = s\<lparr>ke_blocked := (ke_blocked s)(cpu := [])\<rparr>"

definition percpu_run_ctors :: "cpu \<Rightarrow> thread option \<Rightarrow> 'z kernel_scheme \<Rightarrow> 'z kernel_scheme option" where
  "percpu_run_ctors cpu idle s = do {
     s \<leftarrow> sched_ctor cpu idle s;
     Some (wait_ctor cpu s)
   }"

text \<open>A CPU gets the next number; its memory was cleared. The array of the CPUs has no entry for a number of \<^verbatim>\<open>CPU_MAX\<close> or more.\<close>

definition CPU_MAX :: nat where
  "CPU_MAX = 255"

definition cpu_init :: "'z kernel_scheme \<Rightarrow> (cpu \<times> 'z kernel_scheme) option" where
  "cpu_init s = do {
     let cpu = length (sy_scheds s);
     assert_that (cpu < CPU_MAX);
     Some (cpu, s\<lparr>sy_scheds := sy_scheds s @
       [\<lparr>totalWeight = 0, runqueue = None, vtime = 0, lastUpdate = 0, preemptCount = 0, idleThread = 0, runThread = 0\<rparr>]\<rparr>)
   }"

text \<open>What \<^verbatim>\<open>init_early\<close> does for the scheduler on the boot CPU, and what another CPU does when it is started.\<close>

definition init_early :: "thread option \<Rightarrow> thread option \<Rightarrow> 'z kernel_scheme \<Rightarrow> 'z kernel_scheme option" where
  "init_early idle boot s = do {
     (cpu, s) \<leftarrow> cpu_init s;
     s \<leftarrow> percpu_run_ctors cpu idle s;
     bootThread \<leftarrow> boot;
     sched_start cpu bootThread s
   }"

definition trampoline_c_entry :: "thread option \<Rightarrow> 'z kernel_scheme \<Rightarrow> 'z kernel_scheme option" where
  "trampoline_c_entry idle s = do {
     (cpu, s) \<leftarrow> cpu_init s;
     s \<leftarrow> percpu_run_ctors cpu idle s;
     assert_that (runThread (sched_of cpu s) = idleThread (sched_of cpu s));
     Some s
   }"

section \<open>Unblocking\<close>

text \<open>A call of \<^verbatim>\<open>sched_submit\<close>, with the two times it reads.\<close>

definition submit_now :: "cpu \<Rightarrow> bool \<Rightarrow> thread \<Rightarrow> 'z kernel_scheme \<Rightarrow> 'z kernel_scheme option" where
  "submit_now self inInterrupt t s =
     (let (hotTime, s) = clock_uptime s; (enterTime, s) = clock_uptime s
      in sched_submit self inInterrupt t hotTime enterTime s)"

partial_function (option) wait_check_timeouts :: "cpu \<Rightarrow> bool \<Rightarrow> 'z kernel_scheme \<Rightarrow> 'z kernel_scheme option" where
  "wait_check_timeouts self inInterrupt s =
     (case ke_blocked s self of
        [] \<Rightarrow> Some s
      | t # _ \<Rightarrow>
          (let (uptime, s) = clock_uptime s
           in if wc_deadline (ke_wait s t) > uptime
              then Some (emit (Timer_set self uptime (wc_deadline (ke_wait s t))) s)
              else do {
                let s = blocked_remove self t s;
                if sy_state s t \<noteq> THREAD_BLOCKED then wait_check_timeouts self inInterrupt s
                else do {
                  s \<leftarrow> wait_remove_wait_entries t (Some ETIMEDOUT) (set_state t THREAD_UNBLOCKING s);
                  s \<leftarrow> submit_now self inInterrupt t s;
                  wait_check_timeouts self inInterrupt s
                }
              }))"

definition wait_unblock_thread :: "cpu \<Rightarrow> bool \<Rightarrow> thread \<Rightarrow> errno option \<Rightarrow> 'z kernel_scheme \<Rightarrow> 'z kernel_scheme option" where
  "wait_unblock_thread self inInterrupt t err s = do {
     assert_that (sy_state s t = THREAD_UNBLOCKING);
     owner \<leftarrow> wc_owner (ke_wait s t);
     s \<leftarrow> wait_remove_wait_entries t err (blocked_remove owner t s);
     submit_now self inInterrupt t s
   }"

text \<open>\<^verbatim>\<open>thread_send_note\<close> of \<^verbatim>\<open>thread.c\<close>, given the result of \<^verbatim>\<open>note_send\<close>: of the notes of a thread the state keeps
  whether there are any.\<close>

definition thread_send_note :: "cpu \<Rightarrow> bool \<Rightarrow> thread \<Rightarrow> unit result \<Rightarrow> 'z kernel_scheme \<Rightarrow> (unit result \<times> 'z kernel_scheme) option" where
  "thread_send_note self inInterrupt t sent s =
     (case sent of
        Inl err \<Rightarrow> Some (Inl err, s)
      | Inr _ \<Rightarrow> do {
          let s = s\<lparr>ke_notes := (ke_notes s)(t := True)\<rparr>;
          s \<leftarrow>
            (if sy_state s t = THREAD_BLOCKED
             then wait_unblock_thread self inInterrupt t (Some EINTR) (set_state t THREAD_UNBLOCKING s)
             else Some s);
          Some (Inr (), s)
        })"

text \<open>The first loop of \<^verbatim>\<open>wait_unblock\<close>: it collects at most \<open>toUnblock\<close> threads that were blocked.\<close>

fun collect_loop :: "nat \<Rightarrow> nat list \<Rightarrow> thread list \<Rightarrow> 'z kernel_scheme \<Rightarrow> (thread list \<times> 'z kernel_scheme) option" where
  "collect_loop toUnblock [] threads s = Some (threads, s)"
| "collect_loop toUnblock (e # es) threads s =
     (if length threads = toUnblock then Some (threads, s)
      else do {
        entry \<leftarrow> ke_entry s e;
        let t = we_thread entry;
        let old = sy_state s t;
        let s = set_state t THREAD_UNBLOCKING s;
        if old = THREAD_BLOCKED then do {
          let s = queue_remove (we_queue entry) e s;
          let s = set_wait t (\<lambda>w. w\<lparr>wc_entries := remove1 e (wc_entries w)\<rparr>) s;
          collect_loop toUnblock es (threads @ [t]) (entry_free e s)
        }
        else collect_loop toUnblock es threads s
      })"

partial_function (option) unblock_loop ::
  "cpu \<Rightarrow> bool \<Rightarrow> nat \<Rightarrow> u64 \<Rightarrow> errno option \<Rightarrow> u64 \<Rightarrow> 'z kernel_scheme \<Rightarrow> (u64 \<times> 'z kernel_scheme) option" where
  "unblock_loop self inInterrupt queue amount err amountUnblocked s = do {
     let threadsPerBatch = 64;
     let toUnblock = (if amount < threadsPerBatch then amount else threadsPerBatch);
     (threads, s) \<leftarrow> collect_loop (unat toUnblock) (ke_queues s queue) [] s;
     if threads = [] then Some (amountUnblocked, s)
     else do {
       s \<leftarrow> for_each (\<lambda>t. wait_unblock_thread self inInterrupt t err) threads s;
       unblock_loop self inInterrupt queue amount err (amountUnblocked + of_nat (length threads)) s
     }
   }"

definition wait_unblock ::
  "cpu \<Rightarrow> bool \<Rightarrow> nat \<Rightarrow> u64 \<Rightarrow> errno option \<Rightarrow> 'z kernel_scheme \<Rightarrow> (u64 \<times> 'z kernel_scheme) option" where
  "wait_unblock self inInterrupt queue amount err s = unblock_loop self inInterrupt queue amount err 0 s"

end
