(* ===== verification/Sched_Spec.thy ===== *)
theory Sched_Spec
  imports Sched Rbtree_Properties
begin

text \<open>
  The invariant of the run queues: each represents a sorted red-black tree in which the smallest eligible times are up to
  date, the trees of different CPUs share no thread, and the total weight is that of the threads in the tree.
\<close>

section \<open>The callbacks\<close>

lemma compare_total: "total_cmp (sched_node_compare d)"
  by (auto simp: total_cmp_def sched_node_compare_def split: if_splits)

lemma update_base:
  "weight (sched_node_update h x d y) = weight (d y)" "vdeadline (sched_node_update h x d y) = vdeadline (d y)"
  "veligible (sched_node_update h x d y) = veligible (d y)" "stop (sched_node_update h x d y) = stop (d y)"
  "lastCpu (sched_node_update h x d y) = lastCpu (d y)" "y \<noteq> x \<Longrightarrow> sched_node_update h x d y = d y"
  by (simp_all add: sched_node_update_def)

lemma compare_cong:
  "vdeadline (d a) = vdeadline (d' a) \<Longrightarrow> vdeadline (d b) = vdeadline (d' b) \<Longrightarrow> sched_node_compare d a b = sched_node_compare d' a b"
  by (simp add: sched_node_compare_def)

lemma queue_simps [simp]:
  "rb_root (queue_of i s) = runqueue (sched_of i s)" "rb_compare (queue_of i s) = sched_node_compare"
  "rb_update (queue_of i s) = Some sched_node_update" "rb_nodes (queue_of i s) = sy_nodes s" "rb_data (queue_of i s) = sy_clients s"
  by (simp_all add: queue_of_def)

lemma queue_stable: "stable (queue_of i s)"
proof -
  have "sched_node_compare (sched_node_update h x d) = sched_node_compare d" for h x d
    by (intro ext compare_cong) (simp_all add: update_base)
  then show ?thesis by (simp add: stable_def)
qed

definition vmin_of :: "(rbptr \<Rightarrow> rbnode) \<Rightarrow> (thread \<Rightarrow> sched_client) \<Rightarrow> thread \<Rightarrow> vclock" where
  "vmin_of h d x = min_eligible h x d RBNODE_RIGHT (min_eligible h x d RBNODE_LEFT (veligible (d x)))"

lemma update_vmin: "sched_node_update h x d = d(x := (d x)\<lparr>vminEligible := vmin_of h d x\<rparr>)"
  by (simp add: sched_node_update_def vmin_of_def)

lemma update_fix: "sched_node_update h x d = d \<longleftrightarrow> vminEligible (d x) = vmin_of h d x"
proof
  assume "sched_node_update h x d = d"
  then have "sched_node_update h x d x = d x" by simp
  then have "vminEligible ((d x)\<lparr>vminEligible := vmin_of h d x\<rparr>) = vminEligible (d x)" unfolding update_vmin by simp
  then show "vminEligible (d x) = vmin_of h d x" by simp
next
  assume "vminEligible (d x) = vmin_of h d x"
  then have "(d x)\<lparr>vminEligible := vmin_of h d x\<rparr> = d x" by simp
  then show "sched_node_update h x d = d" unfolding update_vmin by (simp add: fun_upd_idem)
qed

lemma vmin_cong:
  assumes "rb_children (h x) = rb_children (h' x)" and "veligible (d x) = veligible (d' x)"
    and "\<And>e y. rb_children (h x) e = Some y \<Longrightarrow> vminEligible (d y) = vminEligible (d' y)"
  shows "vmin_of h d x = vmin_of h' d' x"
proof -
  have "min_eligible h x d e v = min_eligible h' x d' e v" for e v
    using assms(1,3) by (auto simp: min_eligible_def split: option.split)
  then show ?thesis using assms(2) by (simp add: vmin_of_def)
qed

lemma update_augments: "augments sched_node_update"
  unfolding augments_def
proof (intro conjI allI impI)
  fix h h' :: "rbptr \<Rightarrow> rbnode" and x y :: rbptr and d :: "thread \<Rightarrow> sched_client"
  show "sched_node_update h x = sched_node_update h' x" if "rb_children (h x) = rb_children (h' x)"
    using vmin_cong [of h x h'] that by (intro ext) (simp add: update_vmin)
  show "sched_node_update h x (sched_node_update h x d) = sched_node_update h x d" if "\<forall>e. rb_children (h x) e \<noteq> Some x"
  proof -
    have "vmin_of h d x = vmin_of h (sched_node_update h x d) x" using that by (intro vmin_cong) (auto simp: update_vmin)
    then show ?thesis unfolding update_fix by (simp add: update_vmin)
  qed
  show "sched_node_update h y (sched_node_update h x d) = sched_node_update h x d"
    if "x \<noteq> y" "\<forall>e. rb_children (h y) e \<noteq> Some x" "sched_node_update h y d = d"
  proof -
    have "vmin_of h d y = vmin_of h (sched_node_update h x d) y" using that by (intro vmin_cong) (auto simp: update_vmin)
    then show ?thesis using that unfolding update_fix by (simp add: update_base)
  qed
qed

lemma queue_augmented: "augmented (queue_of i s)"
  by (simp add: augmented_def update_augments)

lemma queue_fresh_at: "fresh_at (queue_of i s) x \<longleftrightarrow> vminEligible (sy_clients s x) = vmin_of (sy_nodes s) (sy_clients s) x"
  by (simp add: fresh_at_def update_fix)

text \<open>What the operations of the tree keep of the clients.\<close>

lemma clients_later:
  assumes "later A (queue_of i s) q"
  shows "x \<notin> A \<Longrightarrow> rb_data q x = sy_clients s x"
    and "weight (rb_data q x) = weight (sy_clients s x)" "vdeadline (rb_data q x) = vdeadline (sy_clients s x)"
    and "veligible (rb_data q x) = veligible (sy_clients s x)" "stop (rb_data q x) = stop (sy_clients s x)"
    and "lastCpu (rb_data q x) = lastCpu (sy_clients s x)"
proof -
  have u: "updated A (queue_of i s) (sy_clients s) (rb_data q)" using assms by (simp add: later_def)
  show "x \<notin> A \<Longrightarrow> rb_data q x = sy_clients s x"
    by (rule updated_keeps [OF u, of "\<lambda>d. d x"]) (auto simp: update_vmin)
  show "weight (rb_data q x) = weight (sy_clients s x)" "vdeadline (rb_data q x) = vdeadline (sy_clients s x)"
    "veligible (rb_data q x) = veligible (sy_clients s x)" "stop (rb_data q x) = stop (sy_clients s x)"
    "lastCpu (rb_data q x) = lastCpu (sy_clients s x)"
    using updated_keeps [OF u, of "\<lambda>d. weight (d x)"] updated_keeps [OF u, of "\<lambda>d. vdeadline (d x)"]
      updated_keeps [OF u, of "\<lambda>d. veligible (d x)"] updated_keeps [OF u, of "\<lambda>d. stop (d x)"]
      updated_keeps [OF u, of "\<lambda>d. lastCpu (d x)"] by (auto simp: update_base)
qed

section \<open>A run queue\<close>

lemma sorted_wrt_remove1: "sorted_wrt P xs \<Longrightarrow> sorted_wrt P (remove1 x xs)"
  by (induction xs) (auto dest: notin_set_remove1)

definition queue_ok :: "'z sys_scheme \<Rightarrow> cpu \<Rightarrow> tr \<Rightarrow> bool" where
  "queue_ok s i T \<longleftrightarrow> rb_rep (queue_of i s) T \<and> rbt T \<and> sorted_wrt (le_by (sched_node_compare (sy_clients s))) (ino T) \<and>
     sfresh (queue_of i s)"

lemma repr_cong: "(\<And>x. x \<in> set (ino t) \<Longrightarrow> h x = h' x) \<Longrightarrow> repr h p t = repr h' p t"
  by (induction t arbitrary: p) auto

lemma queue_ok_cong:
  assumes "runqueue (sched_of i s') = runqueue (sched_of i s)"
    and "\<And>x. x \<in> set (ino T) \<Longrightarrow> sy_nodes s' x = sy_nodes s x"
    and "\<And>x. x \<in> set (ino T) \<Longrightarrow> vdeadline (sy_clients s' x) = vdeadline (sy_clients s x) \<and>
          veligible (sy_clients s' x) = veligible (sy_clients s x) \<and> vminEligible (sy_clients s' x) = vminEligible (sy_clients s x)"
    and "queue_ok s i T"
  shows "queue_ok s' i T"
proof -
  have rep: "rb_rep (queue_of i s) T" using assms(4) by (simp add: queue_ok_def)
  then have rep': "rb_rep (queue_of i s') T"
    using repr_cong [of T "sy_nodes s'" "sy_nodes s"] assms(1,2) by (simp add: rb_rep_def)
  have "vmin_of (sy_nodes s') (sy_clients s') x = vmin_of (sy_nodes s) (sy_clients s) x" if "x \<in> set (ino T)" for x
    using assms(2,3) that links(1) [OF rep that] by (intro vmin_cong) auto
  then have "sfresh (queue_of i s')"
    using assms(3,4) by (auto simp: sfresh_def tnodes_rep [OF rep, simplified] tnodes_rep [OF rep', simplified] queue_fresh_at queue_ok_def)
  moreover have "sorted_wrt (le_by (sched_node_compare (sy_clients s'))) (ino T)"
    using assms(4) unfolding queue_ok_def
    by (elim conjE sorted_wrt_mono_rel [rotated]) (use assms(3) compare_cong [of "sy_clients s'" _ "sy_clients s"] in auto)
  ultimately show ?thesis using rep' assms(4) by (simp add: queue_ok_def)
qed

section \<open>The operations on a run queue\<close>

text \<open>What an operation on the run queue of one CPU leaves alone.\<close>

definition touches :: "thread set \<Rightarrow> cpu \<Rightarrow> 'z sys_scheme \<Rightarrow> 'z sys_scheme \<Rightarrow> bool" where
  "touches A i s s' \<longleftrightarrow>
     sy_state s' = sy_state s \<and> sy_priority s' = sy_priority s \<and> sy_log s' = sy_log s \<and> sys.more s' = sys.more s \<and>
     (\<exists>r. sy_scheds s' = (sy_scheds s)[i := (sched_of i s)\<lparr>runqueue := r\<rparr>]) \<and>
     (\<forall>x. x \<notin> A \<longrightarrow> sy_nodes s' x = sy_nodes s x \<and> sy_clients s' x = sy_clients s x) \<and>
     (\<forall>x. weight (sy_clients s' x) = weight (sy_clients s x) \<and> vdeadline (sy_clients s' x) = vdeadline (sy_clients s x) \<and>
        veligible (sy_clients s' x) = veligible (sy_clients s x) \<and> stop (sy_clients s' x) = stop (sy_clients s x) \<and>
        lastCpu (sy_clients s' x) = lastCpu (sy_clients s x))"

lemma put_queue_touches:
  assumes "later A (queue_of i s) q" and "\<forall>v. v \<notin> A \<longrightarrow> rb_nodes q v = sy_nodes s v"
  shows "touches A i s (put_queue i q s)"
  using assms(2) clients_later [OF assms(1)] by (auto simp: touches_def put_queue_def set_sched_def)

lemma put_queue_simps:
  assumes "i < length (sy_scheds s)"
  shows "runqueue (sched_of i (put_queue i q s)) = rb_root q" "sy_nodes (put_queue i q s) = rb_nodes q" "sy_clients (put_queue i q s) = rb_data q"
  using assms by (simp_all add: put_queue_def set_sched_def)

lemma put_queue_back:
  assumes "i < length (sy_scheds s)" and "later A (queue_of i s) q"
  shows "queue_of i (put_queue i q s) = q"
  using assms by (intro rbtree.equality) (simp_all add: put_queue_simps later_def)

lemma on_queue_insert:
  assumes i: "i < length (sy_scheds s)" and ok: "queue_ok s i T" and t: "t \<notin> set (ino T)" "sy_nodes s t = RBNODE_CREATE"
    and vmin: "vminEligible (sy_clients s t) = veligible (sy_clients s t)"
  obtains s' T' where "on_queue i (rbtree_insert t) s = Some s'" "queue_ok s' i T'"
    "ino T' = before_new (sched_node_compare (sy_clients s)) t (ino T)" "touches (insert t (set (ino T))) i s s'"
proof -
  let ?q = "queue_of i s" and ?A = "insert t (set (ino T))" and ?f = "sched_node_compare (sy_clients s)"
  let ?T = "ins_tree (\<lambda>x. ?f t x < 0) t T"
  have free: "rb_parent (sy_nodes s t) = None" "rb_children (sy_nodes s t) RBNODE_LEFT = None" "rb_children (sy_nodes s t) RBNODE_RIGHT = None"
    using t(2) by (simp_all add: RBNODE_CREATE_def)
  have rep: "rb_rep ?q T" "rbt T" "sorted_wrt (le_by ?f) (ino T)" "sfresh ?q" using ok by (simp_all add: queue_ok_def)
  have "fresh_at ?q t" using vmin free by (simp add: queue_fresh_at vmin_of_def min_eligible_def)
  then obtain q where q: "rbtree_insert t ?q = Some q" "rb_rep q ?T" "later ?A ?q q" "\<forall>v. v \<notin> ?A \<longrightarrow> rb_nodes q v = sy_nodes s v" "sfresh q"
    using rbtree_insert_result [OF rep(1) t(1), of ?A] free rep(4) queue_augmented [of i s] by auto
  let ?s = "put_queue i q s"
  note bq = put_queue_back [OF i q(3)]
  have ino: "ino ?T = before_new ?f t (ino T)" by (rule insert_order [OF compare_total rep(3)])
  have tch: "touches ?A i s ?s" by (rule put_queue_touches [OF q(3,4)])
  have "sched_node_compare (sy_clients ?s) = ?f"
    using tch by (intro ext compare_cong) (simp_all add: touches_def)
  then have "queue_ok ?s i ?T"
    using q(2,5) bq rbt_ins_tree [OF rep(2)] sorted_before_new [OF compare_total rep(3), of t] ino by (simp add: queue_ok_def)
  moreover have "on_queue i (rbtree_insert t) s = Some ?s" using q(1) by (simp add: on_queue_def)
  ultimately show thesis using that ino tch by blast
qed

lemma on_queue_remove:
  assumes i: "i < length (sy_scheds s)" and ok: "queue_ok s i T" and t: "t \<in> set (ino T)"
  obtains s' T' where "on_queue i (rbtree_remove t) s = Some s'" "queue_ok s' i T'"
    "ino T' = remove1 t (ino T)" "touches (set (ino T)) i s s'" "sy_nodes s' t = RBNODE_CREATE"
proof -
  let ?q = "queue_of i s" and ?f = "sched_node_compare (sy_clients s)"
  have rep: "rb_rep ?q T" "rbt T" "sorted_wrt (le_by ?f) (ino T)" "sfresh ?q" using ok by (simp_all add: queue_ok_def)
  obtain q T' where q: "rbtree_remove t ?q = Some q" "rb_rep q T'" "keeps (set (ino T)) ?q q" "rbt T'" "ino T' = remove1 t (ino T)"
    "rb_nodes q t = RBNODE_CREATE"
    using rbtree_remove_result [OF rep(1,2) t order.refl] unfolding removes_def by blast
  have k: "later (set (ino T)) ?q q" "\<forall>v. v \<notin> set (ino T) \<longrightarrow> rb_nodes q v = sy_nodes s v" "sfresh q"
    using q(3) rep(4) queue_augmented [of i s] by (auto simp: keeps_def)
  let ?s = "put_queue i q s"
  note bq = put_queue_back [OF i k(1)]
  have tch: "touches (set (ino T)) i s ?s" by (rule put_queue_touches [OF k(1,2)])
  have "sched_node_compare (sy_clients ?s) = ?f"
    using tch by (intro ext compare_cong) (simp_all add: touches_def)
  moreover have "sorted_wrt (le_by ?f) (remove1 t (ino T))" using rep(3) by (simp add: sorted_wrt_remove1)
  ultimately have "queue_ok ?s i T'" using q k(3) bq by (simp add: queue_ok_def)
  moreover have "on_queue i (rbtree_remove t) s = Some ?s" using q(1) by (simp add: on_queue_def)
  ultimately show thesis using that q(5,6) tch put_queue_simps(2) [OF i] by metis
qed

lemma on_queue_fix:
  assumes i: "i < length (sy_scheds s)" and rep: "rb_rep (queue_of i s) T" "rbt T" "ino T = xs @ t # ys" "nfresh t (queue_of i s)"
    and sorted: "sorted_wrt (le_by (sched_node_compare (sy_clients s))) (xs @ ys)"
  obtains s' T' where "on_queue i (rbtree_fix t) s = Some s'" "queue_ok s' i T'"
    "mset (ino T') = mset (ino T)" "touches (set (ino T)) i s s'"
proof -
  let ?q = "queue_of i s" and ?f = "sched_node_compare (sy_clients s)"
  obtain q T' where q: "rbtree_fix t ?q = Some q" "rb_rep q T'" "later (set (ino T)) ?q q" "\<forall>v. v \<notin> set (ino T) \<longrightarrow> rb_nodes q v = sy_nodes s v"
    "sfresh q" "rbt T'" "mset (ino T') = mset (ino T)" "sorted_wrt (le_by ?f) (ino T')"
    using rbtree_fix_result [OF rep(1,3) _ queue_stable _ order.refl] compare_total sorted rep(2,4) queue_augmented [of i s] by auto
  let ?s = "put_queue i q s"
  note bq = put_queue_back [OF i q(3)]
  have tch: "touches (set (ino T)) i s ?s" by (rule put_queue_touches [OF q(3,4)])
  have "sched_node_compare (sy_clients ?s) = ?f"
    using tch by (intro ext compare_cong) (simp_all add: touches_def)
  then have "queue_ok ?s i T'" using q bq by (simp add: queue_ok_def)
  moreover have "on_queue i (rbtree_fix t) s = Some ?s" using q(1) by (simp add: on_queue_def)
  ultimately show thesis using that q(7) tch by blast
qed

section \<open>The system\<close>

lemma state_simps [simp]:
  "sy_nodes (set_sched i f s) = sy_nodes s" "sy_clients (set_sched i f s) = sy_clients s" "sy_state (set_sched i f s) = sy_state s"
  "sy_priority (set_sched i f s) = sy_priority s" "sy_log (set_sched i f s) = sy_log s" "sys.more (set_sched i f s) = sys.more s"
  "length (sy_scheds (set_sched i f s)) = length (sy_scheds s)"
  "i < length (sy_scheds s) \<Longrightarrow> sched_of j (set_sched i f s) = (if j = i then f (sched_of i s) else sched_of j s)"
  "sy_nodes (set_client t g s) = sy_nodes s" "sy_clients (set_client t g s) = (sy_clients s)(t := g (sy_clients s t))"
  "sy_state (set_client t g s) = sy_state s" "sy_priority (set_client t g s) = sy_priority s" "sy_log (set_client t g s) = sy_log s"
  "sys.more (set_client t g s) = sys.more s" "sy_scheds (set_client t g s) = sy_scheds s"
  "sy_nodes (set_state t k s) = sy_nodes s" "sy_clients (set_state t k s) = sy_clients s" "sy_state (set_state t k s) = (sy_state s)(t := k)"
  "sy_priority (set_state t k s) = sy_priority s" "sy_log (set_state t k s) = sy_log s" "sys.more (set_state t k s) = sys.more s"
  "sy_scheds (set_state t k s) = sy_scheds s"
  by (simp_all add: set_sched_def set_client_def set_state_def)

definition weights :: "'z sys_scheme \<Rightarrow> tr \<Rightarrow> int" where
  "weights s T = (\<Sum>t \<leftarrow> ino T. weight (sy_clients s t))"

definition sched_ok :: "'z sys_scheme \<Rightarrow> cpu \<Rightarrow> tr \<Rightarrow> bool" where
  "sched_ok s i T \<longleftrightarrow> queue_ok s i T \<and> (\<forall>t \<in> set (ino T). 0 < weight (sy_clients s t) \<and> weight (sy_clients s t) \<le> 256) \<and>
     totalWeight (sched_of i s) = int64 (weights s T)"

definition run_ok :: "'z sys_scheme \<Rightarrow> cpu \<Rightarrow> tr \<Rightarrow> bool" where
  "run_ok s i T \<longleftrightarrow> runThread (sched_of i s) = idleThread (sched_of i s) \<or> runThread (sched_of i s) \<in> set (ino T)"

text \<open>The threads in no run queue have a node that is not in use; idle threads are among them.\<close>

definition sys_ok :: "'z sys_scheme \<Rightarrow> tr list \<Rightarrow> bool" where
  "sys_ok s Ts \<longleftrightarrow> length Ts = length (sy_scheds s) \<and> (\<forall>i < length Ts. sched_ok s i (Ts ! i)) \<and>
     (\<forall>i < length Ts. \<forall>j < length Ts. i \<noteq> j \<longrightarrow> set (ino (Ts ! i)) \<inter> set (ino (Ts ! j)) = {}) \<and>
     (\<forall>i < length Ts. \<forall>j < length Ts. idleThread (sched_of i s) \<notin> set (ino (Ts ! j))) \<and>
     (\<forall>t. (\<forall>i < length Ts. t \<notin> set (ino (Ts ! i))) \<longrightarrow> sy_nodes s t = RBNODE_CREATE)"

definition queued :: "tr list \<Rightarrow> thread set" where
  "queued Ts = (\<Union>T \<in> set Ts. set (ino T))"

lemma queued_nth: "t \<in> queued Ts \<longleftrightarrow> (\<exists>i < length Ts. t \<in> set (ino (Ts ! i)))"
  by (auto simp: queued_def set_conv_nth)

lemma weights_mset: "mset (ino T) = mset (ino T') \<Longrightarrow> (\<And>t. weight (sy_clients s t) = weight (sy_clients s' t)) \<Longrightarrow> weights s T = weights s' T'"
proof -
  assume eq: "mset (ino T) = mset (ino T')" and w: "\<And>t. weight (sy_clients s t) = weight (sy_clients s' t)"
  have list: "sum_list (map f xs) = sum_mset (image_mset f (mset xs))" for f :: "thread \<Rightarrow> int" and xs
    by (simp flip: sum_mset_sum_list)
  show ?thesis unfolding weights_def list eq by (simp add: w)
qed

lemma sys_ok_step:
  assumes ok: "sys_ok s Ts" and i: "i < length Ts" and new: "sched_ok s' i T'"
    and scheds: "length (sy_scheds s') = length (sy_scheds s)" "\<And>j. j \<noteq> i \<Longrightarrow> sched_of j s' = sched_of j s"
    and idle: "idleThread (sched_of i s') = idleThread (sched_of i s)"
    and frame: "\<And>x. x \<notin> A \<Longrightarrow> sy_nodes s' x = sy_nodes s x \<and> sy_clients s' x = sy_clients s x"
    and A: "set (ino T') \<subseteq> A" "\<And>j. j < length Ts \<Longrightarrow> j \<noteq> i \<Longrightarrow> set (ino (Ts ! j)) \<inter> A = {}"
      "\<And>j. j < length Ts \<Longrightarrow> idleThread (sched_of j s) \<notin> set (ino T')" "set (ino (Ts ! i)) \<subseteq> A"
    and out: "\<And>x. x \<in> A \<Longrightarrow> x \<notin> set (ino T') \<Longrightarrow> sy_nodes s' x = RBNODE_CREATE"
  shows "sys_ok s' (Ts[i := T'])"
  unfolding sys_ok_def length_list_update
proof (intro conjI allI impI)
  have s: "length Ts = length (sy_scheds s)" "\<And>j. j < length Ts \<Longrightarrow> sched_ok s j (Ts ! j)"
    "\<And>i j. i < length Ts \<Longrightarrow> j < length Ts \<Longrightarrow> i \<noteq> j \<Longrightarrow> set (ino (Ts ! i)) \<inter> set (ino (Ts ! j)) = {}"
    "\<And>i j. i < length Ts \<Longrightarrow> j < length Ts \<Longrightarrow> idleThread (sched_of i s) \<notin> set (ino (Ts ! j))"
    "\<And>t. (\<And>i. i < length Ts \<Longrightarrow> t \<notin> set (ino (Ts ! i))) \<Longrightarrow> sy_nodes s t = RBNODE_CREATE"
    using ok unfolding sys_ok_def by blast+
  show "length Ts = length (sy_scheds s')" using s(1) scheds(1) by simp
  show "sched_ok s' j (Ts[i := T'] ! j)" if j: "j < length Ts" for j
  proof (cases "j = i")
    case False
    have same: "sy_nodes s' x = sy_nodes s x" "sy_clients s' x = sy_clients s x" if "x \<in> set (ino (Ts ! j))" for x
      using frame [of x] A(2) [OF j False] that by auto
    have "queue_ok s' j (Ts ! j)"
      by (rule queue_ok_cong [where s = s]) (use s(2) [OF j] scheds(2) [OF False] same in \<open>auto simp: sched_ok_def\<close>)
    moreover have "weights s' (Ts ! j) = weights s (Ts ! j)" 
      unfolding weights_def by (intro arg_cong [of _ _ sum_list] map_cong) (simp_all add: same)
    ultimately show ?thesis using s(2) [OF j] scheds(2) [OF False] same False by (auto simp: sched_ok_def)
  qed (use new i in simp)
  show "set (ino (Ts[i := T'] ! j)) \<inter> set (ino (Ts[i := T'] ! k)) = {}" if "j < length Ts" "k < length Ts" "j \<noteq> k" for j k
    using that s(3) [of j k] A(1) A(2) [of j] A(2) [of k] by (cases "j = i"; cases "k = i") auto
  show "idleThread (sched_of j s') \<notin> set (ino (Ts[i := T'] ! k))" if "j < length Ts" "k < length Ts" for j k
    using that s(4) [of j k] A(3) [of j] scheds(2) [of j] idle by (cases "j = i"; cases "k = i") auto
  show "sy_nodes s' t = RBNODE_CREATE" if t: "\<forall>j < length Ts. t \<notin> set (ino (Ts[i := T'] ! j))" for t
  proof (cases "t \<in> A")
    case True
    then show ?thesis using out t i by auto
  next
    case False
    then have "t \<notin> set (ino (Ts ! j))" if "j < length Ts" for j using t that A(4) by (cases "j = i") auto
    then show ?thesis using s(5) frame [OF False] by simp
  qed
qed

end
