(* ===== verification/Sched_Ops.thy ===== *)
theory Sched_Ops
  imports Sched_Spec
begin

text \<open>
  The operations of the scheduler keep the invariant of the run queues: the advance of the virtual time, entering and
  leaving, the choice of the next thread and stealing from another CPU.
\<close>

section \<open>Advancing the virtual time\<close>

text \<open>What the advance leaves alone, and what it does to the virtual times.\<close>

definition calm :: "thread set \<Rightarrow> cpu \<Rightarrow> 'z sys_scheme \<Rightarrow> 'z sys_scheme \<Rightarrow> bool" where
  "calm A i s s' \<longleftrightarrow>
     sy_state s' = sy_state s \<and> sy_priority s' = sy_priority s \<and> sy_log s' = sy_log s \<and> sys.more s' = sys.more s \<and>
     length (sy_scheds s') = length (sy_scheds s) \<and> (\<forall>j. j \<noteq> i \<longrightarrow> sched_of j s' = sched_of j s) \<and>
     totalWeight (sched_of i s') = totalWeight (sched_of i s) \<and> preemptCount (sched_of i s') = preemptCount (sched_of i s) \<and>
     idleThread (sched_of i s') = idleThread (sched_of i s) \<and> runThread (sched_of i s') = runThread (sched_of i s) \<and>
     (\<forall>x. weight (sy_clients s' x) = weight (sy_clients s x) \<and> stop (sy_clients s' x) = stop (sy_clients s x) \<and>
        lastCpu (sy_clients s' x) = lastCpu (sy_clients s x)) \<and>
     (\<forall>x. x \<notin> A \<longrightarrow> sy_nodes s' x = sy_nodes s x \<and> sy_clients s' x = sy_clients s x)"

definition advanced :: "cpu \<Rightarrow> u64 \<Rightarrow> 'z sys_scheme \<Rightarrow> 'z sys_scheme \<Rightarrow> bool" where
  "advanced i uptime s s' \<longleftrightarrow>
     (let sched = sched_of i s; t = runThread sched; real = SCHED_FIXED_TO (uint (uptime - lastUpdate sched))
      in if totalWeight sched = 0 \<or> t = idleThread sched
         then vtime (sched_of i s') = 0 \<and> (\<forall>x. veligible (sy_clients s' x) = veligible (sy_clients s x))
         else vtime (sched_of i s') = int128 (vtime sched + int128 (real sdiv totalWeight sched)) \<and>
              veligible (sy_clients s' t) = int128 (veligible (sy_clients s t) + int128 (real sdiv weight (sy_clients s t))) \<and>
              (\<forall>x. x \<noteq> t \<longrightarrow> veligible (sy_clients s' x) = veligible (sy_clients s x)))"

lemma sys_okD:
  assumes "sys_ok s Ts"
  shows "length (sy_scheds s) = length Ts" "i < length Ts \<Longrightarrow> sched_ok s i (Ts ! i)" "i < length Ts \<Longrightarrow> queue_ok s i (Ts ! i)"
    and "i < length Ts \<Longrightarrow> rb_rep (queue_of i s) (Ts ! i)"
    and "i < length Ts \<Longrightarrow> j < length Ts \<Longrightarrow> i \<noteq> j \<Longrightarrow> set (ino (Ts ! j)) \<inter> set (ino (Ts ! i)) = {}"
    and "i < length Ts \<Longrightarrow> j < length Ts \<Longrightarrow> idleThread (sched_of i s) \<notin> set (ino (Ts ! j))"
    and "t \<notin> queued Ts \<Longrightarrow> sy_nodes s t = RBNODE_CREATE"
  using assms by (auto simp: sys_ok_def sched_ok_def queue_ok_def queued_nth)

text \<open>A change of the client of one thread makes only its data and those above it outdated.\<close>

lemma change_client:
  assumes ok: "queue_ok s i T" and T: "ino T = xs @ t # ys"
    and same: "runqueue (sched_of i s') = runqueue (sched_of i s)" "sy_nodes s' = sy_nodes s" "\<And>x. x \<noteq> t \<Longrightarrow> sy_clients s' x = sy_clients s x"
  shows "rb_rep (queue_of i s') T" "rbt T" "nfresh t (queue_of i s')" "sorted_wrt (le_by (sched_node_compare (sy_clients s'))) (xs @ ys)"
proof -
  have rep: "rb_rep (queue_of i s) T" and sorted: "sorted_wrt (le_by (sched_node_compare (sy_clients s))) (ino T)"
    using ok by (simp_all add: queue_ok_def)
  show rep': "rb_rep (queue_of i s') T" using rep same(1,2) by (simp add: rb_rep_def)
  show "rbt T" using ok by (simp add: queue_ok_def)
  have "distinct (xs @ t # ys)" using rep T unfolding rb_rep_def by metis
  then have ne: "x \<noteq> t" if "x \<in> set (xs @ ys)" for x using that by auto
  have "sorted_wrt (le_by (sched_node_compare (sy_clients s))) (xs @ ys)" using sorted T by (auto simp: sorted_wrt_append)
  then show "sorted_wrt (le_by (sched_node_compare (sy_clients s'))) (xs @ ys)"
    by (rule sorted_wrt_mono_rel [rotated])
      (use ne same(3) compare_cong [of "sy_clients s'" _ "sy_clients s"] in \<open>metis (no_types, lifting)\<close>)
  show "nfresh t (queue_of i s')"
    unfolding nfresh_def
  proof (intro ballI)
    fix y
    assume y: "y \<in> tnodes (queue_of i s') - ups (queue_of i s') t"
    then have yT: "y \<in> set (ino T)" and up: "y \<notin> ups (queue_of i s') t" using tnodes_rep [OF rep'] by auto
    have ne: "y \<noteq> t" using up ups.self by blast
    have "sy_clients s' z = sy_clients s z" if "rb_children (sy_nodes s y) e = Some z" for e z
    proof -
      have "par (queue_of i s') z = Some y" using links(1) [OF rep' yT, of e z] that same(2) by simp
      then have "z \<noteq> t" using ups.up [OF ups.self, of "queue_of i s'" t y] up by auto
      then show ?thesis by (rule same(3))
    qed
    then have "vmin_of (sy_nodes s') (sy_clients s') y = vmin_of (sy_nodes s) (sy_clients s) y"
      using same(2,3) ne by (intro vmin_cong) auto
    moreover have "fresh_at (queue_of i s) y" using ok yT tnodes_rep [OF rep] by (simp add: queue_ok_def sfresh_def)
    ultimately show "fresh_at (queue_of i s') y" using same(3) ne by (simp add: queue_fresh_at)
  qed
qed

lemma update_veligible_some:
  "weight (sy_clients s t) \<noteq> 0 \<Longrightarrow> sched_client_update_veligible t v s =
     Some (set_client t (\<lambda>client. client\<lparr>veligible := v, vminEligible := v,
       vdeadline := int128 (v + int128 (SCHED_FIXED_TO (uint CONFIG_TIME_SLICE) sdiv weight (sy_clients s t)))\<rparr>) s)"
  by (simp add: sched_client_update_veligible_def div128_def)

lemma touches_calm: "touches A i s s' \<Longrightarrow> i < length (sy_scheds s) \<Longrightarrow> calm A i s s' \<and> vtime (sched_of i s') = vtime (sched_of i s) \<and>
  (\<forall>x. veligible (sy_clients s' x) = veligible (sy_clients s x))"
  unfolding touches_def calm_def by (elim conjE exE) (simp add: nth_list_update)

lemma vtime_update_result:
  assumes ok: "sys_ok s Ts" and i: "i < length Ts" and run: "totalWeight (sched_of i s) \<noteq> 0 \<Longrightarrow> run_ok s i (Ts ! i)"
  obtains s' T' where "sched_vtime_update i uptime s = Some s'" "sys_ok s' (Ts[i := T'])" "mset (ino T') = mset (ino (Ts ! i))"
    "calm (set (ino (Ts ! i))) i s s'" "advanced i uptime s s'"
proof -
  let ?sched = "sched_of i s" and ?T = "Ts ! i" and ?A = "set (ino (Ts ! i))"
  note D = sys_okD [OF ok]
  have len: "i < length (sy_scheds s)" using i D(1) by simp
  have sok: "sched_ok s i ?T" using D(2) i by blast
  let ?s1 = "set_sched i (\<lambda>sched. sched\<lparr>lastUpdate := uptime\<rparr>) s"
  show thesis
  proof (cases "totalWeight ?sched = 0 \<or> runThread ?sched = idleThread ?sched")
    case True
    let ?s = "sched_vtime_reset i uptime ?s1"
    have step: "sched_vtime_update i uptime s = Some ?s" using True len by (simp add: sched_vtime_update_def Let_def)
    have q: "queue_ok ?s i ?T" by (rule queue_ok_cong [where s = s]) (use sok len in \<open>simp_all add: sched_ok_def sched_vtime_reset_def\<close>)
    have "sched_ok ?s i ?T" using sok q len by (simp add: sched_ok_def sched_vtime_reset_def weights_def)
    then have "sys_ok ?s (Ts[i := ?T])"
      by (rule sys_ok_step [OF ok i, where A = ?A]) (use len i D(5,6) in \<open>simp_all add: sched_vtime_reset_def\<close>)
    moreover have "calm ?A i s ?s" "advanced i uptime s ?s" using len True by (simp_all add: calm_def advanced_def sched_vtime_reset_def SCHED_FIXED_ZERO_def)
    ultimately show thesis using that step by blast
  next
    case False
    let ?t = "runThread ?sched" and ?real = "SCHED_FIXED_TO (uint (uptime - lastUpdate ?sched))"
    have t: "?t \<in> ?A" using run False by (simp add: run_ok_def)
    then obtain xs ys where xs: "ino ?T = xs @ ?t # ys" by (meson split_list)
    have w: "weight (sy_clients s ?t) \<noteq> 0" using sok t by (auto simp: sched_ok_def)
    let ?v = "int128 (veligible (sy_clients s ?t) + int128 (?real sdiv weight (sy_clients s ?t)))"
    let ?g = "\<lambda>client. client\<lparr>veligible := ?v, vminEligible := ?v,
      vdeadline := int128 (?v + int128 (SCHED_FIXED_TO (uint CONFIG_TIME_SLICE) sdiv weight (sy_clients s ?t)))\<rparr>"
    let ?s2 = "set_client ?t ?g (set_sched i (\<lambda>sched. sched\<lparr>vtime := int128 (vtime sched + int128 (?real sdiv totalWeight ?sched))\<rparr>) ?s1)"
    have step: "sched_vtime_update i uptime s = on_queue i (rbtree_fix ?t) ?s2"
      using False len w by (simp add: sched_vtime_update_def Let_def div128_def update_veligible_some)
    have len2: "i < length (sy_scheds ?s2)" using len by simp
    note c = change_client [OF _ xs, of s i ?s2]
    have "queue_ok s i ?T" using sok by (simp add: sched_ok_def)
    from c [OF this] len obtain s' T' where s': "on_queue i (rbtree_fix ?t) ?s2 = Some s'" "queue_ok s' i T'"
      "mset (ino T') = mset (ino ?T)" "touches ?A i ?s2 s'"
      using on_queue_fix [OF len2 _ _ xs] by auto
    note tc = touches_calm [OF s'(4) len2]
    have cal: "calm ?A i s s'" using tc t len by (auto simp: calm_def)
    have set': "set (ino T') = ?A" using s'(3) by (metis set_mset_mset)
    have "weights s' T' = weights s ?T" by (rule weights_mset [OF s'(3)]) (use cal in \<open>simp add: calm_def\<close>)
    then have "sched_ok s' i T'" using sok s'(2) cal set' by (simp add: sched_ok_def calm_def)
    then have "sys_ok s' (Ts[i := T'])"
      by (rule sys_ok_step [OF ok i, where A = ?A]) (use cal D(5,6) i set' in \<open>auto simp: calm_def\<close>)
    moreover have "advanced i uptime s s'" using False tc len by (simp add: advanced_def Let_def)
    ultimately show thesis using that step s'(1,3) cal by simp
  qed
qed

section \<open>Entering and leaving\<close>

lemma int64_add [simp]: "int64 (int64 a + b) = int64 (a + b)" "int64 (int64 a - b) = int64 (a - b)"
  by (simp_all add: int64_def mod_simps algebra_simps)

lemma before_new_mset: "mset (before_new f n xs) = add_mset n (mset xs)"
  by (induction xs) (auto simp: before_new_def)

lemma weights_insert:
  assumes "mset (ino T') = add_mset t (mset (ino T))" and "\<And>x. x \<in> set (ino T) \<Longrightarrow> weight (sy_clients s' x) = weight (sy_clients s x)"
  shows "weights s' T' = weights s T + weight (sy_clients s' t)"
proof -
  have list: "sum_list (map f xs) = sum_mset (image_mset f (mset xs))" for f :: "thread \<Rightarrow> int" and xs
    by (simp flip: sum_mset_sum_list)
  have "image_mset (\<lambda>x. weight (sy_clients s' x)) (mset (ino T)) = image_mset (\<lambda>x. weight (sy_clients s x)) (mset (ino T))"
    by (rule image_mset_cong) (simp add: assms(2))
  then show ?thesis unfolding weights_def list assms(1) by simp
qed

lemma enter_result:
  assumes ok: "sys_ok s Ts" and i: "i < length Ts" and run: "totalWeight (sched_of i s) \<noteq> 0 \<Longrightarrow> run_ok s i (Ts ! i)"
    and t: "t \<notin> queued Ts" "\<And>j. j < length Ts \<Longrightarrow> t \<noteq> idleThread (sched_of j s)"
  obtains s1 s' T' where "sched_enter i t uptime s = Some s'" "sys_ok s' (Ts[i := T'])" "mset (ino T') = add_mset t (mset (ino (Ts ! i)))"
    "calm (set (ino (Ts ! i))) i s s1" "advanced i uptime s s1"
    "sy_state s' = (sy_state s)(t := THREAD_ACTIVE)" "sy_priority s' = sy_priority s" "sy_log s' = sy_log s" "sys.more s' = sys.more s"
    "\<forall>j. j \<noteq> i \<longrightarrow> sched_of j s' = sched_of j s" "length (sy_scheds s') = length (sy_scheds s)"
    "runThread (sched_of i s') = runThread (sched_of i s)" "idleThread (sched_of i s') = idleThread (sched_of i s)"
    "preemptCount (sched_of i s') = preemptCount (sched_of i s)" "vtime (sched_of i s') = vtime (sched_of i s1)"
    "\<forall>x. x \<noteq> t \<longrightarrow> weight (sy_clients s' x) = weight (sy_clients s x) \<and> veligible (sy_clients s' x) = veligible (sy_clients s1 x)"
    "weight (sy_clients s' t) = uint (sy_priority s t) + 1" "veligible (sy_clients s' t) = vtime (sched_of i s1)"
    "\<forall>x. stop (sy_clients s' x) = stop (sy_clients s x) \<and> lastCpu (sy_clients s' x) = lastCpu (sy_clients s x)"
    "\<forall>x. x \<notin> insert t (set (ino (Ts ! i))) \<longrightarrow> sy_nodes s' x = sy_nodes s x \<and> sy_clients s' x = sy_clients s x"
proof -
  let ?A = "set (ino (Ts ! i))"
  obtain s1 T1 where s1: "sched_vtime_update i uptime s = Some s1" "sys_ok s1 (Ts[i := T1])" "mset (ino T1) = mset (ino (Ts ! i))"
    "calm ?A i s s1" "advanced i uptime s s1" by (rule vtime_update_result [OF ok i run])
  note D = sys_okD [OF ok] and D1 = sys_okD [OF s1(2)]
  have c1: "sy_state s1 = sy_state s" "sy_priority s1 = sy_priority s" "sy_log s1 = sy_log s" "sys.more s1 = sys.more s"
    "length (sy_scheds s1) = length (sy_scheds s)" "\<And>j. j \<noteq> i \<Longrightarrow> sched_of j s1 = sched_of j s"
    "totalWeight (sched_of i s1) = totalWeight (sched_of i s)" "idleThread (sched_of i s1) = idleThread (sched_of i s)"
    "runThread (sched_of i s1) = runThread (sched_of i s)" "preemptCount (sched_of i s1) = preemptCount (sched_of i s)"
    "\<And>x. weight (sy_clients s1 x) = weight (sy_clients s x)" "\<And>x. stop (sy_clients s1 x) = stop (sy_clients s x)"
    "\<And>x. lastCpu (sy_clients s1 x) = lastCpu (sy_clients s x)"
    "\<And>x. x \<notin> ?A \<Longrightarrow> sy_nodes s1 x = sy_nodes s x \<and> sy_clients s1 x = sy_clients s x"
    using s1(4) by (simp_all add: calm_def)
  have len: "i < length (sy_scheds s1)" using i D(1) c1(5) by simp
  have set1: "set (ino T1) = ?A" using s1(3) by (metis set_mset_mset)
  let ?w = "uint (sy_priority s t) + SCHED_WEIGHT_BASE" and ?v = "vtime (sched_of i s1)"
  let ?s2 = "set_sched i (\<lambda>sched. sched\<lparr>totalWeight := int64 (totalWeight sched + ?w)\<rparr>) (set_client t (\<lambda>client. client\<lparr>weight := ?w\<rparr>) s1)"
  have w: "0 < ?w" "?w \<le> 256" using uint_lt2p [of "sy_priority s t"] by (simp_all add: SCHED_WEIGHT_BASE_def)
  let ?s3 = "set_client t (\<lambda>client. client\<lparr>veligible := ?v, vminEligible := ?v,
       vdeadline := int128 (?v + int128 (SCHED_FIXED_TO (uint CONFIG_TIME_SLICE) sdiv ?w))\<rparr>) ?s2"
  have step: "sched_enter i t uptime s = on_queue i (rbtree_insert t) ?s3 \<bind> (\<lambda>s. Some (set_state t THREAD_ACTIVE s))"
    using t(2) [OF i] s1(1) w len c1(2) unfolding sched_enter_def Let_def by (simp add: update_veligible_some)
  have len3: "i < length (sy_scheds ?s3)" using len by simp
  have tA: "t \<notin> set (ino T1)" using t(1) i by (auto simp: queued_nth set1)
  have q1: "queue_ok s1 i T1" using D1(3) [of i] i by simp
  have q3: "queue_ok ?s3 i T1"
    by (rule queue_ok_cong [OF _ _ _ q1]) (use len tA in auto)
  have n3: "sy_nodes ?s3 t = RBNODE_CREATE" using D(7) [OF t(1)] c1(14) [of t] tA set1 by simp
  obtain s' T' where s': "on_queue i (rbtree_insert t) ?s3 = Some s'" "queue_ok s' i T'"
    "ino T' = before_new (sched_node_compare (sy_clients ?s3)) t (ino T1)" "touches (insert t (set (ino T1))) i ?s3 s'"
    by (rule on_queue_insert [OF len3 q3 tA n3]) simp_all
  have T': "mset (ino T') = add_mset t (mset (ino (Ts ! i)))" unfolding s'(3) before_new_mset s1(3) ..
  then have setT: "set (ino T') = insert t ?A" by (metis set_mset_add_mset_insert set_mset_mset)
  have tch: "sy_state s' = sy_state s" "sy_priority s' = sy_priority s" "sy_log s' = sy_log s" "sys.more s' = sys.more s"
    "\<And>x. x \<notin> insert t ?A \<Longrightarrow> sy_nodes s' x = sy_nodes ?s3 x \<and> sy_clients s' x = sy_clients ?s3 x"
    "\<And>x. weight (sy_clients s' x) = weight (sy_clients ?s3 x)" "\<And>x. veligible (sy_clients s' x) = veligible (sy_clients ?s3 x)"
    "\<And>x. stop (sy_clients s' x) = stop (sy_clients ?s3 x)" "\<And>x. lastCpu (sy_clients s' x) = lastCpu (sy_clients ?s3 x)"
    using s'(4) c1 set1 unfolding touches_def by simp_all
  have sch: "length (sy_scheds s') = length (sy_scheds s)" "\<And>j. j \<noteq> i \<Longrightarrow> sched_of j s' = sched_of j s"
    "totalWeight (sched_of i s') = int64 (totalWeight (sched_of i s) + ?w)" "vtime (sched_of i s') = ?v"
    "runThread (sched_of i s') = runThread (sched_of i s)" "idleThread (sched_of i s') = idleThread (sched_of i s)"
    "preemptCount (sched_of i s') = preemptCount (sched_of i s)"
    using s'(4) c1 len unfolding touches_def by auto
  let ?s' = "set_state t THREAD_ACTIVE s'"
  have tw: "totalWeight (sched_of i s) = int64 (weights s (Ts ! i))" "\<forall>x \<in> ?A. 0 < weight (sy_clients s x) \<and> weight (sy_clients s x) \<le> 256"
    using D(2) [OF i] by (simp_all add: sched_ok_def)
  have wt: "weight (sy_clients s' x) = (if x = t then ?w else weight (sy_clients s x))" for x using tch(6) c1(11) by simp
  have nt: "x \<noteq> t" if "x \<in> ?A" for x using that tA set1 by auto
  have "weights s' T' = weights s (Ts ! i) + ?w" using weights_insert [OF T', of s' s] wt nt by simp
  moreover have "queue_ok ?s' i T'" by (rule queue_ok_cong [OF _ _ _ s'(2)]) simp_all
  ultimately have "sched_ok ?s' i T'" using tw wt nt w setT sch(3) by (auto simp: sched_ok_def weights_def)
  then have "sys_ok ?s' (Ts[i := T'])"
  proof (rule sys_ok_step [OF ok i, where A = "insert t ?A"])
    show "sy_nodes ?s' x = sy_nodes s x \<and> sy_clients ?s' x = sy_clients s x" if "x \<notin> insert t ?A" for x
      using tch(5) [OF that] c1(14) [of x] that by simp
    show "set (ino (Ts ! j)) \<inter> insert t ?A = {}" if "j < length Ts" "j \<noteq> i" for j
      using D(5) [OF i that(1)] that t(1) by (auto simp: queued_nth)
    show "idleThread (sched_of j s) \<notin> set (ino T')" if "j < length Ts" for j
      using D(6) [OF that i] t(2) [OF that] setT by auto
  qed (use sch setT in auto)
  then show thesis
    using that [of ?s' T' s1] step s'(1) T' s1(4,5) tch sch wt c1 len nt by (simp add: SCHED_WEIGHT_BASE_def)
qed

text \<open>Removing a thread shares its lag among those that stay.\<close>

definition left_vtime :: "cpu \<Rightarrow> thread \<Rightarrow> 'z sys_scheme \<Rightarrow> vclock" where
  "left_vtime i t s =
     (let total = int64 (totalWeight (sched_of i s) - weight (sy_clients s t))
      in if total = 0 then 0 else int128 (vtime (sched_of i s) + int128 (lag_of i s t sdiv total)))"

lemma leave_result:
  assumes ok: "sys_ok s Ts" and i: "i < length Ts" and t: "t \<in> set (ino (Ts ! i))"
  obtains s' T' where "sched_leave i t uptime s = Some s'" "sys_ok s' (Ts[i := T'])" "ino T' = remove1 t (ino (Ts ! i))"
    "sy_state s' = sy_state s" "sy_priority s' = sy_priority s" "sy_log s' = sy_log s" "sys.more s' = sys.more s"
    "\<forall>j. j \<noteq> i \<longrightarrow> sched_of j s' = sched_of j s" "length (sy_scheds s') = length (sy_scheds s)"
    "runThread (sched_of i s') = runThread (sched_of i s)" "idleThread (sched_of i s') = idleThread (sched_of i s)"
    "preemptCount (sched_of i s') = preemptCount (sched_of i s)" "vtime (sched_of i s') = left_vtime i t s"
    "\<forall>x. sy_clients s' x = (sy_clients s x)\<lparr>vminEligible := vminEligible (sy_clients s' x)\<rparr>"
    "\<forall>x. x \<notin> set (ino (Ts ! i)) \<longrightarrow> sy_nodes s' x = sy_nodes s x \<and> sy_clients s' x = sy_clients s x" "sy_nodes s' t = RBNODE_CREATE"
proof -
  let ?T = "Ts ! i" and ?A = "set (ino (Ts ! i))"
  note D = sys_okD [OF ok]
  have len: "i < length (sy_scheds s)" using i D(1) by simp
  let ?total = "int64 (totalWeight (sched_of i s) - weight (sy_clients s t))"
  let ?s1 = "set_sched i (\<lambda>sched. sched\<lparr>totalWeight := ?total\<rparr>) s"
  have q1: "queue_ok ?s1 i ?T" by (rule queue_ok_cong [OF _ _ _ D(3) [OF i]]) (use len in auto)
  obtain s2 T' where s2: "on_queue i (rbtree_remove t) ?s1 = Some s2" "queue_ok s2 i T'" "ino T' = remove1 t (ino ?T)" "touches ?A i ?s1 s2"
    "sy_nodes s2 t = RBNODE_CREATE"
    by (rule on_queue_remove [OF _ q1 t]) (use len in auto)
  let ?s' = "if ?total = 0 then sched_vtime_reset i uptime s2
    else set_sched i (\<lambda>sched. sched\<lparr>vtime := int128 (vtime sched + int128 (lag_of i s t sdiv ?total))\<rparr>) s2"
  have ne: "t \<noteq> idleThread (sched_of i s)" using D(6) [OF i i] t by auto
  have step: "sched_leave i t uptime s = Some ?s'"
    using s2(1) ne unfolding sched_leave_def Let_def by (simp add: div128_def lag_of_def)
  have c: "sy_state s2 = sy_state s" "sy_priority s2 = sy_priority s" "sy_log s2 = sy_log s" "sys.more s2 = sys.more s"
    "\<And>x. x \<notin> ?A \<Longrightarrow> sy_nodes s2 x = sy_nodes s x \<and> sy_clients s2 x = sy_clients s x"
    "\<And>x. sy_clients s2 x = (sy_clients s x)\<lparr>vminEligible := vminEligible (sy_clients s2 x)\<rparr>"
    using s2(4) unfolding touches_def by auto
  have sch: "length (sy_scheds s2) = length (sy_scheds s)" "\<And>j. j \<noteq> i \<Longrightarrow> sched_of j s2 = sched_of j s"
    "totalWeight (sched_of i s2) = ?total" "vtime (sched_of i s2) = vtime (sched_of i s)"
    "runThread (sched_of i s2) = runThread (sched_of i s)" "idleThread (sched_of i s2) = idleThread (sched_of i s)"
    "preemptCount (sched_of i s2) = preemptCount (sched_of i s)"
    using s2(4) len unfolding touches_def by auto
  have len2: "i < length (sy_scheds s2)" using len sch(1) by simp
  have fields: "sy_nodes ?s' = sy_nodes s2" "sy_clients ?s' = sy_clients s2" "sy_state ?s' = sy_state s2" "sy_priority ?s' = sy_priority s2"
    "sy_log ?s' = sy_log s2" "sys.more ?s' = sys.more s2" "length (sy_scheds ?s') = length (sy_scheds s2)"
    "\<And>j. j \<noteq> i \<Longrightarrow> sched_of j ?s' = sched_of j s2" "totalWeight (sched_of i ?s') = ?total"
    "runThread (sched_of i ?s') = runThread (sched_of i s2)" "idleThread (sched_of i ?s') = idleThread (sched_of i s2)"
    "preemptCount (sched_of i ?s') = preemptCount (sched_of i s2)" "vtime (sched_of i ?s') = left_vtime i t s"
    "runqueue (sched_of i ?s') = runqueue (sched_of i s2)"
    using len2 sch by (simp_all add: sched_vtime_reset_def SCHED_FIXED_ZERO_def left_vtime_def Let_def)
  have wt: "weight (sy_clients s2 x) = weight (sy_clients s x)" for x by (subst c(6)) simp
  have dis: "distinct (ino ?T)" using D(4) [OF i] by (simp add: rb_rep_def)
  have setT: "set (ino T') = ?A - {t}" using s2(3) dis by simp
  have tw: "totalWeight (sched_of i s) = int64 (weights s ?T)" "\<forall>x \<in> ?A. 0 < weight (sy_clients s x) \<and> weight (sy_clients s x) \<le> 256"
    using D(2) [OF i] by (simp_all add: sched_ok_def)
  have "mset (ino ?T) = add_mset t (mset (ino T'))" using s2(3) t by simp
  then have "weights s ?T = weights s2 T' + weight (sy_clients s t)" by (rule weights_insert) (simp add: wt)
  then have "totalWeight (sched_of i ?s') = int64 (weights s2 T')" using tw(1) fields(9) by simp
  moreover have "queue_ok ?s' i T'" by (rule queue_ok_cong [OF _ _ _ s2(2)]) (use fields in simp_all)
  ultimately have "sched_ok ?s' i T'" using tw wt setT fields(2) by (auto simp: sched_ok_def weights_def)
  then have "sys_ok ?s' (Ts[i := T'])"
  proof (rule sys_ok_step [OF ok i, where A = ?A])
    show "sy_nodes ?s' x = RBNODE_CREATE" if "x \<in> ?A" "x \<notin> set (ino T')" for x using that setT s2(5) fields(1) by auto
  qed (use fields sch c setT D(5,6) i in auto)
  then show thesis using that [OF step _ s2(3)] fields c sch s2(5) by presburger
qed

end
