(* ===== verification/Sched_Select.thy ===== *)
theory Sched_Select
  imports Sched_Ops
begin

text \<open>
  The choice of the next thread: the walk of \<^verbatim>\<open>sched_first_eligible\<close> down the run queue as a search in the tree the
  queue represents, and how far the tolerance of \<^verbatim>\<open>sched_fixed_cmp\<close> takes its result from the earliest deadline.
\<close>

section \<open>Comparisons of virtual times\<close>

text \<open>What two times may differ by and still compare as equal.\<close>

definition slack :: int where
  "slack = (SCHED_EPSILON + 1) * 2 ^ 63"

definition near :: "vclock \<Rightarrow> bool" where
  "near a \<longleftrightarrow> \<bar>a\<bar> \<le> 2 ^ 116"

lemma slack_pos [simp]: "0 < slack" "0 \<le> slack"
  by (simp_all add: slack_def SCHED_EPSILON_def)

lemma int128_id: "- (2 ^ 127) \<le> x \<Longrightarrow> x < 2 ^ 127 \<Longrightarrow> int128 x = x"
  by (simp add: int128_def)

lemma int64_id: "- (2 ^ 63) \<le> x \<Longrightarrow> x < 2 ^ 63 \<Longrightarrow> int64 x = x"
  by (simp add: int64_def)

lemma fixed_cmp_near:
  assumes "near a" "near b"
  shows "sched_fixed_cmp a b \<le> 0 \<longleftrightarrow> a < b + slack" "sched_fixed_cmp a b < 0 \<longleftrightarrow> a < b - slack" "sched_fixed_cmp a b > 0 \<longleftrightarrow> a \<ge> b + slack"
proof -
  have d: "\<bar>a - b\<bar> \<le> 2 ^ 117" using assms by (simp add: near_def)
  then have "int128 (a - b) = a - b" by (intro int128_id) auto
  moreover have "int64 ((a - b) div 2 ^ 63) = (a - b) div 2 ^ 63"
    using d by (intro int64_id) (auto simp: div_less_iff_less_mult pos_imp_zdiv_nonneg_iff intro: order_trans)
  ultimately show "sched_fixed_cmp a b \<le> 0 \<longleftrightarrow> a < b + slack" "sched_fixed_cmp a b < 0 \<longleftrightarrow> a < b - slack" "sched_fixed_cmp a b > 0 \<longleftrightarrow> a \<ge> b + slack"
    by (auto simp: sched_fixed_cmp_def SCHED_FIXED_FROM_def SCHED_EPSILON_def slack_def Let_def)
qed

section \<open>The search\<close>

definition lower :: "(thread \<Rightarrow> sched_client) \<Rightarrow> tr \<Rightarrow> vclock \<Rightarrow> vclock" where
  "lower d t m =
     (case rt t of
        None \<Rightarrow> m
      | Some y \<Rightarrow> if sched_fixed_cmp (vminEligible (d y)) m < 0 then vminEligible (d y) else m)"

fun tree_fresh :: "(thread \<Rightarrow> sched_client) \<Rightarrow> tr \<Rightarrow> bool" where
  "tree_fresh d Lf \<longleftrightarrow> True"
| "tree_fresh d (Nd c l x r) \<longleftrightarrow>
     vminEligible (d x) = lower d r (lower d l (veligible (d x))) \<and> tree_fresh d l \<and> tree_fresh d r"

fun search :: "vclock \<Rightarrow> (thread \<Rightarrow> sched_client) \<Rightarrow> tr \<Rightarrow> thread option" where
  "search now d Lf = None"
| "search now d (Nd c l x r) =
     (if (case rt l of None \<Rightarrow> False | Some y \<Rightarrow> sched_fixed_cmp (vminEligible (d y)) now \<le> 0) then search now d l
      else if sched_fixed_cmp (veligible (d x)) now \<le> 0 then Some x
      else search now d r)"

primrec height :: "tr \<Rightarrow> nat" where
  "height Lf = 0"
| "height (Nd c l x r) = Suc (max (height l) (height r))"

lemma min_eligible_lower: "rb_children (h x) dir = rt t \<Longrightarrow> min_eligible h x d dir m = lower d t m"
  by (simp add: min_eligible_def lower_def)

lemma tree_fresh_below:
  assumes "repr (sy_nodes s) p t" and "\<And>x. x \<in> set (ino t) \<Longrightarrow> fresh_at (queue_of i s) x"
  shows "tree_fresh (sy_clients s) t"
  using assms
proof (induction t arbitrary: p)
  case (Nd c l x r)
  have "fresh_at (queue_of i s) x" using Nd.prems(2) by simp
  then have "vminEligible (sy_clients s x) = lower (sy_clients s) r (lower (sy_clients s) l (veligible (sy_clients s x)))"
    using Nd.prems(1) by (simp add: queue_fresh_at vmin_of_def min_eligible_lower)
  then show ?case using Nd.prems Nd.IH(1) [of "Some x"] Nd.IH(2) [of "Some x"] by simp
qed simp

lemma queue_tree_fresh: "queue_ok s i T \<Longrightarrow> tree_fresh (sy_clients s) T"
proof -
  assume "queue_ok s i T"
  then have rep: "rb_rep (queue_of i s) T" and fresh: "sfresh (queue_of i s)" by (simp_all add: queue_ok_def)
  show ?thesis
    by (rule tree_fresh_below [of s None _ i]) (use rep fresh tnodes_rep [OF rep] in \<open>simp_all add: rb_rep_def sfresh_def\<close>)
qed

lemma eligible_loop_search:
  assumes "repr (rb_nodes q) p t"
  shows "eligible_loop now q (rt t) = Some (search now (rb_data q) t)"
  using assms
proof (induction t arbitrary: p)
  case Lf
  then show ?case by (simp add: eligible_loop.simps [of now q None])
next
  case (Nd c l x r)
  then have l: "eligible_loop now q (rt l) = Some (search now (rb_data q) l)" "chi q x RBNODE_LEFT = rt l"
    and r: "eligible_loop now q (rt r) = Some (search now (rb_data q) r)" "chi q x RBNODE_RIGHT = rt r" by auto
  show ?case using l r by (cases "rt l") (simp_all add: eligible_loop.simps [of now q "Some x"])
qed

lemma search_root: "rt t = Some x \<Longrightarrow> tree_fresh d t \<Longrightarrow> \<exists>y \<in> set (ino t). vminEligible (d x) = veligible (d y)"
proof (induction t arbitrary: x)
  case (Nd c l x r)
  have "\<exists>y \<in> set (ino (Nd c l x r)). lower d l (veligible (d x)) = veligible (d y)"
    using Nd.IH(1) Nd.prems by (auto simp: lower_def split: option.splits)
  moreover have "\<exists>y \<in> set (ino r). vminEligible (d z) = veligible (d y)" if "rt r = Some z" for z
    using Nd.IH(2) Nd.prems that by auto
  ultimately show ?case using Nd.prems by (auto simp: lower_def [of d r] split: option.splits)
qed simp

lemma search_found:
  assumes "tree_fresh d t" "rt t = Some x" "sched_fixed_cmp (vminEligible (d x)) now \<le> 0"
  shows "search now d t \<noteq> None"
  using assms
proof (induction t arbitrary: x)
  case (Nd c l x r)
  have eq: "vminEligible (d x) = lower d r (lower d l (veligible (d x)))" using Nd.prems by simp
  show ?case using Nd eq by (auto simp: lower_def split: option.splits if_splits)
qed simp

lemma search_eligible: "search now d t = Some x \<Longrightarrow> x \<in> set (ino t) \<and> sched_fixed_cmp (veligible (d x)) now \<le> 0"
  by (induction t) (auto split: if_splits)

definition near_all :: "(thread \<Rightarrow> sched_client) \<Rightarrow> tr \<Rightarrow> bool" where
  "near_all d t \<longleftrightarrow> (\<forall>x \<in> set (ino t). near (veligible (d x)))"

lemma near_all_simps [simp]:
  "near_all d Lf" "near_all d (Nd c l x r) \<longleftrightarrow> near (veligible (d x)) \<and> near_all d l \<and> near_all d r"
  by (auto simp: near_all_def)

lemma near_vmin: "near_all d t \<Longrightarrow> tree_fresh d t \<Longrightarrow> rt t = Some x \<Longrightarrow> near (vminEligible (d x))"
  using search_root [of t x d] by (auto simp: near_all_def)

lemma lower_le:
  assumes "near_all d t" "tree_fresh d t" "near m"
  shows "lower d t m \<le> m" "rt t = Some y \<Longrightarrow> lower d t m \<le> vminEligible (d y) + slack" "near (lower d t m)"
proof -
  have c: "sched_fixed_cmp (vminEligible (d y)) m < 0 \<longleftrightarrow> vminEligible (d y) < m - slack" if "rt t = Some y" for y
    using fixed_cmp_near(2) near_vmin [OF assms(1,2) that] assms(3) by blast
  show "lower d t m \<le> m"
  proof (cases "rt t")
    case (Some y)
    then show ?thesis using c [OF Some] slack_pos(1) by (simp add: lower_def del: slack_pos)
  qed (simp add: lower_def)
  show "lower d t m \<le> vminEligible (d y) + slack" if "rt t = Some y" using c [OF that] slack_pos that by (auto simp: lower_def)
  show "near (lower d t m)" using near_vmin [OF assms(1,2)] assms(3) by (auto simp: lower_def split: option.splits)
qed

lemma vmin_bound:
  assumes "near_all d t" "tree_fresh d t" "rt t = Some x" "y \<in> set (ino t)"
  shows "vminEligible (d x) + slack \<le> veligible (d y) + int (height t) * slack"
  using assms
proof (induction t arbitrary: x)
  case (Nd c l z r)
  let ?m = "lower d l (veligible (d z))"
  have zx: "x = z" and eq: "vminEligible (d z) = lower d r ?m" using Nd.prems by auto
  have n: "near_all d l" "tree_fresh d l" "near_all d r" "tree_fresh d r" "near (veligible (d z))" using Nd.prems by auto
  note L = lower_le [OF n(1,2,5)] and R = lower_le [OF n(3,4) lower_le(3) [OF n(1,2,5)]]
  have h: "int (height l) * slack \<le> int (max (height l) (height r)) * slack" "int (height r) * slack \<le> int (max (height l) (height r)) * slack"
    by (intro mult_right_mono; simp)+
  have Suc: "int (height (Nd c l z r)) * slack = slack + int (max (height l) (height r)) * slack" by (simp add: algebra_simps)
  consider "y = z" | "y \<in> set (ino l)" | "y \<in> set (ino r)" using Nd.prems by auto
  then show ?case
  proof cases
    case 1
    have "0 \<le> int (max (height l) (height r)) * slack" by simp
    then show ?thesis unfolding 1 zx using L(1) R(1) eq Suc by linarith
  next
    case 2
    then obtain u where u: "rt l = Some u" by (cases l) auto
    show ?thesis using Nd.IH(1) [OF n(1,2) u 2] L(2) [OF u] R(1) eq h(1) Suc unfolding zx by linarith
  next
    case 3
    then obtain u where u: "rt r = Some u" by (cases r) auto
    show ?thesis using Nd.IH(2) [OF n(3,4) u 3] R(2) [OF u] eq h(2) Suc unfolding zx by linarith
  qed
qed simp

text \<open>What a walk passes over is not eligible, by a margin that grows with the height of what it does not enter.\<close>

definition passed :: "vclock \<Rightarrow> tr \<Rightarrow> vclock \<Rightarrow> bool" where
  "passed now t v \<longleftrightarrow> now + 2 * slack \<le> v + int (max 1 (height t - 1)) * slack"

lemma passed_mono: "passed now t v \<Longrightarrow> height t \<le> height t' \<Longrightarrow> passed now t' v"
proof -
  assume "passed now t v" "height t \<le> height t'"
  moreover from this have "int (max 1 (height t - 1)) * slack \<le> int (max 1 (height t' - 1)) * slack"
    by (intro mult_right_mono) auto
  ultimately show ?thesis unfolding passed_def by linarith
qed

lemma passed_left:
  assumes n: "near_all d l" "tree_fresh d l" "near now" and y: "y \<in> set (ino l)"
    and skip: "\<And>u. rt l = Some u \<Longrightarrow> \<not> sched_fixed_cmp (vminEligible (d u)) now \<le> 0"
  shows "passed now (Nd c l z r) (veligible (d y))"
proof -
  from y obtain u where u: "rt l = Some u" by (cases l) auto
  then have "vminEligible (d u) \<ge> now + slack"
    using skip [OF u] fixed_cmp_near(1) [OF near_vmin [OF n(1,2) u] n(3)] by auto
  moreover have "int (height l) * slack \<le> int (max 1 (height (Nd c l z r) - 1)) * slack" by (intro mult_right_mono) auto
  ultimately show ?thesis using vmin_bound [OF n(1,2) u y] unfolding passed_def by linarith
qed

lemma passed_node:
  assumes "near v" "near now" "\<not> sched_fixed_cmp v now \<le> 0"
  shows "passed now t v"
proof -
  have "v \<ge> now + slack" using assms fixed_cmp_near(1) by auto
  moreover have "1 * slack \<le> int (max 1 (height t - 1)) * slack" by (intro mult_right_mono) auto
  ultimately show ?thesis unfolding passed_def by linarith
qed

lemma search_skipped:
  assumes "near_all d t" "tree_fresh d t" "near now" "search now d t = Some x"
  obtains xs ys where "ino t = xs @ x # ys" "\<forall>y \<in> set xs. passed now t (veligible (d y))"
  using assms
proof (induction t arbitrary: thesis)
  case (Nd c l z r)
  have n: "near_all d l" "tree_fresh d l" "near_all d r" "tree_fresh d r" "near (veligible (d z))" using Nd.prems by auto
  have h: "height l \<le> height (Nd c l z r)" "height r \<le> height (Nd c l z r)" by simp_all
  show ?case
  proof (cases "\<exists>y. rt l = Some y \<and> sched_fixed_cmp (vminEligible (d y)) now \<le> 0")
    case True
    then have "search now d l = Some x" using Nd.prems by auto
    from Nd.IH(1) [OF _ n(1,2) Nd.prems(4) this] obtain xs ys where
      xs: "ino l = xs @ x # ys" "\<forall>y \<in> set xs. passed now l (veligible (d y))" by blast
    show ?thesis by (rule Nd.prems(1) [of xs "ys @ z # ino r"]) (use xs passed_mono [OF _ h(1)] in auto)
  next
    case False
    then have left: "passed now (Nd c l z r) (veligible (d y))" if "y \<in> set (ino l)" for y
      using passed_left [OF n(1,2) Nd.prems(4) that] by blast
    show ?thesis
    proof (cases "sched_fixed_cmp (veligible (d z)) now \<le> 0")
      case True
      then have "x = z" using Nd.prems False by (auto split: option.splits if_splits)
      then show ?thesis by (intro Nd.prems(1) [of "ino l" "ino r"]) (use left in auto)
    next
      case gt: False
      then have "search now d r = Some x" using Nd.prems False by (auto split: option.splits if_splits)
      from Nd.IH(2) [OF _ n(3,4) Nd.prems(4) this] obtain xs ys where
        xs: "ino r = xs @ x # ys" "\<forall>y \<in> set xs. passed now r (veligible (d y))" by blast
      then show ?thesis
        by (intro Nd.prems(1) [of "ino l @ z # xs" ys])
          (use left passed_node [OF n(5) Nd.prems(4) gt] passed_mono [OF _ h(2)] in auto)
    qed
  qed
qed simp

lemma search_none:
  assumes "near_all d t" "tree_fresh d t" "near now" "search now d t = None" "y \<in> set (ino t)"
  shows "passed now t (veligible (d y))"
  using assms
proof (induction t)
  case (Nd c l z r)
  have n: "near_all d l" "tree_fresh d l" "near_all d r" "tree_fresh d r" "near (veligible (d z))" using Nd.prems by auto
  have skip: "\<not> sched_fixed_cmp (vminEligible (d u)) now \<le> 0" if "rt l = Some u" for u
    using search_found [OF n(2) that, of now] Nd.prems(4) that by auto
  then have rest: "\<not> sched_fixed_cmp (veligible (d z)) now \<le> 0" "search now d r = None"
    using Nd.prems(4) by (auto split: option.splits if_splits)
  have "height r \<le> height (Nd c l z r)" by simp
  then show ?case
    using passed_left [OF n(1,2) Nd.prems(3) _ skip] passed_node [OF n(5) Nd.prems(3) rest(1)]
      passed_mono [OF Nd.IH(2) [OF n(3,4) Nd.prems(3) rest(2)]] Nd.prems(5) by auto
qed simp

lemma search_root_passed: "search now d t = None \<Longrightarrow> rt t = Some x \<Longrightarrow> tree_fresh d t \<Longrightarrow> \<not> sched_fixed_cmp (veligible (d x)) now \<le> 0"
proof (cases t)
  case (Nd c l z r)
  assume none: "search now d t = None" and x: "rt t = Some x" "tree_fresh d t"
  have "\<not> sched_fixed_cmp (vminEligible (d u)) now \<le> 0" if "rt l = Some u" for u
    using search_found [of d l u now] that none x Nd by auto
  then show ?thesis using none x Nd by (auto split: option.splits if_splits)
qed simp

section \<open>The height of the run queue\<close>

lemma bal_size: "bal n t \<Longrightarrow> 2 ^ n \<le> length (ino t) + 1"
proof (induction n t rule: bal.induct)
  case (3 n l x r)
  then have "2 ^ (n - 1) \<le> length (ino l) + 1" "2 ^ (n - 1) \<le> length (ino r) + 1" "0 < n" by auto
  then show ?case by (cases n) auto
qed auto

lemma bal_height: "bal n t \<Longrightarrow> nrr t \<Longrightarrow> height t \<le> 2 * n + (if black t then 0 else 1)"
proof (induction n t rule: bal.induct)
  case (3 n l x r)
  then have "height l \<le> 2 * (n - 1) + 1" "height r \<le> 2 * (n - 1) + 1" "0 < n" by (fastforce split: if_splits)+
  then show ?case by auto
qed auto

lemma rbt_height: "rbt t \<Longrightarrow> 2 ^ (height t div 2) \<le> length (ino t) + 1"
proof -
  assume "rbt t"
  then obtain n where n: "bal n t" "nrr t" "black t" by (auto simp: rbt_def)
  then have "height t div 2 \<le> n" using bal_height [OF n(1,2)] by simp
  then have "(2::nat) ^ (height t div 2) \<le> 2 ^ n" by (intro power_increasing) auto
  then show ?thesis using bal_size [OF n(1)] by linarith
qed

end
