(* ===== verification/Sched_Next.thy ===== *)
theory Sched_Next
  imports Sched_Select
begin

text \<open>
  The next thread of a CPU, stolen from another CPU when the own run queue is empty.
\<close>

section \<open>What every operation leaves alone\<close>

definition steady :: "'z sys_scheme \<Rightarrow> 'z sys_scheme \<Rightarrow> bool" where
  "steady s s' \<longleftrightarrow>
     sy_priority s' = sy_priority s \<and> sy_log s' = sy_log s \<and> sys.more s' = sys.more s \<and> length (sy_scheds s') = length (sy_scheds s) \<and>
     (\<forall>j. runThread (sched_of j s') = runThread (sched_of j s) \<and> idleThread (sched_of j s') = idleThread (sched_of j s) \<and>
        preemptCount (sched_of j s') = preemptCount (sched_of j s)) \<and>
     (\<forall>x. stop (sy_clients s' x) = stop (sy_clients s x) \<and> lastCpu (sy_clients s' x) = lastCpu (sy_clients s x))"

lemma steady_refl [simp]: "steady s s"
  by (simp add: steady_def)

lemma steady_trans: "steady s s' \<Longrightarrow> steady s' s'' \<Longrightarrow> steady s s''"
  by (simp add: steady_def)

lemma steady_queue: "length (sy_scheds s') = length (sy_scheds s) \<Longrightarrow> \<forall>j. j \<noteq> i \<longrightarrow> sched_of j s' = sched_of j s \<Longrightarrow>
    runThread (sched_of i s') = runThread (sched_of i s) \<Longrightarrow> idleThread (sched_of i s') = idleThread (sched_of i s) \<Longrightarrow>
    preemptCount (sched_of i s') = preemptCount (sched_of i s) \<Longrightarrow>
    sy_priority s' = sy_priority s \<Longrightarrow> sy_log s' = sy_log s \<Longrightarrow> sys.more s' = sys.more s \<Longrightarrow>
    \<forall>x. stop (sy_clients s' x) = stop (sy_clients s x) \<and> lastCpu (sy_clients s' x) = lastCpu (sy_clients s x) \<Longrightarrow> steady s s'"
  unfolding steady_def by metis

text \<open>Membership in the run queues after one of them changed.\<close>

lemma queued_update: "i < length Ts \<Longrightarrow> t \<in> queued (Ts[i := T]) \<longleftrightarrow> t \<in> set (ino T) \<or> (\<exists>j < length Ts. j \<noteq> i \<and> t \<in> set (ino (Ts ! j)))"
  by (auto simp: queued_nth nth_list_update split: if_splits)

lemma leave_steady:
  assumes ok: "sys_ok s Ts" and i: "i < length Ts" and t: "t \<in> set (ino (Ts ! i))"
  obtains s' T' where "sched_leave i t uptime s = Some s'" "sys_ok s' (Ts[i := T'])" "ino T' = remove1 t (ino (Ts ! i))"
    "queued (Ts[i := T']) = queued Ts - {t}" "set (ino T') = set (ino (Ts ! i)) - {t}" "steady s s'" "sy_state s' = sy_state s"
proof -
  obtain s' T' where s': "sched_leave i t uptime s = Some s'" "sys_ok s' (Ts[i := T'])" "ino T' = remove1 t (ino (Ts ! i))"
    "sy_state s' = sy_state s" "sy_priority s' = sy_priority s" "sy_log s' = sy_log s" "sys.more s' = sys.more s"
    "\<forall>j. j \<noteq> i \<longrightarrow> sched_of j s' = sched_of j s" "length (sy_scheds s') = length (sy_scheds s)"
    "runThread (sched_of i s') = runThread (sched_of i s)" "idleThread (sched_of i s') = idleThread (sched_of i s)"
    "preemptCount (sched_of i s') = preemptCount (sched_of i s)"
    "\<forall>x. sy_clients s' x = (sy_clients s x)\<lparr>vminEligible := vminEligible (sy_clients s' x)\<rparr>"
    by (rule leave_result [OF ok i t]) blast
  have "stop (sy_clients s' x) = stop (sy_clients s x) \<and> lastCpu (sy_clients s' x) = lastCpu (sy_clients s x)" for x
    by (subst (1 2) s'(13) [rule_format]) simp
  then have st: "steady s s'" using s' by (intro steady_queue [of s' s i]) simp_all
  have dis: "distinct (ino (Ts ! i))" using sys_okD(4) [OF ok i] by (simp add: rb_rep_def)
  then have T': "set (ino T') = set (ino (Ts ! i)) - {t}" using s'(3) by simp
  have "queued (Ts[i := T']) = queued Ts - {t}"
  proof (intro set_eqI)
    fix x
    show "x \<in> queued (Ts[i := T']) \<longleftrightarrow> x \<in> queued Ts - {t}"
      unfolding queued_update [OF i] using sys_okD(5) [OF ok i] i t by (auto simp: queued_nth T')
  qed
  then show thesis using that s'(1-4) T' st by blast
qed

lemma enter_steady:
  assumes ok: "sys_ok s Ts" and i: "i < length Ts" and run: "totalWeight (sched_of i s) \<noteq> 0 \<Longrightarrow> run_ok s i (Ts ! i)"
    and t: "t \<notin> queued Ts" "\<And>j. j < length Ts \<Longrightarrow> t \<noteq> idleThread (sched_of j s)"
  obtains s' T' where "sched_enter i t uptime s = Some s'" "sys_ok s' (Ts[i := T'])" "set (ino T') = insert t (set (ino (Ts ! i)))"
    "queued (Ts[i := T']) = insert t (queued Ts)" "steady s s'" "sy_state s' = (sy_state s)(t := THREAD_ACTIVE)"
proof -
  obtain s' T' where s': "sched_enter i t uptime s = Some s'" "sys_ok s' (Ts[i := T'])" "mset (ino T') = add_mset t (mset (ino (Ts ! i)))"
    "sy_state s' = (sy_state s)(t := THREAD_ACTIVE)" "sy_priority s' = sy_priority s" "sy_log s' = sy_log s" "sys.more s' = sys.more s"
    "\<forall>j. j \<noteq> i \<longrightarrow> sched_of j s' = sched_of j s" "length (sy_scheds s') = length (sy_scheds s)"
    "runThread (sched_of i s') = runThread (sched_of i s)" "idleThread (sched_of i s') = idleThread (sched_of i s)"
    "preemptCount (sched_of i s') = preemptCount (sched_of i s)"
    "\<forall>x. stop (sy_clients s' x) = stop (sy_clients s x) \<and> lastCpu (sy_clients s' x) = lastCpu (sy_clients s x)"
    by (rule enter_result [OF ok i run t]) blast
  have st: "steady s s'" using s' by (intro steady_queue [of s' s i]) simp_all
  have T': "set (ino T') = insert t (set (ino (Ts ! i)))" using s'(3) by (metis set_mset_add_mset_insert set_mset_mset)
  have "queued (Ts[i := T']) = insert t (queued Ts)"
    unfolding set_eq_iff queued_update [OF i] using i by (auto simp: queued_nth T')
  then show thesis using that s'(1,2,4) T' st by blast
qed

section \<open>Stealing\<close>

lemma most_loaded_cases:
  "fst (most_loaded_loop self s cpus (m, k)) = m \<or> (\<exists>c \<in> set cpus. c \<noteq> self \<and> fst (most_loaded_loop self s cpus (m, k)) = Some c)"
  by (induction cpus arbitrary: m k) (auto simp: Let_def split: if_splits)

lemma steal_loop_find:
  "rb_rep (queue_of i s) T \<Longrightarrow> ino T = xs @ ys \<Longrightarrow>
     steal_loop i uptime s (hd_opt ys) = Some (find (\<lambda>t. \<not> (t = runThread (sched_of i s) \<or> sched_is_cache_hot t uptime s)) ys)"
proof (induction ys arbitrary: xs)
  case (Cons y ys)
  have "rbtree_next (Some y) (queue_of i s) = Some (hd_opt ys)" using neighbours_order(1) Cons.prems by blast
  then show ?case using Cons.IH [of "xs @ [y]"] Cons.prems by (simp add: steal_loop.simps [of i uptime s "Some y"] hd_opt_def)
qed (simp add: steal_loop.simps hd_opt_def)

lemma steal_result:
  assumes ok: "sys_ok s Ts" and i: "i < length Ts"
  obtains (none) "sched_steal i uptime s = Some (None, s)"
  | (some) t s' m T' where "sched_steal i uptime s = Some (Some t, s')" "m < length Ts" "m \<noteq> i" "t \<in> set (ino (Ts ! m))"
      "t \<noteq> runThread (sched_of m s)" "\<not> sched_is_cache_hot t uptime s"
      "sys_ok s' (Ts[m := T'])" "set (ino T') = set (ino (Ts ! m)) - {t}" "queued (Ts[m := T']) = queued Ts - {t}" "steady s s'" "sy_state s' = sy_state s"
proof (cases "fst (most_loaded_loop i s [0..<length (sy_scheds s)] (None, 0))")
  case None
  then show thesis using none by (simp add: sched_steal_def)
next
  case (Some m)
  then have m: "m < length Ts" "m \<noteq> i" using most_loaded_cases [of i s "[0..<length (sy_scheds s)]" None 0] sys_okD(1) [OF ok] by auto
  have rep: "rb_rep (queue_of m s) (Ts ! m)" by (rule sys_okD(4) [OF ok m(1)])
  let ?P = "\<lambda>t. \<not> (t = runThread (sched_of m s) \<or> sched_is_cache_hot t uptime s)"
  have first: "rbtree_find_min (runqueue (sched_of m s)) (queue_of m s) = Some (hd_opt (ino (Ts ! m)))"
    using find_min_correct [of "queue_of m s" None "Ts ! m"] rep by (simp add: rb_rep_def)
  have loop: "steal_loop m uptime s (hd_opt (ino (Ts ! m))) = Some (find ?P (ino (Ts ! m)))"
    using steal_loop_find [OF rep, of "[]"] by simp
  show thesis
  proof (cases "find ?P (ino (Ts ! m))")
    case None
    then show thesis using Some first loop none by (simp add: sched_steal_def)
  next
    case found: (Some t)
    then have t: "t \<in> set (ino (Ts ! m))" "?P t" by (auto simp: find_Some_iff)
    obtain s' T' where s': "sched_leave m t uptime s = Some s'" "sys_ok s' (Ts[m := T'])"
      "queued (Ts[m := T']) = queued Ts - {t}" "set (ino T') = set (ino (Ts ! m)) - {t}" "steady s s'" "sy_state s' = sy_state s"
      by (rule leave_steady [OF ok m(1) t(1)])
    have "sched_steal i uptime s = Some (Some t, s')" using Some first loop found s'(1) by (simp add: sched_steal_def)
    then show thesis using some m t s' by blast
  qed
qed

section \<open>The first eligible thread\<close>

lemma queue_empty_iff: "rb_rep q T \<Longrightarrow> rbtree_is_empty q \<longleftrightarrow> T = Lf"
  by (cases T) (auto simp: rbtree_is_empty_def rb_rep_def)

text \<open>What \<^verbatim>\<open>sched_first_eligible\<close> promises to \<^verbatim>\<open>sched_do\<close>.\<close>

definition chooses :: "cpu \<Rightarrow> 'z sys_scheme \<Rightarrow> tr list \<Rightarrow> thread \<Rightarrow> 'z sys_scheme \<Rightarrow> tr list \<Rightarrow> bool" where
  "chooses i s Ts t s' Ts' \<longleftrightarrow>
     sys_ok s' Ts' \<and> length Ts' = length Ts \<and> queued Ts' = queued Ts \<and> steady s s' \<and>
     (if Ts ! i \<noteq> Lf then t \<in> set (ino (Ts ! i)) \<and> s' = s \<and> Ts' = Ts
      else if t = idleThread (sched_of i s) then s' = s \<and> Ts' = Ts
      else set (ino (Ts' ! i)) = {t} \<and> sy_state s' = (sy_state s)(t := THREAD_ACTIVE) \<and>
        (\<exists>m < length Ts. m \<noteq> i \<and> t \<in> set (ino (Ts ! m)) \<and> t \<noteq> runThread (sched_of m s) \<and>
           (\<forall>j < length Ts. j \<noteq> i \<longrightarrow> set (ino (Ts' ! j)) = set (ino (Ts ! j)) - {t})))"

lemma first_eligible_result:
  assumes ok: "sys_ok s Ts" and i: "i < length Ts"
    and found: "\<not> ndebug \<Longrightarrow> Ts ! i \<noteq> Lf \<Longrightarrow> search (vtime (sched_of i s)) (sy_clients s) (Ts ! i) \<noteq> None"
  obtains t s' Ts' where "sched_first_eligible ndebug i stealTime enterTime s = Some (t, s')" "chooses i s Ts t s' Ts'"
    "\<And>x. search (vtime (sched_of i s)) (sy_clients s) (Ts ! i) = Some x \<Longrightarrow> t = x"
proof -
  have rep: "rb_rep (queue_of i s) (Ts ! i)" by (rule sys_okD(4) [OF ok i])
  let ?find = "search (vtime (sched_of i s)) (sy_clients s) (Ts ! i)"
  have root: "runqueue (sched_of i s) = rt (Ts ! i)" using rep by (simp add: rb_rep_def)
  have loop: "eligible_loop (vtime (sched_of i s)) (queue_of i s) (runqueue (sched_of i s)) = Some ?find"
    using eligible_loop_search [of "queue_of i s" None "Ts ! i"] rep by (simp add: rb_rep_def)
  show thesis
  proof (cases "Ts ! i = Lf")
    case False
    have first: "rbtree_find_min (runqueue (sched_of i s)) (queue_of i s) = Some (hd_opt (ino (Ts ! i)))"
      using find_min_correct [of "queue_of i s" None "Ts ! i"] rep by (simp add: rb_rep_def)
    obtain y ys where y: "ino (Ts ! i) = y # ys" using False by (cases "ino (Ts ! i)") (auto simp: ino_Nil)
    let ?t = "case ?find of Some t \<Rightarrow> t | None \<Rightarrow> y"
    have "sched_first_eligible ndebug i stealTime enterTime s = Some (?t, s)"
      using found False loop first y queue_empty_iff [OF rep]
      by (cases ?find; cases ndebug) (simp_all add: sched_first_eligible_def hd_opt_def)
    moreover have "?t \<in> set (ino (Ts ! i))" using search_eligible [of _ _ "Ts ! i"] y by (auto split: option.splits)
    ultimately show thesis using that [of ?t s Ts] ok False by (simp add: chooses_def)
  next
    case True
    note goal = that
    have idle: thesis if "sched_first_eligible ndebug i stealTime enterTime s = Some (idleThread (sched_of i s), s)"
      by (rule goal [OF that, of Ts]) (use True ok in \<open>simp_all add: chooses_def\<close>)
    have none: "?find = None" using True by simp
    have empty: "rbtree_is_empty (queue_of i s)" using queue_empty_iff [OF rep] True by simp
    show thesis
    proof (cases rule: steal_result [OF ok i, of stealTime])
      case 1
      then show thesis using idle none empty loop by (simp add: sched_first_eligible_def)
    next
      case (2 t s1 m T1)
      let ?Ts = "Ts[m := T1]"
      have Ti: "?Ts ! i = Lf" using True 2(3) by simp
      have w: "totalWeight (sched_of i s1) = 0"
        using sys_okD(2) [OF 2(7), of i] i Ti by (simp add: sched_ok_def weights_def int64_def)
      have t: "t \<notin> queued ?Ts" using 2(9) by simp
      have ti: "t \<noteq> idleThread (sched_of j s1)" if "j < length ?Ts" for j
        using sys_okD(6) [OF ok, of j m] 2(2,4,10) that by (auto simp: steady_def)
      obtain s' T' where s': "sched_enter i t enterTime s1 = Some s'" "sys_ok s' (?Ts[i := T'])" "set (ino T') = insert t (set (ino (?Ts ! i)))"
        "queued (?Ts[i := T']) = insert t (queued ?Ts)" "steady s1 s'" "sy_state s' = (sy_state s1)(t := THREAD_ACTIVE)"
        by (rule enter_steady [OF 2(7) _ _ t ti, of i enterTime]) (use i w in simp_all)
      have "t \<in> queued Ts" using 2(2,4) by (auto simp: queued_nth)
      then have q: "queued (?Ts[i := T']) = queued Ts" using s'(4) 2(9) by auto
      have other: "set (ino (?Ts[i := T'] ! j)) = set (ino (Ts ! j)) - {t}" if "j < length Ts" "j \<noteq> i" for j
        using that 2(8) sys_okD(5) [OF ok 2(2) that(1)] 2(4) by (cases "j = m") auto
      have ne: "t \<noteq> idleThread (sched_of i s)" using ti [of i] 2(10) i by (simp add: steady_def)
      have "chooses i s Ts t s' (?Ts[i := T'])"
        unfolding chooses_def using s' q other True ne 2 i Ti steady_trans [OF 2(10) s'(5)] by auto
      moreover have "sched_first_eligible ndebug i stealTime enterTime s = Some (t, s')"
        using none empty loop 2(1) s'(1) by (simp add: sched_first_eligible_def)
      ultimately show thesis using goal none by simp
    qed
  qed
qed

end
