(* ===== verification/Wait_Spec.thy ===== *)
theory Wait_Spec
  imports Wait Sched_Next
begin

text \<open>
  The invariant of the scheduler and the wait queues together, and that the steps of blocking and unblocking one
  thread keep it.
\<close>

section \<open>The two parts of the state\<close>

lemma kernel_more:
  assumes "sys.more s' = sys.more s"
  shows "ke_wait s' = ke_wait s" "ke_entry s' = ke_entry s" "ke_queues s' = ke_queues s" "ke_blocked s' = ke_blocked s"
    "ke_notes s' = ke_notes s" "ke_times s' = ke_times s" "ke_reads s' = ke_reads s" "kernel.more s' = kernel.more s"
  using assms by (cases s; cases s'; simp)+

lemma kernel_simps [simp]:
  "sy_nodes (set_wait t f s) = sy_nodes s" "sy_clients (set_wait t f s) = sy_clients s" "sy_scheds (set_wait t f s) = sy_scheds s"
  "sy_state (set_wait t f s) = sy_state s" "sy_log (set_wait t f s) = sy_log s" "sy_priority (set_wait t f s) = sy_priority s"
  "sy_nodes (queue_remove q e s) = sy_nodes s" "sy_clients (queue_remove q e s) = sy_clients s" "sy_scheds (queue_remove q e s) = sy_scheds s"
  "sy_state (queue_remove q e s) = sy_state s" "sy_log (queue_remove q e s) = sy_log s" "sy_priority (queue_remove q e s) = sy_priority s"
  "sy_nodes (queue_push q e s) = sy_nodes s" "sy_clients (queue_push q e s) = sy_clients s" "sy_scheds (queue_push q e s) = sy_scheds s"
  "sy_state (queue_push q e s) = sy_state s" "sy_log (queue_push q e s) = sy_log s" "sy_priority (queue_push q e s) = sy_priority s"
  "sy_nodes (blocked_remove c t s) = sy_nodes s" "sy_clients (blocked_remove c t s) = sy_clients s" "sy_scheds (blocked_remove c t s) = sy_scheds s"
  "sy_state (blocked_remove c t s) = sy_state s" "sy_log (blocked_remove c t s) = sy_log s" "sy_priority (blocked_remove c t s) = sy_priority s"
  "sy_nodes (entry_free e s) = sy_nodes s" "sy_clients (entry_free e s) = sy_clients s" "sy_scheds (entry_free e s) = sy_scheds s"
  "sy_state (entry_free e s) = sy_state s" "sy_log (entry_free e s) = sy_log s" "sy_priority (entry_free e s) = sy_priority s"
  by (simp_all add: set_wait_def queue_remove_def queue_push_def blocked_remove_def entry_free_def)

lemma emit_simps [simp]:
  "sy_nodes (emit x s) = sy_nodes s" "sy_clients (emit x s) = sy_clients s" "sy_scheds (emit x s) = sy_scheds s"
  "sy_state (emit x s) = sy_state s" "sy_priority (emit x s) = sy_priority s" "sys.more (emit x s) = sys.more s"
  by (simp_all add: emit_def)

lemma wait_simps [simp]:
  "ke_wait (set_wait t f s) = (ke_wait s)(t := f (ke_wait s t))" "ke_entry (set_wait t f s) = ke_entry s"
  "ke_queues (set_wait t f s) = ke_queues s" "ke_blocked (set_wait t f s) = ke_blocked s" "ke_notes (set_wait t f s) = ke_notes s"
  "ke_wait (queue_remove q e s) = ke_wait s" "ke_entry (queue_remove q e s) = ke_entry s"
  "ke_queues (queue_remove q e s) = (ke_queues s)(q := remove1 e (ke_queues s q))" "ke_blocked (queue_remove q e s) = ke_blocked s"
  "ke_notes (queue_remove q e s) = ke_notes s"
  "ke_wait (queue_push q e s) = ke_wait s" "ke_entry (queue_push q e s) = ke_entry s"
  "ke_queues (queue_push q e s) = (ke_queues s)(q := ke_queues s q @ [e])" "ke_blocked (queue_push q e s) = ke_blocked s"
  "ke_notes (queue_push q e s) = ke_notes s"
  "ke_wait (blocked_remove c t s) = ke_wait s" "ke_entry (blocked_remove c t s) = ke_entry s" "ke_queues (blocked_remove c t s) = ke_queues s"
  "ke_blocked (blocked_remove c t s) = (ke_blocked s)(c := remove1 t (ke_blocked s c))" "ke_notes (blocked_remove c t s) = ke_notes s"
  "ke_wait (entry_free e s) = ke_wait s" "ke_entry (entry_free e s) = (ke_entry s)(e := None)" "ke_queues (entry_free e s) = ke_queues s"
  "ke_blocked (entry_free e s) = ke_blocked s" "ke_notes (entry_free e s) = ke_notes s"
  "ke_wait (set_state t k s) = ke_wait s" "ke_entry (set_state t k s) = ke_entry s" "ke_queues (set_state t k s) = ke_queues s"
  "ke_blocked (set_state t k s) = ke_blocked s" "ke_notes (set_state t k s) = ke_notes s"
  by (simp_all add: set_wait_def queue_remove_def queue_push_def blocked_remove_def entry_free_def set_state_def)

lemma emit_wait [simp]:
  "ke_wait (emit x s) = ke_wait s" "ke_entry (emit x s) = ke_entry s" "ke_queues (emit x s) = ke_queues s" "ke_blocked (emit x s) = ke_blocked s"
  "ke_notes (emit x s) = ke_notes s" "ke_times (emit x s) = ke_times s" "ke_reads (emit x s) = ke_reads s"
  by (simp_all add: emit_def)

lemma clock_simps [simp]:
  "ke_times (set_wait t f s) = ke_times s" "ke_reads (set_wait t f s) = ke_reads s" "ke_times (queue_remove q e s) = ke_times s"
  "ke_reads (queue_remove q e s) = ke_reads s" "ke_times (queue_push q e s) = ke_times s" "ke_reads (queue_push q e s) = ke_reads s"
  "ke_times (blocked_remove c t s) = ke_times s" "ke_reads (blocked_remove c t s) = ke_reads s" "ke_times (entry_free e s) = ke_times s"
  "ke_reads (entry_free e s) = ke_reads s" "ke_times (set_state t k s) = ke_times s" "ke_reads (set_state t k s) = ke_reads s"
  by (simp_all add: set_wait_def queue_remove_def queue_push_def blocked_remove_def entry_free_def set_state_def)

lemma rest_simps [simp]:
  "kernel.more (set_wait t f s) = kernel.more s" "kernel.more (queue_remove q e s) = kernel.more s" "kernel.more (queue_push q e s) = kernel.more s"
  "kernel.more (blocked_remove c t s) = kernel.more s" "kernel.more (entry_free e s) = kernel.more s" "kernel.more (set_state t k s) = kernel.more s"
  "kernel.more (emit x s) = kernel.more s"
  by (simp_all add: set_wait_def queue_remove_def queue_push_def blocked_remove_def entry_free_def set_state_def emit_def)

lemma sys_ok_cong: "sy_nodes s' = sy_nodes s \<Longrightarrow> sy_clients s' = sy_clients s \<Longrightarrow> sy_scheds s' = sy_scheds s \<Longrightarrow> sys_ok s' Ts = sys_ok s Ts"
  by (simp add: sys_ok_def sched_ok_def queue_ok_def queue_of_def weights_def)

section \<open>Entries\<close>

text \<open>Every entry of a thread is linked into the queue it names, and every entry of a queue into its thread.\<close>

definition entries_linked :: "'z kernel_scheme \<Rightarrow> bool" where
  "entries_linked s \<longleftrightarrow>
     (\<forall>t. distinct (wc_entries (ke_wait s t)) \<and> (\<forall>e \<in> set (wc_entries (ke_wait s t)).
        \<exists>en. ke_entry s e = Some en \<and> we_thread en = t \<and> e \<in> set (ke_queues s (we_queue en)))) \<and>
     (\<forall>q. distinct (ke_queues s q) \<and> (\<forall>e \<in> set (ke_queues s q).
        \<exists>en. ke_entry s e = Some en \<and> we_queue en = q \<and> e \<in> set (wc_entries (ke_wait s (we_thread en)))))"

lemma linkedD:
  assumes "entries_linked s"
  shows "distinct (wc_entries (ke_wait s t))" "distinct (ke_queues s q)"
    and "e \<in> set (wc_entries (ke_wait s t)) \<Longrightarrow> \<exists>en. ke_entry s e = Some en \<and> we_thread en = t \<and> e \<in> set (ke_queues s (we_queue en))"
    and "e \<in> set (ke_queues s q) \<Longrightarrow> \<exists>en. ke_entry s e = Some en \<and> we_queue en = q \<and> e \<in> set (wc_entries (ke_wait s (we_thread en)))"
  using assms unfolding entries_linked_def by blast+

lemma linked_cong: "(\<And>t. wc_entries (ke_wait s' t) = wc_entries (ke_wait s t)) \<Longrightarrow> ke_entry s' = ke_entry s \<Longrightarrow> ke_queues s' = ke_queues s \<Longrightarrow> entries_linked s' = entries_linked s"
  by (simp add: entries_linked_def)

lemma linked_unlink:
  assumes l: "entries_linked s" and e: "ke_entry s e = Some en" "e \<in> set (wc_entries (ke_wait s (we_thread en)))"
  shows "entries_linked (entry_free e (set_wait (we_thread en) (\<lambda>w. w\<lparr>wc_entries := remove1 e (wc_entries w)\<rparr>) (queue_remove (we_queue en) e s)))"
    (is "entries_linked ?s")
proof -
  note D = linkedD [OF l]
  have t: "set (wc_entries (ke_wait ?s t)) = set (wc_entries (ke_wait s t)) - {e}" for t
  proof (cases "t = we_thread en")
    case True
    then show ?thesis using D(1) [of t] by (simp add: set_remove1_eq)
  next
    case False
    then have "e \<notin> set (wc_entries (ke_wait s t))" using D(3) [of e t] e(1) by auto
    then show ?thesis using False by simp
  qed
  have q: "set (ke_queues ?s q) = set (ke_queues s q) - {e}" for q
  proof (cases "q = we_queue en")
    case True
    then show ?thesis using D(2) [of q] by (simp add: set_remove1_eq)
  next
    case False
    then have "e \<notin> set (ke_queues s q)" using D(4) [of e q] e(1) by auto
    then show ?thesis using False by simp
  qed
  have "distinct (wc_entries (ke_wait ?s t))" "distinct (ke_queues ?s q)" for t q using D(1,2) by (auto simp: distinct_remove1)
  moreover have "\<exists>en. ke_entry ?s x = Some en \<and> we_thread en = t \<and> x \<in> set (ke_queues ?s (we_queue en))"
    if "x \<in> set (wc_entries (ke_wait ?s t))" for t x
    using that D(3) [of x t] unfolding t q by auto
  moreover have "\<exists>en. ke_entry ?s x = Some en \<and> we_queue en = p \<and> x \<in> set (wc_entries (ke_wait ?s (we_thread en)))"
    if "x \<in> set (ke_queues ?s p)" for p x
    using that D(4) [of x p] unfolding t q by auto
  ultimately show ?thesis unfolding entries_linked_def by blast
qed

text \<open>What removing entries of one thread leaves alone.\<close>

definition unlinks :: "thread \<Rightarrow> 'z kernel_scheme \<Rightarrow> 'z kernel_scheme \<Rightarrow> bool" where
  "unlinks t s s' \<longleftrightarrow>
     sy_nodes s' = sy_nodes s \<and> sy_clients s' = sy_clients s \<and> sy_scheds s' = sy_scheds s \<and> sy_state s' = sy_state s \<and>
     sy_log s' = sy_log s \<and> sy_priority s' = sy_priority s \<and> ke_blocked s' = ke_blocked s \<and> ke_notes s' = ke_notes s \<and>
     ke_times s' = ke_times s \<and> ke_reads s' = ke_reads s \<and> kernel.more s' = kernel.more s \<and>
     (\<forall>u. u \<noteq> t \<longrightarrow> ke_wait s' u = ke_wait s u) \<and> wc_deadline (ke_wait s' t) = wc_deadline (ke_wait s t) \<and>
     wc_owner (ke_wait s' t) = wc_owner (ke_wait s t) \<and>
     (\<forall>q. \<forall>e \<in> set (ke_queues s' q). e \<in> set (ke_queues s q) \<and> ke_entry s' e = ke_entry s e) \<and>
     (\<forall>q. \<forall>e \<in> set (ke_queues s q) - set (ke_queues s' q). \<exists>en. ke_entry s e = Some en \<and> we_thread en = t)"

lemma unlinks_trans:
  assumes "unlinks t s s'" "unlinks t s' s''"
  shows "unlinks t s s''"
  using assms unfolding unlinks_def by (metis Diff_iff)

lemma remove_entries_loop:
  assumes "entries_linked s" "wc_entries (ke_wait s t) = es"
  obtains s' where "for_each (remove_wait_entry t) es s = Some s'" "entries_linked s'" "wc_entries (ke_wait s' t) = []"
    "wc_err (ke_wait s' t) = wc_err (ke_wait s t)" "unlinks t s s'"
  using assms
proof (induction es arbitrary: s thesis)
  case Nil
  then show ?case by (simp add: unlinks_def)
next
  case (Cons e es)
  have "e \<in> set (wc_entries (ke_wait s t))" using Cons.prems(3) by simp
  then obtain en where en: "ke_entry s e = Some en" "we_thread en = t" "e \<in> set (ke_queues s (we_queue en))"
    using linkedD(3) [OF Cons.prems(2)] by blast
  let ?s = "entry_free e (set_wait t (\<lambda>w. w\<lparr>wc_entries := remove1 e (wc_entries w)\<rparr>) (queue_remove (we_queue en) e s))"
  have step: "remove_wait_entry t e s = Some ?s" using en by (simp add: remove_wait_entry_def)
  have l: "entries_linked ?s" using linked_unlink [OF Cons.prems(2) en(1)] Cons.prems(3) en(2) by simp
  have es: "wc_entries (ke_wait ?s t) = es" using Cons.prems(3) by simp
  have u: "unlinks t s ?s"
    unfolding unlinks_def
  proof (intro conjI allI ballI)
    fix q x
    assume x: "x \<in> set (ke_queues ?s q)"
    have d: "distinct (ke_queues s q)" by (rule linkedD(2) [OF Cons.prems(2)])
    show "x \<in> set (ke_queues s q)" using x set_remove1_subset [of e "ke_queues s q"] by (auto split: if_splits)
    then obtain em where "ke_entry s x = Some em" "we_queue em = q" using linkedD(4) [OF Cons.prems(2)] by blast
    then have "x \<noteq> e" using x d en by (auto split: if_splits)
    then show "ke_entry ?s x = ke_entry s x" by simp
  next
    fix q x
    assume "x \<in> set (ke_queues s q) - set (ke_queues ?s q)"
    then have "x = e" by (cases "x = e") (auto split: if_splits)
    then show "\<exists>en. ke_entry s x = Some en \<and> we_thread en = t" using en by blast
  qed simp_all
  from Cons.IH [OF _ l es] obtain s' where s': "for_each (remove_wait_entry t) es ?s = Some s'" "entries_linked s'" "wc_entries (ke_wait s' t) = []"
    "wc_err (ke_wait s' t) = wc_err (ke_wait ?s t)" "unlinks t ?s s'" by blast
  show ?case by (rule Cons.prems(1) [of s']) (use step s' unlinks_trans [OF u s'(5)] in auto)
qed

lemma remove_wait_entries_result:
  assumes "entries_linked s" "sy_state s t = THREAD_UNBLOCKING"
  obtains s' where "wait_remove_wait_entries t err s = Some s'" "entries_linked s'" "wc_entries (ke_wait s' t) = []" "wc_err (ke_wait s' t) = err"
    "unlinks t s s'"
proof -
  let ?s = "set_wait t (\<lambda>w. w\<lparr>wc_err := err\<rparr>) s"
  have l: "entries_linked ?s" using assms(1) by (subst linked_cong [of _ s]) simp_all
  obtain s' where s': "for_each (remove_wait_entry t) (wc_entries (ke_wait ?s t)) ?s = Some s'" "entries_linked s'" "wc_entries (ke_wait s' t) = []"
    "wc_err (ke_wait s' t) = wc_err (ke_wait ?s t)" "unlinks t ?s s'"
    by (rule remove_entries_loop [OF l refl])
  have "unlinks t s ?s" by (simp add: unlinks_def)
  then show thesis using that [of s'] s' assms(2) unlinks_trans [OF _ s'(5)] by (simp add: wait_remove_wait_entries_def)
qed

text \<open>What runs on the CPUs is the same.\<close>

definition same_cpus :: "'z sys_scheme \<Rightarrow> 'z sys_scheme \<Rightarrow> bool" where
  "same_cpus s s' \<longleftrightarrow>
     length (sy_scheds s') = length (sy_scheds s) \<and>
     (\<forall>j. runThread (sched_of j s') = runThread (sched_of j s) \<and> idleThread (sched_of j s') = idleThread (sched_of j s))"

lemma same_cpus_eq [simp]: "sy_scheds s' = sy_scheds s \<Longrightarrow> same_cpus s s'"
  by (simp add: same_cpus_def)

lemma same_cpus_trans [trans]: "same_cpus s s' \<Longrightarrow> same_cpus s' s'' \<Longrightarrow> same_cpus s s''"
  by (simp add: same_cpus_def)

section \<open>Submitting a thread\<close>

lemma least_loaded_cases:
  "fst (least_loaded_loop s cpus (m, k)) = m \<or> (\<exists>c \<in> set cpus. fst (least_loaded_loop s cpus (m, k)) = Some c)"
  by (induction cpus arbitrary: m k) (auto simp: Let_def split: if_splits)

lemma least_loaded_some: "c \<in> set cpus \<Longrightarrow> load_of c s < k \<or> m \<noteq> None \<Longrightarrow> fst (least_loaded_loop s cpus (m, k)) \<noteq> None"
proof (induction cpus arbitrary: m k)
  case (Cons x xs)
  have keep: "\<exists>y. fst (least_loaded_loop s xs (Some c, k)) = Some y" for c k
    using least_loaded_cases [of s xs "Some c" k] by auto
  show ?case using Cons by (auto simp: Let_def keep)
qed simp

lemma weights_bound:
  assumes "sys_ok s Ts" "i < length Ts" "finite U" "queued Ts \<subseteq> U"
  shows "0 \<le> weights s (Ts ! i)" "weights s (Ts ! i) \<le> 256 * int (card U)"
proof -
  have ok: "sched_ok s i (Ts ! i)" by (rule sys_okD(2) [OF assms(1,2)])
  have "distinct (ino (Ts ! i))" using sys_okD(4) [OF assms(1,2)] by (simp add: rb_rep_def)
  then have "length (ino (Ts ! i)) = card (set (ino (Ts ! i)))" by (simp add: distinct_card)
  also have "\<dots> \<le> card U"
  proof (rule card_mono [OF assms(3)])
    have "set (ino (Ts ! i)) \<subseteq> queued Ts" using assms(2) by (auto simp: queued_nth)
    then show "set (ino (Ts ! i)) \<subseteq> U" using assms(4) by (rule order_trans)
  qed
  finally have len: "length (ino (Ts ! i)) \<le> card U" .
  have b: "0 \<le> sum_list (map f xs) \<and> sum_list (map f xs) \<le> 256 * int (length xs)" if "\<forall>x \<in> set xs. 0 < f x \<and> f x \<le> 256"
    for f :: "thread \<Rightarrow> int" and xs using that by (induction xs) auto
  have "\<forall>x \<in> set (ino (Ts ! i)). 0 < weight (sy_clients s x) \<and> weight (sy_clients s x) \<le> 256" using ok by (simp add: sched_ok_def)
  from b [OF this] show "0 \<le> weights s (Ts ! i)" "weights s (Ts ! i) \<le> 256 * int (card U)" using len by (auto simp: weights_def)
qed

lemma load_less_max:
  assumes "sys_ok s Ts" "i < length Ts" "finite U" "queued Ts \<subseteq> U" "card U < 2 ^ 50"
  shows "load_of i s < - 1"
proof -
  note b = weights_bound [OF assms(1-4)]
  then have w: "0 \<le> weights s (Ts ! i)" "weights s (Ts ! i) < 2 ^ 58" using assms(5) by auto
  have "totalWeight (sched_of i s) = int64 (weights s (Ts ! i))" using sys_okD(2) [OF assms(1,2)] by (simp add: sched_ok_def)
  also have "\<dots> = weights s (Ts ! i)" using w by (intro int64_id) auto
  finally have "uint (load_of i s) = weights s (Ts ! i)"
    using w by (simp add: load_of_def uint_word_of_int)
  then show ?thesis using w(2) by (simp add: word_less_def unsigned_minus_1_eq_mask mask_eq_exp_minus_1)
qed

definition runs_ok :: "'z sys_scheme \<Rightarrow> tr list \<Rightarrow> bool" where
  "runs_ok s Ts \<longleftrightarrow> (\<forall>i < length Ts. run_ok s i (Ts ! i)) \<and> (\<forall>t c. lastCpu (sy_clients s t) = Some c \<longrightarrow> c < length Ts)"

lemma submit_result:
  assumes ok: "sys_ok s Ts" "runs_ok s Ts" and self: "self < length Ts" and U: "finite U" "queued Ts \<subseteq> U" "card U < 2 ^ 50"
    and t: "t \<notin> queued Ts" "\<And>j. j < length Ts \<Longrightarrow> t \<noteq> idleThread (sched_of j s)"
  obtains c s' T' where "sched_submit self inInterrupt t hotTime enterTime s = Some s'" "c < length Ts" "sys_ok s' (Ts[c := T'])"
    "runs_ok s' (Ts[c := T'])" "set (ino T') = insert t (set (ino (Ts ! c)))" "queued (Ts[c := T']) = insert t (queued Ts)"
    "steady s (s'\<lparr>sy_log := sy_log s\<rparr>)" "sy_state s' = (sy_state s)(t := THREAD_ACTIVE)"
proof -
  have "Ts \<noteq> []" using self by auto
  then have least: "\<exists>c < length Ts. sched_get_least_loaded s = Some c"
    using least_loaded_some [of 0 "[0..<length (sy_scheds s)]" s "- 1" None] least_loaded_cases [of s "[0..<length (sy_scheds s)]" None "- 1"]
      load_less_max [OF ok(1) _ U, of 0] self sys_okD(1) [OF ok(1)]
    by (auto simp: sched_get_least_loaded_def)
  have "\<exists>c < length Ts. (case lastCpu (sy_clients s t) of
        Some cpu \<Rightarrow> if sched_is_cache_hot t hotTime s then Some cpu
          else if totalWeight (sched_of self s) = 0 then Some self else sched_get_least_loaded s
      | None \<Rightarrow> if totalWeight (sched_of self s) = 0 then Some self else sched_get_least_loaded s) = Some c" (is "\<exists>c < _. ?target = _")
    using self ok(2) least by (cases "lastCpu (sy_clients s t)") (auto simp: runs_ok_def)
  then obtain c where c: "c < length Ts" "?target = Some c" by blast
  have run: "run_ok s c (Ts ! c)" using ok(2) c(1) by (simp add: runs_ok_def)
  obtain s1 T1 where s1: "sched_enter c t enterTime s = Some s1" "sys_ok s1 (Ts[c := T1])" "set (ino T1) = insert t (set (ino (Ts ! c)))"
    "queued (Ts[c := T1]) = insert t (queued Ts)" "steady s s1" "sy_state s1 = (sy_state s)(t := THREAD_ACTIVE)"
    by (rule enter_steady [OF ok(1) c(1) run t])
  let ?s = "if self \<noteq> c \<or> \<not> inInterrupt then emit (Ipi_wake_up c) s1 else s1"
  have same: "sy_nodes ?s = sy_nodes s1" "sy_clients ?s = sy_clients s1" "sy_scheds ?s = sy_scheds s1" "sy_state ?s = sy_state s1"
    "sys.more ?s = sys.more s1" "sy_priority ?s = sy_priority s1" by simp_all
  have "run_ok s1 i (Ts[c := T1] ! i)" if "i < length Ts" for i
    using ok(2) s1(3,5) that by (cases "i = c") (auto simp: runs_ok_def run_ok_def steady_def)
  then have "runs_ok ?s (Ts[c := T1])" using ok(2) s1(5) by (simp add: runs_ok_def run_ok_def steady_def same)
  moreover have "sched_submit self inInterrupt t hotTime enterTime s = Some ?s"
    using s1(1) unfolding sched_submit_def c(2) by simp
  moreover have "sys_ok ?s (Ts[c := T1])" using s1(2) sys_ok_cong [OF same(1-3)] by simp
  moreover have "steady s (?s\<lparr>sy_log := sy_log s\<rparr>)" using s1(5) by (simp add: steady_def same)
  ultimately show thesis using that c(1) s1(3,4,6) same(4) by simp
qed

section \<open>The invariant\<close>

text \<open>Threads that are blocked, and those of \<open>X\<close>, which are on their way to a run queue, are in the list of blocked threads
  of the CPU that owns them, and in no run queue. A thread of a run queue that does not run is active. Only these threads and
  those that run have entries. \<open>U\<close> are the threads there are.\<close>

definition waiting :: "thread set \<Rightarrow> 'z kernel_scheme \<Rightarrow> thread \<Rightarrow> bool" where
  "waiting X s t \<longleftrightarrow> sy_state s t = THREAD_BLOCKED \<or> t \<in> X"

definition blocked_ok :: "thread set \<Rightarrow> 'z kernel_scheme \<Rightarrow> bool" where
  "blocked_ok X s \<longleftrightarrow>
     (\<forall>c. distinct (ke_blocked s c) \<and> sorted_wrt (\<lambda>a b. wc_deadline (ke_wait s a) \<le> wc_deadline (ke_wait s b)) (ke_blocked s c)) \<and>
     (\<forall>c t. t \<in> set (ke_blocked s c) \<longleftrightarrow> waiting X s t \<and> wc_owner (ke_wait s t) = Some c) \<and>
     (\<forall>t. waiting X s t \<longrightarrow> wc_owner (ke_wait s t) \<noteq> None) \<and> (\<forall>t \<in> X. sy_state s t = THREAD_UNBLOCKING)"

definition threads_ok :: "thread set \<Rightarrow> thread set \<Rightarrow> 'z kernel_scheme \<Rightarrow> tr list \<Rightarrow> bool" where
  "threads_ok U X s Ts \<longleftrightarrow>
     finite U \<and> card U < 2 ^ 50 \<and> queued Ts \<subseteq> U \<and>
     (\<forall>t. waiting X s t \<longrightarrow> t \<in> U \<and> t \<notin> queued Ts \<and> (\<forall>i < length Ts. t \<noteq> idleThread (sched_of i s))) \<and>
     (\<forall>i < length Ts. \<forall>t \<in> set (ino (Ts ! i)). t \<noteq> runThread (sched_of i s) \<longrightarrow> sy_state s t = THREAD_ACTIVE) \<and>
     (\<forall>i < length Ts. sy_state s (idleThread (sched_of i s)) = THREAD_ACTIVE) \<and>
     (\<forall>t. wc_entries (ke_wait s t) \<noteq> [] \<longrightarrow> waiting X s t \<or> (\<exists>i < length Ts. t = runThread (sched_of i s) \<and> t \<in> set (ino (Ts ! i))))"

definition kernel_ok :: "thread set \<Rightarrow> thread set \<Rightarrow> 'z kernel_scheme \<Rightarrow> tr list \<Rightarrow> bool" where
  "kernel_ok U X s Ts \<longleftrightarrow> sys_ok s Ts \<and> runs_ok s Ts \<and> entries_linked s \<and> blocked_ok X s \<and> threads_ok U X s Ts"

lemma kernel_okD:
  assumes "kernel_ok U X s Ts"
  shows "sys_ok s Ts" "runs_ok s Ts" "entries_linked s" "blocked_ok X s" "threads_ok U X s Ts"
  using assms by (simp_all add: kernel_ok_def)

lemma blocked_okD:
  assumes "blocked_ok X s"
  shows "distinct (ke_blocked s c)" "sorted_wrt (\<lambda>a b. wc_deadline (ke_wait s a) \<le> wc_deadline (ke_wait s b)) (ke_blocked s c)"
    and "t \<in> set (ke_blocked s c) \<longleftrightarrow> waiting X s t \<and> wc_owner (ke_wait s t) = Some c"
    and "waiting X s t \<Longrightarrow> \<exists>c. wc_owner (ke_wait s t) = Some c" "t \<in> X \<Longrightarrow> sy_state s t = THREAD_UNBLOCKING"
  using assms by (auto simp: blocked_ok_def)

lemma threads_okD:
  assumes "threads_ok U X s Ts"
  shows "finite U" "card U < 2 ^ 50" "queued Ts \<subseteq> U"
    and "waiting X s t \<Longrightarrow> t \<in> U" "waiting X s t \<Longrightarrow> t \<notin> queued Ts" "waiting X s t \<Longrightarrow> i < length Ts \<Longrightarrow> t \<noteq> idleThread (sched_of i s)"
    and "i < length Ts \<Longrightarrow> t \<in> set (ino (Ts ! i)) \<Longrightarrow> t \<noteq> runThread (sched_of i s) \<Longrightarrow> sy_state s t = THREAD_ACTIVE"
    and "i < length Ts \<Longrightarrow> sy_state s (idleThread (sched_of i s)) = THREAD_ACTIVE"
    and "wc_entries (ke_wait s t) \<noteq> [] \<Longrightarrow> waiting X s t \<or> (\<exists>i < length Ts. t = runThread (sched_of i s) \<and> t \<in> set (ino (Ts ! i)))"
  using assms unfolding threads_ok_def by blast+

text \<open>Taking a thread of \<open>X\<close> out of the list of its CPU, with its entries.\<close>

lemma blocked_take:
  assumes ok: "blocked_ok X s" and t: "t \<in> X" "wc_owner (ke_wait s t) = Some c"
    and b': "ke_blocked s' = (ke_blocked s)(c := remove1 t (ke_blocked s c))"
    and w': "\<And>u. u \<noteq> t \<Longrightarrow> ke_wait s' u = ke_wait s u" "wc_deadline (ke_wait s' t) = wc_deadline (ke_wait s t)"
    and st: "\<And>u. u \<noteq> t \<Longrightarrow> sy_state s' u = sy_state s u" "sy_state s' t \<noteq> THREAD_BLOCKED"
  shows "blocked_ok (X - {t}) s'"
  unfolding blocked_ok_def
proof (intro conjI allI impI ballI)
  note D = blocked_okD [OF ok]
  have wait: "waiting (X - {t}) s' u \<longleftrightarrow> u \<noteq> t \<and> waiting X s u" for u using st by (cases "u = t") (auto simp: waiting_def)
  have dl: "wc_deadline (ke_wait s' u) = wc_deadline (ke_wait s u)" for u using w' by (cases "u = t") auto
  have sub: "set (ke_blocked s' x) = set (ke_blocked s x) - {t}" for x
    using D(1) [of x] D(3) [of t x] t(2) by (auto simp: b' set_remove1_eq)
  show "distinct (ke_blocked s' x)" for x using D(1) [of x] by (auto simp: b' distinct_remove1)
  show "sorted_wrt (\<lambda>a b. wc_deadline (ke_wait s' a) \<le> wc_deadline (ke_wait s' b)) (ke_blocked s' x)" for x
    using D(2) [of x] sorted_wrt_remove1 [OF D(2) [of x], of t] by (cases "x = c") (simp_all add: b' dl)
  show "u \<in> set (ke_blocked s' x) \<longleftrightarrow> waiting (X - {t}) s' u \<and> wc_owner (ke_wait s' u) = Some x" for x u
    unfolding sub wait using D(3) [of u x] w'(1) by auto
  show "wc_owner (ke_wait s' u) \<noteq> None" if "waiting (X - {t}) s' u" for u using that D(4) [of u] w'(1) unfolding wait by auto
  show "sy_state s' u = THREAD_UNBLOCKING" if "u \<in> X - {t}" for u using that D(5) [of u] st(1) by auto
qed

text \<open>Submitting a thread that waits for nothing.\<close>

lemma submit_ok:
  assumes ok: "kernel_ok U X s Ts" and self: "self < length Ts"
    and t: "t \<in> U" "t \<notin> queued Ts" "\<And>j. j < length Ts \<Longrightarrow> t \<noteq> idleThread (sched_of j s)" "\<not> waiting X s t"
  obtains s' c T' where "submit_now self inInterrupt t s = Some s'" "c < length Ts" "kernel_ok U X s' (Ts[c := T'])"
    "set (ino T') = insert t (set (ino (Ts ! c)))" "sy_state s' = (sy_state s)(t := THREAD_ACTIVE)" "same_cpus s s'"
    "ke_wait s' = ke_wait s" "ke_entry s' = ke_entry s" "ke_queues s' = ke_queues s" "ke_blocked s' = ke_blocked s" "ke_times s' = ke_times s"
    "ke_reads s' = ke_reads s + 2" "kernel.more s' = kernel.more s"
proof -
  note K = kernel_okD [OF ok] and Q = threads_okD [OF kernel_okD(5) [OF ok]]
  let ?s3 = "snd (clock_uptime (snd (clock_uptime s)))"
  have eq3: "sy_nodes ?s3 = sy_nodes s" "sy_clients ?s3 = sy_clients s" "sy_scheds ?s3 = sy_scheds s" "sy_state ?s3 = sy_state s"
    by (simp_all add: clock_uptime_def)
  have "sys_ok ?s3 Ts" "runs_ok ?s3 Ts" using K(1,2) sys_ok_cong [OF eq3(1-3)] by (simp_all add: runs_ok_def run_ok_def eq3)
  then obtain d s' T' where s': "sched_submit self inInterrupt t (fst (clock_uptime s)) (fst (clock_uptime (snd (clock_uptime s)))) ?s3 = Some s'"
    "d < length Ts" "sys_ok s' (Ts[d := T'])" "runs_ok s' (Ts[d := T'])" "set (ino T') = insert t (set (ino (Ts ! d)))"
    "queued (Ts[d := T']) = insert t (queued Ts)" "steady ?s3 (s'\<lparr>sy_log := sy_log ?s3\<rparr>)" "sy_state s' = (sy_state ?s3)(t := THREAD_ACTIVE)"
    by (rule submit_result [OF _ _ self Q(1,3,2) t(2)]) (use t(3) eq3 in auto)
  have call: "submit_now self inInterrupt t s = Some s'" using s'(1) by (simp add: submit_now_def split_beta)
  have "sys.more s' = sys.more ?s3" using s'(7) by (simp add: steady_def)
  from kernel_more [OF this] have ke: "ke_wait s' = ke_wait s" "ke_entry s' = ke_entry s" "ke_queues s' = ke_queues s" "ke_blocked s' = ke_blocked s"
    "ke_times s' = ke_times s" "ke_reads s' = ke_reads s + 2" "kernel.more s' = kernel.more s" by (simp_all add: clock_uptime_def)
  have state: "sy_state s' = (sy_state s)(t := THREAD_ACTIVE)" using s'(8) eq3(4) by simp
  have same: "same_cpus s s'" using s'(7) eq3(3) by (simp add: steady_def same_cpus_def)
  then have run: "runThread (sched_of i s') = runThread (sched_of i s)" "idleThread (sched_of i s') = idleThread (sched_of i s)" for i
    by (simp_all add: same_cpus_def)
  have wait: "waiting X s' u \<longleftrightarrow> waiting X s u" for u using t(4) state by (auto simp: waiting_def)
  have "entries_linked s'" using K(3) ke by (subst linked_cong [of _ s]) simp_all
  moreover have "t \<notin> X" using t(4) by (simp add: waiting_def)
  then have "blocked_ok X s'" using K(4) ke state unfolding blocked_ok_def wait by auto
  moreover have "threads_ok U X s' (Ts[d := T'])"
    unfolding threads_ok_def length_list_update wait
  proof (intro conjI allI impI ballI)
    show "queued (Ts[d := T']) \<subseteq> U" using s'(6) Q(3) t(1) by simp
    show "u \<notin> queued (Ts[d := T'])" if "waiting X s u" for u using that Q(5) [OF that] s'(6) t(4) by auto
    show "sy_state s' u = THREAD_ACTIVE" if "i < length Ts" "u \<in> set (ino (Ts[d := T'] ! i))" "u \<noteq> runThread (sched_of i s')" for i u
      using Q(7) [of i u] s'(2,5) state run that by (cases "i = d") auto
    show "sy_state s' (idleThread (sched_of i s')) = THREAD_ACTIVE" if "i < length Ts" for i using Q(8) [OF that] state run by simp
    fix u
    assume "wc_entries (ke_wait s' u) \<noteq> []"
    then have "waiting X s u \<or> (\<exists>i < length Ts. u = runThread (sched_of i s) \<and> u \<in> set (ino (Ts ! i)))" using ke(1) by (intro Q(9)) simp
    moreover have "u \<in> set (ino (Ts[d := T'] ! i))" if "i < length Ts" "u \<in> set (ino (Ts ! i))" for i
      using s'(2,5) that by (cases "i = d") simp_all
    ultimately show "waiting X s u \<or> (\<exists>i < length Ts. u = runThread (sched_of i s') \<and> u \<in> set (ino (Ts[d := T'] ! i)))"
      unfolding run by blast
  qed (use Q(1,2,4,6) run in simp_all)
  ultimately have "kernel_ok U X s' (Ts[d := T'])" using s'(3,4) by (simp add: kernel_ok_def)
  then show thesis using that [OF call s'(2) _ s'(5) state same ke] by simp
qed

lemma unblock_thread_result:
  assumes ok: "kernel_ok U X s Ts" and self: "self < length Ts" and t: "t \<in> X"
  obtains s' c T' where "wait_unblock_thread self inInterrupt t err s = Some s'" "c < length Ts" "kernel_ok U (X - {t}) s' (Ts[c := T'])"
    "set (ino T') = insert t (set (ino (Ts ! c)))" "sy_state s' = (sy_state s)(t := THREAD_ACTIVE)" "wc_err (ke_wait s' t) = err"
    "wc_entries (ke_wait s' t) = []" "\<forall>u. u \<noteq> t \<longrightarrow> ke_wait s' u = ke_wait s u"
    "\<forall>q. \<forall>e \<in> set (ke_queues s' q). e \<in> set (ke_queues s q) \<and> ke_entry s' e = ke_entry s e"
    "\<forall>q. \<forall>e \<in> set (ke_queues s q) - set (ke_queues s' q). \<exists>en. ke_entry s e = Some en \<and> we_thread en = t"
    "ke_blocked s' = (ke_blocked s)(the (wc_owner (ke_wait s t)) := remove1 t (ke_blocked s (the (wc_owner (ke_wait s t)))))"
    "ke_times s' = ke_times s" "ke_reads s' = ke_reads s + 2" "same_cpus s s'" "kernel.more s' = kernel.more s"
proof -
  note K = kernel_okD [OF ok] and B = blocked_okD [OF kernel_okD(4) [OF ok]] and Q = threads_okD [OF kernel_okD(5) [OF ok]]
  have w: "waiting X s t" using t by (simp add: waiting_def)
  obtain c where c: "wc_owner (ke_wait s t) = Some c" using B(4) [OF w] by blast
  have st: "sy_state s t = THREAD_UNBLOCKING" by (rule B(5) [OF t])
  let ?s1 = "blocked_remove c t s"
  have l1: "entries_linked ?s1" using K(3) by (subst linked_cong [of _ s]) simp_all
  obtain s2 where s2: "wait_remove_wait_entries t err ?s1 = Some s2" "entries_linked s2" "wc_entries (ke_wait s2 t) = []" "wc_err (ke_wait s2 t) = err"
    "unlinks t ?s1 s2"
    by (rule remove_wait_entries_result [OF l1]) (use st in simp)
  note L = s2(5) [unfolded unlinks_def]
  have wait: "waiting (X - {t}) s2 u \<longleftrightarrow> u \<noteq> t \<and> waiting X s u" for u using L st by (auto simp: waiting_def)
  have "sys_ok s2 Ts" "runs_ok s2 Ts" using K(1,2) sys_ok_cong [of s2 s Ts] L by (simp_all add: runs_ok_def run_ok_def)
  moreover have "blocked_ok (X - {t}) s2" by (rule blocked_take [OF K(4) t c]) (use L st in simp_all)
  moreover have "threads_ok U (X - {t}) s2 Ts"
    unfolding threads_ok_def wait
  proof (intro conjI allI impI ballI)
    show "(u \<noteq> t \<and> waiting X s u) \<or> (\<exists>i < length Ts. u = runThread (sched_of i s2) \<and> u \<in> set (ino (Ts ! i)))" if "wc_entries (ke_wait s2 u) \<noteq> []" for u
      using that Q(9) [of u] s2(3) L by (cases "u = t") simp_all
  qed (use Q(1-8) L in simp_all)
  ultimately have ok2: "kernel_ok U (X - {t}) s2 Ts" using s2(2) by (simp add: kernel_ok_def)
  have idle: "t \<noteq> idleThread (sched_of j s2)" if "j < length Ts" for j using Q(6) [OF w that] L by simp
  obtain s' d T' where s': "submit_now self inInterrupt t s2 = Some s'" "d < length Ts" "kernel_ok U (X - {t}) s' (Ts[d := T'])"
    "set (ino T') = insert t (set (ino (Ts ! d)))" "sy_state s' = (sy_state s2)(t := THREAD_ACTIVE)" "same_cpus s2 s'"
    "ke_wait s' = ke_wait s2" "ke_entry s' = ke_entry s2" "ke_queues s' = ke_queues s2" "ke_blocked s' = ke_blocked s2" "ke_times s' = ke_times s2"
    "ke_reads s' = ke_reads s2 + 2" "kernel.more s' = kernel.more s2"
    by (rule submit_ok [OF ok2 self Q(4,5) [OF w] idle]) (use wait in auto)
  have call: "wait_unblock_thread self inInterrupt t err s = Some s'"
    using s2(1) c st s'(1) by (simp add: wait_unblock_thread_def)
  have "same_cpus s s'" using s'(6) L by (simp add: same_cpus_def)
  then show thesis using that [OF call s'(2,3,4)] s'(5,7-13) s2(3,4) L c by simp
qed

end
