(* ===== verification/Wait_Ops.thy ===== *)
theory Wait_Ops
  imports Wait_Spec
begin

text \<open>
  The operations of \<^verbatim>\<open>src/kernel/sched/wait.c\<close> that unblock threads: those of a wait queue, and those whose deadline has
  passed.
\<close>

section \<open>Queues that lose entries\<close>

definition shrinks :: "thread set \<Rightarrow> 'z kernel_scheme \<Rightarrow> 'z kernel_scheme \<Rightarrow> bool" where
  "shrinks A s s' \<longleftrightarrow>
     (\<forall>q. \<forall>e \<in> set (ke_queues s' q). e \<in> set (ke_queues s q) \<and> ke_entry s' e = ke_entry s e) \<and>
     (\<forall>q. \<forall>e \<in> set (ke_queues s q) - set (ke_queues s' q). \<exists>en. ke_entry s e = Some en \<and> we_thread en \<in> A)"

lemma shrinks_refl [simp]: "ke_queues s' = ke_queues s \<Longrightarrow> ke_entry s' = ke_entry s \<Longrightarrow> shrinks A s s'"
  by (simp add: shrinks_def)

lemma shrinksD:
  assumes "shrinks A s s'"
  shows "e \<in> set (ke_queues s' q) \<Longrightarrow> e \<in> set (ke_queues s q)" "e \<in> set (ke_queues s' q) \<Longrightarrow> ke_entry s' e = ke_entry s e"
    and "e \<in> set (ke_queues s q) \<Longrightarrow> e \<notin> set (ke_queues s' q) \<Longrightarrow> \<exists>en. ke_entry s e = Some en \<and> we_thread en \<in> A"
  using assms by (auto simp: shrinks_def)

lemma shrinks_trans:
  assumes "shrinks A s s'" "shrinks B s' s''"
  shows "shrinks (A \<union> B) s s''"
  unfolding shrinks_def
proof (intro conjI allI ballI)
  fix q e
  assume e: "e \<in> set (ke_queues s'' q)"
  note e' = shrinksD(1,2) [OF assms(2) e]
  show "e \<in> set (ke_queues s q)" "ke_entry s'' e = ke_entry s e" using shrinksD(1,2) [OF assms(1) e'(1)] e'(2) by simp_all
next
  fix q e
  assume e: "e \<in> set (ke_queues s q) - set (ke_queues s'' q)"
  show "\<exists>en. ke_entry s e = Some en \<and> we_thread en \<in> A \<union> B"
  proof (cases "e \<in> set (ke_queues s' q)")
    case True
    then show ?thesis using e shrinksD(3) [OF assms(2) True] shrinksD(2) [OF assms(1) True] by auto
  next
    case False
    then show ?thesis using e shrinksD(3) [OF assms(1), of e q] by auto
  qed
qed

lemma unlinks_shrinks: "unlinks t s s' \<Longrightarrow> shrinks {t} s s'"
  by (simp add: unlinks_def shrinks_def)

section \<open>Collecting\<close>

lemma kernel_sys: "sy_nodes s' = sy_nodes s \<Longrightarrow> sy_clients s' = sy_clients s \<Longrightarrow> sy_scheds s' = sy_scheds s \<Longrightarrow>
    sys_ok s' Ts = sys_ok s Ts \<and> runs_ok s' Ts = runs_ok s Ts"
  using sys_ok_cong by (simp add: runs_ok_def run_ok_def)

lemma kernel_ok_cong:
  assumes "sy_nodes s' = sy_nodes s" "sy_clients s' = sy_clients s" "sy_scheds s' = sy_scheds s" "sy_state s' = sy_state s"
    "ke_wait s' = ke_wait s" "ke_entry s' = ke_entry s" "ke_queues s' = ke_queues s" "ke_blocked s' = ke_blocked s"
  shows "kernel_ok U X s' Ts = kernel_ok U X s Ts"
  using kernel_sys [OF assms(1-3)] by (simp add: kernel_ok_def entries_linked_def blocked_ok_def threads_ok_def waiting_def assms)

lemma runner_unique:
  assumes "sys_ok s Ts" "i < length Ts" "t \<in> set (ino (Ts ! i))" "t = runThread (sched_of i s)" "j < length Ts" "t \<in> set (ino (Ts ! j))"
  shows "t = runThread (sched_of j s)" "t \<noteq> idleThread (sched_of j s)"
  using sys_okD(5) [OF assms(1,2,5)] sys_okD(6) [OF assms(1,5,2)] assms by (cases "i = j"; auto)+

lemma unblocking_other:
  assumes ok: "kernel_ok U X s Ts" and t: "wc_entries (ke_wait s t) \<noteq> []" "sy_state s t \<noteq> THREAD_BLOCKED"
  shows "kernel_ok U X (set_state t THREAD_UNBLOCKING s) Ts"
proof -
  let ?s = "set_state t THREAD_UNBLOCKING s"
  note K = kernel_okD [OF ok] and Q = threads_okD [OF kernel_okD(5) [OF ok]] and B = blocked_okD [OF kernel_okD(4) [OF ok]]
  have wait: "waiting X ?s u \<longleftrightarrow> waiting X s u" for u using t(2) by (auto simp: waiting_def)
  have "sys_ok ?s Ts" "runs_ok ?s Ts" using K(1,2) kernel_sys [of ?s s Ts] by simp_all
  moreover have "entries_linked ?s" using K(3) by (subst linked_cong [of _ s]) simp_all
  moreover have "blocked_ok X ?s" using B(1-4) B(5) by (auto simp: blocked_ok_def wait)
  moreover have "threads_ok U X ?s Ts"
    unfolding threads_ok_def wait
  proof (intro conjI allI impI ballI)
    have other: "u \<noteq> t" if "i < length Ts" "u \<in> set (ino (Ts ! i))" "u \<noteq> runThread (sched_of i s)" for i u
      using Q(9) [OF t(1)] that Q(5) [of u] runner_unique(1) [OF K(1), of _ t i] by (auto simp: queued_nth)
    show "sy_state ?s u = THREAD_ACTIVE" if "i < length Ts" "u \<in> set (ino (Ts ! i))" "u \<noteq> runThread (sched_of i ?s)" for i u
      using Q(7) [of i u] other [of i u] that by simp
    have "idleThread (sched_of i s) \<noteq> t" if "i < length Ts" for i
      using Q(9) [OF t(1)] that Q(6) [of t i] sys_okD(6) [OF K(1) that] by auto
    then show "sy_state ?s (idleThread (sched_of i ?s)) = THREAD_ACTIVE" if "i < length Ts" for i
      using Q(8) [OF that] that by simp
    show "waiting X s u \<or> (\<exists>i < length Ts. u = runThread (sched_of i ?s) \<and> u \<in> set (ino (Ts ! i)))" if "wc_entries (ke_wait ?s u) \<noteq> []" for u
      using Q(9) [of u] that by simp
  qed (use Q(1-6) in simp_all)
  ultimately show ?thesis by (simp add: kernel_ok_def)
qed

lemma unblocking_blocked:
  assumes ok: "kernel_ok U X s Ts" and e: "ke_entry s e = Some en" "e \<in> set (wc_entries (ke_wait s (we_thread en)))"
    and t: "sy_state s (we_thread en) = THREAD_BLOCKED"
  shows "kernel_ok U (insert (we_thread en) X)
    (entry_free e (set_wait (we_thread en) (\<lambda>w. w\<lparr>wc_entries := remove1 e (wc_entries w)\<rparr>)
      (queue_remove (we_queue en) e (set_state (we_thread en) THREAD_UNBLOCKING s)))) Ts" (is "kernel_ok U ?X ?s Ts")
proof -
  let ?t = "we_thread en" and ?s1 = "set_state (we_thread en) THREAD_UNBLOCKING s"
  note K = kernel_okD [OF ok] and Q = threads_okD [OF kernel_okD(5) [OF ok]] and B = blocked_okD [OF kernel_okD(4) [OF ok]]
  have wt: "waiting X s ?t" using t by (simp add: waiting_def)
  have wait: "waiting ?X ?s u \<longleftrightarrow> waiting X s u" for u using t by (auto simp: waiting_def)
  have same: "wc_deadline (ke_wait ?s u) = wc_deadline (ke_wait s u)" "wc_owner (ke_wait ?s u) = wc_owner (ke_wait s u)" for u by simp_all
  have "sys_ok ?s Ts" "runs_ok ?s Ts" using K(1,2) kernel_sys [of ?s s Ts] by simp_all
  moreover have "entries_linked ?s1" using K(3) by (subst linked_cong [of _ s]) simp_all
  then have "entries_linked ?s" by (rule linked_unlink) (use e in simp_all)
  moreover have "blocked_ok ?X ?s"
    unfolding blocked_ok_def wait same using B(1-4) B(5) by auto
  moreover have "threads_ok U ?X ?s Ts"
    unfolding threads_ok_def wait
  proof (intro conjI allI impI ballI)
    show "sy_state ?s u = THREAD_ACTIVE" if "i < length Ts" "u \<in> set (ino (Ts ! i))" "u \<noteq> runThread (sched_of i ?s)" for i u
      using Q(7) [of i u] Q(5) [OF wt] that by (auto simp: queued_nth)
    show "sy_state ?s (idleThread (sched_of i ?s)) = THREAD_ACTIVE" if "i < length Ts" for i
      using Q(8) [OF that] Q(6) [OF wt that] by simp
    show "waiting X s u \<or> (\<exists>i < length Ts. u = runThread (sched_of i ?s) \<and> u \<in> set (ino (Ts ! i)))" if "wc_entries (ke_wait ?s u) \<noteq> []" for u
      using Q(9) [of u] that wt by (cases "u = ?t") simp_all
  qed (use Q(1-6) in simp_all)
  ultimately show ?thesis by (simp add: kernel_ok_def)
qed

text \<open>What the first loop of \<^verbatim>\<open>wait_unblock\<close> does with the entries \<open>es\<close> of a queue when it collects \<open>new\<close>.\<close>

definition collects :: "thread set \<Rightarrow> thread set \<Rightarrow> tr list \<Rightarrow> nat list \<Rightarrow> bool \<Rightarrow> thread list \<Rightarrow> 'z kernel_scheme \<Rightarrow> 'z kernel_scheme \<Rightarrow> bool" where
  "collects U X Ts es all new s s' \<longleftrightarrow>
     kernel_ok U (X \<union> set new) s' Ts \<and> distinct new \<and>
     (\<forall>t \<in> set new. sy_state s t = THREAD_BLOCKED \<and> (\<exists>e \<in> set es. \<exists>en. ke_entry s e = Some en \<and> we_thread en = t)) \<and>
     (\<forall>u. sy_state s' u = THREAD_BLOCKED \<longleftrightarrow> sy_state s u = THREAD_BLOCKED \<and> u \<notin> set new) \<and>
     (\<forall>u. sy_state s u = THREAD_UNBLOCKING \<longrightarrow> sy_state s' u = THREAD_UNBLOCKING) \<and> shrinks (set new) s s' \<and> same_cpus s s' \<and>
     kernel.more s' = kernel.more s \<and> (\<forall>u. u \<notin> set new \<longrightarrow> ke_wait s' u = ke_wait s u) \<and>
     (\<forall>u. sy_state s u \<noteq> THREAD_BLOCKED \<longrightarrow> sy_state s' u = sy_state s u \<or> sy_state s' u = THREAD_UNBLOCKING) \<and>
     (\<forall>u. wc_entries (ke_wait s u) = [] \<longrightarrow> sy_state s' u = sy_state s u \<and> ke_wait s' u = ke_wait s u) \<and>
     (all \<longrightarrow> (\<forall>e \<in> set es. \<forall>en. ke_entry s e = Some en \<longrightarrow> sy_state s' (we_thread en) = THREAD_UNBLOCKING))"

lemma collectsD:
  assumes "collects U X Ts es all new s s'"
  shows "kernel_ok U (X \<union> set new) s' Ts" "distinct new" "t \<in> set new \<Longrightarrow> sy_state s t = THREAD_BLOCKED"
    and "t \<in> set new \<Longrightarrow> \<exists>e \<in> set es. \<exists>en. ke_entry s e = Some en \<and> we_thread en = t"
    and "sy_state s' u = THREAD_BLOCKED \<longleftrightarrow> sy_state s u = THREAD_BLOCKED \<and> u \<notin> set new"
    and "sy_state s u = THREAD_UNBLOCKING \<Longrightarrow> sy_state s' u = THREAD_UNBLOCKING" "shrinks (set new) s s'"
    and "all \<Longrightarrow> e \<in> set es \<Longrightarrow> ke_entry s e = Some en \<Longrightarrow> sy_state s' (we_thread en) = THREAD_UNBLOCKING"
    and "wc_entries (ke_wait s u) = [] \<Longrightarrow> sy_state s' u = sy_state s u" "wc_entries (ke_wait s u) = [] \<Longrightarrow> ke_wait s' u = ke_wait s u"
    and "same_cpus s s'" "sy_state s u \<noteq> THREAD_BLOCKED \<Longrightarrow> sy_state s' u = sy_state s u \<or> sy_state s' u = THREAD_UNBLOCKING"
    and "kernel.more s' = kernel.more s" "u \<notin> set new \<Longrightarrow> ke_wait s' u = ke_wait s u"
  using assms unfolding collects_def by blast+

lemma collect_result:
  assumes "kernel_ok U X s Ts" "distinct es" "set es \<subseteq> set (ke_queues s q)" "length threads \<le> n"
  obtains new s' where "collect_loop n es threads s = Some (threads @ new, s')" "collects U X Ts es (length (threads @ new) < n) new s s'"
    "length (threads @ new) \<le> n"
  using assms
proof (induction es arbitrary: X s threads thesis)
  case Nil
  then show ?case by (simp add: collects_def)
next
  case (Cons e es)
  show ?case
  proof (cases "length threads = n")
    case True
    then show ?thesis using Cons.prems by (intro Cons.prems(1) [of "[]" s]) (simp_all add: collects_def)
  next
    case False
    have lk: "entries_linked s" by (rule kernel_okD(3) [OF Cons.prems(2)])
    have "e \<in> set (ke_queues s q)" using Cons.prems(4) by simp
    then obtain en where en: "ke_entry s e = Some en" "we_queue en = q" "e \<in> set (wc_entries (ke_wait s (we_thread en)))"
      using linkedD(4) [OF lk] by blast
    let ?t = "we_thread en" and ?s1 = "set_state (we_thread en) THREAD_UNBLOCKING s"
    show ?thesis
    proof (cases "sy_state s ?t = THREAD_BLOCKED")
      case blocked: True
      let ?s2 = "entry_free e (set_wait ?t (\<lambda>w. w\<lparr>wc_entries := remove1 e (wc_entries w)\<rparr>) (queue_remove (we_queue en) e ?s1))"
      have ok: "kernel_ok U (insert ?t X) ?s2 Ts" by (rule unblocking_blocked [OF Cons.prems(2) en(1,3) blocked])
      have ne: "e \<notin> set es" "distinct es" using Cons.prems(3) by simp_all
      have sub: "set es \<subseteq> set (ke_queues ?s2 q)" using Cons.prems(4) ne(1) set_remove1_eq [OF linkedD(2) [OF lk, of q], of e] by (auto simp: en(2))
      have len: "length (threads @ [?t]) \<le> n" using False Cons.prems(5) by simp
      from Cons.IH [OF _ ok ne(2) sub len] obtain new s' where
        r: "collect_loop n es (threads @ [?t]) ?s2 = Some ((threads @ [?t]) @ new, s')"
        "collects U (insert ?t X) Ts es (length ((threads @ [?t]) @ new) < n) new ?s2 s'" "length ((threads @ [?t]) @ new) \<le> n" by blast
      have sh: "shrinks {?t} s ?s2"
        unfolding shrinks_def
      proof (intro conjI allI ballI)
        fix p x
        assume x: "x \<in> set (ke_queues ?s2 p)"
        show xp: "x \<in> set (ke_queues s p)" using x set_remove1_subset [of e "ke_queues s p"] by (auto split: if_splits)
        have "x \<noteq> e" using x linkedD(2) [OF lk, of p] linkedD(4) [OF lk xp] en(1) by (auto split: if_splits)
        then show "ke_entry ?s2 x = ke_entry s x" by simp
      next
        fix p x
        assume "x \<in> set (ke_queues s p) - set (ke_queues ?s2 p)"
        then have "x = e" by (cases "x = e") (auto split: if_splits)
        then show "\<exists>en'. ke_entry s x = Some en' \<and> we_thread en' \<in> {?t}" using en(1) by simp
      qed
      have entry: "ke_entry ?s2 x = ke_entry s x" if "x \<in> set es" for x using that ne(1) by auto
      have "collects U X Ts (e # es) (length ((threads @ [?t]) @ new) < n) (?t # new) s s'"
        unfolding collects_def
      proof (intro conjI allI impI ballI)
        note c = collectsD [OF r(2)]
        have st: "sy_state ?s2 = (sy_state s)(?t := THREAD_UNBLOCKING)" by simp
        have t: "?t \<notin> set new" using c(3) [of ?t] st by auto
        show "kernel_ok U (X \<union> set (?t # new)) s' Ts" "distinct (?t # new)" using c(1,2) t by simp_all
        show "shrinks (set (?t # new)) s s'" using shrinks_trans [OF sh c(7)] by simp
        show "same_cpus s s'" using same_cpus_trans [OF _ c(11), of s] by simp
        show "kernel.more s' = kernel.more s" using c(13) by simp
        show "ke_wait s' u = ke_wait s u" if "u \<notin> set (?t # new)" for u using c(14) [of u] that by auto
        show "sy_state s' u = sy_state s u \<or> sy_state s' u = THREAD_UNBLOCKING" if "sy_state s u \<noteq> THREAD_BLOCKED" for u
          using c(12) [of u] st that blocked by auto
        show "sy_state s u = THREAD_BLOCKED" "\<exists>x \<in> set (e # es). \<exists>en. ke_entry s x = Some en \<and> we_thread en = u" if "u \<in> set (?t # new)" for u
          using that c(3,4) [of u] blocked en(1) st entry by (auto split: if_splits)
        show "sy_state s' u = THREAD_BLOCKED \<longleftrightarrow> sy_state s u = THREAD_BLOCKED \<and> u \<notin> set (?t # new)" for u
          using c(5) [of u] st by auto
        show "sy_state s' u = THREAD_UNBLOCKING" if "sy_state s u = THREAD_UNBLOCKING" for u using c(6) [of u] st that by auto
        show "sy_state s' (we_thread em) = THREAD_UNBLOCKING"
          if all: "length ((threads @ [?t]) @ new) < n" "x \<in> set (e # es)" "ke_entry s x = Some em" for x em
          using c(6) [of ?t] c(8) [OF all(1), of x em] all(2,3) entry [of x] st en(1) by (cases "x = e") auto
        show "sy_state s' u = sy_state s u" "ke_wait s' u = ke_wait s u" if "wc_entries (ke_wait s u) = []" for u
          using c(9,10) [of u] that en(3) by (cases "u = ?t"; simp)+
      qed
      then show ?thesis using r(1,3) False en(1) blocked by (intro Cons.prems(1) [of "?t # new" s']) simp_all
    next
      case other: False
      have ok: "kernel_ok U X ?s1 Ts" by (rule unblocking_other [OF Cons.prems(2)]) (use en(3) other in auto)
      from Cons.IH [OF _ ok _ _ Cons.prems(5)] obtain new s' where
        r: "collect_loop n es threads ?s1 = Some (threads @ new, s')"
        "collects U X Ts es (length (threads @ new) < n) new ?s1 s'" "length (threads @ new) \<le> n"
        using Cons.prems(3,4) by auto
      have sh: "shrinks (set new) s s'" using r(2) shrinks_trans [of "{}" s ?s1 "set new" s'] by (simp add: collects_def)
      have "collects U X Ts (e # es) (length (threads @ new) < n) new s s'"
        unfolding collects_def
      proof (intro conjI allI impI ballI)
        note c = collectsD [OF r(2)]
        show "sy_state s u = THREAD_BLOCKED" "\<exists>x \<in> set (e # es). \<exists>en. ke_entry s x = Some en \<and> we_thread en = u" if "u \<in> set new" for u
          using c(3,4) [OF that] by (auto split: if_splits)
        show "sy_state s' u = THREAD_BLOCKED \<longleftrightarrow> sy_state s u = THREAD_BLOCKED \<and> u \<notin> set new" for u
          using c(5) [of u] other by auto
        show "same_cpus s s'" using same_cpus_trans [OF _ c(11), of s] by simp
        show "kernel.more s' = kernel.more s" using c(13) by simp
        show "ke_wait s' u = ke_wait s u" if "u \<notin> set new" for u using c(14) [of u] that by simp
        show "sy_state s' u = sy_state s u \<or> sy_state s' u = THREAD_UNBLOCKING" if "sy_state s u \<noteq> THREAD_BLOCKED" for u
          using c(12) [of u] c(6) [of u] that by (cases "u = ?t") auto
        show "sy_state s' u = THREAD_UNBLOCKING" if "sy_state s u = THREAD_UNBLOCKING" for u using c(6) [of u] that by auto
        show "sy_state s' (we_thread em) = THREAD_UNBLOCKING"
          if all: "length (threads @ new) < n" "x \<in> set (e # es)" "ke_entry s x = Some em" for x em
          using c(6) [of ?t] c(8) [OF all(1), of x em] all(2,3) en(1) by (cases "x = e") auto
        show "sy_state s' u = sy_state s u" "ke_wait s' u = ke_wait s u" if "wc_entries (ke_wait s u) = []" for u
          using c(9,10) [of u] that en(3) by (cases "u = ?t"; simp)+
      qed (use collectsD(1,2) [OF r(2)] sh in auto)
      then show ?thesis using r(1,3) False en(1) other by (intro Cons.prems(1) [of new s']) simp_all
    qed
  qed
qed

section \<open>Waking a queue\<close>

definition wakes :: "thread set \<Rightarrow> errno option \<Rightarrow> tr list \<Rightarrow> tr list \<Rightarrow> 'z kernel_scheme \<Rightarrow> 'z kernel_scheme \<Rightarrow> bool" where
  "wakes A err Ts Ts' s s' \<longleftrightarrow>
     length Ts' = length Ts \<and> queued Ts' = queued Ts \<union> A \<and> shrinks A s s' \<and> same_cpus s s' \<and> kernel.more s' = kernel.more s \<and>
     (\<forall>t \<in> A. sy_state s' t = THREAD_ACTIVE \<and> wc_err (ke_wait s' t) = err \<and> wc_entries (ke_wait s' t) = []) \<and>
     (\<forall>u. u \<notin> A \<longrightarrow> sy_state s' u = sy_state s u \<and> ke_wait s' u = ke_wait s u)"

lemma wakes_list:
  assumes "kernel_ok U (set ts) s Ts" "distinct ts" "self < length Ts"
  obtains s' Ts' where "for_each (\<lambda>t. wait_unblock_thread self inInterrupt t err) ts s = Some s'" "kernel_ok U {} s' Ts'"
    "wakes (set ts) err Ts Ts' s s'"
  using assms
proof (induction ts arbitrary: s Ts thesis)
  case Nil
  then show ?case by (simp add: wakes_def)
next
  case (Cons t ts)
  obtain s1 c T1 where s1: "wait_unblock_thread self inInterrupt t err s = Some s1" "c < length Ts" "kernel_ok U (set (t # ts) - {t}) s1 (Ts[c := T1])"
    "set (ino T1) = insert t (set (ino (Ts ! c)))" "sy_state s1 = (sy_state s)(t := THREAD_ACTIVE)" "wc_err (ke_wait s1 t) = err"
    "wc_entries (ke_wait s1 t) = []" "\<forall>u. u \<noteq> t \<longrightarrow> ke_wait s1 u = ke_wait s u"
    "\<forall>q. \<forall>e \<in> set (ke_queues s1 q). e \<in> set (ke_queues s q) \<and> ke_entry s1 e = ke_entry s e"
    "\<forall>q. \<forall>e \<in> set (ke_queues s q) - set (ke_queues s1 q). \<exists>en. ke_entry s e = Some en \<and> we_thread en = t"
    "same_cpus s s1" "kernel.more s1 = kernel.more s"
    by (rule unblock_thread_result [OF Cons.prems(2,4), of t]) auto
  have t: "t \<notin> set ts" "distinct ts" using Cons.prems(3) by simp_all
  have "kernel_ok U (set ts) s1 (Ts[c := T1])" using s1(3) t(1) by simp
  from Cons.IH [OF _ this t(2)] obtain s' Ts' where r: "for_each (\<lambda>t. wait_unblock_thread self inInterrupt t err) ts s1 = Some s'"
    "kernel_ok U {} s' Ts'" "wakes (set ts) err (Ts[c := T1]) Ts' s1 s'" using Cons.prems(4) by auto
  have "shrinks {t} s s1" using s1(9,10) by (simp add: shrinks_def)
  then have sh: "shrinks (insert t (set ts)) s s'" using shrinks_trans [of "{t}" s s1 "set ts" s'] r(3) by (simp add: wakes_def)
  have "queued (Ts[c := T1]) = insert t (queued Ts)"
    unfolding set_eq_iff queued_update [OF s1(2)] using s1(2,4) by (auto simp: queued_nth)
  then have "wakes (set (t # ts)) err Ts Ts' s s'" using r(3) sh s1(5-8,12) t(1) same_cpus_trans [OF s1(11), of s'] unfolding wakes_def by auto
  then show ?case using Cons.prems(1) s1(1) r(1,2) by simp
qed

definition blocked_on :: "'z kernel_scheme \<Rightarrow> nat \<Rightarrow> thread set" where
  "blocked_on s q = {t. sy_state s t = THREAD_BLOCKED \<and> (\<exists>e \<in> set (ke_queues s q). \<exists>en. ke_entry s e = Some en \<and> we_thread en = t)}"

lemma blocked_on_finite: "kernel_ok U X s Ts \<Longrightarrow> finite (blocked_on s q)"
proof -
  assume "kernel_ok U X s Ts"
  note Q = threads_okD [OF kernel_okD(5) [OF this]]
  have "blocked_on s q \<subseteq> U" using Q(4) by (auto simp: blocked_on_def waiting_def)
  then show ?thesis using Q(1) by (rule finite_subset)
qed

lemma blocked_on_shrinks:
  assumes "shrinks A s s'" "\<And>u. sy_state s' u = THREAD_BLOCKED \<longleftrightarrow> sy_state s u = THREAD_BLOCKED \<and> u \<notin> A"
  shows "blocked_on s' q = blocked_on s q - A"
proof (intro set_eqI iffI)
  fix t
  assume "t \<in> blocked_on s' q"
  then show "t \<in> blocked_on s q - A" using assms(2) shrinksD(1,2) [OF assms(1)] by (fastforce simp: blocked_on_def)
next
  fix t
  assume t: "t \<in> blocked_on s q - A"
  then obtain e en where e: "e \<in> set (ke_queues s q)" "ke_entry s e = Some en" "we_thread en = t" "sy_state s t = THREAD_BLOCKED"
    by (auto simp: blocked_on_def)
  then have "e \<in> set (ke_queues s' q)" using shrinksD(3) [OF assms(1) e(1)] t by auto
  then show "t \<in> blocked_on s' q" using e t assms(2) shrinksD(2) [OF assms(1)] by (fastforce simp: blocked_on_def)
qed

text \<open>What \<^verbatim>\<open>wait_unblock\<close> does, whatever the number of threads it is asked for, unless that is zero.\<close>

definition unblocks :: "thread set \<Rightarrow> nat \<Rightarrow> errno option \<Rightarrow> tr list \<Rightarrow> tr list \<Rightarrow> 'z kernel_scheme \<Rightarrow> 'z kernel_scheme \<Rightarrow> bool" where
  "unblocks U q err Ts Ts' s s' \<longleftrightarrow>
     kernel_ok U {} s' Ts' \<and> length Ts' = length Ts \<and> queued Ts' = queued Ts \<union> blocked_on s q \<and> same_cpus s s' \<and> kernel.more s' = kernel.more s \<and>
     (\<forall>u. sy_state s u \<noteq> THREAD_BLOCKED \<longrightarrow> sy_state s' u = sy_state s u \<or> sy_state s' u = THREAD_UNBLOCKING) \<and>
     (\<forall>t \<in> blocked_on s q. sy_state s' t = THREAD_ACTIVE \<and> wc_err (ke_wait s' t) = err) \<and>
     (\<forall>t. sy_state s' t = THREAD_BLOCKED \<longleftrightarrow> sy_state s t = THREAD_BLOCKED \<and> t \<notin> blocked_on s q) \<and>
     (\<forall>p. blocked_on s' p = blocked_on s p - blocked_on s q) \<and> (\<forall>t. t \<notin> blocked_on s q \<longrightarrow> ke_wait s' t = ke_wait s t) \<and>
     (\<forall>t. wc_entries (ke_wait s t) = [] \<longrightarrow> sy_state s' t = sy_state s t \<and> ke_wait s' t = ke_wait s t) \<and>
     (\<forall>e \<in> set (ke_queues s' q). \<forall>en. ke_entry s' e = Some en \<longrightarrow> sy_state s' (we_thread en) = THREAD_UNBLOCKING)"

lemma unblocks_none: "unblocks U q err Ts Ts' s s' \<Longrightarrow> blocked_on s' q = {}"
  by (simp add: unblocks_def)

lemma unblock_loop_result:
  assumes "kernel_ok U {} s Ts" "self < length Ts" "0 < amount"
  obtains s' Ts' where "unblock_loop self inInterrupt q amount err k s = Some (k + of_nat (card (blocked_on s q)), s')"
    "unblocks U q err Ts Ts' s s'"
  using assms
proof (induction "card (blocked_on s q)" arbitrary: s Ts k thesis rule: less_induct)
  case less
  let ?n = "unat (if amount < 64 then amount else 64)"
  have n: "0 < ?n" using less.prems(4) by (auto simp: unat_gt_0)
  have lk: "entries_linked s" by (rule kernel_okD(3) [OF less.prems(2)])
  obtain new s1 where c0: "collect_loop ?n (ke_queues s q) [] s = Some ([] @ new, s1)"
    "collects U {} Ts (ke_queues s q) (length ([] @ new) < ?n) new s s1"
    by (rule collect_result [OF less.prems(2) linkedD(2) [OF lk, of q] order.refl, of "[]" ?n]) auto
  note c = collectsD [OF c0(2)]
  have sub: "set new \<subseteq> blocked_on s q" using c(3,4) by (fastforce simp: blocked_on_def)
  show ?case
  proof (cases "new = []")
    case True
    have last: "unblock_loop self inInterrupt q amount err k s = Some (k, s1)"
      using c0(1) True by (simp add: unblock_loop.simps [of self inInterrupt q amount err k s])
    have all: "sy_state s1 (we_thread en) = THREAD_UNBLOCKING" if "e \<in> set (ke_queues s q)" "ke_entry s e = Some en" for e en
      using c(8) that True n by simp
    then have empty: "blocked_on s q = {}" using c(5) True by (force simp: blocked_on_def)
    have "unblocks U q err Ts Ts s s1"
      unfolding unblocks_def
    proof (intro conjI allI impI ballI)
      show "blocked_on s1 p = blocked_on s p - blocked_on s q" for p using blocked_on_shrinks [OF c(7) c(5), of p] True empty by simp
      show "kernel_ok U {} s1 Ts" using c(1) True by simp
      show "sy_state s1 (we_thread en) = THREAD_UNBLOCKING" if "e \<in> set (ke_queues s1 q)" "ke_entry s1 e = Some en" for e en
        using all shrinksD(1,2) [OF c(7) that(1)] that(2) by simp
      show "ke_wait s1 t = ke_wait s t" if "t \<notin> blocked_on s q" for t using c(14) [of t] True by simp
    qed (use empty c(5,9-13) True in auto)
    then show ?thesis using less.prems(1) [of s1 Ts] last empty by simp
  next
    case False
    have ok1: "kernel_ok U (set new) s1 Ts" using c(1) by simp
    obtain s2 Ts2 where s2: "for_each (\<lambda>t. wait_unblock_thread self inInterrupt t err) new s1 = Some s2" "kernel_ok U {} s2 Ts2"
      "wakes (set new) err Ts Ts2 s1 s2"
      by (rule wakes_list [OF ok1 c(2) less.prems(3)])
    have blocked2: "sy_state s2 u = THREAD_BLOCKED \<longleftrightarrow> sy_state s u = THREAD_BLOCKED \<and> u \<notin> set new" for u
      using s2(3) c(5) [of u] by (cases "u \<in> set new") (simp_all add: wakes_def)
    have "shrinks (set new) s s2" using shrinks_trans [OF c(7), of "set new" s2] s2(3) by (simp add: wakes_def)
    then have rest: "blocked_on s2 p = blocked_on s p - set new" for p by (rule blocked_on_shrinks) (rule blocked2)
    have fin: "finite (blocked_on s q)" by (rule blocked_on_finite [OF less.prems(2)])
    have card: "card (blocked_on s q) = length new + card (blocked_on s2 q)"
      using fin sub c(2) card_Diff_subset [of "set new" "blocked_on s q"] card_mono [OF fin sub] by (simp add: rest distinct_card)
    have less2: "card (blocked_on s2 q) < card (blocked_on s q)" using card False by simp
    have len2: "self < length Ts2" using s2(3) less.prems(3) by (simp add: wakes_def)
    obtain s' Ts' where r: "unblock_loop self inInterrupt q amount err (k + of_nat (length new)) s2 =
        Some (k + of_nat (length new) + of_nat (card (blocked_on s2 q)), s')" "unblocks U q err Ts2 Ts' s2 s'"
      by (rule less.hyps [OF less2 _ s2(2) len2 less.prems(4)]) blast
    have call: "unblock_loop self inInterrupt q amount err k s = Some (k + of_nat (card (blocked_on s q)), s')"
      using c0(1) s2(1) r(1) False card by (simp add: unblock_loop.simps [of self inInterrupt q amount err k s] add.assoc)
    have "unblocks U q err Ts Ts' s s'"
      unfolding unblocks_def
    proof (intro conjI allI impI ballI)
      show "kernel_ok U {} s' Ts'" "length Ts' = length Ts" "queued Ts' = queued Ts \<union> blocked_on s q"
        using r(2) s2(3) rest sub by (auto simp: unblocks_def wakes_def)
      show "blocked_on s' p = blocked_on s p - blocked_on s q" for p
        using r(2) rest [of p] rest [of q] sub by (auto simp: unblocks_def)
      show "same_cpus s s'" using same_cpus_trans [OF same_cpus_trans [OF c(11)], of s2 s'] s2(3) r(2) by (simp add: unblocks_def wakes_def)
      show "kernel.more s' = kernel.more s" using c(13) s2(3) r(2) by (simp add: unblocks_def wakes_def)
      show "ke_wait s' t = ke_wait s t" if "t \<notin> blocked_on s q" for t
      proof -
        have "t \<notin> set new" using sub that by blast
        then have "ke_wait s2 t = ke_wait s1 t" "ke_wait s1 t = ke_wait s t" using s2(3) c(14) by (simp_all add: wakes_def)
        moreover have "ke_wait s' t = ke_wait s2 t" using r(2) rest [of q] that by (simp add: unblocks_def)
        ultimately show ?thesis by simp
      qed
      show "sy_state s' u = sy_state s u \<or> sy_state s' u = THREAD_UNBLOCKING" if u: "sy_state s u \<noteq> THREAD_BLOCKED" for u
      proof -
        have "u \<notin> set new" using c(3) [of u] u by auto
        then have "sy_state s2 u = sy_state s1 u" using s2(3) by (simp add: wakes_def)
        moreover have "sy_state s' u = sy_state s2 u \<or> sy_state s' u = THREAD_UNBLOCKING"
          using r(2) blocked2 [of u] u by (simp add: unblocks_def)
        ultimately show ?thesis using c(12) [OF u] by auto
      qed
      show "sy_state s' u = THREAD_BLOCKED \<longleftrightarrow> sy_state s u = THREAD_BLOCKED \<and> u \<notin> blocked_on s q" for u
        using r(2) blocked2 [of u] rest sub by (auto simp: unblocks_def)
      show "sy_state s' (we_thread en) = THREAD_UNBLOCKING" if "e \<in> set (ke_queues s' q)" "ke_entry s' e = Some en" for e en
        using r(2) that by (auto simp: unblocks_def)
      show "sy_state s' t = THREAD_ACTIVE" "wc_err (ke_wait s' t) = err" if "t \<in> blocked_on s q" for t
        using r(2) s2(3) rest that by (cases "t \<in> set new"; simp add: unblocks_def wakes_def)+
      fix u
      assume u: "wc_entries (ke_wait s u) = []"
      have "u \<notin> set new"
      proof
        assume "u \<in> set new"
        then obtain e en where "e \<in> set (ke_queues s q)" "ke_entry s e = Some en" "we_thread en = u" using c(4) by blast
        then show False using linkedD(4) [OF lk] u by fastforce
      qed
      then show "sy_state s' u = sy_state s u" "ke_wait s' u = ke_wait s u"
        using c(9,10) [OF u] s2(3) r(2) u by (simp_all add: unblocks_def wakes_def)
    qed
    then show ?thesis using less.prems(1) call by blast
  qed
qed

section \<open>Deadlines\<close>

lemma unblocking_mark:
  assumes ok: "kernel_ok U X s Ts" and t: "sy_state s t = THREAD_BLOCKED"
  shows "kernel_ok U (insert t X) (set_state t THREAD_UNBLOCKING s) Ts"
proof -
  let ?s = "set_state t THREAD_UNBLOCKING s"
  note K = kernel_okD [OF ok] and Q = threads_okD [OF kernel_okD(5) [OF ok]] and B = blocked_okD [OF kernel_okD(4) [OF ok]]
  have wt: "waiting X s t" using t by (simp add: waiting_def)
  have wait: "waiting (insert t X) ?s u \<longleftrightarrow> waiting X s u" for u using t by (auto simp: waiting_def)
  have "sys_ok ?s Ts" "runs_ok ?s Ts" using K(1,2) kernel_sys [of ?s s Ts] by simp_all
  moreover have "entries_linked ?s" using K(3) by (subst linked_cong [of _ s]) simp_all
  moreover have "blocked_ok (insert t X) ?s" unfolding blocked_ok_def wait using B(1-4) B(5) by auto
  moreover have "threads_ok U (insert t X) ?s Ts"
    unfolding threads_ok_def wait
  proof (intro conjI allI impI ballI)
    show "sy_state ?s u = THREAD_ACTIVE" if "i < length Ts" "u \<in> set (ino (Ts ! i))" "u \<noteq> runThread (sched_of i ?s)" for i u
      using Q(7) [of i u] Q(5) [OF wt] that by (auto simp: queued_nth)
    show "sy_state ?s (idleThread (sched_of i ?s)) = THREAD_ACTIVE" if "i < length Ts" for i
      using Q(8) [OF that] Q(6) [OF wt that] by simp
    show "waiting X s u \<or> (\<exists>i < length Ts. u = runThread (sched_of i ?s) \<and> u \<in> set (ino (Ts ! i)))" if "wc_entries (ke_wait ?s u) \<noteq> []" for u
      using Q(9) [of u] that by simp
  qed (use Q(1-6) in simp_all)
  ultimately show ?thesis by (simp add: kernel_ok_def)
qed

text \<open>What \<^verbatim>\<open>wait_check_timeouts\<close> does: it wakes the threads of the list of its CPU up to the first whose deadline is later
  than the time. A round reads the clock once, and twice more to submit a thread.\<close>

definition times_out :: "thread set \<Rightarrow> cpu \<Rightarrow> thread list \<Rightarrow> thread list \<Rightarrow> tr list \<Rightarrow> tr list \<Rightarrow> 'z kernel_scheme \<Rightarrow> 'z kernel_scheme \<Rightarrow> bool" where
  "times_out U self woken rest Ts Ts' s s' \<longleftrightarrow>
     kernel_ok U {} s' Ts' \<and> length Ts' = length Ts \<and> queued Ts' = queued Ts \<union> set woken \<and> ke_blocked s' self = rest \<and> same_cpus s s' \<and>
     (\<forall>i < length woken. wc_deadline (ke_wait s (woken ! i)) \<le> ke_times s (ke_reads s + 3 * i)) \<and>
     (\<forall>t \<in> set rest. wc_deadline (ke_wait s t) > ke_times s (ke_reads s + 3 * length woken)) \<and>
     (\<forall>t \<in> set woken. sy_state s' t = THREAD_ACTIVE \<and> wc_err (ke_wait s' t) = Some ETIMEDOUT) \<and>
     (\<forall>t. t \<notin> set woken \<longrightarrow> sy_state s' t = sy_state s t \<and> ke_wait s' t = ke_wait s t) \<and>
     (rest \<noteq> [] \<longrightarrow> (let now = ke_times s (ke_reads s + 3 * length woken)
        in last (sy_log s') = Timer_set self now (wc_deadline (ke_wait s (hd rest)))))"

lemma check_timeouts_result:
  assumes "kernel_ok U {} s Ts" "self < length Ts"
  obtains s' Ts' woken rest where "wait_check_timeouts self inInterrupt s = Some s'" "ke_blocked s self = woken @ rest"
    "times_out U self woken rest Ts Ts' s s'"
  using assms
proof (induction "ke_blocked s self" arbitrary: s Ts thesis)
  case Nil
  have "wait_check_timeouts self inInterrupt s = Some s" using Nil.hyps by (simp add: wait_check_timeouts.simps [of self inInterrupt s])
  then show ?case using Nil by (intro Nil.prems(1) [of s "[]" "[]" Ts]) (simp_all add: times_out_def)
next
  case (Cons t ts)
  note B = blocked_okD [OF kernel_okD(4) [OF Cons.prems(2)]]
  have list: "ke_blocked s self = t # ts" using Cons.hyps(2) by simp
  then have "t \<in> set (ke_blocked s self)" by simp
  then have t: "sy_state s t = THREAD_BLOCKED" "wc_owner (ke_wait s t) = Some self" using B(3) by (auto simp: waiting_def)
  let ?now = "ke_times s (ke_reads s)" and ?s0 = "s\<lparr>ke_reads := ke_reads s + 1\<rparr>"
  show ?case
  proof (cases "wc_deadline (ke_wait s t) > ?now")
    case True
    let ?s = "emit (Timer_set self ?now (wc_deadline (ke_wait s t))) ?s0"
    have "wait_check_timeouts self inInterrupt s = Some ?s"
      using True list by (simp add: wait_check_timeouts.simps [of self inInterrupt s] clock_uptime_def)
    moreover have ke: "ke_wait ?s = ke_wait s" "ke_entry ?s = ke_entry s" "ke_queues ?s = ke_queues s" "ke_blocked ?s = ke_blocked s"
      by (simp_all add: emit_def)
    have "kernel_ok U {} ?s Ts" using Cons.prems(2) by (subst kernel_ok_cong [of _ s]) simp_all
    moreover have "\<forall>u \<in> set (t # ts). wc_deadline (ke_wait s u) > ?now" using B(2) [of self] list True by auto
    ultimately show ?thesis
      using list ke by (intro Cons.prems(1) [of ?s "[]" "t # ts" Ts]) (simp_all add: times_out_def emit_def)
  next
    case False
    let ?m = "set_state t THREAD_UNBLOCKING ?s0"
    have mark: "kernel_ok U {t} ?m Ts"
      using unblocking_mark [of U "{}" ?s0 Ts t] Cons.prems(2) kernel_ok_cong [of ?s0 s U "{}" Ts] t(1) by simp
    obtain s1 c T1 where u: "wait_unblock_thread self inInterrupt t (Some ETIMEDOUT) ?m = Some s1" "c < length Ts"
      "kernel_ok U ({t} - {t}) s1 (Ts[c := T1])" "set (ino T1) = insert t (set (ino (Ts ! c)))" "sy_state s1 = (sy_state ?m)(t := THREAD_ACTIVE)"
      "wc_err (ke_wait s1 t) = Some ETIMEDOUT" "\<forall>u. u \<noteq> t \<longrightarrow> ke_wait s1 u = ke_wait ?m u"
      "ke_blocked s1 = (ke_blocked ?m)(the (wc_owner (ke_wait ?m t)) := remove1 t (ke_blocked ?m (the (wc_owner (ke_wait ?m t)))))"
      "ke_times s1 = ke_times ?m" "ke_reads s1 = ke_reads ?m + 2" "same_cpus ?m s1"
      by (rule unblock_thread_result [OF mark Cons.prems(3), of t inInterrupt "Some ETIMEDOUT"]) auto
    have s1: "wait_unblock_thread self inInterrupt t (Some ETIMEDOUT) ?m = Some s1" "c < length Ts"
      "kernel_ok U {} s1 (Ts[c := T1])" "set (ino T1) = insert t (set (ino (Ts ! c)))" "sy_state s1 = (sy_state s)(t := THREAD_ACTIVE)"
      "wc_err (ke_wait s1 t) = Some ETIMEDOUT" "\<forall>u. u \<noteq> t \<longrightarrow> ke_wait s1 u = ke_wait s u"
      "ke_blocked s1 = (ke_blocked s)(self := ts)" "ke_times s1 = ke_times s" "ke_reads s1 = ke_reads s + 3" "same_cpus s s1"
      using u t(2) list by (simp_all add: same_cpus_def)
    have swap: "set_state t THREAD_UNBLOCKING (blocked_remove self t ?s0) = blocked_remove self t (set_state t THREAD_UNBLOCKING ?s0)"
      by (simp add: set_state_def blocked_remove_def)
    have "wait_remove_wait_entries t (Some ETIMEDOUT) (blocked_remove self t ?m) \<bind> submit_now self inInterrupt t = Some s1"
      using s1(1) t(2) by (simp add: wait_unblock_thread_def)
    then obtain s2 where s2: "wait_remove_wait_entries t (Some ETIMEDOUT) (blocked_remove self t ?m) = Some s2" "submit_now self inInterrupt t s2 = Some s1"
      by (auto simp: bind_eq_Some_conv)
    have step: "wait_check_timeouts self inInterrupt s = wait_check_timeouts self inInterrupt s1"
      using False list t(1) s2 unfolding wait_check_timeouts.simps [of self inInterrupt s] clock_uptime_def Let_def by (simp add: swap del: One_nat_def)
    have q: "queued (Ts[c := T1]) = insert t (queued Ts)"
      unfolding set_eq_iff queued_update [OF s1(2)] using s1(2,4) by (auto simp: queued_nth)
    have tn: "t \<notin> set ts" using B(1) [of self] list by simp
    have ts: "ts = ke_blocked s1 self" using s1(8) by simp
    have self1: "self < length (Ts[c := T1])" using Cons.prems(3) by simp
    obtain s' Ts' woken rest where r: "wait_check_timeouts self inInterrupt s1 = Some s'" "ke_blocked s1 self = woken @ rest"
      "times_out U self woken rest (Ts[c := T1]) Ts' s1 s'"
      by (rule Cons.hyps(1) [OF ts _ s1(3) self1]) blast
    note r = r(1) r(2) [folded ts] r(3)
    have "times_out U self (t # woken) rest Ts Ts' s s'"
      unfolding times_out_def
    proof (intro conjI allI impI ballI)
      show "wc_deadline (ke_wait s ((t # woken) ! i)) \<le> ke_times s (ke_reads s + 3 * i)" if "i < length (t # woken)" for i
      proof (cases i)
        case 0
        then show ?thesis using False by simp
      next
        case (Suc j)
        then have j: "j < length woken" using that by simp
        then have "woken ! j \<noteq> t" using tn r(2) by (auto simp: in_set_conv_nth)
        then have "ke_wait s1 (woken ! j) = ke_wait s (woken ! j)" using s1(7) by blast
        moreover have "wc_deadline (ke_wait s1 (woken ! j)) \<le> ke_times s1 (ke_reads s1 + 3 * j)" using r(3) j by (simp add: times_out_def)
        ultimately show ?thesis using s1(9,10) Suc by (simp add: algebra_simps)
      qed
      have "u \<noteq> t" if "u \<in> set rest" for u using tn r(2) that by auto
      then show "wc_deadline (ke_wait s u) > ke_times s (ke_reads s + 3 * length (t # woken))" if "u \<in> set rest" for u
        using r(3) s1(7,9,10) that by (simp add: times_out_def algebra_simps)
      show "let now = ke_times s (ke_reads s + 3 * length (t # woken)) in last (sy_log s') = Timer_set self now (wc_deadline (ke_wait s (hd rest)))"
        if "rest \<noteq> []"
        using r(2,3) s1(7,9,10) that tn by (cases rest) (simp_all add: times_out_def algebra_simps)
      have "t \<notin> set woken" using tn r(2) by auto
      then show "sy_state s' u = THREAD_ACTIVE" "wc_err (ke_wait s' u) = Some ETIMEDOUT" if "u \<in> set (t # woken)" for u
        using r(3) s1(5,6) that by (cases "u = t"; simp add: times_out_def)+
      show "sy_state s' u = sy_state s u" "ke_wait s' u = ke_wait s u" if "u \<notin> set (t # woken)" for u
        using r(3) s1(5,7) that by (simp_all add: times_out_def)
      show "same_cpus s s'" using same_cpus_trans [OF s1(11), of s'] r(3) by (simp add: times_out_def)
    qed (use r(3) q in \<open>auto simp: times_out_def\<close>)
    then show ?thesis using r(1,2) step list by (intro Cons.prems(1) [of s' "t # woken" rest Ts']) simp_all
  qed
qed

end
