(* ===== verification/Wait_Block.thy ===== *)
theory Wait_Block
  imports Wait_Ops
begin

text \<open>
  Blocking: the entries a thread makes, its place among the blocked threads of its CPU, and the scheduler interrupt
  that takes it off the run queue and chooses the next thread.
\<close>

section \<open>The list of blocked threads\<close>

lemma insert_blocked_place:
  assumes "\<exists>u \<in> set xs. deadline u > deadline t" "sorted_wrt (\<lambda>a b. deadline a \<le> deadline b) xs"
  shows "\<exists>ys zs. xs = ys @ zs \<and> insert_blocked deadline t xs = ys @ t # zs \<and> (\<forall>u \<in> set ys. deadline u \<le> deadline t) \<and>
    (\<forall>u \<in> set zs. deadline t \<le> deadline u)"
  using assms
proof (induction xs)
  case (Cons x xs)
  show ?case
  proof (cases "deadline x > deadline t")
    case True
    then have "\<forall>u \<in> set (x # xs). deadline t \<le> deadline u" using Cons.prems(2) by fastforce
    then show ?thesis using True by (intro exI [of _ "[]"] exI [of _ "x # xs"]) simp
  next
    case False
    then obtain ys zs where "xs = ys @ zs" "insert_blocked deadline t xs = ys @ t # zs" "\<forall>u \<in> set ys. deadline u \<le> deadline t"
      "\<forall>u \<in> set zs. deadline t \<le> deadline u" using Cons by auto
    then show ?thesis using False by (intro exI [of _ "x # ys"] exI [of _ zs]) simp
  qed
qed simp

text \<open>The list after the insertion, in both branches of \<^verbatim>\<open>wait_block_finalize\<close>.\<close>

definition with_blocked :: "(thread \<Rightarrow> u64) \<Rightarrow> thread \<Rightarrow> thread list \<Rightarrow> thread list" where
  "with_blocked deadline t xs =
     (if deadline t = CLOCKS_NEVER \<or> xs = [] \<or> deadline (last xs) \<le> deadline t then xs @ [t] else insert_blocked deadline t xs)"

lemma with_blocked_place:
  assumes "sorted_wrt (\<lambda>a b. deadline a \<le> deadline b) xs"
  shows "\<exists>ys zs. xs = ys @ zs \<and> with_blocked deadline t xs = ys @ t # zs \<and> (\<forall>u \<in> set ys. deadline u \<le> deadline t) \<and>
    (\<forall>u \<in> set zs. deadline t \<le> deadline u)"
proof (cases "deadline t = CLOCKS_NEVER \<or> xs = [] \<or> deadline (last xs) \<le> deadline t")
  case True
  have "deadline u \<le> deadline t" if u: "u \<in> set xs" for u
  proof (cases "deadline t = CLOCKS_NEVER")
    case False
    then have last: "deadline (last xs) \<le> deadline t" using True u by auto
    have "deadline u \<le> deadline (last xs)"
      using assms u by (cases xs rule: rev_cases) (auto simp: sorted_wrt_append)
    then show ?thesis using last by simp
  qed (simp add: CLOCKS_NEVER_def)
  then show ?thesis using True by (intro exI [of _ xs] exI [of _ "[]"]) (simp add: with_blocked_def)
next
  case False
  then have "\<exists>u \<in> set xs. deadline u > deadline t" by (intro bexI [of _ "last xs"]) auto
  from insert_blocked_place [OF this assms] show ?thesis using False by (simp add: with_blocked_def)
qed

lemma with_blocked_props:
  assumes "sorted_wrt (\<lambda>a b. deadline a \<le> deadline b) xs" "distinct xs" "t \<notin> set xs"
  shows "sorted_wrt (\<lambda>a b. deadline a \<le> deadline b) (with_blocked deadline t xs)" "distinct (with_blocked deadline t xs)"
    "set (with_blocked deadline t xs) = insert t (set xs)" "remove1 t (with_blocked deadline t xs) = xs"
proof -
  obtain ys zs where p: "xs = ys @ zs" "with_blocked deadline t xs = ys @ t # zs" "\<forall>u \<in> set ys. deadline u \<le> deadline t"
    "\<forall>u \<in> set zs. deadline t \<le> deadline u" using with_blocked_place [OF assms(1), of t] by blast
  show "sorted_wrt (\<lambda>a b. deadline a \<le> deadline b) (with_blocked deadline t xs)"
    using assms(1) p by (auto simp: sorted_wrt_append)
  show "distinct (with_blocked deadline t xs)" "set (with_blocked deadline t xs) = insert t (set xs)" "remove1 t (with_blocked deadline t xs) = xs"
    using assms(2,3) p by (auto simp: remove1_append)
qed

section \<open>Finalizing\<close>

definition finalizes :: "cpu \<Rightarrow> thread \<Rightarrow> bool \<Rightarrow> 'z kernel_scheme \<Rightarrow> 'z kernel_scheme \<Rightarrow> bool" where
  "finalizes self t b s s' \<longleftrightarrow>
     sy_nodes s' = sy_nodes s \<and> sy_clients s' = sy_clients s \<and> sy_scheds s' = sy_scheds s \<and> sy_priority s' = sy_priority s \<and>
     sy_state s' = (sy_state s)(t := if b then THREAD_BLOCKED else THREAD_ACTIVE) \<and>
     entries_linked s' \<and> blocked_ok {} s' \<and> (\<forall>u. u \<noteq> t \<longrightarrow> ke_wait s' u = ke_wait s u) \<and>
     (if b then t \<in> set (ke_blocked s' self) \<and> wc_owner (ke_wait s' t) = Some self else wc_entries (ke_wait s' t) = []) \<and>
     ke_times s' = ke_times s \<and> ke_reads s' = ke_reads s"

lemma finalize_early:
  assumes lk: "entries_linked s" and bl: "blocked_ok {} s" and st: "sy_state s t \<noteq> THREAD_BLOCKED"
    and s1: "sy_nodes s1 = sy_nodes s" "sy_clients s1 = sy_clients s" "sy_scheds s1 = sy_scheds s" "sy_priority s1 = sy_priority s"
      "sy_state s1 = (sy_state s)(t := THREAD_UNBLOCKING)" "ke_blocked s1 = ke_blocked s" "ke_entry s1 = ke_entry s" "ke_queues s1 = ke_queues s"
      "\<And>u. u \<noteq> t \<Longrightarrow> ke_wait s1 u = ke_wait s u" "wc_entries (ke_wait s1 t) = wc_entries (ke_wait s t)" "ke_times s1 = ke_times s" "ke_reads s1 = ke_reads s"
  obtains s' where "wait_remove_wait_entries t err s1 = Some s'" "finalizes self t False s (set_state t THREAD_ACTIVE s')" "wc_err (ke_wait s' t) = err"
proof -
  have w: "wc_entries (ke_wait s1 u) = wc_entries (ke_wait s u)" for u using s1(9,10) by (cases "u = t") auto
  have "entries_linked s1" using lk by (subst linked_cong [of _ s]) (simp_all add: s1 w)
  then obtain s' where s': "wait_remove_wait_entries t err s1 = Some s'" "entries_linked s'" "wc_entries (ke_wait s' t) = []" "wc_err (ke_wait s' t) = err"
    "unlinks t s1 s'" by (rule remove_wait_entries_result [of s1 t err]) (use s1(5) in simp)
  let ?s = "set_state t THREAD_ACTIVE s'"
  note B = blocked_okD [OF bl]
  have ke: "ke_wait ?s u = ke_wait s u" if "u \<noteq> t" for u using that s'(5) s1(9) by (simp add: unlinks_def)
  have "sy_state s' = (sy_state s)(t := THREAD_UNBLOCKING)" using s'(5) s1(5) by (simp add: unlinks_def)
  then have state: "sy_state ?s = (sy_state s)(t := THREAD_ACTIVE)" and wait: "waiting {} ?s u \<longleftrightarrow> waiting {} s u" for u
    using st by (simp_all add: waiting_def)
  have nt: "u \<noteq> t" if "waiting {} s u" for u using that st by (auto simp: waiting_def)
  have blk: "ke_blocked ?s = ke_blocked s" using s'(5) s1(6) by (simp add: unlinks_def)
  have mem: "u \<noteq> t" if "u \<in> set (ke_blocked s c)" for u c using B(3) [of u c] that nt by auto
  have "blocked_ok {} ?s"
    unfolding blocked_ok_def wait blk
  proof (intro conjI allI impI ballI)
    show "sorted_wrt (\<lambda>a b. wc_deadline (ke_wait ?s a) \<le> wc_deadline (ke_wait ?s b)) (ke_blocked s c)" for c
      by (rule sorted_wrt_mono_rel [OF _ B(2)]) (use mem ke in simp)
    show "u \<in> set (ke_blocked s c) \<longleftrightarrow> waiting {} s u \<and> wc_owner (ke_wait ?s u) = Some c" for c u
      using B(3) [of u c] nt [of u] ke [of u] by auto
    show "wc_owner (ke_wait ?s u) \<noteq> None" if "waiting {} s u" for u using B(4) [OF that] nt [OF that] ke [of u] by auto
  qed (use B(1) in simp_all)
  moreover have "entries_linked ?s" using s'(2) by (subst linked_cong [of _ s']) simp_all
  ultimately have "finalizes self t False s ?s"
    unfolding finalizes_def using s'(3,5) s1 ke state by (simp add: unlinks_def)
  then show thesis using that s'(1,4) by blast
qed

lemma finalize_result:
  assumes lk: "entries_linked s" and bl: "blocked_ok {} s" and st: "sy_state s t = THREAD_PRE_BLOCK \<or> sy_state s t = THREAD_UNBLOCKING"
  obtains b s' where "wait_block_finalize self t uptime s = Some (b, s')" "finalizes self t b s s'"
    "b \<longleftrightarrow> sy_state s t = THREAD_PRE_BLOCK \<and> \<not> ke_notes s t"
proof -
  note B = blocked_okD [OF bl]
  let ?deadline = "\<lambda>u. wc_deadline (ke_wait s u)" and ?xs = "ke_blocked s self"
  let ?ys = "with_blocked ?deadline t ?xs"
  have nt: "t \<notin> set (ke_blocked s c)" for c using B(3) [of t c] st by (auto simp: waiting_def)
  note W = with_blocked_props [OF B(2) B(1) nt]
  let ?s1 = "(set_wait t (\<lambda>w. w\<lparr>wc_owner := Some self\<rparr>) s)\<lparr>ke_blocked := (ke_blocked s)(self := ?ys)\<rparr>"
  have dl: "(\<lambda>u. wc_deadline (ke_wait (set_wait t (\<lambda>w. w\<lparr>wc_owner := Some self\<rparr>) s) u)) = ?deadline" by auto
  have s1: "sy_nodes ?s1 = sy_nodes s" "sy_clients ?s1 = sy_clients s" "sy_scheds ?s1 = sy_scheds s" "sy_priority ?s1 = sy_priority s"
    "sy_state ?s1 = sy_state s" "ke_blocked ?s1 = (ke_blocked s)(self := ?ys)" "ke_entry ?s1 = ke_entry s" "ke_queues ?s1 = ke_queues s"
    "ke_wait ?s1 = (ke_wait s)(t := (ke_wait s t)\<lparr>wc_owner := Some self\<rparr>)" "ke_times ?s1 = ke_times s" "ke_reads ?s1 = ke_reads s"
    "ke_notes ?s1 = ke_notes s" by simp_all
  have def: "wait_block_finalize self t uptime s =
    (if sy_state ?s1 t \<noteq> THREAD_PRE_BLOCK then do {
       s \<leftarrow> wait_remove_wait_entries t None (blocked_remove self t ?s1);
       Some (False, set_state t THREAD_ACTIVE s)
     }
     else do {
       let s = set_state t THREAD_BLOCKED ?s1;
       if ke_notes s t then do {
         s \<leftarrow> wait_remove_wait_entries t (Some EINTR) (blocked_remove self t (set_state t THREAD_UNBLOCKING s));
         Some (False, set_state t THREAD_ACTIVE s)
       }
       else Some (True, emit (Timer_set self uptime (wc_deadline (ke_wait s t))) s)
     })"
    unfolding wait_block_finalize_def Let_def dl with_blocked_def by simp
  have stb: "sy_state s t \<noteq> THREAD_BLOCKED" using st by auto
  consider "sy_state s t = THREAD_UNBLOCKING" | "sy_state s t = THREAD_PRE_BLOCK" "ke_notes s t" | "sy_state s t = THREAD_PRE_BLOCK" "\<not> ke_notes s t"
    using st by auto
  then show thesis
  proof cases
    case 1
    obtain s' where "wait_remove_wait_entries t None (blocked_remove self t ?s1) = Some s'" "finalizes self t False s (set_state t THREAD_ACTIVE s')"
      by (rule finalize_early [OF lk bl stb, of "blocked_remove self t ?s1" None self]) (use W(4) 1 in auto)
    then show thesis using that [of False] 1 unfolding def by simp
  next
    case 2
    let ?s2 = "blocked_remove self t (set_state t THREAD_UNBLOCKING (set_state t THREAD_BLOCKED ?s1))"
    obtain s' where "wait_remove_wait_entries t (Some EINTR) ?s2 = Some s'" "finalizes self t False s (set_state t THREAD_ACTIVE s')"
      by (rule finalize_early [OF lk bl stb, of ?s2 "Some EINTR" self]) (use W(4) in auto)
    then show thesis using that [of False] 2 unfolding def by simp
  next
    case 3
    let ?s2 = "emit (Timer_set self uptime (wc_deadline (ke_wait s t))) (set_state t THREAD_BLOCKED ?s1)"
    have call: "wait_block_finalize self t uptime s = Some (True, ?s2)" using 3 unfolding def by simp
    have wait: "waiting {} ?s2 u \<longleftrightarrow> u = t \<or> waiting {} s u" for u by (simp add: waiting_def)
    have dl2: "wc_deadline (ke_wait ?s2 u) = ?deadline u" for u by simp
    have blk: "ke_blocked ?s2 = (ke_blocked s)(self := ?ys)" by simp
    have "blocked_ok {} ?s2"
      unfolding blocked_ok_def wait dl2 blk
    proof (intro conjI allI impI ballI)
      show "distinct (((ke_blocked s)(self := ?ys)) c)" for c using W(2) B(1) by simp
      show "sorted_wrt (\<lambda>a b. ?deadline a \<le> ?deadline b) (((ke_blocked s)(self := ?ys)) c)" for c using W(1) B(2) by simp
      show "u \<in> set (((ke_blocked s)(self := ?ys)) c) \<longleftrightarrow> (u = t \<or> waiting {} s u) \<and> wc_owner (ke_wait ?s2 u) = Some c" for c u
        using W(3) B(3) [of u c] nt by auto
      show "wc_owner (ke_wait ?s2 u) \<noteq> None" if "u = t \<or> waiting {} s u" for u using that B(4) [of u] by auto
    qed simp
    moreover have "entries_linked ?s2" using lk by (subst linked_cong [of _ s]) simp_all
    ultimately have "finalizes self t True s ?s2" using W(3) by (simp add: finalizes_def)
    then show thesis using that call 3 by blast
  qed
qed

section \<open>The scheduler interrupt\<close>

text \<open>While \<^verbatim>\<open>sched_do\<close> looks for the next thread, the one that ran may have left: the invariant then holds as if the CPU
  were idle.\<close>

definition set_run :: "cpu \<Rightarrow> thread \<Rightarrow> 'z sys_scheme \<Rightarrow> 'z sys_scheme" where
  "set_run self t = set_sched self (\<lambda>sched. sched\<lparr>runThread := t\<rparr>)"

lemma set_run_simps [simp]:
  "sy_nodes (set_run i t s) = sy_nodes s" "sy_clients (set_run i t s) = sy_clients s" "sy_state (set_run i t s) = sy_state s"
  "sy_priority (set_run i t s) = sy_priority s" "sy_log (set_run i t s) = sy_log s" "sys.more (set_run i t s) = sys.more s"
  "length (sy_scheds (set_run i t s)) = length (sy_scheds s)"
  by (simp_all add: set_run_def)

lemma set_run_sched:
  assumes "i < length (sy_scheds s)"
  shows "runThread (sched_of j (set_run i t s)) = (if j = i then t else runThread (sched_of j s))"
    "idleThread (sched_of j (set_run i t s)) = idleThread (sched_of j s)" "runqueue (sched_of j (set_run i t s)) = runqueue (sched_of j s)"
    "totalWeight (sched_of j (set_run i t s)) = totalWeight (sched_of j s)"
  using assms by (simp_all add: set_run_def)

lemma set_run_wait [simp]:
  "ke_wait (set_run i t s) = ke_wait s" "ke_entry (set_run i t s) = ke_entry s" "ke_queues (set_run i t s) = ke_queues s"
  "ke_blocked (set_run i t s) = ke_blocked s"
  using kernel_more [of "set_run i t s" s] by simp_all

lemma set_run_sys_ok: "i < length (sy_scheds s) \<Longrightarrow> sys_ok (set_run i t s) Ts = sys_ok s Ts"
  by (simp add: sys_ok_def sched_ok_def queue_ok_def queue_of_def weights_def set_run_sched)

lemma idle_run_ok:
  assumes ok: "kernel_ok U {} s Ts" and self: "self < length Ts"
    and run: "sy_state s (runThread (sched_of self s)) = THREAD_ACTIVE" "wc_entries (ke_wait s (runThread (sched_of self s))) = []"
  shows "kernel_ok U {} (set_run self (idleThread (sched_of self s)) s) Ts" (is "kernel_ok U {} ?s Ts")
proof -
  note K = kernel_okD [OF ok] and Q = threads_okD [OF kernel_okD(5) [OF ok]]
  have len: "self < length (sy_scheds s)" using self sys_okD(1) [OF K(1)] by simp
  note S = set_run_sched [OF len]
  have wait: "waiting {} ?s u \<longleftrightarrow> waiting {} s u" for u by (simp add: waiting_def)
  have "sys_ok ?s Ts" using K(1) set_run_sys_ok [OF len] by simp
  moreover have "runs_ok ?s Ts" using K(2) by (auto simp: runs_ok_def run_ok_def S)
  moreover have "entries_linked ?s" using K(3) by (subst linked_cong [of _ s]) simp_all
  moreover have "blocked_ok {} ?s" using K(4) by (simp add: blocked_ok_def wait)
  moreover have "threads_ok U {} ?s Ts"
    unfolding threads_ok_def wait
  proof (intro conjI allI impI ballI)
    show "sy_state ?s u = THREAD_ACTIVE" if "i < length Ts" "u \<in> set (ino (Ts ! i))" "u \<noteq> runThread (sched_of i ?s)" for i u
      using Q(7) [of i u] that run(1) by (cases "u = runThread (sched_of i s)"; cases "i = self") (simp_all add: S)
    show "waiting {} s u \<or> (\<exists>i < length Ts. u = runThread (sched_of i ?s) \<and> u \<in> set (ino (Ts ! i)))" if u: "wc_entries (ke_wait ?s u) \<noteq> []" for u
    proof -
      have "waiting {} s u \<or> (\<exists>i < length Ts. u = runThread (sched_of i s) \<and> u \<in> set (ino (Ts ! i)))" using Q(9) [of u] u by simp
      moreover have "u \<noteq> runThread (sched_of self s)" using u run(2) by auto
      ultimately show ?thesis using S(1) by (metis (no_types, lifting))
    qed
  qed (use Q(1-6,8) in \<open>simp_all add: S\<close>)
  ultimately show ?thesis by (simp add: kernel_ok_def)
qed

lemma leave_run_ok:
  assumes ok: "kernel_ok U {} s Ts" and self: "self < length Ts" and run: "run = runThread (sched_of self s)" "run \<in> set (ino (Ts ! self))"
    and s1: "sy_nodes s1 = sy_nodes s" "sy_clients s1 = sy_clients s" "sy_scheds s1 = sy_scheds s" "sy_state s1 = (sy_state s)(run := k)"
      "entries_linked s1" "blocked_ok {} s1" "\<And>u. u \<noteq> run \<Longrightarrow> ke_wait s1 u = ke_wait s u"
    and k: "k = THREAD_BLOCKED \<or> k = THREAD_DYING \<and> wc_entries (ke_wait s1 run) = []"
  obtains s' T' where "sched_leave self run uptime s1 = Some s'" "kernel_ok U {} (set_run self (idleThread (sched_of self s)) s') (Ts[self := T'])"
    "steady s1 s'" "sy_state s' = sy_state s1" "run \<notin> queued (Ts[self := T'])" "set (ino T') = set (ino (Ts ! self)) - {run}"
proof -
  note K = kernel_okD [OF ok] and Q = threads_okD [OF kernel_okD(5) [OF ok]]
  have sys1: "sys_ok s1 Ts" using K(1) sys_ok_cong [OF s1(1-3)] by simp
  obtain s' T' where s': "sched_leave self run uptime s1 = Some s'" "sys_ok s' (Ts[self := T'])" "queued (Ts[self := T']) = queued Ts - {run}"
    "set (ino T') = set (ino (Ts ! self)) - {run}" "steady s1 s'" "sy_state s' = sy_state s1"
    by (rule leave_steady [OF sys1 self run(2)])
  have len: "self < length (sy_scheds s')" using self sys_okD(1) [OF s'(2)] by simp
  note S = set_run_sched [OF len]
  let ?s = "set_run self (idleThread (sched_of self s)) s'"
  have "sys.more s' = sys.more s1" using s'(5) by (simp add: steady_def)
  note ke = kernel_more [OF this]
  have R: "runThread (sched_of i s') = runThread (sched_of i s)" "idleThread (sched_of i s') = idleThread (sched_of i s)"
    "lastCpu (sy_clients s' x) = lastCpu (sy_clients s x)" for i x using s'(5) s1(2,3) by (simp_all add: steady_def)
  have st: "sy_state ?s u = (if u = run then k else sy_state s u)" for u using s'(6) s1(4) by simp
  have wait: "waiting {} ?s u \<longleftrightarrow> (if u = run then k = THREAD_BLOCKED else waiting {} s u)" for u using st by (simp add: waiting_def)
  have wait1: "waiting {} ?s u \<longleftrightarrow> waiting {} s1 u" for u using s'(6) by (simp add: waiting_def)
  have other: "set (ino (Ts[self := T'] ! i)) = set (ino (Ts ! i)) - {run}" if "i < length Ts" for i
    using that s'(4) sys_okD(5) [OF K(1) self that] run(2) by (cases "i = self") auto
  have "sys_ok ?s (Ts[self := T'])" using s'(2) set_run_sys_ok [OF len] by simp
  moreover have "run_ok ?s i (Ts[self := T'] ! i)" if i: "i < length Ts" for i
  proof (cases "i = self")
    case False
    have "runThread (sched_of i s) \<noteq> run \<or> runThread (sched_of i s) \<notin> set (ino (Ts ! i))"
      using sys_okD(5) [OF K(1) self i] run(2) False by auto
    then show ?thesis using K(2) i False other [OF i] by (auto simp: runs_ok_def run_ok_def S R)
  qed (simp add: run_ok_def S R)
  then have "runs_ok ?s (Ts[self := T'])" using K(2) by (simp add: runs_ok_def R)
  moreover have "entries_linked ?s" using s1(5) ke by (subst linked_cong [of _ s1]) simp_all
  moreover have "blocked_ok {} ?s" using s1(6) ke by (simp add: blocked_ok_def wait1)
  moreover have "threads_ok U {} ?s (Ts[self := T'])"
    unfolding threads_ok_def length_list_update
  proof (intro conjI allI impI ballI)
    show "queued (Ts[self := T']) \<subseteq> U" using Q(3) s'(3) by auto
    have rU: "run \<in> queued Ts" using run(2) self by (auto simp: queued_nth)
    fix u
    assume w: "waiting {} ?s u"
    show "u \<in> U" "u \<notin> queued (Ts[self := T'])" using w Q(3,4,5) rU s'(3) by (auto simp: wait split: if_splits)
    show "u \<noteq> idleThread (sched_of i ?s)" if "i < length Ts" for i
      using w Q(6) [of u i] sys_okD(6) [OF K(1) that self] run(2) that by (cases "u = run") (auto simp: wait S R)
  next
    show "sy_state ?s u = THREAD_ACTIVE" if i: "i < length Ts" "u \<in> set (ino (Ts[self := T'] ! i))" "u \<noteq> runThread (sched_of i ?s)" for i u
      using Q(7) [of i u] i other [OF i(1)] run(1) st [of u] by (cases "i = self") (auto simp: S R)
    show "sy_state ?s (idleThread (sched_of i ?s)) = THREAD_ACTIVE" if "i < length Ts" for i
      using Q(8) [OF that] sys_okD(6) [OF K(1) that self] run(2) st by (auto simp: S R)
  next
    fix u
    assume u: "wc_entries (ke_wait ?s u) \<noteq> []"
    show "waiting {} ?s u \<or> (\<exists>i < length Ts. u = runThread (sched_of i ?s) \<and> u \<in> set (ino (Ts[self := T'] ! i)))"
    proof (cases "u = run")
      case True
      then show ?thesis using k u ke by (auto simp: wait)
    next
      case False
      then have "wc_entries (ke_wait s u) \<noteq> []" using u ke s1(7) by simp
      then have "waiting {} s u \<or> (\<exists>i < length Ts. u = runThread (sched_of i s) \<and> u \<in> set (ino (Ts ! i)))" by (rule Q(9))
      then show ?thesis
      proof
        assume "\<exists>i < length Ts. u = runThread (sched_of i s) \<and> u \<in> set (ino (Ts ! i))"
        then obtain i where i: "i < length Ts" "u = runThread (sched_of i s)" "u \<in> set (ino (Ts ! i))" by blast
        then have "i \<noteq> self" using False run(1) by auto
        then show ?thesis using i other [OF i(1)] False by (intro disjI2 exI [of _ i]) (simp add: S R)
      qed (use False in \<open>simp add: wait\<close>)
    qed
  qed (use Q(1,2) in simp_all)
  ultimately have "kernel_ok U {} ?s (Ts[self := T'])" by (simp add: kernel_ok_def)
  then show thesis using that [OF s'(1) _ s'(5,6) _ s'(4)] s'(3) by simp
qed

lemma vtime_kernel_ok:
  assumes ok: "kernel_ok U {} s Ts" and self: "self < length Ts"
  obtains s' T' where "sched_vtime_update self uptime s = Some s'" "kernel_ok U {} s' (Ts[self := T'])" "set (ino T') = set (ino (Ts ! self))"
    "steady s s'" "sy_state s' = sy_state s"
proof -
  note K = kernel_okD [OF ok] and Q = threads_okD [OF kernel_okD(5) [OF ok]]
  have run: "run_ok s self (Ts ! self)" using K(2) self by (simp add: runs_ok_def)
  obtain s' T' where s': "sched_vtime_update self uptime s = Some s'" "sys_ok s' (Ts[self := T'])" "mset (ino T') = mset (ino (Ts ! self))"
    "calm (set (ino (Ts ! self))) self s s'" by (rule vtime_update_result [OF K(1) self run]) blast
  have set': "set (ino T') = set (ino (Ts ! self))" using s'(3) by (metis set_mset_mset)
  have st: "steady s s'" "sy_state s' = sy_state s"
    using s'(4) by (auto simp: calm_def intro!: steady_queue [of s' s self])
  have ino: "set (ino (Ts[self := T'] ! i)) = set (ino (Ts ! i))" if "i < length Ts" for i using that set' by (cases "i = self") auto
  have q: "queued (Ts[self := T']) = queued Ts" unfolding set_eq_iff queued_update [OF self] set' using self by (auto simp: queued_nth)
  have "sys.more s' = sys.more s" using st(1) by (simp add: steady_def)
  note ke = kernel_more [OF this]
  have R: "runThread (sched_of i s') = runThread (sched_of i s)" "idleThread (sched_of i s') = idleThread (sched_of i s)"
    "lastCpu (sy_clients s' x) = lastCpu (sy_clients s x)" for i x using st(1) by (simp_all add: steady_def)
  have wait: "waiting {} s' u \<longleftrightarrow> waiting {} s u" for u by (simp add: waiting_def st)
  have "runs_ok s' (Ts[self := T'])" using K(2) ino by (simp add: runs_ok_def run_ok_def R)
  moreover have "entries_linked s'" using K(3) ke by (subst linked_cong [of _ s]) simp_all
  moreover have "blocked_ok {} s'" using K(4) ke by (simp add: blocked_ok_def wait)
  moreover have "(\<exists>i < length Ts. P i \<and> u \<in> set (ino (Ts[self := T'] ! i))) \<longleftrightarrow> (\<exists>i < length Ts. P i \<and> u \<in> set (ino (Ts ! i)))" for P u
    using ino by (auto cong: conj_cong)
  then have "threads_ok U {} s' (Ts[self := T'])"
    using K(5) ino by (simp add: threads_ok_def wait q R st ke)
  ultimately show thesis using that s'(1,2) set' st by (simp add: kernel_ok_def)
qed

lemma early_ok:
  assumes ok: "kernel_ok U {} s Ts" and F: "finalizes self t False s s'" and t: "sy_state s t \<noteq> THREAD_BLOCKED"
  shows "kernel_ok U {} s' Ts"
proof -
  note K = kernel_okD [OF ok] and Q = threads_okD [OF kernel_okD(5) [OF ok]] and F = F [unfolded finalizes_def]
  have wait: "waiting {} s' u \<longleftrightarrow> waiting {} s u" for u using F t by (auto simp: waiting_def)
  have "sys_ok s' Ts" "runs_ok s' Ts" using K(1,2) kernel_sys [of s' s Ts] F by simp_all
  moreover have "threads_ok U {} s' Ts"
    unfolding threads_ok_def wait
  proof (intro conjI allI impI ballI)
    show "sy_state s' u = THREAD_ACTIVE" if "i < length Ts" "u \<in> set (ino (Ts ! i))" "u \<noteq> runThread (sched_of i s')" for i u
      using Q(7) [of i u] F that by (cases "u = t") simp_all
    show "waiting {} s u \<or> (\<exists>i < length Ts. u = runThread (sched_of i s') \<and> u \<in> set (ino (Ts ! i)))" if "wc_entries (ke_wait s' u) \<noteq> []" for u
      using Q(9) [of u] F that by (cases "u = t") simp_all
  qed (use Q(1-6,8) F in simp_all)
  ultimately show ?thesis using F by (simp add: kernel_ok_def)
qed

text \<open>Only what runs on one CPU changes, and only the thread that ran there.\<close>

definition only_cpu :: "cpu \<Rightarrow> 'z kernel_scheme \<Rightarrow> 'z kernel_scheme \<Rightarrow> bool" where
  "only_cpu self s s' \<longleftrightarrow>
     length (sy_scheds s') = length (sy_scheds s) \<and>
     (\<forall>j. idleThread (sched_of j s') = idleThread (sched_of j s) \<and> (j \<noteq> self \<longrightarrow> runThread (sched_of j s') = runThread (sched_of j s))) \<and>
     (\<forall>u. u \<noteq> runThread (sched_of self s) \<longrightarrow> sy_state s' u = sy_state s u \<and> ke_wait s' u = ke_wait s u) \<and>
     (\<forall>u. sy_state s' u = THREAD_BLOCKED \<longrightarrow>
        wc_owner (ke_wait s' u) = Some self \<or> sy_state s u = THREAD_BLOCKED \<and> ke_wait s' u = ke_wait s u)"

lemma steady_only: "steady s s' \<Longrightarrow> sy_state s' = sy_state s \<Longrightarrow> only_cpu self s s'"
  using kernel_more [of s' s] by (simp add: only_cpu_def steady_def)

lemma only_cpu_trans:
  assumes "only_cpu self s s'" "only_cpu self s' s''" "runThread (sched_of self s') = runThread (sched_of self s)"
  shows "only_cpu self s s''"
proof -
  note O = assms(1,2) [unfolded only_cpu_def]
  have "wc_owner (ke_wait s'' u) = Some self \<or> sy_state s u = THREAD_BLOCKED \<and> ke_wait s'' u = ke_wait s u"
    if "sy_state s'' u = THREAD_BLOCKED" for u
    using O that by metis
  then show ?thesis using O assms(3) by (simp add: only_cpu_def)
qed

lemma do_state_result:
  assumes ok: "kernel_ok U {} s Ts" and self: "self < length Ts" and run: "run = runThread (sched_of self s)"
    and st: "sy_state s run \<in> {THREAD_ACTIVE, THREAD_DYING, THREAD_PRE_BLOCK, THREAD_UNBLOCKING}"
    and entries: "sy_state s run \<in> {THREAD_ACTIVE, THREAD_DYING} \<Longrightarrow> wc_entries (ke_wait s run) = []"
  obtains f s' Ts' where "sched_do_state self uptime s = Some (f, s')" "kernel_ok U {} (set_run self (idleThread (sched_of self s)) s') Ts'"
    "length Ts' = length Ts" "\<forall>j. runThread (sched_of j s') = runThread (sched_of j s) \<and> idleThread (sched_of j s') = idleThread (sched_of j s)"
    "length (sy_scheds s') = length (sy_scheds s)" "f \<noteq> None \<longrightarrow> f = Some run \<and> run \<notin> queued Ts' \<and> run \<noteq> idleThread (sched_of self s)"
    "only_cpu self s s'"
proof -
  note K = kernel_okD [OF ok] and Q = threads_okD [OF kernel_okD(5) [OF ok]]
  have in_queue: "run \<noteq> idleThread (sched_of self s) \<and> run \<in> set (ino (Ts ! self))" if "sy_state s run \<noteq> THREAD_ACTIVE"
    using that Q(8) [OF self] K(2) self run by (auto simp: runs_ok_def run_ok_def)
  show thesis
  proof (cases "sy_state s run = THREAD_ACTIVE")
    case True
    have "kernel_ok U {} (set_run self (idleThread (sched_of self s)) s) Ts" using idle_run_ok [OF ok self] True entries run by simp
    then show thesis using that [of None s Ts] True run by (simp add: sched_do_state_def only_cpu_def)
  next
    case False
    note iq = in_queue [OF False]
    show thesis
    proof (cases "sy_state s run = THREAD_DYING")
      case True
      obtain s' T' where s': "sched_leave self run uptime s = Some s'" "kernel_ok U {} (set_run self (idleThread (sched_of self s)) s') (Ts[self := T'])"
        "steady s s'" "run \<notin> queued (Ts[self := T'])" "sy_state s' = sy_state s"
        by (rule leave_run_ok [OF ok self run, of s THREAD_DYING uptime]) (use iq K(3,4) True entries in auto)
      then show thesis using that [of "Some run" s' "Ts[self := T']"] True iq run steady_only [OF s'(3,5)] by (simp add: sched_do_state_def steady_def)
    next
      case not_dying: False
      then have pre: "sy_state s run = THREAD_PRE_BLOCK \<or> sy_state s run = THREAD_UNBLOCKING" using st False by auto
      obtain b s1 where s1: "wait_block_finalize self run uptime s = Some (b, s1)" "finalizes self run b s s1"
        by (rule finalize_result [OF K(3,4) pre, of self uptime]) blast
      note F = s1(2) [unfolded finalizes_def]
      show thesis
      proof (cases b)
        case True
        obtain s' T' where s': "sched_leave self run uptime s1 = Some s'" "kernel_ok U {} (set_run self (idleThread (sched_of self s)) s') (Ts[self := T'])"
          "steady s1 s'" "run \<notin> queued (Ts[self := T'])" "sy_state s' = sy_state s1"
          by (rule leave_run_ok [OF ok self run, of s1 THREAD_BLOCKED uptime]) (use iq F True in auto)
        have "sched_do_state self uptime s = Some (None, s')"
          using pre s1(1) True s'(1) iq run by (auto simp: sched_do_state_def)
        moreover have "only_cpu self s s1" using F run True by (auto simp: only_cpu_def)
        then have "only_cpu self s s'" by (rule only_cpu_trans [OF _ steady_only [OF s'(3,5)]]) (use F in simp)
        ultimately show thesis using that [of None s' "Ts[self := T']"] s'(2-4) F by (simp add: steady_def)
      next
        case early: False
        have ok1: "kernel_ok U {} s1 Ts" by (rule early_ok [OF ok]) (use s1(2) early pre in auto)
        have a1: "sy_state s1 run = THREAD_ACTIVE" "wc_entries (ke_wait s1 run) = []" using F early by simp_all
        have id: "set_state run THREAD_ACTIVE s1 = s1" using a1(1) by (simp add: set_state_def fun_upd_idem)
        have "sched_do_state self uptime s = Some (None, s1)"
          using pre s1(1) early iq run id by (auto simp: sched_do_state_def)
        moreover have "kernel_ok U {} (set_run self (idleThread (sched_of self s)) s1) Ts"
          using idle_run_ok [OF ok1 self] a1 F run by simp
        moreover have "only_cpu self s s1" using F run early by (auto simp: only_cpu_def)
        ultimately show thesis using that [of None s1 Ts] F by simp
      qed
    qed
  qed
qed

lemma chooses_cases:
  assumes "chooses i s Ts t s' Ts'"
  obtains (own) "s' = s" "Ts' = Ts" "t \<in> set (ino (Ts ! i)) \<or> t = idleThread (sched_of i s)"
  | (stolen) m where "m < length Ts" "m \<noteq> i" "t \<in> set (ino (Ts ! m))" "t \<noteq> runThread (sched_of m s)" "set (ino (Ts' ! i)) = {t}"
      "sy_state s' = (sy_state s)(t := THREAD_ACTIVE)" "\<And>j. j < length Ts \<Longrightarrow> j \<noteq> i \<Longrightarrow> set (ino (Ts' ! j)) = set (ino (Ts ! j)) - {t}"
  using assms unfolding chooses_def by (auto split: if_splits)

lemma choose_ok:
  assumes ok: "kernel_ok U {} (set_run self (idleThread (sched_of self s)) s) Ts" and self: "self < length Ts" and len: "length (sy_scheds s) = length Ts"
    and ch: "chooses self s Ts t s' Ts'"
  shows "kernel_ok U {} (set_run self t s') Ts'" "sy_state s' t = THREAD_ACTIVE" "t = idleThread (sched_of self s) \<or> t \<in> set (ino (Ts' ! self))"
    "t \<in> queued Ts \<or> t = idleThread (sched_of self s)" "wc_entries (ke_wait s' t) = []" "sy_state s' = sy_state s"
proof -
  let ?old = "set_run self (idleThread (sched_of self s)) s" and ?s = "set_run self t s'"
  note K = kernel_okD [OF ok] and Q = threads_okD [OF kernel_okD(5) [OF ok]]
  have C: "sys_ok s' Ts'" "length Ts' = length Ts" "queued Ts' = queued Ts" "steady s s'" using ch by (simp_all add: chooses_def)
  have len': "self < length (sy_scheds s')" "self < length (sy_scheds s)" using self C(2) sys_okD(1) [OF C(1)] len by simp_all
  note S = set_run_sched [OF len'(1)] and S0 = set_run_sched [OF len'(2)]
  have "sys.more s' = sys.more s" using C(4) by (simp add: steady_def)
  note ke = kernel_more [OF this]
  have R: "runThread (sched_of i s') = runThread (sched_of i s)" "idleThread (sched_of i s') = idleThread (sched_of i s)"
    "lastCpu (sy_clients s' x) = lastCpu (sy_clients s x)" for i x using C(4) by (simp_all add: steady_def)
  have sys: "sys_ok s Ts" using K(1) set_run_sys_ok [OF len'(2)] by simp
  have active: "sy_state s u = THREAD_ACTIVE" if "i < length Ts" "u \<in> set (ino (Ts ! i))" "i = self \<or> u \<noteq> runThread (sched_of i s)" for i u
    using Q(7) [of i u] that sys_okD(6) [OF sys self self] by (cases "i = self") (auto simp: S0)
  show mine: "t = idleThread (sched_of self s) \<or> t \<in> set (ino (Ts' ! self))" by (cases rule: chooses_cases [OF ch]) auto
  have tq: "t = idleThread (sched_of self s) \<or> (\<exists>m < length Ts. t \<in> set (ino (Ts ! m)) \<and> (m = self \<or> t \<noteq> runThread (sched_of m s)))"
    using self by (cases rule: chooses_cases [OF ch]) auto
  then show "t \<in> queued Ts \<or> t = idleThread (sched_of self s)" by (auto simp: queued_nth)
  have ta: "sy_state s t = THREAD_ACTIVE" using tq active Q(8) [OF self] by (auto simp: S0)
  show st: "sy_state s' = sy_state s" using ta by (cases rule: chooses_cases [OF ch]) (simp_all add: fun_upd_idem)
  then show "sy_state s' t = THREAD_ACTIVE" using ta by simp
  have self_in: "u \<in> set (ino (Ts ! self)) \<or> u = t" if "u \<in> set (ino (Ts' ! self))" for u
    using that by (cases rule: chooses_cases [OF ch]) auto
  have ino: "u \<in> set (ino (Ts ! j))" if "j < length Ts" "j \<noteq> self" "u \<in> set (ino (Ts' ! j))" for j u
    using that by (cases rule: chooses_cases [OF ch]) auto
  have moved: "u \<in> set (ino (Ts' ! j))" if j: "j < length Ts" "j \<noteq> self" "u = runThread (sched_of j s)" "u \<in> set (ino (Ts ! j))" for j u
  proof (cases rule: chooses_cases [OF ch])
    case (2 m)
    have "u \<noteq> t" using 2(1,3,4) j sys_okD(5) [OF sys 2(1) j(1)] by (cases "j = m") auto
    then show ?thesis using 2(7) [OF j(1,2)] j(4) by simp
  qed (use j in simp)
  show "wc_entries (ke_wait s' t) = []"
  proof (rule ccontr)
    assume "wc_entries (ke_wait s' t) \<noteq> []"
    then have "wc_entries (ke_wait ?old t) \<noteq> []" using ke by simp
    then have "waiting {} ?old t \<or> (\<exists>i < length Ts. t = runThread (sched_of i ?old) \<and> t \<in> set (ino (Ts ! i)))" by (rule Q(9))
    then obtain i where i: "i < length Ts" "t = runThread (sched_of i ?old)" "t \<in> set (ino (Ts ! i))" using ta by (auto simp: waiting_def)
    have "t \<noteq> idleThread (sched_of self s)" using sys_okD(6) [OF sys self i(1)] i(3) by auto
    moreover from this have "i \<noteq> self" using i(2) by (auto simp: S0)
    ultimately show False using tq i sys_okD(5) [OF sys i(1)] by (auto simp: S0)
  qed
  have wait: "waiting {} ?s u \<longleftrightarrow> waiting {} ?old u" for u using st by (simp add: waiting_def)
  have "sys_ok ?s Ts'" using C(1) set_run_sys_ok [OF len'(1)] by simp
  moreover have "run_ok ?s i (Ts' ! i)" if i: "i < length Ts" for i
  proof (cases "i = self")
    case False
    have "run_ok ?old i (Ts ! i)" using K(2) i by (simp add: runs_ok_def)
    then show ?thesis using False moved [OF i False] by (auto simp: run_ok_def S S0 R)
  qed (use mine in \<open>auto simp: run_ok_def S R\<close>)
  then have "runs_ok ?s Ts'" using K(2) C(2) by (simp add: runs_ok_def R)
  moreover have "entries_linked ?s" using K(3) ke by (subst linked_cong [of _ ?old]) simp_all
  moreover have "blocked_ok {} ?s" using K(4) ke by (simp add: blocked_ok_def wait)
  moreover have "threads_ok U {} ?s Ts'"
    unfolding threads_ok_def wait C(2,3)
  proof (intro conjI allI impI ballI)
    show "sy_state ?s u = THREAD_ACTIVE" if i: "i < length Ts" "u \<in> set (ino (Ts' ! i))" "u \<noteq> runThread (sched_of i ?s)" for i u
    proof (cases "i = self")
      case True
      then show ?thesis using self_in i active [of self u] ta st by auto
    next
      case False
      then show ?thesis using ino [OF i(1) False] i active [of i u] st by (simp add: S R)
    qed
    show "sy_state ?s (idleThread (sched_of i ?s)) = THREAD_ACTIVE" if "i < length Ts" for i
      using Q(8) [OF that] st by (simp add: S S0 R)
    show "waiting {} ?old u \<or> (\<exists>i < length Ts. u = runThread (sched_of i ?s) \<and> u \<in> set (ino (Ts' ! i)))" if "wc_entries (ke_wait ?s u) \<noteq> []" for u
    proof -
      have "wc_entries (ke_wait ?old u) \<noteq> []" using that ke by simp
      then have "waiting {} ?old u \<or> (\<exists>i < length Ts. u = runThread (sched_of i ?old) \<and> u \<in> set (ino (Ts ! i)))" by (rule Q(9))
      then show ?thesis
      proof
        assume "\<exists>i < length Ts. u = runThread (sched_of i ?old) \<and> u \<in> set (ino (Ts ! i))"
        then obtain i where i: "i < length Ts" "u = runThread (sched_of i ?old)" "u \<in> set (ino (Ts ! i))" by blast
        then have ne: "i \<noteq> self" using sys_okD(6) [OF sys self self] by (auto simp: S0)
        then have "u = runThread (sched_of i s)" using i(2) by (simp add: S0)
        then have "u \<in> set (ino (Ts' ! i))" "u = runThread (sched_of i ?s)"
          using moved [OF i(1) ne] i(3) ne by (simp_all add: S R)
        then show ?thesis using i(1) by blast
      qed simp
    qed
  qed (use Q(1-6) in \<open>simp_all add: S S0 R\<close>)
  ultimately show "kernel_ok U {} ?s Ts'" by (simp add: kernel_ok_def)
qed

lemma stop_ok:
  assumes ok: "kernel_ok U X s Ts" and self: "self < length Ts"
  shows "kernel_ok U X (set_client x (\<lambda>client. client\<lparr>lastCpu := Some self, stop := uptime\<rparr>) s) Ts" (is "kernel_ok U X ?s Ts")
proof -
  note K = kernel_okD [OF ok]
  have w: "weight (sy_clients ?s u) = weight (sy_clients s u)" for u by simp
  have "queue_ok ?s i T = queue_ok s i T" for i T
    using queue_ok_cong [of ?s i s T] queue_ok_cong [of s i ?s T] by auto
  then have "sys_ok ?s Ts" using K(1) unfolding sys_ok_def sched_ok_def weights_def w by simp
  moreover have "runs_ok ?s Ts" using K(2) self by (auto simp: runs_ok_def run_ok_def)
  moreover have "sys.more ?s = sys.more s" by simp
  note ke = kernel_more [OF this]
  have "entries_linked ?s" using K(3) ke by (subst linked_cong [of _ s]) simp_all
  moreover have "blocked_ok X ?s" using K(4) ke by (simp add: blocked_ok_def waiting_def)
  moreover have "threads_ok U X ?s Ts" using K(5) ke by (simp add: threads_ok_def waiting_def)
  ultimately show ?thesis by (simp add: kernel_ok_def)
qed

lemma kernel_ok_emit [simp]: "kernel_ok U X (emit e s) Ts = kernel_ok U X s Ts"
  by (rule kernel_ok_cong) simp_all

lemma switch_result:
  assumes ok: "kernel_ok U {} (set_run self t s) Ts" and self: "self < length Ts" and len: "length (sy_scheds s) = length Ts"
    and t: "sy_state s t = THREAD_ACTIVE"
  obtains s' where "sched_switch self uptime t s = Some s'" "kernel_ok U {} s' Ts" "runThread (sched_of self s') = t"
    "only_cpu self s s'" "sy_state s' = sy_state s" "ke_wait s' = ke_wait s"
proof (cases "t = runThread (sched_of self s)")
  case True
  have same: "set_run self t s = s" unfolding True using self len by (simp add: set_run_def set_sched_def)
  have "kernel_ok U {} s Ts" using ok unfolding same .
  then show thesis by (intro that [of s]) (simp_all add: True sched_switch_def only_cpu_def)
next
  case False
  let ?run = "runThread (sched_of self s)"
  let ?f = "\<lambda>client. client\<lparr>lastCpu := Some self, stop := uptime\<rparr>"
  let ?s = "set_run self t (emit (Thread_load t) (emit (Thread_save ?run) (set_client ?run ?f s)))"
  have call: "sched_switch self uptime t s = Some ?s" using False t by (simp add: sched_switch_def set_run_def Let_def)
  have l: "self < length (sy_scheds s)" using self len by simp
  have swap: "set_run self t (set_client ?run ?f s) = set_client ?run ?f (set_run self t s)"
    "set_run self t (emit e u) = emit e (set_run self t u)" for e u
    by (simp_all add: set_run_def set_sched_def set_client_def emit_def)
  have eq: "kernel_ok U {} ?s Ts = kernel_ok U {} (set_client ?run ?f (set_run self t s)) Ts" unfolding swap by simp
  have "kernel_ok U {} ?s Ts" unfolding eq by (rule stop_ok [OF ok self])
  moreover have "sys.more ?s = sys.more s" by simp
  note ke = kernel_more [OF this]
  ultimately show thesis
    using that [OF call] set_run_sched [of self "emit (Thread_load t) (emit (Thread_save ?run) (set_client ?run ?f s))"] l
    by (simp add: only_cpu_def ke)
qed

text \<open>The interrupt on a CPU whose thread is in a state that may be interrupted.\<close>

definition interruptible :: "cpu \<Rightarrow> 'z kernel_scheme \<Rightarrow> bool" where
  "interruptible self s \<longleftrightarrow>
     (let run = runThread (sched_of self s)
      in sy_state s run \<in> {THREAD_ACTIVE, THREAD_DYING, THREAD_PRE_BLOCK, THREAD_UNBLOCKING} \<and>
         (sy_state s run \<in> {THREAD_ACTIVE, THREAD_DYING} \<longrightarrow> wc_entries (ke_wait s run) = []))"

lemma sched_do_result:
  assumes ok: "kernel_ok U {} s Ts" and self: "self < length Ts" and int: "interruptible self s"
  obtains s' Ts' where "sched_do True self s = Some s'" "kernel_ok U {} s' Ts'" "length Ts' = length Ts"
    "sy_state s' (runThread (sched_of self s')) = THREAD_ACTIVE"
    "preemptCount (sched_of self s) = 0 \<or> sy_state s (runThread (sched_of self s)) \<noteq> THREAD_ACTIVE \<Longrightarrow>
       Ts' ! self = Lf \<longleftrightarrow> runThread (sched_of self s') = idleThread (sched_of self s')"
    "only_cpu self s s'" "wc_entries (ke_wait s' (runThread (sched_of self s'))) = []"
proof -
  let ?run = "runThread (sched_of self s)" and ?idle = "idleThread (sched_of self s)"
  note K = kernel_okD [OF ok] and Q = threads_okD [OF kernel_okD(5) [OF ok]]
  have I: "sy_state s ?run \<in> {THREAD_ACTIVE, THREAD_DYING, THREAD_PRE_BLOCK, THREAD_UNBLOCKING}"
    "sy_state s ?run \<in> {THREAD_ACTIVE, THREAD_DYING} \<Longrightarrow> wc_entries (ke_wait s ?run) = []"
    using int by (auto simp: interruptible_def Let_def)
  have len: "length (sy_scheds s) = length Ts" using sys_okD(1) [OF K(1)] by simp
  have empty: "rbtree_is_empty (queue_of self s) \<longleftrightarrow> Ts ! self = Lf" by (rule queue_empty_iff [OF sys_okD(4) [OF K(1) self]])
  consider "preemptCount (sched_of self s) > 0" "sy_state s ?run = THREAD_ACTIVE"
    | "preemptCount (sched_of self s) = 0 \<or> sy_state s ?run \<noteq> THREAD_ACTIVE" "?run = ?idle" "Ts ! self = Lf"
    | "preemptCount (sched_of self s) = 0 \<or> sy_state s ?run \<noteq> THREAD_ACTIVE" "?run \<noteq> ?idle \<or> Ts ! self \<noteq> Lf"
    by (cases "preemptCount (sched_of self s) = 0"; cases "sy_state s ?run = THREAD_ACTIVE"; cases "?run = ?idle \<and> Ts ! self = Lf")
      (auto simp: word_neq_0_conv)
  then show thesis
  proof cases
    case 1
    then show thesis using that [of s Ts] ok I by (simp add: sched_do_def only_cpu_def)
  next
    case 2
    then have "sched_do True self s = Some (emit (Rcu_report_quiescent self) s)" using empty by (auto simp: sched_do_def)
    then show thesis using that [of _ Ts] ok 2 Q(8) [OF self] I(2) by (simp add: only_cpu_def)
  next
    case 3
    let ?uptime = "ke_times s (ke_reads s)" and ?c = "s\<lparr>ke_reads := ke_reads s + 1\<rparr>"
    have okc: "kernel_ok U {} ?c Ts" using ok by (subst kernel_ok_cong [of _ s]) simp_all
    obtain s1 T1 where s1: "sched_vtime_update self ?uptime ?c = Some s1" "kernel_ok U {} s1 (Ts[self := T1])" "set (ino T1) = set (ino (Ts ! self))"
      "steady ?c s1" "sy_state s1 = sy_state ?c" by (rule vtime_kernel_ok [OF okc self])
    have R1: "runThread (sched_of j s1) = runThread (sched_of j s)" "idleThread (sched_of j s1) = idleThread (sched_of j s)" for j
      using s1(4) by (simp_all add: steady_def)
    have "sys.more s1 = sys.more ?c" using s1(4) by (simp add: steady_def)
    note ke1 = kernel_more [OF this]
    have self1: "self < length (Ts[self := T1])" using self by simp
    obtain f s2 Ts2 where s2: "sched_do_state self ?uptime s1 = Some (f, s2)"
      "kernel_ok U {} (set_run self (idleThread (sched_of self s1)) s2) Ts2" "length Ts2 = length (Ts[self := T1])"
      "\<forall>j. runThread (sched_of j s2) = runThread (sched_of j s1) \<and> idleThread (sched_of j s2) = idleThread (sched_of j s1)"
      "length (sy_scheds s2) = length (sy_scheds s1)" "f \<noteq> None \<longrightarrow> f = Some ?run \<and> ?run \<notin> queued Ts2 \<and> ?run \<noteq> idleThread (sched_of self s1)"
      "only_cpu self s1 s2"
      by (rule do_state_result [OF s1(2) self1, of ?run ?uptime]) (use I s1(5) R1 ke1 in auto)
    let ?st = "ke_times s2 (ke_reads s2)" and ?et = "ke_times s2 (ke_reads s2 + 1)" and ?d = "s2\<lparr>ke_reads := ke_reads s2 + 2\<rparr>"
    have idle: "idleThread (sched_of self ?d) = ?idle" using s2(4) R1 by simp
    have okd: "kernel_ok U {} (set_run self (idleThread (sched_of self ?d)) ?d) Ts2"
      using s2(2) R1(2) s2(4) by (subst kernel_ok_cong [of _ "set_run self (idleThread (sched_of self s1)) s2"]) (simp_all add: set_run_def set_sched_def)
    have len2: "length Ts2 = length Ts" "length (sy_scheds ?d) = length Ts2" "self < length Ts2"
      using s2(3,5) s1(4) self len by (simp_all add: steady_def)
    have sysd: "sys_ok ?d Ts2" using kernel_okD(1) [OF okd] set_run_sys_ok [of self ?d] len2 by simp
    obtain t s3 Ts3 where s3: "sched_first_eligible True self ?st ?et ?d = Some (t, s3)" "chooses self ?d Ts2 t s3 Ts3"
      by (rule first_eligible_result [OF sysd len2(3), of True ?st ?et]) auto
    note C = choose_ok [OF okd len2(3,2) s3(2)]
    have len3: "length Ts3 = length Ts2" "length (sy_scheds s3) = length Ts3"
      using s3(2) len2 by (auto simp: chooses_def steady_def)
    have self3: "self < length Ts3" using len3 len2 by simp
    obtain s4 where s4: "sched_switch self ?uptime t s3 = Some s4" "kernel_ok U {} s4 Ts3" "runThread (sched_of self s4) = t"
      "only_cpu self s3 s4" "sy_state s4 = sy_state s3" "ke_wait s4 = ke_wait s3"
      by (rule switch_result [OF C(1) self3 len3(2) C(2)])
    let ?s5 = "if t \<noteq> idleThread (sched_of self s4) then emit (Timer_set self ?uptime (?uptime + CONFIG_TIME_SLICE)) s4 else s4"
    let ?s6 = "case f of None \<Rightarrow> ?s5 | Some x \<Rightarrow> emit (Thread_free x) ?s5"
    let ?s = "emit (Rcu_report_quiescent self) ?s6"
    have ne: "x \<noteq> t" if "f = Some x" for x
      using that s2(6) C(4) idle R1(2) s2(4) by auto
    have call: "sched_do True self s = Some ?s"
    proof -
      have guard: "\<not> (preemptCount (sched_of self s) > 0 \<and> sy_state s ?run = THREAD_ACTIVE)" "\<not> (?run = ?idle \<and> rbtree_is_empty (queue_of self s))"
        using 3 empty by auto
      show ?thesis
        unfolding sched_do_def if_not_P [OF guard(1)] if_not_P [OF guard(2)]
        using s1(1) s2(1) s3(1) s4(1,3) ne by (cases f) (simp_all add: clock_uptime_def Let_def)
    qed
    have idle4: "idleThread (sched_of self s4) = ?idle" using s4(4) s3(2) idle by (simp add: chooses_def steady_def only_cpu_def)
    have fields: "sy_state ?s = sy_state s4" "sy_scheds ?s = sy_scheds s4" "ke_wait ?s = ke_wait s4" by (simp_all split: option.splits)
    have "only_cpu self s s1" using steady_only [OF s1(4,5), of self] by (simp add: only_cpu_def)
    then have "only_cpu self s s2" by (rule only_cpu_trans [OF _ s2(7)]) (rule R1(1))
    then have "only_cpu self s ?d" by (simp add: only_cpu_def)
    moreover have "only_cpu self ?d s3" using s3(2) C(6) by (intro steady_only) (simp_all add: chooses_def)
    moreover have R3: "runThread (sched_of self s3) = ?run" "runThread (sched_of self ?d) = ?run"
      using s3(2) s2(4) R1(1) by (simp_all add: chooses_def steady_def)
    ultimately have "only_cpu self s s3" by (intro only_cpu_trans [of self s ?d s3]) simp_all
    then have "only_cpu self s s4" by (rule only_cpu_trans [OF _ s4(4)]) (rule R3(1))
    then have only: "only_cpu self s ?s" unfolding only_cpu_def fields .
    have "kernel_ok U {} ?s Ts3" using s4(2) by (simp split: option.splits)
    moreover have "Ts3 ! self = Lf \<longleftrightarrow> runThread (sched_of self ?s) = idleThread (sched_of self ?s)"
      unfolding fields unfolding s4(3) idle4
    proof
      assume "Ts3 ! self = Lf"
      then show "t = ?idle" using C(3) idle by auto
    next
      assume t: "t = ?idle"
      have n: "?idle \<notin> set (ino (Ts2 ! self))" using sys_okD(6) [OF sysd len2(3,3)] idle by simp
      then have "Ts2 ! self = Lf \<and> Ts3 = Ts2" using s3(2) t idle by (auto simp: chooses_def split: if_splits)
      then show "Ts3 ! self = Lf" by simp
    qed
    ultimately show thesis
      by (intro that [OF call]) (use only len3 len2 s4(3,5,6) C(2,5) fields in auto)
  qed
qed

end
