(* ===== verification/Wait_Prepare.thy ===== *)
theory Wait_Prepare
  imports Wait_Block
begin

text \<open>
  The operations of \<^verbatim>\<open>src/kernel/sched/wait.c\<close> with which a thread gets ready to block and changes its mind.
\<close>

section \<open>Preparing to block\<close>

text \<open>The entries a thread adds to a queue.\<close>

definition added :: "nat \<Rightarrow> nat list \<Rightarrow> nat list \<Rightarrow> nat list" where
  "added q qs es = map snd (filter (\<lambda>(p, e). p = q) (zip qs es))"

lemma added_simps [simp]: "added q [] es = []" "added q (p # qs) (e # es) = (if p = q then e # added q qs es else added q qs es)"
  by (simp_all add: added_def)

lemma set_added: "set (added q qs es) \<subseteq> set es"
  by (auto simp: added_def dest: set_zip_rightD)

definition prepares :: "thread \<Rightarrow> nat list \<Rightarrow> nat list \<Rightarrow> 'z kernel_scheme \<Rightarrow> 'z kernel_scheme \<Rightarrow> bool" where
  "prepares t qs es s s' \<longleftrightarrow>
     sy_nodes s' = sy_nodes s \<and> sy_clients s' = sy_clients s \<and> sy_scheds s' = sy_scheds s \<and> sy_state s' = sy_state s \<and>
     sy_priority s' = sy_priority s \<and> sy_log s' = sy_log s \<and>
     ke_wait s' = (ke_wait s)(t := (ke_wait s t)\<lparr>wc_entries := wc_entries (ke_wait s t) @ es\<rparr>) \<and>
     ke_queues s' = (\<lambda>q. ke_queues s q @ added q qs es) \<and> (\<forall>e. e \<notin> set es \<longrightarrow> ke_entry s' e = ke_entry s e) \<and>
     map (ke_entry s') es = map (\<lambda>q. Some \<lparr>we_thread = t, we_queue = q\<rparr>) qs \<and> ke_blocked s' = ke_blocked s \<and> ke_notes s' = ke_notes s \<and> ke_times s' = ke_times s \<and> ke_reads s' = ke_reads s"

lemma prepare_loop_result:
  assumes "entries_linked s" "length qs = length es" "distinct es" "\<forall>e \<in> set es. ke_entry s e = None"
  shows "\<exists>s'. prepare_loop t (zip qs (map Some es)) s = (True, s') \<and> entries_linked s' \<and> prepares t qs es s s'"
  using assms
proof (induction qs es arbitrary: s rule: list_induct2')
  case 1
  then show ?case by (simp add: prepares_def)
next
  case (4 q qs e es)
  let ?s = "queue_push q e (set_wait t (\<lambda>w. w\<lparr>wc_entries := wc_entries w @ [e]\<rparr>) (s\<lparr>ke_entry := (ke_entry s)(e \<mapsto> \<lparr>we_thread = t, we_queue = q\<rparr>)\<rparr>))"
  note D = linkedD [OF "4.prems"(1)]
  have none: "ke_entry s e = None" using "4.prems"(4) by simp
  have out: "e \<notin> set (wc_entries (ke_wait s u))" "e \<notin> set (ke_queues s p)" for u p using D(3) [of e u] D(4) [of e p] none by auto
  have w: "set (wc_entries (ke_wait ?s u)) = (if u = t then insert e (set (wc_entries (ke_wait s u))) else set (wc_entries (ke_wait s u)))" for u by simp
  have q: "set (ke_queues ?s p) = (if p = q then insert e (set (ke_queues s p)) else set (ke_queues s p))" for p by simp
  have en: "ke_entry ?s x = (if x = e then Some \<lparr>we_thread = t, we_queue = q\<rparr> else ke_entry s x)" for x by simp
  have l: "entries_linked ?s"
    unfolding entries_linked_def
  proof (intro conjI allI ballI)
    show "distinct (wc_entries (ke_wait ?s u))" "distinct (ke_queues ?s p)" for u p using D(1,2) out by auto
    show "\<exists>en. ke_entry ?s x = Some en \<and> we_thread en = u \<and> x \<in> set (ke_queues ?s (we_queue en))" if "x \<in> set (wc_entries (ke_wait ?s u))" for u x
      using that D(3) [of x u] out unfolding w q en by (cases "x = e") (auto split: if_splits)
    show "\<exists>en. ke_entry ?s x = Some en \<and> we_queue en = p \<and> x \<in> set (wc_entries (ke_wait ?s (we_thread en)))" if "x \<in> set (ke_queues ?s p)" for p x
      using that D(4) [of x p] out unfolding w q en by (cases "x = e") (auto split: if_splits)
  qed
  have "\<exists>s'. prepare_loop t (zip qs (map Some es)) ?s = (True, s') \<and> entries_linked s' \<and> prepares t qs es ?s s'"
    using "4.prems" by (intro "4.IH" [OF l]) (auto simp: en)
  then obtain s' where s': "prepare_loop t (zip qs (map Some es)) ?s = (True, s')" "entries_linked s'" "prepares t qs es ?s s'" by blast
  have "prepares t (q # qs) (e # es) s s'" using s'(3) "4.prems"(3) by (auto simp: prepares_def)
  then show ?case using s'(1,2) by (intro exI [of _ s']) (simp add: Let_def)
qed simp_all

lemma prepare_result:
  assumes ok: "kernel_ok U {} s Ts" and self: "self < length Ts" and t: "t = runThread (sched_of self s)" "t \<in> set (ino (Ts ! self))"
    and st: "sy_state s t = THREAD_ACTIVE \<or> sy_state s t = THREAD_UNBLOCKING" and none: "wc_entries (ke_wait s t) = []"
    and es: "qs \<noteq> []" "length qs = length es" "distinct es" "\<forall>e \<in> set es. ke_entry s e = None" and dq: "distinct qs"
  obtains s' where "wait_block_prepare t (Some qs) (map Some es) timeout s = Some (Inr (), s')" "kernel_ok U {} s' Ts" "interruptible self s'"
    "sy_state s' = (sy_state s)(t := if sy_state s t = THREAD_ACTIVE then THREAD_PRE_BLOCK else THREAD_UNBLOCKING)"
    "wc_entries (ke_wait s' t) = es" "wc_deadline (ke_wait s' t) = CLOCKS_DEADLINE timeout (ke_times s (ke_reads s))"
    "ke_queues s' = (\<lambda>q. ke_queues s q @ added q qs es)" "map (ke_entry s') es = map (\<lambda>q. Some \<lparr>we_thread = t, we_queue = q\<rparr>) qs"
    "sy_scheds s' = sy_scheds s" "\<forall>u. u \<noteq> t \<longrightarrow> ke_wait s' u = ke_wait s u"
proof -
  note K = kernel_okD [OF ok] and Q = threads_okD [OF kernel_okD(5) [OF ok]] and B = blocked_okD [OF kernel_okD(4) [OF ok]]
  obtain s1 where s1: "prepare_loop t (zip qs (map Some es)) s = (True, s1)" "entries_linked s1" "prepares t qs es s s1"
    using prepare_loop_result [OF K(3) es(2-4)] by blast
  note P = s1(3) [unfolded prepares_def]
  let ?k = "if sy_state s t = THREAD_ACTIVE then THREAD_PRE_BLOCK else THREAD_UNBLOCKING"
  let ?w = "\<lambda>w. w\<lparr>wc_err := None, wc_deadline := CLOCKS_DEADLINE timeout (ke_times s (ke_reads s)), wc_owner := None\<rparr>"
  let ?c = "set_wait t ?w (s1\<lparr>ke_reads := ke_reads s + 1\<rparr>)"
  let ?s = "set_state t ?k ?c"
  have keep: "set_state t THREAD_UNBLOCKING ?c = ?c" if "sy_state s t = THREAD_UNBLOCKING"
    using that P by (simp add: set_state_def set_wait_def fun_upd_idem)
  have call: "wait_block_prepare t (Some qs) (map Some es) timeout s = Some (Inr (), ?s)"
    using es(1) dq s1(1) P st keep by (auto simp: wait_block_prepare_def clock_uptime_def Let_def)
  have sys: "sy_nodes ?s = sy_nodes s" "sy_clients ?s = sy_clients s" "sy_scheds ?s = sy_scheds s" using P by simp_all
  have state: "sy_state ?s = (sy_state s)(t := ?k)" using P by simp
  have wait: "waiting {} ?s u \<longleftrightarrow> waiting {} s u" for u using st P by (cases "u = t") (auto simp: waiting_def)
  have nt: "u \<noteq> t" if "waiting {} s u" for u using that st by (auto simp: waiting_def)
  have ke: "ke_wait ?s u = ke_wait s u" if "u \<noteq> t" for u using that P by simp
  have blk: "ke_blocked ?s = ke_blocked s" using P by simp
  have mem: "u \<noteq> t" if "u \<in> set (ke_blocked s c)" for u c using B(3) [of u c] that nt by auto
  have "sys_ok ?s Ts" "runs_ok ?s Ts" using K(1,2) kernel_sys [OF sys, of Ts] by simp_all
  moreover have "entries_linked ?s" using s1(2) by (subst linked_cong [of _ s1]) simp_all
  moreover have "blocked_ok {} ?s"
    unfolding blocked_ok_def wait blk
  proof (intro conjI allI impI ballI)
    show "sorted_wrt (\<lambda>a b. wc_deadline (ke_wait ?s a) \<le> wc_deadline (ke_wait ?s b)) (ke_blocked s c)" for c
      by (rule sorted_wrt_mono_rel [OF _ B(2)]) (use mem ke in metis)
    show "u \<in> set (ke_blocked s c) \<longleftrightarrow> waiting {} s u \<and> wc_owner (ke_wait ?s u) = Some c" for c u
      using B(3) [of u c] nt [of u] ke [of u] by metis
    show "wc_owner (ke_wait ?s u) \<noteq> None" if "waiting {} s u" for u using B(4) [OF that] nt [OF that] ke [of u] by auto
  qed (use B(1) in simp_all)
  moreover have "threads_ok U {} ?s Ts"
    unfolding threads_ok_def wait sys
  proof (intro conjI allI impI ballI)
    have other: "u \<noteq> t" if "i < length Ts" "u \<in> set (ino (Ts ! i))" "u \<noteq> runThread (sched_of i s)" for i u
      using that runner_unique(1) [OF K(1) self t(2,1)] by auto
    show "sy_state ?s u = THREAD_ACTIVE" if "i < length Ts" "u \<in> set (ino (Ts ! i))" "u \<noteq> runThread (sched_of i s)" for i u
      using Q(7) [OF that] other [OF that] state by simp
    show "sy_state ?s (idleThread (sched_of i s)) = THREAD_ACTIVE" if "i < length Ts" for i
      using Q(8) [OF that] sys_okD(6) [OF K(1) that self] t(2) state by auto
    show "waiting {} s u \<or> (\<exists>i < length Ts. u = runThread (sched_of i s) \<and> u \<in> set (ino (Ts ! i)))" if "wc_entries (ke_wait ?s u) \<noteq> []" for u
      using Q(9) [of u] that ke [of u] t self by (cases "u = t") auto
  qed (use Q(1-6) in simp_all)
  ultimately have "kernel_ok U {} ?s Ts" by (simp add: kernel_ok_def)
  moreover have "interruptible self ?s" using t(1) P by (simp add: interruptible_def Let_def)
  ultimately show thesis using that [OF call] state P none by simp
qed

lemma remove_loop_queues:
  assumes "length qs = length es" "distinct es" "map (ke_entry s) es = map (\<lambda>q. Some \<lparr>we_thread = t, we_queue = q\<rparr>) qs"
    and "ke_queues s = (\<lambda>q. X q @ added q qs es)" "\<forall>q. set es \<inter> set (X q) = {}" "for_each (remove_wait_entry t) es s = Some s'"
  shows "ke_queues s' = X"
  using assms
proof (induction qs es arbitrary: s rule: list_induct2)
  case (Cons q qs e es)
  let ?s = "entry_free e (set_wait t (\<lambda>w. w\<lparr>wc_entries := remove1 e (wc_entries w)\<rparr>) (queue_remove q e s))"
  have "remove_wait_entry t e s = Some ?s" using Cons.prems(2) by (simp add: remove_wait_entry_def)
  then have loop: "for_each (remove_wait_entry t) es ?s = Some s'" using Cons.prems(5) by simp
  have "ke_queues ?s = (\<lambda>p. X p @ added p qs es)"
    using Cons.prems(1,3,4) set_added [of q qs es] by (auto simp: remove1_append fun_eq_iff)
  moreover have "map (ke_entry ?s) es = map (ke_entry s) es" using Cons.prems(1) by (intro map_cong) auto
  moreover have "map (ke_entry s) es = map (\<lambda>q. Some \<lparr>we_thread = t, we_queue = q\<rparr>) qs" using Cons.prems(2) by simp
  ultimately have "map (ke_entry ?s) es = map (\<lambda>q. Some \<lparr>we_thread = t, we_queue = q\<rparr>) qs" "ke_queues ?s = (\<lambda>p. X p @ added p qs es)"
    by (auto dest: trans)
  moreover have "distinct es" "\<forall>q. set es \<inter> set (X q) = {}" using Cons.prems(1,4) by auto
  ultimately show ?case using loop by (intro Cons.IH [of ?s])
qed simp

text \<open>Cancelling, and a commit after the thread was already unblocked.\<close>

lemma cancel_early:
  assumes ok: "kernel_ok U {} s Ts" and st: "sy_state s t = THREAD_PRE_BLOCK \<or> sy_state s t = THREAD_UNBLOCKING"
  obtains s' where "wait_remove_wait_entries t None (set_state t THREAD_UNBLOCKING s) = Some s'"
    "wait_block_cancel t s = Some (set_state t THREAD_ACTIVE s')" "finalizes self t False s (set_state t THREAD_ACTIVE s')"
    "kernel_ok U {} (set_state t THREAD_ACTIVE s') Ts"
proof -
  note K = kernel_okD [OF ok]
  have nb: "sy_state s t \<noteq> THREAD_BLOCKED" using st by auto
  let ?s = "set_state t THREAD_UNBLOCKING s"
  obtain s1 where s1: "wait_remove_wait_entries t None ?s = Some s1" "finalizes self t False s (set_state t THREAD_ACTIVE s1)" "wc_err (ke_wait s1 t) = None"
    by (rule finalize_early [OF K(3,4) nb, of ?s None self]) (simp_all add: set_state_def)
  have "entries_linked ?s" using K(3) by (subst linked_cong [of _ s]) simp_all
  then obtain s2 where "wait_remove_wait_entries t None ?s = Some s2" "unlinks t ?s s2"
    by (rule remove_wait_entries_result [of ?s t None]) simp_all
  then have "sy_state s1 t = THREAD_UNBLOCKING" using s1(1) by (simp add: unlinks_def)
  then have "wait_block_cancel t s = Some (set_state t THREAD_ACTIVE s1)" using st s1(1) by (auto simp: wait_block_cancel_def)
  then show thesis using that s1 early_ok [OF ok s1(2) nb] by blast
qed

lemma cancel_result:
  assumes ok: "kernel_ok U {} s Ts" and st: "sy_state s t = THREAD_PRE_BLOCK \<or> sy_state s t = THREAD_UNBLOCKING"
    and es: "wc_entries (ke_wait s t) = es" "length qs = length es" "distinct es"
      "map (ke_entry s) es = map (\<lambda>q. Some \<lparr>we_thread = t, we_queue = q\<rparr>) qs"
      "ke_queues s = (\<lambda>q. X q @ added q qs es)" "\<forall>q. set es \<inter> set (X q) = {}"
  obtains s' where "wait_block_cancel t s = Some s'" "kernel_ok U {} s' Ts" "ke_queues s' = X" "wc_entries (ke_wait s' t) = []"
    "sy_state s' = (sy_state s)(t := THREAD_ACTIVE)"
proof -
  let ?s = "set_state t THREAD_UNBLOCKING s"
  obtain s1 where s1: "wait_remove_wait_entries t None ?s = Some s1" "wait_block_cancel t s = Some (set_state t THREAD_ACTIVE s1)"
    "finalizes 0 t False s (set_state t THREAD_ACTIVE s1)" "kernel_ok U {} (set_state t THREAD_ACTIVE s1) Ts" by (rule cancel_early [OF ok st])
  let ?c = "set_wait t (\<lambda>w. w\<lparr>wc_err := None\<rparr>) ?s"
  have loop: "for_each (remove_wait_entry t) es ?c = Some s1"
    using s1(1) es(1) by (simp add: wait_remove_wait_entries_def)
  have "ke_queues s1 = X"
    by (rule remove_loop_queues [OF es(2,3) _ _ es(6) loop]) (use es(4,5) in simp_all)
  then show thesis using that [OF s1(2,4)] s1(3) by (simp add: finalizes_def)
qed

end
