(* ===== verification/Kernel_Steps.thy ===== *)
theory Kernel_Steps
  imports Wait_Prepare
begin

text \<open>
  The scheduler and the wait queues as one system. A step is what one CPU does with the locks held: an interrupt, a check of
  the timeouts, a call of a function of the wait queues by the thread that runs, the submission of a new thread, a note that
  is sent or taken, a thread that a note or an exception kills, the start of another CPU. Each call is one atomic step. The state is well-formed in every state the system
  reaches, and no step fails there in a build without debug checks.
\<close>

section \<open>Steps\<close>

text \<open>\<open>U\<close> are the threads there are. A new thread is parked until it is submitted or becomes the idle thread of a CPU. A commit of a
  thread that is not unblocked yet raises the interrupt; what follows until the thread runs again are more steps. When a
  thread prepares to block, either every allocation succeeds or the first one fails: a later failure leaves freed entries
  in the queues, after which the next call may fault.\<close>

definition allocs_ok :: "nat option list \<Rightarrow> 'z kernel_scheme \<Rightarrow> bool" where
  "allocs_ok allocs s \<longleftrightarrow>
     (\<exists>rest. allocs = None # rest) \<or> (\<exists>es. allocs = map Some es \<and> distinct es \<and> (\<forall>e \<in> set es. ke_entry s e = None))"

inductive kernel_step :: "thread set \<Rightarrow> 'z kernel_scheme \<Rightarrow> 'z kernel_scheme \<Rightarrow> bool" for U where
  interrupt: "self < length (sy_scheds s) \<Longrightarrow> sched_do ndebug self s = Some s' \<Longrightarrow> kernel_step U s s'"
| timeouts: "self < length (sy_scheds s) \<Longrightarrow> wait_check_timeouts self inInterrupt s = Some s' \<Longrightarrow> kernel_step U s s'"
| unblock: "self < length (sy_scheds s) \<Longrightarrow> wait_unblock self inInterrupt q amount err s = Some (n, s') \<Longrightarrow> kernel_step U s s'"
| submit: "self < length (sy_scheds s) \<Longrightarrow> t \<in> U \<Longrightarrow> sy_state s t = THREAD_PARKED \<Longrightarrow> submit_now self inInterrupt t s = Some s' \<Longrightarrow>
    kernel_step U s s'"
| prepare: "self < length (sy_scheds s) \<Longrightarrow> t = runThread (sched_of self s) \<Longrightarrow> t \<noteq> idleThread (sched_of self s) \<Longrightarrow>
    sy_state s t = THREAD_ACTIVE \<Longrightarrow> allocs_ok allocs s \<Longrightarrow> \<forall>qs. queues = Some qs \<longrightarrow> length allocs = length qs \<Longrightarrow>
    wait_block_prepare t queues allocs timeout s = Some (result, s') \<Longrightarrow> kernel_step U s s'"
| cancel: "self < length (sy_scheds s) \<Longrightarrow> t = runThread (sched_of self s) \<Longrightarrow> wait_block_cancel t s = Some s' \<Longrightarrow> kernel_step U s s'"
| commit: "self < length (sy_scheds s) \<Longrightarrow> t = runThread (sched_of self s) \<Longrightarrow>
    wait_block_commit (sched_do ndebug self) self t s = Some (result, s') \<Longrightarrow> kernel_step U s s'"
| exit: "self < length (sy_scheds s) \<Longrightarrow> runThread (sched_of self s) \<noteq> idleThread (sched_of self s) \<Longrightarrow>
    sy_state s (runThread (sched_of self s)) = THREAD_ACTIVE \<Longrightarrow> kernel_step U s (sched_thread_exit self s)"
| kill: "self < length (sy_scheds s) \<Longrightarrow> runThread (sched_of self s) \<noteq> idleThread (sched_of self s) \<Longrightarrow>
    sy_state s (runThread (sched_of self s)) = THREAD_ACTIVE \<Longrightarrow> kernel_step U s (set_state (runThread (sched_of self s)) THREAD_DYING s)"
| disable: "kernel_step U s (sched_disable self s)"
| enable: "kernel_step U s (sched_enable self s)"
| send_note: "self < length (sy_scheds s) \<Longrightarrow> thread_send_note self inInterrupt t sent s = Some (result, s') \<Longrightarrow> kernel_step U s s'"
| take_note: "kernel_step U s (s\<lparr>ke_notes := (ke_notes s)(t := pending)\<rparr>)"
| start_cpu: "sy_state s idle = THREAD_PARKED \<Longrightarrow> trampoline_c_entry (Some idle) s = Some s' \<Longrightarrow> kernel_step U s s'"

text \<open>Besides the state being well-formed, what runs can be interrupted, and blocked threads belong to CPUs that are there.\<close>

definition owners_ok :: "'z kernel_scheme \<Rightarrow> bool" where
  "owners_ok s \<longleftrightarrow> (\<forall>t c. sy_state s t = THREAD_BLOCKED \<and> wc_owner (ke_wait s t) = Some c \<longrightarrow> c < length (sy_scheds s))"

definition kernel_inv :: "thread set \<Rightarrow> tr list \<Rightarrow> 'z kernel_scheme \<Rightarrow> bool" where
  "kernel_inv U Ts s \<longleftrightarrow> kernel_ok U {} s Ts \<and> (\<forall>j < length Ts. interruptible j s) \<and> owners_ok s"

lemma kernel_invD:
  assumes "kernel_inv U Ts s"
  shows "kernel_ok U {} s Ts" "length (sy_scheds s) = length Ts" "j < length Ts \<Longrightarrow> interruptible j s"
    and "j < length Ts \<Longrightarrow> runThread (sched_of j s) \<noteq> idleThread (sched_of j s) \<Longrightarrow> runThread (sched_of j s) \<in> set (ino (Ts ! j))"
    and "owners_ok s"
  using assms kernel_okD(1,2) [of U "{}" s Ts] by (auto simp: kernel_inv_def sys_ok_def runs_ok_def run_ok_def)

lemma owners_keep:
  assumes "owners_ok s" "length (sy_scheds s) \<le> length (sy_scheds s')"
    and "\<And>t. sy_state s' t = THREAD_BLOCKED \<Longrightarrow> sy_state s t = THREAD_BLOCKED \<and> ke_wait s' t = ke_wait s t"
  shows "owners_ok s'"
  using assms unfolding owners_ok_def by (metis order_less_le_trans)

section \<open>What runs stays interruptible\<close>

lemma interruptible_keep:
  assumes "interruptible j s" "runThread (sched_of j s') = runThread (sched_of j s)"
    and "sy_state s' (runThread (sched_of j s)) = sy_state s (runThread (sched_of j s))"
    and "ke_wait s' (runThread (sched_of j s)) = ke_wait s (runThread (sched_of j s))"
  shows "interruptible j s'"
  using assms by (simp add: interruptible_def Let_def)

lemma interruptible_active:
  "sy_state s (runThread (sched_of j s)) = THREAD_ACTIVE \<Longrightarrow> wc_entries (ke_wait s (runThread (sched_of j s))) = [] \<Longrightarrow> interruptible j s"
  by (simp add: interruptible_def Let_def)

lemma idle_interruptible:
  assumes ok: "kernel_ok U {} s Ts" and j: "j < length Ts" "runThread (sched_of j s) = idleThread (sched_of j s)"
  shows "interruptible j s"
proof (rule interruptible_active)
  note K = kernel_okD [OF ok] and Q = threads_okD [OF kernel_okD(5) [OF ok]]
  show "sy_state s (runThread (sched_of j s)) = THREAD_ACTIVE" using Q(8) [OF j(1)] j(2) by simp
  then show "wc_entries (ke_wait s (runThread (sched_of j s))) = []"
    using Q(9) [of "runThread (sched_of j s)"] sys_okD(6) [OF K(1) j(1)] j(2) by (auto simp: waiting_def)
qed

lemma finalizes_inv:
  assumes inv: "kernel_inv U Ts s" and F: "finalizes self t False s s'" and ok: "kernel_ok U {} s' Ts"
  shows "kernel_inv U Ts s'"
proof -
  note F = F [unfolded finalizes_def]
  have "interruptible j s'" if "j < length Ts" for j
  proof (cases "runThread (sched_of j s) = t")
    case True
    then show ?thesis using F by (intro interruptible_active) simp_all
  qed (use kernel_invD(3) [OF inv that] F in \<open>auto intro: interruptible_keep\<close>)
  moreover have "owners_ok s'"
    by (rule owners_keep [OF kernel_invD(5) [OF inv]]) (use F in \<open>auto split: if_splits\<close>)
  ultimately show ?thesis using ok by (simp add: kernel_inv_def)
qed

section \<open>Each step\<close>

lemma interrupt_inv:
  assumes inv: "kernel_inv U Ts s" and self: "self < length Ts"
  obtains s' Ts' where "sched_do True self s = Some s'" "kernel_inv U Ts' s'"
proof -
  note I = kernel_invD [OF inv]
  obtain s' Ts' where s': "sched_do True self s = Some s'" "kernel_ok U {} s' Ts'" "length Ts' = length Ts"
    "sy_state s' (runThread (sched_of self s')) = THREAD_ACTIVE" "only_cpu self s s'" "wc_entries (ke_wait s' (runThread (sched_of self s'))) = []"
    by (rule sched_do_result [OF I(1) self I(3) [OF self]])
  note O = s'(5) [unfolded only_cpu_def]
  have "interruptible j s'" if j: "j < length Ts'" for j
  proof (cases "j = self")
    case True
    then show ?thesis using s'(4,6) by (simp add: interruptible_active)
  next
    case ne: False
    have j': "j < length Ts" using j s'(3) by simp
    show ?thesis
    proof (cases "runThread (sched_of j s) = idleThread (sched_of j s)")
      case True
      then show ?thesis using O ne by (intro idle_interruptible [OF s'(2) j]) simp
    next
      case False
      have sys: "sys_ok s Ts" by (rule kernel_okD(1) [OF I(1)])
      have "runThread (sched_of j s) \<noteq> runThread (sched_of self s)"
        using I(4) [OF j' False] I(4) [OF self] sys_okD(5) [OF sys j' self ne] sys_okD(6) [OF sys self j']
        by (cases "runThread (sched_of self s) = idleThread (sched_of self s)") auto
      then show ?thesis using O ne by (intro interruptible_keep [OF I(3) [OF j']]) simp_all
    qed
  qed
  moreover have "owners_ok s'"
  proof -
    have "c < length (sy_scheds s)" if "sy_state s' t = THREAD_BLOCKED" "wc_owner (ke_wait s' t) = Some c" for t c
      using O that kernel_invD(5) [OF inv] self I(2) unfolding owners_ok_def by (metis option.inject)
    then show ?thesis unfolding owners_ok_def using O by metis
  qed
  ultimately show thesis using that [OF s'(1), of Ts'] s'(2) by (simp add: kernel_inv_def)
qed

text \<open>The checks of a debug build only add panics.\<close>

lemma first_eligible_debug:
  "sched_first_eligible False self stealTime enterTime s = Some r \<Longrightarrow> sched_first_eligible True self stealTime enterTime s = Some r"
  unfolding sched_first_eligible_def
  by (cases "eligible_loop (vtime (sched_of self s)) (queue_of self s) (runqueue (sched_of self s))";
      cases "the (eligible_loop (vtime (sched_of self s)) (queue_of self s) (runqueue (sched_of self s)))";
      cases "rbtree_is_empty (queue_of self s)") simp_all

lemma sched_do_debug:
  assumes "sched_do False self s = Some s'"
  shows "sched_do True self s = Some s'"
proof (cases "preemptCount (sched_of self s) > 0 \<and> sy_state s (runThread (sched_of self s)) = THREAD_ACTIVE \<or>
    runThread (sched_of self s) = idleThread (sched_of self s) \<and> rbtree_is_empty (queue_of self s)")
  case True
  then show ?thesis
    using assms unfolding sched_do_def
    by (cases "preemptCount (sched_of self s) > 0 \<and> sy_state s (runThread (sched_of self s)) = THREAD_ACTIVE") (simp_all only: if_True if_False simp_thms)
next
  case False
  then have guards: "(preemptCount (sched_of self s) > 0 \<and> sy_state s (runThread (sched_of self s)) = THREAD_ACTIVE) = False"
    "(runThread (sched_of self s) = idleThread (sched_of self s) \<and> rbtree_is_empty (queue_of self s)) = False" by blast+
  note body = assms [unfolded sched_do_def guards if_False]
  obtain uptime s1 where c: "clock_uptime s = (uptime, s1)" by (cases "clock_uptime s")
  obtain s2 where s2: "sched_vtime_update self uptime s1 = Some s2" "sched_verify self s2 = Some ()"
    using body by (auto simp: c bind_eq_Some_conv)
  obtain f s3 where s3: "sched_do_state self uptime s2 = Some (f, s3)"
    using body s2 by (auto simp: c bind_eq_Some_conv)
  obtain a s4 where c4: "clock_uptime s3 = (a, s4)" by (cases "clock_uptime s3")
  obtain b s5 where c5: "clock_uptime s4 = (b, s5)" by (cases "clock_uptime s4")
  obtain t s6 where s6: "sched_first_eligible False self a b s5 = Some (t, s6)"
    using body s2 s3 by (auto simp: c c4 c5 bind_eq_Some_conv)
  show ?thesis
    using body s2 s3 s6 first_eligible_debug [OF s6] unfolding sched_do_def guards if_False by (simp add: c c4 c5)
qed

lemma sched_do_any: "sched_do ndebug self s = Some s' \<Longrightarrow> sched_do True self s = Some s'"
  using sched_do_debug by (cases ndebug) auto

lemma timeouts_inv:
  assumes inv: "kernel_inv U Ts s" and self: "self < length Ts"
  obtains s' Ts' where "wait_check_timeouts self inInterrupt s = Some s'" "kernel_inv U Ts' s'"
proof -
  note I = kernel_invD [OF inv]
  obtain s' Ts' woken rest where r: "wait_check_timeouts self inInterrupt s = Some s'" "ke_blocked s self = woken @ rest"
    "times_out U self woken rest Ts Ts' s s'" by (rule check_timeouts_result [OF I(1) self])
  note T = r(3) [unfolded times_out_def]
  have b: "sy_state s t = THREAD_BLOCKED" if "t \<in> set woken" for t
    using blocked_okD(3) [OF kernel_okD(4) [OF I(1)], of t self] r(2) that by (simp add: waiting_def)
  have "interruptible j s'" if "j < length Ts" for j
  proof -
    have "sy_state s (runThread (sched_of j s)) \<noteq> THREAD_BLOCKED" using I(3) [OF that] by (auto simp: interruptible_def Let_def)
    then have "runThread (sched_of j s) \<notin> set woken" using b by auto
    then show ?thesis using T by (intro interruptible_keep [OF I(3) [OF that]]) (simp_all add: same_cpus_def)
  qed
  moreover have "owners_ok s'"
  proof (rule owners_keep [OF I(5)])
    show "sy_state s t = THREAD_BLOCKED \<and> ke_wait s' t = ke_wait s t" if "sy_state s' t = THREAD_BLOCKED" for t
      using T that by (cases "t \<in> set woken") auto
  qed (use T in \<open>simp add: same_cpus_def\<close>)
  ultimately show thesis using that [OF r(1), of Ts'] T by (simp add: kernel_inv_def)
qed

lemma unblock_inv:
  assumes inv: "kernel_inv U Ts s" and self: "self < length Ts"
  obtains n s' Ts' where "wait_unblock self inInterrupt q amount err s = Some (n, s')" "kernel_inv U Ts' s'"
proof (cases "amount = 0")
  case True
  have "collect_loop 0 es [] s = Some ([], s)" for es by (cases es) simp_all
  then have "wait_unblock self inInterrupt q amount err s = Some (0, s)"
    by (simp add: True wait_unblock_def unblock_loop.simps [of self inInterrupt q 0 err 0 s])
  then show thesis using that inv by blast
next
  case False
  note I = kernel_invD [OF inv]
  have "0 < amount" using False by (simp add: word_neq_0_conv)
  then obtain s' Ts' where r: "unblock_loop self inInterrupt q amount err 0 s = Some (0 + of_nat (card (blocked_on s q)), s')"
    "unblocks U q err Ts Ts' s s'" by (rule unblock_loop_result [OF I(1) self])
  note T = r(2) [unfolded unblocks_def]
  have "interruptible j s'" if j: "j < length Ts" for j
  proof -
    let ?t = "runThread (sched_of j s)"
    have i: "sy_state s ?t \<in> {THREAD_ACTIVE, THREAD_DYING, THREAD_PRE_BLOCK, THREAD_UNBLOCKING}"
      "sy_state s ?t \<in> {THREAD_ACTIVE, THREAD_DYING} \<Longrightarrow> wc_entries (ke_wait s ?t) = []"
      using I(3) [OF j] by (auto simp: interruptible_def Let_def)
    have run: "runThread (sched_of j s') = ?t" using T by (simp add: same_cpus_def)
    show ?thesis
    proof (cases "wc_entries (ke_wait s ?t) = []")
      case True
      then show ?thesis using T by (intro interruptible_keep [OF I(3) [OF j] run]) simp_all
    next
      case False
      then have pre: "sy_state s ?t \<in> {THREAD_PRE_BLOCK, THREAD_UNBLOCKING}" using i by auto
      then have "sy_state s ?t \<noteq> THREAD_BLOCKED" by auto
      then have "sy_state s' ?t = sy_state s ?t \<or> sy_state s' ?t = THREAD_UNBLOCKING" using T by blast
      then show ?thesis using pre run by (auto simp: interruptible_def Let_def)
    qed
  qed
  moreover have "owners_ok s'" by (rule owners_keep [OF I(5)]) (use T in \<open>auto simp: same_cpus_def\<close>)
  ultimately show thesis using that [of _ s' Ts'] r(1) T by (simp add: wait_unblock_def kernel_inv_def)
qed

lemma submit_inv:
  assumes inv: "kernel_inv U Ts s" and self: "self < length Ts" and t: "t \<in> U" "sy_state s t = THREAD_PARKED"
  obtains s' Ts' where "submit_now self inInterrupt t s = Some s'" "kernel_inv U Ts' s'"
proof -
  note I = kernel_invD [OF inv] and Q = threads_okD [OF kernel_okD(5) [OF kernel_invD(1) [OF inv]]]
  have run: "t \<noteq> runThread (sched_of j s)" if "j < length Ts" for j using I(3) [OF that] t(2) by (auto simp: interruptible_def Let_def)
  have q: "t \<notin> queued Ts" using Q(7) run t(2) by (force simp: queued_nth)
  have idle: "t \<noteq> idleThread (sched_of j s)" if "j < length Ts" for j using Q(8) [OF that] t(2) by auto
  obtain s' c T' where s': "submit_now self inInterrupt t s = Some s'" "kernel_ok U {} s' (Ts[c := T'])"
    "sy_state s' = (sy_state s)(t := THREAD_ACTIVE)" "same_cpus s s'" "ke_wait s' = ke_wait s"
    by (rule submit_ok [OF I(1) self t(1) q idle]) (use t(2) in \<open>auto simp: waiting_def\<close>)
  have "interruptible j s'" if "j < length Ts" for j
    using s'(3-5) run [OF that] by (intro interruptible_keep [OF I(3) [OF that]]) (simp_all add: same_cpus_def)
  moreover have "owners_ok s'"
    by (rule owners_keep [OF I(5)]) (use s'(3-5) in \<open>auto simp: same_cpus_def split: if_splits\<close>)
  ultimately show thesis using that [OF s'(1), of "Ts[c := T']"] s'(2) by (simp add: kernel_inv_def)
qed

lemma prepare_inv:
  assumes inv: "kernel_inv U Ts s" and self: "self < length Ts" and t: "t = runThread (sched_of self s)" "t \<noteq> idleThread (sched_of self s)"
    "sy_state s t = THREAD_ACTIVE" and es: "qs \<noteq> []" "length qs = length es" "distinct es" "\<forall>e \<in> set es. ke_entry s e = None" "distinct qs"
  obtains s' where "wait_block_prepare t (Some qs) (map Some es) timeout s = Some (Inr (), s')" "kernel_inv U Ts s'"
proof -
  note I = kernel_invD [OF inv]
  have e: "wc_entries (ke_wait s t) = []" using I(3) [OF self] t by (simp add: interruptible_def Let_def)
  obtain s' where s': "wait_block_prepare t (Some qs) (map Some es) timeout s = Some (Inr (), s')" "kernel_ok U {} s' Ts"
    "sy_state s' = (sy_state s)(t := if sy_state s t = THREAD_ACTIVE then THREAD_PRE_BLOCK else THREAD_UNBLOCKING)"
    "sy_scheds s' = sy_scheds s" "\<forall>u. u \<noteq> t \<longrightarrow> ke_wait s' u = ke_wait s u"
    by (rule prepare_result [OF I(1) self t(1) _ _ e es, of timeout]) (use I(4) [OF self] t in auto)
  have "interruptible j s'" if "j < length Ts" for j
  proof (cases "runThread (sched_of j s) = t")
    case True
    then show ?thesis using s'(3,4) t(3) by (simp add: interruptible_def Let_def)
  qed (use s'(3-5) in \<open>auto intro: interruptible_keep [OF I(3) [OF that]]\<close>)
  moreover have "owners_ok s'"
    by (rule owners_keep [OF I(5)]) (use s'(3-5) in \<open>auto split: if_splits\<close>)
  ultimately show thesis using that [OF s'(1)] s'(2) by (simp add: kernel_inv_def)
qed

text \<open>When the first allocation fails, or there are no queues, nothing has happened.\<close>

lemma prepare_any_inv:
  assumes inv: "kernel_inv U Ts s" and self: "self < length Ts" and t: "t = runThread (sched_of self s)" "t \<noteq> idleThread (sched_of self s)"
    "sy_state s t = THREAD_ACTIVE" and allocs: "allocs_ok allocs s" "\<forall>qs. queues = Some qs \<longrightarrow> length allocs = length qs"
    and dq: "\<forall>qs. queues = Some qs \<longrightarrow> distinct qs"
  obtains result s' where "wait_block_prepare t queues allocs timeout s = Some (result, s')" "kernel_inv U Ts s'"
proof (cases "queues = None \<or> queues = Some []")
  case True
  then have "wait_block_prepare t queues allocs timeout s = Some (Inl EINVAL, s)" by (auto simp: wait_block_prepare_def)
  then show thesis using that inv by blast
next
  case False
  then obtain qs where qs: "queues = Some qs" "qs \<noteq> []" by auto
  from allocs(1) consider (fails) rest where "allocs = None # rest"
    | (succeeds) es where "allocs = map Some es" "distinct es" "\<forall>e \<in> set es. ke_entry s e = None" unfolding allocs_ok_def by blast
  then show thesis
  proof cases
    case fails
    have "wc_entries (ke_wait s t) = []" using kernel_invD(3) [OF inv self] t by (simp add: interruptible_def Let_def)
    then have "wait_block_prepare t queues allocs timeout s = Some (Inl ENOMEM, s)"
      using qs fails dq by (cases qs) (simp_all add: wait_block_prepare_def)
    then show thesis using that inv by blast
  next
    case succeeds
    have len: "length qs = length es" using allocs(2) qs(1) succeeds(1) by simp
    have "distinct qs" using dq qs(1) by simp
    then obtain s' where "wait_block_prepare t (Some qs) (map Some es) timeout s = Some (Inr (), s')" "kernel_inv U Ts s'"
      by (rule prepare_inv [OF inv self t qs(2) len succeeds(2,3)])
    then show thesis using that qs(1) succeeds(1) by blast
  qed
qed

lemma cancel_inv:
  assumes "kernel_inv U Ts s" "sy_state s t = THREAD_PRE_BLOCK \<or> sy_state s t = THREAD_UNBLOCKING"
  obtains s' where "wait_block_cancel t s = Some s'" "kernel_inv U Ts s'"
  by (rule cancel_early [OF kernel_invD(1) [OF assms(1)] assms(2), of 0]) (use finalizes_inv [OF assms(1)] in blast)

lemma emit_inv [simp]: "kernel_inv U Ts (emit e s) = kernel_inv U Ts s"
  by (simp add: kernel_inv_def interruptible_def owners_ok_def)

lemma commit_inv:
  assumes inv: "kernel_inv U Ts s" and self: "self < length Ts" and t: "sy_state s t = THREAD_PRE_BLOCK \<or> sy_state s t = THREAD_UNBLOCKING"
  obtains r s' Ts' where "wait_block_commit (sched_do True self) self t s = Some (r, s')" "kernel_inv U Ts' s'"
  using t
proof
  assume st: "sy_state s t = THREAD_PRE_BLOCK"
  have "kernel_inv U Ts (emit (Ipi_invoke self) s)" using inv by simp
  then obtain s' Ts' where s': "sched_do True self (emit (Ipi_invoke self) s) = Some s'" "kernel_inv U Ts' s'" by (rule interrupt_inv [OF _ self])
  then show thesis using that [OF _ s'(2)] st by (cases "wc_err (ke_wait s' t)") (simp_all add: wait_block_commit_def)
next
  assume st: "sy_state s t = THREAD_UNBLOCKING"
  obtain s1 where s1: "wait_remove_wait_entries t None (set_state t THREAD_UNBLOCKING s) = Some s1"
    "finalizes 0 t False s (set_state t THREAD_ACTIVE s1)" "kernel_ok U {} (set_state t THREAD_ACTIVE s1) Ts"
    by (rule cancel_early [OF kernel_invD(1) [OF inv] t, of 0])
  have "set_state t THREAD_UNBLOCKING s = s" using st by (simp add: set_state_def fun_upd_idem)
  moreover have "kernel_inv U Ts (set_state t THREAD_ACTIVE s1)" by (rule finalizes_inv [OF inv s1(2,3)])
  ultimately show thesis
    using that [of _ "set_state t THREAD_ACTIVE s1" Ts] s1(1) st by (cases "wc_err (ke_wait (set_state t THREAD_ACTIVE s1) t)") (simp_all add: wait_block_commit_def)
qed

lemma commit_debug: "wait_block_commit (sched_do ndebug self) self t s = Some r \<Longrightarrow> wait_block_commit (sched_do True self) self t s = Some r"
  by (auto simp: wait_block_commit_def bind_eq_Some_conv split: thread_state.splits dest: sched_do_any)

lemma dying_inv:
  assumes inv: "kernel_inv U Ts s" and self: "self < length Ts" and run: "runThread (sched_of self s) \<noteq> idleThread (sched_of self s)"
    "sy_state s (runThread (sched_of self s)) = THREAD_ACTIVE"
  shows "kernel_inv U Ts (set_state (runThread (sched_of self s)) THREAD_DYING s)"
proof -
  let ?t = "runThread (sched_of self s)" and ?s = "set_state (runThread (sched_of self s)) THREAD_DYING s"
  note I = kernel_invD [OF inv] and K = kernel_okD [OF kernel_invD(1) [OF inv]] and Q = threads_okD [OF kernel_okD(5) [OF kernel_invD(1) [OF inv]]]
  have t: "?t \<in> set (ino (Ts ! self))" by (rule I(4) [OF self run(1)])
  have wait: "waiting {} ?s u \<longleftrightarrow> waiting {} s u" for u using run(2) by (auto simp: waiting_def)
  have "sys_ok ?s Ts" "runs_ok ?s Ts" using K(1,2) kernel_sys [of ?s s Ts] by simp_all
  moreover have "entries_linked ?s" using K(3) by (subst linked_cong [of _ s]) simp_all
  moreover have "blocked_ok {} ?s" using K(4) by (simp add: blocked_ok_def wait)
  moreover have "threads_ok U {} ?s Ts"
    unfolding threads_ok_def wait
  proof (intro conjI allI impI ballI)
    show "sy_state ?s u = THREAD_ACTIVE" if "i < length Ts" "u \<in> set (ino (Ts ! i))" "u \<noteq> runThread (sched_of i ?s)" for i u
      using Q(7) [of i u] runner_unique(1) [OF K(1) self t refl, of i] that by auto
    show "sy_state ?s (idleThread (sched_of i ?s)) = THREAD_ACTIVE" if "i < length Ts" for i
      using Q(8) [OF that] sys_okD(6) [OF K(1) that self] t by auto
  qed (use Q(1-6,9) in simp_all)
  ultimately have ok: "kernel_ok U {} ?s Ts" by (simp add: kernel_ok_def)
  have "interruptible j ?s" if "j < length Ts" for j
  proof (cases "runThread (sched_of j s) = ?t")
    case True
    then show ?thesis using I(3) [OF self] run(2) by (simp add: interruptible_def Let_def)
  qed (use I(3) [OF that] in \<open>auto intro: interruptible_keep\<close>)
  moreover have "owners_ok ?s" by (rule owners_keep [OF I(5)]) (auto split: if_splits)
  ultimately show "kernel_inv U Ts ?s" using ok by (simp add: kernel_inv_def)
qed

lemma preempt_inv:
  assumes "kernel_inv U Ts s"
  shows "kernel_inv U Ts (set_sched i (\<lambda>sched. sched\<lparr>preemptCount := f (preemptCount sched)\<rparr>) s)" (is "kernel_inv U Ts ?s")
proof (cases "i < length (sy_scheds s)")
  case True
  have S: "runThread (sched_of j ?s) = runThread (sched_of j s)" "idleThread (sched_of j ?s) = idleThread (sched_of j s)"
    "runqueue (sched_of j ?s) = runqueue (sched_of j s)" "totalWeight (sched_of j ?s) = totalWeight (sched_of j s)" for j
    using True by (simp_all add: nth_list_update)
  have more: "sys.more ?s = sys.more s" by simp
  note ke = kernel_more [OF more]
  have "sys_ok ?s Ts = sys_ok s Ts" by (simp add: sys_ok_def sched_ok_def queue_ok_def queue_of_def weights_def S)
  moreover have "runs_ok ?s Ts = runs_ok s Ts" by (simp add: runs_ok_def run_ok_def S)
  moreover have "entries_linked ?s = entries_linked s" by (rule linked_cong) (simp_all add: ke)
  ultimately show ?thesis using assms
    by (simp add: kernel_inv_def kernel_ok_def interruptible_def Let_def blocked_ok_def threads_ok_def waiting_def owners_ok_def S ke)
next
  case False
  then have "?s = s" by (simp add: set_sched_def list_update_beyond not_less)
  then show ?thesis using assms by simp
qed

lemma notes_inv [simp]: "kernel_inv U Ts (s\<lparr>ke_notes := pending\<rparr>) = kernel_inv U Ts s"
  using kernel_ok_cong [of "s\<lparr>ke_notes := pending\<rparr>" s U "{}" Ts] by (simp add: kernel_inv_def interruptible_def owners_ok_def)

lemma note_unblocking:
  assumes ok: "kernel_ok U {} s Ts" and t: "sy_state s t = THREAD_BLOCKED"
  shows "kernel_ok U {t} (set_state t THREAD_UNBLOCKING s) Ts" (is "kernel_ok U _ ?s Ts")
proof -
  note K = kernel_okD [OF ok] and Q = threads_okD [OF kernel_okD(5) [OF ok]] and B = blocked_okD [OF kernel_okD(4) [OF ok]]
  have wt: "waiting {} s t" using t by (simp add: waiting_def)
  have wait: "waiting {t} ?s u \<longleftrightarrow> waiting {} s u" for u using t by (auto simp: waiting_def)
  have "sys_ok ?s Ts" "runs_ok ?s Ts" using K(1,2) kernel_sys [of ?s s Ts] by simp_all
  moreover have "entries_linked ?s" using K(3) by (subst linked_cong [of _ s]) simp_all
  moreover have "blocked_ok {t} ?s" unfolding blocked_ok_def wait using B(1-4) by auto
  moreover have "threads_ok U {t} ?s Ts"
    unfolding threads_ok_def wait
  proof (intro conjI allI impI ballI)
    show "sy_state ?s u = THREAD_ACTIVE" if "i < length Ts" "u \<in> set (ino (Ts ! i))" "u \<noteq> runThread (sched_of i ?s)" for i u
      using Q(7) [of i u] Q(5) [OF wt] that by (auto simp: queued_nth)
    show "sy_state ?s (idleThread (sched_of i ?s)) = THREAD_ACTIVE" if "i < length Ts" for i
      using Q(8) [OF that] Q(6) [OF wt that] by simp
  qed (use Q(1-6,9) in simp_all)
  ultimately show ?thesis by (simp add: kernel_ok_def)
qed

lemma send_note_inv:
  assumes inv: "kernel_inv U Ts s" and self: "self < length Ts"
  obtains result s' Ts' where "thread_send_note self inInterrupt t sent s = Some (result, s')" "kernel_inv U Ts' s'"
proof (cases "isl sent \<or> sy_state s t \<noteq> THREAD_BLOCKED")
  case True
  show thesis
  proof (cases sent)
    case (Inl e)
    then show thesis using that [of _ s Ts] inv by (simp add: thread_send_note_def)
  next
    case (Inr u)
    then have "sy_state s t \<noteq> THREAD_BLOCKED" using True by simp
    then show thesis
      using that [of _ "s\<lparr>ke_notes := (ke_notes s)(t := True)\<rparr>" Ts] inv Inr by (simp add: thread_send_note_def)
  qed
next
  case False
  let ?n = "s\<lparr>ke_notes := (ke_notes s)(t := True)\<rparr>"
  let ?s = "set_state t THREAD_UNBLOCKING ?n"
  have b: "sy_state ?n t = THREAD_BLOCKED" using False by simp
  have invn: "kernel_inv U Ts ?n" using inv by simp
  note I = kernel_invD [OF invn]
  obtain s' c T' where s': "wait_unblock_thread self inInterrupt t (Some EINTR) ?s = Some s'" "kernel_ok U ({t} - {t}) s' (Ts[c := T'])"
    "sy_state s' = (sy_state ?s)(t := THREAD_ACTIVE)" "\<forall>u. u \<noteq> t \<longrightarrow> ke_wait s' u = ke_wait ?s u" "same_cpus ?s s'"
    by (rule unblock_thread_result [OF note_unblocking [OF I(1) b] self, of t inInterrupt "Some EINTR"]) auto
  have run: "runThread (sched_of j ?n) \<noteq> t" if "j < length Ts" for j using I(3) [OF that] b by (auto simp: interruptible_def Let_def)
  have "interruptible j s'" if "j < length Ts" for j
    by (rule interruptible_keep [OF I(3) [OF that]]) (use s'(3-5) run [OF that] in \<open>simp_all add: same_cpus_def\<close>)
  moreover have "owners_ok s'"
    by (rule owners_keep [OF I(5)]) (use s'(3-5) in \<open>auto simp: same_cpus_def split: if_splits\<close>)
  ultimately have "kernel_inv U (Ts[c := T']) s'" using s'(2) by (simp add: kernel_inv_def)
  moreover have "thread_send_note self inInterrupt t sent s = Some (Inr (), s')"
    using False s'(1) by (cases sent) (simp_all add: thread_send_note_def)
  ultimately show thesis using that by blast
qed

section \<open>A CPU comes up\<close>

definition new_sched :: "thread \<Rightarrow> sched" where
  "new_sched idle = \<lparr>totalWeight = 0, runqueue = None, vtime = SCHED_FIXED_ZERO, lastUpdate = 0, preemptCount = 0,
     idleThread = idle, runThread = idle\<rparr>"

lemma new_sched_simps [simp]:
  "totalWeight (new_sched t) = 0" "runqueue (new_sched t) = None" "vtime (new_sched t) = 0" "lastUpdate (new_sched t) = 0"
  "idleThread (new_sched t) = t" "runThread (new_sched t) = t"
  by (simp_all add: new_sched_def SCHED_FIXED_ZERO_def)

definition with_cpu :: "thread \<Rightarrow> 'z kernel_scheme \<Rightarrow> 'z kernel_scheme" where
  "with_cpu idle s = s\<lparr>sy_scheds := sy_scheds s @ [new_sched idle], sy_state := (sy_state s)(idle := THREAD_ACTIVE),
     ke_blocked := (ke_blocked s)(length (sy_scheds s) := [])\<rparr>"

lemma cpu_init_none: "cpu_init s = None \<longleftrightarrow> CPU_MAX \<le> length (sy_scheds s)"
  by (simp add: cpu_init_def assert_that_def Let_def not_less)

lemma cpu_init_ctors:
  assumes "cpu_init s = Some (cpu, s')"
  shows "cpu = length (sy_scheds s)" "percpu_run_ctors cpu (Some idle) s' = Some (with_cpu idle s)"
  using assms
  by (auto simp: cpu_init_def percpu_run_ctors_def sched_ctor_def wait_ctor_def with_cpu_def new_sched_def set_state_def set_sched_def
      assert_that_def Let_def split: if_splits)

lemma trampoline_result:
  "trampoline_c_entry (Some idle) s = (if length (sy_scheds s) < CPU_MAX then Some (with_cpu idle s) else None)"
proof (cases "cpu_init s")
  case None
  then show ?thesis using cpu_init_none [of s] by (simp add: trampoline_c_entry_def)
next
  case (Some r)
  then obtain cpu s' where r: "cpu_init s = Some (cpu, s')" by (cases r) simp
  have "runThread (sched_of cpu (with_cpu idle s)) = idleThread (sched_of cpu (with_cpu idle s))"
    by (simp add: cpu_init_ctors [OF r] with_cpu_def nth_append)
  then show ?thesis using cpu_init_none [of s] r by (simp add: trampoline_c_entry_def cpu_init_ctors(2) [OF r] assert_that_def)
qed

lemma with_cpu_inv:
  assumes inv: "kernel_inv U Ts s" and idle: "sy_state s idle = THREAD_PARKED"
  shows "kernel_inv U (Ts @ [Lf]) (with_cpu idle s)" (is "kernel_inv U ?Ts ?s")
proof -
  note I = kernel_invD [OF inv] and K = kernel_okD [OF kernel_invD(1) [OF inv]]
  note Q = threads_okD [OF K(5)] and B = blocked_okD [OF K(4)]
  have S: "sched_of i ?s = (if i < length Ts then sched_of i s else new_sched idle)" if "i < length ?Ts" for i
    using that I(2) by (auto simp: with_cpu_def nth_append less_Suc_eq)
  have T: "?Ts ! i = (if i < length Ts then Ts ! i else Lf)" if "i < length ?Ts" for i using that by (auto simp: nth_append less_Suc_eq)
  have same: "sy_nodes ?s = sy_nodes s" "sy_clients ?s = sy_clients s" "sy_state ?s = (sy_state s)(idle := THREAD_ACTIVE)"
    "ke_wait ?s = ke_wait s" "ke_queues ?s = ke_queues s" "ke_entry ?s = ke_entry s" "length (sy_scheds ?s) = Suc (length Ts)"
    using I(2) by (simp_all add: with_cpu_def)
  have none: "ke_blocked s (length (sy_scheds s)) = []"
  proof (rule ccontr)
    assume "ke_blocked s (length (sy_scheds s)) \<noteq> []"
    then obtain t where "t \<in> set (ke_blocked s (length (sy_scheds s)))" by (metis list.set_intros(1) neq_Nil_conv)
    then show False using B(3) [of t] I(5) by (fastforce simp: waiting_def owners_ok_def)
  qed
  then have blk: "ke_blocked ?s = ke_blocked s" by (simp add: with_cpu_def fun_upd_idem)
  have qd: "queued ?Ts = queued Ts" by (simp add: queued_def)
  have run: "runThread (sched_of i s) \<noteq> idle" if "i < length Ts" for i using I(3) [OF that] idle by (auto simp: interruptible_def Let_def)
  have inq: "idle \<notin> set (ino (Ts ! i))" if "i < length Ts" for i using Q(7) [OF that, of idle] run [OF that] idle by auto
  have wait: "waiting {} ?s u \<longleftrightarrow> waiting {} s u" for u using idle by (auto simp: waiting_def same)
  have qo: "queue_of i ?s = queue_of i s" if "i < length Ts" for i using S [of i] that by (simp add: queue_of_def same)
  have new: "rb_rep (queue_of (length Ts) ?s) Lf" using S [of "length Ts"] by (simp add: rb_rep_def queue_of_def)
  have "sched_ok ?s i (?Ts ! i)" if i: "i < length ?Ts" for i
  proof (cases "i < length Ts")
    case True
    then show ?thesis
      using sys_okD(2) [OF K(1) True] T [OF i] S [OF i] by (simp add: sched_ok_def queue_ok_def weights_def same qo [OF True])
  next
    case False
    then have "i = length Ts" using i by simp
    then show ?thesis
      using T [OF i] S [OF i] new tnodes_rep [OF new] by (simp add: sched_ok_def queue_ok_def rbt_def sfresh_def weights_def int64_def)
  qed
  moreover have "set (ino (?Ts ! i)) \<inter> set (ino (?Ts ! j)) = {}" if "i < length ?Ts" "j < length ?Ts" "i \<noteq> j" for i j
    using sys_okD(5) [OF K(1), of i j] T that by auto
  moreover have "idleThread (sched_of i ?s) \<notin> set (ino (?Ts ! j))" if "i < length ?Ts" "j < length ?Ts" for i j
    using sys_okD(6) [OF K(1), of i j] T [of j] S [of i] inq [of j] that by auto
  moreover have "sy_nodes ?s t = RBNODE_CREATE" if "\<forall>i < length ?Ts. t \<notin> set (ino (?Ts ! i))" for t
  proof -
    have "\<forall>i < length Ts. t \<notin> set (ino (Ts ! i))" using that T by (auto simp: less_Suc_eq)
    then show ?thesis using K(1) by (simp add: sys_ok_def same)
  qed
  ultimately have "sys_ok ?s ?Ts" unfolding sys_ok_def using same(7) by simp
  moreover have "run_ok ?s i (?Ts ! i)" if "i < length ?Ts" for i
    using K(2) T [OF that] S [OF that] by (auto simp: runs_ok_def run_ok_def)
  then have "runs_ok ?s ?Ts" using K(2) unfolding runs_ok_def by (auto simp: same intro: less_SucI)
  moreover have "entries_linked ?s" using K(3) by (subst linked_cong [of _ s]) (simp_all add: same)
  moreover have "blocked_ok {} ?s" using K(4) by (simp add: blocked_ok_def wait blk same)
  moreover have "threads_ok U {} ?s ?Ts"
    unfolding threads_ok_def wait qd
  proof (intro conjI allI impI ballI)
    show "t \<noteq> idleThread (sched_of i ?s)" if "waiting {} s t" "i < length ?Ts" for t i
      using Q(6) [OF that(1), of i] S [OF that(2)] that(1) idle by (auto simp: waiting_def)
    show "sy_state ?s t = THREAD_ACTIVE" if "i < length ?Ts" "t \<in> set (ino (?Ts ! i))" "t \<noteq> runThread (sched_of i ?s)" for i t
      using Q(7) [of i t] T [OF that(1)] S [OF that(1)] that by (auto simp: same split: if_splits)
    show "sy_state ?s (idleThread (sched_of i ?s)) = THREAD_ACTIVE" if "i < length ?Ts" for i
      using Q(8) [of i] S [OF that] by (auto simp: same)
    show "waiting {} s t \<or> (\<exists>i < length ?Ts. t = runThread (sched_of i ?s) \<and> t \<in> set (ino (?Ts ! i)))" if "wc_entries (ke_wait ?s t) \<noteq> []" for t
    proof -
      have "wc_entries (ke_wait s t) \<noteq> []" using that by (simp add: same)
      then consider "waiting {} s t" | i where "i < length Ts" "t = runThread (sched_of i s)" "t \<in> set (ino (Ts ! i))"
        using Q(9) [of t] by blast
      then show ?thesis
      proof cases
        case (2 i)
        then have "i < length ?Ts \<and> t = runThread (sched_of i ?s) \<and> t \<in> set (ino (?Ts ! i))" using S [of i] T [of i] by simp
        then show ?thesis by blast
      qed simp
    qed
  qed (use Q(1-5) in simp_all)
  ultimately have ok: "kernel_ok U {} ?s ?Ts" by (simp add: kernel_ok_def)
  have "wc_entries (ke_wait s idle) = []"
  proof (rule ccontr)
    assume "wc_entries (ke_wait s idle) \<noteq> []"
    then show False using Q(9) [of idle] inq idle by (auto simp: waiting_def)
  qed
  then have "interruptible i ?s" if "i < length ?Ts" for i
    using I(3) [of i] S [OF that] run [of i] by (auto simp: interruptible_def Let_def same)
  moreover have "owners_ok ?s" by (rule owners_keep [OF I(5)]) (use same I(2) in \<open>auto split: if_splits\<close>)
  ultimately show ?thesis using ok by (simp add: kernel_inv_def)
qed

section \<open>All steps\<close>

lemma kernel_step_inv:
  assumes "kernel_step U s s'" "kernel_inv U Ts s"
  shows "\<exists>Ts'. kernel_inv U Ts' s'"
  using assms
proof (induction rule: kernel_step.induct)
  case (interrupt self s ndebug s')
  then have self: "self < length Ts" using kernel_invD(2) [of U Ts s] by simp
  show ?case by (rule interrupt_inv [OF interrupt(3) self]) (use sched_do_any [OF interrupt(2)] in auto)
next
  case (timeouts self s inInterrupt s')
  then have self: "self < length Ts" using kernel_invD(2) [of U Ts s] by simp
  show ?case by (rule timeouts_inv [OF timeouts(3) self, of inInterrupt]) (use timeouts(2) in auto)
next
  case (unblock self s inInterrupt q amount err n s')
  then have self: "self < length Ts" using kernel_invD(2) [of U Ts s] by simp
  show ?case by (rule unblock_inv [OF unblock(3) self, of inInterrupt q amount err]) (use unblock(2) in auto)
next
  case (submit self s t inInterrupt s')
  then have self: "self < length Ts" using kernel_invD(2) [of U Ts s] by simp
  show ?case by (rule submit_inv [OF submit(5) self submit(2,3), of inInterrupt]) (use submit(4) in auto)
next
  case (prepare self s t allocs queues timeout result s')
  have self: "self < length Ts" using prepare(1,8) kernel_invD(2) [of U Ts s] by simp
  have "\<forall>qs. queues = Some qs \<longrightarrow> distinct qs" using prepare(7) by (auto simp: wait_block_prepare_def split: if_splits)
  then show ?case by (rule prepare_any_inv [OF prepare(8) self prepare(2-6), of timeout]) (use prepare(7) in auto)
next
  case (cancel self s t s')
  then have "sy_state s t = THREAD_PRE_BLOCK \<or> sy_state s t = THREAD_UNBLOCKING"
    by (auto simp: wait_block_cancel_def assert_that_def Let_def split: if_splits)
  then show ?case by (rule cancel_inv [OF cancel(4)]) (use cancel(3) in auto)
next
  case (commit self s t ndebug result s')
  then have self: "self < length Ts" using kernel_invD(2) [of U Ts s] by simp
  have "sy_state s t = THREAD_PRE_BLOCK \<or> sy_state s t = THREAD_UNBLOCKING"
    using commit(3) by (auto simp: wait_block_commit_def split: thread_state.splits)
  then show ?case by (rule commit_inv [OF commit(4) self]) (use commit_debug [OF commit(3)] in auto)
next
  case (exit self s)
  then have self: "self < length Ts" using kernel_invD(2) [of U Ts s] by simp
  have "kernel_inv U Ts (sched_thread_exit self s)" using dying_inv [OF exit(4) self exit(2,3)] by (simp add: sched_thread_exit_def)
  then show ?case by blast
next
  case (kill self s)
  then have self: "self < length Ts" using kernel_invD(2) [of U Ts s] by simp
  show ?case using dying_inv [OF kill(4) self kill(2,3)] by blast
next
  case (disable s self)
  then show ?case using preempt_inv [of U Ts s self "\<lambda>n. n + 1"] by (auto simp: sched_disable_def)
next
  case (enable s self)
  then show ?case using preempt_inv [of U Ts s self "\<lambda>n. n - 1"] by (auto simp: sched_enable_def)
next
  case (send_note self s inInterrupt t sent result s')
  then have self: "self < length Ts" using kernel_invD(2) [of U Ts s] by simp
  show ?case by (rule send_note_inv [OF send_note(3) self, of inInterrupt t sent]) (use send_note(2) in auto)
next
  case (take_note s t pending)
  then show ?case by auto
next
  case (start_cpu s idle s')
  then show ?case using with_cpu_inv [of U Ts s idle] by (auto simp: trampoline_result split: if_splits)
qed

lemma reachable_inv:
  assumes "(kernel_step U)\<^sup>*\<^sup>* s s'" "kernel_inv U Ts s"
  shows "\<exists>Ts'. kernel_inv U Ts' s'"
  using assms by (induction rule: rtranclp_induct) (auto intro: kernel_step_inv)

text \<open>What the calls that can be made in a state of the invariant return.\<close>

lemma calls_return:
  assumes inv: "kernel_inv U Ts s" and self: "self < length Ts"
  shows "sched_do True self s \<noteq> None" "wait_check_timeouts self inInterrupt s \<noteq> None" "wait_unblock self inInterrupt q amount err s \<noteq> None"
    and "t \<in> U \<Longrightarrow> sy_state s t = THREAD_PARKED \<Longrightarrow> submit_now self inInterrupt t s \<noteq> None"
    and "sy_state s t = THREAD_PRE_BLOCK \<or> sy_state s t = THREAD_UNBLOCKING \<Longrightarrow>
      wait_block_cancel t s \<noteq> None \<and> wait_block_commit (sched_do True self) self t s \<noteq> None"
    and "thread_send_note self inInterrupt t sent s \<noteq> None"
    and "t = runThread (sched_of self s) \<Longrightarrow> t \<noteq> idleThread (sched_of self s) \<Longrightarrow> sy_state s t = THREAD_ACTIVE \<Longrightarrow> allocs_ok allocs s \<Longrightarrow>
      length allocs = length qs \<Longrightarrow> distinct qs \<Longrightarrow> wait_block_prepare t (Some qs) allocs timeout s \<noteq> None"
proof -
  show "thread_send_note self inInterrupt t sent s \<noteq> None" by (rule send_note_inv [OF inv self, of inInterrupt t sent]) simp
  show "wait_block_prepare t (Some qs) allocs timeout s \<noteq> None"
    if "t = runThread (sched_of self s)" "t \<noteq> idleThread (sched_of self s)" "sy_state s t = THREAD_ACTIVE" "allocs_ok allocs s"
      "length allocs = length qs" "distinct qs"
    by (rule prepare_any_inv [OF inv self that(1-4), of "Some qs" timeout]) (use that(5,6) in auto)
  show "sched_do True self s \<noteq> None" by (rule interrupt_inv [OF inv self]) simp
  show "wait_check_timeouts self inInterrupt s \<noteq> None" by (rule timeouts_inv [OF inv self, of inInterrupt]) simp
  show "wait_unblock self inInterrupt q amount err s \<noteq> None" by (rule unblock_inv [OF inv self, of inInterrupt q amount err]) simp
  show "submit_now self inInterrupt t s \<noteq> None" if "t \<in> U" "sy_state s t = THREAD_PARKED" by (rule submit_inv [OF inv self that, of inInterrupt]) simp
  show "wait_block_cancel t s \<noteq> None \<and> wait_block_commit (sched_do True self) self t s \<noteq> None"
    if t: "sy_state s t = THREAD_PRE_BLOCK \<or> sy_state s t = THREAD_UNBLOCKING"
  proof
    show "wait_block_cancel t s \<noteq> None" by (rule cancel_inv [OF inv t]) simp
    show "wait_block_commit (sched_do True self) self t s \<noteq> None" by (rule commit_inv [OF inv self t]) simp
  qed
qed

end
