(* ===== verification/Kernel_Boot.thy ===== *)
theory Kernel_Boot
  imports Kernel_Steps
begin

text \<open>
  The scheduler comes up: \<^verbatim>\<open>init_early\<close> numbers the boot CPU, runs its constructors and starts the boot thread. The state after it is
  one of the invariant.
\<close>

section \<open>The first thread\<close>

lemma on_queue_run: "on_queue i f (set_run i t s) = map_option (set_run i t) (on_queue i f s)" if "i < length (sy_scheds s)"
proof -
  have q: "queue_of i (set_run i t s) = queue_of i s" using that by (simp add: queue_of_def set_run_sched)
  have p: "put_queue i q (set_run i t s) = set_run i t (put_queue i q s)" for q
    using that by (cases "sched_of i s") (simp add: put_queue_def set_run_def set_sched_def)
  show ?thesis unfolding on_queue_def q p by (cases "f (queue_of i s)") simp_all
qed

lemma start_enter:
  assumes len: "self < length (sy_scheds s)" and s: "runThread (sched_of self s) = idleThread (sched_of self s)" "rbtree_is_empty (queue_of self s)"
    "totalWeight (sched_of self s) = 0" "vtime (sched_of self s) = 0" "t \<noteq> idleThread (sched_of self s)"
  shows "sched_start self t s = map_option (set_run self t) (sched_enter self t (lastUpdate (sched_of self s)) s)"
proof -
  let ?w = "uint (sy_priority s t) + SCHED_WEIGHT_BASE"
  have w: "0 < ?w" "?w \<le> 256" using uint_lt2p [of "sy_priority s t"] by (simp_all add: SCHED_WEIGHT_BASE_def)
  have idem: "(sched_of self s)\<lparr>vtime := 0\<rparr> = sched_of self s" using s(4) by (cases "sched_of self s") simp
  have same: "sched_vtime_update self (lastUpdate (sched_of self s)) s = Some s"
    using s(3) len by (simp add: sched_vtime_update_def sched_vtime_reset_def set_sched_def SCHED_FIXED_ZERO_def idem)
  let ?v = "\<lambda>client. client\<lparr>veligible := 0, vminEligible := 0, vdeadline := int128 (0 + int128 (SCHED_FIXED_TO (uint CONFIG_TIME_SLICE) sdiv ?w))\<rparr>"
  let ?e = "set_client t ?v (set_sched self (\<lambda>sched. sched\<lparr>totalWeight := int64 (totalWeight sched + ?w)\<rparr>) (set_client t (\<lambda>client. client\<lparr>weight := ?w\<rparr>) s))"
  have enter: "sched_enter self t (lastUpdate (sched_of self s)) s = map_option (set_state t THREAD_ACTIVE) (on_queue self (rbtree_insert t) ?e)"
    unfolding sched_enter_def Let_def using s w len
    by (cases "on_queue self (rbtree_insert t) ?e") (simp_all add: same update_veligible_some)
  have swap: "set_sched self (\<lambda>sched. sched\<lparr>totalWeight := int64 (totalWeight sched + ?w), runThread := t\<rparr>)
      (set_state t THREAD_ACTIVE (set_client t ?v (set_client t (\<lambda>client. client\<lparr>weight := ?w\<rparr>) s))) = set_run self t (set_state t THREAD_ACTIVE ?e)"
    using len by (simp add: set_run_def set_sched_def set_state_def set_client_def)
  have "sched_start self t s = on_queue self (rbtree_insert t) (set_run self t (set_state t THREAD_ACTIVE ?e))"
    unfolding sched_start_def Let_def swap [symmetric] using s w len by (simp add: update_veligible_some)
  also have "\<dots> = map_option (set_run self t) (on_queue self (rbtree_insert t) (set_state t THREAD_ACTIVE ?e))" by (rule on_queue_run) (simp add: len)
  also have "on_queue self (rbtree_insert t) (set_state t THREAD_ACTIVE ?e) = map_option (set_state t THREAD_ACTIVE) (on_queue self (rbtree_insert t) ?e)"
    by (cases "rbtree_insert t (queue_of self ?e)") (simp_all add: on_queue_def put_queue_def set_state_def set_sched_def queue_of_def)
  finally show ?thesis unfolding enter .
qed

section \<open>The state after the start\<close>

text \<open>A system before the scheduler comes up: there is no CPU yet, and no thread has a node in use or waits for anything.\<close>

definition unbooted :: "thread set \<Rightarrow> 'z kernel_scheme \<Rightarrow> bool" where
  "unbooted U s \<longleftrightarrow>
     sy_scheds s = [] \<and> finite U \<and> card U < 2 ^ 50 \<and>
     (\<forall>t. sy_nodes s t = RBNODE_CREATE \<and> lastCpu (sy_clients s t) = None \<and> sy_state s t = THREAD_PARKED \<and> wc_entries (ke_wait s t) = []) \<and>
     (\<forall>q. ke_queues s q = []) \<and> (\<forall>c. ke_blocked s c = [])"

lemma unbooted_inv:
  assumes "unbooted U s"
  shows "kernel_inv U [] s"
proof -
  note N = assms [unfolded unbooted_def]
  have wait: "\<not> waiting {} s t" for t using N by (simp add: waiting_def)
  have "sys_ok s []" "runs_ok s []" using N by (simp_all add: sys_ok_def runs_ok_def)
  moreover have "entries_linked s" using N by (simp add: entries_linked_def)
  moreover have "blocked_ok {} s" using N wait by (simp add: blocked_ok_def)
  moreover have "threads_ok U {} s []" using N wait by (simp add: threads_ok_def queued_def)
  ultimately show ?thesis using N by (simp add: kernel_inv_def kernel_ok_def owners_ok_def)
qed

lemma start_result:
  assumes inv: "kernel_inv U (replicate n Lf) s" and self: "self < n" and sched: "sched_of self s = new_sched idle"
    and t: "t \<in> U" "sy_state s t = THREAD_PARKED"
  obtains s' Ts where "sched_start self t s = Some s'" "kernel_inv U Ts s'" "length Ts = n" "runThread (sched_of self s') = t" "sy_state s' t = THREAD_ACTIVE"
proof -
  note I = kernel_invD [OF inv] and K = kernel_okD [OF kernel_invD(1) [OF inv]] and Q = threads_okD [OF kernel_okD(5) [OF kernel_invD(1) [OF inv]]]
  let ?Ts = "replicate n Lf"
  have self': "self < length ?Ts" "self < length (sy_scheds s)" using self I(2) by simp_all
  have idle: "t \<noteq> idleThread (sched_of j s)" if "j < length ?Ts" for j using Q(8) [OF that] t(2) by auto
  have q: "t \<notin> queued ?Ts" by (simp add: queued_def)
  have run: "run_ok s self (?Ts ! self)" using K(2) self by (simp add: runs_ok_def)
  obtain s1 T1 where s1: "sched_enter self t 0 s = Some s1" "sys_ok s1 (?Ts[self := T1])" "set (ino T1) = insert t (set (ino (?Ts ! self)))"
    "queued (?Ts[self := T1]) = insert t (queued ?Ts)" "steady s s1" "sy_state s1 = (sy_state s)(t := THREAD_ACTIVE)"
    by (rule enter_steady [OF K(1) self'(1) run q idle])
  have "rbtree_is_empty (queue_of self s)" using queue_empty_iff [OF sys_okD(4) [OF K(1) self'(1)]] self by simp
  then have call: "sched_start self t s = Some (set_run self t s1)"
    using start_enter [OF self'(2), of t] s1(1) sched idle [OF self'(1)] by simp
  let ?s = "set_run self t s1" and ?U = "?Ts[self := T1]"
  have l1: "self < length (sy_scheds s1)" using s1(5) self'(2) by (simp add: steady_def)
  note S = set_run_sched [OF l1]
  have "sys.more s1 = sys.more s" using s1(5) by (simp add: steady_def)
  note ke = kernel_more [OF this]
  have R: "runThread (sched_of j s1) = runThread (sched_of j s)" "idleThread (sched_of j s1) = idleThread (sched_of j s)"
    "lastCpu (sy_clients s1 x) = lastCpu (sy_clients s x)" for j x using s1(5) by (simp_all add: steady_def)
  have T: "set (ino (?U ! j)) = (if j = self then {t} else {})" if "j < n" for j using s1(3) self that by simp
  have wait: "waiting {} ?s u \<longleftrightarrow> waiting {} s u" for u using t(2) s1(6) by (simp add: waiting_def)
  have "sys_ok ?s ?U" using s1(2) set_run_sys_ok [OF l1] by simp
  moreover have "run_ok ?s j (?U ! j)" if j: "j < n" for j
    using K(2) T [OF j] that by (cases "j = self") (auto simp: runs_ok_def run_ok_def S R)
  then have "runs_ok ?s ?U" using K(2) by (simp add: runs_ok_def R)
  moreover have "entries_linked ?s" using K(3) ke by (subst linked_cong [of _ s]) simp_all
  moreover have "blocked_ok {} ?s" using K(4) ke by (simp add: blocked_ok_def wait)
  moreover have none: "wc_entries (ke_wait s u) = [] \<or> waiting {} s u" for u using Q(9) [of u] by (cases "wc_entries (ke_wait s u) = []") auto
  have "threads_ok U {} ?s ?U"
    unfolding threads_ok_def wait
  proof (intro conjI allI impI ballI)
    show "queued ?U \<subseteq> U" using s1(4) q t(1) Q(3) by simp
    show "u \<notin> queued ?U" if "waiting {} s u" for u using that Q(5) [OF that] s1(4) t(2) by (auto simp: waiting_def)
    show "sy_state ?s u = THREAD_ACTIVE" if "i < length ?U" "u \<in> set (ino (?U ! i))" for i u
      using that T [of i] s1(6) by (auto split: if_splits)
    show "sy_state ?s (idleThread (sched_of i ?s)) = THREAD_ACTIVE" if "i < length ?U" for i
      using Q(8) [of i] that s1(6) by (simp add: S R)
    show "waiting {} s u \<or> (\<exists>i < length ?U. u = runThread (sched_of i ?s) \<and> u \<in> set (ino (?U ! i)))" if "wc_entries (ke_wait ?s u) \<noteq> []" for u
      using none [of u] that ke by simp
  qed (use Q(1,2,4,6) in \<open>simp_all add: S R\<close>)
  ultimately have ok: "kernel_ok U {} ?s ?U" by (simp add: kernel_ok_def)
  have "wc_entries (ke_wait s t) = []" using none [of t] t(2) by (auto simp: waiting_def)
  then have "interruptible j ?s" if "j < n" for j
  proof (cases "j = self \<or> runThread (sched_of j s) = t")
    case True
    then show ?thesis using s1(6) ke \<open>wc_entries (ke_wait s t) = []\<close> by (intro interruptible_active) (auto simp: S R)
  next
    case False
    then show ?thesis using s1(6) ke that by (intro interruptible_keep [OF I(3)]) (auto simp: S R)
  qed
  moreover have "owners_ok ?s" by (rule owners_keep [OF I(5)]) (use s1(6) ke l1 s1(5) in \<open>auto simp: steady_def split: if_splits\<close>)
  ultimately have "kernel_inv U ?U ?s" using ok by (simp add: kernel_inv_def)
  then show thesis using that [OF call] s1(6) by (simp add: S)
qed

lemma init_early_result:
  assumes s: "unbooted U s" and boot: "boot \<in> U" "boot \<noteq> idle"
  obtains s' Ts where "init_early (Some idle) (Some boot) s = Some s'" "kernel_inv U Ts s'" "length (sy_scheds s') = 1"
    "runThread (sched_of 0 s') = boot" "sy_state s' boot = THREAD_ACTIVE"
proof -
  have st: "sy_state s t = THREAD_PARKED" and none: "sy_scheds s = []" for t using s by (simp_all add: unbooted_def)
  have inv: "kernel_inv U (replicate 1 Lf) (with_cpu idle s)" using with_cpu_inv [OF unbooted_inv [OF s] st] by simp
  obtain s' Ts where s': "sched_start 0 boot (with_cpu idle s) = Some s'" "kernel_inv U Ts s'" "length Ts = 1" "runThread (sched_of 0 s') = boot"
    "sy_state s' boot = THREAD_ACTIVE"
    by (rule start_result [OF inv _ _ boot(1), of 0 idle]) (use boot(2) st none in \<open>simp_all add: with_cpu_def\<close>)
  have "cpu_init s \<noteq> None" using cpu_init_none [of s] none by (simp add: CPU_MAX_def)
  then obtain cpu u where c: "cpu_init s = Some (cpu, u)" by fast
  have "init_early (Some idle) (Some boot) s = Some s'"
    using s'(1) cpu_init_ctors [OF c] none by (simp add: init_early_def c)
  then show thesis using that s' kernel_invD(2) [OF s'(2)] by auto
qed

lemma init_early_panics: "init_early None boot s = None" "init_early idle None s = None"
proof -
  show "init_early None boot s = None" by (cases "cpu_init s") (auto simp: init_early_def percpu_run_ctors_def sched_ctor_def)
  show "init_early idle None s = None"
    by (cases "cpu_init s") (auto simp: init_early_def split: option.splits prod.splits simp: Option.bind_eq_None_conv)
qed

end
