(* ===== verification/Sched_Lag.thy ===== *)
theory Sched_Lag
  imports Sched_Next
begin

text \<open>
  Fairness. The lag of a thread is the time it is owed; the lags of the threads of a run queue add up to zero, up to what
  the integer divisions of the operations lose. So there is always an eligible thread.
\<close>

section \<open>The sum of the lags\<close>

definition lag_sum :: "'z sys_scheme \<Rightarrow> cpu \<Rightarrow> tr \<Rightarrow> int" where
  "lag_sum s i T = (\<Sum>t \<leftarrow> ino T. weight (sy_clients s t) * (vtime (sched_of i s) - veligible (sy_clients s t)))"

text \<open>A CPU that idles has virtual time 0, and so have the threads that entered its run queue since.\<close>

definition idle_ok :: "'z sys_scheme \<Rightarrow> cpu \<Rightarrow> tr \<Rightarrow> bool" where
  "idle_ok s i T \<longleftrightarrow> (runThread (sched_of i s) = idleThread (sched_of i s) \<longrightarrow>
     vtime (sched_of i s) = 0 \<and> (\<forall>x \<in> set (ino T). veligible (sy_clients s x) = 0))"

text \<open>The times are far from the bounds of their types, and so is the total weight.\<close>

definition in_range :: "'z sys_scheme \<Rightarrow> cpu \<Rightarrow> tr \<Rightarrow> bool" where
  "in_range s i T \<longleftrightarrow> near (vtime (sched_of i s)) \<and> near_all (sy_clients s) T \<and> weights s T < 2 ^ 62"

lemma sum_list_mset: "mset xs = mset ys \<Longrightarrow> sum_list (map f xs) = sum_list (map (f :: 'a \<Rightarrow> int) ys)"
  by (metis mset_map sum_mset_sum_list)

lemma sum_list_shift: "(\<Sum>t \<leftarrow> xs. w t * (a + d - v t)) = (\<Sum>t \<leftarrow> xs. w t * (a - v t)) + d * (\<Sum>t \<leftarrow> xs. w t)" for a d :: int
  by (induction xs) (simp_all add: algebra_simps)

lemma sum_list_change:
  "distinct xs \<Longrightarrow> t \<in> set xs \<Longrightarrow> (\<And>x. x \<noteq> t \<Longrightarrow> f x = g x) \<Longrightarrow> sum_list (map f xs) = sum_list (map g xs) + (f t - g t :: int)"
proof (induction xs)
  case (Cons x xs)
  have same: "sum_list (map f xs) = sum_list (map g xs)" if "t \<notin> set xs"
    by (rule arg_cong [of _ _ sum_list], rule map_cong [OF refl], rule Cons.prems(3)) (use that in auto)
  show ?case
  proof (cases "x = t")
    case True
    then show ?thesis using same Cons.prems by simp
  next
    case False
    then show ?thesis using Cons by simp
  qed
qed simp

lemma sum_list_positive:
  "(\<And>x. x \<in> set xs \<Longrightarrow> 0 < f x) \<Longrightarrow> 0 \<le> sum_list (map f xs) \<and> (t \<in> set xs \<longrightarrow> f t \<le> sum_list (map (f :: 'a \<Rightarrow> int) xs))"
  by (induction xs) force+

lemma weights_pos:
  assumes "sched_ok s i T" "t \<in> set (ino T)"
  shows "0 < weight (sy_clients s t)" "weight (sy_clients s t) \<le> weights s T" "weight (sy_clients s t) \<le> 256"
  using assms sum_list_positive [of "ino T" "\<lambda>t. weight (sy_clients s t)" t] by (auto simp: sched_ok_def weights_def)

lemma weights_nonneg: "sched_ok s i T \<Longrightarrow> 0 \<le> weights s T"
  using sum_list_positive [of "ino T" "\<lambda>t. weight (sy_clients s t)"] by (auto simp: sched_ok_def weights_def)

lemma total_weight:
  assumes "sched_ok s i T" "weights s T < 2 ^ 62"
  shows "totalWeight (sched_of i s) = weights s T"
proof -
  have "int64 (weights s T) = weights s T" using weights_nonneg [OF assms(1)] assms(2) by (intro int64_id) auto
  then show ?thesis using assms(1) by (simp add: sched_ok_def)
qed

section \<open>Rounding\<close>

lemma sdiv_pos: "0 \<le> a \<Longrightarrow> 0 < b \<Longrightarrow> a sdiv b = a div b" for a b :: int
  by (cases "a = 0") (simp_all add: signed_divide_int_def)

lemma sdiv_rounds: "0 < b \<Longrightarrow> \<bar>b * (a sdiv b) - a\<bar> < b" for a b :: int
proof -
  assume b: "0 < b"
  have m: "b * (c div b) = c - c mod b" "0 \<le> c mod b" "c mod b < b" for c using b by (simp_all add: minus_mod_eq_mult_div)
  show ?thesis
  proof (cases "0 \<le> a")
    case True
    then show ?thesis using b m [of a] by (simp add: signed_divide_int_def sgn_if)
  next
    case False
    then show ?thesis using b m [of "- a"] by (simp add: signed_divide_int_def sgn_if)
  qed
qed

lemma sdiv_near: "0 < b \<Longrightarrow> \<bar>a sdiv b\<bar> \<le> \<bar>a\<bar>" for a b :: int
proof -
  assume b: "0 < b"
  have "\<bar>a\<bar> div b \<le> \<bar>a\<bar>" "0 \<le> \<bar>a\<bar> div b"
    using b zdiv_mono2 [of "\<bar>a\<bar>" 1 b] by (simp_all add: pos_imp_zdiv_nonneg_iff)
  then show ?thesis using b by (auto simp: signed_divide_int_def abs_if sgn_if split: if_splits)
qed

section \<open>The operations\<close>

lemma int128_small: "\<bar>x\<bar> \<le> 2 ^ 126 \<Longrightarrow> int128 x = x"
  by (rule int128_id) auto

lemma near_int128: "near a \<Longrightarrow> \<bar>b\<bar> \<le> 2 ^ 125 \<Longrightarrow> int128 (a + int128 b) = a + b"
  by (simp add: near_def int128_small)

lemma lag_advance:
  assumes ok: "sched_ok s i T" and run: "totalWeight (sched_of i s) \<noteq> 0 \<Longrightarrow> run_ok s i T" and idle: "idle_ok s i T" and range: "in_range s i T"
    and time: "uptime - lastUpdate (sched_of i s) < 2 ^ 53"
    and T': "mset (ino T') = mset (ino T)" and cal: "calm (set (ino T)) i s s'" and adv: "advanced i uptime s s'"
  shows "\<bar>lag_sum s' i T' - lag_sum s i T\<bar> \<le> weights s T"
proof -
  let ?sched = "sched_of i s" and ?t = "runThread (sched_of i s)" and ?v = "\<lambda>x. veligible (sy_clients s x)"
  let ?w = "\<lambda>x. weight (sy_clients s x)"
  have w': "weight (sy_clients s' x) = ?w x" for x using cal by (simp add: calm_def)
  have sum': "lag_sum s' i T' = (\<Sum>x \<leftarrow> ino T. ?w x * (vtime (sched_of i s') - veligible (sy_clients s' x)))"
    unfolding lag_sum_def using sum_list_mset [OF T'] by (simp add: w')
  have W: "totalWeight ?sched = weights s T" using total_weight [OF ok] range by (simp add: in_range_def)
  show ?thesis
  proof (cases "totalWeight ?sched = 0 \<or> ?t = idleThread ?sched")
    case True
    have z: "vtime (sched_of i s') = 0" "\<And>x. veligible (sy_clients s' x) = ?v x"
      using adv True by (simp_all add: advanced_def Let_def)
    have "lag_sum s' i T' = lag_sum s i T"
    proof (cases "ino T")
      case (Cons y ys)
      then have "totalWeight ?sched \<noteq> 0" using W weights_pos(1,2) [OF ok, of y] by simp
      then have "vtime ?sched = 0" using True idle by (simp add: idle_ok_def)
      then show ?thesis unfolding sum' unfolding z lag_sum_def by simp
    qed (simp add: sum', simp add: lag_sum_def)
    then show ?thesis using weights_nonneg [OF ok] by simp
  next
    case False
    then have t: "?t \<in> set (ino T)" using run by (auto simp: run_ok_def)
    note p = weights_pos [OF ok t]
    let ?d = "uint (uptime - lastUpdate ?sched)"
    have d: "0 \<le> ?d" "?d < 2 ^ 53" using time by (simp_all add: word_less_def)
    then have d63: "0 \<le> ?d * 2 ^ 63" "?d * 2 ^ 63 < 2 ^ 116" by auto
    let ?real = "?d * 2 ^ 63"
    have real: "SCHED_FIXED_TO ?d = ?real" unfolding SCHED_FIXED_TO_def by (rule int128_small) (use d63 in auto)
    have small: "\<bar>?real sdiv b\<bar> \<le> 2 ^ 125" if "0 < b" for b
      using sdiv_near [OF that, of ?real] d63 by (auto simp: abs_if split: if_splits)
    have Wpos: "0 < weights s T" using p by linarith
    have n: "near (vtime ?sched)" "near (?v ?t)" using range t by (auto simp: in_range_def near_all_def)
    have v': "vtime (sched_of i s') = vtime ?sched + ?real sdiv weights s T"
      using adv False near_int128 [OF n(1) small [OF Wpos]] by (simp add: advanced_def Let_def W real)
    have e': "veligible (sy_clients s' ?t) = ?v ?t + ?real sdiv ?w ?t"
      using adv False near_int128 [OF n(2) small [OF p(1)]] by (simp add: advanced_def Let_def W real)
    have e: "veligible (sy_clients s' x) = ?v x" if "x \<noteq> ?t" for x using adv False that by (simp add: advanced_def Let_def)
    have dis: "distinct (ino T)" using ok by (simp add: sched_ok_def queue_ok_def rb_rep_def)
    have "lag_sum s' i T' = (\<Sum>x \<leftarrow> ino T. ?w x * (vtime (sched_of i s') - ?v x)) - ?w ?t * (?real sdiv ?w ?t)"
      unfolding sum' by (subst sum_list_change [OF dis t, where g = "\<lambda>x. ?w x * (vtime (sched_of i s') - ?v x)"]) (simp_all add: e e' algebra_simps)
    also have "\<dots> = lag_sum s i T + weights s T * (?real sdiv weights s T) - ?w ?t * (?real sdiv ?w ?t)"
      unfolding v' sum_list_shift by (simp add: lag_sum_def weights_def)
    finally have eq: "lag_sum s' i T' - lag_sum s i T = (weights s T * (?real div weights s T) - ?real) + (?real - ?w ?t * (?real div ?w ?t))"
      using sdiv_pos [OF d63(1)] Wpos p(1) by simp
    have m: "b * (?real div b) - ?real = - (?real mod b)" "0 \<le> ?real mod b" "?real mod b < b" if "0 < b" for b
      using that by (simp_all add: minus_mod_eq_mult_div [symmetric])
    show ?thesis using eq m [OF Wpos] m [OF p(1)] p(2) by linarith
  qed
qed

lemma vtime_update_lag:
  assumes ok: "sys_ok s Ts" and i: "i < length Ts" and run: "totalWeight (sched_of i s) \<noteq> 0 \<Longrightarrow> run_ok s i (Ts ! i)"
    and idle: "idle_ok s i (Ts ! i)" and range: "in_range s i (Ts ! i)" and time: "uptime - lastUpdate (sched_of i s) < 2 ^ 53"
    and s': "sched_vtime_update i uptime s = Some s'" "sys_ok s' (Ts[i := T'])" "mset (ino T') = mset (ino (Ts ! i))"
  shows "\<bar>lag_sum s' i T' - lag_sum s i (Ts ! i)\<bar> \<le> weights s (Ts ! i)"
proof -
  obtain s1 T1 where s1: "sched_vtime_update i uptime s = Some s1" "calm (set (ino (Ts ! i))) i s s1" "advanced i uptime s s1"
    by (rule vtime_update_result [OF ok i run]) blast
  show ?thesis
    by (rule lag_advance [OF sys_okD(2) [OF ok i] run idle range time s'(3)]) (use s1 s'(1) in simp_all)
qed

lemma enter_lag:
  assumes ok: "sys_ok s Ts" and i: "i < length Ts" and run: "totalWeight (sched_of i s) \<noteq> 0 \<Longrightarrow> run_ok s i (Ts ! i)"
    and t: "t \<notin> queued Ts" "\<And>j. j < length Ts \<Longrightarrow> t \<noteq> idleThread (sched_of j s)"
    and idle: "idle_ok s i (Ts ! i)" and range: "in_range s i (Ts ! i)" and time: "uptime - lastUpdate (sched_of i s) < 2 ^ 53"
  obtains s' T' where "sched_enter i t uptime s = Some s'" "sys_ok s' (Ts[i := T'])" "mset (ino T') = add_mset t (mset (ino (Ts ! i)))"
    "\<bar>lag_sum s' i T' - lag_sum s i (Ts ! i)\<bar> \<le> weights s (Ts ! i)" "idle_ok s' i T'"
proof -
  let ?T = "Ts ! i"
  obtain s1 s' T' where s': "sched_enter i t uptime s = Some s'" "sys_ok s' (Ts[i := T'])" "mset (ino T') = add_mset t (mset (ino ?T))"
    "calm (set (ino ?T)) i s s1" "advanced i uptime s s1" "runThread (sched_of i s') = runThread (sched_of i s)"
    "idleThread (sched_of i s') = idleThread (sched_of i s)" "vtime (sched_of i s') = vtime (sched_of i s1)"
    "\<forall>x. x \<noteq> t \<longrightarrow> weight (sy_clients s' x) = weight (sy_clients s x) \<and> veligible (sy_clients s' x) = veligible (sy_clients s1 x)"
    "veligible (sy_clients s' t) = vtime (sched_of i s1)"
    by (rule enter_result [OF ok i run t]) blast
  have nt: "x \<noteq> t" if "x \<in> set (ino ?T)" for x using that t(1) i by (auto simp: queued_nth)
  have w1: "weight (sy_clients s1 x) = weight (sy_clients s x)" for x using s'(4) by (simp add: calm_def)
  have "lag_sum s' i T' = (\<Sum>x \<leftarrow> t # ino ?T. weight (sy_clients s' x) * (vtime (sched_of i s') - veligible (sy_clients s' x)))"
    unfolding lag_sum_def by (rule sum_list_mset) (simp add: s'(3))
  also have "\<dots> = lag_sum s1 i ?T"
    using s'(8,9,10) nt by (auto simp: lag_sum_def w1 intro!: arg_cong [of _ _ sum_list])
  finally have "\<bar>lag_sum s' i T' - lag_sum s i ?T\<bar> \<le> weights s ?T"
    using lag_advance [OF sys_okD(2) [OF ok i] run idle range time refl s'(4,5)] by simp
  moreover have "idle_ok s' i T'"
    unfolding idle_ok_def
  proof
    assume "runThread (sched_of i s') = idleThread (sched_of i s')"
    then have r: "runThread (sched_of i s) = idleThread (sched_of i s)" using s'(6,7) by simp
    then have v: "vtime (sched_of i s1) = 0" "\<forall>x. veligible (sy_clients s1 x) = veligible (sy_clients s x)"
      using s'(5) by (simp_all add: advanced_def Let_def)
    have "set (ino T') = insert t (set (ino ?T))" using s'(3) by (metis set_mset_add_mset_insert set_mset_mset)
    then show "vtime (sched_of i s') = 0 \<and> (\<forall>x \<in> set (ino T'). veligible (sy_clients s' x) = 0)"
      using v s'(8,9,10) nt idle r by (auto simp: idle_ok_def)
  qed
  ultimately show thesis using that s'(1,2,3) by blast
qed

lemma leave_lag:
  assumes ok: "sys_ok s Ts" and i: "i < length Ts" and t: "t \<in> set (ino (Ts ! i))" and range: "in_range s i (Ts ! i)" and idle: "idle_ok s i (Ts ! i)"
  obtains s' T' where "sched_leave i t uptime s = Some s'" "sys_ok s' (Ts[i := T'])" "ino T' = remove1 t (ino (Ts ! i))"
    "\<bar>lag_sum s' i T' - lag_sum s i (Ts ! i)\<bar> \<le> weights s (Ts ! i) \<or> T' = Lf" "idle_ok s' i T'"
proof -
  let ?T = "Ts ! i" and ?sched = "sched_of i s" and ?v = "\<lambda>x. veligible (sy_clients s x)" and ?w = "\<lambda>x. weight (sy_clients s x)"
  obtain s' T' where s': "sched_leave i t uptime s = Some s'" "sys_ok s' (Ts[i := T'])" "ino T' = remove1 t (ino ?T)"
    "runThread (sched_of i s') = runThread ?sched" "idleThread (sched_of i s') = idleThread ?sched" "vtime (sched_of i s') = left_vtime i t s"
    "\<forall>x. sy_clients s' x = (sy_clients s x)\<lparr>vminEligible := vminEligible (sy_clients s' x)\<rparr>"
    by (rule leave_result [OF ok i t]) blast
  have same: "weight (sy_clients s' x) = ?w x" "veligible (sy_clients s' x) = ?v x" for x by (subst s'(7) [rule_format], simp)+
  have sok: "sched_ok s i ?T" "sched_ok s' i T'" using sys_okD(2) [OF ok i] sys_okD(2) [OF s'(2), of i] i by simp_all
  have ms: "mset (ino ?T) = add_mset t (mset (ino T'))" using s'(3) t by simp
  have W: "weights s ?T = weights s' T' + ?w t" by (rule weights_insert [OF ms]) (simp add: same)
  note p = weights_pos [OF sok(1) t]
  have tot: "int64 (totalWeight ?sched - ?w t) = weights s' T'"
    using total_weight [OF sok(1)] range W weights_nonneg [OF sok(2)] p by (simp add: in_range_def int64_id)
  have n: "near (vtime ?sched)" "near (?v t)" using range t by (auto simp: in_range_def near_all_def)
  let ?lag = "?w t * (vtime ?sched - ?v t)"
  have "\<bar>vtime ?sched - ?v t\<bar> \<le> 2 ^ 117" using n by (simp add: near_def)
  then have big: "\<bar>?lag\<bar> \<le> 2 ^ 125"
    using mult_mono [of "?w t" 256 "\<bar>vtime ?sched - ?v t\<bar>" "2 ^ 117"] p by (simp add: abs_mult)
  have lag: "lag_of i s t = ?lag"
    using n big by (simp add: lag_of_def near_def int128_small mult.commute)
  have sumT: "lag_sum s i ?T = ?lag + (\<Sum>x \<leftarrow> ino T'. ?w x * (vtime ?sched - ?v x))"
    unfolding lag_sum_def using sum_list_mset [of "ino ?T" "t # ino T'"] ms by simp
  have d: "\<bar>lag_sum s' i T' - lag_sum s i ?T\<bar> \<le> weights s ?T" if T': "T' \<noteq> Lf"
  proof -
    obtain y where "y \<in> set (ino T')" using T' by (cases T') auto
    then have pos: "0 < weights s' T'" using weights_pos [OF sok(2)] by fastforce
    have v': "vtime (sched_of i s') = vtime ?sched + ?lag sdiv weights s' T'"
      using pos sdiv_near [OF pos, of ?lag] big near_int128 [OF n(1), of "?lag sdiv weights s' T'"]
      by (simp add: s'(6) left_vtime_def Let_def tot lag)
    have "lag_sum s' i T' = (\<Sum>x \<leftarrow> ino T'. ?w x * (vtime ?sched - ?v x)) + ?lag sdiv weights s' T' * weights s' T'"
      unfolding lag_sum_def same v' sum_list_shift by (simp add: weights_def same)
    then show ?thesis using sdiv_rounds [OF pos, of ?lag] sumT W p by (simp add: mult.commute)
  qed
  have "idle_ok s' i T'"
    unfolding idle_ok_def
  proof
    assume "runThread (sched_of i s') = idleThread (sched_of i s')"
    then have "vtime ?sched = 0" "\<forall>x \<in> set (ino ?T). ?v x = 0" using idle s'(4,5) by (auto simp: idle_ok_def)
    then show "vtime (sched_of i s') = 0 \<and> (\<forall>x \<in> set (ino T'). veligible (sy_clients s' x) = 0)"
      using t notin_set_remove1 [of _ "ino ?T" t] by (auto simp: s'(3,6) left_vtime_def Let_def lag same int128_small signed_divide_int_def)
  qed
  then show thesis using that s'(1-3) d by blast
qed

section \<open>An eligible thread exists\<close>

lemma lag_eligible:
  assumes ok: "sched_ok s i T" and T: "T \<noteq> Lf" and lag: "- (weights s T * e) \<le> lag_sum s i T"
  shows "\<exists>y \<in> set (ino T). veligible (sy_clients s y) \<le> vtime (sched_of i s) + e"
proof (rule ccontr)
  assume no: "\<not> ?thesis"
  have pos: "0 < weight (sy_clients s x) * (veligible (sy_clients s x) - (vtime (sched_of i s) + e))" if "x \<in> set (ino T)" for x
    using no that weights_pos(1) [OF ok that] by force
  obtain y where y: "y \<in> set (ino T)" using T by (cases T) auto
  have "(\<Sum>x \<leftarrow> ino T. weight (sy_clients s x) * (veligible (sy_clients s x) - (vtime (sched_of i s) + e))) = - lag_sum s i T - weights s T * e"
    unfolding lag_sum_def weights_def by (induction T) (simp_all add: algebra_simps)
  then show False
    using sum_list_positive [of "ino T" "\<lambda>x. weight (sy_clients s x) * (veligible (sy_clients s x) - (vtime (sched_of i s) + e))" y]
      pos y lag by force
qed

lemma lag_negative:
  assumes ok: "sched_ok s i T" and x: "x \<in> set (ino T)" "veligible (sy_clients s x) \<ge> vtime (sched_of i s) + slack"
    and rest: "\<And>y. y \<in> set (ino T) \<Longrightarrow> veligible (sy_clients s y) \<ge> vtime (sched_of i s)"
  shows "lag_sum s i T \<le> - slack"
proof -
  let ?f = "\<lambda>y. weight (sy_clients s y) * (veligible (sy_clients s y) - vtime (sched_of i s))"
  have nonneg: "0 \<le> sum_list (map ?f ys) \<and> (z \<in> set ys \<longrightarrow> ?f z \<le> sum_list (map ?f ys))" if "set ys \<subseteq> set (ino T)" for ys z
    using that
  proof (induction ys)
    case (Cons y ys)
    have "0 \<le> ?f y" using rest [of y] weights_pos(1) [OF ok, of y] Cons.prems by simp
    then show ?case using Cons by auto
  qed simp
  have "slack \<le> ?f x" using mult_mono [of 1 "weight (sy_clients s x)" slack] weights_pos(1) [OF ok x(1)] x(2) by simp
  moreover have "?f x \<le> sum_list (map ?f (ino T))" using nonneg [OF order.refl] x(1) by blast
  moreover have "sum_list (map ?f (ino T)) = - lag_sum s i T"
    unfolding lag_sum_def by (induction T) (simp_all add: algebra_simps)
  ultimately show ?thesis by linarith
qed

lemma search_low:
  assumes ok: "sched_ok s i T" and T: "T \<noteq> Lf" "height T \<le> 3" and range: "in_range s i T" and lag: "- slack < lag_sum s i T"
  shows "search (vtime (sched_of i s)) (sy_clients s) T \<noteq> None"
proof
  assume none: "search (vtime (sched_of i s)) (sy_clients s) T = None"
  have fresh: "tree_fresh (sy_clients s) T" using ok by (simp add: sched_ok_def queue_tree_fresh [of _ i])
  have n: "near (vtime (sched_of i s))" "near_all (sy_clients s) T" using range by (simp_all add: in_range_def)
  obtain x where x: "rt T = Some x" using T(1) by (cases T) auto
  then have xT: "x \<in> set (ino T)" by (rule rt_in)
  then have "near (veligible (sy_clients s x))" using n(2) by (simp add: near_all_def)
  then have "vtime (sched_of i s) + slack \<le> veligible (sy_clients s x)"
    using search_root_passed [OF none x fresh] fixed_cmp_near(1) n(1) by auto
  moreover have "vtime (sched_of i s) \<le> veligible (sy_clients s y)" if "y \<in> set (ino T)" for y
  proof -
    have "int (max 1 (height T - 1)) * slack \<le> 2 * slack" using T(2) by (intro mult_right_mono) auto
    then show ?thesis using search_none [OF n(2) fresh n(1) none that] unfolding passed_def by linarith
  qed
  ultimately show False using lag_negative [OF ok xT] lag by fastforce
qed

end
