(* ===== verification/Sched_Properties.thy ===== *)
theory Sched_Properties
  imports Sched_Lag
begin

text \<open>
  The properties of the scheduler of \<^verbatim>\<open>src/kernel/sched/sched.c\<close> and the states that witness them.
\<close>

section \<open>States of one CPU\<close>

fun plant :: "tr \<Rightarrow> rbptr option \<Rightarrow> (rbptr \<Rightarrow> rbnode) \<Rightarrow> rbptr \<Rightarrow> rbnode" where
  "plant Lf p h = h"
| "plant (Nd c l x r) p h =
     plant r (Some x) (plant l (Some x)
       (h(x := \<lparr>rb_parent = p, rb_children = (\<lambda>d. case d of RBNODE_LEFT \<Rightarrow> rt l | RBNODE_RIGHT \<Rightarrow> rt r), rb_color = c\<rparr>)))"

lemma plant_other: "y \<notin> set (ino T) \<Longrightarrow> plant T p h y = h y"
  by (induction T p h rule: plant.induct) auto

lemma plant_repr: "distinct (ino T) \<Longrightarrow> repr (plant T p h) p T"
proof (induction T p h rule: plant.induct)
  case (2 c l x r p h)
  let ?h = "h(x := \<lparr>rb_parent = p, rb_children = (\<lambda>d. case d of RBNODE_LEFT \<Rightarrow> rt l | RBNODE_RIGHT \<Rightarrow> rt r), rb_color = c\<rparr>)"
  have "plant r (Some x) g y = g y" if "y \<in> set (ino l)" for g y using 2(3) that by (intro plant_other) auto
  then have "repr (plant r (Some x) (plant l (Some x) ?h)) (Some x) l = repr (plant l (Some x) ?h) (Some x) l" by (rule repr_cong)
  moreover have "plant r (Some x) (plant l (Some x) ?h) x = ?h x" using 2(3) by (simp add: plant_other)
  ultimately show ?case using 2 by (simp add: fun_upd_def)
qed simp

definition one_cpu :: "tr \<Rightarrow> (thread \<Rightarrow> sched_client) \<Rightarrow> vclock \<Rightarrow> thread \<Rightarrow> sys" where
  "one_cpu T d v run =
     \<lparr>sy_nodes = plant T None (\<lambda>_. RBNODE_CREATE), sy_clients = d, sy_state = (\<lambda>_. THREAD_ACTIVE), sy_priority = (\<lambda>_. 0),
      sy_scheds = [\<lparr>totalWeight = (\<Sum>t \<leftarrow> ino T. weight (d t)), runqueue = rt T, vtime = v, lastUpdate = 0, preemptCount = 0,
                    idleThread = 0, runThread = run\<rparr>],
      sy_log = []\<rparr>"

lemma fresh_above:
  assumes "repr (sy_nodes s) p t" "tree_fresh (sy_clients s) t" "x \<in> set (ino t)"
  shows "fresh_at (queue_of i s) x"
  using assms
proof (induction t arbitrary: p)
  case (Nd c l z r)
  have "fresh_at (queue_of i s) z"
    using Nd.prems(1,2) by (simp add: queue_fresh_at vmin_of_def min_eligible_lower)
  then show ?case using Nd by auto
qed simp

lemma one_cpu_ok:
  assumes T: "distinct (ino T)" "rbt T" "0 \<notin> set (ino T)" and fresh: "tree_fresh d T"
    and sorted: "sorted_wrt (le_by (sched_node_compare d)) (ino T)"
    and w: "\<forall>t \<in> set (ino T). 0 < weight (d t) \<and> weight (d t) \<le> 256" "(\<Sum>t \<leftarrow> ino T. weight (d t)) < 2 ^ 62"
  shows "sys_ok (one_cpu T d v run) [T]"
proof -
  let ?s = "one_cpu T d v run"
  have rep: "rb_rep (queue_of 0 ?s) T" using T(1) plant_repr [OF T(1)] by (simp add: rb_rep_def one_cpu_def)
  have "sfresh (queue_of 0 ?s)"
    unfolding sfresh_def tnodes_rep [OF rep]
    using fresh_above [of ?s None T] plant_repr [OF T(1)] fresh by (simp add: one_cpu_def)
  then have q: "queue_ok ?s 0 T" using rep T(2) sorted by (simp add: queue_ok_def one_cpu_def)
  have "0 \<le> (\<Sum>t \<leftarrow> ino T. weight (d t))" using w(1) by (intro sum_list_nonneg) force
  then have "sched_ok ?s 0 T" using q w by (simp add: sched_ok_def weights_def one_cpu_def int64_id)
  then show ?thesis using T(3) plant_other by (simp add: sys_ok_def one_cpu_def)
qed

definition client :: "int \<Rightarrow> vclock \<Rightarrow> vclock \<Rightarrow> sched_client" where
  "client w v m = \<lparr>weight = w, vdeadline = v + 10000000 * 2 ^ 63 div w, veligible = v, vminEligible = m, stop = 0, lastCpu = None\<rparr>"

definition pair_tree :: tr where
  "pair_tree = Nd RBNODE_BLACK (Nd RBNODE_RED Lf 1 Lf) 2 Lf"

definition pair_sys :: sys where
  "pair_sys = one_cpu pair_tree (\<lambda>t. if t = 1 then client 2 (50 * 2 ^ 63) (50 * 2 ^ 63) else client 1 (200 * 2 ^ 63) (50 * 2 ^ 63))
     (100 * 2 ^ 63) 1"

lemmas sample_simps = one_cpu_def client_def sched_node_compare_def sched_fixed_cmp_def SCHED_FIXED_FROM_def SCHED_EPSILON_def
  lower_def int128_def int64_def

lemma pair_ok: "sys_ok pair_sys [pair_tree]"
  unfolding pair_sys_def
proof (rule one_cpu_ok)
  show "rbt pair_tree" by (auto simp: pair_tree_def rbt_def intro: exI [of _ 1])
qed (simp_all add: pair_tree_def sample_simps)

lemma pair_facts:
  "run_ok pair_sys 0 pair_tree" "idle_ok pair_sys 0 pair_tree" "in_range pair_sys 0 pair_tree" "lag_sum pair_sys 0 pair_tree = 0"
  "queued [pair_tree] = {1, 2}" "length (sy_scheds pair_sys) = 1" "idleThread (sched_of 0 pair_sys) = 0" "lastUpdate (sched_of 0 pair_sys) = 0"
  "vtime (sched_of 0 pair_sys) = 100 * 2 ^ 63" "veligible (sy_clients pair_sys 1) = 50 * 2 ^ 63" "height pair_tree = 2" "ino pair_tree = [1, 2]"
  by (auto simp: pair_sys_def pair_tree_def sample_simps run_ok_def idle_ok_def in_range_def near_def weights_def lag_sum_def queued_def)

definition missed_tree :: tr where
  "missed_tree = Nd RBNODE_BLACK
     (Nd RBNODE_RED (Nd RBNODE_BLACK (Nd RBNODE_RED Lf 1 Lf) 2 Lf) 3 (Nd RBNODE_BLACK Lf 4 Lf)) 5 (Nd RBNODE_BLACK Lf 6 Lf)"

definition missed_sys :: sys where
  "missed_sys = one_cpu missed_tree
     ((\<lambda>_. client 1 (222 * 2 ^ 62) (222 * 2 ^ 62))
        (1 := client 5 (180 * 2 ^ 62) (180 * 2 ^ 62), 2 := client 1 (201 * 2 ^ 62) (201 * 2 ^ 62), 6 := client 1 (233 * 2 ^ 62) (233 * 2 ^ 62)))
     (200 * 2 ^ 62) 3"

lemma missed_ok: "sys_ok missed_sys [missed_tree]"
  unfolding missed_sys_def
proof (rule one_cpu_ok)
  show "rbt missed_tree" by (auto simp: missed_tree_def rbt_def intro: exI [of _ 2])
qed (simp_all add: missed_tree_def sample_simps)

text \<open>The checks of a debug build on the smallest eligible times, over the tree.\<close>

fun verify_tree :: "(thread \<Rightarrow> sched_client) \<Rightarrow> tr \<Rightarrow> bool" where
  "verify_tree d Lf \<longleftrightarrow> True"
| "verify_tree d (Nd c l x r) \<longleftrightarrow>
     pred_option (\<lambda>y. \<not> sched_fixed_cmp (vminEligible (d x)) (vminEligible (d y)) > 0) (rt l) \<and>
     pred_option (\<lambda>y. \<not> sched_fixed_cmp (vminEligible (d x)) (vminEligible (d y)) > 0) (rt r) \<and>
     \<not> (l = Lf \<and> r = Lf \<and> sched_fixed_cmp (vminEligible (d x)) (veligible (d x)) \<noteq> 0) \<and> verify_tree d l \<and> verify_tree d r"

lemma verify_tree_passes:
  "repr (rb_nodes q) p t \<Longrightarrow> verify_tree (rb_data q) t \<Longrightarrow> rt t = Some x \<Longrightarrow> sched_verify_min_eligible q x = Some ()"
proof (induction t arbitrary: p x)
  case (Nd c l z r)
  have l: "sched_verify_min_eligible q y = Some ()" if "rt l = Some y" for y using Nd that by auto
  have r: "sched_verify_min_eligible q y = Some ()" if "rt r = Some y" for y using Nd that by auto
  have chi: "chi q z RBNODE_LEFT = rt l" "chi q z RBNODE_RIGHT = rt r" using Nd.prems(1) by simp_all
  have leaf: "rt u = None \<longleftrightarrow> u = Lf" for u by (cases u) auto
  show ?case
    using Nd.prems l r unfolding sched_verify_min_eligible.simps [of q x]
    by (cases "rt l"; cases "rt r") (auto simp: chi leaf)
qed simp

lemma missed_fields:
  "sched_of 0 missed_sys = \<lparr>totalWeight = 10, runqueue = Some 5, vtime = 200 * 2 ^ 62, lastUpdate = 0, preemptCount = 0,
     idleThread = 0, runThread = 3\<rparr>"
  "sy_state missed_sys = (\<lambda>_. THREAD_ACTIVE)" "ino missed_tree = [1, 2, 3, 4, 5, 6]"
  by (simp_all add: missed_sys_def missed_tree_def one_cpu_def client_def)

lemma missed_clients:
  "sy_clients missed_sys 1 = client 5 (180 * 2 ^ 62) (180 * 2 ^ 62)" "sy_clients missed_sys (Suc 0) = client 5 (180 * 2 ^ 62) (180 * 2 ^ 62)"
  "sy_clients missed_sys 2 = client 1 (201 * 2 ^ 62) (201 * 2 ^ 62)" "sy_clients missed_sys 3 = client 1 (222 * 2 ^ 62) (222 * 2 ^ 62)"
  "sy_clients missed_sys 4 = client 1 (222 * 2 ^ 62) (222 * 2 ^ 62)" "sy_clients missed_sys 5 = client 1 (222 * 2 ^ 62) (222 * 2 ^ 62)"
  "sy_clients missed_sys 6 = client 1 (233 * 2 ^ 62) (233 * 2 ^ 62)"
  by (simp_all add: missed_sys_def one_cpu_def)

lemma fixed_cmp_refl [simp]: "sched_fixed_cmp a a = 0"
  by (simp add: sched_fixed_cmp_def SCHED_FIXED_FROM_def SCHED_EPSILON_def int128_def int64_def)

lemma fold_asserts: "fold (\<lambda>x acc. acc \<bind> (\<lambda>_. assert_that (P x))) xs (Some ()) = (if \<forall>x \<in> set xs. P x then Some () else None)"
proof -
  have "fold (\<lambda>x acc. acc \<bind> (\<lambda>_. assert_that (P x))) xs None = None" by (induction xs) simp_all
  then show ?thesis by (induction xs) (auto simp: assert_that_def)
qed

lemmas missed_simps = missed_fields missed_clients client_def fixed_cmp_near near_def slack_def SCHED_EPSILON_def

lemma missed_search: "search (200 * 2 ^ 62) (sy_clients missed_sys) missed_tree = None"
  by (simp add: missed_tree_def missed_simps)

lemma missed_rep: "rb_rep (queue_of 0 missed_sys) missed_tree"
  using sys_okD(4) [OF missed_ok, of 0] by simp

lemma missed_min_eligible: "sched_verify_min_eligible (queue_of 0 missed_sys) 5 = Some ()"
proof (rule verify_tree_passes [of _ None])
  show "verify_tree (rb_data (queue_of 0 missed_sys)) missed_tree" by (simp add: missed_tree_def, simp add: missed_simps)
qed (use missed_rep in \<open>simp_all add: rb_rep_def missed_tree_def\<close>)

lemma missed_threads: "fold (\<lambda>t acc. acc \<bind> verify_thread 0 missed_sys t) [1, 2, 3, 4, 5, 6] (Some (0, False)) = Some (10, True)"
proof -
  have step: "verify_thread 0 missed_sys t (n, b) = Some (n + weight (sy_clients missed_sys t), b \<or> t = 3)"
    if "0 < weight (sy_clients missed_sys t)" "t \<noteq> 0" "0 \<le> n + weight (sy_clients missed_sys t)" "n + weight (sy_clients missed_sys t) < 2 ^ 62" for t n b
    using that by (simp add: verify_thread_def missed_fields int64_id)
  show ?thesis by (simp add: step missed_clients client_def)
qed

lemma missed_deadlines:
  "fold (\<lambda>other acc. acc \<bind> (\<lambda>_. assert_that (\<not> sched_fixed_cmp (vdeadline (sy_clients missed_sys other)) (vdeadline (sy_clients missed_sys 1)) < 0)))
     [1, 2, 3, 4, 5, 6] (Some ()) = Some ()"
  unfolding fold_asserts by (simp add: missed_simps)

lemma missed_lags: "fold (\<lambda>t sumLag. int128 (sumLag + lag_of 0 missed_sys t)) [1, 2, 3, 4, 5, 6] 0 = 0"
  by (simp add: lag_of_def missed_fields missed_clients client_def int128_small)

lemma missed_verify: "sched_verify 0 missed_sys = Some ()"
proof -
  have first: "rbtree_find_min (rb_root (queue_of 0 missed_sys)) (queue_of 0 missed_sys) = Some (Some 1)"
    using find_min_correct [of "queue_of 0 missed_sys" None missed_tree] missed_rep missed_fields(3) by (simp add: rb_rep_def hd_opt_def)
  have root: "rb_root (queue_of 0 missed_sys) = Some 5" using missed_rep by (simp add: rb_rep_def missed_tree_def)
  have zero: "sched_fixed_cmp 0 0 = 0" by (simp add: sched_fixed_cmp_def SCHED_FIXED_FROM_def SCHED_EPSILON_def int128_def int64_def)
  show ?thesis
    unfolding sched_verify_def Let_def for_each_result(1) [OF missed_rep] missed_fields(3) missed_threads first
    by (simp only: missed_deadlines missed_min_eligible root missed_lags zero missed_fields SCHED_FIXED_ZERO_def bind.bind_lunit
      prod.case option.case sched.simps) simp
qed

section \<open>The properties\<close>

text \<open>C24. Entering and leaving keep the state of the scheduler well-formed. In a well-formed system every run queue is a
  red-black tree of its threads in the order of their deadlines, the smallest eligible time of every subtree, up to the tolerance of the
  comparison at every level, is recorded at its root, the total weight of a CPU is the sum of the weights of its threads, which are from 1 to 256, no thread is in
  two run queues, and an idle thread in none. A thread that is in no run queue enters that of a CPU and is then
  active; a thread of a run queue leaves it. Neither panics, faults or fails to return.\<close>

theorem sched_enter_leave_well_formed:
  assumes "sys_ok s Ts" "i < length Ts" "run_ok s i (Ts ! i)"
  shows "(t \<notin> queued Ts \<and> (\<forall>j < length Ts. t \<noteq> idleThread (sched_of j s)) \<longrightarrow>
      (\<exists>s' T'. sched_enter i t uptime s = Some s' \<and> sys_ok s' (Ts[i := T']) \<and> mset (ino T') = add_mset t (mset (ino (Ts ! i))) \<and>
         sy_state s' t = THREAD_ACTIVE \<and> run_ok s' i T')) \<and>
    (t \<in> set (ino (Ts ! i)) \<longrightarrow>
      (\<exists>s' T'. sched_leave i t uptime s = Some s' \<and> sys_ok s' (Ts[i := T']) \<and> ino T' = remove1 t (ino (Ts ! i)) \<and>
         sy_state s' = sy_state s \<and> sy_nodes s' t = RBNODE_CREATE))"
proof (intro conjI impI)
  assume t: "t \<notin> queued Ts \<and> (\<forall>j < length Ts. t \<noteq> idleThread (sched_of j s))"
  obtain s' T' where s': "sched_enter i t uptime s = Some s'" "sys_ok s' (Ts[i := T'])" "mset (ino T') = add_mset t (mset (ino (Ts ! i)))"
    "sy_state s' = (sy_state s)(t := THREAD_ACTIVE)" "runThread (sched_of i s') = runThread (sched_of i s)"
    "idleThread (sched_of i s') = idleThread (sched_of i s)"
    by (rule enter_result [OF assms(1,2), of t uptime]) (use assms(3) t in auto)
  have "set (ino T') = insert t (set (ino (Ts ! i)))" using s'(3) by (metis set_mset_add_mset_insert set_mset_mset)
  then have "run_ok s' i T'" using assms(3) s'(5,6) by (auto simp: run_ok_def)
  then show "\<exists>s' T'. sched_enter i t uptime s = Some s' \<and> sys_ok s' (Ts[i := T']) \<and> mset (ino T') = add_mset t (mset (ino (Ts ! i))) \<and>
      sy_state s' t = THREAD_ACTIVE \<and> run_ok s' i T'" using s' by auto
next
  assume "t \<in> set (ino (Ts ! i))"
  then show "\<exists>s' T'. sched_leave i t uptime s = Some s' \<and> sys_ok s' (Ts[i := T']) \<and> ino T' = remove1 t (ino (Ts ! i)) \<and>
      sy_state s' = sy_state s \<and> sy_nodes s' t = RBNODE_CREATE"
    by (rule leave_result [OF assms(1,2), of t uptime]) blast
qed

theorem sched_enter_leave_well_formed_witness:
  "(\<exists>s' T'. sched_enter 0 9 70 pair_sys = Some s' \<and> sys_ok s' [T'] \<and> mset (ino T') = {#9, 1, 2#}) \<and>
   (\<exists>s' T'. sched_leave 0 2 70 pair_sys = Some s' \<and> sys_ok s' [T'] \<and> ino T' = [1])"
  using sched_enter_leave_well_formed [OF pair_ok, of 0 9 70] sched_enter_leave_well_formed [OF pair_ok, of 0 2 70] pair_facts
  by (auto simp: add_mset_commute)

text \<open>C25. The next thread has the earliest deadline among the eligible ones, up to the tolerance of the comparison of virtual
  times. If some thread of the run queue became eligible long enough ago, the choice returns, changes nothing, and the thread
  it returns is eligible within the tolerance; every thread with an earlier deadline was not eligible, by a margin that depends
  on the height of the run queue only, which is logarithmic in the number of its threads. In a run queue of at most two levels
  the margin makes every earlier thread strictly not eligible.\<close>

theorem sched_first_eligible_earliest:
  assumes "sys_ok s Ts" "i < length Ts" "in_range s i (Ts ! i)" "y \<in> set (ino (Ts ! i))"
    and "veligible (sy_clients s y) + int (max 1 (height (Ts ! i) - 1)) * slack < vtime (sched_of i s) + 2 * slack"
  shows "\<exists>t xs ys. sched_first_eligible ndebug i stealTime enterTime s = Some (t, s) \<and> ino (Ts ! i) = xs @ t # ys \<and>
    veligible (sy_clients s t) < vtime (sched_of i s) + slack \<and>
    (\<forall>x \<in> set xs. vtime (sched_of i s) + 2 * slack \<le> veligible (sy_clients s x) + int (max 1 (height (Ts ! i) - 1)) * slack) \<and>
    2 ^ (height (Ts ! i) div 2) \<le> length (ino (Ts ! i)) + 1"
proof -
  let ?T = "Ts ! i" and ?now = "vtime (sched_of i s)"
  have q: "queue_ok s i ?T" by (rule sys_okD(3) [OF assms(1,2)])
  have fresh: "tree_fresh (sy_clients s) ?T" by (rule queue_tree_fresh [OF q])
  have n: "near ?now" "near_all (sy_clients s) ?T" using assms(3) by (simp_all add: in_range_def)
  obtain t where t: "search ?now (sy_clients s) ?T = Some t"
    using search_none [OF n(2) fresh n(1) _ assms(4)] assms(5) by (cases "search ?now (sy_clients s) ?T") (auto simp: passed_def)
  have el: "t \<in> set (ino ?T)" "sched_fixed_cmp (veligible (sy_clients s t)) ?now \<le> 0" using search_eligible [OF t] by auto
  then have lt: "veligible (sy_clients s t) < ?now + slack" using fixed_cmp_near(1) n by (auto simp: near_all_def)
  obtain xs ys where xs: "ino ?T = xs @ t # ys" "\<forall>x \<in> set xs. passed ?now ?T (veligible (sy_clients s x))"
    by (rule search_skipped [OF n(2) fresh n(1) t])
  have T: "?T \<noteq> Lf" using assms(4) by (cases ?T) auto
  obtain t' s' Ts' where c: "sched_first_eligible ndebug i stealTime enterTime s = Some (t', s')" "chooses i s Ts t' s' Ts'" "t' = t"
    by (rule first_eligible_result [OF assms(1,2), of ndebug stealTime enterTime]) (use t in auto)
  then have "s' = s" using T by (simp add: chooses_def)
  moreover have "2 ^ (height ?T div 2) \<le> length (ino ?T) + 1" using q by (intro rbt_height) (simp add: queue_ok_def)
  ultimately show ?thesis using c(1,3) xs lt by (auto simp: passed_def)
qed

theorem sched_first_eligible_earliest_witness:
  "\<exists>t xs ys. sched_first_eligible False 0 3 4 pair_sys = Some (t, pair_sys) \<and> [1, 2] = xs @ t # ys \<and>
     veligible (sy_clients pair_sys t) < 100 * 2 ^ 63 + slack"
proof -
  have "sys_ok pair_sys [pair_tree]" "in_range pair_sys 0 ([pair_tree] ! 0)" "1 \<in> set (ino ([pair_tree] ! 0))"
    "veligible (sy_clients pair_sys 1) + int (max 1 (height ([pair_tree] ! 0) - 1)) * slack < vtime (sched_of 0 pair_sys) + 2 * slack"
    by (simp_all add: pair_ok pair_facts slack_def SCHED_EPSILON_def del: One_nat_def)
  from sched_first_eligible_earliest [OF this(1) _ this(2,3,4), of False 3 4] show ?thesis by (auto simp: pair_facts)
qed

text \<open>A debug build finds an eligible thread, and so does not panic, whenever the run queue has from one to three levels and
  its threads are not owed less than the tolerance in sum.\<close>

theorem sched_first_eligible_found:
  assumes "sys_ok s Ts" "i < length Ts" "in_range s i (Ts ! i)" "Ts ! i \<noteq> Lf" "height (Ts ! i) \<le> 3" "- slack < lag_sum s i (Ts ! i)"
  shows "\<exists>t \<in> set (ino (Ts ! i)). sched_first_eligible False i stealTime enterTime s = Some (t, s) \<and>
    veligible (sy_clients s t) < vtime (sched_of i s) + slack"
proof -
  let ?find = "search (vtime (sched_of i s)) (sy_clients s) (Ts ! i)"
  obtain t where t: "?find = Some t"
    using search_low [OF sys_okD(2) [OF assms(1,2)] assms(4,5,3,6)] by auto
  obtain t' s' Ts' where c: "sched_first_eligible False i stealTime enterTime s = Some (t', s')" "chooses i s Ts t' s' Ts'" "t' = t"
    by (rule first_eligible_result [OF assms(1,2), of False stealTime enterTime]) (use t in auto)
  have "t \<in> set (ino (Ts ! i))" "sched_fixed_cmp (veligible (sy_clients s t)) (vtime (sched_of i s)) \<le> 0" using search_eligible [OF t] by auto
  then show ?thesis using c assms(3,4) fixed_cmp_near(1) by (auto simp: chooses_def in_range_def near_all_def)
qed

text \<open>C38. With four levels it does not hold. In this state the system is well-formed, the lags of the threads of the run
  queue add up to zero, all checks of a debug build pass, and thread 1 has been eligible for ten nanoseconds, but the tolerance
  hides it: a debug build panics with no eligible thread found. Without the checks the scheduler falls back to the first
  thread of the run queue.\<close>

theorem sched_first_eligible_misses:
  "sys_ok missed_sys [missed_tree] \<and> run_ok missed_sys 0 missed_tree \<and> lag_sum missed_sys 0 missed_tree = 0 \<and>
   sched_verify 0 missed_sys = Some () \<and> veligible (sy_clients missed_sys 1) + 10 * 2 ^ 63 = vtime (sched_of 0 missed_sys) \<and>
   sched_first_eligible False 0 stealTime enterTime missed_sys = None \<and>
   sched_first_eligible True 0 stealTime enterTime missed_sys = Some (1, missed_sys)"
proof -
  have rep: "rb_rep (queue_of 0 missed_sys) missed_tree" using sys_okD(4) [OF missed_ok, of 0] by simp
  have v: "vtime (sched_of 0 missed_sys) = 200 * 2 ^ 62" by (simp add: missed_sys_def one_cpu_def)
  have loop: "eligible_loop (200 * 2 ^ 62) (queue_of 0 missed_sys) (runqueue (sched_of 0 missed_sys)) = Some None"
    using eligible_loop_search [of "queue_of 0 missed_sys" None missed_tree] rep missed_search by (simp add: rb_rep_def)
  have first: "rbtree_find_min (runqueue (sched_of 0 missed_sys)) (queue_of 0 missed_sys) = Some (Some 1)"
    using find_min_correct [of "queue_of 0 missed_sys" None missed_tree] rep by (simp add: rb_rep_def hd_opt_def missed_tree_def)
  have ne: "\<not> rbtree_is_empty (queue_of 0 missed_sys)" using queue_empty_iff [OF rep] by (simp add: missed_tree_def)
  have "sched_first_eligible False 0 stealTime enterTime missed_sys = None"
    "sched_first_eligible True 0 stealTime enterTime missed_sys = Some (1, missed_sys)"
    unfolding sched_first_eligible_def v loop first using ne by simp_all
  moreover have "run_ok missed_sys 0 missed_tree" "lag_sum missed_sys 0 missed_tree = 0"
    "veligible (sy_clients missed_sys 1) + 10 * 2 ^ 63 = vtime (sched_of 0 missed_sys)"
    by (simp_all add: missed_sys_def missed_tree_def one_cpu_def client_def run_ok_def lag_sum_def)
  ultimately show ?thesis using missed_ok missed_verify by blast
qed

text \<open>C26. Fairness: the sum of what the threads of a run queue are owed moves by rounding only. Entering a thread, or taking one
  out while others remain, changes the sum by at most the total weight before, in units of which a nanosecond has two to the
  power of 63; an empty run queue owes nothing. This holds while the virtual times are in the range of the arithmetic, less than
  $2^{53}$ nanoseconds have passed since the last update, and the virtual time of an idle CPU is zero.\<close>

theorem sched_lag_rounding:
  assumes "sys_ok s Ts" "i < length Ts" "run_ok s i (Ts ! i)" "idle_ok s i (Ts ! i)" "in_range s i (Ts ! i)"
    and "uptime - lastUpdate (sched_of i s) < 2 ^ 53"
  shows "(t \<notin> queued Ts \<and> (\<forall>j < length Ts. t \<noteq> idleThread (sched_of j s)) \<longrightarrow>
      (\<exists>s' T'. sched_enter i t uptime s = Some s' \<and> sys_ok s' (Ts[i := T']) \<and> idle_ok s' i T' \<and>
         mset (ino T') = add_mset t (mset (ino (Ts ! i))) \<and> \<bar>lag_sum s' i T' - lag_sum s i (Ts ! i)\<bar> \<le> weights s (Ts ! i))) \<and>
    (t \<in> set (ino (Ts ! i)) \<longrightarrow>
      (\<exists>s' T'. sched_leave i t uptime s = Some s' \<and> sys_ok s' (Ts[i := T']) \<and> idle_ok s' i T' \<and> ino T' = remove1 t (ino (Ts ! i)) \<and>
         (if ino T' = [] then lag_sum s' i T' = 0 else \<bar>lag_sum s' i T' - lag_sum s i (Ts ! i)\<bar> \<le> weights s (Ts ! i))))"
proof (intro conjI impI)
  assume t: "t \<notin> queued Ts \<and> (\<forall>j < length Ts. t \<noteq> idleThread (sched_of j s))"
  obtain s' T' where "sched_enter i t uptime s = Some s'" "sys_ok s' (Ts[i := T'])" "idle_ok s' i T'" "mset (ino T') = add_mset t (mset (ino (Ts ! i)))"
    "\<bar>lag_sum s' i T' - lag_sum s i (Ts ! i)\<bar> \<le> weights s (Ts ! i)"
    by (rule enter_lag [OF assms(1,2) _ _ _ assms(4,5,6), of t]) (use assms(3) t in auto)
  then show "\<exists>s' T'. sched_enter i t uptime s = Some s' \<and> sys_ok s' (Ts[i := T']) \<and> idle_ok s' i T' \<and>
      mset (ino T') = add_mset t (mset (ino (Ts ! i))) \<and> \<bar>lag_sum s' i T' - lag_sum s i (Ts ! i)\<bar> \<le> weights s (Ts ! i)" by blast
next
  assume "t \<in> set (ino (Ts ! i))"
  then obtain s' T' where s': "sched_leave i t uptime s = Some s'" "sys_ok s' (Ts[i := T'])" "idle_ok s' i T'" "ino T' = remove1 t (ino (Ts ! i))"
    "\<bar>lag_sum s' i T' - lag_sum s i (Ts ! i)\<bar> \<le> weights s (Ts ! i) \<or> T' = Lf"
    by (rule leave_lag [OF assms(1,2) _ assms(5,4), of t uptime]) blast
  have "if ino T' = [] then lag_sum s' i T' = 0 else \<bar>lag_sum s' i T' - lag_sum s i (Ts ! i)\<bar> \<le> weights s (Ts ! i)"
    using s'(5) by (auto simp: lag_sum_def)
  then show "\<exists>s' T'. sched_leave i t uptime s = Some s' \<and> sys_ok s' (Ts[i := T']) \<and> idle_ok s' i T' \<and> ino T' = remove1 t (ino (Ts ! i)) \<and>
      (if ino T' = [] then lag_sum s' i T' = 0 else \<bar>lag_sum s' i T' - lag_sum s i (Ts ! i)\<bar> \<le> weights s (Ts ! i))" using s'(1-4) by blast
qed

theorem sched_lag_rounding_witness:
  "\<exists>s' T'. sched_leave 0 2 70 pair_sys = Some s' \<and> sys_ok s' [T'] \<and> \<bar>lag_sum s' 0 T' - lag_sum pair_sys 0 pair_tree\<bar> \<le> 3"
proof -
  have w: "weights pair_sys pair_tree = 3" by (simp add: pair_sys_def pair_tree_def one_cpu_def client_def weights_def)
  have r: "remove1 2 (ino pair_tree) \<noteq> []" by (simp add: pair_tree_def)
  show ?thesis using sched_lag_rounding [OF pair_ok, of 0 70 2] pair_facts w r by (auto split: if_splits)
qed

end
