(* ===== verification/Wait_Properties.thy ===== *)
theory Wait_Properties
  imports Kernel_Boot Sched_Properties
begin

text \<open>
  The properties of the wait queues of \<^verbatim>\<open>src/kernel/sched/wait.c\<close>, of the scheduler interrupt and of the system they make
  up, and the states that witness them.
\<close>

section \<open>A state with two blocked threads\<close>

definition blocked_client :: "nat \<Rightarrow> u64 \<Rightarrow> wait_client" where
  "blocked_client e deadline = \<lparr>wc_entries = [e], wc_err = None, wc_deadline = deadline, wc_owner = Some 0\<rparr>"

definition pair_kernel :: kernel where
  "pair_kernel =
     \<lparr>sy_nodes = sy_nodes pair_sys, sy_clients = sy_clients pair_sys, sy_state = (\<lambda>_. THREAD_ACTIVE)(3 := THREAD_BLOCKED, 4 := THREAD_BLOCKED),
      sy_priority = sy_priority pair_sys, sy_scheds = sy_scheds pair_sys, sy_log = [],
      ke_wait = (\<lambda>_. \<lparr>wc_entries = [], wc_err = None, wc_deadline = 0, wc_owner = None\<rparr>)(3 := blocked_client 30 50, 4 := blocked_client 40 60),
      ke_entry = [30 \<mapsto> \<lparr>we_thread = 3, we_queue = 7\<rparr>, 40 \<mapsto> \<lparr>we_thread = 4, we_queue = 7\<rparr>],
      ke_queues = (\<lambda>_. [])(7 := [30, 40]), ke_blocked = (\<lambda>_. [])(0 := [3, 4]), ke_notes = (\<lambda>_. False), ke_times = (\<lambda>_. 55), ke_reads = 0\<rparr>"

lemma pair_kernel_simps:
  "ke_wait pair_kernel = (\<lambda>_. \<lparr>wc_entries = [], wc_err = None, wc_deadline = 0, wc_owner = None\<rparr>)(3 := blocked_client 30 50, 4 := blocked_client 40 60)"
  "ke_entry pair_kernel = [30 \<mapsto> \<lparr>we_thread = 3, we_queue = 7\<rparr>, 40 \<mapsto> \<lparr>we_thread = 4, we_queue = 7\<rparr>]"
  "ke_queues pair_kernel = (\<lambda>_. [])(7 := [30, 40])" "ke_blocked pair_kernel = (\<lambda>_. [])(0 := [3, 4])"
  "sy_state pair_kernel = (\<lambda>_. THREAD_ACTIVE)(3 := THREAD_BLOCKED, 4 := THREAD_BLOCKED)" "ke_times pair_kernel = (\<lambda>_. 55)" "ke_reads pair_kernel = 0"
  "runThread (sched_of 0 pair_kernel) = 1" "idleThread (sched_of 0 pair_kernel) = 0" "preemptCount (sched_of 0 pair_kernel) = 0"
  by (simp_all add: pair_kernel_def pair_sys_def one_cpu_def)

lemma pair_kernel_ok: "kernel_ok {0, 1, 2, 3, 4} {} pair_kernel [pair_tree]"
proof -
  have "sys_ok pair_kernel [pair_tree]" using pair_ok sys_ok_cong [of pair_kernel pair_sys "[pair_tree]"] by (simp add: pair_kernel_def)
  moreover have "lastCpu (sy_clients pair_kernel t) = None" for t by (simp add: pair_kernel_def pair_sys_def one_cpu_def client_def)
  then have "runs_ok pair_kernel [pair_tree]" by (simp add: runs_ok_def run_ok_def pair_kernel_simps pair_facts)
  moreover have "entries_linked pair_kernel" by (simp add: entries_linked_def pair_kernel_simps blocked_client_def)
  moreover have "blocked_ok {} pair_kernel" by (auto simp: blocked_ok_def waiting_def pair_kernel_simps blocked_client_def)
  moreover have "threads_ok {0, 1, 2, 3, 4} {} pair_kernel [pair_tree]"
    by (simp add: threads_ok_def waiting_def pair_kernel_simps blocked_client_def pair_facts)
  ultimately show ?thesis by (simp add: kernel_ok_def)
qed

lemma pair_kernel_inv: "kernel_inv {0, 1, 2, 3, 4} [pair_tree] pair_kernel"
proof -
  have "length (sy_scheds pair_kernel) = 1" using sys_okD(1) [OF kernel_okD(1) [OF pair_kernel_ok]] by simp
  then show ?thesis
    using pair_kernel_ok by (auto simp: kernel_inv_def owners_ok_def interruptible_def pair_kernel_simps blocked_client_def split: if_splits)
qed

lemma pair_kernel_blocked: "blocked_on pair_kernel 7 = {3, 4}"
  by (auto simp: blocked_on_def pair_kernel_simps)

lemma added_none: "q \<notin> set qs \<Longrightarrow> added q qs es = []"
  by (auto simp: added_def filter_empty_conv dest: set_zip_leftD)

lemma added_nth: "length qs = length es \<Longrightarrow> distinct qs \<Longrightarrow> i < length qs \<Longrightarrow> added (qs ! i) qs es = [es ! i]"
  by (induction qs es arbitrary: i rule: list_induct2) (auto simp: nth_Cons added_none split: nat.splits)

section \<open>Properties\<close>

text \<open>C28. Waking by number does not count: whatever positive amount is asked for, \<^verbatim>\<open>wait_unblock\<close> wakes every thread that is
  blocked on the queue, returns their number, and leaves the threads that do not wait on anything as they were. All of them are
  runnable, hold the given error and are in a run queue; the kernel is well-formed again.\<close>

theorem wait_unblock_wakes_all:
  assumes "kernel_ok U {} s Ts" "self < length Ts" "0 < amount"
  shows "\<exists>s' Ts'. wait_unblock self inInterrupt q amount err s = Some (of_nat (card (blocked_on s q)), s') \<and> kernel_ok U {} s' Ts' \<and>
    queued Ts' = queued Ts \<union> blocked_on s q \<and> blocked_on s' q = {} \<and>
    (\<forall>t \<in> blocked_on s q. sy_state s' t = THREAD_ACTIVE \<and> wc_err (ke_wait s' t) = err) \<and>
    (\<forall>t. wc_entries (ke_wait s t) = [] \<longrightarrow> sy_state s' t = sy_state s t \<and> ke_wait s' t = ke_wait s t)"
proof -
  obtain s' Ts' where s': "unblock_loop self inInterrupt q amount err 0 s = Some (0 + of_nat (card (blocked_on s q)), s')"
    "unblocks U q err Ts Ts' s s'" by (rule unblock_loop_result [OF assms])
  then show ?thesis using s' by (intro exI [of _ s'] exI [of _ Ts']) (simp add: wait_unblock_def unblocks_none [OF s'(2)] unblocks_def)
qed

theorem wait_unblock_wakes_all_witness:
  "\<exists>s'. wait_unblock 0 False 7 1 None pair_kernel = Some (2, s') \<and> sy_state s' 3 = THREAD_ACTIVE \<and> sy_state s' 4 = THREAD_ACTIVE"
  using wait_unblock_wakes_all [OF pair_kernel_ok, of 0 1 False 7 None] by (auto simp: pair_kernel_blocked)

text \<open>C29. The timeouts: the check returns, wakes a prefix of the list of blocked threads of the CPU with \<^verbatim>\<open>ETIMEDOUT\<close>, each of
  them at or after its deadline, and stops before the first one whose deadline is still to come, for which it sets the timer;
  no thread with a passed deadline is left behind and no other thread is changed.\<close>

theorem wait_check_timeouts_expired:
  assumes "kernel_ok U {} s Ts" "self < length Ts"
  shows "let now = (\<lambda>i. ke_times s (ke_reads s + 3 * i)) in
    \<exists>s' Ts' woken rest. wait_check_timeouts self inInterrupt s = Some s' \<and> kernel_ok U {} s' Ts' \<and>
    ke_blocked s self = woken @ rest \<and> ke_blocked s' self = rest \<and> queued Ts' = queued Ts \<union> set woken \<and>
    (\<forall>i < length woken. wc_deadline (ke_wait s (woken ! i)) \<le> now i) \<and>
    (\<forall>t \<in> set woken. sy_state s' t = THREAD_ACTIVE \<and> wc_err (ke_wait s' t) = Some ETIMEDOUT) \<and>
    (\<forall>t \<in> set rest. wc_deadline (ke_wait s t) > now (length woken)) \<and>
    (rest \<noteq> [] \<longrightarrow> last (sy_log s') = Timer_set self (now (length woken)) (wc_deadline (ke_wait s (hd rest)))) \<and>
    (\<forall>t. t \<notin> set woken \<longrightarrow> sy_state s' t = sy_state s t \<and> ke_wait s' t = ke_wait s t)"
proof -
  obtain s' Ts' woken rest where r: "wait_check_timeouts self inInterrupt s = Some s'" "ke_blocked s self = woken @ rest"
    "times_out U self woken rest Ts Ts' s s'" by (rule check_timeouts_result [OF assms])
  then show ?thesis unfolding times_out_def Let_def
    by (intro exI [of _ s'] exI [of _ Ts'] exI [of _ woken] exI [of _ rest]) blast
qed

theorem wait_check_timeouts_expired_witness:
  "\<exists>s'. wait_check_timeouts 0 True pair_kernel = Some s' \<and> sy_state s' 3 = THREAD_ACTIVE \<and> ke_blocked s' 0 = [4]"
proof -
  have t: "ke_times pair_kernel (ke_reads pair_kernel + n) = 55" "ke_blocked pair_kernel 0 = [3, 4]" for n by (simp_all add: pair_kernel_simps)
  have d: "wc_deadline (ke_wait pair_kernel 3) = 50" "wc_deadline (ke_wait pair_kernel 4) = 60" by (simp_all add: pair_kernel_simps blocked_client_def)
  obtain s' woken rest where r: "wait_check_timeouts 0 True pair_kernel = Some s'" "[3, 4] = woken @ rest" "ke_blocked s' 0 = rest"
    "\<forall>i < length woken. wc_deadline (ke_wait pair_kernel (woken ! i)) \<le> 55" "\<forall>t \<in> set woken. sy_state s' t = THREAD_ACTIVE"
    "\<forall>t \<in> set rest. wc_deadline (ke_wait pair_kernel t) > 55"
    using wait_check_timeouts_expired [OF pair_kernel_ok, of 0 True] unfolding Let_def t by (simp del: One_nat_def) blast
  have "\<forall>t \<in> set woken. wc_deadline (ke_wait pair_kernel t) \<le> 55" using r(4) unfolding all_set_conv_all_nth .
  then have "3 \<notin> set rest" "4 \<notin> set woken" using r(6) d by auto
  then have "woken = [3] \<and> rest = [4]" using r(2) by (cases woken; cases "tl woken") auto
  then show ?thesis using r(1,3,5) by auto
qed

text \<open>C30. Preparing to block and cancelling restores the wait queues: a new entry of the thread is at the end of each of its queues
  and nothing else is added to a queue, the thread is in the state before the block and has the deadline the timeout gives.
  Cancelling makes it active again with no entries, and all wait queues are what they were.\<close>

theorem wait_prepare_cancel:
  assumes "kernel_ok U {} s Ts" "self < length Ts" "t = runThread (sched_of self s)" "t \<in> set (ino (Ts ! self))"
    and "sy_state s t = THREAD_ACTIVE" "wc_entries (ke_wait s t) = []"
    and "qs \<noteq> []" "length qs = length es" "distinct es" "\<forall>e \<in> set es. ke_entry s e = None" "distinct qs"
  shows "\<exists>s1 s2. wait_block_prepare t (Some qs) (map Some es) timeout s = Some (Inr (), s1) \<and> kernel_ok U {} s1 Ts \<and>
    sy_state s1 t = THREAD_PRE_BLOCK \<and> wc_entries (ke_wait s1 t) = es \<and>
    wc_deadline (ke_wait s1 t) = CLOCKS_DEADLINE timeout (ke_times s (ke_reads s)) \<and>
    (\<forall>i < length qs. ke_queues s1 (qs ! i) = ke_queues s (qs ! i) @ [es ! i] \<and> ke_entry s1 (es ! i) = Some \<lparr>we_thread = t, we_queue = qs ! i\<rparr>) \<and>
    (\<forall>q. q \<notin> set qs \<longrightarrow> ke_queues s1 q = ke_queues s q) \<and>
    wait_block_cancel t s1 = Some s2 \<and> kernel_ok U {} s2 Ts \<and> ke_queues s2 = ke_queues s \<and> wc_entries (ke_wait s2 t) = [] \<and>
    sy_state s2 = sy_state s"
proof -
  obtain s1 where s1: "wait_block_prepare t (Some qs) (map Some es) timeout s = Some (Inr (), s1)" "kernel_ok U {} s1 Ts"
    "sy_state s1 = (sy_state s)(t := if sy_state s t = THREAD_ACTIVE then THREAD_PRE_BLOCK else THREAD_UNBLOCKING)"
    "wc_entries (ke_wait s1 t) = es" "wc_deadline (ke_wait s1 t) = CLOCKS_DEADLINE timeout (ke_times s (ke_reads s))"
    "ke_queues s1 = (\<lambda>q. ke_queues s q @ added q qs es)" "map (ke_entry s1) es = map (\<lambda>q. Some \<lparr>we_thread = t, we_queue = q\<rparr>) qs"
    by (rule prepare_result [OF assms(1-4) _ assms(6-11)]) (use assms(5) in auto)
  have d: "\<forall>q. set es \<inter> set (ke_queues s q) = {}" using linkedD(4) [OF kernel_okD(3) [OF assms(1)]] assms(10) by fastforce
  obtain s2 where "wait_block_cancel t s1 = Some s2" "kernel_ok U {} s2 Ts" "ke_queues s2 = ke_queues s" "wc_entries (ke_wait s2 t) = []"
    "sy_state s2 = (sy_state s1)(t := THREAD_ACTIVE)"
    by (rule cancel_result [OF s1(2) _ s1(4) assms(8,9) s1(7,6) d]) (use s1(3) assms(5) in auto)
  moreover have "ke_queues s1 (qs ! i) = ke_queues s (qs ! i) @ [es ! i]" "ke_entry s1 (es ! i) = Some \<lparr>we_thread = t, we_queue = qs ! i\<rparr>"
    if "i < length qs" for i
    using s1(6) added_nth [OF assms(8,11) that] arg_cong [OF s1(7), of "\<lambda>xs. xs ! i"] that assms(8) by simp_all
  moreover have "ke_queues s1 q = ke_queues s q" if "q \<notin> set qs" for q using s1(6) added_none [OF that] by simp
  ultimately show ?thesis using s1(1-5) assms(5) by (intro exI [of _ s1] exI [of _ s2]) (simp add: fun_upd_idem)
qed

theorem wait_prepare_cancel_witness:
  "\<exists>s1 s2. wait_block_prepare 1 (Some [7, 8]) [Some 50, Some 51] 100 pair_kernel = Some (Inr (), s1) \<and>
     ke_queues s1 7 = [30, 40, 50] \<and> wait_block_cancel 1 s1 = Some s2 \<and> ke_queues s2 7 = [30, 40]"
  using wait_prepare_cancel [OF pair_kernel_ok, of 0 1 "[7, 8]" "[50, 51]" 100] by (auto simp: pair_kernel_simps pair_facts less_2_cases_iff all_conj_distrib imp_conjR)

text \<open>C39. Preparing to block on several queues leaks when memory runs out. The call fails with \<^verbatim>\<open>ENOMEM\<close> and frees the entries
  it made, but they stay in the wait queues: the next call that unblocks the first queue uses a freed entry.\<close>

theorem wait_prepare_enomem_dangles:
  "\<exists>s. wait_block_prepare 1 (Some [8, 9]) [Some 50, None] 100 pair_kernel = Some (Inl ENOMEM, s) \<and> wc_entries (ke_wait s 1) = [] \<and>
     ke_queues s 8 = [50] \<and> ke_entry s 50 = None \<and> wait_unblock 0 False 8 amount err s = (if amount = 0 then Some (0, s) else None)"
proof -
  define s where "s = entry_free 50 (set_wait 1 (\<lambda>w. w\<lparr>wc_entries := tl (wc_entries w)\<rparr>) (queue_push 8 50 (set_wait 1 (\<lambda>w. w\<lparr>wc_entries := wc_entries w @ [50]\<rparr>)
    (pair_kernel\<lparr>ke_entry := (ke_entry pair_kernel)(50 \<mapsto> \<lparr>we_thread = 1, we_queue = 8\<rparr>)\<rparr>))))"
  have "wait_block_prepare 1 (Some [8, 9]) [Some 50, None] 100 pair_kernel = Some (Inl ENOMEM, s)"
    by (simp add: wait_block_prepare_def Let_def s_def pair_kernel_simps)
  moreover have q: "wc_entries (ke_wait s 1) = []" "ke_queues s 8 = [50]" "ke_entry s 50 = None"
    by (simp_all add: s_def pair_kernel_simps)
  moreover have "wait_unblock 0 False 8 amount err s = (if amount = 0 then Some (0, s) else None)"
    unfolding wait_unblock_def unblock_loop.simps [of 0 False 8 amount err 0 s] by (auto simp: q unat_eq_0 Let_def)
  ultimately show ?thesis by blast
qed

text \<open>C31. The kernel never panics in the scheduler or the wait queues. From a well-formed state, whatever the CPUs do, in any
  order, each call being one atomic step: the state they reach is well-formed, and there every call the step relation allows
  returns in a build without debug checks: the scheduler interrupt, the check of the timeouts, unblocking a queue, sending a
  note, submitting a new thread, starting another CPU, preparing to block for an active thread that runs on the CPU, and, for
  a thread that has prepared to block, cancelling and committing. With debug checks the interrupt and the commit panic or do
  the same. No thread is in two run queues, and a thread that is blocked is in none. Left out is a second or later
  allocation that fails in a call that prepares to block.\<close>

theorem kernel_never_panics:
  assumes "kernel_inv U Ts s" "(kernel_step U)\<^sup>*\<^sup>* s s'" "self < length (sy_scheds s')"
  shows "(\<exists>Ts'. kernel_inv U Ts' s' \<and> (\<forall>i < length Ts'. \<forall>j < length Ts'. i \<noteq> j \<longrightarrow> set (ino (Ts' ! i)) \<inter> set (ino (Ts' ! j)) = {}) \<and>
       (\<forall>t. sy_state s' t = THREAD_BLOCKED \<longrightarrow> t \<notin> queued Ts' \<and> (\<exists>c < length (sy_scheds s'). t \<in> set (ke_blocked s' c)))) \<and>
    sched_do True self s' \<noteq> None \<and> sched_do False self s' \<in> {None, sched_do True self s'} \<and>
    wait_check_timeouts self inInterrupt s' \<noteq> None \<and> wait_unblock self inInterrupt q amount err s' \<noteq> None \<and>
    (\<forall>t sent. thread_send_note self inInterrupt t sent s' \<noteq> None) \<and>
    (\<forall>t \<in> U. sy_state s' t = THREAD_PARKED \<longrightarrow> submit_now self inInterrupt t s' \<noteq> None) \<and>
    (\<forall>idle. length (sy_scheds s') < CPU_MAX \<longrightarrow> trampoline_c_entry (Some idle) s' \<noteq> None) \<and>
    (\<forall>qs allocs timeout. let t = runThread (sched_of self s') in
       t \<noteq> idleThread (sched_of self s') \<and> sy_state s' t = THREAD_ACTIVE \<and> distinct qs \<and> length allocs = length qs \<and> allocs_ok allocs s' \<longrightarrow>
       wait_block_prepare t (Some qs) allocs timeout s' \<noteq> None) \<and>
    (\<forall>t. sy_state s' t = THREAD_PRE_BLOCK \<or> sy_state s' t = THREAD_UNBLOCKING \<longrightarrow>
       wait_block_cancel t s' \<noteq> None \<and> wait_block_commit (sched_do True self) self t s' \<noteq> None \<and>
       wait_block_commit (sched_do False self) self t s' \<in> {None, wait_block_commit (sched_do True self) self t s'})"
proof -
  obtain Ts' where inv: "kernel_inv U Ts' s'" using reachable_inv [OF assms(2,1)] by blast
  note I = kernel_invD [OF inv] and Q = threads_okD [OF kernel_okD(5) [OF kernel_invD(1) [OF inv]]] and B = blocked_okD [OF kernel_okD(4) [OF kernel_invD(1) [OF inv]]]
  have self: "self < length Ts'" using assms(3) I(2) by simp
  note R = calls_return [OF inv self]
  have dis: "set (ino (Ts' ! i)) \<inter> set (ino (Ts' ! j)) = {}" if "i < length Ts'" "j < length Ts'" "i \<noteq> j" for i j
    using sys_okD(5) [OF kernel_okD(1) [OF I(1)] that(1,2)] that(3) by auto
  have blk: "t \<notin> queued Ts' \<and> (\<exists>c < length (sy_scheds s'). t \<in> set (ke_blocked s' c))" if t: "sy_state s' t = THREAD_BLOCKED" for t
  proof -
    have "waiting {} s' t" using t by (simp add: waiting_def)
    then obtain c where c: "t \<in> set (ke_blocked s' c)" using B(3,4) [of t] by blast
    then have "c < length (sy_scheds s')" using B(3) [of t c] c I(5) t by (auto simp: owners_ok_def)
    then show ?thesis using c Q(5) [of t] t by (auto simp: waiting_def)
  qed
  have debug: "sched_do False self s' \<in> {None, sched_do True self s'}" using sched_do_debug [of self s'] by (cases "sched_do False self s'") auto
  have commit: "wait_block_commit (sched_do False self) self t s' \<in> {None, wait_block_commit (sched_do True self) self t s'}" for t
    using commit_debug [of False self t s'] by (cases "wait_block_commit (sched_do False self) self t s'") auto
  have cpu: "length (sy_scheds s') < CPU_MAX \<longrightarrow> trampoline_c_entry (Some idle) s' \<noteq> None" for idle by (simp add: trampoline_result)
  have prepare: "let t = runThread (sched_of self s') in
       t \<noteq> idleThread (sched_of self s') \<and> sy_state s' t = THREAD_ACTIVE \<and> distinct qs \<and> length allocs = length qs \<and> allocs_ok allocs s' \<longrightarrow>
       wait_block_prepare t (Some qs) allocs timeout s' \<noteq> None" for qs allocs timeout
    using R(7) [OF refl, of allocs qs timeout] unfolding Let_def by blast
  have "\<exists>Ts'. kernel_inv U Ts' s' \<and> (\<forall>i < length Ts'. \<forall>j < length Ts'. i \<noteq> j \<longrightarrow> set (ino (Ts' ! i)) \<inter> set (ino (Ts' ! j)) = {}) \<and>
       (\<forall>t. sy_state s' t = THREAD_BLOCKED \<longrightarrow> t \<notin> queued Ts' \<and> (\<exists>c < length (sy_scheds s'). t \<in> set (ke_blocked s' c)))"
    using inv dis blk by blast
  then show ?thesis
  proof (intro conjI allI ballI)
    show "sy_state s' t = THREAD_PRE_BLOCK \<or> sy_state s' t = THREAD_UNBLOCKING \<longrightarrow>
       wait_block_cancel t s' \<noteq> None \<and> wait_block_commit (sched_do True self) self t s' \<noteq> None \<and>
       wait_block_commit (sched_do False self) self t s' \<in> {None, wait_block_commit (sched_do True self) self t s'}" for t
      using R(5) [of t] commit [of t] by simp
    show "sy_state s' t = THREAD_PARKED \<longrightarrow> submit_now self inInterrupt t s' \<noteq> None" if "t \<in> U" for t using R(4) [OF that] by blast
  qed (rule R debug cpu prepare | assumption)+
qed

theorem kernel_never_panics_witness:
  "\<exists>s'. kernel_step {0, 1, 2, 3, 4} pair_kernel s' \<and> sy_state s' 1 = THREAD_DYING \<and> sched_do True 0 s' \<noteq> None"
proof -
  let ?s = "sched_thread_exit 0 pair_kernel" and ?U = "{0, 1, 2, 3, 4}"
  have inv: "kernel_inv ?U [pair_tree] pair_kernel" by (rule pair_kernel_inv)
  have l: "0 < length (sy_scheds pair_kernel)" using kernel_invD(2) [OF inv] by simp
  have step: "kernel_step ?U pair_kernel ?s"
    by (rule kernel_step.exit [OF l]) (simp_all add: pair_kernel_simps)
  moreover have "sched_do True 0 ?s \<noteq> None"
    using kernel_never_panics [OF inv r_into_rtranclp [of "kernel_step ?U", OF step], of 0 True 7 1 None] l by (simp add: sched_thread_exit_def)
  moreover have "sy_state ?s 1 = THREAD_DYING" by (simp add: sched_thread_exit_def pair_kernel_simps)
  ultimately show ?thesis by blast
qed

text \<open>C32. The scheduler comes up. \<^verbatim>\<open>init_early\<close> panics if there is no memory for the idle thread or for the boot thread. Otherwise,
  from a system with no CPU in which no thread runs or waits, it succeeds: the boot CPU runs the boot thread, and the
  invariant of all later steps holds, from then on in every state the system reaches. In each of them a further CPU can be
  started while there are less than \<^verbatim>\<open>CPU_MAX\<close>; it gets the next number and runs its idle thread.\<close>

theorem kernel_boots:
  assumes "unbooted U s" "boot \<in> U" "boot \<noteq> idle"
  shows "(\<forall>b. init_early None b s = None) \<and> (\<forall>i. init_early i None s = None) \<and>
    (\<exists>s1 Ts. init_early (Some idle) (Some boot) s = Some s1 \<and> kernel_inv U Ts s1 \<and> length (sy_scheds s1) = 1 \<and>
      runThread (sched_of 0 s1) = boot \<and> sy_state s1 boot = THREAD_ACTIVE \<and>
      (\<forall>s2. (kernel_step U)\<^sup>*\<^sup>* s1 s2 \<longrightarrow> (\<exists>Ts'. kernel_inv U Ts' s2) \<and>
        (\<forall>t. sy_state s2 t = THREAD_PARKED \<and> length (sy_scheds s2) < CPU_MAX \<longrightarrow>
          (\<exists>s3. trampoline_c_entry (Some t) s2 = Some s3 \<and> kernel_step U s2 s3 \<and> length (sy_scheds s3) = length (sy_scheds s2) + 1 \<and>
            runThread (sched_of (length (sy_scheds s2)) s3) = t \<and> idleThread (sched_of (length (sy_scheds s2)) s3) = t))))"
proof -
  obtain s1 Ts where s1: "init_early (Some idle) (Some boot) s = Some s1" "kernel_inv U Ts s1" "length (sy_scheds s1) = 1"
    "runThread (sched_of 0 s1) = boot" "sy_state s1 boot = THREAD_ACTIVE" by (rule init_early_result [OF assms])
  have cpu: "\<exists>s3. trampoline_c_entry (Some t) s2 = Some s3 \<and> kernel_step U s2 s3 \<and> length (sy_scheds s3) = length (sy_scheds s2) + 1 \<and>
      runThread (sched_of (length (sy_scheds s2)) s3) = t \<and> idleThread (sched_of (length (sy_scheds s2)) s3) = t"
    if t: "sy_state s2 t = THREAD_PARKED" "length (sy_scheds s2) < CPU_MAX" for s2 t
  proof -
    have call: "trampoline_c_entry (Some t) s2 = Some (with_cpu t s2)" using t(2) by (simp add: trampoline_result)
    moreover have "kernel_step U s2 (with_cpu t s2)" by (rule kernel_step.start_cpu [OF t(1) call])
    ultimately show ?thesis by (auto simp: with_cpu_def)
  qed
  show ?thesis using s1 cpu reachable_inv [OF _ s1(2)] by (simp add: init_early_panics) blast
qed

definition raw_kernel :: kernel where
  "raw_kernel =
     \<lparr>sy_nodes = (\<lambda>_. RBNODE_CREATE), sy_clients = (\<lambda>_. client 0 0 0), sy_state = (\<lambda>_. THREAD_PARKED), sy_priority = (\<lambda>_. 31),
      sy_scheds = [], sy_log = [],
      ke_wait = (\<lambda>_. \<lparr>wc_entries = [], wc_err = None, wc_deadline = 0, wc_owner = None\<rparr>), ke_entry = (\<lambda>_. None),
      ke_queues = (\<lambda>_. []), ke_blocked = (\<lambda>_. []), ke_notes = (\<lambda>_. False), ke_times = (\<lambda>_. 0), ke_reads = 0\<rparr>"

theorem kernel_boots_witness:
  "init_early (Some 10) None raw_kernel = None \<and>
   (\<exists>s1. init_early (Some 10) (Some 5) raw_kernel = Some s1 \<and> runThread (sched_of 0 s1) = 5)"
proof -
  have "unbooted {5} raw_kernel" by (simp add: unbooted_def raw_kernel_def client_def)
  then show ?thesis using kernel_boots [of "{5}" raw_kernel 5 10] by auto
qed

text \<open>C27. The scheduler interrupt: on a well-formed kernel it does not fail in a build without debug checks, and with them it panics or does the
  same. It keeps the kernel well-formed, and the thread that runs afterwards is active. If preemption was enabled or the
  thread that ran was not active, the idle thread runs afterwards exactly if the run queue is empty.\<close>

theorem sched_do_well_formed:
  assumes "kernel_ok U {} s Ts" "self < length Ts" "interruptible self s"
  shows "\<exists>s' Ts'. sched_do True self s = Some s' \<and> sched_do False self s \<in> {None, Some s'} \<and>
    kernel_ok U {} s' Ts' \<and> length Ts' = length Ts \<and>
    sy_state s' (runThread (sched_of self s')) = THREAD_ACTIVE \<and>
    (preemptCount (sched_of self s) = 0 \<or> sy_state s (runThread (sched_of self s)) \<noteq> THREAD_ACTIVE \<longrightarrow>
      (Ts' ! self = Lf \<longleftrightarrow> runThread (sched_of self s') = idleThread (sched_of self s')))"
proof -
  have debug: "sched_do False self s \<in> {None, sched_do True self s}" using sched_do_debug [of self s] by (cases "sched_do False self s") auto
  show ?thesis by (rule sched_do_result [OF assms]) (use debug in auto)
qed

theorem sched_do_well_formed_witness:
  "\<exists>s' Ts'. sched_do True 0 pair_kernel = Some s' \<and> kernel_ok {0, 1, 2, 3, 4} {} s' Ts' \<and>
     sy_state s' (runThread (sched_of 0 s')) = THREAD_ACTIVE"
  using sched_do_well_formed [OF pair_kernel_ok, of 0] by (auto simp: interruptible_def pair_kernel_simps)

end
