(* ===== verification/Sync.thy ===== *)
theory Sync
  imports Wait
begin

text \<open>
  The macros of \<^verbatim>\<open>include/kernel/sched/wait.h\<close> that block until a condition holds, and the mutexes of
  \<^verbatim>\<open>src/kernel/sync/mutex.c\<close> and \<^verbatim>\<open>rwmutex.c\<close> made with them. What the rest of the system does while a thread does not hold the
  lock of a mutex is a parameter: \<open>resume\<close> from the interrupt that blocks the thread until it runs again, \<open>env\<close> between
  two rounds of a loop that spins. \<open>alloc\<close> is the result of \<^verbatim>\<open>cache_alloc\<close> in a state.
\<close>

section \<open>State\<close>

type_synonym u32 = "32 word"
type_synonym u16 = "16 word"

record mutex =
  mx_waitQueue :: nat
  mx_owner :: "thread option"
  mx_depth :: u32

record rwmutex =
  rw_activeReaders :: u16
  rw_waitingWriters :: u16
  rw_readerQueue :: nat
  rw_writerQueue :: nat
  rw_hasWriter :: bool

record sync = kernel +
  sn_mutex :: "nat \<Rightarrow> mutex"
  sn_rwmutex :: "nat \<Rightarrow> rwmutex"

definition set_mutex :: "nat \<Rightarrow> (mutex \<Rightarrow> mutex) \<Rightarrow> 'z sync_scheme \<Rightarrow> 'z sync_scheme" where
  "set_mutex m f s = s\<lparr>sn_mutex := (sn_mutex s)(m := f (sn_mutex s m))\<rparr>"

definition set_rwmutex :: "nat \<Rightarrow> (rwmutex \<Rightarrow> rwmutex) \<Rightarrow> 'z sync_scheme \<Rightarrow> 'z sync_scheme" where
  "set_rwmutex m f s = s\<lparr>sn_rwmutex := (sn_rwmutex s)(m := f (sn_rwmutex s m))\<rparr>"

section \<open>Blocking until a condition holds\<close>

definition WAIT_ALL :: u64 where
  "WAIT_ALL = - 1"

text \<open>The loop of \<^verbatim>\<open>WAIT_BLOCK\<close> and \<^verbatim>\<open>WAIT_BLOCK_LOCK\<close>: it goes on while the condition is false and the result is 0.\<close>

partial_function (option) wait_block_loop ::
  "('z kernel_scheme \<Rightarrow> 'z kernel_scheme option) \<Rightarrow> ('z kernel_scheme \<Rightarrow> nat option) \<Rightarrow> cpu \<Rightarrow> thread \<Rightarrow> nat \<Rightarrow> ('z kernel_scheme \<Rightarrow> bool) \<Rightarrow>
    'z kernel_scheme \<Rightarrow> (unit result \<times> 'z kernel_scheme) option" where
  "wait_block_loop resume alloc self t queue condition s =
     (if condition s then Some (Inr (), s)
      else do {
        (result, s) \<leftarrow> wait_block_prepare t (Some [queue]) [alloc s] CLOCKS_NEVER s;
        (case result of
           Inl err \<Rightarrow> Some (Inl err, s)
         | Inr _ \<Rightarrow> do {
             (result, s) \<leftarrow> wait_block_commit resume self t s;
             (case result of
                Inl err \<Rightarrow> Some (Inl err, s)
              | Inr _ \<Rightarrow> wait_block_loop resume alloc self t queue condition s)
           })
      })"

definition WAIT_BLOCK where
  "WAIT_BLOCK = wait_block_loop"

definition WAIT_BLOCK_LOCK where
  "WAIT_BLOCK_LOCK = wait_block_loop"

text \<open>The loop of \<^verbatim>\<open>WAIT_BLOCK_TIMEOUT\<close>.\<close>

partial_function (option) wait_timeout_loop ::
  "('z kernel_scheme \<Rightarrow> 'z kernel_scheme option) \<Rightarrow> ('z kernel_scheme \<Rightarrow> nat option) \<Rightarrow> cpu \<Rightarrow> thread \<Rightarrow> nat \<Rightarrow> ('z kernel_scheme \<Rightarrow> bool) \<Rightarrow>
    u64 \<Rightarrow> u64 \<Rightarrow> 'z kernel_scheme \<Rightarrow> (unit result \<times> 'z kernel_scheme) option" where
  "wait_timeout_loop resume alloc self t queue condition deadline uptime s =
     (if condition s then Some (Inr (), s)
      else if deadline \<le> uptime then Some (Inl ETIMEDOUT, s)
      else do {
        let remaining = CLOCKS_REMAINING deadline uptime;
        (result, s) \<leftarrow> wait_block_prepare t (Some [queue]) [alloc s] remaining s;
        (case result of
           Inl err \<Rightarrow> Some (Inl err, s)
         | Inr _ \<Rightarrow> do {
             (result, s) \<leftarrow> wait_block_commit resume self t s;
             let (uptime, s) = clock_uptime s;
             (case result of
                Inl err \<Rightarrow> Some (Inl err, s)
              | Inr _ \<Rightarrow> wait_timeout_loop resume alloc self t queue condition deadline uptime s)
           })
      })"

definition WAIT_BLOCK_TIMEOUT where
  "WAIT_BLOCK_TIMEOUT resume alloc self t queue condition timeout s =
     (let (uptime, s) = clock_uptime s
      in wait_timeout_loop resume alloc self t queue condition (CLOCKS_DEADLINE timeout uptime) uptime s)"

text \<open>The loop of \<^verbatim>\<open>WAIT_BLOCK_LOCK_TIMEOUT\<close>, which goes on while the condition is false and the result is \<^verbatim>\<open>ERR\<close>.\<close>

partial_function (option) lock_timeout_loop ::
  "('z kernel_scheme \<Rightarrow> 'z kernel_scheme option) \<Rightarrow> ('z kernel_scheme \<Rightarrow> nat option) \<Rightarrow> cpu \<Rightarrow> thread \<Rightarrow> nat \<Rightarrow> ('z kernel_scheme \<Rightarrow> bool) \<Rightarrow>
    u64 \<Rightarrow> u64 \<Rightarrow> unit result \<Rightarrow> 'z kernel_scheme \<Rightarrow> (unit result \<times> 'z kernel_scheme) option" where
  "lock_timeout_loop resume alloc self t queue condition deadline uptime result s =
     (if \<not> condition s \<and> isl result then
        if deadline \<le> uptime then Some (Inl ETIMEDOUT, s)
        else do {
          let remaining = CLOCKS_REMAINING deadline uptime;
          (result, s) \<leftarrow> wait_block_prepare t (Some [queue]) [alloc s] remaining s;
          (case result of
             Inl err \<Rightarrow> Some (Inl err, s)
           | Inr _ \<Rightarrow> do {
               (result, s) \<leftarrow> wait_block_commit resume self t s;
               let (uptime, s) = clock_uptime s;
               lock_timeout_loop resume alloc self t queue condition deadline uptime result s
             })
        }
      else Some (result, s))"

definition WAIT_BLOCK_LOCK_TIMEOUT where
  "WAIT_BLOCK_LOCK_TIMEOUT resume alloc self t queue condition timeout s =
     (let (uptime, s) = clock_uptime s
      in lock_timeout_loop resume alloc self t queue condition (CLOCKS_DEADLINE timeout uptime) uptime (Inr ()) s)"

text \<open>Sleeping: \<^verbatim>\<open>sleepQueue\<close> is the queue of all sleeping threads.\<close>

definition sched_nanosleep where
  "sched_nanosleep resume alloc self t sleepQueue timeout s = WAIT_BLOCK_TIMEOUT resume alloc self t sleepQueue (\<lambda>_. False) timeout s"

definition sched_yield where
  "sched_yield resume alloc self t sleepQueue s = sched_nanosleep resume alloc self t sleepQueue CLOCKS_PER_MS s"

section \<open>Mutexes\<close>

definition CONFIG_MUTEX_MAX_SLOW_SPIN :: nat where
  "CONFIG_MUTEX_MAX_SLOW_SPIN = 1000"

definition mutex_init :: "nat \<Rightarrow> 'z sync_scheme \<Rightarrow> 'z sync_scheme" where
  "mutex_init m s =
     set_mutex m (\<lambda>mtx. mtx\<lparr>mx_owner := None, mx_depth := 0\<rparr>) (wait_queue_init (mx_waitQueue (sn_mutex s m)) s)"

definition mutex_deinit :: "nat \<Rightarrow> 'z sync_scheme \<Rightarrow> unit option" where
  "mutex_deinit m s = do {
     assert_that (mx_owner (sn_mutex s m) = None);
     wait_queue_deinit (mx_waitQueue (sn_mutex s m)) s
   }"

definition mutex_take :: "nat \<Rightarrow> thread \<Rightarrow> 'z sync_scheme \<Rightarrow> 'z sync_scheme" where
  "mutex_take m t = set_mutex m (\<lambda>mtx. mtx\<lparr>mx_owner := Some t, mx_depth := 1\<rparr>)"

primrec mutex_spin :: "('z sync_scheme \<Rightarrow> 'z sync_scheme) \<Rightarrow> nat \<Rightarrow> thread \<Rightarrow> nat \<Rightarrow> 'z sync_scheme \<Rightarrow> bool \<times> 'z sync_scheme" where
  "mutex_spin env m t 0 s = (False, s)"
| "mutex_spin env m t (Suc n) s =
     (if mx_owner (sn_mutex s m) = None then (True, mutex_take m t s)
      else mutex_spin env m t n (env s))"

partial_function (option) mutex_block ::
  "('z sync_scheme \<Rightarrow> 'z sync_scheme option) \<Rightarrow> ('z sync_scheme \<Rightarrow> nat option) \<Rightarrow> cpu \<Rightarrow> thread \<Rightarrow> nat \<Rightarrow> 'z sync_scheme \<Rightarrow> 'z sync_scheme option" where
  "mutex_block resume alloc self t m s = do {
     (result, s) \<leftarrow> WAIT_BLOCK_LOCK resume alloc self t (mx_waitQueue (sn_mutex s m)) (\<lambda>s. mx_owner (sn_mutex s m) = None) s;
     (case result of
        Inl _ \<Rightarrow> mutex_block resume alloc self t m s
      | Inr _ \<Rightarrow> Some s)
   }"

definition mutex_acquire_timeout ::
  "('z sync_scheme \<Rightarrow> 'z sync_scheme) \<Rightarrow> ('z sync_scheme \<Rightarrow> 'z sync_scheme option) \<Rightarrow> ('z sync_scheme \<Rightarrow> nat option) \<Rightarrow> cpu \<Rightarrow> thread \<Rightarrow> nat \<Rightarrow> u64 \<Rightarrow>
    'z sync_scheme \<Rightarrow> (bool \<times> 'z sync_scheme) option" where
  "mutex_acquire_timeout env resume alloc self t m timeout s =
     (if mx_owner (sn_mutex s m) = Some t then Some (True, set_mutex m (\<lambda>mtx. mtx\<lparr>mx_depth := mx_depth mtx + 1\<rparr>) s)
      else
        (let (acquired, s) = mutex_spin env m t CONFIG_MUTEX_MAX_SLOW_SPIN s
         in if acquired then Some (True, s)
            else if timeout = 0 then Some (False, s)
            else if timeout = CLOCKS_NEVER then do {
              s \<leftarrow> mutex_block resume alloc self t m s;
              Some (True, mutex_take m t s)
            }
            else do {
              let (uptime, s) = clock_uptime s;
              let end = uptime + timeout;
              let (now, s) = clock_uptime s;
              if now \<ge> end then Some (False, s)
              else do {
                (result, s) \<leftarrow> WAIT_BLOCK_LOCK_TIMEOUT resume alloc self t (mx_waitQueue (sn_mutex s m)) (\<lambda>s. mx_owner (sn_mutex s m) = None) (end - now) s;
                (case result of
                   Inl _ \<Rightarrow> Some (False, s)
                 | Inr _ \<Rightarrow> Some (True, mutex_take m t s))
              }
            }))"

definition mutex_acquire where
  "mutex_acquire env resume alloc self t m s = do {
     (isAcquired, s) \<leftarrow> mutex_acquire_timeout env resume alloc self t m CLOCKS_NEVER s;
     assert_that isAcquired;
     Some s
   }"

definition mutex_release :: "cpu \<Rightarrow> bool \<Rightarrow> thread \<Rightarrow> nat \<Rightarrow> 'z sync_scheme \<Rightarrow> 'z sync_scheme option" where
  "mutex_release self inInterrupt t m s = do {
     assert_that (mx_owner (sn_mutex s m) = Some t);
     let s = set_mutex m (\<lambda>mtx. mtx\<lparr>mx_depth := mx_depth mtx - 1\<rparr>) s;
     if mx_depth (sn_mutex s m) = 0 then do {
       let s = set_mutex m (\<lambda>mtx. mtx\<lparr>mx_owner := None\<rparr>) s;
       (n, s) \<leftarrow> wait_unblock self inInterrupt (mx_waitQueue (sn_mutex s m)) 1 None s;
       Some s
     }
     else Some s
   }"

section \<open>Readers and writers\<close>

definition rwmutex_init :: "nat \<Rightarrow> 'z sync_scheme \<Rightarrow> 'z sync_scheme" where
  "rwmutex_init m s =
     (let mtx = sn_rwmutex s m
      in set_rwmutex m (\<lambda>mtx. mtx\<lparr>rw_activeReaders := 0, rw_waitingWriters := 0, rw_hasWriter := False\<rparr>)
           (wait_queue_init (rw_writerQueue mtx) (wait_queue_init (rw_readerQueue mtx) s)))"

definition rwmutex_deinit :: "nat \<Rightarrow> 'z sync_scheme \<Rightarrow> unit option" where
  "rwmutex_deinit m s = do {
     assert_that (rw_activeReaders (sn_rwmutex s m) = 0);
     assert_that (rw_waitingWriters (sn_rwmutex s m) = 0);
     assert_that (\<not> rw_hasWriter (sn_rwmutex s m));
     wait_queue_deinit (rw_readerQueue (sn_rwmutex s m)) s;
     wait_queue_deinit (rw_writerQueue (sn_rwmutex s m)) s
   }"

text \<open>The conditions a reader and a writer wait for.\<close>

definition read_ready :: "rwmutex \<Rightarrow> bool" where
  "read_ready mtx \<longleftrightarrow> \<not> (rw_hasWriter mtx \<or> rw_waitingWriters mtx > 0)"

definition write_ready :: "rwmutex \<Rightarrow> bool" where
  "write_ready mtx \<longleftrightarrow> \<not> (rw_activeReaders mtx > 0 \<or> rw_hasWriter mtx)"

partial_function (option) rwmutex_block ::
  "('z sync_scheme \<Rightarrow> 'z sync_scheme option) \<Rightarrow> ('z sync_scheme \<Rightarrow> nat option) \<Rightarrow> cpu \<Rightarrow> thread \<Rightarrow> nat \<Rightarrow> nat \<Rightarrow> (rwmutex \<Rightarrow> bool) \<Rightarrow>
    'z sync_scheme \<Rightarrow> 'z sync_scheme option" where
  "rwmutex_block resume alloc self t m queue condition s = do {
     (result, s) \<leftarrow> WAIT_BLOCK_LOCK resume alloc self t queue (\<lambda>s. condition (sn_rwmutex s m)) s;
     (case result of
        Inl _ \<Rightarrow> rwmutex_block resume alloc self t m queue condition s
      | Inr _ \<Rightarrow> Some s)
   }"

text \<open>What an operation does to the counters once it has the lock.\<close>

definition read_enter :: "rwmutex \<Rightarrow> rwmutex" where
  "read_enter mtx = mtx\<lparr>rw_activeReaders := rw_activeReaders mtx + 1\<rparr>"

definition write_announce :: "rwmutex \<Rightarrow> rwmutex" where
  "write_announce mtx = mtx\<lparr>rw_waitingWriters := rw_waitingWriters mtx + 1\<rparr>"

definition write_enter :: "rwmutex \<Rightarrow> rwmutex" where
  "write_enter mtx = mtx\<lparr>rw_waitingWriters := rw_waitingWriters mtx - 1, rw_hasWriter := True\<rparr>"

definition read_leave :: "rwmutex \<Rightarrow> rwmutex" where
  "read_leave mtx = mtx\<lparr>rw_activeReaders := rw_activeReaders mtx - 1\<rparr>"

definition write_leave :: "rwmutex \<Rightarrow> rwmutex" where
  "write_leave mtx = mtx\<lparr>rw_hasWriter := False\<rparr>"

definition rwmutex_read_acquire where
  "rwmutex_read_acquire resume alloc self t mtx s =
     (case mtx of
        None \<Rightarrow> Some s
      | Some m \<Rightarrow> do {
          s \<leftarrow> rwmutex_block resume alloc self t m (rw_readerQueue (sn_rwmutex s m)) read_ready s;
          Some (set_rwmutex m read_enter s)
        })"

definition rwmutex_read_try_acquire :: "nat option \<Rightarrow> 'z sync_scheme \<Rightarrow> unit result \<times> 'z sync_scheme" where
  "rwmutex_read_try_acquire mtx s =
     (case mtx of
        None \<Rightarrow> (Inl EINVAL, s)
      | Some m \<Rightarrow>
          if rw_waitingWriters (sn_rwmutex s m) > 0 \<or> rw_hasWriter (sn_rwmutex s m) then (Inl EAGAIN, s)
          else (Inr (), set_rwmutex m read_enter s))"

definition rwmutex_read_release :: "cpu \<Rightarrow> bool \<Rightarrow> nat option \<Rightarrow> 'z sync_scheme \<Rightarrow> 'z sync_scheme option" where
  "rwmutex_read_release self inInterrupt mtx s =
     (case mtx of
        None \<Rightarrow> Some s
      | Some m \<Rightarrow> do {
          assert_that (rw_activeReaders (sn_rwmutex s m) > 0);
          let s = set_rwmutex m read_leave s;
          if rw_activeReaders (sn_rwmutex s m) = 0 \<and> rw_waitingWriters (sn_rwmutex s m) > 0 then do {
            (n, s) \<leftarrow> wait_unblock self inInterrupt (rw_writerQueue (sn_rwmutex s m)) 1 None s;
            Some s
          }
          else Some s
        })"

definition rwmutex_write_acquire where
  "rwmutex_write_acquire resume alloc self t mtx s =
     (case mtx of
        None \<Rightarrow> Some s
      | Some m \<Rightarrow> do {
          s \<leftarrow> rwmutex_block resume alloc self t m (rw_writerQueue (sn_rwmutex s m)) write_ready (set_rwmutex m write_announce s);
          Some (set_rwmutex m write_enter s)
        })"

definition rwmutex_write_try_acquire :: "nat option \<Rightarrow> 'z sync_scheme \<Rightarrow> unit result \<times> 'z sync_scheme" where
  "rwmutex_write_try_acquire mtx s =
     (case mtx of
        None \<Rightarrow> (Inl EINVAL, s)
      | Some m \<Rightarrow>
          if rw_activeReaders (sn_rwmutex s m) > 0 \<or> rw_hasWriter (sn_rwmutex s m) then (Inl EAGAIN, s)
          else (Inr (), set_rwmutex m (\<lambda>mtx. mtx\<lparr>rw_hasWriter := True\<rparr>) s))"

definition rwmutex_write_release :: "cpu \<Rightarrow> bool \<Rightarrow> nat option \<Rightarrow> 'z sync_scheme \<Rightarrow> 'z sync_scheme option" where
  "rwmutex_write_release self inInterrupt mtx s =
     (case mtx of
        None \<Rightarrow> Some s
      | Some m \<Rightarrow> do {
          let s = set_rwmutex m write_leave s;
          (n, s) \<leftarrow>
            (if rw_waitingWriters (sn_rwmutex s m) > 0 then wait_unblock self inInterrupt (rw_writerQueue (sn_rwmutex s m)) 1 None s
             else wait_unblock self inInterrupt (rw_readerQueue (sn_rwmutex s m)) WAIT_ALL None s);
          Some s
        })"

end
