(* ===== verification/Sync_Spec.thy ===== *)
theory Sync_Spec
  imports Sync Wait_Prepare
begin

text \<open>
  What the operations of the mutexes do. Acquiring without a timeout takes a mutex only when it is free; the readers and writers
  of a \<^verbatim>\<open>rwmutex_t\<close> exclude each other, and nobody sleeps who could go on.
\<close>

section \<open>Mutexes and the kernel\<close>

lemma sync_more: "kernel.more s' = kernel.more s \<Longrightarrow> sn_mutex s' = sn_mutex s \<and> sn_rwmutex s' = sn_rwmutex s" for s :: "'z sync_scheme"
  by (cases s; cases s'; simp)

lemma set_mutex_simps [simp]:
  "sn_mutex (set_mutex m f s) = (sn_mutex s)(m := f (sn_mutex s m))" "sn_rwmutex (set_mutex m f s) = sn_rwmutex s"
  "sn_rwmutex (set_rwmutex m g s) = (sn_rwmutex s)(m := g (sn_rwmutex s m))" "sn_mutex (set_rwmutex m g s) = sn_mutex s"
  by (simp_all add: set_mutex_def set_rwmutex_def)

lemma set_mutex_kernel [simp]:
  "blocked_on (set_mutex m f s) q = blocked_on s q" "blocked_on (set_rwmutex m g s) q = blocked_on s q"
  "sy_state (set_mutex m f s) = sy_state s" "sy_state (set_rwmutex m g s) = sy_state s"
  by (simp_all add: set_mutex_def set_rwmutex_def blocked_on_def)

lemma set_mutex_ok [simp]:
  "kernel_ok U X (set_mutex m f s) Ts = kernel_ok U X s Ts" "kernel_ok U X (set_rwmutex m g s) Ts = kernel_ok U X s Ts"
  by (rule kernel_ok_cong; simp add: set_mutex_def set_rwmutex_def)+

lemma unblock_sync:
  fixes s :: "'z sync_scheme"
  assumes "kernel_ok U {} s Ts" "self < length Ts" "0 < amount"
  obtains n s' Ts' where "wait_unblock self inInterrupt q amount err s = Some (n, s')" "kernel_ok U {} s' Ts'" "blocked_on s' q = {}"
    "\<forall>t \<in> blocked_on s q. sy_state s' t = THREAD_ACTIVE" "sn_mutex s' = sn_mutex s" "sn_rwmutex s' = sn_rwmutex s"
    "\<forall>t. sy_state s' t = THREAD_BLOCKED \<longleftrightarrow> sy_state s t = THREAD_BLOCKED \<and> t \<notin> blocked_on s q"
    "\<forall>p. blocked_on s' p = blocked_on s p - blocked_on s q" "length Ts' = length Ts"
proof -
  obtain s' Ts' where s': "unblock_loop self inInterrupt q amount err 0 s = Some (0 + of_nat (card (blocked_on s q)), s')"
    "unblocks U q err Ts Ts' s s'" by (rule unblock_loop_result [OF assms])
  note u = s'(2) [unfolded unblocks_def]
  show thesis using unblocks_none [OF s'(2)] that [of _ s' Ts'] s'(1) u sync_more [of s' s] by (simp add: wait_unblock_def)
qed

section \<open>Waiting for a condition\<close>

lemma case_result:
  "(case r of Inl e \<Rightarrow> f e | Inr u \<Rightarrow> g u) = Some y \<longleftrightarrow> (\<exists>e. r = Inl e \<and> f e = Some y) \<or> (r = Inr () \<and> g () = Some y)" for r :: "unit result"
  by (cases r) auto

lemma wait_block_condition:
  assumes "wait_block_loop resume alloc self t queue condition s = Some (Inr (), s')"
  shows "condition s'"
proof -
  have "fst (Inr (), s') = (Inr () :: unit result) \<longrightarrow> condition (snd (Inr () :: unit result, s'))"
    by (rule wait_block_loop.raw_induct [where P = "\<lambda>_ _ _ _ _ condition _ y. fst y = Inr () \<longrightarrow> condition (snd y)", OF _ assms])
      (auto simp: bind_eq_Some_conv case_result split: if_splits; blast)
  then show ?thesis by simp
qed

lemma mutex_block_free:
  assumes "mutex_block resume alloc self t m s = Some s'"
  shows "mx_owner (sn_mutex s' m) = None"
  by (rule mutex_block.raw_induct [where P = "\<lambda>_ _ _ _ m _ y. mx_owner (sn_mutex y m) = None", OF _ assms])
    (auto simp: bind_eq_Some_conv case_result WAIT_BLOCK_LOCK_def dest: wait_block_condition)

lemma rwmutex_block_ready:
  assumes "rwmutex_block resume alloc self t m queue condition s = Some s'"
  shows "condition (sn_rwmutex s' m)"
  by (rule rwmutex_block.raw_induct [where P = "\<lambda>_ _ _ _ m _ condition _ y. condition (sn_rwmutex y m)", OF _ assms])
    (auto simp: bind_eq_Some_conv case_result WAIT_BLOCK_LOCK_def dest: wait_block_condition)

lemma mutex_spin_cases:
  "(\<exists>s0. mutex_spin env m t n s = (True, mutex_take m t s0) \<and> mx_owner (sn_mutex s0 m) = None) \<or> (\<exists>s0. mutex_spin env m t n s = (False, s0))"
  by (induction n arbitrary: s) auto

lemma mutex_spin_owned:
  assumes "\<And>s. mx_owner (sn_mutex s m) = Some u \<Longrightarrow> mx_owner (sn_mutex (env s) m) = Some u \<and> ke_times (env s) = ke_times s" "mx_owner (sn_mutex s m) = Some u"
  shows "\<exists>s0. mutex_spin env m t n s = (False, s0) \<and> mx_owner (sn_mutex s0 m) = Some u \<and> ke_times s0 = ke_times s"
  using assms(2)
proof (induction n arbitrary: s)
  case (Suc n)
  have e: "mx_owner (sn_mutex (env s) m) = Some u" "ke_times (env s) = ke_times s" using assms(1) [OF Suc.prems] by simp_all
  from Suc.IH [OF e(1)] show ?case using Suc.prems e(2) by simp
qed auto

section \<open>Readers and writers as a system\<close>

text \<open>Where a thread is with respect to a lock. A thread that sleeps is blocked on a queue of the lock; it is woken when the queue
  is unblocked, or by a note, and then tests its condition again.\<close>

datatype rw_phase = Outside | Read_asleep | Read_woken | Reading | Write_asleep | Write_woken | Writing

record rw_sys =
  rs_lock :: rwmutex
  rs_phase :: "thread \<Rightarrow> rw_phase"

definition enter_phase :: "thread \<Rightarrow> rw_phase \<Rightarrow> rwmutex \<Rightarrow> rw_sys \<Rightarrow> rw_sys" where
  "enter_phase t p mtx r = \<lparr>rs_lock = mtx, rs_phase = (rs_phase r)(t := p)\<rparr>"

definition wake_writers :: "rw_sys \<Rightarrow> rw_sys" where
  "wake_writers r = r\<lparr>rs_phase := (\<lambda>t. if rs_phase r t = Write_asleep then Write_woken else rs_phase r t)\<rparr>"

definition wake_readers :: "rw_sys \<Rightarrow> rw_sys" where
  "wake_readers r = r\<lparr>rs_phase := (\<lambda>t. if rs_phase r t = Read_asleep then Read_woken else rs_phase r t)\<rparr>"

text \<open>What a thread does while it holds the lock.\<close>

definition read_section :: "thread \<Rightarrow> rw_sys \<Rightarrow> rw_sys" where
  "read_section t r =
     (if read_ready (rs_lock r) then enter_phase t Reading (read_enter (rs_lock r)) r
      else enter_phase t Read_asleep (rs_lock r) r)"

definition write_section :: "thread \<Rightarrow> rw_sys \<Rightarrow> rw_sys" where
  "write_section t r =
     (if write_ready (rs_lock r) then enter_phase t Writing (write_enter (rs_lock r)) r
      else enter_phase t Write_asleep (rs_lock r) r)"

definition read_release_section :: "thread \<Rightarrow> rw_sys \<Rightarrow> rw_sys" where
  "read_release_section t r =
     (let r = enter_phase t Outside (read_leave (rs_lock r)) r
      in if rw_activeReaders (rs_lock r) = 0 \<and> rw_waitingWriters (rs_lock r) > 0 then wake_writers r else r)"

definition write_release_section :: "thread \<Rightarrow> rw_sys \<Rightarrow> rw_sys" where
  "write_release_section t r =
     (let r = enter_phase t Outside (write_leave (rs_lock r)) r
      in if rw_waitingWriters (rs_lock r) > 0 then wake_writers r else wake_readers r)"

inductive rw_step :: "thread set \<Rightarrow> rw_sys \<Rightarrow> rw_sys \<Rightarrow> bool" for U where
  read_call: "t \<in> U \<Longrightarrow> rs_phase r t \<in> {Outside, Read_woken} \<Longrightarrow> rw_step U r (read_section t r)"
| read_try: "t \<in> U \<Longrightarrow> rs_phase r t = Outside \<Longrightarrow> read_ready (rs_lock r) \<Longrightarrow> rw_step U r (enter_phase t Reading (read_enter (rs_lock r)) r)"
| write_call: "t \<in> U \<Longrightarrow> rs_phase r t = Outside \<Longrightarrow> rw_step U r (write_section t (r\<lparr>rs_lock := write_announce (rs_lock r)\<rparr>))"
| write_again: "t \<in> U \<Longrightarrow> rs_phase r t = Write_woken \<Longrightarrow> rw_step U r (write_section t r)"
| write_try: "t \<in> U \<Longrightarrow> rs_phase r t = Outside \<Longrightarrow> write_ready (rs_lock r) \<Longrightarrow>
    rw_step U r (enter_phase t Writing ((rs_lock r)\<lparr>rw_hasWriter := True\<rparr>) r)"
| read_done: "t \<in> U \<Longrightarrow> rs_phase r t = Reading \<Longrightarrow> rw_step U r (read_release_section t r)"
| write_done: "t \<in> U \<Longrightarrow> rs_phase r t = Writing \<Longrightarrow> rw_step U r (write_release_section t r)"
| read_note: "rs_phase r t = Read_asleep \<Longrightarrow> rw_step U r (r\<lparr>rs_phase := (rs_phase r)(t := Read_woken)\<rparr>)"
| write_note: "rs_phase r t = Write_asleep \<Longrightarrow> rw_step U r (r\<lparr>rs_phase := (rs_phase r)(t := Write_woken)\<rparr>)"

definition count_in :: "thread set \<Rightarrow> rw_phase \<Rightarrow> rw_sys \<Rightarrow> nat" where
  "count_in U p r = card {t \<in> U. rs_phase r t = p}"

text \<open>The counters count, readers and writers exclude each other, a writer that sleeps has somebody to wait for, and so has a
  reader.\<close>

definition rw_inv :: "thread set \<Rightarrow> rw_sys \<Rightarrow> bool" where
  "rw_inv U r \<longleftrightarrow>
     (\<forall>t. t \<notin> U \<longrightarrow> rs_phase r t = Outside) \<and>
     unat (rw_activeReaders (rs_lock r)) = count_in U Reading r \<and>
     unat (rw_waitingWriters (rs_lock r)) = count_in U Write_asleep r + count_in U Write_woken r \<and>
     count_in U Writing r = (if rw_hasWriter (rs_lock r) then 1 else 0) \<and>
     (count_in U Writing r > 0 \<longrightarrow> count_in U Reading r = 0) \<and>
     (count_in U Write_asleep r > 0 \<longrightarrow> count_in U Reading r + count_in U Writing r + count_in U Write_woken r > 0) \<and>
     (count_in U Read_asleep r > 0 \<longrightarrow> count_in U Writing r + count_in U Write_asleep r + count_in U Write_woken r > 0)"

lemma rw_simps [simp]:
  "rs_lock (enter_phase t p m r) = m" "rs_phase (enter_phase t p m r) = (rs_phase r)(t := p)"
  "rs_lock (wake_writers r) = rs_lock r" "rs_lock (wake_readers r) = rs_lock r"
  by (simp_all add: enter_phase_def wake_writers_def wake_readers_def)

lemma count_cong: "rs_phase r' = rs_phase r \<Longrightarrow> count_in U p r' = count_in U p r"
  by (simp add: count_in_def)

lemma count_move:
  assumes "finite U" "t \<in> U" "rs_phase r' = (rs_phase r)(t := p)"
  shows "count_in U x r' + (if rs_phase r t = x then 1 else 0) = count_in U x r + (if p = x then 1 else 0)"
proof -
  let ?A = "{u \<in> U. rs_phase r u = x}"
  have "{u \<in> U. rs_phase r' u = x} = (if p = x then insert t ?A else ?A - {t})" using assms(2,3) by auto
  moreover have "finite ?A" "t \<in> ?A \<longleftrightarrow> rs_phase r t = x" using assms(1,2) by auto
  ultimately show ?thesis
    using card_Suc_Diff1 [of ?A t] by (auto simp: count_in_def card_insert_if)
qed

lemma count_pos: "finite U \<Longrightarrow> t \<in> U \<Longrightarrow> 0 < count_in U (rs_phase r t) r"
  by (auto simp: count_in_def card_gt_0_iff)

lemma count_wake:
  assumes "finite U"
  shows "count_in U x (wake_writers r) =
      (if x = Write_asleep then 0 else if x = Write_woken then count_in U Write_asleep r + count_in U Write_woken r else count_in U x r)"
    and "count_in U x (wake_readers r) =
      (if x = Read_asleep then 0 else if x = Read_woken then count_in U Read_asleep r + count_in U Read_woken r else count_in U x r)"
proof -
  have u: "card {t \<in> U. rs_phase r t = a \<or> rs_phase r t = b} = count_in U a r + count_in U b r" if "a \<noteq> b" for a b
  proof -
    have "{t \<in> U. rs_phase r t = a \<or> rs_phase r t = b} = {t \<in> U. rs_phase r t = a} \<union> {t \<in> U. rs_phase r t = b}" by auto
    then show ?thesis using assms that by (auto simp: count_in_def intro!: card_Un_disjoint)
  qed
  have "{t \<in> U. rs_phase (wake_writers r) t = x} =
      (if x = Write_asleep then {} else if x = Write_woken then {t \<in> U. rs_phase r t = Write_asleep \<or> rs_phase r t = Write_woken} else {t \<in> U. rs_phase r t = x})"
    by (auto simp: wake_writers_def)
  then show "count_in U x (wake_writers r) =
      (if x = Write_asleep then 0 else if x = Write_woken then count_in U Write_asleep r + count_in U Write_woken r else count_in U x r)"
    using u [of Write_asleep Write_woken] by (simp add: count_in_def)
  have "{t \<in> U. rs_phase (wake_readers r) t = x} =
      (if x = Read_asleep then {} else if x = Read_woken then {t \<in> U. rs_phase r t = Read_asleep \<or> rs_phase r t = Read_woken} else {t \<in> U. rs_phase r t = x})"
    by (auto simp: wake_readers_def)
  then show "count_in U x (wake_readers r) =
      (if x = Read_asleep then 0 else if x = Read_woken then count_in U Read_asleep r + count_in U Read_woken r else count_in U x r)"
    using u [of Read_asleep Read_woken] by (simp add: count_in_def)
qed

lemma count_bound:
  assumes "finite U" "distinct ps"
  shows "(\<Sum>p \<leftarrow> ps. count_in U p r) \<le> card U"
proof -
  have "(\<Sum>p \<leftarrow> ps. count_in U p r) = (\<Sum>p \<in> set ps. card {t \<in> U. rs_phase r t = p})"
    using assms(2) by (simp add: sum_list_distinct_conv_sum_set count_in_def)
  also have "\<dots> = card (\<Union>p \<in> set ps. {t \<in> U. rs_phase r t = p})"
    using assms(1) by (intro card_UN_disjoint [symmetric]) auto
  also have "\<dots> \<le> card U" using assms(1) by (intro card_mono) auto
  finally show ?thesis .
qed

lemma u16_step:
  fixes w :: u16
  shows "unat w + 1 < 2 ^ 16 \<Longrightarrow> unat (w + 1) = unat w + 1" "0 < unat w \<Longrightarrow> unat (w - 1) = unat w - 1"
proof -
  show "unat w + 1 < 2 ^ 16 \<Longrightarrow> unat (w + 1) = unat w + 1" by (simp add: unat_word_ariths)
  assume "0 < unat w"
  then have "1 \<le> w" by (simp add: word_le_nat_alt)
  then show "unat (w - 1) = unat w - 1" by (simp add: unat_sub)
qed

text \<open>The counters of the lock as numbers.\<close>

lemma rw_sections:
  "read_ready m \<longleftrightarrow> \<not> rw_hasWriter m \<and> unat (rw_waitingWriters m) = 0" "write_ready m \<longleftrightarrow> unat (rw_activeReaders m) = 0 \<and> \<not> rw_hasWriter m"
  "rw_waitingWriters (read_enter m) = rw_waitingWriters m" "rw_hasWriter (read_enter m) = rw_hasWriter m"
  "rw_waitingWriters (read_leave m) = rw_waitingWriters m" "rw_hasWriter (read_leave m) = rw_hasWriter m"
  "rw_activeReaders (write_announce m) = rw_activeReaders m" "rw_hasWriter (write_announce m) = rw_hasWriter m"
  "rw_activeReaders (write_enter m) = rw_activeReaders m" "rw_hasWriter (write_enter m)"
  "rw_activeReaders (write_leave m) = rw_activeReaders m" "rw_waitingWriters (write_leave m) = rw_waitingWriters m" "\<not> rw_hasWriter (write_leave m)"
  by (auto simp: read_ready_def write_ready_def read_enter_def read_leave_def write_announce_def write_enter_def write_leave_def
      unat_eq_0 word_neq_0_conv simp flip: word_neq_0_conv)

lemma rw_counters:
  "unat (rw_activeReaders m) + 1 < 2 ^ 16 \<Longrightarrow> unat (rw_activeReaders (read_enter m)) = unat (rw_activeReaders m) + 1"
  "0 < unat (rw_activeReaders m) \<Longrightarrow> unat (rw_activeReaders (read_leave m)) = unat (rw_activeReaders m) - 1"
  "unat (rw_waitingWriters m) + 1 < 2 ^ 16 \<Longrightarrow> unat (rw_waitingWriters (write_announce m)) = unat (rw_waitingWriters m) + 1"
  "0 < unat (rw_waitingWriters m) \<Longrightarrow> unat (rw_waitingWriters (write_enter m)) = unat (rw_waitingWriters m) - 1"
  using u16_step [of "rw_activeReaders m"] u16_step [of "rw_waitingWriters m"]
  by (simp_all add: read_enter_def read_leave_def write_announce_def write_enter_def)

lemma rw_invD:
  assumes "rw_inv U r"
  shows "\<forall>u. u \<notin> U \<longrightarrow> rs_phase r u = Outside" "unat (rw_activeReaders (rs_lock r)) = count_in U Reading r"
    "unat (rw_waitingWriters (rs_lock r)) = count_in U Write_asleep r + count_in U Write_woken r"
    "count_in U Writing r = (if rw_hasWriter (rs_lock r) then 1 else 0)" "count_in U Writing r > 0 \<longrightarrow> count_in U Reading r = 0"
    "count_in U Write_asleep r > 0 \<longrightarrow> count_in U Reading r + count_in U Writing r + count_in U Write_woken r > 0"
    "count_in U Read_asleep r > 0 \<longrightarrow> count_in U Writing r + count_in U Write_asleep r + count_in U Write_woken r > 0"
  using assms by (auto simp: rw_inv_def)

text \<open>A section changes the phase of one thread; then it may wake others.\<close>

lemma rw_inv_move:
  assumes U: "finite U" "card U < 2 ^ 16" "t \<in> U" and I: "rw_inv U r" and e: "r' = enter_phase t p m r" and q: "rs_phase r t = q" "q \<noteq> p"
    and readers: "unat (rw_activeReaders m) + of_bool (q = Reading) = unat (rw_activeReaders (rs_lock r)) + of_bool (p = Reading)"
    and writers: "unat (rw_waitingWriters m) + of_bool (q \<in> {Write_asleep, Write_woken}) =
      unat (rw_waitingWriters (rs_lock r)) + of_bool (p \<in> {Write_asleep, Write_woken})"
    and writer: "of_bool (rw_hasWriter m) + of_bool (q = Writing) = of_bool (rw_hasWriter (rs_lock r)) + (of_bool (p = Writing) :: nat)"
  shows "\<forall>u. u \<notin> U \<longrightarrow> rs_phase r' u = Outside" "unat (rw_activeReaders m) = count_in U Reading r'"
    "unat (rw_waitingWriters m) = count_in U Write_asleep r' + count_in U Write_woken r'" "count_in U Writing r' = of_bool (rw_hasWriter m)"
    "\<And>x. x \<notin> {p, q} \<Longrightarrow> count_in U x r' = count_in U x r" "count_in U p r' = count_in U p r + 1" "count_in U q r' + 1 = count_in U q r"
proof -
  note I = rw_invD [OF I]
  have ph: "rs_phase r' = (rs_phase r)(t := p)" by (simp add: e)
  note M = count_move [OF U(1,3) ph]
  show "\<forall>u. u \<notin> U \<longrightarrow> rs_phase r' u = Outside" using I(1) U(3) by (auto simp: ph)
  show "count_in U x r' = count_in U x r" if "x \<notin> {p, q}" for x using M [of x] that q(1) by auto
  show "count_in U p r' = count_in U p r + 1" "count_in U q r' + 1 = count_in U q r" using M [of p] M [of q] q by auto
  show "unat (rw_activeReaders m) = count_in U Reading r'"
    using M [of Reading] readers I(2) q by (auto split: if_splits)
  show "unat (rw_waitingWriters m) = count_in U Write_asleep r' + count_in U Write_woken r'"
    using M [of Write_asleep] M [of Write_woken] writers I(3) q by (auto split: if_splits)
  show "count_in U Writing r' = of_bool (rw_hasWriter m)"
    using M [of Writing] writer I(4) q by (cases "rw_hasWriter m"; cases "rw_hasWriter (rs_lock r)") (auto split: if_splits)
qed

lemma rw_room:
  assumes "finite U" "card U < 2 ^ 16" "t \<in> U" "rs_phase r t = q" "rw_inv U r"
  shows "q \<noteq> Reading \<Longrightarrow> unat (rw_activeReaders (rs_lock r)) + 1 < 2 ^ 16"
    "q \<notin> {Write_asleep, Write_woken} \<Longrightarrow> unat (rw_waitingWriters (rs_lock r)) + 1 < 2 ^ 16" "0 < count_in U q r"
proof -
  note I = rw_invD [OF assms(5)]
  show pos: "0 < count_in U q r" using count_pos [OF assms(1,3), of r] assms(4) by simp
  show "unat (rw_activeReaders (rs_lock r)) + 1 < 2 ^ 16" if "q \<noteq> Reading"
    using count_bound [OF assms(1), of "[q, Reading]" r] that pos I(2) assms(2) by simp
  show "unat (rw_waitingWriters (rs_lock r)) + 1 < 2 ^ 16" if "q \<notin> {Write_asleep, Write_woken}"
    using count_bound [OF assms(1), of "[q, Write_asleep, Write_woken]" r] that pos I(3) assms(2) by simp
qed

lemma rw_inv_phase: "rw_inv U r \<Longrightarrow> rs_phase r t \<noteq> Outside \<Longrightarrow> t \<in> U"
  using rw_invD(1) by blast

text \<open>From the numbers to the invariant.\<close>

lemma rw_inv_numbers:
  assumes "\<forall>u. u \<notin> U \<longrightarrow> rs_phase r u = Outside" "unat (rw_activeReaders (rs_lock r)) = count_in U Reading r"
    "unat (rw_waitingWriters (rs_lock r)) = count_in U Write_asleep r + count_in U Write_woken r" "count_in U Writing r = of_bool (rw_hasWriter (rs_lock r))"
    "count_in U Writing r = 0 \<or> count_in U Reading r = 0"
    "count_in U Write_asleep r = 0 \<or> 0 < count_in U Reading r \<or> 0 < count_in U Writing r \<or> 0 < count_in U Write_woken r"
    "count_in U Read_asleep r = 0 \<or> 0 < count_in U Writing r \<or> 0 < count_in U Write_asleep r \<or> 0 < count_in U Write_woken r"
  shows "rw_inv U r"
  using assms by (simp add: rw_inv_def) linarith

lemma rw_numbers:
  assumes "rw_inv U r"
  shows "count_in U Writing r = 0 \<or> count_in U Reading r = 0" "count_in U Writing r = of_bool (rw_hasWriter (rs_lock r))"
    "count_in U Write_asleep r = 0 \<or> 0 < count_in U Reading r \<or> 0 < count_in U Writing r \<or> 0 < count_in U Write_woken r"
    "count_in U Read_asleep r = 0 \<or> 0 < count_in U Writing r \<or> 0 < count_in U Write_asleep r \<or> 0 < count_in U Write_woken r"
  using rw_invD [OF assms] by (auto split: if_splits)

lemma rw_inv_enter:
  assumes U: "finite U" "card U < 2 ^ 16" "t \<in> U" and I: "rw_inv U r" and q: "rs_phase r t = q" "q \<noteq> p"
    and counters: "unat (rw_activeReaders m) + of_bool (q = Reading) = unat (rw_activeReaders (rs_lock r)) + of_bool (p = Reading)"
      "unat (rw_waitingWriters m) + of_bool (q \<in> {Write_asleep, Write_woken}) =
        unat (rw_waitingWriters (rs_lock r)) + of_bool (p \<in> {Write_asleep, Write_woken})"
      "of_bool (rw_hasWriter m) + of_bool (q = Writing) = of_bool (rw_hasWriter (rs_lock r)) + (of_bool (p = Writing) :: nat)"
    and rest: "\<And>c. (\<And>x. x \<notin> {p, q} \<Longrightarrow> c x = count_in U x r) \<Longrightarrow> c p = count_in U p r + 1 \<Longrightarrow> c q + 1 = count_in U q r \<Longrightarrow>
      (c Writing = 0 \<or> c Reading = 0) \<and> (c Write_asleep = 0 \<or> 0 < c Reading \<or> 0 < c Writing \<or> 0 < c Write_woken) \<and>
      (c Read_asleep = 0 \<or> 0 < c Writing \<or> 0 < c Write_asleep \<or> 0 < c Write_woken)"
  shows "rw_inv U (enter_phase t p m r)" (is "rw_inv U ?r")
proof -
  note M = rw_inv_move [OF U I refl q counters]
  show ?thesis
    by (rule rw_inv_numbers) (use M(1-4) rest [of "\<lambda>x. count_in U x ?r", OF M(5-7)] in simp_all)
qed

lemma read_section_inv:
  assumes U: "finite U" "card U < 2 ^ 16" "t \<in> U" and I: "rw_inv U r" and q: "rs_phase r t = Outside \<or> rs_phase r t = Read_woken"
  shows "rw_inv U (read_section t r)"
proof -
  note D = rw_invD [OF I] and N = rw_numbers [OF I] and R = rw_room [OF U refl I]
  show ?thesis
  proof (cases "read_ready (rs_lock r)")
    case True
    have c: "unat (rw_activeReaders (read_enter (rs_lock r))) = unat (rw_activeReaders (rs_lock r)) + 1"
      using R(1) q by (intro rw_counters(1)) auto
    have z: "count_in U Write_asleep r = 0" "count_in U Write_woken r = 0" "count_in U Writing r = 0" "count_in U Read_asleep r = 0"
      using True D(3) N(2,4) by (auto simp: rw_sections)
    have "rw_inv U (enter_phase t Reading (read_enter (rs_lock r)) r)"
      by (rule rw_inv_enter [OF U I refl]) (use q c z in \<open>auto simp: rw_sections\<close>)
    then show ?thesis using True by (simp add: read_section_def)
  next
    case False
    have w: "0 < count_in U Writing r \<or> 0 < count_in U Write_asleep r \<or> 0 < count_in U Write_woken r"
      using False D(3) N(2) by (auto simp: rw_sections)
    have "rw_inv U (enter_phase t Read_asleep (rs_lock r) r)"
      using q by (elim disjE; intro rw_inv_enter [OF U I]; assumption?; insert w N(1,3); simp; auto)
    then show ?thesis using False by (simp add: read_section_def)
  qed
qed

lemma announce_inv:
  assumes "rw_inv U r" "unat (rw_waitingWriters (rs_lock r)) + 1 < 2 ^ 16"
  shows "unat (rw_waitingWriters (write_announce (rs_lock r))) = count_in U Write_asleep r + count_in U Write_woken r + 1"
  using rw_counters(3) [OF assms(2)] rw_invD(3) [OF assms(1)] by simp

lemma write_call_inv:
  assumes U: "finite U" "card U < 2 ^ 16" "t \<in> U" and I: "rw_inv U r" and q: "rs_phase r t = Outside"
  shows "rw_inv U (write_section t (r\<lparr>rs_lock := write_announce (rs_lock r)\<rparr>))"
proof -
  let ?m = "write_announce (rs_lock r)"
  note D = rw_invD [OF I] and N = rw_numbers [OF I] and R = rw_room [OF U q I]
  have c: "unat (rw_waitingWriters ?m) = unat (rw_waitingWriters (rs_lock r)) + 1" using R(2) by (intro rw_counters(3)) auto
  have same: "enter_phase t p m (r\<lparr>rs_lock := ?m\<rparr>) = enter_phase t p m r" for p m by (simp add: enter_phase_def)
  show ?thesis
  proof (cases "write_ready ?m")
    case True
    have c2: "unat (rw_waitingWriters (write_enter ?m)) = unat (rw_waitingWriters (rs_lock r))" using rw_counters(4) [of ?m] c by simp
    have z: "count_in U Reading r = 0" "count_in U Writing r = 0" using True D(2) N(2) by (auto simp: rw_sections)
    have "rw_inv U (enter_phase t Writing (write_enter ?m) r)"
      by (rule rw_inv_enter [OF U I q]) (use c2 z True N in \<open>auto simp: rw_sections\<close>)
    then show ?thesis using True by (simp add: write_section_def same)
  next
    case False
    have w: "0 < count_in U Reading r \<or> 0 < count_in U Writing r" using False D(2) N(2) by (auto simp: rw_sections)
    have "rw_inv U (enter_phase t Write_asleep ?m r)"
      by (rule rw_inv_enter [OF U I q]) (use c w N(1,4) in \<open>auto simp: rw_sections\<close>)
    then show ?thesis using False by (simp add: write_section_def same)
  qed
qed

lemma write_again_inv:
  assumes U: "finite U" "card U < 2 ^ 16" "t \<in> U" and I: "rw_inv U r" and q: "rs_phase r t = Write_woken"
  shows "rw_inv U (write_section t r)"
proof -
  note D = rw_invD [OF I] and N = rw_numbers [OF I] and R = rw_room [OF U q I]
  show ?thesis
  proof (cases "write_ready (rs_lock r)")
    case True
    have c: "unat (rw_waitingWriters (write_enter (rs_lock r))) + 1 = unat (rw_waitingWriters (rs_lock r))"
      using rw_counters(4) [of "rs_lock r"] D(3) R(3) by simp
    have z: "count_in U Reading r = 0" "count_in U Writing r = 0" using True D(2) N(2) by (auto simp: rw_sections)
    have "rw_inv U (enter_phase t Writing (write_enter (rs_lock r)) r)"
      by (rule rw_inv_enter [OF U I q]) (use c z True N in \<open>auto simp: rw_sections\<close>)
    then show ?thesis using True by (simp add: write_section_def)
  next
    case False
    have w: "0 < count_in U Reading r \<or> 0 < count_in U Writing r" using False D(2) N(2) by (auto simp: rw_sections)
    have "rw_inv U (enter_phase t Write_asleep (rs_lock r) r)"
      by (rule rw_inv_enter [OF U I q]) (use w N in auto)
    then show ?thesis using False by (simp add: write_section_def)
  qed
qed

lemma read_release_inv:
  assumes U: "finite U" "card U < 2 ^ 16" "t \<in> U" and I: "rw_inv U r" and q: "rs_phase r t = Reading"
  shows "rw_inv U (read_release_section t r)"
proof -
  let ?m = "read_leave (rs_lock r)"
  let ?r = "enter_phase t Outside ?m r"
  note D = rw_invD [OF I] and N = rw_numbers [OF I] and R = rw_room [OF U q I]
  have c: "unat (rw_activeReaders ?m) + 1 = unat (rw_activeReaders (rs_lock r))" using rw_counters(2) [of "rs_lock r"] D(2) R(3) by simp
  have M: "\<forall>u. u \<notin> U \<longrightarrow> rs_phase ?r u = Outside" "unat (rw_activeReaders ?m) = count_in U Reading ?r"
    "unat (rw_waitingWriters ?m) = count_in U Write_asleep ?r + count_in U Write_woken ?r" "count_in U Writing ?r = of_bool (rw_hasWriter ?m)"
    "\<And>x. x \<notin> {Outside, Reading} \<Longrightarrow> count_in U x ?r = count_in U x r" "count_in U Reading ?r + 1 = count_in U Reading r"
    by (rule rw_inv_move [OF U I refl q]; use c in \<open>simp add: rw_sections\<close>)+
  have zero: "w = 0 \<longleftrightarrow> unat w = 0" "w > 0 \<longleftrightarrow> unat w > 0" for w :: u16 by (simp_all add: unat_eq_0 word_less_nat_alt)
  show ?thesis
  proof (cases "rw_activeReaders ?m = 0 \<and> rw_waitingWriters ?m > 0")
    case True
    have "rw_inv U (wake_writers ?r)"
      by (rule rw_inv_numbers) (use M(1-4) N M(5) [of Read_asleep] M(5) [of Writing] True R(3) count_wake(1) [OF U(1), of _ ?r] in \<open>auto simp: wake_writers_def zero\<close>)
    then show ?thesis using True by (simp add: read_release_section_def)
  next
    case False
    have "rw_inv U ?r"
      by (rule rw_inv_numbers)
        (use M(1-4) N M(5) [of Read_asleep] M(5) [of Writing] M(5) [of Write_asleep] M(5) [of Write_woken] False R(3) in \<open>auto simp: zero\<close>)
    then show ?thesis using False unfolding read_release_section_def Let_def by auto
  qed
qed

lemma write_release_inv:
  assumes U: "finite U" "card U < 2 ^ 16" "t \<in> U" and I: "rw_inv U r" and q: "rs_phase r t = Writing"
  shows "rw_inv U (write_release_section t r)"
proof -
  let ?m = "write_leave (rs_lock r)"
  let ?r = "enter_phase t Outside ?m r"
  note D = rw_invD [OF I] and N = rw_numbers [OF I] and R = rw_room [OF U q I]
  have h: "rw_hasWriter (rs_lock r)" using N(2) R(3) by (cases "rw_hasWriter (rs_lock r)") simp_all
  have M: "\<forall>u. u \<notin> U \<longrightarrow> rs_phase ?r u = Outside" "unat (rw_activeReaders ?m) = count_in U Reading ?r"
    "unat (rw_waitingWriters ?m) = count_in U Write_asleep ?r + count_in U Write_woken ?r" "count_in U Writing ?r = of_bool (rw_hasWriter ?m)"
    "\<And>x. x \<notin> {Outside, Writing} \<Longrightarrow> count_in U x ?r = count_in U x r"
    by (rule rw_inv_move [OF U I refl q]; use h in \<open>simp add: rw_sections\<close>)+
  have zero: "w > 0 \<longleftrightarrow> unat w > 0" for w :: u16 by (simp add: word_less_nat_alt)
  show ?thesis
  proof (cases "rw_waitingWriters ?m > 0")
    case True
    have "rw_inv U (wake_writers ?r)"
      by (rule rw_inv_numbers) (use M(1-4) True count_wake(1) [OF U(1), of _ ?r] in \<open>auto simp: wake_writers_def zero rw_sections\<close>)
    then show ?thesis using True by (simp add: write_release_section_def)
  next
    case False
    have "rw_inv U (wake_readers ?r)"
      by (rule rw_inv_numbers) (use M(1-4) False count_wake(2) [OF U(1), of _ ?r] in \<open>auto simp: wake_readers_def zero rw_sections\<close>)
    then show ?thesis using False by (simp add: write_release_section_def)
  qed
qed

lemma rw_step_inv:
  assumes "rw_step U r r'" and I: "rw_inv U r" and U: "finite U" "card U < 2 ^ 16"
  shows "rw_inv U r'"
  using assms(1)
proof cases
  case (read_call t)
  then show ?thesis using read_section_inv [OF U _ I] by auto
next
  case (read_try t)
  then have "r' = read_section t r" by (simp add: read_section_def)
  then show ?thesis using read_section_inv [OF U _ I] read_try by auto
next
  case (write_call t)
  then show ?thesis using write_call_inv [OF U _ I] by auto
next
  case (write_again t)
  then show ?thesis using write_again_inv [OF U _ I] by auto
next
  case (write_try t)
  note D = rw_invD [OF I] and N = rw_numbers [OF I]
  have z: "count_in U Reading r = 0" "count_in U Writing r = 0" using write_try D(2) N(2) by (auto simp: rw_sections)
  show ?thesis unfolding write_try(1)
    by (rule rw_inv_enter [OF U write_try(2) I write_try(3)]) (use z write_try(4) N in \<open>auto simp: rw_sections\<close>)
next
  case (read_done t)
  then show ?thesis using read_release_inv [OF U _ I] by auto
next
  case (write_done t)
  then show ?thesis using write_release_inv [OF U _ I] by auto
next
  case (read_note t)
  have e: "r' = enter_phase t Read_woken (rs_lock r) r" using read_note by (simp add: enter_phase_def)
  have t: "t \<in> U" by (rule rw_inv_phase [OF I]) (use read_note in simp)
  show ?thesis unfolding e by (rule rw_inv_enter [OF U t I read_note(2)]) (use rw_numbers [OF I] in auto)
next
  case (write_note t)
  have e: "r' = enter_phase t Write_woken (rs_lock r) r" using write_note by (simp add: enter_phase_def)
  have t: "t \<in> U" by (rule rw_inv_phase [OF I]) (use write_note in simp)
  show ?thesis unfolding e by (rule rw_inv_enter [OF U t I write_note(2)]) (use rw_numbers [OF I] in auto)
qed

end
