(* ===== verification/Sync_Properties.thy ===== *)
theory Sync_Properties
  imports Sync_Spec Wait_Properties
begin

text \<open>
  The properties of the mutexes of \<^verbatim>\<open>src/kernel/sync/mutex.c\<close> and \<^verbatim>\<open>rwmutex.c\<close>, and the states that witness them.
\<close>

section \<open>A lock and the threads that wait for it\<close>


lemma rw_queue_simps [simp]:
  "rw_readerQueue (read_enter m) = rw_readerQueue m" "rw_writerQueue (read_enter m) = rw_writerQueue m"
  "rw_readerQueue (read_leave m) = rw_readerQueue m" "rw_writerQueue (read_leave m) = rw_writerQueue m"
  "rw_readerQueue (write_leave m) = rw_readerQueue m" "rw_writerQueue (write_leave m) = rw_writerQueue m"
  by (simp_all add: read_enter_def read_leave_def write_leave_def)






lemma rw_reachable_inv:
  assumes "(rw_step U)\<^sup>*\<^sup>* r r'" "rw_inv U r" "finite U" "card U < 2 ^ 16"
  shows "rw_inv U r'"
  using assms(1,2) by (induction rule: rtranclp_induct) (auto intro: rw_step_inv [OF _ _ assms(3,4)])

lemma rw_start:
  assumes "rw_activeReaders (rs_lock r) = 0" "rw_waitingWriters (rs_lock r) = 0" "\<not> rw_hasWriter (rs_lock r)" "\<forall>t. rs_phase r t = Outside"
  shows "rw_inv U r"
  using assms by (simp add: rw_inv_def count_in_def)

lemma count_in_phase:
  assumes "rw_inv U r" "finite U" "p \<noteq> Outside"
  shows "count_in U p r = card {t. rs_phase r t = p}" "finite {t. rs_phase r t = p}"
proof -
  have "{t \<in> U. rs_phase r t = p} = {t. rs_phase r t = p}" using rw_inv_phase [OF assms(1)] assms(3) by auto
  then show "count_in U p r = card {t. rs_phase r t = p}" "finite {t. rs_phase r t = p}"
    using finite_subset [of _ U] assms(2) by (auto simp: count_in_def)
qed

lemma rw_in_phase:
  assumes "rw_inv U r" "finite U" "p \<noteq> Outside"
  shows "0 < count_in U p r \<longleftrightarrow> (\<exists>t. rs_phase r t = p)"
  using count_in_phase(2) [OF assms] by (simp add: count_in_phase(1) [OF assms] card_gt_0_iff)

section \<open>A kernel with locks\<close>

text \<open>Thread 1 holds the mutex and reads; threads 3 and 4 wait on queue 7 for either of them.\<close>

definition sample_sync :: sync where
  "sample_sync = kernel.extend pair_kernel (sync.fields
     (\<lambda>_. \<lparr>mx_waitQueue = 7, mx_owner = Some 1, mx_depth = 1\<rparr>)
     (\<lambda>_. \<lparr>rw_activeReaders = 1, rw_waitingWriters = 2, rw_readerQueue = 8, rw_writerQueue = 7, rw_hasWriter = False\<rparr>))"

lemma sample_sync_simps:
  "sn_mutex sample_sync m = \<lparr>mx_waitQueue = 7, mx_owner = Some 1, mx_depth = 1\<rparr>"
  "sn_rwmutex sample_sync m = \<lparr>rw_activeReaders = 1, rw_waitingWriters = 2, rw_readerQueue = 8, rw_writerQueue = 7, rw_hasWriter = False\<rparr>"
  "ke_times sample_sync = (\<lambda>_. 55)" "ke_reads sample_sync = 0" "blocked_on sample_sync q = blocked_on pair_kernel q"
  by (simp_all add: sample_sync_def kernel.defs sync.defs pair_kernel_simps blocked_on_def)


section \<open>Properties\<close>

text \<open>A mutex is only taken when it is free. Acquiring it without a time limit, or without waiting, succeeds for the owner,
  who enters once more, or in a state in which the mutex had no owner, whatever other threads do in between; a free mutex is
  taken at once.\<close>

theorem mutex_acquire_exclusive:
  assumes "timeout = 0 \<or> timeout = CLOCKS_NEVER"
  shows "(mutex_acquire_timeout env resume alloc self t m timeout s = Some (True, s') \<longrightarrow>
      (if mx_owner (sn_mutex s m) = Some t then s' = set_mutex m (\<lambda>mtx. mtx\<lparr>mx_depth := mx_depth mtx + 1\<rparr>) s
       else \<exists>s0. mx_owner (sn_mutex s0 m) = None \<and> s' = mutex_take m t s0)) \<and>
    (mx_owner (sn_mutex s m) = None \<longrightarrow> mutex_acquire_timeout env resume alloc self t m timeout s = Some (True, mutex_take m t s))"
proof (intro conjI impI)
  have spin: "mutex_spin env m t CONFIG_MUTEX_MAX_SLOW_SPIN s = (True, mutex_take m t s)" if "mx_owner (sn_mutex s m) = None"
  proof -
    obtain n where n: "CONFIG_MUTEX_MAX_SLOW_SPIN = Suc n"
      by (rule not0_implies_Suc [of CONFIG_MUTEX_MAX_SLOW_SPIN, THEN exE]) (simp_all add: CONFIG_MUTEX_MAX_SLOW_SPIN_def)
    show ?thesis using that unfolding n by simp
  qed
  show "mutex_acquire_timeout env resume alloc self t m timeout s = Some (True, mutex_take m t s)" if "mx_owner (sn_mutex s m) = None"
    using that by (simp add: mutex_acquire_timeout_def spin)
  assume r: "mutex_acquire_timeout env resume alloc self t m timeout s = Some (True, s')"
  show "if mx_owner (sn_mutex s m) = Some t then s' = set_mutex m (\<lambda>mtx. mtx\<lparr>mx_depth := mx_depth mtx + 1\<rparr>) s
     else \<exists>s0. mx_owner (sn_mutex s0 m) = None \<and> s' = mutex_take m t s0"
    using mutex_spin_cases [of env m t CONFIG_MUTEX_MAX_SLOW_SPIN s] r assms
    by (auto simp: mutex_acquire_timeout_def bind_eq_Some_conv split: if_splits) (use mutex_block_free in blast)+
qed

text \<open>C40. With a time limit a mutex is stolen. While another thread holds the mutex and the clock has not reached the limit, the
  call does not wait at all: it returns true, and the caller is the owner, whatever the allocator and the scheduler would do.\<close>

theorem mutex_timeout_steals:
  assumes "mx_owner (sn_mutex s m) = Some u" "u \<noteq> t" "timeout \<noteq> 0" "timeout \<noteq> CLOCKS_NEVER"
    and "\<And>s. mx_owner (sn_mutex s m) = Some u \<Longrightarrow> mx_owner (sn_mutex (env s) m) = Some u \<and> ke_times (env s) = ke_times s"
    and "ke_times s = (\<lambda>_. now)" "now < now + timeout"
  shows "\<exists>s'. mutex_acquire_timeout env resume alloc self t m timeout s = Some (True, s') \<and> mx_owner (sn_mutex s' m) = Some t"
proof -
  obtain s0 where s0: "mutex_spin env m t CONFIG_MUTEX_MAX_SLOW_SPIN s = (False, s0)" "mx_owner (sn_mutex s0 m) = Some u" "ke_times s0 = (\<lambda>_. now)"
    using mutex_spin_owned [of m u env s t CONFIG_MUTEX_MAX_SLOW_SPIN, OF assms(5) assms(1)] assms(6) by auto
  have nw: "\<not> now + timeout \<le> now" using assms(7) by simp
  show ?thesis using s0 assms(1-4) nw
    by (simp add: mutex_acquire_timeout_def clock_uptime_def WAIT_BLOCK_LOCK_TIMEOUT_def lock_timeout_loop.simps mutex_take_def)
qed

theorem mutex_timeout_steals_witness:
  "\<exists>s'. mx_owner (sn_mutex sample_sync 9) = Some 1 \<and> mutex_acquire_timeout id Some (\<lambda>_. None) 0 2 9 100 sample_sync = Some (True, s') \<and>
     mx_owner (sn_mutex s' 9) = Some 2"
  using mutex_timeout_steals [of sample_sync 9 1 2 100 id 55 Some "\<lambda>_. None" 0] by (simp add: sample_sync_simps CLOCKS_NEVER_def)

text \<open>Releasing: only the owner may, every other caller panics; a nested release keeps the mutex, and the last one leaves it
  free with every thread that was blocked on it runnable and the kernel well-formed.\<close>

theorem mutex_release_wakes:
  assumes "kernel_ok U {} s Ts" "self < length Ts"
  shows "(mx_owner (sn_mutex s m) \<noteq> Some t \<longrightarrow> mutex_release self inInterrupt t m s = None) \<and>
    (mx_owner (sn_mutex s m) = Some t \<longrightarrow>
      (if mx_depth (sn_mutex s m) = 1 then
         \<exists>s' Ts'. mutex_release self inInterrupt t m s = Some s' \<and> kernel_ok U {} s' Ts' \<and> mx_owner (sn_mutex s' m) = None \<and>
           blocked_on s' (mx_waitQueue (sn_mutex s m)) = {} \<and> (\<forall>u \<in> blocked_on s (mx_waitQueue (sn_mutex s m)). sy_state s' u = THREAD_ACTIVE)
       else mutex_release self inInterrupt t m s = Some (set_mutex m (\<lambda>mtx. mtx\<lparr>mx_depth := mx_depth mtx - 1\<rparr>) s)))"
proof -
  let ?s = "set_mutex m (\<lambda>mtx. mtx\<lparr>mx_owner := None\<rparr>) (set_mutex m (\<lambda>mtx. mtx\<lparr>mx_depth := mx_depth mtx - 1\<rparr>) s)"
  have ok: "kernel_ok U {} ?s Ts" using assms(1) by simp
  obtain n s' Ts' where u: "wait_unblock self inInterrupt (mx_waitQueue (sn_mutex s m)) 1 None ?s = Some (n, s')" "kernel_ok U {} s' Ts'"
    "sn_mutex s' = sn_mutex ?s" "blocked_on s' (mx_waitQueue (sn_mutex s m)) = {}"
    "\<forall>u \<in> blocked_on ?s (mx_waitQueue (sn_mutex s m)). sy_state s' u = THREAD_ACTIVE"
    by (rule unblock_sync [OF ok assms(2), of 1 inInterrupt "mx_waitQueue (sn_mutex s m)" None]) auto
  then show ?thesis by (auto simp: mutex_release_def)
qed

text \<open>C33. Readers and writers exclude each other and nobody is left asleep. From a lock as it is initialised, however many threads
  below 65536 acquire, try, are interrupted and release in whatever order: a writer is alone, the counters of the lock are the
  numbers of readers and of waiting writers, and while a thread sleeps there is an awake one that reads, writes or is about to
  test its condition as a writer, whose release wakes the sleepers.\<close>

theorem rwmutex_exclusion:
  assumes "finite U" "card U < 2 ^ 16" "rs_lock r0 = sn_rwmutex (rwmutex_init m s) m" "\<forall>t. rs_phase r0 t = Outside" "(rw_step U)\<^sup>*\<^sup>* r0 r"
  shows "(\<forall>t u. rs_phase r t = Writing \<longrightarrow> rs_phase r u \<in> {Reading, Writing} \<longrightarrow> u = t) \<and>
    unat (rw_activeReaders (rs_lock r)) = card {t. rs_phase r t = Reading} \<and>
    unat (rw_waitingWriters (rs_lock r)) = card {t. rs_phase r t = Write_asleep} + card {t. rs_phase r t = Write_woken} \<and>
    (rw_hasWriter (rs_lock r) \<longleftrightarrow> (\<exists>t. rs_phase r t = Writing)) \<and>
    ((\<exists>t. rs_phase r t \<in> {Read_asleep, Write_asleep}) \<longrightarrow> (\<exists>u. rs_phase r u \<in> {Reading, Writing, Write_woken}))"
proof (intro conjI allI impI)
  have I: "rw_inv U r" by (rule rw_reachable_inv [OF assms(5) rw_start assms(1,2)]) (use assms(3,4) in \<open>simp_all add: rwmutex_init_def Let_def\<close>)
  note D = rw_invD [OF I] and N = rw_numbers [OF I] and C = count_in_phase [OF I assms(1)] and P = rw_in_phase [OF I assms(1)]
  show "unat (rw_activeReaders (rs_lock r)) = card {t. rs_phase r t = Reading}"
    "unat (rw_waitingWriters (rs_lock r)) = card {t. rs_phase r t = Write_asleep} + card {t. rs_phase r t = Write_woken}"
    using D(2,3) C(1) by simp_all
  show "rw_hasWriter (rs_lock r) \<longleftrightarrow> (\<exists>t. rs_phase r t = Writing)" using N(2) P [of Writing] by simp
  show "\<exists>u. rs_phase r u \<in> {Reading, Writing, Write_woken}" if "\<exists>t. rs_phase r t \<in> {Read_asleep, Write_asleep}"
  proof -
    have "0 < count_in U Read_asleep r \<or> 0 < count_in U Write_asleep r" using that P [of Read_asleep] P [of Write_asleep] by auto
    then have "0 < count_in U Reading r \<or> 0 < count_in U Writing r \<or> 0 < count_in U Write_woken r" using N(3,4) by linarith
    then show ?thesis using P [of Reading] P [of Writing] P [of Write_woken] by auto
  qed
  fix t u
  assume t: "rs_phase r t = Writing" and u: "rs_phase r u \<in> {Reading, Writing}"
  have "card {t. rs_phase r t = Writing} \<le> 1" using N(2) C(1) [of Writing] by simp
  then have "u = t" if "rs_phase r u = Writing" using t that C(2) [of Writing] card_le_Suc0_iff_eq [of "{t. rs_phase r t = Writing}"] by auto
  then show "u = t" using u t P [of Writing] P [of Reading] N(1) by auto
qed

definition fresh_rw :: rw_sys where
  "fresh_rw = \<lparr>rs_lock = sn_rwmutex (rwmutex_init 0 sample_sync) 0, rs_phase = (\<lambda>_. Outside)\<rparr>"

theorem rwmutex_exclusion_witness:
  "rw_step {1, 2} fresh_rw (enter_phase 1 Writing ((rs_lock fresh_rw)\<lparr>rw_hasWriter := True\<rparr>) fresh_rw) \<and>
   unat (rw_activeReaders (rs_lock (enter_phase 1 Writing ((rs_lock fresh_rw)\<lparr>rw_hasWriter := True\<rparr>) fresh_rw))) = card ({} :: thread set)"
proof -
  let ?r = "enter_phase 1 Writing ((rs_lock fresh_rw)\<lparr>rw_hasWriter := True\<rparr>) fresh_rw"
  have step: "rw_step {1, 2} fresh_rw ?r"
    by (rule rw_step.write_try) (simp_all add: fresh_rw_def rwmutex_init_def Let_def write_ready_def)
  have none: "{t. rs_phase ?r t = Reading} = {}" by (auto simp: fresh_rw_def enter_phase_def)
  have "rs_lock fresh_rw = sn_rwmutex (rwmutex_init 0 sample_sync) 0" "\<forall>t. rs_phase fresh_rw t = Outside" "finite {1, 2 :: nat}"
    "card {1, 2 :: nat} < 2 ^ 16" by (simp_all add: fresh_rw_def)
  note rwmutex_exclusion [OF this(3,4,1,2) r_into_rtranclp [of "rw_step {1, 2}", OF step], unfolded none]
  then show ?thesis using step by blast
qed






end
