(* ===== verification/Spec2Isabelle.thy ===== *)
theory Spec2Isabelle
  imports Pmm_Properties File_Table Fifo Hash_Map_Properties Elf_Properties Paging_Properties Rbtree_Properties Linked_List
    Wait_Properties Sync_Properties
begin

text \<open>
  A verification of the core of the PatchworkOS kernel: memory management, the data structures the kernel is built on, the
  scheduler with its wait queues and mutexes, and the ELF functions that both the kernel and user programs load code with.

  \<^bold>\<open>The program.\<close> The physical memory manager \<^verbatim>\<open>src/kernel/mem/pmm.c\<close> hands out pages, counts the references to them and
  rests on the bitmaps of \<^verbatim>\<open>include/sys/bitmap.h\<close> for low memory. The page tables of \<^verbatim>\<open>include/kernel/mem/paging.h\<close> take their
  frames from it and give owned frames back. Objects are reference counted (\<^verbatim>\<open>include/kernel/utils/ref.h\<close>); the file table of
  a process (\<^verbatim>\<open>src/kernel/fs/file_table.c\<close>) holds references to files and finds descriptors with a bitmap. The scheduler
  \<^verbatim>\<open>src/kernel/sched/sched.c\<close> keeps the threads of each CPU in an augmented red-black tree (\<^verbatim>\<open>src/kernel/utils/rbtree.c\<close>); the
  wait queues \<^verbatim>\<open>src/kernel/sched/wait.c\<close> take threads out of it and submit them again, and the mutexes of
  \<^verbatim>\<open>src/kernel/sync/\<close> block on wait queues. Linked lists, hash maps and FIFO buffers are used throughout.

  \<^bold>\<open>Conventions.\<close> Machine integers are words of their width or, for the virtual times of the scheduler, integers reduced to
  their width where the code computes. A function that can panic, fault or fail to return yields an option, with \<^const>\<open>None\<close>
  for these; an errno is the left side of a sum. Structures are records, pointers to them are numbers looked up in a map,
  and state is passed explicitly. Locks are not modelled: a call is atomic, and what other CPUs do between calls is a
  sequence of steps. What a function gets from code outside the model (the clock, an allocation, a symbol) is an argument.
  Loops over a range or a structure are recursive functions; loops that may not end are partial functions into an option,
  without any fuel, and that they return is part of the theorems.

  \<^bold>\<open>The theories, in the order of the parts.\<close>

  \<^item> \<^verbatim>\<open>Prelude\<close>: words, errno, loops that may fail, arithmetic shared by all parts.

  \<^item> \<^verbatim>\<open>Bitmap\<close>: every operation of \<^verbatim>\<open>bitmap.h\<close>; a bitmap is a set of indices, the searches are exact, and region allocation is first
    fit for regions not longer than the limit and ignores the limit otherwise.

  \<^item> \<^verbatim>\<open>Pmm\<close> (state and functions of \<^verbatim>\<open>pmm.c\<close>), \<^verbatim>\<open>Pmm_Spec\<close> (the invariant that ties stack, bitmap and counts to a set of free
    pages), \<^verbatim>\<open>Pmm_Ops\<close>, \<^verbatim>\<open>Pmm_Init\<close>, \<^verbatim>\<open>Pmm_Properties\<close>: allocation and release against that set, the state after the
    boot memory map is read. The locale \<^verbatim>\<open>page_allocator\<close> is the contract, interpreted on the functions of the model.

  \<^item> \<^verbatim>\<open>Paging\<close> (entries, tables and functions of \<^verbatim>\<open>paging.h\<close> and \<^verbatim>\<open>paging_types.h\<close>), \<^verbatim>\<open>Paging_Spec\<close> (tables as a tree of frames, the
    translation of an address), \<^verbatim>\<open>Paging_Ops\<close>, \<^verbatim>\<open>Paging_Search\<close>, \<^verbatim>\<open>Paging_Properties\<close>: mapping, unmapping, clearing and the
    search for unmapped regions. The locale \<^verbatim>\<open>frame_source\<close> is what a table needs of its allocator, interpreted on the
    physical memory manager.

  \<^item> \<^verbatim>\<open>Refs\<close> and \<^verbatim>\<open>File_Table\<close>: reference counts with weak pointers; descriptors and the balance of references. The locale
    \<^verbatim>\<open>slot_index\<close> is the contract of the bitmap of descriptors.

  \<^item> \<^verbatim>\<open>Fifo\<close>: the ring buffer of \<^verbatim>\<open>fifo.h\<close> against a queue of bytes (locale \<^verbatim>\<open>byte_queue\<close>).

  \<^item> \<^verbatim>\<open>Hash_Map\<close>, \<^verbatim>\<open>Hash_Map_Spec\<close>, \<^verbatim>\<open>Hash_Map_Ops\<close>, \<^verbatim>\<open>Hash_Map_Properties\<close>: the open addressing table of \<^verbatim>\<open>map.c\<close> against a finite
    map (locale \<^verbatim>\<open>key_table\<close>).

  \<^item> \<^verbatim>\<open>Elf\<close>, \<^verbatim>\<open>Elf_Valid\<close>, \<^verbatim>\<open>Elf_Properties\<close>: the functions of \<^verbatim>\<open>src/libstd/functions/elf/\<close> over the bytes of a file; none reads outside
    a file that was accepted, and loading produces the image the segments describe.

  \<^item> \<^verbatim>\<open>Linked_List\<close>: \<^verbatim>\<open>include/sys/list.h\<close>, with the iteration macros, against lists (locale \<^verbatim>\<open>entry_queue\<close>).

  \<^item> \<^verbatim>\<open>Rbtree\<close> (functions of \<^verbatim>\<open>rbtree.c\<close>), \<^verbatim>\<open>Rbtree_Spec\<close> (the tree a heap of nodes represents), \<^verbatim>\<open>Rbtree_Swap\<close>, \<^verbatim>\<open>Rbtree_Insert\<close>,
    \<^verbatim>\<open>Rbtree_Remove\<close>, \<^verbatim>\<open>Rbtree_Iter\<close>, \<^verbatim>\<open>Rbtree_Augment\<close>, \<^verbatim>\<open>Rbtree_Properties\<close>: order, colors, heights and augmented data
    after every operation, and the iteration macros.

  \<^item> \<^verbatim>\<open>Sched\<close> (state and functions of \<^verbatim>\<open>sched.c\<close>), \<^verbatim>\<open>Sched_Spec\<close> (well-formed run queues), \<^verbatim>\<open>Sched_Ops\<close>, \<^verbatim>\<open>Sched_Select\<close>, \<^verbatim>\<open>Sched_Next\<close>,
    \<^verbatim>\<open>Sched_Lag\<close>, \<^verbatim>\<open>Sched_Properties\<close>: threads enter and leave run queues, the choice of the next thread, the sum of
    the lags.

  \<^item> \<^verbatim>\<open>Wait\<close> (functions of \<^verbatim>\<open>wait.c\<close>, the interrupt handler \<^verbatim>\<open>sched_do\<close>, notes and the start of a CPU), \<^verbatim>\<open>Wait_Spec\<close> (the invariant of
    entries, queues and blocked threads), \<^verbatim>\<open>Wait_Ops\<close>, \<^verbatim>\<open>Wait_Block\<close>, \<^verbatim>\<open>Wait_Prepare\<close>: every function keeps the
    invariant and returns. \<^verbatim>\<open>Kernel_Steps\<close> puts them together as a step relation of all CPUs, \<^verbatim>\<open>Kernel_Boot\<close> establishes its
    invariant from \<^verbatim>\<open>init_early\<close>, and \<^verbatim>\<open>Wait_Properties\<close> states what follows.

  \<^item> \<^verbatim>\<open>Sync\<close> (the blocking macros of \<^verbatim>\<open>wait.h\<close>, \<^verbatim>\<open>mutex.c\<close>, \<^verbatim>\<open>rwmutex.c\<close>), \<^verbatim>\<open>Sync_Spec\<close> (readers and writers as a step relation with its
    invariant), \<^verbatim>\<open>Sync_Properties\<close>: the functions perform those steps.

  \<^bold>\<open>Bounds.\<close> The theorems on the scheduler hold for fewer than $2^{50}$ threads, which keeps total weights below $2^{63}$;
  those on readers and writers for fewer than 65536, the range of the counters; those on lags while virtual times are
  in the range of the 128-bit arithmetic. Page counts are at most $2^{36}$, the pages of an address space, and physical addresses
  less than $2^{52}$, the width of a frame number. Every such bound is a hypothesis of the theorem that needs it.

  \<^bold>\<open>The step relation.\<close> In \<^verbatim>\<open>Kernel_Steps\<close> each call is one atomic step of one CPU. The invariant holds in all reachable states, and
  no call fails there in a build with NDEBUG; a debug build runs checks that can panic, and otherwise does the same.
  Left out is the failure of a second or later allocation in \<^verbatim>\<open>wait_block_prepare\<close>, after which entries in the queues
  are dangling, as one of the theorems shows.

  \<^bold>\<open>What the code does not do as it means to.\<close> The development proves that, too: the static bitmap of low memory starts with pages
  free that may not be; a region longer than the limit ignores it; setting flags spreads ownership; the tolerance in the
  comparison of virtual times hides eligible threads; \<^verbatim>\<open>wait_unblock\<close> wakes more threads than asked for; a mutex with a
  time limit is taken from its owner.

  \<^bold>\<open>Not modelled.\<close> The boot loader, interrupt and system call entry, descriptor tables, drivers, the log and the screen deal with
  hardware and assembly only. The file system core, processes, modules, input and output rings, address spaces, notes,
  RCU and futexes rest on user memory, function pointers of other components or interleavings inside a function.
  Object caches appear as allocations that succeed or fail, the clock as a sequence of values and timers as a log. The
  rest of the C library, the user interface library and all programs are outside the kernel core.
\<close>

end
